(* ===== verification/Utf8.thy ===== *)
theory Utf8
  imports Prelude
begin

text \<open>
  Text and its UTF-8 form.  The merge layer reads blobs as text with
  \<^verbatim>\<open>decodeUtf8Strict\<close> (opendweb-ext-sync, util.mjs): a \<^verbatim>\<open>TextDecoder("utf-8", {fatal: true})\<close>,
  and writes merged text back with \<^verbatim>\<open>Buffer.from(text, "utf8")\<close>.  A text is the list of its
  Unicode scalar values; the decoder is the WHATWG one: overlong forms, surrogates and values
  above 0x10FFFF are rejected, and one leading byte order mark is dropped.
\<close>

type_synonym utext = "nat list"

definition scalar :: "nat \<Rightarrow> bool" where
  "scalar c \<longleftrightarrow> c < 55296 \<or> (57344 \<le> c \<and> c < 1114112)"

definition scalars :: "utext \<Rightarrow> bool" where
  "scalars t \<longleftrightarrow> list_all scalar t"

definition cont :: "nat \<Rightarrow> bool" where
  "cont b \<longleftrightarrow> 128 \<le> b \<and> b < 192"

text \<open>The bytes of one scalar value, as numbers below 256.\<close>

definition enc_cp :: "nat \<Rightarrow> nat list" where
  "enc_cp c =
     (if c < 128 then [c]
      else if c < 2048 then [192 + c div 64, 128 + c mod 64]
      else if c < 65536 then [224 + c div 4096, 128 + c div 64 mod 64, 128 + c mod 64]
      else [240 + c div 262144, 128 + c div 4096 mod 64, 128 + c div 64 mod 64, 128 + c mod 64])"

text \<open>
  One step of the decoder: the scalar value at the head of the input and the rest of it.
\<close>

definition dec_cp :: "nat list \<Rightarrow> (nat \<times> nat list) option" where
  "dec_cp bs = (case bs of
     [] \<Rightarrow> None
   | a # as \<Rightarrow>
       if a < 128 then Some (a, as)
       else if 194 \<le> a \<and> a < 224 then
         (case as of
            b # r \<Rightarrow> if cont b then Some ((a - 192) * 64 + (b - 128), r) else None
          | _ \<Rightarrow> None)
       else if 224 \<le> a \<and> a < 240 then
         (case as of
            b # c # r \<Rightarrow>
              (let v = (a - 224) * 4096 + (b - 128) * 64 + (c - 128)
               in if cont b \<and> cont c \<and> 2048 \<le> v \<and> scalar v then Some (v, r) else None)
          | _ \<Rightarrow> None)
       else if 240 \<le> a \<and> a < 245 then
         (case as of
            b # c # d # r \<Rightarrow>
              (let v = (a - 240) * 262144 + (b - 128) * 4096 + (c - 128) * 64 + (d - 128)
               in if cont b \<and> cont c \<and> cont d \<and> 65536 \<le> v \<and> scalar v then Some (v, r) else None)
          | _ \<Rightarrow> None)
       else None)"

lemma digits64:
  "c div 64 * 64 + c mod 64 = (c :: nat)"
  "c div 4096 * 64 + c div 64 mod 64 = c div 64"
  "c div 262144 * 64 + c div 4096 mod 64 = c div 4096"
  using div_mult2_eq [of c 64 64] div_mult2_eq [of c 4096 64] by simp_all

lemma dm64: "r < 64 \<Longrightarrow> (q * 64 + r) div 64 = (q :: nat) \<and> (q * 64 + r) mod 64 = r"
  by simp

lemma dec_enc_cp:
  assumes "scalar c"
  shows "dec_cp (enc_cp c @ r) = Some (c, r)"
proof -
  consider "c < 128" | "128 \<le> c" "c < 2048" | "2048 \<le> c" "c < 65536" | "65536 \<le> c"
    by linarith
  then show ?thesis
  proof cases
    case 1
    then show ?thesis by (simp add: enc_cp_def dec_cp_def)
  next
    case 2
    then have "194 \<le> 192 + c div 64" "192 + c div 64 < 224" by linarith+
    moreover have "c div 64 * 64 + c mod 64 = c" by simp
    ultimately show ?thesis using 2
      by (simp add: enc_cp_def dec_cp_def cont_def)
  next
    case 3
    then have b: "224 \<le> 224 + c div 4096" "224 + c div 4096 < 240" by linarith+
    have v: "c div 4096 * 4096 + c div 64 mod 64 * 64 + c mod 64 = c"
      using digits64 [of c] by linarith
    show ?thesis using 3 b assms
      by (simp add: enc_cp_def dec_cp_def cont_def v Let_def)
  next
    case 4
    with assms have "c < 1114112" by (auto simp: scalar_def)
    then have b: "240 \<le> 240 + c div 262144" "240 + c div 262144 < 245" by linarith+
    have v: "c div 262144 * 262144 + c div 4096 mod 64 * 4096 + c div 64 mod 64 * 64 + c mod 64 = c"
      using digits64 [of c] by linarith
    show ?thesis using 4 b assms
      by (simp add: enc_cp_def dec_cp_def cont_def v Let_def)
  qed
qed

lemma enc_dec_cp:
  assumes "dec_cp bs = Some (c, r)"
  shows "bs = enc_cp c @ r \<and> scalar c"
proof -
  from assms obtain a as where bs: "bs = a # as"
    by (auto simp: dec_cp_def split: list.splits)
  consider "a < 128" | "194 \<le> a" "a < 224" | "224 \<le> a" "a < 240" | "240 \<le> a" "a < 245"
    using assms bs by (auto simp: dec_cp_def split: if_splits)
  then show ?thesis
  proof cases
    case 1
    with assms bs show ?thesis by (auto simp: dec_cp_def enc_cp_def scalar_def)
  next
    case 2
    with assms bs obtain b where as: "as = b # r" "cont b" "c = (a - 192) * 64 + (b - 128)"
      by (auto simp: dec_cp_def split: list.splits if_splits)
    obtain x y where ab: "a = 192 + x" "b = 128 + y"
      using 2 as by (auto simp: cont_def dest!: le_Suc_ex dest: le_Suc_ex)
    have xy: "a = 192 + x" "b = 128 + y" "c = x * 64 + y" "2 \<le> x" "x < 32" "y < 64"
      using 2 as ab by (simp_all add: cont_def)
    then have "128 \<le> c" "c < 2048" by linarith+
    with xy as bs show ?thesis by (simp add: enc_cp_def scalar_def)
  next
    case 3
    with assms bs obtain b d where as: "as = b # d # r" "cont b" "cont d"
        "c = (a - 224) * 4096 + (b - 128) * 64 + (d - 128)" "2048 \<le> c" "scalar c"
      by (auto simp: dec_cp_def Let_def split: list.splits if_splits)
    obtain x y z where abd: "a = 224 + x" "b = 128 + y" "d = 128 + z"
      using 3 as by (auto simp: cont_def dest!: le_Suc_ex dest: le_Suc_ex)
    have xyz: "a = 224 + x" "b = 128 + y" "d = 128 + z" "c = (x * 64 + y) * 64 + z"
        "x < 16" "y < 64" "z < 64"
      using 3 as abd by (simp_all add: cont_def)
    have "c = 4096 * x + 64 * y + z" "x \<le> 15" "y \<le> 63" "z \<le> 63" using xyz(4-7) by simp_all
    then have "c < 65536" by linarith
    moreover have "c div 4096 = x" "c div 64 mod 64 = y" "c mod 64 = z"
      using dm64 [OF xyz(7), of "x * 64 + y"] dm64 [OF xyz(6), of x] xyz(4)
        div_mult2_eq [of c 64 64] by simp_all
    ultimately show ?thesis using as bs xyz(1-3) by (simp add: enc_cp_def)
  next
    case 4
    with assms bs obtain b d e where as: "as = b # d # e # r" "cont b" "cont d" "cont e"
        "c = (a - 240) * 262144 + (b - 128) * 4096 + (d - 128) * 64 + (e - 128)"
        "65536 \<le> c" "scalar c"
      by (auto simp: dec_cp_def Let_def split: list.splits if_splits)
    obtain x y z w where abd: "a = 240 + x" "b = 128 + y" "d = 128 + z" "e = 128 + w"
      using 4 as by (auto simp: cont_def dest!: le_Suc_ex dest: le_Suc_ex)
    have xyz: "a = 240 + x" "b = 128 + y" "d = 128 + z" "e = 128 + w"
        "c = ((x * 64 + y) * 64 + z) * 64 + w" "x < 5" "y < 64" "z < 64" "w < 64"
      using 4 as abd by (simp_all add: cont_def)
    have "c div 262144 = x" "c div 4096 mod 64 = y" "c div 64 mod 64 = z" "c mod 64 = w"
      using dm64 [OF xyz(9), of "(x * 64 + y) * 64 + z"] dm64 [OF xyz(8), of "x * 64 + y"]
        dm64 [OF xyz(7), of x] xyz(5) div_mult2_eq [of c 64 64] div_mult2_eq [of c 4096 64]
      by simp_all
    with as bs xyz(1-4) show ?thesis by (simp add: enc_cp_def)
  qed
qed

lemma enc_cp_nonempty [simp]: "enc_cp c \<noteq> []"
  by (simp add: enc_cp_def)

lemma enc_cp_bytes: "scalar c \<Longrightarrow> b \<in> set (enc_cp c) \<Longrightarrow> b < 256"
  by (auto simp: enc_cp_def scalar_def split: if_splits)

text \<open>Whole texts, still as numbers.\<close>

function dec_all :: "nat list \<Rightarrow> utext option" where
  "dec_all bs =
     (if bs = [] then Some []
      else (case dec_cp bs of None \<Rightarrow> None | Some (c, r) \<Rightarrow> map_option (Cons c) (dec_all r)))"
  by pat_completeness auto
termination
proof (relation "measure length", goal_cases)
  case 1
  then show ?case by simp
next
  case (2 bs p c r)
  then have "dec_cp bs = Some (c, r)" by simp
  from enc_dec_cp [OF this] show ?case by simp
qed

declare dec_all.simps [simp del]

definition enc_all :: "utext \<Rightarrow> nat list" where
  "enc_all t = concat (map enc_cp t)"

lemma dec_enc_all: "scalars t \<Longrightarrow> dec_all (enc_all t) = Some t"
proof (induction t)
  case Nil
  then show ?case by (simp add: enc_all_def dec_all.simps)
next
  case (Cons c t)
  then have "scalar c" "dec_all (enc_all t) = Some t" by (simp_all add: scalars_def)
  then show ?case
    by (simp add: enc_all_def dec_all.simps [of "enc_cp c @ concat (map enc_cp t)"] dec_enc_cp)
qed

lemma enc_dec_all: "dec_all bs = Some t \<Longrightarrow> bs = enc_all t \<and> scalars t"
proof (induction bs arbitrary: t rule: dec_all.induct)
  case (1 bs)
  show ?case
  proof (cases "bs = []")
    case True
    with "1.prems" show ?thesis by (simp add: dec_all.simps enc_all_def scalars_def)
  next
    case False
    with "1.prems" obtain c r t' where d: "dec_cp bs = Some (c, r)"
        and t: "dec_all r = Some t'" "t = c # t'"
      by (auto simp: dec_all.simps [of bs] split: option.splits)
    from "1.IH" [OF False d refl t(1)] enc_dec_cp [OF d] t(2)
    show ?thesis by (simp add: enc_all_def scalars_def)
  qed
qed

subsection \<open>The operations of the code\<close>

text \<open>\<^verbatim>\<open>Buffer.from(text, "utf8")\<close>\<close>

definition utf8_encode :: "utext \<Rightarrow> bytes" where
  "utf8_encode t = map word_of_nat (enc_all t)"

definition bom :: nat where
  "bom = 65279"

text \<open>\<^verbatim>\<open>decodeUtf8Strict\<close>: \<^const>\<open>None\<close> is the \<^verbatim>\<open>null\<close> of the catch branch.\<close>

definition decodeUtf8Strict :: "bytes \<Rightarrow> utext option" where
  "decodeUtf8Strict bs =
     (case dec_all (map unat bs) of
        None \<Rightarrow> None
      | Some t \<Rightarrow> Some (case t of c # t' \<Rightarrow> if c = bom then t' else t | [] \<Rightarrow> []))"

lemma unat_utf8_encode: "scalars t \<Longrightarrow> map unat (utf8_encode t) = enc_all t"
proof (induction t)
  case Nil
  then show ?case by (simp add: utf8_encode_def enc_all_def)
next
  case (Cons c t)
  then have "map unat (map word_of_nat (enc_cp c) :: bytes) = enc_cp c"
    by (auto simp: scalars_def unat_of_nat intro!: map_idI dest: enc_cp_bytes)
  with Cons show ?case by (simp add: utf8_encode_def enc_all_def scalars_def)
qed

lemma utf8_encode_unat: "utf8_encode t = bs \<longleftrightarrow> map word_of_nat (enc_all t) = bs"
  by (simp add: utf8_encode_def)

lemma map_unat_inverse: "map word_of_nat (map unat bs) = (bs :: bytes)"
  by (simp add: comp_def)

text \<open>Text without a leading byte order mark survives encoding and decoding.\<close>

lemma decode_encode:
  assumes "scalars t" and "t = [] \<or> hd t \<noteq> bom"
  shows "decodeUtf8Strict (utf8_encode t) = Some t"
  using assms dec_enc_all [OF assms(1)]
  by (cases t) (simp_all add: decodeUtf8Strict_def unat_utf8_encode)

text \<open>
  A successful decode gives back the bytes it read, or those bytes without a leading byte order
  mark.
\<close>

lemma encode_decode:
  assumes "decodeUtf8Strict bs = Some t"
  shows "utf8_encode t = bs \<or> bs = utf8_encode (bom # t)"
proof -
  from assms obtain u where u: "dec_all (map unat bs) = Some u"
      and t: "t = (case u of c # u' \<Rightarrow> if c = bom then u' else u | [] \<Rightarrow> [])"
    by (auto simp: decodeUtf8Strict_def split: option.splits)
  from enc_dec_all [OF u] have "map unat bs = enc_all u" by simp
  then have "utf8_encode u = bs"
    using map_unat_inverse [of bs] by (simp add: utf8_encode_def del: map_map)
  with t show ?thesis by (auto split: list.splits if_splits)
qed

lemma decode_scalars: "decodeUtf8Strict bs = Some t \<Longrightarrow> scalars t"
  by (auto simp: decodeUtf8Strict_def scalars_def split: option.splits list.splits if_splits
      dest!: enc_dec_all)

text \<open>
  \<^verbatim>\<open>Buffer.toString("utf8")\<close>: what does not decode becomes U+FFFD, one for each maximal
  part of a sequence.
\<close>

definition bad_prefix :: "nat list \<Rightarrow> nat" where
  "bad_prefix bs =
     (case bs of
        a # b # r \<Rightarrow>
          (let second = (if a = 224 then 160 \<le> b \<and> b < 192
                         else if a = 237 then 128 \<le> b \<and> b < 160
                         else if a = 240 then 144 \<le> b \<and> b < 192
                         else if a = 244 then 128 \<le> b \<and> b < 144
                         else cont b)
           in if 224 \<le> a \<and> a \<le> 239 \<and> second then 2
              else if 240 \<le> a \<and> a \<le> 244 \<and> second
              then (case r of [] \<Rightarrow> 2 | x # _ \<Rightarrow> if cont x then 3 else 2)
              else 1)
      | _ \<Rightarrow> 1)"

function lossy :: "nat list \<Rightarrow> utext" where
  "lossy bs =
     (if bs = [] then []
      else (case dec_cp bs of
              Some (c, r) \<Rightarrow> if length r < length bs then c # lossy r else []
            | None \<Rightarrow> 65533 # lossy (drop (bad_prefix bs) bs)))"
  by pat_completeness auto
termination
proof (relation "measure length")
  fix bs :: "nat list"
  assume "bs \<noteq> []" "dec_cp bs = None"
  moreover have "0 < bad_prefix bs" by (auto simp: bad_prefix_def Let_def split: list.splits)
  ultimately show "(drop (bad_prefix bs) bs, bs) \<in> measure length" by simp
qed auto

declare lossy.simps [simp del]

end
