(* ===== verification/Store.thy ===== *)
theory Store
  imports Prelude
begin

text \<open>
  Keyed stores.  A JavaScript \<^verbatim>\<open>Map\<close> (and an object used as a table) is an association list in
  insertion order: \<open>aput\<close> is \<^verbatim>\<open>map.set\<close>, which keeps the place of a key it already
  holds and appends a new one; \<open>adel\<close> is \<^verbatim>\<open>map.delete\<close>; \<^const>\<open>map_of\<close> is \<^verbatim>\<open>map.get\<close>.
  The locale \<open>kv_store\<close> is the contract the components rely on: reference tables, object
  databases, file tables and timers are all read and written through it.
\<close>

fun aput :: "'k \<Rightarrow> 'v \<Rightarrow> ('k \<times> 'v) list \<Rightarrow> ('k \<times> 'v) list" where
  "aput k v [] = [(k, v)]"
| "aput k v ((a, b) # xs) = (if a = k then (k, v) # xs else (a, b) # aput k v xs)"

definition adel :: "'k \<Rightarrow> ('k \<times> 'v) list \<Rightarrow> ('k \<times> 'v) list" where
  "adel k xs = filter (\<lambda>p. fst p \<noteq> k) xs"

definition akeys :: "('k \<times> 'v) list \<Rightarrow> 'k list" where
  "akeys xs = map fst xs"

lemma map_of_aput [simp]: "map_of (aput k v xs) = (map_of xs)(k \<mapsto> v)"
  by (induction k v xs rule: aput.induct) (auto simp: fun_upd_twist)

lemma map_of_adel [simp]: "map_of (adel k xs) = (map_of xs)(k := None)"
proof
  fix x
  show "map_of (adel k xs) x = ((map_of xs)(k := None)) x"
    by (induction xs) (auto simp: adel_def)
qed

lemma set_akeys_aput [simp]: "set (akeys (aput k v xs)) = insert k (set (akeys xs))"
  by (induction k v xs rule: aput.induct) (auto simp: akeys_def)

lemma akeys_aput_old: "k \<in> set (akeys xs) \<Longrightarrow> akeys (aput k v xs) = akeys xs"
  by (induction k v xs rule: aput.induct) (auto simp: akeys_def)

lemma akeys_aput_new: "k \<notin> set (akeys xs) \<Longrightarrow> akeys (aput k v xs) = akeys xs @ [k]"
  by (induction k v xs rule: aput.induct) (auto simp: akeys_def)

lemma distinct_aput [wf_intros]: "distinct (akeys xs) \<Longrightarrow> distinct (akeys (aput k v xs))"
  by (cases "k \<in> set (akeys xs)") (simp_all add: akeys_aput_old akeys_aput_new)

lemma akeys_adel: "akeys (adel k xs) = filter (\<lambda>x. x \<noteq> k) (akeys xs)"
  by (induction xs) (auto simp: akeys_def adel_def)

lemma distinct_adel [wf_intros]: "distinct (akeys xs) \<Longrightarrow> distinct (akeys (adel k xs))"
  by (simp add: akeys_adel)

lemma dom_map_of_akeys: "dom (map_of xs) = set (akeys xs)"
  by (simp add: akeys_def dom_map_of_conv_image_fst)

lemma map_of_None_akeys: "map_of xs k = None \<longleftrightarrow> k \<notin> set (akeys xs)"
  by (simp add: akeys_def map_of_eq_None_iff)

locale kv_store =
  fixes get :: "'s \<Rightarrow> 'k \<Rightarrow> 'v option"
    and put :: "'k \<Rightarrow> 'v \<Rightarrow> 's \<Rightarrow> 's"
    and del :: "'k \<Rightarrow> 's \<Rightarrow> 's"
    and keys :: "'s \<Rightarrow> 'k list"
    and wf :: "'s \<Rightarrow> bool"
  assumes get_put: "wf s \<Longrightarrow> get (put k v s) = (get s)(k \<mapsto> v)"
    and get_del: "wf s \<Longrightarrow> get (del k s) = (get s)(k := None)"
    and set_keys: "wf s \<Longrightarrow> set (keys s) = dom (get s)"
    and wf_put: "wf s \<Longrightarrow> wf (put k v s)"
    and wf_del: "wf s \<Longrightarrow> wf (del k s)"
begin

lemma get_put_same: "wf s \<Longrightarrow> get (put k v s) k = Some v"
  by (simp add: get_put)

lemma get_put_other: "wf s \<Longrightarrow> k' \<noteq> k \<Longrightarrow> get (put k v s) k' = get s k'"
  by (simp add: get_put)

lemma put_put: "wf s \<Longrightarrow> get (put k v (put k w s)) = get (put k v s)"
  by (simp add: get_put wf_put)

lemma put_commute:
  "wf s \<Longrightarrow> k \<noteq> k' \<Longrightarrow> get (put k v (put k' w s)) = get (put k' w (put k v s))"
  by (simp add: get_put wf_put fun_upd_twist)

lemma del_put_new: "wf s \<Longrightarrow> get s k = None \<Longrightarrow> get (del k (put k v s)) = get s"
  by (auto simp: get_put get_del wf_put)

text \<open>Writing a batch of pairs, the last one of a key winning.\<close>

definition put_all :: "('k \<times> 'v) list \<Rightarrow> 's \<Rightarrow> 's" where
  "put_all ps s = fold (\<lambda>(k, v). put k v) ps s"

lemma put_all: "wf s \<Longrightarrow> wf (put_all ps s) \<and> get (put_all ps s) = get s ++ map_of (rev ps)"
proof (induction ps arbitrary: s)
  case Nil
  then show ?case by (simp add: put_all_def)
next
  case (Cons p ps)
  obtain k v where p: "p = (k, v)" by force
  from Cons.prems have "wf (put k v s)" by (rule wf_put)
  from Cons.IH [OF this] Cons.prems show ?case
    by (auto simp: put_all_def p get_put map_add_def split: option.splits)
qed

end

interpretation am: kv_store map_of aput adel akeys "\<lambda>xs. distinct (akeys xs)"
  by unfold_locales (simp_all add: dom_map_of_akeys distinct_aput distinct_adel)

declare am.get_put_same [store_simps] am.get_put_other [store_simps] am.del_put_new [store_simps]

end
