(* ===== verification/Objects.thy ===== *)
theory Objects
  imports Store
begin

text \<open>
  The object database and the references of a repository (opendweb-ext-sync, objects.mjs).

  A repository directory is its loose objects, by object id, each with its type and content, and
  its loose reference files.  What the code takes from libraries outside the repository is the
  argument \<open>git_lib\<close>: the SHA-1 digest in hex, and isomorphic-git's encodings of trees and
  commits.  Facts about them that the theorems need are named hypotheses of the theorems.
\<close>

datatype etype = Blob | Tree

record tree_entry =
  te_mode :: string
  te_path :: string
  te_type :: etype
  te_oid :: oid

record commit =
  c_message :: string
  c_tree :: oid
  c_parent :: "oid list"
  c_authorName :: string
  c_authorEmail :: string
  c_timestamp :: int

record git_lib =
  sha1 :: "bytes \<Rightarrow> oid"
  enc_tree :: "tree_entry list \<Rightarrow> bytes"
  dec_tree :: "bytes \<Rightarrow> tree_entry list option"
  enc_commit :: "commit \<Rightarrow> bytes"
  dec_commit :: "bytes \<Rightarrow> commit option"

record gitdir =
  objs :: "(oid \<times> (string \<times> bytes)) list"
  refs :: "(string \<times> oid) list"

definition gd_wf :: "gitdir \<Rightarrow> bool" where
  "gd_wf gd \<longleftrightarrow> distinct (akeys (objs gd)) \<and> distinct (akeys (refs gd))"

text \<open>Errors: a thrown object with a stable \<^verbatim>\<open>code\<close>, the missing list of a closure walk, or a
  plain \<^verbatim>\<open>Error\<close> with (the start of) its message.\<close>

datatype err = Code string | Missing "oid list" | Thrown string

subsection \<open>References\<close>

definition GROUP_REF :: string where
  "GROUP_REF = ''refs/heads/main''"

definition deviceRef :: "string \<Rightarrow> err + string" where
  "deviceRef endpointId =
     (if \<not> hex_between 8 64 endpointId then Inl (Thrown ''endpointId must be hex'')
      else Inr (''refs/devices/'' @ endpointId @ ''/main''))"

text \<open>The capture group of \<^verbatim>\<open>/^refs\/devices\/([0-9a-f]{8,64})\/main$/\<close>.\<close>

definition device_of_ref :: "string \<Rightarrow> string option" where
  "device_of_ref ref =
     (let body = drop 13 ref; n = length body - 5; dev = take n body
      in if startsWith ref ''refs/devices/'' \<and> drop n body = ''/main'' \<and> hex_between 8 64 dev
         then Some dev else None)"

definition isAllowedRef :: "string \<Rightarrow> bool" where
  "isAllowedRef ref \<longleftrightarrow> ref = GROUP_REF \<or> device_of_ref ref \<noteq> None"

text \<open>
  \<^verbatim>\<open>listRefsDirect\<close>: every loose reference file whose trimmed content is a 40-digit hex id.
\<close>

definition listRefsDirect :: "gitdir \<Rightarrow> (string \<times> oid) list" where
  "listRefsDirect gd = filter (\<lambda>(r, v). hex40 v) (refs gd)"

definition readRef :: "gitdir \<Rightarrow> string \<Rightarrow> oid option" where
  "readRef gd ref = map_of (refs gd) ref"

definition writeRef :: "gitdir \<Rightarrow> string \<Rightarrow> oid \<Rightarrow> err + gitdir" where
  "writeRef gd ref v =
     (if \<not> isAllowedRef ref then Inl (Thrown ''ref not allowed'')
      else Inr (gd\<lparr>refs := aput ref v (refs gd)\<rparr>))"

lemma deviceRef_device:
  assumes "deviceRef e = Inr r"
  shows "device_of_ref r = Some e"
proof -
  from assms have "hex_between 8 64 e" "r = ''refs/devices/'' @ (e @ ''/main'')"
    by (auto simp: deviceRef_def split: if_splits)
  moreover have "length (e @ ''/main'') - 5 = length e" by simp
  ultimately show ?thesis
    by (simp add: device_of_ref_def startsWith_def)
qed

lemma device_of_ref_SomeD:
  assumes "device_of_ref ref = Some e"
  shows "ref = ''refs/devices/'' @ e @ ''/main'' \<and> hex_between 8 64 e"
proof -
  define body where "body = drop 13 ref"
  define n where "n = length body - 5"
  from assms have a: "startsWith ref ''refs/devices/''" "drop n body = ''/main''"
      "hex_between 8 64 (take n body)" "e = take n body"
    by (auto simp: device_of_ref_def Let_def body_def n_def split: if_splits)
  from a(1) obtain t where t: "ref = ''refs/devices/'' @ t" by (auto simp: startsWith_iff)
  then have "ref = ''refs/devices/'' @ body" by (simp add: body_def)
  moreover have "take n body @ drop n body = body" by (rule append_take_drop_id)
  ultimately have "ref = ''refs/devices/'' @ e @ ''/main''" by (simp only: a(2) a(4))
  with a(3) show ?thesis by (simp only: a(4) simp_thms)
qed

text \<open>Device references of different devices differ, and none is the group reference.\<close>

lemma deviceRef_inj: "deviceRef a = Inr r \<Longrightarrow> deviceRef b = Inr r \<Longrightarrow> a = b"
  by (metis deviceRef_device option.inject)

lemma deviceRef_not_group: "deviceRef a = Inr r \<Longrightarrow> r \<noteq> GROUP_REF"
  by (auto simp: deviceRef_def GROUP_REF_def split: if_splits)

lemma deviceRef_allowed: "deviceRef a = Inr r \<Longrightarrow> isAllowedRef r"
  by (simp add: isAllowedRef_def deviceRef_device)

lemma writeRef_wf [wf_intros]: "gd_wf gd \<Longrightarrow> writeRef gd ref v = Inr gd' \<Longrightarrow> gd_wf gd'"
  by (auto simp: writeRef_def gd_wf_def intro: distinct_aput split: if_splits)

lemma readRef_writeRef [store_simps]:
  "writeRef gd ref v = Inr gd' \<Longrightarrow> readRef gd' r = (if r = ref then Some v else readRef gd r)"
  by (auto simp: writeRef_def readRef_def split: if_splits)

lemma objs_writeRef [store_simps]: "writeRef gd ref v = Inr gd' \<Longrightarrow> objs gd' = objs gd"
  by (auto simp: writeRef_def split: if_splits)

subsection \<open>Objects\<close>

text \<open>Decimal digits of a length, as \<^verbatim>\<open>`${n}`\<close> prints it.\<close>

function dec_str :: "nat \<Rightarrow> string" where
  "dec_str n =
     (if n < 10 then [char_of (48 + n)] else dec_str (n div 10) @ [char_of (48 + n mod 10)])"
  by pat_completeness auto
termination by (relation "measure id") auto

declare dec_str.simps [simp del]

definition ascii :: "string \<Rightarrow> bytes" where
  "ascii s = map (\<lambda>c. word_of_nat (of_char c)) s"

definition wrap_object :: "string \<Rightarrow> bytes \<Rightarrow> bytes" where
  "wrap_object ty content = ascii (ty @ '' '' @ dec_str (length content)) @ [0] @ content"

definition objectOid :: "git_lib \<Rightarrow> string \<Rightarrow> bytes \<Rightarrow> oid" where
  "objectOid L ty content = sha1 L (wrap_object ty content)"

definition readObject :: "gitdir \<Rightarrow> oid \<Rightarrow> (string \<times> bytes) option" where
  "readObject gd i = map_of (objs gd) i"

definition hasObject :: "gitdir \<Rightarrow> oid \<Rightarrow> bool" where
  "hasObject gd i \<longleftrightarrow> readObject gd i \<noteq> None"

text \<open>
  Importing an object under a given id: an existing file is kept, a new one appears whole.
\<close>

definition importLooseObjectAtomic :: "gitdir \<Rightarrow> string \<Rightarrow> bytes \<Rightarrow> oid \<Rightarrow> gitdir" where
  "importLooseObjectAtomic gd ty content i =
     (if hasObject gd i then gd else gd\<lparr>objs := aput i (ty, content) (objs gd)\<rparr>)"

definition writeObject :: "git_lib \<Rightarrow> gitdir \<Rightarrow> string \<Rightarrow> bytes \<Rightarrow> oid \<times> gitdir" where
  "writeObject L gd ty content =
     (let i = objectOid L ty content in (i, importLooseObjectAtomic gd ty content i))"

definition writeBlob :: "git_lib \<Rightarrow> gitdir \<Rightarrow> bytes \<Rightarrow> oid \<times> gitdir" where
  "writeBlob L gd content = writeObject L gd ''blob'' content"

definition writeCommitOid :: "git_lib \<Rightarrow> gitdir \<Rightarrow> commit \<Rightarrow> oid \<times> gitdir" where
  "writeCommitOid L gd spec =
     writeObject L gd ''commit''
       (enc_commit L (spec\<lparr>c_timestamp := c_timestamp spec div 1000\<rparr>))"

definition readCommitParsed :: "git_lib \<Rightarrow> gitdir \<Rightarrow> oid \<Rightarrow> commit option" where
  "readCommitParsed L gd i =
     (case readObject gd i of
        Some (ty, content) \<Rightarrow> if ty = ''commit'' then dec_commit L content else None
      | None \<Rightarrow> None)"

text \<open>Every stored object is named by its own digest.\<close>

definition self_named :: "git_lib \<Rightarrow> gitdir \<Rightarrow> bool" where
  "self_named L gd \<longleftrightarrow> (\<forall>i ty c. readObject gd i = Some (ty, c) \<longrightarrow> i = objectOid L ty c)"

lemma refs_import [store_simps]: "refs (importLooseObjectAtomic gd ty c i) = refs gd"
  by (simp add: importLooseObjectAtomic_def)

lemma readRef_import [store_simps]: "readRef (importLooseObjectAtomic gd ty c i) = readRef gd"
  by (simp add: readRef_def refs_import fun_eq_iff)

lemma readObject_import [store_simps]:
  "readObject (importLooseObjectAtomic gd ty c i) j =
     (if j = i \<and> \<not> hasObject gd i then Some (ty, c) else readObject gd j)"
  by (auto simp: importLooseObjectAtomic_def readObject_def hasObject_def)

text \<open>One store holds what another holds.\<close>

definition grows :: "gitdir \<Rightarrow> gitdir \<Rightarrow> bool" where
  "grows gd gd' \<longleftrightarrow> (\<forall>i v. readObject gd i = Some v \<longrightarrow> readObject gd' i = Some v)"

lemma grows_refl [simp]: "grows gd gd" by (simp add: grows_def)
lemma grows_trans: "grows a b \<Longrightarrow> grows b c \<Longrightarrow> grows a c" by (simp add: grows_def)

lemma import_keeps: "readObject gd j = Some v \<Longrightarrow>
    readObject (importLooseObjectAtomic gd ty c i) j = Some v"
  by (cases v) (auto simp: readObject_import hasObject_def)

lemma import_wf [wf_intros]: "gd_wf gd \<Longrightarrow> gd_wf (importLooseObjectAtomic gd ty c i)"
  by (auto simp: importLooseObjectAtomic_def gd_wf_def intro: distinct_aput)

lemma import_self_named [wf_intros]:
  "self_named L gd \<Longrightarrow> i = objectOid L ty c \<Longrightarrow> self_named L (importLooseObjectAtomic gd ty c i)"
  by (auto simp: self_named_def readObject_import)

lemma import_idem:
  "importLooseObjectAtomic (importLooseObjectAtomic gd ty c i) ty c i =
     importLooseObjectAtomic gd ty c i"
  by (auto simp: importLooseObjectAtomic_def hasObject_def readObject_def)

lemma writeObject_snd: "snd (writeObject L gd ty c) = importLooseObjectAtomic gd ty c (objectOid L ty c)"
  by (simp add: writeObject_def Let_def)

lemma writeObject_fst: "fst (writeObject L gd ty c) = objectOid L ty c"
  by (simp add: writeObject_def Let_def)

subsection \<open>A concrete library for examples\<close>

text \<open>
  Witnesses evaluate the model with this library: a 160-bit polynomial digest in hex, and a
  serialisation of trees and commits as sequences of zero-terminated fields.
\<close>

definition hex_digit :: "nat \<Rightarrow> char" where
  "hex_digit n = (if n < 10 then char_of (48 + n) else char_of (87 + n))"

fun hex_str :: "nat \<Rightarrow> nat \<Rightarrow> string" where
  "hex_str 0 n = []"
| "hex_str (Suc k) n = hex_str k (n div 16) @ [hex_digit (n mod 16)]"

definition demo_sha1 :: "bytes \<Rightarrow> oid" where
  "demo_sha1 bs = hex_str 40 (foldl (\<lambda>a b. (a * 257 + unat b + 1) mod 2 ^ 160) 7 bs)"

fun fields :: "nat list \<Rightarrow> nat list \<Rightarrow> string list" where
  "fields [] acc = []"
| "fields (b # bs) acc =
     (if b = 0 then map char_of (rev acc) # fields bs [] else fields bs (b # acc))"

fun entries_of :: "string list \<Rightarrow> tree_entry list option" where
  "entries_of [] = Some []"
| "entries_of (m # p # t # i # r) =
     map_option (Cons \<lparr>te_mode = m, te_path = p, te_type = (if t = ''t'' then Tree else Blob), te_oid = i\<rparr>)
       (entries_of r)"
| "entries_of _ = None"

definition demo_lib :: git_lib where
  "demo_lib = \<lparr>sha1 = demo_sha1,
     enc_tree = (\<lambda>es. concat (map (\<lambda>e.
       concat (map (\<lambda>s. ascii s @ [0])
         [te_mode e, te_path e, (if te_type e = Tree then ''t'' else ''b''), te_oid e])) es)),
     dec_tree = (\<lambda>bs. entries_of (fields (map unat bs) [])),
     enc_commit = (\<lambda>c. concat (map (\<lambda>s. ascii s @ [0])
       (c_message c # c_authorName c # c_authorEmail c # dec_str (nat (c_timestamp c)) # c_tree c
         # c_parent c))),
     dec_commit = (\<lambda>bs. (case fields (map unat bs) [] of
         m # n # e # t # tr # ps \<Rightarrow>
           Some \<lparr>c_message = m, c_tree = tr, c_parent = ps, c_authorName = n, c_authorEmail = e,
             c_timestamp = 0\<rparr>
       | _ \<Rightarrow> None))\<rparr>"

text \<open>Objects named by their own content: an injective digest that evaluates at once.\<close>

definition naming_lib :: git_lib where
  "naming_lib = demo_lib\<lparr>sha1 := map (\<lambda>b. char_of (unat b))\<rparr>"

definition empty_gitdir :: gitdir where
  "empty_gitdir = \<lparr>objs = [], refs = []\<rparr>"

end
