(* ===== verification/Merge.thy ===== *)
theory Merge
  imports Utf8 Objects
begin

text \<open>
  The three-way tree merge (opendweb-ext-sync, merge.mjs).

  A flat tree maps full paths to entries, blobs and directories alike.  \<open>mergeTrees\<close> visits
  every path of the three trees in order and decides it by its base, ours and theirs entries:
  taken over, merged as text, propagated mode, deleted, or a conflict.  The line merge itself is
  node-diff3's \<^verbatim>\<open>diff3Merge\<close>, a library outside the repository: it is the argument \<open>diff3\<close>,
  a function of the ours, base and theirs texts, about which nothing is assumed unless a theorem
  says so.
\<close>

definition stableSides :: "string \<Rightarrow> string \<Rightarrow> string \<times> string" where
  "stableSides a b = (if a \<le> b then (a, b) else (b, a))"

lemma stableSides_swap: "stableSides a b = stableSides b a"
  by (auto simp: stableSides_def)

subsection \<open>Data\<close>

record flat_entry =
  fe_oid :: oid
  fe_mode :: string
  fe_type :: etype

type_synonym flat_tree = "(string \<times> flat_entry) list"

record hunk =
  h_a :: "utext list"
  h_o :: "utext list"
  h_b :: "utext list"
  h_aIndex :: nat
  h_oIndex :: nat
  h_bIndex :: nat

datatype region = ROk "utext list" | RConflict hunk

type_synonym diff3_fun = "utext \<Rightarrow> utext \<Rightarrow> utext \<Rightarrow> region list"

datatype conflict_level = LHunk | LFile

datatype conflict_kind =
  KText | KBinary | KUtf8 | KSize | KDeleteModify | KType | KMode | KAddAdd

record merge_conflict =
  mc_path :: string
  mc_level :: conflict_level
  mc_kind :: conflict_kind
  mc_base :: "(oid \<times> string) option"
  mc_ours :: "(oid \<times> string) option"
  mc_theirs :: "(oid \<times> string) option"
  mc_hunks :: "hunk list"

record merged_entry =
  me_path :: string
  me_oid :: oid
  me_mode :: string

record merge_outcome =
  mergedEntries :: "merged_entry list"
  conflicts :: "merge_conflict list"
  autoMerged :: "string list"
  propagatedMode :: "string list"

definition empty_outcome :: merge_outcome where
  "empty_outcome = \<lparr>mergedEntries = [], conflicts = [], autoMerged = [], propagatedMode = []\<rparr>"

definition TEXT_MERGE_MAX_BYTES :: nat where
  "TEXT_MERGE_MAX_BYTES = 16 * 1024 * 1024"

definition newline :: nat where
  "newline = 10"

subsection \<open>Text merge and hunk decisions\<close>

datatype text_merge = Clean utext | Dirty "hunk list" utext

text \<open>The loop over the regions: collected hunks and lines.\<close>

fun collect_regions :: "region list \<Rightarrow> hunk list \<times> utext list" where
  "collect_regions [] = ([], [])"
| "collect_regions (ROk ls # rs) = (let (hs, out) = collect_regions rs in (hs, ls @ out))"
| "collect_regions (RConflict h # rs) = (let (hs, out) = collect_regions rs in (h # hs, out))"

definition diff3TextMerge :: "diff3_fun \<Rightarrow> utext \<Rightarrow> utext \<Rightarrow> utext \<Rightarrow> text_merge" where
  "diff3TextMerge diff3 ours base theirs =
     (let (hunks, lines) = collect_regions (diff3 ours base theirs);
          text = join_with newline lines
      in if hunks \<noteq> [] then Dirty hunks text else Clean text)"

datatype choice = COurs | CTheirs | CEdit

record decision =
  d_hunkIndex :: nat
  d_choice :: choice
  d_text :: "utext option"

text \<open>
  The loop of \<^verbatim>\<open>applyHunkDecisions\<close>: the next hunk index runs with the conflict regions; reading
  past the end of \<open>hunks\<close> is the \<^verbatim>\<open>TypeError\<close> of a property of \<^verbatim>\<open>undefined\<close>.
\<close>

fun apply_regions ::
  "hunk list \<Rightarrow> decision list \<Rightarrow> region list \<Rightarrow> nat \<Rightarrow> err + utext list" where
  "apply_regions hunks ds [] i = Inr []"
| "apply_regions hunks ds (ROk ls # rs) i =
     rbind (apply_regions hunks ds rs i) (\<lambda>out. Inr (ls @ out))"
| "apply_regions hunks ds (RConflict h # rs) i =
     rbind
       (case find_first (\<lambda>d. d_hunkIndex d = i) ds of
          None \<Rightarrow> Inl (Thrown ''missing decision for hunk'')
        | Some d \<Rightarrow>
            if d_choice d = CEdit then
              (case d_text d of
                 None \<Rightarrow> Inl (Thrown ''edit decision requires text'')
               | Some t \<Rightarrow> Inr (split_on newline t))
            else if length hunks \<le> i then Inl (Thrown ''TypeError'')
            else if d_choice d = COurs then Inr (h_a (hunks ! i))
            else Inr (h_b (hunks ! i)))
       (\<lambda>ls. rbind (apply_regions hunks ds rs (Suc i)) (\<lambda>out. Inr (ls @ out)))"

definition applyHunkDecisions ::
  "diff3_fun \<Rightarrow> utext \<Rightarrow> utext \<Rightarrow> utext \<Rightarrow> hunk list \<Rightarrow> decision list \<Rightarrow> err + utext" where
  "applyHunkDecisions diff3 ours base theirs hunks ds =
     (if length ds \<noteq> length hunks then Inl (Thrown ''hunk decisions must cover every hunk'')
      else rbind (apply_regions hunks ds (diff3 ours base theirs) 0)
             (\<lambda>ls. Inr (join_with newline ls)))"

definition tryTextMerge ::
  "diff3_fun \<Rightarrow> gitdir \<Rightarrow> oid \<Rightarrow> oid option \<Rightarrow> oid \<Rightarrow> err + text_merge option" where
  "tryTextMerge diff3 gd oursOid baseOid theirsOid =
     (case (readObject gd oursOid,
            (case baseOid of None \<Rightarrow> Some (''blob'', []) | Some b \<Rightarrow> readObject gd b),
            readObject gd theirsOid) of
        (Some (_, oB), Some (_, bB), Some (_, tB)) \<Rightarrow>
          if list_ex (\<lambda>b. TEXT_MERGE_MAX_BYTES < length b) [oB, bB, tB] then Inr None
          else (case (decodeUtf8Strict oB, decodeUtf8Strict bB, decodeUtf8Strict tB) of
                  (Some oT, Some bT, Some tT) \<Rightarrow> Inr (Some (diff3TextMerge diff3 oT bT tT))
                | _ \<Rightarrow> Inr None)
      | _ \<Rightarrow> Inl (Code ''NotFoundError''))"

definition classifyNonText :: "gitdir \<Rightarrow> oid \<Rightarrow> err + conflict_kind" where
  "classifyNonText gd i =
     (case readObject gd i of
        None \<Rightarrow> Inl (Code ''NotFoundError'')
      | Some (_, bytes) \<Rightarrow>
          if TEXT_MERGE_MAX_BYTES < length bytes then Inr KSize
          else if decodeUtf8Strict bytes = None then Inr KUtf8
          else Inr KBinary)"

definition pickMode :: "flat_entry \<Rightarrow> flat_entry \<Rightarrow> string" where
  "pickMode eo et =
     (if fe_mode eo = ''100755'' \<or> fe_mode et = ''100755'' then ''100755'' else ''100644'')"

definition blobify :: "flat_entry option \<Rightarrow> (oid \<times> string) option" where
  "blobify e = (case e of
     Some f \<Rightarrow> if fe_type f = Blob then Some (fe_oid f, fe_mode f) else None
   | None \<Rightarrow> None)"

subsection \<open>One path\<close>

type_synonym merge_state = "merge_outcome \<times> gitdir"

definition push_merged :: "string \<Rightarrow> oid \<Rightarrow> string \<Rightarrow> merge_state \<Rightarrow> merge_state" where
  "push_merged p i m st =
     ((fst st)\<lparr>mergedEntries :=
        mergedEntries (fst st) @ [\<lparr>me_path = p, me_oid = i, me_mode = m\<rparr>]\<rparr>, snd st)"

definition push_conflict :: "merge_conflict \<Rightarrow> merge_state \<Rightarrow> merge_state" where
  "push_conflict c st = ((fst st)\<lparr>conflicts := conflicts (fst st) @ [c]\<rparr>, snd st)"

definition push_auto :: "string \<Rightarrow> merge_state \<Rightarrow> merge_state" where
  "push_auto p st = ((fst st)\<lparr>autoMerged := autoMerged (fst st) @ [p]\<rparr>, snd st)"

definition push_mode :: "string \<Rightarrow> merge_state \<Rightarrow> merge_state" where
  "push_mode p st = ((fst st)\<lparr>propagatedMode := propagatedMode (fst st) @ [p]\<rparr>, snd st)"

definition file_conflict ::
  "string \<Rightarrow> conflict_kind \<Rightarrow> flat_entry option \<Rightarrow> flat_entry option \<Rightarrow> flat_entry option
     \<Rightarrow> merge_conflict" where
  "file_conflict p k eb eo et =
     \<lparr>mc_path = p, mc_level = LFile, mc_kind = k, mc_base = blobify eb, mc_ours = blobify eo,
      mc_theirs = blobify et, mc_hunks = []\<rparr>"

definition hunk_conflict ::
  "string \<Rightarrow> hunk list \<Rightarrow> flat_entry option \<Rightarrow> flat_entry option \<Rightarrow> flat_entry option
     \<Rightarrow> merge_conflict" where
  "hunk_conflict p hs eb eo et =
     \<lparr>mc_path = p, mc_level = LHunk, mc_kind = KText, mc_base = blobify eb, mc_ours = blobify eo,
      mc_theirs = blobify et, mc_hunks = hs\<rparr>"

text \<open>A clean text merge is stored as a new blob.\<close>

definition push_text :: "git_lib \<Rightarrow> string \<Rightarrow> utext \<Rightarrow> string \<Rightarrow> merge_state \<Rightarrow> merge_state" where
  "push_text L p t m st =
     (let (i, gd) = writeObject L (snd st) ''blob'' (utf8_encode t)
      in push_auto p (push_merged p i m (fst st, gd)))"

text \<open>The path is not in the base.\<close>

definition merge_added ::
  "git_lib \<Rightarrow> diff3_fun \<Rightarrow> string \<Rightarrow> flat_entry option \<Rightarrow> flat_entry option \<Rightarrow> merge_state
     \<Rightarrow> err + merge_state" where
  "merge_added L diff3 p eo et st =
     (case (eo, et) of
        (Some x, Some y) \<Rightarrow>
          if fe_oid x = fe_oid y \<and> fe_mode x = fe_mode y
          then Inr (push_merged p (fe_oid x) (fe_mode x) st)
          else if fe_oid x = fe_oid y then Inr (push_merged p (fe_oid x) (pickMode x y) st)
          else rbind (tryTextMerge diff3 (snd st) (fe_oid x) None (fe_oid y)) (\<lambda>r.
            case r of
              None \<Rightarrow> Inr (push_conflict (file_conflict p KAddAdd None eo et) st)
            | Some (Clean t) \<Rightarrow>
                Inr (push_text L p t (if fe_mode x = fe_mode y then fe_mode x else ''100644'') st)
            | Some (Dirty hs _) \<Rightarrow> Inr (push_conflict (hunk_conflict p hs None eo et) st))
      | (Some x, None) \<Rightarrow> Inr (push_merged p (fe_oid x) (fe_mode x) st)
      | (None, Some y) \<Rightarrow> Inr (push_merged p (fe_oid y) (fe_mode y) st)
      | (None, None) \<Rightarrow> Inr st)"

text \<open>The path is in all three trees.\<close>

definition merge_both ::
  "git_lib \<Rightarrow> diff3_fun \<Rightarrow> string \<Rightarrow> flat_entry \<Rightarrow> flat_entry \<Rightarrow> flat_entry \<Rightarrow> merge_state
     \<Rightarrow> err + merge_state" where
  "merge_both L diff3 p b x y st =
     (let oChanged = (fe_oid x \<noteq> fe_oid b \<or> fe_mode x \<noteq> fe_mode b);
          tChanged = (fe_oid y \<noteq> fe_oid b \<or> fe_mode y \<noteq> fe_mode b);
          oContentChanged = (fe_oid x \<noteq> fe_oid b);
          tContentChanged = (fe_oid y \<noteq> fe_oid b);
          oModeChanged = (fe_mode x \<noteq> fe_mode b);
          tModeChanged = (fe_mode y \<noteq> fe_mode b);
          modeRace = (oModeChanged \<and> tContentChanged \<or> tModeChanged \<and> oContentChanged \<or>
            oModeChanged \<and> tModeChanged \<and> fe_mode x \<noteq> fe_mode y)
      in
        if fe_oid x = fe_oid y \<and> fe_mode x = fe_mode y
        then Inr (push_merged p (fe_oid x) (fe_mode x) st)
        else if \<not> oChanged then
          (let st' = push_merged p (fe_oid y) (fe_mode y) st
           in Inr (if tModeChanged \<and> \<not> tContentChanged then push_mode p st' else st'))
        else if \<not> tChanged then
          (let st' = push_merged p (fe_oid x) (fe_mode x) st
           in Inr (if oModeChanged \<and> \<not> oContentChanged then push_mode p st' else st'))
        else if modeRace then
          Inr (push_conflict (file_conflict p KMode (Some b) (Some x) (Some y)) st)
        else if \<not> oContentChanged then Inr (push_merged p (fe_oid y) (fe_mode x) st)
        else if \<not> tContentChanged then Inr (push_merged p (fe_oid x) (fe_mode y) st)
        else rbind (tryTextMerge diff3 (snd st) (fe_oid x) (Some (fe_oid b)) (fe_oid y)) (\<lambda>r.
          case r of
            None \<Rightarrow> rbind (classifyNonText (snd st) (fe_oid x)) (\<lambda>k.
              Inr (push_conflict (file_conflict p k (Some b) (Some x) (Some y)) st))
          | Some (Clean t) \<Rightarrow> Inr (push_text L p t (fe_mode x) st)
          | Some (Dirty hs _) \<Rightarrow>
              Inr (push_conflict (hunk_conflict p hs (Some b) (Some x) (Some y)) st)))"

text \<open>The path is in the base and one side deleted it.\<close>

definition merge_deleted ::
  "string \<Rightarrow> flat_entry \<Rightarrow> flat_entry option \<Rightarrow> flat_entry option \<Rightarrow> merge_state \<Rightarrow> merge_state" where
  "merge_deleted p b eo et st =
     (case (eo, et) of
        (None, Some y) \<Rightarrow>
          if fe_oid y = fe_oid b \<and> fe_mode y = fe_mode b then st
          else push_conflict (file_conflict p KDeleteModify (Some b) None et) st
      | (Some x, None) \<Rightarrow>
          if fe_oid x = fe_oid b \<and> fe_mode x = fe_mode b then st
          else push_conflict (file_conflict p KDeleteModify (Some b) eo None) st
      | _ \<Rightarrow> st)"

definition entry_types :: "flat_entry option list \<Rightarrow> etype list" where
  "entry_types es = remdups (map fe_type (List.map_filter id es))"

definition merge_path ::
  "git_lib \<Rightarrow> diff3_fun \<Rightarrow> string \<Rightarrow> flat_entry option \<Rightarrow> flat_entry option \<Rightarrow> flat_entry option
     \<Rightarrow> merge_state \<Rightarrow> err + merge_state" where
  "merge_path L diff3 p eb eo et st =
     (let types = entry_types [eb, eo, et]
      in if 1 < length types then Inr (push_conflict (file_conflict p KType eb eo et) st)
         else if Tree \<in> set types then Inr st
         else if eo = None \<and> et = None then Inr st
         else (case eb of
                 None \<Rightarrow> merge_added L diff3 p eo et st
               | Some b \<Rightarrow>
                   (case (eo, et) of
                      (Some x, Some y) \<Rightarrow> merge_both L diff3 p b x y st
                    | _ \<Rightarrow> Inr (merge_deleted p b eo et st))))"

subsection \<open>All paths\<close>

definition merge_paths :: "flat_tree \<Rightarrow> flat_tree \<Rightarrow> flat_tree \<Rightarrow> string list" where
  "merge_paths bt ot tt = sort (remdups (akeys bt @ akeys ot @ akeys tt))"

fun merge_loop ::
  "git_lib \<Rightarrow> diff3_fun \<Rightarrow> flat_tree \<Rightarrow> flat_tree \<Rightarrow> flat_tree \<Rightarrow> string list \<Rightarrow> merge_state
     \<Rightarrow> err + merge_state" where
  "merge_loop L diff3 bt ot tt [] st = Inr st"
| "merge_loop L diff3 bt ot tt (p # ps) st =
     rbind (merge_path L diff3 p (map_of bt p) (map_of ot p) (map_of tt p) st)
       (merge_loop L diff3 bt ot tt ps)"

definition mergeTrees ::
  "git_lib \<Rightarrow> diff3_fun \<Rightarrow> gitdir \<Rightarrow> flat_tree \<Rightarrow> flat_tree \<Rightarrow> flat_tree \<Rightarrow> err + merge_state" where
  "mergeTrees L diff3 gd bt ot tt =
     merge_loop L diff3 bt ot tt (merge_paths bt ot tt) (empty_outcome, gd)"

subsection \<open>Outcomes as what each path adds\<close>

definition append_outcome :: "merge_outcome \<Rightarrow> merge_outcome \<Rightarrow> merge_outcome" where
  "append_outcome a d =
     \<lparr>mergedEntries = mergedEntries a @ mergedEntries d, conflicts = conflicts a @ conflicts d,
      autoMerged = autoMerged a @ autoMerged d, propagatedMode = propagatedMode a @ propagatedMode d\<rparr>"

text \<open>The part of an outcome that concerns one path.\<close>

definition outcome_at :: "string \<Rightarrow> merge_outcome \<Rightarrow> merge_outcome" where
  "outcome_at p a =
     \<lparr>mergedEntries = filter (\<lambda>m. me_path m = p) (mergedEntries a),
      conflicts = filter (\<lambda>c. mc_path c = p) (conflicts a),
      autoMerged = filter (\<lambda>q. q = p) (autoMerged a),
      propagatedMode = filter (\<lambda>q. q = p) (propagatedMode a)\<rparr>"

definition merged_at :: "merge_outcome \<Rightarrow> string \<Rightarrow> (oid \<times> string) option" where
  "merged_at a p = map_of (map (\<lambda>m. (me_path m, (me_oid m, me_mode m))) (mergedEntries a)) p"

definition conflict_paths :: "merge_outcome \<Rightarrow> string set" where
  "conflict_paths a = mc_path ` set (conflicts a)"

lemma append_outcome_empty [simp]:
  "append_outcome empty_outcome d = d" "append_outcome a empty_outcome = a"
  by (simp_all add: append_outcome_def empty_outcome_def)

lemma append_outcome_assoc:
  "append_outcome (append_outcome a b) c = append_outcome a (append_outcome b c)"
  by (simp add: append_outcome_def)

lemma outcome_at_append:
  "outcome_at p (append_outcome a d) = append_outcome (outcome_at p a) (outcome_at p d)"
  by (simp add: outcome_at_def append_outcome_def)

lemma outcome_at_empty [simp]: "outcome_at p empty_outcome = empty_outcome"
  by (simp add: outcome_at_def empty_outcome_def)

lemma map_of_filter_key:
  "map_of (map (\<lambda>m. (me_path m, f m)) (filter (\<lambda>m. me_path m = p) xs)) p =
     map_of (map (\<lambda>m. (me_path m, f m)) xs) p"
  by (induction xs) auto

lemma merged_at_outcome_at: "merged_at (outcome_at p a) p = merged_at a p"
  by (simp add: merged_at_def outcome_at_def map_of_filter_key)

lemma conflict_outcome_at: "p \<in> conflict_paths (outcome_at p a) \<longleftrightarrow> p \<in> conflict_paths a"
  by (auto simp: conflict_paths_def outcome_at_def)

lemma auto_outcome_at: "p \<in> set (autoMerged (outcome_at p a)) \<longleftrightarrow> p \<in> set (autoMerged a)"
  by (auto simp: outcome_at_def)

text \<open>
  A step is local to a path when what it adds to the outcome depends on the object database only
  and concerns that path only.
\<close>

definition local_step :: "string \<Rightarrow> (merge_state \<Rightarrow> err + merge_state) \<Rightarrow> bool" where
  "local_step p f \<longleftrightarrow>
     (\<forall>out gd. f (out, gd) =
        map_sum id (\<lambda>(d, g). (append_outcome out d, g)) (f (empty_outcome, gd))) \<and>
     (\<forall>gd d g. f (empty_outcome, gd) = Inr (d, g) \<longrightarrow>
        outcome_at p d = d \<and> (\<forall>q. q \<noteq> p \<longrightarrow> outcome_at q d = empty_outcome))"

lemmas push_defs = push_merged_def push_conflict_def push_auto_def push_mode_def push_text_def
  append_outcome_def outcome_at_def empty_outcome_def

lemma local_skip: "local_step p Inr"
  by (simp add: local_step_def)

lemma local_merged: "local_step p (\<lambda>st. Inr (push_merged p i m st))"
  by (simp add: local_step_def push_defs)

lemma local_mode: "local_step p (\<lambda>st. Inr (push_mode p (push_merged p i m st)))"
  by (simp add: local_step_def push_defs)

lemma local_conflict: "mc_path c = p \<Longrightarrow> local_step p (\<lambda>st. Inr (push_conflict c st))"
  by (simp add: local_step_def push_defs)

lemma local_text: "local_step p (\<lambda>st. Inr (push_text L p t m st))"
  by (auto simp: local_step_def push_defs split: prod.splits)

lemma local_rbind:
  assumes "\<And>r. local_step p (h r)"
  shows "local_step p (\<lambda>st. rbind (g (snd st)) (\<lambda>r. h r st))"
  unfolding local_step_def
proof (intro conjI allI impI)
  fix out gd
  show "rbind (g (snd (out, gd))) (\<lambda>r. h r (out, gd)) =
      map_sum id (\<lambda>(d, g). (append_outcome out d, g))
        (rbind (g (snd (empty_outcome, gd))) (\<lambda>r. h r (empty_outcome, gd)))"
  proof (cases "g gd")
    case (Inr r)
    then show ?thesis using assms [of r, unfolded local_step_def, THEN conjunct1, rule_format, of out gd]
      by simp
  qed simp
next
  fix gd d g'
  assume "rbind (g (snd (empty_outcome, gd))) (\<lambda>r. h r (empty_outcome, gd)) = Inr (d, g')"
  then obtain r where "h r (empty_outcome, gd) = Inr (d, g')" by (auto simp: rbind_eq_Inr)
  with assms [of r] have *: "outcome_at p d = d \<and> (\<forall>q. q \<noteq> p \<longrightarrow> outcome_at q d = empty_outcome)"
    unfolding local_step_def by blast
  then show "outcome_at p d = d" by blast
  show "outcome_at q d = empty_outcome" if "q \<noteq> p" for q using * that by blast
qed

lemma local_if:
  "local_step p f \<Longrightarrow> local_step p g \<Longrightarrow> local_step p (\<lambda>st. if c then f st else g st)"
  by (cases c) simp_all

lemma local_Inr_if:
  "local_step p (\<lambda>st. Inr (f st)) \<Longrightarrow> local_step p (\<lambda>st. Inr (g st)) \<Longrightarrow>
     local_step p (\<lambda>st. Inr (if c then f st else g st))"
  by (cases c) simp_all

lemma local_option:
  "local_step p f \<Longrightarrow> (\<And>x. local_step p (g x)) \<Longrightarrow>
     local_step p (\<lambda>st. case e of None \<Rightarrow> f st | Some x \<Rightarrow> g x st)"
  by (cases e) simp_all

lemma local_text_merge:
  "(\<And>t. local_step p (f t)) \<Longrightarrow> (\<And>hs t. local_step p (g hs t)) \<Longrightarrow>
     local_step p (\<lambda>st. case r of Clean t \<Rightarrow> f t st | Dirty hs t \<Rightarrow> g hs t st)"
  by (cases r) simp_all

lemma mc_path_conflicts [simp]:
  "mc_path (file_conflict p k eb eo et) = p" "mc_path (hunk_conflict p hs eb eo et) = p"
  by (simp_all add: file_conflict_def hunk_conflict_def)

lemmas local_intros = local_skip local_merged local_mode local_conflict local_text local_rbind
  local_if local_option local_text_merge mc_path_conflicts

lemma local_merge_added: "local_step p (\<lambda>st. merge_added L diff3 p eo et st)"
  unfolding merge_added_def prod.case by (intro local_intros)

lemma local_merge_both: "local_step p (\<lambda>st. merge_both L diff3 p b x y st)"
  unfolding merge_both_def Let_def by (intro local_Inr_if local_intros)

lemma local_merge_deleted: "local_step p (\<lambda>st. Inr (merge_deleted p b eo et st))"
  by (cases eo; cases et; simp add: merge_deleted_def;
      intro local_Inr_if local_conflict local_skip mc_path_conflicts)

lemma local_merge_path: "local_step p (merge_path L diff3 p eb eo et)"
proof -
  have "local_step p (\<lambda>st. merge_path L diff3 p eb eo et st)"
    unfolding merge_path_def Let_def prod.case
    by (intro local_intros local_merge_added local_merge_both local_merge_deleted)
  then show ?thesis .
qed

text \<open>
  The whole merge, seen at one path: it adds what the path adds on its own, at some object
  database on the way.
\<close>

lemma merge_path_delta:
  assumes "merge_path L diff3 p eb eo et (out, gd) = Inr (out', gd')"
  obtains d where "merge_path L diff3 p eb eo et (empty_outcome, gd) = Inr (d, gd')"
    and "out' = append_outcome out d" and "outcome_at p d = d"
    and "\<And>q. q \<noteq> p \<Longrightarrow> outcome_at q d = empty_outcome"
proof -
  have l: "local_step p (merge_path L diff3 p eb eo et)" by (rule local_merge_path)
  have e: "merge_path L diff3 p eb eo et (out, gd) =
      map_sum id (\<lambda>(d, g). (append_outcome out d, g))
        (merge_path L diff3 p eb eo et (empty_outcome, gd))"
    using l [unfolded local_step_def, THEN conjunct1, rule_format, of out gd] .
  then obtain d where d: "merge_path L diff3 p eb eo et (empty_outcome, gd) = Inr (d, gd')"
      "out' = append_outcome out d"
    using assms by (cases "merge_path L diff3 p eb eo et (empty_outcome, gd)") auto
  with l show ?thesis using that unfolding local_step_def by blast
qed

text \<open>The merge only adds objects.\<close>

lemma snd_push [simp]:
  "snd (push_merged p i m st) = snd st" "snd (push_conflict c st) = snd st" "snd (push_mode p st) = snd st"
  "snd (push_text L p t m st) = snd (writeObject L (snd st) ''blob'' (utf8_encode t))"
  by (simp_all add: push_defs writeObject_def Let_def)

lemma writeObject_grows: "grows g (snd (writeObject L g ty c))"
  using import_keeps by (fastforce simp: writeObject_def Let_def grows_def)

lemma text_mergeE:
  assumes "(case r of None \<Rightarrow> a | Some (Clean t) \<Rightarrow> b t | Some (Dirty hs t) \<Rightarrow> c hs t) = Inr st"
  obtains "r = None" "a = Inr st" | t where "r = Some (Clean t)" "b t = Inr st"
    | hs t where "r = Some (Dirty hs t)" "c hs t = Inr st"
proof (cases r)
  case None
  with assms that(1) show ?thesis by simp
next
  case (Some x)
  with assms that(2,3) show ?thesis by (cases x) simp_all
qed

lemma merge_path_grows:
  assumes "merge_path L diff3 p eb eo et st = Inr st'"
  shows "grows (snd st) (snd st')"
proof -
  have a: "grows (snd st) (snd st')" if "merge_added L diff3 p eo et st = Inr st'"
    using that writeObject_grows
    by (cases eo; cases et) (auto simp: merge_added_def rbind_eq_Inr split: if_splits elim!: text_mergeE)
  have b: "grows (snd st) (snd st')" if "merge_both L diff3 p x y z st = Inr st'" for x y z
    using that writeObject_grows
    by (auto simp: merge_both_def Let_def rbind_eq_Inr split: if_splits elim!: text_mergeE)
  have d: "snd (merge_deleted p x eo et st) = snd st" for x
    by (simp add: merge_deleted_def split: option.splits)
  show ?thesis using assms a b d
    by (auto simp: merge_path_def Let_def split: option.splits if_splits)
qed

lemma merge_loop_grows: "merge_loop L diff3 bt ot tt ps st = Inr st' \<Longrightarrow> grows (snd st) (snd st')"
  by (induction ps arbitrary: st) (auto simp: rbind_eq_Inr dest!: merge_path_grows elim: grows_trans)

lemma merge_loop_at:
  assumes "merge_loop L diff3 bt ot tt ps (out, gd) = Inr (out', gd')" and "distinct ps"
  shows "(p \<in> set ps \<longrightarrow> (\<exists>g g' d.
      merge_path L diff3 p (map_of bt p) (map_of ot p) (map_of tt p) (empty_outcome, g) = Inr (d, g')
      \<and> outcome_at p out' = append_outcome (outcome_at p out) d \<and> grows g' gd'))
    \<and> (p \<notin> set ps \<longrightarrow> outcome_at p out' = outcome_at p out)"
  using assms
proof (induction ps arbitrary: out gd)
  case Nil
  then show ?case by simp
next
  case (Cons q ps)
  from Cons.prems(1) obtain o1 g1 where
      q: "merge_path L diff3 q (map_of bt q) (map_of ot q) (map_of tt q) (out, gd) = Inr (o1, g1)"
      and rest: "merge_loop L diff3 bt ot tt ps (o1, g1) = Inr (out', gd')"
    by (auto simp: rbind_eq_Inr)
  from q obtain d where
      d: "merge_path L diff3 q (map_of bt q) (map_of ot q) (map_of tt q) (empty_outcome, gd) = Inr (d, g1)"
      "o1 = append_outcome out d" "outcome_at q d = d"
      "\<And>r. r \<noteq> q \<Longrightarrow> outcome_at r d = empty_outcome"
    by (rule merge_path_delta) blast
  have qn: "q \<notin> set ps" using Cons.prems(2) by simp
  have ih: "(p \<in> set ps \<longrightarrow> (\<exists>g g' d.
      merge_path L diff3 p (map_of bt p) (map_of ot p) (map_of tt p) (empty_outcome, g) = Inr (d, g')
      \<and> outcome_at p out' = append_outcome (outcome_at p o1) d \<and> grows g' gd'))
    \<and> (p \<notin> set ps \<longrightarrow> outcome_at p out' = outcome_at p o1)"
    using Cons.IH [OF rest] Cons.prems(2) by simp
  show ?case
  proof (cases "p = q")
    case True
    with ih qn d merge_loop_grows [OF rest] show ?thesis by (auto simp: outcome_at_append)
  next
    case False
    then have "outcome_at p o1 = outcome_at p out" using d(2,4) by (simp add: outcome_at_append)
    with ih False show ?thesis by simp
  qed
qed

lemma mergeTrees_at:
  assumes "mergeTrees L diff3 gd bt ot tt = Inr (out, gd')"
  shows "(p \<in> set (merge_paths bt ot tt) \<longrightarrow> (\<exists>g g'.
      merge_path L diff3 p (map_of bt p) (map_of ot p) (map_of tt p) (empty_outcome, g) =
        Inr (outcome_at p out, g') \<and> grows g' gd'))
    \<and> (p \<notin> set (merge_paths bt ot tt) \<longrightarrow> outcome_at p out = empty_outcome)"
proof -
  have "distinct (merge_paths bt ot tt)" by (simp add: merge_paths_def)
  from merge_loop_at [OF assms [unfolded mergeTrees_def] this, of p] show ?thesis
    by auto
qed

lemma set_merge_paths:
  "p \<in> set (merge_paths bt ot tt) \<longleftrightarrow> map_of bt p \<noteq> None \<or> map_of ot p \<noteq> None \<or> map_of tt p \<noteq> None"
  by (simp add: merge_paths_def map_of_None_akeys)

subsection \<open>What a merge decides\<close>

lemma set_entry_types: "set (entry_types es) = fe_type ` {e. Some e \<in> set es}"
proof -
  have "set (List.map_filter id es) = {e. Some e \<in> set es}"
    by (induction es) (auto simp: List.map_filter_def)
  then show ?thesis by (simp add: entry_types_def)
qed

lemma Tree_in_entry_types:
  "Tree \<in> set (entry_types es) \<longleftrightarrow> (\<exists>f. Some f \<in> set es \<and> fe_type f = Tree)"
  by (auto simp: set_entry_types image_iff)

lemma entry_types_blob:
  assumes "Tree \<notin> set (entry_types es)"
  shows "\<not> 1 < length (entry_types es)"
proof -
  have "set (entry_types es) \<subseteq> {Blob}" using assms by (metis etype.exhaust insertCI subsetI)
  then have "card (set (entry_types es)) \<le> 1" using card_mono [of "{Blob}"] by simp
  moreover have "distinct (entry_types es)" by (simp add: entry_types_def)
  ultimately show ?thesis using distinct_card [of "entry_types es"] by simp
qed

lemma entry_types_mixed:
  assumes "Tree \<in> set (entry_types es)" and "Blob \<in> set (entry_types es)"
  shows "1 < length (entry_types es)"
proof -
  have "card {Blob, Tree} \<le> card (set (entry_types es))" by (rule card_mono) (use assms in auto)
  moreover have "length (entry_types es) = card (set (entry_types es))"
    by (rule distinct_card [symmetric]) (simp add: entry_types_def)
  ultimately show ?thesis by simp
qed

lemma file_entry_blob:
  "Tree \<notin> set (entry_types [eb, eo, et]) \<Longrightarrow>
     (eb = Some b \<longrightarrow> fe_type b = Blob) \<and> (eo = Some x \<longrightarrow> fe_type x = Blob) \<and>
     (et = Some y \<longrightarrow> fe_type y = Blob)"
  by (auto simp: set_entry_types) (metis (mono_tags, lifting) etype.exhaust image_eqI mem_Collect_eq)+

lemmas merged_obs = push_merged_def push_conflict_def push_auto_def push_mode_def push_text_def
  empty_outcome_def merged_at_def conflict_paths_def blobify_def

text \<open>One path, files only: equal sides, or a change on one side only.\<close>

lemma merge_path_agree:
  assumes "merge_path L diff3 p eb eo et (empty_outcome, g) = Inr (d, g')"
    and "Tree \<notin> set (entry_types [eb, eo, et])" and "blobify eo = blobify et"
  shows "merged_at d p = blobify eo \<and> p \<notin> conflict_paths d \<and> g' = g"
  using assms(1,3) entry_types_blob [OF assms(2)] assms(2) file_entry_blob [OF assms(2)]
  by (cases eb; cases eo; cases et)
    (auto simp: merge_path_def merge_added_def merge_both_def merge_deleted_def merged_obs)

lemma merge_path_files:
  assumes "Tree \<notin> set (entry_types [eb, eo, et])"
  shows "merge_path L diff3 p eb eo et st =
    (if eo = None \<and> et = None then Inr st
     else (case eb of
             None \<Rightarrow> merge_added L diff3 p eo et st
           | Some b \<Rightarrow>
               (case (eo, et) of
                  (Some x, Some y) \<Rightarrow> merge_both L diff3 p b x y st
                | _ \<Rightarrow> Inr (merge_deleted p b eo et st))))"
  unfolding merge_path_def Let_def if_not_P [OF entry_types_blob [OF assms]] if_not_P [OF assms] ..

text \<open>
  The rule of a path, over what the three trees hold there and nothing else: a value to keep
  (\<^const>\<open>None\<close>: the path goes away), a conflict of the whole file, or two texts to blend, with the mode
  of the result.
\<close>

datatype rule =
    Keep "(oid \<times> string) option"
  | Clash conflict_kind
  | Blend "oid option" oid oid string

definition file_rule ::
  "(oid \<times> string) option \<Rightarrow> (oid \<times> string) option \<Rightarrow> (oid \<times> string) option \<Rightarrow> rule" where
  "file_rule b x y =
     (if x = y then Keep x
      else if x = b then Keep y
      else if y = b then Keep x
      else (case (b, x, y) of
              (None, Some (i, m), Some (j, n)) \<Rightarrow>
                if i = j then Keep (Some (i, if ''100755'' \<in> {m, n} then ''100755'' else ''100644''))
                else Blend None i j (if m = n then m else ''100644'')
            | (Some (k, l), Some (i, m), Some (j, n)) \<Rightarrow>
                if m = l \<and> n = l then Blend (Some k) i j l else Clash KMode
            | _ \<Rightarrow> Clash KDeleteModify))"

definition has_type :: "etype \<Rightarrow> flat_entry option list \<Rightarrow> bool" where
  "has_type ty es \<longleftrightarrow> list_ex (\<lambda>e. map_option fe_type e = Some ty) es"

definition rule_at :: "flat_entry option \<Rightarrow> flat_entry option \<Rightarrow> flat_entry option \<Rightarrow> rule" where
  "rule_at eb eo et =
     (if has_type Tree [eb, eo, et]
      then (if has_type Blob [eb, eo, et] then Clash KType else Keep None)
      else file_rule (blobify eb) (blobify eo) (blobify et))"

definition conflicts_at :: "merge_outcome \<Rightarrow> string \<Rightarrow> merge_conflict list" where
  "conflicts_at a p = filter (\<lambda>c. mc_path c = p) (conflicts a)"

text \<open>What the text merge of a path leaves behind.\<close>

definition blended ::
  "git_lib \<Rightarrow> diff3_fun \<Rightarrow> gitdir \<Rightarrow> string \<Rightarrow> oid option \<Rightarrow> oid \<Rightarrow> oid \<Rightarrow> string \<Rightarrow> flat_entry option
     \<Rightarrow> flat_entry option \<Rightarrow> flat_entry option \<Rightarrow> merge_outcome \<Rightarrow> text_merge option \<Rightarrow> bool" where
  "blended L diff3 g p base i j m eb eo et d r \<longleftrightarrow>
     (case r of
        Some (Clean t) \<Rightarrow>
          merged_at d p = Some (objectOid L ''blob'' (utf8_encode t), m) \<and> conflicts_at d p = [] \<and>
          p \<in> set (autoMerged d) \<and> hasObject g (objectOid L ''blob'' (utf8_encode t))
      | Some (Dirty hs t) \<Rightarrow>
          merged_at d p = None \<and> conflicts_at d p = [hunk_conflict p hs eb eo et] \<and> p \<notin> set (autoMerged d)
      | None \<Rightarrow>
          merged_at d p = None \<and> p \<notin> set (autoMerged d) \<and>
          (\<exists>k. (if base = None then k = KAddAdd else classifyNonText g i = Inr k) \<and>
            conflicts_at d p = [file_conflict p k eb eo et]))"

definition ruled ::
  "git_lib \<Rightarrow> diff3_fun \<Rightarrow> gitdir \<Rightarrow> string \<Rightarrow> flat_entry option \<Rightarrow> flat_entry option
     \<Rightarrow> flat_entry option \<Rightarrow> merge_outcome \<Rightarrow> bool" where
  "ruled L diff3 g p eb eo et d \<longleftrightarrow>
     (case rule_at eb eo et of
        Keep v \<Rightarrow> merged_at d p = v \<and> conflicts_at d p = [] \<and> p \<notin> set (autoMerged d)
      | Clash k \<Rightarrow>
          merged_at d p = None \<and> conflicts_at d p = [file_conflict p k eb eo et] \<and> p \<notin> set (autoMerged d)
      | Blend base i j m \<Rightarrow>
          (\<exists>r. tryTextMerge diff3 g i base j = Inr r \<and> blended L diff3 g p base i j m eb eo et d r))"

text \<open>What the merge read stays readable.\<close>

lemma tryTextMerge_grows:
  "tryTextMerge diff3 g i b j = Inr r \<Longrightarrow> grows g g' \<Longrightarrow> tryTextMerge diff3 g' i b j = Inr r"
  by (auto simp: tryTextMerge_def grows_def split: option.splits prod.splits)

lemma classify_grows: "classifyNonText g i = Inr k \<Longrightarrow> grows g g' \<Longrightarrow> classifyNonText g' i = Inr k"
  by (auto simp: classifyNonText_def grows_def split: option.splits prod.splits)

lemma ruled_grows:
  assumes "ruled L diff3 g p eb eo et d" and "grows g g'"
  shows "ruled L diff3 g' p eb eo et d"
proof -
  have h: "hasObject g i \<Longrightarrow> hasObject g' i" for i using assms(2) by (auto simp: hasObject_def grows_def)
  have b: "blended L diff3 g p base i j m eb eo et d r \<Longrightarrow> blended L diff3 g' p base i j m eb eo et d r" for base i j m r
    using h classify_grows [OF _ assms(2)]
    by (fastforce simp: blended_def split: option.splits text_merge.splits if_splits)
  show ?thesis using assms(1) tryTextMerge_grows [OF _ assms(2)] b
    by (fastforce simp: ruled_def split: rule.splits)
qed

text \<open>One path of the merge follows its rule.\<close>

lemma has_type_types:
  "Tree \<in> set (entry_types es) \<longleftrightarrow> has_type Tree es"
  "Suc 0 < length (entry_types es) \<longleftrightarrow> has_type Tree es \<and> has_type Blob es"
proof -
  have t: "ty \<in> set (entry_types es) \<longleftrightarrow> has_type ty es" for ty
    unfolding set_entry_types has_type_def list_ex_iff image_iff by (metis (mono_tags, lifting) map_option_eq_Some mem_Collect_eq)
  show "Tree \<in> set (entry_types es) \<longleftrightarrow> has_type Tree es" by (rule t)
  have "distinct (entry_types es)" by (simp add: entry_types_def)
  then have n: "length (entry_types es) = card (set (entry_types es))" by (simp add: distinct_card)
  have "set (entry_types es) = (if has_type Tree es then {Tree} else {}) \<union> (if has_type Blob es then {Blob} else {})"
  proof (rule set_eqI)
    fix x show "x \<in> set (entry_types es) \<longleftrightarrow> x \<in> (if has_type Tree es then {Tree} else {}) \<union> (if has_type Blob es then {Blob} else {})"
      by (cases x) (simp_all add: t)
  qed
  then have "card (set (entry_types es)) = (if has_type Tree es then 1 else 0) + (if has_type Blob es then 1 else 0)"
    by simp
  then show "Suc 0 < length (entry_types es) \<longleftrightarrow> has_type Tree es \<and> has_type Blob es" by (simp add: n)
qed

text \<open>What an entry holds, whatever its type.\<close>

abbreviation held :: "flat_entry option \<Rightarrow> (oid \<times> string) option" where
  "held \<equiv> map_option (\<lambda>f. (fe_oid f, fe_mode f))"

lemma rule_at_files:
  assumes "\<not> has_type Tree [eb, eo, et]"
  shows "rule_at eb eo et = file_rule (held eb) (held eo) (held et)"
proof -
  have "blobify e = held e" if "e \<in> {eb, eo, et}" for e
    using assms that etype.exhaust [of "fe_type (the e)"] by (cases e) (auto simp: has_type_def blobify_def)
  with assms show ?thesis by (simp add: rule_at_def)
qed

lemma rule_none: "rule_at None None None = Keep None"
  by (simp add: rule_at_files has_type_def file_rule_def)

lemma ruled_keepI:
  "rule_at eb eo et = Keep v \<Longrightarrow> merged_at d p = v \<Longrightarrow> conflicts_at d p = [] \<Longrightarrow> p \<notin> set (autoMerged d) \<Longrightarrow>
     ruled L diff3 g p eb eo et d"
  by (simp add: ruled_def)

lemmas ruled_obs = ruled_def conflicts_at_def push_defs merged_at_def

lemma text_tail:
  assumes "tryTextMerge diff3 g i base j = Inr r"
    and "(case r of
        None \<Rightarrow> rbind c (\<lambda>k. Inr (push_conflict (file_conflict p k eb eo et) (empty_outcome, g)))
      | Some (Clean t) \<Rightarrow> Inr (push_text L p t m (empty_outcome, g))
      | Some (Dirty hs t) \<Rightarrow> Inr (push_conflict (hunk_conflict p hs eb eo et) (empty_outcome, g)))
     = (Inr (d, g') :: err + merge_state)"
    and "\<And>k. c = Inr k \<Longrightarrow> if base = None then k = KAddAdd else classifyNonText g i = Inr k"
  shows "\<exists>r. tryTextMerge diff3 g' i base j = Inr r \<and> blended L diff3 g' p base i j m eb eo et d r"
proof -
  have gr: "grows g g'"
    using assms(2)
  proof (cases rule: text_mergeE)
    case (2 t)
    then have "snd (push_text L p t m (empty_outcome, g)) = g'" by simp
    then show ?thesis using writeObject_grows [of g L "''blob''" "utf8_encode t"] by simp
  qed (auto simp: rbind_eq_Inr push_conflict_def)
  have "blended L diff3 g' p base i j m eb eo et d r"
  proof (cases r)
    case None
    with assms(2) obtain k where k: "c = Inr k" "push_conflict (file_conflict p k eb eo et) (empty_outcome, g) = (d, g')"
      by (auto simp: rbind_eq_Inr)
    then have "g' = g" by (auto simp: push_conflict_def)
    have "conflicts_at d p = [file_conflict p k eb eo et]" "merged_at d p = None" "p \<notin> set (autoMerged d)"
      using k(2) by (auto simp: conflicts_at_def push_conflict_def merged_at_def empty_outcome_def)
    with None assms(3) [OF k(1)] \<open>g' = g\<close> show ?thesis unfolding blended_def by auto
  next
    case (Some t)
    with assms(2) show ?thesis
      by (cases t) (auto simp: blended_def conflicts_at_def push_defs merged_at_def writeObject_def Let_def
          hasObject_def readObject_import split: if_splits)
  qed
  with tryTextMerge_grows [OF assms(1) gr] show ?thesis by blast
qed

lemma ruled_added:
  assumes "merge_added L diff3 p eo et (empty_outcome, g) = Inr (d, g')" and "\<not> has_type Tree [None, eo, et]"
  shows "ruled L diff3 g' p None eo et d"
proof -
  show ?thesis
  proof (cases "\<exists>x y. eo = Some x \<and> et = Some y \<and> fe_oid x \<noteq> fe_oid y")
    case False
    then consider "eo = None" "et = None" | x where "eo = Some x" "et = None" | y where "eo = None" "et = Some y"
      | x y where "eo = Some x" "et = Some y" "fe_oid x = fe_oid y" by (cases eo; cases et) auto
    then show ?thesis using assms
      by cases (auto simp: merge_added_def pickMode_def rule_at_files file_rule_def conflicts_at_def push_merged_def
          merged_at_def empty_outcome_def intro!: ruled_keepI split: if_splits)
  next
    case True
    then obtain x y where xy: "eo = Some x" "et = Some y" "fe_oid x \<noteq> fe_oid y" by blast
    with assms(1) obtain r where r0: "tryTextMerge diff3 g (fe_oid x) None (fe_oid y) = Inr r"
      "(case r of
          None \<Rightarrow> Inr (push_conflict (file_conflict p KAddAdd None eo et) (empty_outcome, g))
        | Some (Clean t) \<Rightarrow> Inr (push_text L p t (if fe_mode x = fe_mode y then fe_mode x else ''100644'') (empty_outcome, g))
        | Some (Dirty hs t) \<Rightarrow> Inr (push_conflict (hunk_conflict p hs None eo et) (empty_outcome, g)))
       = (Inr (d, g') :: err + merge_state)"
      by (auto simp: merge_added_def rbind_eq_Inr)
    have r: "(case r of
          None \<Rightarrow> rbind (Inr KAddAdd) (\<lambda>k. Inr (push_conflict (file_conflict p k None eo et) (empty_outcome, g)))
        | Some (Clean t) \<Rightarrow> Inr (push_text L p t (if fe_mode x = fe_mode y then fe_mode x else ''100644'') (empty_outcome, g))
        | Some (Dirty hs t) \<Rightarrow> Inr (push_conflict (hunk_conflict p hs None eo et) (empty_outcome, g)))
       = (Inr (d, g') :: err + merge_state)"
      using r0(2) by (cases r) simp_all
    have "rule_at None eo et = Blend None (fe_oid x) (fe_oid y) (if fe_mode x = fe_mode y then fe_mode x else ''100644'')"
      using xy assms(2) by (simp add: rule_at_files file_rule_def)
    with text_tail [OF r0(1) r] show ?thesis by (simp add: ruled_def)
  qed
qed

lemma ruled_both:
  assumes "merge_both L diff3 p b x y (empty_outcome, g) = Inr (d, g')" and "\<not> has_type Tree [Some b, Some x, Some y]"
  shows "ruled L diff3 g' p (Some b) (Some x) (Some y) d"
proof -
  show ?thesis
  proof (cases "fe_mode x = fe_mode b \<and> fe_mode y = fe_mode b \<and> fe_oid x \<noteq> fe_oid b \<and> fe_oid y \<noteq> fe_oid b \<and> fe_oid x \<noteq> fe_oid y")
    case False
    with assms show ?thesis
      by (auto simp: merge_both_def Let_def rule_at_files file_rule_def ruled_obs split: if_splits)
  next
    case True
    with assms(1) obtain r where r: "tryTextMerge diff3 g (fe_oid x) (Some (fe_oid b)) (fe_oid y) = Inr r"
      "(case r of
          None \<Rightarrow> rbind (classifyNonText g (fe_oid x)) (\<lambda>k.
            Inr (push_conflict (file_conflict p k (Some b) (Some x) (Some y)) (empty_outcome, g)))
        | Some (Clean t) \<Rightarrow> Inr (push_text L p t (fe_mode b) (empty_outcome, g))
        | Some (Dirty hs t) \<Rightarrow> Inr (push_conflict (hunk_conflict p hs (Some b) (Some x) (Some y)) (empty_outcome, g)))
       = (Inr (d, g') :: err + merge_state)"
      by (auto simp: merge_both_def Let_def rbind_eq_Inr)
    have "rule_at (Some b) (Some x) (Some y) = Blend (Some (fe_oid b)) (fe_oid x) (fe_oid y) (fe_mode b)"
      using True assms(2) by (simp add: rule_at_files file_rule_def)
    with text_tail [OF r] show ?thesis by (simp add: ruled_def)
  qed
qed

lemma ruled_deleted:
  assumes "merge_deleted p b eo et (empty_outcome, g) = (d, g')" and "\<not> has_type Tree [Some b, eo, et]"
    and "eo = None \<or> et = None"
  shows "ruled L diff3 g' p (Some b) eo et d"
  using assms
  by (cases eo; cases et) (auto simp: merge_deleted_def rule_at_files file_rule_def ruled_obs split: if_splits)

lemma ruled_path:
  assumes m: "merge_path L diff3 p eb eo et (empty_outcome, g) = Inr (d, g')"
  shows "ruled L diff3 g' p eb eo et d"
proof (cases "has_type Tree [eb, eo, et]")
  case True
  with m show ?thesis by (auto simp: merge_path_def Let_def has_type_types rule_at_def ruled_obs split: if_splits)
next
  case False
  then have nt: "Tree \<notin> set (entry_types [eb, eo, et])" by (simp add: has_type_types)
  note f = m [unfolded merge_path_files [OF nt]]
  show ?thesis
  proof (cases "eo = None \<and> et = None")
    case True
    with f False show ?thesis by (cases eb) (auto simp: rule_at_files file_rule_def ruled_obs empty_outcome_def)
  next
    case some: False
    show ?thesis
    proof (cases eb)
      case None
      with f some ruled_added [of L diff3 p eo et g d g'] False show ?thesis by (auto split: if_splits)
    next
      case (Some b)
      show ?thesis
      proof (cases "eo = None \<or> et = None")
        case True
        with f some Some have "merge_deleted p b eo et (empty_outcome, g) = (d, g')"
          by (cases eo; cases et) auto
        from ruled_deleted [OF this _ True] False Some show ?thesis by simp
      next
        case xy: False
        then obtain x y where "eo = Some x" "et = Some y" by auto
        with f False Some ruled_both show ?thesis by simp
      qed
    qed
  qed
qed

text \<open>Entries of different types, and directories.\<close>

lemma merge_path_mixed:
  assumes "merge_path L diff3 p eb eo et (empty_outcome, g) = Inr (d, g')"
    and "1 < length (entry_types [eb, eo, et])"
  shows "p \<in> conflict_paths d \<and> merged_at d p = None"
  using assms by (auto simp: merge_path_def merged_obs file_conflict_def)

lemma merge_path_dir:
  assumes "merge_path L diff3 p eb eo et (empty_outcome, g) = Inr (d, g')"
    and "Tree \<in> set (entry_types [eb, eo, et])"
  shows "merged_at d p = None"
proof (cases "1 < length (entry_types [eb, eo, et])")
  case True
  with merge_path_mixed [OF assms(1)] show ?thesis by blast
next
  case False
  with assms have "(empty_outcome, g) = (d, g')" unfolding merge_path_def Let_def by simp
  then show ?thesis by (auto simp: merged_obs)
qed

text \<open>A merged path was a file on one of the two sides, and no side has a directory there.\<close>

lemma merge_path_merged:
  assumes "merge_path L diff3 p eb eo et (empty_outcome, g) = Inr (d, g')"
    and "merged_at d p \<noteq> None"
  shows "Tree \<notin> set (entry_types [eb, eo, et]) \<and> (eo \<noteq> None \<or> et \<noteq> None)"
proof -
  have nt: "Tree \<notin> set (entry_types [eb, eo, et])" using merge_path_dir [OF assms(1)] assms(2) by blast
  moreover have "eo \<noteq> None \<or> et \<noteq> None"
  proof (rule ccontr)
    assume "\<not> (eo \<noteq> None \<or> et \<noteq> None)"
    with merge_path_agree [OF assms(1) nt] assms(2) show False by (simp add: blobify_def)
  qed
  ultimately show ?thesis by blast
qed

lemma mergeTrees_path:
  assumes "mergeTrees L diff3 gd bt ot tt = Inr (out, gd')"
    and "map_of bt p \<noteq> None \<or> map_of ot p \<noteq> None \<or> map_of tt p \<noteq> None"
  obtains g g' where "merge_path L diff3 p (map_of bt p) (map_of ot p) (map_of tt p)
      (empty_outcome, g) = Inr (outcome_at p out, g')" "grows g' gd'"
  using mergeTrees_at [OF assms(1), of p] assms(2) by (auto simp: set_merge_paths)

lemma mergeTrees_absent:
  assumes "mergeTrees L diff3 gd bt ot tt = Inr (out, gd')"
    and "map_of bt p = None" "map_of ot p = None" "map_of tt p = None"
  shows "merged_at out p = None \<and> p \<notin> conflict_paths out"
  using mergeTrees_at [OF assms(1), of p] assms(2-)
    merged_at_outcome_at [of p out] conflict_outcome_at [of p out]
  by (auto simp: set_merge_paths merged_at_def conflict_paths_def empty_outcome_def)

lemma outcome_at_refl:
  "merged_at (outcome_at p out) p = merged_at out p"
  "p \<in> conflict_paths (outcome_at p out) \<longleftrightarrow> p \<in> conflict_paths out"
  "p \<in> set (autoMerged (outcome_at p out)) \<longleftrightarrow> p \<in> set (autoMerged out)"
  by (simp_all add: merged_at_outcome_at conflict_outcome_at auto_outcome_at)

lemma ruled_at:
  assumes "ruled L diff3 g p eb eo et (outcome_at p out)"
  shows "ruled L diff3 g p eb eo et out"
proof -
  have c: "conflicts_at (outcome_at p out) p = conflicts_at out p" by (simp add: conflicts_at_def outcome_at_def)
  have "blended L diff3 g p base i j m eb eo et (outcome_at p out) r = blended L diff3 g p base i j m eb eo et out r"
    for base i j m r
    by (cases r rule: option.exhaust; cases "the r") (simp_all add: blended_def c outcome_at_refl)
  with assms show ?thesis by (cases "rule_at eb eo et") (simp_all add: ruled_def c outcome_at_refl)
qed

lemma mergeTrees_ruled:
  assumes m: "mergeTrees L diff3 gd bt ot tt = Inr (out, gd')"
  shows "ruled L diff3 gd' p (map_of bt p) (map_of ot p) (map_of tt p) out"
proof (cases "map_of bt p \<noteq> None \<or> map_of ot p \<noteq> None \<or> map_of tt p \<noteq> None")
  case True
  from m True obtain g g' where
    mp: "merge_path L diff3 p (map_of bt p) (map_of ot p) (map_of tt p) (empty_outcome, g) =
      Inr (outcome_at p out, g')" and gr: "grows g' gd'" by (rule mergeTrees_path)
  show ?thesis by (rule ruled_at [OF ruled_grows [OF ruled_path [OF mp] gr]])
next
  case False
  then have "p \<notin> set (merge_paths bt ot tt)" by (simp add: set_merge_paths)
  with mergeTrees_at [OF m, of p] have "outcome_at p out = empty_outcome" by blast
  moreover have "ruled L diff3 gd' p None None None empty_outcome"
    by (simp add: ruled_def rule_none conflicts_at_def merged_at_def empty_outcome_def)
  ultimately have "ruled L diff3 gd' p (map_of bt p) (map_of ot p) (map_of tt p) (outcome_at p out)" using False by simp
  then show ?thesis by (rule ruled_at)
qed

text \<open>A path below a directory path.\<close>

definition tree_closed :: "flat_tree \<Rightarrow> bool" where
  "tree_closed t \<longleftrightarrow> (\<forall>p r e. map_of t (p @ CHR ''/'' # r) = Some e \<longrightarrow>
     (\<exists>f. map_of t p = Some f \<and> fe_type f = Tree))"

lemma mergeTrees_no_file_below_file:
  assumes m: "mergeTrees L diff3 gd bt ot tt = Inr (out, gd')"
    and "tree_closed ot" "tree_closed tt" and "merged_at out p \<noteq> None"
  shows "merged_at out (p @ CHR ''/'' # r) = None"
proof (rule ccontr)
  let ?q = "p @ CHR ''/'' # r"
  have merged: "Tree \<notin> set (entry_types [map_of bt x, map_of ot x, map_of tt x]) \<and>
      (map_of ot x \<noteq> None \<or> map_of tt x \<noteq> None)" if "merged_at out x \<noteq> None" for x
  proof -
    have "map_of bt x \<noteq> None \<or> map_of ot x \<noteq> None \<or> map_of tt x \<noteq> None"
      using mergeTrees_absent [OF m, of x] that by auto
    with m obtain g g' where
      "merge_path L diff3 x (map_of bt x) (map_of ot x) (map_of tt x) (empty_outcome, g) =
        Inr (outcome_at x out, g')" by (rule mergeTrees_path)
    from merge_path_merged [OF this] that show ?thesis by (simp add: outcome_at_refl)
  qed
  assume "merged_at out ?q \<noteq> None"
  then have "map_of ot ?q \<noteq> None \<or> map_of tt ?q \<noteq> None" using merged by blast
  then obtain f where "map_of ot p = Some f \<or> map_of tt p = Some f" "fe_type f = Tree"
  proof
    assume "map_of ot ?q \<noteq> None"
    then obtain e where "map_of ot ?q = Some e" by blast
    with assms(2) [unfolded tree_closed_def, rule_format, of p r e] that show ?thesis by blast
  next
    assume "map_of tt ?q \<noteq> None"
    then obtain e where "map_of tt ?q = Some e" by blast
    with assms(3) [unfolded tree_closed_def, rule_format, of p r e] that show ?thesis by blast
  qed
  then have "Tree \<in> set (entry_types [map_of bt p, map_of ot p, map_of tt p])"
    unfolding Tree_in_entry_types by (elim disjE) (simp_all, blast+)
  with merged [OF assms(4)] show False by blast
qed

subsection \<open>Resolving hunks\<close>

text \<open>The text a region stands for when every conflict is answered by \<open>f\<close>.\<close>

fun resolve_regions :: "(nat \<Rightarrow> hunk \<Rightarrow> utext list) \<Rightarrow> region list \<Rightarrow> nat \<Rightarrow> utext list" where
  "resolve_regions f [] i = []"
| "resolve_regions f (ROk ls # rs) i = ls @ resolve_regions f rs i"
| "resolve_regions f (RConflict h # rs) i = f i h @ resolve_regions f rs (Suc i)"

definition answer :: "decision list \<Rightarrow> nat \<Rightarrow> hunk \<Rightarrow> utext list" where
  "answer ds i h =
     (case find_first (\<lambda>d. d_hunkIndex d = i) ds of
        Some d \<Rightarrow>
          (case d_choice d of
             COurs \<Rightarrow> h_a h
           | CTheirs \<Rightarrow> h_b h
           | CEdit \<Rightarrow> split_on newline (the (d_text d)))
      | None \<Rightarrow> [])"

definition answered :: "decision list \<Rightarrow> nat \<Rightarrow> bool" where
  "answered ds i \<longleftrightarrow> (\<exists>d. find_first (\<lambda>d. d_hunkIndex d = i) ds = Some d \<and>
     (d_choice d = CEdit \<longrightarrow> d_text d \<noteq> None))"

lemma apply_regions_resolve:
  assumes "fst (collect_regions rs) = drop i hunks" and "i \<le> length hunks"
    and "\<And>j. i \<le> j \<Longrightarrow> j < length hunks \<Longrightarrow> answered ds j"
  shows "apply_regions hunks ds rs i = Inr (resolve_regions (answer ds) rs i)"
  using assms
proof (induction "answer ds" rs i rule: resolve_regions.induct)
  case (1 i)
  then show ?case by simp
next
  case (2 ls rs i)
  then show ?case by (simp add: case_prod_beta Let_def)
next
  case (3 h rs i)
  from 3(2) have h: "h # fst (collect_regions rs) = drop i hunks"
    by (simp add: case_prod_beta Let_def)
  then have i: "i < length hunks" "hunks ! i = h" "fst (collect_regions rs) = drop (Suc i) hunks"
    by (metis drop_all list.distinct(1) not_le,
        metis drop_all hd_drop_conv_nth list.distinct(1) list.sel(1) not_le,
        metis drop_Suc drop_tl list.sel(3))
  from 3(1) [OF i(3)] i(1) 3(4)
  have rest: "apply_regions hunks ds rs (Suc i) = Inr (resolve_regions (answer ds) rs (Suc i))"
    by simp
  from 3(4) [OF le_refl i(1)] obtain d where
    d: "find_first (\<lambda>d. d_hunkIndex d = i) ds = Some d" "d_choice d = CEdit \<longrightarrow> d_text d \<noteq> None"
    by (auto simp: answered_def)
  with i rest show ?case
    by (cases "d_choice d") (auto simp: answer_def)
qed

lemma diff3TextMerge_collect:
  "diff3TextMerge diff3 t b u = Dirty hunks pt \<Longrightarrow> fst (collect_regions (diff3 t b u)) = hunks"
  "diff3TextMerge diff3 t b u = Clean pt \<Longrightarrow> fst (collect_regions (diff3 t b u)) = []"
  by (auto simp: diff3TextMerge_def Let_def split: prod.splits if_splits)

lemma no_conflict_regions:
  "fst (collect_regions rs) = [] \<Longrightarrow> snd (collect_regions rs) = resolve_regions f rs i"
  by (induction f rs i rule: resolve_regions.induct) (auto simp: case_prod_beta Let_def)

lemma applyHunkDecisions_resolves:
  assumes "diff3TextMerge diff3 t b u = Dirty hunks pt" and "length ds = length hunks"
    and "\<And>j. j < length hunks \<Longrightarrow> answered ds j"
  shows "applyHunkDecisions diff3 t b u hunks ds =
    Inr (join_with newline (resolve_regions (answer ds) (diff3 t b u) 0))"
  using apply_regions_resolve [of "diff3 t b u" 0 hunks ds] assms diff3TextMerge_collect(1)
  by (simp add: applyHunkDecisions_def)

lemma applyHunkDecisions_clean:
  assumes "diff3TextMerge diff3 t b u = Clean pt"
  shows "applyHunkDecisions diff3 t b u [] [] = Inr pt"
proof -
  note c = diff3TextMerge_collect(2) [OF assms]
  have "apply_regions [] [] (diff3 t b u) 0 = Inr (resolve_regions (answer []) (diff3 t b u) 0)"
    by (rule apply_regions_resolve) (simp_all add: c)
  moreover have "pt = join_with newline (snd (collect_regions (diff3 t b u)))"
    using assms by (auto simp: diff3TextMerge_def Let_def split: prod.splits if_splits)
  ultimately show ?thesis
    by (simp add: applyHunkDecisions_def no_conflict_regions [OF c, of "answer []" 0])
qed

subsection \<open>Example trees\<close>

definition blob_entry :: "oid \<Rightarrow> string \<Rightarrow> flat_entry" where
  "blob_entry i m = \<lparr>fe_oid = i, fe_mode = m, fe_type = Blob\<rparr>"

definition dir_entry :: "oid \<Rightarrow> flat_entry" where
  "dir_entry i = \<lparr>fe_oid = i, fe_mode = ''040000'', fe_type = Tree\<rparr>"

definition demo_base :: flat_tree where
  "demo_base = [(''a'', blob_entry ''1'' ''100644''), (''b'', blob_entry ''2'' ''100644''),
     (''d'', dir_entry ''7''), (''d/c'', blob_entry ''3'' ''100644'')]"

definition demo_ours :: flat_tree where
  "demo_ours = [(''a'', blob_entry ''1'' ''100755''), (''b'', blob_entry ''4'' ''100644''),
     (''d'', dir_entry ''8''), (''d/c'', blob_entry ''3'' ''100644'')]"

definition demo_theirs :: flat_tree where
  "demo_theirs = [(''a'', blob_entry ''1'' ''100644''), (''b'', blob_entry ''5'' ''100644''),
     (''d'', dir_entry ''9''), (''d/c'', blob_entry ''6'' ''100644'')]"

definition demo_gitdir :: gitdir where
  "demo_gitdir = \<lparr>objs = [(''2'', (''blob'', [50])), (''4'', (''blob'', [52])), (''5'', (''blob'', [53]))],
     refs = []\<rparr>"

text \<open>A line merge that reports the whole texts as one conflict.\<close>

definition whole_diff3 :: diff3_fun where
  "whole_diff3 t b u =
     (if t = u then [ROk (split_on newline t)]
      else [RConflict \<lparr>h_a = split_on newline t, h_o = split_on newline b, h_b = split_on newline u,
        h_aIndex = 0, h_oIndex = 0, h_bIndex = 0\<rparr>])"

lemma demo_paths: "merge_paths demo_base demo_ours demo_theirs = [''a'', ''b'', ''d'', ''d/c'']"
  by (simp add: merge_paths_def demo_base_def demo_ours_def demo_theirs_def akeys_def)

lemmas demo_tree_defs = demo_base_def demo_ours_def demo_theirs_def blob_entry_def dir_entry_def

lemmas decode_eval = decodeUtf8Strict_def dec_all.simps dec_cp_def bom_def

lemma demo_merge:
  "mergeTrees demo_lib whole_diff3 demo_gitdir demo_base demo_ours demo_theirs =
    Inr (\<lparr>mergedEntries =
        [\<lparr>me_path = ''a'', me_oid = ''1'', me_mode = ''100755''\<rparr>,
         \<lparr>me_path = ''d/c'', me_oid = ''6'', me_mode = ''100644''\<rparr>],
      conflicts =
        [hunk_conflict ''b''
          [\<lparr>h_a = [[52]], h_o = [[50]], h_b = [[53]], h_aIndex = 0, h_oIndex = 0, h_bIndex = 0\<rparr>]
          (Some (blob_entry ''2'' ''100644'')) (Some (blob_entry ''4'' ''100644''))
          (Some (blob_entry ''5'' ''100644''))],
      autoMerged = [], propagatedMode = [''a'']\<rparr>, demo_gitdir)"
  unfolding mergeTrees_def demo_paths
  by (simp add: demo_tree_defs demo_gitdir_def merge_path_def merge_both_def Let_def
      entry_types_def List.map_filter_def push_merged_def push_mode_def push_conflict_def
      empty_outcome_def tryTextMerge_def readObject_def TEXT_MERGE_MAX_BYTES_def decode_eval
      diff3TextMerge_def whole_diff3_def newline_def)

subsection \<open>Properties\<close>

text \<open>
  C2. Three-way rule.  A successful \<open>mergeTrees\<close> gives every path exactly the treatment of
  \<open>rule_at\<close>, which looks at the three entries of the path and nothing else: a directory is left to its
  files, and one that meets a file is a conflict of types; a common value is kept, a side that did not
  change gives way to the other (content, mode, addition and deletion alike), a file that both sides
  added with one content is kept, executable if either is; a modified file that the other side deleted,
  and a change of mode against any other change, is a conflict that keeps the path out of the merged
  tree; and where only the contents differ the texts are blended, which ends in one entry or in one
  conflict, never in both or neither.
\<close>

theorem merge_three_way:
  assumes "mergeTrees L diff3 gd bt ot tt = Inr (out, gd')"
  shows "case rule_at (map_of bt p) (map_of ot p) (map_of tt p) of
      Keep v \<Rightarrow> merged_at out p = v \<and> conflicts_at out p = [] \<and> p \<notin> set (autoMerged out)
    | Clash k \<Rightarrow>
        merged_at out p = None \<and>
        conflicts_at out p = [file_conflict p k (map_of bt p) (map_of ot p) (map_of tt p)] \<and>
        p \<notin> set (autoMerged out)
    | Blend base i j m \<Rightarrow>
        (if p \<in> set (autoMerged out) then merged_at out p \<noteq> None \<and> conflicts_at out p = []
         else merged_at out p = None \<and> length (conflicts_at out p) = 1)"
proof (cases "rule_at (map_of bt p) (map_of ot p) (map_of tt p)")
  case (Blend base i j m)
  with mergeTrees_ruled [OF assms, of p] obtain r where
    "blended L diff3 gd' p base i j m (map_of bt p) (map_of ot p) (map_of tt p) out r" by (auto simp: ruled_def)
  with Blend show ?thesis by (cases r; cases "the r") (auto simp: blended_def)
qed (use mergeTrees_ruled [OF assms, of p] in \<open>simp_all add: ruled_def\<close>)

lemma demo_rules:
  "rule_at (map_of demo_base ''a'') (map_of demo_ours ''a'') (map_of demo_theirs ''a'') = Keep (Some (''1'', ''100755''))"
  "rule_at (map_of demo_base ''b'') (map_of demo_ours ''b'') (map_of demo_theirs ''b'') = Blend (Some ''2'') ''4'' ''5'' ''100644''"
  "rule_at (map_of demo_base ''d'') (map_of demo_ours ''d'') (map_of demo_theirs ''d'') = Keep None"
  "rule_at (map_of demo_base ''d/c'') (map_of demo_ours ''d/c'') (map_of demo_theirs ''d/c'') = Keep (Some (''6'', ''100644''))"
  by (simp_all add: rule_at_def has_type_def file_rule_def blobify_def demo_tree_defs)

lemma merge_three_way_witness:
  "\<exists>out. mergeTrees demo_lib whole_diff3 demo_gitdir demo_base demo_ours demo_theirs = Inr (out, demo_gitdir) \<and>
     merged_at out ''a'' = Some (''1'', ''100755'') \<and> merged_at out ''d/c'' = Some (''6'', ''100644'') \<and>
     merged_at out ''d'' = None \<and> conflicts_at out ''d'' = [] \<and>
     merged_at out ''b'' = None \<and> length (conflicts_at out ''b'') = 1"
proof -
  obtain out where out: "mergeTrees demo_lib whole_diff3 demo_gitdir demo_base demo_ours demo_theirs = Inr (out, demo_gitdir)"
    and auto: "autoMerged out = []"
    using demo_merge by simp
  show ?thesis
    using merge_three_way [OF out, of "''a''"] merge_three_way [OF out, of "''b''"] merge_three_way [OF out, of "''d''"]
      merge_three_way [OF out, of "''d/c''"] out auto
    unfolding demo_rules by auto
qed



text \<open>
  C7. The merged entries never hold a file below another file: when ours and theirs are trees
  (the directories of every entry are entries themselves), no merged path has a merged path as a
  proper directory prefix, even where one side replaced a file by a directory.
\<close>

theorem merge_no_file_below_file:
  assumes "mergeTrees L diff3 gd bt ot tt = Inr (out, gd')"
    and "tree_closed ot" "tree_closed tt" and "merged_at out p \<noteq> None"
  shows "merged_at out (p @ CHR ''/'' # r) = None"
  using assms by (rule mergeTrees_no_file_below_file)

lemma demo_closed: "tree_closed demo_ours" "tree_closed demo_theirs"
  by (auto simp: tree_closed_def demo_tree_defs append_eq_Cons_conv split: if_splits)

lemma merge_no_file_below_file_witness:
  "\<exists>out. mergeTrees demo_lib whole_diff3 demo_gitdir demo_base demo_ours demo_theirs =
       Inr (out, demo_gitdir)
     \<and> merged_at out ''a'' \<noteq> None \<and> merged_at out ''a/x'' = None"
proof -
  define out where
    "out = fst (projr (mergeTrees demo_lib whole_diff3 demo_gitdir demo_base demo_ours demo_theirs))"
  have "merged_at out ''a'' \<noteq> None" by (simp add: out_def demo_merge merged_at_def)
  moreover have "mergeTrees demo_lib whole_diff3 demo_gitdir demo_base demo_ours demo_theirs =
      Inr (out, demo_gitdir)" by (simp add: out_def demo_merge)
  ultimately show ?thesis
    using merge_no_file_below_file [OF _ demo_closed, of demo_lib whole_diff3 demo_gitdir demo_base out
        demo_gitdir "''a''" "''x''"] by auto
qed

text \<open>
  C6. Resolving a text conflict.  If the text merge reported hunks and the decisions are as many as
  the hunks and answer each of them (an edit with its text), \<open>applyHunkDecisions\<close> succeeds, and
  its result is the merge with every conflict region replaced, in place, by the chosen side of that
  region or by the edited lines.
\<close>

theorem hunk_decisions_resolve:
  assumes "diff3TextMerge diff3 ours base theirs = Dirty hunks partialText"
    and "length ds = length hunks" and "\<And>j. j < length hunks \<Longrightarrow> answered ds j"
  shows "applyHunkDecisions diff3 ours base theirs hunks ds =
    Inr (join_with newline (resolve_regions (answer ds) (diff3 ours base theirs) 0))"
  using assms by (rule applyHunkDecisions_resolves)

lemma hunk_decisions_resolve_witness:
  "applyHunkDecisions whole_diff3 [52] [50] [53]
     [\<lparr>h_a = [[52]], h_o = [[50]], h_b = [[53]], h_aIndex = 0, h_oIndex = 0, h_bIndex = 0\<rparr>]
     [\<lparr>d_hunkIndex = 0, d_choice = CTheirs, d_text = None\<rparr>] = Inr [53]"
proof -
  let ?h = "[\<lparr>h_a = [[52]], h_o = [[50]], h_b = [[53]], h_aIndex = 0, h_oIndex = 0, h_bIndex = 0\<rparr>]"
  let ?d = "[\<lparr>d_hunkIndex = 0, d_choice = CTheirs, d_text = None\<rparr>]"
  have "diff3TextMerge whole_diff3 [52] [50] [53] = Dirty ?h []"
    by (simp add: diff3TextMerge_def whole_diff3_def newline_def)
  moreover have "answered ?d j" if "j < length ?h" for j
    using that by (simp add: answered_def)
  ultimately show ?thesis
    using hunk_decisions_resolve [of whole_diff3 "[52]" "[50]" "[53]" ?h "[]" ?d]
    by (simp add: whole_diff3_def newline_def answer_def)
qed

end
