(* ===== verification/Worktree.thy ===== *)
theory Worktree
  imports Objects
begin

unbundle bit_operations_syntax

text \<open>
  The working tree of a synced root (opendweb-ext-sync, worktree.mjs): the primitives that write
  and delete one path, and the state triple (object id, entry type, mode) a path is judged by.

  The tree is a table from relative paths to nodes.  Entries below a path that is not a directory
  do not exist; a symbolic link is a leaf that is never followed, and writing below one, which
  leaves the synced root, is an error of the model.  Failures of the disk itself are not modelled.
\<close>

datatype node = File bytes nat | Dir | Symlink | Special

type_synonym wtree = "(string \<times> node) list"

text \<open>The proper directory prefixes of a path, outermost first.\<close>

definition dir_prefixes :: "string \<Rightarrow> string list" where
  "dir_prefixes p = map (\<lambda>i. take i p) (filter (\<lambda>i. p ! i = CHR ''/'') [0..<length p])"

lemma in_dir_prefixes: "q \<in> set (dir_prefixes p) \<longleftrightarrow> (\<exists>r. p = q @ CHR ''/'' # r)"
proof
  assume "q \<in> set (dir_prefixes p)"
  then obtain i where "q = take i p" "i < length p" "p ! i = CHR ''/''"
    by (auto simp: dir_prefixes_def)
  then have "p = q @ CHR ''/'' # drop (Suc i) p" by (metis id_take_nth_drop)
  then show "\<exists>r. p = q @ CHR ''/'' # r" ..
next
  assume "\<exists>r. p = q @ CHR ''/'' # r"
  then obtain r where "p = q @ CHR ''/'' # r" ..
  then have "length q \<in> set (filter (\<lambda>i. p ! i = CHR ''/'') [0..<length p])" "q = take (length q) p"
    by (simp_all add: nth_append)
  then show "q \<in> set (dir_prefixes p)" unfolding dir_prefixes_def by (metis image_eqI image_set)
qed

lemma dir_prefixes_simps [js_simps]:
  "dir_prefixes [] = []"
  "dir_prefixes (c # s) = (if c = CHR ''/'' then [[]] else []) @ map (Cons c) (dir_prefixes s)"
proof -
  have u: "[0..<Suc n] = 0 # map Suc [0..<n]" for n
    by (metis map_Suc_upt upt_conv_Cons zero_less_Suc)
  show "dir_prefixes [] = []" by (simp add: dir_prefixes_def)
  show "dir_prefixes (c # s) = (if c = CHR ''/'' then [[]] else []) @ map (Cons c) (dir_prefixes s)"
    by (simp add: dir_prefixes_def u filter_map o_def del: upt_Suc)
qed

text \<open>
  \<^verbatim>\<open>mkdir(..., {recursive: true})\<close> on a list of directory paths, outermost first.  Something else in the place
  of the last one is \<^verbatim>\<open>EEXIST\<close>, in the place of one above it \<^verbatim>\<open>ENOTDIR\<close>.
\<close>

fun mkdirs :: "string list \<Rightarrow> (wtree, err, unit) eff" where
  "mkdirs [] t = (Inr (), t)"
| "mkdirs (q # qs) t =
     (case map_of t q of
        None \<Rightarrow> mkdirs qs (aput q Dir t)
      | Some Dir \<Rightarrow> mkdirs qs t
      | Some _ \<Rightarrow> (Inl (Code (if qs = [] then ''EEXIST'' else ''ENOTDIR'')), t))"

definition tmp_path :: "string \<Rightarrow> string \<Rightarrow> string" where
  "tmp_path p suffix = p @ ''.dwebtmp-'' @ suffix"

text \<open>\<^verbatim>\<open>0o777\<close>, \<^verbatim>\<open>0o111\<close>, \<^verbatim>\<open>0o100644\<close>, \<^verbatim>\<open>0o100755\<close> and \<^verbatim>\<open>0o600\<close>\<close>

definition perm_bits :: nat where "perm_bits = 511"
definition exec_bits :: nat where "exec_bits = 73"
definition mode_plain :: nat where "mode_plain = 33188"
definition mode_exec :: nat where "mode_exec = 33261"
definition mode_tmp :: nat where "mode_tmp = 384"

text \<open>
  The two halves of \<^verbatim>\<open>materializeWrite\<close>: creating the temporary file exclusively, and filling,
  chmod-ing and renaming it.  A process killed in between leaves the temporary file behind, and so
  does a rename onto a directory, which fails.
\<close>

definition mw_open :: "string \<Rightarrow> string \<Rightarrow> (wtree, err, unit) eff" where
  "mw_open p suffix =
     ebind (mkdirs (dir_prefixes p)) (\<lambda>_ t.
       case map_of t (tmp_path p suffix) of
         Some _ \<Rightarrow> (Inl (Code ''EEXIST''), t)
       | None \<Rightarrow> (Inr (), aput (tmp_path p suffix) (File [] mode_tmp) t))"

definition mw_commit :: "string \<Rightarrow> bytes \<Rightarrow> nat \<Rightarrow> string \<Rightarrow> (wtree, err, unit) eff" where
  "mw_commit p bs mode suffix t =
     (let f = File bs (mode AND perm_bits)
      in case map_of t p of
           Some Dir \<Rightarrow> (Inl (Code ''EISDIR''), aput (tmp_path p suffix) f t)
         | _ \<Rightarrow> (Inr (), aput p f (adel (tmp_path p suffix) t)))"

definition materializeWrite :: "string \<Rightarrow> bytes \<Rightarrow> nat \<Rightarrow> string \<Rightarrow> (wtree, err, unit) eff" where
  "materializeWrite p bs mode suffix = ebind (mw_open p suffix) (\<lambda>_. mw_commit p bs mode suffix)"

definition materializeDelete :: "string \<Rightarrow> (wtree, err, unit) eff" where
  "materializeDelete p t =
     (if list_ex (\<lambda>q. map_of t q \<noteq> None \<and> map_of t q \<noteq> Some Dir) (dir_prefixes p)
      then (Inl (Code ''ENOTDIR''), t)
      else (case map_of t p of
              None \<Rightarrow> (Inr (), t)
            | Some Dir \<Rightarrow>
                (Inr (), filter (\<lambda>e. fst e \<noteq> p \<and> \<not> startsWith (fst e) (p @ ''/'')) t)
            | Some _ \<Rightarrow> (Inr (), adel p t)))"

text \<open>The judged triple of a path.  Reading a file also stores its blob.\<close>

type_synonym ptuple = "oid option \<times> etype option \<times> nat option"

definition node_mode :: "nat \<Rightarrow> nat" where
  "node_mode m = (if m AND exec_bits \<noteq> 0 then mode_exec else mode_plain)"

definition pathStateTuple :: "git_lib \<Rightarrow> wtree \<Rightarrow> string \<Rightarrow> gitdir \<Rightarrow> ptuple \<times> gitdir" where
  "pathStateTuple L t p gd =
     (case map_of t p of
        None \<Rightarrow> ((None, None, None), gd)
      | Some Dir \<Rightarrow> ((None, Some Tree, None), gd)
      | Some Symlink \<Rightarrow> ((Some ''symlink'', Some Tree, None), gd)
      | Some Special \<Rightarrow> ((Some ''special'', Some Tree, None), gd)
      | Some (File bs m) \<Rightarrow>
          (let (i, gd') = writeBlob L gd bs in ((Some i, Some Blob, Some (node_mode m)), gd')))"

subsection \<open>Lemmas\<close>

lemma mkdirs_ok:
  assumes "\<forall>q \<in> set qs. map_of t q = None \<or> map_of t q = Some Dir"
  shows "\<exists>t'. mkdirs qs t = (Inr (), t') \<and>
    (\<forall>x. map_of t' x = (if x \<in> set qs then Some Dir else map_of t x))"
  using assms
proof (induction qs arbitrary: t)
  case Nil
  then show ?case by simp
next
  case (Cons q qs)
  show ?case
  proof (cases "map_of t q")
    case None
    have "\<forall>r \<in> set qs. map_of (aput q Dir t) r = None \<or> map_of (aput q Dir t) r = Some Dir"
      using Cons.prems by auto
    from Cons.IH [OF this] None show ?thesis by auto
  next
    case (Some n)
    with Cons.prems have n: "n = Dir" by auto
    from Cons.IH [of t] Cons.prems obtain t' where
      "mkdirs qs t = (Inr (), t')" "\<forall>x. map_of t' x = (if x \<in> set qs then Some Dir else map_of t x)"
      by auto
    with Some n show ?thesis by auto
  qed
qed

lemma dir_prefix_shorter: "q \<in> set (dir_prefixes p) \<Longrightarrow> length q < length p"
  by (auto simp: in_dir_prefixes)

lemma tmp_path_longer: "length p < length (tmp_path p s)"
  by (simp add: tmp_path_def)

lemma tmp_path_neq [simp]: "tmp_path p s \<noteq> p" "p \<noteq> tmp_path p s"
  using tmp_path_longer by (metis less_irrefl)+

lemma tmp_not_prefix: "tmp_path p s \<notin> set (dir_prefixes p)"
  using dir_prefix_shorter tmp_path_longer less_asym by blast

text \<open>The path can be written: its directories can be made and it is no directory itself.\<close>

definition writable :: "wtree \<Rightarrow> string \<Rightarrow> bool" where
  "writable t p \<longleftrightarrow> map_of t p \<noteq> Some Dir \<and>
     (\<forall>q \<in> set (dir_prefixes p). map_of t q = None \<or> map_of t q = Some Dir)"

lemma mw_open_ok:
  assumes "writable t p" and "map_of t (tmp_path p s) = None"
  shows "\<exists>t'. mw_open p s t = (Inr (), t') \<and>
    (\<forall>x. map_of t' x = (if x = tmp_path p s then Some (File [] mode_tmp)
       else if x \<in> set (dir_prefixes p) then Some Dir else map_of t x))"
proof -
  from assms(1) have "\<forall>q \<in> set (dir_prefixes p). map_of t q = None \<or> map_of t q = Some Dir"
    by (simp add: writable_def)
  from mkdirs_ok [OF this] obtain t1 where
    t1: "mkdirs (dir_prefixes p) t = (Inr (), t1)"
      "\<And>x. map_of t1 x = (if x \<in> set (dir_prefixes p) then Some Dir else map_of t x)" by auto
  have "map_of t1 (tmp_path p s) = None" using t1(2) assms(2) tmp_not_prefix by simp
  with t1 show ?thesis by (auto simp: mw_open_def ebind_def)
qed

lemma materializeWrite_ok:
  assumes "writable t p" and "map_of t (tmp_path p s) = None"
  shows "\<exists>t'. materializeWrite p bs m s t = (Inr (), t') \<and>
    (\<forall>x. map_of t' x = (if x = p then Some (File bs (m AND perm_bits))
       else if x \<in> set (dir_prefixes p) then Some Dir else map_of t x))"
proof -
  from mw_open_ok [OF assms] obtain t1 where t1: "mw_open p s t = (Inr (), t1)"
      "\<And>x. map_of t1 x = (if x = tmp_path p s then Some (File [] mode_tmp)
         else if x \<in> set (dir_prefixes p) then Some Dir else map_of t x)" by auto
  have "p \<notin> set (dir_prefixes p)" using dir_prefix_shorter by blast
  then have p1: "map_of t1 p = map_of t p" using t1(2) by simp
  then have "map_of t1 p \<noteq> Some Dir" using assms(1) by (simp add: writable_def)
  then have c: "mw_commit p bs m s t1 =
      (Inr (), aput p (File bs (m AND perm_bits)) (adel (tmp_path p s) t1))"
    by (auto simp: mw_commit_def Let_def split: option.splits node.splits)
  have "materializeWrite p bs m s t =
      (Inr (), aput p (File bs (m AND perm_bits)) (adel (tmp_path p s) t1))"
    using t1(1) c by (simp add: materializeWrite_def ebind_def)
  moreover have "map_of (aput p (File bs (m AND perm_bits)) (adel (tmp_path p s) t1)) x =
      (if x = p then Some (File bs (m AND perm_bits))
       else if x \<in> set (dir_prefixes p) then Some Dir else map_of t x)" for x
    using t1(2) [of x] assms(2) tmp_not_prefix by auto
  ultimately show ?thesis by blast
qed

text \<open>
  The exclusive open fails when the temporary file of the same transaction is already there, and
  the target keeps its content.
\<close>

lemma materializeWrite_tmp_exists:
  assumes "writable t p" and "map_of t (tmp_path p s) \<noteq> None"
  shows "\<exists>t'. materializeWrite p bs m s t = (Inl (Code ''EEXIST''), t') \<and>
    (\<forall>x. map_of t' x = (if x \<in> set (dir_prefixes p) then Some Dir else map_of t x))"
proof -
  from assms(1) have "\<forall>q \<in> set (dir_prefixes p). map_of t q = None \<or> map_of t q = Some Dir"
    by (simp add: writable_def)
  from mkdirs_ok [OF this] obtain t1 where
    t1: "mkdirs (dir_prefixes p) t = (Inr (), t1)"
      "\<And>x. map_of t1 x = (if x \<in> set (dir_prefixes p) then Some Dir else map_of t x)" by auto
  with assms(2) tmp_not_prefix [of p s] show ?thesis
    by (auto simp: materializeWrite_def mw_open_def ebind_def)
qed

lemma materializeDelete_ok:
  assumes "writable t p"
  shows "\<exists>t'. materializeDelete p t = (Inr (), t') \<and>
    (\<forall>x. map_of t' x = (if x = p then None else map_of t x))"
proof -
  from assms have n: "\<not> list_ex (\<lambda>q. map_of t q \<noteq> None \<and> map_of t q \<noteq> Some Dir) (dir_prefixes p)"
    by (auto simp: writable_def list_ex_iff)
  show ?thesis
  proof (cases "map_of t p")
    case None
    with n show ?thesis by (auto simp: materializeDelete_def)
  next
    case (Some k)
    with assms have "k \<noteq> Dir" by (simp add: writable_def)
    with n Some have "materializeDelete p t = (Inr (), adel p t)"
      by (cases k) (simp_all add: materializeDelete_def)
    then show ?thesis by auto
  qed
qed

text \<open>The triple does not depend on the object database, which only grows.\<close>

definition tuple_of :: "git_lib \<Rightarrow> wtree \<Rightarrow> string \<Rightarrow> ptuple" where
  "tuple_of L t p = fst (pathStateTuple L t p empty_gitdir)"

lemma pathStateTuple_fst: "fst (pathStateTuple L t p gd) = tuple_of L t p"
  by (auto simp: tuple_of_def pathStateTuple_def writeBlob_def writeObject_def Let_def
      split: option.splits node.splits)

lemma pathStateTuple_refs: "refs (snd (pathStateTuple L t p gd)) = refs gd"
  by (auto simp: pathStateTuple_def writeBlob_def writeObject_def Let_def refs_import
      split: option.splits node.splits)

lemma pathStateTuple_keeps:
  "readObject gd i = Some v \<Longrightarrow> readObject (snd (pathStateTuple L t p gd)) i = Some v"
  by (auto simp: pathStateTuple_def writeBlob_def writeObject_def Let_def import_keeps
      split: option.splits node.splits)

lemma pathStateTuple_self_named:
  "self_named L gd \<Longrightarrow> self_named L (snd (pathStateTuple L t p gd))"
  by (auto simp: pathStateTuple_def writeBlob_def writeObject_def Let_def import_self_named
      split: option.splits node.splits)

lemma tuple_of_cong: "map_of t p = map_of t' p \<Longrightarrow> tuple_of L t p = tuple_of L t' p"
  by (simp add: tuple_of_def pathStateTuple_def)

lemma tuple_of_file:
  "map_of t p = Some (File bs m) \<Longrightarrow>
     tuple_of L t p = (Some (objectOid L ''blob'' bs), Some Blob, Some (node_mode m))"
  by (simp add: tuple_of_def pathStateTuple_def writeBlob_def writeObject_def Let_def)

lemma tuple_of_missing: "map_of t p = None \<Longrightarrow> tuple_of L t p = (None, None, None)"
  by (simp add: tuple_of_def pathStateTuple_def)

text \<open>The mode written by a materialisation is the mode read back.\<close>

lemma node_mode_written:
  "m = mode_plain \<or> m = mode_exec \<Longrightarrow> node_mode (m AND perm_bits) = m"
  by (auto simp: node_mode_def mode_plain_def mode_exec_def perm_bits_def exec_bits_def)

end
