(* ===== verification/Intent.thy ===== *)
theory Intent
  imports Worktree
begin

text \<open>
  The intent transaction protocol (opendweb-ext-sync, intent.mjs): a persistent log makes the
  materialisation of a list of path operations and the advance of one reference recoverable.

  The world is the working tree, the repository directory and the two log files.  A log file is
  absent, unreadable or a record; writes of log files are atomic (O_EXCL temporary file, fsync,
  rename), so a crash leaves either the old or the new content.  A crash is the exception of the
  \<^verbatim>\<open>crashAt\<close> hook: it can strike at every stage the code names, and the state at that moment is what
  recovery finds.
\<close>

datatype 'a doc = Absent | Garbled | Doc 'a

datatype op_kind = OpWrite | OpDelete

record intent_op =
  op_kind :: op_kind
  op_path :: string
  op_pre :: "ptuple option"
  op_post :: "ptuple option"

record intent_rec =
  ir_txId :: string
  ir_ref :: string
  ir_target :: oid
  ir_oldRef :: "oid option"
  ir_ops :: "intent_op list"

record intent_spec =
  is_ref :: string
  is_target :: oid
  is_oldRef :: "oid option"
  is_ops :: "intent_op list"

record world =
  wt :: wtree
  gd :: gitdir
  intent_file :: "intent_rec doc"
  done_file :: "string doc"

text \<open>Running a working-tree effect inside the world.\<close>

definition on_wt :: "(wtree, err, 'a) eff \<Rightarrow> (world, err, 'a) eff" where
  "on_wt m w = (let (r, t) = m (wt w) in (r, w\<lparr>wt := t\<rparr>))"

subsection \<open>The log\<close>

definition readPendingIntent :: "world \<Rightarrow> err + intent_rec option" where
  "readPendingIntent w =
     (case intent_file w of
        Absent \<Rightarrow> Inr None
      | Garbled \<Rightarrow> Inl (Thrown ''intent log malformed'')
      | Doc rec \<Rightarrow>
          (case done_file w of
             Doc tx \<Rightarrow> if tx = ir_txId rec then Inr None else Inr (Some rec)
           | _ \<Rightarrow> Inr (Some rec)))"

definition normalizeTuple :: "ptuple option \<Rightarrow> ptuple option" where
  "normalizeTuple t =
     (case t of
        None \<Rightarrow> None
      | Some (i, ty, m) \<Rightarrow> if i = None \<and> ty = None \<and> m = None then None else t)"

definition tupleEquals :: "ptuple option \<Rightarrow> ptuple option \<Rightarrow> bool" where
  "tupleEquals a b =
     (let na = normalizeTuple a; nb = normalizeTuple b
      in if na = None \<or> nb = None then na = nb else the na = the nb)"

text \<open>\<^verbatim>\<open>prepareIntent\<close>; the random transaction id is an argument.\<close>

definition prepareIntent :: "string \<Rightarrow> intent_spec \<Rightarrow> (world, err, intent_rec) eff" where
  "prepareIntent txId spec =
     ebind (\<lambda>w. (readPendingIntent w, w)) (\<lambda>pending w.
       case pending of
         Some _ \<Rightarrow> (Inl (Thrown ''intent already pending''), w)
       | None \<Rightarrow>
           (let rec = \<lparr>ir_txId = txId, ir_ref = is_ref spec, ir_target = is_target spec,
                  ir_oldRef = is_oldRef spec, ir_ops = is_ops spec\<rparr>
            in (Inr rec, w\<lparr>intent_file := Doc rec\<rparr>)))"

definition markDone :: "intent_rec \<Rightarrow> (world, err, unit) eff" where
  "markDone rec w = (Inr (), w\<lparr>done_file := Doc (ir_txId rec)\<rparr>)"

definition clearIntent :: "(world, err, unit) eff" where
  "clearIntent w = (Inr (), w\<lparr>intent_file := Absent, done_file := Absent\<rparr>)"

subsection \<open>Materialisation and advance\<close>

definition applyOp :: "intent_op \<Rightarrow> string \<Rightarrow> (world, err, unit) eff" where
  "applyOp op txId w =
     (if op_kind op = OpWrite then
        (case op_post op of
           Some (Some i, ty, m) \<Rightarrow>
             if ty = Some Tree then on_wt (mkdirs (dir_prefixes (op_path op) @ [op_path op])) w
             else (case readObject (gd w) i of
                     None \<Rightarrow> (Inl (Code ''NotFoundError''), w)
                   | Some (_, bs) \<Rightarrow>
                       on_wt (materializeWrite (op_path op) bs
                         (case m of Some k \<Rightarrow> k | None \<Rightarrow> mode_plain) txId) w)
         | _ \<Rightarrow> on_wt (mkdirs (dir_prefixes (op_path op) @ [op_path op])) w)
      else on_wt (materializeDelete (op_path op)) w)"

definition advanceRef :: "intent_rec \<Rightarrow> (world, err, unit) eff" where
  "advanceRef rec w =
     (if readRef (gd w) (ir_ref rec) \<noteq> ir_oldRef rec then (Inl (Code ''cas-mismatch''), w)
      else (case writeRef (gd w) (ir_ref rec) (ir_target rec) of
              Inl e \<Rightarrow> (Inl e, w)
            | Inr g \<Rightarrow> (Inr (), w\<lparr>gd := g\<rparr>)))"

text \<open>The stages of the \<^verbatim>\<open>crashAt\<close> hook.\<close>

datatype stage = Prepared | Materialized nat | RefAdvanced

definition crash_point :: "(stage \<Rightarrow> bool) \<Rightarrow> stage \<Rightarrow> (world, err, unit) eff" where
  "crash_point crashAt st w =
     (if crashAt st then (Inl (Thrown ''CrashInjection''), w) else (Inr (), w))"

fun apply_ops :: "(stage \<Rightarrow> bool) \<Rightarrow> string \<Rightarrow> nat \<Rightarrow> intent_op list \<Rightarrow> (world, err, unit) eff" where
  "apply_ops crashAt txId i [] w = (Inr (), w)"
| "apply_ops crashAt txId i (op # ops) w =
     ebind (applyOp op txId) (\<lambda>_.
       ebind (crash_point crashAt (Materialized i)) (\<lambda>_.
         apply_ops crashAt txId (Suc i) ops)) w"

definition executeIntent ::
  "(stage \<Rightarrow> bool) \<Rightarrow> string \<Rightarrow> intent_spec \<Rightarrow> (world, err, intent_rec) eff" where
  "executeIntent crashAt txId spec =
     ebind (prepareIntent txId spec) (\<lambda>rec.
       ebind (crash_point crashAt Prepared) (\<lambda>_.
         ebind (apply_ops crashAt txId 0 (ir_ops rec)) (\<lambda>_.
           ebind (advanceRef rec) (\<lambda>_.
             ebind (crash_point crashAt RefAdvanced) (\<lambda>_.
               ebind (markDone rec) (\<lambda>_.
                 ebind clearIntent (\<lambda>_. ret rec)))))))"

subsection \<open>Recovery\<close>

datatype recover_result =
    RClean
  | RRecovered intent_rec
  | RConflicted "string list" string intent_rec

text \<open>Judging one path; reading a file stores its blob.\<close>

definition judge :: "git_lib \<Rightarrow> string \<Rightarrow> (world, err, ptuple option) eff" where
  "judge L p w = (let (t, g) = pathStateTuple L (wt w) p (gd w) in (Inr (Some t), w\<lparr>gd := g\<rparr>))"

fun check_postimages :: "git_lib \<Rightarrow> intent_op list \<Rightarrow> (world, err, string list) eff" where
  "check_postimages L [] w = (Inr [], w)"
| "check_postimages L (op # ops) w =
     ebind (judge L (op_path op)) (\<lambda>actual.
       ebind (check_postimages L ops) (\<lambda>bad.
         ret (if tupleEquals actual (op_post op) then bad else op_path op # bad))) w"

fun triage :: "git_lib \<Rightarrow> string \<Rightarrow> intent_op list \<Rightarrow> (world, err, string list) eff" where
  "triage L txId [] w = (Inr [], w)"
| "triage L txId (op # ops) w =
     ebind (judge L (op_path op)) (\<lambda>actual.
       if tupleEquals actual (op_pre op) then
         ebind (applyOp op txId) (\<lambda>_. triage L txId ops)
       else if tupleEquals actual (op_post op) then triage L txId ops
       else ebind (triage L txId ops) (\<lambda>edited. ret (op_path op # edited))) w"

definition recoverIntent :: "git_lib \<Rightarrow> (world, err, recover_result) eff" where
  "recoverIntent L =
     ebind (\<lambda>w. (readPendingIntent w, w)) (\<lambda>pending w.
       case pending of
         None \<Rightarrow> (Inr RClean, w)
       | Some rec \<Rightarrow>
           (let current = readRef (gd w) (ir_ref rec)
            in if current = Some (ir_target rec) then
                 ebind (check_postimages L (ir_ops rec)) (\<lambda>bad.
                   if bad \<noteq> [] then ret (RConflicted bad ''postimage-mismatch'' rec)
                   else ebind (markDone rec) (\<lambda>_.
                          ebind clearIntent (\<lambda>_. ret (RRecovered rec)))) w
               else if current = ir_oldRef rec then
                 ebind (triage L (ir_txId rec) (ir_ops rec)) (\<lambda>edited.
                   if edited \<noteq> [] then ret (RConflicted edited ''user-edits'' rec)
                   else ebind (advanceRef rec) (\<lambda>_.
                          ebind (markDone rec) (\<lambda>_.
                            ebind clearIntent (\<lambda>_. ret (RRecovered rec))))) w
               else (Inr (RConflicted [] ''ref-moved'' rec), w)))"

subsection \<open>The redo contract\<close>

text \<open>
  What recovery relies on, over any world: every operation owns one place, applying it succeeds,
  brings its place to the operation's after-image and changes nothing but the places it touches,
  none of which another operation owns; looking at a place only reads it.  The client lemmas: a
  run over any part of the log and a redo over the whole log converge.
\<close>

locale redo_log =
  fixes safe :: "'o list \<Rightarrow> 'w \<Rightarrow> bool"
    and key :: "'o \<Rightarrow> 'k"
    and touched :: "'o \<Rightarrow> 'k set"
    and pre :: "'o \<Rightarrow> 't"
    and post :: "'o \<Rightarrow> 't"
    and node_at :: "'w \<Rightarrow> 'k \<Rightarrow> 'n"
    and view :: "'n \<Rightarrow> 't"
    and frame :: "'w \<Rightarrow> 'c"
    and step :: "'o \<Rightarrow> ('w, 'e, unit) eff"
    and look :: "'o \<Rightarrow> ('w, 'e, 't) eff"
  assumes owns: "safe ops w \<Longrightarrow> p \<in> set ops \<Longrightarrow> q \<in> set ops \<Longrightarrow> key p \<noteq> key q \<Longrightarrow> key q \<notin> touched p"
    and step_ok: "safe ops w \<Longrightarrow> p \<in> set ops \<Longrightarrow>
      \<exists>w'. step p w = (Inr (), w') \<and> safe ops w' \<and> frame w' = frame w \<and>
        view (node_at w' (key p)) = post p \<and> (\<forall>x. x \<notin> touched p \<longrightarrow> node_at w' x = node_at w x)"
    and look_ok: "safe ops w \<Longrightarrow> p \<in> set ops \<Longrightarrow>
      \<exists>w'. look p w = (Inr (view (node_at w (key p))), w') \<and> safe ops w' \<and> frame w' = frame w \<and>
        node_at w' = node_at w"
begin

fun run :: "'o list \<Rightarrow> ('w, 'e, unit) eff" where
  "run [] w = (Inr (), w)"
| "run (p # ps) w = ebind (step p) (\<lambda>_. run ps) w"

fun redo :: "'o list \<Rightarrow> ('w, 'e, 'k list) eff" where
  "redo [] w = (Inr [], w)"
| "redo (p # ps) w =
     ebind (look p) (\<lambda>a.
       if a = pre p then ebind (step p) (\<lambda>_. redo ps)
       else if a = post p then redo ps
       else ebind (redo ps) (\<lambda>edited. ret (key p # edited))) w"

fun inspect :: "'o list \<Rightarrow> ('w, 'e, 'k list) eff" where
  "inspect [] w = (Inr [], w)"
| "inspect (p # ps) w =
     ebind (look p) (\<lambda>a. ebind (inspect ps) (\<lambda>bad.
       ret (if a = post p then bad else key p # bad))) w"

definition edited :: "'w \<Rightarrow> 'o \<Rightarrow> bool" where
  "edited w p \<longleftrightarrow> view (node_at w (key p)) \<noteq> pre p \<and> view (node_at w (key p)) \<noteq> post p"

lemma run_ok:
  assumes "safe ops w" and "set ps \<subseteq> set ops" and "distinct (map key ps)"
  shows "\<exists>w'. run ps w = (Inr (), w') \<and> safe ops w' \<and> frame w' = frame w \<and>
    (\<forall>p \<in> set ps. view (node_at w' (key p)) = post p) \<and>
    (\<forall>x. (\<forall>p \<in> set ps. x \<notin> touched p) \<longrightarrow> node_at w' x = node_at w x)"
  using assms
proof (induction ps arbitrary: w)
  case Nil
  then show ?case by simp
next
  case (Cons p ps)
  from Cons.prems have p: "p \<in> set ops" by simp
  from step_ok [OF Cons.prems(1) p] obtain w1 where
    w1: "step p w = (Inr (), w1)" "safe ops w1" "frame w1 = frame w"
      "view (node_at w1 (key p)) = post p" "\<forall>x. x \<notin> touched p \<longrightarrow> node_at w1 x = node_at w x" by blast
  from Cons.prems have "set ps \<subseteq> set ops" "distinct (map key ps)" by simp_all
  from Cons.IH [OF w1(2) this] obtain w2 where
    w2: "run ps w1 = (Inr (), w2)" "safe ops w2" "frame w2 = frame w1"
      "\<forall>q \<in> set ps. view (node_at w2 (key q)) = post q"
      "\<forall>x. (\<forall>q \<in> set ps. x \<notin> touched q) \<longrightarrow> node_at w2 x = node_at w1 x" by blast
  have "\<forall>q \<in> set ps. key p \<notin> touched q"
    using Cons.prems owns [OF Cons.prems(1)] by (metis image_eqI distinct.simps(2) list.simps(9)
      list.set_map set_subset_Cons subsetD p)
  then have "node_at w2 (key p) = node_at w1 (key p)" using w2(5) by blast
  with w1 w2 show ?case by (simp add: ebind_def)
qed

lemma inspect_ok:
  assumes "safe ops w" and "set ps \<subseteq> set ops"
  shows "\<exists>w'. inspect ps w =
      (Inr (map key (filter (\<lambda>p. view (node_at w (key p)) \<noteq> post p) ps)), w') \<and>
    safe ops w' \<and> frame w' = frame w \<and> node_at w' = node_at w"
  using assms
proof (induction ps arbitrary: w)
  case Nil
  then show ?case by simp
next
  case (Cons p ps)
  from Cons.prems have p: "p \<in> set ops" by simp
  from look_ok [OF Cons.prems(1) p] obtain w1 where
    w1: "look p w = (Inr (view (node_at w (key p))), w1)" "safe ops w1" "frame w1 = frame w"
      "node_at w1 = node_at w" by blast
  from Cons.IH [OF w1(2)] Cons.prems w1 show ?case by (auto simp: ebind_def)
qed

lemma redo_ok:
  assumes "safe ops w" and "set ps \<subseteq> set ops" and "distinct (map key ps)"
  shows "\<exists>w'. redo ps w = (Inr (map key (filter (edited w) ps)), w') \<and>
    safe ops w' \<and> frame w' = frame w \<and>
    (\<forall>p \<in> set ps. if edited w p then node_at w' (key p) = node_at w (key p)
       else view (node_at w' (key p)) = post p) \<and>
    (\<forall>x. (\<forall>p \<in> set ps. x \<notin> touched p) \<longrightarrow> node_at w' x = node_at w x)"
  using assms
proof (induction ps arbitrary: w)
  case Nil
  then show ?case by simp
next
  case (Cons p ps)
  from Cons.prems have p: "p \<in> set ops" and ps: "set ps \<subseteq> set ops" "distinct (map key ps)"
    by simp_all
  from look_ok [OF Cons.prems(1) p] obtain w1 where
    w1: "look p w = (Inr (view (node_at w (key p))), w1)" "safe ops w1" "frame w1 = frame w"
      "node_at w1 = node_at w" by blast
  have free: "\<And>q. q \<in> set ps \<Longrightarrow> key q \<notin> touched p \<and> key p \<notin> touched q"
  proof -
    fix q assume q: "q \<in> set ps"
    then have "key p \<noteq> key q" "q \<in> set ops" using Cons.prems by auto
    then show "key q \<notin> touched p \<and> key p \<notin> touched q" using owns [OF Cons.prems(1)] p by metis
  qed
  show ?case
  proof (cases "view (node_at w (key p)) = pre p")
    case True
    from step_ok [OF w1(2) p] obtain w2 where
      w2: "step p w1 = (Inr (), w2)" "safe ops w2" "frame w2 = frame w1"
        "view (node_at w2 (key p)) = post p" "\<forall>x. x \<notin> touched p \<longrightarrow> node_at w2 x = node_at w1 x"
      by blast
    from Cons.IH [OF w2(2) ps] obtain w3 where
      w3: "redo ps w2 = (Inr (map key (filter (edited w2) ps)), w3)" "safe ops w3"
        "frame w3 = frame w2"
        "\<forall>q \<in> set ps. if edited w2 q then node_at w3 (key q) = node_at w2 (key q)
           else view (node_at w3 (key q)) = post q"
        "\<forall>x. (\<forall>q \<in> set ps. x \<notin> touched q) \<longrightarrow> node_at w3 x = node_at w2 x" by blast
    have k: "\<And>q. q \<in> set ps \<Longrightarrow> node_at w2 (key q) = node_at w (key q)"
      using free w2(5) w1(4) by simp
    then have e: "\<And>q. q \<in> set ps \<Longrightarrow> edited w2 q = edited w q" by (simp add: edited_def)
    then have f: "filter (edited w2) ps = filter (edited w) ps" by (simp cong: filter_cong)
    have "node_at w3 (key p) = node_at w2 (key p)" using free w3(5) by blast
    moreover have "\<not> edited w p" using True by (simp add: edited_def)
    ultimately show ?thesis using True w1 w2 w3 k e f by (auto simp: ebind_def)
  next
    case False
    from Cons.IH [OF w1(2) ps] obtain w3 where
      w3: "redo ps w1 = (Inr (map key (filter (edited w1) ps)), w3)" "safe ops w3"
        "frame w3 = frame w1"
        "\<forall>q \<in> set ps. if edited w1 q then node_at w3 (key q) = node_at w1 (key q)
           else view (node_at w3 (key q)) = post q"
        "\<forall>x. (\<forall>q \<in> set ps. x \<notin> touched q) \<longrightarrow> node_at w3 x = node_at w1 x" by blast
    have e: "edited w1 = edited w" using w1(4) by (simp add: edited_def fun_eq_iff)
    have k: "node_at w3 (key p) = node_at w (key p)" using free w3(5) w1(4) by simp
    show ?thesis
    proof (cases "view (node_at w (key p)) = post p")
      case True
      then have "\<not> edited w p" by (simp add: edited_def)
      with True False w1 w3 e k show ?thesis by (auto simp: ebind_def)
    next
      case post: False
      have "edited w p" using False post by (simp add: edited_def)
      with False post w1 w3 e k show ?thesis by (simp add: ebind_def)
    qed
  qed
qed

end


subsection \<open>The contract holds for operations on the working tree\<close>

definition node_tuple :: "git_lib \<Rightarrow> node option \<Rightarrow> ptuple" where
  "node_tuple L n =
     (case n of
        None \<Rightarrow> (None, None, None)
      | Some Dir \<Rightarrow> (None, Some Tree, None)
      | Some Symlink \<Rightarrow> (Some ''symlink'', Some Tree, None)
      | Some Special \<Rightarrow> (Some ''special'', Some Tree, None)
      | Some (File bs m) \<Rightarrow> (Some (objectOid L ''blob'' bs), Some Blob, Some (node_mode m)))"

lemma tuple_of_node: "tuple_of L t p = node_tuple L (map_of t p)"
  by (simp add: tuple_of_def node_tuple_def pathStateTuple_def writeBlob_def writeObject_def Let_def
      split: option.splits node.splits)

definition node_view :: "git_lib \<Rightarrow> node option \<Rightarrow> ptuple option" where
  "node_view L n = normalizeTuple (Some (node_tuple L n))"

lemma normalizeTuple_None [simp]: "normalizeTuple None = None"
  by (simp add: normalizeTuple_def)

lemma normalizeTuple_idem [simp]: "normalizeTuple (normalizeTuple t) = normalizeTuple t"
  by (auto simp: normalizeTuple_def split: option.splits prod.splits)

lemma tupleEquals_iff: "tupleEquals a b \<longleftrightarrow> normalizeTuple a = normalizeTuple b"
  by (cases "normalizeTuple a"; cases "normalizeTuple b") (simp_all add: tupleEquals_def)

definition op_touched :: "intent_op \<Rightarrow> string set" where
  "op_touched op = insert (op_path op) (if op_kind op = OpWrite then set (dir_prefixes (op_path op)) else {})"

text \<open>
  An operation the engine can carry out: a write names a stored blob and one of git's two file
  modes, a delete leaves nothing.
\<close>

definition op_ok :: "git_lib \<Rightarrow> gitdir \<Rightarrow> intent_op \<Rightarrow> bool" where
  "op_ok L g op =
     (if op_kind op = OpDelete then normalizeTuple (op_post op) = None
      else (case op_post op of
              Some (Some i, Some Blob, Some m) \<Rightarrow>
                (m = mode_plain \<or> m = mode_exec) \<and>
                (case readObject g i of None \<Rightarrow> False | Some (ty, bs) \<Rightarrow> objectOid L ''blob'' bs = i)
            | _ \<Rightarrow> False))"

text \<open>
  The log of operations is safe to run in a world: every path can be written, the temporary names
  of the transaction are free, and no path is a directory or the temporary name of another.  This
  leaves out the transactions that turn a file into a directory, which the engine builds too and
  which recovery does not finish (\<open>file_to_directory_blocks_recovery\<close> below).
\<close>

definition safe_ops :: "git_lib \<Rightarrow> string \<Rightarrow> intent_op list \<Rightarrow> world \<Rightarrow> bool" where
  "safe_ops L txId ops w \<longleftrightarrow>
     list_all (\<lambda>op. op_ok L (gd w) op \<and> writable (wt w) (op_path op) \<and>
       map_of (wt w) (tmp_path (op_path op) txId) = None) ops \<and>
     list_all (\<lambda>p. list_all (\<lambda>q.
       op_path p \<notin> set (dir_prefixes (op_path q)) \<and>
       tmp_path (op_path p) txId \<notin> insert (op_path q) (set (dir_prefixes (op_path q)))) ops) ops"

lemma safe_opsD:
  assumes "safe_ops L tx ops w" "p \<in> set ops"
  shows "op_ok L (gd w) p" "writable (wt w) (op_path p)"
    "map_of (wt w) (tmp_path (op_path p) tx) = None"
    "q \<in> set ops \<Longrightarrow> op_path p \<notin> set (dir_prefixes (op_path q))"
    "q \<in> set ops \<Longrightarrow> tmp_path (op_path p) tx \<noteq> op_path q"
    "q \<in> set ops \<Longrightarrow> tmp_path (op_path p) tx \<notin> set (dir_prefixes (op_path q))"
  using assms by (auto simp: safe_ops_def list_all_iff)

lemma op_ok_writeD:
  assumes "op_ok L g op" and "op_kind op = OpWrite"
  shows "\<exists>i m ty bs. op_post op = Some (Some i, Some Blob, Some m) \<and> (m = mode_plain \<or> m = mode_exec) \<and>
    readObject g i = Some (ty, bs) \<and> objectOid L ''blob'' bs = i"
proof -
  from assms obtain a b c where p: "op_post op = Some (a, b, c)"
    by (cases "op_post op") (auto simp: op_ok_def)
  from p assms obtain i where a: "a = Some i" by (cases a) (auto simp: op_ok_def)
  from p a assms have b: "b = Some Blob"
    by (cases b; cases "the b"; cases c) (auto simp: op_ok_def)
  from p a b assms obtain m where c: "c = Some m" by (cases c) (auto simp: op_ok_def)
  from assms(1) show ?thesis unfolding op_ok_def using assms(2)
    by (cases "readObject g i") (auto simp: p a b c)
qed

lemma op_ok_grows:
  assumes "op_ok L g op" and g: "\<And>i v. readObject g i = Some v \<Longrightarrow> readObject g' i = Some v"
  shows "op_ok L g' op"
proof (cases "op_kind op")
  case OpWrite
  from op_ok_writeD [OF assms(1) OpWrite] obtain i m ty bs where
    "op_post op = Some (Some i, Some Blob, Some m)" "m = mode_plain \<or> m = mode_exec"
      "readObject g i = Some (ty, bs)" "objectOid L ''blob'' bs = i" by blast
  with g [of i] OpWrite show ?thesis by (simp add: op_ok_def)
next
  case OpDelete
  with assms(1) show ?thesis by (simp add: op_ok_def)
qed

lemma applyOp_write:
  assumes "op_kind op = OpWrite" and "op_ok L (gd w) op"
  obtains bs m where "applyOp op tx w = on_wt (materializeWrite (op_path op) bs m tx) w"
    and "node_view L (Some (File bs (m AND perm_bits))) = normalizeTuple (op_post op)"
proof -
  from op_ok_writeD [OF assms(2,1)] obtain i m ty bs where
    o: "op_post op = Some (Some i, Some Blob, Some m)" "m = mode_plain \<or> m = mode_exec"
      "readObject (gd w) i = Some (ty, bs)" "objectOid L ''blob'' bs = i" by blast
  then have "applyOp op tx w = on_wt (materializeWrite (op_path op) bs m tx) w"
    using assms(1) by (simp add: applyOp_def)
  moreover have "node_view L (Some (File bs (m AND perm_bits))) = normalizeTuple (op_post op)"
    using o node_mode_written [OF o(2)] by (simp add: node_view_def node_tuple_def)
  ultimately show ?thesis by (rule that)
qed

lemma safe_ops_step:
  assumes s: "safe_ops L tx ops w" and p: "p \<in> set ops"
    and t: "\<And>x. x \<notin> op_touched p \<Longrightarrow> map_of t x = map_of (wt w) x"
    and d: "\<And>x. x \<in> op_touched p \<Longrightarrow> x \<noteq> op_path p \<Longrightarrow> map_of t x = Some Dir"
    and pd: "map_of t (op_path p) \<noteq> Some Dir"
  shows "safe_ops L tx ops (w\<lparr>wt := t\<rparr>)"
proof -
  have "writable t (op_path q) \<and> map_of t (tmp_path (op_path q) tx) = None" if q: "q \<in> set ops" for q
  proof -
    have "op_path q \<notin> set (dir_prefixes (op_path p))" using safe_opsD(4) [OF s q p] .
    then have 1: "map_of t (op_path q) \<noteq> Some Dir"
      using safe_opsD(2) [OF s q] t [of "op_path q"] pd
      by (cases "op_path q = op_path p") (auto simp: op_touched_def writable_def split: if_splits)
    have 2: "map_of t x = None \<or> map_of t x = Some Dir" if x: "x \<in> set (dir_prefixes (op_path q))" for x
    proof (cases "x \<in> op_touched p")
      case True
      have "x \<noteq> op_path p" using safe_opsD(4) [OF s p q] x by auto
      with d True show ?thesis by blast
    next
      case False
      with t safe_opsD(2) [OF s q] x show ?thesis by (simp add: writable_def)
    qed
    have "tmp_path (op_path q) tx \<notin> op_touched p"
      using safe_opsD(5,6) [OF s q p] by (auto simp: op_touched_def)
    with t safe_opsD(3) [OF s q] 1 2 show ?thesis by (simp add: writable_def)
  qed
  with s show ?thesis by (simp add: safe_ops_def list_all_iff)
qed

lemma applyOp_safe:
  assumes s: "safe_ops L tx ops w" and p: "p \<in> set ops"
  shows "\<exists>t. applyOp p tx w = (Inr (), w\<lparr>wt := t\<rparr>) \<and> safe_ops L tx ops (w\<lparr>wt := t\<rparr>) \<and>
    node_view L (map_of t (op_path p)) = normalizeTuple (op_post p) \<and>
    (\<forall>x. x \<notin> op_touched p \<longrightarrow> map_of t x = map_of (wt w) x)"
proof (cases "op_kind p")
  case OpWrite
  from applyOp_write [OF OpWrite safe_opsD(1) [OF s p]] obtain bs m where
    a: "applyOp p tx w = on_wt (materializeWrite (op_path p) bs m tx) w"
      "node_view L (Some (File bs (m AND perm_bits))) = normalizeTuple (op_post p)" .
  from materializeWrite_ok [OF safe_opsD(2,3) [OF s p]] obtain t where
    t: "materializeWrite (op_path p) bs m tx (wt w) = (Inr (), t)"
      "\<And>x. map_of t x = (if x = op_path p then Some (File bs (m AND perm_bits))
         else if x \<in> set (dir_prefixes (op_path p)) then Some Dir else map_of (wt w) x)" by blast
  have "safe_ops L tx ops (w\<lparr>wt := t\<rparr>)"
    by (rule safe_ops_step [OF s p]) (auto simp: t(2) op_touched_def OpWrite)
  moreover have "applyOp p tx w = (Inr (), w\<lparr>wt := t\<rparr>)" using a t by (simp add: on_wt_def)
  ultimately show ?thesis using a(2) t(2) OpWrite by (auto simp: op_touched_def)
next
  case OpDelete
  from materializeDelete_ok [OF safe_opsD(2) [OF s p]] obtain t where
    t: "materializeDelete (op_path p) (wt w) = (Inr (), t)"
      "\<And>x. map_of t x = (if x = op_path p then None else map_of (wt w) x)" by blast
  have "normalizeTuple (op_post p) = None" using safe_opsD(1) [OF s p] OpDelete by (simp add: op_ok_def)
  then have "node_view L (map_of t (op_path p)) = normalizeTuple (op_post p)"
    using t(2) by (simp add: node_view_def node_tuple_def normalizeTuple_def)
  moreover have "safe_ops L tx ops (w\<lparr>wt := t\<rparr>)"
    by (rule safe_ops_step [OF s p]) (auto simp: t(2) op_touched_def OpDelete)
  ultimately show ?thesis using t OpDelete by (auto simp: applyOp_def on_wt_def op_touched_def)
qed

definition look_at :: "git_lib \<Rightarrow> intent_op \<Rightarrow> (world, err, ptuple option) eff" where
  "look_at L op = ebind (judge L (op_path op)) (\<lambda>a. ret (normalizeTuple a))"

lemma judge_ok: "judge L p w = (Inr (Some (tuple_of L (wt w) p)),
    w\<lparr>gd := snd (pathStateTuple L (wt w) p (gd w))\<rparr>)"
  using pathStateTuple_fst [of L "wt w" p "gd w"]
  by (auto simp: judge_def split: prod.splits)

lemma safe_ops_grows:
  assumes "safe_ops L tx ops w" and "\<And>i v. readObject (gd w) i = Some v \<Longrightarrow> readObject g i = Some v"
  shows "safe_ops L tx ops (w\<lparr>gd := g\<rparr>)"
  using assms op_ok_grows [OF _ assms(2)] by (auto simp: safe_ops_def list_all_iff)

definition world_frame :: "world \<Rightarrow> (string \<times> oid) list \<times> intent_rec doc \<times> string doc" where
  "world_frame w = (refs (gd w), intent_file w, done_file w)"

interpretation rl: redo_log "safe_ops L tx" op_path op_touched
    "\<lambda>op. normalizeTuple (op_pre op)" "\<lambda>op. normalizeTuple (op_post op)"
    "\<lambda>w. map_of (wt w)" "node_view L" world_frame "\<lambda>op. applyOp op tx" "look_at L"
  for L :: git_lib and tx :: string
proof
  fix ops w p q
  assume s: "safe_ops L tx ops w" and p: "p \<in> set ops"
  show "q \<in> set ops \<Longrightarrow> op_path p \<noteq> op_path q \<Longrightarrow> op_path q \<notin> op_touched p"
    using safe_opsD(4) [OF s _ p] by (auto simp: op_touched_def)
  show "\<exists>w'. applyOp p tx w = (Inr (), w') \<and> safe_ops L tx ops w' \<and> world_frame w' = world_frame w \<and>
      node_view L (map_of (wt w') (op_path p)) = normalizeTuple (op_post p) \<and>
      (\<forall>x. x \<notin> op_touched p \<longrightarrow> map_of (wt w') x = map_of (wt w) x)"
    using applyOp_safe [OF s p] by (fastforce simp: world_frame_def)
  show "\<exists>w'. look_at L p w = (Inr (node_view L (map_of (wt w) (op_path p))), w') \<and>
      safe_ops L tx ops w' \<and> world_frame w' = world_frame w \<and> map_of (wt w') = map_of (wt w)"
    using safe_ops_grows [OF s pathStateTuple_keeps]
    by (simp add: look_at_def judge_ok ebind_def world_frame_def node_view_def tuple_of_node
        pathStateTuple_refs)
qed





subsection \<open>Executing and recovering a transaction\<close>

text \<open>The paths of a list of operations are different.\<close>

abbreviation op_paths :: "intent_op list \<Rightarrow> string list" where
  "op_paths ops \<equiv> map op_path ops"

definition all_post :: "git_lib \<Rightarrow> wtree \<Rightarrow> intent_op list \<Rightarrow> bool" where
  "all_post L t ops \<longleftrightarrow> list_all (\<lambda>op. tupleEquals (Some (tuple_of L t (op_path op))) (op_post op)) ops"

definition untouched :: "wtree \<Rightarrow> wtree \<Rightarrow> intent_op list \<Rightarrow> bool" where
  "untouched t t' ops \<longleftrightarrow> (\<forall>x. (\<forall>op \<in> set ops. x \<notin> op_touched op) \<longrightarrow> map_of t' x = map_of t x)"

lemma post_view: "node_view L (map_of t (op_path op)) = normalizeTuple (op_post op) \<longleftrightarrow>
    tupleEquals (Some (tuple_of L t (op_path op))) (op_post op)"
  by (simp add: node_view_def tupleEquals_iff tuple_of_node)


lemma all_post_view:
  "all_post L t ops \<longleftrightarrow> (\<forall>op \<in> set ops. node_view L (map_of t (op_path op)) = normalizeTuple (op_post op))"
  by (simp add: all_post_def list_all_iff post_view)

text \<open>A run that a crash may stop has run a prefix of the operations.\<close>

lemma apply_ops_prefix:
  assumes "safe_ops L tx all w" and "set ops \<subseteq> set all" and "distinct (op_paths ops)"
  shows "\<exists>n r w'. apply_ops crashAt tx i ops w = (r, w') \<and> rl.run tx (take n ops) w = (Inr (), w') \<and>
    (r = Inr () \<and> n \<ge> length ops \<or> r = Inl (Thrown ''CrashInjection'') \<and> (\<exists>st. crashAt st))"
  using assms
proof (induction ops arbitrary: w i)
  case Nil
  then show ?case by auto
next
  case (Cons op ops)
  from Cons.prems have p: "op \<in> set all" by simp
  from rl.step_ok [OF Cons.prems(1) p] obtain w1 where
    w1: "applyOp op tx w = (Inr (), w1)" "safe_ops L tx all w1" by blast
  show ?case
  proof (cases "crashAt (Materialized i)")
    case True
    have "apply_ops crashAt tx i (op # ops) w = (Inl (Thrown ''CrashInjection''), w1)"
      using w1(1) True by (simp add: ebind_def crash_point_def)
    moreover have "rl.run tx (take 1 (op # ops)) w = (Inr (), w1)" using w1(1) by (simp add: ebind_def)
    ultimately show ?thesis using True by blast
  next
    case False
    from Cons.prems have "set ops \<subseteq> set all" "distinct (op_paths ops)" by simp_all
    from Cons.IH [OF w1(2) this, of "Suc i"] obtain n r w2 where
      w2: "apply_ops crashAt tx (Suc i) ops w1 = (r, w2)" "rl.run tx (take n ops) w1 = (Inr (), w2)"
        "r = Inr () \<and> n \<ge> length ops \<or> r = Inl (Thrown ''CrashInjection'') \<and> (\<exists>st. crashAt st)" by blast
    have "apply_ops crashAt tx i (op # ops) w = (r, w2)"
      using w1(1) False w2(1) by (simp add: ebind_def crash_point_def)
    moreover have "rl.run tx (take (Suc n) (op # ops)) w = (Inr (), w2)"
      using w1(1) w2(2) by (simp add: ebind_def)
    ultimately show ?thesis using w2(3) by (intro exI [of _ "Suc n"] exI [of _ r] exI [of _ w2]) auto
  qed
qed

definition rec_of :: "string \<Rightarrow> intent_spec \<Rightarrow> intent_rec" where
  "rec_of txId spec = \<lparr>ir_txId = txId, ir_ref = is_ref spec, ir_target = is_target spec,
     ir_oldRef = is_oldRef spec, ir_ops = is_ops spec\<rparr>"

lemma rec_of_simps [simp]:
  "ir_txId (rec_of tx spec) = tx" "ir_ref (rec_of tx spec) = is_ref spec"
  "ir_target (rec_of tx spec) = is_target spec" "ir_oldRef (rec_of tx spec) = is_oldRef spec"
  "ir_ops (rec_of tx spec) = is_ops spec"
  by (simp_all add: rec_of_def)

text \<open>A transaction can start: its operations are safe and distinct, its reference may be written.\<close>

definition startable :: "git_lib \<Rightarrow> string \<Rightarrow> intent_spec \<Rightarrow> world \<Rightarrow> bool" where
  "startable L tx spec w \<longleftrightarrow>
     safe_ops L tx (is_ops spec) w \<and> distinct (op_paths (is_ops spec)) \<and>
     readPendingIntent w = Inr None \<and> done_file w \<noteq> Doc tx \<and>
     isAllowedRef (is_ref spec) \<and> readRef (gd w) (is_ref spec) = is_oldRef spec"

lemma safe_ops_intent [simp]: "safe_ops L tx ops (w\<lparr>intent_file := x\<rparr>) = safe_ops L tx ops w"
  by (simp add: safe_ops_def)

lemma prepareIntent_ok:
  "readPendingIntent w = Inr None \<Longrightarrow>
     prepareIntent tx spec w = (Inr (rec_of tx spec), w\<lparr>intent_file := Doc (rec_of tx spec)\<rparr>)"
  by (simp add: prepareIntent_def ebind_def rec_of_def Let_def)

lemma advanceRef_ok:
  "isAllowedRef (ir_ref rec) \<Longrightarrow> readRef (gd w) (ir_ref rec) = ir_oldRef rec \<Longrightarrow>
     advanceRef rec w = (Inr (), w\<lparr>gd := (gd w)\<lparr>refs := aput (ir_ref rec) (ir_target rec) (refs (gd w))\<rparr>\<rparr>)"
  by (simp add: advanceRef_def writeRef_def)

lemma readRef_frame: "world_frame w' = world_frame w \<Longrightarrow> readRef (gd w') r = readRef (gd w) r"
  by (simp add: world_frame_def readRef_def)

lemma run_all_ok:
  assumes "safe_ops L tx ops w" and "distinct (op_paths ops)"
  shows "\<exists>w'. rl.run tx (take n ops) w = (Inr (), w') \<and> safe_ops L tx ops w' \<and> world_frame w' = world_frame w \<and>
    (\<forall>p \<in> set (take n ops). node_view L (map_of (wt w') (op_path p)) = normalizeTuple (op_post p)) \<and>
    (\<forall>p \<in> set ops. p \<notin> set (take n ops) \<longrightarrow> map_of (wt w') (op_path p) = map_of (wt w) (op_path p)) \<and>
    untouched (wt w) (wt w') ops"
proof -
  have "set (take n ops) \<subseteq> set ops" by (rule set_take_subset)
  moreover have "distinct (op_paths (take n ops))"
    using assms(2) by (simp add: take_map [symmetric])
  ultimately obtain w' where w': "rl.run tx (take n ops) w = (Inr (), w')" "safe_ops L tx ops w'"
      "world_frame w' = world_frame w"
      "\<forall>p \<in> set (take n ops). node_view L (map_of (wt w') (op_path p)) = normalizeTuple (op_post p)"
      "\<forall>x. (\<forall>p \<in> set (take n ops). x \<notin> op_touched p) \<longrightarrow> map_of (wt w') x = map_of (wt w) x"
    using rl.run_ok [OF assms(1)] by blast
  have "map_of (wt w') (op_path p) = map_of (wt w) (op_path p)"
    if p: "p \<in> set ops" "p \<notin> set (take n ops)" for p
  proof -
    have "op_path p \<notin> op_touched q" if q: "q \<in> set (take n ops)" for q
    proof (rule rl.owns [OF assms(1)])
      show "q \<in> set ops" using q by (rule in_set_takeD)
      show "p \<in> set ops" by fact
      show "op_path q \<noteq> op_path p"
        using assms(2) p \<open>q \<in> set ops\<close> q by (metis distinct_map inj_onD)
    qed
    with w'(5) show ?thesis by blast
  qed
  moreover have "untouched (wt w) (wt w') ops"
    using w'(5) set_take_subset [of n ops] by (auto simp: untouched_def)
  ultimately show ?thesis using w'(1-4) by blast
qed

definition advanced :: "world \<Rightarrow> intent_spec \<Rightarrow> world" where
  "advanced w spec = w\<lparr>gd := (gd w)\<lparr>refs := aput (is_ref spec) (is_target spec) (refs (gd w))\<rparr>\<rparr>"

text \<open>
  Every way an execution can end: stopped after some operations, stopped after the reference
  moved, or finished.
\<close>

lemma executeIntent_cases:
  assumes "startable L tx spec w"
  obtains (stopped) n w1 where "(\<exists>st. crashAt st)"
      "executeIntent crashAt tx spec w = (Inl (Thrown ''CrashInjection''), w1)"
      "rl.run tx (take n (is_ops spec)) (w\<lparr>intent_file := Doc (rec_of tx spec)\<rparr>) = (Inr (), w1)"
    | (moved) w1 where "(\<exists>st. crashAt st)"
      "rl.run tx (take (length (is_ops spec)) (is_ops spec)) (w\<lparr>intent_file := Doc (rec_of tx spec)\<rparr>) = (Inr (), w1)"
      "executeIntent crashAt tx spec w = (Inl (Thrown ''CrashInjection''), advanced w1 spec)"
    | (finished) w1 where
      "rl.run tx (take (length (is_ops spec)) (is_ops spec)) (w\<lparr>intent_file := Doc (rec_of tx spec)\<rparr>) = (Inr (), w1)"
      "executeIntent crashAt tx spec w =
        (Inr (rec_of tx spec), (advanced w1 spec)\<lparr>intent_file := Absent, done_file := Absent\<rparr>)"
proof -
  let ?w0 = "w\<lparr>intent_file := Doc (rec_of tx spec)\<rparr>"
  let ?ops = "is_ops spec"
  from assms have s: "safe_ops L tx ?ops ?w0" and d: "distinct (op_paths ?ops)"
    and pr: "prepareIntent tx spec w = (Inr (rec_of tx spec), ?w0)" and al: "isAllowedRef (is_ref spec)"
    and old: "readRef (gd w) (is_ref spec) = is_oldRef spec"
    by (simp_all add: startable_def prepareIntent_ok)
  show ?thesis
  proof (cases "crashAt Prepared")
    case True
    have "executeIntent crashAt tx spec w = (Inl (Thrown ''CrashInjection''), ?w0)"
      using True by (simp add: executeIntent_def pr ebind_def crash_point_def)
    then show ?thesis using True stopped [of ?w0 0] by auto
  next
    case nprep: False
    from apply_ops_prefix [OF s subset_refl d, of crashAt 0] obtain n r w1 where
      a: "apply_ops crashAt tx 0 ?ops ?w0 = (r, w1)" "rl.run tx (take n ?ops) ?w0 = (Inr (), w1)"
        "r = Inr () \<and> n \<ge> length ?ops \<or> r = Inl (Thrown ''CrashInjection'') \<and> (\<exists>st. crashAt st)" by blast
    show ?thesis
    proof (cases "r = Inr ()")
      case False
      with a(3) have r: "r = Inl (Thrown ''CrashInjection'')" "\<exists>st. crashAt st" by auto
      have e: "executeIntent crashAt tx spec w = (Inl (Thrown ''CrashInjection''), w1)"
        using nprep a(1) r by (simp add: executeIntent_def pr ebind_def crash_point_def)
      show ?thesis by (rule stopped [OF r(2) e a(2)])
    next
      case True
      with a(2,3) have all: "rl.run tx (take (length ?ops) ?ops) ?w0 = (Inr (), w1)" by simp
      from run_all_ok [OF s d, of "length ?ops"] all have fr: "world_frame w1 = world_frame ?w0" by auto
      have ad: "advanceRef (rec_of tx spec) w1 = (Inr (), advanced w1 spec)"
        using al old readRef_frame [OF fr] by (simp add: advanceRef_ok advanced_def)
      show ?thesis
      proof (cases "crashAt RefAdvanced")
        case True
        have "executeIntent crashAt tx spec w = (Inl (Thrown ''CrashInjection''), advanced w1 spec)"
          using nprep a(1) \<open>r = Inr ()\<close> ad True
          by (simp add: executeIntent_def pr ebind_def crash_point_def)
        with True all show ?thesis by (intro moved) auto
      next
        case False
        have "executeIntent crashAt tx spec w =
            (Inr (rec_of tx spec), (advanced w1 spec)\<lparr>intent_file := Absent, done_file := Absent\<rparr>)"
          using nprep a(1) \<open>r = Inr ()\<close> ad False
          by (simp add: executeIntent_def pr ebind_def crash_point_def markDone_def clearIntent_def)
        with all show ?thesis by (rule finished)
      qed
    qed
  qed
qed

text \<open>What a completed transaction leaves.\<close>

definition committed :: "git_lib \<Rightarrow> intent_spec \<Rightarrow> world \<Rightarrow> world \<Rightarrow> bool" where
  "committed L spec w w' \<longleftrightarrow>
     readRef (gd w') (is_ref spec) = Some (is_target spec) \<and>
     (\<forall>r. r \<noteq> is_ref spec \<longrightarrow> readRef (gd w') r = readRef (gd w) r) \<and>
     all_post L (wt w') (is_ops spec) \<and> untouched (wt w) (wt w') (is_ops spec) \<and>
     readPendingIntent w' = Inr None"

lemma advanced_simps [simp]:
  "wt (advanced w spec) = wt w" "intent_file (advanced w spec) = intent_file w"
  "done_file (advanced w spec) = done_file w"
  "readRef (gd (advanced w spec)) r =
     (if r = is_ref spec then Some (is_target spec) else readRef (gd w) r)"
  "readObject (gd (advanced w spec)) = readObject (gd w)"
  by (simp_all add: advanced_def readRef_def readObject_def fun_eq_iff)


lemma readPending_doc:
  "intent_file w = Doc (rec_of tx spec) \<Longrightarrow> done_file w \<noteq> Doc tx \<Longrightarrow>
     readPendingIntent w = Inr (Some (rec_of tx spec))"
  by (auto simp: readPendingIntent_def split: doc.splits)





lemma committedI:
  assumes "world_frame w1 = world_frame wa" and "gd wa = gd w" and "all_post L (wt w1) (is_ops spec)"
    and "untouched (wt w) (wt w1) (is_ops spec)"
  shows "committed L spec w ((advanced w1 spec)\<lparr>intent_file := Absent, done_file := Absent\<rparr>)"
  using assms readRef_frame [OF assms(1)]
  by (simp add: committed_def readPendingIntent_def)

lemma executeIntent_ok:
  assumes "startable L tx spec w"
  shows "\<exists>w'. executeIntent (\<lambda>_. False) tx spec w = (Inr (rec_of tx spec), w') \<and> committed L spec w w'"
  using assms
proof (cases rule: executeIntent_cases [where crashAt = "\<lambda>_. False"])
  case (finished w1)
  from assms have s: "safe_ops L tx (is_ops spec) (w\<lparr>intent_file := Doc (rec_of tx spec)\<rparr>)"
    and d: "distinct (op_paths (is_ops spec))" by (simp_all add: startable_def)
  from run_all_ok [OF s d, of "length (is_ops spec)"] finished(1) have
    "world_frame w1 = world_frame (w\<lparr>intent_file := Doc (rec_of tx spec)\<rparr>)"
    "all_post L (wt w1) (is_ops spec)" "untouched (wt w) (wt w1) (is_ops spec)"
    by (auto simp: all_post_view)
  then have "committed L spec w ((advanced w1 spec)\<lparr>intent_file := Absent, done_file := Absent\<rparr>)"
    by (intro committedI [where wa = "w\<lparr>intent_file := Doc (rec_of tx spec)\<rparr>"]) auto
  with finished(2) show ?thesis by blast
qed simp_all


text \<open>
  The before-images of the log play no part in an uninterrupted transaction: a file that was
  edited after its before-image was recorded is overwritten without a conflict.
\<close>

theorem edits_since_scan_are_overwritten:
  assumes "startable L tx spec w" and "op \<in> set (is_ops spec)"
    and "\<not> tupleEquals (Some (tuple_of L (wt w) (op_path op))) (op_pre op)"
  shows "\<exists>rec w'. executeIntent (\<lambda>_. False) tx spec w = (Inr rec, w') \<and>
    tupleEquals (Some (tuple_of L (wt w') (op_path op))) (op_post op) \<and> readPendingIntent w' = Inr None"
  using executeIntent_ok [OF assms(1)] assms(2)
  by (fastforce simp: committed_def all_post_def list_all_iff)





text \<open>
  The world a kill between the creation and the rename of the first temporary file leaves: the
  temporary name of the transaction is taken and the path is as the transaction found it.
\<close>

definition stuck :: "git_lib \<Rightarrow> string \<Rightarrow> intent_spec \<Rightarrow> intent_op \<Rightarrow> world \<Rightarrow> bool" where
  "stuck L tx spec op w \<longleftrightarrow>
     is_ops spec \<noteq> [] \<and> hd (is_ops spec) = op \<and> op_kind op = OpWrite \<and> op_ok L (gd w) op \<and>
     writable (wt w) (op_path op) \<and> map_of (wt w) (tmp_path (op_path op) tx) \<noteq> None \<and>
     tupleEquals (Some (tuple_of L (wt w) (op_path op))) (op_pre op) \<and>
     intent_file w = Doc (rec_of tx spec) \<and> done_file w \<noteq> Doc tx \<and>
     readRef (gd w) (is_ref spec) = is_oldRef spec \<and> is_oldRef spec \<noteq> Some (is_target spec)"

lemma stuck_step:
  assumes "stuck L tx spec op w"
  shows "\<exists>w'. recoverIntent L w = (Inl (Code ''EEXIST''), w') \<and> stuck L tx spec op w'"
proof -
  from assms obtain rest where ops: "is_ops spec = op # rest"
    by (cases "is_ops spec") (auto simp: stuck_def)
  let ?p = "op_path op" and ?w1 = "w\<lparr>gd := snd (pathStateTuple L (wt w) (op_path op) (gd w))\<rparr>"
  from assms have a: "op_kind op = OpWrite" "op_ok L (gd w) op" "writable (wt w) ?p"
      "map_of (wt w) (tmp_path ?p tx) \<noteq> None" "tupleEquals (Some (tuple_of L (wt w) ?p)) (op_pre op)"
      "readRef (gd w) (is_ref spec) = is_oldRef spec" "is_oldRef spec \<noteq> Some (is_target spec)"
    and log: "intent_file w = Doc (rec_of tx spec)" "done_file w \<noteq> Doc tx"
    by (simp_all add: stuck_def)
  have ok: "op_ok L (gd ?w1) op" using op_ok_grows [OF a(2) pathStateTuple_keeps] by simp
  from applyOp_write [OF a(1) ok] obtain bs m where
    ap: "applyOp op tx ?w1 = on_wt (materializeWrite ?p bs m tx) ?w1" by blast
  from materializeWrite_tmp_exists [OF a(3,4)] obtain t where
    t: "materializeWrite ?p bs m tx (wt w) = (Inl (Code ''EEXIST''), t)"
      "\<And>x. map_of t x = (if x \<in> set (dir_prefixes ?p) then Some Dir else map_of (wt w) x)" by blast
  let ?w2 = "?w1\<lparr>wt := t\<rparr>"
  have "applyOp op tx ?w1 = (Inl (Code ''EEXIST''), ?w2)" using ap t(1) by (simp add: on_wt_def)
  then have "recoverIntent L w = (Inl (Code ''EEXIST''), ?w2)"
    using a(5-7) by (simp add: recoverIntent_def readPending_doc [OF log] ebind_def ops judge_ok)
  moreover have "stuck L tx spec op ?w2"
  proof -
    have "?p \<notin> set (dir_prefixes ?p)" using dir_prefix_shorter by blast
    then have "map_of t ?p = map_of (wt w) ?p" using t(2) by simp
    moreover have "map_of t (tmp_path ?p tx) \<noteq> None" using t(2) a(4) by simp
    moreover have "readRef (gd ?w1) (is_ref spec) = is_oldRef spec"
      using a(6) pathStateTuple_refs by (simp add: readRef_def)
    ultimately show ?thesis
      using a ok log t(2) ops by (auto simp: stuck_def writable_def tuple_of_node)
  qed
  ultimately show ?thesis by blast
qed

text \<open>
  A kill between the creation and the rename of a temporary file blocks recovery for good: the
  temporary name is fixed by the transaction and opened exclusively, so every later recovery fails
  with \<^verbatim>\<open>EEXIST\<close>, the log stays pending and the reference never moves.
\<close>

theorem kill_before_rename_blocks_recovery:
  assumes "stuck L tx spec op w"
  shows "\<exists>w'. recoverIntent L (((snd \<circ> recoverIntent L) ^^ n) w) = (Inl (Code ''EEXIST''), w') \<and>
    readPendingIntent w' = Inr (Some (rec_of tx spec)) \<and>
    readRef (gd w') (is_ref spec) = is_oldRef spec"
proof -
  have st: "stuck L tx spec op (((snd \<circ> recoverIntent L) ^^ n) w)" for n
  proof (induction n)
    case 0
    with assms show ?case by simp
  next
    case (Suc n)
    from stuck_step [OF this] show ?case by auto
  qed
  from stuck_step [OF st] obtain w' where
    "recoverIntent L (((snd \<circ> recoverIntent L) ^^ n) w) = (Inl (Code ''EEXIST''), w')"
    "stuck L tx spec op w'" by blast
  then show ?thesis using readPending_doc by (auto simp: stuck_def)
qed

text \<open>
  While a transaction is pending no second one starts: the execution is refused and changes
  nothing.
\<close>

theorem second_prepare_refused:
  assumes "readPendingIntent w = Inr (Some rec)"
  shows "executeIntent crashAt tx spec w = (Inl (Thrown ''intent already pending''), w)"
  using assms by (simp add: executeIntent_def prepareIntent_def ebind_def)

text \<open>
  The advance is a compare-and-swap: the repository changes only when the reference is an
  allowed one that still has the value the transaction was prepared against, and then only that
  reference moves, to the target.
\<close>

theorem advanceRef_cas:
  "(let (r, w') = advanceRef rec w
    in if readRef (gd w) (ir_ref rec) = ir_oldRef rec \<and> isAllowedRef (ir_ref rec)
       then r = Inr () \<and> readRef (gd w') = (readRef (gd w))(ir_ref rec \<mapsto> ir_target rec) \<and>
         objs (gd w') = objs (gd w) \<and> wt w' = wt w \<and> intent_file w' = intent_file w \<and>
         done_file w' = done_file w
       else r \<noteq> Inr () \<and> w' = w)"
  by (simp add: advanceRef_def writeRef_def readRef_def fun_eq_iff)

subsection \<open>A transaction on a concrete world\<close>

definition blob_name :: "bytes \<Rightarrow> oid" where
  "blob_name bs = objectOid naming_lib ''blob'' bs"

definition demo_spec :: intent_spec where
  "demo_spec = \<lparr>is_ref = GROUP_REF, is_target = ''new'', is_oldRef = Some ''old'',
     is_ops = [\<lparr>op_kind = OpWrite, op_path = ''d/a'',
                 op_pre = Some (Some (blob_name [1]), Some Blob, Some mode_plain),
                 op_post = Some (Some (blob_name [2]), Some Blob, Some mode_exec)\<rparr>,
               \<lparr>op_kind = OpDelete, op_path = ''b'',
                 op_pre = Some (Some (blob_name [1]), Some Blob, Some mode_plain), op_post = None\<rparr>]\<rparr>"

definition demo_world :: "bytes \<Rightarrow> world" where
  "demo_world a = \<lparr>wt = [(''d'', Dir), (''d/a'', File a 420), (''b'', File [1] 420)],
     gd = \<lparr>objs = [(blob_name [2], (''blob'', [2]))], refs = [(GROUP_REF, ''old'')]\<rparr>,
     intent_file = Absent, done_file = Absent\<rparr>"


lemma demo_startable: "startable naming_lib ''tx-1'' demo_spec (demo_world a)"
proof -
  have "safe_ops naming_lib ''tx-1'' (is_ops demo_spec) (demo_world a)"
    by (simp add: safe_ops_def demo_spec_def demo_world_def op_ok_def readObject_def
        blob_name_def writable_def js_simps tmp_path_def normalizeTuple_def)
  moreover have "isAllowedRef (is_ref demo_spec)" by (simp add: demo_spec_def isAllowedRef_def)
  ultimately show ?thesis
    by (simp add: startable_def) (simp add: demo_spec_def demo_world_def readPendingIntent_def readRef_def)
qed

lemma blob_names: "blob_name [1] \<noteq> blob_name [9]" "blob_name [9] \<noteq> blob_name [1]"
  "blob_name [2] \<noteq> blob_name [9]" "blob_name [9] \<noteq> blob_name [2]"
  "objectOid naming_lib ''blob'' bs = blob_name bs"
  by (simp_all add: blob_name_def objectOid_def wrap_object_def naming_lib_def)


lemma node_mode_420: "node_mode 420 = mode_plain"
  by (simp add: node_mode_def exec_bits_def)




theorem edits_since_scan_are_overwritten_witness:
  "\<exists>rec w'. executeIntent (\<lambda>_. False) ''tx-1'' demo_spec (demo_world [9]) = (Inr rec, w') \<and>
    tupleEquals (Some (tuple_of naming_lib (wt w') ''d/a''))
      (Some (Some (blob_name [2]), Some Blob, Some mode_exec)) \<and> readPendingIntent w' = Inr None"
proof -
  let ?op = "hd (is_ops demo_spec)"
  have "?op \<in> set (is_ops demo_spec)" by (simp add: demo_spec_def)
  moreover have "\<not> tupleEquals (Some (tuple_of naming_lib (wt (demo_world [9])) (op_path ?op))) (op_pre ?op)"
    by (simp add: demo_spec_def demo_world_def tuple_of_node node_tuple_def tupleEquals_iff
        normalizeTuple_def blob_names)
  ultimately show ?thesis
    using edits_since_scan_are_overwritten [OF demo_startable, of ?op "[9]"] by (simp add: demo_spec_def)
qed

definition demo_edited :: world where
  "demo_edited = (demo_world [9])\<lparr>intent_file := Doc (rec_of ''tx-1'' demo_spec)\<rparr>"


definition demo_killed :: world where
  "demo_killed = (demo_world [1])\<lparr>intent_file := Doc (rec_of ''tx-1'' demo_spec),
     wt := snd (mw_open ''d/a'' ''tx-1'' (wt (demo_world [1])))\<rparr>"

theorem kill_before_rename_blocks_recovery_witness:
  "\<exists>w'. recoverIntent naming_lib (((snd \<circ> recoverIntent naming_lib) ^^ 7) demo_killed) =
      (Inl (Code ''EEXIST''), w') \<and>
    readPendingIntent w' = Inr (Some (rec_of ''tx-1'' demo_spec)) \<and>
    readRef (gd w') (is_ref demo_spec) = is_oldRef demo_spec"
proof (rule kill_before_rename_blocks_recovery)
  have t: "wt demo_killed = [(''d'', Dir), (''d/a'', File [1] 420), (''b'', File [1] 420),
      (''d/a.dwebtmp-tx-1'', File [] mode_tmp)]"
    by (simp add: demo_killed_def demo_world_def mw_open_def ebind_def js_simps tmp_path_def)
  have g: "gd demo_killed = gd (demo_world [1])" "done_file demo_killed = Absent"
      "intent_file demo_killed = Doc (rec_of ''tx-1'' demo_spec)"
    by (simp_all add: demo_killed_def demo_world_def)
  have "op_ok naming_lib (gd (demo_world [1])) (hd (is_ops demo_spec))"
    using demo_startable [of "[1]"] by (auto simp: startable_def safe_ops_def demo_spec_def)
  moreover have "readRef (gd (demo_world [1])) (is_ref demo_spec) = is_oldRef demo_spec"
    using demo_startable [of "[1]"] by (simp add: startable_def)
  ultimately show "stuck naming_lib ''tx-1'' demo_spec (hd (is_ops demo_spec)) demo_killed"
    unfolding stuck_def t g
    by (simp add: demo_spec_def writable_def js_simps tmp_path_def tuple_of_node node_tuple_def t
        tupleEquals_iff blob_name_def node_mode_420)
qed

subsection \<open>A file that becomes a directory\<close>

text \<open>
  The case outside \<^const>\<open>safe_ops\<close> that the engine does produce: the file \<^verbatim>\<open>a\<close> is deleted and \<^verbatim>\<open>a/x\<close> is
  written.  Uninterrupted, the transaction works.  Stopped after its last operation, or after the
  reference moved, it is not recovered: the directory that the second operation made in the place of the
  first path is neither the before-image nor the after-image of that path, so recovery takes the
  engine's own work for an edit of the user.
\<close>

definition nested_spec :: intent_spec where
  "nested_spec = \<lparr>is_ref = GROUP_REF, is_target = ''new'', is_oldRef = Some ''old'',
     is_ops = [\<lparr>op_kind = OpDelete, op_path = ''a'',
                 op_pre = Some (Some (blob_name [1]), Some Blob, Some mode_plain), op_post = None\<rparr>,
               \<lparr>op_kind = OpWrite, op_path = ''a/x'', op_pre = None,
                 op_post = Some (Some (blob_name [2]), Some Blob, Some mode_plain)\<rparr>]\<rparr>"

definition nested_world :: world where
  "nested_world = \<lparr>wt = [(''a'', File [1] 420)],
     gd = \<lparr>objs = [(blob_name [2], (''blob'', [2]))], refs = [(GROUP_REF, ''old'')]\<rparr>,
     intent_file = Absent, done_file = Absent\<rparr>"



lemmas run_simps = executeIntent_def prepareIntent_def ebind_def crash_point_def js_simps tmp_path_def applyOp_def
  on_wt_def Let_def readPendingIntent_def materializeWrite_def materializeDelete_def readObject_def mw_open_def mw_commit_def
  advanceRef_def writeRef_def readRef_def markDone_def clearIntent_def isAllowedRef_def

lemma mode_plain_bits: "mode_plain AND perm_bits = 420"
  by (simp add: mode_plain_def perm_bits_def)

definition nested_after :: "world \<Rightarrow> bool \<Rightarrow> world" where
  "nested_after w moved = w\<lparr>wt := [(''a'', Dir), (''a/x'', File [2] 420)],
     gd := (gd w)\<lparr>refs := [(GROUP_REF, if moved then ''new'' else ''old'')]\<rparr>\<rparr>"

lemma nested_runs:
  "executeIntent (\<lambda>s. s = Materialized 1) ''tx-1'' nested_spec nested_world =
     (Inl (Thrown ''CrashInjection''), (nested_after nested_world False)\<lparr>intent_file := Doc (rec_of ''tx-1'' nested_spec)\<rparr>)"
  "executeIntent (\<lambda>s. s = RefAdvanced) ''tx-1'' nested_spec nested_world =
     (Inl (Thrown ''CrashInjection''), (nested_after nested_world True)\<lparr>intent_file := Doc (rec_of ''tx-1'' nested_spec)\<rparr>)"
  "executeIntent (\<lambda>s. False) ''tx-1'' nested_spec nested_world =
     (Inr (rec_of ''tx-1'' nested_spec), nested_after nested_world True)"
  by (simp_all add: run_simps nested_spec_def nested_world_def nested_after_def rec_of_def mode_plain_bits adel_def)

theorem file_to_directory_blocks_recovery:
  assumes "stage = (if moved then RefAdvanced else Materialized 1)"
  shows "fst (recoverIntent naming_lib (snd (executeIntent (\<lambda>s. s = stage) ''tx-1'' nested_spec nested_world))) =
     Inr (RConflicted [''a''] (if moved then ''postimage-mismatch'' else ''user-edits'') (rec_of ''tx-1'' nested_spec)) \<and>
    wt (snd (executeIntent (\<lambda>s. False) ''tx-1'' nested_spec nested_world)) = [(''a'', Dir), (''a/x'', File [2] 420)]"
proof -
  have own: "objectOid naming_lib ''blob'' [2] = blob_name [2]" "node_mode 420 = mode_plain" "blob_name [1] \<noteq> blob_name [2]"
    using blob_names by (simp_all add: blob_name_def node_mode_420 objectOid_def wrap_object_def naming_lib_def)
  show ?thesis
    by (cases moved) (simp_all add: assms nested_runs [unfolded One_nat_def], simp_all add: recoverIntent_def readPendingIntent_def nested_after_def nested_world_def
      rec_of_def nested_spec_def ebind_def judge_def Let_def pathStateTuple_def tupleEquals_def normalizeTuple_def
      writeBlob_def writeObject_def own readRef_def)
qed

theorem second_prepare_refused_witness:
  "executeIntent (\<lambda>_. False) ''tx-2'' demo_spec demo_edited =
     (Inl (Thrown ''intent already pending''), demo_edited)"
  by (rule second_prepare_refused [where rec = "rec_of ''tx-1'' demo_spec"])
    (simp add: readPendingIntent_def demo_edited_def demo_world_def)

end
