(* ===== verification/Closure.thy ===== *)
theory Closure
  imports Objects
begin

text \<open>
  Walks over the object graph (opendweb-ext-sync, objects.mjs): the closure of a commit, which a
  transfer checks to be complete, and the merge base of two commits.

  Both walks are breadth-first loops over a queue.  They are \<open>partial_function\<close>s, so a walk
  that does not end would be \<^const>\<open>None\<close>; the theorems show that they end on every finite object
  store and what they return.
\<close>

subsection \<open>The links of an object\<close>

text \<open>
  The lines of a commit object as the \<^verbatim>\<open>m\<close> flag of a JavaScript regular expression sees them: a
  line ends at LF, CR, U+2028 and U+2029 (the last two as their UTF-8 bytes).
\<close>

function text_lines :: "nat list \<Rightarrow> nat list \<Rightarrow> string list" where
  "text_lines acc [] = [map char_of (rev acc)]"
| "text_lines acc (b # bs) =
     (if b = 10 \<or> b = 13 then map char_of (rev acc) # text_lines [] bs
      else if b = 226 \<and> (take 2 bs = [128, 168] \<or> take 2 bs = [128, 169])
      then map char_of (rev acc) # text_lines [] (drop 2 bs)
      else text_lines (b # acc) bs)"
  by pat_completeness auto
termination by (relation "measure (length \<circ> snd)") auto

text \<open>The ids on the lines that are a keyword, a space and 40 hex digits.\<close>

definition line_ids :: "string \<Rightarrow> string list \<Rightarrow> oid list" where
  "line_ids kw ls =
     map (drop (length kw + 1)) (filter (\<lambda>l. startsWith l (kw @ '' '') \<and> hex40 (drop (length kw + 1) l)) ls)"

definition commit_links :: "bytes \<Rightarrow> oid list" where
  "commit_links content =
     (let ls = text_lines [] (map unat content) in take 1 (line_ids ''tree'' ls) @ line_ids ''parent'' ls)"

definition hex_of_bytes :: "bytes \<Rightarrow> string" where
  "hex_of_bytes bs = concat (map (\<lambda>b. hex_str 2 (unat b)) bs)"

text \<open>The entries of a tree object: everything up to a zero byte, then twenty bytes of id.\<close>

function tree_links :: "bytes \<Rightarrow> oid list" where
  "tree_links bs =
     (case dropWhile (\<lambda>b. b \<noteq> 0) bs of
        [] \<Rightarrow> []
      | _ # r \<Rightarrow> hex_of_bytes (take 20 r) # tree_links (drop 20 r))"
  by pat_completeness auto
termination
proof (relation "measure length")
  fix bs :: bytes and x r
  assume "dropWhile (\<lambda>b. b \<noteq> 0) bs = x # r"
  then have "length (x # r) \<le> length bs" by (metis length_dropWhile_le)
  then show "(drop 20 r, bs) \<in> measure length" by simp
qed simp

declare tree_links.simps [simp del]

definition object_links :: "string \<times> bytes \<Rightarrow> oid list" where
  "object_links ob =
     (if fst ob = ''commit'' then commit_links (snd ob)
      else if fst ob = ''tree'' then tree_links (snd ob) else [])"

subsection \<open>The closure walk\<close>

type_synonym resolver = "oid \<Rightarrow> (string \<times> bytes) option"

record walk_state =
  w_queue :: "oid list"
  w_queued :: "oid list"
  w_seen :: "(oid \<times> string \<times> nat) list"
  w_missing :: "oid list"

definition ensure :: "oid \<Rightarrow> walk_state \<Rightarrow> walk_state" where
  "ensure i st =
     (if i \<in> set (akeys (w_seen st)) \<or> i \<in> set (w_missing st) then st
      else if i \<notin> set (w_queued st)
      then st\<lparr>w_queue := w_queue st @ [i], w_queued := w_queued st @ [i]\<rparr>
      else st)"

text \<open>One turn of the loop: the head of the queue is resolved and its links are queued.\<close>

definition walk_turn :: "resolver \<Rightarrow> walk_state \<Rightarrow> walk_state" where
  "walk_turn res st =
     (let i = hd (w_queue st); st1 = st\<lparr>w_queue := tl (w_queue st)\<rparr>
      in case res i of
           None \<Rightarrow> st1\<lparr>w_missing := w_missing st1 @ [i]\<rparr>
         | Some ob \<Rightarrow>
             fold ensure (object_links ob)
               (st1\<lparr>w_seen := aput i (fst ob, length (snd ob)) (w_seen st1)\<rparr>))"

partial_function (option) walk_loop :: "resolver \<Rightarrow> walk_state \<Rightarrow> walk_state option" where
  "walk_loop res st = (if w_queue st = [] then Some st else walk_loop res (walk_turn res st))"

definition walkClosure :: "oid \<Rightarrow> resolver \<Rightarrow> (err + (oid \<times> string \<times> nat) list) option" where
  "walkClosure start res =
     map_option
       (\<lambda>st. if w_missing st \<noteq> [] then Inl (Missing (sort (w_missing st)))
              else Inr (sort_key fst (w_seen st)))
       (walk_loop res \<lparr>w_queue = [start], w_queued = [start], w_seen = [], w_missing = []\<rparr>)"

text \<open>What the walk should find: everything reachable along the links of present objects.\<close>

inductive reach :: "resolver \<Rightarrow> oid \<Rightarrow> oid \<Rightarrow> bool" for res start where
  start: "reach res start start"
| link: "reach res start j \<Longrightarrow> res j = Some ob \<Longrightarrow> i \<in> set (object_links ob) \<Longrightarrow> reach res start i"

definition reachable :: "resolver \<Rightarrow> oid \<Rightarrow> oid set" where
  "reachable res start = {i. reach res start i}"

lemma finite_reachable:
  assumes "finite (dom res)"
  shows "finite (reachable res start)"
proof (rule finite_subset)
  show "reachable res start \<subseteq> insert start (\<Union>j \<in> dom res. set (object_links (the (res j))))"
  proof
    fix i assume "i \<in> reachable res start"
    then have "reach res start i" by (simp add: reachable_def)
    then show "i \<in> insert start (\<Union>j \<in> dom res. set (object_links (the (res j))))"
      by cases force+
  qed
  show "finite (insert start (\<Union>j \<in> dom res. set (object_links (the (res j)))))" using assms by simp
qed

text \<open>The invariant of the loop.\<close>

definition visited :: "walk_state \<Rightarrow> oid list" where
  "visited st = akeys (w_seen st) @ w_missing st"

definition walk_inv :: "resolver \<Rightarrow> oid \<Rightarrow> walk_state \<Rightarrow> bool" where
  "walk_inv res start st \<longleftrightarrow>
     distinct (visited st @ w_queue st) \<and> set (w_queued st) = set (visited st @ w_queue st) \<and>
     set (w_queued st) \<subseteq> reachable res start \<and> start \<in> set (w_queued st) \<and>
     (\<forall>i v. map_of (w_seen st) i = Some v \<longrightarrow> (\<exists>ob. res i = Some ob \<and> v = (fst ob, length (snd ob)))) \<and>
     (\<forall>i \<in> set (w_missing st). res i = None) \<and>
     (\<forall>i \<in> set (akeys (w_seen st)). \<forall>ob. res i = Some ob \<longrightarrow> set (object_links ob) \<subseteq> set (w_queued st))"

lemma ensure_fields [simp]:
  "w_seen (ensure i st) = w_seen st" "w_missing (ensure i st) = w_missing st"
  by (simp_all add: ensure_def)

lemma ensure_all:
  assumes "set (w_queued st) = set (visited st @ w_queue st)" "distinct (visited st @ w_queue st)"
  shows "let st' = fold ensure ls st in
    w_seen st' = w_seen st \<and> w_missing st' = w_missing st \<and>
    set (w_queued st') = set (w_queued st) \<union> set ls \<and>
    set (w_queued st') = set (visited st' @ w_queue st') \<and> distinct (visited st' @ w_queue st')"
  using assms
proof (induction ls arbitrary: st)
  case Nil
  then show ?case by (simp add: Let_def)
next
  case (Cons l ls)
  have v: "visited (ensure l st) = visited st" by (simp add: visited_def)
  have "set (w_queued (ensure l st)) = set (w_queued st) \<union> {l}"
    using Cons.prems(1) by (auto simp: ensure_def visited_def)
  moreover have "set (w_queued (ensure l st)) = set (visited (ensure l st) @ w_queue (ensure l st))"
    unfolding v using Cons.prems by (auto simp: ensure_def)
  moreover have "distinct (visited (ensure l st) @ w_queue (ensure l st))"
    unfolding v using Cons.prems by (auto simp: ensure_def visited_def)
  ultimately show ?case using Cons.IH [of "ensure l st"] by (auto simp: Let_def)
qed


lemma walk_turn_inv:
  assumes inv: "walk_inv res start st" and q: "w_queue st \<noteq> []"
  shows "walk_inv res start (walk_turn res st) \<and>
    set (visited (walk_turn res st)) = insert (hd (w_queue st)) (set (visited st)) \<and>
    hd (w_queue st) \<notin> set (visited st)"
proof -
  obtain i qs where iq: "w_queue st = i # qs" using q by (cases "w_queue st") auto
  from inv iq have d: "distinct (visited st @ i # qs)"
    and qd: "set (w_queued st) = set (visited st @ i # qs)" by (simp_all add: walk_inv_def)
  have ri: "i \<in> reachable res start" using inv iq qd by (auto simp: walk_inv_def)
  show ?thesis
  proof (cases "res i")
    case None
    let ?st = "st\<lparr>w_queue := qs, w_missing := w_missing st @ [i]\<rparr>"
    have t: "walk_turn res st = ?st" using None iq by (simp add: walk_turn_def)
    have "visited ?st = visited st @ [i]" by (simp add: visited_def)
    with d qd inv None show ?thesis unfolding t by (auto simp: walk_inv_def iq)
  next
    case (Some ob)
    let ?s1 = "st\<lparr>w_queue := qs, w_seen := aput i (fst ob, length (snd ob)) (w_seen st)\<rparr>"
    have new: "i \<notin> set (akeys (w_seen st))" using d by (simp add: visited_def)
    have v1: "set (visited ?s1) = insert i (set (visited st))" by (auto simp: visited_def)
    have d1: "distinct (visited ?s1 @ w_queue ?s1)"
      using d new by (auto simp: visited_def akeys_aput_new)
    have qd1: "set (w_queued ?s1) = set (visited ?s1 @ w_queue ?s1)" using qd v1 by auto
    define s2 where "s2 = fold ensure (object_links ob) ?s1"
    from ensure_all [OF qd1 d1, of "object_links ob", folded s2_def, unfolded Let_def] have
      s2: "w_seen s2 = w_seen ?s1" "w_missing s2 = w_missing ?s1"
        "set (w_queued s2) = set (w_queued ?s1) \<union> set (object_links ob)"
        "set (w_queued s2) = set (visited s2 @ w_queue s2)" "distinct (visited s2 @ w_queue s2)"
      by blast+
    have t: "walk_turn res st = s2" using Some iq by (simp add: walk_turn_def s2_def)
    have v: "set (visited s2) = insert i (set (visited st))" using s2(1,2) v1 by (simp add: visited_def)
    have "set (object_links ob) \<subseteq> reachable res start"
      using ri Some by (auto simp: reachable_def intro: reach.link)
    moreover have "set (object_links ob') \<subseteq> set (w_queued s2)"
      if j: "j \<in> set (akeys (w_seen s2))" "res j = Some ob'" for j ob'
    proof (cases "j = i")
      case True
      with j Some s2(3) show ?thesis by simp
    next
      case False
      then have "j \<in> set (akeys (w_seen st))" using j s2(1) by simp
      then have "set (object_links ob') \<subseteq> set (w_queued st)"
        using inv j(2) unfolding walk_inv_def by blast
      with s2(3) show ?thesis by auto
    qed
    moreover have "\<exists>ob. res j = Some ob \<and> v = (fst ob, length (snd ob))"
      if "map_of (w_seen s2) j = Some v" for j v
    proof (cases "j = i")
      case True
      with that s2(1) Some show ?thesis by simp
    next
      case False
      with that s2(1) have "map_of (w_seen st) j = Some v" by simp
      with inv show ?thesis unfolding walk_inv_def by blast
    qed
    ultimately have "walk_inv res start s2"
      using inv s2(2-5) qd iq unfolding walk_inv_def by (auto simp del: split_paired_All split_paired_Ex)
    with v d show ?thesis unfolding t by (simp add: iq)
  qed
qed

lemma walk_loop_ends:
  assumes fin: "finite (dom res)" and "walk_inv res start st"
  shows "\<exists>st'. walk_loop res st = Some st' \<and> walk_inv res start st' \<and> w_queue st' = []"
  using assms(2)
proof (induction "card (reachable res start - set (visited st))" arbitrary: st rule: less_induct)
  case less
  show ?case
  proof (cases "w_queue st = []")
    case True
    then have "walk_loop res st = Some st" by (simp add: walk_loop.simps)
    with True less.prems show ?thesis by blast
  next
    case False
    from walk_turn_inv [OF less.prems False] have
      t: "walk_inv res start (walk_turn res st)"
        "set (visited (walk_turn res st)) = insert (hd (w_queue st)) (set (visited st))"
        "hd (w_queue st) \<notin> set (visited st)" by auto
    have "hd (w_queue st) \<in> reachable res start"
      using less.prems False by (cases "w_queue st") (auto simp: walk_inv_def)
    then have "reachable res start - set (visited (walk_turn res st)) \<subset> reachable res start - set (visited st)"
      using t(2,3) by blast
    then have "card (reachable res start - set (visited (walk_turn res st)))
        < card (reachable res start - set (visited st))"
      using finite_reachable [OF fin] by (intro psubset_card_mono) auto
    from less.hyps [OF this t(1)] False show ?thesis by (subst walk_loop.simps) auto
  qed
qed

lemma walk_done:
  assumes "walk_inv res start st" and "w_queue st = []"
  shows "set (visited st) = reachable res start"
proof
  from assms show "set (visited st) \<subseteq> reachable res start" by (auto simp: walk_inv_def)
  show "reachable res start \<subseteq> set (visited st)"
  proof
    fix i assume "i \<in> reachable res start"
    then have "reach res start i" by (simp add: reachable_def)
    then show "i \<in> set (visited st)"
    proof induction
      case start
      from assms show ?case by (auto simp: walk_inv_def)
    next
      case (link j ob i)
      then have "j \<in> set (akeys (w_seen st))" using assms by (auto simp: visited_def walk_inv_def)
      with link assms(1) have "set (object_links ob) \<subseteq> set (w_queued st)"
        unfolding walk_inv_def by blast
      with link assms show ?case by (auto simp: walk_inv_def)
    qed
  qed
qed

lemma sort_key_map_fst:
  assumes "\<And>x. fst (f x) = x"
  shows "sort_key fst (map f xs) = map f (sort xs)"
proof (induction xs)
  case Nil
  then show ?case by simp
next
  case (Cons x xs)
  have "insort_key fst (f x) (map f ys) = map f (insort x ys)" for ys
    by (induction ys) (auto simp: assms)
  with Cons show ?case by simp
qed

lemma walkClosure_exact':
  assumes "finite (dom res)"
  shows "walkClosure start res = Some
    (if reachable res start \<subseteq> dom res
     then Inr (map (\<lambda>i. (i, fst (the (res i)), length (snd (the (res i)))))
                (sorted_list_of_set (reachable res start)))
     else Inl (Missing (sorted_list_of_set (reachable res start - dom res))))"
proof -
  let ?st0 = "\<lparr>w_queue = [start], w_queued = [start], w_seen = [], w_missing = []\<rparr>"
  have "walk_inv res start ?st0"
    by (simp add: walk_inv_def visited_def akeys_def reachable_def reach.start)
  from walk_loop_ends [OF assms this] obtain st where
    st: "walk_loop res ?st0 = Some st" "walk_inv res start st" "w_queue st = []" by blast
  have v: "set (visited st) = reachable res start" using walk_done [OF st(2,3)] .
  have d: "distinct (akeys (w_seen st))" "distinct (w_missing st)"
    using st(2) by (auto simp: walk_inv_def visited_def)
  have seen: "(i, x) \<in> set (w_seen st) \<Longrightarrow> \<exists>ob. res i = Some ob \<and> x = (fst ob, length (snd ob))" for i x
  proof -
    assume "(i, x) \<in> set (w_seen st)"
    then have "map_of (w_seen st) i = Some x" using d(1) by (simp add: akeys_def)
    with st(2) show ?thesis unfolding walk_inv_def by blast
  qed
  have sd: "set (akeys (w_seen st)) \<subseteq> dom res" using seen by (force simp: akeys_def)
  have md: "set (w_missing st) = reachable res start - dom res"
    using v sd st(2) by (auto simp: visited_def walk_inv_def)
  have m: "sort (w_missing st) = sorted_list_of_set (reachable res start - dom res)"
    using d(2) md by (metis sorted_list_of_set_sort_remdups distinct_remdups_id)
  show ?thesis
  proof (cases "reachable res start \<subseteq> dom res")
    case True
    then have none: "w_missing st = []" using md by (metis Diff_eq_empty_iff set_empty)
    let ?f = "\<lambda>i. (i, fst (the (res i)), length (snd (the (res i))))"
    have s: "w_seen st = map ?f (akeys (w_seen st))"
      using seen by (force simp: akeys_def intro: map_idI [symmetric])
    have "sort_key fst (w_seen st) = map ?f (sort (akeys (w_seen st)))"
      by (subst s) (simp add: sort_key_map_fst)
    also have "sort (akeys (w_seen st)) = sorted_list_of_set (reachable res start)"
      using d(1) v none by (metis append_Nil2 sorted_list_of_set_sort_remdups distinct_remdups_id visited_def)
    finally show ?thesis using True st(1) none by (simp add: walkClosure_def)
  next
    case False
    then have "w_missing st \<noteq> []" using md by auto
    with False st(1) m show ?thesis by (simp add: walkClosure_def)
  qed
qed


text \<open>
  C8. The closure walk ends on every finite store and is exact: if every object reachable from the
  start along tree and parent links is present, the walk returns exactly those objects, each once,
  in the order of their ids, with their types and sizes; otherwise it fails with exactly the
  reachable objects that are missing, in order.
\<close>

theorem walkClosure_exact:
  assumes "finite (dom res)"
  shows "walkClosure start res = Some
    (if reachable res start \<subseteq> dom res
     then Inr (map (\<lambda>i. (i, fst (the (res i)), length (snd (the (res i)))))
                (sorted_list_of_set (reachable res start)))
     else Inl (Missing (sorted_list_of_set (reachable res start - dom res))))"
  using assms by (rule walkClosure_exact')

theorem walkClosure_exact_witness:
  "walkClosure ''c'' (readObject empty_gitdir) = Some
    (if reachable (readObject empty_gitdir) ''c'' \<subseteq> dom (readObject empty_gitdir)
     then Inr (map (\<lambda>i. (i, fst (the (readObject empty_gitdir i)), length (snd (the (readObject empty_gitdir i)))))
                (sorted_list_of_set (reachable (readObject empty_gitdir) ''c'')))
     else Inl (Missing (sorted_list_of_set
        (reachable (readObject empty_gitdir) ''c'' - dom (readObject empty_gitdir)))))"
  by (rule walkClosure_exact) (simp add: readObject_def [abs_def] empty_gitdir_def finite_dom_map_of)

lemma text_lines_split: "\<exists>ls. text_lines acc (xs @ 10 # ys) = ls @ text_lines [] ys"
proof (induction acc xs rule: text_lines.induct)
  case (1 acc)
  show ?case by simp
next
  case (2 acc b bs)
  show ?case
  proof (cases "b = 10 \<or> b = 13")
    case True
    with 2(1) show ?thesis by auto
  next
    case False
    show ?thesis
    proof (cases "b = 226 \<and> (take 2 bs = [128, 168] \<or> take 2 bs = [128, 169])")
      case True
      then have "length (take 2 bs) = 2" by (auto simp del: length_take)
      then have "2 \<le> length bs" by simp
      then have "take 2 (bs @ 10 # ys) = take 2 bs" "drop 2 (bs @ 10 # ys) = drop 2 bs @ 10 # ys" by simp_all
      with True False 2(2) show ?thesis by auto
    next
      case noterm: False
      show ?thesis
      proof (cases "b = 226 \<and> (take 2 (bs @ 10 # ys) = [128, 168] \<or> take 2 (bs @ 10 # ys) = [128, 169])")
        case True
        then have "take 2 (bs @ 10 # ys) = take 2 bs"
          by (cases bs; cases "tl bs"; auto simp: numeral_2_eq_2)
        with True noterm show ?thesis by simp
      next
        case no: False
        with False noterm 2(3) show ?thesis by (simp only: append_Cons text_lines.simps if_False no)
      qed
    qed
  qed
qed

lemma text_lines_plain:
  "10 \<notin> set bs \<Longrightarrow> 13 \<notin> set bs \<Longrightarrow> 226 \<notin> set bs \<Longrightarrow> text_lines acc bs = [map char_of (rev acc @ bs)]"
  by (induction bs arbitrary: acc) auto

lemma text_lines_string:
  assumes "\<And>c. c \<in> set s \<Longrightarrow> (of_char c :: nat) \<notin> {10, 13, 226}"
  shows "text_lines [] (map of_char s) = [s]"
proof -
  have "map char_of (map (of_char :: char \<Rightarrow> nat) s) = s" by (induction s) auto
  moreover have "10 \<notin> set (map of_char s :: nat list)" "13 \<notin> set (map of_char s :: nat list)"
    "226 \<notin> set (map of_char s :: nat list)" using assms by fastforce+
  ultimately show ?thesis using text_lines_plain [of "map of_char s" "[]"] by simp
qed

lemma hex_ascii_range: "is_hex c \<Longrightarrow> 48 \<le> (of_char c :: nat) \<and> (of_char c :: nat) \<le> 102"
  by (auto simp: is_hex_def is_digit_def less_eq_char_def)

text \<open>
  The closure walk reads parents off every line of a commit object, the message included: a
  message line of the form \<^verbatim>\<open>parent <40 hex digits>\<close> is followed like a parent, so a commit with
  such a line has no complete closure unless an object of that name happens to exist.
\<close>

theorem message_line_taken_for_parent:
  assumes "hex40 h" and "res i = Some (''commit'', header @ [10] @ ascii (''parent '' @ h))"
    and "finite (dom res)" and "res h = None"
  shows "\<exists>ms. walkClosure i res = Some (Inl (Missing ms)) \<and> h \<in> set ms"
proof -
  let ?line = "''parent '' @ h"
  have conv: "map unat (ascii ?line) = map of_char ?line"
    by (simp add: ascii_def unat_of_nat of_char_of o_def take_bit_eq_mod)
  have hx: "\<And>c. c \<in> set h \<Longrightarrow> 48 \<le> (of_char c :: nat) \<and> (of_char c :: nat) \<le> 102"
    using assms(1) hex_ascii_range by (auto simp: hex_between_def list_all_iff)
  have "text_lines [] (map unat (ascii ?line)) = [?line]"
    unfolding conv
  proof (rule text_lines_string)
    show "(of_char c :: nat) \<notin> {10, 13, 226}" if "c \<in> set ?line" for c
      using that hx [of c] by auto
  qed
  moreover obtain ls where "text_lines [] (map unat header @ 10 # map unat (ascii ?line)) =
      ls @ text_lines [] (map unat (ascii ?line))" using text_lines_split by blast
  ultimately have "text_lines [] (map unat (header @ [10] @ ascii ?line)) = ls @ [?line]" by simp
  then have "h \<in> set (commit_links (header @ [10] @ ascii ?line))"
    using assms(1) by (simp add: commit_links_def Let_def line_ids_def startsWith_def)
  then have "h \<in> reachable res i"
    using assms(2) by (auto simp: reachable_def object_links_def intro: reach.start reach.link)
  moreover have "finite (reachable res i - dom res)" using finite_reachable assms(3) by blast
  ultimately show ?thesis using walkClosure_exact' [OF assms(3), of i] assms(4) by auto
qed


definition forged_parent :: string where
  "forged_parent = replicate 40 CHR ''d''"

definition forged_store :: resolver where
  "forged_store = map_of [(''c'', (''commit'', ascii ''tidy'' @ [10] @ ascii (''parent '' @ forged_parent)))]"

theorem message_line_taken_for_parent_witness:
  "\<exists>ms. walkClosure ''c'' forged_store = Some (Inl (Missing ms)) \<and> forged_parent \<in> set ms"
proof (rule message_line_taken_for_parent)
  show "hex40 forged_parent"
    by (simp add: forged_parent_def hex_between_def list_all_iff is_hex_def)
  show "forged_store ''c'' = Some (''commit'', ascii ''tidy'' @ [10] @ ascii (''parent '' @ forged_parent))"
    by (simp add: forged_store_def)
  show "finite (dom forged_store)" by (simp add: forged_store_def finite_dom_map_of)
  show "forged_store forged_parent = None" by (simp add: forged_store_def forged_parent_def eval_nat_numeral)
qed

subsection \<open>The merge base\<close>

text \<open>Breadth-first ancestors; an unreadable commit is a leaf.\<close>

definition parents_of :: "git_lib \<Rightarrow> gitdir \<Rightarrow> oid \<Rightarrow> oid list" where
  "parents_of L gd i = (case readCommitParsed L gd i of None \<Rightarrow> [] | Some c \<Rightarrow> c_parent c)"

partial_function (option) anc_loop ::
  "git_lib \<Rightarrow> gitdir \<Rightarrow> oid list \<Rightarrow> oid list \<Rightarrow> oid list option" where
  "anc_loop L gd order queue =
     (if queue = [] then Some order
      else if hd queue \<in> set order then anc_loop L gd order (tl queue)
      else anc_loop L gd (order @ [hd queue]) (tl queue @ parents_of L gd (hd queue)))"

definition ancestors :: "git_lib \<Rightarrow> gitdir \<Rightarrow> oid \<Rightarrow> oid list option" where
  "ancestors L gd start = anc_loop L gd [] [start]"

definition mergeBase :: "git_lib \<Rightarrow> gitdir \<Rightarrow> oid \<Rightarrow> oid \<Rightarrow> oid option option" where
  "mergeBase L gd a b =
     (case (ancestors L gd a, ancestors L gd b) of
        (Some aa, Some bb) \<Rightarrow> Some (find_first (\<lambda>i. i \<in> set bb) aa)
      | _ \<Rightarrow> None)"

text \<open>Ancestry, by the number of parent steps.\<close>

inductive ancestor_at :: "git_lib \<Rightarrow> gitdir \<Rightarrow> oid \<Rightarrow> nat \<Rightarrow> oid \<Rightarrow> bool" for L gd a where
  self: "ancestor_at L gd a 0 a"
| step: "ancestor_at L gd a n j \<Longrightarrow> i \<in> set (parents_of L gd j) \<Longrightarrow> ancestor_at L gd a (Suc n) i"

definition is_ancestor :: "git_lib \<Rightarrow> gitdir \<Rightarrow> oid \<Rightarrow> oid \<Rightarrow> bool" where
  "is_ancestor L gd i a \<longleftrightarrow> (\<exists>n. ancestor_at L gd a n i)"

lemma finite_ancestors: "finite {i. is_ancestor L gd i a}"
proof (rule finite_subset)
  let ?P = "insert a (\<Union>j \<in> set (akeys (objs gd)). set (parents_of L gd j))"
  show "{i. is_ancestor L gd i a} \<subseteq> ?P"
  proof
    fix i assume "i \<in> {i. is_ancestor L gd i a}"
    then obtain n where "ancestor_at L gd a n i" by (auto simp: is_ancestor_def)
    then show "i \<in> ?P"
    proof cases
      case (step m j)
      then have "readObject gd j \<noteq> None"
        by (auto simp: parents_of_def readCommitParsed_def split: option.splits)
      then have "j \<in> set (akeys (objs gd))"
        using map_of_None_akeys [of "objs gd" j] by (simp add: readObject_def)
      with step show ?thesis by auto
    qed simp
  qed
  show "finite ?P" by simp
qed


text \<open>
  The invariant of the search, with the depth at which every listed commit was found: depths grow
  along the list, and a parent of a listed commit is listed or queued at most one level deeper.
\<close>

definition bfs_inv ::
  "git_lib \<Rightarrow> gitdir \<Rightarrow> oid \<Rightarrow> (oid \<times> nat) list \<Rightarrow> (oid \<times> nat) list \<Rightarrow> bool" where
  "bfs_inv L gd a vis queue \<longleftrightarrow>
     distinct (map fst vis) \<and> sorted (map snd (vis @ queue)) \<and>
     (\<forall>(i, d) \<in> set queue. d \<le> Suc (snd (hd queue))) \<and>
     (\<forall>(i, d) \<in> set (vis @ queue). ancestor_at L gd a d i) \<and>
     (\<exists>d. (a, d) \<in> set (vis @ queue) \<and> d = 0) \<and>
     (\<forall>(j, e) \<in> set vis. \<forall>i \<in> set (parents_of L gd j). \<exists>d \<le> Suc e. (i, d) \<in> set (vis @ queue))"

lemma bfs_skip:
  assumes inv: "bfs_inv L gd a vis ((i, d) # q)" and old: "i \<in> fst ` set vis"
  shows "bfs_inv L gd a vis q"
proof -
  from old obtain e where e: "(i, e) \<in> set vis" by auto
  then have le: "e \<le> d" using inv by (force simp: bfs_inv_def sorted_append)
  have "ancestor_at L gd a d' j' \<Longrightarrow> True" for d' j' by simp
  have "\<exists>c. (a, c) \<in> set (vis @ q) \<and> c = 0"
    using inv e le by (auto simp: bfs_inv_def)
  moreover have "\<forall>(j, c) \<in> set vis. \<forall>p \<in> set (parents_of L gd j). \<exists>c' \<le> Suc c. (p, c') \<in> set (vis @ q)"
  proof (intro ballI, clarify)
    fix j c p assume "(j, c) \<in> set vis" "p \<in> set (parents_of L gd j)"
    then obtain c' where c': "c' \<le> Suc c" "(p, c') \<in> set (vis @ (i, d) # q)"
      using inv unfolding bfs_inv_def by blast
    show "\<exists>c' \<le> Suc c. (p, c') \<in> set (vis @ q)"
    proof (cases "(p, c') = (i, d)")
      case True
      then show ?thesis using e le c'(1) by (intro exI [of _ e]) auto
    next
      case False
      with c' show ?thesis by auto
    qed
  qed
  moreover have "\<forall>(j, c) \<in> set q. c \<le> Suc (snd (hd q))"
  proof (cases q)
    case (Cons x r)
    have "d \<le> snd x" using inv by (auto simp: Cons bfs_inv_def sorted_append)
    moreover have "\<forall>(j, c) \<in> set q. c \<le> Suc d" using inv by (auto simp: bfs_inv_def)
    ultimately show ?thesis by (fastforce simp: Cons)
  qed simp
  ultimately show ?thesis using inv by (auto simp: bfs_inv_def sorted_append)
qed

lemma bfs_visit:
  assumes inv: "bfs_inv L gd a vis ((i, d) # q)" and new: "i \<notin> fst ` set vis"
  shows "bfs_inv L gd a (vis @ [(i, d)]) (q @ map (\<lambda>p. (p, Suc d)) (parents_of L gd i))"
proof -
  have anc: "ancestor_at L gd a d i" using inv by (auto simp: bfs_inv_def)
  have bound: "\<forall>(j, c) \<in> set q. d \<le> c \<and> c \<le> Suc d" using inv by (fastforce simp: bfs_inv_def sorted_append)
  let ?q = "q @ map (\<lambda>p. (p, Suc d)) (parents_of L gd i)"
  have "\<forall>(j, c) \<in> set ?q. c \<le> Suc (snd (hd ?q))"
  proof (cases q)
    case Nil
    then show ?thesis by (cases "parents_of L gd i") auto
  next
    case (Cons x r)
    with bound have "d \<le> snd x" by auto
    with bound show ?thesis by (fastforce simp: Cons)
  qed
  moreover have "sorted (map snd ((vis @ [(i, d)]) @ ?q))"
  proof -
    have "sorted (map snd vis @ d # map snd q)" using inv by (simp add: bfs_inv_def)
    moreover have "\<forall>c \<in> set (map snd q). c \<le> Suc d" using bound by auto
    ultimately have "sorted ((map snd vis @ [d]) @ map snd q @ replicate (length (parents_of L gd i)) (Suc d))"
      by (auto simp: sorted_append dest: le_SucI)
    then show ?thesis by (simp add: o_def map_replicate_const)
  qed
  moreover have "\<forall>(j, c) \<in> set ((vis @ [(i, d)]) @ ?q). ancestor_at L gd a c j"
    using inv anc by (auto simp: bfs_inv_def intro: ancestor_at.step)
  moreover have "\<forall>(j, e) \<in> set (vis @ [(i, d)]). \<forall>p \<in> set (parents_of L gd j).
      \<exists>c \<le> Suc e. (p, c) \<in> set ((vis @ [(i, d)]) @ ?q)"
  proof (intro ballI, clarify)
    fix j e p assume j: "(j, e) \<in> set (vis @ [(i, d)])" and p: "p \<in> set (parents_of L gd j)"
    show "\<exists>c \<le> Suc e. (p, c) \<in> set ((vis @ [(i, d)]) @ ?q)"
    proof (cases "(j, e) \<in> set vis")
      case True
      then obtain c where "c \<le> Suc e" "(p, c) \<in> set (vis @ (i, d) # q)"
        using inv p unfolding bfs_inv_def by blast
      then show ?thesis by auto
    next
      case False
      with j p show ?thesis by auto
    qed
  qed
  moreover have "\<exists>c. (a, c) \<in> set ((vis @ [(i, d)]) @ ?q) \<and> c = 0"
    using inv by (auto simp: bfs_inv_def)
  moreover have "distinct (map fst (vis @ [(i, d)]))" using inv new by (auto simp: bfs_inv_def)
  ultimately show ?thesis unfolding bfs_inv_def by blast
qed

lemma bfs_ends:
  assumes "bfs_inv L gd a vis queue"
  shows "\<exists>vis'. anc_loop L gd (map fst vis) (map fst queue) = Some (map fst vis') \<and>
    bfs_inv L gd a vis' []"
  using assms
proof (induction "(card ({i. is_ancestor L gd i a} - fst ` set vis), length queue)"
    arbitrary: vis queue rule: wf_induct_rule [OF wf_lex_prod [OF wf_less_than wf_less_than]])
  case 1
  show ?case
  proof (cases queue)
    case Nil
    with 1 show ?thesis by (subst anc_loop.simps) auto
  next
    case (Cons x q)
    obtain i d where x: "x = (i, d)" by force
    show ?thesis
    proof (cases "i \<in> fst ` set vis")
      case True
      have "bfs_inv L gd a vis q" using 1(2) True unfolding Cons x by (rule bfs_skip)
      from 1(1) [OF _ this] obtain vis' where
        "anc_loop L gd (map fst vis) (map fst q) = Some (map fst vis')" "bfs_inv L gd a vis' []"
        by (auto simp: Cons)
      then show ?thesis using True by (subst anc_loop.simps) (auto simp: Cons x)
    next
      case False
      let ?vis = "vis @ [(i, d)]" and ?q = "q @ map (\<lambda>p. (p, Suc d)) (parents_of L gd i)"
      have inv: "bfs_inv L gd a ?vis ?q" using 1(2) False unfolding Cons x by (rule bfs_visit)
      have "ancestor_at L gd a d i" using 1(2) by (auto simp: Cons x bfs_inv_def)
      then have "{i. is_ancestor L gd i a} - fst ` set ?vis \<subset> {i. is_ancestor L gd i a} - fst ` set vis"
        using False by (auto simp: is_ancestor_def)
      then have "card ({i. is_ancestor L gd i a} - fst ` set ?vis)
          < card ({i. is_ancestor L gd i a} - fst ` set vis)"
        using finite_ancestors by (intro psubset_card_mono) auto
      with 1(1) [OF _ inv] obtain vis' where
        "anc_loop L gd (map fst ?vis) (map fst ?q) = Some (map fst vis')" "bfs_inv L gd a vis' []"
        by auto
      moreover have "map fst ?q = map fst q @ parents_of L gd i" by (simp add: o_def)
      moreover have "i \<notin> set (map fst vis)" using False by simp
      ultimately have "anc_loop L gd (map fst vis) (map fst queue) = Some (map fst vis')"
        by (subst anc_loop.simps) (simp add: Cons x del: set_map)
      with \<open>bfs_inv L gd a vis' []\<close> show ?thesis by blast
    qed
  qed
qed


lemma bfs_complete:
  assumes "bfs_inv L gd a vis []" and "ancestor_at L gd a n i"
  shows "\<exists>d \<le> n. (i, d) \<in> set vis"
  using assms(2)
proof induction
  case self
  from assms(1) show ?case by (auto simp: bfs_inv_def)
next
  case (step n j i)
  then obtain e where "e \<le> n" "(j, e) \<in> set vis" by blast
  with step assms(1) obtain d where "d \<le> Suc e" "(i, d) \<in> set vis" unfolding bfs_inv_def by fastforce
  with \<open>e \<le> n\<close> show ?case by (meson Suc_le_mono le_trans)
qed

lemma ancestors_bfs:
  obtains vis where "ancestors L gd a = Some (map fst vis)" "bfs_inv L gd a vis []"
proof -
  have "bfs_inv L gd a [] [(a, 0)]" by (simp add: bfs_inv_def ancestor_at.self)
  from bfs_ends [OF this] that show ?thesis by (auto simp: ancestors_def)
qed

lemma ancestors_set:
  "\<exists>aa. ancestors L gd a = Some aa \<and> set aa = {i. is_ancestor L gd i a} \<and> distinct aa"
proof -
  obtain vis where v: "ancestors L gd a = Some (map fst vis)" "bfs_inv L gd a vis []"
    by (rule ancestors_bfs)
  have "set (map fst vis) = {i. is_ancestor L gd i a}"
  proof (intro equalityI subsetI)
    fix i assume "i \<in> set (map fst vis)"
    then obtain d where "(i, d) \<in> set vis" by auto
    then have "ancestor_at L gd a d i" using v(2) by (auto simp: bfs_inv_def)
    then show "i \<in> {i. is_ancestor L gd i a}" by (auto simp: is_ancestor_def)
  next
    fix i assume "i \<in> {i. is_ancestor L gd i a}"
    then obtain n where "ancestor_at L gd a n i" by (auto simp: is_ancestor_def)
    from bfs_complete [OF v(2) this] obtain d where "(i, d) \<in> set vis" by blast
    then show "i \<in> set (map fst vis)" by force
  qed
  with v show ?thesis by (auto simp: bfs_inv_def)
qed

lemma find_first_split:
  "find_first P xs = Some x \<Longrightarrow> \<exists>ys zs. xs = ys @ x # zs \<and> P x \<and> (\<forall>y \<in> set ys. \<not> P y)"
proof (induction xs)
  case Nil
  then show ?case by simp
next
  case (Cons y ys)
  show ?case
  proof (cases "P y")
    case True
    with Cons.prems have "y # ys = [] @ x # ys \<and> P x \<and> (\<forall>z \<in> set []. \<not> P z)" by simp
    then show ?thesis by blast
  next
    case False
    with Cons.prems Cons.IH obtain us zs where "ys = us @ x # zs" "P x" "\<forall>z \<in> set us. \<not> P z" by auto
    with False have "y # ys = (y # us) @ x # zs \<and> P x \<and> (\<forall>z \<in> set (y # us). \<not> P z)" by simp
    then show ?thesis by blast
  qed
qed

text \<open>
  C10. The merge base of two commits always exists or is reported absent: the search ends, it finds
  nothing exactly when there is no common ancestor, and what it finds is a common ancestor that is
  as few parent steps away from the first commit as any.
\<close>

theorem mergeBase_correct:
  "\<exists>r. mergeBase L gd a b = Some r \<and>
    (case r of
       None \<Rightarrow> \<not> (\<exists>i. is_ancestor L gd i a \<and> is_ancestor L gd i b)
     | Some m \<Rightarrow> is_ancestor L gd m b \<and>
         (\<exists>d. ancestor_at L gd a d m \<and>
           \<not> (\<exists>i n. ancestor_at L gd a n i \<and> is_ancestor L gd i b \<and> n < d)))"
proof -
  obtain vis where v: "ancestors L gd a = Some (map fst vis)" "bfs_inv L gd a vis []"
    by (rule ancestors_bfs)
  obtain bb where b: "ancestors L gd b = Some bb" "set bb = {i. is_ancestor L gd i b}"
    using ancestors_set by blast
  let ?r = "find_first (\<lambda>i. i \<in> set bb) (map fst vis)"
  have r: "mergeBase L gd a b = Some ?r" by (simp add: mergeBase_def v b)
  show ?thesis
  proof (cases ?r)
    case None
    have "\<not> is_ancestor L gd i b" if i: "is_ancestor L gd i a" for i
    proof -
      obtain n where "ancestor_at L gd a n i" using i by (auto simp: is_ancestor_def)
      then have "i \<in> set (map fst vis)" using bfs_complete [OF v(2)] by force
      with None b(2) show ?thesis by (simp del: set_map)
    qed
    then have "\<not> (\<exists>i. is_ancestor L gd i a \<and> is_ancestor L gd i b)" by blast
    moreover have "mergeBase L gd a b = Some None" using r None by simp
    ultimately show ?thesis by simp
  next
    case (Some m)
    from find_first_split [OF Some] obtain ys zs where s: "map fst vis = ys @ m # zs"
      "m \<in> set bb" "\<forall>y \<in> set ys. y \<notin> set bb" by blast
    from s(1) obtain us d ws where u: "vis = us @ (m, d) # ws" "ys = map fst us"
      by (auto simp: map_eq_append_conv map_eq_Cons_conv)
    have "\<not> n < d" if n: "ancestor_at L gd a n i" "is_ancestor L gd i b" for i n
    proof -
      obtain e where e: "e \<le> n" "(i, e) \<in> set vis" using bfs_complete [OF v(2) n(1)] by blast
      have "(i, e) \<notin> set us" using s(3) u(2) n(2) b(2) by force
      with e(2) u(1) have "d \<le> e" using v(2) by (auto simp: bfs_inv_def sorted_append)
      with e(1) show ?thesis by simp
    qed
    moreover have "ancestor_at L gd a d m" using v(2) u(1) by (auto simp: bfs_inv_def)
    moreover have "is_ancestor L gd m b" using s(2) b(2) by simp
    ultimately show ?thesis using r Some by auto
  qed
qed

text \<open>
  A history in which \<open>a\<close> merged \<open>x\<close> with \<open>y\<close>, \<open>y\<close> descends from \<open>z\<close> and \<open>z\<close> from \<open>x\<close>,
  and \<open>b\<close> descends from \<open>z\<close>.
\<close>

definition plain_commit :: "oid list \<Rightarrow> commit" where
  "plain_commit ps = \<lparr>c_message = '''', c_tree = '''', c_parent = ps, c_authorName = '''',
     c_authorEmail = '''', c_timestamp = 0\<rparr>"

definition cross_lib :: git_lib where
  "cross_lib = demo_lib\<lparr>dec_commit := map_of
     [([1], plain_commit [''x'', ''y'']), ([2], plain_commit [''z'']), ([3], plain_commit [''x'']),
      ([4], plain_commit [])]\<rparr>"

definition cross_gitdir :: gitdir where
  "cross_gitdir = \<lparr>objs = [(''a'', (''commit'', [1])), (''y'', (''commit'', [2])), (''z'', (''commit'', [3])),
     (''x'', (''commit'', [4])), (''b'', (''commit'', [2]))], refs = []\<rparr>"

text \<open>
  The nearest common ancestor by parent steps need not be the best one: here the search returns
  \<open>x\<close> although \<open>z\<close> is a common ancestor too and \<open>x\<close> is an ancestor of \<open>z\<close>; asked the other way
  round it returns \<open>z\<close>.
\<close>

theorem mergeBase_not_best:
  "mergeBase cross_lib cross_gitdir ''a'' ''b'' = Some (Some ''x'') \<and>
   mergeBase cross_lib cross_gitdir ''b'' ''a'' = Some (Some ''z'') \<and>
   is_ancestor cross_lib cross_gitdir ''x'' ''z'' \<and> \<not> is_ancestor cross_lib cross_gitdir ''z'' ''x''"
proof -
  have p: "parents_of cross_lib cross_gitdir ''a'' = [''x'', ''y'']"
    "parents_of cross_lib cross_gitdir ''y'' = [''z'']" "parents_of cross_lib cross_gitdir ''z'' = [''x'']"
    "parents_of cross_lib cross_gitdir ''x'' = []" "parents_of cross_lib cross_gitdir ''b'' = [''z'']"
    by (simp_all add: parents_of_def readCommitParsed_def readObject_def cross_lib_def cross_gitdir_def
        plain_commit_def)
  have aa: "ancestors cross_lib cross_gitdir ''a'' = Some [''a'', ''x'', ''y'', ''z'']"
    "ancestors cross_lib cross_gitdir ''b'' = Some [''b'', ''z'', ''x'']"
    "ancestors cross_lib cross_gitdir ''x'' = Some [''x'']"
    "ancestors cross_lib cross_gitdir ''z'' = Some [''z'', ''x'']"
    by (simp_all add: ancestors_def anc_loop.simps p)
  have i: "is_ancestor cross_lib cross_gitdir j k \<longleftrightarrow>
      j \<in> set (the (ancestors cross_lib cross_gitdir k))" for j k
    using ancestors_set [of cross_lib cross_gitdir k] by auto
  show ?thesis by (simp add: i aa mergeBase_def)
qed

end
