(* ===== verification/Trees.thy ===== *)
theory Trees
  imports Merge Worktree "HOL-Library.Multiset" "HOL-Library.Sublist"
begin

text \<open>
  Flat trees and stored trees (opendweb-ext-sync, objects.mjs): \<open>writeTreeFromFlat\<close> nests a table
  of full file paths into directories and stores a tree object per directory;
  \<open>readFlatTree\<close> walks the stored objects back into a table of full paths.
\<close>

subsection \<open>Writing\<close>

text \<open>A node of the nesting: \<^verbatim>\<open>{leaf, children}\<close> with the children in insertion order.\<close>

datatype tnode = TNode (leaf: "(string \<times> oid) option") (kids: "(string \<times> tnode) list")

record file_entry =
  f_path :: string
  f_oid :: oid
  f_mode :: string

text \<open>Inserting a file under the segments of its path; a file replaces whatever has its name.\<close>

fun tput :: "string list \<Rightarrow> string \<times> oid \<Rightarrow> tnode \<Rightarrow> tnode" where
  "tput [] e n = n"
| "tput [s] e n = TNode (leaf n) (aput s (TNode (Some e) []) (kids n))"
| "tput (s # t # r) e n =
     TNode (leaf n)
       (aput s (tput (t # r) e (case map_of (kids n) s of None \<Rightarrow> TNode None [] | Some c \<Rightarrow> c)) (kids n))"

definition nest :: "file_entry list \<Rightarrow> tnode" where
  "nest es = fold (\<lambda>e. tput (split_on CHR ''/'' (f_path e)) (f_mode e, f_oid e)) (sort_key f_path es)
     (TNode None [])"

lemma size_list_sort [simp]: "size_list f (sort_key k xs) = size_list f xs"
proof -
  have "size_list f ys = sum_mset (image_mset (\<lambda>x. Suc (f x)) (mset ys))" for ys
    by (induction ys) auto
  then show ?thesis by simp
qed

text \<open>The entries of a directory, its subdirectories stored first.\<close>

function build_kids :: "git_lib \<Rightarrow> (string \<times> tnode) list \<Rightarrow> gitdir \<Rightarrow> tree_entry list \<times> gitdir" where
  "build_kids L [] gd = ([], gd)"
| "build_kids L ((nm, c) # cs) gd =
     (if leaf c \<noteq> None \<and> kids c = [] then
        (let (es, gd') = build_kids L cs gd
         in (\<lparr>te_mode = fst (the (leaf c)), te_path = nm, te_type = Blob, te_oid = snd (the (leaf c))\<rparr> # es, gd'))
      else
        (let (sub, gd1) = build_kids L (sort_key fst (kids c)) gd;
             (i, gd2) = writeObject L gd1 ''tree'' (enc_tree L sub);
             (es, gd3) = build_kids L cs gd2
         in (\<lparr>te_mode = ''040000'', te_path = nm, te_type = Tree, te_oid = i\<rparr> # es, gd3)))"
  by pat_completeness auto
termination
proof (relation "measure (\<lambda>(L, cs, gd). size_list (size_prod (\<lambda>_. 0) size) cs)")
  fix L nm c cs gd
  show "((L, sort_key fst (kids c), gd), L, (nm, c) # cs, gd) \<in>
      measure (\<lambda>(L, cs, gd). size_list (size_prod (\<lambda>_. 0) size) cs)"
    by (cases c) simp
qed auto

definition writeTreeFromFlat :: "git_lib \<Rightarrow> gitdir \<Rightarrow> file_entry list \<Rightarrow> oid \<times> gitdir" where
  "writeTreeFromFlat L gd es =
     (let (top, gd') = build_kids L (sort_key fst (kids (nest es))) gd
      in writeObject L gd' ''tree'' (enc_tree L top))"

text \<open>
  The tree object of a set of files does not depend on the order in which they are listed: two
  devices that agree on the files store the same objects and get the same id.
\<close>

theorem writeTree_order_independent:
  assumes "mset es = mset es'" and "distinct (map f_path es)"
  shows "writeTreeFromFlat L gd es = writeTreeFromFlat L gd es'"
proof -
  have "inj_on f_path (set es)" using assms(2) by (simp add: distinct_map)
  moreover have "mset es = mset (sort_key f_path es')" using assms(1) by simp
  ultimately have "sort_key f_path es = sort_key f_path es'"
    by (intro sort_key_inj_key_eq) auto
  then show ?thesis by (simp add: writeTreeFromFlat_def nest_def)
qed

subsection \<open>Reading\<close>

text \<open>
  The recursive walk as a work list of entries still to visit, each with the path of its directory:
  a subdirectory puts its own entries in front.
\<close>

definition parse_tree :: "git_lib \<Rightarrow> string \<times> bytes \<Rightarrow> err + tree_entry list" where
  "parse_tree L tc =
     (if fst tc = ''tree''
      then (case dec_tree L (snd tc) of Some es \<Rightarrow> Inr es | None \<Rightarrow> Inl (Thrown ''malformed tree''))
      else Inl (Code ''ObjectTypeError''))"

text \<open>
  \<^verbatim>\<open>git.readTree\<close> takes the id of a tree, or that of a commit, which stands for its tree.  (It also
  follows annotated tags; the program stores none.)
\<close>

definition read_tree :: "git_lib \<Rightarrow> gitdir \<Rightarrow> oid \<Rightarrow> err + tree_entry list" where
  "read_tree L gd i =
     (case readObject gd i of
        Some (ty, c) \<Rightarrow>
          if ty = ''commit'' then
            (case dec_commit L c of
               None \<Rightarrow> Inl (Thrown ''malformed commit'')
             | Some co \<Rightarrow>
                 (case readObject gd (c_tree co) of
                    None \<Rightarrow> Inl (Code ''NotFoundError'')
                  | Some tc \<Rightarrow> parse_tree L tc))
          else parse_tree L (ty, c)
      | None \<Rightarrow> Inl (Code ''NotFoundError''))"

definition join_path :: "string \<Rightarrow> string \<Rightarrow> string" where
  "join_path pre nm = (if pre = '''' then nm else pre @ ''/'' @ nm)"

partial_function (option) flat_walk ::
  "git_lib \<Rightarrow> gitdir \<Rightarrow> (string \<times> tree_entry) list \<Rightarrow> flat_tree \<Rightarrow> (err + flat_tree) option" where
  "flat_walk L gd todo out =
     (if todo = [] then Some (Inr out)
      else
        (let (pre, e) = hd todo; p = join_path pre (te_path e);
             out' = aput p \<lparr>fe_oid = te_oid e, fe_mode = te_mode e, fe_type = te_type e\<rparr> out
         in if te_type e = Tree
            then (if isl (read_tree L gd (te_oid e)) then Some (Inl (projl (read_tree L gd (te_oid e))))
                  else flat_walk L gd (map (Pair p) (projr (read_tree L gd (te_oid e))) @ tl todo) out')
            else flat_walk L gd (tl todo) out'))"

definition readFlatTree :: "git_lib \<Rightarrow> gitdir \<Rightarrow> oid \<Rightarrow> (err + flat_tree) option" where
  "readFlatTree L gd i =
     (case read_tree L gd i of Inl e \<Rightarrow> Some (Inl e) | Inr es \<Rightarrow> flat_walk L gd (map (Pair '''') es) [])"

lemma flat_walk_Nil: "flat_walk L gd [] out = Some (Inr out)"
  by (simp add: flat_walk.simps)

lemma flat_walk_Blob:
  "te_type e = Blob \<Longrightarrow> flat_walk L gd ((pre, e) # todo) out =
     flat_walk L gd todo (aput (join_path pre (te_path e)) \<lparr>fe_oid = te_oid e, fe_mode = te_mode e, fe_type = Blob\<rparr> out)"
  by (rule trans [OF flat_walk.simps]) simp

lemma flat_walk_Tree:
  "te_type e = Tree \<Longrightarrow> read_tree L gd (te_oid e) = Inr es \<Longrightarrow>
     flat_walk L gd ((pre, e) # todo) out =
     flat_walk L gd (map (Pair (join_path pre (te_path e))) es @ todo)
       (aput (join_path pre (te_path e)) \<lparr>fe_oid = te_oid e, fe_mode = te_mode e, fe_type = Tree\<rparr> out)"
  by (rule trans [OF flat_walk.simps]) (simp add: Let_def)

subsection \<open>The round trip\<close>

text \<open>What a node holds at a list of names: nothing, a directory, or a file.\<close>

definition is_file :: "tnode \<Rightarrow> bool" where
  "is_file c \<longleftrightarrow> leaf c \<noteq> None \<and> kids c = []"

fun kind_at :: "string list \<Rightarrow> (string \<times> tnode) list \<Rightarrow> (string \<times> oid) option option" where
  "kind_at [] ks = None"
| "kind_at (s # r) ks =
     (case map_of ks s of
        None \<Rightarrow> None
      | Some c \<Rightarrow>
          if r = [] then Some (if is_file c then leaf c else None)
          else if is_file c then None else kind_at r (kids c))"

definition name_ok :: "string \<Rightarrow> bool" where
  "name_ok s \<longleftrightarrow> s \<noteq> '''' \<and> CHR ''/'' \<notin> set s"

fun named :: "tnode \<Rightarrow> bool" where
  "named (TNode lf ch) \<longleftrightarrow>
     distinct (map fst ch) \<and> list_all (\<lambda>(nm, c). name_ok nm \<and> named c) ch"

lemma named_iff: "named n \<longleftrightarrow> distinct (map fst (kids n)) \<and> (\<forall>(nm, c) \<in> set (kids n). name_ok nm \<and> named c)"
  by (cases n) (auto simp: list_all_iff)

lemma set_aputD: "(a, b) \<in> set (aput k v xs) \<Longrightarrow> (a, b) = (k, v) \<or> (a, b) \<in> set xs"
  by (induction k v xs rule: aput.induct) (auto split: if_splits)

lemma named_tput: "named n \<Longrightarrow> list_all name_ok segs \<Longrightarrow> named (tput segs e n)"
proof (induction segs e n rule: tput.induct)
  case (2 s e n)
  then have "\<forall>(nm, c) \<in> set (aput s (TNode (Some e) []) (kids n)). name_ok nm \<and> named c"
    by (auto simp: named_iff [of n] dest!: set_aputD)
  moreover have "distinct (map fst (aput s (TNode (Some e) []) (kids n)))"
    using distinct_aput [of "kids n" s] 2 by (simp add: named_iff [of n] akeys_def)
  ultimately show ?case by (simp add: list_all_iff)
next
  case (3 s t r e n)
  let ?c = "case map_of (kids n) s of None \<Rightarrow> TNode None [] | Some c \<Rightarrow> c"
  have "named ?c" using 3(2) by (auto simp: named_iff [of n] split: option.splits dest!: map_of_SomeD)
  then have "named (tput (t # r) e ?c)" using 3(1,3) by simp
  then have "\<forall>(nm, c) \<in> set (aput s (tput (t # r) e ?c) (kids n)). name_ok nm \<and> named c"
    using 3(2,3) by (auto simp: named_iff [of n] dest!: set_aputD)
  moreover have "distinct (map fst (aput s (tput (t # r) e ?c) (kids n)))"
    using distinct_aput [of "kids n" s] 3(2) by (simp add: named_iff [of n] akeys_def)
  ultimately show ?case by (simp add: list_all_iff)
qed simp

lemma aput_not_Nil [simp]: "aput k v xs \<noteq> []"
  by (induction k v xs rule: aput.induct) auto

lemma tput_kids: "segs \<noteq> [] \<Longrightarrow> kids (tput segs e n) \<noteq> []"
  by (induction segs e n rule: tput.induct) auto

lemma kind_at_tput:
  assumes "segs \<noteq> []"
    and "\<And>q r. segs = q @ r \<Longrightarrow> r \<noteq> [] \<Longrightarrow> kind_at q (kids n) = None \<or> kind_at q (kids n) = Some None"
    and "kind_at segs (kids n) \<noteq> Some None"
  shows "kind_at q (kids (tput segs e n)) =
    (if q = segs then Some (Some e)
     else if q \<noteq> [] \<and> strict_prefix q segs then Some None
     else kind_at q (kids n))"
  using assms
proof (induction segs e n arbitrary: q rule: tput.induct)
  case (1 e n)
  then show ?case by simp
next
  case (2 s e n)
  show ?case
  proof (cases q)
    case Nil
    then show ?thesis by simp
  next
    case (Cons a r)
    show ?thesis
    proof (cases "a = s")
      case True
      have "r \<noteq> [] \<Longrightarrow> kind_at (s # r) (kids n) = None"
        using 2(3) by (auto split: option.splits if_splits)
      with True Cons show ?thesis by (auto simp: is_file_def strict_prefix_def)
    next
      case False
      with Cons show ?thesis by (auto simp: strict_prefix_def)
    qed
  qed
next
  case (3 s t r e n)
  let ?c = "case map_of (kids n) s of None \<Rightarrow> TNode None [] | Some c \<Rightarrow> c"
  have nf: "\<not> is_file ?c"
    using 3(3) [of "[s]" "t # r"] by (auto simp: is_file_def split: option.splits)
  have below: "u \<noteq> [] \<Longrightarrow> kind_at (s # u) (kids n) = kind_at u (kids ?c)" for u
    using nf by (cases u) (auto split: option.splits)
  have IH: "kind_at u (kids (tput (t # r) e ?c)) =
    (if u = t # r then Some (Some e) else if u \<noteq> [] \<and> strict_prefix u (t # r) then Some None
     else kind_at u (kids ?c))" for u
  proof (rule 3(1))
    show "t # r \<noteq> []" by simp
    show "kind_at q (kids ?c) = None \<or> kind_at q (kids ?c) = Some None" if "t # r = q @ r'" "r' \<noteq> []" for q r'
      using 3(3) [of "s # q" r'] that below [of q] by (cases "q = []") auto
    show "kind_at (t # r) (kids ?c) \<noteq> Some None" using 3(4) below [of "t # r"] by simp
  qed
  have dir: "\<not> is_file (tput (t # r) e ?c)" using tput_kids [of "t # r"] by (simp add: is_file_def)
  show ?case
  proof (cases q)
    case Nil
    then show ?thesis by simp
  next
    case (Cons a u)
    show ?thesis
    proof (cases "a = s")
      case True
      then show ?thesis using Cons dir IH [of u] below [of u]
        by (cases "u = []") (auto simp: strict_prefix_def)
    next
      case False
      with Cons show ?thesis by (auto simp: strict_prefix_def)
    qed
  qed
qed

text \<open>The stored objects below a name, and the entry that names them.\<close>

inductive stored :: "git_lib \<Rightarrow> gitdir \<Rightarrow> string \<times> tnode \<Rightarrow> tree_entry \<Rightarrow> bool" for L gd where
  st_file: "is_file c \<Longrightarrow> leaf c = Some (m, i) \<Longrightarrow>
    stored L gd (nm, c) \<lparr>te_mode = m, te_path = nm, te_type = Blob, te_oid = i\<rparr>"
| st_dir: "\<not> is_file c \<Longrightarrow> read_tree L gd i = Inr es \<Longrightarrow> mset es = mset sub \<Longrightarrow>
    list_all2 (stored L gd) (sort_key fst (kids c)) sub \<Longrightarrow>
    stored L gd (nm, c) \<lparr>te_mode = ''040000'', te_path = nm, te_type = Tree, te_oid = i\<rparr>"

inductive_cases stored_cases: "stored L gd (nm, c) e"

text \<open>
  What the code needs of the libraries: decoding an encoded tree gives its entries back (in git's
  own order), and objects of different type or content get different ids.  Both are idealised in the
  same way: with ids that are never shared the set of ids is infinite, so the codec is asked for over
  any ids, and not only over the 40 digits of a SHA-1.
\<close>

definition tree_codec :: "git_lib \<Rightarrow> bool" where
  "tree_codec L \<longleftrightarrow> (\<forall>es. \<exists>es'. dec_tree L (enc_tree L es) = Some es' \<and> mset es' = mset es)"

definition collision_free :: "git_lib \<Rightarrow> bool" where
  "collision_free L \<longleftrightarrow> (\<forall>ty \<in> {''blob'', ''tree'', ''commit''}. \<forall>ty' \<in> {''blob'', ''tree'', ''commit''}.
     \<forall>c c'. objectOid L ty c = objectOid L ty' c' \<longrightarrow> ty = ty' \<and> c = c')"

definition typed :: "git_lib \<Rightarrow> gitdir \<Rightarrow> bool" where
  "typed L gd \<longleftrightarrow> self_named L gd \<and>
     (\<forall>i ty c. readObject gd i = Some (ty, c) \<longrightarrow> ty \<in> {''blob'', ''tree'', ''commit''})"

lemma writeObject_stores:
  assumes t: "typed L gd" and cf: "collision_free L" and ty: "ty \<in> {''blob'', ''tree'', ''commit''}"
    and w: "writeObject L gd ty c = (i, gd')"
  shows "typed L gd'" "grows gd gd'" "readObject gd' i = Some (ty, c)"
proof -
  from w have gd': "gd' = importLooseObjectAtomic gd ty c i" and i: "i = objectOid L ty c"
    by (auto simp: writeObject_def Let_def)
  show "grows gd gd'" unfolding gd' grows_def using import_keeps by blast
  have "self_named L gd'" unfolding gd' using t i by (intro import_self_named) (simp_all add: typed_def)
  then show "typed L gd'" using t ty unfolding typed_def gd' by (auto simp: readObject_import split: if_splits)
  show "readObject gd' i = Some (ty, c)"
  proof (cases "readObject gd i")
    case None
    then show ?thesis by (simp add: gd' readObject_import hasObject_def)
  next
    case (Some v)
    obtain ty' c' where v: "v = (ty', c')" by force
    with Some t have "i = objectOid L ty' c'" "ty' \<in> {''blob'', ''tree'', ''commit''}"
      unfolding typed_def self_named_def by blast+
    with i ty cf have "ty = ty' \<and> c = c'" unfolding collision_free_def by blast
    with Some v show ?thesis by (simp add: gd' readObject_import hasObject_def)
  qed
qed

lemma read_tree_grows: "grows gd gd' \<Longrightarrow> read_tree L gd i = Inr es \<Longrightarrow> read_tree L gd' i = Inr es"
  by (auto simp: read_tree_def grows_def split: option.splits if_splits)

lemma read_tree_tree:
  "readObject gd i = Some (''tree'', c) \<Longrightarrow> dec_tree L c = Some es \<Longrightarrow> read_tree L gd i = Inr es"
  by (simp add: read_tree_def parse_tree_def)

lemma stored_grows:
  assumes "grows gd gd'"
  shows "stored L gd k e \<Longrightarrow> stored L gd' k e"
proof (induction rule: stored.induct)
  case (st_file c m i nm)
  then show ?case by (rule stored.st_file)
next
  case (st_dir c i es sub nm)
  have "list_all2 (stored L gd') (sort_key fst (kids c)) sub"
    using st_dir(4) by (rule list_all2_mono) simp
  with st_dir(1,3) read_tree_grows [OF assms st_dir(2)] show ?case by (intro stored.st_dir)
qed

lemma stored_list_grows:
  "grows gd gd' \<Longrightarrow> list_all2 (stored L gd) ks es \<Longrightarrow> list_all2 (stored L gd') ks es"
  by (auto elim: list_all2_mono stored_grows)

lemma build_kids_stored:
  "tree_codec L \<Longrightarrow> collision_free L \<Longrightarrow> typed L gd \<Longrightarrow> build_kids L ks gd = (es, gd') \<Longrightarrow>
    typed L gd' \<and> grows gd gd' \<and> list_all2 (stored L gd') ks es"
proof (induction L ks gd arbitrary: es gd' rule: build_kids.induct [case_names Nil Cons])
  case (Nil L gd)
  then show ?case by simp
next
  case (Cons L nm c cs gd)
  show ?case
  proof (cases "leaf c \<noteq> None \<and> kids c = []")
    case True
    obtain es1 gd1 where b: "build_kids L cs gd = (es1, gd1)" by force
    obtain m i where l: "leaf c = Some (m, i)" using True by force
    from Cons.IH(1) [OF True Cons.prems(1-3) b] have "typed L gd1" "grows gd gd1" "list_all2 (stored L gd1) cs es1"
      by auto
    moreover have "stored L gd1 (nm, c) \<lparr>te_mode = m, te_path = nm, te_type = Blob, te_oid = i\<rparr>"
      using True l by (intro stored.st_file) (simp_all add: is_file_def)
    ultimately show ?thesis using Cons.prems(4) True b l by auto
  next
    case False
    obtain sub gd1 where b1: "build_kids L (sort_key fst (kids c)) gd = (sub, gd1)" by force
    obtain i gd2 where w: "writeObject L gd1 ''tree'' (enc_tree L sub) = (i, gd2)" by force
    obtain es3 gd3 where b3: "build_kids L cs gd2 = (es3, gd3)" by force
    from Cons.IH(2) [OF False Cons.prems(1-3) b1] have 1: "typed L gd1" "grows gd gd1"
      "list_all2 (stored L gd1) (sort_key fst (kids c)) sub" by auto
    note w' = writeObject_stores [OF 1(1) Cons.prems(2) _ w, simplified]
    from Cons.IH(3) [OF False b1 [symmetric] refl w [symmetric] refl Cons.prems(1,2) w'(1) b3]
    have 3: "typed L gd3" "grows gd2 gd3" "list_all2 (stored L gd3) cs es3" by auto
    have g: "grows gd1 gd3" using w'(2) 3(2) by (rule grows_trans)
    obtain sub' where c: "dec_tree L (enc_tree L sub) = Some sub'" "mset sub' = mset sub"
      using Cons.prems(1) by (auto simp: tree_codec_def)
    have "readObject gd3 i = Some (''tree'', enc_tree L sub)" using w'(3) 3(2) by (simp add: grows_def)
    then have "read_tree L gd3 i = Inr sub'" using c(1) by (rule read_tree_tree)
    then have "stored L gd3 (nm, c) \<lparr>te_mode = ''040000'', te_path = nm, te_type = Tree, te_oid = i\<rparr>"
      using False c(2) stored_list_grows [OF g 1(3)] by (intro stored.st_dir [where es = sub' and sub = sub]) (auto simp: is_file_def)
    moreover have "es = \<lparr>te_mode = ''040000'', te_path = nm, te_type = Tree, te_oid = i\<rparr> # es3 \<and> gd' = gd3"
      using Cons.prems(4) False b1 w b3 by auto
    ultimately show ?thesis using 3 grows_trans [OF 1(2) g] by simp
  qed
qed


definition flat_kind :: "flat_entry \<Rightarrow> (string \<times> oid) option" where
  "flat_kind e = (if fe_type e = Tree then None else Some (fe_mode e, fe_oid e))"

definition kinds :: "flat_tree \<Rightarrow> string \<Rightarrow> (string \<times> oid) option option" where
  "kinds out p = map_option flat_kind (map_of out p)"

text \<open>What the kids with the given names contribute below a directory.\<close>

definition below :: "string list \<Rightarrow> string set \<Rightarrow> (string \<times> tnode) list \<Rightarrow> string
    \<Rightarrow> (string \<times> oid) option option" where
  "below ps N ks p =
     (let q = split_on CHR ''/'' p; r = drop (length ps) q
      in if take (length ps) q = ps \<and> r \<noteq> [] \<and> hd r \<in> N then kind_at r ks else None)"

definition over :: "'a option \<Rightarrow> 'a option \<Rightarrow> 'a option" where
  "over x y = (case x of None \<Rightarrow> y | Some k \<Rightarrow> Some k)"

lemma join_snoc:
  assumes "list_all name_ok ps" and "name_ok nm"
  shows "join_path (join_with CHR ''/'' ps) nm = join_with CHR ''/'' (ps @ [nm])"
proof -
  have "join_with CHR ''/'' (xs @ [nm]) = (if xs = [] then nm else join_with CHR ''/'' xs @ CHR ''/'' # nm)" for xs
    by (induction xs rule: join_with.induct [of _ "CHR ''/''"]) (auto simp: join_with_Cons)
  moreover have "ps \<noteq> [] \<Longrightarrow> join_with CHR ''/'' ps \<noteq> ''''"
    using assms(1) by (cases ps; cases "tl ps") (auto simp: name_ok_def)
  ultimately show ?thesis by (auto simp: join_path_def)
qed

lemma split_names: "list_all name_ok ps \<Longrightarrow> ps \<noteq> [] \<Longrightarrow> split_on CHR ''/'' (join_with CHR ''/'' ps) = ps"
  by (rule split_join) (auto simp: list_all_iff name_ok_def)

lemma key_eq:
  assumes "list_all name_ok (ps @ [nm])"
  shows "p = join_with CHR ''/'' (ps @ [nm]) \<longleftrightarrow> split_on CHR ''/'' p = ps @ [nm]"
  using assms split_names [of "ps @ [nm]"] by (metis join_split snoc_eq_iff_butlast)

definition reads_as ::
  "git_lib \<Rightarrow> gitdir \<Rightarrow> string list \<Rightarrow> tree_entry list \<Rightarrow> string set \<Rightarrow> (string \<times> tnode) list \<Rightarrow> bool" where
  "reads_as L gd ps es N ks \<longleftrightarrow>
     (\<forall>todo out. \<exists>out'. flat_walk L gd (map (Pair (join_with CHR ''/'' ps)) es @ todo) out = flat_walk L gd todo out' \<and>
        (\<forall>p. kinds out' p = over (below ps N ks p) (kinds out p)))"

lemma reads_as_list:
  assumes "distinct (map fst ks)"
    and "\<And>x. x \<in> set es \<Longrightarrow> \<exists>c. (te_path x, c) \<in> set ks \<and> reads_as L gd ps [x] {te_path x} [(te_path x, c)]"
  shows "reads_as L gd ps es (te_path ` set es) ks"
  using assms(2)
proof (induction es)
  case Nil
  show ?case by (auto simp: reads_as_def below_def over_def Let_def)
next
  case (Cons x es)
  then obtain c where c: "(te_path x, c) \<in> set ks" "reads_as L gd ps [x] {te_path x} [(te_path x, c)]" by force
  have m: "map_of ks (te_path x) = Some c" using c(1) assms(1) by simp
  have b: "over (below ps (te_path ` set es) ks p) (over (below ps {te_path x} [(te_path x, c)] p) k) =
      over (below ps (te_path ` set (x # es)) ks p) k" for p k
  proof -
    let ?r = "drop (length ps) (split_on CHR ''/'' p)"
    have "hd ?r = te_path x \<Longrightarrow> ?r \<noteq> [] \<Longrightarrow> kind_at ?r [(te_path x, c)] = kind_at ?r ks"
      using m by (cases ?r) auto
    then show ?thesis by (auto simp: below_def over_def Let_def split: option.splits)
  qed
  have IH: "reads_as L gd ps es (te_path ` set es) ks" using Cons by simp
  show ?case unfolding reads_as_def
  proof (intro allI)
    fix todo out
    obtain o1 where o1: "flat_walk L gd ((join_with CHR ''/'' ps, x) # map (Pair (join_with CHR ''/'' ps)) es @ todo) out =
        flat_walk L gd (map (Pair (join_with CHR ''/'' ps)) es @ todo) o1"
      "\<And>p. kinds o1 p = over (below ps {te_path x} [(te_path x, c)] p) (kinds out p)"
      using c(2) [unfolded reads_as_def, rule_format, of "map (Pair (join_with CHR ''/'' ps)) es @ todo" out] by auto
    obtain o2 where "flat_walk L gd (map (Pair (join_with CHR ''/'' ps)) es @ todo) o1 = flat_walk L gd todo o2"
      "\<And>p. kinds o2 p = over (below ps (te_path ` set es) ks p) (kinds o1 p)"
      using IH [unfolded reads_as_def, rule_format, of todo o1] by auto
    with o1 b show "\<exists>out'. flat_walk L gd (map (Pair (join_with CHR ''/'' ps)) (x # es) @ todo) out =
        flat_walk L gd todo out' \<and>
        (\<forall>p. kinds out' p = over (below ps (te_path ` set (x # es)) ks p) (kinds out p))"
      by (intro exI [of _ o2]) simp
  qed
qed

lemma kinds_aput: "kinds (aput k e out) p = (if p = k then Some (flat_kind e) else kinds out p)"
  by (simp add: kinds_def)

lemma below_snoc:
  assumes "\<not> is_file c" and N: "N = fst ` set (kids c)" and ok: "list_all name_ok (ps @ [nm])"
  shows "over (below (ps @ [nm]) N (kids c) p)
      (if p = join_with CHR ''/'' (ps @ [nm]) then Some None else k) = over (below ps {nm} [(nm, c)] p) k"
proof (cases "take (length ps) (split_on CHR ''/'' p) = ps")
  case True
  then obtain r where q: "split_on CHR ''/'' p = ps @ r" by (metis append_take_drop_id)
  have none: "map_of (kids c) s = None \<longleftrightarrow> s \<notin> N" for s unfolding N by (simp add: map_of_eq_None_iff)
  show ?thesis
  proof (cases "r = [] \<or> hd r \<noteq> nm")
    case True
    then show ?thesis using key_eq [OF ok, of p] q by (cases r) (auto simp: below_def over_def Let_def)
  next
    case False
    then obtain u where u: "r = nm # u" by (cases r) auto
    have t: "take (length ps) u = u \<or> True" by simp
    show ?thesis
    proof (cases u)
      case Nil
      then show ?thesis using key_eq [OF ok, of p] q u assms(1) by (simp add: below_def over_def Let_def)
    next
      case (Cons s v)
      have "p \<noteq> join_with CHR ''/'' (ps @ [nm])" using key_eq [OF ok, of p] q u Cons by simp
      moreover have "s \<notin> N \<Longrightarrow> kind_at (s # v) (kids c) = None" using none [of s] by simp
      ultimately show ?thesis using q u Cons assms(1)
        by (auto simp: below_def over_def Let_def simp del: kind_at.simps(2) split: option.splits)
          (simp_all)
    qed
  qed
next
  case False
  then have "p \<noteq> join_with CHR ''/'' (ps @ [nm])" "take (Suc (length ps)) (split_on CHR ''/'' p) \<noteq> ps @ [nm]"
    using key_eq [OF ok, of p] by (auto dest: arg_cong [where f = "take (length ps)"])
  with False show ?thesis by (simp add: below_def over_def Let_def)
qed

lemma stored_reads:
  "stored L gd k e \<Longrightarrow> name_ok (fst k) \<Longrightarrow> named (snd k) \<Longrightarrow> list_all name_ok ps \<Longrightarrow>
     te_path e = fst k \<and> reads_as L gd ps [e] {fst k} [k]"
proof (induction arbitrary: ps rule: stored.induct)
  case (st_file c m i nm)
  then have ok: "list_all name_ok (ps @ [nm])" by simp
  have "below ps {nm} [(nm, c)] p = (if p = join_with CHR ''/'' (ps @ [nm]) then Some (Some (m, i)) else None)" for p
  proof (cases "take (length ps) (split_on CHR ''/'' p) = ps")
    case True
    then obtain r where q: "split_on CHR ''/'' p = ps @ r" by (metis append_take_drop_id)
    show ?thesis unfolding key_eq [OF ok]
      using q st_file(1,2) by (cases r) (auto simp: below_def Let_def)
  next
    case False
    then show ?thesis unfolding key_eq [OF ok] by (auto simp: below_def Let_def)
  qed
  then show ?case
    using st_file join_snoc [of ps nm]
    by (auto simp: reads_as_def flat_walk_Blob kinds_aput flat_kind_def over_def)
next
  case (st_dir c i es sub nm)
  have ok: "list_all name_ok (ps @ [nm])" using st_dir.prems by simp
  have nc: "distinct (map fst (kids c))" "\<And>nm' c'. (nm', c') \<in> set (kids c) \<Longrightarrow> name_ok nm' \<and> named c'"
    using st_dir.prems(2) by (auto simp: named_iff [of c])
  have sub: "\<exists>c'. (te_path x, c') \<in> set (kids c) \<and> reads_as L gd (ps @ [nm]) [x] {te_path x} [(te_path x, c')]"
    if "x \<in> set es" for x
  proof -
    have "x \<in> set sub" using that st_dir.hyps(3) by (metis set_mset_mset)
    then obtain j where j: "j < length sub" "x = sub ! j" by (auto simp: in_set_conv_nth)
    obtain nm' c' where k: "sort_key fst (kids c) ! j = (nm', c')" by force
    have len: "length (sort_key fst (kids c)) = length sub" using st_dir.IH by (auto dest: list_all2_lengthD)
    then have m: "(nm', c') \<in> set (kids c)" using k j(1) by (metis nth_mem set_sort)
    have "te_path x = nm' \<and> reads_as L gd (ps @ [nm]) [x] {nm'} [(nm', c')]"
      using list_all2_nthD2 [OF st_dir.IH j(1)] nc(2) [OF m] ok j(2) k by auto
    with m show ?thesis by auto
  qed
  have N: "te_path ` set es = fst ` set (kids c)"
  proof -
    have "list_all2 (\<lambda>k x. te_path x = fst k) (sort_key fst (kids c)) sub"
    proof (rule list_all2_all_nthI)
      show "length (sort_key fst (kids c)) = length sub" using st_dir.IH by (rule list_all2_lengthD)
      fix j assume j: "j < length (sort_key fst (kids c))"
      then have "sort_key fst (kids c) ! j \<in> set (kids c)" by (metis nth_mem set_sort)
      then have "name_ok (fst (sort_key fst (kids c) ! j)) \<and> named (snd (sort_key fst (kids c) ! j))"
        using nc(2) by (metis prod.collapse)
      with list_all2_nthD [OF st_dir.IH j] st_dir.prems(3)
      show "te_path (sub ! j) = fst (sort_key fst (kids c) ! j)" by blast
    qed
    then have "map te_path sub = map fst (sort_key fst (kids c))"
      by (induction rule: list_all2_induct) auto
    then have "set (map te_path sub) = set (map fst (sort_key fst (kids c)))" by simp
    moreover have "set es = set sub" using st_dir.hyps(3) by (metis set_mset_mset)
    ultimately show ?thesis by simp
  qed
  have r: "reads_as L gd (ps @ [nm]) es (fst ` set (kids c)) (kids c)"
    using reads_as_list [OF nc(1) sub, of es] unfolding N by blast
  have "reads_as L gd ps [\<lparr>te_mode = ''040000'', te_path = nm, te_type = Tree, te_oid = i\<rparr>] {nm} [(nm, c)]"
    unfolding reads_as_def
  proof (intro allI)
    fix todo out
    let ?p = "join_with CHR ''/'' (ps @ [nm])"
    let ?d = "\<lparr>fe_oid = i, fe_mode = ''040000'', fe_type = Tree\<rparr>"
    obtain o1 where o1: "flat_walk L gd (map (Pair ?p) es @ todo) (aput ?p ?d out) = flat_walk L gd todo o1"
      "\<And>p. kinds o1 p = over (below (ps @ [nm]) (fst ` set (kids c)) (kids c) p) (kinds (aput ?p ?d out) p)"
      using r [unfolded reads_as_def] by blast
    have "kinds (aput ?p ?d out) p = (if p = ?p then Some None else kinds out p)" for p
      by (simp add: kinds_aput flat_kind_def)
    with o1 below_snoc [OF st_dir.hyps(1) refl ok] join_snoc [of ps nm] st_dir.prems st_dir.hyps(2)
    show "\<exists>out'. flat_walk L gd (map (Pair (join_with CHR ''/'' ps))
          [\<lparr>te_mode = ''040000'', te_path = nm, te_type = Tree, te_oid = i\<rparr>] @ todo) out = flat_walk L gd todo out' \<and>
        (\<forall>p. kinds out' p = over (below ps {nm} [(nm, c)] p) (kinds out p))"
      by (intro exI [of _ o1]) (simp add: flat_walk_Tree)
  qed
  then show ?case by simp
qed


subsection \<open>The table of a nested set of files\<close>

definition segs :: "file_entry \<Rightarrow> string list" where
  "segs e = split_on CHR ''/'' (f_path e)"

text \<open>Files that can lie in one tree: distinct paths of proper names, none below another.\<close>

definition closed_files :: "file_entry list \<Rightarrow> bool" where
  "closed_files es \<longleftrightarrow> distinct (map f_path es) \<and>
     list_all (\<lambda>e. list_all name_ok (split_on CHR ''/'' (f_path e)) \<and>
       list_all (\<lambda>e'. f_path e \<notin> set (dir_prefixes (f_path e'))) es) es"

lemma split_on_sep: "split_on c (x @ c # y) = split_on c x @ split_on c y"
  by (induction x) (auto split: list.splits)

lemma prefix_segs: "q \<in> set (dir_prefixes p) \<longleftrightarrow> strict_prefix (split_on CHR ''/'' q) (split_on CHR ''/'' p)"
proof
  assume "q \<in> set (dir_prefixes p)"
  then obtain r where "p = q @ CHR ''/'' # r" by (auto simp: in_dir_prefixes)
  then show "strict_prefix (split_on CHR ''/'' q) (split_on CHR ''/'' p)"
    by (auto simp: split_on_sep strict_prefix_def)
next
  assume "strict_prefix (split_on CHR ''/'' q) (split_on CHR ''/'' p)"
  then obtain r where r: "split_on CHR ''/'' p = split_on CHR ''/'' q @ r" "r \<noteq> []"
    by (auto simp: strict_prefix_def prefix_def)
  have "join_with c (a @ b) = join_with c a @ c # join_with c b" if "a \<noteq> []" "b \<noteq> []" for a b :: "string list" and c
    using that by (induction c a rule: join_with.induct) (auto simp: join_with_Cons)
  from this [of "split_on CHR ''/'' q" r] r have "p = q @ CHR ''/'' # join_with CHR ''/'' r"
    by (metis join_split split_on_nonempty)
  then show "q \<in> set (dir_prefixes p)" by (auto simp: in_dir_prefixes)
qed

lemma nest_kinds:
  assumes "distinct (map f_path es)"
    and "\<And>e e'. e \<in> set es \<Longrightarrow> e' \<in> set es \<Longrightarrow> \<not> strict_prefix (segs e) (segs e')"
  shows "kind_at q (kids (fold (\<lambda>e. tput (segs e) (f_mode e, f_oid e)) es (TNode None []))) =
    (case find_first (\<lambda>e. segs e = q) es of
       Some e \<Rightarrow> Some (Some (f_mode e, f_oid e))
     | None \<Rightarrow> if q \<noteq> [] \<and> list_ex (\<lambda>e. strict_prefix q (segs e)) es then Some None else None)"
  using assms(1,2)
proof (induction es arbitrary: q rule: rev_induct)
  case Nil
  then show ?case by (cases q) simp_all
next
  case (snoc e es)
  let ?n = "fold (\<lambda>e. tput (segs e) (f_mode e, f_oid e)) es (TNode None [])"
  have seg_inj: "segs a = segs b \<Longrightarrow> f_path a = f_path b" for a b
    unfolding segs_def by (rule split_on_inj)
  have sp: "\<And>e' e''. e' \<in> set (es @ [e]) \<Longrightarrow> e'' \<in> set (es @ [e]) \<Longrightarrow> \<not> strict_prefix (segs e') (segs e'')"
    using snoc.prems(2) by blast
  have IH: "kind_at u (kids ?n) =
    (case find_first (\<lambda>e. segs e = u) es of
       Some e \<Rightarrow> Some (Some (f_mode e, f_oid e))
     | None \<Rightarrow> if u \<noteq> [] \<and> list_ex (\<lambda>e. strict_prefix u (segs e)) es then Some None else None)" for u
    using snoc.IH [of u] snoc.prems by simp
  have new: "find_first (\<lambda>e'. segs e' = segs e) es = None"
  proof -
    have "f_path e \<notin> f_path ` set es" using snoc.prems(1) by simp
    then have "\<forall>x \<in> set es. segs x \<noteq> segs e" using seg_inj by (metis imageI)
    then show ?thesis by simp
  qed
  have t: "kind_at q (kids (tput (segs e) (f_mode e, f_oid e) ?n)) =
    (if q = segs e then Some (Some (f_mode e, f_oid e))
     else if q \<noteq> [] \<and> strict_prefix q (segs e) then Some None
     else kind_at q (kids ?n))"
  proof (rule kind_at_tput)
    show "segs e \<noteq> []" by (simp add: segs_def)
    show "kind_at u (kids ?n) = None \<or> kind_at u (kids ?n) = Some None" if "segs e = u @ r" "r \<noteq> []" for u r
    proof -
      have "strict_prefix u (segs e)" using that by (auto simp: strict_prefix_def)
      then have none: "find_first (\<lambda>e'. segs e' = u) es = None" using sp [of _ e] by auto
      show ?thesis unfolding IH none by simp
    qed
    show "kind_at (segs e) (kids ?n) \<noteq> Some None"
      unfolding IH new using sp [of e] by (auto simp: list_ex_iff)
  qed
  have f: "fold (\<lambda>e. tput (segs e) (f_mode e, f_oid e)) (es @ [e]) (TNode None []) =
      tput (segs e) (f_mode e, f_oid e) ?n" by simp
  consider (same) "q = segs e" | (above) "q \<noteq> segs e" "q \<noteq> []" "strict_prefix q (segs e)"
    | (apart) "q \<noteq> segs e" "q = [] \<or> \<not> strict_prefix q (segs e)" by blast
  then show ?case
  proof cases
    case same
    then show ?thesis unfolding f t by (simp add: find_first_append new)
  next
    case above
    then have none: "find_first (\<lambda>e'. segs e' = q) es = None" using sp [of _ e] by auto
    show ?thesis unfolding f t find_first_append none using above by simp
  next
    case apart
    show ?thesis unfolding f t find_first_append IH [of q] using apart
      by (cases "find_first (\<lambda>e. segs e = q) es") (auto simp del: find_first_None)
  qed
qed

lemma named_nest:
  "list_all (\<lambda>e. list_all name_ok (segs e)) es \<Longrightarrow> named n \<Longrightarrow>
     named (fold (\<lambda>e. tput (segs e) (f_mode e, f_oid e)) es n)"
  by (induction es arbitrary: n) (auto intro: named_tput)

lemma find_first_perm:
  assumes "mset xs = mset ys" and "distinct (map k xs)"
  shows "find_first (\<lambda>x. k x = p) xs = find_first (\<lambda>x. k x = p) ys"
proof -
  have m: "find_first (\<lambda>x. k x = p) zs = map_of (map (\<lambda>x. (k x, x)) zs) p" for zs
    by (induction zs) auto
  have "distinct (map k ys)" using assms by (metis mset_map mset_eq_imp_distinct_iff)
  moreover have "set xs = set ys" using assms(1) by (metis set_mset_mset)
  ultimately show ?thesis unfolding m using assms(2)
    by (intro fun_cong [OF map_of_inject_set [THEN iffD2]]) (simp_all add: o_def)
qed

lemma flat_tree_round_trip':
  assumes lib: "tree_codec L" "collision_free L" and gd: "typed L gd" and es: "closed_files es"
  shows "\<exists>flat. readFlatTree L (snd (writeTreeFromFlat L gd es)) (fst (writeTreeFromFlat L gd es)) =
      Some (Inr flat) \<and>
    (\<forall>p. kinds flat p =
      (case find_first (\<lambda>e. f_path e = p) es of
         Some e \<Rightarrow> Some (Some (f_mode e, f_oid e))
       | None \<Rightarrow> if list_ex (\<lambda>e. p \<in> set (dir_prefixes (f_path e))) es then Some None else None))"
proof -
  let ?n = "nest es" and ?srt = "sort_key f_path es"
  have nest: "?n = fold (\<lambda>e. tput (segs e) (f_mode e, f_oid e)) ?srt (TNode None [])"
    by (simp add: nest_def segs_def)
  have names: "named ?n" unfolding nest
    using es by (intro named_nest) (simp_all add: closed_files_def list_all_iff segs_def)
  then have nk: "distinct (map fst (kids ?n))" "\<And>nm c. (nm, c) \<in> set (kids ?n) \<Longrightarrow> name_ok nm \<and> named c"
    by (auto simp: named_iff [of ?n])
  obtain top gd1 where b: "build_kids L (sort_key fst (kids ?n)) gd = (top, gd1)" by force
  obtain i gd2 where w: "writeObject L gd1 ''tree'' (enc_tree L top) = (i, gd2)" by force
  have wt: "writeTreeFromFlat L gd es = (i, gd2)" by (simp add: writeTreeFromFlat_def b w)
  from build_kids_stored [OF lib gd b] have 1: "typed L gd1" "list_all2 (stored L gd1) (sort_key fst (kids ?n)) top"
    by auto
  note w' = writeObject_stores [OF 1(1) lib(2) _ w, simplified]
  have st: "list_all2 (stored L gd2) (sort_key fst (kids ?n)) top" using stored_list_grows [OF w'(2) 1(2)] .
  obtain top' where t': "dec_tree L (enc_tree L top) = Some top'" "mset top' = mset top"
    using lib(1) by (auto simp: tree_codec_def)
  have rd: "read_tree L gd2 i = Inr top'" using w'(3) t'(1) by (rule read_tree_tree)
  have len: "length (sort_key fst (kids ?n)) = length top" using st by (rule list_all2_lengthD)
  have kid: "sort_key fst (kids ?n) ! j \<in> set (kids ?n)" if "j < length top" for j
    using that len by (metis nth_mem set_sort)
  have all: "te_path (top ! j) = fst (sort_key fst (kids ?n) ! j) \<and>
      reads_as L gd2 [] [top ! j] {fst (sort_key fst (kids ?n) ! j)} [sort_key fst (kids ?n) ! j]"
    if j: "j < length top" for j
  proof -
    let ?k = "sort_key fst (kids ?n) ! j"
    have "name_ok (fst ?k)" "named (snd ?k)" using nk(2) [of "fst ?k" "snd ?k"] kid [OF j] by simp_all
    with stored_reads [of L gd2 ?k "top ! j" "[]"] list_all2_nthD2 [OF st j] show ?thesis by simp
  qed
  have N: "map te_path top = map fst (sort_key fst (kids ?n))"
    using all len by (intro nth_equalityI) auto
  have sub: "\<exists>c. (te_path x, c) \<in> set (kids ?n) \<and> reads_as L gd2 [] [x] {te_path x} [(te_path x, c)]"
    if "x \<in> set top'" for x
  proof -
    have "x \<in> set top" using that t'(2) by (metis set_mset_mset)
    then obtain j where j: "j < length top" "x = top ! j" by (auto simp: in_set_conv_nth)
    obtain nm c where "sort_key fst (kids ?n) ! j = (nm, c)" by force
    with all [OF j(1)] kid [OF j(1)] j(2) show ?thesis by auto
  qed
  have "set (map te_path top) = set (map fst (sort_key fst (kids ?n)))" unfolding N ..
  then have N': "te_path ` set top' = fst ` set (kids ?n)" using t'(2) by (metis list.set_map set_mset_mset set_sort)
  have "reads_as L gd2 [] top' (fst ` set (kids ?n)) (kids ?n)"
    using reads_as_list [OF nk(1) sub, of top'] unfolding N' by blast
  then have "\<exists>flat. flat_walk L gd2 (map (Pair (join_with CHR ''/'' [])) top' @ []) [] = flat_walk L gd2 [] flat \<and>
    (\<forall>p. kinds flat p = over (below [] (fst ` set (kids ?n)) (kids ?n) p) (kinds [] p))"
    unfolding reads_as_def by blast
  then obtain flat where f: "flat_walk L gd2 (map (Pair '''') top') [] = flat_walk L gd2 [] flat"
    "\<And>p. kinds flat p = over (below [] (fst ` set (kids ?n)) (kids ?n) p) (kinds [] p)" by auto
  have top: "below [] (fst ` set (kids ?n)) (kids ?n) p = kind_at (split_on CHR ''/'' p) (kids ?n)" for p
  proof (cases "split_on CHR ''/'' p")
    case (Cons a r)
    have "a \<notin> fst ` set (kids ?n) \<Longrightarrow> map_of (kids ?n) a = None" by (simp add: map_of_eq_None_iff)
    with Cons show ?thesis by (auto simp: below_def Let_def)
  qed simp
  have d: "distinct (map f_path ?srt)" "distinct (map f_path es)"
    using es mset_eq_imp_distinct_iff [of "map f_path ?srt" "map f_path es"] by (simp_all add: closed_files_def)
  have "segs e = split_on CHR ''/'' p \<longleftrightarrow> f_path e = p" for e p
    using split_on_inj by (auto simp: segs_def)
  then have ff: "find_first (\<lambda>e. segs e = split_on CHR ''/'' p) ?srt = find_first (\<lambda>e. f_path e = p) es" for p
    using find_first_perm [OF _ d(2), of ?srt p] by simp
  have np: "\<not> strict_prefix (segs e) (segs e')" if "e \<in> set ?srt" "e' \<in> set ?srt" for e e'
    using that es by (auto simp: closed_files_def list_all_iff segs_def prefix_segs [symmetric])
  have kn: "kind_at (split_on CHR ''/'' p) (kids ?n) = (case find_first (\<lambda>e. f_path e = p) es of
         Some e \<Rightarrow> Some (Some (f_mode e, f_oid e))
       | None \<Rightarrow> if list_ex (\<lambda>e. p \<in> set (dir_prefixes (f_path e))) es then Some None else None)" for p
  proof -
    have "kind_at (split_on CHR ''/'' p) (kids (fold (\<lambda>e. tput (segs e) (f_mode e, f_oid e)) ?srt (TNode None []))) =
      (case find_first (\<lambda>e. segs e = split_on CHR ''/'' p) ?srt of
         Some e \<Rightarrow> Some (Some (f_mode e, f_oid e))
       | None \<Rightarrow> if split_on CHR ''/'' p \<noteq> [] \<and> list_ex (\<lambda>e. strict_prefix (split_on CHR ''/'' p) (segs e)) ?srt
           then Some None else None)"
      by (rule nest_kinds [OF d(1)]) (rule np)
    then show ?thesis unfolding nest ff by (simp only: list_ex_iff prefix_segs segs_def set_sort split_on_nonempty simp_thms not_False_eq_True)
  qed
  have "kinds flat p = (case find_first (\<lambda>e. f_path e = p) es of
         Some e \<Rightarrow> Some (Some (f_mode e, f_oid e))
       | None \<Rightarrow> if list_ex (\<lambda>e. p \<in> set (dir_prefixes (f_path e))) es then Some None else None)" for p
    unfolding f(2) top kn over_def by (simp add: kinds_def split: option.split)
  with wt rd f(1) show ?thesis by (auto simp: readFlatTree_def flat_walk_Nil)
qed

text \<open>
  C9. Writing a set of files and reading the tree back gives the files: the table holds exactly the
  given paths as files, with their ids and modes, and exactly their proper directory prefixes as
  directories.
\<close>

theorem flat_tree_round_trip:
  assumes lib: "tree_codec L" "collision_free L" and gd: "typed L gd" and es: "closed_files es"
  shows "\<exists>flat. readFlatTree L (snd (writeTreeFromFlat L gd es)) (fst (writeTreeFromFlat L gd es)) =
      Some (Inr flat) \<and>
    (\<forall>p. kinds flat p =
      (case find_first (\<lambda>e. f_path e = p) es of
         Some e \<Rightarrow> Some (Some (f_mode e, f_oid e))
       | None \<Rightarrow> if list_ex (\<lambda>e. p \<in> set (dir_prefixes (f_path e))) es then Some None else None))"
  by (rule flat_tree_round_trip' [OF assms])


subsection \<open>The assumptions on the libraries can hold\<close>

text \<open>
  A library that names objects by their content and encodes an entry as four fields, a field as a
  pair of bytes \<open>1, c\<close> per character and a final zero.
\<close>

definition enc_field :: "string \<Rightarrow> bytes" where
  "enc_field s = concat (map (\<lambda>c. [1, word_of_nat (of_char c)]) s) @ [0]"

fun dec_field :: "bytes \<Rightarrow> (string \<times> bytes) option" where
  "dec_field [] = None"
| "dec_field [b] = (if b = 0 then Some ('''', []) else None)"
| "dec_field (b # c # bs) =
     (if b = 0 then Some ('''', c # bs)
      else map_option (\<lambda>(s, r). (char_of (unat c) # s, r)) (dec_field bs))"

definition type_char :: "etype \<Rightarrow> string" where
  "type_char ty = (case ty of Tree \<Rightarrow> ''t'' | Blob \<Rightarrow> ''b'')"

definition enc_entry :: "tree_entry \<Rightarrow> bytes" where
  "enc_entry e = enc_field (te_mode e) @ enc_field (te_path e) @ enc_field (type_char (te_type e)) @
     enc_field (te_oid e)"

fun dec_entries :: "nat \<Rightarrow> bytes \<Rightarrow> tree_entry list option" where
  "dec_entries n [] = Some []"
| "dec_entries 0 (b # bs) = None"
| "dec_entries (Suc n) (b # bs) =
     (case dec_field (b # bs) of
        None \<Rightarrow> None
      | Some (m, r1) \<Rightarrow>
          (case dec_field r1 of
             None \<Rightarrow> None
           | Some (p, r2) \<Rightarrow>
               (case dec_field r2 of
                  None \<Rightarrow> None
                | Some (ty, r3) \<Rightarrow>
                    (case dec_field r3 of
                       None \<Rightarrow> None
                     | Some (i, r4) \<Rightarrow>
                         map_option (Cons \<lparr>te_mode = m, te_path = p,
                             te_type = (if ty = ''t'' then Tree else Blob), te_oid = i\<rparr>)
                           (dec_entries n r4)))))"

definition plain_lib :: git_lib where
  "plain_lib = naming_lib\<lparr>enc_tree := (\<lambda>es. concat (map enc_entry es)),
     dec_tree := (\<lambda>bs. dec_entries (length bs) bs)\<rparr>"

lemma char_byte [simp]: "char_of (unat (word_of_nat (of_char c) :: 8 word)) = c"
  by (simp add: unat_of_nat)

lemma dec_enc_field: "dec_field (enc_field s @ r) = Some (s, r)"
proof (induction s)
  case Nil
  then show ?case by (cases r) (simp_all add: enc_field_def)
next
  case (Cons c s)
  then show ?case by (simp add: enc_field_def)
qed

lemma enc_entry_not_Nil: "\<exists>b bs. enc_entry e = b # bs"
  by (cases "te_mode e") (simp_all add: enc_entry_def enc_field_def)

lemma enc_entries_length: "length es \<le> length (concat (map enc_entry es))"
proof (induction es)
  case (Cons e es)
  then show ?case using enc_entry_not_Nil [of e] by auto
qed simp

lemma dec_enc_entries: "length es \<le> n \<Longrightarrow> dec_entries n (concat (map enc_entry es)) = Some es"
proof (induction es arbitrary: n)
  case Nil
  then show ?case by simp
next
  case (Cons e es)
  then obtain m where n: "n = Suc m" "length es \<le> m" by (cases n) auto
  have step: "dec_entries (Suc m) (enc_field a @ r) =
     (case dec_field r of
        None \<Rightarrow> None
      | Some (p, r2) \<Rightarrow>
          (case dec_field r2 of
             None \<Rightarrow> None
           | Some (ty, r3) \<Rightarrow>
               (case dec_field r3 of
                  None \<Rightarrow> None
                | Some (i, r4) \<Rightarrow>
                    map_option (Cons \<lparr>te_mode = a, te_path = p,
                        te_type = (if ty = ''t'' then Tree else Blob), te_oid = i\<rparr>) (dec_entries m r4))))" for a r
  proof -
    obtain b bs where "enc_field a @ r = b # bs" by (cases a) (simp_all add: enc_field_def)
    with dec_enc_field [of a r] show ?thesis by simp
  qed
  have "dec_entries n (enc_entry e @ concat (map enc_entry es)) = Some (e # es)"
    unfolding n(1) enc_entry_def [of e] append_assoc step
    using Cons.IH [OF n(2)] by (cases e; cases "te_type e") (simp_all add: type_char_def dec_enc_field)
  then show ?case by simp
qed

lemma plain_codec: "tree_codec plain_lib"
  using dec_enc_entries [OF enc_entries_length] by (auto simp: tree_codec_def plain_lib_def)

lemma split_at_zero:
  assumes "xs @ (0::8 word) # c = xs' @ 0 # c'" and "0 \<notin> set xs" "0 \<notin> set xs'"
  shows "xs = xs' \<and> c = c'"
proof -
  have "takeWhile (\<lambda>b. b \<noteq> 0) (ys @ (0::8 word) # d) = ys" if "0 \<notin> set ys" for ys d
    using that by (induction ys) auto
  then have "xs = xs'" using assms by metis
  with assms(1) show ?thesis by simp
qed

lemma dec_str_digits: "c \<in> set (dec_str n) \<Longrightarrow> 48 \<le> (of_char c :: nat) \<and> (of_char c :: nat) \<le> 57"
proof (induction n rule: dec_str.induct)
  case (1 n)
  show ?case
  proof (cases "n < 10")
    case True
    then have "c = char_of (48 + n)" using 1(2) by (simp add: dec_str.simps [of n])
    with True show ?thesis by (simp add: take_bit_eq_mod)
  next
    case False
    then have "c \<in> set (dec_str (n div 10)) \<or> c = char_of (48 + n mod 10)"
      using 1(2) by (auto simp: dec_str.simps [of n])
    then show ?thesis
    proof
      assume "c = char_of (48 + n mod 10)"
      moreover have "n mod 10 < 10" by simp
      ultimately show ?thesis by (simp add: take_bit_eq_mod)
    qed (use 1(1) False in blast)
  qed
qed

lemma ascii_no_zero: "(\<And>c. c \<in> set s \<Longrightarrow> (of_char c :: nat) \<noteq> 0) \<Longrightarrow> 0 \<notin> set (ascii s)"
proof
  assume s: "\<And>c. c \<in> set s \<Longrightarrow> (of_char c :: nat) \<noteq> 0" and "0 \<in> set (ascii s)"
  then obtain c where c: "c \<in> set s" "word_of_nat (of_char c) = (0 :: 8 word)" by (auto simp: ascii_def)
  then have "unat (word_of_nat (of_char c) :: 8 word) = 0" by simp
  then have "(of_char c :: nat) = 0" by (simp add: unat_of_nat)
  with s c(1) show False by blast
qed

lemma ascii_inj: "ascii s = ascii t \<Longrightarrow> s = t"
proof -
  have "map (\<lambda>b. char_of (unat b)) (ascii u) = u" for u by (induction u) (simp_all add: ascii_def)
  then show "ascii s = ascii t \<Longrightarrow> s = t" by metis
qed

lemma plain_collision_free: "collision_free plain_lib"
  unfolding collision_free_def
proof (intro ballI allI impI)
  fix ty ty' :: string and c c' :: bytes
  assume ty: "ty \<in> {''blob'', ''tree'', ''commit''}" "ty' \<in> {''blob'', ''tree'', ''commit''}"
    and eq: "objectOid plain_lib ty c = objectOid plain_lib ty' c'"
  have "inj (\<lambda>b :: 8 word. char_of (unat b) :: char)"
  proof (rule injI)
    fix a b :: "8 word"
    assume "(char_of (unat a) :: char) = char_of (unat b)"
    then have "of_char (char_of (unat a) :: char) = (of_char (char_of (unat b) :: char) :: nat)" by simp
    moreover have "unat a < 256" "unat b < 256"
      using unsigned_less [of a, where ?'a = nat] unsigned_less [of b, where ?'a = nat] by simp_all
    ultimately have "unat a = unat b" by (simp add: take_bit_eq_mod)
    then show "a = b" by (simp only: word_unat_eq_iff)
  qed
  then have w: "wrap_object ty c = wrap_object ty' c'"
    using eq by (simp add: objectOid_def plain_lib_def naming_lib_def inj_map_eq_map)
  let ?h = "\<lambda>ty c. ascii (ty @ '' '' @ dec_str (length c))"
  have z: "0 \<notin> set (?h ty c)" if "ty \<in> {''blob'', ''tree'', ''commit''}" for ty and c :: bytes
    using that dec_str_digits by (intro ascii_no_zero) fastforce
  from w have "?h ty c @ 0 # c = ?h ty' c' @ 0 # c'" by (simp add: wrap_object_def)
  from split_at_zero [OF this z [OF ty(1)] z [OF ty(2)]] have "?h ty c = ?h ty' c'" "c = c'" by (blast+)
  from ascii_inj [OF this(1)] have "ty = ty'" using ty by auto
  with \<open>c = c'\<close> show "ty = ty' \<and> c = c'" by simp
qed

definition demo_files :: "file_entry list" where
  "demo_files = [\<lparr>f_path = ''b/x'', f_oid = ''1'', f_mode = ''100644''\<rparr>,
     \<lparr>f_path = ''a'', f_oid = ''2'', f_mode = ''100755''\<rparr>,
     \<lparr>f_path = ''b/c/y'', f_oid = ''3'', f_mode = ''100644''\<rparr>]"

theorem flat_tree_round_trip_witness:
  "\<exists>flat. readFlatTree plain_lib (snd (writeTreeFromFlat plain_lib empty_gitdir demo_files))
        (fst (writeTreeFromFlat plain_lib empty_gitdir demo_files)) = Some (Inr flat) \<and>
    (\<forall>p. kinds flat p =
      (case find_first (\<lambda>e. f_path e = p) demo_files of
         Some e \<Rightarrow> Some (Some (f_mode e, f_oid e))
       | None \<Rightarrow> if list_ex (\<lambda>e. p \<in> set (dir_prefixes (f_path e))) demo_files then Some None else None))"
proof (rule flat_tree_round_trip [OF plain_codec plain_collision_free])
  show "typed plain_lib empty_gitdir"
    by (simp add: typed_def self_named_def readObject_def empty_gitdir_def)
  show "closed_files demo_files"
    by (simp add: closed_files_def demo_files_def js_simps name_ok_def)
qed

theorem writeTree_order_independent_witness:
  "writeTreeFromFlat plain_lib empty_gitdir demo_files = writeTreeFromFlat plain_lib empty_gitdir (rev demo_files)"
  by (rule writeTree_order_independent) (simp_all add: demo_files_def)

end
