(* ===== verification/Scheduler.thy ===== *)
theory Scheduler
  imports Store
begin

text \<open>
  The sync scheduler (opendweb-ext-sync, scheduler.mjs): it turns three triggers, a session coming
  online, an interval and debounced local changes, into runs of a group.

  Timers are handles drawn from a counter; the live ones are the pending \<^verbatim>\<open>setInterval\<close> and
  \<^verbatim>\<open>setTimeout\<close> calls.  \<open>fire\<close> is the event loop running the callback of a live timer; a timeout
  is gone once it fired.  A call of the injected \<^verbatim>\<open>run\<close> is an entry of the log \<open>runs\<close>.
\<close>

text \<open>A number as \<^verbatim>\<open>Number.isFinite\<close> sees it.\<close>

datatype jsnum = Finite int | NonFinite

datatype timer = TInterval string | TDebounce string

record sgroup =
  g_interval :: nat
  g_debounce :: "nat option"

record sched =
  intervalMs :: jsnum
  debounceMs :: jsnum
  groups :: "(string \<times> sgroup) list"
  live :: "(nat \<times> timer \<times> jsnum) list"
  next_handle :: nat
  runs :: "(string \<times> string) list"

definition createScheduler :: "jsnum option \<Rightarrow> jsnum option \<Rightarrow> sched" where
  "createScheduler i d =
     \<lparr>intervalMs = (case i of Some x \<Rightarrow> x | None \<Rightarrow> Finite 30000),
      debounceMs = (case d of Some x \<Rightarrow> x | None \<Rightarrow> Finite 2000),
      groups = [], live = [], next_handle = 0, runs = []\<rparr>"

definition set_timer :: "timer \<Rightarrow> jsnum \<Rightarrow> sched \<Rightarrow> nat \<times> sched" where
  "set_timer t ms s =
     (next_handle s, s\<lparr>live := aput (next_handle s) (t, ms) (live s), next_handle := Suc (next_handle s)\<rparr>)"

definition clear_timer :: "nat \<Rightarrow> sched \<Rightarrow> sched" where
  "clear_timer h s = s\<lparr>live := adel h (live s)\<rparr>"

definition schedule :: "string \<Rightarrow> string \<Rightarrow> sched \<Rightarrow> sched" where
  "schedule g trigger s = s\<lparr>runs := runs s @ [(g, trigger)]\<rparr>"

definition start :: "string \<Rightarrow> sched \<Rightarrow> sched" where
  "start g s =
     (if map_of (groups s) g \<noteq> None then s
      else (let (h, s1) = set_timer (TInterval g) (intervalMs s) s
            in schedule g ''start''
                 (s1\<lparr>groups := aput g \<lparr>g_interval = h, g_debounce = None\<rparr> (groups s1)\<rparr>)))"

definition stop :: "string \<Rightarrow> sched \<Rightarrow> sched" where
  "stop g s =
     (case map_of (groups s) g of
        None \<Rightarrow> s
      | Some r \<Rightarrow>
          (let s1 = clear_timer (g_interval r) s;
               s2 = (case g_debounce r of None \<Rightarrow> s1 | Some h \<Rightarrow> clear_timer h s1)
           in s2\<lparr>groups := adel g (groups s2)\<rparr>))"

definition notifyOnline :: "string \<Rightarrow> sched \<Rightarrow> sched" where
  "notifyOnline g s = (if map_of (groups s) g = None then s else schedule g ''online'' s)"

definition notifyLocalChange :: "string \<Rightarrow> sched \<Rightarrow> sched" where
  "notifyLocalChange g s =
     (case map_of (groups s) g of
        None \<Rightarrow> s
      | Some r \<Rightarrow>
          (let s1 = (case g_debounce r of None \<Rightarrow> s | Some h \<Rightarrow> clear_timer h s);
               (h, s2) = set_timer (TDebounce g) (debounceMs s1) s1
           in s2\<lparr>groups := aput g (r\<lparr>g_debounce := Some h\<rparr>) (groups s2)\<rparr>))"

definition dispose :: "sched \<Rightarrow> sched" where
  "dispose s = fold stop (akeys (groups s)) s"

text \<open>Re-arming the interval of one group with the new period.\<close>

definition rearm :: "string \<Rightarrow> sched \<Rightarrow> sched" where
  "rearm g s =
     (case map_of (groups s) g of
        None \<Rightarrow> s
      | Some r \<Rightarrow>
          (let s1 = clear_timer (g_interval r) s; (h, s2) = set_timer (TInterval g) (intervalMs s1) s1
           in s2\<lparr>groups := aput g (r\<lparr>g_interval := h\<rparr>) (groups s2)\<rparr>))"

fun bad_period :: "jsnum \<Rightarrow> bool" where
  "bad_period NonFinite \<longleftrightarrow> True"
| "bad_period (Finite n) \<longleftrightarrow> n \<le> 0"

text \<open>The result is \<^const>\<open>False\<close> when the call throws.\<close>

definition setTiming :: "jsnum option \<Rightarrow> jsnum option \<Rightarrow> sched \<Rightarrow> bool \<times> sched" where
  "setTiming i d s =
     (if (case i of None \<Rightarrow> False | Some x \<Rightarrow> bad_period x) then (False, s)
      else
        (let s1 = (case i of None \<Rightarrow> s
                    | Some x \<Rightarrow> (let s0 = s\<lparr>intervalMs := x\<rparr> in fold rearm (akeys (groups s0)) s0))
         in case d of
              None \<Rightarrow> (True, s1)
            | Some x \<Rightarrow> if bad_period x then (False, s1) else (True, s1\<lparr>debounceMs := x\<rparr>)))"

definition activeGroups :: "sched \<Rightarrow> string list" where
  "activeGroups s = akeys (groups s)"

definition pendingDebounces :: "sched \<Rightarrow> nat" where
  "pendingDebounces s = length (filter (\<lambda>p. g_debounce (snd p) \<noteq> None) (groups s))"

text \<open>The callback of a live timer.\<close>

definition fire :: "nat \<Rightarrow> sched \<Rightarrow> sched" where
  "fire h s =
     (case map_of (live s) h of
        None \<Rightarrow> s
      | Some (TInterval g, _) \<Rightarrow> schedule g ''interval'' s
      | Some (TDebounce g, _) \<Rightarrow>
          (let s1 = clear_timer h s
           in schedule g ''debounce''
                (case map_of (groups s1) g of
                   None \<Rightarrow> s1
                 | Some r \<Rightarrow> s1\<lparr>groups := aput g (r\<lparr>g_debounce := None\<rparr>) (groups s1)\<rparr>)))"

subsection \<open>Every event\<close>

datatype event =
    EStart string
  | EStop string
  | EOnline string
  | EChange string
  | EDispose
  | ETiming "jsnum option" "jsnum option"
  | EFire nat

fun step :: "event \<Rightarrow> sched \<Rightarrow> sched" where
  "step (EStart g) s = start g s"
| "step (EStop g) s = stop g s"
| "step (EOnline g) s = notifyOnline g s"
| "step (EChange g) s = notifyLocalChange g s"
| "step EDispose s = dispose s"
| "step (ETiming i d) s = snd (setTiming i d s)"
| "step (EFire h) s = fire h s"

definition history :: "jsnum option \<Rightarrow> jsnum option \<Rightarrow> event list \<Rightarrow> sched" where
  "history i d es = fold step es (createScheduler i d)"

subsection \<open>The timers belong to the groups\<close>

definition live_set :: "sched \<Rightarrow> (nat \<times> timer) set" where
  "live_set s = {(h, t). \<exists>ms. map_of (live s) h = Some (t, ms)}"

definition owned :: "(string \<times> sgroup) list \<Rightarrow> (nat \<times> timer) set" where
  "owned gs = {(h, t). \<exists>g r. map_of gs g = Some r \<and>
     (t = TInterval g \<and> h = g_interval r \<or> t = TDebounce g \<and> g_debounce r = Some h)}"

text \<open>
  The live timers are exactly one interval per active group and at most one debounce timer per
  active group, and none else.
\<close>

definition sched_inv :: "sched \<Rightarrow> bool" where
  "sched_inv s \<longleftrightarrow> distinct (akeys (groups s)) \<and> distinct (akeys (live s)) \<and>
     (\<forall>h \<in> set (akeys (live s)). h < next_handle s) \<and> live_set s = owned (groups s)"

lemma live_set_handle: "(h, t) \<in> live_set s \<Longrightarrow> (h, t') \<in> live_set s \<Longrightarrow> t = t'"
  by (auto simp: live_set_def)

lemma live_set_clear: "live_set (clear_timer h s) = {(k, t) \<in> live_set s. k \<noteq> h}"
  by (auto simp: live_set_def clear_timer_def split: if_splits)

lemma live_set_new:
  "distinct (akeys (live s)) \<Longrightarrow> \<forall>h \<in> set (akeys (live s)). h < next_handle s \<Longrightarrow>
     live_set (snd (set_timer t ms s)) = insert (next_handle s, t) (live_set s)"
  using map_of_None_akeys [of "live s" "next_handle s"]
  by (auto simp: live_set_def set_timer_def split: if_splits)

lemma owned_put:
  "owned (aput g r gs) = {(h, t) \<in> owned gs. t \<noteq> TInterval g \<and> t \<noteq> TDebounce g} \<union>
     insert (g_interval r, TInterval g) {(h, TDebounce g) | h. g_debounce r = Some h}"
  by (auto simp: owned_def split: if_splits)

lemma owned_del: "owned (adel g gs) = {(h, t) \<in> owned gs. t \<noteq> TInterval g \<and> t \<noteq> TDebounce g}"
  by (auto simp: owned_def split: if_splits)

lemma owned_group: "map_of gs g = Some r \<Longrightarrow>
    (h, TInterval g) \<in> owned gs \<longleftrightarrow> h = g_interval r"
  "map_of gs g = Some r \<Longrightarrow> (h, TDebounce g) \<in> owned gs \<longleftrightarrow> g_debounce r = Some h"
  by (auto simp: owned_def)


text \<open>The timers of a state, and what clearing and setting one does to them.\<close>

definition timers :: "sched \<Rightarrow> (nat \<times> timer) set \<Rightarrow> bool" where
  "timers s T \<longleftrightarrow> distinct (akeys (live s)) \<and> (\<forall>h \<in> set (akeys (live s)). h < next_handle s) \<and> live_set s = T"

lemma timers_clear: "timers s T \<Longrightarrow> timers (clear_timer h s) {(k, t) \<in> T. k \<noteq> h}"
  unfolding timers_def live_set_clear by (auto simp: distinct_adel clear_timer_def akeys_adel)

lemma timers_set: "timers s T \<Longrightarrow> timers (snd (set_timer t ms s)) (insert (next_handle s, t) T)"
  using live_set_new [of s t ms]
  by (auto simp: timers_def set_timer_def distinct_aput)

lemma timers_fresh: "timers s T \<Longrightarrow> (h, t) \<in> T \<Longrightarrow> h < next_handle s"
  using map_of_None_akeys [of "live s" h] by (force simp: timers_def live_set_def)

lemma timers_unique: "timers s T \<Longrightarrow> (h, t) \<in> T \<Longrightarrow> (h, t') \<in> T \<Longrightarrow> t = t'"
  using live_set_handle by (auto simp: timers_def)

lemma sched_inv_timers:
  "sched_inv s \<longleftrightarrow> distinct (akeys (groups s)) \<and> timers s (owned (groups s))"
  by (auto simp: sched_inv_def timers_def)

lemma timers_cong:
  "timers s T \<Longrightarrow> live s' = live s \<Longrightarrow> next_handle s' = next_handle s \<Longrightarrow> T' = T \<Longrightarrow> timers s' T'"
  by (simp add: timers_def live_set_def)

lemma clear_timer_fields [simp]:
  "groups (clear_timer h s) = groups s" "next_handle (clear_timer h s) = next_handle s"
  "runs (clear_timer h s) = runs s" "debounceMs (clear_timer h s) = debounceMs s"
  "intervalMs (clear_timer h s) = intervalMs s"
  by (simp_all add: clear_timer_def)

lemma set_timer_fields [simp]:
  "groups (snd (set_timer t ms s)) = groups s" "runs (snd (set_timer t ms s)) = runs s"
  "fst (set_timer t ms s) = next_handle s"
  by (simp_all add: set_timer_def)

lemma start_inv [wf_intros]: "sched_inv s \<Longrightarrow> sched_inv (start g s)"
proof -
  assume s: "sched_inv s"
  show ?thesis
  proof (cases "map_of (groups s) g")
    case None
    have "timers (snd (set_timer (TInterval g) (intervalMs s) s))
        (insert (next_handle s, TInterval g) (owned (groups s)))"
      using s by (intro timers_set) (simp add: sched_inv_timers)
    moreover have "owned (aput g \<lparr>g_interval = next_handle s, g_debounce = None\<rparr> (groups s)) =
        insert (next_handle s, TInterval g) (owned (groups s))"
    proof -
      have "(h, TInterval g) \<notin> owned (groups s) \<and> (h, TDebounce g) \<notin> owned (groups s)" for h
        using None by (auto simp: owned_def)
      then show ?thesis by (auto simp: owned_put)
    qed
    moreover have e: "start g s = schedule g ''start'' ((snd (set_timer (TInterval g) (intervalMs s) s))
        \<lparr>groups := aput g \<lparr>g_interval = next_handle s, g_debounce = None\<rparr> (groups s)\<rparr>)"
      using None by (simp add: start_def set_timer_def)
    ultimately have "timers (start g s) (owned (groups (start g s)))"
      by - (rule timers_cong [where T = "insert (next_handle s, TInterval g) (owned (groups s))"],
        simp_all add: e schedule_def)
    then show ?thesis using s None
      by (auto simp: sched_inv_timers start_def schedule_def distinct_aput set_timer_def)
  qed (use s in \<open>simp add: start_def\<close>)
qed

lemma stop_inv [wf_intros]:
  assumes s: "sched_inv s"
  shows "sched_inv (stop g s)"
proof (cases "map_of (groups s) g")
  case (Some r)
  let ?T = "owned (groups s)"
  from s have t: "timers s ?T" by (simp add: sched_inv_timers)
  have "timers (case g_debounce r of None \<Rightarrow> clear_timer (g_interval r) s
      | Some h \<Rightarrow> clear_timer h (clear_timer (g_interval r) s))
      {(k, u) \<in> ?T. u \<noteq> TInterval g \<and> u \<noteq> TDebounce g}"
  proof (cases "g_debounce r")
    case None
    have "{(k, u) \<in> ?T. k \<noteq> g_interval r} = {(k, u) \<in> ?T. u \<noteq> TInterval g \<and> u \<noteq> TDebounce g}"
      using owned_group [OF Some] None timers_unique [OF t] by auto
    with timers_clear [OF t, of "g_interval r"] None show ?thesis by simp
  next
    case d: (Some h)
    have "{(k, u) \<in> {(k, u) \<in> ?T. k \<noteq> g_interval r}. k \<noteq> h} =
        {(k, u) \<in> ?T. u \<noteq> TInterval g \<and> u \<noteq> TDebounce g}"
      using owned_group [OF Some] d timers_unique [OF t] by auto
    with timers_clear [OF timers_clear [OF t, of "g_interval r"], of h] d show ?thesis by simp
  qed
  then have "timers (stop g s) (owned (groups (stop g s)))"
    by (rule timers_cong) (simp_all add: stop_def Some Let_def owned_del split: option.splits)
  moreover have "distinct (akeys (groups (stop g s)))"
    using s by (simp add: sched_inv_def stop_def Some Let_def distinct_adel split: option.splits)
  ultimately show ?thesis by (simp add: sched_inv_timers)
qed (use s in \<open>simp add: stop_def\<close>)

lemma schedule_inv [wf_intros]: "sched_inv s \<Longrightarrow> sched_inv (schedule g t s)"
  by (simp add: sched_inv_def schedule_def live_set_def)

lemma change_inv [wf_intros]:
  assumes s: "sched_inv s"
  shows "sched_inv (notifyLocalChange g s)"
proof (cases "map_of (groups s) g")
  case (Some r)
  let ?T = "owned (groups s)"
  let ?s1 = "case g_debounce r of None \<Rightarrow> s | Some h \<Rightarrow> clear_timer h s"
  from s have t: "timers s ?T" by (simp add: sched_inv_timers)
  have "timers ?s1 {(k, u) \<in> ?T. u \<noteq> TDebounce g}"
  proof (cases "g_debounce r")
    case None
    then have "{(k, u) \<in> ?T. u \<noteq> TDebounce g} = ?T" using owned_group(2) [OF Some] by auto
    with t None show ?thesis by simp
  next
    case d: (Some h)
    then have "{(k, u) \<in> ?T. u \<noteq> TDebounce g} = {(k, u) \<in> ?T. k \<noteq> h}"
      using owned_group(2) [OF Some] timers_unique [OF t] by auto
    with timers_clear [OF t, of h] d show ?thesis by simp
  qed
  from timers_set [OF this] have "timers (snd (set_timer (TDebounce g) (debounceMs ?s1) ?s1))
      (insert (next_handle ?s1, TDebounce g) {(k, u) \<in> ?T. u \<noteq> TDebounce g})" .
  moreover have "owned (aput g (r\<lparr>g_debounce := Some (next_handle ?s1)\<rparr>) (groups s)) =
      insert (next_handle ?s1, TDebounce g) {(k, u) \<in> ?T. u \<noteq> TDebounce g}"
    using owned_group(1) [OF Some] by (auto simp: owned_put)
  moreover have e: "notifyLocalChange g s = (snd (set_timer (TDebounce g) (debounceMs ?s1) ?s1))
      \<lparr>groups := aput g (r\<lparr>g_debounce := Some (next_handle ?s1)\<rparr>) (groups s)\<rparr>"
    by (simp add: notifyLocalChange_def Some Let_def set_timer_def split: option.split)
  ultimately have "timers (notifyLocalChange g s) (owned (groups (notifyLocalChange g s)))"
    unfolding e by - (rule timers_cong
      [where T = "insert (next_handle ?s1, TDebounce g) {(k, u) \<in> ?T. u \<noteq> TDebounce g}"], simp_all)
  moreover have "distinct (akeys (groups (notifyLocalChange g s)))"
    unfolding e using s by (simp add: sched_inv_def distinct_aput)
  ultimately show ?thesis by (simp add: sched_inv_timers)
qed (use s in \<open>simp add: notifyLocalChange_def\<close>)

lemma rearm_inv [wf_intros]:
  assumes s: "sched_inv s"
  shows "sched_inv (rearm g s)"
proof (cases "map_of (groups s) g")
  case (Some r)
  let ?T = "owned (groups s)" and ?s1 = "clear_timer (g_interval r) s"
  from s have t: "timers s ?T" by (simp add: sched_inv_timers)
  have "{(k, u) \<in> ?T. k \<noteq> g_interval r} = {(k, u) \<in> ?T. u \<noteq> TInterval g}"
    using owned_group(1) [OF Some] timers_unique [OF t] by auto
  with timers_set [OF timers_clear [OF t, of "g_interval r"], of "TInterval g" "intervalMs ?s1"]
  have "timers (snd (set_timer (TInterval g) (intervalMs ?s1) ?s1))
      (insert (next_handle ?s1, TInterval g) {(k, u) \<in> ?T. u \<noteq> TInterval g})" by simp
  moreover have "owned (aput g (r\<lparr>g_interval := next_handle ?s1\<rparr>) (groups s)) =
      insert (next_handle ?s1, TInterval g) {(k, u) \<in> ?T. u \<noteq> TInterval g}"
    using owned_group(2) [OF Some] by (auto simp: owned_put)
  moreover have e: "rearm g s = (snd (set_timer (TInterval g) (intervalMs ?s1) ?s1))
      \<lparr>groups := aput g (r\<lparr>g_interval := next_handle ?s1\<rparr>) (groups s)\<rparr>"
    by (simp add: rearm_def Some Let_def set_timer_def)
  ultimately have "timers (rearm g s) (owned (groups (rearm g s)))"
    unfolding e by - (rule timers_cong
      [where T = "insert (next_handle ?s1, TInterval g) {(k, u) \<in> ?T. u \<noteq> TInterval g}"], simp_all)
  moreover have "distinct (akeys (groups (rearm g s)))"
    unfolding e using s by (simp add: sched_inv_def distinct_aput)
  ultimately show ?thesis by (simp add: sched_inv_timers)
qed (use s in \<open>simp add: rearm_def\<close>)

lemma fold_inv: "(\<And>x s. sched_inv s \<Longrightarrow> sched_inv (f x s)) \<Longrightarrow> sched_inv s \<Longrightarrow> sched_inv (fold f xs s)"
  by (induction xs arbitrary: s) auto

lemma fire_inv [wf_intros]:
  assumes s: "sched_inv s"
  shows "sched_inv (fire h s)"
proof (cases "map_of (live s) h")
  case (Some x)
  obtain u ms where x: "x = (u, ms)" by force
  show ?thesis
  proof (cases u)
    case (TInterval g)
    with s Some x show ?thesis by (simp add: fire_def schedule_inv)
  next
    case (TDebounce g)
    from s have t: "timers s (owned (groups s))" by (simp add: sched_inv_timers)
    have "(h, TDebounce g) \<in> owned (groups s)"
      using s Some x TDebounce by (auto simp: sched_inv_def live_set_def)
    then obtain r where r: "map_of (groups s) g = Some r" "g_debounce r = Some h" by (auto simp: owned_def)
    have "{(k, u) \<in> owned (groups s). k \<noteq> h} = owned (aput g (r\<lparr>g_debounce := None\<rparr>) (groups s))"
      using owned_group [OF r(1)] r(2) timers_unique [OF t, of h "TInterval g" "TDebounce g"]
        timers_unique [OF t, of h _ "TDebounce g"] by (auto simp: owned_put)
    with timers_clear [OF t, of h] have
      "timers (clear_timer h s) (owned (aput g (r\<lparr>g_debounce := None\<rparr>) (groups s)))" by simp
    then have "timers (fire h s) (owned (groups (fire h s)))"
      by (rule timers_cong) (simp_all add: fire_def Some x TDebounce r(1) schedule_def Let_def)
    moreover have "distinct (akeys (groups (fire h s)))"
      using s by (simp add: sched_inv_def fire_def Some x TDebounce r(1) schedule_def Let_def distinct_aput)
    ultimately show ?thesis by (simp add: sched_inv_timers)
  qed
qed (use s in \<open>simp add: fire_def\<close>)


lemma step_inv: "sched_inv s \<Longrightarrow> sched_inv (step e s)"
proof (induction e s rule: step.induct)
  case (5 s)
  then show ?case by (simp add: dispose_def fold_inv stop_inv)
next
  case (6 i d s)
  have "sched_inv (s\<lparr>intervalMs := x\<rparr>)" for x using 6 by (simp add: sched_inv_def live_set_def)
  then have a: "sched_inv (fold rearm (akeys (groups s)) (s\<lparr>intervalMs := x\<rparr>))" for x
    using fold_inv [of rearm] rearm_inv by blast
  have b: "sched_inv (s'\<lparr>debounceMs := y\<rparr>)" if "sched_inv s'" for s' y
    using that by (simp add: sched_inv_def live_set_def)
  show ?case using 6 a b by (auto simp: setTiming_def Let_def split: option.splits)
qed (simp_all add: start_inv stop_inv change_inv fire_inv schedule_inv notifyOnline_def)

lemma history_inv: "sched_inv (history i d es)"
proof -
  have "sched_inv (createScheduler i d)"
    by (simp add: sched_inv_def createScheduler_def live_set_def owned_def akeys_def)
  then have "sched_inv (fold step es s0)" if "s0 = createScheduler i d" for s0
    using fold_inv [of step] step_inv that by blast
  then show ?thesis by (simp add: history_def)
qed

text \<open>
  C11. After any sequence of calls and timer events, the live timers are exactly those of the active
  groups: one interval each, one debounce timer where one is pending, and none else; no group is
  listed twice.
\<close>

theorem timers_belong_to_groups:
  "live_set (history i d es) = owned (groups (history i d es)) \<and>
   distinct (activeGroups (history i d es)) \<and> distinct (akeys (live (history i d es)))"
  using history_inv [of i d es] by (simp add: sched_inv_def activeGroups_def)

lemma groups_stop: "map_of (groups (stop g s)) = (map_of (groups s))(g := None)"
  by (auto simp: stop_def Let_def split: option.splits)

lemma groups_stop_all: "map_of (groups (fold stop gs s)) = (\<lambda>g. if g \<in> set gs then None else map_of (groups s) g)"
  by (induction gs arbitrary: s) (auto simp: groups_stop)

lemma runs_stop: "runs (fold stop gs s) = runs s"
proof (induction gs arbitrary: s)
  case (Cons g gs)
  have "runs (stop g s) = runs s" by (simp add: stop_def Let_def split: option.splits)
  with Cons show ?case by simp
qed simp

lemma map_of_empty_Nil: "(\<And>x. map_of xs x = None) \<Longrightarrow> xs = []"
proof (cases xs)
  case (Cons a ys)
  assume "\<And>x. map_of xs x = None"
  then have "map_of xs (fst a) = None" .
  with Cons show ?thesis by simp
qed

text \<open>
  Disposing is final: whatever happened before, no group and no live timer remains, no run is
  started by it, and timer handles that fire late change nothing.
\<close>

theorem dispose_is_final:
  "groups (dispose (history i d es)) = [] \<and> live (dispose (history i d es)) = [] \<and>
   runs (dispose (history i d es)) = runs (history i d es) \<and>
   fold fire hs (dispose (history i d es)) = dispose (history i d es)"
proof -
  let ?s = "dispose (history i d es)"
  have "map_of (groups ?s) g = None" for g
    by (simp add: dispose_def groups_stop_all map_of_None_akeys)
  then have g: "groups ?s = []" by (rule map_of_empty_Nil)
  have "sched_inv ?s" using step_inv [OF history_inv, of EDispose] by simp
  then have "live_set ?s = {}" using g by (simp add: sched_inv_def owned_def)
  then have "map_of (live ?s) h = None" for h
    by (cases "map_of (live ?s) h") (auto simp: live_set_def)
  then have l: "live ?s = []" by (rule map_of_empty_Nil)
  have "fold fire hs s = s" if "live s = []" for s
    using that by (induction hs) (simp_all add: fire_def)
  with g l show ?thesis by (simp add: dispose_def runs_stop)
qed

lemma change_state:
  assumes "map_of (groups s) g = Some r"
  shows "runs (notifyLocalChange g s) = runs s \<and>
    map_of (groups (notifyLocalChange g s)) g = Some (r\<lparr>g_debounce := Some (next_handle s)\<rparr>)"
  using assms by (auto simp: notifyLocalChange_def Let_def set_timer_def split: option.splits)

lemma changes_state:
  assumes "map_of (groups s) g = Some r"
  shows "runs ((notifyLocalChange g ^^ n) s) = runs s \<and>
    (\<exists>h. map_of (groups ((notifyLocalChange g ^^ Suc n) s)) g = Some (r\<lparr>g_debounce := Some h\<rparr>))"
proof (induction n)
  case 0
  with change_state [OF assms] show ?case by auto
next
  case (Suc n)
  then obtain h where h: "map_of (groups ((notifyLocalChange g ^^ Suc n) s)) g = Some (r\<lparr>g_debounce := Some h\<rparr>)"
    by blast
  have "runs ((notifyLocalChange g ^^ Suc n) s) = runs s"
  proof (cases n)
    case 0
    with change_state [OF assms] show ?thesis by simp
  next
    case (Suc m)
    have "\<exists>r'. map_of (groups ((notifyLocalChange g ^^ n) s)) g = Some r'"
      using assms by (induction n) (auto dest: change_state)
    with Suc.IH change_state show ?thesis using Suc by (metis Suc.IH comp_apply funpow.simps(2))
  qed
  with change_state [OF h] show ?case by auto
qed

text \<open>
  Local changes are coalesced: any number of changes of an active group in a row starts no run
  and leaves exactly one pending debounce timer for it, whose firing starts exactly one run and
  leaves none pending.
\<close>

theorem changes_are_coalesced:
  assumes "s = history i d es" and "g \<in> set (activeGroups s)"
    and "s' = (notifyLocalChange g ^^ Suc n) s"
  shows "runs s' = runs s \<and>
    (\<exists>h. {k. (k, TDebounce g) \<in> live_set s'} = {h} \<and>
      runs (fire h s') = runs s @ [(g, ''debounce'')] \<and>
      {k. (k, TDebounce g) \<in> live_set (fire h s')} = {})"
proof -
  obtain r where r: "map_of (groups s) g = Some r"
    using assms(2) map_of_None_akeys [of "groups s" g] by (auto simp: activeGroups_def)
  have inv: "sched_inv ((notifyLocalChange g ^^ m) s)" for m
    using history_inv assms(1) by (induction m) (auto intro: change_inv)
  then have i': "sched_inv s'" using assms(3) by blast
  obtain h where h: "map_of (groups s') g = Some (r\<lparr>g_debounce := Some h\<rparr>)"
    using changes_state [OF r, of n] assms(3) by blast
  have runs: "runs s' = runs s" using changes_state [OF r, of "Suc n"] assms(3) by blast
  have one: "(k, TDebounce g) \<in> live_set s' \<longleftrightarrow> k = h" for k
    using i' owned_group(2) [OF h, of k] by (auto simp: sched_inv_def)
  then obtain ms where ms: "map_of (live s') h = Some (TDebounce g, ms)" by (auto simp: live_set_def)
  have f: "runs (fire h s') = runs s' @ [(g, ''debounce'')]"
    "map_of (groups (fire h s')) g = Some (r\<lparr>g_debounce := None\<rparr>)"
    by (simp_all add: fire_def ms h schedule_def Let_def)
  have "(k, TDebounce g) \<notin> live_set (fire h s')" for k
    using fire_inv [OF i', of h] owned_group(2) [OF f(2), of k] by (simp add: sched_inv_def)
  with one f(1) runs show ?thesis by (intro conjI exI [of _ h]) auto
qed

theorem changes_are_coalesced_witness:
  "let s = history None None [EStart ''g''] in
   runs ((notifyLocalChange ''g'' ^^ Suc 4) s) = runs s \<and>
    (\<exists>h. {k. (k, TDebounce ''g'') \<in> live_set ((notifyLocalChange ''g'' ^^ Suc 4) s)} = {h} \<and>
      runs (fire h ((notifyLocalChange ''g'' ^^ Suc 4) s)) = runs s @ [(''g'', ''debounce'')] \<and>
      {k. (k, TDebounce ''g'') \<in> live_set (fire h ((notifyLocalChange ''g'' ^^ Suc 4) s))} = {})"
proof -
  have "''g'' \<in> set (activeGroups (history None None [EStart ''g'']))"
    by (simp add: history_def activeGroups_def createScheduler_def start_def set_timer_def schedule_def akeys_def)
  from changes_are_coalesced [OF refl this refl, of 4] show ?thesis unfolding Let_def .
qed

lemma runs_rearm: "runs (fold rearm gs s) = runs s"
proof (induction gs arbitrary: s)
  case (Cons g gs)
  have "runs (rearm g s) = runs s" by (simp add: rearm_def Let_def case_prod_beta split: option.split)
  with Cons show ?case by simp
qed simp

text \<open>
  Only active groups are ever run: whatever an event adds to the log of runs is a run of a
  group that is active after the event, and at most one run is added per event.
\<close>

theorem runs_only_active_groups:
  "\<exists>new. runs (step e (history i d es)) = runs (history i d es) @ new \<and> length new \<le> 1 \<and>
    set (map fst new) \<subseteq> set (activeGroups (step e (history i d es)))"
proof -
  let ?s = "history i d es"
  have act: "map_of (groups s) g = Some r \<Longrightarrow> g \<in> set (akeys (groups s))" for s g r
    using map_of_None_akeys [of "groups s" g] by auto
  have inv: "sched_inv ?s" by (rule history_inv)
  show ?thesis
  proof (cases e)
    case (EFire h)
    show ?thesis
    proof (cases "map_of (live ?s) h")
      case None
      then show ?thesis using EFire by (intro exI [of _ "[]"]) (simp add: fire_def)
    next
      case (Some x)
      obtain u ms where x: "x = (u, ms)" by force
      have "(h, u) \<in> owned (groups ?s)" using inv Some x by (auto simp: sched_inv_def live_set_def)
      then obtain g r where r: "map_of (groups ?s) g = Some r" "u = TInterval g \<or> u = TDebounce g"
        by (auto simp: owned_def)
      then show ?thesis using EFire Some x act [OF r(1)]
        by (auto simp: fire_def schedule_def activeGroups_def Let_def)
    qed
  next
    case (ETiming i' d')
    then show ?thesis
      by (intro exI [of _ "[]"]) (auto simp: setTiming_def Let_def runs_rearm split: option.split)
  next
    case (EStart g)
    then show ?thesis by (auto simp: start_def set_timer_def schedule_def activeGroups_def)
  next
    case (EOnline g)
    then show ?thesis by (auto simp: notifyOnline_def schedule_def activeGroups_def dest: act)
  next
    case (EStop g)
    then show ?thesis using runs_stop [of "[g]" ?s] by (intro exI [of _ "[]"]) simp
  next
    case (EChange g)
    have "runs (notifyLocalChange g ?s) = runs ?s"
    proof (cases "map_of (groups ?s) g")
      case (Some r)
      then show ?thesis using change_state by blast
    qed (simp add: notifyLocalChange_def)
    with EChange show ?thesis by (intro exI [of _ "[]"]) simp
  next
    case EDispose
    then show ?thesis by (intro exI [of _ "[]"]) (simp add: dispose_def runs_stop)
  qed
qed

end
