(* ===== verification/Util.thy ===== *)
theory Util
  imports Utf8 Store
begin

text \<open>
  Utilities of the sync package (opendweb-ext-sync, util.mjs): the atomic file write, the bounded
  readers of request bodies, and the cross-process file lock.

  A request body that streams is its list of chunks; consuming a body means running through them, so
  the number of chunks a reader looked at is part of its result.  Reading one line (decode, trim,
  \<^verbatim>\<open>JSON.parse\<close>) is an argument: a line is blank, a value, or malformed.
\<close>

subsection \<open>Atomic writes\<close>

datatype fnode = Content bytes | Link

type_synonym files = "(string \<times> fnode) list"

text \<open>
  \<^verbatim>\<open>atomicWrite0600\<close> as its file-system operations in order; the random temporary name is an
  argument.  The list of states is what a kill between two operations can leave, the last one is
  the state in which the call returned.
\<close>

definition tmp_name :: "string \<Rightarrow> string \<Rightarrow> string" where
  "tmp_name f rnd = f @ ''.tmp-'' @ rnd"

definition aw_states :: "string \<Rightarrow> bytes \<Rightarrow> string \<Rightarrow> files \<Rightarrow> files list" where
  "aw_states f bs rnd fs =
     (let tmp = tmp_name f rnd
      in if map_of fs f = Some Link then [fs, adel tmp fs]
         else if map_of fs tmp \<noteq> None then [fs, adel tmp fs]
         else fs # map (\<lambda>n. aput tmp (Content (take n bs)) fs) [0..<Suc (length bs)] @
              [aput f (Content bs) (adel tmp fs)])"

definition atomicWrite0600 :: "string \<Rightarrow> bytes \<Rightarrow> string \<Rightarrow> files \<Rightarrow> bool \<times> files" where
  "atomicWrite0600 f bs rnd fs =
     (map_of fs f \<noteq> Some Link \<and> map_of fs (tmp_name f rnd) = None, last (aw_states f bs rnd fs))"

lemma tmp_name_neq [simp]: "tmp_name f rnd \<noteq> f" "f \<noteq> tmp_name f rnd"
  by (simp_all add: tmp_name_def)

text \<open>
  A file written atomically is never half written: in every state a kill can leave it holds
  its old content or the whole new content, no other file but the temporary one changes, a
  successful call leaves the new content and no temporary file, and a symbolic link is never
  written through.
\<close>

theorem atomic_write:
  "list_all (\<lambda>s.
      (if map_of fs f = Some Link then map_of s f = Some Link
       else map_of s f = map_of fs f \<or> map_of s f = Some (Content bs)) \<and>
      map_of (adel f (adel (tmp_name f rnd) s)) = map_of (adel f (adel (tmp_name f rnd) fs)))
     (aw_states f bs rnd fs) \<and>
   (let (ok, fs') = atomicWrite0600 f bs rnd fs
    in map_of fs' (tmp_name f rnd) = None \<and>
       map_of fs' f = (if ok then Some (Content bs) else map_of fs f))"
  by (auto simp: aw_states_def atomicWrite0600_def Let_def fun_eq_iff list_all_iff)

subsection \<open>Bounded bodies\<close>

datatype body = NoBody | Whole bytes | Chunks "bytes list"

datatype body_error = BodyTooLarge nat | LineTooLarge nat | Aborted | BadJson

text \<open>The loop over the chunks: the result and the number of chunks consumed.\<close>

fun read_chunks :: "nat \<Rightarrow> bytes list \<Rightarrow> bytes list \<Rightarrow> nat \<Rightarrow> (body_error + bytes) \<times> nat" where
  "read_chunks maxBytes [] parts tot = (Inr (concat parts), 0)"
| "read_chunks maxBytes (c # cs) parts tot =
     (if maxBytes < tot + length c then (Inl (BodyTooLarge maxBytes), 1)
      else (let (r, n) = read_chunks maxBytes cs (parts @ [c]) (tot + length c) in (r, Suc n)))"

definition readBoundedBody :: "body \<Rightarrow> nat \<Rightarrow> (body_error + bytes) \<times> nat" where
  "readBoundedBody b maxBytes =
     (case b of
        NoBody \<Rightarrow> (Inr [], 0)
      | Whole bs \<Rightarrow> (if maxBytes < length bs then Inl (BodyTooLarge maxBytes) else Inr bs, 0)
      | Chunks cs \<Rightarrow> read_chunks maxBytes cs [] 0)"

definition body_bytes :: "body \<Rightarrow> bytes" where
  "body_bytes b = (case b of NoBody \<Rightarrow> [] | Whole bs \<Rightarrow> bs | Chunks cs \<Rightarrow> concat cs)"

lemma read_chunks_spec:
  assumes "tot = length (concat parts)" and "tot \<le> maxBytes"
  shows "read_chunks maxBytes cs parts tot =
    (if length (concat (parts @ cs)) \<le> maxBytes then (Inr (concat (parts @ cs)), length cs)
     else (Inl (BodyTooLarge maxBytes),
       Suc (length (takeWhile (\<lambda>k. length (concat (parts @ take (Suc k) cs)) \<le> maxBytes) [0..<length cs]))))"
  using assms
proof (induction cs arbitrary: parts tot)
  case Nil
  then show ?case by simp
next
  case (Cons c cs)
  have u: "[0..<Suc (length cs)] = 0 # map Suc [0..<length cs]"
    by (metis map_Suc_upt upt_conv_Cons zero_less_Suc)
  show ?case
  proof (cases "maxBytes < tot + length c")
    case True
    with Cons.prems show ?thesis by (simp add: u del: upt_Suc)
  next
    case False
    with Cons.prems Cons.IH [of "tot + length c" "parts @ [c]"] show ?thesis
      by (simp add: u takeWhile_map o_def del: upt_Suc)
  qed
qed

text \<open>
  A body is read whole exactly when it fits: otherwise the reader rejects it, and it stops at the
  first chunk that passes the bound, so what it holds never exceeds the bound by more than one chunk.
\<close>

theorem readBoundedBody_exact:
  "(let (r, n) = readBoundedBody b maxBytes
    in r = (if length (body_bytes b) \<le> maxBytes then Inr (body_bytes b) else Inl (BodyTooLarge maxBytes)) \<and>
       (case b of
          Chunks cs \<Rightarrow> n \<le> length cs \<and> length (concat (take (n - 1) cs)) \<le> maxBytes
        | _ \<Rightarrow> n = 0))"
proof (cases b)
  case (Chunks cs)
  let ?P = "\<lambda>k. length (concat (take (Suc k) cs)) \<le> maxBytes"
  let ?m = "length (takeWhile ?P [0..<length cs])"
  have m: "?m \<le> length cs" using length_takeWhile_le [of ?P "[0..<length cs]"] by simp
  show ?thesis
  proof (cases "length (concat cs) \<le> maxBytes")
    case True
    have "length (concat (take k cs)) \<le> length (concat cs)" for k
      by (metis append_take_drop_id concat_append le_add1 length_append)
    with True Chunks read_chunks_spec [of 0 "[]" maxBytes cs] show ?thesis
      by (auto simp: readBoundedBody_def body_bytes_def intro: le_trans)
  next
    case False
    have "?m < length cs"
    proof (rule ccontr)
      assume "\<not> ?m < length cs"
      then have "length (takeWhile ?P [0..<length cs]) = length [0..<length cs]" using m by simp
      then have "takeWhile ?P [0..<length cs] = [0..<length cs]"
        by (metis takeWhile_eq_take take_all le_refl)
      then have all: "\<forall>k < length cs. ?P k" by (metis atLeastLessThan_iff set_takeWhileD set_upt le0)
      show False
      proof (cases cs)
        case (Cons c ds)
        then have "length cs - 1 < length cs" by simp
        with all have "?P (length cs - 1)" by blast
        with False Cons show False by simp
      qed (use False in simp)
    qed
    moreover have "length (concat (take ?m cs)) \<le> maxBytes"
    proof (cases ?m)
      case (Suc k)
      then have "[0..<length cs] ! k \<in> set (takeWhile ?P [0..<length cs])"
        by (metis lessI nth_mem takeWhile_nth)
      then have "?P ([0..<length cs] ! k)" by (rule set_takeWhileD [THEN conjunct2])
      moreover have "k < length cs" using Suc m by simp
      ultimately show ?thesis using Suc by simp
    qed simp
    ultimately show ?thesis using False Chunks read_chunks_spec [of 0 "[]" maxBytes cs]
      by (simp add: readBoundedBody_def body_bytes_def)
  qed
qed (simp_all add: readBoundedBody_def body_bytes_def)


subsection \<open>Lines of JSON\<close>

datatype 'j line = Blank | Value 'j | NotJson

record 'j line_reader =
  read_line :: "bytes \<Rightarrow> 'j line"
  char_count :: "bytes \<Rightarrow> nat"

text \<open>The inner loop: the values of the complete lines of a buffer, and an error or the rest.\<close>

function cut_lines :: "'j line_reader \<Rightarrow> nat \<Rightarrow> bytes \<Rightarrow> 'j list \<times> (body_error + bytes)" where
  "cut_lines R maxLine buf =
     (case dropWhile (\<lambda>b. b \<noteq> 10) buf of
        [] \<Rightarrow> ([], Inr buf)
      | _ # rest \<Rightarrow>
          (let l = takeWhile (\<lambda>b. b \<noteq> 10) buf
           in if maxLine < length l then ([], Inl (LineTooLarge maxLine))
              else (case read_line R l of
                      Blank \<Rightarrow> cut_lines R maxLine rest
                    | Value j \<Rightarrow> (let (js, r) = cut_lines R maxLine rest in (j # js, r))
                    | NotJson \<Rightarrow> ([], Inl BadJson))))"
  by pat_completeness auto
termination
proof (relation "measure (\<lambda>(R, m, buf). length buf)")
  fix buf :: bytes and x rest
  assume "dropWhile (\<lambda>b. b \<noteq> 10) buf = x # rest"
  then have "length (x # rest) \<le> length buf" by (metis length_dropWhile_le)
  then show "((R, m, rest), R, m, buf) \<in> measure (\<lambda>(R, m, buf). length buf)" for R m by simp
  then show "((R, m, rest), R, m, buf) \<in> measure (\<lambda>(R, m, buf). length buf)" for R m .
qed simp

declare cut_lines.simps [simp del]

text \<open>The last, unterminated line.\<close>

definition finish_line :: "'j line_reader \<Rightarrow> bytes \<Rightarrow> 'j list \<times> body_error option" where
  "finish_line R rest =
     (case read_line R rest of Blank \<Rightarrow> ([], None) | Value j \<Rightarrow> ([j], None) | NotJson \<Rightarrow> ([], Some BadJson))"

text \<open>A body held as a whole.  The last line is measured in characters.\<close>

definition whole_lines :: "'j line_reader \<Rightarrow> nat \<Rightarrow> nat \<Rightarrow> bool \<Rightarrow> bytes \<Rightarrow> 'j list \<times> body_error option" where
  "whole_lines R maxTotal maxLine aborted bs =
     (if aborted then ([], Some Aborted)
      else if maxTotal < length bs then ([], Some (BodyTooLarge maxTotal))
      else (case cut_lines R maxLine bs of
              (js, Inl e) \<Rightarrow> (js, Some e)
            | (js, Inr rest) \<Rightarrow>
                if read_line R rest \<noteq> Blank \<and> maxLine < char_count R rest
                then (js, Some (LineTooLarge maxLine))
                else (js @ fst (finish_line R rest), snd (finish_line R rest))))"

text \<open>
  A streamed body.  \<open>abort\<close> is the number of chunks read before the signal fires, if it does; it is
  looked at before every chunk and before the end.
\<close>

fun stream_lines ::
  "'j line_reader \<Rightarrow> nat \<Rightarrow> nat \<Rightarrow> nat option \<Rightarrow> bytes list \<Rightarrow> bytes \<Rightarrow> nat \<Rightarrow> 'j list \<times> body_error option" where
  "stream_lines R maxTotal maxLine abort [] pending tot =
     (if abort = Some 0 then ([], Some Aborted)
      else if read_line R pending \<noteq> Blank \<and> maxLine < length pending
      then ([], Some (LineTooLarge maxLine))
      else finish_line R pending)"
| "stream_lines R maxTotal maxLine abort (c # cs) pending tot =
     (if abort = Some 0 then ([], Some Aborted)
      else if maxTotal < tot + length c then ([], Some (BodyTooLarge maxTotal))
      else (case cut_lines R maxLine (pending @ c) of
              (js, Inl e) \<Rightarrow> (js, Some e)
            | (js, Inr rest) \<Rightarrow>
                if maxLine < length rest then (js, Some (LineTooLarge maxLine))
                else (let (js', e) = stream_lines R maxTotal maxLine (map_option (\<lambda>n. n - 1) abort) cs rest
                        (tot + length c)
                      in (js @ js', e))))"

definition readBoundedJsonLines ::
  "'j line_reader \<Rightarrow> nat \<Rightarrow> nat \<Rightarrow> nat option \<Rightarrow> body \<Rightarrow> 'j list \<times> body_error option" where
  "readBoundedJsonLines R maxTotal maxLine abort b =
     (case b of
        NoBody \<Rightarrow> ([], None)
      | Whole bs \<Rightarrow> whole_lines R maxTotal maxLine (abort = Some 0) bs
      | Chunks cs \<Rightarrow> stream_lines R maxTotal maxLine abort cs [] 0)"

lemma cut_no_newline: "10 \<notin> set buf \<Longrightarrow> cut_lines R m buf = ([], Inr buf)"
proof -
  assume "10 \<notin> set buf"
  then have "dropWhile (\<lambda>b. b \<noteq> 10) buf = []" by (auto simp: dropWhile_eq_Nil_conv)
  then show ?thesis by (subst cut_lines.simps) (simp only: list.case)
qed

lemma cut_newline:
  assumes "10 \<notin> set l"
  shows "cut_lines R m (l @ 10 # rest) =
    (if m < length l then ([], Inl (LineTooLarge m))
     else (case read_line R l of
             Blank \<Rightarrow> cut_lines R m rest
           | Value j \<Rightarrow> (let (js, r) = cut_lines R m rest in (j # js, r))
           | NotJson \<Rightarrow> ([], Inl BadJson)))"
proof -
  have "dropWhile (\<lambda>b. b \<noteq> 10) (l @ 10 # rest) = 10 # rest" "takeWhile (\<lambda>b. b \<noteq> 10) (l @ 10 # rest) = l"
    using assms by (induction l) auto
  then show ?thesis by (subst cut_lines.simps) simp
qed

lemma first_line: obtains "10 \<notin> set buf" | l rest where "buf = l @ (10 :: 8 word) # rest" "10 \<notin> set l"
  by (metis split_list_first)

lemma cut_append:
  "cut_lines R m (a @ b) =
    (case cut_lines R m a of
       (js, Inl e) \<Rightarrow> (js, Inl e)
     | (js, Inr rest) \<Rightarrow> (let (js', r) = cut_lines R m (rest @ b) in (js @ js', r)))"
proof (induction "length a" arbitrary: a rule: less_induct)
  case less
  show ?case
  proof (cases rule: first_line [of a])
    case 1
    then show ?thesis by (simp add: cut_no_newline)
  next
    case (2 l rest)
    have IH: "cut_lines R m (rest @ b) =
      (case cut_lines R m rest of
         (js, Inl e) \<Rightarrow> (js, Inl e)
       | (js, Inr rest') \<Rightarrow> (let (js', r) = cut_lines R m (rest' @ b) in (js @ js', r)))"
      by (rule less) (simp add: 2)
    show ?thesis using 2 cut_newline [OF 2(2), of R m "rest @ b"] cut_newline [OF 2(2), of R m rest]
      by (auto simp: IH Let_def split: line.splits prod.splits sum.splits)
  qed
qed

lemma cut_rest: "cut_lines R m buf = (js, Inr rest) \<Longrightarrow> 10 \<notin> set rest"
proof (induction "length buf" arbitrary: buf js rule: less_induct)
  case less
  show ?case
  proof (cases rule: first_line [of buf])
    case 1
    with less.prems show ?thesis by (auto simp: cut_no_newline)
  next
    case (2 l r)
    then have "length r < length buf" by simp
    from less.hyps [OF this] less.prems 2 show ?thesis
      by (auto simp: cut_newline Let_def split: if_splits line.splits prod.splits)
  qed
qed

definition all_lines :: "'j line_reader \<Rightarrow> nat \<Rightarrow> bytes \<Rightarrow> 'j list \<times> body_error option" where
  "all_lines R m buf =
     (case cut_lines R m buf of
        (js, Inl e) \<Rightarrow> (js, Some e)
      | (js, Inr rest) \<Rightarrow>
          if m < length rest then (js, Some (LineTooLarge m))
          else (js @ fst (finish_line R rest), snd (finish_line R rest)))"

lemma all_lines_long:
  assumes "10 \<notin> set p" and "m < length p"
  shows "all_lines R m (p @ b) = ([], Some (LineTooLarge m))"
proof (cases rule: first_line [of b])
  case 1
  with assms show ?thesis by (simp add: all_lines_def cut_no_newline)
next
  case (2 l rest)
  then have "cut_lines R m ((p @ l) @ 10 # rest) = ([], Inl (LineTooLarge m))"
    using assms by (subst cut_newline) auto
  with 2 show ?thesis by (simp add: all_lines_def)
qed

lemma stream_all_lines:
  assumes "10 \<notin> set p" and "length p \<le> m" and "tot + length (concat cs) \<le> mt"
  shows "stream_lines R mt m None cs p tot = all_lines R m (p @ concat cs)"
  using assms
proof (induction cs arbitrary: p tot)
  case Nil
  then show ?case by (auto simp: all_lines_def cut_no_newline)
next
  case (Cons c cs)
  obtain js r where c: "cut_lines R m (p @ c) = (js, r)" by force
  have a: "cut_lines R m (p @ c @ concat cs) = (case (js, r) of
       (js, Inl e) \<Rightarrow> (js, Inl e)
     | (js, Inr rest) \<Rightarrow> (let (js', r) = cut_lines R m (rest @ concat cs) in (js @ js', r)))"
    using cut_append [of R m "p @ c" "concat cs"] c by simp
  show ?case
  proof (cases r)
    case (Inl e)
    with Cons.prems c a show ?thesis by (simp add: all_lines_def)
  next
    case (Inr rest)
    have n: "10 \<notin> set rest" using cut_rest c Inr by blast
    have al: "all_lines R m (p @ c @ concat cs) =
        (js @ fst (all_lines R m (rest @ concat cs)), snd (all_lines R m (rest @ concat cs)))"
      using a Inr by (auto simp: all_lines_def Let_def split: prod.splits sum.splits)
    show ?thesis
    proof (cases "m < length rest")
      case True
      with all_lines_long [OF n True, of R "concat cs"] Cons.prems c Inr al show ?thesis by simp
    next
      case False
      with Cons.IH [OF n, of "tot + length c"] Cons.prems c Inr al show ?thesis
        by (simp add: case_prod_beta)
    qed
  qed
qed

lemma stream_too_large:
  "tot \<le> mt \<Longrightarrow> mt < tot + length (concat cs) \<Longrightarrow>
     snd (stream_lines R mt m a cs p tot) \<noteq> None"
proof (induction cs arbitrary: a p tot)
  case (Cons c cs)
  then show ?case by (auto simp: case_prod_beta split: prod.split sum.split)
qed simp

text \<open>
  How a streamed body is cut into chunks does not matter: within the size bound the values and the
  outcome are those of the same bytes in one chunk, and beyond it the reader fails.
\<close>

theorem chunks_do_not_matter:
  "if length (concat cs) \<le> maxTotal
   then readBoundedJsonLines R maxTotal maxLine None (Chunks cs) =
     readBoundedJsonLines R maxTotal maxLine None (Chunks [concat cs])
   else snd (readBoundedJsonLines R maxTotal maxLine None (Chunks cs)) \<noteq> None"
  using stream_all_lines [of "[]" maxLine 0 cs maxTotal R]
    stream_all_lines [of "[]" maxLine 0 "[concat cs]" maxTotal R]
    stream_too_large [of 0 maxTotal cs R maxLine None "[]"]
  by (simp add: readBoundedJsonLines_def del: stream_lines.simps)

definition utf8_reader :: "bytes line_reader" where
  "utf8_reader = \<lparr>read_line = (\<lambda>bs. if bs = [] then Blank else Value bs),
     char_count = (\<lambda>bs. case decodeUtf8Strict bs of None \<Rightarrow> length bs | Some t \<Rightarrow> length t)\<rparr>"

text \<open>
  The same bytes are judged differently when they arrive whole: the last line of a whole body is
  measured in characters, that of a stream in bytes, so a last line of three characters in four
  bytes passes a bound of three one way and fails it the other.
\<close>

theorem whole_and_stream_differ:
  "readBoundedJsonLines utf8_reader 100 3 None (Whole [34, 195, 169, 34]) = ([[34, 195, 169, 34]], None) \<and>
   readBoundedJsonLines utf8_reader 100 3 None (Chunks [[34, 195, 169, 34]]) = ([], Some (LineTooLarge 3))"
proof -
  have "cut_lines utf8_reader 3 [34, 195, 169, 34] = ([], Inr [34, 195, 169, 34])"
    by (rule cut_no_newline) simp
  moreover have "decodeUtf8Strict [34, 195, 169, 34] = Some [34, 233, 34]"
    by (simp add: decodeUtf8Strict_def dec_all.simps dec_cp_def cont_def bom_def)
  ultimately show ?thesis
    by (simp add: readBoundedJsonLines_def whole_lines_def utf8_reader_def finish_line_def)
qed

end
