(* ===== verification/FileLock.thy ===== *)
theory FileLock
  imports Prelude
begin

text \<open>
  The cross-process file lock (opendweb-ext-sync, util.mjs, \<^verbatim>\<open>acquireFileLock\<close>) as the interleaving
  of the file operations of any number of processes.

  One step of a process is one file operation of the code: the exclusive create, the write of the
  record, the read of a lock that is in the way, the removal of a stale one, the two halves of the
  release.  A file is its inode and its content, so that a process keeps writing to the file it
  created after another one removed it.  Events interleave steps with the clock, with new attempts
  and releases, and with kills.
\<close>

definition STALE_LOCK_MS :: int where
  "STALE_LOCK_MS = 10000"

datatype lock_content = CEmpty | CRec nat int

datatype pc =
    PIdle
  | PTry nat int
  | PCreating int nat
  | PHeld int
  | PRm
  | PRead nat
  | PBreak nat
  | PWait nat
  | PRefused

record lock_state =
  lock_file :: "(nat \<times> lock_content) option"
  pcs :: "nat \<Rightarrow> pc"
  alive :: "nat \<Rightarrow> bool"
  clock :: int
  next_ino :: nat

definition goto :: "nat \<Rightarrow> pc \<Rightarrow> lock_state \<Rightarrow> lock_state" where
  "goto p c s = s\<lparr>pcs := (pcs s)(p := c)\<rparr>"

text \<open>The number of attempts after which the code gives up: the length of its back-off table.\<close>

definition backoff_steps :: nat where
  "backoff_steps = 3"

definition retry_or_refuse :: "nat \<Rightarrow> nat \<Rightarrow> lock_state \<Rightarrow> lock_state" where
  "retry_or_refuse p n s = (if backoff_steps \<le> n then goto p PRefused s else goto p (PWait n) s)"

definition proc_step :: "nat \<Rightarrow> lock_state \<Rightarrow> lock_state" where
  "proc_step p s =
     (case pcs s p of
        PTry n ts \<Rightarrow>
          (case lock_file s of
             None \<Rightarrow>
               (goto p (PCreating ts (next_ino s)) s)
                 \<lparr>lock_file := Some (next_ino s, CEmpty), next_ino := Suc (next_ino s)\<rparr>
           | Some _ \<Rightarrow> goto p (PRead n) s)
      | PCreating ts ino \<Rightarrow>
          (goto p (PHeld ts) s)
            \<lparr>lock_file := (case lock_file s of
               Some (i, c) \<Rightarrow> if i = ino then Some (i, CRec p ts) else Some (i, c) | None \<Rightarrow> None)\<rparr>
      | PRead n \<Rightarrow>
          (case lock_file s of
             Some (_, CRec q ts) \<Rightarrow>
               if STALE_LOCK_MS < clock s - ts \<and> \<not> alive s q then goto p (PBreak n) s
               else retry_or_refuse p n s
           | _ \<Rightarrow> retry_or_refuse p n s)
      | PBreak n \<Rightarrow> (goto p (PTry (Suc n) (clock s)) s)\<lparr>lock_file := None\<rparr>
      | PWait n \<Rightarrow> goto p (PTry (Suc n) (clock s)) s
      | PRm \<Rightarrow> (goto p PIdle s)\<lparr>lock_file := None\<rparr>
      | _ \<Rightarrow> s)"

text \<open>The first half of the release compares the content with the payload of the acquisition.\<close>

definition release_read :: "nat \<Rightarrow> lock_state \<Rightarrow> lock_state" where
  "release_read p s =
     (case pcs s p of
        PHeld ts \<Rightarrow>
          (case lock_file s of
             Some (_, CRec q t) \<Rightarrow> if q = p \<and> t = ts then goto p PRm s else goto p PIdle s
           | _ \<Rightarrow> goto p PIdle s)
      | _ \<Rightarrow> s)"

datatype lock_event = Acquire nat | Step nat | Release nat | Tick nat | Kill nat

fun lock_do :: "lock_event \<Rightarrow> lock_state \<Rightarrow> lock_state" where
  "lock_do (Acquire p) s =
     (if alive s p \<and> (pcs s p = PIdle \<or> pcs s p = PRefused) then goto p (PTry 0 (clock s)) s else s)"
| "lock_do (Step p) s = (if alive s p then proc_step p s else s)"
| "lock_do (Release p) s = (if alive s p then release_read p s else s)"
| "lock_do (Tick d) s = s\<lparr>clock := clock s + int d\<rparr>"
| "lock_do (Kill p) s = s\<lparr>alive := (alive s)(p := False)\<rparr>"

definition lock_init :: lock_state where
  "lock_init = \<lparr>lock_file = None, pcs = (\<lambda>_. PIdle), alive = (\<lambda>_. True), clock = 0, next_ino = 0\<rparr>"

definition lock_run :: "lock_event list \<Rightarrow> lock_state" where
  "lock_run es = fold lock_do es lock_init"

definition holds_lock :: "lock_state \<Rightarrow> nat \<Rightarrow> bool" where
  "holds_lock s p \<longleftrightarrow> alive s p \<and> (case pcs s p of PHeld _ \<Rightarrow> True | _ \<Rightarrow> False)"

subsection \<open>Mutual exclusion\<close>

definition owner :: "pc \<Rightarrow> bool" where
  "owner c \<longleftrightarrow> (case c of PCreating _ _ \<Rightarrow> True | PHeld _ \<Rightarrow> True | PRm \<Rightarrow> True | _ \<Rightarrow> False)"

lemma owner_simps [simp]:
  "\<not> owner PIdle" "\<not> owner (PTry n ts)" "owner (PCreating t i)" "owner (PHeld t)" "owner PRm"
  "\<not> owner (PRead n)" "\<not> owner (PBreak n)" "\<not> owner (PWait n)" "\<not> owner PRefused"
  by (simp_all add: owner_def)

definition matches :: "nat \<Rightarrow> pc \<Rightarrow> nat \<times> lock_content \<Rightarrow> bool" where
  "matches p c f \<longleftrightarrow>
     (case c of
        PCreating t i \<Rightarrow> f = (i, CEmpty)
      | PHeld t \<Rightarrow> snd f = CRec p t
      | PRm \<Rightarrow> True
      | _ \<Rightarrow> False)"

text \<open>While nobody was killed: the lock file belongs to the one process that owns the lock.\<close>

definition lock_inv :: "lock_state \<Rightarrow> bool" where
  "lock_inv s \<longleftrightarrow> (\<forall>p. alive s p) \<and> (\<forall>p n. pcs s p \<noteq> PBreak n) \<and>
     (case lock_file s of
        None \<Rightarrow> \<forall>p. \<not> owner (pcs s p)
      | Some f \<Rightarrow> \<exists>p. matches p (pcs s p) f \<and> (\<forall>q. owner (pcs s q) \<longrightarrow> q = p))"

lemma matches_owner: "matches p c f \<Longrightarrow> owner c"
  by (auto simp: matches_def split: pc.splits)

lemma lock_invI:
  assumes "\<And>p. alive s p" "\<And>p n. pcs s p \<noteq> PBreak n"
    and "lock_file s = None \<Longrightarrow> \<forall>p. \<not> owner (pcs s p)"
    and "\<And>f. lock_file s = Some f \<Longrightarrow> \<exists>p. matches p (pcs s p) f \<and> (\<forall>q. owner (pcs s q) \<longrightarrow> q = p)"
  shows "lock_inv s"
  using assms by (auto simp: lock_inv_def split: option.splits)

lemma goto_inv:
  assumes "lock_inv s" and "\<not> owner (pcs s p)" "\<not> owner c" "\<And>n. c \<noteq> PBreak n"
  shows "lock_inv (goto p c s)"
proof -
  have "\<exists>r. matches r (pcs (goto p c s) r) f \<and> (\<forall>q. owner (pcs (goto p c s) q) \<longrightarrow> q = r)"
    if f: "lock_file s = Some f" for f
  proof -
    from assms(1) f obtain r where r: "matches r (pcs s r) f" "\<forall>q. owner (pcs s q) \<longrightarrow> q = r"
      by (auto simp: lock_inv_def)
    have "r \<noteq> p" using matches_owner [OF r(1)] assms(2) by auto
    with r assms(3) show ?thesis by (intro exI [of _ r]) (auto simp: goto_def)
  qed
  with assms show ?thesis by (auto simp: lock_inv_def goto_def split: option.splits)
qed

lemma retry_inv: "lock_inv s \<Longrightarrow> \<not> owner (pcs s p) \<Longrightarrow> lock_inv (retry_or_refuse p n s)"
  by (simp add: retry_or_refuse_def goto_inv)

lemma owner_unique:
  assumes "lock_inv s" and "owner (pcs s p)"
  shows "\<exists>f. lock_file s = Some f \<and> matches p (pcs s p) f \<and> (\<forall>q. owner (pcs s q) \<longrightarrow> q = p)"
proof -
  obtain f r where "lock_file s = Some f" "matches r (pcs s r) f" "\<forall>q. owner (pcs s q) \<longrightarrow> q = r"
    using assms by (auto simp: lock_inv_def split: option.splits)
  moreover from this assms(2) have "r = p" by blast
  ultimately show ?thesis by blast
qed

lemma proc_step_inv:
  assumes inv: "lock_inv s"
  shows "lock_inv (proc_step p s)"
proof (cases "pcs s p")
  case (PTry n ts)
  show ?thesis
  proof (cases "lock_file s")
    case None
    with inv PTry show ?thesis
      by (intro lock_invI) (auto simp: proc_step_def goto_def lock_inv_def matches_def)
  next
    case (Some f)
    with inv PTry show ?thesis by (simp add: proc_step_def goto_inv)
  qed
next
  case (PCreating ts ino)
  from owner_unique [OF inv, of p] PCreating have
    "lock_file s = Some (ino, CEmpty)" "\<forall>q. owner (pcs s q) \<longrightarrow> q = p" by (auto simp: matches_def)
  with inv PCreating show ?thesis
    by (intro lock_invI) (auto simp: proc_step_def goto_def lock_inv_def matches_def)
next
  case (PRead n)
  have a: "\<And>q. alive s q" using inv by (simp add: lock_inv_def)
  show ?thesis using PRead inv a
    by (auto simp: proc_step_def retry_inv split: option.splits prod.splits lock_content.splits)
next
  case (PBreak n)
  with inv show ?thesis by (simp add: lock_inv_def)
next
  case (PWait n)
  with inv show ?thesis by (simp add: proc_step_def goto_inv)
next
  case PRm
  from owner_unique [OF inv, of p] PRm have "\<forall>q. owner (pcs s q) \<longrightarrow> q = p" by auto
  with inv PRm show ?thesis
    by (intro lock_invI) (auto simp: proc_step_def goto_def lock_inv_def)
qed (use inv in \<open>simp_all add: proc_step_def\<close>)

lemma release_inv:
  assumes inv: "lock_inv s"
  shows "lock_inv (release_read p s)"
proof (cases "pcs s p")
  case (PHeld ts)
  from owner_unique [OF inv, of p] PHeld obtain i where
    "lock_file s = Some (i, CRec p ts)" "\<forall>q. owner (pcs s q) \<longrightarrow> q = p" by (auto simp: matches_def)
  with inv PHeld show ?thesis
    by (intro lock_invI) (auto simp: release_read_def goto_def lock_inv_def matches_def)
qed (use inv in \<open>simp_all add: release_read_def\<close>)

lemma tick_inv: "lock_inv (s\<lparr>clock := c\<rparr>) = lock_inv s"
  by (simp add: lock_inv_def split: option.splits)

lemma event_inv: "lock_inv s \<Longrightarrow> (\<And>p. e \<noteq> Kill p) \<Longrightarrow> lock_inv (lock_do e s)"
  by (cases e) (auto simp: proc_step_inv release_inv goto_inv tick_inv)

lemma run_inv:
  assumes "\<forall>p. Kill p \<notin> set es"
  shows "lock_inv (lock_run es)"
proof -
  have "lock_inv (fold lock_do es s)" if "lock_inv s" "\<forall>p. Kill p \<notin> set es" for s
    using that
  proof (induction es arbitrary: s)
    case (Cons e es)
    have "lock_inv (lock_do e s)" using Cons.prems by (intro event_inv) auto
    with Cons show ?case by simp
  qed simp
  moreover have "lock_inv lock_init" by (simp add: lock_inv_def lock_init_def)
  ultimately show ?thesis using assms by (simp add: lock_run_def)
qed

text \<open>
  C12. As long as no process is killed, the lock excludes: in every interleaving of the file
  operations of any number of processes no two of them hold the lock.
\<close>

theorem lock_excludes:
  assumes "\<forall>p. Kill p \<notin> set es" and "p \<noteq> q"
  shows "\<not> (holds_lock (lock_run es) p \<and> holds_lock (lock_run es) q)"
proof
  assume "holds_lock (lock_run es) p \<and> holds_lock (lock_run es) q"
  then have "owner (pcs (lock_run es) p)" "owner (pcs (lock_run es) q)"
    by (auto simp: holds_lock_def split: pc.splits)
  with run_inv [OF assms(1)] have "p = q" using owner_unique by metis
  with assms(2) show False ..
qed

theorem lock_excludes_witness:
  "let s = lock_run [Acquire 1, Acquire 2, Step 2, Step 1, Step 2, Step 1] in
     holds_lock s 2 \<and> \<not> (holds_lock s 1 \<and> holds_lock s 2)"
proof -
  let ?es = "[Acquire 1, Acquire 2, Step 2, Step 1, Step 2, Step 1]"
  have "holds_lock (lock_run ?es) 2"
    by (simp add: lock_run_def lock_init_def proc_step_def goto_def holds_lock_def retry_or_refuse_def
        backoff_steps_def)
  moreover have "\<not> (holds_lock (lock_run ?es) 1 \<and> holds_lock (lock_run ?es) 2)"
    by (rule lock_excludes) simp_all
  ultimately show ?thesis by (simp add: Let_def)
qed

text \<open>
  One killed holder breaks the exclusion: when two processes have both judged the dead process's
  lock stale, the second one removes the fresh lock of the first, and both hold it.
\<close>

theorem stale_lock_race:
  "\<exists>es. holds_lock (lock_run es) 2 \<and> holds_lock (lock_run es) 3 \<and> length (filter (\<lambda>e. \<exists>p. e = Kill p) es) = 1"
proof (intro exI)
  let ?es = "[Acquire 1, Step 1, Step 1, Kill 1, Tick 10001, Acquire 2, Acquire 3, Step 2, Step 3, Step 2, Step 3,
    Step 2, Step 2, Step 2, Step 3, Step 3, Step 3]"
  show "holds_lock (lock_run ?es) 2 \<and> holds_lock (lock_run ?es) 3 \<and>
      length (filter (\<lambda>e. \<exists>p. e = Kill p) ?es) = 1"
    by (simp add: lock_run_def lock_init_def proc_step_def goto_def holds_lock_def STALE_LOCK_MS_def)
qed

end
