(* ===== verification/Keyed.thy ===== *)
theory Keyed
  imports Store
begin

text \<open>
  Ledgers: JSON files that hold a list of records, each under a key.  The group ledger of the sync
  extension, the lease ledger of the hub and the port ledger are all read by validating every entry
  and written by encoding every record; the locale \<open>keyed_ledger\<close> states what makes this sound and
  derives what the operations rely on.
\<close>

subsection \<open>Typed access to JSON\<close>

definition as_string :: "json option \<Rightarrow> string option" where
  "as_string v = (case v of Some (JStr s) \<Rightarrow> Some s | _ \<Rightarrow> None)"

definition as_array :: "json option \<Rightarrow> json list option" where
  "as_array v = (case v of Some (JArr xs) \<Rightarrow> Some xs | _ \<Rightarrow> None)"

definition as_object :: "json \<Rightarrow> (string \<times> json) list option" where
  "as_object v = (case v of JObj fs \<Rightarrow> Some fs | _ \<Rightarrow> None)"

text \<open>\<^verbatim>\<open>v ?? d\<close>: null and undefined give way.\<close>

definition nullish :: "json option \<Rightarrow> bool" where
  "nullish v \<longleftrightarrow> v = None \<or> v = Some JNull"

lemma json_access [simp]:
  "as_string (Some (JStr s)) = Some s" "as_string None = None" "as_string (Some JNull) = None"
  "as_array (Some (JArr xs)) = Some xs" "as_array None = None"
  "as_object (JObj fs) = Some fs" "as_object JNull = None" "as_object (JStr s) = None"
  "nullish None" "nullish (Some JNull)" "\<not> nullish (Some (JStr s))" "\<not> nullish (Some (JNum n))"
  by (simp_all add: as_string_def as_array_def as_object_def nullish_def)

lemma as_string_Some: "as_string v = Some s \<longleftrightarrow> v = Some (JStr s)"
  by (auto simp: as_string_def split: option.splits json.splits)

lemma as_array_Some: "as_array v = Some xs \<longleftrightarrow> v = Some (JArr xs)"
  by (auto simp: as_array_def split: option.splits json.splits)

lemma as_object_Some: "as_object v = Some fs \<longleftrightarrow> v = JObj fs"
  by (auto simp: as_object_def split: json.splits)

subsection \<open>Identifiers\<close>

text \<open>\<^verbatim>\<open>/^[a-z][a-z0-9-]*$/\<close>\<close>

definition slug :: "string \<Rightarrow> bool" where
  "slug s \<longleftrightarrow> s \<noteq> [] \<and> is_lower (hd s) \<and>
     list_all (\<lambda>c. is_lower c \<or> is_digit c \<or> c = CHR ''-'') s"

lemma slug_no_slash: "slug s \<Longrightarrow> CHR ''/'' \<notin> set s"
  by (auto simp: slug_def list_all_iff is_lower_def is_digit_def)

lemma slug_no_dot: "slug s \<Longrightarrow> CHR ''.'' \<notin> set s"
  by (auto simp: slug_def list_all_iff is_lower_def is_digit_def)

subsection \<open>The ledger contract\<close>

locale keyed_ledger =
  fixes decode :: "json \<Rightarrow> 'e + 'r"
    and encode :: "'r \<Rightarrow> json"
    and valid :: "'r \<Rightarrow> bool"
    and key :: "'r \<Rightarrow> 'k"
  assumes decode_encode: "valid r \<Longrightarrow> decode (encode r) = Inr r"
    and decode_valid: "decode j = Inr r \<Longrightarrow> valid r"
begin

lemma decode_normal: "decode j = Inr r \<Longrightarrow> decode (encode r) = Inr r"
  by (rule decode_encode) (rule decode_valid)

lemma read_written: "list_all valid rs \<Longrightarrow> rmap decode (map encode rs) = Inr rs"
  by (induction rs) (simp_all add: decode_encode)

lemma read_valid: "rmap decode js = Inr rs \<Longrightarrow> list_all valid rs"
  by (induction js arbitrary: rs) (auto simp: rbind_eq_Inr decode_valid)

lemma encode_inj: "valid r \<Longrightarrow> valid q \<Longrightarrow> encode r = encode q \<Longrightarrow> r = q"
  using decode_encode by (metis sum.inject(2))

lemma find_added:
  "find_first (\<lambda>r. key r = k) (rs @ [q]) =
     (case find_first (\<lambda>r. key r = k) rs of None \<Rightarrow> (if key q = k then Some q else None) | Some r \<Rightarrow> Some r)"
  by (cases "find_first (\<lambda>r. key r = k) rs") (simp_all add: find_first_append del: find_first_None)

lemma find_removed:
  "find_first (\<lambda>r. key r = k) (filter (\<lambda>r. key r \<noteq> k') rs) =
     (if k = k' then None else find_first (\<lambda>r. key r = k) rs)"
proof (cases "k = k'")
  case False
  then show ?thesis by (induction rs) auto
qed auto

lemma valid_removed: "list_all valid rs \<Longrightarrow> list_all valid (filter p rs)"
  by (induction rs) auto

end

end
