(* ===== verification/Ledger.thy ===== *)
theory Ledger
  imports Keyed
begin

text \<open>
  The group ledger of the sync extension (opendweb-ext-sync, ledger.mjs): validation of group
  records, the fail-closed load, the locked read-change-write cycle, creation and deletion of
  groups, and the directory of a root's repository.
\<close>

subsection \<open>Records\<close>

datatype root_mode = Oneway | Twoway

fun mode_name :: "root_mode \<Rightarrow> string" where
  "mode_name Oneway = ''oneway''"
| "mode_name Twoway = ''twoway''"

record sync_member =
  endpointId :: string
  deviceName :: string

record sync_root =
  root_id :: string
  localPath :: string
  root_mode :: root_mode
  seedAuthority :: "string option"

record sync_group =
  group_id :: string
  group_name :: string
  members :: "sync_member list"
  roots :: "sync_root list"

text \<open>One constructor per \<^verbatim>\<open>throw\<close> of the ledger code.\<close>

datatype ledger_error =
    GroupNotObject
  | GroupIdInvalid "json option"
  | GroupNameInvalid string
  | MembersEmpty string
  | MemberNotObject string
  | MemberEndpointInvalid string "json option"
  | MemberNameInvalid string
  | MemberDuplicate string string
  | RootsEmpty string
  | RootNotObject string
  | RootIdInvalid string
  | RootDuplicate string string
  | RootPathRelative string string
  | RootModeInvalid string string
  | SeedNotMember string string
  | LedgerMalformed
  | LedgerShape
  | GroupConflict string
  | InputNotObject
  | RepoIdInvalid string

subsection \<open>Validation\<close>

definition ENDPOINT_RE :: "string \<Rightarrow> bool" where
  "ENDPOINT_RE s \<longleftrightarrow> hex_between 8 64 s"

definition short_name :: "json option \<Rightarrow> string option" where
  "short_name v =
     (case as_string v of
        Some s \<Rightarrow> if s = '''' \<or> 64 < length s then None else Some s
      | None \<Rightarrow> None)"

definition check_member :: "string \<Rightarrow> string list \<Rightarrow> json \<Rightarrow> ledger_error + sync_member" where
  "check_member gid seen m =
     (case as_object m of
        None \<Rightarrow> Inl (MemberNotObject gid)
      | Some mm \<Rightarrow>
          (case as_string (jget mm ''endpointId'') of
             None \<Rightarrow> Inl (MemberEndpointInvalid gid (jget mm ''endpointId''))
           | Some ep \<Rightarrow>
               if \<not> ENDPOINT_RE ep then Inl (MemberEndpointInvalid gid (Some (JStr ep)))
               else (case short_name (jget mm ''deviceName'') of
                       None \<Rightarrow> Inl (MemberNameInvalid gid)
                     | Some dn \<Rightarrow>
                         if ep \<in> set seen then Inl (MemberDuplicate gid ep)
                         else Inr \<lparr>endpointId = ep, deviceName = dn\<rparr>)))"

fun check_members :: "string \<Rightarrow> string list \<Rightarrow> json list \<Rightarrow> ledger_error + sync_member list" where
  "check_members gid seen [] = Inr []"
| "check_members gid seen (m # ms) =
     rbind (check_member gid seen m) (\<lambda>x.
       rbind (check_members gid (endpointId x # seen) ms) (\<lambda>xs. Inr (x # xs)))"

text \<open>\<^verbatim>\<open>rr.mode ?? "twoway"\<close>, then membership in \<^verbatim>\<open>ROOT_MODES\<close>.\<close>

definition check_mode :: "json option \<Rightarrow> root_mode option" where
  "check_mode v =
     (if nullish v then Some Twoway
      else if v = Some (JStr ''oneway'') then Some Oneway
      else if v = Some (JStr ''twoway'') then Some Twoway
      else None)"

definition check_seed :: "string list \<Rightarrow> json option \<Rightarrow> string option option" where
  "check_seed eps v =
     (if nullish v then Some None
      else (case as_string v of
              Some s \<Rightarrow> if s \<in> set eps then Some (Some s) else None
            | None \<Rightarrow> None))"

definition check_root ::
  "string \<Rightarrow> string list \<Rightarrow> string list \<Rightarrow> json \<Rightarrow> ledger_error + sync_root" where
  "check_root gid eps seen r =
     (case as_object r of
        None \<Rightarrow> Inl (RootNotObject gid)
      | Some rr \<Rightarrow>
          (case as_string (jget rr ''id'') of
             None \<Rightarrow> Inl (RootIdInvalid gid)
           | Some rid \<Rightarrow>
               if \<not> slug rid then Inl (RootIdInvalid gid)
               else if rid \<in> set seen then Inl (RootDuplicate gid rid)
               else (case as_string (jget rr ''localPath'') of
                       None \<Rightarrow> Inl (RootPathRelative gid rid)
                     | Some p \<Rightarrow>
                         if \<not> startsWith p ''/'' then Inl (RootPathRelative gid rid)
                         else (case check_mode (jget rr ''mode'') of
                                 None \<Rightarrow> Inl (RootModeInvalid gid rid)
                               | Some md \<Rightarrow>
                                   (case check_seed eps (jget rr ''seedAuthority'') of
                                      None \<Rightarrow> Inl (SeedNotMember gid rid)
                                    | Some sa \<Rightarrow>
                                        Inr \<lparr>root_id = rid, localPath = p, root_mode = md,
                                             seedAuthority = sa\<rparr>)))))"

fun check_roots ::
  "string \<Rightarrow> string list \<Rightarrow> string list \<Rightarrow> json list \<Rightarrow> ledger_error + sync_root list" where
  "check_roots gid eps seen [] = Inr []"
| "check_roots gid eps seen (r # rs) =
     rbind (check_root gid eps seen r) (\<lambda>x.
       rbind (check_roots gid eps (root_id x # seen) rs) (\<lambda>xs. Inr (x # xs)))"

definition assertGroupValid :: "json \<Rightarrow> ledger_error + sync_group" where
  "assertGroupValid g =
     (case as_object g of
        None \<Rightarrow> Inl GroupNotObject
      | Some grp \<Rightarrow>
          (case as_string (jget grp ''id'') of
             None \<Rightarrow> Inl (GroupIdInvalid (jget grp ''id''))
           | Some gid \<Rightarrow>
               if \<not> slug gid then Inl (GroupIdInvalid (Some (JStr gid)))
               else (case short_name (jget grp ''name'') of
                       None \<Rightarrow> Inl (GroupNameInvalid gid)
                     | Some nm \<Rightarrow>
                         (case as_array (jget grp ''members'') of
                            None \<Rightarrow> Inl (MembersEmpty gid)
                          | Some ms \<Rightarrow>
                              if ms = [] then Inl (MembersEmpty gid)
                              else rbind (check_members gid [] ms) (\<lambda>mems.
                                     (case as_array (jget grp ''roots'') of
                                        None \<Rightarrow> Inl (RootsEmpty gid)
                                      | Some rs \<Rightarrow>
                                          if rs = [] then Inl (RootsEmpty gid)
                                          else rbind (check_roots gid (map endpointId mems) [] rs) (\<lambda>rts.
                                                 Inr \<lparr>group_id = gid, group_name = nm, members = mems,
                                                      roots = rts\<rparr>)))))))"

subsection \<open>The file\<close>

definition member_json :: "sync_member \<Rightarrow> json" where
  "member_json m = JObj [(''endpointId'', JStr (endpointId m)), (''deviceName'', JStr (deviceName m))]"

definition root_json :: "sync_root \<Rightarrow> json" where
  "root_json r =
     JObj [(''id'', JStr (root_id r)), (''localPath'', JStr (localPath r)),
           (''mode'', JStr (mode_name (root_mode r))),
           (''seedAuthority'', case seedAuthority r of None \<Rightarrow> JNull | Some s \<Rightarrow> JStr s)]"

definition group_json :: "sync_group \<Rightarrow> json" where
  "group_json g =
     JObj [(''id'', JStr (group_id g)), (''name'', JStr (group_name g)),
           (''members'', JArr (map member_json (members g))),
           (''roots'', JArr (map root_json (roots g)))]"

definition ledger_json :: "sync_group list \<Rightarrow> json" where
  "ledger_json gs = JObj [(''version'', JNum 1), (''groups'', JArr (map group_json gs))]"

definition emptyLedger :: "sync_group list" where
  "emptyLedger = []"

record ledger_world =
  groups_file :: "jfile option"
  repo_dirs :: "string list"

definition loadLedger :: "ledger_world \<Rightarrow> ledger_error + sync_group list" where
  "loadLedger w =
     (case groups_file w of
        None \<Rightarrow> Inr emptyLedger
      | Some Malformed \<Rightarrow> Inl LedgerMalformed
      | Some (Parses (JObj fs)) \<Rightarrow>
          (case (jget fs ''version'', as_array (jget fs ''groups'')) of
             (Some (JNum v), Some gs) \<Rightarrow> if v = 1 then rmap assertGroupValid gs else Inl LedgerShape
           | _ \<Rightarrow> Inl LedgerShape)
      | Some (Parses _) \<Rightarrow> Inl LedgerShape)"

text \<open>
  The locked cycle.  \<open>locked\<close> says whether the file lock was obtained; a refused lock is the
  value \<^const>\<open>False\<close>, and a change that throws leaves the file as it was.
\<close>

definition mutateLedger ::
  "bool \<Rightarrow> (sync_group list \<Rightarrow> ledger_error + sync_group list) \<Rightarrow> (ledger_world, ledger_error, bool) eff" where
  "mutateLedger locked f w =
     (if \<not> locked then (Inr False, w)
      else (case rbind (loadLedger w) f of
              Inl e \<Rightarrow> (Inl e, w)
            | Inr gs \<Rightarrow> (Inr True, w\<lparr>groups_file := Some (Parses (ledger_json gs))\<rparr>)))"

definition findGroup :: "sync_group list \<Rightarrow> string \<Rightarrow> sync_group option" where
  "findGroup gs gid = find_first (\<lambda>g. group_id g = gid) gs"

definition syncDataDir :: "string \<Rightarrow> string" where
  "syncDataDir home = home @ ''/plugins/sync''"

definition repoDir :: "string \<Rightarrow> string \<Rightarrow> string \<Rightarrow> ledger_error + string" where
  "repoDir home gid rid =
     (if \<not> slug gid then Inl (RepoIdInvalid gid)
      else if \<not> slug rid then Inl (RepoIdInvalid rid)
      else Inr (syncDataDir home @ ''/'' @ gid @ ''/'' @ rid))"

definition gitdirFor :: "string \<Rightarrow> string \<Rightarrow> string \<Rightarrow> ledger_error + string" where
  "gitdirFor home gid rid = rbind (repoDir home gid rid) (\<lambda>d. Inr (d @ ''/git''))"

subsection \<open>Creating and deleting groups\<close>

text \<open>
  The input of \<^verbatim>\<open>createGroup\<close>, which comes from a request body.  A root that is not an object is
  spread into an object that has none of the fields the validation asks for; a null root makes
  \<^verbatim>\<open>r.id\<close> throw.
\<close>

record group_input =
  in_id :: "json option"
  in_name :: "json option"
  in_members :: "json list"
  in_roots :: "json list"

fun decimal :: "nat \<Rightarrow> string" where
  "decimal n = (if n < 10 then [char_of (48 + n)] else decimal (n div 10) @ [char_of (48 + n mod 10)])"

declare decimal.simps [simp del]

fun root_input :: "nat \<Rightarrow> json \<Rightarrow> ledger_error + json" where
  "root_input i JNull = Inl InputNotObject"
| "root_input i (JObj fs) =
     Inr (JObj (if nullish (jget fs ''id'') then aput ''id'' (JStr (CHR ''r'' # decimal (i + 1))) fs else fs))"
| "root_input i _ = Inr (JObj [(''id'', JStr (CHR ''r'' # decimal (i + 1)))])"

fun root_inputs :: "nat \<Rightarrow> json list \<Rightarrow> ledger_error + json list" where
  "root_inputs i [] = Inr []"
| "root_inputs i (r # rs) = rbind (root_input i r) (\<lambda>x. rbind (root_inputs (Suc i) rs) (\<lambda>xs. Inr (x # xs)))"

definition input_group :: "string \<Rightarrow> group_input \<Rightarrow> ledger_error + sync_group" where
  "input_group rnd inp =
     rbind (root_inputs 0 (in_roots inp)) (\<lambda>rs.
       assertGroupValid
         (JObj ([(''id'', if nullish (in_id inp) then JStr (''g-'' @ rnd) else the (in_id inp))] @
                (case in_name inp of None \<Rightarrow> [] | Some v \<Rightarrow> [(''name'', v)]) @
                [(''members'', JArr (in_members inp)), (''roots'', JArr rs)])))"

datatype create_result = Created sync_group | CreateInvalid ledger_error | CreateConflict string | CreateLocked

definition add_group :: "sync_group \<Rightarrow> sync_group list \<Rightarrow> ledger_error + sync_group list" where
  "add_group g gs =
     (case findGroup gs (group_id g) of
        Some existing \<Rightarrow>
          if group_json existing = group_json g then Inr gs else Inl (GroupConflict (group_id g))
      | None \<Rightarrow> Inr (gs @ [g]))"

definition make_dirs :: "string \<Rightarrow> sync_group \<Rightarrow> ledger_world \<Rightarrow> ledger_world" where
  "make_dirs home g w =
     fold (\<lambda>r w. case repoDir home (group_id g) (root_id r) of
                   Inr d \<Rightarrow> w\<lparr>repo_dirs := List.insert d (repo_dirs w)\<rparr> | Inl _ \<Rightarrow> w) (roots g) w"

definition createGroup ::
  "string \<Rightarrow> bool \<Rightarrow> string \<Rightarrow> group_input \<Rightarrow> (ledger_world, ledger_error, create_result) eff" where
  "createGroup home locked rnd inp w =
     (case input_group rnd inp of
        Inl e \<Rightarrow> (Inr (CreateInvalid e), w)
      | Inr g \<Rightarrow>
          (case mutateLedger locked (add_group g) w of
             (Inl (GroupConflict i), w') \<Rightarrow> (Inr (CreateConflict i), w')
           | (Inl e, w') \<Rightarrow> (Inl e, w')
           | (Inr False, w') \<Rightarrow> (Inr CreateLocked, w')
           | (Inr True, w') \<Rightarrow> (Inr (Created g), make_dirs home g w')))"

definition deleteGroup :: "bool \<Rightarrow> string \<Rightarrow> (ledger_world, ledger_error, bool) eff" where
  "deleteGroup locked gid = mutateLedger locked (\<lambda>gs. Inr (filter (\<lambda>g. group_id g \<noteq> gid) gs))"

subsection \<open>What validation guarantees\<close>

definition valid_member :: "sync_member \<Rightarrow> bool" where
  "valid_member m \<longleftrightarrow> ENDPOINT_RE (endpointId m) \<and> deviceName m \<noteq> '''' \<and> length (deviceName m) \<le> 64"

definition valid_root :: "string list \<Rightarrow> sync_root \<Rightarrow> bool" where
  "valid_root eps r \<longleftrightarrow> slug (root_id r) \<and> startsWith (localPath r) ''/'' \<and>
     set_option (seedAuthority r) \<subseteq> set eps"

definition valid_group :: "sync_group \<Rightarrow> bool" where
  "valid_group g \<longleftrightarrow>
     slug (group_id g) \<and> group_name g \<noteq> '''' \<and> length (group_name g) \<le> 64 \<and>
     members g \<noteq> [] \<and> list_all valid_member (members g) \<and> distinct (map endpointId (members g)) \<and>
     roots g \<noteq> [] \<and> list_all (valid_root (map endpointId (members g))) (roots g) \<and>
     distinct (map root_id (roots g))"

lemma short_name_Some: "short_name v = Some s \<longleftrightarrow> v = Some (JStr s) \<and> s \<noteq> '''' \<and> length s \<le> 64"
  by (auto simp: short_name_def as_string_Some split: option.splits)

lemma short_name_JStr: "s \<noteq> '''' \<Longrightarrow> length s \<le> 64 \<Longrightarrow> short_name (Some (JStr s)) = Some s"
  by (simp add: short_name_Some)

lemma check_member_sound:
  "check_member gid seen m = Inr x \<Longrightarrow> valid_member x \<and> endpointId x \<notin> set seen"
  by (auto simp: check_member_def valid_member_def short_name_Some split: option.splits if_splits)

lemma check_member_complete:
  "valid_member x \<Longrightarrow> endpointId x \<notin> set seen \<Longrightarrow> check_member gid seen (member_json x) = Inr x"
  by (simp add: check_member_def valid_member_def member_json_def jget_def short_name_JStr)

lemma check_members_sound:
  "check_members gid seen ms = Inr xs \<Longrightarrow>
     list_all valid_member xs \<and> distinct (map endpointId xs) \<and> set seen \<inter> endpointId ` set xs = {} \<and>
     length xs = length ms"
proof (induction ms arbitrary: seen xs)
  case Nil
  then show ?case by simp
next
  case (Cons m ms)
  then obtain y ys where "check_member gid seen m = Inr y"
    "check_members gid (endpointId y # seen) ms = Inr ys" "xs = y # ys"
    by (auto simp: rbind_eq_Inr)
  with Cons.IH [of "endpointId y # seen" ys] check_member_sound [of gid seen m y]
  show ?case by auto
qed

lemma check_members_complete:
  "list_all valid_member xs \<Longrightarrow> distinct (map endpointId xs) \<Longrightarrow> set seen \<inter> endpointId ` set xs = {} \<Longrightarrow>
     check_members gid seen (map member_json xs) = Inr xs"
  by (induction xs arbitrary: seen) (auto simp: check_member_complete)

lemma check_mode_name [simp]: "check_mode (Some (JStr (mode_name md))) = Some md"
  by (cases md) (simp_all add: check_mode_def)

lemma check_seed_sound: "check_seed eps v = Some sa \<Longrightarrow> set_option sa \<subseteq> set eps"
  by (auto simp: check_seed_def split: option.splits if_splits)

lemma check_seed_complete:
  "set_option sa \<subseteq> set eps \<Longrightarrow>
     check_seed eps (Some (case sa of None \<Rightarrow> JNull | Some s \<Rightarrow> JStr s)) = Some sa"
  by (cases sa) (simp_all add: check_seed_def)

lemma check_root_sound:
  "check_root gid eps seen r = Inr x \<Longrightarrow> valid_root eps x \<and> root_id x \<notin> set seen"
  by (auto simp: check_root_def valid_root_def split: option.splits if_splits dest!: check_seed_sound)

lemma check_root_complete:
  assumes "valid_root eps x" and "root_id x \<notin> set seen"
  shows "check_root gid eps seen (root_json x) = Inr x"
  using assms
  by (simp add: check_root_def valid_root_def root_json_def jget_def check_seed_complete)

lemma check_roots_sound:
  "check_roots gid eps seen rs = Inr xs \<Longrightarrow>
     list_all (valid_root eps) xs \<and> distinct (map root_id xs) \<and> set seen \<inter> root_id ` set xs = {} \<and>
     length xs = length rs"
proof (induction rs arbitrary: seen xs)
  case Nil
  then show ?case by simp
next
  case (Cons r rs)
  then obtain y ys where "check_root gid eps seen r = Inr y"
    "check_roots gid eps (root_id y # seen) rs = Inr ys" "xs = y # ys"
    by (auto simp: rbind_eq_Inr)
  with Cons.IH [of "root_id y # seen" ys] check_root_sound [of gid eps seen r y]
  show ?case by auto
qed

lemma check_roots_complete:
  "list_all (valid_root eps) xs \<Longrightarrow> distinct (map root_id xs) \<Longrightarrow> set seen \<inter> root_id ` set xs = {} \<Longrightarrow>
     check_roots gid eps seen (map root_json xs) = Inr xs"
  by (induction xs arbitrary: seen) (auto simp: check_root_complete)

lemma assertGroupValid_sound: "assertGroupValid j = Inr g \<Longrightarrow> valid_group g"
  by (auto simp: assertGroupValid_def valid_group_def rbind_eq_Inr short_name_Some
      dest!: check_members_sound check_roots_sound split: option.splits if_splits)

lemma assertGroupValid_complete: "valid_group g \<Longrightarrow> assertGroupValid (group_json g) = Inr g"
  by (simp add: assertGroupValid_def valid_group_def group_json_def jget_def short_name_JStr
      check_members_complete check_roots_complete)

interpretation gl: keyed_ledger assertGroupValid group_json valid_group group_id
  by unfold_locales (simp_all add: assertGroupValid_complete assertGroupValid_sound)

lemma loadLedger_valid: "loadLedger w = Inr gs \<Longrightarrow> list_all valid_group gs"
  by (auto simp: loadLedger_def emptyLedger_def gl.read_valid
      split: option.splits jfile.splits json.splits if_splits)

lemma loadLedger_written:
  "list_all valid_group gs \<Longrightarrow> loadLedger (w\<lparr>groups_file := Some (Parses (ledger_json gs))\<rparr>) = Inr gs"
  by (simp add: loadLedger_def ledger_json_def jget_def gl.read_written)

lemma make_dirs_file [simp]: "groups_file (make_dirs home g w) = groups_file w"
proof -
  have "groups_file (fold (\<lambda>r w. case repoDir home (group_id g) (root_id r) of
      Inr d \<Rightarrow> w\<lparr>repo_dirs := List.insert d (repo_dirs w)\<rparr> | Inl _ \<Rightarrow> w) rs w) = groups_file w" for rs
    by (induction rs arbitrary: w) (auto split: sum.splits)
  then show ?thesis by (simp add: make_dirs_def)
qed

lemma loadLedger_cong: "groups_file w = groups_file v \<Longrightarrow> loadLedger w = loadLedger v"
  by (simp add: loadLedger_def)

lemma input_group_valid: "input_group rnd inp = Inr g \<Longrightarrow> valid_group g"
  by (auto simp: input_group_def rbind_eq_Inr assertGroupValid_sound)

lemma findGroup_mem: "findGroup gs i = Some g \<Longrightarrow> g \<in> set gs \<and> group_id g = i"
  unfolding findGroup_def by (drule find_first_SomeD) simp

subsection \<open>The operations\<close>

text \<open>
  Creating a group is validate, lock, and add under a fresh id: invalid input, a refused lock and
  an existing group of another shape leave the ledger as it was, the same group again succeeds and
  changes nothing, and otherwise the ledger read back is the old one with the new group appended.
  A ledger that does not load makes the call throw and is not replaced.
\<close>

theorem createGroup_outcomes:
  "case input_group rnd inp of
     Inl e \<Rightarrow> createGroup home locked rnd inp w = (Inr (CreateInvalid e), w)
   | Inr g \<Rightarrow>
       if \<not> locked then createGroup home locked rnd inp w = (Inr CreateLocked, w)
       else (case loadLedger w of
               Inl e \<Rightarrow> snd (createGroup home locked rnd inp w) = w
             | Inr gs \<Rightarrow>
                 let (r, w') = createGroup home locked rnd inp w
                 in (case findGroup gs (group_id g) of
                       None \<Rightarrow> r = Inr (Created g) \<and> loadLedger w' = Inr (gs @ [g])
                     | Some g' \<Rightarrow>
                         if g' = g then r = Inr (Created g) \<and> loadLedger w' = Inr gs
                         else r = Inr (CreateConflict (group_id g)) \<and> w' = w))"
proof (cases "input_group rnd inp")
  case (Inl e)
  then show ?thesis by (simp add: createGroup_def)
next
  case (Inr g)
  show ?thesis
  proof (cases locked)
    case False
    with Inr show ?thesis by (simp add: createGroup_def mutateLedger_def)
  next
    case True
    show ?thesis
    proof (cases "loadLedger w")
      case (Inl e)
      with Inr True show ?thesis
        by (auto simp: createGroup_def mutateLedger_def split: ledger_error.split)
    next
      case load: (Inr gs)
      have v: "valid_group g" "list_all valid_group gs"
        using Inr load by (auto intro: input_group_valid loadLedger_valid)
      let ?put = "\<lambda>gs. w\<lparr>groups_file := Some (Parses (ledger_json gs))\<rparr>"
      have w: "loadLedger (make_dirs home g (?put gs)) = Inr gs" if "list_all valid_group gs" for gs
        using loadLedger_written [OF that, of w] loadLedger_cong [of "make_dirs home g (?put gs)" "?put gs"]
        by simp
      show ?thesis
      proof (cases "findGroup gs (group_id g)")
        case None
        with Inr True load v w [of "gs @ [g]"] show ?thesis
          by (simp add: createGroup_def mutateLedger_def add_group_def)
      next
        case (Some g')
        have "valid_group g'" using findGroup_mem [OF Some] v(2) by (auto simp: list_all_iff)
        then have "group_json g' = group_json g \<longleftrightarrow> g' = g" using gl.encode_inj v(1) by blast
        with Some Inr True load w [OF v(2)] show ?thesis
          by (simp add: createGroup_def mutateLedger_def add_group_def)
      qed
    qed
  qed
qed

text \<open>
  Deleting a group removes it and nothing else: afterwards every other id finds what it found
  before, and the deleted one finds nothing.
\<close>

theorem deleteGroup_exact:
  assumes "loadLedger w = Inr gs"
  shows "\<exists>w' gs'. deleteGroup True gid w = (Inr True, w') \<and> loadLedger w' = Inr gs' \<and>
     findGroup gs' = (findGroup gs)(gid := None)"
proof -
  let ?gs = "filter (\<lambda>g. group_id g \<noteq> gid) gs"
  let ?w = "w\<lparr>groups_file := Some (Parses (ledger_json ?gs))\<rparr>"
  have "deleteGroup True gid w = (Inr True, ?w)"
    using assms by (simp add: deleteGroup_def mutateLedger_def)
  moreover have "loadLedger ?w = Inr ?gs"
    using loadLedger_valid [OF assms] by (intro loadLedger_written gl.valid_removed)
  moreover have "findGroup ?gs = (findGroup gs)(gid := None)"
    by (auto simp: fun_eq_iff findGroup_def gl.find_removed)
  ultimately show ?thesis by blast
qed

text \<open>
  Repository directories cannot escape or collide: a directory is only given for well-formed
  ids, it lies below the data directory without a \<^verbatim>\<open>..\<close> or any further separator, and different
  roots get different directories, neither inside the other.
\<close>

theorem repoDir_separate:
  assumes d: "repoDir home g r = Inr d" and d': "repoDir home g' r' = Inr d'"
  shows "d = syncDataDir home @ ''/'' @ g @ ''/'' @ r \<and> CHR ''.'' \<notin> set (g @ r) \<and>
    CHR ''/'' \<notin> set (g @ r) \<and> g \<noteq> [] \<and> r \<noteq> [] \<and>
    (d' = d \<or> startsWith d' (d @ ''/'')) = (g' = g \<and> r' = r)"
proof -
  from d have s: "slug g" "slug r" "d = syncDataDir home @ ''/'' @ g @ ''/'' @ r"
    by (auto simp: repoDir_def split: if_splits)
  from d' have s': "slug g'" "slug r'" "d' = syncDataDir home @ ''/'' @ g' @ ''/'' @ r'"
    by (auto simp: repoDir_def split: if_splits)
  have split2: "split_on CHR ''/'' (a @ CHR ''/'' # b) = [a, b]" if "slug a" "slug b" for a b
    using that by (simp add: split_on_append split_free slug_no_slash)
  have same: "g' = g \<and> r' = r" if "d' = d"
  proof -
    have "syncDataDir home @ ''/'' @ g' @ ''/'' @ r' = syncDataDir home @ ''/'' @ g @ ''/'' @ r"
      using that unfolding s(3) s'(3) .
    then have "g' @ CHR ''/'' # r' = g @ CHR ''/'' # r" by simp
    then have "split_on CHR ''/'' (g' @ CHR ''/'' # r') = split_on CHR ''/'' (g @ CHR ''/'' # r)"
      by (rule arg_cong)
    then show ?thesis unfolding split2 [OF s'(1,2)] split2 [OF s(1,2)] by simp
  qed
  have out: False if "startsWith d' (d @ ''/'')"
  proof -
    from that obtain t where
      "syncDataDir home @ ''/'' @ g' @ ''/'' @ r' = (syncDataDir home @ ''/'' @ g @ ''/'' @ r) @ ''/'' @ t"
      unfolding s(3) s'(3) startsWith_iff by auto
    then have t: "g' @ CHR ''/'' # r' = g @ CHR ''/'' # r @ CHR ''/'' # t" by simp
    have "split_on CHR ''/'' (g @ CHR ''/'' # r @ CHR ''/'' # t) = g # r # split_on CHR ''/'' t"
      using s by (simp add: split_on_append slug_no_slash)
    with split2 [OF s'(1,2)] have "[g', r'] = g # r # split_on CHR ''/'' t" unfolding t by simp
    then have "split_on CHR ''/'' t = []" by (metis list.inject)
    then show False by simp
  qed
  have "(d' = d \<or> startsWith d' (d @ ''/'')) = (g' = g \<and> r' = r)"
    using same out d d' by (metis sum.inject(2))
  with s show ?thesis by (simp add: slug_no_dot slug_no_slash) (simp add: slug_def)
qed

theorem repoDir_separate_witness:
  "repoDir ''/h'' ''g'' ''r1'' = Inr ''/h/plugins/sync/g/r1'' \<and>
   \<not> startsWith ''/h/plugins/sync/g/r1'' (''/h/plugins/sync/g/r'' @ ''/'')"
proof -
  have d: "repoDir ''/h'' ''g'' ''r'' = Inr ''/h/plugins/sync/g/r''"
    by (simp add: repoDir_def slug_def is_lower_def is_digit_def syncDataDir_def)
  have d': "repoDir ''/h'' ''g'' ''r1'' = Inr ''/h/plugins/sync/g/r1''"
    by (simp add: repoDir_def slug_def is_lower_def is_digit_def syncDataDir_def)
  show ?thesis using repoDir_separate [OF d d'] d' by simp
qed

definition demo_group :: sync_group where
  "demo_group = \<lparr>group_id = ''g'', group_name = ''docs'',
     members = [\<lparr>endpointId = ''0123abcd'', deviceName = ''laptop''\<rparr>],
     roots = [\<lparr>root_id = ''r1'', localPath = ''/home/a'', root_mode = Twoway, seedAuthority = None\<rparr>]\<rparr>"

lemma demo_group_valid: "valid_group demo_group"
  by (simp add: valid_group_def demo_group_def valid_member_def valid_root_def ENDPOINT_RE_def hex_between_def
      is_hex_def is_digit_def slug_def is_lower_def startsWith_def)

theorem deleteGroup_exact_witness:
  "\<exists>w' gs'. deleteGroup True ''g'' \<lparr>groups_file = Some (Parses (ledger_json [demo_group])), repo_dirs = []\<rparr>
       = (Inr True, w') \<and>
     loadLedger w' = Inr gs' \<and> findGroup gs' = (findGroup [demo_group])(''g'' := None)"
  using deleteGroup_exact [of "\<lparr>groups_file = Some (Parses (ledger_json [demo_group])), repo_dirs = []\<rparr>"
      "[demo_group]" "''g''"]
    loadLedger_written [of "[demo_group]" "\<lparr>groups_file = None, repo_dirs = []\<rparr>"] demo_group_valid
  by simp

end
