(* ===== verification/Ignore.thy ===== *)
theory Ignore
  imports Store
begin

text \<open>
  The ignore rules of a synced root (opendweb-ext-sync, ignore.mjs).

  The code turns a pattern into the source text of a regular expression.  The model keeps the
  expression as a list of items, one per construct the code can emit, and matches it as the
  anchored expression is matched.  Bracket expressions are copied into the regular expression as
  they are; the model covers those without a backslash.
\<close>

subsection \<open>Patterns\<close>

datatype glob_item =
    AnyChars
  | SegChars
  | SegChar
  | CharClass bool "(char \<times> char) list"
  | Literal char

text \<open>
  The content of a bracket expression, as JavaScript reads it: single characters and ranges, after
  an optional caret.  A range in the wrong order is a \<^verbatim>\<open>SyntaxError\<close>.
\<close>

fun class_items :: "string \<Rightarrow> (char \<times> char) list option" where
  "class_items (a # b # c # r) =
     (if b = CHR ''-'' then
        (if a \<le> c then map_option (Cons (a, c)) (class_items r) else None)
      else map_option (Cons (a, a)) (class_items (b # c # r)))"
| "class_items (a # r) = map_option (Cons (a, a)) (class_items r)"
| "class_items [] = Some []"

definition char_class :: "string \<Rightarrow> glob_item option" where
  "char_class s =
     (if CHR 0x5C \<in> set s then None
      else if s \<noteq> [] \<and> hd s = CHR ''^'' then map_option (CharClass True) (class_items (tl s))
      else map_option (CharClass False) (class_items s))"

lemma length_after_class: "length (dropWhile p xs) - Suc 0 < Suc (length xs)"
  using length_dropWhile_le [of p xs] by simp

function globToRegExp :: "string \<Rightarrow> glob_item list option" where
  "globToRegExp [] = Some []"
| "globToRegExp (c # cs) =
     (if c = CHR ''*'' then
        (if cs \<noteq> [] \<and> hd cs = CHR ''*'' then
           map_option (Cons AnyChars)
             (globToRegExp (if tl cs \<noteq> [] \<and> hd (tl cs) = CHR ''/'' then tl (tl cs) else tl cs))
         else map_option (Cons SegChars) (globToRegExp cs))
      else if c = CHR ''?'' then map_option (Cons SegChar) (globToRegExp cs)
      else if c = CHR ''['' \<and> CHR '']'' \<in> set cs then
        (case char_class (takeWhile (\<lambda>x. x \<noteq> CHR '']'') cs) of
           None \<Rightarrow> None
         | Some k \<Rightarrow> map_option (Cons k) (globToRegExp (tl (dropWhile (\<lambda>x. x \<noteq> CHR '']'') cs))))
      else map_option (Cons (Literal c)) (globToRegExp cs))"
  by pat_completeness auto
termination
  by (relation "measure length") (auto simp: length_after_class)

declare globToRegExp.simps [simp del]

subsection \<open>Matching\<close>

text \<open>The characters \<^verbatim>\<open>.\<close> matches: all but line ends.\<close>

definition dot :: "char \<Rightarrow> bool" where
  "dot c \<longleftrightarrow> c \<noteq> CHR 0x0A \<and> c \<noteq> CHR 0x0D"

definition not_slash :: "char \<Rightarrow> bool" where
  "not_slash c \<longleftrightarrow> c \<noteq> CHR ''/''"

fun one_char :: "glob_item \<Rightarrow> char \<Rightarrow> bool" where
  "one_char SegChar c = not_slash c"
| "one_char (Literal d) c = (c = d)"
| "one_char (CharClass neg ps) c = (neg \<noteq> list_ex (\<lambda>(a, b). a \<le> c \<and> c \<le> b) ps)"
| "one_char _ c = False"

text \<open>What may follow a run of characters that satisfy \<open>p\<close>.\<close>

fun after_run :: "(char \<Rightarrow> bool) \<Rightarrow> string \<Rightarrow> string list" where
  "after_run p [] = [[]]"
| "after_run p (c # cs) = (c # cs) # (if p c then after_run p cs else [])"

text \<open>The rests a pattern leaves when it is matched at the start of a string.\<close>

fun rests :: "glob_item list \<Rightarrow> string \<Rightarrow> string list" where
  "rests [] s = [s]"
| "rests (AnyChars # is) s = concat (map (rests is) (after_run dot s))"
| "rests (SegChars # is) s = concat (map (rests is) (after_run not_slash s))"
| "rests (i # is) s = (case s of [] \<Rightarrow> [] | c # cs \<Rightarrow> if one_char i c then rests is cs else [])"

text \<open>\<^verbatim>\<open>body(?:/.*)?$\<close>\<close>

definition body_to_end :: "glob_item list \<Rightarrow> string \<Rightarrow> bool" where
  "body_to_end is s \<longleftrightarrow>
     list_ex (\<lambda>r. r = [] \<or> (hd r = CHR ''/'' \<and> list_all dot (tl r))) (rests is s)"

text \<open>
  Where the match may start: \<^verbatim>\<open>^(?:.*/)?\<close> allows the start and the places after a slash
  that no line end precedes, \<^verbatim>\<open>(?:^|/)\<close> the start and the places after any slash.
\<close>

fun starts_after :: "(char \<Rightarrow> bool) \<Rightarrow> string \<Rightarrow> string list" where
  "starts_after p [] = []"
| "starts_after p (c # cs) =
     (if c = CHR ''/'' then [cs] else []) @ (if p c then starts_after p cs else [])"

record ignore_rule =
  negate :: bool
  dirOnly :: bool
  anchored :: bool
  body :: "glob_item list"

definition re_test :: "ignore_rule \<Rightarrow> string \<Rightarrow> bool" where
  "re_test r s \<longleftrightarrow>
     list_ex (body_to_end (body r)) (s # starts_after (if anchored r then dot else (\<lambda>_. True)) s)"

subsection \<open>Rules\<close>

definition is_space :: "char \<Rightarrow> bool" where
  "is_space c \<longleftrightarrow> c \<in> set [CHR 0x09, CHR 0x0A, CHR 0x0B, CHR 0x0C, CHR 0x0D, CHR 0x20, CHR 0xA0]"

definition rstrip :: "string \<Rightarrow> string" where
  "rstrip s = rev (dropWhile is_space (rev s))"

text \<open>
  One line: no rule, a rule, or a pattern that is no regular expression.  The expression of a
  pattern is anchored (\<^verbatim>\<open>^(?:.*/)?\<close>) when the pattern starts with a slash or holds one.
\<close>

datatype parsed_line = NoRule | Rule ignore_rule | BadPattern

definition parse_line :: "string \<Rightarrow> parsed_line" where
  "parse_line raw =
     (let line = rstrip raw
      in if line = [] \<or> hd line = CHR ''#'' then NoRule
         else let neg = (hd line = CHR ''!''); p1 = (if neg then tl line else line)
              in if p1 = [] then NoRule
                 else let dir = (last p1 = CHR ''/''); p2 = (if dir then butlast p1 else p1);
                          anch = (p2 \<noteq> [] \<and> hd p2 = CHR ''/'');
                          p3 = (if anch then dropWhile (\<lambda>c. c = CHR ''/'') p2 else p2)
                      in if p3 = [] then NoRule
                         else case globToRegExp p3 of
                                None \<Rightarrow> BadPattern
                              | Some is \<Rightarrow> Rule \<lparr>negate = neg, dirOnly = dir,
                                  anchored = anch \<or> CHR ''/'' \<in> set p3, body = is\<rparr>)"

text \<open>The rules of a text; a bad pattern makes the constructor throw.\<close>

fun parse_all :: "string list \<Rightarrow> ignore_rule list option" where
  "parse_all [] = Some []"
| "parse_all (l # ls) =
     (case parse_line l of
        NoRule \<Rightarrow> parse_all ls
      | BadPattern \<Rightarrow> None
      | Rule r \<Rightarrow> map_option (Cons r) (parse_all ls))"

definition parseIgnoreLines :: "string \<Rightarrow> ignore_rule list option" where
  "parseIgnoreLines s = parse_all (split_on CHR 0x0A s)"

text \<open>The proper prefixes of a path at its separators, shortest first.\<close>

definition parent_paths :: "string \<Rightarrow> string list" where
  "parent_paths p =
     (let segs = split_on CHR ''/'' p
      in map (\<lambda>i. join_with CHR ''/'' (take i segs)) [1..<length segs])"

definition rule_hits :: "ignore_rule \<Rightarrow> string \<Rightarrow> bool \<Rightarrow> bool" where
  "rule_hits r p isDir \<longleftrightarrow>
     (if dirOnly r \<and> \<not> isDir then list_ex (re_test r) (parent_paths p) else re_test r p)"

definition buildMatcher :: "ignore_rule list \<Rightarrow> string \<Rightarrow> bool \<Rightarrow> bool" where
  "buildMatcher rules p isDir =
     fold (\<lambda>r ignored. if rule_hits r p isDir then \<not> negate r else ignored) rules False"

text \<open>
  The matcher of a root, given the texts of \<^verbatim>\<open>.gitignore\<close> and \<^verbatim>\<open>.dweb-sync/exclude\<close>.  A file
  that cannot be read or parsed contributes no rule.
\<close>

definition file_rules :: "string option \<Rightarrow> ignore_rule list" where
  "file_rules txt =
     (case txt of None \<Rightarrow> [] | Some s \<Rightarrow> (case parseIgnoreLines s of None \<Rightarrow> [] | Some rs \<Rightarrow> rs))"

definition loadRootIgnore :: "string option \<Rightarrow> string option \<Rightarrow> string \<Rightarrow> bool \<Rightarrow> bool" where
  "loadRootIgnore gitignore exclude p isDir =
     (if p = ''.git'' \<or> p = ''.dweb-sync'' \<or> startsWith p ''.git/'' \<or> startsWith p ''.dweb-sync/''
      then True
      else buildMatcher (file_rules gitignore @ file_rules exclude) p isDir)"

subsection \<open>What the rules mean\<close>

lemma after_run_iff: "r \<in> set (after_run p s) \<longleftrightarrow> (\<exists>t. s = t @ r \<and> list_all p t)"
proof (induction s)
  case Nil
  then show ?case by auto
next
  case (Cons c cs)
  have "(\<exists>t. c # cs = t @ r \<and> list_all p t) \<longleftrightarrow>
      c # cs = r \<or> (\<exists>t. cs = t @ r \<and> p c \<and> list_all p t)"
    by (auto simp: Cons_eq_append_conv intro: exI [of _ "c # t" for t])
  then show ?case using Cons.IH by auto
qed

lemma starts_after_iff:
  "r \<in> set (starts_after p s) \<longleftrightarrow> (\<exists>t. s = t @ CHR ''/'' # r \<and> list_all p t)"
proof (induction s)
  case Nil
  then show ?case by simp
next
  case (Cons c cs)
  have "(\<exists>t. c # cs = t @ CHR ''/'' # r \<and> list_all p t) \<longleftrightarrow>
      (c = CHR ''/'' \<and> cs = r) \<or> (\<exists>t. cs = t @ CHR ''/'' # r \<and> p c \<and> list_all p t)"
    by (auto simp: Cons_eq_append_conv intro: exI [of _ "c # t" for t])
  then show ?case using Cons.IH by auto
qed

lemma rests_append:
  "r \<in> set (rests is s) \<Longrightarrow> r @ t \<in> set (rests is (s @ t))"
proof (induction "is" s arbitrary: r rule: rests.induct)
  case (2 "is" s)
  then obtain u where "u \<in> set (after_run dot s)" "r \<in> set (rests is u)" by auto
  moreover from this(1) have "u @ t \<in> set (after_run dot (s @ t))" by (auto simp: after_run_iff)
  ultimately show ?case using 2(1) by auto
next
  case (3 "is" s)
  then obtain u where "u \<in> set (after_run not_slash s)" "r \<in> set (rests is u)" by auto
  moreover from this(1) have "u @ t \<in> set (after_run not_slash (s @ t))" by (auto simp: after_run_iff)
  ultimately show ?case using 3(1) by auto
qed (auto split: list.splits if_splits)

text \<open>A path free of line ends.\<close>

abbreviation plain_path :: "string \<Rightarrow> bool" where
  "plain_path p \<equiv> list_all dot p"

lemma body_to_end_below:
  assumes "body_to_end is s" and "plain_path t"
  shows "body_to_end is (s @ CHR ''/'' # t)"
proof -
  from assms(1) obtain r where r: "r \<in> set (rests is s)"
    "r = [] \<or> (hd r = CHR ''/'' \<and> list_all dot (tl r))" by (auto simp: body_to_end_def list_ex_iff)
  from rests_append [OF r(1)] have "r @ CHR ''/'' # t \<in> set (rests is (s @ CHR ''/'' # t))" .
  moreover have "hd (r @ CHR ''/'' # t) = CHR ''/'' \<and> list_all dot (tl (r @ CHR ''/'' # t))"
    using r(2) assms(2) by (cases r) (auto simp: dot_def)
  ultimately show ?thesis unfolding body_to_end_def list_ex_iff by blast
qed

lemma re_test_below:
  assumes "re_test r s" and "plain_path t"
  shows "re_test r (s @ CHR ''/'' # t)"
proof -
  let ?p = "if anchored r then dot else (\<lambda>_. True)"
  from assms(1) obtain u where u: "u = s \<or> u \<in> set (starts_after ?p s)" "body_to_end (body r) u"
    by (auto simp: re_test_def list_ex_iff)
  have "u @ CHR ''/'' # t = s @ CHR ''/'' # t \<or> u @ CHR ''/'' # t \<in> set (starts_after ?p (s @ CHR ''/'' # t))"
    using u(1) by (auto simp: starts_after_iff)
  with body_to_end_below [OF u(2) assms(2)] show ?thesis
    unfolding re_test_def list_ex_iff by auto
qed

lemma join_take_prefix:
  assumes "0 < i" and "i < length segs"
  shows "\<exists>t. join_with c segs = join_with c (take i segs) @ c # t"
  using assms
proof (induction segs arbitrary: i)
  case (Cons x xs)
  then have xs: "xs \<noteq> []" by auto
  show ?case
  proof (cases "i = 1")
    case True
    with xs show ?thesis by (cases xs) auto
  next
    case False
    with Cons.prems have i: "0 < i - 1" "i - 1 < length xs" by auto
    from Cons.IH [OF i] obtain t where "join_with c xs = join_with c (take (i - 1) xs) @ c # t" ..
    moreover have "take i (x # xs) = x # take (i - 1) xs" using Cons.prems by (cases i) auto
    moreover have "take (i - 1) xs \<noteq> []" using i xs by (cases xs) (auto split: nat.splits)
    ultimately show ?thesis using xs by (simp add: join_with_Cons)
  qed
qed simp

lemma parent_paths_iff: "q \<in> set (parent_paths p) \<longleftrightarrow> (\<exists>t. p = q @ CHR ''/'' # t)"
proof
  assume "q \<in> set (parent_paths p)"
  then obtain i where "i \<in> set [1..<length (split_on CHR ''/'' p)]"
      and q: "q = join_with CHR ''/'' (take i (split_on CHR ''/'' p))"
    unfolding parent_paths_def Let_def set_map by blast
  then have i: "0 < i" "i < length (split_on CHR ''/'' p)" by simp_all
  from join_take_prefix [OF i(1,2), of "CHR ''/''"] show "\<exists>t. p = q @ CHR ''/'' # t"
    by (simp add: join_split q)
next
  assume "\<exists>t. p = q @ CHR ''/'' # t"
  then obtain t where p: "p = q @ CHR ''/'' # t" ..
  have split: "split_on CHR ''/'' p = split_on CHR ''/'' q @ split_on CHR ''/'' t"
    unfolding p by (induction q) (auto split: list.splits)
  let ?n = "length (split_on CHR ''/'' q)"
  have "q = join_with CHR ''/'' (take ?n (split_on CHR ''/'' p))" by (simp add: split join_split)
  moreover have "?n \<in> set [1..<length (split_on CHR ''/'' p)]"
    by (simp add: split Suc_le_eq)
  ultimately show "q \<in> set (parent_paths p)"
    unfolding parent_paths_def Let_def set_map by (rule image_eqI)
qed

lemma rule_hits_below:
  assumes "rule_hits r d True" and "plain_path t"
  shows "rule_hits r (d @ CHR ''/'' # t) isDir"
  using assms re_test_below [of r d t]
  by (auto simp: rule_hits_def list_ex_iff parent_paths_iff)

lemma buildMatcher_positive:
  assumes "list_all (\<lambda>r. \<not> negate r) rules"
  shows "buildMatcher rules p isDir = list_ex (\<lambda>r. rule_hits r p isDir) rules"
proof -
  have "fold (\<lambda>r ignored. if rule_hits r p isDir then \<not> negate r else ignored) rules b =
      (b \<or> list_ex (\<lambda>r. rule_hits r p isDir) rules)" for b
    using assms by (induction rules arbitrary: b) auto
  then show ?thesis by (simp add: buildMatcher_def)
qed

text \<open>
  Ignoring is inherited: with rules that only exclude, everything below an ignored directory is
  ignored too, and the metadata directories and everything in them are ignored whatever the rules.
\<close>

theorem ignored_subtree:
  assumes "list_all (\<lambda>r. \<not> negate r) (file_rules gi @ file_rules ex)" and "plain_path t"
    and "loadRootIgnore gi ex d True"
  shows "loadRootIgnore gi ex (d @ ''/'' @ t) isDir \<and>
    loadRootIgnore gi ex (''.git/'' @ t) isDir \<and> loadRootIgnore gi ex (''.dweb-sync/'' @ t) isDir"
proof -
  have meta: "loadRootIgnore gi ex (''.git/'' @ t) isDir" "loadRootIgnore gi ex (''.dweb-sync/'' @ t) isDir"
    by (simp_all add: loadRootIgnore_def startsWith_def)
  have "loadRootIgnore gi ex (d @ CHR ''/'' # t) isDir"
  proof (cases "d = ''.git'' \<or> d = ''.dweb-sync'' \<or> startsWith d ''.git/'' \<or> startsWith d ''.dweb-sync/''")
    case True
    then have "startsWith (d @ CHR ''/'' # t) ''.git/'' \<or> startsWith (d @ CHR ''/'' # t) ''.dweb-sync/''"
      by (auto simp: startsWith_iff)
    then show ?thesis by (auto simp: loadRootIgnore_def)
  next
    case False
    with assms(3) have "list_ex (\<lambda>r. rule_hits r d True) (file_rules gi @ file_rules ex)"
      by (simp add: loadRootIgnore_def buildMatcher_positive [OF assms(1)])
    then have "list_ex (\<lambda>r. rule_hits r (d @ CHR ''/'' # t) isDir) (file_rules gi @ file_rules ex)"
      using rule_hits_below [OF _ assms(2)] unfolding list_ex_iff by blast
    then show ?thesis
      by (simp only: loadRootIgnore_def buildMatcher_positive [OF assms(1)] if_cancel simp_thms)
  qed
  with meta show ?thesis by simp
qed

text \<open>
  Anchoring has no effect: a rule whose pattern starts with a slash, or holds one, hits the same
  paths as the rule without the anchor, so \<^verbatim>\<open>/build\<close> also ignores a \<^verbatim>\<open>build\<close> at any depth.
\<close>

theorem anchor_has_no_effect:
  assumes "plain_path p"
  shows "rule_hits (r\<lparr>anchored := True\<rparr>) p isDir = rule_hits (r\<lparr>anchored := False\<rparr>) p isDir \<and>
    parse_line ''/build'' = Rule \<lparr>negate = False, dirOnly = False, anchored = True,
      body = map Literal ''build''\<rparr> \<and>
    loadRootIgnore (Some ''/build'') None (''src/build'') isDir"
proof -
  have runs: "starts_after dot s = starts_after (\<lambda>_. True) s" if "plain_path s" for s
    using that by (induction s) auto
  have same: "re_test (r\<lparr>anchored := True\<rparr>) q = re_test (r\<lparr>anchored := False\<rparr>) q" if "plain_path q" for q
    using that by (simp add: re_test_def runs)
  have "plain_path q" if "q \<in> set (parent_paths p)" for q
    using that assms by (auto simp: parent_paths_iff)
  then have "list_ex (re_test (r\<lparr>anchored := True\<rparr>)) (parent_paths p) =
      list_ex (re_test (r\<lparr>anchored := False\<rparr>)) (parent_paths p)"
    using same by (auto simp: list_ex_iff)
  then have hits: "rule_hits (r\<lparr>anchored := True\<rparr>) p isDir = rule_hits (r\<lparr>anchored := False\<rparr>) p isDir"
    using same [OF assms] by (simp add: rule_hits_def)
  have line: "parse_line ''/build'' = Rule \<lparr>negate = False, dirOnly = False, anchored = True,
      body = map Literal ''build''\<rparr>"
    by (simp add: parse_line_def rstrip_def is_space_def Let_def globToRegExp.simps)
  have "loadRootIgnore (Some ''/build'') None (''src/build'') isDir"
    by (simp add: loadRootIgnore_def startsWith_def file_rules_def parseIgnoreLines_def line buildMatcher_def
        rule_hits_def re_test_def dot_def body_to_end_def)
  with hits line show ?thesis by simp
qed

theorem ignored_subtree_witness:
  "loadRootIgnore (Some ''tmp'') None ''a/tmp/x'' False"
proof -
  have line: "parse_line ''tmp'' = Rule \<lparr>negate = False, dirOnly = False, anchored = False,
      body = map Literal ''tmp''\<rparr>"
    by (simp add: parse_line_def rstrip_def is_space_def Let_def globToRegExp.simps)
  have "loadRootIgnore (Some ''tmp'') None ''a/tmp'' True"
    by (simp add: loadRootIgnore_def startsWith_def file_rules_def parseIgnoreLines_def line buildMatcher_def
        rule_hits_def re_test_def dot_def body_to_end_def)
  moreover have "list_all (\<lambda>r. \<not> negate r) (file_rules (Some ''tmp'') @ file_rules None)"
    by (simp add: file_rules_def parseIgnoreLines_def line)
  moreover have "plain_path ''x''" by (simp add: dot_def)
  ultimately show ?thesis
    using ignored_subtree [of "Some ''tmp''" None "''x''" "''a/tmp''" False] by simp
qed

theorem anchor_has_no_effect_witness:
  "loadRootIgnore (Some ''/build'') None ''src/build'' True"
  using anchor_has_no_effect [of "''x''" undefined True] by (simp add: dot_def)

text \<open>A line that is no regular expression silences the whole file it stands in.\<close>

lemma bad_pattern_silences_file:
  assumes "parse_line l = BadPattern" and "l \<in> set (split_on CHR 0x0A s)"
  shows "file_rules (Some s) = []"
proof -
  have "parse_all ls = None" if "l \<in> set ls" for ls
    using that assms(1) by (induction ls) (auto split: parsed_line.splits)
  with assms(2) show ?thesis by (simp add: file_rules_def parseIgnoreLines_def)
qed

lemma reversed_range_is_bad: "parse_line ''[z-a]'' = BadPattern"
  by (simp add: parse_line_def rstrip_def is_space_def Let_def globToRegExp.simps char_class_def)

end
