(* ===== verification/Scan.thy ===== *)
theory Scan
  imports Ignore Trees
begin

text \<open>
  The scan of a working tree (opendweb-ext-sync, worktree.mjs, \<^verbatim>\<open>readRegularFileAnchored\<close> and
  \<^verbatim>\<open>scanWorktree\<close>) against a file system that changes while it is scanned.

  The scan opens every path once, and what it learns of a path is what that one visit shows: the
  outcome of opening it, the metadata of the open file, the bytes read until the end, the listing,
  the identity of a directory before and after the listing.  A scan is therefore run against a view
  that gives an observation for each path, and a concurrently changing tree is an arbitrary view.
\<close>

subsection \<open>Errors\<close>

text \<open>An error of the file system is passed on with its code, such as \<^verbatim>\<open>EACCES\<close>.\<close>

datatype scan_error =
    WorktreeRace string string
  | OversizeHistory string nat nat
  | IoError string

subsection \<open>Reading one file\<close>

datatype file_obs =
    FileGone
  | FileIsLink
  | FileFails string
  | FileOpen bool nat nat "bytes list"

datatype file_read = Vanished | NonRegular | Regular bytes nat

text \<open>
  The read loop: the chunks up to the end of the file, checked against the limit as they come.
\<close>

fun read_loop :: "string \<Rightarrow> nat option \<Rightarrow> bytes list \<Rightarrow> bytes list \<Rightarrow> nat \<Rightarrow> scan_error + bytes \<times> nat" where
  "read_loop rel maxBytes [] parts tot = Inr (concat parts, tot)"
| "read_loop rel maxBytes (c # cs) parts tot =
     (if c = [] then Inr (concat parts, tot)
      else (case maxBytes of
              Some m \<Rightarrow>
                if m < tot + length c then Inl (OversizeHistory rel (tot + length c) m)
                else read_loop rel maxBytes cs (parts @ [c]) (tot + length c)
            | None \<Rightarrow> read_loop rel maxBytes cs (parts @ [c]) (tot + length c)))"

definition readRegularFileAnchored :: "string \<Rightarrow> nat option \<Rightarrow> file_obs \<Rightarrow> scan_error + file_read" where
  "readRegularFileAnchored rel maxBytes ob =
     (case ob of
        FileGone \<Rightarrow> Inr Vanished
      | FileIsLink \<Rightarrow> Inl (WorktreeRace rel ''symlink-swap'')
      | FileFails e \<Rightarrow> Inl (IoError e)
      | FileOpen isFile sz mode chunks \<Rightarrow>
          if \<not> isFile then Inr NonRegular
          else if maxBytes \<noteq> None \<and> the maxBytes < sz then Inl (OversizeHistory rel sz (the maxBytes))
          else rbind (read_loop rel maxBytes chunks [] 0) (\<lambda>(bs, tot).
                 if tot \<noteq> sz then Inl (WorktreeRace rel ''size-changed'')
                 else Inr (Regular bs mode)))"

subsection \<open>Scanning directories\<close>

datatype dirent_kind = KFile | KDir | KLink

text \<open>
  A visit of a directory: the open may fail; an opened one shows whether it is a directory and its
  identity, then its listing, then what the path names afterwards: nothing, a link, or an identity.
\<close>

datatype lstat_obs = LGone | LLink | LNode nat

datatype dir_obs =
    DirGone
  | DirNotDir bool
  | DirFails string
  | DirOpen bool nat "string + (string \<times> dirent_kind) list option" lstat_obs

record fs_view =
  dir_view :: "string \<Rightarrow> dir_obs"
  file_view :: "string \<Rightarrow> file_obs"
  gitignore_text :: "string option"
  exclude_text :: "string option"

definition list_dir ::
  "string \<Rightarrow> dir_obs \<Rightarrow> scan_error + (string \<times> dirent_kind) list" where
  "list_dir rel ob =
     (case ob of
        DirGone \<Rightarrow> Inr []
      | DirNotDir link \<Rightarrow>
          Inl (WorktreeRace rel
            (if link then (if rel = [] then ''root-symlink'' else ''symlink-swap'') else ''not-a-directory''))
      | DirFails e \<Rightarrow> Inl (IoError e)
      | DirOpen isDir ident listing after \<Rightarrow>
          if \<not> isDir then Inl (WorktreeRace rel ''not-a-directory'')
          else (case listing of
                  Inl e \<Rightarrow> Inl (IoError e)
                | Inr None \<Rightarrow> Inr []
                | Inr (Some ents) \<Rightarrow>
                    if after = LNode ident then Inr (sort_key fst ents)
                    else Inl (WorktreeRace rel ''directory-identity'')))"

datatype entry_kind = EFile | EDir | ELink

record scan_entry =
  se_path :: string
  se_kind :: entry_kind
  se_oid :: "oid option"
  se_mode :: "nat option"

datatype todo = VisitDir string | VisitEntry string dirent_kind

record scan_state =
  ss_todo :: "todo list"
  ss_gd :: gitdir
  ss_out :: "scan_entry list"

definition scan_turn ::
  "git_lib \<Rightarrow> fs_view \<Rightarrow> nat option \<Rightarrow> scan_state \<Rightarrow> (scan_error \<times> gitdir) + scan_state" where
  "scan_turn L V maxBytes s =
     (let rest = tl (ss_todo s); ignored = loadRootIgnore (gitignore_text V) (exclude_text V)
      in case hd (ss_todo s) of
           VisitDir rel \<Rightarrow>
             (case list_dir rel (dir_view V rel) of
                Inl e \<Rightarrow> Inl (e, ss_gd s)
              | Inr ents \<Rightarrow>
                  Inr (s\<lparr>ss_todo := map (\<lambda>(n, k). VisitEntry (join_path rel n) k) ents @ rest\<rparr>))
         | VisitEntry p k \<Rightarrow>
             if ignored p (k = KDir) then Inr (s\<lparr>ss_todo := rest\<rparr>)
             else (case k of
                     KDir \<Rightarrow>
                       Inr (s\<lparr>ss_todo := VisitDir p # rest,
                              ss_out := ss_out s @ [\<lparr>se_path = p, se_kind = EDir, se_oid = None, se_mode = None\<rparr>]\<rparr>)
                   | KLink \<Rightarrow>
                       Inr (s\<lparr>ss_todo := rest,
                              ss_out := ss_out s @ [\<lparr>se_path = p, se_kind = ELink, se_oid = None, se_mode = None\<rparr>]\<rparr>)
                   | KFile \<Rightarrow>
                       (case readRegularFileAnchored p maxBytes (file_view V p) of
                          Inl e \<Rightarrow> Inl (e, ss_gd s)
                        | Inr (Regular bs m) \<Rightarrow>
                            (let (i, gd) = writeBlob L (ss_gd s) bs
                             in Inr (s\<lparr>ss_todo := rest, ss_gd := gd,
                                       ss_out := ss_out s @ [\<lparr>se_path = p, se_kind = EFile,
                                         se_oid = Some i, se_mode = Some (node_mode m)\<rparr>]\<rparr>))
                        | Inr _ \<Rightarrow> Inr (s\<lparr>ss_todo := rest\<rparr>))))"

partial_function (option) scan_loop ::
  "git_lib \<Rightarrow> fs_view \<Rightarrow> nat option \<Rightarrow> scan_state \<Rightarrow> ((scan_error \<times> gitdir) + scan_state) option" where
  "scan_loop L V maxBytes s =
     (if ss_todo s = [] then Some (Inr s)
      else (case scan_turn L V maxBytes s of
              Inl e \<Rightarrow> Some (Inl e)
            | Inr s' \<Rightarrow> scan_loop L V maxBytes s'))"

definition scanWorktree ::
  "git_lib \<Rightarrow> fs_view \<Rightarrow> nat option \<Rightarrow> gitdir \<Rightarrow> ((scan_error + scan_entry list) \<times> gitdir) option" where
  "scanWorktree L V maxBytes gd =
     map_option (\<lambda>r. case r of Inl (e, g) \<Rightarrow> (Inl e, g) | Inr s \<Rightarrow> (Inr (ss_out s), ss_gd s))
       (scan_loop L V maxBytes \<lparr>ss_todo = [VisitDir []], ss_gd = gd, ss_out = []\<rparr>)"

definition mode_str :: "nat \<Rightarrow> string" where
  "mode_str m = (if m = mode_exec then ''100755'' else ''100644'')"

definition scanToFlatEntries :: "scan_entry list \<Rightarrow> file_entry list" where
  "scanToFlatEntries es =
     map (\<lambda>e. \<lparr>f_path = se_path e, f_oid = the (se_oid e), f_mode = mode_str (the (se_mode e))\<rparr>)
       (filter (\<lambda>e. se_kind e = EFile \<and> se_oid e \<noteq> None \<and> se_mode e \<noteq> None) es)"

lemma scan_loop_Nil: "ss_todo s = [] \<Longrightarrow> scan_loop L V m s = Some (Inr s)"
  by (simp add: scan_loop.simps)

lemma scan_loop_turn:
  "ss_todo s \<noteq> [] \<Longrightarrow> scan_loop L V m s =
     (case scan_turn L V m s of Inl e \<Rightarrow> Some (Inl e) | Inr s' \<Rightarrow> scan_loop L V m s')"
  by (subst scan_loop.simps) simp

subsection \<open>What one visit guarantees\<close>

lemma read_loop_whole:
  assumes "read_loop rel mb cs parts tot = Inr (bs, n)" and "tot = length (concat parts)"
  shows "bs = concat parts @ concat (takeWhile (\<lambda>c. c \<noteq> []) cs) \<and> n = length bs"
  using assms
proof (induction rel mb cs parts tot rule: read_loop.induct)
  case (2 rel mb c cs parts tot)
  show ?case
  proof (cases "c = []")
    case False
    then show ?thesis using 2 by (auto split: option.splits if_splits)
  qed (use 2 in auto)
qed auto

text \<open>A file that is read is regular, within the limit, and was read to its announced size.\<close>

lemma read_anchored_whole:
  assumes "readRegularFileAnchored rel mb ob = Inr (Regular bs md)"
  shows "\<exists>chunks. ob = FileOpen True (length bs) md chunks \<and> bs = concat (takeWhile (\<lambda>c. c \<noteq> []) chunks) \<and>
    (mb = None \<or> length bs \<le> the mb)"
proof -
  from assms obtain sz chunks n where ob: "ob = FileOpen True sz md chunks"
    and r: "read_loop rel mb chunks [] 0 = Inr (bs, n)" "n = sz" "mb = None \<or> sz \<le> the mb"
    by (auto simp: readRegularFileAnchored_def rbind_eq_Inr split: file_obs.splits if_splits)
  from read_loop_whole [OF r(1)] have "bs = concat (takeWhile (\<lambda>c. c \<noteq> []) chunks)" "n = length bs"
    by auto
  with ob r show ?thesis by auto
qed

definition entry_ok :: "git_lib \<Rightarrow> fs_view \<Rightarrow> nat \<Rightarrow> gitdir \<Rightarrow> scan_entry \<Rightarrow> bool" where
  "entry_ok L V m gd e \<longleftrightarrow>
     \<not> loadRootIgnore (gitignore_text V) (exclude_text V) (se_path e) (se_kind e = EDir) \<and>
     (case se_kind e of
        EFile \<Rightarrow>
          (\<exists>bs md chunks. file_view V (se_path e) = FileOpen True (length bs) md chunks \<and>
             bs = concat (takeWhile (\<lambda>c. c \<noteq> []) chunks) \<and> length bs \<le> m \<and>
             se_oid e = Some (objectOid L ''blob'' bs) \<and> hasObject gd (objectOid L ''blob'' bs) \<and>
             se_mode e = Some (node_mode md))
      | _ \<Rightarrow> se_oid e = None \<and> se_mode e = None)"

lemma hasObject_import: "hasObject (importLooseObjectAtomic gd ty c i) j = (j = i \<or> hasObject gd j)"
  by (auto simp: hasObject_def readObject_import)

lemma writeBlob_pair: "writeBlob L gd bs =
    (objectOid L ''blob'' bs, importLooseObjectAtomic gd ''blob'' bs (objectOid L ''blob'' bs))"
  by (simp add: writeBlob_def writeObject_def Let_def)

lemma entry_ok_import: "entry_ok L V m gd e \<Longrightarrow> entry_ok L V m (importLooseObjectAtomic gd ty c i) e"
  by (auto simp: entry_ok_def hasObject_import split: entry_kind.splits)

definition out_ok :: "git_lib \<Rightarrow> fs_view \<Rightarrow> nat \<Rightarrow> gitdir \<Rightarrow> scan_state \<Rightarrow> bool" where
  "out_ok L V m gd s \<longleftrightarrow> refs (ss_gd s) = refs gd \<and> list_all (entry_ok L V m (ss_gd s)) (ss_out s)"

lemma turn_out_ok:
  assumes ok: "out_ok L V m gd s"
  shows "case scan_turn L V (Some m) s of Inl (e, g) \<Rightarrow> refs g = refs gd | Inr s' \<Rightarrow> out_ok L V m gd s'"
proof (cases "hd (ss_todo s)")
  case (VisitDir rel)
  with ok show ?thesis by (auto simp: scan_turn_def out_ok_def split: sum.splits)
next
  case (VisitEntry p k)
  show ?thesis
  proof (cases "loadRootIgnore (gitignore_text V) (exclude_text V) p (k = KDir)")
    case True
    with VisitEntry ok show ?thesis by (simp add: scan_turn_def out_ok_def)
  next
    case False
    show ?thesis
    proof (cases k)
      case KFile
      show ?thesis
      proof (cases "readRegularFileAnchored p (Some m) (file_view V p)")
        case (Inl e)
        with VisitEntry False KFile ok show ?thesis by (simp add: scan_turn_def out_ok_def)
      next
        case (Inr r)
        show ?thesis
        proof (cases r)
          case (Regular bs md)
          let ?g = "importLooseObjectAtomic (ss_gd s) ''blob'' bs (objectOid L ''blob'' bs)"
          have "entry_ok L V m ?g \<lparr>se_path = p, se_kind = EFile, se_oid = Some (objectOid L ''blob'' bs),
              se_mode = Some (node_mode md)\<rparr>"
            using read_anchored_whole [OF Inr [unfolded Regular]] False KFile
            by (auto simp: entry_ok_def hasObject_import)
          moreover have "list_all (entry_ok L V m ?g) (ss_out s)"
            using ok by (auto simp: out_ok_def list_all_iff intro: entry_ok_import)
          ultimately show ?thesis using VisitEntry False KFile Inr Regular ok
            by (simp add: scan_turn_def out_ok_def writeBlob_pair refs_import)
        qed (use VisitEntry False KFile Inr ok in \<open>simp_all add: scan_turn_def out_ok_def\<close>)
      qed
    next
      case KDir
      with VisitEntry False ok show ?thesis by (simp add: scan_turn_def out_ok_def entry_ok_def)
    next
      case KLink
      with VisitEntry False ok show ?thesis by (simp add: scan_turn_def out_ok_def entry_ok_def)
    qed
  qed
qed

lemma loop_out_ok:
  assumes "scan_loop L V mb s = Some r" and "mb = Some m" and "out_ok L V m gd s"
  shows "case r of Inl (e, g) \<Rightarrow> refs g = refs gd | Inr s' \<Rightarrow> out_ok L V m gd s'"
  using assms
proof (induct rule: scan_loop.raw_induct [rotated, consumes 1, case_names step])
  case (step loop L V mb s r)
  show ?case
  proof (cases "ss_todo s = []")
    case True
    with step(2,4) show ?thesis by auto
  next
    case False
    show ?thesis
    proof (cases "scan_turn L V mb s")
      case (Inl e)
      with False step(2,3) turn_out_ok [OF step(4)] show ?thesis by auto
    next
      case (Inr s1)
      have "out_ok L V m gd s1" using turn_out_ok [OF step(4)] Inr step(3) by simp
      with False Inr step(1) [of L V mb s1 r] step(2,3) show ?thesis by simp
    qed
  qed
qed

text \<open>
  However the tree changes while it is scanned, a scan that ends moves no reference, and what it
  reports is sound: no reported path is ignored, and every reported file was regular, was read whole,
  to the size it was announced with and within the limit, never through a link, and is stored under
  the reported id; directories and links carry no content.
\<close>

theorem scan_sound:
  "case scanWorktree L V (Some m) gd of
     None \<Rightarrow> True
   | Some (Inl e, gd') \<Rightarrow> refs gd' = refs gd
   | Some (Inr es, gd') \<Rightarrow> refs gd' = refs gd \<and> list_all (entry_ok L V m gd') es"
proof (cases "scan_loop L V (Some m) \<lparr>ss_todo = [VisitDir []], ss_gd = gd, ss_out = []\<rparr>")
  case (Some r)
  have "out_ok L V m gd \<lparr>ss_todo = [VisitDir []], ss_gd = gd, ss_out = []\<rparr>" by (simp add: out_ok_def)
  from loop_out_ok [OF Some refl this] Some show ?thesis
    by (auto simp: scanWorktree_def out_ok_def split: sum.splits)
qed (simp add: scanWorktree_def)

subsection \<open>Scanning a tree that does not change\<close>

definition dir_part :: "string \<Rightarrow> string" where
  "dir_part rel = (if rel = [] then [] else rel @ ''/'')"

lemma join_path_dir: "join_path rel n = dir_part rel @ n"
  by (simp add: join_path_def dir_part_def)

fun kind_of :: "node \<Rightarrow> dirent_kind" where
  "kind_of Dir = KDir"
| "kind_of Symlink = KLink"
| "kind_of _ = KFile"

definition child_names :: "wtree \<Rightarrow> string \<Rightarrow> (string \<times> dirent_kind) list" where
  "child_names t rel =
     map (\<lambda>(p, n). (drop (length (dir_part rel)) p, kind_of n))
       (filter (\<lambda>(p, n). startsWith p (dir_part rel) \<and>
          (let nm = drop (length (dir_part rel)) p in nm \<noteq> [] \<and> CHR ''/'' \<notin> set nm)) t)"

definition tree_text :: "wtree \<Rightarrow> string \<Rightarrow> string option" where
  "tree_text t p = (case map_of t p of Some (File bs m) \<Rightarrow> Some (map (\<lambda>b. char_of (unat b)) bs) | _ \<Rightarrow> None)"

definition view_of :: "wtree \<Rightarrow> fs_view" where
  "view_of t =
     \<lparr>dir_view = (\<lambda>rel. if rel = [] \<or> map_of t rel = Some Dir
                         then DirOpen True 0 (Inr (Some (child_names t rel))) (LNode 0) else DirGone),
      file_view = (\<lambda>p. case map_of t p of
                          Some (File bs m) \<Rightarrow> FileOpen True (length bs) m [bs]
                        | Some Special \<Rightarrow> FileOpen False 0 0 []
                        | Some Symlink \<Rightarrow> FileIsLink
                        | _ \<Rightarrow> FileGone),
      gitignore_text = tree_text t ''.gitignore'',
      exclude_text = tree_text t ''.dweb-sync/exclude''\<rparr>"

definition tree_ignored :: "wtree \<Rightarrow> string \<Rightarrow> bool \<Rightarrow> bool" where
  "tree_ignored t = loadRootIgnore (tree_text t ''.gitignore'') (tree_text t ''.dweb-sync/exclude'')"

text \<open>A table of a file system: distinct paths of non-empty segments.\<close>

definition wt_ok :: "wtree \<Rightarrow> bool" where
  "wt_ok t \<longleftrightarrow> distinct (akeys t) \<and> list_all (\<lambda>p. [] \<notin> set (split_on CHR ''/'' p)) (akeys t)"

text \<open>
  The files a scan should report: regular files that are not ignored, all of whose parents are
  directories that are not ignored.
\<close>

definition visible_below :: "wtree \<Rightarrow> string \<Rightarrow> string \<Rightarrow> bool" where
  "visible_below t rel p \<longleftrightarrow>
     startsWith p (dir_part rel) \<and> \<not> tree_ignored t p False \<and>
     (case map_of t p of Some (File bs m) \<Rightarrow> True | _ \<Rightarrow> False) \<and>
     list_all (\<lambda>q. length q \<le> length rel \<or> (map_of t q = Some Dir \<and> \<not> tree_ignored t q True)) (dir_prefixes p)"

abbreviation visible :: "wtree \<Rightarrow> string \<Rightarrow> bool" where
  "visible t p \<equiv> visible_below t [] p"

lemma wt_ok_key: "wt_ok t \<Longrightarrow> map_of t p = Some n \<Longrightarrow> [] \<notin> set (split_on CHR ''/'' p)"
  by (auto simp: wt_ok_def list_all_iff akeys_def dest: map_of_SomeD intro: rev_image_eqI)

lemma wt_ok_ne: "wt_ok t \<Longrightarrow> map_of t p = Some n \<Longrightarrow> p \<noteq> []"
  using wt_ok_key by fastforce

lemma child_names_iff:
  assumes "wt_ok t"
  shows "(nm, k) \<in> set (child_names t rel) \<longleftrightarrow>
    nm \<noteq> [] \<and> CHR ''/'' \<notin> set nm \<and> (\<exists>n. map_of t (join_path rel nm) = Some n \<and> k = kind_of n)"
proof -
  have d: "distinct (map fst t)" using assms by (simp add: wt_ok_def akeys_def)
  show ?thesis
  proof
    assume "(nm, k) \<in> set (child_names t rel)"
    then obtain p n where p: "(p, n) \<in> set t" "startsWith p (dir_part rel)"
      "nm = drop (length (dir_part rel)) p" "nm \<noteq> []" "CHR ''/'' \<notin> set nm" "k = kind_of n"
      by (auto simp: child_names_def Let_def)
    from p(2) obtain s where s: "p = dir_part rel @ s" by (auto simp: startsWith_iff)
    with p(3) have "nm = s" by simp
    with s p(1) d have "map_of t (join_path rel nm) = Some n" by (simp add: join_path_dir)
    with p(4,5,6) show "nm \<noteq> [] \<and> CHR ''/'' \<notin> set nm \<and> (\<exists>n. map_of t (join_path rel nm) = Some n \<and> k = kind_of n)"
      by blast
  next
    assume a: "nm \<noteq> [] \<and> CHR ''/'' \<notin> set nm \<and> (\<exists>n. map_of t (join_path rel nm) = Some n \<and> k = kind_of n)"
    then obtain n where "(dir_part rel @ nm, n) \<in> set t" "k = kind_of n"
      by (auto simp: join_path_dir dest: map_of_SomeD)
    with a show "(nm, k) \<in> set (child_names t rel)"
      unfolding child_names_def set_map set_filter
      by (intro image_eqI [of _ _ "(dir_part rel @ nm, n)"]) (auto simp: Let_def)
  qed
qed

text \<open>The files below a directory are its own files and those below its subdirectories.\<close>

definition todo_files :: "wtree \<Rightarrow> todo \<Rightarrow> string set" where
  "todo_files t d =
     (case d of
        VisitDir rel \<Rightarrow> {p. visible_below t rel p}
      | VisitEntry q KDir \<Rightarrow> (if tree_ignored t q True then {} else {p. visible_below t q p})
      | VisitEntry q KLink \<Rightarrow> {}
      | VisitEntry q KFile \<Rightarrow>
          (if tree_ignored t q False then {}
           else (case map_of t q of Some (File bs m) \<Rightarrow> {q} | _ \<Rightarrow> {})))"

lemma in_prefixes_join:
  assumes "CHR ''/'' \<notin> set nm"
  shows "q \<in> set (dir_prefixes (dir_part rel @ nm)) \<Longrightarrow> length q \<le> length rel"
proof -
  assume "q \<in> set (dir_prefixes (dir_part rel @ nm))"
  then obtain r where r: "dir_part rel @ nm = q @ CHR ''/'' # r" by (auto simp: in_dir_prefixes)
  show "length q \<le> length rel"
  proof (rule ccontr)
    assume l: "\<not> length q \<le> length rel"
    then have "length (dir_part rel) \<le> length q" by (auto simp: dir_part_def)
    have "q = take (length q) (dir_part rel @ nm)" by (simp add: r)
    also have "\<dots> = dir_part rel @ take (length q - length (dir_part rel)) nm"
      using \<open>length (dir_part rel) \<le> length q\<close> by simp
    finally obtain u where "q = dir_part rel @ u" by blast
    with r have "nm = u @ CHR ''/'' # r" by simp
    with assms show False by simp
  qed
qed

lemma visible_below_child:
  assumes wt: "wt_ok t"
  shows "{p. visible_below t rel p} =
    (\<Union>(nm, k) \<in> set (child_names t rel). todo_files t (VisitEntry (join_path rel nm) k))"
proof (intro set_eqI iffI)
  fix p assume "p \<in> {p. visible_below t rel p}"
  then obtain s bs m where v: "p = dir_part rel @ s" "\<not> tree_ignored t p False" "map_of t p = Some (File bs m)"
    and pre: "\<And>q. q \<in> set (dir_prefixes p) \<Longrightarrow>
      length q \<le> length rel \<or> (map_of t q = Some Dir \<and> \<not> tree_ignored t q True)"
    by (auto simp: visible_below_def startsWith_iff list_all_iff split: option.splits node.splits)
  have ne: "[] \<notin> set (split_on CHR ''/'' p)" using wt_ok_key [OF wt v(3)] .
  have seg: "a \<noteq> []" if "p = dir_part rel @ a @ CHR ''/'' # b \<or> (p = dir_part rel @ a \<and> CHR ''/'' \<notin> set a)" for a b
  proof
    assume "a = []"
    with that ne show False
      by (auto simp: dir_part_def split_on_sep split: if_splits)
  qed
  show "p \<in> (\<Union>(nm, k) \<in> set (child_names t rel). todo_files t (VisitEntry (join_path rel nm) k))"
  proof (cases "CHR ''/'' \<in> set s")
    case False
    with seg [of s] v have "(s, KFile) \<in> set (child_names t rel)"
      by (simp add: child_names_iff [OF wt] join_path_dir)
    moreover have "p \<in> todo_files t (VisitEntry (join_path rel s) KFile)"
      using v by (simp add: todo_files_def join_path_dir)
    ultimately show ?thesis by blast
  next
    case True
    then obtain a b where ab: "s = a @ CHR ''/'' # b" "CHR ''/'' \<notin> set a"
      by (metis split_list_first)
    let ?q = "dir_part rel @ a"
    have a: "a \<noteq> []" using seg [of a b] v(1) ab(1) by simp
    have long: "\<not> length ?q \<le> length rel" using a by (simp add: dir_part_def)
    have "?q \<in> set (dir_prefixes p)" using v(1) ab(1) by (simp add: in_dir_prefixes)
    with pre long have q: "map_of t ?q = Some Dir" "\<not> tree_ignored t ?q True" by blast+
    have "(a, KDir) \<in> set (child_names t rel)"
      using a ab q by (simp add: child_names_iff [OF wt] join_path_dir)
    moreover have "visible_below t ?q p"
    proof -
      have "startsWith p (dir_part ?q)" using v(1) ab(1) a by (simp add: dir_part_def startsWith_iff)
      moreover have "length x \<le> length ?q \<or> (map_of t x = Some Dir \<and> \<not> tree_ignored t x True)"
        if "x \<in> set (dir_prefixes p)" for x
        using pre [OF that] long by auto
      ultimately show ?thesis using v(2,3) by (auto simp: visible_below_def list_all_iff)
    qed
    ultimately show ?thesis using q by (auto simp: todo_files_def join_path_dir intro!: bexI [of _ "(a, KDir)"])
  qed
next
  fix p assume "p \<in> (\<Union>(nm, k) \<in> set (child_names t rel). todo_files t (VisitEntry (join_path rel nm) k))"
  then obtain nm k where c: "(nm, k) \<in> set (child_names t rel)" "p \<in> todo_files t (VisitEntry (join_path rel nm) k)"
    by blast
  let ?q = "dir_part rel @ nm"
  from c(1) obtain n where n: "nm \<noteq> []" "CHR ''/'' \<notin> set nm" "map_of t ?q = Some n" "k = kind_of n"
    by (auto simp: child_names_iff [OF wt] join_path_dir)
  show "p \<in> {p. visible_below t rel p}"
  proof (cases n)
    case (File bs m)
    with c(2) n have "p = ?q" "\<not> tree_ignored t ?q False"
      by (auto simp: todo_files_def join_path_dir split: if_splits)
    with n File show ?thesis
      by (auto simp: visible_below_def list_all_iff dest: in_prefixes_join [OF n(2)])
  next
    case Dir
    with c(2) n have p: "visible_below t ?q p" "\<not> tree_ignored t ?q True"
      by (auto simp: todo_files_def join_path_dir split: if_splits)
    have st: "startsWith p (?q @ ''/'')" using p(1) n(1) by (auto simp: visible_below_def dir_part_def split: if_splits)
    then obtain b where b: "p = ?q @ CHR ''/'' # b" by (auto simp: startsWith_iff)
    have "length x \<le> length rel \<or> (map_of t x = Some Dir \<and> \<not> tree_ignored t x True)"
      if x: "x \<in> set (dir_prefixes p)" for x
    proof -
      from p(1) x have "length x \<le> length ?q \<or> (map_of t x = Some Dir \<and> \<not> tree_ignored t x True)"
        by (auto simp: visible_below_def list_all_iff)
      moreover have "length x \<le> length rel \<or> x = ?q" if l: "length x \<le> length ?q"
      proof -
        from x obtain r where r: "p = x @ CHR ''/'' # r" by (auto simp: in_dir_prefixes)
        show ?thesis
        proof (cases "length x = length ?q")
          case True
          with r b show ?thesis by (metis append_eq_append_conv)
        next
          case False
          with l have "length x < length ?q" by simp
          have "?q = take (length ?q) p" by (simp add: b)
          also have "\<dots> = x @ CHR ''/'' # take (length ?q - length x - 1) r"
            using \<open>length x < length ?q\<close> by (simp add: r take_Cons')
          finally have "\<exists>r'. ?q = x @ CHR ''/'' # r'" by blast
          then have "x \<in> set (dir_prefixes ?q)" by (simp only: in_dir_prefixes)
          with in_prefixes_join [OF n(2)] show ?thesis by blast
        qed
      qed
      ultimately show ?thesis using p(2) n(3) Dir by blast
    qed
    moreover have "startsWith p (dir_part rel)" using b by (simp add: startsWith_iff)
    ultimately show ?thesis using p(1) by (auto simp: visible_below_def list_all_iff)
  qed (use c n in \<open>auto simp: todo_files_def join_path_dir split: if_splits\<close>)
qed

text \<open>Files of different children differ.\<close>

lemma todo_files_shape:
  assumes "p \<in> todo_files t (VisitEntry q k)" and "q \<noteq> []"
  shows "p = q \<or> (\<exists>r. p = q @ CHR ''/'' # r)"
  using assms
  by (auto simp: todo_files_def visible_below_def dir_part_def startsWith_iff
      split: dirent_kind.splits if_splits option.splits node.splits)

lemma same_child:
  assumes "a @ x = b @ y" "CHR ''/'' \<notin> set a" "CHR ''/'' \<notin> set b"
    and "x = [] \<or> hd x = CHR ''/''" "y = [] \<or> hd y = CHR ''/''"
  shows "a = b"
proof -
  have tw: "takeWhile (\<lambda>c. c \<noteq> CHR ''/'') (u @ v) = u" if "CHR ''/'' \<notin> set u" "v = [] \<or> hd v = CHR ''/''" for u v :: string
    using that by (induction u) (cases v, auto)
  from tw [OF assms(2,4)] tw [OF assms(3,5)] assms(1) show ?thesis by simp
qed

lemma children_disjoint:
  assumes "nm \<noteq> []" "nm' \<noteq> []" "CHR ''/'' \<notin> set nm" "CHR ''/'' \<notin> set nm'" and "nm \<noteq> nm'"
  shows "todo_files t (VisitEntry (join_path rel nm) k) \<inter> todo_files t (VisitEntry (join_path rel nm') k') = {}"
proof (rule ccontr)
  assume "todo_files t (VisitEntry (join_path rel nm) k) \<inter> todo_files t (VisitEntry (join_path rel nm') k') \<noteq> {}"
  then obtain p where p: "p \<in> todo_files t (VisitEntry (dir_part rel @ nm) k)"
    "p \<in> todo_files t (VisitEntry (dir_part rel @ nm') k')" by (auto simp: join_path_dir)
  from todo_files_shape [OF p(1)] assms(1) obtain x where
    x: "p = dir_part rel @ nm @ x" "x = [] \<or> hd x = CHR ''/''" by auto
  from todo_files_shape [OF p(2)] assms(2) obtain y where
    y: "p = dir_part rel @ nm' @ y" "y = [] \<or> hd y = CHR ''/''" by auto
  from x(1) y(1) have "nm @ x = nm' @ y" by simp
  from same_child [OF this assms(3,4) x(2) y(2)] assms(5) show False by simp
qed

lemma distinct_children:
  assumes "wt_ok t"
  shows "distinct (map fst (child_names t rel))"
proof -
  let ?P = "\<lambda>(p, n). startsWith p (dir_part rel) \<and>
    (let nm = drop (length (dir_part rel)) p in nm \<noteq> [] \<and> CHR ''/'' \<notin> set nm)"
  have "map fst (child_names t rel) = map (drop (length (dir_part rel))) (map fst (filter ?P t))"
    by (auto simp: child_names_def split_def)
  moreover have "distinct (map fst (filter ?P t))"
    using assms unfolding wt_ok_def akeys_def by (simp add: distinct_map_filter)
  moreover have "inj_on (drop (length (dir_part rel))) (set (map fst (filter ?P t)))"
    by (rule inj_onI) (auto simp: startsWith_iff)
  ultimately show ?thesis by (simp only: distinct_map)
qed

definition entry_of :: "git_lib \<Rightarrow> string \<Rightarrow> bytes \<Rightarrow> nat \<Rightarrow> scan_entry" where
  "entry_of L p bs m =
     \<lparr>se_path = p, se_kind = EFile, se_oid = Some (objectOid L ''blob'' bs), se_mode = Some (node_mode m)\<rparr>"

abbreviation file_entries :: "scan_entry list \<Rightarrow> scan_entry list" where
  "file_entries es \<equiv> filter (\<lambda>e. se_kind e = EFile) es"

definition todo_ok :: "wtree \<Rightarrow> todo \<Rightarrow> bool" where
  "todo_ok t d \<longleftrightarrow>
     (case d of
        VisitDir rel \<Rightarrow> rel = [] \<or> map_of t rel = Some Dir
      | VisitEntry q k \<Rightarrow> (\<exists>n. map_of t q = Some n \<and> k = kind_of n))"

definition exact_inv :: "git_lib \<Rightarrow> wtree \<Rightarrow> nat \<Rightarrow> scan_state \<Rightarrow> bool" where
  "exact_inv L t m s \<longleftrightarrow>
     (\<forall>d \<in> set (ss_todo s). todo_ok t d) \<and>
     sorted_wrt (\<lambda>a b. todo_files t a \<inter> todo_files t b = {}) (ss_todo s) \<and>
     distinct (map se_path (file_entries (ss_out s))) \<and>
     (\<forall>e \<in> set (file_entries (ss_out s)).
        (\<exists>bs md. map_of t (se_path e) = Some (File bs md) \<and> se_oid e = Some (objectOid L ''blob'' bs) \<and>
           se_mode e = Some (node_mode md)) \<and>
        (\<forall>d \<in> set (ss_todo s). se_path e \<notin> todo_files t d)) \<and>
     se_path ` set (file_entries (ss_out s)) \<union> \<Union> (todo_files t ` set (ss_todo s)) = {p. visible t p}"

text \<open>A bound on the work left.\<close>

definition todo_rank :: "nat \<Rightarrow> todo \<Rightarrow> nat" where
  "todo_rank N d = (case d of VisitDir rel \<Rightarrow> 2 * (N - length rel) | VisitEntry q k \<Rightarrow> Suc (2 * (N - length q)))"

definition longest :: "wtree \<Rightarrow> nat" where
  "longest t = sum_list (map length (akeys t))"

definition work_left :: "wtree \<Rightarrow> todo list \<Rightarrow> nat" where
  "work_left t ds = sum_list (map (\<lambda>d. (length t + 2) ^ todo_rank (longest t) d) ds)"

lemma longest_key: "map_of t q = Some n \<Longrightarrow> length q \<le> longest t"
  unfolding longest_def akeys_def
  by (rule member_le_sum_list) (force dest: map_of_SomeD, simp)

lemma work_children:
  assumes "wt_ok t"
  shows "work_left t (map (\<lambda>(n, k). VisitEntry (join_path rel n) k) (sort_key fst (child_names t rel)))
    < (length t + 2) ^ todo_rank (longest t) (VisitDir rel)"
proof (cases "child_names t rel")
  case Nil
  then show ?thesis by (simp add: work_left_def)
next
  case (Cons c0 cs0)
  let ?b = "length t + 2" and ?r = "todo_rank (longest t) (VisitDir rel)"
  let ?cs = "sort_key fst (child_names t rel)"
  have lt: "todo_rank (longest t) (VisitEntry (join_path rel (fst c)) (snd c)) \<le> ?r - 1 \<and> 0 < ?r"
    if "c \<in> set (child_names t rel)" for c
  proof -
    obtain nm k where c: "c = (nm, k)" by force
    with that obtain n where n: "nm \<noteq> []" "map_of t (join_path rel nm) = Some n"
      by (auto simp: child_names_iff [OF assms])
    have "length rel < length (join_path rel nm)" using n(1) by (simp add: join_path_dir dir_part_def)
    with longest_key [OF n(2)] c show ?thesis by (auto simp: todo_rank_def)
  qed
  have "sum_list (map (\<lambda>c. ?b ^ todo_rank (longest t) (VisitEntry (join_path rel (fst c)) (snd c))) ?cs)
      \<le> sum_list (map (\<lambda>c. ?b ^ (?r - 1)) ?cs)"
    by (rule sum_list_mono, rule power_increasing) (use lt in auto)
  also have "\<dots> = length (child_names t rel) * ?b ^ (?r - 1)" by (simp add: sum_list_triv)
  also have "\<dots> \<le> length t * ?b ^ (?r - 1)"
    by (rule mult_le_mono1) (simp add: child_names_def)
  also have "\<dots> < ?b * ?b ^ (?r - 1)" by simp
  also have "\<dots> = ?b ^ ?r"
    using lt [of c0] Cons by (metis list.set_intros(1) power_minus_mult mult.commute)
  finally show ?thesis by (simp add: work_left_def o_def split_def)
qed

text \<open>No visible file passes the limit.\<close>

definition fits :: "wtree \<Rightarrow> nat \<Rightarrow> bool" where
  "fits t m \<longleftrightarrow> list_all (\<lambda>(p, n). case n of File bs md \<Rightarrow> visible t p \<longrightarrow> length bs \<le> m | _ \<Rightarrow> True) t"

lemma fits_length: "fits t m \<Longrightarrow> visible t p \<Longrightarrow> map_of t p = Some (File bs md) \<Longrightarrow> length bs \<le> m"
  unfolding fits_def list_all_iff by (drule map_of_SomeD) fastforce

lemma turn_exact:
  assumes wt: "wt_ok t" and inv: "exact_inv L t m s" and todo: "ss_todo s \<noteq> []"
    and small: "fits t m"
  shows "\<exists>s'. scan_turn L (view_of t) (Some m) s = Inr s' \<and> exact_inv L t m s' \<and>
    work_left t (ss_todo s') < work_left t (ss_todo s)"
proof -
  obtain d ds where ds: "ss_todo s = d # ds" using todo by (cases "ss_todo s") auto
  have ok: "todo_ok t d" using inv ds by (simp add: exact_inv_def)
  have pos: "0 < (length t + 2) ^ x" for x by simp
  show ?thesis
  proof (cases d)
    case (VisitDir rel)
    let ?new = "map (\<lambda>(n, k). VisitEntry (join_path rel n) k) (sort_key fst (child_names t rel))"
    let ?s = "s\<lparr>ss_todo := ?new @ ds\<rparr>"
    have turn: "scan_turn L (view_of t) (Some m) s = Inr ?s"
      using ok VisitDir ds by (auto simp: scan_turn_def view_of_def list_dir_def todo_ok_def)
    have un: "\<Union> (todo_files t ` set ?new) = todo_files t d"
      using visible_below_child [OF wt, of rel] VisitDir by (auto simp: todo_files_def [of t "VisitDir rel"])
    have sub: "todo_files t x \<subseteq> todo_files t d" if "x \<in> set ?new" for x using un that by blast
    have news: "\<exists>nm k. x = VisitEntry (join_path rel nm) k \<and> (nm, k) \<in> set (child_names t rel)"
      if "x \<in> set ?new" for x using that by auto
    have oks: "todo_ok t x" if "x \<in> set ?new" for x
      using news [OF that] by (auto simp: todo_ok_def child_names_iff [OF wt])
    have "distinct (map fst (sort_key fst (child_names t rel)))"
      using distinct_children [OF wt, of rel] by (metis distinct_map distinct_sort set_sort)
    then have "sorted_wrt (\<lambda>c c'. fst c \<noteq> fst c') (sort_key fst (child_names t rel))"
      by (simp add: distinct_conv_nth sorted_wrt_iff_nth_less)
    then have dis: "sorted_wrt (\<lambda>a b. todo_files t a \<inter> todo_files t b = {}) ?new"
      unfolding sorted_wrt_map
      by (rule sorted_wrt_mono_rel [rotated])
        (use children_disjoint [of _ _ t rel] in \<open>fastforce simp: child_names_iff [OF wt]\<close>)
    have "exact_inv L t m ?s"
    proof -
      have dds: "todo_files t d \<inter> todo_files t x = {}" if "x \<in> set ds" for x
        using inv ds that by (simp add: exact_inv_def)
      show ?thesis
        using inv ds oks dis sub un dds
        by (fastforce simp: exact_inv_def sorted_wrt_append)
    qed
    moreover have "work_left t (ss_todo ?s) < work_left t (ss_todo s)"
      using work_children [OF wt, of rel] VisitDir ds by (simp add: work_left_def)
    ultimately show ?thesis using turn by blast
  next
    case (VisitEntry q k)
    then obtain n where n: "map_of t q = Some n" "k = kind_of n" using ok by (auto simp: todo_ok_def)
    have vis: "todo_files t d \<subseteq> {p. visible t p}" using inv ds by (auto simp: exact_inv_def)
    have ign: "loadRootIgnore (gitignore_text (view_of t)) (exclude_text (view_of t)) = tree_ignored t"
      by (simp add: tree_ignored_def view_of_def)
    have drop: "exact_inv L t m (s\<lparr>ss_todo := ds\<rparr>)" if "todo_files t d = {}"
      using inv ds that by (auto simp: exact_inv_def)
    have less: "work_left t ds < work_left t (ss_todo s)" using ds by (simp add: work_left_def)
    show ?thesis
    proof (cases "tree_ignored t q (k = KDir)")
      case True
      then have "todo_files t d = {}" using VisitEntry by (auto simp: todo_files_def split: dirent_kind.splits)
      moreover have "scan_turn L (view_of t) (Some m) s = Inr (s\<lparr>ss_todo := ds\<rparr>)"
        using True VisitEntry ds by (simp add: scan_turn_def ign)
      ultimately show ?thesis using drop less by auto
    next
      case False
      show ?thesis
      proof (cases n)
        case (File bs md)
        let ?e = "entry_of L q bs md"
        let ?s = "s\<lparr>ss_todo := ds, ss_gd := snd (writeBlob L (ss_gd s) bs), ss_out := ss_out s @ [?e]\<rparr>"
        have df: "todo_files t d = {q}" using VisitEntry n File False by (simp add: todo_files_def)
        then have "length bs \<le> m" using fits_length [OF small, of q bs md] vis n File by auto
        then have "readRegularFileAnchored q (Some m) (file_view (view_of t) q) = Inr (Regular bs md)"
          using n File by (cases "bs = []") (simp_all add: view_of_def readRegularFileAnchored_def)
        then have "scan_turn L (view_of t) (Some m) s = Inr ?s"
          using VisitEntry ds n File False by (simp add: scan_turn_def ign writeBlob_pair entry_of_def)
        moreover have "exact_inv L t m ?s"
        proof -
          have out: "q \<notin> se_path ` set (file_entries (ss_out s))" using inv ds df by (auto simp: exact_inv_def)
          have later: "q \<notin> todo_files t x" if "x \<in> set ds" for x using inv ds df that by (auto simp: exact_inv_def)
          have e: "se_path ?e = q" "se_kind ?e = EFile" "se_oid ?e = Some (objectOid L ''blob'' bs)"
            "se_mode ?e = Some (node_mode md)" by (simp_all add: entry_of_def)
          show ?thesis using inv ds df out later n File unfolding exact_inv_def
            by (auto simp: e)
        qed
        ultimately show ?thesis using less by auto
      next
        case Dir
        let ?s = "s\<lparr>ss_todo := VisitDir q # ds,
          ss_out := ss_out s @ [\<lparr>se_path = q, se_kind = EDir, se_oid = None, se_mode = None\<rparr>]\<rparr>"
        have "todo_files t d = todo_files t (VisitDir q)"
          using VisitEntry n Dir False by (simp add: todo_files_def)
        then have "exact_inv L t m ?s" using inv ds n Dir by (auto simp: exact_inv_def todo_ok_def)
        moreover have "scan_turn L (view_of t) (Some m) s = Inr ?s"
          using VisitEntry ds n Dir False by (simp add: scan_turn_def ign)
        moreover have "work_left t (ss_todo ?s) < work_left t (ss_todo s)"
          using VisitEntry ds by (simp add: work_left_def todo_rank_def)
        ultimately show ?thesis by blast
      next
        case Symlink
        let ?s = "s\<lparr>ss_todo := ds,
          ss_out := ss_out s @ [\<lparr>se_path = q, se_kind = ELink, se_oid = None, se_mode = None\<rparr>]\<rparr>"
        have "todo_files t d = {}" using VisitEntry n Symlink by (simp add: todo_files_def)
        then have "exact_inv L t m ?s" using drop by (simp add: exact_inv_def)
        moreover have "scan_turn L (view_of t) (Some m) s = Inr ?s"
          using VisitEntry ds n Symlink False by (simp add: scan_turn_def ign)
        ultimately show ?thesis using less by auto
      next
        case Special
        have "todo_files t d = {}" using VisitEntry n Special by (simp add: todo_files_def)
        moreover have "readRegularFileAnchored q (Some m) (file_view (view_of t) q) = Inr NonRegular"
          using n Special by (simp add: view_of_def readRegularFileAnchored_def)
        then have "scan_turn L (view_of t) (Some m) s = Inr (s\<lparr>ss_todo := ds\<rparr>)"
          using VisitEntry ds n Special False by (simp add: scan_turn_def ign)
        ultimately show ?thesis using drop less by auto
      qed
    qed
  qed
qed

lemma loop_exact:
  assumes wt: "wt_ok t"
    and small: "fits t m"
  shows "exact_inv L t m s \<Longrightarrow> \<exists>s'. scan_loop L (view_of t) (Some m) s = Some (Inr s') \<and>
    exact_inv L t m s' \<and> ss_todo s' = []"
proof (induction "work_left t (ss_todo s)" arbitrary: s rule: less_induct)
  case less
  show ?case
  proof (cases "ss_todo s = []")
    case True
    with less.prems show ?thesis by (auto simp: scan_loop_Nil)
  next
    case False
    from turn_exact [OF wt less.prems False small] obtain s1 where
      "scan_turn L (view_of t) (Some m) s = Inr s1" "exact_inv L t m s1"
      "work_left t (ss_todo s1) < work_left t (ss_todo s)" by blast
    with less.hyps [of s1] False show ?thesis by (simp add: scan_loop_turn)
  qed
qed

lemma scan_exact':
  assumes wt: "wt_ok t"
    and small: "fits t m"
  shows "\<exists>es gd'. scanWorktree L (view_of t) (Some m) gd = Some (Inr es, gd') \<and>
    distinct (map f_path (scanToFlatEntries es)) \<and>
    set (scanToFlatEntries es) =
      {\<lparr>f_path = p, f_oid = objectOid L ''blob'' bs, f_mode = mode_str (node_mode md)\<rparr> | p bs md.
         visible t p \<and> map_of t p = Some (File bs md)}"
proof -
  let ?s0 = "\<lparr>ss_todo = [VisitDir []], ss_gd = gd, ss_out = []\<rparr>"
  have "exact_inv L t m ?s0" by (simp add: exact_inv_def todo_ok_def todo_files_def)
  from loop_exact [OF wt small this] obtain s' where
    s': "scan_loop L (view_of t) (Some m) ?s0 = Some (Inr s')" "exact_inv L t m s'" "ss_todo s' = []" by blast
  let ?es = "ss_out s'"
  have ent: "\<exists>bs md. map_of t (se_path e) = Some (File bs md) \<and> se_oid e = Some (objectOid L ''blob'' bs) \<and>
      se_mode e = Some (node_mode md)"
    if "e \<in> set (file_entries ?es)" for e using s'(2) that unfolding exact_inv_def by blast
  have full: "filter (\<lambda>e. se_kind e = EFile \<and> se_oid e \<noteq> None \<and> se_mode e \<noteq> None) ?es = file_entries ?es"
  proof (rule filter_cong [OF refl])
    fix e assume "e \<in> set ?es"
    then show "(se_kind e = EFile \<and> se_oid e \<noteq> None \<and> se_mode e \<noteq> None) = (se_kind e = EFile)"
      using ent [of e] by auto
  qed
  let ?f = "\<lambda>e. \<lparr>f_path = se_path e, f_oid = the (se_oid e), f_mode = mode_str (the (se_mode e))\<rparr>"
  have flat: "scanToFlatEntries ?es = map ?f (file_entries ?es)"
    unfolding scanToFlatEntries_def full ..
  have "map f_path (scanToFlatEntries ?es) = map se_path (file_entries ?es)" by (simp add: flat)
  then have dist: "distinct (map f_path (scanToFlatEntries ?es))" using s'(2) by (simp add: exact_inv_def)
  have paths: "se_path ` set (file_entries ?es) = {p. visible t p}" using s'(2,3) by (simp add: exact_inv_def)
  have "set (scanToFlatEntries ?es) =
      {\<lparr>f_path = p, f_oid = objectOid L ''blob'' bs, f_mode = mode_str (node_mode md)\<rparr> | p bs md.
         visible t p \<and> map_of t p = Some (File bs md)}"
  proof (intro set_eqI iffI)
    fix x assume "x \<in> set (scanToFlatEntries ?es)"
    then obtain e where e: "e \<in> set (file_entries ?es)" "x = ?f e" by (auto simp: flat)
    from ent [OF e(1)] obtain bs md where b: "map_of t (se_path e) = Some (File bs md)"
      "se_oid e = Some (objectOid L ''blob'' bs)" "se_mode e = Some (node_mode md)" by blast
    have "visible t (se_path e)" using paths e(1) by blast
    then show "x \<in> {\<lparr>f_path = p, f_oid = objectOid L ''blob'' bs, f_mode = mode_str (node_mode md)\<rparr> | p bs md.
         visible t p \<and> map_of t p = Some (File bs md)}"
      using b e(2) by auto
  next
    fix x assume "x \<in> {\<lparr>f_path = p, f_oid = objectOid L ''blob'' bs, f_mode = mode_str (node_mode md)\<rparr> | p bs md.
         visible t p \<and> map_of t p = Some (File bs md)}"
    then obtain p bs md where x: "visible t p" "map_of t p = Some (File bs md)"
      "x = \<lparr>f_path = p, f_oid = objectOid L ''blob'' bs, f_mode = mode_str (node_mode md)\<rparr>" by blast
    from x(1) paths obtain e where e: "e \<in> set (file_entries ?es)" "p = se_path e" by auto
    from ent [OF e(1)] x(2) e(2) have "se_oid e = Some (objectOid L ''blob'' bs)" "se_mode e = Some (node_mode md)"
      by auto
    then have "x = ?f e" using x(3) e(2) by simp
    with e(1) show "x \<in> set (scanToFlatEntries ?es)" by (auto simp: flat)
  qed
  with dist s'(1) show ?thesis by (auto simp: scanWorktree_def)
qed

text \<open>
  C13. On a tree that does not change during the scan and whose visible files fit the limit, the scan
  ends and finds exactly the visible files, each once: the regular files that no rule ignores and all
  of whose parents are directories that no rule ignores, with the digest of their content and their
  executable bit.
\<close>

theorem scan_exact:
  assumes wt: "wt_ok t"
    and small: "fits t m"
  shows "\<exists>es gd'. scanWorktree L (view_of t) (Some m) gd = Some (Inr es, gd') \<and>
    distinct (map f_path (scanToFlatEntries es)) \<and>
    set (scanToFlatEntries es) =
      {\<lparr>f_path = p, f_oid = objectOid L ''blob'' bs, f_mode = mode_str (node_mode md)\<rparr> | p bs md.
         visible t p \<and> map_of t p = Some (File bs md)}"
  by (rule scan_exact' [OF assms])

definition demo_tree :: wtree where
  "demo_tree = [(''.gitignore'', File (ascii ''tmp'') 420), (''src'', Dir), (''src/a'', File [1, 2] 493),
     (''tmp'', Dir), (''tmp/b'', File [3] 420), (''l'', Symlink)]"

lemma demo_tree_ok: "wt_ok demo_tree \<and> fits demo_tree 10"
  by (simp add: wt_ok_def demo_tree_def akeys_def fits_def ascii_def)

theorem scan_exact_witness:
  "\<exists>es gd'. scanWorktree demo_lib (view_of demo_tree) (Some 10) empty_gitdir = Some (Inr es, gd') \<and>
    distinct (map f_path (scanToFlatEntries es)) \<and>
    set (scanToFlatEntries es) =
      {\<lparr>f_path = p, f_oid = objectOid demo_lib ''blob'' bs, f_mode = mode_str (node_mode md)\<rparr> | p bs md.
         visible demo_tree p \<and> map_of demo_tree p = Some (File bs md)}"
  by (rule scan_exact) (simp_all add: demo_tree_ok)

text \<open>
  A scan that fails has nevertheless stored the blobs of the files it had read before: the message
  of the error, that nothing was written, holds for trees, commits and references only.
\<close>

lemma failed_scan_leaves_blobs:
  "\<exists>gd'. scanWorktree demo_lib
      \<lparr>dir_view = (\<lambda>_. DirOpen True 0 (Inr (Some [(''a'', KFile), (''b'', KFile)])) (LNode 0)),
       file_view = (\<lambda>p. if p = ''a'' then FileOpen True 1 420 [[7]] else FileOpen True 9 420 [replicate 9 7]),
       gitignore_text = None, exclude_text = None\<rparr>
      (Some 5) empty_gitdir = Some (Inl (OversizeHistory ''b'' 9 5), gd') \<and>
    hasObject gd' (objectOid demo_lib ''blob'' [7])"
  by (simp add: scanWorktree_def scan_loop_turn scan_turn_def list_dir_def join_path_def loadRootIgnore_def
      startsWith_def file_rules_def buildMatcher_def readRegularFileAnchored_def writeBlob_pair
      hasObject_import)

end
