(* ===== verification/Z32.thy ===== *)
theory Z32
  imports Prelude
begin

text \<open>
  The z-base-32 encoding of keys and ids (opendweb-ext-ai, provider/z32.mjs) and the normalisation
  of peer ids of the sync endpoint (opendweb-ext-sync, endpoint.mjs), which inlines a decoder.

  The base64 codec the wire protocol uses is modelled with the same regrouping of bits.
  The accumulators of the code stay below \<open>2 ^ 12\<close> (and the endpoint's is a \<^verbatim>\<open>BigInt\<close>), so they are
  natural numbers; a byte is an 8-bit word.  The proofs read an accumulator as the list of its bits.
\<close>

subsection \<open>The code\<close>

definition Z32_ALPHABET :: string where
  "Z32_ALPHABET = ''ybndrfg8ejkmcpqxot1uwisza345h769''"

definition z32_char :: "nat \<Rightarrow> char" where
  "z32_char n = Z32_ALPHABET ! n"

text \<open>The table \<^verbatim>\<open>CHAR_VALUE\<close>.\<close>

definition CHAR_VALUE :: "char \<Rightarrow> nat option" where
  "CHAR_VALUE c = map_of (zip Z32_ALPHABET [0..<32]) c"

text \<open>The inner loop: full groups of \<open>v\<close> bits leave the accumulator, highest first.\<close>

function emit :: "nat \<Rightarrow> nat \<Rightarrow> nat \<Rightarrow> nat list \<times> nat" where
  "emit v acc bits =
     (if v = 0 \<or> bits < v then ([], bits)
      else (let (ds, r) = emit v acc (bits - v) in (acc div 2 ^ (bits - v) mod 2 ^ v # ds, r)))"
  by pat_completeness auto
termination by (relation "measure (\<lambda>(v, acc, bits). bits)") auto

declare emit.simps [simp del]

text \<open>The outer loop: digits of \<open>w\<close> bits come in, digits of \<open>v\<close> bits go out.\<close>

fun regroup :: "nat \<Rightarrow> nat \<Rightarrow> nat list \<Rightarrow> nat \<Rightarrow> nat \<Rightarrow> nat list \<times> nat \<times> nat" where
  "regroup w v [] acc bits = ([], acc, bits)"
| "regroup w v (d # ds) acc bits =
     (let acc1 = acc * 2 ^ w + d; (out, bits1) = emit v acc1 (bits + w);
          (rest, st) = regroup w v ds (acc1 mod 2 ^ bits1) bits1
      in (out @ rest, st))"

text \<open>The digits of a byte string, the incomplete last one shifted up.\<close>

definition digits_of :: "nat \<Rightarrow> bytes \<Rightarrow> nat list" where
  "digits_of v bs =
     (let (out, acc, bits) = regroup 8 v (map unat bs) 0 0
      in out @ (if 0 < bits then [acc * 2 ^ (v - bits) mod 2 ^ v] else []))"

definition encodeZ32 :: "bytes \<Rightarrow> string" where
  "encodeZ32 bs = map z32_char (digits_of 5 bs)"

datatype z32_error = InvalidCharacter nat | TrailingBits | NonCanonicalLength

fun char_values :: "nat \<Rightarrow> string \<Rightarrow> z32_error + nat list" where
  "char_values i [] = Inr []"
| "char_values i (c # cs) =
     (case CHAR_VALUE c of
        None \<Rightarrow> Inl (InvalidCharacter i)
      | Some n \<Rightarrow> rbind (char_values (Suc i) cs) (\<lambda>ns. Inr (n # ns)))"

definition decodeZ32 :: "string \<Rightarrow> z32_error + bytes" where
  "decodeZ32 s =
     rbind (char_values 0 s) (\<lambda>ns.
       let (out, acc, bits) = regroup 5 8 ns 0 0; bs = map word_of_nat out
       in if 0 < bits \<and> acc \<noteq> 0 then Inl TrailingBits
          else if length (encodeZ32 bs) \<noteq> length s then Inl NonCanonicalLength
          else Inr bs)"

text \<open>\<^verbatim>\<open>Buffer.toString("hex")\<close>\<close>

definition hex_nibble :: "nat \<Rightarrow> char" where
  "hex_nibble n = ''0123456789abcdef'' ! n"

definition toHex :: "bytes \<Rightarrow> string" where
  "toHex bs = concat (map (\<lambda>b. [hex_nibble (unat b div 16), hex_nibble (unat b mod 16)]) bs)"

text \<open>The endpoint's normalisation: hex ids and unknown forms stay, z32 ids of 52 characters become hex.\<close>

definition normalizePeerId :: "string \<Rightarrow> string" where
  "normalizePeerId peer =
     (if hex64 peer then peer
      else if length peer \<noteq> 52 \<or> \<not> list_all (\<lambda>c. CHAR_VALUE c \<noteq> None) peer then peer
      else toHex (map word_of_nat (fst (regroup 5 8 (map (\<lambda>c. the (CHAR_VALUE c)) peer) 0 0))))"

subsection \<open>Numbers as bits\<close>

fun to_bits :: "nat \<Rightarrow> nat \<Rightarrow> bool list" where
  "to_bits 0 n = []"
| "to_bits (Suc w) n = to_bits w (n div 2) @ [odd n]"

definition of_bits :: "bool list \<Rightarrow> nat" where
  "of_bits bs = foldl (\<lambda>a b. 2 * a + of_bool b) 0 bs"

lemma length_to_bits [simp]: "length (to_bits w n) = w"
  by (induction w arbitrary: n) auto

lemma of_bits_Nil [simp]: "of_bits [] = 0"
  by (simp add: of_bits_def)

lemma of_bits_snoc [simp]: "of_bits (bs @ [b]) = 2 * of_bits bs + of_bool b"
  by (simp add: of_bits_def)

lemma of_bits_append: "of_bits (a @ b) = of_bits a * 2 ^ length b + of_bits b"
  by (induction b rule: rev_induct) (simp_all flip: append_assoc add: algebra_simps)

lemma of_bits_bound: "of_bits bs < 2 ^ length bs"
  by (induction bs rule: rev_induct) auto

lemma of_to_bits: "of_bits (to_bits w n) = n mod 2 ^ w"
proof (induction w arbitrary: n)
  case (Suc w)
  have "n mod 2 ^ Suc w = 2 * (n div 2 mod 2 ^ w) + n mod 2" by (simp add: mod_mult2_eq)
  with Suc show ?case by (simp add: mod_2_eq_odd)
qed (simp add: of_bits_def)

lemma to_of_bits: "to_bits (length bs) (of_bits bs) = bs"
  by (induction bs rule: rev_induct) auto

text \<open>Cutting a bit list into full groups of \<open>v\<close> and a rest.\<close>

function groups :: "nat \<Rightarrow> bool list \<Rightarrow> bool list list \<times> bool list" where
  "groups v bs =
     (if v = 0 \<or> length bs < v then ([], bs)
      else (let (gs, r) = groups v (drop v bs) in (take v bs # gs, r)))"
  by pat_completeness auto
termination by (relation "measure (\<lambda>(v, bs). length bs)") auto

declare groups.simps [simp del]

lemma groups_short: "length bs < v \<Longrightarrow> groups v bs = ([], bs)"
  by (simp add: groups.simps)

lemma groups_step: "0 < v \<Longrightarrow> \<not> length bs < v \<Longrightarrow>
    groups v bs = (take v bs # fst (groups v (drop v bs)), snd (groups v (drop v bs)))"
  by (subst groups.simps) (simp add: split_def Let_def)

lemma groups_full: "length a = v \<Longrightarrow> 0 < v \<Longrightarrow> groups v (a @ bs) = (a # fst (groups v bs), snd (groups v bs))"
  by (simp add: groups_step [of v "a @ bs"])

lemma groups_props:
  assumes "0 < v"
  shows "concat (fst (groups v bs)) @ snd (groups v bs) = bs \<and> length (snd (groups v bs)) < v \<and>
    (\<forall>g \<in> set (fst (groups v bs)). length g = v)"
  using assms
proof (induction v bs rule: groups.induct)
  case (1 v bs)
  show ?case
  proof (cases "length bs < v")
    case False
    let ?g = "groups v (drop v bs)"
    have IH: "concat (fst ?g) @ snd ?g = drop v bs" "length (snd ?g) < v" "\<forall>g \<in> set (fst ?g). length g = v"
      using 1(1) [OF _ 1(2)] False 1(2) by blast+
    have g: "groups v bs = (take v bs # fst ?g, snd ?g)" by (rule groups_step [OF 1(2) False])
    show ?thesis
    proof (intro conjI)
      show "concat (fst (groups v bs)) @ snd (groups v bs) = bs"
        unfolding g fst_conv snd_conv concat.simps append_assoc IH(1) by (rule append_take_drop_id)
      show "length (snd (groups v bs)) < v" unfolding g snd_conv by (rule IH(2))
      show "\<forall>x \<in> set (fst (groups v bs)). length x = v"
      proof
        fix x assume "x \<in> set (fst (groups v bs))"
        then have "x = take v bs \<or> x \<in> set (fst ?g)" unfolding g fst_conv set_simps by blast
        moreover have "length (take v bs) = v" unfolding length_take using False by linarith
        ultimately show "length x = v" using IH(3) by blast
      qed
    qed
  qed (simp add: groups_short)
qed

lemma groups_unique:
  assumes "0 < v" "\<forall>g \<in> set gs. length g = v" "length r < v"
  shows "groups v (concat gs @ r) = (gs, r)"
  using assms by (induction gs) (simp_all add: groups_short groups_full)

lemma groups_append:
  assumes "0 < v"
  shows "groups v (a @ b) = (fst (groups v a) @ fst (groups v (snd (groups v a) @ b)), snd (groups v (snd (groups v a) @ b)))"
proof -
  let ?ga = "fst (groups v a)" and ?ra = "snd (groups v a)"
  let ?gb = "fst (groups v (?ra @ b))" and ?rb = "snd (groups v (?ra @ b))"
  have "a @ b = concat (?ga @ ?gb) @ ?rb"
    using groups_props [OF assms, of a] groups_props [OF assms, of "?ra @ b"] by (metis append.assoc concat_append)
  moreover have "groups v (concat (?ga @ ?gb) @ ?rb) = (?ga @ ?gb, ?rb)"
    using groups_props [OF assms, of a] groups_props [OF assms, of "?ra @ b"]
    by (intro groups_unique [OF assms]) auto
  ultimately show ?thesis by simp
qed

lemma emit_groups:
  assumes "0 < v"
  shows "emit v (of_bits bs) (length bs) =
    (map of_bits (fst (groups v bs)), length (snd (groups v bs)))"
proof -
  have "emit v (of_bits (u @ bs)) (length bs) =
    (map of_bits (fst (groups v bs)), length (snd (groups v bs)))" for u
    using assms
  proof (induction v bs arbitrary: u rule: groups.induct)
    case (1 v bs)
    show ?case
    proof (cases "length bs < v")
      case True
      then show ?thesis by (simp add: groups_short emit.simps)
    next
      case False
      let ?t = "take v bs" and ?d = "drop v bs"
      have len: "length ?d = length bs - v" "length ?t = v" using False by (simp_all del: length_take add: length_take [of v bs] min_def)
      have split: "of_bits (u @ bs) = of_bits ((u @ ?t) @ ?d)" by simp
      have "of_bits (u @ bs) div 2 ^ (length bs - v) = of_bits (u @ ?t)"
        unfolding split of_bits_append [of "u @ ?t"] using of_bits_bound [of ?d] by (simp add: len)
      moreover have "of_bits (u @ ?t) mod 2 ^ v = of_bits ?t"
        using of_bits_bound [of ?t] by (simp add: of_bits_append len del: length_take)
      ultimately have top: "of_bits (u @ bs) div 2 ^ (length bs - v) mod 2 ^ v = of_bits ?t" by simp
      have "emit v (of_bits (u @ bs)) (length ?d) = (map of_bits (fst (groups v ?d)), length (snd (groups v ?d)))"
        using 1(1) [of "u @ ?t"] False 1(2) by simp
      then show ?thesis using False 1(2) top len
        by (subst emit.simps) (simp add: split_def Let_def groups_step [of v bs])
    qed
  qed
  from this [of "[]"] show ?thesis by simp
qed

lemma of_bits_suffix: "of_bits (a @ r) mod 2 ^ length r = of_bits r"
  using of_bits_bound [of r] by (simp add: of_bits_append)

lemma regroup_groups:
  assumes v: "0 < v" and ds: "\<forall>d \<in> set ds. d < 2 ^ w" and r: "length r < v"
  shows "regroup w v ds (of_bits r) (length r) =
    (let (gs, r') = groups v (r @ concat (map (to_bits w) ds)) in (map of_bits gs, of_bits r', length r'))"
  using ds r
proof (induction ds arbitrary: r)
  case Nil
  then show ?case by (simp add: groups_short)
next
  case (Cons d ds)
  let ?b = "r @ to_bits w d" and ?g = "groups v (r @ to_bits w d)"
  have acc: "of_bits r * 2 ^ w + d = of_bits ?b" using Cons.prems by (simp add: of_bits_append of_to_bits)
  have len: "length r + w = length ?b" by simp
  note gp = groups_props [OF v, of ?b]
  have m: "of_bits ?b mod 2 ^ length (snd ?g) = of_bits (snd ?g)"
    using of_bits_suffix [of "concat (fst ?g)" "snd ?g"] gp by simp
  have IH: "regroup w v ds (of_bits (snd ?g)) (length (snd ?g)) =
    (let (gs, r') = groups v (snd ?g @ concat (map (to_bits w) ds)) in (map of_bits gs, of_bits r', length r'))"
    using Cons.IH [of "snd ?g"] Cons.prems gp by simp
  have "r @ concat (map (to_bits w) (d # ds)) = ?b @ concat (map (to_bits w) ds)" by simp
  then have g: "groups v (r @ concat (map (to_bits w) (d # ds))) =
      (fst ?g @ fst (groups v (snd ?g @ concat (map (to_bits w) ds))),
       snd (groups v (snd ?g @ concat (map (to_bits w) ds))))"
    using groups_append [OF v, of ?b "concat (map (to_bits w) ds)"] by simp
  show ?case unfolding g
    by (simp only: regroup.simps acc len emit_groups [OF v] Let_def split_def fst_conv snd_conv m IH)
       (simp add: split_def Let_def)
qed

lemma regroup_bits:
  assumes "0 < v" and "\<forall>d \<in> set ds. d < 2 ^ w"
  shows "regroup w v ds 0 0 =
    (map of_bits (fst (groups v (concat (map (to_bits w) ds)))),
     of_bits (snd (groups v (concat (map (to_bits w) ds)))),
     length (snd (groups v (concat (map (to_bits w) ds)))))"
  using regroup_groups [OF assms, of "[]"] assms(1) by (simp add: split_def Let_def)

lemma to_bits_zero: "to_bits w 0 = replicate w False"
  by (induction w) (simp_all add: replicate_append_same [symmetric])

lemma of_bits_replicate_False [simp]: "of_bits (replicate n False) = 0"
  using of_to_bits [of n 0] by (simp add: to_bits_zero)

lemma of_bits_zero: "of_bits r = 0 \<Longrightarrow> r = replicate (length r) False"
  using to_of_bits [of r] by (simp add: to_bits_zero)

lemma length_concat_const: "\<forall>g \<in> set gs. length g = v \<Longrightarrow> length (concat gs) = v * length gs"
  by (induction gs) auto

lemma of_bits_all: "\<forall>g \<in> set gs. length g = w \<Longrightarrow> \<forall>d \<in> set (map of_bits gs). d < 2 ^ w"
  using of_bits_bound by (induction gs) auto

lemma map_of_to_bits: "\<forall>d \<in> set ds. d < 2 ^ w \<Longrightarrow> map of_bits (map (to_bits w) ds) = ds"
  by (induction ds) (auto simp: of_to_bits)

lemma map_to_of_bits: "\<forall>g \<in> set gs. length g = w \<Longrightarrow> map (to_bits w) (map of_bits gs) = gs"
  by (induction gs) (use to_of_bits in auto)

definition byte_bits :: "bytes \<Rightarrow> bool list" where
  "byte_bits bs = concat (map (to_bits 8) (map unat bs))"

definition padded :: "nat \<Rightarrow> bool list \<Rightarrow> bool list" where
  "padded v r = r @ replicate (v - length r) False"

text \<open>The bits of a byte string in groups of \<open>v\<close>, the last one filled up with zeros.\<close>

definition pieces :: "nat \<Rightarrow> bytes \<Rightarrow> bool list list" where
  "pieces v bs = (let (gs, r) = groups v (byte_bits bs) in gs @ (if r = [] then [] else [padded v r]))"

lemma unat_byte: "unat (b :: 8 word) < 256"
  using unsigned_less [of b] by simp

lemma unat_small: "\<forall>d \<in> set (map unat (bs :: bytes)). d < 2 ^ 8"
  by (auto simp: unat_byte)

text \<open>The digits the encoders of the code compute are the values of the pieces.\<close>

lemma regroup_pieces:
  assumes "0 < v"
  shows "digits_of v bs = map of_bits (pieces v bs)"
proof -
  let ?g = "groups v (byte_bits bs)"
  have "length (snd ?g) < v" using groups_props [OF assms, of "byte_bits bs"] by simp
  then have "of_bits (padded v (snd ?g)) < 2 ^ v" using of_bits_bound [of "padded v (snd ?g)"] by (simp add: padded_def)
  then have "of_bits (snd ?g) * 2 ^ (v - length (snd ?g)) mod 2 ^ v = of_bits (padded v (snd ?g))"
    by (simp add: padded_def of_bits_append)
  with regroup_bits [OF assms unat_small [of bs]] show ?thesis
    by (simp add: digits_of_def pieces_def byte_bits_def split_def Let_def)
qed

lemma encodeZ32_bits: "encodeZ32 bs = map z32_char (map of_bits (pieces 5 bs))"
  by (simp add: encodeZ32_def regroup_pieces)

lemma pieces_props:
  assumes "0 < v"
  shows "\<exists>z. concat (pieces v bs) = byte_bits bs @ replicate z False \<and> z < v \<and>
     (\<forall>g \<in> set (pieces v bs). length g = v)"
proof -
  let ?g = "groups v (byte_bits bs)"
  have p: "concat (fst ?g) @ snd ?g = byte_bits bs" "length (snd ?g) < v" "\<forall>g \<in> set (fst ?g). length g = v"
    using groups_props [OF assms, of "byte_bits bs"] by simp_all
  show ?thesis
  proof (cases "snd ?g = []")
    case True
    with p assms show ?thesis by (intro exI [of _ 0]) (simp add: pieces_def split_def Let_def)
  next
    case False
    have "concat (pieces v bs) = (concat (fst ?g) @ snd ?g) @ replicate (v - length (snd ?g)) False"
      using False by (simp add: pieces_def split_def Let_def padded_def)
    moreover have "\<forall>g \<in> set (pieces v bs). length g = v"
      using p False by (simp add: pieces_def split_def Let_def padded_def)
    ultimately show ?thesis unfolding p(1) using False assms
      by (intro exI [of _ "v - length (snd ?g)"]) (cases "snd ?g", auto)
  qed
qed

lemma pieces_unique:
  assumes v: "0 < v" and "\<forall>g \<in> set hs. length g = v" and "concat hs = byte_bits bs @ replicate z False"
    and "length hs = length (pieces v bs)"
  shows "hs = pieces v bs"
proof -
  obtain y where y: "concat (pieces v bs) = byte_bits bs @ replicate y False" "\<forall>g \<in> set (pieces v bs). length g = v"
    using pieces_props [OF v, of bs] by blast
  have "length (concat hs) = length (concat (pieces v bs))"
    using length_concat_const [OF assms(2)] length_concat_const [OF y(2)] assms(4) by simp
  then have "concat hs = concat (pieces v bs)" using assms(3) y(1) by simp
  with groups_unique [OF v assms(2), of "[]"] groups_unique [OF v y(2), of "[]"] v show ?thesis by simp
qed

text \<open>Reading the digits back gives the bytes, and the rest is zero.\<close>

lemma decode_pieces:
  assumes v: "0 < v" and "\<forall>g \<in> set hs. length g = v"
    and "concat hs = byte_bits bs @ replicate z False" and "z < 8"
  shows "regroup v 8 (map of_bits hs) 0 0 = (map unat bs, 0, z)"
proof -
  have small: "\<forall>d \<in> set (map of_bits hs). d < 2 ^ v" using assms(2) by (rule of_bits_all)
  have "concat (map (to_bits v) (map of_bits hs)) = concat hs" unfolding map_to_of_bits [OF assms(2)] ..
  moreover have "groups 8 (byte_bits bs @ replicate z False) = (map (to_bits 8) (map unat bs), replicate z False)"
    unfolding byte_bits_def using assms(4) by (intro groups_unique) auto
  ultimately have g: "groups 8 (concat (map (to_bits v) (map of_bits hs))) =
      (map (to_bits 8) (map unat bs), replicate z False)" using assms(3) by simp
  have e: "0 < (8 :: nat)" by simp
  show ?thesis unfolding regroup_bits [OF e small] g fst_conv snd_conv
    by (simp only: map_of_to_bits [OF unat_small] of_bits_replicate_False length_replicate)
qed

lemma decode_encoded:
  assumes "0 < v" and "v \<le> 8"
  shows "map word_of_nat (fst (regroup v 8 (map of_bits (pieces v bs)) 0 0)) = bs"
proof -
  obtain z where "concat (pieces v bs) = byte_bits bs @ replicate z False" "z < v"
      "\<forall>g \<in> set (pieces v bs). length g = v"
    using pieces_props [OF assms(1), of bs] by blast
  with decode_pieces [OF assms(1), of "pieces v bs" bs z] assms(2) show ?thesis by (simp add: o_def)
qed

subsection \<open>The alphabet\<close>

lemma alphabet: "length Z32_ALPHABET = 32" "distinct Z32_ALPHABET"
  by (simp_all add: Z32_ALPHABET_def)

lemma CHAR_VALUE_char: "n < 32 \<Longrightarrow> CHAR_VALUE (z32_char n) = Some n"
  unfolding CHAR_VALUE_def z32_char_def
  using map_of_zip_nth [OF _ alphabet(2), of "[0..<32]" n] alphabet(1) by simp

lemma CHAR_VALUE_SomeD: "CHAR_VALUE c = Some n \<Longrightarrow> n < 32 \<and> z32_char n = c"
  unfolding CHAR_VALUE_def z32_char_def
  by (drule map_of_SomeD) (auto simp: set_zip alphabet)

lemma char_values_map: "\<forall>n \<in> set ns. n < 32 \<Longrightarrow> char_values i (map z32_char ns) = Inr ns"
  by (induction ns arbitrary: i) (auto simp: CHAR_VALUE_char)

lemma char_values_Inr:
  "char_values i s = Inr ns \<Longrightarrow> s = map z32_char ns \<and> (\<forall>n \<in> set ns. n < 32)"
  by (induction s arbitrary: i ns) (auto simp: rbind_eq_Inr split: option.splits dest!: CHAR_VALUE_SomeD)

lemma encode_values: "char_values 0 (encodeZ32 bs) = Inr (map of_bits (pieces 5 bs))"
proof -
  have "\<forall>g \<in> set (pieces 5 bs). length g = 5" using pieces_props [of 5 bs] by auto
  from of_bits_all [OF this] have "\<forall>n \<in> set (map of_bits (pieces 5 bs)). n < 32" by simp
  then show ?thesis unfolding encodeZ32_bits by (rule char_values_map)
qed

text \<open>
  C14. Encoding and decoding are inverse in both directions: decoding accepts exactly the strings that
  encoding produces, so every byte string has one encoding and every accepted text one reading.
\<close>

theorem z32_bijection: "decodeZ32 s = Inr bs \<longleftrightarrow> s = encodeZ32 bs"
proof
  assume "s = encodeZ32 bs"
  moreover obtain z where z: "concat (pieces 5 bs) = byte_bits bs @ replicate z False" "z < 5"
      "\<forall>g \<in> set (pieces 5 bs). length g = 5"
    using pieces_props [of 5 bs] by auto
  moreover have "regroup 5 8 (map of_bits (pieces 5 bs)) 0 0 = (map unat bs, 0, z)"
    using z by (intro decode_pieces) auto
  ultimately show "decodeZ32 s = Inr bs"
    by (simp add: decodeZ32_def encode_values o_def)
next
  assume a: "decodeZ32 s = Inr bs"
  then obtain ns where ns: "char_values 0 s = Inr ns" by (auto simp: decodeZ32_def rbind_eq_Inr)
  from char_values_Inr [OF ns] have s: "s = map z32_char ns" "\<forall>n \<in> set ns. n < 2 ^ 5" by auto
  let ?D = "concat (map (to_bits 5) ns)"
  let ?g = "groups 8 ?D"
  have r: "regroup 5 8 ns 0 0 = (map of_bits (fst ?g), of_bits (snd ?g), length (snd ?g))"
    using s(2) by (intro regroup_bits) simp_all
  from a ns have b: "bs = map word_of_nat (map of_bits (fst ?g))" "length (encodeZ32 bs) = length s"
    and zero: "snd ?g = [] \<or> of_bits (snd ?g) = 0"
    by (auto simp: decodeZ32_def r Let_def split: if_splits)
  have p: "concat (fst ?g) @ snd ?g = ?D" "\<forall>g \<in> set (fst ?g). length g = 8"
    using groups_props [of 8 ?D] by simp_all
  have "map unat bs = map of_bits (fst ?g)"
  proof -
    have "unat (word_of_nat (of_bits g) :: 8 word) = of_bits g" if "g \<in> set (fst ?g)" for g
      using of_bits_bound [of g] p(2) that by (simp add: unsigned_of_nat take_bit_nat_eq_self)
    then show ?thesis unfolding b(1) by simp
  qed
  then have "byte_bits bs = concat (fst ?g)" unfolding byte_bits_def by (simp only: map_to_of_bits [OF p(2)])
  moreover have "snd ?g = replicate (length (snd ?g)) False" using zero of_bits_zero by fastforce
  ultimately have D: "concat (map (to_bits 5) ns) = byte_bits bs @ replicate (length (snd ?g)) False"
    using p(1) by simp
  have "map (to_bits 5) ns = pieces 5 bs"
    by (rule pieces_unique [OF _ _ D]) (use b(2) s(1) in \<open>simp_all add: encodeZ32_bits\<close>)
  then show "s = encodeZ32 bs"
    unfolding encodeZ32_bits s(1) using map_of_to_bits [OF s(2)] by metis
qed

subsection \<open>Base64\<close>

text \<open>
  \<^verbatim>\<open>Buffer.from(s, "base64")\<close> reads both alphabets, skips what is in neither, stops at the padding and
  drops the incomplete last group; \<^verbatim>\<open>toString("base64")\<close> pads with equals signs.
\<close>

definition B64_ALPHABET :: string where
  "B64_ALPHABET = ''ABCDEFGHIJKLMNOPQRSTUVWXYZabcdefghijklmnopqrstuvwxyz0123456789+/''"

definition b64_value :: "char \<Rightarrow> nat option" where
  "b64_value c =
     (if c = CHR ''-'' then Some 62 else if c = CHR ''_'' then Some 63
      else map_of (zip B64_ALPHABET [0..<64]) c)"

definition toBase64 :: "bytes \<Rightarrow> string" where
  "toBase64 bs =
     (let ds = digits_of 6 bs
      in map (\<lambda>d. B64_ALPHABET ! d) ds @ replicate ((4 - length ds mod 4) mod 4) CHR ''='')"

definition fromBase64 :: "string \<Rightarrow> bytes" where
  "fromBase64 s =
     map word_of_nat (fst (regroup 6 8
       (map the (filter (\<lambda>v. v \<noteq> None) (map b64_value (takeWhile (\<lambda>c. c \<noteq> CHR ''='') s)))) 0 0))"

lemma b64_alphabet: "length B64_ALPHABET = 64" "distinct B64_ALPHABET" "CHR ''='' \<notin> set B64_ALPHABET"
    "CHR ''-'' \<notin> set B64_ALPHABET" "CHR ''_'' \<notin> set B64_ALPHABET"
  by (simp_all add: B64_ALPHABET_def)

lemma b64_value_char: "d < 64 \<Longrightarrow> b64_value (B64_ALPHABET ! d) = Some d \<and> B64_ALPHABET ! d \<noteq> CHR ''=''"
  using map_of_zip_nth [OF _ b64_alphabet(2), of "[0..<64]" d] b64_alphabet
  by (auto simp: b64_value_def in_set_conv_nth)

lemma base64_round_trip: "fromBase64 (toBase64 bs) = bs"
proof -
  let ?ds = "map of_bits (pieces 6 bs)"
  have small: "\<forall>d \<in> set ?ds. d < 64"
    using of_bits_all [of "pieces 6 bs" 6] pieces_props [of 6 bs] by auto
  obtain k where enc: "toBase64 bs = map (\<lambda>d. B64_ALPHABET ! d) ?ds @ replicate k CHR ''=''"
    using regroup_pieces [of 6 bs] unfolding toBase64_def Let_def by simp
  have "takeWhile (\<lambda>c. c \<noteq> CHR ''='') (map (\<lambda>d. B64_ALPHABET ! d) ds @ replicate k CHR ''='') =
      map (\<lambda>d. B64_ALPHABET ! d) ds" if "\<forall>d \<in> set ds. d < 64" for ds
    using that by (induction ds) (use b64_value_char in \<open>auto simp: takeWhile_replicate\<close>)
  moreover have "map the (filter (\<lambda>v. v \<noteq> None) (map b64_value (map (\<lambda>d. B64_ALPHABET ! d) ds))) = ds"
    if "\<forall>d \<in> set ds. d < 64" for ds
    using that by (induction ds) (use b64_value_char in auto)
  ultimately have "map the (filter (\<lambda>v. v \<noteq> None)
      (map b64_value (takeWhile (\<lambda>c. c \<noteq> CHR ''='') (toBase64 bs)))) = ?ds"
    unfolding enc using small by metis
  then show ?thesis using decode_encoded [of 6 bs] by (simp add: fromBase64_def)
qed

subsection \<open>Peer ids\<close>

lemma length_byte_bits: "length (byte_bits bs) = 8 * length bs"
  unfolding byte_bits_def by (induction bs) auto

lemma length_encode: "5 * length (encodeZ32 bs) < 8 * length bs + 5 \<and> 8 * length bs \<le> 5 * length (encodeZ32 bs)"
proof -
  obtain z where z: "concat (pieces 5 bs) = byte_bits bs @ replicate z False" "z < 5"
      "\<forall>g \<in> set (pieces 5 bs). length g = 5"
    using pieces_props [of 5 bs] by auto
  have "5 * length (pieces 5 bs) = 8 * length bs + z"
    using arg_cong [OF z(1), of length] length_concat_const [OF z(3)] by (simp add: length_byte_bits)
  with z(2) show ?thesis by (simp add: encodeZ32_bits)
qed

lemma toHex_hex64: "length bs = 32 \<Longrightarrow> hex64 (toHex bs)"
proof -
  have nib: "is_hex (hex_nibble n)" if "n < 16" for n
  proof -
    from that have "n \<in> {0..<16}" by simp
    then have "n \<in> set [0..<16]" by simp
    then show ?thesis
      by (simp add: upt_rec) (auto simp: hex_nibble_def is_hex_def is_digit_def)
  qed
  have l: "length (toHex bs) = 2 * length bs" by (induction bs) (simp_all add: toHex_def)
  have "list_all is_hex (toHex bs)"
  proof (induction bs)
    case (Cons b bs)
    have "unat b < 256" by (rule unat_byte)
    with Cons show ?case by (auto simp: toHex_def intro!: nib)
  qed (simp add: toHex_def)
  with l show "length bs = 32 \<Longrightarrow> hex64 (toHex bs)" by (simp add: hex_between_def)
qed

lemma normalize_hex: "hex64 p \<Longrightarrow> normalizePeerId p = p"
  by (simp add: normalizePeerId_def)

text \<open>
  The two spellings of one key are one peer: the z-base-32 form and the hex form of a 32-byte key
  both normalise to the hex form.
\<close>

theorem peer_spellings_agree:
  assumes "length key = 32"
  shows "normalizePeerId (encodeZ32 key) = toHex key \<and> normalizePeerId (toHex key) = toHex key"
proof
  have "length (encodeZ32 key) = 52" using length_encode [of key] assms by simp
  then have shape: "\<not> hex64 (encodeZ32 key)" "length (encodeZ32 key) = 52" by (auto simp: hex_between_def)
  obtain z where z: "concat (pieces 5 key) = byte_bits key @ replicate z False" "z < 5"
      "\<forall>g \<in> set (pieces 5 key). length g = 5"
    using pieces_props [of 5 key] by auto
  have small: "\<forall>n \<in> set (map of_bits (pieces 5 key)). n < 32" using of_bits_all [OF z(3)] by simp
  have chars: "list_all (\<lambda>c. CHAR_VALUE c \<noteq> None) (encodeZ32 key)"
    unfolding encodeZ32_bits list_all_iff using small CHAR_VALUE_char by auto
  have "map (\<lambda>c. the (CHAR_VALUE c)) (encodeZ32 key) = map of_bits (pieces 5 key)"
    unfolding encodeZ32_bits using small CHAR_VALUE_char by auto
  moreover have "regroup 5 8 (map of_bits (pieces 5 key)) 0 0 = (map unat key, 0, z)"
    using z by (intro decode_pieces) auto
  ultimately have "fst (regroup 5 8 (map (\<lambda>c. the (CHAR_VALUE c)) (encodeZ32 key)) 0 0) = map unat key" by simp
  with shape chars show "normalizePeerId (encodeZ32 key) = toHex key"
    by (simp add: normalizePeerId_def o_def)
  show "normalizePeerId (toHex key) = toHex key" using toHex_hex64 [OF assms] by (rule normalize_hex)
qed

theorem peer_spellings_agree_witness:
  "normalizePeerId (encodeZ32 (replicate 32 255)) = toHex (replicate 32 255)"
  using peer_spellings_agree [of "replicate 32 255"] by simp

end
