(* ===== verification/Endpoint.thy ===== *)
theory Endpoint
  imports Closure Trees Ledger Util Z32
begin

text \<open>
  The object endpoint a device serves to its peers (opendweb-ext-sync, endpoint.mjs): reference
  snapshot, missing-object query, single objects, and pushes, with membership checks, budgets, size
  bounds, the closure check and the compare-and-swap of the reference.

  A push is run in the phases between which the code awaits: reserving a stream, the frames as they
  arrive, the checks after the last frame, the critical section.  \<open>handlePush\<close> runs them in a row, as
  one push does that nothing disturbs; \<open>push_step\<close> runs any number of pushes and the engine in any
  order, and there the critical section is a step for its comparison, each import and the write.
\<close>

subsection \<open>Responses\<close>

definition MAX_OBJECT_BYTES :: nat where "MAX_OBJECT_BYTES = 1024 * 1024"
definition MAX_OBJECTS_PER_SYNC :: nat where "MAX_OBJECTS_PER_SYNC = 5000"
definition MAX_TRANSFER_BYTES :: nat where "MAX_TRANSFER_BYTES = 256 * 1024 * 1024"
definition MAX_STREAMS_PER_GROUP :: nat where "MAX_STREAMS_PER_GROUP = 2"
definition MAX_PUSH_WIRE_BYTES :: nat where "MAX_PUSH_WIRE_BYTES = 2 * 1024 * 1024"
definition MAX_PUSH_BODY_BYTES :: nat where "MAX_PUSH_BODY_BYTES = MAX_PUSH_WIRE_BYTES"
definition MAX_JSON_BODY_BYTES :: nat where "MAX_JSON_BODY_BYTES = 8 * 1024 * 1024"
definition WANT_HAVE_PAGE :: nat where "WANT_HAVE_PAGE = 1000"
definition STAGING_TTL_MS :: int where "STAGING_TTL_MS = 10 * 60 * 1000"
definition MAX_LINE_BYTES :: nat where "MAX_LINE_BYTES = 64 * 1024 * 1024"

definition ERROR_STATUS :: "string \<Rightarrow> nat option" where
  "ERROR_STATUS = map_of
     [(''unauthorized'', 403), (''not-found'', 404), (''bad-request'', 400), (''aborted'', 400),
      (''body-too-large'', 413), (''line-too-large'', 413), (''oversize'', 413), (''budget'', 429),
      (''busy'', 429), (''cas-mismatch'', 409), (''closure-missing'', 409), (''integrity'', 422),
      (''internal'', 500)]"

record response =
  r_status :: nat
  r_body :: json

definition fail :: "string \<Rightarrow> (string \<times> json) list \<Rightarrow> response" where
  "fail code extra =
     \<lparr>r_status = (case ERROR_STATUS code of Some n \<Rightarrow> n | None \<Rightarrow> 500),
      r_body = JObj ((''ok'', JBool False) # (''code'', JStr code) # extra)\<rparr>"

definition ok_response :: "(string \<times> json) list \<Rightarrow> response" where
  "ok_response fs = \<lparr>r_status = 200, r_body = JObj ((''ok'', JBool True) # fs)\<rparr>"

definition ref_json :: "oid option \<Rightarrow> json" where
  "ref_json r = (case r of None \<Rightarrow> JNull | Some i \<Rightarrow> JStr i)"

subsection \<open>State and requests\<close>

record endpoint =
  ep_ledger :: ledger_world
  ep_git :: "(string \<times> gitdir) list"
  ep_streams :: "(string \<times> nat) list"

record request =
  rq_method :: string
  rq_path :: string
  rq_body :: body
  rq_peer :: "string option"
  rq_stream_abort :: "nat option"
  rq_aborted :: "nat \<Rightarrow> bool"

definition git_at :: "endpoint \<Rightarrow> string \<Rightarrow> gitdir" where
  "git_at ep d = (case map_of (ep_git ep) d of Some g \<Rightarrow> g | None \<Rightarrow> empty_gitdir)"

definition set_git :: "string \<Rightarrow> gitdir \<Rightarrow> endpoint \<Rightarrow> endpoint" where
  "set_git d g ep = ep\<lparr>ep_git := aput d g (ep_git ep)\<rparr>"

definition inflight :: "endpoint \<Rightarrow> string \<Rightarrow> nat" where
  "inflight ep gid = (case map_of (ep_streams ep) gid of Some n \<Rightarrow> n | None \<Rightarrow> 0)"

definition set_inflight :: "string \<Rightarrow> nat \<Rightarrow> endpoint \<Rightarrow> endpoint" where
  "set_inflight gid n ep = ep\<lparr>ep_streams := aput gid n (ep_streams ep)\<rparr>"

subsection \<open>Pushes\<close>

record push_header =
  ph_ref :: string
  ph_expected :: json
  ph_target :: string

record push =
  pu_group :: string
  pu_dir :: string
  pu_header :: "push_header option"
  pu_objects :: "(oid \<times> string) list"
  pu_staged :: "(oid \<times> bytes) list"

text \<open>\<^verbatim>\<open>header.ref\<close> of a line that is no object is undefined; of null it throws.\<close>

definition parse_header :: "json \<Rightarrow> response + push_header" where
  "parse_header line =
     (case line of
        JNull \<Rightarrow> Inl (fail ''internal'' [])
      | JObj fs \<Rightarrow>
          (case (as_string (jget fs ''ref''), as_string (jget fs ''targetCommit''), jget fs ''expectedOldRef'') of
             (Some r, Some t, Some e) \<Rightarrow> Inr \<lparr>ph_ref = r, ph_expected = e, ph_target = t\<rparr>
           | _ \<Rightarrow> Inl (fail ''bad-request'' []))
      | _ \<Rightarrow> Inl (fail ''bad-request'' []))"

definition parse_object :: "json \<Rightarrow> response + oid \<times> string \<times> int \<times> string" where
  "parse_object line =
     (case line of
        JNull \<Rightarrow> Inl (fail ''internal'' [])
      | JObj fs \<Rightarrow>
          (case (as_string (jget fs ''oid''), as_string (jget fs ''type''), jget fs ''length'',
                 as_string (jget fs ''contentBase64'')) of
             (Some i, Some ty, Some (JNum n), Some c) \<Rightarrow> Inr (i, ty, n, c)
           | _ \<Rightarrow> Inl (fail ''bad-request'' []))
      | _ \<Rightarrow> Inl (fail ''bad-request'' []))"

text \<open>One frame: the header first, then objects, each verified and staged before the next.\<close>

definition push_line :: "git_lib \<Rightarrow> json \<Rightarrow> push \<Rightarrow> response + push" where
  "push_line L line pu =
     (case pu_header pu of
        None \<Rightarrow> rbind (parse_header line) (\<lambda>h. Inr (pu\<lparr>pu_header := Some h\<rparr>))
      | Some _ \<Rightarrow>
          rbind (parse_object line) (\<lambda>(i, ty, n, c).
            let bs = fromBase64 c
            in if int (length bs) \<noteq> n then Inl (fail ''integrity'' [(''oid'', JStr i)])
               else if ty \<noteq> ''blob'' \<and> ty \<noteq> ''tree'' \<and> ty \<noteq> ''commit'' then Inl (fail ''bad-request'' [])
               else if objectOid L ty bs \<noteq> i then Inl (fail ''integrity'' [(''oid'', JStr i)])
               else if ty = ''blob'' \<and> MAX_OBJECT_BYTES < length bs then Inl (fail ''oversize'' [(''oid'', JStr i)])
               else let objs' = pu_objects pu @ [(i, ty)]
                    in if MAX_OBJECTS_PER_SYNC < length objs'
                       then Inl (fail ''budget'' [(''count'', JNum (int (length objs')))])
                       else Inr (pu\<lparr>pu_objects := objs', pu_staged := aput i bs (pu_staged pu)\<rparr>)))"

fun push_lines :: "git_lib \<Rightarrow> json list \<Rightarrow> push \<Rightarrow> response + push" where
  "push_lines L [] pu = Inr pu"
| "push_lines L (l # ls) pu = rbind (push_line L l pu) (push_lines L ls)"

text \<open>
  The resolver of the closure check: a staged object is read back and its id is computed again, any
  other object comes from the store.
\<close>

definition staged_type :: "push \<Rightarrow> oid \<Rightarrow> string option" where
  "staged_type pu i = map_of (rev (pu_objects pu)) i"

definition readback_ok :: "git_lib \<Rightarrow> push \<Rightarrow> oid \<Rightarrow> bool" where
  "readback_ok L pu i =
     (case (staged_type pu i, map_of (pu_staged pu) i) of
        (Some ty, Some bs) \<Rightarrow> objectOid L ty bs = i
      | (Some ty, None) \<Rightarrow> False
      | (None, _) \<Rightarrow> True)"

definition push_resolver :: "git_lib \<Rightarrow> gitdir \<Rightarrow> push \<Rightarrow> resolver" where
  "push_resolver L gd pu i =
     (case staged_type pu i of
        Some ty \<Rightarrow>
          (if readback_ok L pu i then map_option (Pair ty) (map_of (pu_staged pu) i) else None)
      | None \<Rightarrow> readObject gd i)"

definition ref_allowed :: "sync_group \<Rightarrow> string \<Rightarrow> bool" where
  "ref_allowed g r \<longleftrightarrow> r = GROUP_REF \<or>
     (case device_of_ref r of
        Some dev \<Rightarrow> list_ex (\<lambda>m. endpointId m = dev) (members g)
      | None \<Rightarrow> False)"

text \<open>
  After the last frame.  \<open>aborted\<close> gives the state of the abort signal at the three places the code
  looks at it.  A staged object that fails the readback makes the walk throw; the walk visits it
  exactly when it is among the objects found missing here.
\<close>

definition push_check ::
  "git_lib \<Rightarrow> (nat \<Rightarrow> bool) \<Rightarrow> sync_group \<Rightarrow> gitdir \<Rightarrow> push \<Rightarrow> response + push_header" where
  "push_check L aborted g gd pu =
     (if aborted 0 then Inl (fail ''aborted'' [(''stage'', JStr ''parsed'')])
      else (case pu_header pu of
              None \<Rightarrow> Inl (fail ''bad-request'' [])
            | Some h \<Rightarrow>
                if \<not> ref_allowed g (ph_ref h) then Inl (fail ''bad-request'' [])
                else (case walkClosure (ph_target h) (push_resolver L gd pu) of
                        Some (Inl (Missing ms)) \<Rightarrow>
                          if list_ex (\<lambda>i. \<not> readback_ok L pu i) ms then Inl (fail ''integrity'' [])
                          else Inl (fail ''closure-missing'' [(''missing'', JArr (map JStr ms))])
                      | Some (Inr c) \<Rightarrow>
                          if aborted 1 then Inl (fail ''aborted'' [(''stage'', JStr ''pre-commit'')]) else Inr h
                      | _ \<Rightarrow> Inl (fail ''internal'' []))))"

fun import_staged :: "git_lib \<Rightarrow> push \<Rightarrow> (oid \<times> string) list \<Rightarrow> gitdir \<Rightarrow> (response + unit) \<times> gitdir" where
  "import_staged L pu [] gd = (Inr (), gd)"
| "import_staged L pu ((i, ty) # ms) gd =
     (case map_of (pu_staged pu) i of
        None \<Rightarrow> (Inl (fail ''internal'' []), gd)
      | Some bs \<Rightarrow>
          if objectOid L ty bs \<noteq> i then (Inl (fail ''integrity'' [(''oid'', JStr i)]), gd)
          else import_staged L pu ms (importLooseObjectAtomic gd ty bs i))"

text \<open>The critical section.\<close>

definition push_commit ::
  "git_lib \<Rightarrow> (nat \<Rightarrow> bool) \<Rightarrow> push_header \<Rightarrow> push \<Rightarrow> gitdir \<Rightarrow> response \<times> gitdir" where
  "push_commit L aborted h pu gd =
     (if aborted 2 then (fail ''aborted'' [(''stage'', JStr ''commit-point'')], gd)
      else if ref_json (readRef gd (ph_ref h)) \<noteq> ph_expected h
      then (fail ''cas-mismatch'' [(''ref'', JStr (ph_ref h)), (''expectedOldRef'', ph_expected h),
              (''currentRef'', ref_json (readRef gd (ph_ref h)))], gd)
      else (case import_staged L pu (pu_objects pu) gd of
              (Inl r, gd') \<Rightarrow> (r, gd')
            | (Inr _, gd') \<Rightarrow>
                (case writeRef gd' (ph_ref h) (ph_target h) of
                   Inl e \<Rightarrow> (fail ''internal'' [], gd')
                 | Inr gd'' \<Rightarrow>
                     (ok_response [(''ref'', JStr (ph_ref h)), (''oid'', JStr (ph_target h)),
                        (''imported'', JNum (int (length (pu_objects pu))))], gd''))))"

definition new_push :: "string \<Rightarrow> string \<Rightarrow> push" where
  "new_push gid d = \<lparr>pu_group = gid, pu_dir = d, pu_header = None, pu_objects = [], pu_staged = []\<rparr>"

definition body_error_code :: "body_error \<Rightarrow> string" where
  "body_error_code e =
     (case e of BodyTooLarge _ \<Rightarrow> ''body-too-large'' | LineTooLarge _ \<Rightarrow> ''line-too-large''
      | Aborted \<Rightarrow> ''aborted'' | BadJson \<Rightarrow> ''internal'')"

definition handlePush ::
  "git_lib \<Rightarrow> json line_reader \<Rightarrow> sync_group \<Rightarrow> string \<Rightarrow> request \<Rightarrow> endpoint \<Rightarrow> response \<times> endpoint" where
  "handlePush L R g d rq ep =
     (let gid = group_id g
      in if MAX_STREAMS_PER_GROUP \<le> inflight ep gid then (fail ''busy'' [], ep)
         else let ep1 = set_inflight gid (inflight ep gid + 1) ep;
                  (lines, err) = readBoundedJsonLines R MAX_PUSH_BODY_BYTES MAX_LINE_BYTES
                    (rq_stream_abort rq) (rq_body rq);
                  (resp, gd) =
                    (case push_lines L lines (new_push gid d) of
                       Inl r \<Rightarrow> (r, git_at ep1 d)
                     | Inr pu \<Rightarrow>
                         (case err of
                            Some e \<Rightarrow> (fail (body_error_code e) [], git_at ep1 d)
                          | None \<Rightarrow>
                              (case push_check L (rq_aborted rq) g (git_at ep1 d) pu of
                                 Inl r \<Rightarrow> (r, git_at ep1 d)
                               | Inr h \<Rightarrow> push_commit L (rq_aborted rq) h pu (git_at ep1 d))));
                  ep2 = set_git d gd ep1
              in (resp, set_inflight gid (inflight ep2 gid - 1) ep2))"

subsection \<open>The other operations\<close>

definition handleRefs :: "gitdir \<Rightarrow> response" where
  "handleRefs gd = ok_response [(''refs'', JObj (map (\<lambda>(r, i). (r, JStr i)) (listRefsDirect gd)))]"

text \<open>\<^verbatim>\<open>JSON.parse(text || "{}")\<close>; \<open>parse\<close> is the JSON reader, None a syntax error.\<close>

definition handleWant :: "(bytes \<Rightarrow> json option) \<Rightarrow> body \<Rightarrow> gitdir \<Rightarrow> response" where
  "handleWant parse b gd =
     (case fst (readBoundedBody b MAX_JSON_BODY_BYTES) of
        Inl e \<Rightarrow> fail (body_error_code e) []
      | Inr raw \<Rightarrow>
          (case (if raw = [] then Some (JObj []) else parse raw) of
             None \<Rightarrow> fail ''bad-request'' []
           | Some JNull \<Rightarrow> fail ''internal'' []
           | Some req \<Rightarrow>
               (let fs = (case req of JObj fs \<Rightarrow> fs | _ \<Rightarrow> []);
                    have' = (case as_array (jget fs ''have'') of
                               None \<Rightarrow> []
                             | Some hs \<Rightarrow> filter hex40 (map the (filter (\<lambda>v. v \<noteq> None) (map (\<lambda>h. as_string (Some h)) hs))))
                in case as_string (jget fs ''commit'') of
                     None \<Rightarrow> fail ''bad-request'' []
                   | Some c \<Rightarrow>
                       if \<not> hex40 c then fail ''bad-request'' []
                       else (case walkClosure c (readObject gd) of
                               Some (Inr closure) \<Rightarrow>
                                 ok_response
                                   [(''missing'', JArr (map (\<lambda>(i, ty, n).
                                       JObj [(''oid'', JStr i), (''type'', JStr ty), (''size'', JNum (int n))])
                                       (filter (\<lambda>(i, _). i \<notin> set have') closure))),
                                    (''closureSize'', JNum (int (length closure)))]
                             | Some (Inl (Missing ms)) \<Rightarrow> fail ''internal'' [(''missing'', JArr (map JStr ms))]
                             | _ \<Rightarrow> fail ''internal'' []))))"

definition handleObject :: "git_lib \<Rightarrow> nat \<Rightarrow> string \<Rightarrow> gitdir \<Rightarrow> response" where
  "handleObject L streams i gd =
     (if \<not> hex40 i then fail ''bad-request'' []
      else (case readObject gd i of
              None \<Rightarrow> fail ''not-found'' [(''oid'', JStr i)]
            | Some (ty, bs) \<Rightarrow>
                if MAX_OBJECT_BYTES < length bs
                then fail ''oversize'' [(''oid'', JStr i), (''size'', JNum (int (length bs))),
                       (''limit'', JNum (int MAX_OBJECT_BYTES))]
                else if MAX_STREAMS_PER_GROUP \<le> streams then fail ''busy'' []
                else if objectOid L ty bs \<noteq> i then fail ''integrity'' [(''oid'', JStr i)]
                else ok_response [(''oid'', JStr i), (''type'', JStr ty), (''length'', JNum (int (length bs))),
                       (''contentBase64'', JStr (toBase64 bs))]))"

text \<open>
  \<^verbatim>\<open>/^\/wpk1\/sync\/(id)\/(id)\/([a-z]+)(\/.*)?$/\<close>: group, root, operation and the rest.
\<close>

definition parse_path :: "string \<Rightarrow> (string \<times> string \<times> string \<times> string) option" where
  "parse_path p =
     (case split_on CHR ''/'' p of
        e # w # s # g # r # q # rest \<Rightarrow>
          if e = [] \<and> w = ''wpk1'' \<and> s = ''sync'' \<and> slug g \<and> slug r \<and> q \<noteq> [] \<and> list_all is_lower q \<and>
               list_all (\<lambda>s. CHR 0x0A \<notin> set s \<and> CHR 0x0D \<notin> set s) rest
          then Some (g, r, q, if rest = [] then [] else CHR ''/'' # join_with CHR ''/'' rest)
          else None
      | _ \<Rightarrow> None)"

definition drop_slash :: "string \<Rightarrow> string" where
  "drop_slash s = (if s \<noteq> [] \<and> hd s = CHR ''/'' then tl s else s)"

text \<open>The ids of a loaded ledger are lower case, so \<^verbatim>\<open>toLowerCase\<close> is left out.\<close>

definition is_member :: "sync_group \<Rightarrow> string option \<Rightarrow> bool" where
  "is_member g peer =
     (case peer of None \<Rightarrow> False | Some p \<Rightarrow> list_ex (\<lambda>m. endpointId m = normalizePeerId p) (members g))"

definition handle ::
  "git_lib \<Rightarrow> json line_reader \<Rightarrow> (bytes \<Rightarrow> json option) \<Rightarrow> string \<Rightarrow> request \<Rightarrow> endpoint \<Rightarrow> response \<times> endpoint" where
  "handle L R parse home rq ep =
     (case parse_path (rq_path rq) of
        None \<Rightarrow> (fail ''not-found'' [(''path'', JStr (rq_path rq))], ep)
      | Some (gid, rid, q, rest) \<Rightarrow>
          (case loadLedger (ep_ledger ep) of
             Inl e \<Rightarrow> (fail ''internal'' [], ep)
           | Inr gs \<Rightarrow>
               (case findGroup gs gid of
                  None \<Rightarrow> (fail ''not-found'' [], ep)
                | Some g \<Rightarrow>
                    if list_all (\<lambda>r. root_id r \<noteq> rid) (roots g) then (fail ''not-found'' [], ep)
                    else if \<not> is_member g (rq_peer rq) then (fail ''unauthorized'' [], ep)
                    else (case gitdirFor home gid rid of
                            Inl e \<Rightarrow> (fail ''internal'' [], ep)
                          | Inr d \<Rightarrow>
                              if q = ''refs'' \<and> rq_method rq = ''GET'' then (handleRefs (git_at ep d), ep)
                              else if q = ''want'' \<and> rq_method rq = ''POST''
                              then (handleWant parse (rq_body rq) (git_at ep d), ep)
                              else if q = ''object'' \<and> rq_method rq = ''GET''
                              then (handleObject L (inflight ep gid) (drop_slash rest) (git_at ep d), ep)
                              else if q = ''push'' \<and> rq_method rq = ''POST'' then handlePush L R g d rq ep
                              else (fail ''not-found'' [], ep)))))"

subsection \<open>Collecting what dead pushes left\<close>

record staging_dir =
  sd_name :: string
  sd_files :: nat
  sd_mtime :: int

definition gc_removes :: "int \<Rightarrow> int \<Rightarrow> staging_dir \<Rightarrow> bool" where
  "gc_removes now ttl s \<longleftrightarrow> sd_files s = 0 \<or> ttl < now - sd_mtime s"

definition gcStaging :: "int \<Rightarrow> int \<Rightarrow> staging_dir list \<Rightarrow> string list \<times> staging_dir list" where
  "gcStaging now ttl ds =
     (map sd_name (filter (gc_removes now ttl) ds), filter (\<lambda>s. \<not> gc_removes now ttl s) ds)"

subsection \<open>Complete closures\<close>

text \<open>Everything a commit reaches is in the store.\<close>

definition complete :: "gitdir \<Rightarrow> oid \<Rightarrow> bool" where
  "complete gd c \<longleftrightarrow> reachable (readObject gd) c \<subseteq> dom (readObject gd)"

definition refs_complete :: "gitdir \<Rightarrow> bool" where
  "refs_complete gd \<longleftrightarrow> (\<forall>r c. readRef gd r = Some c \<longrightarrow> complete gd c)"

lemma reach_mono:
  assumes "res \<subseteq>\<^sub>m res'" and "reachable res s \<subseteq> dom res"
  shows "reachable res' s = reachable res s"
proof -
  have "reach res s i" if "reach res' s i" for i
    using that
  proof induction
    case start
    show ?case by (rule reach.start)
  next
    case (link j ob i)
    then obtain ob' where "res j = Some ob'" using assms(2) by (auto simp: reachable_def)
    with assms(1) link(2) have "res j = Some ob" by (metis domI map_le_def option.inject)
    with link show ?case by (auto intro: reach.link)
  qed
  moreover have "reach res' s i" if "reach res s i" for i
    using that
  proof induction
    case start
    show ?case by (rule reach.start)
  next
    case (link j ob i)
    with assms(1) have "res' j = Some ob" by (metis domI map_le_def)
    with link show ?case by (auto intro: reach.link)
  qed
  ultimately show ?thesis by (auto simp: reachable_def)
qed

lemma complete_mono:
  assumes "res \<subseteq>\<^sub>m readObject gd" and "reachable res s \<subseteq> dom res"
  shows "complete gd s"
  using reach_mono [OF assms] assms(2) map_le_implies_dom_le [OF assms(1)] by (auto simp: complete_def)

lemma grows_map_le: "grows gd gd' \<Longrightarrow> readObject gd \<subseteq>\<^sub>m readObject gd'"
  by (auto simp: grows_def map_le_def)

lemma complete_grows: "complete gd c \<Longrightarrow> grows gd gd' \<Longrightarrow> complete gd' c"
  using complete_mono [OF grows_map_le] by (simp add: complete_def)

subsection \<open>Staged objects\<close>

abbreviation object_types :: "string set" where
  "object_types \<equiv> {''blob'', ''tree'', ''commit''}"

definition staged_ok :: "git_lib \<Rightarrow> push \<Rightarrow> bool" where
  "staged_ok L pu \<longleftrightarrow>
     (\<forall>(i, ty) \<in> set (pu_objects pu). ty \<in> object_types \<and>
        (\<exists>bs. map_of (pu_staged pu) i = Some bs \<and> objectOid L ty bs = i))"

lemma staged_ok_new: "staged_ok L (new_push g d)"
  by (simp add: staged_ok_def new_push_def)

lemma push_line_ok:
  assumes cf: "collision_free L" and ok: "staged_ok L pu" and r: "push_line L l pu = Inr pu'"
  shows "staged_ok L pu' \<and> pu_group pu' = pu_group pu \<and> pu_dir pu' = pu_dir pu \<and>
    length (pu_objects pu') \<le> max (length (pu_objects pu)) MAX_OBJECTS_PER_SYNC"
proof (cases "pu_header pu")
  case None
  with r ok show ?thesis by (auto simp: push_line_def staged_ok_def rbind_eq_Inr)
next
  case (Some h)
  with r obtain i ty c where o:
    "pu' = pu\<lparr>pu_objects := pu_objects pu @ [(i, ty)], pu_staged := aput i (fromBase64 c) (pu_staged pu)\<rparr>"
    "ty \<in> object_types" "objectOid L ty (fromBase64 c) = i" "length (pu_objects pu) + 1 \<le> MAX_OBJECTS_PER_SYNC"
    by (auto simp: push_line_def rbind_eq_Inr Let_def split: if_splits)
  have "staged_ok L pu'"
    unfolding staged_ok_def
  proof (intro ballI, clarify)
    fix j ty' assume "(j, ty') \<in> set (pu_objects pu')"
    then consider "(j, ty') = (i, ty)" | "(j, ty') \<in> set (pu_objects pu)" using o(1) by auto
    then show "ty' \<in> object_types \<and> (\<exists>bs. map_of (pu_staged pu') j = Some bs \<and> objectOid L ty' bs = j)"
    proof cases
      case 1
      with o show ?thesis by simp
    next
      case 2
      with ok obtain bs where b: "ty' \<in> object_types" "map_of (pu_staged pu) j = Some bs" "objectOid L ty' bs = j"
        by (auto simp: staged_ok_def)
      show ?thesis
      proof (cases "j = i")
        case True
        with cf b o(2,3) have "ty' = ty \<and> bs = fromBase64 c" unfolding collision_free_def by blast
        with True b o show ?thesis by simp
      next
        case False
        with b o(1) show ?thesis by simp
      qed
    qed
  qed
  with o show ?thesis by simp
qed

lemma push_lines_ok:
  assumes cf: "collision_free L"
  shows "staged_ok L pu \<Longrightarrow> push_lines L ls pu = Inr pu' \<Longrightarrow>
    staged_ok L pu' \<and> pu_group pu' = pu_group pu \<and> pu_dir pu' = pu_dir pu"
proof (induction ls arbitrary: pu)
  case (Cons l ls)
  then obtain pu1 where "push_line L l pu = Inr pu1" "push_lines L ls pu1 = Inr pu'"
    by (auto simp: rbind_eq_Inr)
  with Cons.IH [of pu1] push_line_ok [OF cf Cons.prems(1)] show ?case by auto
qed simp

lemma staged_type_Some: "staged_type pu i = Some ty \<Longrightarrow> (i, ty) \<in> set (pu_objects pu)"
  unfolding staged_type_def by (drule map_of_SomeD) simp

lemma resolver_staged:
  assumes "staged_ok L pu" and "staged_type pu i = Some ty"
  shows "\<exists>bs. push_resolver L gd pu i = Some (ty, bs) \<and> objectOid L ty bs = i \<and> ty \<in> object_types \<and>
    map_of (pu_staged pu) i = Some bs"
  using assms staged_type_Some [OF assms(2)]
  by (auto simp: push_resolver_def readback_ok_def staged_ok_def)

lemma finite_resolver: "finite (dom (push_resolver L gd pu))"
proof -
  have "dom (push_resolver L gd pu) \<subseteq> dom (map_of (rev (pu_objects pu))) \<union> dom (map_of (objs gd))"
    by (auto simp: push_resolver_def staged_type_def readObject_def split: option.splits if_splits)
  then show ?thesis by (rule finite_subset) (simp add: finite_dom_map_of)
qed

text \<open>A push that passed the check: every object its target reaches is staged or stored.\<close>

definition covered :: "git_lib \<Rightarrow> gitdir \<Rightarrow> push \<Rightarrow> oid \<Rightarrow> bool" where
  "covered L gd pu t \<longleftrightarrow> reachable (push_resolver L gd pu) t \<subseteq> dom (push_resolver L gd pu)"

lemma push_check_covered:
  assumes "push_check L ab g gd pu = Inr h"
  shows "covered L gd pu (ph_target h) \<and> pu_header pu = Some h \<and> ref_allowed g (ph_ref h) \<and> \<not> ab 0 \<and> \<not> ab 1"
proof -
  from assms obtain c where "pu_header pu = Some h" "ref_allowed g (ph_ref h)" "\<not> ab 0" "\<not> ab 1"
    "walkClosure (ph_target h) (push_resolver L gd pu) = Some (Inr c)"
    by (auto simp: push_check_def split: if_splits option.splits sum.splits err.splits)
  then show ?thesis using walkClosure_exact' [OF finite_resolver, of "ph_target h" L gd pu]
    by (auto simp: covered_def split: if_splits)
qed

lemma resolver_grows:
  assumes "grows gd gd'"
  shows "push_resolver L gd pu \<subseteq>\<^sub>m push_resolver L gd' pu"
  using grows_map_le [OF assms] by (auto simp: map_le_def push_resolver_def split: option.splits)

lemma covered_grows:
  assumes "covered L gd pu t" and "grows gd gd'"
  shows "covered L gd' pu t"
proof -
  note le = resolver_grows [OF assms(2), of L pu]
  have "reachable (push_resolver L gd' pu) t = reachable (push_resolver L gd pu) t"
    using reach_mono [OF le] assms(1) by (simp add: covered_def)
  with assms(1) map_le_implies_dom_le [OF le] show ?thesis
    unfolding covered_def by (simp only: subset_trans)
qed

lemma import_typed:
  assumes "typed L gd" and "ty \<in> object_types" and "objectOid L ty bs = i"
  shows "typed L (importLooseObjectAtomic gd ty bs i) \<and> grows gd (importLooseObjectAtomic gd ty bs i)"
proof
  show "grows gd (importLooseObjectAtomic gd ty bs i)" unfolding grows_def using import_keeps by blast
  have "self_named L (importLooseObjectAtomic gd ty bs i)"
    using assms by (intro import_self_named) (simp_all add: typed_def)
  then show "typed L (importLooseObjectAtomic gd ty bs i)"
    using assms unfolding typed_def by (auto simp: readObject_import split: if_splits)
qed

lemma import_present:
  assumes "typed L gd" and "collision_free L" and "ty \<in> object_types" and "objectOid L ty bs = i"
  shows "readObject (importLooseObjectAtomic gd ty bs i) i = Some (ty, bs)"
proof (cases "readObject gd i")
  case None
  then show ?thesis by (simp add: readObject_import hasObject_def)
next
  case (Some v)
  obtain ty' bs' where v: "v = (ty', bs')" by force
  with Some assms(1) have "ty' \<in> object_types" "i = objectOid L ty' bs'"
    unfolding typed_def self_named_def by blast+
  with assms have "ty' = ty \<and> bs' = bs" unfolding collision_free_def by metis
  with Some v show ?thesis by (simp add: readObject_import hasObject_def)
qed

lemma import_staged_ok:
  assumes cf: "collision_free L" and ok: "staged_ok L pu"
  shows "set ms \<subseteq> set (pu_objects pu) \<Longrightarrow> typed L gd \<Longrightarrow>
    \<exists>gd'. import_staged L pu ms gd = (Inr (), gd') \<and> typed L gd' \<and> grows gd gd' \<and> refs gd' = refs gd \<and>
      (\<forall>(i, ty) \<in> set ms. \<exists>bs. map_of (pu_staged pu) i = Some bs \<and> readObject gd' i = Some (ty, bs))"
proof (induction ms arbitrary: gd)
  case Nil
  then show ?case by simp
next
  case (Cons m ms)
  obtain i ty where m: "m = (i, ty)" by force
  with Cons.prems ok obtain bs where b: "ty \<in> object_types" "map_of (pu_staged pu) i = Some bs" "objectOid L ty bs = i"
    by (auto simp: staged_ok_def)
  let ?g = "importLooseObjectAtomic gd ty bs i"
  note t = import_typed [OF Cons.prems(2) b(1,3)]
  note p = import_present [OF Cons.prems(2) cf b(1,3)]
  from Cons.IH [of ?g] t Cons.prems obtain gd' where g: "import_staged L pu ms ?g = (Inr (), gd')"
    "typed L gd'" "grows ?g gd'" "refs gd' = refs ?g"
    "\<forall>(i, ty) \<in> set ms. \<exists>bs. map_of (pu_staged pu) i = Some bs \<and> readObject gd' i = Some (ty, bs)" by auto
  have "readObject gd' i = Some (ty, bs)" using p g(3) by (auto simp: grows_def)
  with g t b m show ?case by (auto simp: refs_import intro: grows_trans)
qed

text \<open>
  The critical section: either it answers 200 and the reference has moved from the expected value to
  the target, whose closure is complete, or nothing changed.
\<close>

lemma push_commit_spec:
  assumes cf: "collision_free L" and ok: "staged_ok L pu" and t: "typed L gd"
    and cov: "covered L gd pu (ph_target h)" and allowed: "ref_allowed g (ph_ref h)"
    and c: "push_commit L ab h pu gd = (resp, gd')"
  shows "(r_status resp = 200 \<and> \<not> ab 2 \<and> ref_json (readRef gd (ph_ref h)) = ph_expected h \<and>
       readRef gd' = (readRef gd)(ph_ref h \<mapsto> ph_target h) \<and> complete gd' (ph_target h) \<and>
       typed L gd' \<and> grows gd gd') \<or>
     (r_status resp \<noteq> 200 \<and> gd' = gd)"
proof (cases "ab 2 \<or> ref_json (readRef gd (ph_ref h)) \<noteq> ph_expected h")
  case True
  with c show ?thesis by (auto simp: push_commit_def fail_def ERROR_STATUS_def split: if_splits)
next
  case False
  from import_staged_ok [OF cf ok subset_refl t] obtain g1 where g1:
    "import_staged L pu (pu_objects pu) gd = (Inr (), g1)" "typed L g1" "grows gd g1" "refs g1 = refs gd"
    "\<forall>(i, ty) \<in> set (pu_objects pu). \<exists>bs. map_of (pu_staged pu) i = Some bs \<and> readObject g1 i = Some (ty, bs)"
    by blast
  have "isAllowedRef (ph_ref h)" using allowed
    by (auto simp: ref_allowed_def isAllowedRef_def split: option.splits)
  then have w: "writeRef g1 (ph_ref h) (ph_target h) = Inr (g1\<lparr>refs := aput (ph_ref h) (ph_target h) (refs g1)\<rparr>)"
    by (simp add: writeRef_def)
  let ?g2 = "g1\<lparr>refs := aput (ph_ref h) (ph_target h) (refs g1)\<rparr>"
  have same: "readObject ?g2 = readObject g1" by (simp add: readObject_def fun_eq_iff)
  have "push_commit L ab h pu gd = (ok_response [(''ref'', JStr (ph_ref h)), (''oid'', JStr (ph_target h)),
      (''imported'', JNum (int (length (pu_objects pu))))], ?g2)"
    unfolding push_commit_def using False by (simp add: g1(1) w)
  with c have res: "resp = ok_response [(''ref'', JStr (ph_ref h)), (''oid'', JStr (ph_target h)),
      (''imported'', JNum (int (length (pu_objects pu))))]" "gd' = ?g2" by simp_all
  have "push_resolver L gd pu \<subseteq>\<^sub>m readObject g1"
    unfolding map_le_def
  proof
    fix i assume d: "i \<in> dom (push_resolver L gd pu)"
    show "push_resolver L gd pu i = readObject g1 i"
    proof (cases "staged_type pu i")
      case None
      then have "push_resolver L gd pu i = readObject gd i" by (simp add: push_resolver_def)
      moreover from this d obtain v where "readObject gd i = Some v" by (metis domD)
      ultimately show ?thesis using g1(3) by (cases v) (simp add: grows_def)
    next
      case (Some ty)
      with resolver_staged [OF ok Some, of gd] g1(5) staged_type_Some [OF Some] show ?thesis by fastforce
    qed
  qed
  then have "complete g1 (ph_target h)" using cov by (intro complete_mono) (auto simp: covered_def)
  then have "complete gd' (ph_target h)" using res(2) same by (simp add: complete_def)
  moreover have "readRef gd' = (readRef gd)(ph_ref h \<mapsto> ph_target h)"
    using res(2) g1(4) by (simp add: readRef_def fun_eq_iff)
  moreover have "typed L gd'" "grows gd gd'" using g1 res(2) same
    by (auto simp: typed_def self_named_def grows_def)
  ultimately show ?thesis using False res(1) by (simp add: ok_response_def)
qed

definition empty_endpoint :: endpoint where
  "empty_endpoint = \<lparr>ep_ledger = \<lparr>groups_file = None, repo_dirs = []\<rparr>, ep_git = [], ep_streams = []\<rparr>"

text \<open>A push of one empty file, whose lines a toy reader knows by their first byte.\<close>

definition empty_blob :: oid where "empty_blob = objectOid plain_lib ''blob'' []"

definition demo_header :: json where
  "demo_header = JObj [(''ref'', JStr GROUP_REF), (''expectedOldRef'', JNull), (''targetCommit'', JStr empty_blob)]"

definition demo_object :: json where
  "demo_object = JObj [(''oid'', JStr empty_blob), (''type'', JStr ''blob''), (''length'', JNum 0),
     (''contentBase64'', JStr [])]"

definition demo_reader :: "json line_reader" where
  "demo_reader = \<lparr>read_line = (\<lambda>bs. case bs of [] \<Rightarrow> Blank
     | b # _ \<Rightarrow> if b = 1 then Value demo_header else if b = 2 then Value demo_object else NotJson),
     char_count = length\<rparr>"

definition demo_push_request :: request where
  "demo_push_request = \<lparr>rq_method = ''POST'', rq_path = ''/wpk1/sync/g/main/push'', rq_body = Whole [1, 10, 2, 10],
     rq_peer = None, rq_stream_abort = None, rq_aborted = (\<lambda>_. False)\<rparr>"

text \<open>
  C15. A push is all or nothing: either the answer is 200, the abort signal had not fired at the commit
  point, the reference stood at the expected value and now stands at the target, the store has only
  grown and holds everything the target reaches, and no other reference moved; or the answer is an
  error and neither a reference nor an object of the store changed.
\<close>

theorem push_all_or_nothing:
  assumes cf: "collision_free L" and t: "typed L (git_at ep d)"
    and p: "handlePush L R g d rq ep = (resp, ep')"
  shows "(\<exists>h :: push_header. r_status resp = 200 \<and> \<not> rq_aborted rq 2 \<and> ref_allowed g (ph_ref h) \<and>
       ref_json (readRef (git_at ep d) (ph_ref h)) = ph_expected h \<and>
       readRef (git_at ep' d) = (readRef (git_at ep d))(ph_ref h \<mapsto> ph_target h) \<and>
       complete (git_at ep' d) (ph_target h) \<and> grows (git_at ep d) (git_at ep' d) \<and> typed L (git_at ep' d)) \<or>
     (r_status resp \<noteq> 200 \<and> git_at ep' d = git_at ep d)"
proof (cases "MAX_STREAMS_PER_GROUP \<le> inflight ep (group_id g)")
  case True
  with p show ?thesis by (auto simp: handlePush_def Let_def fail_def ERROR_STATUS_def)
next
  case False
  let ?gd = "git_at ep d"
  obtain lines err where body: "readBoundedJsonLines R MAX_PUSH_BODY_BYTES MAX_LINE_BYTES (rq_stream_abort rq)
      (rq_body rq) = (lines, err)" by force
  have at: "git_at (set_inflight k n (set_git d gd x)) d = gd" for k n gd x
    by (simp add: git_at_def set_inflight_def set_git_def)
  have keep: "git_at (set_inflight k n ep) d = ?gd" for k n
    by (simp add: git_at_def set_inflight_def)
  have errors: "r_status r \<noteq> 200" if "push_lines L ls pu = Inl r" for ls pu r
    using that
  proof (induction ls arbitrary: pu)
    case (Cons l ls)
    have "r_status r' \<noteq> 200" if "push_line L l pu = Inl r'" for r'
      using that
      by (auto simp: push_line_def rbind_eq_Inl parse_header_def parse_object_def fail_def ERROR_STATUS_def Let_def
          split: option.splits if_splits json.splits prod.splits)
    with Cons show ?case by (auto simp: rbind_eq_Inl)
  qed simp
  have check_errors: "r_status r \<noteq> 200" if "push_check L ab g gd pu = Inl r" for ab gd pu r
    using that by (auto simp: push_check_def fail_def ERROR_STATUS_def split: if_splits option.splits sum.splits err.splits)
  show ?thesis
  proof (cases "push_lines L lines (new_push (group_id g) d)")
    case (Inl r)
    with p False body errors [OF Inl] show ?thesis by (auto simp: handlePush_def Let_def at keep)
  next
    case (Inr pu)
    note ok = conjunct1 [OF push_lines_ok [OF cf staged_ok_new Inr]]
    show ?thesis
    proof (cases err)
      case (Some e)
      have "r_status (fail (body_error_code e) []) \<noteq> 200"
        by (cases e) (simp_all add: body_error_code_def fail_def ERROR_STATUS_def)
      with p False body Inr Some show ?thesis by (auto simp: handlePush_def Let_def at keep)
    next
      case None
      show ?thesis
      proof (cases "push_check L (rq_aborted rq) g ?gd pu")
        case (Inl r)
        with p False body Inr None check_errors [OF Inl] show ?thesis
          by (auto simp: handlePush_def Let_def at keep)
      next
        case check: (Inr h)
        note cov = push_check_covered [OF check]
        obtain resp0 gd' where c: "push_commit L (rq_aborted rq) h pu ?gd = (resp0, gd')" by force
        have "resp = resp0" "git_at ep' d = gd'"
          using p False body Inr None check c by (auto simp: handlePush_def Let_def at keep)
        moreover have "ref_allowed g (ph_ref h)" using cov by blast
        moreover note push_commit_spec [OF cf ok t conjunct1 [OF cov] \<open>ref_allowed g (ph_ref h)\<close> c]
        ultimately show ?thesis
        proof (cases "r_status resp0 = 200")
          case True
          with \<open>resp = resp0\<close> \<open>git_at ep' d = gd'\<close> \<open>ref_allowed g (ph_ref h)\<close>
            push_commit_spec [OF cf ok t conjunct1 [OF cov] \<open>ref_allowed g (ph_ref h)\<close> c]
          have "r_status resp = 200 \<and> \<not> rq_aborted rq 2 \<and> ref_allowed g (ph_ref h) \<and>
             ref_json (readRef (git_at ep d) (ph_ref h)) = ph_expected h \<and>
             readRef (git_at ep' d) = (readRef (git_at ep d))(ph_ref h \<mapsto> ph_target h) \<and>
             complete (git_at ep' d) (ph_target h) \<and> grows (git_at ep d) (git_at ep' d) \<and> typed L (git_at ep' d)"
            by blast
          then show ?thesis by blast
        qed simp
      qed
    qed
  qed
qed

definition demo_push :: push where
  "demo_push = \<lparr>pu_group = ''g'', pu_dir = ''d'',
     pu_header = Some \<lparr>ph_ref = GROUP_REF, ph_expected = JNull, ph_target = empty_blob\<rparr>,
     pu_objects = [(empty_blob, ''blob'')], pu_staged = [(empty_blob, [])]\<rparr>"

lemma demo_push_lines:
  "readBoundedJsonLines demo_reader MAX_PUSH_BODY_BYTES MAX_LINE_BYTES None (Whole [1, 10, 2, 10]) =
     ([demo_header, demo_object], None)"
  "push_lines plain_lib [demo_header, demo_object] (new_push ''g'' ''d'') = Inr demo_push"
proof -
  have c: "cut_lines demo_reader m [1, 10, 2, 10] = ([demo_header, demo_object], Inr [])" if "1 \<le> m" for m
    using that by (simp add: cut_lines.simps demo_reader_def)
  show "readBoundedJsonLines demo_reader MAX_PUSH_BODY_BYTES MAX_LINE_BYTES None (Whole [1, 10, 2, 10]) =
     ([demo_header, demo_object], None)"
    by (simp add: readBoundedJsonLines_def whole_lines_def MAX_PUSH_BODY_BYTES_def MAX_PUSH_WIRE_BYTES_def
      MAX_LINE_BYTES_def c finish_line_def) (simp add: demo_reader_def)
  have f: "fromBase64 [] = []" by (simp add: fromBase64_def)
  show "push_lines plain_lib [demo_header, demo_object] (new_push ''g'' ''d'') = Inr demo_push"
    by (simp add: push_line_def new_push_def demo_push_def demo_header_def demo_object_def parse_header_def
      parse_object_def f empty_blob_def Let_def MAX_OBJECTS_PER_SYNC_def as_string_def jget_def)
qed

lemma demo_push_check:
  "push_check plain_lib (\<lambda>_. False) demo_group empty_gitdir demo_push =
     Inr \<lparr>ph_ref = GROUP_REF, ph_expected = JNull, ph_target = empty_blob\<rparr>"
proof -
  let ?res = "push_resolver plain_lib empty_gitdir demo_push"
  have r: "?res empty_blob = Some (''blob'', [])"
    by (simp add: push_resolver_def staged_type_def demo_push_def readback_ok_def empty_blob_def)
  have "i = empty_blob" if "reach ?res empty_blob i" for i
    using that by induction (auto simp: r object_links_def)
  then have "reachable ?res empty_blob = {empty_blob}" by (auto simp: reachable_def intro: reach.start)
  then have "walkClosure empty_blob ?res = Some (Inr [(empty_blob, ''blob'', 0)])"
    using walkClosure_exact' [OF finite_resolver, of empty_blob plain_lib empty_gitdir demo_push] r by auto
  then show ?thesis by (simp add: push_check_def demo_push_def ref_allowed_def)
qed

theorem push_all_or_nothing_witness:
  "\<exists>resp ep'. handlePush plain_lib demo_reader demo_group ''d'' demo_push_request empty_endpoint = (resp, ep') \<and>
     r_status resp = 200 \<and> readRef (git_at ep' ''d'') GROUP_REF = Some empty_blob \<and>
     complete (git_at ep' ''d'') empty_blob"
proof -
  obtain resp ep' where p: "handlePush plain_lib demo_reader demo_group ''d'' demo_push_request empty_endpoint = (resp, ep')"
    by force
  have g: "git_at empty_endpoint ''d'' = empty_gitdir" "group_id demo_group = ''g''"
    by (simp_all add: empty_endpoint_def git_at_def demo_group_def)
  have e: "git_at (set_inflight a n empty_endpoint) ''d'' = empty_gitdir" for a n
    by (simp add: empty_endpoint_def git_at_def set_inflight_def)
  have c: "push_commit plain_lib (\<lambda>_. False) \<lparr>ph_ref = GROUP_REF, ph_expected = JNull, ph_target = empty_blob\<rparr> demo_push empty_gitdir =
      (resp', gd) \<Longrightarrow> r_status resp' = 200 \<and> readRef gd GROUP_REF = Some empty_blob" for resp' gd
    by (auto simp: push_commit_def empty_gitdir_def readRef_def ref_json_def demo_push_def empty_blob_def
      writeRef_def isAllowedRef_def ok_response_def refs_import split: if_splits)
  have i: "inflight empty_endpoint a = 0" for a by (simp add: empty_endpoint_def inflight_def)
  have q: "rq_stream_abort demo_push_request = None" "rq_body demo_push_request = Whole [1, 10, 2, 10]"
      "rq_aborted demo_push_request = (\<lambda>_. False)"
    by (simp_all add: demo_push_request_def)
  have at: "git_at (set_inflight k n (set_git d gd x)) d = gd" for k n d gd x
    by (simp add: git_at_def set_inflight_def set_git_def)
  obtain resp' gd where k: "push_commit plain_lib (\<lambda>_. False)
      \<lparr>ph_ref = GROUP_REF, ph_expected = JNull, ph_target = empty_blob\<rparr> demo_push empty_gitdir = (resp', gd)"
    by force
  have "resp = resp' \<and> git_at ep' ''d'' = gd"
    using p by (auto simp: handlePush_def Let_def g e i q demo_push_lines demo_push_check at k
      MAX_STREAMS_PER_GROUP_def simp del: push_lines.simps)
  with c [OF k] have r: "r_status resp = 200 \<and> readRef (git_at ep' ''d'') GROUP_REF = Some empty_blob" by simp
  have "typed plain_lib (git_at empty_endpoint ''d'')"
    by (simp add: g typed_def self_named_def readObject_def empty_gitdir_def)
  from push_all_or_nothing [OF plain_collision_free this p] r obtain h :: push_header where
    "readRef (git_at ep' ''d'') = (readRef (git_at empty_endpoint ''d''))(ph_ref h \<mapsto> ph_target h)"
    "complete (git_at ep' ''d'') (ph_target h)" by auto
  moreover from this r have "ph_target h = empty_blob"
    by (auto simp: g readRef_def empty_gitdir_def split: if_splits)
  ultimately show ?thesis using p r by auto
qed

subsection \<open>Who may ask\<close>

lemma error_not_ok: "r_status (fail c x) \<noteq> 200"
  by (auto simp: fail_def ERROR_STATUS_def)

text \<open>
  Authorisation: a request is answered with success, or changes anything, only when its path
  names a group of the ledger and a root of that group and the peer's key, in either spelling, is the
  key of a member of that group.
\<close>

theorem outsiders_change_nothing:
  assumes h: "handle L R parse home rq ep = (resp, ep')" and "r_status resp = 200 \<or> ep' \<noteq> ep"
  shows "\<exists>gid rid q rest gs g p. parse_path (rq_path rq) = Some (gid, rid, q, rest) \<and>
    loadLedger (ep_ledger ep) = Inr gs \<and> findGroup gs gid = Some g \<and> rid \<in> root_id ` set (roots g) \<and>
    rq_peer rq = Some p \<and> normalizePeerId p \<in> endpointId ` set (members g)"
proof -
  from assms obtain gid rid q rest where p: "parse_path (rq_path rq) = Some (gid, rid, q, rest)"
    by (auto simp: handle_def error_not_ok split: option.splits)
  with assms obtain gs where l: "loadLedger (ep_ledger ep) = Inr gs"
    by (auto simp: handle_def error_not_ok split: sum.splits)
  with p assms obtain g where g: "findGroup gs gid = Some g"
    by (auto simp: handle_def error_not_ok split: option.splits)
  with p l assms have "\<not> list_all (\<lambda>r. root_id r \<noteq> rid) (roots g)" "is_member g (rq_peer rq)"
    by (auto simp: handle_def error_not_ok split: if_splits)
  with p l g show ?thesis by (force simp: list_all_iff is_member_def list_ex_iff split: option.splits)
qed

definition demo_endpoint :: endpoint where
  "demo_endpoint = empty_endpoint\<lparr>ep_ledger := \<lparr>groups_file = Some (Parses (ledger_json [demo_group])), repo_dirs = []\<rparr>\<rparr>"

definition demo_refs_request :: request where
  "demo_refs_request = demo_push_request\<lparr>rq_method := ''GET'', rq_path := ''/wpk1/sync/g/r1/refs'', rq_peer := Some ''0123abcd''\<rparr>"

theorem outsiders_change_nothing_witness:
  "\<exists>resp gid rid q rest gs g p. handle plain_lib demo_reader (\<lambda>_. None) ''/h'' demo_refs_request demo_endpoint = (resp, demo_endpoint) \<and>
    r_status resp = 200 \<and>
    parse_path (rq_path demo_refs_request) = Some (gid, rid, q, rest) \<and>
    loadLedger (ep_ledger demo_endpoint) = Inr gs \<and> findGroup gs gid = Some g \<and> rid \<in> root_id ` set (roots g) \<and>
    rq_peer demo_refs_request = Some p \<and> normalizePeerId p \<in> endpointId ` set (members g)"
proof -
  have p: "parse_path (rq_path demo_refs_request) = Some (''g'', ''r1'', ''refs'', [])"
    by (simp add: parse_path_def demo_refs_request_def slug_def is_lower_def is_digit_def)
  have l: "loadLedger (ep_ledger demo_endpoint) = Inr [demo_group]"
    using loadLedger_written [of "[demo_group]" "\<lparr>groups_file = None, repo_dirs = []\<rparr>"] demo_group_valid
    by (simp add: demo_endpoint_def)
  have g: "findGroup [demo_group] ''g'' = Some demo_group" by (simp add: findGroup_def demo_group_def)
  have r: "\<not> list_all (\<lambda>r. root_id r \<noteq> ''r1'') (roots demo_group)" by (simp add: demo_group_def)
  have m: "is_member demo_group (rq_peer demo_refs_request)"
    by (simp add: is_member_def demo_refs_request_def demo_group_def normalizePeerId_def)
  have d: "gitdirFor ''/h'' ''g'' ''r1'' = Inr ''/h/plugins/sync/g/r1/git''"
    by (simp add: gitdirFor_def repoDir_def slug_def is_lower_def is_digit_def syncDataDir_def)
  obtain resp where h: "handle plain_lib demo_reader (\<lambda>_. None) ''/h'' demo_refs_request demo_endpoint = (resp, demo_endpoint)"
      "r_status resp = 200"
    using p l g r m d by (simp add: handle_def) (simp add: demo_refs_request_def handleRefs_def ok_response_def)
  then show ?thesis using outsiders_change_nothing [OF h(1)] by blast
qed

subsection \<open>Pushes that overlap\<close>

text \<open>
  A push waits at every await, so the model has a step for each stretch of code between two of them: a
  frame, the closure check, the comparison with the reference, the import of one object, the write of
  the reference.  \<open>Importing\<close> is a push inside \<^verbatim>\<open>work\<close>, after its comparison, with the objects still
  to import.
\<close>

datatype push_phase = Receiving | Accepted push_header | Importing push_header "(oid \<times> string) list"

record push_run =
  pr_group :: sync_group
  pr_push :: push
  pr_phase :: push_phase

record push_world =
  pw_ep :: endpoint
  pw_runs :: "(nat \<times> push_run) list"

definition pw_git :: "push_world \<Rightarrow> string \<Rightarrow> gitdir" where
  "pw_git w = git_at (pw_ep w)"

definition run_dir :: "push_run \<Rightarrow> string" where
  "run_dir p = pu_dir (pr_push p)"

definition begin_push :: "nat \<Rightarrow> sync_group \<Rightarrow> string \<Rightarrow> push_world \<Rightarrow> push_world" where
  "begin_push k g d w =
     \<lparr>pw_ep = set_inflight (group_id g) (inflight (pw_ep w) (group_id g) + 1) (pw_ep w),
      pw_runs = aput k (\<lparr>pr_group = g, pr_push = new_push (group_id g) d, pr_phase = Receiving\<rparr>) (pw_runs w)\<rparr>"

definition set_run :: "nat \<Rightarrow> push_run \<Rightarrow> push_world \<Rightarrow> push_world" where
  "set_run k p w = w\<lparr>pw_runs := aput k p (pw_runs w)\<rparr>"

text \<open>\<^verbatim>\<open>releaseBudget\<close> in the finally block.\<close>

definition end_push :: "nat \<Rightarrow> push_run \<Rightarrow> push_world \<Rightarrow> push_world" where
  "end_push k p w =
     \<lparr>pw_ep = set_inflight (group_id (pr_group p)) (inflight (pw_ep w) (group_id (pr_group p)) - 1) (pw_ep w),
      pw_runs = adel k (pw_runs w)\<rparr>"

definition put_git :: "string \<Rightarrow> gitdir \<Rightarrow> push_world \<Rightarrow> push_world" where
  "put_git d gd w = w\<lparr>pw_ep := set_git d gd (pw_ep w)\<rparr>"

text \<open>A push of the repository is inside \<^verbatim>\<open>work\<close>; with a \<^verbatim>\<open>repoMutex\<close> no second one enters.\<close>

definition in_work :: "push_run \<Rightarrow> bool" where
  "in_work p \<longleftrightarrow> (case pr_phase p of Importing h ms \<Rightarrow> True | _ \<Rightarrow> False)"

definition repo_busy :: "push_world \<Rightarrow> string \<Rightarrow> bool" where
  "repo_busy w d \<longleftrightarrow>
     list_ex (\<lambda>k. case map_of (pw_runs w) k of Some p \<Rightarrow> in_work p \<and> run_dir p = d | None \<Rightarrow> False) (akeys (pw_runs w))"

text \<open>
  What a step is called when it matters for the references.  Between two awaits of a push any other push
  takes steps, and the engine of the same process stores objects and writes references of the same
  repositories: its writes of the group reference and of the mirrors take no mutex, so they fall
  anywhere, and a mirror is written before its objects are fetched, so any value is possible.
  \<open>mutex\<close> says whether the handler was given a \<^verbatim>\<open>repoMutexFor\<close>.
\<close>

datatype push_event = Quiet | Compared nat | Wrote nat | EngineRef string string oid

inductive push_step :: "git_lib \<Rightarrow> bool \<Rightarrow> push_world \<Rightarrow> push_event \<Rightarrow> push_world \<Rightarrow> bool" for L mutex where
  start: "inflight (pw_ep w) (group_id g) < MAX_STREAMS_PER_GROUP \<Longrightarrow> map_of (pw_runs w) k = None \<Longrightarrow>
    push_step L mutex w Quiet (begin_push k g d w)"
| frame: "map_of (pw_runs w) k = Some p \<Longrightarrow> pr_phase p = Receiving \<Longrightarrow> push_line L l (pr_push p) = Inr pu \<Longrightarrow>
    push_step L mutex w Quiet (set_run k (p\<lparr>pr_push := pu\<rparr>) w)"
| accept: "map_of (pw_runs w) k = Some p \<Longrightarrow> pr_phase p = Receiving \<Longrightarrow>
    push_check L ab (pr_group p) (pw_git w (run_dir p)) (pr_push p) = Inr h \<Longrightarrow>
    push_step L mutex w Quiet (set_run k (p\<lparr>pr_phase := Accepted h\<rparr>) w)"
| compare: "map_of (pw_runs w) k = Some p \<Longrightarrow> pr_phase p = Accepted h \<Longrightarrow>
    (mutex \<longrightarrow> \<not> repo_busy w (run_dir p)) \<Longrightarrow>
    ref_json (readRef (pw_git w (run_dir p)) (ph_ref h)) = ph_expected h \<Longrightarrow>
    push_step L mutex w (Compared k) (set_run k (p\<lparr>pr_phase := Importing h (pu_objects (pr_push p))\<rparr>) w)"
| import: "map_of (pw_runs w) k = Some p \<Longrightarrow> pr_phase p = Importing h ((i, ty) # ms) \<Longrightarrow>
    map_of (pu_staged (pr_push p)) i = Some bs \<Longrightarrow> objectOid L ty bs = i \<Longrightarrow>
    push_step L mutex w Quiet (set_run k (p\<lparr>pr_phase := Importing h ms\<rparr>)
      (put_git (run_dir p) (importLooseObjectAtomic (pw_git w (run_dir p)) ty bs i) w))"
| commit: "map_of (pw_runs w) k = Some p \<Longrightarrow> pr_phase p = Importing h [] \<Longrightarrow>
    writeRef (pw_git w (run_dir p)) (ph_ref h) (ph_target h) = Inr gd \<Longrightarrow>
    push_step L mutex w (Wrote k) (end_push k p (put_git (run_dir p) gd w))"
| reject: "map_of (pw_runs w) k = Some p \<Longrightarrow> push_step L mutex w Quiet (end_push k p w)"
| engine_object: "ty \<in> object_types \<Longrightarrow> objectOid L ty bs = i \<Longrightarrow>
    push_step L mutex w Quiet (put_git d (importLooseObjectAtomic (pw_git w d) ty bs i) w)"
| engine_ref: "writeRef (pw_git w d) r c = Inr gd \<Longrightarrow>
    push_step L mutex w (EngineRef d r c) (put_git d gd w)"

inductive_cases push_stepE: "push_step L mutex w e w'"

text \<open>
  A history, with what its reader remembers of the engine: the pushes whose reference the engine wrote
  since they compared it, and every value it wrote.
\<close>

definition waits_on :: "push_run \<Rightarrow> string \<times> string \<Rightarrow> bool" where
  "waits_on p dr \<longleftrightarrow> (case pr_phase p of Importing h ms \<Rightarrow> dr = (run_dir p, ph_ref h) | _ \<Rightarrow> False)"

definition overtaken :: "push_event \<Rightarrow> push_world \<Rightarrow> nat set \<Rightarrow> nat set" where
  "overtaken ev w D =
     (case ev of
        Compared k \<Rightarrow> D - {k}
      | EngineRef d r c \<Rightarrow> D \<union> {k. \<exists>p. map_of (pw_runs w) k = Some p \<and> waits_on p (d, r)}
      | _ \<Rightarrow> D)"

definition engine_wrote :: "push_event \<Rightarrow> (string \<times> string \<times> oid) set \<Rightarrow> (string \<times> string \<times> oid) set" where
  "engine_wrote ev V = (case ev of EngineRef d r c \<Rightarrow> insert (d, r, c) V | _ \<Rightarrow> V)"

inductive push_trace ::
  "git_lib \<Rightarrow> bool \<Rightarrow> push_world \<Rightarrow> push_world \<Rightarrow> nat set \<Rightarrow> (string \<times> string \<times> oid) set \<Rightarrow> bool" for L mutex w0 where
  here: "push_trace L mutex w0 w0 {} {}"
| more: "push_trace L mutex w0 w D V \<Longrightarrow> push_step L mutex w ev w' \<Longrightarrow>
    push_trace L mutex w0 w' (overtaken ev w D) (engine_wrote ev V)"

definition runs_of :: "string \<Rightarrow> push_world \<Rightarrow> nat set" where
  "runs_of gid w = {k. \<exists>p. map_of (pw_runs w) k = Some p \<and> group_id (pr_group p) = gid}"

text \<open>The objects of a push that are stored already, when the ones in a list are still to import.\<close>

definition imported :: "gitdir \<Rightarrow> push \<Rightarrow> (oid \<times> string) list \<Rightarrow> bool" where
  "imported gd pu ms \<longleftrightarrow> set ms \<subseteq> set (pu_objects pu) \<and>
     (\<forall>(i, ty) \<in> set (pu_objects pu) - set ms. \<exists>bs. map_of (pu_staged pu) i = Some bs \<and> readObject gd i = Some (ty, bs))"

definition run_ok :: "git_lib \<Rightarrow> push_world \<Rightarrow> push_run \<Rightarrow> bool" where
  "run_ok L w p \<longleftrightarrow> staged_ok L (pr_push p) \<and>
     (case pr_phase p of
        Receiving \<Rightarrow> True
      | Accepted h \<Rightarrow> ref_allowed (pr_group p) (ph_ref h) \<and> covered L (pw_git w (run_dir p)) (pr_push p) (ph_target h)
      | Importing h ms \<Rightarrow> ref_allowed (pr_group p) (ph_ref h) \<and>
          covered L (pw_git w (run_dir p)) (pr_push p) (ph_target h) \<and> imported (pw_git w (run_dir p)) (pr_push p) ms)"

definition gits_typed :: "git_lib \<Rightarrow> push_world \<Rightarrow> bool" where
  "gits_typed L w \<longleftrightarrow> (\<forall>d. typed L (pw_git w d))"

definition streams_ok :: "push_world \<Rightarrow> bool" where
  "streams_ok w \<longleftrightarrow> (\<forall>gid. inflight (pw_ep w) gid = card (runs_of gid w) \<and> card (runs_of gid w) \<le> MAX_STREAMS_PER_GROUP)"

definition runs_ok :: "git_lib \<Rightarrow> push_world \<Rightarrow> bool" where
  "runs_ok L w \<longleftrightarrow> (\<forall>k p. map_of (pw_runs w) k = Some p \<longrightarrow> run_ok L w p)"

definition push_inv :: "git_lib \<Rightarrow> push_world \<Rightarrow> bool" where
  "push_inv L w \<longleftrightarrow> gits_typed L w \<and> streams_ok w \<and> runs_ok L w"

text \<open>A reference is whole, or it has a value it had at the start or that the engine gave it.\<close>

definition refs_whole :: "push_world \<Rightarrow> (string \<times> string \<times> oid) set \<Rightarrow> push_world \<Rightarrow> bool" where
  "refs_whole w0 V w \<longleftrightarrow>
     (\<forall>d r c. readRef (pw_git w d) r = Some c \<longrightarrow>
        complete (pw_git w d) c \<or> (d, r, c) \<in> V \<or> readRef (pw_git w0 d) r = Some c)"

text \<open>One push per repository is inside \<^verbatim>\<open>work\<close>, and its reference stands where it compared it.\<close>

definition one_inside :: "push_world \<Rightarrow> bool" where
  "one_inside w \<longleftrightarrow>
     (\<forall>k p k' p'. map_of (pw_runs w) k = Some p \<and> map_of (pw_runs w) k' = Some p' \<and> in_work p \<and> in_work p' \<and>
        run_dir p = run_dir p' \<longrightarrow> k = k')"

definition stands :: "push_world \<Rightarrow> nat set \<Rightarrow> bool" where
  "stands w D \<longleftrightarrow>
     (\<forall>k p h ms. map_of (pw_runs w) k = Some p \<and> pr_phase p = Importing h ms \<and> k \<notin> D \<longrightarrow>
        ref_json (readRef (pw_git w (run_dir p)) (ph_ref h)) = ph_expected h)"

lemma git_at_set [simp]:
  "git_at (set_inflight k n ep) = git_at ep"
  "git_at (set_git d gd ep) = (git_at ep)(d := gd)"
  "inflight (set_git d gd ep) = inflight ep"
  "inflight (set_inflight k n ep) = (inflight ep)(k := n)"
  by (auto simp: git_at_def [abs_def] inflight_def [abs_def] set_inflight_def set_git_def fun_eq_iff)

lemma pw_git_simps [simp]:
  "pw_git (begin_push k g d w) = pw_git w"
  "pw_git (set_run k p w) = pw_git w"
  "pw_git (end_push k p w) = pw_git w"
  "pw_git (put_git d gd w) = (pw_git w)(d := gd)"
  by (simp_all add: pw_git_def begin_push_def set_run_def end_push_def put_git_def)

lemma pw_runs_simps [simp]:
  "map_of (pw_runs (begin_push k g d w)) = (map_of (pw_runs w))
     (k \<mapsto> \<lparr>pr_group = g, pr_push = new_push (group_id g) d, pr_phase = Receiving\<rparr>)"
  "map_of (pw_runs (set_run k p w)) = (map_of (pw_runs w))(k \<mapsto> p)"
  "map_of (pw_runs (end_push k p w)) = (map_of (pw_runs w))(k := None)"
  "pw_runs (put_git d gd w) = pw_runs w"
  by (simp_all add: begin_push_def set_run_def end_push_def put_git_def)

lemma repo_busy_iff: "repo_busy w d \<longleftrightarrow> (\<exists>k p. map_of (pw_runs w) k = Some p \<and> in_work p \<and> run_dir p = d)"
proof -
  have "k \<in> set (akeys (pw_runs w))" if "map_of (pw_runs w) k = Some p" for k p
    using map_of_SomeD [OF that] by (force simp: akeys_def)
  then show ?thesis unfolding repo_busy_def list_ex_iff by (fastforce split: option.splits)
qed

lemma finite_runs_of: "finite (runs_of gid w)"
  by (rule finite_subset [of _ "dom (map_of (pw_runs w))"]) (auto simp: runs_of_def finite_dom_map_of)

lemma streams_ok_begin:
  assumes "streams_ok w" and "inflight (pw_ep w) (group_id g) < MAX_STREAMS_PER_GROUP" and "map_of (pw_runs w) k = None"
  shows "streams_ok (begin_push k g d w)"
proof -
  have "runs_of gid (begin_push k g d w) = (if gid = group_id g then insert k (runs_of gid w) else runs_of gid w)" for gid
    using assms(3) by (auto simp: runs_of_def)
  moreover have "k \<notin> runs_of gid w" for gid using assms(3) by (simp add: runs_of_def)
  ultimately show ?thesis using assms(1,2) finite_runs_of
    by (auto simp: streams_ok_def) (simp_all add: begin_push_def)
qed

lemma streams_ok_end:
  assumes "streams_ok w" and "map_of (pw_runs w) k = Some p"
  shows "streams_ok (end_push k p w)"
proof -
  have "runs_of gid (end_push k p w) = (if gid = group_id (pr_group p) then runs_of gid w - {k} else runs_of gid w)" for gid
    using assms(2) by (auto simp: runs_of_def)
  moreover have "k \<in> runs_of (group_id (pr_group p)) w" using assms(2) by (simp add: runs_of_def)
  then have "card (runs_of (group_id (pr_group p)) w - {k}) = card (runs_of (group_id (pr_group p)) w) - 1"
    by simp
  ultimately show ?thesis using assms(1)
    by (auto simp: streams_ok_def) (simp_all add: end_push_def le_diff_conv le_SucI)
qed

lemma streams_ok_same:
  assumes "streams_ok w" and "inflight (pw_ep w') = inflight (pw_ep w)"
    and "\<And>gid. runs_of gid w' = runs_of gid w"
  shows "streams_ok w'"
  using assms by (simp add: streams_ok_def)

lemma run_ok_same [simp]:
  "run_ok L (begin_push k g d w) = run_ok L w"
  "run_ok L (set_run k p w) = run_ok L w"
  "run_ok L (end_push k p w) = run_ok L w"
  by (auto simp: run_ok_def fun_eq_iff split: push_phase.splits)

lemma push_inv_begin:
  assumes "push_inv L w" and "inflight (pw_ep w) (group_id g) < MAX_STREAMS_PER_GROUP" and "map_of (pw_runs w) k = None"
  shows "push_inv L (begin_push k g d w)"
proof -
  have "run_ok L w \<lparr>pr_group = g, pr_push = new_push (group_id g) d, pr_phase = Receiving\<rparr>"
    by (simp add: run_ok_def staged_ok_new)
  with assms streams_ok_begin [of w g k d] show ?thesis
    by (simp add: push_inv_def gits_typed_def runs_ok_def)
qed

lemma push_inv_end:
  assumes "push_inv L w" and "map_of (pw_runs w) k = Some p"
  shows "push_inv L (end_push k p w)"
  using assms streams_ok_end [of w k p] by (simp add: push_inv_def gits_typed_def runs_ok_def)

lemma push_inv_set:
  assumes "push_inv L w" and "map_of (pw_runs w) k = Some p" and "pr_group p' = pr_group p" and "run_ok L w p'"
  shows "push_inv L (set_run k p' w)"
proof -
  have "runs_of gid (set_run k p' w) = runs_of gid w" for gid using assms(2,3) by (auto simp: runs_of_def)
  then have "streams_ok (set_run k p' w)"
    using assms(1) by - (rule streams_ok_same [of w], simp_all add: push_inv_def set_run_def)
  with assms show ?thesis by (simp add: push_inv_def gits_typed_def runs_ok_def)
qed

lemma imported_grows: "imported gd pu ms \<Longrightarrow> grows gd gd' \<Longrightarrow> imported gd' pu ms"
  by (fastforce simp: imported_def grows_def)

lemma run_ok_grows:
  assumes "run_ok L w p" and "grows (pw_git w d) gd"
  shows "run_ok L (put_git d gd w) p"
  using assms(1) covered_grows [OF _ assms(2)] imported_grows [OF _ assms(2)]
  by (auto simp: run_ok_def split: push_phase.splits)

lemma push_inv_put:
  assumes "push_inv L w" and "typed L gd" and "grows (pw_git w d) gd"
  shows "push_inv L (put_git d gd w)"
proof -
  have "streams_ok (put_git d gd w)"
    using assms(1) by - (rule streams_ok_same [of w], simp_all add: push_inv_def put_git_def runs_of_def)
  then show ?thesis using assms run_ok_grows [OF _ assms(3)] by (auto simp: push_inv_def gits_typed_def runs_ok_def)
qed

lemma writeRef_ok:
  assumes "writeRef gd r c = Inr gd'"
  shows "readRef gd' = (readRef gd)(r \<mapsto> c)" and "readObject gd' = readObject gd"
  using assms by (auto simp: writeRef_def readRef_def readObject_def fun_eq_iff split: if_splits)

lemma writeRef_keeps:
  assumes "writeRef gd r c = Inr gd'"
  shows "grows gd gd'" "typed L gd \<Longrightarrow> typed L gd'" "complete gd x \<Longrightarrow> complete gd' x"
  using writeRef_ok [OF assms] by (auto simp: grows_def typed_def self_named_def complete_def)

lemma push_stepD:
  assumes "push_inv L w" and "map_of (pw_runs w) k = Some p"
  shows "run_ok L w p" "typed L (pw_git w d)"
  using assms by (auto simp: push_inv_def runs_ok_def gits_typed_def)

text \<open>A push whose objects are all imported has its target's closure in the repository.\<close>

lemma imported_complete:
  assumes "staged_ok L pu" and "covered L gd pu t" and "imported gd pu []"
  shows "complete gd t"
proof -
  have "push_resolver L gd pu \<subseteq>\<^sub>m readObject gd"
    unfolding map_le_def
  proof
    fix i assume d: "i \<in> dom (push_resolver L gd pu)"
    show "push_resolver L gd pu i = readObject gd i"
    proof (cases "staged_type pu i")
      case None
      then show ?thesis by (simp add: push_resolver_def)
    next
      case (Some ty)
      with resolver_staged [OF assms(1) Some, of gd] assms(3) staged_type_Some [OF Some] show ?thesis
        by (fastforce simp: imported_def)
    qed
  qed
  then show ?thesis using assms(2) by (intro complete_mono) (auto simp: covered_def)
qed

lemma imported_next:
  assumes "imported gd pu ((i, ty) # ms)" and "grows gd gd'" and "map_of (pu_staged pu) i = Some bs"
    and "readObject gd' i = Some (ty, bs)"
  shows "imported gd' pu ms"
  using imported_grows [OF assms(1,2)] assms(3,4) by (fastforce simp: imported_def)

lemma push_step_inv:
  assumes cf: "collision_free L"
  shows "push_step L mutex w ev w' \<Longrightarrow> push_inv L w \<Longrightarrow> push_inv L w'"
proof (induction rule: push_step.induct)
  case (start w g k d)
  then show ?case by (intro push_inv_begin)
next
  case (frame w k p l pu)
  note p = push_stepD(1) [OF frame.prems frame.hyps(1)]
  with frame push_line_ok [OF cf _ frame.hyps(3)] show ?case
    by (intro push_inv_set) (auto simp: run_ok_def)
next
  case (accept w k p ab h)
  note p = push_stepD(1) [OF accept.prems accept.hyps(1)]
  with accept push_check_covered [OF accept.hyps(3)] show ?case
    by (intro push_inv_set) (auto simp: run_ok_def run_dir_def)
next
  case (compare w k p h)
  note p = push_stepD(1) [OF compare.prems compare.hyps(1)]
  with compare show ?case by (intro push_inv_set) (auto simp: run_ok_def run_dir_def imported_def)
next
  case (import w k p h i ty ms bs)
  note p = push_stepD [OF import.prems import.hyps(1)]
  let ?g = "importLooseObjectAtomic (pw_git w (run_dir p)) ty bs i"
  from p(1) import.hyps(2) have imp: "imported (pw_git w (run_dir p)) (pr_push p) ((i, ty) # ms)"
    and st: "staged_ok L (pr_push p)" by (auto simp: run_ok_def)
  then have ty: "ty \<in> object_types" by (auto simp: imported_def staged_ok_def)
  note t = import_typed [OF p(2) ty import.hyps(4), of "run_dir p"]
  let ?w = "put_git (run_dir p) ?g w"
  have inv: "push_inv L ?w" using import.prems t by (intro push_inv_put) auto
  have "imported ?g (pr_push p) ms"
    using imported_next [OF imp conjunct2 [OF t] import.hyps(3) import_present [OF p(2) cf ty import.hyps(4)]] .
  moreover have "run_ok L ?w p" using run_ok_grows [OF p(1)] t by blast
  ultimately have "run_ok L ?w (p\<lparr>pr_phase := Importing h ms\<rparr>)"
    using import.hyps(2) by (auto simp: run_ok_def run_dir_def)
  then show ?case using inv import.hyps(1) by (intro push_inv_set [of L ?w k p]) simp_all
next
  case (commit w k p h gd)
  note p = push_stepD [OF commit.prems commit.hyps(1)]
  have "push_inv L (put_git (run_dir p) gd w)"
    using commit.prems writeRef_keeps [OF commit.hyps(3)] p(2) by (intro push_inv_put) auto
  then show ?case using commit.hyps(1) by (intro push_inv_end) simp_all
next
  case (reject w k p)
  then show ?case by (intro push_inv_end)
next
  case (engine_object ty bs i w d)
  then have "typed L (pw_git w d)" by (auto simp: push_inv_def gits_typed_def)
  from import_typed [OF this engine_object.hyps] engine_object.prems show ?case by (intro push_inv_put) auto
next
  case (engine_ref w d r c gd)
  then have "typed L (pw_git w d)" by (auto simp: push_inv_def gits_typed_def)
  with writeRef_keeps [OF engine_ref.hyps] engine_ref.prems show ?case by (intro push_inv_put) auto
qed

lemma refs_whole_keep:
  assumes "refs_whole w0 V w" and "\<And>d. readRef (pw_git w' d) = readRef (pw_git w d)" and "\<And>d. grows (pw_git w d) (pw_git w' d)"
  shows "refs_whole w0 V w'"
  using assms complete_grows [OF _ assms(3)] by (fastforce simp: refs_whole_def)

lemma refs_whole_step:
  assumes cf: "collision_free L" and inv: "push_inv L w" and step: "push_step L mutex w ev w'" and ok: "refs_whole w0 V w"
  shows "refs_whole w0 (engine_wrote ev V) w'"
  using step
proof cases
  case (import k p h i ty ms bs)
  have "grows (pw_git w d) (importLooseObjectAtomic (pw_git w d) ty bs i)" for d
    unfolding grows_def using import_keeps by blast
  with ok import show ?thesis
    by (auto simp: engine_wrote_def readRef_def refs_import intro!: refs_whole_keep [OF ok])
next
  case (commit k p h gd)
  note p = push_stepD [OF inv commit(3)]
  let ?d = "run_dir p"
  from p(1) commit(4) have "complete (pw_git w ?d) (ph_target h)"
    by (auto simp: run_ok_def run_dir_def intro: imported_complete)
  with ok writeRef_ok(1) [OF commit(5)] writeRef_keeps(3) [OF commit(5)] commit(1,2) show ?thesis
    by (auto simp: refs_whole_def engine_wrote_def)
next
  case (engine_object ty bs i d)
  have "grows (pw_git w d) (importLooseObjectAtomic (pw_git w d) ty bs i)" for d
    unfolding grows_def using import_keeps by blast
  with ok engine_object show ?thesis
    by (auto simp: engine_wrote_def readRef_def refs_import intro!: refs_whole_keep [OF ok])
next
  case (engine_ref d r c gd)
  with ok writeRef_ok(1) [OF engine_ref(3)] writeRef_keeps(3) [OF engine_ref(3)] show ?thesis
    by (auto simp: refs_whole_def engine_wrote_def)
qed (use ok in \<open>auto simp: engine_wrote_def refs_whole_def\<close>)

text \<open>With the mutex, the comparison of a push still holds when it writes, unless the engine wrote.\<close>

lemma inside_step:
  assumes step: "push_step L True w ev w'" and ok: "one_inside w"
  shows "one_inside w'"
  using step
proof cases
  case (compare k p h)
  then have free: "run_dir p' \<noteq> run_dir p" if "map_of (pw_runs w) k' = Some p'" "in_work p'" for k' p'
    using that by (auto simp: repo_busy_iff)
  show ?thesis unfolding one_inside_def
  proof (intro allI impI, elim conjE)
    fix k1 p1 k2 p2
    assume a: "map_of (pw_runs w') k1 = Some p1" "map_of (pw_runs w') k2 = Some p2" "in_work p1" "in_work p2"
      "run_dir p1 = run_dir p2"
    have "map_of (pw_runs w) k1 = Some p1" if "k1 \<noteq> k" using a(1) compare(2) that by simp
    moreover have "map_of (pw_runs w) k2 = Some p2" if "k2 \<noteq> k" using a(2) compare(2) that by simp
    moreover have "run_dir p1 = run_dir p" if "k1 = k" using a(1) compare(2) that by (auto simp: run_dir_def)
    moreover have "run_dir p2 = run_dir p" if "k2 = k" using a(2) compare(2) that by (auto simp: run_dir_def)
    ultimately show "k1 = k2" using ok free a(3-5) unfolding one_inside_def by metis
  qed
next
  case (import k p h i ty ms bs)
  have "in_work p" using import by (simp add: in_work_def)
  with ok import show ?thesis
    by (auto simp: one_inside_def run_dir_def split: if_splits)
qed (use ok in \<open>auto simp: one_inside_def in_work_def run_dir_def split: if_splits\<close>)

lemma stands_step:
  assumes step: "push_step L True w ev w'" and one: "one_inside w" and ok: "stands w D"
  shows "stands w' (overtaken ev w D)"
  using step
proof cases
  case (compare k p h)
  with ok show ?thesis by (auto simp: stands_def overtaken_def run_dir_def split: if_splits)
next
  case (import k p h i ty ms bs)
  have "readRef (importLooseObjectAtomic g ty bs i) = readRef g" for g by (simp add: readRef_def refs_import fun_eq_iff)
  moreover have "ref_json (readRef (pw_git w (run_dir p)) (ph_ref h)) = ph_expected h" if "k \<notin> D"
    using ok import(3,4) that unfolding stands_def by blast
  ultimately show ?thesis using ok unfolding import(1,2)
    by (fastforce simp: stands_def overtaken_def run_dir_def split: if_splits)
next
  case (commit k p h gd)
  have "in_work p" using commit by (simp add: in_work_def)
  have "run_dir p' \<noteq> run_dir p" if "map_of (pw_runs w) k' = Some p'" "in_work p'" "k' \<noteq> k" for k' p'
    using one that commit(3) \<open>in_work p\<close> unfolding one_inside_def by blast
  with ok commit show ?thesis by (fastforce simp: stands_def overtaken_def in_work_def split: if_splits)
next
  case (engine_object ty bs i d)
  have "readRef (importLooseObjectAtomic g ty bs i) = readRef g" for g by (simp add: readRef_def refs_import fun_eq_iff)
  with ok engine_object show ?thesis by (auto simp: stands_def overtaken_def split: if_splits)
next
  case (engine_ref d r c gd)
  with ok writeRef_ok(1) [OF engine_ref(3)] show ?thesis
    by (auto simp: stands_def overtaken_def waits_on_def split: if_splits)
qed (use ok in \<open>auto simp: stands_def overtaken_def run_dir_def split: if_splits\<close>)

definition push_start :: "push_world \<Rightarrow> bool" where
  "push_start w \<longleftrightarrow> pw_runs w = [] \<and> (\<forall>gid. inflight (pw_ep w) gid = 0)"

lemma push_trace_inv:
  assumes "collision_free L" and "gits_typed L w0" and "push_start w0"
  shows "push_trace L mutex w0 w D V \<Longrightarrow>
    push_inv L w \<and> refs_whole w0 V w \<and> (mutex \<longrightarrow> one_inside w \<and> stands w D)"
proof (induction rule: push_trace.induct)
  case here
  from assms(2,3) show ?case
    by (simp add: push_inv_def push_start_def streams_ok_def runs_ok_def runs_of_def refs_whole_def one_inside_def stands_def)
next
  case (more w D V ev w')
  then show ?case
    using push_step_inv [OF assms(1)] refs_whole_step [OF assms(1)] inside_step stands_step by (cases mutex) auto
qed

text \<open>
  C17. Whatever the interleaving of the frames, checks, failures, comparisons, imports and writes of any
  number of pushes with each other and with the engine's own writes, with the repository mutex or
  without it: no group has more than two pushes in flight, and the counter is exactly the number in
  flight, so a budget is never leaked; every object of every repository is stored under its own name;
  and a push never makes a reference name a commit with holes: every value of a reference has its whole
  closure in the repository, unless the reference had it from the start or the engine wrote it.  (The
  engine does write such values: the mirror of a peer is written before its objects are fetched.)
\<close>

theorem overlapping_pushes_safe:
  assumes "collision_free L" and "gits_typed L w0" and "push_start w0" and "push_trace L mutex w0 w D V"
  shows "gits_typed L w \<and>
    (\<forall>gid. inflight (pw_ep w) gid = card (runs_of gid w) \<and> inflight (pw_ep w) gid \<le> 2) \<and>
    (\<forall>d r c. readRef (pw_git w d) r = Some c \<longrightarrow>
       complete (pw_git w d) c \<or> (d, r, c) \<in> V \<or> readRef (pw_git w0 d) r = Some c)"
  using push_trace_inv [OF assms]
  by (auto simp: push_inv_def streams_ok_def refs_whole_def MAX_STREAMS_PER_GROUP_def)


subsection \<open>A push of one file, step by step\<close>

definition idle_world :: push_world where
  "idle_world = \<lparr>pw_ep = empty_endpoint, pw_runs = []\<rparr>"

definition demo_target :: push_header where
  "demo_target = \<lparr>ph_ref = GROUP_REF, ph_expected = JNull, ph_target = empty_blob\<rparr>"

definition demo_run :: "push_phase \<Rightarrow> push_run" where
  "demo_run ph = \<lparr>pr_group = demo_group, pr_push = demo_push, pr_phase = ph\<rparr>"

lemma demo_run_simps [simp]:
  "pr_group (demo_run ph) = demo_group" "pr_push (demo_run ph) = demo_push" "pr_phase (demo_run ph) = ph"
  "(demo_run ph)\<lparr>pr_phase := ph'\<rparr> = demo_run ph'" "run_dir (demo_run ph) = ''d''"
  by (simp_all add: demo_run_def run_dir_def demo_push_def)

lemma idle_world_ok: "gits_typed plain_lib idle_world" "push_start idle_world"
  by (simp_all add: gits_typed_def push_start_def idle_world_def pw_git_def empty_endpoint_def git_at_def typed_def
    self_named_def readObject_def empty_gitdir_def inflight_def)

lemma trace_quiet:
  "push_trace L mutex w0 w D V \<Longrightarrow> push_step L mutex w Quiet w' \<Longrightarrow> push_trace L mutex w0 w' D V"
  using push_trace.more [of L mutex w0 w D V Quiet w'] by (simp add: overtaken_def engine_wrote_def)

lemma demo_accepted:
  "\<exists>w. push_trace plain_lib mutex idle_world w {} {} \<and>
     map_of (pw_runs w) = [0 \<mapsto> demo_run (Accepted demo_target)] \<and> pw_git w ''d'' = empty_gitdir"
proof -
  let ?w1 = "begin_push 0 demo_group ''d'' idle_world"
  have g: "group_id demo_group = ''g''" "pw_git idle_world ''d'' = empty_gitdir" "map_of (pw_runs idle_world) = Map.empty"
    by (simp_all add: demo_group_def idle_world_def pw_git_def empty_endpoint_def git_at_def)
  have "push_trace plain_lib mutex idle_world ?w1 {} {}"
    by (rule trace_quiet [OF push_trace.here push_step.start])
      (simp_all add: idle_world_def empty_endpoint_def inflight_def MAX_STREAMS_PER_GROUP_def)
  obtain pu where l: "push_line plain_lib demo_header (new_push ''g'' ''d'') = Inr pu"
      "push_line plain_lib demo_object pu = Inr demo_push"
    using demo_push_lines(2) by (auto simp: rbind_eq_Inr split: sum.splits)
  let ?p1 = "\<lparr>pr_group = demo_group, pr_push = new_push ''g'' ''d'', pr_phase = Receiving\<rparr>"
  let ?w2 = "set_run 0 (?p1\<lparr>pr_push := pu\<rparr>) ?w1"
  let ?w3 = "set_run 0 (demo_run Receiving) ?w2"
  have 2: "push_trace plain_lib mutex idle_world ?w2 {} {}"
    using l(1) by (intro trace_quiet [OF \<open>push_trace _ _ _ ?w1 _ _\<close>] push_step.frame) (simp_all add: g)
  have "push_step plain_lib mutex ?w2 Quiet (set_run 0 ((?p1\<lparr>pr_push := pu\<rparr>)\<lparr>pr_push := demo_push\<rparr>) ?w2)"
    by (rule push_step.frame) (use l(2) in simp_all)
  from trace_quiet [OF 2 this] have 3: "push_trace plain_lib mutex idle_world ?w3 {} {}" by (simp add: demo_run_def)
  have "push_step plain_lib mutex ?w3 Quiet (set_run 0 ((demo_run Receiving)\<lparr>pr_phase := Accepted demo_target\<rparr>) ?w3)"
    using demo_push_check by (intro push_step.accept [where ab = "\<lambda>_. False"]) (simp_all add: g demo_target_def)
  note t = trace_quiet [OF 3 this]
  have "map_of (pw_runs (set_run 0 ((demo_run Receiving)\<lparr>pr_phase := Accepted demo_target\<rparr>) ?w3)) =
      [0 \<mapsto> demo_run (Accepted demo_target)]" by (simp add: g)
  moreover have "pw_git (set_run 0 ((demo_run Receiving)\<lparr>pr_phase := Accepted demo_target\<rparr>) ?w3) ''d'' = empty_gitdir"
    by (simp add: g)
  ultimately show ?thesis using t by blast
qed

lemma demo_compared:
  "\<exists>w. push_trace plain_lib mutex idle_world w {} {} \<and>
     map_of (pw_runs w) = [0 \<mapsto> demo_run (Importing demo_target [])] \<and>
     readRef (pw_git w ''d'') = Map.empty"
proof -
  obtain w where w: "push_trace plain_lib mutex idle_world w {} {}"
      "map_of (pw_runs w) = [0 \<mapsto> demo_run (Accepted demo_target)]" "pw_git w ''d'' = empty_gitdir"
    using demo_accepted by blast
  let ?w1 = "set_run 0 ((demo_run (Accepted demo_target))\<lparr>pr_phase := Importing demo_target (pu_objects demo_push)\<rparr>) w"
  have "push_step plain_lib mutex w (Compared 0) ?w1"
    using push_step.compare [of w 0 "demo_run (Accepted demo_target)" demo_target mutex plain_lib] w(2,3)
    by (simp add: repo_busy_iff in_work_def demo_target_def readRef_def empty_gitdir_def ref_json_def)
  from push_trace.more [OF w(1) this] have 1: "push_trace plain_lib mutex idle_world ?w1 {} {}"
    by (simp add: overtaken_def engine_wrote_def)
  let ?g = "importLooseObjectAtomic empty_gitdir ''blob'' [] empty_blob"
  let ?w2 = "set_run 0 (demo_run (Importing demo_target [])) (put_git ''d'' ?g ?w1)"
  have "push_step plain_lib mutex ?w1 Quiet (set_run 0 ((demo_run (Importing demo_target [(empty_blob, ''blob'')]))\<lparr>pr_phase := Importing demo_target []\<rparr>)
      (put_git (run_dir (demo_run (Importing demo_target [(empty_blob, ''blob'')])))
        (importLooseObjectAtomic (pw_git ?w1 (run_dir (demo_run (Importing demo_target [(empty_blob, ''blob'')])))) ''blob'' [] empty_blob) ?w1))"
    by (rule push_step.import) (simp_all add: w(2) demo_push_def empty_blob_def)
  then have "push_step plain_lib mutex ?w1 Quiet ?w2" by (simp only: demo_run_simps pw_git_simps w(3))
  from trace_quiet [OF 1 this] have "push_trace plain_lib mutex idle_world ?w2 {} {}" .
  moreover have "map_of (pw_runs ?w2) = [0 \<mapsto> demo_run (Importing demo_target [])]" using w(2) by simp
  moreover have "readRef (pw_git ?w2 ''d'') = Map.empty"
    by (simp add: readRef_def [abs_def] refs_import) (simp add: empty_gitdir_def)
  ultimately show ?thesis by blast
qed

lemma demo_written:
  assumes "map_of (pw_runs w) = [0 \<mapsto> demo_run (Importing demo_target [])]"
  shows "\<exists>w'. push_step plain_lib mutex w (Wrote 0) w' \<and> readRef (pw_git w' ''d'') GROUP_REF = Some empty_blob"
proof -
  let ?gd = "(pw_git w ''d'')\<lparr>refs := aput GROUP_REF empty_blob (refs (pw_git w ''d''))\<rparr>"
  have w: "writeRef (pw_git w ''d'') GROUP_REF empty_blob = Inr ?gd"
    by (simp add: writeRef_def isAllowedRef_def)
  then have "push_step plain_lib mutex w (Wrote 0)
      (end_push 0 (demo_run (Importing demo_target [])) (put_git ''d'' ?gd w))"
    using push_step.commit [of w 0 "demo_run (Importing demo_target [])" demo_target ?gd plain_lib mutex] assms
    by (simp add: demo_target_def)
  moreover have "readRef (pw_git (end_push 0 (demo_run (Importing demo_target [])) (put_git ''d'' ?gd w)) ''d'') GROUP_REF =
      Some empty_blob" using writeRef_ok(1) [OF w] by simp
  ultimately show ?thesis by blast
qed

theorem overlapping_pushes_safe_witness:
  "\<exists>w. push_trace plain_lib True idle_world w {} {} \<and> readRef (pw_git w ''d'') GROUP_REF = Some empty_blob \<and>
     complete (pw_git w ''d'') empty_blob \<and> inflight (pw_ep w) ''g'' = card (runs_of ''g'' w)"
proof -
  obtain w where w: "push_trace plain_lib True idle_world w {} {}"
      "map_of (pw_runs w) = [0 \<mapsto> demo_run (Importing demo_target [])]"
    using demo_compared by blast
  from demo_written [OF w(2)] obtain w' where s: "push_step plain_lib True w (Wrote 0) w'"
      "readRef (pw_git w' ''d'') GROUP_REF = Some empty_blob" by blast
  from push_trace.more [OF w(1) s(1)] have t: "push_trace plain_lib True idle_world w' {} {}"
    by (simp add: overtaken_def engine_wrote_def)
  have "readRef (pw_git idle_world ''d'') GROUP_REF = None"
    by (simp add: idle_world_def pw_git_def empty_endpoint_def git_at_def empty_gitdir_def readRef_def)
  with overlapping_pushes_safe [OF plain_collision_free idle_world_ok t] s(2) t show ?thesis
    by (metis empty_iff option.distinct(1))
qed

text \<open>
  The engine's own advance of the group reference takes no mutex.  When it falls between a push's
  comparison and its write, the push overwrites it although it compared with the older value: the
  update is lost, the mutex notwithstanding.
\<close>

theorem engine_update_is_overwritten:
  "\<exists>w w1 w2. push_trace plain_lib True idle_world w {} {} \<and>
     push_step plain_lib True w (EngineRef ''d'' GROUP_REF c) w1 \<and> push_step plain_lib True w1 (Wrote 0) w2 \<and>
     readRef (pw_git w1 ''d'') GROUP_REF = Some c \<and> ref_json (Some c) \<noteq> ph_expected demo_target \<and>
     readRef (pw_git w2 ''d'') GROUP_REF = Some empty_blob"
proof -
  obtain w where w: "push_trace plain_lib True idle_world w {} {}"
      "map_of (pw_runs w) = [0 \<mapsto> demo_run (Importing demo_target [])]"
    using demo_compared by blast
  let ?gd = "(pw_git w ''d'')\<lparr>refs := aput GROUP_REF c (refs (pw_git w ''d''))\<rparr>"
  let ?w1 = "put_git ''d'' ?gd w"
  have r: "writeRef (pw_git w ''d'') GROUP_REF c = Inr ?gd"
    by (simp add: writeRef_def isAllowedRef_def)
  then have 1: "push_step plain_lib True w (EngineRef ''d'' GROUP_REF c) ?w1" by (rule push_step.engine_ref)
  have "map_of (pw_runs ?w1) = [0 \<mapsto> demo_run (Importing demo_target [])]" using w(2) by simp
  from demo_written [OF this] obtain w2 where 2: "push_step plain_lib True ?w1 (Wrote 0) w2"
      "readRef (pw_git w2 ''d'') GROUP_REF = Some empty_blob" by blast
  have "readRef (pw_git ?w1 ''d'') GROUP_REF = Some c" using writeRef_ok(1) [OF r] by simp
  moreover have "ref_json (Some c) \<noteq> ph_expected demo_target" by (simp add: ref_json_def demo_target_def)
  ultimately show ?thesis using w(1) 1 2 by blast
qed

subsection \<open>The endpoint as compare-and-swap registers\<close>

text \<open>
  The abstract endpoint: a register for each repository and reference, and the compare-and-swap
  requests that wait.  A request is compared and swapped in two steps.  A write of the owner, the
  engine, between the two makes it stale, and a stale request still swaps.  Where the concrete world
  receives, checks, stages and imports, the abstract one does nothing.
\<close>

datatype cas_state = Waiting | Fresh | Stale

type_synonym cas_request = "string \<times> string \<times> json \<times> oid"
type_synonym registers = "(string \<times> string \<Rightarrow> oid option) \<times> (nat \<Rightarrow> (cas_request \<times> cas_state) option)"

definition make_stale :: "string \<times> string \<Rightarrow> (nat \<Rightarrow> (cas_request \<times> cas_state) option) \<Rightarrow> nat \<Rightarrow> (cas_request \<times> cas_state) option" where
  "make_stale dr P k = (case P k of
     Some ((d, r, e, c), s) \<Rightarrow> Some ((d, r, e, c), if s = Fresh \<and> dr = (d, r) then Stale else s)
   | None \<Rightarrow> None)"

inductive cas_step :: "(string \<Rightarrow> oid \<Rightarrow> bool) \<Rightarrow> registers \<Rightarrow> registers \<Rightarrow> bool" for whole where
  idle: "cas_step whole s s"
| request: "P k = None \<Longrightarrow> cas_step whole (m, P) (m, P(k \<mapsto> (q, Waiting)))"
| refuse: "cas_step whole (m, P) (m, P(k := None))"
| compare: "P k = Some ((d, r, e, c), Waiting) \<Longrightarrow> ref_json (m (d, r)) = e \<Longrightarrow>
    cas_step whole (m, P) (m, P(k \<mapsto> ((d, r, e, c), Fresh)))"
| swap: "P k = Some ((d, r, e, c), s) \<Longrightarrow> s = Fresh \<and> ref_json (m (d, r)) = e \<or> s = Stale \<Longrightarrow> whole d c \<Longrightarrow>
    cas_step whole (m, P) (m((d, r) \<mapsto> c), P(k := None))"
| own: "cas_step whole (m, P) (m((d, r) \<mapsto> c), make_stale (d, r) P)"

definition request_of :: "nat set \<Rightarrow> nat \<Rightarrow> push_run \<Rightarrow> (cas_request \<times> cas_state) option" where
  "request_of D k p =
     (case pr_phase p of
        Receiving \<Rightarrow> None
      | Accepted h \<Rightarrow> Some ((run_dir p, ph_ref h, ph_expected h, ph_target h), Waiting)
      | Importing h ms \<Rightarrow> Some ((run_dir p, ph_ref h, ph_expected h, ph_target h), if k \<in> D then Stale else Fresh))"

definition abs_world :: "push_world \<Rightarrow> nat set \<Rightarrow> registers" where
  "abs_world w D =
     (\<lambda>(d, r). readRef (pw_git w d) r,
      \<lambda>k. case map_of (pw_runs w) k of None \<Rightarrow> None | Some p \<Rightarrow> request_of D k p)"

lemma abs_world_put:
  "readRef gd = readRef (pw_git w d) \<Longrightarrow> abs_world (put_git d gd w) D = abs_world w D"
  "readRef gd = (readRef (pw_git w d))(r \<mapsto> c) \<Longrightarrow>
    abs_world (put_git d gd w) D = ((fst (abs_world w D))((d, r) \<mapsto> c), snd (abs_world w D))"
  by (auto simp: abs_world_def fun_eq_iff)

lemma abs_world_runs:
  "abs_world (begin_push k g d w) D = (fst (abs_world w D), (snd (abs_world w D))(k := None))"
  "abs_world (set_run k p w) D = (fst (abs_world w D), (snd (abs_world w D))(k := request_of D k p))"
  "abs_world (end_push k p w) D = (fst (abs_world w D), (snd (abs_world w D))(k := None))"
  by (auto simp: abs_world_def request_of_def fun_eq_iff)

lemma abs_world_at:
  "fst (abs_world w D) (d, r) = readRef (pw_git w d) r"
  "map_of (pw_runs w) k = Some p \<Longrightarrow> snd (abs_world w D) k = request_of D k p"
  by (simp_all add: abs_world_def)

lemma abs_world_stale:
  assumes "ev = EngineRef d r c"
  shows "abs_world w (overtaken ev w D) = (fst (abs_world w D), make_stale (d, r) (snd (abs_world w D)))"
proof -
  have "snd (abs_world w (overtaken ev w D)) x = make_stale (d, r) (snd (abs_world w D)) x" for x
  proof (cases "map_of (pw_runs w) x")
    case None
    then show ?thesis by (simp add: abs_world_def make_stale_def)
  next
    case (Some p)
    then show ?thesis using assms
      by (cases "pr_phase p") (auto simp: abs_world_at request_of_def make_stale_def overtaken_def waits_on_def)
  qed
  then show ?thesis by (simp add: abs_world_def fun_eq_iff)
qed

lemma cas_refuse: "cas_step whole s (fst s, (snd s)(k := None))"
  by (cases s) (simp add: cas_step.refuse)

lemma push_step_refines:
  assumes cf: "collision_free L" and step: "push_step L True w ev w'" and inv: "push_inv L w" and ok: "stands w D"
  shows "cas_step (\<lambda>d. complete (pw_git w' d)) (abs_world w D) (abs_world w' (overtaken ev w D))"
  using step
proof cases
  case (frame k p l pu)
  then have "abs_world w' (overtaken ev w D) = (fst (abs_world w D), (snd (abs_world w D))(k := None))"
    by (simp add: abs_world_runs request_of_def overtaken_def)
  then show ?thesis by (simp add: cas_refuse)
next
  case (accept k p ab h)
  have "snd (abs_world w D) k = None" using accept by (simp add: abs_world_at request_of_def)
  then show ?thesis using accept cas_step.request [of "snd (abs_world w D)" k _ "fst (abs_world w D)"]
    by (simp add: abs_world_runs request_of_def overtaken_def)
next
  case (compare k p h)
  have "abs_world (set_run k (p\<lparr>pr_phase := Importing h (pu_objects (pr_push p))\<rparr>) w) (D - {k}) =
      (fst (abs_world w D), (snd (abs_world w D))(k \<mapsto> ((run_dir p, ph_ref h, ph_expected h, ph_target h), Fresh)))"
    by (auto simp: abs_world_def request_of_def run_dir_def fun_eq_iff split: option.splits push_phase.splits)
  then show ?thesis using compare
    cas_step.compare [of "snd (abs_world w D)" k "run_dir p" "ph_ref h" "ph_expected h" "ph_target h" "fst (abs_world w D)"]
    by (simp add: overtaken_def abs_world_at request_of_def)
next
  case (import k p h i ty ms bs)
  have "snd (abs_world w D) k = request_of D k (p\<lparr>pr_phase := Importing h ms\<rparr>)"
    using import by (simp add: abs_world_at request_of_def run_dir_def)
  then have same: "(snd (abs_world w D))(k := request_of D k (p\<lparr>pr_phase := Importing h ms\<rparr>)) = snd (abs_world w D)"
    by (metis fun_upd_triv)
  have "readRef (importLooseObjectAtomic (pw_git w (run_dir p)) ty bs i) = readRef (pw_git w (run_dir p))"
    by (simp add: readRef_def [abs_def] refs_import)
  from abs_world_put(1) [OF this] have "abs_world w' (overtaken ev w D) = abs_world w D"
    using import(1,2) same by (simp add: abs_world_runs overtaken_def)
  then show ?thesis by (simp add: cas_step.idle)
next
  case (commit k p h gd)
  let ?d = "run_dir p"
  note r = writeRef_ok(1) [OF commit(5)]
  note p = push_stepD [OF inv commit(3)]
  from p(1) commit(4) have c: "complete (pw_git w ?d) (ph_target h)"
    by (auto simp: run_ok_def run_dir_def intro: imported_complete)
  then have "complete (pw_git w' ?d) (ph_target h)"
    using writeRef_keeps(3) [OF commit(5)] commit(2) by simp
  moreover have "snd (abs_world w D) k = Some ((?d, ph_ref h, ph_expected h, ph_target h), if k \<in> D then Stale else Fresh)"
    using commit by (simp add: abs_world_at request_of_def)
  moreover have "ref_json (fst (abs_world w D) (?d, ph_ref h)) = ph_expected h" if "k \<notin> D"
    using ok commit(3,4) that by (fastforce simp: abs_world_at stands_def)
  ultimately have "cas_step (\<lambda>d. complete (pw_git w' d)) (fst (abs_world w D), snd (abs_world w D))
      ((fst (abs_world w D))((?d, ph_ref h) \<mapsto> ph_target h), (snd (abs_world w D))(k := None))"
    by (intro cas_step.swap [of _ k ?d "ph_ref h" "ph_expected h" "ph_target h"]) (auto split: if_splits)
  then show ?thesis using commit(1,2) by (simp add: abs_world_runs abs_world_put(2) [OF r] overtaken_def)
next
  case (engine_object ty bs i d)
  then show ?thesis by (simp add: abs_world_put readRef_def refs_import fun_eq_iff overtaken_def cas_step.idle)
next
  case (engine_ref d r c gd)
  note k = writeRef_ok(1) [OF engine_ref(3)]
  from engine_ref(2) have "abs_world w' (overtaken ev w D) = ((fst (abs_world w D))((d, r) \<mapsto> c), make_stale (d, r) (snd (abs_world w D)))"
    by (simp add: abs_world_put(2) [OF k] abs_world_stale [OF engine_ref(1)])
  then show ?thesis using cas_step.own [of _ "fst (abs_world w D)" "snd (abs_world w D)" d r c] by simp
qed (simp_all add: abs_world_runs cas_refuse overtaken_def)

text \<open>
  C16. Refinement: with the repository mutex, in every reachable state, each step of the endpoint is, on
  the references, at most one step of the abstract registers.  A push moves a reference to its
  target only when the target's closure is in the repository, and when the reference stands, at that
  moment and not only at the comparison before the imports, at the value the push expects; the one
  exception is a push whose reference the engine wrote in between, which overwrites it.
\<close>

theorem pushes_refine_registers:
  assumes "collision_free L" and "gits_typed L w0" and "push_start w0" and "push_trace L True w0 w D V"
    and "push_step L True w ev w'"
  shows "cas_step (\<lambda>d. complete (pw_git w' d)) (abs_world w D) (abs_world w' (overtaken ev w D))"
  using push_step_refines [OF assms(1,5)] push_trace_inv [OF assms(1-4)] by blast

theorem pushes_refine_registers_witness:
  "\<exists>w w'. push_trace plain_lib True idle_world w {} {} \<and> push_step plain_lib True w (Wrote 0) w' \<and>
     snd (abs_world w {}) 0 = Some ((''d'', GROUP_REF, JNull, empty_blob), Fresh) \<and>
     fst (abs_world w {}) (''d'', GROUP_REF) = None \<and> fst (abs_world w' {}) (''d'', GROUP_REF) = Some empty_blob \<and>
     cas_step (\<lambda>d. complete (pw_git w' d)) (abs_world w {}) (abs_world w' {})"
proof -
  obtain w where w: "push_trace plain_lib True idle_world w {} {}"
      "map_of (pw_runs w) = [0 \<mapsto> demo_run (Importing demo_target [])]" "readRef (pw_git w ''d'') = Map.empty"
    using demo_compared by blast
  from demo_written [OF w(2)] obtain w' where s: "push_step plain_lib True w (Wrote 0) w'"
      "readRef (pw_git w' ''d'') GROUP_REF = Some empty_blob" by blast
  from pushes_refine_registers [OF plain_collision_free idle_world_ok w(1) s(1)]
  have "cas_step (\<lambda>d. complete (pw_git w' d)) (abs_world w {}) (abs_world w' {})" by (simp add: overtaken_def)
  moreover have "snd (abs_world w {}) 0 = Some ((''d'', GROUP_REF, JNull, empty_blob), Fresh)"
    using w(2) by (simp add: abs_world_at request_of_def demo_target_def)
  ultimately show ?thesis using w(1,3) s by (intro exI conjI) (auto simp: abs_world_at)
qed

end
