(* ===== verification/Json.thy ===== *)
theory Json
  imports Ledger
begin

text \<open>
  \<^verbatim>\<open>JSON.stringify\<close> without indentation, and the record of a synchronisation conflict that is named by
  a hash of its canonical text (opendweb-ext-sync, merge.mjs).  A character stands for the UTF-16 code
  unit of its number.
\<close>

definition hex_char :: "nat \<Rightarrow> char" where
  "hex_char n = (if n < 10 then char_of (48 + n) else char_of (87 + n))"

definition escape_char :: "char \<Rightarrow> string" where
  "escape_char c =
     (let n = of_char c :: nat
      in if c = CHR 0x22 then [CHR 0x5C, CHR 0x22]
         else if c = CHR 0x5C then [CHR 0x5C, CHR 0x5C]
         else if n = 8 then [CHR 0x5C, CHR ''b'']
         else if n = 9 then [CHR 0x5C, CHR ''t'']
         else if n = 10 then [CHR 0x5C, CHR ''n'']
         else if n = 12 then [CHR 0x5C, CHR ''f'']
         else if n = 13 then [CHR 0x5C, CHR ''r'']
         else if n < 32 then CHR 0x5C # ''u00'' @ [hex_char (n div 16), hex_char (n mod 16)]
         else [c])"

definition quote :: "string \<Rightarrow> string" where
  "quote s = CHR 0x22 # concat (map escape_char s) @ [CHR 0x22]"

definition num_str :: "int \<Rightarrow> string" where
  "num_str n = (if n < 0 then CHR ''-'' # decimal (nat (- n)) else decimal (nat n))"

fun stringify :: "json \<Rightarrow> string" where
  "stringify JNull = ''null''"
| "stringify (JBool b) = (if b then ''true'' else ''false'')"
| "stringify (JNum n) = num_str n"
| "stringify (JStr s) = quote s"
| "stringify (JArr js) = ''['' @ join_with CHR '','' (map stringify js) @ '']''"
| "stringify (JObj fs) =
     ''{'' @ join_with CHR '','' (map (\<lambda>(k, v). quote k @ '':'' @ stringify v) fs) @ ''}''"

subsection \<open>Reading it back\<close>

text \<open>
  What is not a character of an escape comes back as it is; the code units below 32 never occur in
  the text, so a document is one line.
\<close>

lemma escape_one_line: "c' \<in> set (escape_char c) \<Longrightarrow> 32 \<le> (of_char c' :: nat)"
  by (auto simp: escape_char_def Let_def hex_char_def of_char_of split: if_splits)

end
