(* ===== verification/Session.thy ===== *)
theory Session
  imports Json Merge
begin

text \<open>
  Merge drivers and the name of a conflict record (opendweb-ext-sync, merge.mjs): drivers are asked in
  the order of their registration and the first suggestion is kept with the conflict; nothing is
  written back.
\<close>

subsection \<open>Merge drivers\<close>

text \<open>A driver answers with decisions or null, or throws.\<close>

type_synonym merge_driver = "merge_conflict \<Rightarrow> unit + decision list option"

definition registerMergeDriver ::
  "string \<Rightarrow> merge_driver \<Rightarrow> (string \<times> merge_driver) list \<Rightarrow> (string \<times> merge_driver) list" where
  "registerMergeDriver nm d ds = aput nm d ds"

definition unregisterMergeDriver :: "string \<Rightarrow> (string \<times> merge_driver) list \<Rightarrow> (string \<times> merge_driver) list" where
  "unregisterMergeDriver nm ds = adel nm ds"

fun consultMergeDrivers :: "(string \<times> merge_driver) list \<Rightarrow> merge_conflict \<Rightarrow> (string \<times> decision list) option" where
  "consultMergeDrivers [] c = None"
| "consultMergeDrivers ((nm, d) # ds) c =
     (case d c of Inr (Some r) \<Rightarrow> Some (nm, r) | _ \<Rightarrow> consultMergeDrivers ds c)"

text \<open>A driver that throws or has no suggestion changes nothing; registering again keeps the place.\<close>

lemma consult_skips:
  "(\<And>r. d c \<noteq> Inr (Some r)) \<Longrightarrow> consultMergeDrivers (ds @ (nm, d) # es) c = consultMergeDrivers (ds @ es) c"
  by (induction ds c rule: consultMergeDrivers.induct)
    (auto split: sum.splits option.splits)

lemma consult_registered:
  "consultMergeDrivers ds c = Some (nm, r) \<Longrightarrow> \<exists>d. (nm, d) \<in> set ds \<and> d c = Inr (Some r)"
  by (induction ds c rule: consultMergeDrivers.induct) (auto split: sum.splits option.splits)

subsection \<open>The name of a conflict record\<close>

definition id_json :: "(oid \<times> string) option \<Rightarrow> json" where
  "id_json e = (case e of None \<Rightarrow> JNull | Some (i, m) \<Rightarrow> JStr i)"

definition canon :: "merge_conflict \<Rightarrow> string" where
  "canon c = stringify (JObj [(''p'', JStr (mc_path c)), (''b'', id_json (mc_base c)),
     (''o'', id_json (mc_ours c)), (''t'', id_json (mc_theirs c))])"

text \<open>\<^verbatim>\<open>(h * 31 + code) >>> 0\<close> stays below 2 ^ 53 before the reduction, so it is exact.\<close>

definition hash31 :: "string \<Rightarrow> 32 word" where
  "hash31 s = fold (\<lambda>c h. h * 31 + word_of_nat (of_char c)) s 0"

fun hex_digits :: "nat \<Rightarrow> nat \<Rightarrow> string" where
  "hex_digits 0 n = []"
| "hex_digits (Suc k) n = hex_digits k (n div 16) @ [hex_char (n mod 16)]"

definition conflictRecordId :: "merge_conflict \<Rightarrow> string" where
  "conflictRecordId c = hex_digits 8 (unat (hash31 (canon c)))"

lemma length_hex_digits [simp]: "length (hex_digits k n) = k"
  by (induction k arbitrary: n) simp_all

lemma hex_chars: "list_all (\<lambda>m. is_hex (hex_char m)) [0..<16]" "distinct (map hex_char [0..<16])"
  by (code_simp, code_simp)

lemma hex_char_hex: "n < 16 \<Longrightarrow> is_hex (hex_char n)"
  using hex_chars(1) by (simp add: list_all_iff)

lemma hex_char_inj: "m < 16 \<Longrightarrow> n < 16 \<Longrightarrow> hex_char m = hex_char n \<longleftrightarrow> m = n"
  using hex_chars(2) by (auto simp: distinct_map inj_on_def)

lemma hex_digits_hex: "list_all is_hex (hex_digits k n)"
  by (induction k arbitrary: n) (simp_all add: hex_char_hex)

lemma hex_digits_inj: "m < 16 ^ k \<Longrightarrow> n < 16 ^ k \<Longrightarrow> hex_digits k m = hex_digits k n \<longleftrightarrow> m = n"
proof (induction k arbitrary: m n)
  case (Suc k)
  have "m div 16 < 16 ^ k" "n div 16 < 16 ^ k" using Suc.prems by (simp_all add: less_mult_imp_div_less mult.commute)
  from Suc.IH [OF this] have "hex_digits (Suc k) m = hex_digits (Suc k) n \<longleftrightarrow> m div 16 = n div 16 \<and> m mod 16 = n mod 16"
    by (simp add: hex_char_inj)
  then show ?case by (metis div_mult_mod_eq)
qed simp

text \<open>
  The id has eight hex digits and keeps the whole hash; it is a function of the path and the three
  object ids.
\<close>

lemma conflictRecordId_hex: "hex_between 8 8 (conflictRecordId c)"
  by (simp add: hex_between_def conflictRecordId_def hex_digits_hex del: hex_digits.simps)

lemma conflictRecordId_eq: "conflictRecordId c = conflictRecordId d \<longleftrightarrow> hash31 (canon c) = hash31 (canon d)"
proof -
  have "unat x < 16 ^ 8" for x :: "32 word" using unsigned_less [of x, where ?'a = nat] by simp
  then show ?thesis unfolding conflictRecordId_def by (simp add: hex_digits_inj word_unat_eq_iff del: hex_digits.simps)
qed

lemma conflictRecordId_cong:
  "mc_path c = mc_path d \<Longrightarrow> map_option fst (mc_base c) = map_option fst (mc_base d) \<Longrightarrow>
   map_option fst (mc_ours c) = map_option fst (mc_ours d) \<Longrightarrow>
   map_option fst (mc_theirs c) = map_option fst (mc_theirs d) \<Longrightarrow> conflictRecordId c = conflictRecordId d"
proof -
  have j: "id_json e = (case map_option fst e of None \<Rightarrow> JNull | Some i \<Rightarrow> JStr i)" for e :: "(oid \<times> string) option"
    by (simp add: id_json_def split: option.splits prod.splits)
  assume "mc_path c = mc_path d" "map_option fst (mc_base c) = map_option fst (mc_base d)"
    "map_option fst (mc_ours c) = map_option fst (mc_ours d)"
    "map_option fst (mc_theirs c) = map_option fst (mc_theirs d)"
  then show ?thesis by (simp add: conflictRecordId_def canon_def j)
qed

text \<open>
  The two devices see each other's side as theirs, and the id depends on which side is which: the
  same conflict has different ids on the two devices.
\<close>

definition swap_sides :: "merge_conflict \<Rightarrow> merge_conflict" where
  "swap_sides c = c\<lparr>mc_ours := mc_theirs c, mc_theirs := mc_ours c\<rparr>"

definition demo_conflict :: merge_conflict where
  "demo_conflict = \<lparr>mc_path = ''a'', mc_level = LFile, mc_kind = KBinary, mc_base = None,
     mc_ours = Some (''1'', ''100644''), mc_theirs = Some (''2'', ''100644''), mc_hunks = []\<rparr>"

lemma record_ids_differ: "conflictRecordId (swap_sides demo_conflict) \<noteq> conflictRecordId demo_conflict"
  unfolding conflictRecordId_eq by code_simp

end
