(* ===== verification/Engine.thy ===== *)
theory Engine
  imports Endpoint Intent Scan Session
begin

text \<open>
  The synchronisation engine of one synced root (opendweb-ext-sync, engine.mjs): committing the
  working tree, fetching from the peer, pushing to it, and turning a merged tree into operations.

  What the engine meets is a parameter: the git library, the clock and the random names, the abort
  signal, what a scan sees of the tree, and the peer, an arbitrary function from its state and a
  request to an answer (or none) and a new state.  Each look at clock, names, signal and tree takes
  the next number of a counter.  The two download workers are run as one.  A peer answer that holds
  something else than a string where an id belongs is refused at once.
\<close>

subsection \<open>The world of a root\<close>

record peer_request =
  pq_method :: string
  pq_path :: string
  pq_body :: "bytes option"

record peer_response =
  ps_status :: nat
  ps_body :: "json option"

record 'p env =
  ev_lib :: git_lib
  ev_diff3 :: diff3_fun
  ev_drivers :: "(string \<times> merge_driver) list"
  ev_endpoint :: string
  ev_device :: string
  ev_now :: "nat \<Rightarrow> int"
  ev_fresh :: "nat \<Rightarrow> string"
  ev_aborted :: "nat \<Rightarrow> bool"
  ev_view :: "nat \<Rightarrow> wtree \<Rightarrow> fs_view"
  ev_call :: "'p \<Rightarrow> peer_request \<Rightarrow> peer_response option \<times> 'p"

record job =
  j_phase :: string
  j_error :: "string option"
  j_fetched :: nat
  j_total :: nat
  j_bytes :: nat

record session_conflict =
  sc_id :: string
  sc_conflict :: merge_conflict
  sc_driver :: "(string \<times> decision list) option"
  sc_resolved :: bool

record session =
  ss_base :: oid
  ss_ours :: oid
  ss_theirs :: oid
  ss_merged :: "merged_entry list"
  ss_conflicts :: "session_conflict list"

record seed_block =
  sb_seed :: oid
  sb_seed_files :: "merged_entry list"
  sb_local_files :: "file_entry list"

record 'p site =
  si_world :: world
  si_session :: "session doc"
  si_block :: "seed_block doc"
  si_job :: "job option"
  si_running :: bool
  si_peer :: 'p
  si_ticks :: nat

text \<open>The paths, the peer and the mode of the root that a call works on.\<close>

record ctx =
  cx_group :: string
  cx_root :: string

definition wire :: "ctx \<Rightarrow> string" where
  "wire c = ''/wpk1/sync/'' @ cx_group c @ ''/'' @ cx_root c"

definition site_gd :: "'p site \<Rightarrow> gitdir" where
  "site_gd s = gd (si_world s)"

definition set_gd :: "gitdir \<Rightarrow> 'p site \<Rightarrow> 'p site" where
  "set_gd g s = s\<lparr>si_world := (si_world s)\<lparr>gd := g\<rparr>\<rparr>"

definition tick :: "(nat \<Rightarrow> 'a) \<Rightarrow> ('p site, err, 'a) eff" where
  "tick f s = (Inr (f (si_ticks s)), s\<lparr>si_ticks := Suc (si_ticks s)\<rparr>)"

definition on_gd :: "(gitdir \<Rightarrow> 'a \<times> gitdir) \<Rightarrow> ('p site, err, 'a) eff" where
  "on_gd f s = (let (a, g) = f (site_gd s) in (Inr a, set_gd g s))"

definition read_gd :: "(gitdir \<Rightarrow> err + 'a) \<Rightarrow> ('p site, err, 'a) eff" where
  "read_gd f s = (f (site_gd s), s)"

definition write_ref :: "string \<Rightarrow> oid \<Rightarrow> ('p site, err, unit) eff" where
  "write_ref r i s =
     (case writeRef (site_gd s) r i of Inl e \<Rightarrow> (Inl e, s) | Inr g \<Rightarrow> (Inr (), set_gd g s))"

subsection \<open>Jobs and errors\<close>

definition idle_job :: job where
  "idle_job = \<lparr>j_phase = ''idle'', j_error = None, j_fetched = 0, j_total = 0, j_bytes = 0\<rparr>"

definition setJob :: "(job \<Rightarrow> job) \<Rightarrow> 'p site \<Rightarrow> 'p site" where
  "setJob f s = s\<lparr>si_job := Some (f (case si_job s of None \<Rightarrow> idle_job | Some j \<Rightarrow> j))\<rparr>"

definition set_phase :: "string \<Rightarrow> ('p site, err, unit) eff" where
  "set_phase ph s = (Inr (), setJob (\<lambda>j. j\<lparr>j_phase := ph\<rparr>) s)"

definition httpError :: "nat \<Rightarrow> err" where
  "httpError status = Code (''http-'' @ decimal status)"

subsection \<open>Calling the peer\<close>

definition string_bytes :: "string \<Rightarrow> bytes" where
  "string_bytes s = utf8_encode (map of_char s)"

definition callPeer :: "'p env \<Rightarrow> peer_request \<Rightarrow> ('p site, err, peer_response) eff" where
  "callPeer E rq s =
     (let (r, p) = ev_call E (si_peer s) rq; s' = s\<lparr>si_peer := p\<rparr>
      in case r of None \<Rightarrow> (Inl (Thrown ''fetch failed''), s') | Some resp \<Rightarrow> (Inr resp, s'))"

definition get_request :: "string \<Rightarrow> peer_request" where
  "get_request p = \<lparr>pq_method = ''GET'', pq_path = p, pq_body = None\<rparr>"

definition resp_ok :: "peer_response \<Rightarrow> bool" where
  "resp_ok r \<longleftrightarrow> 200 \<le> ps_status r \<and> ps_status r < 300"

definition body_field :: "peer_response \<Rightarrow> string \<Rightarrow> json option" where
  "body_field r k = (case ps_body r of Some (JObj fs) \<Rightarrow> jget fs k | _ \<Rightarrow> None)"

definition call_ok :: "peer_response \<Rightarrow> bool" where
  "call_ok r \<longleftrightarrow> resp_ok r \<and> body_field r ''ok'' = Some (JBool True)"

text \<open>\<^verbatim>\<open>peerRefs[ref]\<close>\<close>

definition peer_ref :: "json option \<Rightarrow> string \<Rightarrow> err + oid option" where
  "peer_ref prefs r =
     (case prefs of
        None \<Rightarrow> Inl (Thrown ''TypeError'')
      | Some JNull \<Rightarrow> Inl (Thrown ''TypeError'')
      | Some (JObj fs) \<Rightarrow>
          (case jget fs r of
             None \<Rightarrow> Inr None
           | Some JNull \<Rightarrow> Inr None
           | Some (JStr i) \<Rightarrow> Inr (Some i)
           | Some _ \<Rightarrow> Inl (Thrown ''not an id''))
      | Some _ \<Rightarrow> Inr None)"

definition fetch_refs :: "'p env \<Rightarrow> ctx \<Rightarrow> ('p site, err, json option) eff" where
  "fetch_refs E c =
     ebind (callPeer E (get_request (wire c @ ''/refs''))) (\<lambda>r.
       if call_ok r then ret (body_field r ''refs'') else throw (httpError (ps_status r)))"

subsection \<open>Fetching\<close>

definition localOids :: "gitdir \<Rightarrow> oid list" where
  "localOids g = sort (filter hex40 (akeys (objs g)))"

function pages :: "nat \<Rightarrow> 'a list \<Rightarrow> 'a list list" where
  "pages n xs = (if n = 0 \<or> length xs \<le> n then [xs] else take n xs # pages n (drop n xs))"
  by pat_completeness auto
termination by (relation "measure (\<lambda>(n, xs). length xs)") auto

declare pages.simps [simp del]

definition missing_ids :: "json option \<Rightarrow> err + oid list" where
  "missing_ids v =
     (case v of
        None \<Rightarrow> Inr []
      | Some JNull \<Rightarrow> Inr []
      | Some (JArr ms) \<Rightarrow>
          (let ids = map (\<lambda>m. case m of JObj fs \<Rightarrow> as_string (jget fs ''oid'') | _ \<Rightarrow> None) ms
           in if None \<in> set ids then Inl (Thrown ''not an id'') else Inr (uniq (map the ids)))
      | Some _ \<Rightarrow> Inl (Thrown ''TypeError''))"

definition want_request :: "ctx \<Rightarrow> oid \<Rightarrow> oid list \<Rightarrow> peer_request" where
  "want_request c commit page =
     \<lparr>pq_method = ''POST'', pq_path = wire c @ ''/want'',
      pq_body = Some (string_bytes (stringify
        (JObj [(''commit'', JStr commit), (''have'', JArr (map JStr page))])))\<rparr>"

fun want_loop :: "'p env \<Rightarrow> ctx \<Rightarrow> oid \<Rightarrow> oid list list \<Rightarrow> oid list option \<Rightarrow> ('p site, err, oid list) eff" where
  "want_loop E c commit [] acc = ret (case acc of None \<Rightarrow> [] | Some ms \<Rightarrow> ms)"
| "want_loop E c commit (page # ps) acc =
     ebind (callPeer E (want_request c commit page)) (\<lambda>r.
       if \<not> call_ok r then throw (httpError (ps_status r))
       else ebind (lift (missing_ids (body_field r ''missing''))) (\<lambda>ids.
              want_loop E c commit ps
                (Some (case acc of None \<Rightarrow> ids | Some ms \<Rightarrow> filter (\<lambda>i. i \<in> set ids) ms))))"

text \<open>The references: the peer's device reference is mirrored, then its missing objects asked for.\<close>

fun fetch_targets ::
  "'p env \<Rightarrow> ctx \<Rightarrow> json option \<Rightarrow> string \<Rightarrow> oid list \<Rightarrow> string list \<Rightarrow> oid list \<Rightarrow> ('p site, err, oid list) eff" where
  "fetch_targets E c prefs dev have' [] missing = ret missing"
| "fetch_targets E c prefs dev have' (r # rs) missing =
     ebind (lift (peer_ref prefs r)) (\<lambda>v.
       case v of
         None \<Rightarrow> fetch_targets E c prefs dev have' rs missing
       | Some commit \<Rightarrow>
           ebind (read_gd (\<lambda>g. Inr (readRef g r))) (\<lambda>loc.
             if loc = Some commit then fetch_targets E c prefs dev have' rs missing
             else ebind (if r = dev then write_ref r commit else ret ()) (\<lambda>_.
                    ebind (want_loop E c commit (pages WANT_HAVE_PAGE have') None) (\<lambda>ids.
                      fetch_targets E c prefs dev have' rs
                        (missing @ filter (\<lambda>i. i \<notin> set missing) ids)))))"

fun get_object :: "'p env \<Rightarrow> ctx \<Rightarrow> oid \<Rightarrow> nat \<Rightarrow> ('p site, err, peer_response) eff" where
  "get_object E c i 0 = throw (httpError 0)"
| "get_object E c i (Suc n) =
     ebind (callPeer E (get_request (wire c @ ''/object/'' @ i))) (\<lambda>r.
       if body_field r ''code'' = Some (JStr ''busy'') \<and> n > 0 then get_object E c i n else ret r)"

definition verify_object :: "git_lib \<Rightarrow> oid \<Rightarrow> peer_response \<Rightarrow> err + string \<times> bytes" where
  "verify_object L i r =
     (if \<not> call_ok r then
        (if body_field r ''code'' = Some (JStr ''oversize'') then Inl (Code ''oversize-history'')
         else Inl (httpError (ps_status r)))
      else (case as_string (body_field r ''contentBase64'') of
              None \<Rightarrow> Inl (Thrown ''TypeError'')
            | Some b64 \<Rightarrow>
                (case (as_string (body_field r ''type''), body_field r ''length'') of
                   (Some ty, Some (JNum n)) \<Rightarrow>
                     (let raw = fromBase64 b64
                      in if int (length raw) \<noteq> n \<or> objectOid L ty raw \<noteq> i then Inl (Code ''integrity'')
                         else Inr (ty, raw))
                 | _ \<Rightarrow> Inl (Code ''integrity''))))"

text \<open>Downloading into the staging area: pairs of id and verified object.\<close>

fun fetch_objects ::
  "'p env \<Rightarrow> ctx \<Rightarrow> oid list \<Rightarrow> nat \<Rightarrow> ('p site, err, (oid \<times> string \<times> bytes) list \<times> nat) eff" where
  "fetch_objects E c [] n = ret ([], n)"
| "fetch_objects E c (i # is) n =
     ebind (tick (ev_aborted E)) (\<lambda>ab.
       if ab then throw (Code ''aborted'')
       else ebind (get_object E c i 3) (\<lambda>r.
              ebind (lift (verify_object (ev_lib E) i r)) (\<lambda>(ty, raw).
                if MAX_TRANSFER_BYTES < n + length raw then throw (Code ''budget'')
                else ebind (\<lambda>s. (Inr (), setJob (\<lambda>j. j\<lparr>j_fetched := Suc (j_fetched j),
                              j_bytes := n + length raw\<rparr>) s)) (\<lambda>_.
                       ebind (fetch_objects E c is (n + length raw)) (\<lambda>(staged, m).
                         ret ((i, ty, raw) # staged, m))))))"

definition import_all :: "git_lib \<Rightarrow> (oid \<times> string \<times> bytes) list \<Rightarrow> gitdir \<Rightarrow> gitdir" where
  "import_all L staged g = fold (\<lambda>(i, ty, raw) g. snd (writeObject L g ty raw)) (sort_key fst staged) g"

record fetched =
  ft_refs :: "json option"
  ft_imported :: nat
  ft_bytes :: nat

definition fetchFromPeer :: "'p env \<Rightarrow> ctx \<Rightarrow> string \<Rightarrow> ('p site, err, fetched) eff" where
  "fetchFromPeer E c peer =
     ebind (fetch_refs E c) (\<lambda>prefs.
       ebind (lift (deviceRef peer)) (\<lambda>dev.
         ebind (read_gd (\<lambda>g. Inr (localOids g))) (\<lambda>have'.
           ebind (fetch_targets E c prefs dev have' [GROUP_REF, dev] []) (\<lambda>missing.
             if missing = [] then ret \<lparr>ft_refs = prefs, ft_imported = 0, ft_bytes = 0\<rparr>
             else if MAX_OBJECTS_PER_SYNC < length missing then throw (Code ''budget'')
             else ebind (\<lambda>s. (Inr (), setJob (\<lambda>j. j\<lparr>j_fetched := 0, j_total := length missing,
                           j_bytes := 0\<rparr>) s)) (\<lambda>_.
                    ebind (fetch_objects E c missing 0) (\<lambda>(staged, n).
                      ebind (on_gd (\<lambda>g. ((), import_all (ev_lib E) staged g))) (\<lambda>_.
                        ebind (lift (peer_ref prefs dev)) (\<lambda>v.
                          ebind (case v of
                                   None \<Rightarrow> ret ()
                                 | Some commit \<Rightarrow>
                                     ebind (read_gd (\<lambda>g. Inr (readRef g dev))) (\<lambda>loc.
                                       if loc = Some commit then ret () else write_ref dev commit)) (\<lambda>_.
                            ret \<lparr>ft_refs = prefs, ft_imported = length missing, ft_bytes = n\<rparr>)))))))))"

subsection \<open>Frames\<close>

text \<open>
  What an effect may change, as a reflexive and transitive relation between the states before and
  after; sequencing and branching keep to it.
\<close>

locale effect_frame =
  fixes R :: "'s \<Rightarrow> 's \<Rightarrow> bool"
  assumes R_refl: "R s s"
    and R_trans: "R s t \<Longrightarrow> R t u \<Longrightarrow> R s u"
begin

definition keeps :: "('s, 'e, 'a) eff \<Rightarrow> bool" where
  "keeps m \<longleftrightarrow> (\<forall>s. R s (snd (m s)))"

lemma keepsD: "keeps m \<Longrightarrow> R s (snd (m s))"
  by (simp add: keeps_def)

lemma keepsI: "(\<And>s. R s (snd (m s))) \<Longrightarrow> keeps m"
  by (simp add: keeps_def)

lemma keeps_pure: "keeps (ret a)" "keeps (throw e)" "keeps (lift r)"
  by (simp_all add: keeps_def R_refl)

lemma keeps_bind:
  assumes "keeps m" and "\<And>a. keeps (f a)"
  shows "keeps (ebind m f)"
proof (rule keepsI)
  fix s
  obtain r s1 where m: "m s = (r, s1)" by force
  then have 1: "R s s1" using keepsD [OF assms(1), of s] by simp
  show "R s (snd (ebind m f s))"
  proof (cases r)
    case (Inl e)
    with m 1 show ?thesis by (simp add: ebind_def)
  next
    case (Inr a)
    with m 1 keepsD [OF assms(2), of s1 a] show ?thesis by (auto simp: ebind_def intro: R_trans)
  qed
qed

lemma keeps_lift: "(\<And>a. r = Inr a \<Longrightarrow> keeps (f a)) \<Longrightarrow> keeps (ebind (lift r) f)"
  by (cases r) (auto simp: keeps_def ebind_def lift_def R_refl)

lemma keeps_if: "(b \<Longrightarrow> keeps m) \<Longrightarrow> (\<not> b \<Longrightarrow> keeps n) \<Longrightarrow> keeps (if b then m else n)"
  by simp

lemma keeps_option: "keeps m \<Longrightarrow> (\<And>a. keeps (f a)) \<Longrightarrow> keeps (case v of None \<Rightarrow> m | Some a \<Rightarrow> f a)"
  by (cases v) simp_all

lemma keeps_pair: "(\<And>a b. keeps (f a b)) \<Longrightarrow> keeps (case v of (a, b) \<Rightarrow> f a b)"
  by (cases v) simp

lemmas keeps_intros = keeps_pure keeps_bind keeps_if keeps_option keeps_pair

end

text \<open>The objects that came in are named by their digest; those that were there stay.\<close>

definition added :: "git_lib \<Rightarrow> gitdir \<Rightarrow> gitdir \<Rightarrow> bool" where
  "added L g g' \<longleftrightarrow> grows g g' \<and>
     (\<forall>i ty bs. readObject g' i = Some (ty, bs) \<longrightarrow> readObject g i = Some (ty, bs) \<or> i = objectOid L ty bs)"

lemma added_trans: "added L g h \<Longrightarrow> added L h k \<Longrightarrow> added L g k"
  unfolding added_def by (blast intro: grows_trans)

definition outside_gd :: "'p site \<Rightarrow> 'p site \<Rightarrow> bool" where
  "outside_gd s s' \<longleftrightarrow> wt (si_world s') = wt (si_world s) \<and>
     intent_file (si_world s') = intent_file (si_world s) \<and> done_file (si_world s') = done_file (si_world s) \<and>
     si_session s' = si_session s \<and> si_block s' = si_block s \<and> si_running s' = si_running s"

definition site_frame :: "git_lib \<Rightarrow> string set \<Rightarrow> 'p site \<Rightarrow> 'p site \<Rightarrow> bool" where
  "site_frame L D s s' \<longleftrightarrow> outside_gd s s' \<and> added L (site_gd s) (site_gd s') \<and>
     (\<forall>r. r \<notin> D \<longrightarrow> readRef (site_gd s') r = readRef (site_gd s) r)"

interpretation fr: effect_frame "site_frame L D" for L D
proof
  fix s t u :: "'p site"
  show "site_frame L D s s" by (simp add: site_frame_def outside_gd_def added_def)
  assume "site_frame L D s t" "site_frame L D t u"
  then show "site_frame L D s u"
    using added_trans [of L "site_gd s" "site_gd t" "site_gd u"] by (auto simp: site_frame_def outside_gd_def)
qed

lemma set_gd_simps [simp]:
  "site_gd (set_gd g s) = g" "si_peer (set_gd g s) = si_peer s" "si_ticks (set_gd g s) = si_ticks s"
  "outside_gd s (set_gd g s)"
  by (simp_all add: site_gd_def set_gd_def outside_gd_def)

lemma site_gd_simps [simp]:
  "site_gd (s\<lparr>si_peer := p\<rparr>) = site_gd s" "site_gd (s\<lparr>si_ticks := n\<rparr>) = site_gd s"
  "site_gd (setJob f s) = site_gd s"
  by (simp_all add: site_gd_def setJob_def)

lemma added_import: "added L g (snd (writeObject L g ty bs))"
  using import_keeps [of g _ _ ty bs "objectOid L ty bs"]
  by (auto simp: added_def writeObject_def Let_def grows_def readObject_import hasObject_def split: if_splits)

lemma import_all_spec: "added L g (import_all L st g) \<and> refs (import_all L st g) = refs g"
proof -
  have "added L g (fold (\<lambda>(i, ty, raw) g. snd (writeObject L g ty raw)) xs g) \<and>
      refs (fold (\<lambda>(i, ty, raw) g. snd (writeObject L g ty raw)) xs g) = refs g" for xs
  proof (induction xs arbitrary: g)
    case Nil
    then show ?case by (simp add: added_def)
  next
    case (Cons x xs)
    obtain i ty raw where x: "x = (i, ty, raw)" by (cases x) auto
    have "refs (snd (writeObject L g ty raw)) = refs g" by (simp add: writeObject_def Let_def refs_import)
    with Cons [of "snd (writeObject L g ty raw)"] added_import [of L g ty raw] x show ?case
      by (auto intro: added_trans)
  qed
  then show ?thesis by (simp add: import_all_def)
qed

lemma fr_basic:
  "fr.keeps L D (tick f)" "fr.keeps L D (read_gd h)" "fr.keeps L D (callPeer E rq)" "fr.keeps L D (set_phase ph)"
  "fr.keeps L D (\<lambda>s. (Inr a, setJob k s))"
  by (rule fr.keepsI;
      auto simp: tick_def read_gd_def callPeer_def set_phase_def setJob_def Let_def site_frame_def outside_gd_def
        added_def site_gd_def split: prod.splits option.splits)+

lemma fr_write_ref: "r \<in> D \<Longrightarrow> fr.keeps L D (write_ref r i)"
  by (rule fr.keepsI)
    (auto simp: write_ref_def site_frame_def outside_gd_def added_def readRef_writeRef readObject_def grows_def
      objs_writeRef site_gd_def set_gd_def split: sum.splits dest: writeRef_ok)

lemma fr_import_all: "fr.keeps L D (on_gd (\<lambda>g. ((), import_all L st g)))"
proof (rule fr.keepsI)
  fix s :: "'p site"
  note i = import_all_spec [of L "site_gd s" st]
  then show "site_frame L D s (snd (on_gd (\<lambda>g. ((), import_all L st g)) s))"
    by (simp add: on_gd_def site_frame_def readRef_def)
qed

lemmas fr_intros = fr.keeps_intros fr_basic fr_write_ref fr_import_all

lemma fr_fetch_refs: "fr.keeps L D (fetch_refs E c)"
  unfolding fetch_refs_def by (intro fr_intros)

lemma fr_want_loop: "fr.keeps L D (want_loop E c commit ps acc)"
  by (induction ps arbitrary: acc) (auto intro!: fr_intros simp del: eff_simps)

lemma fr_fetch_targets:
  assumes "dev \<in> D"
  shows "fr.keeps L D (fetch_targets E c pr dev hv rs ms)"
proof (induction rs arbitrary: ms)
  case (Cons r rs)
  then show ?case using assms by (auto intro!: fr_intros fr_want_loop simp del: eff_simps)
qed (simp add: fr.keeps_pure)

lemma fr_get_object: "fr.keeps L D (get_object E c i n)"
  by (induction n) (auto intro!: fr_intros simp del: eff_simps)

lemma fr_fetch_objects: "fr.keeps L D (fetch_objects E c is n)"
  by (induction "is" arbitrary: n) (auto intro!: fr_intros fr_get_object simp del: eff_simps)

lemma fr_fetch: "fr.keeps (ev_lib E) {''refs/devices/'' @ peer @ ''/main''} (fetchFromPeer E c peer)"
  unfolding fetchFromPeer_def
  by (rule fr.keeps_bind, rule fr_fetch_refs, rule fr.keeps_lift)
    (auto intro!: fr_intros fr_fetch_targets fr_fetch_objects simp: deviceRef_def
      simp del: eff_simps fetch_targets.simps split: if_splits)

text \<open>
  C27. Whatever the peer answers, and however the fetch ends, it changes neither the working tree nor
  the transaction log nor the conflict files; the store keeps every object it had and gains only
  objects that are named by their own digest; and no reference moves but the one that mirrors the
  peer's device.
\<close>

theorem fetch_is_safe:
  "outside_gd s (snd (fetchFromPeer E c peer s)) \<and>
   added (ev_lib E) (site_gd s) (site_gd (snd (fetchFromPeer E c peer s))) \<and>
   readRef (site_gd (snd (fetchFromPeer E c peer s))) =
     (readRef (site_gd s))(''refs/devices/'' @ peer @ ''/main'' :=
        readRef (site_gd (snd (fetchFromPeer E c peer s))) (''refs/devices/'' @ peer @ ''/main''))"
  using fr.keepsD [OF fr_fetch, of E peer s c] by (auto simp: site_frame_def fun_eq_iff)

text \<open>
  The reference that mirrors the peer's device is written before the objects are asked for.  When
  the connection drops at that moment, the next fetch finds the reference at the peer's value, asks
  for nothing and reports success: the reference names a commit that is not in the store, and stays
  so as long as the peer's references do not move.
\<close>

theorem interrupted_fetch_is_not_resumed:
  assumes dev: "deviceRef peer = Inr dev"
    and new: "readRef (site_gd s) dev \<noteq> Some i" "readObject (site_gd s) i = None"
    and r: "call_ok r" "peer_ref (body_field r ''refs'') GROUP_REF = Inr None"
      "peer_ref (body_field r ''refs'') dev = Inr (Some i)"
    and c1: "ev_call E (si_peer s) (get_request (wire c @ ''/refs'')) = (Some r, p1)"
    and drop: "\<And>page. \<exists>p. ev_call E p1 (want_request c i page) = (None, p)"
    and c2: "\<And>p. \<exists>p'. ev_call E p (get_request (wire c @ ''/refs'')) = (Some r, p')"
  shows "\<exists>e s1 f s2. fetchFromPeer E c peer s = (Inl e, s1) \<and> fetchFromPeer E c peer s1 = (Inr f, s2) \<and>
    ft_imported f = 0 \<and> readRef (site_gd s2) dev = Some i \<and> readObject (site_gd s2) i = None"
proof -
  have allowed: "isAllowedRef dev" and ng: "dev \<noteq> GROUP_REF"
    using deviceRef_allowed [OF dev] deviceRef_not_group [OF dev] by simp_all
  have pg: "\<exists>p ps. pages WANT_HAVE_PAGE hv = p # ps" for hv :: "oid list" by (subst pages.simps) simp
  obtain g where g: "writeRef (site_gd s) dev i = Inr g" using allowed by (simp add: writeRef_def)
  have refs1: "fetch_refs E c s = (Inr (body_field r ''refs''), s\<lparr>si_peer := p1\<rparr>)"
    using c1 r(1) by (simp add: fetch_refs_def ebind_def callPeer_def)
  have "\<exists>e p2. fetch_targets E c (body_field r ''refs'') dev hv [GROUP_REF, dev] [] (s\<lparr>si_peer := p1\<rparr>) =
      (Inl e, set_gd g (s\<lparr>si_peer := p2\<rparr>))" for hv
  proof -
    obtain p ps where p: "pages WANT_HAVE_PAGE hv = p # ps" using pg by blast
    obtain p2 where "ev_call E p1 (want_request c i p) = (None, p2)" using drop by blast
    then show ?thesis using new(1) r g p
      by (intro exI [of _ "Thrown ''fetch failed''"] exI [of _ p2])
        (simp add: ebind_def read_gd_def write_ref_def callPeer_def set_gd_def site_gd_def)
  qed
  then obtain e p2 where t1: "fetch_targets E c (body_field r ''refs'') dev (localOids (site_gd s)) [GROUP_REF, dev] []
      (s\<lparr>si_peer := p1\<rparr>) = (Inl e, set_gd g (s\<lparr>si_peer := p2\<rparr>))" by blast
  let ?s1 = "set_gd g (s\<lparr>si_peer := p2\<rparr>)"
  have f1: "fetchFromPeer E c peer s = (Inl e, ?s1)"
    using refs1 t1 dev by (simp add: fetchFromPeer_def ebind_def read_gd_def del: fetch_targets.simps)
  obtain p3 where c3: "ev_call E p2 (get_request (wire c @ ''/refs'')) = (Some r, p3)" using c2 by blast
  have refs2: "fetch_refs E c ?s1 = (Inr (body_field r ''refs''), ?s1\<lparr>si_peer := p3\<rparr>)"
    using c3 r(1) by (simp add: fetch_refs_def ebind_def callPeer_def)
  have at: "readRef g dev = Some i" using g by (simp add: readRef_writeRef)
  have t2: "fetch_targets E c (body_field r ''refs'') dev hv [GROUP_REF, dev] [] (?s1\<lparr>si_peer := p3\<rparr>) =
      (Inr [], ?s1\<lparr>si_peer := p3\<rparr>)" for hv
    using r at by (simp add: ebind_def read_gd_def)
  have f2: "fetchFromPeer E c peer ?s1 =
      (Inr \<lparr>ft_refs = body_field r ''refs'', ft_imported = 0, ft_bytes = 0\<rparr>, ?s1\<lparr>si_peer := p3\<rparr>)"
    using refs2 t2 dev by (simp add: fetchFromPeer_def ebind_def read_gd_def del: fetch_targets.simps)
  have "readObject g i = None" using new(2) g by (simp add: readObject_def objs_writeRef)
  then show ?thesis using f1 f2 at by auto
qed

definition dropped_refs :: peer_response where
  "dropped_refs = \<lparr>ps_status = 200, ps_body = Some (JObj [(''ok'', JBool True),
     (''refs'', JObj [(''refs/devices/abcd0123/main'', JStr ''f00d'')])])\<rparr>"

text \<open>A peer that answers requests without a body and drops the others.\<close>

definition dropping_env :: "unit env" where
  "dropping_env = \<lparr>ev_lib = plain_lib, ev_diff3 = (\<lambda>_ _ _. []), ev_drivers = [], ev_endpoint = ''0123abcd'', ev_device = ''laptop'',
     ev_now = int, ev_fresh = dec_str, ev_aborted = (\<lambda>_. False), ev_view = (\<lambda>_. view_of),
     ev_call = (\<lambda>_ rq. if pq_body rq = None then (Some dropped_refs, ()) else (None, ()))\<rparr>"

definition empty_world :: world where
  "empty_world = \<lparr>wt = [], gd = empty_gitdir, intent_file = Absent, done_file = Absent\<rparr>"

definition new_site :: "'p \<Rightarrow> 'p site" where
  "new_site p = \<lparr>si_world = empty_world, si_session = Absent, si_block = Absent, si_job = None,
     si_running = False, si_peer = p, si_ticks = 0\<rparr>"

theorem interrupted_fetch_is_not_resumed_witness:
  "\<exists>e s1 f s2. fetchFromPeer dropping_env \<lparr>cx_group = ''g'', cx_root = ''r''\<rparr> ''abcd0123'' (new_site ()) = (Inl e, s1) \<and>
    fetchFromPeer dropping_env \<lparr>cx_group = ''g'', cx_root = ''r''\<rparr> ''abcd0123'' s1 = (Inr f, s2) \<and>
    ft_imported f = 0 \<and> readRef (site_gd s2) ''refs/devices/abcd0123/main'' = Some ''f00d'' \<and>
    readObject (site_gd s2) ''f00d'' = None"
proof (rule interrupted_fetch_is_not_resumed [where r = dropped_refs and ?p1.0 = "()"])
  show "deviceRef ''abcd0123'' = Inr ''refs/devices/abcd0123/main''"
    by (simp add: deviceRef_def hex_between_def is_hex_def is_digit_def)
  show "readRef (site_gd (new_site ())) ''refs/devices/abcd0123/main'' \<noteq> Some ''f00d''"
    "readObject (site_gd (new_site ())) ''f00d'' = None"
    by (simp_all add: new_site_def site_gd_def empty_world_def readRef_def readObject_def empty_gitdir_def)
  show "call_ok dropped_refs" "peer_ref (body_field dropped_refs ''refs'') GROUP_REF = Inr None"
    "peer_ref (body_field dropped_refs ''refs'') ''refs/devices/abcd0123/main'' = Inr (Some ''f00d'')"
    by (simp_all add: call_ok_def resp_ok_def body_field_def dropped_refs_def peer_ref_def jget_def GROUP_REF_def)
qed (simp_all add: dropping_env_def get_request_def want_request_def)

end
