(* ===== verification/Publish.thy ===== *)
theory Publish
  imports Engine
begin

text \<open>
  Committing the working tree to the device reference, pushing a reference with everything it
  reaches to the peer, and the operations that turn the tree into a merged one (opendweb-ext-sync,
  engine.mjs).
\<close>

subsection \<open>Effects that may not return\<close>

text \<open>
  None is a call that never returns; only a scan of a file system that keeps growing does that.
\<close>

type_synonym ('s, 'e, 'a) oeff = "'s \<Rightarrow> (('e + 'a) \<times> 's) option"

definition ol :: "('s, 'e, 'a) eff \<Rightarrow> ('s, 'e, 'a) oeff" where
  "ol m s = Some (m s)"

definition obind :: "('s, 'e, 'a) oeff \<Rightarrow> ('a \<Rightarrow> ('s, 'e, 'b) oeff) \<Rightarrow> ('s, 'e, 'b) oeff" where
  "obind m f s =
     (case m s of
        None \<Rightarrow> None
      | Some (Inl e, s') \<Rightarrow> Some (Inl e, s')
      | Some (Inr a, s') \<Rightarrow> f a s')"

lemma obind_ol: "obind (ol m) f s = (case m s of (Inl e, s') \<Rightarrow> Some (Inl e, s') | (Inr a, s') \<Rightarrow> f a s')"
  by (simp add: obind_def ol_def)

subsection \<open>Committing the working tree\<close>

definition endpointAbbrev :: "string \<Rightarrow> string" where
  "endpointAbbrev e = take 8 e"

definition scan_err :: "scan_error \<Rightarrow> err" where
  "scan_err e =
     (case e of
        WorktreeRace _ _ \<Rightarrow> Code ''worktree-race''
      | OversizeHistory _ _ _ \<Rightarrow> Code ''oversize-history''
      | IoError code \<Rightarrow> Code code)"

definition scan_site :: "'p env \<Rightarrow> nat option \<Rightarrow> ('p site, err, scan_entry list) oeff" where
  "scan_site E limit s =
     map_option
       (\<lambda>(r, g). (case r of Inl e \<Rightarrow> Inl (scan_err e) | Inr es \<Rightarrow> Inr es,
                   (set_gd g s)\<lparr>si_ticks := Suc (si_ticks s)\<rparr>))
       (scanWorktree (ev_lib E) (ev_view E (si_ticks s) (wt (si_world s))) limit (site_gd s))"

definition commit_tree :: "git_lib \<Rightarrow> oid \<Rightarrow> gitdir \<Rightarrow> err + oid" where
  "commit_tree L i g =
     (case readCommitParsed L g i of None \<Rightarrow> Inl (Code ''NotFoundError'') | Some c \<Rightarrow> Inr (c_tree c))"

definition new_commit :: "'p env \<Rightarrow> string \<Rightarrow> oid \<Rightarrow> oid list \<Rightarrow> ('p site, err, oid) eff" where
  "new_commit E msg tree parents =
     ebind (tick (ev_now E)) (\<lambda>t.
       on_gd (\<lambda>g. writeCommitOid (ev_lib E) g
         \<lparr>c_message = msg, c_tree = tree, c_parent = parents,
          c_authorName = endpointAbbrev (ev_endpoint E) @ '' '' @ ev_device E,
          c_authorEmail = endpointAbbrev (ev_endpoint E) @ ''@device.sync'', c_timestamp = t\<rparr>))"

record local_commit =
  lc_head :: "oid option"
  lc_tree :: oid
  lc_changed :: bool

definition head_tree :: "git_lib \<Rightarrow> oid option \<Rightarrow> ('p site, err, oid option) eff" where
  "head_tree L head =
     (case head of None \<Rightarrow> ret None | Some h \<Rightarrow> ebind (read_gd (commit_tree L h)) (\<lambda>t. ret (Some t)))"

text \<open>The part after the scan.\<close>

definition commit_entries ::
  "'p env \<Rightarrow> string \<Rightarrow> oid option \<Rightarrow> scan_entry list \<Rightarrow> ('p site, err, local_commit) eff" where
  "commit_entries E dev head es =
     ebind (head_tree (ev_lib E) head) (\<lambda>ht.
       ebind (on_gd (\<lambda>g. writeTreeFromFlat (ev_lib E) g (scanToFlatEntries es))) (\<lambda>tree.
         if Some tree = ht then ret \<lparr>lc_head = head, lc_tree = tree, lc_changed = False\<rparr>
         else ebind (new_commit E
                (''sync: local changes on '' @ ev_device E @ '' ('' @ endpointAbbrev (ev_endpoint E) @ '')'') tree
                (case head of None \<Rightarrow> [] | Some h \<Rightarrow> [h])) (\<lambda>i.
                ebind (read_gd (\<lambda>g. Inr (readRef g dev))) (\<lambda>current.
                  if current \<noteq> head then throw (Code ''cas-mismatch'')
                  else ebind (write_ref dev i) (\<lambda>_.
                         ret \<lparr>lc_head = Some i, lc_tree = tree, lc_changed = True\<rparr>)))))"

definition commitLocal :: "'p env \<Rightarrow> ('p site, err, local_commit) oeff" where
  "commitLocal E =
     obind (ol (lift (deviceRef (ev_endpoint E)))) (\<lambda>dev.
       obind (ol (read_gd (\<lambda>g. Inr (readRef g dev)))) (\<lambda>head.
         obind (scan_site E (Some MAX_OBJECT_BYTES)) (\<lambda>es.
           ol (commit_entries E dev head es))))"

subsection \<open>Pushing\<close>

text \<open>The lines of a push, built until the transport limit is exceeded.\<close>

definition header_line :: "string \<Rightarrow> oid option \<Rightarrow> oid \<Rightarrow> bytes" where
  "header_line r old i =
     string_bytes (stringify (JObj [(''ref'', JStr r), (''expectedOldRef'', ref_json old),
       (''targetCommit'', JStr i)]) @ [CHR 0x0A])"

definition object_line :: "oid \<Rightarrow> string \<Rightarrow> bytes \<Rightarrow> bytes" where
  "object_line i ty raw =
     string_bytes (stringify (JObj [(''oid'', JStr i), (''type'', JStr ty),
       (''length'', JNum (int (length raw))), (''contentBase64'', JStr (toBase64 raw))]) @ [CHR 0x0A])"

fun push_body :: "gitdir \<Rightarrow> (oid \<times> string \<times> nat) list \<Rightarrow> bytes \<Rightarrow> err + bytes" where
  "push_body g [] acc = Inr acc"
| "push_body g ((i, _, _) # os) acc =
     (case readObject g i of
        None \<Rightarrow> Inl (Code ''NotFoundError'')
      | Some (ty, raw) \<Rightarrow>
          (let acc' = acc @ object_line i ty raw
           in if MAX_PUSH_WIRE_BYTES < length acc' then Inl (Code ''closure-exceeds-transport'')
              else push_body g os acc'))"

definition push_frames :: "gitdir \<Rightarrow> string \<Rightarrow> oid option \<Rightarrow> oid \<Rightarrow> err + bytes" where
  "push_frames g r old i =
     (case walkClosure i (readObject g) of
        None \<Rightarrow> Inl (Thrown ''the walk does not end'')
      | Some (Inl e) \<Rightarrow> Inl e
      | Some (Inr closure) \<Rightarrow>
          if MAX_OBJECTS_PER_SYNC < length closure then Inl (Code ''budget'')
          else if list_ex (\<lambda>(i, ty, n). ty = ''blob'' \<and> MAX_OBJECT_BYTES < n) closure
          then Inl (Code ''oversize-history'')
          else push_body g closure (header_line r old i))"

definition push_request :: "ctx \<Rightarrow> bytes \<Rightarrow> peer_request" where
  "push_request c payload = \<lparr>pq_method = ''POST'', pq_path = wire c @ ''/push'', pq_body = Some payload\<rparr>"

fun pushToPeer :: "'p env \<Rightarrow> ctx \<Rightarrow> json option \<Rightarrow> (string \<times> oid) list \<Rightarrow> ('p site, err, unit) eff" where
  "pushToPeer E c prefs [] = ret ()"
| "pushToPeer E c prefs ((r, i) # ts) =
     ebind (lift (peer_ref prefs r)) (\<lambda>old.
       if old = Some i then pushToPeer E c prefs ts
       else ebind (read_gd (\<lambda>g. push_frames g r old i)) (\<lambda>payload.
              ebind (callPeer E (push_request c payload)) (\<lambda>resp.
                if resp_ok resp then pushToPeer E c prefs ts
                else if body_field resp ''code'' = Some (JStr ''cas-mismatch'') then throw (Code ''push-cas'')
                else throw (httpError (ps_status resp)))))"

subsection \<open>From a merged tree to operations\<close>

definition modeNum :: "string \<Rightarrow> nat" where
  "modeNum m = (if m = ''100755'' then mode_exec else mode_plain)"

text \<open>The map of the merged entries, the last one of a path winning.\<close>

definition merged_entry_at :: "merged_entry list \<Rightarrow> string \<Rightarrow> (oid \<times> string) option" where
  "merged_entry_at merged = map_of (rev (map (\<lambda>e. (me_path e, (me_oid e, me_mode e))) merged))"

text \<open>What one path needs: nothing, or an operation without its before-image.\<close>

definition path_op :: "flat_tree \<Rightarrow> merged_entry list \<Rightarrow> string \<Rightarrow> (op_kind \<times> ptuple option) option" where
  "path_op ours merged p =
     (case (map_of ours p, merged_entry_at merged p) of
        (Some e, m) \<Rightarrow>
          if fe_type e = Tree then None
          else (case m of
                  None \<Rightarrow> Some (OpDelete, None)
                | Some (i, md) \<Rightarrow>
                    if fe_oid e = i \<and> fe_mode e = md then None
                    else Some (OpWrite, Some (Some i, Some Blob, Some (modeNum md))))
      | (None, None) \<Rightarrow> None
      | (None, Some (i, md)) \<Rightarrow> Some (OpWrite, Some (Some i, Some Blob, Some (modeNum md))))"

definition op_paths_of :: "flat_tree \<Rightarrow> merged_entry list \<Rightarrow> string list" where
  "op_paths_of ours merged = akeys ours @ filter (\<lambda>p. p \<notin> set (akeys ours)) (map me_path merged)"

fun build_ops ::
  "git_lib \<Rightarrow> wtree \<Rightarrow> flat_tree \<Rightarrow> merged_entry list \<Rightarrow> string list \<Rightarrow> gitdir \<Rightarrow> intent_op list \<times> gitdir" where
  "build_ops L t ours merged [] g = ([], g)"
| "build_ops L t ours merged (p # ps) g =
     (case path_op ours merged p of
        None \<Rightarrow> build_ops L t ours merged ps g
      | Some (k, post) \<Rightarrow>
          (let (pre, g1) = pathStateTuple L t p g;
               (ops, g2) = build_ops L t ours merged ps g1
           in (\<lparr>op_kind = k, op_path = p, op_pre = Some pre, op_post = post\<rparr> # ops, g2)))"

definition buildMaterializeOps ::
  "'p env \<Rightarrow> flat_tree \<Rightarrow> merged_entry list \<Rightarrow> ('p site, err, intent_op list) eff" where
  "buildMaterializeOps E ours merged s =
     (let (ops, g) = build_ops (ev_lib E) (wt (si_world s)) ours merged (uniq (op_paths_of ours merged)) (site_gd s)
      in (Inr ops, set_gd g s))"

subsection \<open>What a push sends\<close>

lemma push_body_bound:
  "push_body g os acc = Inr b \<Longrightarrow> length acc \<le> MAX_PUSH_WIRE_BYTES \<or> os \<noteq> [] \<Longrightarrow> length b \<le> MAX_PUSH_WIRE_BYTES"
  by (induction g os acc rule: push_body.induct) (auto simp: Let_def split: option.splits if_splits)

lemma finite_store: "finite (dom (readObject g))"
proof -
  have "readObject g = map_of (objs g)" by (simp add: readObject_def fun_eq_iff)
  then show ?thesis by (simp add: finite_dom_map_of)
qed

lemma push_frames_spec:
  assumes "push_frames g r old i = Inr b"
  shows "length b \<le> MAX_PUSH_WIRE_BYTES \<and> complete g i \<and> card (reachable (readObject g) i) \<le> MAX_OBJECTS_PER_SYNC"
proof -
  note w = walkClosure_exact' [OF finite_store, of i g]
  have c: "complete g i"
  proof (rule ccontr)
    assume "\<not> complete g i"
    with w assms show False by (simp add: push_frames_def complete_def)
  qed
  define cl where "cl = map (\<lambda>i. (i, fst (the (readObject g i)), length (snd (the (readObject g i)))))
    (sorted_list_of_set (reachable (readObject g) i))"
  have "walkClosure i (readObject g) = Some (Inr cl)" using w c by (simp add: complete_def cl_def)
  with assms have b: "length cl \<le> MAX_OBJECTS_PER_SYNC" "push_body g cl (header_line r old i) = Inr b"
    by (auto simp: push_frames_def split: if_splits)
  have fin: "finite (reachable (readObject g) i)" using c finite_store by (auto simp: complete_def intro: finite_subset)
  then have "cl \<noteq> []" unfolding cl_def using reach.start [of "readObject g" i] by (auto simp: reachable_def)
  with push_body_bound [OF b(2)] b(1) c fin show ?thesis by (simp add: cl_def)
qed

definition push_of :: "ctx \<Rightarrow> gitdir \<Rightarrow> (string \<times> oid) list \<Rightarrow> peer_request \<Rightarrow> bool" where
  "push_of c g ts rq \<longleftrightarrow> (\<exists>b r old i. (r, i) \<in> set ts \<and> old \<noteq> Some i \<and> rq = push_request c b \<and>
     push_frames g r old i = Inr b \<and> length b \<le> MAX_PUSH_WIRE_BYTES \<and> complete g i \<and>
     card (reachable (readObject g) i) \<le> MAX_OBJECTS_PER_SYNC)"

lemma push_of_Cons: "push_of c g ts rq \<Longrightarrow> push_of c g (t # ts) rq"
  unfolding push_of_def by (metis list.set_intros(2))

lemma push_of_frames: "push_frames g r old i = Inr b \<Longrightarrow> old \<noteq> Some i \<Longrightarrow> push_of c g ((r, i) # ts) (push_request c b)"
  using push_frames_spec [of g r old i b] unfolding push_of_def by (metis list.set_intros(1))

text \<open>
  Pushing changes nothing on this side, and every request it sends fits the transport: the body
  is at most 2 MiB, and what it carries is a complete closure of at most 5,000 objects.  (The peer is
  any peer, with its requests recorded.)
\<close>

theorem push_requests_fit:
  assumes rec: "\<And>p rq. ev_call E p rq = (reply p rq, p @ [rq])"
  shows "\<exists>rqs. snd (pushToPeer E c prefs ts s) = s\<lparr>si_peer := si_peer s @ rqs\<rparr> \<and>
    list_all (push_of c (site_gd s) ts) rqs"
proof (induction ts arbitrary: s)
  case Nil
  show ?case by (intro exI [of _ "[]"]) simp
next
  case (Cons t ts)
  obtain r i where t: "t = (r, i)" by force
  have stop: ?case if "snd (pushToPeer E c prefs (t # ts) s) = s"
    using that by (intro exI [of _ "[]"]) simp
  have more: ?case if "snd (pushToPeer E c prefs (t # ts) s) = snd (pushToPeer E c prefs ts (s\<lparr>si_peer := si_peer s @ qs\<rparr>))"
      "list_all (push_of c (site_gd s) (t # ts)) qs" for qs
  proof -
    from Cons.IH [of "s\<lparr>si_peer := si_peer s @ qs\<rparr>"] obtain rqs where
      "snd (pushToPeer E c prefs ts (s\<lparr>si_peer := si_peer s @ qs\<rparr>)) = s\<lparr>si_peer := si_peer s @ qs @ rqs\<rparr>"
      "list_all (push_of c (site_gd s) ts) rqs" by auto
    with that push_of_Cons [of c "site_gd s" ts _ t] show ?thesis
      by (intro exI [of _ "qs @ rqs"]) (auto simp: list_all_iff)
  qed
  show ?case
  proof (cases "peer_ref prefs r")
    case (Inl e)
    with t show ?thesis by (intro stop) (simp add: ebind_def)
  next
    case (Inr old)
    show ?thesis
    proof (cases "old = Some i")
      case True
      with t Inr show ?thesis by (intro more [of "[]"]) (simp_all add: ebind_def)
    next
      case new: False
      show ?thesis
      proof (cases "push_frames (site_gd s) r old i")
        case (Inl e)
        with t \<open>peer_ref prefs r = Inr old\<close> new show ?thesis by (intro stop) (simp add: ebind_def read_gd_def)
      next
        case b: (Inr b)
        let ?rq = "push_request c b"
        have here: "list_all (push_of c (site_gd s) (t # ts)) [?rq]" using push_of_frames [OF b new] t by simp
        have "snd (pushToPeer E c prefs (t # ts) s) = s\<lparr>si_peer := si_peer s @ [?rq]\<rparr> \<or>
            snd (pushToPeer E c prefs (t # ts) s) = snd (pushToPeer E c prefs ts (s\<lparr>si_peer := si_peer s @ [?rq]\<rparr>))"
          using t Inr new b
          by (cases "reply (si_peer s) ?rq") (auto simp: ebind_def read_gd_def callPeer_def rec)
        with here more [of "[?rq]"] show ?thesis by blast
      qed
    qed
  qed
qed

subsection \<open>What materialising does\<close>

lemma build_ops_paths:
  "build_ops L t ours merged ps g = (ops, g') \<Longrightarrow>
     map op_path ops = filter (\<lambda>p. path_op ours merged p \<noteq> None) ps \<and>
     list_all (\<lambda>op. path_op ours merged (op_path op) = Some (op_kind op, op_post op) \<and>
       op_pre op = Some (tuple_of L t (op_path op))) ops \<and> refs g' = refs g"
proof (induction ps arbitrary: g ops g')
  case (Cons p ps)
  show ?case
  proof (cases "path_op ours merged p")
    case None
    with Cons.prems Cons.IH show ?thesis by simp
  next
    case (Some kp)
    obtain k post where kp: "kp = (k, post)" by force
    obtain pre g1 where 1: "pathStateTuple L t p g = (pre, g1)" by (cases "pathStateTuple L t p g") auto
    obtain ops2 g2 where 2: "build_ops L t ours merged ps g1 = (ops2, g2)" by force
    have "pre = tuple_of L t p" "refs g1 = refs g"
      using pathStateTuple_fst [of L t p g] pathStateTuple_refs [of L t p g] 1 by simp_all
    with Cons.prems Cons.IH [OF 2] Some kp 1 2 show ?thesis by auto
  qed
qed simp

lemma buildMaterializeOps_returns:
  obtains ops s' where "buildMaterializeOps E ours merged s = (Inr ops, s')"
  by (cases "build_ops (ev_lib E) (wt (si_world s)) ours merged (uniq (op_paths_of ours merged)) (site_gd s)")
    (simp add: buildMaterializeOps_def)

lemma buildMaterializeOps_ops:
  assumes "buildMaterializeOps E ours merged s = (Inr ops, s')"
  shows "distinct (op_paths ops)"
    and "p \<in> set (op_paths ops) \<longleftrightarrow> path_op ours merged p \<noteq> None"
    and "op \<in> set ops \<Longrightarrow> path_op ours merged (op_path op) = Some (op_kind op, op_post op)"
    and "wt (si_world s') = wt (si_world s)"
proof -
  obtain g where b: "build_ops (ev_lib E) (wt (si_world s)) ours merged (uniq (op_paths_of ours merged)) (site_gd s) = (ops, g)"
      and s': "s' = set_gd g s"
    using assms by (auto simp: buildMaterializeOps_def split: prod.splits)
  note p = build_ops_paths [OF b]
  then show "distinct (op_paths ops)" by simp
  have "p \<in> set (op_paths_of ours merged)" if "path_op ours merged p \<noteq> None"
  proof -
    have "p \<in> set (akeys ours) \<or> p \<in> set (map me_path merged)"
    proof (rule ccontr)
      assume "\<not> ?thesis"
      then have "map_of ours p = None" "merged_entry_at merged p = None"
        by (auto simp: akeys_def merged_entry_at_def map_of_eq_None_iff image_iff)
      with that show False by (simp add: path_op_def)
    qed
    then show ?thesis by (auto simp: op_paths_of_def)
  qed
  with p show "p \<in> set (op_paths ops) \<longleftrightarrow> path_op ours merged p \<noteq> None" by auto
  show "op \<in> set ops \<Longrightarrow> path_op ours merged (op_path op) = Some (op_kind op, op_post op)"
    using p by (auto simp: list_all_iff)
  show "wt (si_world s') = wt (si_world s)" by (simp add: s' set_gd_def)
qed

lemma merged_lookup:
  "distinct (map me_path merged) \<Longrightarrow> e \<in> set merged \<Longrightarrow>
     merged_entry_at merged (me_path e) = Some (me_oid e, me_mode e)"
  unfolding merged_entry_at_def by (intro map_of_is_SomeI) (auto simp: rev_map [symmetric] comp_def)

definition tree_holds :: "git_lib \<Rightarrow> wtree \<Rightarrow> string \<Rightarrow> oid \<Rightarrow> string \<Rightarrow> bool" where
  "tree_holds L t p i m \<longleftrightarrow> tuple_of L t p = (Some i, Some Blob, Some (modeNum m))"

lemma tree_holds_file: "tree_holds L t p i m \<Longrightarrow> \<exists>bs md. map_of t p = Some (File bs md)"
  by (auto simp: tree_holds_def tuple_of_node node_tuple_def split: option.splits node.splits)

text \<open>
  C28. As long as no path changes between file and directory: when the working tree holds the files of
  this side's commit and the transaction over the operations that the engine computes can start
  (\<open>startable\<close>: no operation's path lies below another's or below a file, so no file becomes a
  directory) and no path is a directory on this side and a file in the merged tree, then the
  uninterrupted transaction leaves the files of the merged tree, each with its content and mode, no
  file of the old tree that the merged one lacks, and the group reference at the new commit.  Both
  limits matter: a directory that becomes a file is lost (\<open>directory_to_file_is_lost\<close> below), a file
  that becomes a directory is written, but not recovered after a crash
  (\<open>file_to_directory_blocks_recovery\<close>).
\<close>

theorem merged_tree_is_materialised:
  assumes ops: "buildMaterializeOps E ours merged s = (Inr ops, s')"
    and spec: "spec = \<lparr>is_ref = GROUP_REF, is_target = target, is_oldRef = old, is_ops = ops\<rparr>"
    and start: "startable (ev_lib E) tx spec (si_world s')"
    and agree: "\<And>p f. map_of ours p = Some f \<Longrightarrow> fe_type f = Blob \<Longrightarrow>
      tree_holds (ev_lib E) (wt (si_world s)) p (fe_oid f) (fe_mode f)"
    and dist: "distinct (map me_path merged)"
    and files: "\<And>e f. e \<in> set merged \<Longrightarrow> map_of ours (me_path e) = Some f \<Longrightarrow> fe_type f = Blob"
  shows "\<exists>rec w'. executeIntent (\<lambda>_. False) tx spec (si_world s') = (Inr rec, w') \<and>
    (\<forall>e \<in> set merged. tree_holds (ev_lib E) (wt w') (me_path e) (me_oid e) (me_mode e)) \<and>
    (\<forall>p f. map_of ours p = Some f \<longrightarrow> fe_type f = Blob \<longrightarrow> p \<notin> me_path ` set merged \<longrightarrow> map_of (wt w') p = None) \<and>
    readRef (gd w') GROUP_REF = Some target"
proof -
  note b = buildMaterializeOps_ops [OF ops]
  from executeIntent_ok [OF start] obtain w' where
    w': "executeIntent (\<lambda>_. False) tx spec (si_world s') = (Inr (rec_of tx spec), w')"
      "committed (ev_lib E) spec (si_world s') w'" by blast
  have post: "tupleEquals (Some (tuple_of (ev_lib E) (wt w') (op_path op))) (op_post op)" if "op \<in> set ops" for op
    using w'(2) that by (auto simp: committed_def all_post_def spec list_all_iff)
  have written: "tree_holds (ev_lib E) (wt w') p i m"
    if "path_op ours merged p = Some (OpWrite, Some (Some i, Some Blob, Some (modeNum m)))" for p i m
  proof -
    have "p \<in> set (op_paths ops)" using b(2) that by simp
    then obtain op where op: "op \<in> set ops" "op_path op = p" by auto
    then have "op_post op = Some (Some i, Some Blob, Some (modeNum m))" using b(3) [OF op(1)] that by simp
    with post [OF op(1)] op(2) show ?thesis
      by (auto simp: tree_holds_def tupleEquals_iff normalizeTuple_def split: prod.splits if_splits)
  qed
  have gone: "map_of (wt w') p = None" if "path_op ours merged p = Some (OpDelete, None)" for p
  proof -
    have "p \<in> set (op_paths ops)" using b(2) that by simp
    then obtain op where op: "op \<in> set ops" "op_path op = p" by auto
    then have "op_post op = None" using b(3) [OF op(1)] that by simp
    with post [OF op(1)] op(2) show ?thesis
      by (auto simp: tupleEquals_iff normalizeTuple_def tuple_of_node node_tuple_def split: option.splits node.splits)
  qed
  have kept: "map_of (wt w') p = map_of (wt (si_world s)) p"
    if p: "path_op ours merged p = None" and isfile: "map_of (wt (si_world s)) p = Some (File bs md)" for p bs md
  proof -
    have "p \<notin> op_touched op" if op: "op \<in> set ops" for op
    proof
      assume "p \<in> op_touched op"
      moreover have "p \<noteq> op_path op" using b(2) [of p] p op by auto
      ultimately have "p \<in> set (dir_prefixes (op_path op))" by (auto simp: op_touched_def split: if_splits)
      moreover have "writable (wt (si_world s)) (op_path op)"
        using start op b(4) by (auto simp: startable_def safe_ops_def list_all_iff spec)
      ultimately show False using isfile by (auto simp: writable_def)
    qed
    then show ?thesis using w'(2) b(4) by (auto simp: committed_def untouched_def spec)
  qed
  have "tree_holds (ev_lib E) (wt w') (me_path e) (me_oid e) (me_mode e)" if e: "e \<in> set merged" for e
  proof (cases "path_op ours merged (me_path e)")
    case None
    with e files [OF e] obtain f where f: "map_of ours (me_path e) = Some f" "fe_type f = Blob"
      "fe_oid f = me_oid e" "fe_mode f = me_mode e"
      by (auto simp: path_op_def merged_lookup [OF dist e] split: option.splits if_splits)
    from agree [OF f(1,2)] have h: "tree_holds (ev_lib E) (wt (si_world s)) (me_path e) (me_oid e) (me_mode e)"
      by (simp add: f)
    from tree_holds_file [OF h] kept [OF None] h show ?thesis
      by (auto simp: tree_holds_def tuple_of_node)
  next
    case (Some k)
    with e files [OF e] have "k = (OpWrite, Some (Some (me_oid e), Some Blob, Some (modeNum (me_mode e))))"
      by (auto simp: path_op_def merged_lookup [OF dist e] split: option.splits if_splits)
    with written Some show ?thesis by blast
  qed
  moreover have "map_of (wt w') p = None"
    if "map_of ours p = Some f" "fe_type f = Blob" "p \<notin> me_path ` set merged" for p f
  proof -
    have "merged_entry_at merged p = None"
      using that(3) by (auto simp: merged_entry_at_def map_of_eq_None_iff image_iff)
    with that show ?thesis by (intro gone) (simp add: path_op_def)
  qed
  ultimately show ?thesis using w' by (auto simp: committed_def spec)
qed

text \<open>
  A path that is a directory on this side and a file in the merged tree gets no operation: the
  transaction ends with the group reference at the merged commit and without the file in the working
  tree, so that the next scan commits its deletion.
\<close>

theorem directory_to_file_is_lost:
  assumes ops: "buildMaterializeOps E ours merged s = (Inr ops, s')"
    and spec: "spec = \<lparr>is_ref = GROUP_REF, is_target = target, is_oldRef = old, is_ops = ops\<rparr>"
    and start: "startable (ev_lib E) tx spec (si_world s')"
    and e: "e \<in> set merged" "map_of ours (me_path e) = Some f" "fe_type f = Tree"
    and closed: "\<And>e'. e' \<in> set merged \<Longrightarrow> me_path e \<notin> set (dir_prefixes (me_path e'))"
    and dir: "map_of (wt (si_world s)) (me_path e) = Some Dir"
  shows "\<exists>rec w'. executeIntent (\<lambda>_. False) tx spec (si_world s') = (Inr rec, w') \<and>
    readRef (gd w') GROUP_REF = Some target \<and> map_of (wt w') (me_path e) = Some Dir"
proof -
  note b = buildMaterializeOps_ops [OF ops]
  from executeIntent_ok [OF start] obtain w' where
    w': "executeIntent (\<lambda>_. False) tx spec (si_world s') = (Inr (rec_of tx spec), w')"
      "committed (ev_lib E) spec (si_world s') w'" by blast
  have "me_path e \<notin> op_touched op" if op: "op \<in> set ops" for op
  proof
    assume "me_path e \<in> op_touched op"
    moreover have "me_path e \<noteq> op_path op" using b(2) [of "me_path e"] e op by (auto simp: path_op_def)
    ultimately have t: "op_kind op = OpWrite" "me_path e \<in> set (dir_prefixes (op_path op))"
      by (auto simp: op_touched_def split: if_splits)
    have "path_op ours merged (op_path op) = Some (OpWrite, op_post op)" using b(3) [OF op] t(1) by simp
    then obtain v where "merged_entry_at merged (op_path op) = Some v"
      by (auto simp: path_op_def split: option.splits if_splits)
    then have "op_path op \<in> me_path ` set merged" by (auto simp: merged_entry_at_def dest!: map_of_SomeD)
    with closed t(2) show False by auto
  qed
  then have "map_of (wt w') (me_path e) = Some Dir"
    using w'(2) b(4) dir by (auto simp: committed_def untouched_def spec)
  then show ?thesis using w' by (auto simp: committed_def spec)
qed

subsection \<open>The assumptions can hold\<close>

definition recording_env :: "peer_request list env" where
  "recording_env = \<lparr>ev_lib = naming_lib, ev_diff3 = (\<lambda>_ _ _. []), ev_drivers = [], ev_endpoint = ''0123abcd'', ev_device = ''laptop'',
     ev_now = int, ev_fresh = dec_str, ev_aborted = (\<lambda>_. False), ev_view = (\<lambda>_. view_of),
     ev_call = (\<lambda>p rq. (Some \<lparr>ps_status = 200, ps_body = None\<rparr>, p @ [rq]))\<rparr>"

theorem push_requests_fit_witness:
  "\<exists>rqs. snd (pushToPeer recording_env \<lparr>cx_group = ''g'', cx_root = ''r''\<rparr> (Some (JObj [])) [(GROUP_REF, ''f00d'')] (new_site [])) =
      new_site []\<lparr>si_peer := rqs\<rparr> \<and>
    list_all (push_of \<lparr>cx_group = ''g'', cx_root = ''r''\<rparr> (site_gd (new_site [] :: peer_request list site)) [(GROUP_REF, ''f00d'')]) rqs"
  using push_requests_fit [of recording_env "\<lambda>_ _. Some \<lparr>ps_status = 200, ps_body = None\<rparr>"
      "\<lparr>cx_group = ''g'', cx_root = ''r''\<rparr>" "Some (JObj [])" "[(GROUP_REF, ''f00d'')]" "new_site []"]
  by (simp add: recording_env_def new_site_def del: pushToPeer.simps)

text \<open>A file that changes, and a directory that becomes a file.\<close>

definition site_with :: "wtree \<Rightarrow> peer_request list site" where
  "site_with t = (new_site [])\<lparr>si_world := empty_world\<lparr>wt := t, gd :=
     \<lparr>objs = [(blob_name [2], (''blob'', [2]))], refs = []\<rparr>\<rparr>\<rparr>"

definition file_tree :: "string \<Rightarrow> flat_entry" where
  "file_tree i = \<lparr>fe_oid = i, fe_mode = ''100644'', fe_type = Blob\<rparr>"

definition merged_file :: "string \<Rightarrow> merged_entry" where
  "merged_file p = \<lparr>me_path = p, me_oid = blob_name [2], me_mode = ''100644''\<rparr>"

lemma other_blob: "blob_name [1] \<noteq> blob_name [2]"
  by (simp add: blob_name_def objectOid_def naming_lib_def wrap_object_def)

theorem merged_tree_is_materialised_witness:
  "\<exists>ops s' rec w'. buildMaterializeOps recording_env [(''a'', file_tree (blob_name [1]))] [merged_file ''a'']
      (site_with [(''a'', File [1] 420)]) = (Inr ops, s') \<and>
    executeIntent (\<lambda>_. False) ''t'' \<lparr>is_ref = GROUP_REF, is_target = ''new'', is_oldRef = None, is_ops = ops\<rparr>
      (si_world s') = (Inr rec, w') \<and>
    tree_holds (ev_lib recording_env) (wt w') ''a'' (blob_name [2]) ''100644''"
proof -
  let ?ours = "[(''a'', file_tree (blob_name [1]))]" and ?merged = "[merged_file ''a'']"
  let ?s = "site_with [(''a'', File [1] 420)]"
  obtain ops s' where b: "buildMaterializeOps recording_env ?ours ?merged ?s = (Inr ops, s')"
    by (rule buildMaterializeOps_returns)
  let ?spec = "\<lparr>is_ref = GROUP_REF, is_target = ''new'', is_oldRef = None, is_ops = ops\<rparr>"
  have start: "startable (ev_lib recording_env) ''t'' ?spec (si_world s')"
    using b other_blob
    by (auto simp: buildMaterializeOps_def op_paths_of_def akeys_def merged_file_def uniq_def path_op_def
      merged_entry_at_def file_tree_def pathStateTuple_def site_with_def empty_world_def writeBlob_def
      writeObject_def Let_def importLooseObjectAtomic_def hasObject_def readObject_def site_gd_def set_gd_def new_site_def
      recording_env_def startable_def safe_ops_def op_ok_def modeNum_def blob_name_def [symmetric] blob_names
      writable_def js_simps tmp_path_def readPendingIntent_def readRef_def isAllowedRef_def normalizeTuple_def)
  have "tree_holds (ev_lib recording_env) (wt (si_world ?s)) p (fe_oid f) (fe_mode f)"
    if "map_of ?ours p = Some f" for p f
    using that by (auto simp: site_with_def tree_holds_def tuple_of_node node_tuple_def recording_env_def blob_names
      modeNum_def node_mode_420 file_tree_def split: if_splits)
  moreover have "fe_type f = Blob" if "map_of ?ours p = Some f" for p f
    using that by (auto simp: file_tree_def split: if_splits)
  ultimately obtain rec w' where
    "executeIntent (\<lambda>_. False) ''t'' ?spec (si_world s') = (Inr rec, w')"
    "\<forall>e \<in> set ?merged. tree_holds (ev_lib recording_env) (wt w') (me_path e) (me_oid e) (me_mode e)"
    using merged_tree_is_materialised [OF b refl start] by fastforce
  with b show ?thesis by (intro exI conjI) (assumption | simp add: merged_file_def)+
qed

theorem directory_to_file_is_lost_witness:
  "\<exists>ops s' rec w'. buildMaterializeOps recording_env
      [(''d'', \<lparr>fe_oid = ''t'', fe_mode = ''040000'', fe_type = Tree\<rparr>), (''d/x'', file_tree (blob_name [1]))]
      [merged_file ''d''] (site_with [(''d'', Dir), (''d/x'', File [1] 420)]) = (Inr ops, s') \<and>
    executeIntent (\<lambda>_. False) ''t'' \<lparr>is_ref = GROUP_REF, is_target = ''new'', is_oldRef = None, is_ops = ops\<rparr>
      (si_world s') = (Inr rec, w') \<and> map_of (wt w') ''d'' = Some Dir"
proof -
  let ?ours = "[(''d'', \<lparr>fe_oid = ''t'', fe_mode = ''040000'', fe_type = Tree\<rparr>), (''d/x'', file_tree (blob_name [1]))]"
  let ?merged = "[merged_file ''d'']" and ?s = "site_with [(''d'', Dir), (''d/x'', File [1] 420)]"
  obtain ops s' where b: "buildMaterializeOps recording_env ?ours ?merged ?s = (Inr ops, s')"
    by (rule buildMaterializeOps_returns)
  let ?spec = "\<lparr>is_ref = GROUP_REF, is_target = ''new'', is_oldRef = None, is_ops = ops\<rparr>"
  have start: "startable (ev_lib recording_env) ''t'' ?spec (si_world s')"
    using b other_blob
    by (auto simp: buildMaterializeOps_def op_paths_of_def akeys_def merged_file_def uniq_def path_op_def
      merged_entry_at_def file_tree_def pathStateTuple_def site_with_def empty_world_def writeBlob_def
      writeObject_def Let_def importLooseObjectAtomic_def hasObject_def readObject_def site_gd_def set_gd_def new_site_def
      recording_env_def startable_def safe_ops_def op_ok_def modeNum_def blob_name_def [symmetric] blob_names
      writable_def js_simps tmp_path_def readPendingIntent_def readRef_def isAllowedRef_def normalizeTuple_def)
  have "\<exists>rec w'. executeIntent (\<lambda>_. False) ''t'' ?spec (si_world s') = (Inr rec, w') \<and>
    readRef (gd w') GROUP_REF = Some ''new'' \<and> map_of (wt w') (me_path (merged_file ''d'')) = Some Dir"
    by (rule directory_to_file_is_lost [OF b refl start, of _ "\<lparr>fe_oid = ''t'', fe_mode = ''040000'', fe_type = Tree\<rparr>"])
      (auto simp: merged_file_def site_with_def js_simps)
  with b show ?thesis by (auto simp: merged_file_def)
qed

end
