(* ===== verification/Capture.thy ===== *)
theory Capture
  imports Publish
begin

text \<open>
  What a local commit holds: the scan and the nested trees put together (opendweb-ext-sync,
  engine.mjs, worktree.mjs and objects.mjs).
\<close>

subsection \<open>Stores that grow\<close>

lemma flat_walk_grows:
  assumes "flat_walk L g todo out = Some r" and "grows g g'" and "r = Inr flat"
  shows "flat_walk L g' todo out = Some (Inr flat)"
  using assms
proof (induct rule: flat_walk.raw_induct [rotated, consumes 1, case_names step])
  case (step loop L g todo out r)
  show ?case
  proof (cases todo)
    case Nil
    with step(2,4) show ?thesis by (simp add: flat_walk_Nil)
  next
    case (Cons pe rest)
    obtain pre e where pe: "pe = (pre, e)" by force
    show ?thesis
    proof (cases "te_type e")
      case Blob
      with Cons pe step(1) [OF _ step(3,4)] step(2) show ?thesis by (simp add: Let_def flat_walk_Blob)
    next
      case Tree
      show ?thesis
      proof (cases "read_tree L g (te_oid e)")
        case (Inl e')
        with Cons pe Tree step(2,4) show ?thesis by (simp add: Let_def)
      next
        case (Inr es)
        with Cons pe Tree step(1) [OF _ step(3,4)] step(2) read_tree_grows [OF step(3) Inr] show ?thesis
          by (simp add: Let_def flat_walk_Tree)
      qed
    qed
  qed
qed

lemma readFlatTree_grows:
  assumes "readFlatTree L g i = Some (Inr flat)" and "grows g g'"
  shows "readFlatTree L g' i = Some (Inr flat)"
proof -
  from assms(1) obtain es where es: "read_tree L g i = Inr es"
    "flat_walk L g (map (Pair '''') es) [] = Some (Inr flat)"
    by (auto simp: readFlatTree_def split: sum.splits)
  from flat_walk_grows [OF es(2) assms(2) refl] read_tree_grows [OF assms(2) es(1)] show ?thesis
    by (simp add: readFlatTree_def)
qed

text \<open>A scan only stores blobs.\<close>

definition blobs_added :: "git_lib \<Rightarrow> gitdir \<Rightarrow> gitdir \<Rightarrow> bool" where
  "blobs_added L g g' \<longleftrightarrow> refs g' = refs g \<and> grows g g' \<and> (typed L g \<longrightarrow> typed L g')"

lemma blobs_added_refl: "blobs_added L g g"
  by (simp add: blobs_added_def)

lemma blobs_added_trans: "blobs_added L a b \<Longrightarrow> blobs_added L b c \<Longrightarrow> blobs_added L a c"
  unfolding blobs_added_def by (auto intro: grows_trans)

lemma grows_import: "grows g (importLooseObjectAtomic g ty bs i)"
  unfolding grows_def using import_keeps by blast

lemma blobs_added_write: "blobs_added L g (snd (writeBlob L g bs))"
  by (auto simp: blobs_added_def writeBlob_def writeObject_def Let_def refs_import grows_import
      dest: import_typed [of L g "''blob''" bs])

lemma turn_blobs:
  "case scan_turn L V mb s of Inl (e, g) \<Rightarrow> blobs_added L (ss_gd s) g | Inr s' \<Rightarrow> blobs_added L (ss_gd s) (ss_gd s')"
proof -
  have w': "blobs_added L g g'" if "writeBlob L g bs = (i, g')" for g g' bs i
    using blobs_added_write [of L g bs] that by simp
  show ?thesis
  proof (cases "hd (ss_todo s)")
    case (VisitDir rel)
    then show ?thesis by (cases "list_dir rel (dir_view V rel)") (simp_all add: scan_turn_def Let_def blobs_added_refl)
  next
    case (VisitEntry p k)
    show ?thesis
    proof (cases "k = KFile")
      case True
      show ?thesis
      proof (cases "readRegularFileAnchored p mb (file_view V p)")
        case (Inl e)
        with True VisitEntry show ?thesis by (simp add: scan_turn_def Let_def blobs_added_refl)
      next
        case (Inr r)
        with True VisitEntry show ?thesis
          by (cases r) (auto simp: scan_turn_def Let_def blobs_added_refl split: prod.splits dest: w')
      qed
    qed (use VisitEntry in \<open>cases k; simp add: scan_turn_def Let_def blobs_added_refl\<close>)
  qed
qed

lemma loop_blobs:
  assumes "scan_loop L V mb s = Some r"
  shows "case r of Inl (e, g) \<Rightarrow> blobs_added L (ss_gd s) g | Inr s' \<Rightarrow> blobs_added L (ss_gd s) (ss_gd s')"
  using assms
proof (induct L V mb s r rule: scan_loop.raw_induct [rotated, consumes 1, case_names step])
  case (step loop L V mb s r)
  show ?case
  proof (cases "ss_todo s = []")
    case True
    with step(2) show ?thesis by (auto simp: blobs_added_refl)
  next
    case False
    show ?thesis
    proof (cases "scan_turn L V mb s")
      case (Inl e)
      with False step(2) turn_blobs [of L s V mb] show ?thesis by auto
    next
      case (Inr s1)
      then have 1: "blobs_added L (ss_gd s) (ss_gd s1)" using turn_blobs [of L s V mb] by simp
      have "case r of Inl (e, g) \<Rightarrow> blobs_added L (ss_gd s1) g | Inr s' \<Rightarrow> blobs_added L (ss_gd s1) (ss_gd s')"
        using False Inr step(2) by (intro step(1)) simp
      then show ?thesis by (auto split: sum.splits prod.splits intro: blobs_added_trans [OF 1])
    qed
  qed
qed

lemma scan_blobs:
  assumes "scanWorktree L V mb g = Some (r, g')"
  shows "blobs_added L g g'"
proof -
  let ?s0 = "\<lparr>ss_todo = [VisitDir []], ss_gd = g, ss_out = []\<rparr>"
  from assms obtain z where z: "scan_loop L V mb ?s0 = Some z"
    by (cases "scan_loop L V mb ?s0") (simp_all add: scanWorktree_def)
  with assms loop_blobs [OF z] show ?thesis
    by (cases z) (auto simp: scanWorktree_def)
qed

lemma writeTree_stores:
  assumes "tree_codec L" and "collision_free L" and "typed L g" and "writeTreeFromFlat L g es = (i, g')"
  shows "typed L g' \<and> grows g g' \<and> refs g' = refs g"
proof -
  obtain top g1 where b: "build_kids L (sort_key fst (kids (nest es))) g = (top, g1)" by force
  with assms(4) have w: "writeObject L g1 ''tree'' (enc_tree L top) = (i, g')" by (simp add: writeTreeFromFlat_def)
  from build_kids_stored [OF assms(1-3) b] have 1: "typed L g1" "grows g g1" by auto
  have r: "refs (snd (build_kids L ks g)) = refs g" for ks g
  proof (induction L ks g rule: build_kids.induct)
    case (2 L nm c cs g)
    then show ?case by (auto simp: writeObject_def Let_def refs_import split: prod.splits)
  qed simp
  have "refs g1 = refs g" using r [of "sort_key fst (kids (nest es))" g] b by simp
  moreover have "refs g' = refs g1" using w by (auto simp: writeObject_def Let_def refs_import)
  ultimately show ?thesis
    using writeObject_stores [OF 1(1) assms(2) _ w] 1(2) by (auto intro: grows_trans)
qed

subsection \<open>The files of a scan as a tree\<close>

text \<open>What a tree object of the scanned files holds: the visible files and the directories above them.\<close>

definition captured :: "git_lib \<Rightarrow> wtree \<Rightarrow> string \<Rightarrow> (string \<times> oid) option option" where
  "captured L t p =
     (if visible t p then
        (case map_of t p of
           Some (File bs md) \<Rightarrow> Some (Some (mode_str (node_mode md), objectOid L ''blob'' bs))
         | _ \<Rightarrow> None)
      else if list_ex (\<lambda>q. visible t q \<and> p \<in> set (dir_prefixes q)) (akeys t) then Some None else None)"

lemma visible_file: "visible t p \<Longrightarrow> \<exists>bs md. map_of t p = Some (File bs md)"
  by (auto simp: visible_below_def split: option.splits node.splits)

lemma visible_parent:
  assumes "wt_ok t" and "visible t p" and "q \<in> set (dir_prefixes p)"
  shows "map_of t q = Some Dir"
proof (cases "q = []")
  case True
  with assms(3) obtain r where p: "p = CHR ''/'' # r" by (auto simp: in_dir_prefixes)
  obtain bs md where "map_of t p = Some (File bs md)" using visible_file [OF assms(2)] by blast
  then have "p \<in> set (akeys t)" by (auto simp: akeys_def dest!: map_of_SomeD intro: rev_image_eqI)
  with assms(1) have "[] \<notin> set (split_on CHR ''/'' p)" by (auto simp: wt_ok_def list_all_iff)
  with p show ?thesis by simp
next
  case False
  with assms(2,3) show ?thesis by (auto simp: visible_below_def list_all_iff)
qed

lemma scanned_tree:
  assumes wt: "wt_ok t"
    and d: "distinct (map f_path fs)"
    and f: "set fs = {\<lparr>f_path = p, f_oid = objectOid L ''blob'' bs, f_mode = mode_str (node_mode md)\<rparr> | p bs md.
         visible t p \<and> map_of t p = Some (File bs md)}"
  shows "closed_files fs"
    and "(case find_first (\<lambda>e. f_path e = p) fs of
         Some e \<Rightarrow> Some (Some (f_mode e, f_oid e))
       | None \<Rightarrow> if list_ex (\<lambda>e. p \<in> set (dir_prefixes (f_path e))) fs then Some None else None) = captured L t p"
proof -
  have vis: "e \<in> set fs \<Longrightarrow> visible t (f_path e)" for e using f by auto
  have inkeys: "visible t p \<Longrightarrow> p \<in> set (akeys t)" for p
    using visible_file [of t p] by (auto simp: akeys_def dest!: map_of_SomeD intro: rev_image_eqI)
  have names: "list_all name_ok (split_on CHR ''/'' p)" if "visible t p" for p
  proof -
    have "[] \<notin> set (split_on CHR ''/'' p)" using wt inkeys [OF that] by (auto simp: wt_ok_def list_all_iff)
    then show ?thesis using split_parts_free by (force simp: list_all_iff name_ok_def)
  qed
  have "f_path e \<notin> set (dir_prefixes (f_path e'))" if "e \<in> set fs" "e' \<in> set fs" for e e'
  proof
    assume "f_path e \<in> set (dir_prefixes (f_path e'))"
    with visible_parent [OF wt vis [OF that(2)]] have "map_of t (f_path e) = Some Dir" .
    with visible_file [OF vis [OF that(1)]] show False by simp
  qed
  with d vis names show "closed_files fs" by (auto simp: closed_files_def list_all_iff)
  show "(case find_first (\<lambda>e. f_path e = p) fs of
         Some e \<Rightarrow> Some (Some (f_mode e, f_oid e))
       | None \<Rightarrow> if list_ex (\<lambda>e. p \<in> set (dir_prefixes (f_path e))) fs then Some None else None) = captured L t p"
  proof (cases "find_first (\<lambda>e. f_path e = p) fs")
    case (Some e)
    then have "e \<in> set fs" "f_path e = p" using find_first_SomeD by force+
    with f Some show ?thesis by (auto simp: captured_def)
  next
    case None
    have nv: "\<not> visible t p"
    proof
      assume v: "visible t p"
      then obtain bs md where "map_of t p = Some (File bs md)" using visible_file by blast
      with v f have "\<lparr>f_path = p, f_oid = objectOid L ''blob'' bs, f_mode = mode_str (node_mode md)\<rparr> \<in> set fs" by blast
      with None show False by auto
    qed
    have "list_ex (\<lambda>e. p \<in> set (dir_prefixes (f_path e))) fs =
        list_ex (\<lambda>q. visible t q \<and> p \<in> set (dir_prefixes q)) (akeys t)"
    proof
      assume "list_ex (\<lambda>e. p \<in> set (dir_prefixes (f_path e))) fs"
      then show "list_ex (\<lambda>q. visible t q \<and> p \<in> set (dir_prefixes q)) (akeys t)"
        using vis inkeys by (auto simp: list_ex_iff)
    next
      assume "list_ex (\<lambda>q. visible t q \<and> p \<in> set (dir_prefixes q)) (akeys t)"
      then obtain q where q: "visible t q" "p \<in> set (dir_prefixes q)" by (auto simp: list_ex_iff)
      then obtain bs md where "map_of t q = Some (File bs md)" using visible_file by blast
      with q f have "\<lparr>f_path = q, f_oid = objectOid L ''blob'' bs, f_mode = mode_str (node_mode md)\<rparr> \<in> set fs" by blast
      with q(2) show "list_ex (\<lambda>e. p \<in> set (dir_prefixes (f_path e))) fs" by (force simp: list_ex_iff)
    qed
    with nv show ?thesis unfolding None by (simp add: captured_def)
  qed
qed

subsection \<open>The local commit\<close>

text \<open>Decoding a commit object gives back its tree and its parents.\<close>

definition commit_codec :: "git_lib \<Rightarrow> bool" where
  "commit_codec L \<longleftrightarrow> (\<forall>c. \<exists>c'. dec_commit L (enc_commit L c) = Some c' \<and> c_tree c' = c_tree c \<and> c_parent c' = c_parent c)"

lemma writeCommit_stores:
  assumes "collision_free L" and "commit_codec L" and "typed L g" and "writeCommitOid L g c = (i, g')"
  shows "typed L g' \<and> grows g g' \<and> refs g' = refs g \<and>
    (\<exists>c'. readCommitParsed L g' i = Some c' \<and> c_tree c' = c_tree c \<and> c_parent c' = c_parent c)"
proof -
  let ?c = "c\<lparr>c_timestamp := c_timestamp c div 1000\<rparr>"
  have w: "writeObject L g ''commit'' (enc_commit L ?c) = (i, g')" using assms(4) by (simp add: writeCommitOid_def)
  obtain c' where "dec_commit L (enc_commit L ?c) = Some c'" "c_tree c' = c_tree ?c" "c_parent c' = c_parent ?c"
    using assms(2) unfolding commit_codec_def by blast
  moreover have "refs g' = refs g" using w by (auto simp: writeObject_def Let_def refs_import)
  ultimately show ?thesis using writeObject_stores [OF assms(3,1) _ w] by (simp add: readCommitParsed_def)
qed

lemma set_gd_ticks [simp]: "site_gd (s\<lparr>si_ticks := n\<rparr>) = site_gd s" "site_gd (set_gd g s\<lparr>si_ticks := n\<rparr>) = g"
  "wt (si_world (set_gd g s)) = wt (si_world s)"
  by (simp_all add: site_gd_def set_gd_def)

text \<open>
  C26. A local commit captures the working tree: when the tree holds still and its visible files fit
  the limit, the call returns, the device reference stands at a commit whose tree, read back from the
  store, holds exactly the visible files with their content and mode, and a new commit has the old
  position of the reference as its only parent.
\<close>

theorem commit_captures_tree:
  assumes L: "tree_codec (ev_lib E)" "collision_free (ev_lib E)" "commit_codec (ev_lib E)"
    and still: "ev_view E (si_ticks s) (wt (si_world s)) = view_of (wt (si_world s))"
    and tree: "wt_ok (wt (si_world s))" "fits (wt (si_world s)) MAX_OBJECT_BYTES"
    and typed: "typed (ev_lib E) (site_gd s)"
    and dev: "deviceRef (ev_endpoint E) = Inr dev"
    and head: "\<And>h. readRef (site_gd s) dev = Some h \<Longrightarrow> readCommitParsed (ev_lib E) (site_gd s) h \<noteq> None"
  shows "\<exists>lc s' h c flat. commitLocal E s = Some (Inr lc, s') \<and> lc_head lc = Some h \<and>
    readRef (site_gd s') = (readRef (site_gd s))(dev \<mapsto> h) \<and>
    readCommitParsed (ev_lib E) (site_gd s') h = Some c \<and>
    readFlatTree (ev_lib E) (site_gd s') (c_tree c) = Some (Inr flat) \<and>
    kinds flat = captured (ev_lib E) (wt (si_world s)) \<and>
    (lc_changed lc \<longrightarrow> c_parent c = (case readRef (site_gd s) dev of None \<Rightarrow> [] | Some h \<Rightarrow> [h])) \<and>
    wt (si_world s') = wt (si_world s)"
proof -
  let ?L = "ev_lib E" and ?t = "wt (si_world s)" and ?g = "site_gd s"
  let ?head = "readRef ?g dev"
  obtain es g1 where sc: "scanWorktree ?L (view_of ?t) (Some MAX_OBJECT_BYTES) ?g = Some (Inr es, g1)"
      "distinct (map f_path (scanToFlatEntries es))"
      "set (scanToFlatEntries es) = {\<lparr>f_path = p, f_oid = objectOid ?L ''blob'' bs, f_mode = mode_str (node_mode md)\<rparr> | p bs md.
         visible ?t p \<and> map_of ?t p = Some (File bs md)}"
    using scan_exact' [OF tree] by blast
  let ?fs = "scanToFlatEntries es"
  note b = scan_blobs [OF sc(1)]
  then have g1: "typed ?L g1" "refs g1 = refs ?g" "grows ?g g1" using typed by (auto simp: blobs_added_def)
  obtain t g2 where wr: "writeTreeFromFlat ?L g1 ?fs = (t, g2)" by force
  from writeTree_stores [OF L(1,2) g1(1) wr] have g2: "typed ?L g2" "refs g2 = refs g1" "grows g1 g2" by auto
  note st = scanned_tree [OF tree(1) sc(2,3)]
  obtain flat where flat: "readFlatTree ?L g2 t = Some (Inr flat)" "kinds flat = captured ?L ?t"
    using flat_tree_round_trip' [OF L(1,2) g1(1) st(1)] wr st(2) by (auto simp: fun_eq_iff)
  let ?s1 = "(set_gd g1 s)\<lparr>si_ticks := Suc (si_ticks s)\<rparr>"
  have scan: "scan_site E (Some MAX_OBJECT_BYTES) s = Some (Inr es, ?s1)"
    by (simp add: scan_site_def still sc(1))
  have run: "commitLocal E s = Some (commit_entries E dev ?head es ?s1)"
    by (simp add: commitLocal_def obind_ol dev read_gd_def) (simp add: obind_def scan ol_def)
  have ht: "\<exists>ht. head_tree ?L ?head ?s1 = (Inr ht, ?s1) \<and>
      (case ?head of None \<Rightarrow> ht = None | Some h \<Rightarrow> \<exists>c. readCommitParsed ?L g1 h = Some c \<and> ht = Some (c_tree c))"
  proof (cases ?head)
    case (Some h)
    with head obtain c where "readCommitParsed ?L ?g h = Some c" by blast
    then have "readCommitParsed ?L g1 h = Some c" using g1(3)
      by (auto simp: readCommitParsed_def grows_def split: option.splits if_splits)
    with Some show ?thesis by (simp add: head_tree_def ebind_def read_gd_def commit_tree_def)
  qed (simp add: head_tree_def)
  then obtain ht where ht: "head_tree ?L ?head ?s1 = (Inr ht, ?s1)"
      "case ?head of None \<Rightarrow> ht = None | Some h \<Rightarrow> \<exists>c. readCommitParsed ?L g1 h = Some c \<and> ht = Some (c_tree c)" by blast
  let ?s2 = "set_gd g2 ?s1"
  show ?thesis
  proof (cases "Some t = ht")
    case True
    with ht(2) obtain h c where h: "?head = Some h" "readCommitParsed ?L g1 h = Some c" "c_tree c = t"
      by (cases ?head) auto
    have "commit_entries E dev ?head es ?s1 = (Inr \<lparr>lc_head = ?head, lc_tree = t, lc_changed = False\<rparr>, ?s2)"
      unfolding commit_entries_def ebind_simps(2) [of "head_tree ?L ?head", OF ht(1)]
      using True by (simp add: ebind_def on_gd_def wr)
    moreover have "readRef g2 = (readRef ?g)(dev \<mapsto> h)"
      using h(1) g1(2) g2(2) by (auto simp: readRef_def fun_eq_iff)
    moreover have "readCommitParsed ?L g2 h = Some c" using h(2) g2(3)
      by (auto simp: readCommitParsed_def grows_def split: option.splits if_splits)
    ultimately show ?thesis using run flat h by auto
  next
    case False
    let ?msg = "''sync: local changes on '' @ ev_device E @ '' ('' @ endpointAbbrev (ev_endpoint E) @ '')''"
    let ?ps = "case ?head of None \<Rightarrow> [] | Some h \<Rightarrow> [h]"
    let ?c = "\<lparr>c_message = ?msg, c_tree = t, c_parent = ?ps,
          c_authorName = endpointAbbrev (ev_endpoint E) @ '' '' @ ev_device E,
          c_authorEmail = endpointAbbrev (ev_endpoint E) @ ''@device.sync'', c_timestamp = ev_now E (Suc (si_ticks s))\<rparr>"
    obtain i g3 where wc: "writeCommitOid ?L g2 ?c = (i, g3)" by force
    from writeCommit_stores [OF L(2,3) g2(1) wc] obtain c where
      g3: "typed ?L g3" "grows g2 g3" "refs g3 = refs g2"
        and c: "readCommitParsed ?L g3 i = Some c" "c_tree c = t" "c_parent c = ?ps" by auto
    obtain g4 where g4: "writeRef g3 dev i = Inr g4" using deviceRef_allowed [OF dev] by (simp add: writeRef_def)
    have r4: "readRef g4 = (readRef ?g)(dev \<mapsto> i)"
      using readRef_writeRef [OF g4] g1(2) g2(2) g3(3) by (auto simp: readRef_def fun_eq_iff)
    have o4: "readObject g4 = readObject g3" using objs_writeRef [OF g4] by (simp add: readObject_def fun_eq_iff)
    let ?s3 = "set_gd g3 (?s2\<lparr>si_ticks := Suc (si_ticks ?s2)\<rparr>)"
    have nc: "new_commit E ?msg t ?ps ?s2 = (Inr i, ?s3)"
      using wc by (simp add: new_commit_def ebind_def tick_def on_gd_def)
    have cur: "readRef g3 dev = ?head" using g1(2) g2(2) g3(3) by (simp add: readRef_def)
    have "commit_entries E dev ?head es ?s1 = (Inr \<lparr>lc_head = Some i, lc_tree = t, lc_changed = True\<rparr>, set_gd g4 ?s3)"
      unfolding commit_entries_def ebind_simps(2) [of "head_tree ?L ?head", OF ht(1)]
      using False nc cur g4 by (simp add: ebind_def on_gd_def wr read_gd_def write_ref_def)
    moreover have "readFlatTree ?L g4 t = Some (Inr flat)"
      by (rule readFlatTree_grows [OF flat(1)]) (use g3(2) o4 in \<open>simp add: grows_def\<close>)
    moreover have "readCommitParsed ?L g4 i = Some c" using c(1) o4 by (simp add: readCommitParsed_def)
    ultimately show ?thesis using run flat c r4 by auto
  qed
qed

subsection \<open>The assumptions can hold\<close>

fun dec_fields :: "nat \<Rightarrow> bytes \<Rightarrow> string list option" where
  "dec_fields n [] = Some []"
| "dec_fields 0 (b # bs) = None"
| "dec_fields (Suc n) (b # bs) =
     (case dec_field (b # bs) of None \<Rightarrow> None | Some (s, r) \<Rightarrow> map_option (Cons s) (dec_fields n r))"

definition commit_of :: "string list option \<Rightarrow> commit option" where
  "commit_of ss =
     (case ss of
        Some (m # t # n # e # ps) \<Rightarrow>
          Some \<lparr>c_message = m, c_tree = t, c_parent = ps, c_authorName = n, c_authorEmail = e, c_timestamp = 0\<rparr>
      | _ \<Rightarrow> None)"

definition full_lib :: git_lib where
  "full_lib = plain_lib
     \<lparr>enc_commit := (\<lambda>c. concat (map enc_field
        (c_message c # c_tree c # c_authorName c # c_authorEmail c # c_parent c))),
      dec_commit := (\<lambda>bs. commit_of (dec_fields (length bs) bs))\<rparr>"

lemma enc_field_not_Nil: "\<exists>b bs. enc_field s @ r = b # bs"
  by (cases s) (simp_all add: enc_field_def)

lemma enc_fields_length: "length ss \<le> length (concat (map enc_field ss))"
proof (induction ss)
  case (Cons s ss)
  then show ?case using enc_field_not_Nil [of s "[]"] by auto
qed simp

lemma dec_enc_fields: "length ss \<le> n \<Longrightarrow> dec_fields n (concat (map enc_field ss)) = Some ss"
proof (induction ss arbitrary: n)
  case (Cons s ss)
  then obtain m where n: "n = Suc m" "length ss \<le> m" by (cases n) auto
  obtain b bs where b: "enc_field s @ concat (map enc_field ss) = b # bs" using enc_field_not_Nil by blast
  with dec_enc_field [of s "concat (map enc_field ss)"] Cons.IH [OF n(2)] show ?case by (simp add: n(1))
qed simp

lemma full_codecs: "tree_codec full_lib" "collision_free full_lib" "commit_codec full_lib"
proof -
  show "tree_codec full_lib" using plain_codec by (simp add: tree_codec_def full_lib_def)
  have "objectOid full_lib = objectOid plain_lib" by (simp add: objectOid_def full_lib_def fun_eq_iff)
  with plain_collision_free show "collision_free full_lib" by (simp add: collision_free_def)
  show "commit_codec full_lib"
    unfolding commit_codec_def
  proof
    fix c :: commit
    let ?ss = "c_message c # c_tree c # c_authorName c # c_authorEmail c # c_parent c"
    have e: "enc_commit full_lib c = concat (map enc_field ?ss)" by (simp add: full_lib_def)
    have "dec_commit full_lib (enc_commit full_lib c) =
        Some \<lparr>c_message = c_message c, c_tree = c_tree c, c_parent = c_parent c, c_authorName = c_authorName c,
          c_authorEmail = c_authorEmail c, c_timestamp = 0\<rparr>"
      unfolding e using dec_enc_fields [OF enc_fields_length [of ?ss]]
      by (simp add: full_lib_def commit_of_def del: concat.simps list.map)
    then show "\<exists>c'. dec_commit full_lib (enc_commit full_lib c) = Some c' \<and> c_tree c' = c_tree c \<and> c_parent c' = c_parent c"
      by simp
  qed
qed

text \<open>A peer that accepts everything and keeps what it was sent.\<close>

definition full_env :: "peer_request list env" where
  "full_env = \<lparr>ev_lib = full_lib, ev_diff3 = (\<lambda>_ _ _. []), ev_drivers = [], ev_endpoint = ''0123abcd'', ev_device = ''laptop'',
     ev_now = int, ev_fresh = dec_str, ev_aborted = (\<lambda>_. False), ev_view = (\<lambda>_. view_of),
     ev_call = (\<lambda>p rq. (Some \<lparr>ps_status = 200, ps_body = None\<rparr>, p @ [rq]))\<rparr>"

definition small_site :: "peer_request list site" where
  "small_site = (new_site [])\<lparr>si_world := empty_world\<lparr>wt := demo_tree\<rparr>\<rparr>"

lemma fits_mono: "fits t m \<Longrightarrow> m \<le> n \<Longrightarrow> fits t n"
  by (force simp: fits_def list_all_iff split: node.splits)

theorem commit_captures_tree_witness:
  "\<exists>lc s' h c flat. commitLocal full_env small_site = Some (Inr lc, s') \<and> lc_head lc = Some h \<and>
    readRef (site_gd s') = (readRef (site_gd small_site))(''refs/devices/0123abcd/main'' \<mapsto> h) \<and>
    readCommitParsed (ev_lib full_env) (site_gd s') h = Some c \<and>
    readFlatTree (ev_lib full_env) (site_gd s') (c_tree c) = Some (Inr flat) \<and>
    kinds flat = captured (ev_lib full_env) (wt (si_world small_site)) \<and>
    (lc_changed lc \<longrightarrow> c_parent c = (case readRef (site_gd small_site) ''refs/devices/0123abcd/main'' of None \<Rightarrow> [] | Some h \<Rightarrow> [h])) \<and>
    wt (si_world s') = wt (si_world small_site)"
proof (rule commit_captures_tree)
  show "tree_codec (ev_lib full_env)" "collision_free (ev_lib full_env)" "commit_codec (ev_lib full_env)"
    using full_codecs by (simp_all add: full_env_def)
  show "ev_view full_env (si_ticks small_site) (wt (si_world small_site)) = view_of (wt (si_world small_site))"
    by (simp add: full_env_def)
  show "wt_ok (wt (si_world small_site))" using demo_tree_ok by (simp add: small_site_def)
  show "fits (wt (si_world small_site)) MAX_OBJECT_BYTES"
    using demo_tree_ok fits_mono [of demo_tree 10 MAX_OBJECT_BYTES] by (simp add: small_site_def MAX_OBJECT_BYTES_def)
  show "typed (ev_lib full_env) (site_gd small_site)"
    by (simp add: small_site_def site_gd_def empty_world_def typed_def self_named_def readObject_def empty_gitdir_def)
  show "deviceRef (ev_endpoint full_env) = Inr ''refs/devices/0123abcd/main''"
    by (simp add: full_env_def deviceRef_def hex_between_def is_hex_def is_digit_def)
  show "readCommitParsed (ev_lib full_env) (site_gd small_site) h \<noteq> None"
    if "readRef (site_gd small_site) ''refs/devices/0123abcd/main'' = Some h" for h
    using that by (simp add: small_site_def site_gd_def empty_world_def readRef_def empty_gitdir_def)
qed

end
