(* ===== verification/Rounds.thy ===== *)
theory Rounds
  imports Publish
begin

text \<open>
  The synchronisation rounds of a root (opendweb-ext-sync, engine.mjs): the first pull, the two-way
  and the one-way round, conflict sessions and their resolution, the blocked first pull and its
  resolution, recovery, and the entry point that runs a round and reports its job.
\<close>

subsection \<open>Pieces\<close>

text \<open>The signal is polled with \<^verbatim>\<open>opts.signal?.aborted\<close>.\<close>

definition check_abort :: "'p env \<Rightarrow> ('p site, err, unit) eff" where
  "check_abort E = ebind (tick (ev_aborted E)) (\<lambda>ab. if ab then throw (Code ''aborted'') else ret ())"

definition run_intent :: "'p env \<Rightarrow> intent_spec \<Rightarrow> ('p site, err, unit) eff" where
  "run_intent E spec =
     ebind (tick (ev_fresh E)) (\<lambda>tx s.
       (let (r, w) = executeIntent (\<lambda>_. False) tx spec (si_world s)
        in (case r of Inl e \<Rightarrow> Inl e | Inr _ \<Rightarrow> Inr (), s\<lparr>si_world := w\<rparr>)))"

definition group_intent :: "'p env \<Rightarrow> oid \<Rightarrow> oid option \<Rightarrow> intent_op list \<Rightarrow> ('p site, err, unit) eff" where
  "group_intent E target old ops =
     run_intent E \<lparr>is_ref = GROUP_REF, is_target = target, is_oldRef = old, is_ops = ops\<rparr>"

definition get_ref :: "string \<Rightarrow> ('p site, err, oid option) eff" where
  "get_ref r = read_gd (\<lambda>g. Inr (readRef g r))"

definition advanceDevice :: "string \<Rightarrow> oid option \<Rightarrow> oid \<Rightarrow> ('p site, err, unit) eff" where
  "advanceDevice dev expected value =
     ebind (get_ref dev) (\<lambda>cur.
       if cur \<noteq> expected then throw (Code ''cas-mismatch'')
       else if Some value \<noteq> cur then write_ref dev value else ret ())"

definition flat_of :: "'p env \<Rightarrow> oid \<Rightarrow> ('p site, err, flat_tree) oeff" where
  "flat_of E i =
     obind (ol (read_gd (commit_tree (ev_lib E) i))) (\<lambda>t s.
       map_option (\<lambda>r. (r, s)) (readFlatTree (ev_lib E) (site_gd s) t))"

definition merge_base :: "'p env \<Rightarrow> oid \<Rightarrow> oid \<Rightarrow> ('p site, err, oid option) oeff" where
  "merge_base E a b s = map_option (\<lambda>r. (Inr r, s)) (mergeBase (ev_lib E) (site_gd s) a b)"

definition flat_files :: "flat_tree \<Rightarrow> merged_entry list" where
  "flat_files flat =
     map (\<lambda>(p, e). \<lparr>me_path = p, me_oid = fe_oid e, me_mode = fe_mode e\<rparr>) (filter (\<lambda>(p, e). fe_type e = Blob) flat)"

definition entry_files :: "merged_entry list \<Rightarrow> file_entry list" where
  "entry_files = map (\<lambda>e. \<lparr>f_path = me_path e, f_oid = me_oid e, f_mode = me_mode e\<rparr>)"

text \<open>\<^verbatim>\<open>[a, b].sort((x, y) => (x < y ? -1 : 1))\<close>\<close>

definition sorted_pair :: "oid \<Rightarrow> oid \<Rightarrow> oid list" where
  "sorted_pair a b = (if a < b then [a, b] else [b, a])"

datatype round_result = RDone string | RConflicts nat | RSeedBlock

definition finish :: "string \<Rightarrow> ('p site, err, round_result) eff" where
  "finish note = ebind (set_phase ''done'') (\<lambda>_. ret (RDone note))"

definition conflicted_job :: "string \<Rightarrow> ('p site, err, unit) eff" where
  "conflicted_job code s = (Inr (), setJob (\<lambda>j. j\<lparr>j_phase := ''conflicted'', j_error := Some code\<rparr>) s)"

text \<open>Pushing after the phase was set.\<close>

definition push_phase_to :: "'p env \<Rightarrow> ctx \<Rightarrow> json option \<Rightarrow> (string \<times> oid) list \<Rightarrow> ('p site, err, unit) eff" where
  "push_phase_to E c prefs ts = ebind (set_phase ''pushing'') (\<lambda>_. pushToPeer E c prefs ts)"

subsection \<open>The first pull\<close>

definition firstPull :: "'p env \<Rightarrow> ctx \<Rightarrow> string \<Rightarrow> json option \<Rightarrow> ('p site, err, round_result) oeff" where
  "firstPull E c dev prefs =
     obind (ol (lift (peer_ref prefs GROUP_REF))) (\<lambda>seed.
       case seed of
         None \<Rightarrow> ol (throw (Code ''no-baseline''))
       | Some i \<Rightarrow>
           obind (scan_site E None) (\<lambda>es.
             obind (flat_of E i) (\<lambda>flat.
               ol (if filter (\<lambda>e. se_kind e = EFile) es = [] then
                     ebind (get_ref GROUP_REF) (\<lambda>now.
                       ebind (buildMaterializeOps E [] (flat_files flat)) (\<lambda>ops.
                         ebind (group_intent E i now ops) (\<lambda>_.
                           ebind (advanceDevice dev None i) (\<lambda>_. finish ''baseline adopted (empty worktree)''))))
                   else
                     ebind (\<lambda>s. (Inr (), s\<lparr>si_block := Doc \<lparr>sb_seed = i, sb_seed_files = flat_files flat,
                              sb_local_files = scanToFlatEntries es\<rparr>\<rparr>)) (\<lambda>_.
                       ebind (conflicted_job ''seed-block'') (\<lambda>_. ret RSeedBlock))))))"

definition first_round ::
  "'p env \<Rightarrow> ctx \<Rightarrow> sync_root \<Rightarrow> string \<Rightarrow> json option \<Rightarrow> oid option \<Rightarrow> ('p site, err, round_result) oeff" where
  "first_round E c root dev prefs groupCur =
     obind (ol (lift (peer_ref prefs GROUP_REF))) (\<lambda>baseline.
       if baseline \<noteq> None then firstPull E c dev prefs
       else if seedAuthority root = Some (ev_endpoint E) then
         obind (commitLocal E) (\<lambda>_.
           ol (ebind (get_ref dev) (\<lambda>commit.
                 case commit of
                   None \<Rightarrow> throw (Thrown ''TypeError'')
                 | Some i \<Rightarrow>
                     ebind (group_intent E i groupCur []) (\<lambda>_.
                       ebind (push_phase_to E c prefs [(GROUP_REF, i), (dev, i)]) (\<lambda>_.
                         finish ''seed baseline pushed'')))))
       else ol (finish ''waiting for the seed authority side to publish its baseline''))"

subsection \<open>Conflict sessions\<close>

definition session_of :: "'p env \<Rightarrow> oid \<Rightarrow> oid \<Rightarrow> oid \<Rightarrow> merge_outcome \<Rightarrow> session" where
  "session_of E base ours theirs out =
     \<lparr>ss_base = base, ss_ours = ours, ss_theirs = theirs, ss_merged = mergedEntries out,
      ss_conflicts = map (\<lambda>c. \<lparr>sc_id = conflictRecordId c, sc_conflict = c,
        sc_driver = (if mc_level c = LHunk then consultMergeDrivers (ev_drivers E) c else None),
        sc_resolved = False\<rparr>) (conflicts out)\<rparr>"

definition persistConflictSession :: "session \<Rightarrow> ('p site, err, unit) eff" where
  "persistConflictSession se s = (Inr (), s\<lparr>si_session := Doc se\<rparr>)"

subsection \<open>The two-way round\<close>

text \<open>The peer has no device line yet, or both lines agree: only push what the peer lacks.\<close>

definition catch_up ::
  "'p env \<Rightarrow> ctx \<Rightarrow> json option \<Rightarrow> string \<Rightarrow> oid option \<Rightarrow> oid option \<Rightarrow> ('p site, err, round_result) eff" where
  "catch_up E c prefs dev myDev groupCur =
     ebind (set_phase ''pushing'') (\<lambda>_.
       ebind (lift (peer_ref prefs dev)) (\<lambda>pd.
         ebind (lift (peer_ref prefs GROUP_REF)) (\<lambda>pg.
           let ts = (case myDev of Some i \<Rightarrow> if pd \<noteq> Some i then [(dev, i)] else [] | None \<Rightarrow> []) @
                    (case groupCur of Some i \<Rightarrow> if pg \<noteq> Some i then [(GROUP_REF, i)] else [] | None \<Rightarrow> [])
           in ebind (pushToPeer E c prefs ts) (\<lambda>_. finish ''up to date (pushed)''))))"

definition fast_forward ::
  "'p env \<Rightarrow> ctx \<Rightarrow> json option \<Rightarrow> string \<Rightarrow> oid \<Rightarrow> oid \<Rightarrow> oid option \<Rightarrow> ('p site, err, round_result) oeff" where
  "fast_forward E c prefs dev mine theirs groupCur =
     obind (flat_of E mine) (\<lambda>ours.
       obind (flat_of E theirs) (\<lambda>target.
         ol (ebind (buildMaterializeOps E ours (flat_files target)) (\<lambda>ops.
               ebind (group_intent E theirs groupCur ops) (\<lambda>_.
                 ebind (advanceDevice dev (Some mine) theirs) (\<lambda>_.
                   ebind (push_phase_to E c prefs [(GROUP_REF, theirs)]) (\<lambda>_.
                     finish ''fast-forward'')))))))"

definition local_ahead ::
  "'p env \<Rightarrow> ctx \<Rightarrow> json option \<Rightarrow> string \<Rightarrow> oid \<Rightarrow> oid option \<Rightarrow> ('p site, err, round_result) eff" where
  "local_ahead E c prefs dev mine groupCur =
     ebind (set_phase ''pushing'') (\<lambda>_.
       ebind (group_intent E mine groupCur []) (\<lambda>_.
         ebind (pushToPeer E c prefs [(dev, mine), (GROUP_REF, mine)]) (\<lambda>_. finish ''local ahead (pushed)'')))"

definition merge_flat :: "'p env \<Rightarrow> flat_tree \<Rightarrow> flat_tree \<Rightarrow> flat_tree \<Rightarrow> ('p site, err, merge_outcome) eff" where
  "merge_flat E base ours theirs s =
     (case mergeTrees (ev_lib E) (ev_diff3 E) (site_gd s) base ours theirs of
        Inl e \<Rightarrow> (Inl e, s)
      | Inr (out, g) \<Rightarrow> (Inr out, set_gd g s))"

definition commit_merge ::
  "'p env \<Rightarrow> string \<Rightarrow> merged_entry list \<Rightarrow> oid \<Rightarrow> oid \<Rightarrow> ('p site, err, oid) eff" where
  "commit_merge E msg entries a b =
     ebind (on_gd (\<lambda>g. writeTreeFromFlat (ev_lib E) g (entry_files entries))) (\<lambda>tree.
       new_commit E msg tree (sorted_pair a b))"

definition conflict_round ::
  "'p env \<Rightarrow> oid \<Rightarrow> oid \<Rightarrow> oid \<Rightarrow> merge_outcome \<Rightarrow> ('p site, err, round_result) eff" where
  "conflict_round E base mine theirs out =
     ebind (persistConflictSession (session_of E base mine theirs out)) (\<lambda>_.
       ebind (conflicted_job ''conflicts'') (\<lambda>_. ret (RConflicts (length (conflicts out)))))"

definition clean_round ::
  "'p env \<Rightarrow> ctx \<Rightarrow> string \<Rightarrow> json option \<Rightarrow> string \<Rightarrow> oid \<Rightarrow> oid \<Rightarrow> oid option \<Rightarrow> flat_tree \<Rightarrow> merge_outcome
     \<Rightarrow> ('p site, err, round_result) eff" where
  "clean_round E c peer prefs dev mine theirs groupCur ours out =
     ebind (commit_merge E (''sync: merge '' @ endpointAbbrev peer @ '' into '' @ endpointAbbrev (ev_endpoint E))
              (mergedEntries out) mine theirs) (\<lambda>i.
       ebind (buildMaterializeOps E ours (mergedEntries out)) (\<lambda>ops.
         ebind (group_intent E i groupCur ops) (\<lambda>_.
           ebind (advanceDevice dev (Some mine) i) (\<lambda>_.
             ebind (push_phase_to E c prefs [(dev, i), (GROUP_REF, i)]) (\<lambda>_. finish ''merged'')))))"

definition three_way ::
  "'p env \<Rightarrow> ctx \<Rightarrow> string \<Rightarrow> json option \<Rightarrow> string \<Rightarrow> oid \<Rightarrow> oid \<Rightarrow> oid \<Rightarrow> oid option
     \<Rightarrow> ('p site, err, round_result) oeff" where
  "three_way E c peer prefs dev base mine theirs groupCur =
     obind (flat_of E base) (\<lambda>bt.
       obind (flat_of E mine) (\<lambda>ot.
         obind (flat_of E theirs) (\<lambda>tt.
           ol (ebind (merge_flat E bt ot tt) (\<lambda>out.
                 if conflicts out \<noteq> [] then conflict_round E base mine theirs out
                 else clean_round E c peer prefs dev mine theirs groupCur ot out)))))"

definition meet ::
  "'p env \<Rightarrow> ctx \<Rightarrow> string \<Rightarrow> json option \<Rightarrow> string \<Rightarrow> oid \<Rightarrow> oid \<Rightarrow> oid option
     \<Rightarrow> ('p site, err, round_result) oeff" where
  "meet E c peer prefs dev mine theirs groupCur =
     obind (merge_base E mine theirs) (\<lambda>base.
       case base of
         None \<Rightarrow> ol (throw (Code ''unrelated-histories''))
       | Some b \<Rightarrow>
           if mine = b \<and> theirs \<noteq> b then fast_forward E c prefs dev mine theirs groupCur
           else if theirs = b then ol (local_ahead E c prefs dev mine groupCur)
           else three_way E c peer prefs dev b mine theirs groupCur)"

definition regular_round ::
  "'p env \<Rightarrow> ctx \<Rightarrow> string \<Rightarrow> string \<Rightarrow> string \<Rightarrow> ('p site, err, round_result) oeff" where
  "regular_round E c peer dev pdev =
     obind (commitLocal E) (\<lambda>_.
       obind (ol (check_abort E)) (\<lambda>_.
         obind (ol (set_phase ''fetching'')) (\<lambda>_.
           obind (ol (fetchFromPeer E c peer)) (\<lambda>f.
             obind (ol (check_abort E)) (\<lambda>_.
               obind (ol (set_phase ''merging'')) (\<lambda>_.
                 obind (ol (get_ref dev)) (\<lambda>myDev.
                   obind (ol (get_ref pdev)) (\<lambda>peerDev.
                     obind (ol (get_ref GROUP_REF)) (\<lambda>groupCur.
                       case peerDev of
                         None \<Rightarrow> ol (catch_up E c (ft_refs f) dev myDev groupCur)
                       | Some theirs \<Rightarrow>
                           if peerDev = myDev then ol (catch_up E c (ft_refs f) dev myDev groupCur)
                           else (case myDev of
                                   None \<Rightarrow> ol (throw (Code ''unrelated-histories''))
                                 | Some mine \<Rightarrow> meet E c peer (ft_refs f) dev mine theirs groupCur))))))))))"

definition runTwoway :: "'p env \<Rightarrow> ctx \<Rightarrow> sync_root \<Rightarrow> string \<Rightarrow> ('p site, err, round_result) oeff" where
  "runTwoway E c root peer =
     obind (ol (lift (deviceRef (ev_endpoint E)))) (\<lambda>dev.
       obind (ol (lift (deviceRef peer))) (\<lambda>pdev.
         obind (ol (fetch_refs E c)) (\<lambda>early.
           obind (ol (get_ref GROUP_REF)) (\<lambda>groupCur.
             obind (ol (get_ref dev)) (\<lambda>myDev.
               if myDev = None then first_round E c root dev early groupCur
               else regular_round E c peer dev pdev)))))"

subsection \<open>The one-way round\<close>

definition publish_source :: "'p env \<Rightarrow> ctx \<Rightarrow> string \<Rightarrow> ('p site, err, round_result) oeff" where
  "publish_source E c dev =
     obind (commitLocal E) (\<lambda>_.
       ol (ebind (get_ref dev) (\<lambda>myDev.
             ebind (get_ref GROUP_REF) (\<lambda>groupCur.
               case myDev of
                 None \<Rightarrow> finish ''source is empty''
               | Some i \<Rightarrow>
                   ebind (if groupCur \<noteq> Some i then group_intent E i groupCur [] else ret ()) (\<lambda>_.
                     ebind (set_phase ''pushing'') (\<lambda>_.
                       ebind (fetch_refs E c) (\<lambda>prefs.
                         ebind (pushToPeer E c prefs [(GROUP_REF, i), (dev, i)]) (\<lambda>_.
                           finish ''source published''))))))))"

definition follow ::
  "'p env \<Rightarrow> string \<Rightarrow> oid option \<Rightarrow> oid option \<Rightarrow> oid \<Rightarrow> ('p site, err, round_result) oeff" where
  "follow E dev myDev groupCur target =
     obind (flat_of E target) (\<lambda>tt.
       obind (case myDev of None \<Rightarrow> ol (ret []) | Some m \<Rightarrow> flat_of E m) (\<lambda>ours.
         ol (ebind (buildMaterializeOps E ours (flat_files tt)) (\<lambda>ops.
               ebind (group_intent E target groupCur ops) (\<lambda>_.
                 ebind (advanceDevice dev myDev target) (\<lambda>_. finish ''mirror followed''))))))"

definition mirror_round :: "'p env \<Rightarrow> ctx \<Rightarrow> string \<Rightarrow> string \<Rightarrow> ('p site, err, round_result) oeff" where
  "mirror_round E c peer dev =
     obind (ol (set_phase ''fetching'')) (\<lambda>_.
       obind (ol (fetchFromPeer E c peer)) (\<lambda>f.
         obind (ol (set_phase ''merging'')) (\<lambda>_.
           obind (ol (lift (peer_ref (ft_refs f) GROUP_REF))) (\<lambda>peerGroup.
             obind (ol (get_ref GROUP_REF)) (\<lambda>groupCur.
               obind (ol (get_ref dev)) (\<lambda>myDev.
                 case peerGroup of
                   None \<Rightarrow> ol (finish ''peer has no baseline yet'')
                 | Some target \<Rightarrow>
                     if myDev = Some target \<and> groupCur = Some target then ol (finish ''up to date'')
                     else obind (case myDev of
                                   None \<Rightarrow> ol (ret True)
                                 | Some m \<Rightarrow> obind (merge_base E m target) (\<lambda>b. ol (ret (b = Some m)))) (\<lambda>ff.
                            if ff then follow E dev myDev groupCur target
                            else ol (throw (Code ''mirror-diverged'')))))))))"

definition runOneway :: "'p env \<Rightarrow> ctx \<Rightarrow> sync_root \<Rightarrow> string \<Rightarrow> ('p site, err, round_result) oeff" where
  "runOneway E c root peer =
     obind (ol (lift (deviceRef (ev_endpoint E)))) (\<lambda>dev.
       if seedAuthority root = Some (ev_endpoint E) then publish_source E c dev
       else mirror_round E c peer dev)"

subsection \<open>Running a root\<close>

definition peerOf :: "'p env \<Rightarrow> sync_group \<Rightarrow> string option" where
  "peerOf E g = map_option endpointId (find_first (\<lambda>m. endpointId m \<noteq> ev_endpoint E) (members g))"

definition on_world :: "(world, err, 'a) eff \<Rightarrow> ('p site, err, 'a) eff" where
  "on_world m s = (let (r, w) = m (si_world s) in (r, s\<lparr>si_world := w\<rparr>))"

text \<open>The reason a recovery that ends conflicted gives, None when the root is ready.\<close>

definition recoverIfNeeded :: "'p env \<Rightarrow> ('p site, err, string option) eff" where
  "recoverIfNeeded E =
     ebind (on_world (\<lambda>w. (readPendingIntent w, w))) (\<lambda>pending.
       case pending of
         None \<Rightarrow> ret None
       | Some _ \<Rightarrow>
           ebind (on_world (recoverIntent (ev_lib E))) (\<lambda>r.
             case r of RConflicted ps why rec \<Rightarrow> ret (Some why) | _ \<Rightarrow> ret None))"

text \<open>One more round when a push lost the race for a reference of the peer.\<close>

definition twoway_twice :: "'p env \<Rightarrow> ctx \<Rightarrow> sync_root \<Rightarrow> string \<Rightarrow> ('p site, err, round_result) oeff" where
  "twoway_twice E c root peer s =
     (case runTwoway E c root peer s of
        Some (Inl e, s') \<Rightarrow> if e = Code ''push-cas'' then runTwoway E c root peer s' else Some (Inl e, s')
      | r \<Rightarrow> r)"

datatype run_result =
    Refused string
  | Ran round_result
  | Unrecovered string
  | Failed string

definition error_code :: "err \<Rightarrow> string" where
  "error_code e = (case e of Code k \<Rightarrow> k | Missing _ \<Rightarrow> ''missing'' | Thrown _ \<Rightarrow> ''error'')"

definition run_body :: "'p env \<Rightarrow> ctx \<Rightarrow> sync_group \<Rightarrow> sync_root \<Rightarrow> ('p site, err, run_result) oeff" where
  "run_body E c g root =
     obind (ol (recoverIfNeeded E)) (\<lambda>why.
       case why of
         Some k \<Rightarrow> ol (ebind (conflicted_job k) (\<lambda>_. ret (Unrecovered k)))
       | None \<Rightarrow>
           (case peerOf E g of
              None \<Rightarrow>
                ol (\<lambda>s. (Inr (Ran (RDone ''single-member group: nothing to sync'')),
                       setJob (\<lambda>j. j\<lparr>j_phase := ''done'', j_error := None\<rparr>) s))
            | Some peer \<Rightarrow>
                obind (if root_mode root = Oneway then runOneway E c root peer else twoway_twice E c root peer)
                  (\<lambda>r. ol (ret (Ran r)))))"

definition caught :: "('p site, err, run_result) oeff \<Rightarrow> 'p site \<Rightarrow> (run_result \<times> 'p site) option" where
  "caught m s =
     (case m s of
        None \<Rightarrow> None
      | Some (Inr r, s') \<Rightarrow> Some (r, s')
      | Some (Inl e, s') \<Rightarrow>
          Some (Failed (error_code e),
                setJob (\<lambda>j. j\<lparr>j_phase := ''error'', j_error := Some (error_code e)\<rparr>) s'))"

text \<open>
  \<^verbatim>\<open>runRoot\<close>; the first component of the result is an error only when the ledger cannot be
  read, which the code does not catch.
\<close>

definition runRoot ::
  "'p env \<Rightarrow> ledger_world \<Rightarrow> string \<Rightarrow> string \<Rightarrow> 'p site \<Rightarrow> ((ledger_error + run_result) \<times> 'p site) option" where
  "runRoot E lw gid rid s =
     (if si_running s then Some (Inr (Refused ''busy''), s)
      else (case loadLedger lw of
              Inl e \<Rightarrow> Some (Inl e, s)
            | Inr gs \<Rightarrow>
                (case findGroup gs gid of
                   None \<Rightarrow> Some (Inr (Refused ''unknown-group''), s)
                 | Some g \<Rightarrow>
                     (case find_first (\<lambda>r. root_id r = rid) (roots g) of
                        None \<Rightarrow> Some (Inr (Refused ''unknown-root''), s)
                      | Some root \<Rightarrow>
                          map_option (\<lambda>(r, s'). (Inr r, s'\<lparr>si_running := False\<rparr>))
                            (caught (run_body E \<lparr>cx_group = gid, cx_root = rid\<rparr> g root)
                              (setJob (\<lambda>j. idle_job\<lparr>j_phase := ''scanning''\<rparr>) (s\<lparr>si_running := True\<rparr>)))))))"

subsection \<open>Resolving conflicts\<close>

definition blob_text :: "gitdir \<Rightarrow> (oid \<times> string) option \<Rightarrow> err + utext" where
  "blob_text g e =
     (case e of
        None \<Rightarrow> Inr []
      | Some (i, m) \<Rightarrow>
          (case readObject g i of None \<Rightarrow> Inl (Code ''NotFoundError'') | Some (ty, bs) \<Rightarrow> Inr (lossy (map unat bs))))"

record resolution =
  rs_choices :: "decision list option"
  rs_choice :: "string option"
  rs_content :: "string option"
  rs_mode :: "string option"

text \<open>What one conflict contributes: a refusal, or an entry, or nothing (an accepted deletion).\<close>

definition resolve_hunks ::
  "'p env \<Rightarrow> merge_conflict \<Rightarrow> decision list \<Rightarrow> ('p site, err, merged_entry option) eff" where
  "resolve_hunks E c ds =
     ebind (read_gd (\<lambda>g. blob_text g (mc_ours c))) (\<lambda>ours.
       ebind (read_gd (\<lambda>g. blob_text g (mc_base c))) (\<lambda>base.
         ebind (read_gd (\<lambda>g. blob_text g (mc_theirs c))) (\<lambda>theirs.
           ebind (lift (applyHunkDecisions (ev_diff3 E) ours base theirs (mc_hunks c) ds)) (\<lambda>txt.
             ebind (on_gd (\<lambda>g. writeObject (ev_lib E) g ''blob'' (utf8_encode txt))) (\<lambda>i.
               ret (Some \<lparr>me_path = mc_path c, me_oid = i,
                 me_mode = (case mc_ours c of Some (_, m) \<Rightarrow> m | None \<Rightarrow> ''100644'')\<rparr>))))))"

definition side_entry :: "string \<Rightarrow> (oid \<times> string) option \<Rightarrow> merged_entry option" where
  "side_entry p e = map_option (\<lambda>(i, m). \<lparr>me_path = p, me_oid = i, me_mode = m\<rparr>) e"

definition resolve_one ::
  "'p env \<Rightarrow> merge_conflict \<Rightarrow> resolution \<Rightarrow> ('p site, err, string + merged_entry option) eff" where
  "resolve_one E c d =
     (if mc_level c = LHunk then
        (case rs_choices d of
           None \<Rightarrow> ret (Inl ''bad-decision'')
         | Some ds \<Rightarrow> ebind (resolve_hunks E c ds) (\<lambda>e. ret (Inr e)))
      else if rs_choice d = Some ''ours'' \<and> mc_ours c \<noteq> None then ret (Inr (side_entry (mc_path c) (mc_ours c)))
      else if rs_choice d = Some ''theirs'' \<and> mc_theirs c \<noteq> None
      then ret (Inr (side_entry (mc_path c) (mc_theirs c)))
      else if rs_choice d = Some ''edit'' then
        (case rs_content d of
           None \<Rightarrow> ret (Inl ''bad-decision'')
         | Some b64 \<Rightarrow>
             ebind (on_gd (\<lambda>g. writeObject (ev_lib E) g ''blob'' (fromBase64 b64))) (\<lambda>i.
               ret (Inr (Some \<lparr>me_path = mc_path c, me_oid = i,
                 me_mode = (case rs_mode d of Some m \<Rightarrow> m
                            | None \<Rightarrow> (case mc_ours c of Some (_, m) \<Rightarrow> m | None \<Rightarrow> ''100644''))\<rparr>))))
      else if rs_choice d = Some ''delete'' then ret (Inr None)
      else ret (Inl ''bad-decision''))"

fun resolve_all ::
  "'p env \<Rightarrow> (string \<Rightarrow> resolution option) \<Rightarrow> merge_conflict list
     \<Rightarrow> ('p site, err, string + (merged_entry list \<times> string list)) eff" where
  "resolve_all E ds [] = ret (Inr ([], []))"
| "resolve_all E ds (c # cs) =
     (case ds (mc_path c) of
        None \<Rightarrow> ret (Inl ''missing-decision'')
      | Some d \<Rightarrow>
          ebind (resolve_one E c d) (\<lambda>r.
            case r of
              Inl k \<Rightarrow> ret (Inl k)
            | Inr e \<Rightarrow>
                ebind (resolve_all E ds cs) (\<lambda>rest.
                  case rest of
                    Inl k \<Rightarrow> ret (Inl k)
                  | Inr (es, gone) \<Rightarrow>
                      ret (Inr (case e of Some x \<Rightarrow> (x # es, gone) | None \<Rightarrow> (es, mc_path c # gone))))))"

text \<open>The merged entries with the conflicts replaced: a map, so the last entry of a path wins.\<close>

definition final_map :: "merged_entry list \<Rightarrow> merged_entry list \<Rightarrow> string list \<Rightarrow> (string \<times> oid \<times> string) list" where
  "final_map merged es gone =
     fold adel gone (fold (\<lambda>e. aput (me_path e) (me_oid e, me_mode e)) es
       (fold (\<lambda>e. aput (me_path e) (me_oid e, me_mode e)) merged []))"

definition map_entries :: "(string \<times> oid \<times> string) list \<Rightarrow> merged_entry list" where
  "map_entries = map (\<lambda>(p, i, m). \<lparr>me_path = p, me_oid = i, me_mode = m\<rparr>)"

datatype resolve_result = RRefused string | RResolved oid

definition mark_resolved :: "session \<Rightarrow> session" where
  "mark_resolved se = se\<lparr>ss_conflicts := map (\<lambda>r. r\<lparr>sc_resolved := True\<rparr>) (ss_conflicts se)\<rparr>"

definition announce :: "'p env \<Rightarrow> ctx \<Rightarrow> string \<Rightarrow> oid \<Rightarrow> ('p site, err, unit) eff" where
  "announce E c dev i =
     ebind (set_phase ''pushing'') (\<lambda>_.
       ebind (callPeer E (get_request (wire c @ ''/refs''))) (\<lambda>r.
         if call_ok r then pushToPeer E c (body_field r ''refs'') [(dev, i), (GROUP_REF, i)] else ret ()))"

definition apply_resolution ::
  "'p env \<Rightarrow> ctx \<Rightarrow> sync_group \<Rightarrow> session \<Rightarrow> merged_entry list \<Rightarrow> string list \<Rightarrow> ('p site, err, resolve_result) oeff" where
  "apply_resolution E c g se es gone =
     (let entries = map_entries (final_map (ss_merged se) es gone)
      in obind (ol (commit_merge E
             (''sync: conflict resolution on '' @ ev_device E @ '' ('' @ endpointAbbrev (ev_endpoint E) @ '')'')
             entries (ss_ours se) (ss_theirs se))) (\<lambda>i.
           obind (flat_of E (ss_ours se)) (\<lambda>ours.
             ol (ebind (buildMaterializeOps E ours entries) (\<lambda>ops.
                   ebind (get_ref GROUP_REF) (\<lambda>groupCur.
                     ebind (group_intent E i groupCur ops) (\<lambda>_.
                       ebind (lift (deviceRef (ev_endpoint E))) (\<lambda>dev.
                         ebind (get_ref dev) (\<lambda>cur.
                           ebind (advanceDevice dev cur i) (\<lambda>_.
                             ebind (persistConflictSession (mark_resolved se)) (\<lambda>_.
                               ebind (case peerOf E g of None \<Rightarrow> ret () | Some peer \<Rightarrow> announce E c dev i) (\<lambda>_ s.
                                 (Inr (RResolved i),
                                  setJob (\<lambda>j. j\<lparr>j_phase := ''done'', j_error := None\<rparr>) s)))))))))))))"

definition resolveConflicts ::
  "'p env \<Rightarrow> ctx \<Rightarrow> sync_group \<Rightarrow> (string \<Rightarrow> resolution option) \<Rightarrow> ('p site, err, resolve_result) oeff" where
  "resolveConflicts E c g ds s =
     (case si_session s of
        Doc se \<Rightarrow>
          (let open = map sc_conflict (filter (\<lambda>r. \<not> sc_resolved r) (ss_conflicts se))
           in if open = [] then Some (Inr (RRefused ''no-conflicts''), s)
              else obind (ol (resolve_all E ds open)) (\<lambda>r.
                     case r of
                       Inl k \<Rightarrow> ol (ret (RRefused k))
                     | Inr (es, gone) \<Rightarrow> apply_resolution E c g se es gone) s)
      | _ \<Rightarrow> Some (Inr (RRefused ''no-conflicts''), s))"

subsection \<open>Resolving a blocked first pull\<close>

fun seed_writes ::
  "git_lib \<Rightarrow> wtree \<Rightarrow> (string \<Rightarrow> file_entry option) \<Rightarrow> merged_entry list \<Rightarrow> gitdir \<Rightarrow> intent_op list \<times> gitdir" where
  "seed_writes L t loc [] g = ([], g)"
| "seed_writes L t loc (e # es) g =
     (let (pre, g1) = pathStateTuple L t (me_path e) g;
          (ops, g2) = seed_writes L t loc es g1
      in (case loc (me_path e) of
            Some f \<Rightarrow>
              if f_oid f = me_oid e \<and> f_mode f = me_mode e then ops
              else \<lparr>op_kind = OpWrite, op_path = me_path e, op_pre = Some pre,
                     op_post = Some (Some (me_oid e), Some Blob, Some (modeNum (me_mode e)))\<rparr> # ops
          | None \<Rightarrow> \<lparr>op_kind = OpWrite, op_path = me_path e, op_pre = Some pre,
                     op_post = Some (Some (me_oid e), Some Blob, Some (modeNum (me_mode e)))\<rparr> # ops, g2))"

fun seed_deletes :: "git_lib \<Rightarrow> wtree \<Rightarrow> flat_tree \<Rightarrow> string list \<Rightarrow> gitdir \<Rightarrow> intent_op list \<times> gitdir" where
  "seed_deletes L t seed [] g = ([], g)"
| "seed_deletes L t seed (p # ps) g =
     (if p \<in> set (akeys seed) then seed_deletes L t seed ps g
      else (let (pre, g1) = pathStateTuple L t p g;
                (ops, g2) = seed_deletes L t seed ps g1
            in (\<lparr>op_kind = OpDelete, op_path = p, op_pre = Some pre, op_post = None\<rparr> # ops, g2)))"

definition seed_ops :: "'p env \<Rightarrow> flat_tree \<Rightarrow> file_entry list \<Rightarrow> ('p site, err, intent_op list) eff" where
  "seed_ops E seed loc s =
     (let L = ev_lib E; t = wt (si_world s);
          (ws, g1) = seed_writes L t (map_of (rev (map (\<lambda>f. (f_path f, f)) loc))) (flat_files seed) (site_gd s);
          (ds, g2) = seed_deletes L t seed (uniq (map f_path loc)) g1
      in (Inr (ws @ ds), set_gd g2 s))"

definition resolveSeedBlock :: "'p env \<Rightarrow> string \<Rightarrow> ('p site, err, resolve_result) oeff" where
  "resolveSeedBlock E decision s =
     (if decision \<noteq> ''adopt-seed'' then Some (Inr (RRefused ''bad-decision''), s)
      else (case si_block s of
              Doc b \<Rightarrow>
                obind (flat_of E (sb_seed b)) (\<lambda>seed.
                  obind (scan_site E None) (\<lambda>es.
                    ol (ebind (seed_ops E seed (scanToFlatEntries es)) (\<lambda>ops.
                          ebind (get_ref GROUP_REF) (\<lambda>groupCur.
                            ebind (group_intent E (sb_seed b) groupCur ops) (\<lambda>_.
                              ebind (lift (deviceRef (ev_endpoint E))) (\<lambda>dev.
                                ebind (get_ref dev) (\<lambda>cur.
                                  ebind (advanceDevice dev cur (sb_seed b)) (\<lambda>_ s.
                                    (Inr (RResolved (sb_seed b)),
                                     setJob (\<lambda>j. j\<lparr>j_phase := ''done'', j_error := None\<rparr>)
                                       (s\<lparr>si_block := Absent\<rparr>))))))))))) s
            | _ \<Rightarrow> Some (Inr (RRefused ''no-seed-block''), s)))"

subsection \<open>Recovery at the start\<close>

definition recover_site :: "'p env \<Rightarrow> ('p site, err, recover_result) eff" where
  "recover_site E =
     ebind (on_world (recoverIntent (ev_lib E))) (\<lambda>r.
       case r of
         RConflicted ps why rec \<Rightarrow> ebind (conflicted_job why) (\<lambda>_. ret r)
       | _ \<Rightarrow> ret r)"

text \<open>All roots in the order of the ledger; the first error ends the call.\<close>

fun recoverAll :: "'p env \<Rightarrow> 'p site list \<Rightarrow> (err + recover_result list) \<times> 'p site list" where
  "recoverAll E [] = (Inr [], [])"
| "recoverAll E (s # ss) =
     (case recover_site E s of
        (Inl e, s') \<Rightarrow> (Inl e, s' # ss)
      | (Inr r, s') \<Rightarrow>
          (case recoverAll E ss of
             (Inl e, ss') \<Rightarrow> (Inl e, s' # ss')
           | (Inr rs, ss') \<Rightarrow> (Inr (r # rs), s' # ss')))"

end
