(* ===== verification/RoundProps.thy ===== *)
theory RoundProps
  imports Rounds Capture
begin

text \<open>
  What the rounds guarantee: the reported job, what a round that ends in conflict leaves alone, what a
  mirror asks of its peer, and what resolving a conflict does to the device reference.
\<close>

subsection \<open>Frames of effects that may not return\<close>

context effect_frame begin

definition okeeps :: "('s, 'e, 'a) oeff \<Rightarrow> bool" where
  "okeeps m \<longleftrightarrow> (\<forall>s r s'. m s = Some (r, s') \<longrightarrow> R s s')"

lemma okeepsI: "(\<And>s r s'. m s = Some (r, s') \<Longrightarrow> R s s') \<Longrightarrow> okeeps m"
  by (simp add: okeeps_def)

lemma okeepsD: "okeeps m \<Longrightarrow> m s = Some (r, s') \<Longrightarrow> R s s'"
  by (simp add: okeeps_def)

lemma okeeps_ol: "keeps m \<Longrightarrow> okeeps (ol m)"
proof (rule okeepsI)
  fix s r s' assume "keeps m" "ol m s = Some (r, s')"
  then show "R s s'" using keepsD [of m s] by (simp add: ol_def)
qed

lemma okeeps_obind:
  assumes "okeeps m" and "\<And>a. okeeps (f a)"
  shows "okeeps (obind m f)"
proof (rule okeepsI)
  fix s r s' assume "obind m f s = Some (r, s')"
  then consider e where "m s = Some (Inl e, s')"
    | a s1 where "m s = Some (Inr a, s1)" "f a s1 = Some (r, s')"
    by (auto simp: obind_def split: option.splits sum.splits)
  then show "R s s'"
  proof cases
    case 1
    then show ?thesis by (rule okeepsD [OF assms(1)])
  next
    case 2
    from okeepsD [OF assms(1) 2(1)] okeepsD [OF assms(2) 2(2)] show ?thesis by (rule R_trans)
  qed
qed

lemma okeeps_lift:
  assumes "\<And>a. r = Inr a \<Longrightarrow> okeeps (f a)"
  shows "okeeps (obind (ol (lift r)) f)"
proof (rule okeepsI)
  fix s q s' assume "obind (ol (lift r)) f s = Some (q, s')"
  then show "R s s'" using okeepsD [OF assms]
    by (cases r) (auto simp: obind_def ol_def R_refl)
qed

lemma okeeps_if: "(b \<Longrightarrow> okeeps m) \<Longrightarrow> (\<not> b \<Longrightarrow> okeeps n) \<Longrightarrow> okeeps (if b then m else n)"
  by simp

lemma okeeps_option: "okeeps m \<Longrightarrow> (\<And>a. okeeps (f a)) \<Longrightarrow> okeeps (case v of None \<Rightarrow> m | Some a \<Rightarrow> f a)"
  by (cases v) simp_all

lemmas okeeps_intros = okeeps_ol okeeps_obind okeeps_if okeeps_option

end

subsection \<open>How a run ends\<close>

definition ends :: "('a \<Rightarrow> 's \<Rightarrow> bool) \<Rightarrow> ('s, 'e, 'a) eff \<Rightarrow> bool" where
  "ends Q m \<longleftrightarrow> (\<forall>s r s'. m s = (Inr r, s') \<longrightarrow> Q r s')"

definition oends :: "('a \<Rightarrow> 's \<Rightarrow> bool) \<Rightarrow> ('s, 'e, 'a) oeff \<Rightarrow> bool" where
  "oends Q m \<longleftrightarrow> (\<forall>s r s'. m s = Some (Inr r, s') \<longrightarrow> Q r s')"

lemma oendsD: "oends Q m \<Longrightarrow> m s = Some (Inr r, s') \<Longrightarrow> Q r s'"
  by (simp add: oends_def)

lemma ends_intros:
  "ends Q (throw e)"
  "(\<And>a. ends Q (f a)) \<Longrightarrow> ends Q (ebind m f)"
  "(b \<Longrightarrow> ends Q m') \<Longrightarrow> (\<not> b \<Longrightarrow> ends Q n) \<Longrightarrow> ends Q (if b then m' else n)"
  "ends Q m' \<Longrightarrow> (\<And>a. ends Q (g a)) \<Longrightarrow> ends Q (case v of None \<Rightarrow> m' | Some a \<Rightarrow> g a)"
  by (auto simp: ends_def ebind_eq_Inr throw_def split: option.splits)

lemma obind_eq_Inr:
  "obind m f s = Some (Inr b, s'') \<longleftrightarrow> (\<exists>a s'. m s = Some (Inr a, s') \<and> f a s' = Some (Inr b, s''))"
  by (auto simp: obind_def split: option.splits sum.splits)

lemma ol_eq [simp]: "ol m s = Some x \<longleftrightarrow> m s = x"
  by (simp add: ol_def)

lemma oends_intros:
  "ends Q k \<Longrightarrow> oends Q (ol k)"
  "(\<And>a. oends Q (f a)) \<Longrightarrow> oends Q (obind m f)"
  "(b \<Longrightarrow> oends Q m') \<Longrightarrow> (\<not> b \<Longrightarrow> oends Q n) \<Longrightarrow> oends Q (if b then m' else n)"
  "oends Q m' \<Longrightarrow> (\<And>a. oends Q (g a)) \<Longrightarrow> oends Q (case v of None \<Rightarrow> m' | Some a \<Rightarrow> g a)"
  by (auto simp: ends_def oends_def obind_eq_Inr split: option.splits)

text \<open>The job a result of a round comes with.\<close>

definition job_is :: "string \<Rightarrow> string option \<Rightarrow> 'p site \<Rightarrow> bool" where
  "job_is ph e s \<longleftrightarrow> (case si_job s of None \<Rightarrow> False | Some j \<Rightarrow> j_phase j = ph \<and> (e \<noteq> None \<longrightarrow> j_error j = e))"

definition round_job :: "round_result \<Rightarrow> 'p site \<Rightarrow> bool" where
  "round_job r s =
     (case r of
        RDone note \<Rightarrow> job_is ''done'' None s
      | RConflicts n \<Rightarrow> job_is ''conflicted'' (Some ''conflicts'') s
      | RSeedBlock \<Rightarrow> job_is ''conflicted'' (Some ''seed-block'') s)"

lemma ends_finish: "ends round_job (finish note)"
  by (auto simp: ends_def finish_def ebind_def set_phase_def round_job_def job_is_def setJob_def)

lemma ends_conflict: "ends round_job (conflict_round E b m t out)"
  by (auto simp: ends_def conflict_round_def persistConflictSession_def ebind_def conflicted_job_def round_job_def
    job_is_def setJob_def)

lemma ends_block: "ends round_job (ebind (conflicted_job ''seed-block'') (\<lambda>_. ret RSeedBlock))"
  by (auto simp: ends_def ebind_def conflicted_job_def round_job_def job_is_def setJob_def)

lemma ends_twoway: "oends round_job (runTwoway E c root peer)"
  unfolding runTwoway_def first_round_def firstPull_def regular_round_def catch_up_def meet_def fast_forward_def
    local_ahead_def three_way_def clean_round_def Let_def
  by (intro oends_intros ends_intros ends_finish ends_conflict ends_block)

lemma ends_oneway: "oends round_job (runOneway E c root peer)"
  unfolding runOneway_def publish_source_def mirror_round_def follow_def
  by (intro oends_intros ends_intros ends_finish)

lemma ends_twice: "oends round_job (twoway_twice E c root peer)"
  unfolding oends_def
proof (intro allI impI)
  fix s r s' assume a: "twoway_twice E c root peer s = Some (Inr r, s')"
  then consider "runTwoway E c root peer s = Some (Inr r, s')"
    | s1 where "runTwoway E c root peer s1 = Some (Inr r, s')"
    by (auto simp: twoway_twice_def split: option.splits prod.splits sum.splits if_splits)
  then show "round_job r s'" using oendsD [OF ends_twoway] by cases blast+
qed

definition run_job :: "run_result \<Rightarrow> 'p site \<Rightarrow> bool" where
  "run_job r s =
     (case r of
        Refused k \<Rightarrow> False
      | Ran q \<Rightarrow> round_job q s
      | Unrecovered k \<Rightarrow> job_is ''conflicted'' (Some k) s
      | Failed k \<Rightarrow> job_is ''error'' (Some k) s)"

lemma ends_body: "oends run_job (run_body E c g root)"
proof -
  have run: "oends run_job (obind m (\<lambda>r. ol (ret (Ran r))))" if "oends round_job m" for m :: "('p site, err, round_result) oeff"
    using that by (auto simp: oends_def obind_eq_Inr run_job_def)
  have stuck: "ends run_job (ebind (conflicted_job k) (\<lambda>_. ret (Unrecovered k)))" for k
    by (auto simp: ends_def ebind_def conflicted_job_def run_job_def job_is_def setJob_def)
  have alone: "ends run_job (\<lambda>s. (Inr (Ran (RDone n)), setJob (\<lambda>j. j\<lparr>j_phase := ''done'', j_error := None\<rparr>) s))" for n
    by (auto simp: ends_def run_job_def round_job_def job_is_def setJob_def)
  show ?thesis
    unfolding run_body_def
    by (rule oends_intros(2), rule oends_intros(4), rule oends_intros(4))
      (rule oends_intros(1), rule alone, rule run, rule oends_intros(3), rule ends_oneway, rule ends_twice,
       rule oends_intros(1), rule stuck)
qed

lemma caught_job: "caught m s = Some (r, s') \<Longrightarrow> oends run_job m \<Longrightarrow> run_job r s'"
  by (auto simp: caught_def oends_def run_job_def job_is_def setJob_def split: option.splits prod.splits sum.splits)

lemma run_job_running [simp]: "run_job r (s\<lparr>si_running := b\<rparr>) = run_job r s"
  by (auto simp: run_job_def round_job_def job_is_def split: run_result.splits round_result.splits)

text \<open>
  C24. A run that returns reports what happened: a refused call and an unreadable ledger leave the
  root as it was; otherwise the root is free again and its job stands at done, at conflicted with the
  reason, or at error with the code of the error that ended the run.
\<close>

theorem run_reports_its_end:
  "case runRoot E lw gid rid s of
     None \<Rightarrow> True
   | Some (Inl e, s') \<Rightarrow> s' = s \<and> loadLedger lw = Inl e
   | Some (Inr (Refused k), s') \<Rightarrow> s' = s
   | Some (Inr r, s') \<Rightarrow> \<not> si_running s' \<and> run_job r s'"
proof -
  have "case r of Refused k \<Rightarrow> False | _ \<Rightarrow> run_job r (s2\<lparr>si_running := False\<rparr>)"
    if "caught (run_body E c g root) s1 = Some (r, s2)" for c g root s1 r s2
    using caught_job [OF that ends_body] by (cases r) (simp_all, simp add: run_job_def)
  then show ?thesis
    by (auto simp: runRoot_def split: option.splits sum.splits run_result.splits) (fastforce split: run_result.splits)+
qed

subsection \<open>A round that ends in conflict\<close>

text \<open>Results that leave the tree to the user.\<close>

definition not_conflict :: "round_result \<Rightarrow> 'p site \<Rightarrow> bool" where
  "not_conflict r s \<longleftrightarrow> (\<exists>note. r = RDone note)"

lemma nc_finish: "ends not_conflict (finish note)"
  by (auto simp: ends_def finish_def ebind_def set_phase_def not_conflict_def)

lemma nc_parts:
  "ends not_conflict (catch_up E c prefs dev m g)"
  "oends not_conflict (fast_forward E c prefs dev mi th g)"
  "ends not_conflict (local_ahead E c prefs dev mi g)"
  "ends not_conflict (clean_round E c peer prefs dev mi th g ot out)"
  unfolding catch_up_def fast_forward_def local_ahead_def clean_round_def Let_def
  by (intro oends_intros ends_intros nc_finish)+

text \<open>What may change before the merge is known to conflict.\<close>

definition calm :: "string set \<Rightarrow> 'p site \<Rightarrow> 'p site \<Rightarrow> bool" where
  "calm D s s' \<longleftrightarrow> wt (si_world s') = wt (si_world s) \<and> intent_file (si_world s') = intent_file (si_world s) \<and>
     done_file (si_world s') = done_file (si_world s) \<and> si_session s' = si_session s \<and> si_block s' = si_block s \<and>
     (\<forall>r. r \<notin> D \<longrightarrow> readRef (site_gd s') r = readRef (site_gd s) r)"

interpretation cm: effect_frame "calm D" for D
  by unfold_locales (auto simp: calm_def)

lemma site_frame_calm: "site_frame L D s s' \<Longrightarrow> calm D s s'"
  by (simp add: site_frame_def outside_gd_def calm_def)

lemma cm_of_fr: "fr.keeps L D m \<Longrightarrow> cm.keeps D m"
  unfolding fr.keeps_def cm.keeps_def using site_frame_calm by blast

lemma cm_conflicted: "cm.keeps D (conflicted_job k)"
  by (rule cm.keepsI) (simp add: conflicted_job_def calm_def setJob_def site_gd_def)

lemmas cm_basic = cm_conflicted cm_of_fr [OF fr_basic(1)] cm_of_fr [OF fr_basic(2)] cm_of_fr [OF fr_basic(4)]
  cm_of_fr [OF fr_fetch_refs] cm_of_fr [OF fr_basic(2) [folded get_ref_def]]

lemma cm_on_gd: "(\<And>g. refs (snd (f g)) = refs g) \<Longrightarrow> cm.keeps D (on_gd f)"
proof (rule cm.keepsI)
  fix s :: "'p site"
  assume "\<And>g. refs (snd (f g)) = refs g"
  then have "refs (snd (f (site_gd s))) = refs (site_gd s)" .
  then show "calm D s (snd (on_gd f s))"
    by (cases "f (site_gd s)") (simp add: on_gd_def calm_def readRef_def set_gd_def site_gd_def)
qed

lemma refs_writeTree: "refs (snd (writeTreeFromFlat L g es)) = refs g"
proof -
  have r: "refs (snd (build_kids L ks g)) = refs g" for ks g
  proof (induction L ks g rule: build_kids.induct)
    case (2 L nm c cs g)
    then show ?case by (auto simp: writeObject_def Let_def refs_import split: prod.splits)
  qed simp
  show ?thesis using r [of "sort_key fst (kids (nest es))" g]
    by (auto simp: writeTreeFromFlat_def writeObject_def Let_def refs_import split: prod.splits)
qed

lemma refs_writeCommit: "refs (snd (writeCommitOid L g c)) = refs g"
  by (simp add: writeCommitOid_def writeObject_def Let_def refs_import)

lemma cm_new_commit: "cm.keeps D (new_commit E msg t ps)"
  unfolding new_commit_def by (intro cm.keeps_intros cm_basic cm_on_gd) (simp add: refs_writeCommit)

lemma cm_write_ref: "r \<in> D \<Longrightarrow> cm.keeps D (write_ref r i)"
  using cm_of_fr [OF fr_write_ref] .

lemma cm_commit_entries: "dev \<in> D \<Longrightarrow> cm.keeps D (commit_entries E dev head es)"
  unfolding commit_entries_def head_tree_def
  by (intro cm.keeps_intros cm_basic cm_on_gd cm_new_commit cm_write_ref) (simp_all add: refs_writeTree)

lemma cm_scan: "cm.okeeps D (scan_site E m)"
proof (rule cm.okeepsI)
  fix s r s' assume "scan_site E m s = Some (r, s')"
  then obtain q g where "scanWorktree (ev_lib E) (ev_view E (si_ticks s) (wt (si_world s))) m (site_gd s) = Some (q, g)"
      "s' = set_gd g s\<lparr>si_ticks := Suc (si_ticks s)\<rparr>" by (auto simp: scan_site_def)
  with scan_blobs [OF this(1)] show "calm D s s'"
    by (auto simp: calm_def set_gd_def site_gd_def blobs_added_def readRef_def)
qed

lemma cm_commitLocal:
  assumes "deviceRef (ev_endpoint E) = Inr dev" and "dev \<in> D"
  shows "cm.okeeps D (commitLocal E)"
  unfolding commitLocal_def
proof (rule cm.okeeps_lift)
  fix d assume "deviceRef (ev_endpoint E) = Inr d"
  with assms have "d \<in> D" by simp
  then show "cm.okeeps D (obind (ol (read_gd (\<lambda>g. Inr (readRef g d)))) (\<lambda>head.
      obind (scan_site E (Some MAX_OBJECT_BYTES)) (\<lambda>es. ol (commit_entries E d head es))))"
    by (intro cm.okeeps_intros cm_basic cm_scan cm_commit_entries)
qed

text \<open>A merge stores blobs and moves no reference.\<close>

lemma refs_push: "refs (snd (push_merged p i m st)) = refs (snd st)" "refs (snd (push_conflict c st)) = refs (snd st)"
  "refs (snd (push_mode p st)) = refs (snd st)" "refs (snd (push_text L p t m st)) = refs (snd st)"
  "refs (snd (writeObject L g ty bs)) = refs g"
  by (simp_all add: push_merged_def push_conflict_def push_mode_def push_text_def push_auto_def writeObject_def Let_def
    refs_import)

lemma refs_merge_path:
  assumes "merge_path L d p eb eo et st = Inr st'"
  shows "refs (snd st') = refs (snd st)"
proof -
  have a: "refs (snd st') = refs (snd st)" if "merge_added L d p eo et st = Inr st'" for eo et
    using that by (auto simp: merge_added_def refs_push rbind_def split: option.splits if_splits text_merge.splits sum.splits)
  have b: "refs (snd st') = refs (snd st)" if "merge_both L d p b x y st = Inr st'" for b x y
    using that by (auto simp: merge_both_def Let_def refs_push rbind_def
      split: option.splits if_splits text_merge.splits sum.splits)
  have c: "refs (snd (merge_deleted p b eo et st)) = refs (snd st)" for b eo et
    by (auto simp: merge_deleted_def refs_push split: option.splits)
  from assms show ?thesis
    by (auto simp: merge_path_def Let_def refs_push c dest: a b split: if_splits option.splits)
qed

lemma refs_merge_loop: "merge_loop L d bt ot tt ps st = Inr st' \<Longrightarrow> refs (snd st') = refs (snd st)"
proof (induction ps arbitrary: st)
  case (Cons p ps)
  then show ?case by (auto simp: rbind_eq_Inr dest!: refs_merge_path)
qed simp

lemma cm_merge_flat: "cm.keeps D (merge_flat E b m t)"
proof (rule cm.keepsI)
  fix s
  show "calm D s (snd (merge_flat E b m t s))"
    using refs_merge_loop [of "ev_lib E" "ev_diff3 E" b m t "merge_paths b m t" "(empty_outcome, site_gd s)"]
    by (auto simp: merge_flat_def mergeTrees_def calm_def set_gd_def site_gd_def readRef_def split: sum.splits prod.splits)
qed

lemma cm_flat_of: "cm.okeeps D (flat_of E i)"
  unfolding flat_of_def
  by (intro cm.okeeps_obind cm.okeeps_ol cm_basic) (auto simp: cm.okeeps_def calm_def)

lemma cm_merge_base: "cm.okeeps D (merge_base E a b)"
  by (auto simp: cm.okeeps_def merge_base_def calm_def)

lemma cm_abort: "cm.keeps D (check_abort E)"
  unfolding check_abort_def by (intro cm.keeps_intros cm_basic)

lemma cm_fetch:
  fixes E :: "'p env"
  shows "''refs/devices/'' @ peer @ ''/main'' \<in> D \<Longrightarrow> cm.keeps D (fetchFromPeer E c peer)"
proof -
  assume d: "''refs/devices/'' @ peer @ ''/main'' \<in> D"
  have mono: "calm {r} s t \<Longrightarrow> r \<in> D \<Longrightarrow> calm D s t" for r and s t :: "'p site" by (auto simp: calm_def)
  show ?thesis using cm_of_fr [OF fr_fetch, of peer E c] mono [OF _ d] unfolding cm.keeps_def by blast
qed

text \<open>The record of a conflict that the user will find.\<close>

definition recorded :: "round_result \<Rightarrow> 'p site \<Rightarrow> bool" where
  "recorded r s =
     (case r of
        RDone note \<Rightarrow> True
      | RConflicts n \<Rightarrow> 0 < n \<and> (\<exists>se. si_session s = Doc se \<and> length (ss_conflicts se) = n \<and>
          list_all (\<lambda>x. \<not> sc_resolved x) (ss_conflicts se))
      | RSeedBlock \<Rightarrow> (\<exists>b. si_block s = Doc b))"

definition tame :: "string set \<Rightarrow> 'p site \<Rightarrow> 'p site \<Rightarrow> bool" where
  "tame D s s' \<longleftrightarrow> wt (si_world s') = wt (si_world s) \<and> intent_file (si_world s') = intent_file (si_world s) \<and>
     done_file (si_world s') = done_file (si_world s) \<and> (\<forall>r. r \<notin> D \<longrightarrow> readRef (site_gd s') r = readRef (site_gd s) r)"

text \<open>A recorded conflict leaves the record of the other kind alone.\<close>

definition other_kept :: "round_result \<Rightarrow> 'p site \<Rightarrow> 'p site \<Rightarrow> bool" where
  "other_kept r s s' \<longleftrightarrow>
     (case r of
        RDone note \<Rightarrow> True
      | RConflicts n \<Rightarrow> si_block s' = si_block s
      | RSeedBlock \<Rightarrow> si_session s' = si_session s)"

definition stops :: "string set \<Rightarrow> ('p site, err, round_result) oeff \<Rightarrow> bool" where
  "stops D m \<longleftrightarrow> (\<forall>s r s'. m s = Some (Inr r, s') \<longrightarrow> (\<exists>note. r = RDone note) \<or> tame D s s' \<and> recorded r s' \<and> other_kept r s s')"

lemma calm_tame: "calm D s t \<Longrightarrow> tame D t u \<Longrightarrow> tame D s u"
  by (simp add: calm_def tame_def)

lemma calm_other: "calm D s t \<Longrightarrow> other_kept r t u \<Longrightarrow> other_kept r s u"
  by (simp add: calm_def other_kept_def split: round_result.splits)

lemma stops_bind:
  assumes m: "cm.okeeps D m" and f: "\<And>a. stops D (f a)"
  shows "stops D (obind m f)"
  unfolding stops_def
proof (intro allI impI)
  fix s r s' assume "obind m f s = Some (Inr r, s')"
  then obtain a s1 where "m s = Some (Inr a, s1)" "f a s1 = Some (Inr r, s')" by (auto simp: obind_eq_Inr)
  with f [of a] show "(\<exists>note. r = RDone note) \<or> tame D s s' \<and> recorded r s' \<and> other_kept r s s'"
    using calm_tame [OF cm.okeepsD [OF m]] calm_other [OF cm.okeepsD [OF m]] unfolding stops_def by blast
qed

lemma ol_ebind: "ol (ebind m f) = obind (ol m) (\<lambda>a. ol (f a))"
  by (simp add: fun_eq_iff ol_def obind_def ebind_def split: prod.splits sum.splits)

lemma stops_step: "cm.keeps D m \<Longrightarrow> (\<And>a. stops D (ol (f a))) \<Longrightarrow> stops D (ol (ebind m f))"
  unfolding ol_ebind by (intro stops_bind cm.okeeps_ol)

lemma stops_lift: "(\<And>a. r = Inr a \<Longrightarrow> stops D (f a)) \<Longrightarrow> stops D (obind (ol (lift r)) f)"
  by (cases r) (auto simp: stops_def obind_def ol_def)

lemma stops_if: "(b \<Longrightarrow> stops D m) \<Longrightarrow> (\<not> b \<Longrightarrow> stops D n) \<Longrightarrow> stops D (if b then m else n)"
  by simp

lemma stops_ol_if:
  "(b \<Longrightarrow> stops D (ol m)) \<Longrightarrow> (\<not> b \<Longrightarrow> stops D (ol n)) \<Longrightarrow> stops D (ol (if b then m else n))"
  by simp

lemma stops_option: "stops D m \<Longrightarrow> (\<And>a. stops D (f a)) \<Longrightarrow> stops D (case v of None \<Rightarrow> m | Some a \<Rightarrow> f a)"
  by (cases v) simp_all

lemma stops_throw: "stops D (ol (throw e))"
  by (simp add: stops_def ol_def)

lemma stops_done: "oends not_conflict m \<Longrightarrow> stops D m"
  by (auto simp: oends_def stops_def not_conflict_def)

lemma stops_conflict: "conflicts out \<noteq> [] \<Longrightarrow> stops D (ol (conflict_round E b m t out))"
  by (auto simp: stops_def conflict_round_def ebind_def persistConflictSession_def conflicted_job_def setJob_def
    tame_def site_gd_def recorded_def other_kept_def session_of_def list_all_iff)

lemma stops_block: "stops D (ol (ebind (\<lambda>s. (Inr (), s\<lparr>si_block := Doc b\<rparr>)) (\<lambda>_.
    ebind (conflicted_job k) (\<lambda>_. ret RSeedBlock))))"
  by (auto simp: stops_def ebind_def conflicted_job_def setJob_def tame_def site_gd_def recorded_def other_kept_def)

lemma stops_meet: "stops D (meet E c peer prefs dev mi th g)"
  unfolding meet_def three_way_def
  by (intro stops_bind stops_option stops_if stops_ol_if stops_step stops_throw stops_conflict cm_merge_base cm_flat_of cm_merge_flat
      stops_done [OF nc_parts(2)] stops_done [OF oends_intros(1) [OF nc_parts(3)]]
      stops_done [OF oends_intros(1) [OF nc_parts(4)]])

lemma stops_regular:
  assumes "deviceRef (ev_endpoint E) = Inr dev" and "deviceRef peer = Inr pdev" and "{dev, pdev} \<subseteq> D"
  shows "stops D (regular_round E c peer dev pdev)"
proof -
  have "''refs/devices/'' @ peer @ ''/main'' \<in> D" using assms(2,3) by (auto simp: deviceRef_def split: if_splits)
  note f = cm.okeeps_ol [OF cm_fetch [OF this]]
  have l: "cm.okeeps D (commitLocal E)" using cm_commitLocal [OF assms(1)] assms(3) by simp
  show ?thesis
    unfolding regular_round_def get_ref_def
    by (intro stops_bind stops_option stops_if stops_throw stops_meet f l
        cm.okeeps_ol [OF cm_abort] cm.okeeps_ol [OF cm_basic(4)] cm.okeeps_ol [OF cm_basic(3)]
        stops_done [OF oends_intros(1) [OF nc_parts(1)]])
qed

lemma stops_first:
  assumes "deviceRef (ev_endpoint E) = Inr dev"
  shows "stops D (first_round E c root dev prefs g)"
proof -
  have adopt: "ends not_conflict (ebind (get_ref GROUP_REF) (\<lambda>now.
      ebind (buildMaterializeOps E [] fs) (\<lambda>ops. ebind (group_intent E i now ops) (\<lambda>_.
        ebind (advanceDevice dev None i) (\<lambda>_. finish n)))))" for fs i n
    by (intro ends_intros nc_finish)
  have pub: "oends not_conflict (obind (commitLocal E) (\<lambda>_. ol (ebind (get_ref dev) (\<lambda>commit.
      case commit of None \<Rightarrow> throw (Thrown t)
      | Some i \<Rightarrow> ebind (group_intent E i g []) (\<lambda>_. ebind (push_phase_to E c prefs [(GROUP_REF, i), (dev, i)])
          (\<lambda>_. finish n))))))" for t n
    by (intro oends_intros ends_intros nc_finish)
  show ?thesis
    unfolding first_round_def firstPull_def
    by (intro stops_lift stops_if stops_ol_if stops_option stops_bind stops_throw stops_block cm_scan cm_flat_of
        stops_done [OF oends_intros(1) [OF adopt]] stops_done [OF pub] stops_done [OF oends_intros(1) [OF nc_finish]])
qed

text \<open>
  C25. A two-way round that ends in a conflict leaves everything to the user: the working tree and
  the transaction log are as they were, no reference moved but the device's own (the local commit) and
  the mirror of the peer's, the group reference in particular; the conflict is on record, as a session
  with every path of it unresolved or as a seed block, and the record of the other kind stays as it was.
\<close>

theorem conflict_round_leaves_the_tree:
  assumes "deviceRef (ev_endpoint E) = Inr dev" and "deviceRef peer = Inr pdev"
    and "runTwoway E c root peer s = Some (Inr r, s')" and "\<And>note. r \<noteq> RDone note"
  shows "tame {dev, pdev} s s' \<and> readRef (site_gd s') GROUP_REF = readRef (site_gd s) GROUP_REF \<and> recorded r s' \<and>
    other_kept r s s'"
proof -
  have "stops {dev, pdev} (runTwoway E c root peer)"
    unfolding runTwoway_def get_ref_def
    using stops_regular [OF assms(1,2) subset_refl] stops_first [OF assms(1)] assms(1,2)
    by (auto intro!: stops_lift stops_bind stops_if cm.okeeps_ol cm_basic)
  with assms(3,4) have "tame {dev, pdev} s s' \<and> recorded r s' \<and> other_kept r s s'" unfolding stops_def by blast
  moreover have "GROUP_REF \<notin> {dev, pdev}" using deviceRef_not_group assms(1,2) by blast
  ultimately show ?thesis by (auto simp: tame_def)
qed

text \<open>A first pull into a root that holds a file.\<close>

definition block_lib :: git_lib where
  "block_lib = plain_lib\<lparr>dec_tree := (\<lambda>_. Some []),
     dec_commit := (\<lambda>_. Some \<lparr>c_message = [], c_tree = ''t'', c_parent = [], c_authorName = [], c_authorEmail = [], c_timestamp = 0\<rparr>)\<rparr>"

definition block_env :: "unit env" where
  "block_env = \<lparr>ev_lib = block_lib, ev_diff3 = (\<lambda>_ _ _. []), ev_drivers = [], ev_endpoint = ''0123abcd'', ev_device = ''laptop'',
     ev_now = int, ev_fresh = dec_str, ev_aborted = (\<lambda>_. False),
     ev_view = (\<lambda>_ _. \<lparr>dir_view = (\<lambda>_. DirOpen True 0 (Inr (Some [(''a'', KFile)])) (LNode 0)),
       file_view = (\<lambda>_. FileOpen True 1 420 [[7]]), gitignore_text = None, exclude_text = None\<rparr>),
     ev_call = (\<lambda>_ _. (Some \<lparr>ps_status = 200, ps_body = Some (JObj [(''ok'', JBool True),
       (''refs'', JObj [(GROUP_REF, JStr ''c'')])])\<rparr>, ()))\<rparr>"

definition block_site :: "unit site" where
  "block_site = (new_site ())\<lparr>si_world := empty_world\<lparr>gd :=
     \<lparr>objs = [(''c'', (''commit'', [])), (''t'', (''tree'', []))], refs = []\<rparr>\<rparr>\<rparr>"

definition demo_ctx :: ctx where
  "demo_ctx = \<lparr>cx_group = ''g'', cx_root = ''r1''\<rparr>"

definition demo_root :: sync_root where
  "demo_root = \<lparr>root_id = ''r1'', localPath = ''/home/a'', root_mode = Twoway, seedAuthority = None\<rparr>"

lemma block_run: "\<exists>s'. runTwoway block_env demo_ctx demo_root ''abcd0123'' block_site = Some (Inr RSeedBlock, s')"
proof -
  have d: "deviceRef ''0123abcd'' = Inr ''refs/devices/0123abcd/main''" "deviceRef ''abcd0123'' = Inr ''refs/devices/abcd0123/main''"
    by (simp_all add: deviceRef_def hex_between_def is_hex_def is_digit_def)
  let ?r = "\<lparr>ps_status = 200, ps_body = Some (JObj [(''ok'', JBool True), (''refs'', JObj [(GROUP_REF, JStr ''c'')])])\<rparr>"
  have f: "fetch_refs block_env demo_ctx block_site = (Inr (Some (JObj [(GROUP_REF, JStr ''c'')])), block_site)"
    by (simp add: fetch_refs_def ebind_def callPeer_def block_env_def call_ok_def resp_ok_def body_field_def jget_def)
  obtain es g where sc: "scanWorktree block_lib (ev_view block_env 0 []) None (site_gd block_site) = Some (Inr es, g)"
      "filter (\<lambda>e. se_kind e = EFile) es \<noteq> []" "grows (site_gd block_site) g"
  proof -
    have "\<exists>es g. scanWorktree block_lib (ev_view block_env 0 []) None (site_gd block_site) = Some (Inr es, g) \<and>
        filter (\<lambda>e. se_kind e = EFile) es \<noteq> []"
      by (simp add: block_env_def scanWorktree_def scan_loop_turn scan_loop_Nil scan_turn_def list_dir_def join_path_def loadRootIgnore_def
        startsWith_def file_rules_def buildMatcher_def readRegularFileAnchored_def writeBlob_pair)
    then show thesis using that scan_blobs unfolding blobs_added_def by blast
  qed
  have k: "readObject (site_gd block_site) ''c'' = Some (''commit'', [])" "readObject (site_gd block_site) ''t'' = Some (''tree'', [])"
    by (simp_all add: block_site_def site_gd_def readObject_def)
  then have k': "readObject g ''c'' = Some (''commit'', [])" "readObject g ''t'' = Some (''tree'', [])"
    using sc(3) by (simp_all add: grows_def)
  have e: "ev_lib block_env = block_lib" "ev_endpoint block_env = ''0123abcd''" by (simp_all add: block_env_def)
  have b: "si_ticks block_site = 0" "wt (si_world block_site) = []" "readRef (site_gd block_site) ''refs/devices/0123abcd/main'' = None"
    by (simp_all add: block_site_def new_site_def empty_world_def site_gd_def readRef_def)
  have p: "peer_ref (Some (JObj [(GROUP_REF, JStr ''c'')])) GROUP_REF = Inr (Some ''c'')"
    by (simp add: peer_ref_def jget_def)
  let ?s1 = "set_gd g block_site\<lparr>si_ticks := Suc 0\<rparr>"
  have scan: "scan_site block_env None block_site = Some (Inr es, ?s1)"
    by (simp add: scan_site_def e b sc(1))
  have ct: "commit_tree block_lib ''c'' g = Inr ''t''"
    by (simp add: commit_tree_def readCommitParsed_def k') (simp add: block_lib_def)
  have rf: "readFlatTree block_lib g ''t'' = Some (Inr [])"
    by (simp add: readFlatTree_def read_tree_def parse_tree_def k' flat_walk_Nil block_lib_def)
  have flat: "flat_of block_env ''c'' ?s1 = Some (Inr [], ?s1)"
    by (simp add: flat_of_def obind_def ol_def read_gd_def e ct rf)
  show ?thesis
    by (simp add: runTwoway_def obind_def ol_def e d f get_ref_def read_gd_def b first_round_def p firstPull_def
      scan flat sc(2) ebind_def conflicted_job_def)
qed

theorem conflict_round_leaves_the_tree_witness:
  "\<exists>s'. runTwoway block_env demo_ctx demo_root ''abcd0123'' block_site = Some (Inr RSeedBlock, s') \<and>
     readRef (site_gd s') GROUP_REF = readRef (site_gd block_site) GROUP_REF \<and> recorded RSeedBlock s' \<and>
     si_session s' = si_session block_site"
proof -
  obtain s' where r: "runTwoway block_env demo_ctx demo_root ''abcd0123'' block_site = Some (Inr RSeedBlock, s')"
    using block_run by blast
  have d: "deviceRef (ev_endpoint block_env) = Inr ''refs/devices/0123abcd/main''" "deviceRef ''abcd0123'' = Inr ''refs/devices/abcd0123/main''"
    by (simp_all add: block_env_def deviceRef_def hex_between_def is_hex_def is_digit_def)
  from conflict_round_leaves_the_tree [OF d r] r show ?thesis by (simp add: other_kept_def)
qed

subsection \<open>A mirror only asks\<close>

text \<open>Requests that change nothing at the peer.\<close>

definition asks :: "ctx \<Rightarrow> peer_request \<Rightarrow> bool" where
  "asks c rq \<longleftrightarrow> pq_method rq = ''GET'' \<or> pq_path rq = wire c @ ''/want''"

definition only_asks :: "ctx \<Rightarrow> peer_request list site \<Rightarrow> peer_request list site \<Rightarrow> bool" where
  "only_asks c s s' \<longleftrightarrow> (\<exists>rqs. si_peer s' = si_peer s @ rqs \<and> list_all (asks c) rqs)"

interpretation ak: effect_frame "only_asks c" for c
proof
  fix s t u :: "peer_request list site"
  show "only_asks c s s" by (auto simp: only_asks_def intro: exI [of _ "[]"])
  assume "only_asks c s t" "only_asks c t u"
  then obtain a b where "si_peer t = si_peer s @ a" "list_all (asks c) a" "si_peer u = si_peer t @ b" "list_all (asks c) b"
    by (auto simp: only_asks_def)
  then show "only_asks c s u" unfolding only_asks_def by (intro exI [of _ "a @ b"]) simp
qed

lemma ak_quiet: "(\<And>s. si_peer (snd (m s)) = si_peer s) \<Longrightarrow> ak.keeps c m"
  by (rule ak.keepsI) (auto simp: only_asks_def intro: exI [of _ "[]"])

lemma ak_basic:
  "ak.keeps c (tick f)" "ak.keeps c (read_gd h)" "ak.keeps c (set_phase ph)" "ak.keeps c (get_ref r)"
  "ak.keeps c (on_gd k)" "ak.keeps c (write_ref r i)" "ak.keeps c (\<lambda>s. (Inr x, setJob j s))"
  "ak.keeps c (buildMaterializeOps E ours merged)" "ak.keeps c (run_intent E spec)"
  by (rule ak_quiet;
      auto simp: tick_def read_gd_def set_phase_def get_ref_def on_gd_def write_ref_def setJob_def set_gd_def Let_def
        buildMaterializeOps_def run_intent_def ebind_def split: prod.splits sum.splits)+

lemma ak_call:
  assumes "\<And>p q. ev_call E p q = (reply p q, p @ [q])" and "asks c rq"
  shows "ak.keeps c (callPeer E rq)"
proof (rule ak.keepsI)
  fix s :: "peer_request list site"
  show "only_asks c s (snd (callPeer E rq s))"
    unfolding only_asks_def using assms
    by (intro exI [of _ "[rq]"]) (auto simp: callPeer_def Let_def split: option.splits)
qed

lemma ak_fetch_refs:
  assumes "\<And>p q. ev_call E p q = (reply p q, p @ [q])"
  shows "ak.keeps c (fetch_refs E c)"
  unfolding fetch_refs_def
  by (intro ak.keeps_intros ak_call [OF assms]) (simp add: asks_def get_request_def)

lemma ak_want:
  assumes "\<And>p q. ev_call E p q = (reply p q, p @ [q])"
  shows "ak.keeps c (want_loop E c commit ps acc)"
proof (induction ps arbitrary: acc)
  case (Cons page ps)
  have "asks c (want_request c commit page)" by (simp add: asks_def want_request_def)
  with Cons show ?case by (auto intro!: ak.keeps_intros ak_call [OF assms] simp del: eff_simps)
qed (simp add: ak.keeps_pure)

lemma ak_targets:
  assumes "\<And>p q. ev_call E p q = (reply p q, p @ [q])"
  shows "ak.keeps c (fetch_targets E c pr dev hv rs ms)"
  by (induction rs arbitrary: ms)
    (auto intro!: ak.keeps_intros ak_basic ak_want [OF assms] simp del: eff_simps)

lemma ak_get_object:
  assumes "\<And>p q. ev_call E p q = (reply p q, p @ [q])"
  shows "ak.keeps c (get_object E c i n)"
proof (induction n)
  case (Suc n)
  have "asks c (get_request (wire c @ ''/object/'' @ i))" by (simp add: asks_def get_request_def)
  with Suc show ?case by (auto intro!: ak.keeps_intros ak_call [OF assms] simp del: eff_simps)
qed (simp add: ak.keeps_pure del: eff_simps)

lemma ak_objects:
  assumes "\<And>p q. ev_call E p q = (reply p q, p @ [q])"
  shows "ak.keeps c (fetch_objects E c is n)"
  by (induction "is" arbitrary: n)
    (auto intro!: ak.keeps_intros ak_basic ak_get_object [OF assms] simp del: eff_simps)

lemma ak_fetch:
  assumes "\<And>p q. ev_call E p q = (reply p q, p @ [q])"
  shows "ak.keeps c (fetchFromPeer E c peer)"
  unfolding fetchFromPeer_def
  by (auto intro!: ak.keeps_intros ak_basic ak_fetch_refs [OF assms] ak_targets [OF assms] ak_objects [OF assms]
      simp del: eff_simps fetch_targets.simps)

lemma ak_flat: "ak.okeeps c (flat_of E i)" "ak.okeeps c (merge_base E a b)"
proof -
  have "ak.okeeps c (\<lambda>s. map_option (\<lambda>r. (r, s)) (readFlatTree (ev_lib E) (site_gd s) t))" for t
    by (rule ak.okeepsI) (auto simp: ak.R_refl)
  then show "ak.okeeps c (flat_of E i)" unfolding flat_of_def by (intro ak.okeeps_intros ak_basic)
  show "ak.okeeps c (merge_base E a b)" by (rule ak.okeepsI) (auto simp: merge_base_def ak.R_refl)
qed

lemma ak_follow: "ak.okeeps c (follow E dev m g target)"
  unfolding follow_def group_intent_def advanceDevice_def finish_def
  by (intro ak.okeeps_intros ak.keeps_intros ak_basic ak_flat)

text \<open>
  A one-way mirror never pushes: whatever its peer answers and however the round ends, every
  request it makes only asks for references, missing objects or objects.
\<close>

theorem mirror_only_asks:
  assumes rec: "\<And>p q. ev_call E p q = (reply p q, p @ [q])"
    and "seedAuthority root \<noteq> Some (ev_endpoint E)"
    and "runOneway E c root peer s = Some (r, s')"
  shows "\<exists>rqs. si_peer s' = si_peer s @ rqs \<and>
    list_all (\<lambda>rq. pq_method rq = ''GET'' \<or> pq_path rq = wire c @ ''/want'') rqs"
proof -
  have "ak.okeeps c (mirror_round E c peer dev)" for dev
    unfolding mirror_round_def finish_def
    by (intro ak.okeeps_intros ak.keeps_intros ak_basic ak_flat ak_follow ak_fetch [OF rec])
  then have "ak.okeeps c (runOneway E c root peer)"
    unfolding runOneway_def using assms(2) by (auto intro!: ak.okeeps_intros ak.keeps_intros simp del: eff_simps)
  from ak.okeepsD [OF this assms(3)] show ?thesis by (simp add: only_asks_def asks_def [abs_def])
qed

theorem mirror_only_asks_witness:
  "\<exists>r s' rqs. runOneway full_env demo_ctx demo_root ''abcd0123'' small_site = Some (r, s') \<and>
    si_peer s' = rqs \<and> list_all (\<lambda>rq. pq_method rq = ''GET'' \<or> pq_path rq = wire demo_ctx @ ''/want'') rqs"
proof -
  have d: "deviceRef ''0123abcd'' = Inr ''refs/devices/0123abcd/main''"
    by (simp add: deviceRef_def hex_between_def is_hex_def is_digit_def)
  have rec: "ev_call full_env p q = (Some \<lparr>ps_status = 200, ps_body = None\<rparr>, p @ [q])" for p q
    by (simp add: full_env_def)
  have seed: "seedAuthority demo_root \<noteq> Some (ev_endpoint full_env)" by (simp add: demo_root_def)
  have e: "ev_endpoint full_env = ''0123abcd''" by (simp add: full_env_def)
  have f: "\<exists>x s1. fetchFromPeer full_env demo_ctx ''abcd0123'' s = (Inl x, s1)" for s
    by (simp add: fetchFromPeer_def fetch_refs_def ebind_def callPeer_def rec call_ok_def body_field_def)
  obtain x s1 where f1: "fetchFromPeer full_env demo_ctx ''abcd0123'' (setJob (\<lambda>j. j\<lparr>j_phase := ''fetching''\<rparr>) small_site) = (Inl x, s1)"
    using f by blast
  have run: "runOneway full_env demo_ctx demo_root ''abcd0123'' small_site = Some (Inl x, s1)"
    by (simp add: runOneway_def e d obind_def ol_def demo_root_def mirror_round_def set_phase_def f1)
  have "si_peer small_site = []" by (simp add: small_site_def new_site_def)
  then show ?thesis using mirror_only_asks [OF rec seed run] run by auto
qed

subsection \<open>Resolving a conflict\<close>

text \<open>The store keeps its objects, each under its own name and of a known type.\<close>

definition keeps_store :: "git_lib \<Rightarrow> 'p site \<Rightarrow> 'p site \<Rightarrow> bool" where
  "keeps_store L s s' \<longleftrightarrow> (typed L (site_gd s) \<longrightarrow> typed L (site_gd s') \<and> grows (site_gd s) (site_gd s'))"

interpretation ks: effect_frame "keeps_store L" for L
  by unfold_locales (auto simp: keeps_store_def intro: grows_trans)

lemma ks_same: "(\<And>s. readObject (site_gd (snd (m s))) = readObject (site_gd s)) \<Longrightarrow> ks.keeps L m"
  by (rule ks.keepsI) (simp add: keeps_store_def typed_def self_named_def grows_def)

lemma objects_same:
  "readObject (gd (snd (applyOp op tx w))) = readObject (gd w)"
  "readObject (gd (snd (apply_ops cr tx n ops w))) = readObject (gd w)"
  "readObject (gd (snd (executeIntent cr tx spec w))) = readObject (gd w)"
proof -
  have w: "readObject (gd (snd (on_wt m w))) = readObject (gd w)" for m :: "(wtree, err, 'a) eff" and w
    by (auto simp: on_wt_def Let_def split: prod.splits)
  show a: "readObject (gd (snd (applyOp op tx w))) = readObject (gd w)" for op w
    by (auto simp: applyOp_def w split: option.splits)
  show b: "readObject (gd (snd (apply_ops cr tx n ops w))) = readObject (gd w)" for n ops w
  proof (induction ops arbitrary: n w)
    case (Cons op ops)
    obtain r w1 where 1: "applyOp op tx w = (r, w1)" by force
    have "readObject (gd w1) = readObject (gd w)" using a [of op w] 1 by simp
    with 1 Cons show ?case by (auto simp: ebind_def crash_point_def split: sum.splits)
  qed simp
  have adv: "readObject (gd (snd (advanceRef rec w))) = readObject (gd w)" for rec w
    by (auto simp: advanceRef_def split: sum.splits dest: writeRef_ok(2))
  show "readObject (gd (snd (executeIntent cr tx spec w))) = readObject (gd w)"
  proof -
    have e: "readObject (gd (snd (ebind m f w))) = readObject (gd w)"
      if "\<And>w. readObject (gd (snd (m w))) = readObject (gd w)" "\<And>a w. readObject (gd (snd (f a w))) = readObject (gd w)"
      for m :: "(world, err, 'b) eff" and f :: "'b \<Rightarrow> (world, err, 'c) eff" and w
      using that by (auto simp: ebind_def split: prod.splits sum.splits) (metis snd_conv)+
    have c: "readObject (gd (snd (crash_point cr st w))) = readObject (gd w)" for st w by (simp add: crash_point_def)
    have p: "readObject (gd (snd (prepareIntent tx spec w))) = readObject (gd w)" for w
      by (auto simp: prepareIntent_def ebind_def Let_def split: sum.splits option.splits)
    have m: "readObject (gd (snd (markDone rec w))) = readObject (gd w)" "readObject (gd (snd (clearIntent w))) = readObject (gd w)" for rec w
      by (simp_all add: markDone_def clearIntent_def)
    show ?thesis unfolding executeIntent_def by (intro e p c b adv m) simp
  qed
qed

lemma ks_basic:
  "ks.keeps L (tick f)" "ks.keeps L (read_gd h)" "ks.keeps L (set_phase ph)" "ks.keeps L (get_ref r)"
  "ks.keeps L (persistConflictSession se)" "ks.keeps L (\<lambda>s. (Inr x, setJob j s))" "ks.keeps L (callPeer E rq)"
  by (rule ks_same;
      auto simp: tick_def read_gd_def set_phase_def get_ref_def persistConflictSession_def callPeer_def Let_def site_gd_def
        setJob_def split: prod.splits option.splits)+

lemma ks_write_ref: "ks.keeps L (write_ref r i)"
  by (rule ks_same) (auto simp: write_ref_def dest: writeRef_ok(2) split: sum.splits)

lemma ks_intent: "ks.keeps L (group_intent E i old ops)"
proof -
  have "ks.keeps L (\<lambda>s :: 'a site. (let (r, w) = executeIntent (\<lambda>_. False) tx spec (si_world s)
        in (case r of Inl e \<Rightarrow> Inl e | Inr _ \<Rightarrow> Inr (), s\<lparr>si_world := w\<rparr>)))" for tx spec
  proof (rule ks_same)
    fix s :: "'a site"
    show "readObject (site_gd (snd (let (r, w) = executeIntent (\<lambda>_. False) tx spec (si_world s)
        in (case r of Inl e \<Rightarrow> Inl e | Inr _ \<Rightarrow> Inr (), s\<lparr>si_world := w\<rparr>)))) = readObject (site_gd s)"
      using objects_same(3) [of "\<lambda>_. False" tx spec "si_world s"] by (auto simp: site_gd_def split: prod.splits)
  qed
  then show ?thesis unfolding group_intent_def run_intent_def by (intro ks.keeps_intros ks_basic)
qed

lemma ks_push: "ks.keeps L (pushToPeer E c prefs ts)"
  by (induction ts) (auto intro!: ks.keeps_intros ks_basic simp del: eff_simps)

lemma ks_build: "ks.keeps L (buildMaterializeOps E ours merged)" if "ev_lib E = L"
proof (rule ks.keepsI)
  have p: "blobs_added L g (snd (pathStateTuple L t p g))" for t p g
    by (auto simp: pathStateTuple_def Let_def blobs_added_refl blobs_added_write split: option.splits node.splits prod.splits
        dest: arg_cong [where f = snd])
      (metis blobs_added_write snd_conv)
  have "blobs_added L g (snd (build_ops L t ours merged ps g))" for t ps g
  proof (induction ps arbitrary: g)
    case (Cons q ps)
    obtain pre g1 where 1: "pathStateTuple L t q g = (pre, g1)" by (cases "pathStateTuple L t q g") auto
    have "blobs_added L g g1" using p [of g t q] 1 by simp
    with Cons [of g] Cons [of g1] 1 show ?case
      by (auto split: option.splits prod.splits intro: blobs_added_trans)
  qed (simp add: blobs_added_refl)
  then show "keeps_store L s (snd (buildMaterializeOps E ours merged s))" for s
    using that by (auto simp: buildMaterializeOps_def keeps_store_def blobs_added_def split: prod.splits) (metis snd_conv)+
qed

lemma fr_push: "fr.keeps L D (pushToPeer E c prefs ts)"
  by (induction ts) (auto intro!: fr_intros simp del: eff_simps)

lemma fr_announce: "fr.keeps L D (announce E c dev i)"
  unfolding announce_def by (intro fr_intros fr_push)


lemma parsed_grows: "grows g g' \<Longrightarrow> readCommitParsed L g i = Some c \<Longrightarrow> readCommitParsed L g' i = Some c"
  by (auto simp: readCommitParsed_def grows_def split: option.splits)

lemma ks_blob: "ks.keeps L (on_gd (\<lambda>g. writeObject L g ''blob'' bs) :: ('p site, err, oid) eff)"
proof (rule ks.keepsI)
  fix s :: "'p site"
  show "keeps_store L s (snd (on_gd (\<lambda>g. writeObject L g ''blob'' bs) s))"
    using blobs_added_write [of L "site_gd s" bs]
    by (cases "writeObject L (site_gd s) ''blob'' bs")
      (simp add: on_gd_def keeps_store_def blobs_added_def writeBlob_def)
qed

lemma ks_resolve_one: "ks.keeps (ev_lib E) (resolve_one E c d)"
  unfolding resolve_one_def resolve_hunks_def by (intro ks.keeps_intros ks_basic ks_blob)

lemma ks_resolve_all: "ks.keeps (ev_lib E) (resolve_all E ds cs)"
proof (induction cs)
  case (Cons c cs)
  have "ks.keeps (ev_lib E) (case r of Inl k \<Rightarrow> ret (Inl k) | Inr e \<Rightarrow>
      ebind (resolve_all E ds cs) (\<lambda>rest. case rest of Inl k \<Rightarrow> ret (Inl k)
        | Inr (es, gone) \<Rightarrow> ret (Inr (case e of Some x \<Rightarrow> (x # es, gone) | None \<Rightarrow> (es, mc_path c # gone)))))" for r
    using Cons by (cases r) (auto intro!: ks.keeps_pure ks.keeps_bind split: sum.splits simp del: eff_simps)
  then show ?case 
    by (auto intro!: ks.keeps_pure ks.keeps_bind ks_resolve_one split: option.splits simp del: eff_simps)
qed (simp add: ks.keeps_pure del: eff_simps)

lemma commit_merge_spec:
  assumes "tree_codec (ev_lib E)" "collision_free (ev_lib E)" "commit_codec (ev_lib E)"
    and "typed (ev_lib E) (site_gd s)" and "commit_merge E msg es a b s = (Inr i, s')"
  shows "typed (ev_lib E) (site_gd s') \<and>
    (\<exists>cm. readCommitParsed (ev_lib E) (site_gd s') i = Some cm \<and> c_parent cm = sorted_pair a b)"
proof -
  obtain t g1 where 1: "writeTreeFromFlat (ev_lib E) (site_gd s) (entry_files es) = (t, g1)" by force
  let ?c = "\<lparr>c_message = msg, c_tree = t, c_parent = sorted_pair a b,
      c_authorName = endpointAbbrev (ev_endpoint E) @ '' '' @ ev_device E,
      c_authorEmail = endpointAbbrev (ev_endpoint E) @ ''@device.sync'', c_timestamp = ev_now E (si_ticks s)\<rparr>"
  obtain j g2 where 2: "writeCommitOid (ev_lib E) g1 ?c = (j, g2)" by force
  from assms(5) 1 2 have "i = j" "site_gd s' = g2"
    by (auto simp: commit_merge_def new_commit_def ebind_def on_gd_def tick_def)
  with writeTree_stores [OF assms(1,2,4) 1] writeCommit_stores [OF assms(2,3) _ 2] show ?thesis by auto
qed

lemma keeps_parsed:
  assumes "keeps_store (ev_lib E) s s'" "typed (ev_lib E) (site_gd s)" "readCommitParsed (ev_lib E) (site_gd s) i = Some c"
  shows "readCommitParsed (ev_lib E) (site_gd s') i = Some c"
  using assms parsed_grows by (auto simp: keeps_store_def)

lemma advance_sets:
  assumes "get_ref dev s = (Inr cur, s1)" "advanceDevice dev cur i s1 = (Inr (), s2)"
  shows "readRef (site_gd s2) dev = Some i"
  using assms writeRef_ok(1) [of "site_gd s" dev i]
  by (auto simp: get_ref_def read_gd_def advanceDevice_def ebind_eq_Inr write_ref_def split: if_splits sum.splits)

lemma ks_advance: "ks.keeps L (advanceDevice dev cur i)"
  unfolding advanceDevice_def by (intro ks.keeps_intros ks_basic ks_write_ref)

lemma ks_announce: "ks.keeps L (announce E c dev i)"
  unfolding announce_def by (intro ks.keeps_intros ks_basic ks_push)

lemma ks_run: "ks.keeps L m \<Longrightarrow> m s = (x, s') \<Longrightarrow> keeps_store L s s'"
  using ks.keepsD [of L m s] by simp

lemma flat_of_same: "flat_of E i s = Some (r, s') \<Longrightarrow> keeps_store L s s'"
  by (auto simp: flat_of_def obind_def ol_def read_gd_def keeps_store_def grows_def split: sum.splits)

lemma applied_resolution:
  assumes L: "tree_codec (ev_lib E)" "collision_free (ev_lib E)" "commit_codec (ev_lib E)"
    and t: "typed (ev_lib E) (site_gd s)" and dev: "deviceRef (ev_endpoint E) = Inr dev"
    and run: "apply_resolution E c g se es gone s = Some (Inr r, s')"
  shows "\<exists>i cm. r = RResolved i \<and> readRef (site_gd s') dev = Some i \<and>
    readCommitParsed (ev_lib E) (site_gd s') i = Some cm \<and> c_parent cm = sorted_pair (ss_ours se) (ss_theirs se)"
proof -
  let ?L = "ev_lib E"
  from run obtain i s1 ours s2 ops s3 cur s4 s5 s6 now s7 s8 s9 s10 where
    1: "commit_merge E (''sync: conflict resolution on '' @ ev_device E @ '' ('' @ endpointAbbrev (ev_endpoint E) @ '')'')
          (map_entries (final_map (ss_merged se) es gone)) (ss_ours se) (ss_theirs se) s = (Inr i, s1)"
    and 2: "flat_of E (ss_ours se) s1 = Some (Inr ours, s2)"
    and 3: "buildMaterializeOps E ours (map_entries (final_map (ss_merged se) es gone)) s2 = (Inr ops, s3)"
    and 4: "get_ref GROUP_REF s3 = (Inr cur, s4)" and 5: "group_intent E i cur ops s4 = (Inr (), s5)"
    and 6: "get_ref dev s5 = (Inr now, s6)" and 7: "advanceDevice dev now i s6 = (Inr (), s7)"
    and 8: "persistConflictSession (mark_resolved se) s7 = (Inr (), s8)"
    and 9: "(case peerOf E g of None \<Rightarrow> ret () | Some peer \<Rightarrow> announce E c dev i) s8 = (Inr (), s9)"
    and 10: "r = RResolved i" "s' = setJob (\<lambda>j. j\<lparr>j_phase := ''done'', j_error := None\<rparr>) s9"
    unfolding apply_resolution_def Let_def
    by (auto simp: obind_eq_Inr ebind_eq_Inr dev)
  from commit_merge_spec [OF L t 1] obtain cm where
    c: "typed ?L (site_gd s1)" "readCommitParsed ?L (site_gd s1) i = Some cm"
      "c_parent cm = sorted_pair (ss_ours se) (ss_theirs se)" by blast
  note k = ks_run
  have k9: "keeps_store ?L s8 s9"
    using 9 by (auto split: option.splits dest: k [OF ks_announce] simp: ks.R_refl)
  have "keeps_store ?L s1 s2" using 2 by (simp add: flat_of_same)
  also have "keeps_store ?L s2 s3" by (rule k [OF ks_build 3]) simp
  also (ks.R_trans) have "keeps_store ?L s3 s4" by (rule k [OF ks_basic(4) 4])
  also (ks.R_trans) have "keeps_store ?L s4 s5" by (rule k [OF ks_intent 5])
  also (ks.R_trans) have "keeps_store ?L s5 s6" by (rule k [OF ks_basic(4) 6])
  also (ks.R_trans) have "keeps_store ?L s6 s7" by (rule k [OF ks_advance 7])
  also (ks.R_trans) have "keeps_store ?L s7 s8" by (rule k [OF ks_basic(5) 8])
  also (ks.R_trans) note k9
  finally (ks.R_trans) have "keeps_store ?L s1 s9" .
  from keeps_parsed [OF this c(1,2)] have "readCommitParsed ?L (site_gd s9) i = Some cm" .
  moreover have "readRef (site_gd s9) dev = Some i"
  proof -
    have "site_gd s8 = site_gd s7" using 8 by (auto simp: persistConflictSession_def site_gd_def)
    moreover have "readRef (site_gd s9) dev = readRef (site_gd s8) dev"
      using 9 fr.keepsD [OF fr_announce [of ?L "{}" E c dev i], of s8]
      by (auto simp: site_frame_def split: option.splits)
    ultimately show ?thesis using advance_sets [OF 6 7] by simp
  qed
  ultimately show ?thesis using 10 c(3) by (simp add: site_gd_def setJob_def)
qed

text \<open>
  A conflict resolution that reports success leaves this device at a commit that is in the store
  and whose parents are the two commits the recorded session was about, in the order of their names:
  both ends that resolve the session name the same parents, and a commit made on this device since the
  session was recorded is not among them.
\<close>

theorem resolution_joins_the_recorded_commits:
  assumes "tree_codec (ev_lib E)" "collision_free (ev_lib E)" "commit_codec (ev_lib E)"
    and "typed (ev_lib E) (site_gd s)" and "deviceRef (ev_endpoint E) = Inr dev"
    and "si_session s = Doc se"
    and "resolveConflicts E c g ds s = Some (Inr (RResolved i), s')"
  shows "readRef (site_gd s') dev = Some i \<and>
    (\<exists>cm. readCommitParsed (ev_lib E) (site_gd s') i = Some cm \<and>
       c_parent cm = sorted_pair (ss_ours se) (ss_theirs se))"
proof -
  let ?cs = "map sc_conflict (filter (\<lambda>r. \<not> sc_resolved r) (ss_conflicts se))"
  from assms(6,7) obtain r s1 where r: "resolve_all E ds ?cs s = (Inr r, s1)"
    and a: "(case r of Inl k \<Rightarrow> ol (ret (RRefused k)) | Inr (es, gone) \<Rightarrow> apply_resolution E c g se es gone) s1 =
      Some (Inr (RResolved i), s')"
    by (auto simp: resolveConflicts_def Let_def obind_eq_Inr split: if_splits)
  from a obtain es gone where "r = Inr (es, gone)" and 2: "apply_resolution E c g se es gone s1 = Some (Inr (RResolved i), s')"
    by (auto split: sum.splits prod.splits)
  with r have 1: "resolve_all E ds ?cs s = (Inr (Inr (es, gone)), s1)" by simp
  have "typed (ev_lib E) (site_gd s1)"
    using ks_run [OF ks_resolve_all 1] assms(4) by (simp add: keeps_store_def)
  from applied_resolution [OF assms(1-3) this assms(5) 2] show ?thesis by auto
qed

definition deletion_session :: "oid \<Rightarrow> session" where
  "deletion_session i = \<lparr>ss_base = i, ss_ours = i, ss_theirs = i, ss_merged = [], ss_conflicts =
     [\<lparr>sc_id = ''0'', sc_conflict = \<lparr>mc_path = ''a'', mc_level = LFile, mc_kind = KDeleteModify, mc_base = None,
         mc_ours = None, mc_theirs = None, mc_hunks = []\<rparr>, sc_driver = None, sc_resolved = False\<rparr>]\<rparr>"

definition solo_group :: sync_group where
  "solo_group = \<lparr>group_id = ''g'', group_name = ''g'', members = [], roots = []\<rparr>"

definition drop_it :: "string \<Rightarrow> resolution option" where
  "drop_it p = Some \<lparr>rs_choices = None, rs_choice = Some ''delete'', rs_content = None, rs_mode = None\<rparr>"

lemma empty_commit:
  obtains g i cm where "typed full_lib g" "refs g = []" "readCommitParsed full_lib g i = Some cm"
    "readFlatTree full_lib g (c_tree cm) = Some (Inr [])"
proof -
  obtain t g1 where t: "writeTreeFromFlat full_lib empty_gitdir [] = (t, g1)" by force
  let ?c = "\<lparr>c_message = [], c_tree = t, c_parent = [], c_authorName = [], c_authorEmail = [], c_timestamp = 0\<rparr>"
  obtain i g2 where c: "writeCommitOid full_lib g1 ?c = (i, g2)" by force
  have ty: "typed full_lib empty_gitdir" by (simp add: typed_def self_named_def readObject_def empty_gitdir_def)
  from writeTree_stores [OF full_codecs(1,2) ty t] have 1: "typed full_lib g1" "refs g1 = []" by (auto simp: empty_gitdir_def)
  from writeCommit_stores [OF full_codecs(2,3) 1(1) c] 1 obtain cm where
    2: "typed full_lib g2" "grows g1 g2" "refs g2 = []" "readCommitParsed full_lib g2 i = Some cm" "c_tree cm = t" by auto
  obtain flat where "readFlatTree full_lib g1 t = Some (Inr flat)" "kinds flat = (\<lambda>p. None)"
    using flat_tree_round_trip' [OF full_codecs(1,2) ty, of "[]"] t by (auto simp: closed_files_def fun_eq_iff)
  moreover from this have "flat = []" by (cases flat) (auto simp: kinds_def fun_eq_iff split: if_splits)
  ultimately have "readFlatTree full_lib g2 t = Some (Inr [])" using readFlatTree_grows [OF _ 2(2)] by auto
  with 2 show thesis by (intro that [of g2 i cm]) auto
qed

theorem resolution_joins_the_recorded_commits_witness:
  "\<exists>s i s' se. typed full_lib (site_gd s) \<and> si_session s = Doc se \<and>
     resolveConflicts full_env demo_ctx solo_group drop_it s = Some (Inr (RResolved i), s') \<and>
     readRef (site_gd s') ''refs/devices/0123abcd/main'' = Some i \<and>
     (\<exists>cm. readCommitParsed full_lib (site_gd s') i = Some cm \<and> c_parent cm = sorted_pair (ss_ours se) (ss_theirs se))"
proof -
  obtain g c cm where g: "typed full_lib g" "refs g = []" "readCommitParsed full_lib g c = Some cm"
    "readFlatTree full_lib g (c_tree cm) = Some (Inr [])" by (rule empty_commit)
  let ?se = "deletion_session c"
  define s :: "peer_request list site" where
    "s = (new_site [])\<lparr>si_world := empty_world\<lparr>gd := g\<rparr>, si_session := Doc ?se\<rparr>"
  define msg where "msg = ''sync: conflict resolution on '' @ ev_device full_env @ '' ('' @ endpointAbbrev (ev_endpoint full_env) @ '')''"
  have L: "ev_lib full_env = full_lib" by (simp add: full_env_def)
  have dev: "deviceRef (ev_endpoint full_env) = Inr ''refs/devices/0123abcd/main''"
    by (simp add: full_env_def deviceRef_def hex_between_def is_hex_def is_digit_def)
  have s: "site_gd s = g" "si_ticks s = 0" "si_session s = Doc ?se" "intent_file (si_world s) = Absent"
    by (simp_all add: site_gd_def s_def new_site_def empty_world_def)
  obtain t g1 where t: "writeTreeFromFlat full_lib g [] = (t, g1)" by force
  let ?c = "\<lparr>c_message = msg, c_tree = t, c_parent = sorted_pair c c,
      c_authorName = endpointAbbrev (ev_endpoint full_env) @ '' '' @ ev_device full_env,
      c_authorEmail = endpointAbbrev (ev_endpoint full_env) @ ''@device.sync'', c_timestamp = ev_now full_env 0\<rparr>"
  obtain i g2 where i: "writeCommitOid full_lib g1 ?c = (i, g2)" by force
  from writeTree_stores [OF full_codecs(1,2) g(1) t] have 1: "typed full_lib g1" "grows g g1" "refs g1 = []" using g(2) by auto
  from writeCommit_stores [OF full_codecs(2,3) 1(1) i] 1 have 2: "grows g g2" "refs g2 = []"
    by (auto intro: grows_trans)
  have fl: "readFlatTree full_lib g2 (c_tree cm) = Some (Inr [])" by (rule readFlatTree_grows [OF g(4) 2(1)])
  note cm = parsed_grows [OF 2(1) g(3)]
  define s1 where "s1 = (set_gd g2 s)\<lparr>si_ticks := 1\<rparr>"
  have m: "commit_merge full_env msg [] c c s = (Inr i, s1)"
    using t i 

    by (simp add: commit_merge_def new_commit_def ebind_def on_gd_def tick_def L s entry_files_def s1_def)
      (simp add: set_gd_def)
  have f: "flat_of full_env c s1 = Some (Inr [], s1)"
    using fl cm by (simp add: flat_of_def obind_def ol_def read_gd_def L commit_tree_def s1_def)
  have b: "buildMaterializeOps full_env [] [] s1 = (Inr [], s1)"
    by (simp add: buildMaterializeOps_def op_paths_of_def akeys_def uniq_def) (simp add: set_gd_def site_gd_def)
  have e: "\<exists>s2. group_intent full_env i None [] s1 = (Inr (), s2) \<and> readRef (site_gd s2) ''refs/devices/0123abcd/main'' = None"
    using 2(2) by (simp add: group_intent_def run_intent_def ebind_def tick_def executeIntent_def prepareIntent_def
      readPendingIntent_def s s1_def crash_point_def advanceRef_def writeRef_def isAllowedRef_def
      readRef_def markDone_def clearIntent_def site_gd_def set_gd_def Let_def GROUP_REF_def)
  then obtain s2 where s2: "group_intent full_env i None [] s1 = (Inr (), s2)"
    "readRef (site_gd s2) ''refs/devices/0123abcd/main'' = None" by blast
  obtain g3 where g3: "writeRef (site_gd s2) ''refs/devices/0123abcd/main'' i = Inr g3"
    using deviceRef_allowed [OF dev] by (simp add: writeRef_def)
  have adv: "advanceDevice ''refs/devices/0123abcd/main'' None i s2 = (Inr (), set_gd g3 s2)"
    using s2(2) g3 by (simp add: advanceDevice_def ebind_def get_ref_def read_gd_def write_ref_def)
  have none: "readRef (site_gd s1) GROUP_REF = None" using 2(2) by (simp add: s1_def readRef_def)
  have fm: "map_entries (final_map (ss_merged ?se) [] [''a'']) = []"
    by (simp add: deletion_session_def final_map_def map_entries_def adel_def)
  let ?s5 = "setJob (\<lambda>j. j\<lparr>j_phase := ''done'', j_error := None\<rparr>) ((set_gd g3 s2)\<lparr>si_session := Doc (mark_resolved ?se)\<rparr>)"
  have se: "ss_ours ?se = c" "ss_theirs ?se = c" by (simp_all add: deletion_session_def)
  have ap: "apply_resolution full_env demo_ctx solo_group ?se [] [''a''] s = Some (Inr (RResolved i), ?s5)"
    unfolding apply_resolution_def Let_def msg_def [symmetric] fm se
    by (simp add: obind_def ol_def m f ebind_def b get_ref_def read_gd_def none s2 dev adv persistConflictSession_def
      peerOf_def solo_group_def)
  have "resolveConflicts full_env demo_ctx solo_group drop_it s = Some (Inr (RResolved i), ?s5)"
    using ap by (simp add: resolveConflicts_def s Let_def obind_def ol_def ebind_def drop_it_def resolve_one_def
      deletion_session_def)
  from resolution_joins_the_recorded_commits [of full_env, unfolded L, OF full_codecs _ dev s(3) this] this s g(1)
  show ?thesis by auto
qed

end
