(* ===== verification/ShortCode.thy ===== *)
theory ShortCode
  imports Utf8 Z32 Json
begin

text \<open>
  Access short codes and IPv6 texts (opendweb, util.mjs): the checksum, the coding of an address and a
  port as crockford characters, the tolerant decoder, the display form, and the normalisation of the
  \<^verbatim>\<open>--server\<close> argument.

  Payload bytes are 8-bit words and the checksum register a 16-bit word, so \<^verbatim>\<open>& 0xffff\<close> is the width
  of the word.  Groups of an IPv6 address are natural numbers below \<open>2 ^ 16\<close>.
\<close>

unbundle bit_operations_syntax

subsection \<open>Numbers as text\<close>

function hex_num :: "nat \<Rightarrow> string" where
  "hex_num n = (if n < 16 then [hex_char n] else hex_num (n div 16) @ [hex_char (n mod 16)])"
  by pat_completeness auto
termination by (relation "measure id") auto

declare hex_num.simps [simp del]

definition ascii_lower :: "char \<Rightarrow> char" where
  "ascii_lower c = (if CHR ''A'' \<le> c \<and> c \<le> CHR ''Z'' then char_of (of_char c + 32 :: nat) else c)"

definition to_lower :: "string \<Rightarrow> string" where
  "to_lower = map ascii_lower"

definition hex_value :: "char \<Rightarrow> nat" where
  "hex_value c = (if is_digit c then of_char c - 48 else of_char (ascii_lower c) - 87)"

text \<open>\<^verbatim>\<open>parseInt(g, 16)\<close> and \<^verbatim>\<open>Number(s)\<close> on digits only.\<close>

definition parse_hex :: "string \<Rightarrow> nat" where
  "parse_hex s = foldl (\<lambda>a c. 16 * a + hex_value c) 0 s"

definition parse_dec :: "string \<Rightarrow> nat" where
  "parse_dec s = foldl (\<lambda>a c. 10 * a + (of_char c - 48)) 0 s"

text \<open>\<^verbatim>\<open>net.isIPv4\<close>: four decimal numbers up to 255 without leading zeros.\<close>

definition v4_part :: "string \<Rightarrow> bool" where
  "v4_part s \<longleftrightarrow> s \<noteq> [] \<and> length s \<le> 3 \<and> list_all is_digit s \<and> (hd s = CHR ''0'' \<longrightarrow> length s = 1) \<and> parse_dec s \<le> 255"

definition isIPv4 :: "string \<Rightarrow> bool" where
  "isIPv4 s \<longleftrightarrow> length (split_on CHR ''.'' s) = 4 \<and> list_all v4_part (split_on CHR ''.'' s)"

subsection \<open>IPv6 texts\<close>

definition parseIpv6Group :: "string \<Rightarrow> nat option" where
  "parseIpv6Group g =
     (if 1 \<le> length g \<and> length g \<le> 4 \<and> list_all (\<lambda>c. is_hex (ascii_lower c)) g then Some (parse_hex g) else None)"

fun parse_groups :: "string list \<Rightarrow> nat list option" where
  "parse_groups [] = Some []"
| "parse_groups (g # gs) =
     (case parseIpv6Group g of None \<Rightarrow> None | Some v \<Rightarrow> map_option (Cons v) (parse_groups gs))"

text \<open>The text around the first \<^verbatim>\<open>::\<close>.\<close>

fun cut_double :: "string \<Rightarrow> (string \<times> string) option" where
  "cut_double (a # b # r) =
     (if a = CHR '':'' \<and> b = CHR '':'' then Some ([], r)
      else map_option (\<lambda>(h, t). (a # h, t)) (cut_double (b # r)))"
| "cut_double _ = None"

definition parts_of :: "string \<Rightarrow> string list" where
  "parts_of s = (if s = [] then [] else split_on CHR '':'' s)"

text \<open>A last group in the form of an IPv4 address becomes two groups.\<close>

definition unfold_v4 :: "string \<Rightarrow> string option" where
  "unfold_v4 s =
     (let parts = split_on CHR '':'' s; tl4 = last parts
      in if length parts = 1 \<or> CHR ''.'' \<notin> set tl4 then Some s
         else if \<not> isIPv4 tl4 then None
         else (let n = map parse_dec (split_on CHR ''.'' tl4)
               in Some (take (length s - length tl4) s @ hex_num (n ! 0 * 256 + n ! 1) @ '':'' @ hex_num (n ! 2 * 256 + n ! 3))))"

definition parseIpv6Groups :: "string \<Rightarrow> nat list option" where
  "parseIpv6Groups ip =
     (if CHR ''%'' \<in> set ip then None
      else (case unfold_v4 (to_lower ip) of
              None \<Rightarrow> None
            | Some s \<Rightarrow>
                (case cut_double s of
                   Some (h, t) \<Rightarrow>
                     if cut_double (CHR '':'' # t) \<noteq> None then None
                     else (let hp = parts_of h; tp = parts_of t
                           in if 8 < length hp + length tp + 1 then None
                              else (case (parse_groups hp, parse_groups tp) of
                                      (Some hg, Some tg) \<Rightarrow> Some (hg @ replicate (8 - length hp - length tp) 0 @ tg)
                                    | _ \<Rightarrow> None))
                 | None \<Rightarrow>
                     (let parts = split_on CHR '':'' s
                      in if length parts \<noteq> 8 then None else parse_groups parts))))"

text \<open>The first longest run of zero groups, as start and length.\<close>

function best_run :: "string list \<Rightarrow> nat \<Rightarrow> nat \<times> nat \<Rightarrow> nat \<times> nat" where
  "best_run [] i best = best"
| "best_run (h # hs) i best =
     (if h = ''0'' then
        (let n = Suc (length (takeWhile (\<lambda>g. g = ''0'') hs))
         in best_run (dropWhile (\<lambda>g. g = ''0'') hs) (i + n) (if snd best < n then (i, n) else best))
      else best_run hs (Suc i) best)"
  by pat_completeness auto
termination by (relation "measure (\<lambda>(hs, i, best). length hs)") (auto simp: le_imp_less_Suc length_dropWhile_le)

definition formatIpv6Groups :: "nat list \<Rightarrow> string" where
  "formatIpv6Groups gs =
     (let hx = map hex_num gs; (st, n) = best_run hx 0 (0, 0)
      in if n < 2 then join_with CHR '':'' hx
         else join_with CHR '':'' (take st hx) @ ''::'' @ join_with CHR '':'' (drop (st + n) hx))"

text \<open>\<^verbatim>\<open>fe80::/10\<close>, \<^verbatim>\<open>fc00::/7\<close> and \<^verbatim>\<open>2000::/3\<close>\<close>

definition isLinkLocalIpv6 :: "nat list \<Rightarrow> bool" where
  "isLinkLocalIpv6 gs \<longleftrightarrow> (word_of_nat (gs ! 0) :: 16 word) AND 0xffc0 = 0xfe80"

record net_address =
  na_family :: string
  na_internal :: bool
  na_address :: string

text \<open>The addresses that can be shown, in the order found, each once.\<close>

definition routableIPv6s :: "net_address list \<Rightarrow> string list" where
  "routableIPv6s nis =
     uniq (concat (map (\<lambda>ni.
       if (na_family ni \<noteq> ''IPv6'' \<and> na_family ni \<noteq> ''6'') \<or> na_internal ni then []
       else (case parseIpv6Groups (na_address ni) of
               None \<Rightarrow> []
             | Some gs \<Rightarrow>
                 (let first = word_of_nat (gs ! 0) :: 16 word
                  in if first AND 0xfe00 = 0xfc00 \<or> first AND 0xe000 = 0x2000 then [formatIpv6Groups gs] else []))) nis))"

text \<open>
  IPv4 addresses in the order of their numbers.  \<^verbatim>\<open>sort\<close> is stable, and the comparison of the code is the
  lexicographic order of the four numbers, where what is no number counts as zero.
\<close>

definition v4_numbers :: "string \<Rightarrow> nat list" where
  "v4_numbers ip =
     (let ps = split_on CHR ''.'' ip
      in map (\<lambda>i. if i < length ps \<and> list_all is_digit (ps ! i) then parse_dec (ps ! i) else 0) [0..<4])"

definition networkIPv4s :: "net_address list \<Rightarrow> string list" where
  "networkIPv4s nis =
     sort_key v4_numbers (uniq (map na_address
       (filter (\<lambda>ni. (na_family ni = ''IPv4'' \<or> na_family ni = ''4'') \<and> \<not> na_internal ni) nis)))"

subsection \<open>The checksum\<close>

definition crc_shift :: "16 word \<Rightarrow> 16 word" where
  "crc_shift c = (if c AND 0x8000 \<noteq> 0 then push_bit 1 c XOR 0x1021 else push_bit 1 c)"

definition crc_byte :: "16 word \<Rightarrow> 8 word \<Rightarrow> 16 word" where
  "crc_byte c b = (crc_shift ^^ 8) (c XOR push_bit 8 (ucast b))"

definition crc16CcittFalse :: "bytes \<Rightarrow> 16 word" where
  "crc16CcittFalse bs = foldl crc_byte 0xffff bs"

text \<open>The high and the low byte of a 16-bit number.\<close>

definition be16 :: "nat \<Rightarrow> bytes" where
  "be16 n = [word_of_nat (n div 256), word_of_nat (n mod 256)]"

subsection \<open>Encoding\<close>

definition SHORT_CODE_PREFIX :: string where
  "SHORT_CODE_PREFIX = ''dwebh1.''"

definition CROCKFORD_ALPHABET :: string where
  "CROCKFORD_ALPHABET = ''0123456789abcdefghjkmnpqrstvwxyz''"

definition CROCKFORD_REVERSE :: "char \<Rightarrow> nat option" where
  "CROCKFORD_REVERSE c = map_of (zip CROCKFORD_ALPHABET [0..<32]) c"

definition bytesToCrockford :: "bytes \<Rightarrow> string" where
  "bytesToCrockford bs = map (nth CROCKFORD_ALPHABET) (digits_of 5 bs)"

datatype short_error =
    InvalidPort
  | NotAnAddress
  | LinkLocal
  | MissingPrefix
  | MisplacedHyphen
  | AmbiguousCharacter char
  | InvalidCharacter char
  | EmptyPayload
  | WrongLength nat
  | NonZeroPadding
  | UnknownVersion
  | FamilyMismatch
  | ChecksumMismatch

definition with_checksum :: "bytes \<Rightarrow> bytes" where
  "with_checksum payload = payload @ be16 (unat (crc16CcittFalse payload))"

definition encodeShortCode :: "string \<Rightarrow> int \<Rightarrow> short_error + string" where
  "encodeShortCode ip port =
     (if port < 1 \<or> 65535 < port then Inl InvalidPort
      else rbind (if isIPv4 ip then Inr (1 # map (\<lambda>s. word_of_nat (parse_dec s)) (split_on CHR ''.'' ip))
                  else (case parseIpv6Groups ip of
                          None \<Rightarrow> Inl NotAnAddress
                        | Some gs \<Rightarrow>
                            if isLinkLocalIpv6 gs then Inl LinkLocal else Inr (2 # concat (map be16 gs))))
             (\<lambda>payload. Inr (SHORT_CODE_PREFIX @ bytesToCrockford (with_checksum (payload @ be16 (nat port))))))"

function chunk :: "nat \<Rightarrow> string \<Rightarrow> string list" where
  "chunk n s = (if s = [] \<or> n = 0 then [] else take n s # chunk n (drop n s))"
  by pat_completeness auto
termination by (relation "measure (\<lambda>(n, s). length s)") auto

declare chunk.simps [simp del]

definition formatShortCodeForDisplay :: "string \<Rightarrow> string" where
  "formatShortCodeForDisplay code =
     (let low = to_lower code;
          bdy = (if startsWith low SHORT_CODE_PREFIX then drop (length SHORT_CODE_PREFIX) low else low);
          gs = (if length bdy = 15 then [take 5 bdy, take 5 (drop 5 bdy), take 5 (drop 10 bdy)] else chunk 4 bdy)
      in SHORT_CODE_PREFIX @ join_with CHR ''-'' gs)"

subsection \<open>Decoding\<close>

definition HYPHEN_BOUNDARIES :: "nat \<Rightarrow> nat list option" where
  "HYPHEN_BOUNDARIES n =
     (if n = 15 then Some [5, 10] else if n = 34 then Some [4, 8, 12, 16, 20, 24, 28, 32] else None)"

definition AMBIGUOUS_HINT :: "char \<Rightarrow> char option" where
  "AMBIGUOUS_HINT c = map_of [(CHR ''o'', CHR ''0''), (CHR ''i'', CHR ''1''), (CHR ''l'', CHR ''1''), (CHR ''u'', CHR ''v'')] c"

text \<open>The characters that carry data; the flag tells that the last character was a hyphen.\<close>

fun data_chars :: "bool \<Rightarrow> string \<Rightarrow> short_error + string" where
  "data_chars hy [] = Inr []"
| "data_chars hy (c # cs) =
     (if c = CHR ''-'' then if hy then Inl MisplacedHyphen else data_chars True cs
      else (let l = ascii_lower c
            in if AMBIGUOUS_HINT l \<noteq> None then Inl (AmbiguousCharacter c)
               else if CROCKFORD_REVERSE l = None then Inl (InvalidCharacter c)
               else rbind (data_chars False cs) (\<lambda>ds. Inr (l # ds))))"

text \<open>The second pass: hyphens stand at group boundaries only.\<close>

fun hyphens_ok :: "nat list \<Rightarrow> nat \<Rightarrow> string \<Rightarrow> bool" where
  "hyphens_ok bnd n [] \<longleftrightarrow> True"
| "hyphens_ok bnd n (c # cs) \<longleftrightarrow>
     (if c = CHR ''-'' then n \<in> set bnd \<and> hyphens_ok bnd n cs else hyphens_ok bnd (Suc n) cs)"

definition readBits :: "bool list \<Rightarrow> nat \<Rightarrow> nat \<Rightarrow> nat" where
  "readBits bs start len = foldl (\<lambda>v b. 2 * v + of_bool b) 0 (take len (drop start bs))"

record short_code =
  sc_ip :: string
  sc_port :: nat
  sc_url :: string
  sc_family :: nat

definition strip_code_prefix :: "string \<Rightarrow> string option" where
  "strip_code_prefix raw =
     (if to_lower (take (length SHORT_CODE_PREFIX) raw) = SHORT_CODE_PREFIX
      then Some (drop (length SHORT_CODE_PREFIX) raw) else None)"

text \<open>What the bits of the data characters say.\<close>

definition read_code :: "bool list \<Rightarrow> bool \<Rightarrow> short_error + short_code" where
  "read_code bits v4 =
     (let ver = readBits bits 0 8; n = (if v4 then 4 else 16);
          ip = map (\<lambda>i. readBits bits (8 + i * 8) 8) [0..<n];
          port = readBits bits (8 + n * 8) 16; stored = readBits bits (8 + n * 8 + 16) 16;
          payload = word_of_nat ver # map word_of_nat ip @ be16 port
      in if ver \<noteq> 1 \<and> ver \<noteq> 2 then Inl UnknownVersion
         else if (ver = 1) \<noteq> v4 then Inl FamilyMismatch
         else if stored \<noteq> unat (crc16CcittFalse payload) then Inl ChecksumMismatch
         else if ver = 2 then
           (let gs = map (\<lambda>i. ip ! (2 * i) * 256 + ip ! (2 * i + 1)) [0..<8]; txt = formatIpv6Groups gs
            in if isLinkLocalIpv6 gs then Inl LinkLocal
               else Inr \<lparr>sc_ip = txt, sc_port = port,
                      sc_url = ''http://['' @ txt @ '']:'' @ decimal port, sc_family = 6\<rparr>)
         else (let txt = join_with CHR ''.'' (map decimal ip)
               in Inr \<lparr>sc_ip = txt, sc_port = port, sc_url = ''http://'' @ txt @ '':'' @ decimal port, sc_family = 4\<rparr>))"

definition decodeShortCode :: "string \<Rightarrow> short_error + short_code" where
  "decodeShortCode raw =
     (case strip_code_prefix raw of
        None \<Rightarrow> Inl MissingPrefix
      | Some bdy \<Rightarrow>
          rbind (data_chars True bdy) (\<lambda>ds.
            if ds = [] then Inl EmptyPayload
            else (case HYPHEN_BOUNDARIES (length ds) of
                    None \<Rightarrow> Inl (WrongLength (length ds))
                  | Some bnd \<Rightarrow>
                      if \<not> hyphens_ok bnd 0 bdy then Inl MisplacedHyphen
                      else (let bits = concat (map (\<lambda>c. to_bits 5 (the (CROCKFORD_REVERSE c))) ds);
                                needed = (if length ds = 15 then 72 else 168)
                            in if True \<in> set (drop needed bits) then Inl NonZeroPadding
                               else read_code bits (length ds = 15)))))"

text \<open>The argument of \<^verbatim>\<open>--server\<close>: a short code is decoded, anything else is passed on.\<close>

definition resolveServerArg :: "string \<Rightarrow> short_error + string" where
  "resolveServerArg raw =
     (if strip_code_prefix raw = None then Inr raw
      else rbind (decodeShortCode raw) (\<lambda>c. Inr (sc_url c)))"

subsection \<open>Names\<close>

text \<open>\<^verbatim>\<open>machineName\<close> strips \<^verbatim>\<open>.local\<close>; \<^verbatim>\<open>truncateUtf8Bytes\<close> cuts at a character boundary.\<close>

definition machineName :: "string \<Rightarrow> string" where
  "machineName raw =
     (let n = length raw - length ''.local''
      in if length ''.local'' \<le> length raw \<and> to_lower (drop n raw) = ''.local'' then take n raw else raw)"

fun boundary :: "nat list \<Rightarrow> nat \<Rightarrow> nat" where
  "boundary bs 0 = 0"
| "boundary bs (Suc k) = (if cont (bs ! Suc k) then boundary bs k else Suc k)"

definition truncateUtf8Bytes :: "utext \<Rightarrow> nat \<Rightarrow> utext \<times> bool" where
  "truncateUtf8Bytes s maxBytes =
     (let bs = enc_all s
      in if length bs \<le> maxBytes then (s, False)
         else (lossy (take (boundary bs maxBytes) bs), True))"

end
