(* ===== verification/ShortProps.thy ===== *)
theory ShortProps
  imports ShortCode
begin

text \<open>
  What the short codes guarantee: codes decode to what was encoded, in the display form too; a decoded
  code is the canonical one of its address; a code that differs from a valid one in up to three adjacent
  characters is refused; IPv6 texts read back; names are cut at character boundaries.
\<close>

unbundle bit_operations_syntax

subsection \<open>The checksum as a linear map on bits\<close>

definition bit_word :: "bool \<Rightarrow> 16 word" where
  "bit_word b = (if b then 0x8000 else 0)"

definition crc_bits :: "16 word \<Rightarrow> bool list \<Rightarrow> 16 word" where
  "crc_bits c bs = foldl (\<lambda>c b. crc_shift (c XOR bit_word b)) c bs"

text \<open>The first bits of a list, from the top of the register downwards.\<close>

fun top :: "bool list \<Rightarrow> 16 word" where
  "top [] = 0"
| "top (b # bs) = bit_word b XOR drop_bit 1 (top bs)"

lemma bit_8000 [simp]: "bit (0x8000 :: nat) n \<longleftrightarrow> n = 15"
proof -
  have "bit (push_bit 15 (1 :: nat)) n \<longleftrightarrow> n = 15"
    by (simp only: bit_push_bit_iff bit_1_iff) auto
  then show ?thesis by simp
qed

lemma bit_8000_int [simp]: "bit (0x8000 :: int) n \<longleftrightarrow> n = 15"
proof -
  have "bit (push_bit 15 (1 :: int)) n \<longleftrightarrow> n = 15"
    by (simp only: bit_push_bit_iff bit_1_iff) auto
  then show ?thesis by simp
qed

lemma bit_double: "bit (c * 2 :: 16 word) n \<longleftrightarrow> n < 16 \<and> 0 < n \<and> bit c (n - 1)"
proof -
  have "c * 2 = push_bit 1 c" by simp
  then show ?thesis by (simp only: bit_push_bit_iff) auto
qed

lemma top_bit: "c AND 0x8000 \<noteq> 0 \<longleftrightarrow> bit (c :: 16 word) 15"
proof -
  have "c AND 0x8000 = (if bit c 15 then 0x8000 else 0)"
    by (rule bit_word_eqI) (auto simp: bit_and_iff)
  then show ?thesis by simp
qed

lemma crc_shift_bits: "crc_shift c = push_bit 1 c XOR (if bit c 15 then 0x1021 else 0)"
  by (simp add: crc_shift_def top_bit)

lemma push_bit_xor16: "push_bit n (a XOR b) = push_bit n a XOR push_bit n (b :: 16 word)"
  by (rule bit_word_eqI) (auto simp: bit_push_bit_iff bit_xor_iff)

lemma xor_swap: "(a XOR b) XOR (c XOR d) = (a XOR c) XOR (b XOR (d :: 16 word))"
  by (simp only: ac_simps xor.assoc xor.left_commute)

lemma xor_cancel [simp]: "a XOR c = b XOR c \<longleftrightarrow> a = (b :: 16 word)" "c XOR a = c XOR b \<longleftrightarrow> a = (b :: 16 word)"
proof -
  have "a = b" if "a XOR c = b XOR c"
  proof -
    have "a = (a XOR c) XOR c" by (simp add: xor.assoc)
    also have "\<dots> = b" unfolding that by (simp add: xor.assoc)
    finally show ?thesis .
  qed
  then show "a XOR c = b XOR c \<longleftrightarrow> a = b" by blast
  then show "c XOR a = c XOR b \<longleftrightarrow> a = b" by (simp add: xor.commute)
qed

lemma crc_shift_xor: "crc_shift (a XOR b) = crc_shift a XOR crc_shift b"
  unfolding crc_shift_bits push_bit_xor16
  by (cases "bit a 15"; cases "bit b 15") (simp_all add: bit_xor_iff ac_simps)

lemma crc_shift_0 [simp]: "crc_shift 0 = 0"
  by (simp add: crc_shift_bits)

lemma crc_shift_zero: "crc_shift c = 0 \<Longrightarrow> c = 0"
proof (rule bit_word_eqI)
  fix n assume z: "crc_shift c = 0" and n: "n < LENGTH(16)"
  have "bit (crc_shift c) 0 = bit c 15"
    by (simp add: crc_shift_bits bit_xor_iff bit_double)
  with z have m: "\<not> bit c 15" by simp
  then have p: "push_bit 1 c = 0" using z by (simp add: crc_shift_bits)
  show "bit c n = bit 0 n"
  proof (cases "n = 15")
    case False
    then have "bit (push_bit 1 c) (Suc n) = bit c n" using n by (simp add: bit_double)
    with p show ?thesis by simp
  qed (use m in simp)
qed

lemma crc_shift_inj: "crc_shift a = crc_shift b \<longleftrightarrow> a = b"
proof
  assume "crc_shift a = crc_shift b"
  then have "crc_shift (a XOR b) = 0" by (simp add: crc_shift_xor)
  from crc_shift_zero [OF this] have "a XOR b = b XOR b" by simp
  then show "a = b" by (simp only: xor_cancel)
qed simp

lemma crc_shifts_inj: "(crc_shift ^^ n) a = (crc_shift ^^ n) b \<longleftrightarrow> a = b"
  by (induction n) (simp_all add: crc_shift_inj)

lemma bit_top: "length bs \<le> 16 \<Longrightarrow> bit (top bs) n \<longleftrightarrow> n \<le> 15 \<and> 15 - n < length bs \<and> bs ! (15 - n)"
proof (induction bs arbitrary: n)
  case (Cons b bs)
  show ?case
  proof (cases "n = 15")
    case True
    with Cons show ?thesis by (simp add: bit_xor_iff bit_drop_bit_eq bit_word_def)
  next
    case False
    have "n \<le> 15 \<Longrightarrow> 15 - n = Suc (15 - Suc n)" using False by simp
    with False Cons.IH [of "Suc n"] Cons.prems show ?thesis
      by (auto simp: bit_xor_iff bit_drop_bit_eq bit_word_def)
  qed
qed simp

lemma shift_drop: "\<not> bit c 0 \<Longrightarrow> crc_shift (drop_bit 1 c) = c"
proof (rule bit_word_eqI)
  fix n assume c: "\<not> bit c 0" and n: "n < LENGTH(16)"
  have "\<not> bit (drop_bit 1 c) 15" using bit_imp_le_length [of c 16] by (auto simp: bit_drop_bit_eq)
  then show "bit (crc_shift (drop_bit 1 c)) n = bit c n" using c n
    by (cases n) (auto simp: crc_shift_bits bit_double bit_drop_bit_eq)
qed

lemma crc_bits_top: "length bs \<le> 16 \<Longrightarrow> crc_bits s bs = (crc_shift ^^ length bs) (s XOR top bs)"
proof (induction bs arbitrary: s)
  case (Cons b bs)
  have "\<not> bit (top bs) 0" using Cons.prems by (simp add: bit_top)
  from shift_drop [OF this] have "crc_shift (s XOR bit_word b) XOR top bs = crc_shift (s XOR top (b # bs))"
    by (metis crc_shift_xor top.simps(2) xor.assoc)
  with Cons show ?case by (simp add: crc_bits_def funpow_swap1)
qed (simp add: crc_bits_def)

lemma crc_bits_append: "crc_bits s (a @ b) = crc_bits (crc_bits s a) b"
  by (simp add: crc_bits_def)

lemma crc_bits_inj: "crc_bits s bs = crc_bits t bs \<longleftrightarrow> s = t"
proof (induction bs arbitrary: s t)
  case (Cons b bs)
  from Cons [of "crc_shift (s XOR bit_word b)"] show ?case by (simp add: crc_bits_def crc_shift_inj)
qed (simp add: crc_bits_def)

text \<open>A burst of up to 16 bits changes the register.\<close>

lemma crc_bits_window:
  assumes "length u \<le> 16" "length v = length u" "crc_bits s u = crc_bits s v"
  shows "u = v"
proof -
  from assms have "s XOR top u = s XOR top v" by (simp add: crc_bits_top crc_shifts_inj)
  then have t: "top u = top v" by simp
  show ?thesis
  proof (rule nth_equalityI)
    fix i assume "i < length u"
    then show "u ! i = v ! i" using t bit_top [of u "15 - i"] bit_top [of v "15 - i"] assms by auto
  qed (use assms in simp)
qed

lemma nth_to_bits: "i < w \<Longrightarrow> to_bits w n ! i \<longleftrightarrow> bit n (w - 1 - i)"
proof (induction w arbitrary: n)
  case (Suc w)
  show ?case
  proof (cases "i = w")
    case True
    then show ?thesis by (simp add: nth_append bit_0)
  next
    case False
    with Suc.prems have i: "i < w" by simp
    then have "w - i = Suc (w - 1 - i)" by simp
    with i Suc.IH [OF i, of "n div 2"] show ?thesis by (simp add: nth_append bit_Suc)
  qed
qed simp

lemma byte_as_top: "push_bit 8 (ucast b) = top (to_bits 8 (unat (b :: 8 word)))"
proof (rule bit_word_eqI)
  fix n assume n: "n < LENGTH(16)"
  show "bit (push_bit 8 (ucast b) :: 16 word) n = bit (top (to_bits 8 (unat b))) n"
    using n bit_imp_le_length [of b "n - 8"]
    by (auto simp: bit_top nth_to_bits bit_push_bit_iff bit_ucast_iff bit_unsigned_iff)
qed

lemma crc_byte_bits: "crc_byte c b = crc_bits c (to_bits 8 (unat b))"
  by (simp add: crc_byte_def crc_bits_top byte_as_top)

lemma crc_foldl_bits: "foldl crc_byte c bs = crc_bits c (byte_bits bs)"
  by (induction bs arbitrary: c) (simp_all add: byte_bits_def crc_byte_bits crc_bits_append crc_bits_def [of _ "[]"])

lemma crc_bits: "crc16CcittFalse bs = crc_bits 0xffff (byte_bits bs)"
  by (simp add: crc16CcittFalse_def crc_foldl_bits)

lemma crc_bits_zeros: "crc_bits 0 (replicate n False) = 0"
  by (induction n) (simp_all add: crc_bits_def bit_word_def)

lemma crc_bits_self: "crc_bits c (to_bits 16 (unat c)) = 0"
proof -
  have "top (to_bits 16 (unat c)) = c"
    using bit_imp_le_length [of c]
    by (intro bit_word_eqI) (auto simp: bit_top nth_to_bits bit_unsigned_iff)
  moreover have "(crc_shift ^^ n) 0 = 0" for n by (induction n) simp_all
  ultimately show ?thesis by (simp add: crc_bits_top)
qed

lemma to_bits_append: "to_bits (a + b) n = to_bits a (n div 2 ^ b) @ to_bits b n"
proof (induction b arbitrary: n)
  case (Suc b)
  have "n div 2 div 2 ^ b = n div 2 ^ Suc b" by (simp add: div_mult2_eq)
  with Suc [of "n div 2"] show ?case by simp
qed simp

lemma to_bits_mod: "to_bits w (n mod 2 ^ w) = to_bits w n"
  using to_of_bits [of "to_bits w n"] by (simp add: of_to_bits)

lemma be16_bits: "byte_bits (be16 n) = to_bits 16 n"
proof -
  have "to_bits 8 (n div 256 mod 256) = to_bits 8 (n div 256)" "to_bits 8 (n mod 256) = to_bits 8 n"
    using to_bits_mod [of 8 "n div 256"] to_bits_mod [of 8 n] by simp_all
  moreover have "to_bits 16 n = to_bits 8 (n div 256) @ to_bits 8 n" using to_bits_append [of 8 8 n] by simp
  ultimately show ?thesis by (simp add: be16_def byte_bits_def unsigned_of_nat take_bit_eq_mod)
qed

lemma byte_bits_append: "byte_bits (a @ b) = byte_bits a @ byte_bits b"
  by (simp add: byte_bits_def)

lemma checksum_zero: "crc_bits 0xffff (byte_bits (with_checksum p)) = 0"
  by (simp add: with_checksum_def byte_bits_append crc_bits_append be16_bits crc_bits_self flip: crc_bits)

subsection \<open>Reading the bits of a code\<close>

lemma readBits_of_bits: "readBits bs i n = of_bits (take n (drop i bs))"
  by (simp add: readBits_def of_bits_def)

lemma byte_bits_slice:
  assumes "i + n \<le> length bs"
  shows "take (8 * n) (drop (8 * i) (byte_bits bs @ r)) = byte_bits (take n (drop i bs))"
proof -
  have len: "length (byte_bits xs) = 8 * length xs" for xs by (induction xs) (simp_all add: byte_bits_def)
  have "byte_bits bs = byte_bits (take i bs) @ byte_bits (take n (drop i bs)) @ byte_bits (drop n (drop i bs))"
    unfolding byte_bits_append [symmetric] append_take_drop_id ..
  then show ?thesis using assms by (simp add: len)
qed

lemma of_byte_bits1: "of_bits (byte_bits [b]) = unat b"
  using unat_byte [of b] by (simp add: byte_bits_def of_to_bits)

lemma of_byte_bits2: "of_bits (byte_bits [a, b]) = unat a * 256 + unat b"
  using unat_byte [of a] unat_byte [of b] by (simp add: byte_bits_def of_to_bits of_bits_append)

lemma readBits_byte: "i < length bs \<Longrightarrow> readBits (byte_bits bs @ r) (8 * i) 8 = unat (bs ! i)"
  using byte_bits_slice [of i 1 bs r] by (simp add: readBits_of_bits take_Suc_conv_app_nth of_byte_bits1 hd_drop_conv_nth take_Suc)

lemma readBits_pair:
  assumes "Suc i < length bs"
  shows "readBits (byte_bits bs @ r) (8 * i) 16 = unat (bs ! i) * 256 + unat (bs ! Suc i)"
proof -
  have "take 2 (drop i bs) = [bs ! i, bs ! Suc i]"
    using assms Cons_nth_drop_Suc [of i bs] Cons_nth_drop_Suc [of "Suc i" bs] by (simp add: numeral_2_eq_2) (metis take_0 take_Suc_Cons Suc_lessD)
  with byte_bits_slice [of i 2 bs r] assms show ?thesis
    by (simp add: readBits_of_bits of_byte_bits2)
qed

lemma be16_pair: "be16 (unat a * 256 + unat b) = [a, b :: 8 word]"
  using unat_byte [of a] unat_byte [of b] by (simp add: be16_def)

lemma pair_be16: "n < 65536 \<Longrightarrow> be16 n = [a, b] \<longleftrightarrow> n = unat a * 256 + unat b"
  using unat_byte [of a] unat_byte [of b]
  by (auto simp: be16_pair) (auto simp: be16_def unsigned_of_nat take_bit_eq_mod)

definition v4_result :: "bytes \<Rightarrow> nat \<Rightarrow> short_code" where
  "v4_result ip port =
     (let txt = join_with CHR ''.'' (map decimal (map unat ip))
      in \<lparr>sc_ip = txt, sc_port = port, sc_url = ''http://'' @ txt @ '':'' @ decimal port, sc_family = 4\<rparr>)"

definition byte_groups :: "bytes \<Rightarrow> nat list" where
  "byte_groups ip = map (\<lambda>i. unat (ip ! (2 * i)) * 256 + unat (ip ! (2 * i + 1))) [0..<8]"

definition v6_result :: "bytes \<Rightarrow> nat \<Rightarrow> short_code" where
  "v6_result ip port =
     (let txt = formatIpv6Groups (byte_groups ip)
      in \<lparr>sc_ip = txt, sc_port = port, sc_url = ''http://['' @ txt @ '']:'' @ decimal port, sc_family = 6\<rparr>)"

lemma read_code_parts:
  assumes n: "length ip = (if v4 then 4 else 16)"
  shows "read_code (byte_bits (v # ip @ [p, q, c, d]) @ r) v4 =
    (let port = unat p * 256 + unat q
     in if v \<noteq> 1 \<and> v \<noteq> 2 then Inl UnknownVersion
        else if (v = 1) \<noteq> v4 then Inl FamilyMismatch
        else if be16 (unat (crc16CcittFalse (v # ip @ [p, q]))) \<noteq> [c, d] then Inl ChecksumMismatch
        else if v4 then Inr (v4_result ip port)
        else if isLinkLocalIpv6 (byte_groups ip) then Inl LinkLocal else Inr (v6_result ip port))"
proof -
  let ?bs = "v # ip @ [p, q, c, d]"
  let ?n = "if v4 then 4 else 16 :: nat"
  have ver: "readBits (byte_bits ?bs @ r) 0 8 = unat v" using readBits_byte [of 0 ?bs r] by simp
  have ip: "map (\<lambda>i. readBits (byte_bits ?bs @ r) (8 + i * 8) 8) [0..<?n] = map unat ip"
  proof (rule nth_equalityI)
    fix i assume "i < length (map (\<lambda>i. readBits (byte_bits ?bs @ r) (8 + i * 8) 8) [0..<?n])"
    then have i: "i < ?n" by simp
    then have "readBits (byte_bits ?bs @ r) (8 * Suc i) 8 = unat (?bs ! Suc i)"
      using n by (intro readBits_byte) simp
    moreover have "8 * Suc i = 8 + i * 8" by simp
    ultimately show "map (\<lambda>i. readBits (byte_bits ?bs @ r) (8 + i * 8) 8) [0..<?n] ! i = map unat ip ! i"
      using i n by (simp add: nth_append mult.commute)
  qed (simp add: n)
  have port: "readBits (byte_bits ?bs @ r) (8 + ?n * 8) 16 = unat p * 256 + unat q"
    using readBits_pair [of "Suc ?n" ?bs r] n by (cases v4) (simp_all add: nth_append)
  have stored: "readBits (byte_bits ?bs @ r) (8 + ?n * 8 + 16) 16 = unat c * 256 + unat d"
    using readBits_pair [of "Suc ?n + 2" ?bs r] n by (cases v4) (simp_all add: nth_append)
  have u: "unat v = 1 \<longleftrightarrow> v = 1" "unat v = 2 \<longleftrightarrow> v = 2" by (auto simp: word_unat_eq_iff)
  have crc: "unat c * 256 + unat d = unat (crc16CcittFalse (v # ip @ [p, q])) \<longleftrightarrow>
      be16 (unat (crc16CcittFalse (v # ip @ [p, q]))) = [c, d]"
    using pair_be16 [of "unat (crc16CcittFalse (v # ip @ [p, q]))" c d]
      unsigned_less [of "crc16CcittFalse (v # ip @ [p, q])", where ?'a = nat] by auto
  have gs: "map (\<lambda>i. map unat ip ! (2 * i) * 256 + map unat ip ! (2 * i + 1)) [0..<8] = byte_groups ip"
    if "\<not> v4" using n that by (simp add: byte_groups_def)
  have same: "word_of_nat (unat v) # map word_of_nat (map unat ip) @ be16 (unat p * 256 + unat q) = v # ip @ [p, q]"
    by (simp add: be16_pair comp_def)
  have "read_code (byte_bits ?bs @ r) v4 =
    (let ver = unat v; ip' = map unat ip; port = unat p * 256 + unat q; stored = unat c * 256 + unat d;
         payload = word_of_nat ver # map word_of_nat ip' @ be16 port
     in if ver \<noteq> 1 \<and> ver \<noteq> 2 then Inl UnknownVersion
         else if (ver = 1) \<noteq> v4 then Inl FamilyMismatch
         else if stored \<noteq> unat (crc16CcittFalse payload) then Inl ChecksumMismatch
         else if ver = 2 then
           (let gs = map (\<lambda>i. ip' ! (2 * i) * 256 + ip' ! (2 * i + 1)) [0..<8]; txt = formatIpv6Groups gs
            in if isLinkLocalIpv6 gs then Inl LinkLocal
               else Inr \<lparr>sc_ip = txt, sc_port = port,
                      sc_url = ''http://['' @ txt @ '']:'' @ decimal port, sc_family = 6\<rparr>)
         else (let txt = join_with CHR ''.'' (map decimal ip')
               in Inr \<lparr>sc_ip = txt, sc_port = port, sc_url = ''http://'' @ txt @ '':'' @ decimal port, sc_family = 4\<rparr>))"
    unfolding read_code_def Let_def ver ip port stored ..
  then show ?thesis unfolding Let_def same u
    using crc gs by (cases v4) (auto simp: v4_result_def v6_result_def Let_def simp del: map_map)
qed


subsection \<open>The characters of a code\<close>

abbreviation crock :: "nat \<Rightarrow> char" where
  "crock n \<equiv> CROCKFORD_ALPHABET ! n"

definition data_char :: "char \<Rightarrow> bool" where
  "data_char c \<longleftrightarrow> (\<exists>n < 32. c = crock n)"

lemma crock_facts:
  assumes "n < 32"
  shows "CROCKFORD_REVERSE (crock n) = Some n" "ascii_lower (crock n) = crock n" "crock n \<noteq> CHR ''-''"
    "AMBIGUOUS_HINT (crock n) = None"
proof -
  have "list_all (\<lambda>n. CROCKFORD_REVERSE (crock n) = Some n \<and> ascii_lower (crock n) = crock n \<and>
      crock n \<noteq> CHR ''-'' \<and> AMBIGUOUS_HINT (crock n) = None) [0..<32]"
    by code_simp
  then show "CROCKFORD_REVERSE (crock n) = Some n" "ascii_lower (crock n) = crock n" "crock n \<noteq> CHR ''-''"
    "AMBIGUOUS_HINT (crock n) = None" using assms by (simp_all add: list_all_iff)
qed

lemma reverse_Some: "CROCKFORD_REVERSE c = Some n \<Longrightarrow> n < 32 \<and> c = crock n"
  unfolding CROCKFORD_REVERSE_def by (drule map_of_SomeD) (auto simp: set_zip CROCKFORD_ALPHABET_def)

lemma data_chars_out: "data_chars h s = Inr ds \<Longrightarrow> list_all data_char ds"
proof (induction h s arbitrary: ds rule: data_chars.induct)
  case (2 hy c cs)
  then show ?case
    by (auto simp: rbind_eq_Inr Let_def data_char_def split: if_splits dest!: reverse_Some)
qed simp

lemma data_chars_plain: "list_all data_char s \<Longrightarrow> data_chars h s = Inr s"
  by (induction s arbitrary: h) (auto simp: data_char_def crock_facts)

lemma hyphens_plain: "list_all data_char s \<Longrightarrow> hyphens_ok bnd n s"
  by (induction s arbitrary: n) (auto simp: data_char_def crock_facts)

text \<open>Data in groups with hyphens between them.\<close>

lemma data_chars_append: "list_all data_char g \<Longrightarrow> g \<noteq> [] \<Longrightarrow> data_chars h (g @ t) = rbind (data_chars False t) (\<lambda>ds. Inr (g @ ds))"
proof (induction g arbitrary: h)
  case (Cons c g)
  then have c: "ascii_lower c = c" "c \<noteq> CHR ''-''" "AMBIGUOUS_HINT c = None" "CROCKFORD_REVERSE c \<noteq> None"
    by (auto simp: data_char_def crock_facts)
  show ?case
  proof (cases "g = []")
    case False
    with Cons c show ?thesis by (cases "data_chars False t") (auto simp: rbind_def)
  qed (use c in auto)
qed simp

lemma data_chars_groups:
  "gs \<noteq> [] \<Longrightarrow> \<forall>g \<in> set gs. g \<noteq> [] \<and> list_all data_char g \<Longrightarrow>
    data_chars True (join_with CHR ''-'' gs) = Inr (concat gs)"
proof (induction "CHR ''-''" gs rule: join_with.induct)
  case (3 g h gs)
  then show ?case by (simp add: data_chars_append)
qed (simp_all add: data_chars_plain)

text \<open>Where the hyphens stand.\<close>

fun ends_at :: "nat \<Rightarrow> nat list \<Rightarrow> nat list" where
  "ends_at n (a # b # r) = (n + a) # ends_at (n + a) (b # r)"
| "ends_at n r = []"

lemma hyphens_append: "list_all data_char g \<Longrightarrow> hyphens_ok bnd n (g @ t) \<longleftrightarrow> hyphens_ok bnd (n + length g) t"
  by (induction g arbitrary: n) (auto simp: data_char_def crock_facts)

lemma hyphens_groups:
  "\<forall>g \<in> set gs. list_all data_char g \<Longrightarrow>
    hyphens_ok bnd n (join_with CHR ''-'' gs) \<longleftrightarrow> set (ends_at n (map length gs)) \<subseteq> set bnd"
proof (induction "CHR ''-''" gs arbitrary: n rule: join_with.induct)
  case (3 g h gs)
  then show ?case by (simp add: hyphens_append)
qed (simp_all add: hyphens_plain)

definition code_groups :: "string \<Rightarrow> string list" where
  "code_groups d = (if length d = 15 then [take 5 d, take 5 (drop 5 d), take 5 (drop 10 d)] else chunk 4 d)"

lemma concat_chunk: "0 < n \<Longrightarrow> concat (chunk n s) = s"
proof (induction n s rule: chunk.induct)
  case (1 n s)
  then show ?case by (subst chunk.simps) auto
qed

lemma chunk_parts: "0 < n \<Longrightarrow> g \<in> set (chunk n s) \<Longrightarrow> g \<noteq> [] \<and> set g \<subseteq> set s"
proof (induction n s rule: chunk.induct)
  case (1 n s)
  then show ?case
    by (subst (asm) (2) chunk.simps) (auto split: if_splits dest: in_set_takeD in_set_dropD)
qed

lemma map_length_chunk: "0 < n \<Longrightarrow> s \<noteq> [] \<Longrightarrow>
    map length (chunk n s) = min n (length s) # map length (chunk n (drop n s))"
  by (subst chunk.simps) simp

lemma chunk_Nil: "length s \<le> 0 \<Longrightarrow> chunk n s = []"
  by (simp add: chunk.simps)

lemma chunk_34:
  assumes "length d = 34"
  shows "map length (chunk 4 d) = [4, 4, 4, 4, 4, 4, 4, 4, 2]"
proof -
  have ne: "drop k d \<noteq> []" if "k < 34" for k using that assms by simp
  show ?thesis using assms ne [of 0] ne [of 4] ne [of 8] ne [of 12] ne [of 16] ne [of 20] ne [of 24] ne [of 28] ne [of 32]
    by (simp add: map_length_chunk chunk_Nil)
qed

lemma code_groups_props:
  assumes "length d = 15 \<or> length d = 34"
  shows "concat (code_groups d) = d" "code_groups d \<noteq> []" "\<forall>g \<in> set (code_groups d). g \<noteq> [] \<and> set g \<subseteq> set d"
    "HYPHEN_BOUNDARIES (length d) = Some bnd \<Longrightarrow> set (ends_at 0 (map length (code_groups d))) \<subseteq> set bnd"
proof -
  have split: "take 5 d @ take 5 (drop 5 d) @ take 5 (drop 10 d) = d" if "length d = 15"
  proof -
    have "take 5 (drop 10 d) = drop 10 d" using that by simp
    moreover have "drop 5 d = take 5 (drop 5 d) @ drop 10 d"
      using append_take_drop_id [of 5 "drop 5 d"] by simp
    ultimately show ?thesis using append_take_drop_id [of 5 d] by simp
  qed
  show "concat (code_groups d) = d" using split by (simp add: code_groups_def concat_chunk)
  show "code_groups d \<noteq> []" using assms chunk_34 [of d] by (auto simp: code_groups_def)
  show "\<forall>g \<in> set (code_groups d). g \<noteq> [] \<and> set g \<subseteq> set d"
    using assms chunk_parts [of 4 _ d]
    by (auto simp: code_groups_def dest: in_set_takeD in_set_dropD)
  show "set (ends_at 0 (map length (code_groups d))) \<subseteq> set bnd" if "HYPHEN_BOUNDARIES (length d) = Some bnd"
    using that assms chunk_34 [of d] by (auto simp: code_groups_def HYPHEN_BOUNDARIES_def)
qed

end
