(* ===== verification/ShortRound.thy ===== *)
theory ShortRound
  imports ShortProps
begin

text \<open>
  Access short codes and IPv6 texts: what is formatted parses, what is encoded decodes.
\<close>

subsection \<open>Decoding what was encoded\<close>

lemma strip_own_prefix: "strip_code_prefix (SHORT_CODE_PREFIX @ b) = Some b"
proof -
  have "to_lower SHORT_CODE_PREFIX = SHORT_CODE_PREFIX" by code_simp
  then show ?thesis by (simp add: strip_code_prefix_def)
qed

definition data_bits :: "string \<Rightarrow> bool list" where
  "data_bits d = concat (map (\<lambda>c. to_bits 5 (the (CROCKFORD_REVERSE c))) d)"

lemma data_chars_encoded: "list_all data_char (bytesToCrockford bs)"
proof -
  have "\<forall>g \<in> set (pieces 5 bs). length g = 5" using pieces_props [of 5 bs] by auto
  from of_bits_all [OF this] show ?thesis
    by (auto simp: bytesToCrockford_def regroup_pieces list_all_iff data_char_def)
qed

lemma data_bits_encoded: "data_bits (bytesToCrockford bs) = concat (pieces 5 bs)"
proof -
  have len: "\<forall>g \<in> set (pieces 5 bs). length g = 5" using pieces_props [of 5 bs] by auto
  from of_bits_all [OF this] have "\<forall>n \<in> set (map of_bits (pieces 5 bs)). n < 32" by simp
  then have "map (\<lambda>c. to_bits 5 (the (CROCKFORD_REVERSE c))) (bytesToCrockford bs) = map (to_bits 5) (map of_bits (pieces 5 bs))"
    by (auto simp: bytesToCrockford_def regroup_pieces crock_facts)
  then show ?thesis unfolding data_bits_def map_to_of_bits [OF len] by simp
qed

lemma encoded_length:
  assumes "length bs = 9 \<or> length bs = 21"
  shows "length (bytesToCrockford bs) = (if length bs = 9 then 15 else 34)"
    "data_bits (bytesToCrockford bs) = byte_bits bs @ replicate (if length bs = 9 then 3 else 2) False"
proof -
  obtain z where z: "concat (pieces 5 bs) = byte_bits bs @ replicate z False" "z < 5"
      "\<forall>g \<in> set (pieces 5 bs). length g = 5"
    using pieces_props [of 5 bs] by auto
  have l: "length (bytesToCrockford bs) = length (pieces 5 bs)" by (simp add: bytesToCrockford_def regroup_pieces)
  have "5 * length (pieces 5 bs) = 8 * length bs + z"
    using arg_cong [OF z(1), of length] length_concat_const [OF z(3)] by (simp add: length_byte_bits)
  then have "z = (if length bs = 9 then 3 else 2) \<and> length (pieces 5 bs) = (if length bs = 9 then 15 else 34)"
    using assms z(2) by (auto; presburger)
  then show "length (bytesToCrockford bs) = (if length bs = 9 then 15 else 34)"
    "data_bits (bytesToCrockford bs) = byte_bits bs @ replicate (if length bs = 9 then 3 else 2) False"
    using z(1) by (simp_all add: l data_bits_encoded)
qed

lemma decode_data:
  assumes "data_chars True b = Inr d" "length d = 15 \<or> length d = 34"
    and "\<And>bnd. HYPHEN_BOUNDARIES (length d) = Some bnd \<Longrightarrow> hyphens_ok bnd 0 b"
  shows "decodeShortCode (SHORT_CODE_PREFIX @ b) =
    (if True \<in> set (drop (if length d = 15 then 72 else 168) (data_bits d)) then Inl NonZeroPadding
     else read_code (data_bits d) (length d = 15))"
  using assms by (auto simp: decodeShortCode_def strip_own_prefix data_bits_def HYPHEN_BOUNDARIES_def Let_def)

definition address_result :: "bytes \<Rightarrow> nat \<Rightarrow> short_code" where
  "address_result ip port = (if length ip = 4 then v4_result ip port else v6_result ip port)"

lemma decode_encoded_data:
  assumes ip: "length ip = 4 \<or> length ip = 16 \<and> \<not> isLinkLocalIpv6 (byte_groups ip)" and port: "port < 65536"
    and b: "data_chars True b = Inr (bytesToCrockford (with_checksum (v # ip @ be16 port)))"
    and h: "\<And>bnd. HYPHEN_BOUNDARIES (if length ip = 4 then 15 else 34) = Some bnd \<Longrightarrow> hyphens_ok bnd 0 b"
    and v: "v = (if length ip = 4 then 1 else 2)"
  shows "decodeShortCode (SHORT_CODE_PREFIX @ b) = Inr (address_result ip port)"
proof -
  obtain p q where pq: "be16 port = [p, q]" by (simp add: be16_def)
  let ?crc = "crc16CcittFalse (v # ip @ [p, q])"
  obtain c d where cd: "be16 (unat ?crc) = [c, d]" by (simp add: be16_def)
  have w: "with_checksum (v # ip @ be16 port) = v # ip @ [p, q, c, d]"
    by (simp add: with_checksum_def pq cd)
  let ?bs = "v # ip @ [p, q, c, d]"
  have len: "length ?bs = 9 \<or> length ?bs = 21" "length ?bs = 9 \<longleftrightarrow> length ip = 4" using ip by auto
  note e = encoded_length [OF len(1), unfolded len(2)]
  have "unat p * 256 + unat q = port" using pair_be16 [OF port, of p q] pq by simp
  moreover have "read_code (byte_bits ?bs @ replicate k False) (length ip = 4) = Inr (address_result ip (unat p * 256 + unat q))" for k
  proof -
    have "length ip = (if length ip = 4 then 4 else 16)" using ip by auto
    from read_code_parts [OF this, of v p q c d "replicate k False"] show ?thesis using ip cd v
      by (auto simp: Let_def address_result_def)
  qed
  ultimately show ?thesis
    using decode_data [OF b] e h len by (auto simp: w length_byte_bits)
qed


subsection \<open>Numbers as text\<close>

lemma digit_value: "is_digit c \<Longrightarrow> \<exists>d < 10. c = char_of (48 + d :: nat) \<and> of_char c = 48 + d"
proof -
  assume "is_digit c"
  then have b: "48 \<le> (of_char c :: nat)" "(of_char c :: nat) \<le> 57"
    by (simp_all add: is_digit_def less_eq_char_def)
  then show ?thesis by (intro exI [of _ "of_char c - 48 :: nat"]) auto
qed

lemma parse_dec_snoc: "parse_dec (s @ [c]) = 10 * parse_dec s + (of_char c - 48)"
  by (simp add: parse_dec_def)

lemma parse_dec_pos: "s \<noteq> [] \<Longrightarrow> list_all is_digit s \<Longrightarrow> hd s \<noteq> CHR ''0'' \<Longrightarrow> 0 < parse_dec s"
proof (induction s rule: rev_induct)
  case (snoc c s)
  show ?case
  proof (cases "s = []")
    case True
    with snoc.prems obtain d where "d < 10" "c = char_of (48 + d :: nat)" "of_char c = 48 + d"
      using digit_value [of c] by auto
    moreover have "c \<noteq> CHR ''0''" using True snoc.prems by simp
    moreover have "char_of (48 :: nat) = CHR ''0''" by code_simp
    ultimately show ?thesis using True by (cases d) (auto simp: parse_dec_def)
  next
    case False
    with snoc show ?thesis by (simp add: parse_dec_snoc)
  qed
qed simp

lemma decimal_parse_dec:
  "s \<noteq> [] \<Longrightarrow> list_all is_digit s \<Longrightarrow> hd s = CHR ''0'' \<longrightarrow> length s = 1 \<Longrightarrow> decimal (parse_dec s) = s"
proof (induction s rule: rev_induct)
  case (snoc c s)
  then obtain d where d: "d < 10" "c = char_of (48 + d :: nat)" "of_char c = 48 + d"
    using digit_value [of c] by auto
  show ?case
  proof (cases "s = []")
    case True
    with d show ?thesis by (simp add: parse_dec_def decimal.simps)
  next
    case False
    with snoc have h: "hd s \<noteq> CHR ''0''" by (auto simp: hd_append)
    with False snoc have s: "decimal (parse_dec s) = s" "0 < parse_dec s" by (auto intro: parse_dec_pos)
    then have "\<not> 10 * parse_dec s + d < 10" "(10 * parse_dec s + d) div 10 = parse_dec s" "(10 * parse_dec s + d) mod 10 = d"
      using d(1) by auto
    with s d show ?thesis by (simp add: parse_dec_snoc decimal.simps [of "10 * parse_dec s + d"])
  qed
qed simp

lemma parse_dec_decimal: "parse_dec (decimal n) = n"
proof (induction n rule: less_induct)
  case (less n)
  show ?case
  proof (cases "n < 10")
    case True
    then show ?thesis by (simp add: decimal.simps [of n] parse_dec_def)
  next
    case False
    with less [of "n div 10"] show ?thesis by (simp add: decimal.simps [of n] parse_dec_snoc)
  qed
qed

lemma digit_char: "d < 10 \<Longrightarrow> is_digit (char_of (48 + d :: nat)) \<and> (char_of (48 + d) = CHR ''0'' \<longleftrightarrow> d = 0)"
proof -
  have "list_all (\<lambda>d. is_digit (char_of (48 + d :: nat)) \<and> (char_of (48 + d) = CHR ''0'' \<longleftrightarrow> d = 0)) [0..<10]"
    by code_simp
  then show "d < 10 \<Longrightarrow> is_digit (char_of (48 + d :: nat)) \<and> (char_of (48 + d) = CHR ''0'' \<longleftrightarrow> d = 0)"
    by (simp add: list_all_iff)
qed

lemma decimal_chars: "decimal n \<noteq> [] \<and> list_all is_digit (decimal n) \<and> (hd (decimal n) = CHR ''0'' \<longleftrightarrow> n = 0)"
proof (induction n rule: less_induct)
  case (less n)
  show ?case
  proof (cases "n < 10")
    case True
    then show ?thesis using digit_char [of n] by (simp add: decimal.simps [of n])
  next
    case False
    with less [of "n div 10"] digit_char [of "n mod 10"] show ?thesis
      by (auto simp: decimal.simps [of n] hd_append)
  qed
qed

lemma decimal_v4: "n < 256 \<Longrightarrow> v4_part (decimal n)"
proof -
  assume n: "n < 256"
  have "length (decimal n) \<le> 3" using n
    by (simp add: decimal.simps [of n] decimal.simps [of "n div 10"] decimal.simps [of "n div 10 div 10"])
  moreover have "n = 0 \<Longrightarrow> length (decimal n) = 1" by (simp add: decimal.simps)
  ultimately show "v4_part (decimal n)" using n decimal_chars [of n] by (simp add: v4_part_def parse_dec_decimal)
qed

lemma v4_part_no_dot: "v4_part s \<Longrightarrow> CHR ''.'' \<notin> set s"
  by (auto simp: v4_part_def list_all_iff is_digit_def)

lemma isIPv4_text: "isIPv4 ip \<longleftrightarrow> (\<exists>ns. length ns = 4 \<and> list_all (\<lambda>n. n < 256) ns \<and> ip = join_with CHR ''.'' (map decimal ns))"
proof
  assume a: "isIPv4 ip"
  let ?ps = "split_on CHR ''.'' ip"
  have "map decimal (map parse_dec ?ps) = ?ps"
    using a by (auto simp: isIPv4_def list_all_iff v4_part_def intro!: map_idI decimal_parse_dec)
  then have "ip = join_with CHR ''.'' (map decimal (map parse_dec ?ps))" by (simp add: join_split)
  moreover have "list_all (\<lambda>n. n < 256) (map parse_dec ?ps)" "length (map parse_dec ?ps) = 4"
    using a by (auto simp: isIPv4_def list_all_iff v4_part_def)
  ultimately show "\<exists>ns. length ns = 4 \<and> list_all (\<lambda>n. n < 256) ns \<and> ip = join_with CHR ''.'' (map decimal ns)" by blast
next
  assume "\<exists>ns. length ns = 4 \<and> list_all (\<lambda>n. n < 256) ns \<and> ip = join_with CHR ''.'' (map decimal ns)"
  then obtain ns where ns: "length ns = 4" "list_all (\<lambda>n. n < 256) ns" "ip = join_with CHR ''.'' (map decimal ns)" by blast
  then have "split_on CHR ''.'' ip = map decimal ns"
    by (auto intro!: split_join simp: list_all_iff dest!: decimal_v4 v4_part_no_dot)
  with ns show "isIPv4 ip" by (auto simp: isIPv4_def list_all_iff decimal_v4)
qed

lemma v4_numbers:
  assumes "length ns = 4" "list_all (\<lambda>n. n < 256) ns"
  shows "map parse_dec (split_on CHR ''.'' (join_with CHR ''.'' (map decimal ns))) = ns"
proof -
  have "split_on CHR ''.'' (join_with CHR ''.'' (map decimal ns)) = map decimal ns"
    using assms by (auto intro!: split_join simp: list_all_iff dest!: decimal_v4 v4_part_no_dot)
  then show ?thesis by (simp add: parse_dec_decimal comp_def)
qed

text \<open>Hexadecimal groups.\<close>

lemma parse_hex_snoc: "parse_hex (s @ [c]) = 16 * parse_hex s + hex_value c"
  by (simp add: parse_hex_def)

lemma hex_value_char: "n < 16 \<Longrightarrow> hex_value (hex_char n) = n \<and> is_hex (hex_char n) \<and> ascii_lower (hex_char n) = hex_char n"
proof -
  have "list_all (\<lambda>n. hex_value (hex_char n) = n \<and> is_hex (hex_char n) \<and> ascii_lower (hex_char n) = hex_char n) [0..<16]"
    by code_simp
  then show "n < 16 \<Longrightarrow> hex_value (hex_char n) = n \<and> is_hex (hex_char n) \<and> ascii_lower (hex_char n) = hex_char n"
    by (simp add: list_all_iff)
qed

lemma parse_hex_str: "parse_hex (hex_num n) = n"
proof (induction n rule: less_induct)
  case (less n)
  show ?case
  proof (cases "n < 16")
    case True
    then show ?thesis by (simp add: hex_num.simps [of n] parse_hex_def hex_value_char)
  next
    case False
    with less [of "n div 16"] show ?thesis by (simp add: hex_num.simps [of n] parse_hex_snoc hex_value_char)
  qed
qed

lemma hex_str_chars: "list_all is_hex (hex_num n) \<and> hex_num n \<noteq> [] \<and> to_lower (hex_num n) = hex_num n"
proof (induction n rule: less_induct)
  case (less n)
  then show ?case using hex_value_char [of "n mod 16"]
    by (cases "n < 16") (auto simp: hex_num.simps [of n] to_lower_def hex_value_char)
qed

lemma hex_str_length: "n < 16 ^ k \<Longrightarrow> 0 < k \<Longrightarrow> length (hex_num n) \<le> k"
proof (induction k arbitrary: n)
  case (Suc k)
  show ?case
  proof (cases "n < 16")
    case False
    then have "0 < k" using Suc.prems by (cases k) auto
    with Suc.IH [of "n div 16"] Suc.prems False show ?thesis
      by (simp add: hex_num.simps [of n] less_mult_imp_div_less mult.commute)
  qed (simp add: hex_num.simps [of n])
qed simp

lemma lower_hex: "is_hex c \<Longrightarrow> ascii_lower c = c"
  by (auto simp: is_hex_def is_digit_def ascii_lower_def less_eq_char_def)

lemma parseIpv6Group_hex: "n < 65536 \<Longrightarrow> parseIpv6Group (hex_num n) = Some n"
  using hex_str_length [of n 4] hex_str_chars [of n]
  by (auto simp: parseIpv6Group_def parse_hex_str list_all_iff Suc_le_eq lower_hex)


subsection \<open>IPv6 texts read back\<close>

definition piece_ok :: "string \<Rightarrow> bool" where
  "piece_ok p \<longleftrightarrow> p \<noteq> [] \<and> list_all is_hex p"

lemma hex_piece: "piece_ok (hex_num n)"
  using hex_str_chars [of n] by (simp add: piece_ok_def)

lemma piece_no: "piece_ok p \<Longrightarrow> \<not> is_hex c \<Longrightarrow> c \<notin> set p"
  by (auto simp: piece_ok_def list_all_iff)

lemma not_hex [simp]: "\<not> is_hex CHR '':''" "\<not> is_hex CHR ''.''" "\<not> is_hex CHR ''%''"
  by (simp_all add: is_hex_def is_digit_def)

lemma cut_double_pass: "CHR '':'' \<notin> set g \<Longrightarrow> s \<noteq> [] \<Longrightarrow>
    cut_double (g @ s) = map_option (\<lambda>(h, t). (g @ h, t)) (cut_double s)"
proof (induction g)
  case (Cons a g)
  obtain b r where br: "g @ s = b # r" using Cons.prems by (cases "g @ s") auto
  with Cons have "cut_double (a # b # r) = map_option (\<lambda>(h, t). (a # h, t)) (cut_double (g @ s))" by auto
  with Cons br show ?case by (cases "cut_double s") auto
qed (cases "cut_double s"; auto)

lemma cut_double_colon: "b \<noteq> CHR '':'' \<Longrightarrow>
    cut_double (CHR '':'' # b # r) = map_option (\<lambda>(h, t). (CHR '':'' # h, t)) (cut_double (b # r))"
  by simp

lemma cut_double_free: "CHR '':'' \<notin> set g \<Longrightarrow> cut_double g = None"
  by (induction g rule: cut_double.induct) auto

lemma join_start: "gs \<noteq> [] \<Longrightarrow> \<forall>g \<in> set gs. piece_ok g \<Longrightarrow> \<exists>b r. join_with c gs = b # r \<and> is_hex b"
proof (cases gs)
  case (Cons g gs')
  assume "\<forall>g \<in> set gs. piece_ok g"
  with Cons obtain b r where "g = b # r" "is_hex b" by (cases g) (auto simp: piece_ok_def)
  with Cons show ?thesis by (cases gs') auto
qed simp

lemma cut_double_pieces: "\<forall>g \<in> set gs. piece_ok g \<Longrightarrow> cut_double (join_with CHR '':'' gs) = None"
proof (induction "CHR '':''" gs rule: join_with.induct)
  case (3 g h gs)
  obtain b r where b: "join_with CHR '':'' (h # gs) = b # r" "is_hex b"
    using join_start [of "h # gs" "CHR '':''"] 3 by auto
  then have "b \<noteq> CHR '':''" by auto
  with 3 b piece_no [of g "CHR '':''"] show ?case
    by (simp add: cut_double_pass [of g "CHR '':'' # b # r"])
qed (use piece_no in \<open>simp_all add: cut_double_free\<close>)

lemma cut_double_mid:
  "\<forall>g \<in> set gs. piece_ok g \<Longrightarrow> cut_double (join_with CHR '':'' gs @ ''::'' @ t) = Some (join_with CHR '':'' gs, t)"
proof (induction "CHR '':''" gs rule: join_with.induct)
  case (2 g)
  then show ?case using piece_no [of g "CHR '':''"] by (simp add: cut_double_pass)
next
  case (3 g h gs)
  obtain b r where b: "join_with CHR '':'' (h # gs) @ ''::'' @ t = b # r" "is_hex b"
    using join_start [of "h # gs" "CHR '':''"] 3 by auto
  then have "b \<noteq> CHR '':''" by auto
  moreover have "join_with CHR '':'' (g # h # gs) @ ''::'' @ t = g @ CHR '':'' # b # r"
    using b(1) by simp
  ultimately show ?case
    using 3 b(1) piece_no [of g "CHR '':''"] cut_double_pass [of g "CHR '':'' # b # r"] by simp
qed simp

lemma cut_double_after: "\<forall>g \<in> set gs. piece_ok g \<Longrightarrow> cut_double (CHR '':'' # join_with CHR '':'' gs) = None"
proof (cases "gs = []")
  case False
  assume a: "\<forall>g \<in> set gs. piece_ok g"
  from join_start [OF False a] obtain b r where "join_with CHR '':'' gs = b # r" "is_hex b" by blast
  moreover from this have "b \<noteq> CHR '':''" by auto
  ultimately show ?thesis using cut_double_pieces [OF a] by simp
qed simp

lemma parts_of_join: "\<forall>g \<in> set gs. piece_ok g \<Longrightarrow> parts_of (join_with CHR '':'' gs) = gs"
proof (cases "gs = []")
  case False
  assume a: "\<forall>g \<in> set gs. piece_ok g"
  from join_start [OF False a] obtain b r where "join_with CHR '':'' gs = b # r" by blast
  moreover have "split_on CHR '':'' (join_with CHR '':'' gs) = gs"
    using a False piece_no [OF _ not_hex(1)] by (intro split_join) blast+
  ultimately show ?thesis by (simp add: parts_of_def)
qed (simp add: parts_of_def)

lemma parse_groups_hex: "list_all (\<lambda>n. n < 65536) gs \<Longrightarrow> parse_groups (map hex_num gs) = Some gs"
  by (induction gs) (simp_all add: parseIpv6Group_hex)

lemma set_split_on: "p \<in> set (split_on c s) \<Longrightarrow> set p \<subseteq> set s"
  by (induction s arbitrary: p) (fastforce split: if_splits list.splits)+

lemma unfold_v4_plain: "CHR ''.'' \<notin> set s \<Longrightarrow> unfold_v4 s = Some s"
  using set_split_on [of "last (split_on CHR '':'' s)" "CHR '':''" s] by (auto simp: unfold_v4_def Let_def)

lemma set_join_with: "set (join_with c gs) \<subseteq> insert c (\<Union>g \<in> set gs. set g)"
  by (induction c gs rule: join_with.induct) auto

lemma best_run_spec:
  "best_run hs i best = (st, n) \<Longrightarrow> (st, n) = best \<or>
     (\<exists>k. st = i + k \<and> k + n \<le> length hs \<and> take n (drop k hs) = replicate n ''0'')"
proof (induction hs i best rule: best_run.induct)
  case (2 h hs i best)
  show ?case
  proof (cases "h = ''0''")
    case True
    let ?m = "length (takeWhile (\<lambda>g. g = ''0'') hs)"
    have run: "take (Suc ?m) (h # hs) = replicate (Suc ?m) ''0''"
    proof -
      have "take ?m hs = takeWhile (\<lambda>g. g = ''0'') hs" by (rule takeWhile_eq_take [symmetric])
      moreover have "replicate ?m ''0'' = takeWhile (\<lambda>g. g = ''0'') hs"
        by (rule replicate_length_same) (auto dest: set_takeWhileD)
      ultimately show ?thesis using True by simp
    qed
    have d: "dropWhile (\<lambda>g. g = ''0'') hs = drop ?m hs" by (rule dropWhile_eq_drop)
    have "?m \<le> length hs" by (rule length_takeWhile_le)
    from 2(1) [OF True refl] 2(3) True have
      "(st, n) = (if snd best < Suc ?m then (i, Suc ?m) else best) \<or>
       (\<exists>k. st = i + Suc ?m + k \<and> k + n \<le> length (drop ?m hs) \<and> take n (drop k (drop ?m hs)) = replicate n ''0'')"
      by (simp add: Let_def d)
    then show ?thesis
    proof (elim disjE exE conjE)
      assume "(st, n) = (if snd best < Suc ?m then (i, Suc ?m) else best)"
      with run \<open>?m \<le> length hs\<close> show ?thesis by (auto split: if_splits intro!: exI [of _ 0])
    next
      fix k assume "st = i + Suc ?m + k" "k + n \<le> length (drop ?m hs)" "take n (drop k (drop ?m hs)) = replicate n ''0''"
      with \<open>?m \<le> length hs\<close> show ?thesis by (intro disjI2 exI [of _ "Suc (?m + k)"]) (auto simp: add.commute)
    qed
  next
    case False
    with 2 have "(st, n) = best \<or>
        (\<exists>k. st = Suc i + k \<and> k + n \<le> length hs \<and> take n (drop k hs) = replicate n ''0'')" by simp
    then show ?thesis
    proof (elim disjE exE conjE)
      fix k assume "st = Suc i + k" "k + n \<le> length hs" "take n (drop k hs) = replicate n ''0''"
      then show ?thesis by (intro disjI2 exI [of _ "Suc k"]) simp
    qed simp
  qed
qed simp

lemma parse_format:
  assumes "length gs = 8" "list_all (\<lambda>n. n < 65536) gs"
  shows "parseIpv6Groups (formatIpv6Groups gs) = Some gs"
proof -
  let ?hx = "map hex_num gs"
  have ok: "\<forall>g \<in> set ?hx. piece_ok g" by (auto simp: hex_piece)
  then have okt: "\<forall>g \<in> set (take k ?hx). piece_ok g" "\<forall>g \<in> set (drop k ?hx). piece_ok g" for k
    by (meson in_set_takeD in_set_dropD)+
  have chars: "CHR ''%'' \<notin> set s \<and> to_lower s = s \<and> unfold_v4 s = Some s"
    if "set s \<subseteq> insert CHR '':'' (\<Union>g \<in> set ?hx. set g)" for s
  proof -
    have c: "c = CHR '':'' \<or> is_hex c" if "c \<in> set s" for c
      using that \<open>set s \<subseteq> _\<close> ok by (auto simp: piece_ok_def list_all_iff)
    have "ascii_lower CHR '':'' = CHR '':''" by code_simp
    then have "to_lower s = s" unfolding to_lower_def by (intro map_idI) (auto dest!: c lower_hex)
    moreover have "CHR ''.'' \<notin> set s" "CHR ''%'' \<notin> set s" using c by force+
    ultimately show ?thesis by (simp add: unfold_v4_plain)
  qed
  obtain st n where b: "best_run ?hx 0 (0, 0) = (st, n)" by force
  show ?thesis
  proof (cases "n < 2")
    case True
    then have f: "formatIpv6Groups gs = join_with CHR '':'' ?hx" by (simp add: formatIpv6Groups_def b)
    have "split_on CHR '':'' (join_with CHR '':'' ?hx) = ?hx"
      using ok assms(1) piece_no [OF _ not_hex(1)] by (intro split_join) auto
    then show ?thesis unfolding f parseIpv6Groups_def
      using chars [OF set_join_with] cut_double_pieces [OF ok] assms by (simp add: parse_groups_hex)
  next
    case False
    let ?h = "take st ?hx" and ?t = "drop (st + n) ?hx"
    have f: "formatIpv6Groups gs = join_with CHR '':'' ?h @ ''::'' @ join_with CHR '':'' ?t"
      using False by (simp add: formatIpv6Groups_def b Let_def)
    from best_run_spec [OF b] False obtain k where k: "st = k" "k + n \<le> 8" "take n (drop k ?hx) = replicate n ''0''"
      using assms(1) by auto
    have "take n (drop st gs) = replicate n 0"
    proof (rule nth_equalityI)
      fix i assume i: "i < length (take n (drop st gs))"
      have "take n (drop k ?hx) ! i = ''0''" unfolding k(3) using i by simp
      then have "hex_num (gs ! (st + i)) = ''0''" using i k(1,2) assms(1) by simp
      then have "parse_hex (hex_num (gs ! (st + i))) = 0" by (simp add: parse_hex_def hex_value_def is_digit_def)
      then show "take n (drop st gs) ! i = replicate n 0 ! i" using i k(1,2) assms(1) by (simp add: parse_hex_str)
    qed (use k assms(1) in simp)
    then have gs: "take st gs @ replicate n 0 @ drop (st + n) gs = gs"
      using append_take_drop_id [of st gs] append_take_drop_id [of n "drop st gs"] by (simp add: add.commute)
    have "set (formatIpv6Groups gs) \<subseteq> insert CHR '':'' (\<Union>g \<in> set ?hx. set g)"
    proof -
      have "set (join_with CHR '':'' ps) \<subseteq> insert CHR '':'' (\<Union>g \<in> set ?hx. set g)" if "set ps \<subseteq> set ?hx" for ps
        by (rule subset_trans [OF set_join_with insert_mono]) (intro UN_mono that order_refl)
      from this [OF set_take_subset] this [OF set_drop_subset] show ?thesis
        unfolding f set_append by simp
    qed
    note ch = chars [OF this]
    have p: "parse_groups ?h = Some (take st gs)" "parse_groups ?t = Some (drop (st + n) gs)"
      using parse_groups_hex [of "take st gs"] parse_groups_hex [of "drop (st + n) gs"] assms(2)
      by (auto simp: take_map drop_map list_all_iff dest: in_set_takeD in_set_dropD)
    have l: "length ?h = st" "length ?t = 8 - st - n" using k assms(1) by auto
    have "8 - length ?h - length ?t = n" "\<not> 8 < length ?h + length ?t + 1" using l k False by auto
    then show ?thesis
      unfolding parseIpv6Groups_def using ch f cut_double_mid [OF okt(1)] cut_double_after [OF okt(2)] p gs
      by (simp add: parts_of_join okt Let_def)
  qed
qed


subsection \<open>What is encoded\<close>

lemma hex_value_bound: "is_hex (ascii_lower c) \<Longrightarrow> hex_value c < 16"
  by (auto simp: hex_value_def is_hex_def is_digit_def less_eq_char_def)

lemma parse_hex_bound: "list_all (\<lambda>c. is_hex (ascii_lower c)) s \<Longrightarrow> parse_hex s < 16 ^ length s"
proof (induction s rule: rev_induct)
  case (snoc c s)
  then have "hex_value c < 16" "parse_hex s < 16 ^ length s" by (simp_all add: hex_value_bound)
  then show ?case by (simp add: parse_hex_snoc)
qed (simp add: parse_hex_def)

lemma parseIpv6Group_bound: "parseIpv6Group g = Some n \<Longrightarrow> n < 65536"
  using parse_hex_bound [of g] power_increasing [of "length g" 4 "16 :: nat"]
  by (auto simp: parseIpv6Group_def split: if_splits)

lemma parse_groups_wf: "parse_groups ps = Some gs \<Longrightarrow> length gs = length ps \<and> list_all (\<lambda>n. n < 65536) gs"
  by (induction ps arbitrary: gs) (auto split: option.splits dest: parseIpv6Group_bound)

lemma parse_wf: "parseIpv6Groups ip = Some gs \<Longrightarrow> length gs = 8 \<and> list_all (\<lambda>n. n < 65536) gs"
  by (auto simp: parseIpv6Groups_def Let_def list_all_iff split: if_splits option.splits prod.splits
      dest!: parse_groups_wf)

lemma be16_length [simp]: "length (be16 n) = 2"
  by (simp add: be16_def)

lemma concat_be16_nth:
  "i < length gs \<Longrightarrow> concat (map be16 gs) ! (2 * i) = be16 (gs ! i) ! 0 \<and> concat (map be16 gs) ! Suc (2 * i) = be16 (gs ! i) ! 1"
proof (induction gs arbitrary: i)
  case (Cons g gs)
  then show ?case by (cases i) (auto simp: nth_append be16_def)
qed simp

lemma byte_groups_be16:
  assumes "length gs = 8" "list_all (\<lambda>n. n < 65536) gs"
  shows "byte_groups (concat (map be16 gs)) = gs" "length (concat (map be16 gs)) = 16"
proof -
  have "unat (be16 n ! 0) * 256 + unat (be16 n ! 1) = n" if "n < 65536" for n
    using pair_be16 [OF that, of "be16 n ! 0" "be16 n ! 1"] by (simp add: be16_def)
  then show "byte_groups (concat (map be16 gs)) = gs"
    using assms by (intro nth_equalityI) (simp_all add: byte_groups_def concat_be16_nth list_all_iff)
  show "length (concat (map be16 gs)) = 16" using assms(1) by (simp add: length_concat comp_def sum_list_triv)
qed

lemma be16_byte_groups:
  assumes "length ip = 16"
  shows "concat (map be16 (byte_groups ip)) = ip"
proof -
  have "concat (map (\<lambda>i. [ip ! (2 * i), ip ! Suc (2 * i)]) [0..<k]) = take (2 * k) ip" if "2 * k \<le> 16" for k
    using that
  proof (induction k)
    case (Suc k)
    then have "take (2 * Suc k) ip = take (2 * k) ip @ [ip ! (2 * k), ip ! Suc (2 * k)]"
      using assms by (simp add: take_Suc_conv_app_nth)
    with Suc show ?case by simp
  qed simp
  from this [of 8] show ?thesis using assms by (simp add: byte_groups_def be16_pair comp_def)
qed

lemma byte_groups_wf: "length ip = 16 \<Longrightarrow> length (byte_groups ip) = 8 \<and> list_all (\<lambda>n. n < 65536) (byte_groups ip)"
proof -
  have "unat a * 256 + unat b < 65536" for a b :: "8 word" using unat_byte [of a] unat_byte [of b] by simp
  then show ?thesis by (simp add: byte_groups_def list_all_iff)
qed

lemma format_not_v4: "\<not> isIPv4 (formatIpv6Groups gs)"
proof -
  have dot: "CHR ''.'' \<notin> set (join_with CHR '':'' (map hex_num ns))" for ns
    using set_join_with [of "CHR '':''" "map hex_num ns"] piece_no [OF hex_piece not_hex(2)] by fastforce
  have "CHR ''.'' \<notin> set (formatIpv6Groups gs)"
    using dot [of gs] dot [of "take k gs" for k] dot [of "drop k gs" for k]
    by (auto simp: formatIpv6Groups_def Let_def take_map drop_map split: prod.splits)
  then show ?thesis by (simp add: isIPv4_def split_free)
qed

lemma encoded_code:
  assumes "encodeShortCode ip port = Inr code"
  obtains bs v where "1 \<le> port" "port \<le> 65535" "length bs = 4 \<or> length bs = 16 \<and> \<not> isLinkLocalIpv6 (byte_groups bs)"
    "v = (if length bs = 4 then 1 else 2)"
    "code = SHORT_CODE_PREFIX @ bytesToCrockford (with_checksum (v # bs @ be16 (nat port)))"
    "sc_ip (address_result bs (nat port)) = (if isIPv4 ip then ip else formatIpv6Groups (the (parseIpv6Groups ip)))"
proof (cases "isIPv4 ip")
  case True
  then obtain ns where ns: "length ns = 4" "list_all (\<lambda>n. n < 256) ns" "ip = join_with CHR ''.'' (map decimal ns)"
    by (auto simp: isIPv4_text)
  let ?bs = "map word_of_nat ns :: bytes"
  have "map unat ?bs = ns" using ns(2) by (auto simp: list_all_iff unsigned_of_nat take_bit_nat_eq_self intro!: map_idI)
  moreover have "map (\<lambda>s. word_of_nat (parse_dec s)) (split_on CHR ''.'' ip) = ?bs"
    using v4_numbers [OF ns(1,2)] unfolding ns(3) by (metis (no_types) comp_apply map_eq_conv map_map)
  ultimately show thesis using that [of ?bs 1] assms True ns
    by (auto simp: encodeShortCode_def address_result_def v4_result_def Let_def split: if_splits)
next
  case False
  with assms obtain gs where gs: "parseIpv6Groups ip = Some gs" "\<not> isLinkLocalIpv6 gs"
    by (auto simp: encodeShortCode_def split: if_splits option.splits)
  let ?bs = "concat (map be16 gs)"
  have "byte_groups ?bs = gs" "length ?bs = 16" using byte_groups_be16 parse_wf [OF gs(1)] by blast+
  then show thesis using that [of ?bs 2] assms False gs
    by (auto simp: encodeShortCode_def address_result_def v6_result_def Let_def split: if_splits)
qed

lemma sc_port_result [simp]: "sc_port (address_result bs port) = port"
  by (simp add: address_result_def v4_result_def v6_result_def Let_def)

text \<open>
  C29. Every code that can be made decodes, as it is and in the form that is displayed, to the port it
  was made for and to its address: an IPv4 address comes back as it was given, an IPv6 address in the
  canonical spelling.
\<close>

theorem short_code_round_trip:
  assumes "encodeShortCode ip port = Inr code"
  shows "\<exists>c. decodeShortCode code = Inr c \<and> decodeShortCode (formatShortCodeForDisplay code) = Inr c \<and>
    sc_port c = nat port \<and> sc_ip c = (if isIPv4 ip then ip else formatIpv6Groups (the (parseIpv6Groups ip)))"
proof -
  from assms obtain bs v where e: "1 \<le> port" "port \<le> 65535" "length bs = 4 \<or> length bs = 16 \<and> \<not> isLinkLocalIpv6 (byte_groups bs)"
    "v = (if length bs = 4 then 1 else 2)"
    "code = SHORT_CODE_PREFIX @ bytesToCrockford (with_checksum (v # bs @ be16 (nat port)))"
    "sc_ip (address_result bs (nat port)) = (if isIPv4 ip then ip else formatIpv6Groups (the (parseIpv6Groups ip)))"
    by (rule encoded_code)
  let ?w = "with_checksum (v # bs @ be16 (nat port))" and ?d = "bytesToCrockford (with_checksum (v # bs @ be16 (nat port)))"
  have p: "nat port < 65536" using e(2) by simp
  note dc = data_chars_encoded [of ?w]
  have len: "length ?d = (if length bs = 4 then 15 else 34)"
    using encoded_length(1) [of ?w] e(3) by (auto simp: with_checksum_def)
  then have l2: "length ?d = 15 \<or> length ?d = 34" by auto
  note g = code_groups_props [OF l2]
  have gd: "\<forall>g \<in> set (code_groups ?d). g \<noteq> [] \<and> list_all data_char g"
    using g(3) dc by (auto simp: list_all_iff)
  have low: "to_lower code = code"
  proof -
    have "to_lower SHORT_CODE_PREFIX = SHORT_CODE_PREFIX" by code_simp
    moreover have "map ascii_lower ?d = ?d"
      using dc by (intro map_idI) (auto simp: list_all_iff data_char_def crock_facts)
    ultimately show ?thesis by (simp add: e(5) to_lower_def)
  qed
  have "formatShortCodeForDisplay code = SHORT_CODE_PREFIX @ join_with CHR ''-'' (code_groups ?d)"
    unfolding formatShortCodeForDisplay_def Let_def low by (simp add: e(5) code_groups_def)
  moreover have "decodeShortCode (SHORT_CODE_PREFIX @ join_with CHR ''-'' (code_groups ?d)) = Inr (address_result bs (nat port))"
    by (rule decode_encoded_data [OF e(3) p _ _ e(4)])
      (use g gd len in \<open>auto simp: data_chars_groups hyphens_groups\<close>)
  moreover have "decodeShortCode code = Inr (address_result bs (nat port))"
    unfolding e(5) by (rule decode_encoded_data [OF e(3) p _ _ e(4)])
      (use dc in \<open>auto simp: data_chars_plain hyphens_plain\<close>)
  ultimately show ?thesis using e(6) by simp
qed

lemma sample_code: "\<exists>code. encodeShortCode ''192.168.1.20'' 8080 = Inr code"
proof -
  have "isIPv4 ''192.168.1.20''" by code_simp
  then show ?thesis by (simp add: encodeShortCode_def)
qed

theorem short_code_round_trip_witness:
  "\<exists>code c. encodeShortCode ''192.168.1.20'' 8080 = Inr code \<and> decodeShortCode code = Inr c \<and>
     decodeShortCode (formatShortCodeForDisplay code) = Inr c \<and> sc_port c = 8080 \<and> sc_ip c = ''192.168.1.20''"
proof -
  obtain code where e: "encodeShortCode ''192.168.1.20'' 8080 = Inr code" using sample_code by blast
  moreover have "isIPv4 ''192.168.1.20''" by code_simp
  ultimately show ?thesis using short_code_round_trip [OF e] by auto
qed

end
