(* ===== verification/ShortCanon.thy ===== *)
theory ShortCanon
  imports ShortRound
begin

text \<open>
  What the decoder of access short codes accepts is canonical, and what the checksum catches.
\<close>

subsection \<open>What is accepted\<close>

text \<open>The characters of a text that carry data.\<close>

definition code_data :: "string \<Rightarrow> string" where
  "code_data raw =
     (case strip_code_prefix raw of
        None \<Rightarrow> []
      | Some b \<Rightarrow> (case data_chars True b of Inr d \<Rightarrow> d | Inl e \<Rightarrow> []))"

lemma bits_bytes: "length b = 8 * k \<Longrightarrow> \<exists>bs. length bs = k \<and> byte_bits bs = b"
proof (induction k arbitrary: b)
  case (Suc k)
  then have "length (drop 8 b) = 8 * k" by simp
  from Suc.IH [OF this] obtain bs where bs: "length bs = k" "byte_bits bs = drop 8 b" by blast
  let ?v = "word_of_nat (of_bits (take 8 b)) :: 8 word"
  have l: "length (take 8 b) = 8" using Suc.prems by simp
  have "unat ?v = of_bits (take 8 b)"
    using of_bits_bound [of "take 8 b"] l by (simp add: unsigned_of_nat take_bit_nat_eq_self)
  then have "to_bits 8 (unat ?v) = take 8 b" using to_of_bits [of "take 8 b"] l by simp
  with bs have "byte_bits (?v # bs) = b" by (simp add: byte_bits_def)
  with bs(1) show ?case by (intro exI [of _ "?v # bs"]) simp
qed (simp add: byte_bits_def)

lemma data_bits_length: "length (data_bits d) = 5 * length d"
  by (induction d) (simp_all add: data_bits_def)

lemma data_bits_inj:
  assumes "list_all data_char d" "list_all data_char d'" "data_bits d = data_bits d'"
  shows "d = d'"
proof -
  have "length d = length d'" using arg_cong [OF assms(3), of length] by (simp add: data_bits_length)
  then show ?thesis using assms
  proof (induction d d' rule: list_induct2)
    case (Cons c d c' d')
    then obtain m n where c: "c = crock m" "m < 32" "c' = crock n" "n < 32" by (auto simp: data_char_def)
    with Cons.prems have "to_bits 5 m = to_bits 5 n" "data_bits d = data_bits d'"
      by (auto simp: data_bits_def crock_facts)
    have "m = n"
      using arg_cong [OF \<open>to_bits 5 m = to_bits 5 n\<close>, of of_bits] of_to_bits [of 5 m] of_to_bits [of 5 n] c(2,4)
      by simp
    moreover have "d = d'"
      by (rule Cons.IH) (use Cons.prems \<open>data_bits d = data_bits d'\<close> in simp_all)
    ultimately show ?case using c(1,3) by simp
  qed simp
qed

lemma four_of: "length l = 4 \<Longrightarrow> \<exists>p q x y. l = [p, q, x, y]"
  by (auto simp: numeral_eq_Suc length_Suc_conv)

lemma accepted_code:
  assumes "decodeShortCode raw = Inr c"
  obtains ip port where "length ip = 4 \<or> length ip = 16 \<and> \<not> isLinkLocalIpv6 (byte_groups ip)" "port < 65536"
    "c = address_result ip port"
    "code_data raw = bytesToCrockford (with_checksum ((if length ip = 4 then 1 else 2) # ip @ be16 port))"
proof -
  from assms obtain b where b1: "strip_code_prefix raw = Some b"
    by (cases "strip_code_prefix raw") (simp_all add: decodeShortCode_def)
  from assms obtain d where b2: "data_chars True b = Inr d"
    by (cases "data_chars True b") (simp_all add: decodeShortCode_def b1)
  from assms obtain bnd where b3: "HYPHEN_BOUNDARIES (length d) = Some bnd"
    by (cases "HYPHEN_BOUNDARIES (length d)") (simp_all add: decodeShortCode_def b1 b2 split: if_split_asm)
  have "decodeShortCode raw = (if d = [] then Inl EmptyPayload else if \<not> hyphens_ok bnd 0 b then Inl MisplacedHyphen
      else if True \<in> set (drop (if length d = 15 then 72 else 168) (data_bits d)) then Inl NonZeroPadding
      else read_code (data_bits d) (length d = 15))"
    by (simp only: decodeShortCode_def b1 b2 b3 option.case rbind_simps Let_def data_bits_def)
  with assms have "True \<notin> set (drop (if length d = 15 then 72 else 168) (data_bits d)) \<and>
      read_code (data_bits d) (length d = 15) = Inr c"
    by (simp only: split: if_split_asm) simp_all
  with b1 b2 b3 have b: "strip_code_prefix raw = Some b" "data_chars True b = Inr d"
    "HYPHEN_BOUNDARIES (length d) = Some bnd" "True \<notin> set (drop (if length d = 15 then 72 else 168) (data_bits d))"
    "read_code (data_bits d) (length d = 15) = Inr c" by blast+
  have len: "length d = 15 \<or> length d = 34" using b(3) by (auto simp: HYPHEN_BOUNDARIES_def split: if_splits)
  let ?v4 = "length d = 15"
  let ?n = "if ?v4 then 9 else 21 :: nat"
  let ?z = "drop (8 * ?n) (data_bits d)"
  have need: "(if ?v4 then 72 else 168) = 8 * ?n" by simp
  have "length (take (8 * ?n) (data_bits d)) = 8 * ?n" using len by (auto simp: data_bits_length)
  from bits_bytes [OF this] obtain bs where bs: "length bs = ?n" "byte_bits bs = take (8 * ?n) (data_bits d)" by blast
  have zeros: "?z = replicate (length ?z) False"
  proof -
    have "x = False" if "x \<in> set ?z" for x using that b(4) unfolding need by (cases "x = True") simp_all
    then have "\<forall>x \<in> set ?z. x = False" by blast
    from replicate_length_same [OF this] show ?thesis by (rule sym)
  qed
  have bits: "data_bits d = byte_bits bs @ ?z" unfolding bs(2) by simp
  let ?ip = "take (?n - 5) (tl bs)"
  have "tl bs = ?ip @ drop (?n - 5) (tl bs)" by simp
  moreover obtain v where "bs = v # tl bs" using bs(1) by (cases bs) (auto split: if_splits)
  moreover have "length (drop (?n - 5) (tl bs)) = 4" using bs(1) by simp
  from four_of [OF this] obtain p q x y where "drop (?n - 5) (tl bs) = [p, q, x, y]" by blast
  ultimately have split: "bs = v # ?ip @ [p, q, x, y]" by metis
  have ipl: "length ?ip = (if ?v4 then 4 else 16)" using bs(1) by auto
  let ?port = "unat p * 256 + unat q"
  have "read_code (byte_bits (v # ?ip @ [p, q, x, y]) @ ?z) ?v4 = Inr c"
    using b(5) bits split by simp
  from this [unfolded read_code_parts [OF ipl]]
  have v: "v = (if ?v4 then 1 else 2)" and crc: "be16 (unat (crc16CcittFalse (v # ?ip @ [p, q]))) = [x, y]"
    and res: "c = (if ?v4 then v4_result ?ip ?port else v6_result ?ip ?port)"
    and ll: "?v4 \<or> \<not> isLinkLocalIpv6 (byte_groups ?ip)"
    by (auto simp: Let_def split: if_splits)
  have port: "?port < 65536" using unat_byte [of p] unat_byte [of q] by simp
  have w: "with_checksum ((if length ?ip = 4 then 1 else 2) # ?ip @ be16 ?port) = bs"
  proof -
    have e: "(if length ?ip = 4 then 1 else 2) = v" using v ipl by simp
    have "with_checksum (v # ?ip @ [p, q]) = (v # ?ip @ [p, q]) @ [x, y]" unfolding with_checksum_def crc ..
    then show ?thesis unfolding e be16_pair using split by simp
  qed
  have l9: "length bs = 9 \<or> length bs = 21" using bs(1) by auto
  have "length ?z = (if length bs = 9 then 3 else 2)" using len bs(1) by (auto simp: data_bits_length)
  then have "data_bits d = data_bits (bytesToCrockford bs)"
    using bits zeros encoded_length(2) [OF l9] by simp
  then have "d = bytesToCrockford bs"
    using data_bits_inj data_chars_out [OF b(2)] data_chars_encoded by blast
  moreover have "code_data raw = d" using b by (simp add: code_data_def)
  moreover have "c = address_result ?ip ?port" using res ipl by (simp add: address_result_def)
  moreover have "length ?ip = 4 \<or> length ?ip = 16 \<and> \<not> isLinkLocalIpv6 (byte_groups ?ip)" using ipl ll by auto
  ultimately show thesis using that [of ?ip ?port] port w by simp
qed

text \<open>
  C30. What is accepted is canonical: encoding the address and the port that were read gives back the
  data characters of the text, so two accepted texts with the same meaning differ only in case and
  hyphens.  A code for port 0 is the exception: it is accepted but cannot be made.
\<close>

theorem accepted_codes_are_canonical:
  assumes "decodeShortCode raw = Inr c" and "sc_port c \<noteq> 0"
  shows "encodeShortCode (sc_ip c) (int (sc_port c)) = Inr (SHORT_CODE_PREFIX @ code_data raw)"
proof -
  from assms(1) obtain ip port where a: "length ip = 4 \<or> length ip = 16 \<and> \<not> isLinkLocalIpv6 (byte_groups ip)" "port < 65536"
    "c = address_result ip port"
    "code_data raw = bytesToCrockford (with_checksum ((if length ip = 4 then 1 else 2) # ip @ be16 port))"
    by (rule accepted_code)
  from a assms(2) have port: "1 \<le> int port" "int port \<le> 65535" by simp_all
  show ?thesis
  proof (cases "length ip = 4")
    case True
    let ?ns = "map unat ip"
    have ns: "length ?ns = 4" "list_all (\<lambda>n. n < 256) ?ns" using True unat_byte by (simp_all add: list_all_iff)
    have tx: "sc_ip c = join_with CHR ''.'' (map decimal ?ns)"
      using True a(3) by (simp add: address_result_def v4_result_def Let_def)
    then have "isIPv4 (sc_ip c)" using ns isIPv4_text by blast
    moreover have "map (\<lambda>s. word_of_nat (parse_dec s)) (split_on CHR ''.'' (sc_ip c)) = ip"
    proof -
      have "map (\<lambda>s. word_of_nat (parse_dec s) :: 8 word) (split_on CHR ''.'' (sc_ip c)) = map word_of_nat (map parse_dec (split_on CHR ''.'' (sc_ip c)))"
        by simp
      also have "\<dots> = ip" unfolding tx v4_numbers [OF ns] by (simp add: comp_def)
      finally show ?thesis .
    qed
    ultimately show ?thesis using port a True by (simp add: encodeShortCode_def)
  next
    case False
    with a(1) have l: "length ip = 16" "\<not> isLinkLocalIpv6 (byte_groups ip)" by auto
    have "sc_ip c = formatIpv6Groups (byte_groups ip)" using False a(3) by (simp add: address_result_def v6_result_def Let_def)
    moreover have "parseIpv6Groups (formatIpv6Groups (byte_groups ip)) = Some (byte_groups ip)"
      using byte_groups_wf [OF l(1)] by (intro parse_format) auto
    ultimately show ?thesis using port a False l format_not_v4 be16_byte_groups [OF l(1)]
      by (simp add: encodeShortCode_def)
  qed
qed

lemma sample_decodes: "\<exists>code c. decodeShortCode code = Inr c \<and> sc_port c = 8080"
proof -
  let ?ip = "[192, 168, 1, 20] :: bytes"
  let ?d = "bytesToCrockford (with_checksum (1 # ?ip @ be16 8080))"
  have "decodeShortCode (SHORT_CODE_PREFIX @ ?d) = Inr (address_result ?ip 8080)"
    by (rule decode_encoded_data) (use data_chars_encoded in \<open>auto simp: data_chars_plain hyphens_plain\<close>)
  moreover have "sc_port (address_result ?ip 8080) = 8080" by simp
  ultimately show ?thesis by blast
qed

theorem accepted_codes_are_canonical_witness:
  "\<exists>raw c. decodeShortCode raw = Inr c \<and> sc_port c = 8080 \<and>
     encodeShortCode (sc_ip c) (int (sc_port c)) = Inr (SHORT_CODE_PREFIX @ code_data raw)"
proof -
  obtain code c where "decodeShortCode code = Inr c" "sc_port c = 8080" using sample_decodes by blast
  moreover from this accepted_codes_are_canonical [OF this(1)] have
    "encodeShortCode (sc_ip c) (int (sc_port c)) = Inr (SHORT_CODE_PREFIX @ code_data code)" by simp
  ultimately show ?thesis by blast
qed

lemma codeword_zero: "crc_bits 0xffff (data_bits (bytesToCrockford (with_checksum p))) = 0"
  if "length (with_checksum p) = 9 \<or> length (with_checksum p) = 21"
  using that by (simp add: encoded_length(2) crc_bits_append checksum_zero crc_bits_zeros)

text \<open>
  C31. The checksum catches every slip of the finger: of two texts of the same length that differ only
  within three neighbouring data characters (one wrong character, two swapped neighbours), at most one
  is accepted.
\<close>

theorem typos_are_refused:
  assumes "decodeShortCode r1 = Inr c1" and "decodeShortCode r2 = Inr c2"
    and "length (code_data r1) = length (code_data r2)"
    and "take p (code_data r1) = take p (code_data r2)" and "drop (p + 3) (code_data r1) = drop (p + 3) (code_data r2)"
  shows "code_data r1 = code_data r2"
proof -
  let ?d1 = "code_data r1" and ?d2 = "code_data r2"
  have ok: "list_all data_char (code_data r) \<and> crc_bits 0xffff (data_bits (code_data r)) = 0" if r: "decodeShortCode r = Inr c" for r c
  proof -
    from r obtain ip port where a: "length ip = 4 \<or> length ip = 16 \<and> \<not> isLinkLocalIpv6 (byte_groups ip)"
      "code_data r = bytesToCrockford (with_checksum ((if length ip = 4 then 1 else 2) # ip @ be16 port))"
      by (rule accepted_code)
    have "length (with_checksum ((if length ip = 4 then 1 else 2) # ip @ be16 port)) = 9 \<or>
      length (with_checksum ((if length ip = 4 then 1 else 2) # ip @ be16 port)) = 21"
      using a(1) by (auto simp: with_checksum_def)
    from codeword_zero [OF this] show ?thesis unfolding a(2) by (simp add: data_chars_encoded)
  qed
  let ?m = "\<lambda>d. take 3 (drop p d)"
  have split: "d = take p d @ ?m d @ drop (p + 3) d" for d :: string
    using append_take_drop_id [of p d] append_take_drop_id [of 3 "drop p d"] by (simp add: add.commute)
  have bits: "data_bits (a @ b) = data_bits a @ data_bits b" for a b by (simp add: data_bits_def)
  let ?s = "crc_bits 0xffff (data_bits (take p ?d1))"
  have "crc_bits (crc_bits ?s (data_bits (?m ?d1))) (data_bits (drop (p + 3) ?d1)) = 0"
    using ok [OF assms(1)] arg_cong [OF split [of ?d1], of data_bits] by (simp add: bits crc_bits_append)
  moreover have "crc_bits (crc_bits ?s (data_bits (?m ?d2))) (data_bits (drop (p + 3) ?d1)) = 0"
    using ok [OF assms(2)] arg_cong [OF split [of ?d2], of data_bits] assms(4,5) by (simp add: bits crc_bits_append)
  ultimately have "crc_bits ?s (data_bits (?m ?d1)) = crc_bits ?s (data_bits (?m ?d2))"
    using crc_bits_inj by metis
  moreover have "length (data_bits (?m ?d1)) \<le> 16" "length (data_bits (?m ?d2)) = length (data_bits (?m ?d1))"
    using assms(3) by (simp_all add: data_bits_length)
  ultimately have "data_bits (?m ?d1) = data_bits (?m ?d2)" by (intro crc_bits_window) auto
  moreover have "list_all data_char (?m (code_data r))" if "decodeShortCode r = Inr c" for r c
    using ok [OF that] by (auto simp: list_all_iff dest: in_set_takeD in_set_dropD)
  ultimately have "?m ?d1 = ?m ?d2" using data_bits_inj assms(1,2) by blast
  then show ?thesis using split [of ?d1] split [of ?d2] assms(4,5) by metis
qed

lemma sample_two_spellings:
  "\<exists>r1 r2 c. r1 \<noteq> r2 \<and> decodeShortCode r1 = Inr c \<and> decodeShortCode r2 = Inr c \<and> code_data r1 = code_data r2"
proof -
  let ?ip = "[192, 168, 1, 20] :: bytes"
  let ?d = "bytesToCrockford (with_checksum (1 # ?ip @ be16 8080))"
  have dec: "decodeShortCode (SHORT_CODE_PREFIX @ ?d) = Inr (address_result ?ip 8080)"
    by (rule decode_encoded_data) (use data_chars_encoded in \<open>auto simp: data_chars_plain hyphens_plain\<close>)
  have strip: "strip_code_prefix (''DWEBH1.'' @ ?d) = strip_code_prefix (SHORT_CODE_PREFIX @ ?d)"
  proof -
    have low: "to_lower ''DWEBH1.'' = SHORT_CODE_PREFIX" by code_simp
    have len: "length SHORT_CODE_PREFIX = length ''DWEBH1.''" by code_simp
    have "strip_code_prefix (''DWEBH1.'' @ ?d) = Some ?d" unfolding strip_code_prefix_def len by (simp only: append_eq_conv_conj take_append low) (simp add: low)
    then show ?thesis by (simp only: strip_own_prefix)
  qed
  have "decodeShortCode (''DWEBH1.'' @ ?d) = decodeShortCode (SHORT_CODE_PREFIX @ ?d)"
    "code_data (''DWEBH1.'' @ ?d) = code_data (SHORT_CODE_PREFIX @ ?d)"
    by (simp_all only: decodeShortCode_def code_data_def strip)
  moreover have "''DWEBH1.'' @ ?d \<noteq> SHORT_CODE_PREFIX @ ?d" by (simp add: SHORT_CODE_PREFIX_def)
  ultimately show ?thesis using dec by metis
qed

theorem typos_are_refused_witness:
  "\<exists>r1 r2 c. r1 \<noteq> r2 \<and> decodeShortCode r1 = Inr c \<and> decodeShortCode r2 = Inr c \<and>
     take 0 (code_data r1) = take 0 (code_data r2) \<and> code_data r1 = code_data r2"
proof -
  obtain r1 r2 c where r: "r1 \<noteq> r2" "decodeShortCode r1 = Inr c" "decodeShortCode r2 = Inr c" "code_data r1 = code_data r2"
    using sample_two_spellings by blast
  have "code_data r1 = code_data r2"
    by (rule typos_are_refused [OF r(2,3), where p = 0]) (simp_all add: r(4))
  with r show ?thesis by auto
qed

text \<open>The port of an accepted code is not checked.\<close>

lemma port_zero_is_accepted:
  "\<exists>raw c. decodeShortCode raw = Inr c \<and> sc_port c = 0 \<and> encodeShortCode (sc_ip c) (int (sc_port c)) = Inl InvalidPort"
proof -
  let ?ip = "[192, 168, 1, 20] :: bytes"
  let ?d = "bytesToCrockford (with_checksum (1 # ?ip @ be16 0))"
  have "decodeShortCode (SHORT_CODE_PREFIX @ ?d) = Inr (address_result ?ip 0)"
    by (rule decode_encoded_data) (use data_chars_encoded in \<open>auto simp: data_chars_plain hyphens_plain\<close>)
  moreover have "sc_port (address_result ?ip 0) = 0" by (simp add: address_result_def v4_result_def Let_def)
  moreover have "encodeShortCode a (int 0) = Inl InvalidPort" for a by (simp add: encodeShortCode_def)
  ultimately show ?thesis by metis
qed

end
