(* ===== verification/Blake3.thy ===== *)
theory Blake3
  imports Json Utf8
begin

text \<open>
  The BLAKE3 hash of the command line tool (opendweb, blake3.mjs): the compression function, the chunk
  state, and the incremental hasher with its stack of chaining values.

  A \<^verbatim>\<open>Uint32Array\<close> is a list of 32-bit words, whose additions wrap as \<^verbatim>\<open>>>> 0\<close> makes them do.  The
  block buffer of a chunk state always has 64 bytes and is written in place.  Popping an empty stack
  gives \<^verbatim>\<open>undefined\<close>, on which the next read throws: \<^const>\<open>None\<close>.
\<close>

unbundle bit_operations_syntax

type_synonym w32 = "32 word"

definition IV :: "w32 list" where
  "IV = [0x6a09e667, 0xbb67ae85, 0x3c6ef372, 0xa54ff53a, 0x510e527f, 0x9b05688c, 0x1f83d9ab, 0x5be0cd19]"

definition MSG_PERMUTATION :: "nat list" where
  "MSG_PERMUTATION = [2, 6, 3, 10, 7, 0, 4, 13, 1, 11, 12, 5, 9, 14, 15, 8]"

definition CHUNK_START :: w32 where "CHUNK_START = 1"
definition CHUNK_END :: w32 where "CHUNK_END = 2"
definition PARENT :: w32 where "PARENT = 4"
definition ROOT :: w32 where "ROOT = 8"

definition BLOCK_LEN :: nat where "BLOCK_LEN = 64"
definition CHUNK_LEN :: nat where "CHUNK_LEN = 1024"

subsection \<open>Compression\<close>

definition rotr :: "w32 \<Rightarrow> nat \<Rightarrow> w32" where
  "rotr x n = (drop_bit n x OR push_bit (32 - n) x)"

definition mix_g :: "w32 list \<Rightarrow> nat \<Rightarrow> nat \<Rightarrow> nat \<Rightarrow> nat \<Rightarrow> w32 \<Rightarrow> w32 \<Rightarrow> w32 list" where
  "mix_g st a b c d mx my =
     (let st = st[a := st ! a + st ! b + mx];
          st = st[d := rotr (st ! d XOR st ! a) 16];
          st = st[c := st ! c + st ! d];
          st = st[b := rotr (st ! b XOR st ! c) 12];
          st = st[a := st ! a + st ! b + my];
          st = st[d := rotr (st ! d XOR st ! a) 8];
          st = st[c := st ! c + st ! d];
          st = st[b := rotr (st ! b XOR st ! c) 7]
      in st)"

definition mix_round :: "w32 list \<Rightarrow> w32 list \<Rightarrow> w32 list" where
  "mix_round st m =
     (let st = mix_g st 0 4 8 12 (m ! 0) (m ! 1);
          st = mix_g st 1 5 9 13 (m ! 2) (m ! 3);
          st = mix_g st 2 6 10 14 (m ! 4) (m ! 5);
          st = mix_g st 3 7 11 15 (m ! 6) (m ! 7);
          st = mix_g st 0 5 10 15 (m ! 8) (m ! 9);
          st = mix_g st 1 6 11 12 (m ! 10) (m ! 11);
          st = mix_g st 2 7 8 13 (m ! 12) (m ! 13);
          st = mix_g st 3 4 9 14 (m ! 14) (m ! 15)
      in st)"

definition permute :: "w32 list \<Rightarrow> w32 list" where
  "permute m = map (nth m) MSG_PERMUTATION"

text \<open>The rounds still to do; the message is permuted before every round but the first.\<close>

fun rounds :: "nat \<Rightarrow> w32 list \<Rightarrow> w32 list \<Rightarrow> w32 list" where
  "rounds 0 st m = st"
| "rounds (Suc n) st m = rounds n (mix_round st m) (permute m)"

definition compress :: "w32 list \<Rightarrow> w32 list \<Rightarrow> nat \<Rightarrow> nat \<Rightarrow> w32 \<Rightarrow> w32 list" where
  "compress cv block counter blockLen flags =
     (let st = rounds 7 (take 8 cv @ take 4 IV @ [word_of_nat counter, 0, word_of_nat blockLen, flags]) block
      in map (\<lambda>i. st ! i XOR st ! (i + 8)) [0..<8] @ map (\<lambda>i. st ! (i + 8) XOR cv ! i) [0..<8])"

definition wordsToCv :: "w32 list \<Rightarrow> w32 list" where
  "wordsToCv st = take 8 st"

text \<open>Little-endian words.\<close>

definition word_le :: "bytes \<Rightarrow> w32" where
  "word_le bs = ucast (bs ! 0) OR push_bit 8 (ucast (bs ! 1)) OR push_bit 16 (ucast (bs ! 2)) OR push_bit 24 (ucast (bs ! 3))"

definition bytesToWords :: "bytes \<Rightarrow> w32 list" where
  "bytesToWords bs = map (\<lambda>i. word_le (drop (4 * i) bs)) [0..<16]"

definition le_bytes :: "w32 \<Rightarrow> bytes" where
  "le_bytes w = map (\<lambda>j. ucast (drop_bit (8 * j) w)) [0..<4]"

definition cvToBytes :: "w32 list \<Rightarrow> bytes" where
  "cvToBytes cv = concat (map (\<lambda>i. le_bytes (cv ! i)) [0..<8])"

subsection \<open>Chunks\<close>

record chunk_state =
  ch_cv :: "w32 list"
  ch_counter :: nat
  ch_block :: bytes
  ch_blockLen :: nat
  ch_blocks :: nat

record hash_output =
  ou_cv :: "w32 list"
  ou_block :: bytes
  ou_blockLen :: nat
  ou_counter :: nat
  ou_flags :: w32

definition new_chunk :: "w32 list \<Rightarrow> nat \<Rightarrow> chunk_state" where
  "new_chunk key n = \<lparr>ch_cv = key, ch_counter = n, ch_block = replicate BLOCK_LEN 0, ch_blockLen = 0, ch_blocks = 0\<rparr>"

definition chunk_len :: "chunk_state \<Rightarrow> nat" where
  "chunk_len c = BLOCK_LEN * ch_blocks c + ch_blockLen c"

definition startFlag :: "chunk_state \<Rightarrow> w32" where
  "startFlag c = (if ch_blocks c = 0 then CHUNK_START else 0)"

text \<open>A full block is compressed before more input is taken.\<close>

definition flush_block :: "chunk_state \<Rightarrow> chunk_state" where
  "flush_block c =
     (if ch_blockLen c = BLOCK_LEN
      then c\<lparr>ch_cv := wordsToCv (compress (ch_cv c) (bytesToWords (ch_block c)) (ch_counter c) BLOCK_LEN (startFlag c)),
             ch_blocks := ch_blocks c + 1, ch_block := replicate BLOCK_LEN 0, ch_blockLen := 0\<rparr>
      else c)"

text \<open>\<^verbatim>\<open>block.set(xs, at)\<close>\<close>

definition set_at :: "nat \<Rightarrow> bytes \<Rightarrow> bytes \<Rightarrow> bytes" where
  "set_at at xs blk = take at blk @ xs @ drop (at + length xs) blk"

definition put_block :: "bytes \<Rightarrow> chunk_state \<Rightarrow> chunk_state" where
  "put_block xs c = c\<lparr>ch_block := set_at (ch_blockLen c) xs (ch_block c), ch_blockLen := ch_blockLen c + length xs\<rparr>"

text \<open>
  The loop of \<^verbatim>\<open>ChunkState.update\<close>.  Every turn takes at least one byte, because the block buffer is not
  full after the flush; the guard on an overfull buffer is never met.
\<close>

function chunk_update :: "bytes \<Rightarrow> chunk_state \<Rightarrow> chunk_state" where
  "chunk_update input c =
     (if input = [] \<or> BLOCK_LEN < ch_blockLen c then c
      else (let c = flush_block c; n = min (BLOCK_LEN - ch_blockLen c) (length input)
            in chunk_update (drop n input) (put_block (take n input) c)))"
  by pat_completeness auto
termination
  by (relation "measure (\<lambda>(input, c). length input)") (auto simp: flush_block_def BLOCK_LEN_def)

declare chunk_update.simps [simp del]

definition chunk_output :: "chunk_state \<Rightarrow> hash_output" where
  "chunk_output c =
     \<lparr>ou_cv = ch_cv c, ou_block = ch_block c, ou_blockLen = ch_blockLen c, ou_counter = ch_counter c,
      ou_flags = startFlag c OR CHUNK_END\<rparr>"

definition outputCv :: "hash_output \<Rightarrow> w32 list" where
  "outputCv ou = wordsToCv (compress (ou_cv ou) (bytesToWords (ou_block ou)) (ou_counter ou) (ou_blockLen ou) (ou_flags ou))"

definition parentOutput :: "w32 list \<Rightarrow> w32 list \<Rightarrow> hash_output" where
  "parentOutput l r =
     \<lparr>ou_cv = IV, ou_block = cvToBytes l @ cvToBytes r, ou_blockLen = BLOCK_LEN, ou_counter = 0, ou_flags = PARENT\<rparr>"

subsection \<open>The hasher\<close>

text \<open>The stack has its top in front.\<close>

record hasher =
  ha_chunk :: chunk_state
  ha_stack :: "w32 list list"

definition new_hasher :: hasher where
  "new_hasher = \<lparr>ha_chunk = new_chunk IV 0, ha_stack = []\<rparr>"

fun pushCv :: "w32 list \<Rightarrow> nat \<Rightarrow> w32 list list \<Rightarrow> w32 list list option" where
  "pushCv cv chunks [] = (if odd chunks then Some [cv] else None)"
| "pushCv cv chunks (l # stack) =
     (if odd chunks then Some (cv # l # stack)
      else pushCv (outputCv (parentOutput l cv)) (chunks div 2) stack)"

definition close_chunk :: "hasher \<Rightarrow> hasher option" where
  "close_chunk h =
     (if chunk_len (ha_chunk h) = CHUNK_LEN
      then (let n = ch_counter (ha_chunk h) + 1
            in case pushCv (outputCv (chunk_output (ha_chunk h))) n (ha_stack h) of
                 None \<Rightarrow> None
               | Some s \<Rightarrow> Some \<lparr>ha_chunk = new_chunk IV n, ha_stack = s\<rparr>)
      else Some h)"

definition feed_chunk :: "bytes \<Rightarrow> hasher \<Rightarrow> hasher" where
  "feed_chunk xs h = h\<lparr>ha_chunk := chunk_update xs (ha_chunk h)\<rparr>"

text \<open>The loop of \<^verbatim>\<open>Hasher.update\<close>; an overfull chunk is never met.\<close>

function hasher_update :: "bytes \<Rightarrow> hasher \<Rightarrow> hasher option" where
  "hasher_update input h =
     (if input = [] then Some h
      else if CHUNK_LEN < chunk_len (ha_chunk h) then None
      else (case close_chunk h of
              None \<Rightarrow> None
            | Some h \<Rightarrow>
                (let n = min (CHUNK_LEN - chunk_len (ha_chunk h)) (length input)
                 in hasher_update (drop n input) (feed_chunk (take n input) h))))"
  by pat_completeness auto
termination
  by (relation "measure (\<lambda>(input, h). length input)")
    (auto simp: close_chunk_def Let_def new_chunk_def chunk_len_def CHUNK_LEN_def BLOCK_LEN_def split: option.splits if_splits)

declare hasher_update.simps [simp del]

definition finalizeOutput :: "hasher \<Rightarrow> hash_output" where
  "finalizeOutput h = foldl (\<lambda>out l. parentOutput l (outputCv out)) (chunk_output (ha_chunk h)) (ha_stack h)"

definition root_words :: "hash_output \<Rightarrow> w32 list" where
  "root_words ou = compress (ou_cv ou) (bytesToWords (ou_block ou)) (ou_counter ou) (ou_blockLen ou) (ou_flags ou OR ROOT)"

definition byte_hex :: "8 word \<Rightarrow> string" where
  "byte_hex b = [hex_char (unat b div 16), hex_char (unat b mod 16)]"

definition words_hex :: "w32 list \<Rightarrow> string" where
  "words_hex ws = concat (map (\<lambda>i. concat (map byte_hex (le_bytes (ws ! i)))) [0..<8])"

definition blake3Hex :: "bytes \<Rightarrow> string option" where
  "blake3Hex input = map_option (\<lambda>h. words_hex (root_words (finalizeOutput h))) (hasher_update input new_hasher)"

end
