(* ===== verification/BlakeProps.thy ===== *)
theory BlakeProps
  imports Blake3 Session Z32
begin

text \<open>
  The incremental hasher computes the BLAKE3 tree: the lazily flushed chunk state is the chain over the
  blocks of a chunk, and the stack of chaining values holds one perfect subtree for every bit of the
  number of closed chunks.
\<close>

subsection \<open>The tree\<close>

text \<open>The state of chunk \<open>n\<close> after the bytes \<open>xs\<close>, the \<open>k\<close>-th block being the next.\<close>

function chunk_at :: "nat \<Rightarrow> nat \<Rightarrow> w32 list \<Rightarrow> bytes \<Rightarrow> chunk_state" where
  "chunk_at n k cv xs =
     (if length xs \<le> BLOCK_LEN
      then \<lparr>ch_cv = cv, ch_counter = n, ch_block = xs @ replicate (BLOCK_LEN - length xs) 0, ch_blockLen = length xs, ch_blocks = k\<rparr>
      else chunk_at n (Suc k)
             (wordsToCv (compress cv (bytesToWords (take BLOCK_LEN xs)) n BLOCK_LEN (if k = 0 then CHUNK_START else 0)))
             (drop BLOCK_LEN xs))"
  by pat_completeness auto
termination by (relation "measure (\<lambda>(n, k, cv, xs). length xs)") (auto simp: BLOCK_LEN_def)

declare chunk_at.simps [simp del]

definition leaf :: "nat \<Rightarrow> bytes \<Rightarrow> hash_output" where
  "leaf n xs = chunk_output (chunk_at n 0 IV xs)"

text \<open>The largest power of two up to \<open>m\<close>, from one on.\<close>

function pow_below :: "nat \<Rightarrow> nat" where
  "pow_below m = (if m < 2 then 1 else 2 * pow_below (m div 2))"
  by pat_completeness auto
termination by (relation "measure id") auto

declare pow_below.simps [simp del]

lemma pow_below_bounds: "0 < m \<Longrightarrow> pow_below m \<le> m \<and> m < 2 * pow_below m"
proof (induction m rule: pow_below.induct)
  case (1 m)
  show ?case
  proof (cases "m < 2")
    case True
    with 1 show ?thesis by (simp add: pow_below.simps)
  next
    case False
    with 1 have "pow_below (m div 2) \<le> m div 2 \<and> m div 2 < 2 * pow_below (m div 2)" by simp
    with False show ?thesis by (subst (1 2) pow_below.simps) auto
  qed
qed

lemma pow_below_pos: "0 < pow_below m"
  by (cases "m = 0") (use pow_below_bounds [of m] in \<open>auto simp: pow_below.simps\<close>)

text \<open>The left subtree takes the largest power of two of chunks that leaves something to the right.\<close>

definition left_chunks :: "bytes \<Rightarrow> nat" where
  "left_chunks xs = pow_below ((length xs - 1) div CHUNK_LEN)"

lemma left_chunks_bounds:
  "CHUNK_LEN < length xs \<Longrightarrow> 0 < left_chunks xs \<and> CHUNK_LEN * left_chunks xs < length xs"
proof -
  assume l: "CHUNK_LEN < length xs"
  then have "0 < (length xs - 1) div CHUNK_LEN" by (simp add: CHUNK_LEN_def div_greater_zero_iff)
  from pow_below_bounds [OF this] pow_below_pos have "left_chunks xs \<le> (length xs - 1) div CHUNK_LEN"
    by (simp add: left_chunks_def)
  then have "CHUNK_LEN * left_chunks xs \<le> length xs - 1" by (simp add: CHUNK_LEN_def less_eq_div_iff_mult_less_eq mult.commute)
  with l show ?thesis by (auto simp: left_chunks_def pow_below_pos)
qed

function tree :: "nat \<Rightarrow> bytes \<Rightarrow> hash_output" where
  "tree n xs =
     (if length xs \<le> CHUNK_LEN then leaf n xs
      else parentOutput (outputCv (tree n (take (CHUNK_LEN * left_chunks xs) xs)))
             (outputCv (tree (n + left_chunks xs) (drop (CHUNK_LEN * left_chunks xs) xs))))"
  by pat_completeness auto
termination
proof (relation "measure (\<lambda>(n, xs). length xs)")
  fix n :: nat and xs :: bytes
  assume "\<not> length xs \<le> CHUNK_LEN"
  then have "0 < CHUNK_LEN * left_chunks xs \<and> CHUNK_LEN * left_chunks xs < length xs"
    using left_chunks_bounds [of xs] by (simp add: CHUNK_LEN_def)
  then show "((n, take (CHUNK_LEN * left_chunks xs) xs), n, xs) \<in> measure (\<lambda>(n, xs). length xs)"
    "((n + left_chunks xs, drop (CHUNK_LEN * left_chunks xs) xs), n, xs) \<in> measure (\<lambda>(n, xs). length xs)"
    by (simp_all only: in_measure prod.case length_take length_drop) linarith+
qed auto

declare tree.simps [simp del]

subsection \<open>Chunks\<close>

lemma chunk_at_short:
  "length xs \<le> BLOCK_LEN \<Longrightarrow> chunk_at n k cv xs =
     \<lparr>ch_cv = cv, ch_counter = n, ch_block = xs @ replicate (BLOCK_LEN - length xs) 0, ch_blockLen = length xs, ch_blocks = k\<rparr>"
  by (simp add: chunk_at.simps)

lemma flush_chunk_at:
  "length ys \<le> BLOCK_LEN \<Longrightarrow> xs \<noteq> [] \<Longrightarrow> \<exists>k' cv' ys'. flush_block (chunk_at n k cv ys) = chunk_at n k' cv' ys' \<and>
     length ys' < BLOCK_LEN \<and> chunk_at n k cv (ys @ xs) = chunk_at n k' cv' (ys' @ xs)"
proof (cases "length ys = BLOCK_LEN")
  case True
  assume xs: "xs \<noteq> []"
  let ?cv = "wordsToCv (compress cv (bytesToWords ys) n BLOCK_LEN (if k = 0 then CHUNK_START else 0))"
  have "flush_block (chunk_at n k cv ys) = chunk_at n (Suc k) ?cv []"
    using True by (simp add: chunk_at_short flush_block_def startFlag_def)
  moreover have "chunk_at n k cv (ys @ xs) = chunk_at n (Suc k) ?cv ([] @ xs)"
    using True xs by (subst chunk_at.simps) simp
  moreover have "length ([] :: bytes) < BLOCK_LEN" by (simp add: BLOCK_LEN_def)
  ultimately show ?thesis by blast
next
  case False
  assume "length ys \<le> BLOCK_LEN"
  with False have "length ys < BLOCK_LEN" "flush_block (chunk_at n k cv ys) = chunk_at n k cv ys"
    by (simp_all add: chunk_at_short flush_block_def)
  then show ?thesis by blast
qed

lemma put_chunk_at:
  "length (ys @ zs) \<le> BLOCK_LEN \<Longrightarrow> put_block zs (chunk_at n k cv ys) = chunk_at n k cv (ys @ zs)"
  by (simp add: chunk_at_short put_block_def set_at_def)

lemma chunk_update_short:
  "length ys \<le> BLOCK_LEN \<Longrightarrow> chunk_update xs (chunk_at n k cv ys) = chunk_at n k cv (ys @ xs)"
proof (induction "length xs" arbitrary: xs ys k cv rule: less_induct)
  case less
  show ?case
  proof (cases "xs = []")
    case True
    then show ?thesis by (simp add: chunk_update.simps)
  next
    case False
    from flush_chunk_at [OF less.prems False] obtain k' cv' ys' where f: "flush_block (chunk_at n k cv ys) = chunk_at n k' cv' ys'"
      "length ys' < BLOCK_LEN" "chunk_at n k cv (ys @ xs) = chunk_at n k' cv' (ys' @ xs)" by blast
    let ?n = "min (BLOCK_LEN - length ys') (length xs)"
    have len: "ch_blockLen (chunk_at n k cv ys) = length ys" "ch_blockLen (chunk_at n k' cv' ys') = length ys'"
      using less.prems f(2) by (simp_all add: chunk_at_short)
    have "chunk_update xs (chunk_at n k cv ys) = chunk_update (drop ?n xs) (put_block (take ?n xs) (chunk_at n k' cv' ys'))"
      using False less.prems len f(1) by (subst chunk_update.simps) (simp add: Let_def)
    also have "put_block (take ?n xs) (chunk_at n k' cv' ys') = chunk_at n k' cv' (ys' @ take ?n xs)"
      using f(2) by (intro put_chunk_at) auto
    also have "chunk_update (drop ?n xs) (chunk_at n k' cv' (ys' @ take ?n xs)) = chunk_at n k' cv' ((ys' @ take ?n xs) @ drop ?n xs)"
      using f(2) False by (intro less.hyps) auto
    finally show ?thesis using f(3) by simp
  qed
qed

lemma chunk_update_at: "chunk_update xs (chunk_at n k cv ys) = chunk_at n k cv (ys @ xs)"
proof (induction n k cv ys rule: chunk_at.induct)
  case (1 n k cv ys)
  show ?case
  proof (cases "length ys \<le> BLOCK_LEN")
    case True
    then show ?thesis by (rule chunk_update_short)
  next
    case False
    let ?cv = "wordsToCv (compress cv (bytesToWords (take BLOCK_LEN ys)) n BLOCK_LEN (if k = 0 then CHUNK_START else 0))"
    have "chunk_at n k cv zs = chunk_at n (Suc k) ?cv (drop BLOCK_LEN zs)" if "zs = ys \<or> zs = ys @ xs" for zs
      using that False by (subst chunk_at.simps) auto
    with 1 False show ?thesis by simp
  qed
qed

lemma chunk_at_len: "chunk_len (chunk_at n k cv xs) = BLOCK_LEN * k + length xs \<and> ch_counter (chunk_at n k cv xs) = n"
proof (induction n k cv xs rule: chunk_at.induct)
  case (1 n k cv xs)
  then show ?case by (cases "length xs \<le> BLOCK_LEN") (subst chunk_at.simps; simp add: chunk_len_def)+
qed

lemma new_chunk_at: "new_chunk IV n = chunk_at n 0 IV []"
  by (simp add: chunk_at_short new_chunk_def)

subsection \<open>The stack of subtrees\<close>

text \<open>The chaining value of the perfect subtree of height \<open>j\<close> that starts at leaf \<open>i\<close>.\<close>

fun node :: "(nat \<Rightarrow> w32 list) \<Rightarrow> nat \<Rightarrow> nat \<Rightarrow> w32 list" where
  "node c i 0 = c i"
| "node c i (Suc j) = outputCv (parentOutput (node c i j) (node c (i + 2 ^ j) j))"

text \<open>The subtrees of \<open>m\<close> units of height \<open>j\<close> from leaf \<open>s\<close> on, the rightmost first.\<close>

function stack_of :: "(nat \<Rightarrow> w32 list) \<Rightarrow> nat \<Rightarrow> nat \<Rightarrow> nat \<Rightarrow> w32 list list" where
  "stack_of c s j m =
     (if m = 0 then []
      else (if odd m then [node c (s + (m - 1) * 2 ^ j) j] else []) @ stack_of c s (Suc j) (m div 2))"
  by pat_completeness auto
termination by (relation "measure (\<lambda>(c, s, j, m). m)") auto

declare stack_of.simps [simp del]

lemma stack_of_even: "even m \<Longrightarrow> stack_of c s j m = stack_of c s (Suc j) (m div 2)"
  by (cases "m = 0") (simp_all add: stack_of.simps)

lemma stack_of_odd: "odd m \<Longrightarrow> stack_of c s j m = node c (s + (m - 1) * 2 ^ j) j # stack_of c s (Suc j) (m div 2)"
  by (subst stack_of.simps) (auto elim: oddE)

lemma pushCv_stack:
  "0 < m \<Longrightarrow> pushCv (node c (s + (m - 1) * 2 ^ j) j) m (stack_of c s j (m - 1)) = Some (stack_of c s j m)"
proof (induction m arbitrary: j rule: less_induct)
  case (less m)
  show ?case
  proof (cases "odd m")
    case True
    then obtain p where "m = 2 * p + 1" by (rule oddE)
    then have "stack_of c s j (m - 1) = stack_of c s (Suc j) (m div 2)" by (simp add: stack_of_even)
    moreover have "pushCv v m st = Some (v # st)" for v st using True by (cases st) simp_all
    ultimately show ?thesis using True by (simp add: stack_of_odd)
  next
    case False
    with less.prems obtain p where p: "m = 2 * p" "0 < p" by (auto elim: evenE)
    have "stack_of c s j (m - 1) = node c (s + (p - 1) * 2 ^ Suc j) j # stack_of c s (Suc j) (p - 1)"
    proof -
      have "odd (m - 1)" "(m - 1) div 2 = p - 1" "m - 1 - 1 = 2 * (p - 1)" using p by auto
      then show ?thesis by (simp add: stack_of_odd mult_ac)
    qed
    moreover have "node c (s + (m - 1) * 2 ^ j) j = node c (s + (p - 1) * 2 ^ Suc j + 2 ^ j) j"
    proof -
      obtain r where "p = Suc r" using p by (cases p) auto
      then have "s + (m - 1) * 2 ^ j = s + (p - 1) * 2 ^ Suc j + 2 ^ j" using p by (simp add: algebra_simps)
      then show ?thesis by (rule arg_cong)
    qed
    ultimately have "pushCv (node c (s + (m - 1) * 2 ^ j) j) m (stack_of c s j (m - 1)) =
        pushCv (node c (s + (p - 1) * 2 ^ Suc j) (Suc j)) p (stack_of c s (Suc j) (p - 1))"
      using False p by (simp only: pushCv.simps) simp
    also have "\<dots> = Some (stack_of c s (Suc j) p)" using p by (intro less.IH) auto
    finally show ?thesis using False p by (simp add: stack_of_even)
  qed
qed

lemma stack_of_top:
  "q < 2 ^ b \<Longrightarrow> stack_of c s j (2 ^ b + q) = stack_of c (s + 2 ^ (b + j)) j q @ [node c s (b + j)]"
proof (induction b arbitrary: j q)
  case 0
  then show ?case by (simp add: stack_of.simps)
next
  case (Suc b)
  have half: "(2 ^ Suc b + q) div 2 = 2 ^ b + q div 2" by simp
  have IH: "stack_of c s (Suc j) (2 ^ b + q div 2) = stack_of c (s + 2 ^ (b + Suc j)) (Suc j) (q div 2) @ [node c s (b + Suc j)]"
    using Suc.prems by (intro Suc.IH) auto
  show ?case
  proof (cases "odd q")
    case True
    have "s + (2 ^ Suc b + q - 1) * 2 ^ j = s + 2 ^ (b + Suc j) + (q - 1) * 2 ^ j"
      using True by (cases q) (auto simp: algebra_simps power_add)
    then have "node c (s + (2 ^ Suc b + q - 1) * 2 ^ j) j = node c (s + 2 ^ (b + Suc j) + (q - 1) * 2 ^ j) j" by (rule arg_cong)
    moreover have "odd (2 ^ Suc b + q)" using True by simp
    ultimately show ?thesis using IH half stack_of_odd [of "2 ^ Suc b + q" c s j] stack_of_odd [OF True, of c "s + 2 ^ (b + Suc j)" j]
      by (simp only: append_Cons add_Suc add_Suc_right simp_thms)
  next
    case False
    with IH half show ?thesis by (simp add: stack_of_even)
  qed
qed

subsection \<open>The hasher\<close>

definition leaf_cv :: "bytes \<Rightarrow> nat \<Rightarrow> w32 list" where
  "leaf_cv data i = outputCv (leaf i (take CHUNK_LEN (drop (CHUNK_LEN * i) data)))"

text \<open>The hasher after the first \<open>p\<close> bytes of the data, with \<open>m\<close> chunks closed.\<close>

definition hasher_at :: "bytes \<Rightarrow> nat \<Rightarrow> nat \<Rightarrow> hasher" where
  "hasher_at data p m =
     \<lparr>ha_chunk = chunk_at m 0 IV (drop (CHUNK_LEN * m) (take p data)), ha_stack = stack_of (leaf_cv data) 0 0 m\<rparr>"

lemma close_chunk_at:
  assumes p: "p \<le> length data"
  shows "close_chunk (hasher_at data p ((p - 1) div CHUNK_LEN)) = Some (hasher_at data p (p div CHUNK_LEN))"
proof -
  let ?m = "(p - 1) div CHUNK_LEN"
  have len: "chunk_len (ha_chunk (hasher_at data p ?m)) = p - CHUNK_LEN * ?m"
    using p by (simp add: hasher_at_def chunk_at_len)
  show ?thesis
  proof (cases "p - CHUNK_LEN * ?m = CHUNK_LEN")
    case True
    then have pm: "p = CHUNK_LEN * Suc ?m" by (simp add: CHUNK_LEN_def)
    then have div: "p div CHUNK_LEN = Suc ?m" by (simp add: CHUNK_LEN_def)
    have leaf: "outputCv (chunk_output (chunk_at ?m 0 IV (drop (CHUNK_LEN * ?m) (take p data)))) = leaf_cv data ?m"
    proof -
      have "drop (CHUNK_LEN * ?m) (take p data) = take CHUNK_LEN (drop (CHUNK_LEN * ?m) data)"
        using True by (simp only: drop_take)
      then show ?thesis by (simp only: leaf_cv_def leaf_def)
    qed
    have "pushCv (leaf_cv data ?m) (Suc ?m) (stack_of (leaf_cv data) 0 0 ?m) = Some (stack_of (leaf_cv data) 0 0 (Suc ?m))"
      using pushCv_stack [of "Suc ?m" "leaf_cv data" 0 0] by simp
    moreover have "drop (CHUNK_LEN * Suc ?m) (take p data) = []" using pm p by simp
    ultimately show ?thesis using len True leaf unfolding div
      by (simp add: close_chunk_def hasher_at_def chunk_at_len new_chunk_at)
  next
    case False
    then have "p div CHUNK_LEN = ?m"
      by (cases p) (auto simp: CHUNK_LEN_def minus_mult_div_eq_mod div_Suc mod_Suc Suc_diff_le split: if_split_asm)
    with False len show ?thesis by (simp add: close_chunk_def)
  qed
qed

lemma div_within: "0 < n \<Longrightarrow> p mod c + n \<le> c \<Longrightarrow> (p + n - 1) div c = p div (c :: nat)"
proof -
  assume n: "0 < n" "p mod c + n \<le> c"
  have e: "p + n - 1 = c * (p div c) + (p mod c + n - 1)" using n by simp
  have "p mod c + n - 1 < c" using n by linarith
  then show ?thesis unfolding e by simp
qed

lemma hasher_update_at:
  assumes "p \<le> length data"
  shows "hasher_update (drop p data) (hasher_at data p ((p - 1) div CHUNK_LEN)) =
    Some (hasher_at data (length data) ((length data - 1) div CHUNK_LEN))"
  using assms
proof (induction "length data - p" arbitrary: p rule: less_induct)
  case less
  show ?case
  proof (cases "p = length data")
    case True
    then show ?thesis by (simp add: hasher_update.simps)
  next
    case False
    let ?h = "hasher_at data p ((p - 1) div CHUNK_LEN)" and ?m = "p div CHUNK_LEN"
    let ?n = "min (CHUNK_LEN - p mod CHUNK_LEN) (length data - p)"
    have pos: "0 < ?n" "p mod CHUNK_LEN + ?n \<le> CHUNK_LEN" "p + ?n \<le> length data"
      using False less.prems by (auto simp: CHUNK_LEN_def)
    have ok: "\<not> CHUNK_LEN < chunk_len (ha_chunk ?h)"
      using less.prems by (simp add: hasher_at_def chunk_at_len CHUNK_LEN_def)
    have len: "chunk_len (ha_chunk (hasher_at data p ?m)) = p mod CHUNK_LEN"
      using less.prems by (simp add: hasher_at_def chunk_at_len minus_mult_div_eq_mod)
    have "hasher_update (drop p data) ?h = hasher_update (drop ?n (drop p data)) (feed_chunk (take ?n (drop p data)) (hasher_at data p ?m))"
      using False less.prems ok len close_chunk_at [OF less.prems] by (subst hasher_update.simps) (simp add: Let_def)
    also have "feed_chunk (take ?n (drop p data)) (hasher_at data p ?m) = hasher_at data (p + ?n) ((p + ?n - 1) div CHUNK_LEN)"
    proof -
      have "(p + ?n - 1) div CHUNK_LEN = ?m"
        using pos(1,2) by (rule div_within)
      moreover have "drop (CHUNK_LEN * ?m) (take p data) @ take ?n (drop p data) = drop (CHUNK_LEN * ?m) (take (p + ?n) data)"
        using less.prems by (simp add: take_add)
      ultimately show ?thesis by (simp add: hasher_at_def feed_chunk_def chunk_update_at)
    qed
    also have "hasher_update (drop ?n (drop p data)) \<dots> = Some (hasher_at data (length data) ((length data - 1) div CHUNK_LEN))"
    proof -
      have "length data - (p + ?n) < length data - p" using pos by linarith
      from less.hyps [OF this pos(3)] show ?thesis by (simp only: drop_drop add.commute [of ?n p])
    qed
    finally show ?thesis .
  qed
qed

subsection \<open>The end\<close>

lemma pow_below_eq: "2 ^ b \<le> m \<Longrightarrow> m < 2 ^ Suc b \<Longrightarrow> pow_below m = 2 ^ b"
proof (induction b arbitrary: m)
  case 0
  then show ?case by (simp add: pow_below.simps)
next
  case (Suc b)
  then have "pow_below (m div 2) = 2 ^ b" by (intro Suc.IH) auto
  moreover have "\<not> m < 2" using Suc.prems by (simp add: not_less) (metis le_trans mult_le_mono2 mult_numeral_1_right numeral_One one_le_power order_refl one_le_numeral)
  ultimately show ?case by (subst pow_below.simps) simp
qed

lemma pow_below_power: "\<exists>b. pow_below m = 2 ^ b"
proof (induction m rule: pow_below.induct)
  case (1 m)
  show ?case
  proof (cases "m < 2")
    case True
    then show ?thesis by (intro exI [of _ 0]) (simp add: pow_below.simps)
  next
    case False
    with 1 obtain b where "pow_below (m div 2) = 2 ^ b" by blast
    with False show ?thesis by (intro exI [of _ "Suc b"]) (subst pow_below.simps, simp)
  qed
qed

lemma tree_perfect:
  assumes "length xs = CHUNK_LEN * 2 ^ b"
    and "\<And>i. i < 2 ^ b \<Longrightarrow> c (s + i) = outputCv (leaf (s + i) (take CHUNK_LEN (drop (CHUNK_LEN * i) xs)))"
  shows "outputCv (tree s xs) = node c s b"
  using assms
proof (induction b arbitrary: s xs)
  case 0
  from 0(2) [of 0] 0(1) show ?case by (simp add: tree.simps)
next
  case (Suc b)
  have "(length xs - 1) div CHUNK_LEN = 2 ^ Suc b - 1"
    by (rule div_nat_eqI) (use Suc.prems(1) in \<open>auto simp: CHUNK_LEN_def\<close>)
  moreover have "pow_below (2 ^ Suc b - 1) = 2 ^ b" by (rule pow_below_eq) auto
  ultimately have l: "left_chunks xs = 2 ^ b" by (simp only: left_chunks_def)
  have big: "\<not> length xs \<le> CHUNK_LEN"
  proof -
    have "1 < (2 :: nat) ^ Suc b" by (rule one_less_power) auto
    then show ?thesis using Suc.prems(1) by (simp add: CHUNK_LEN_def del: power_Suc)
  qed
  have "outputCv (tree s (take (CHUNK_LEN * 2 ^ b) xs)) = node c s b"
  proof (rule Suc.IH)
    show "length (take (CHUNK_LEN * 2 ^ b) xs) = CHUNK_LEN * 2 ^ b" using Suc.prems(1) by simp
    fix i :: nat
    assume i: "i < 2 ^ b"
    then have "CHUNK_LEN * i + CHUNK_LEN \<le> CHUNK_LEN * 2 ^ b" using mult_le_mono2 [of "Suc i" "2 ^ b" CHUNK_LEN] by simp
    then have "take CHUNK_LEN (drop (CHUNK_LEN * i) (take (CHUNK_LEN * 2 ^ b) xs)) = take CHUNK_LEN (drop (CHUNK_LEN * i) xs)"
      by (simp add: drop_take)
    then show "c (s + i) = outputCv (leaf (s + i) (take CHUNK_LEN (drop (CHUNK_LEN * i) (take (CHUNK_LEN * 2 ^ b) xs))))"
      using Suc.prems(2) [of i] i by simp
  qed
  moreover have "outputCv (tree (s + 2 ^ b) (drop (CHUNK_LEN * 2 ^ b) xs)) = node c (s + 2 ^ b) b"
  proof (rule Suc.IH)
    show "length (drop (CHUNK_LEN * 2 ^ b) xs) = CHUNK_LEN * 2 ^ b" using Suc.prems(1) by simp
    fix i :: nat
    assume "i < 2 ^ b"
    then show "c (s + 2 ^ b + i) = outputCv (leaf (s + 2 ^ b + i) (take CHUNK_LEN (drop (CHUNK_LEN * i) (drop (CHUNK_LEN * 2 ^ b) xs))))"
      using Suc.prems(2) [of "2 ^ b + i"] by (simp add: algebra_simps)
  qed
  ultimately show ?case using big l by (subst tree.simps) simp
qed

lemma tree_stack:
  assumes "\<And>i. i < (length xs - 1) div CHUNK_LEN \<Longrightarrow> c (s + i) = outputCv (leaf (s + i) (take CHUNK_LEN (drop (CHUNK_LEN * i) xs)))"
  shows "tree s xs = foldl (\<lambda>out l. parentOutput l (outputCv out))
    (leaf (s + (length xs - 1) div CHUNK_LEN) (drop (CHUNK_LEN * ((length xs - 1) div CHUNK_LEN)) xs))
    (stack_of c s 0 ((length xs - 1) div CHUNK_LEN))"
  using assms
proof (induction "length xs" arbitrary: xs s rule: less_induct)
  case less
  let ?m = "(length xs - 1) div CHUNK_LEN"
  show ?case
  proof (cases "?m = 0")
    case True
    then have "length xs \<le> CHUNK_LEN" by (simp add: CHUNK_LEN_def div_eq_0_iff)
    with True show ?thesis by (simp add: tree.simps stack_of.simps)
  next
    case False
    then have big: "\<not> length xs \<le> CHUNK_LEN" by (auto simp: CHUNK_LEN_def)
    obtain b where b: "pow_below ?m = 2 ^ b" using pow_below_power by blast
    with pow_below_bounds [of ?m] False have bm: "2 ^ b \<le> ?m" "?m < 2 * 2 ^ b" by simp_all
    let ?q = "?m - 2 ^ b" and ?ys = "drop (CHUNK_LEN * 2 ^ b) xs"
    have q: "?m = 2 ^ b + ?q" "?q < 2 ^ b" using bm by simp_all
    have le: "CHUNK_LEN * 2 ^ b \<le> length xs - 1"
      using mult_le_mono2 [OF bm(1), of CHUNK_LEN] by (meson le_trans times_div_less_eq_dividend)
    have l: "left_chunks xs = 2 ^ b" by (simp only: left_chunks_def b)
    have "(length ?ys - 1) div CHUNK_LEN = (length xs - 1 - CHUNK_LEN * 2 ^ b) div CHUNK_LEN" by (simp add: diff_commute)
    also have "\<dots> = ?q" using le by (simp add: CHUNK_LEN_def div_mult_self2 flip: div_minus_minus)
    finally have dq: "(length ?ys - 1) div CHUNK_LEN = ?q" .
    have left: "outputCv (tree s (take (CHUNK_LEN * 2 ^ b) xs)) = node c s b"
    proof (rule tree_perfect)
      show "length (take (CHUNK_LEN * 2 ^ b) xs) = CHUNK_LEN * 2 ^ b" using le by simp
      fix i :: nat
      assume i: "i < 2 ^ b"
      then have "CHUNK_LEN * i + CHUNK_LEN \<le> CHUNK_LEN * 2 ^ b" using mult_le_mono2 [of "Suc i" "2 ^ b" CHUNK_LEN] by simp
      then have "take CHUNK_LEN (drop (CHUNK_LEN * i) (take (CHUNK_LEN * 2 ^ b) xs)) = take CHUNK_LEN (drop (CHUNK_LEN * i) xs)"
        by (simp add: drop_take)
      then show "c (s + i) = outputCv (leaf (s + i) (take CHUNK_LEN (drop (CHUNK_LEN * i) (take (CHUNK_LEN * 2 ^ b) xs))))"
        using less.prems [of i] i bm by simp
    qed
    have right: "tree (s + 2 ^ b) ?ys = foldl (\<lambda>out l. parentOutput l (outputCv out))
      (leaf (s + 2 ^ b + ?q) (drop (CHUNK_LEN * ?q) ?ys)) (stack_of c (s + 2 ^ b) 0 ?q)"
      unfolding dq [symmetric]
    proof (rule less.hyps)
      have "0 < CHUNK_LEN * 2 ^ b" by (simp add: CHUNK_LEN_def)
      with big show "length ?ys < length xs" unfolding length_drop by linarith
      fix i
      assume "i < (length ?ys - 1) div CHUNK_LEN"
      then have "2 ^ b + i < ?m" using dq q by linarith
      from less.prems [OF this] show "c (s + 2 ^ b + i) = outputCv (leaf (s + 2 ^ b + i) (take CHUNK_LEN (drop (CHUNK_LEN * i) ?ys)))"
        by (simp add: algebra_simps)
    qed
    have "stack_of c s 0 ?m = stack_of c (s + 2 ^ b) 0 ?q @ [node c s b]"
      using stack_of_top [OF q(2), of c s 0] q(1) by simp
    moreover have "drop (CHUNK_LEN * ?q) ?ys = drop (CHUNK_LEN * ?m) xs" using q(1) by (simp add: algebra_simps)
    moreover have "s + 2 ^ b + ?q = s + ?m" using q(1) by simp
    ultimately show ?thesis using left right big l by (subst tree.simps) simp
  qed
qed

lemma finalize_at:
  "finalizeOutput (hasher_at data (length data) ((length data - 1) div CHUNK_LEN)) = tree 0 data"
  using tree_stack [of data "leaf_cv data" 0] by (simp add: finalizeOutput_def hasher_at_def leaf_cv_def flip: leaf_def)

lemma blake3_tree_hash:
  "blake3Hex data = Some (words_hex (root_words (tree 0 data))) \<and> hex64 (words_hex (root_words (tree 0 data)))"
proof
  have "new_hasher = hasher_at data 0 ((0 - 1) div CHUNK_LEN)"
    by (simp add: new_hasher_def hasher_at_def new_chunk_at stack_of.simps)
  then show "blake3Hex data = Some (words_hex (root_words (tree 0 data)))"
    using hasher_update_at [of 0 data] finalize_at by (simp add: blake3Hex_def)
  have two: "length (byte_hex b) = 2 \<and> list_all is_hex (byte_hex b)" for b
  proof -
    have "unat b < 256" by (rule unat_byte)
    then show ?thesis by (simp add: byte_hex_def hex_char_hex div_less_iff_less_mult)
  qed
  have bytes: "length (concat (map byte_hex bs)) = 2 * length bs \<and> list_all is_hex (concat (map byte_hex bs))" for bs
    by (induction bs) (simp_all add: two)
  have words: "length (concat (map f is)) = 8 * length is \<and> list_all is_hex (concat (map f is))"
    if "f = (\<lambda>i. concat (map byte_hex (le_bytes (ws ! i))))" for f ws and "is" :: "nat list"
    using that by (induction "is") (simp_all add: bytes, simp_all add: le_bytes_def)
  show "hex64 (words_hex (root_words (tree 0 data)))"
    unfolding words_hex_def hex_between_def by (simp add: words [OF refl])
qed

lemma blake3_hex: "blake3Hex data = Some h \<Longrightarrow> hex64 h"
  using blake3_tree_hash [of data] by simp

text \<open>
  C32. The hash is defined on every input: it is the hash of the BLAKE3 tree, in which every node takes the
  largest power of two of chunks to its left, and it is written with 64 hexadecimal digits.
\<close>

theorem blake3_is_tree_hash:
  "blake3Hex data = Some (words_hex (root_words (tree 0 data))) \<and> hex64 (words_hex (root_words (tree 0 data)))"
  by (rule blake3_tree_hash)

end
