(* ===== verification/HomeFiles.thy ===== *)
theory HomeFiles
  imports Keyed Json ShortCode
begin

text \<open>
  The state directory of the command line tool and its locks (opendweb, leases.mjs): files that are read
  whole and replaced by an atomic write, and lock files that name a process and a time.

  Every file operation, request and reading of the clock is one tick of the environment, which decides
  for each tick what happens: the time, the random bytes, the answer of the server, whether the operation
  is denied, whether the process is killed before it, and what other processes did to the directory while
  this one slept.  A kill runs no \<^verbatim>\<open>catch\<close> and no \<^verbatim>\<open>finally\<close>.
\<close>

subsection \<open>The world\<close>

text \<open>
  A file that the code parses holds a JSON document, or bytes that are no JSON text; files that are read as
  bytes hold \<open>Raw\<close> contents.  A link may lead nowhere.  The URL parser, the resolver of names and
  \<^verbatim>\<open>JSON.parse\<close> on texts are parts of the environment.
\<close>

datatype content = Doc json | Raw bytes
datatype hnode = HFile content | HDir | HLink "content option"

type_synonym home_files = "(string \<times> hnode) list"

record hreq =
  hq_method :: string
  hq_url :: string
  hq_body :: "json option"

text \<open>
  \<^verbatim>\<open>fetch\<close> fails with the name of the error and the code of its cause, or gives a status and a body; a body
  that cannot be read is \<^const>\<open>None\<close>.
\<close>

datatype fetch_result = FetchFails string string | Fetched nat "jfile option"

record url_parts =
  ur_protocol :: string
  ur_username :: string
  ur_password :: string
  ur_hostname :: string
  ur_port :: string
  ur_pathname :: string
  ur_search :: string
  ur_hash :: string

record henv =
  he_pid :: int
  he_now :: "nat \<Rightarrow> int"
  he_random :: "nat \<Rightarrow> bytes"
  he_alive :: "nat \<Rightarrow> int \<Rightarrow> bool"
  he_denied :: "nat \<Rightarrow> bool"
  he_dies :: "nat \<Rightarrow> bool"
  he_others :: "nat \<Rightarrow> home_files \<Rightarrow> home_files"
  he_fetch :: "nat \<Rightarrow> hreq \<Rightarrow> fetch_result"
  he_url :: "string \<Rightarrow> url_parts option"
  he_dns :: "nat \<Rightarrow> string \<Rightarrow> string list option"
  he_json :: "string \<Rightarrow> jfile"

datatype notice = LegacyDamaged | LegacyIncomplete

record hworld =
  hw_files :: home_files
  hw_tick :: nat
  hw_temps :: nat
  hw_sent :: "hreq list"
  hw_out :: "notice list"

datatype 'x herr =
    Killed
  | IoError
  | CannotWrite string
  | BadFile string
  | LockHeld string "int option"
  | TypeErr
  | Fail string
  | CliExit 'x nat

type_synonym ('x, 'a) heff = "(hworld, 'x herr, 'a) eff"

text \<open>Reading the clock or the random source, and an operation that can be the last.\<close>

definition ask :: "(nat \<Rightarrow> 'a) \<Rightarrow> ('x, 'a) heff" where
  "ask f w = (Inr (f (hw_tick w)), w\<lparr>hw_tick := Suc (hw_tick w)\<rparr>)"

text \<open>The random source gives as many bytes as are asked for.\<close>

definition random_bytes :: "henv \<Rightarrow> nat \<Rightarrow> ('x, bytes) heff" where
  "random_bytes e k = ask (\<lambda>n. take k (he_random e n @ replicate k 0))"

definition io :: "henv \<Rightarrow> (nat \<Rightarrow> home_files \<Rightarrow> ('x herr + 'a) \<times> home_files) \<Rightarrow> ('x, 'a) heff" where
  "io e f w =
     (let n = hw_tick w; w' = w\<lparr>hw_tick := Suc n\<rparr>
      in if he_dies e n then (Inl Killed, w')
         else if he_denied e n then (Inl IoError, w')
         else (let (r, fs) = f n (hw_files w) in (r, w'\<lparr>hw_files := fs\<rparr>)))"

definition fetch :: "henv \<Rightarrow> hreq \<Rightarrow> ('x, fetch_result) heff" where
  "fetch e q w =
     (let n = hw_tick w; w' = w\<lparr>hw_tick := Suc n, hw_sent := hw_sent w @ [q]\<rparr>
      in if he_dies e n then (Inl Killed, w\<lparr>hw_tick := Suc n\<rparr>) else (Inr (he_fetch e n q), w'))"

definition say :: "notice \<Rightarrow> ('x, unit) heff" where
  "say m w = (Inr (), w\<lparr>hw_out := hw_out w @ [m]\<rparr>)"

text \<open>\<^verbatim>\<open>try { m } catch (e) { h e }\<close> and \<^verbatim>\<open>try { m } finally { f }\<close>\<close>

definition catch :: "('x, 'a) heff \<Rightarrow> ('x herr \<Rightarrow> ('x, 'a) heff) \<Rightarrow> ('x, 'a) heff" where
  "catch m h w = (case m w of (Inl Killed, w') \<Rightarrow> (Inl Killed, w') | (Inl er, w') \<Rightarrow> h er w' | (Inr a, w') \<Rightarrow> (Inr a, w'))"

definition finally_do :: "('x, 'a) heff \<Rightarrow> ('x, 'b) heff \<Rightarrow> ('x, 'a) heff" where
  "finally_do m f w =
     (case m w of
        (Inl Killed, w') \<Rightarrow> (Inl Killed, w')
      | (r, w') \<Rightarrow> (case f w' of (Inl er, w'') \<Rightarrow> (Inl er, w'') | (Inr b, w'') \<Rightarrow> (r, w'')))"

subsection \<open>Files\<close>

definition readFile :: "henv \<Rightarrow> string \<Rightarrow> ('x, content option) heff" where
  "readFile e p =
     io e (\<lambda>n fs. (case map_of fs p of
                     None \<Rightarrow> Inr None
                   | Some (HFile c) \<Rightarrow> Inr (Some c)
                   | Some HDir \<Rightarrow> Inl IoError
                   | Some (HLink t) \<Rightarrow> Inr t, fs))"

text \<open>\<^verbatim>\<open>rm(file, { force: true })\<close>\<close>

definition rm_force :: "henv \<Rightarrow> string \<Rightarrow> ('x, unit) heff" where
  "rm_force e p = io e (\<lambda>n fs. if map_of fs p = Some HDir then (Inl IoError, fs) else (Inr (), adel p fs))"

text \<open>\<^verbatim>\<open>open(file, "wx")\<close> tells whether the file was created.\<close>

definition open_excl :: "henv \<Rightarrow> string \<Rightarrow> ('x, bool) heff" where
  "open_excl e p =
     io e (\<lambda>n fs. if map_of fs p = None then (Inr True, aput p (HFile (Raw [])) fs) else (Inr False, fs))"

definition write_open :: "henv \<Rightarrow> string \<Rightarrow> content \<Rightarrow> ('x, unit) heff" where
  "write_open e p c = io e (\<lambda>n fs. (Inr (), aput p (HFile c) fs))"

definition rename_over :: "henv \<Rightarrow> string \<Rightarrow> string \<Rightarrow> ('x, unit) heff" where
  "rename_over e p q =
     io e (\<lambda>n fs. case map_of fs p of
                    None \<Rightarrow> (Inl IoError, fs)
                  | Some nd \<Rightarrow> if map_of fs q = Some HDir then (Inl IoError, fs) else (Inr (), aput q nd (adel p fs)))"

text \<open>The replacement of a file: a temporary file next to it, written, synchronised and renamed.\<close>

definition temp_name :: "henv \<Rightarrow> string \<Rightarrow> int \<Rightarrow> string" where
  "temp_name e f t = ''.'' @ f @ ''.'' @ num_str (he_pid e) @ ''.'' @ num_str t @ ''.tmp''"

definition is_link :: "henv \<Rightarrow> string \<Rightarrow> ('x, bool) heff" where
  "is_link e f = catch (io e (\<lambda>n fs. (Inr (case map_of fs f of Some (HLink t) \<Rightarrow> True | _ \<Rightarrow> False), fs))) (\<lambda>er. ret False)"

definition write0600 :: "henv \<Rightarrow> string \<Rightarrow> content \<Rightarrow> ('x, unit) heff" where
  "write0600 e f c = ebind (io e (\<lambda>n fs. (Inr (), fs))) (\<lambda>_.
    ebind (is_link e f) (\<lambda>l.
    if l then throw (Fail ''refusing to write through a symbolic link'')
     else ebind (ask (he_now e)) (\<lambda>t.
       (let tmp = temp_name e f t in
       catch
         (ebind (open_excl e tmp) (\<lambda>new.
           if \<not> new then throw IoError
            else ebind (write_open e tmp c) (\<lambda>_.
              rename_over e tmp f)))
         (\<lambda>er. ebind (rm_force e tmp) (\<lambda>_.
           throw (CannotWrite f)))))))"

subsection \<open>Locks\<close>

definition LOCK_STALE_MS :: int where "LOCK_STALE_MS = 10000"
definition LOCK_RETRIES :: nat where "LOCK_RETRIES = 3"
definition MAX_SAFE_INTEGER :: int where "MAX_SAFE_INTEGER = 9007199254740991"

definition lock_token :: "int \<Rightarrow> int \<Rightarrow> content" where
  "lock_token pid ts = Doc (JObj [(''pid'', JNum pid), (''ts'', JNum ts)])"

text \<open>Creating the lock file and writing into it are two operations.\<close>

definition tryCreate :: "henv \<Rightarrow> string \<Rightarrow> content \<Rightarrow> ('x, bool) heff" where
  "tryCreate e f token = ebind (open_excl e f) (\<lambda>new.
    if new then ebind (write_open e f token) (\<lambda>_.
       ret True) else ret False)"

definition holder_num :: "(string \<times> json) list \<Rightarrow> string \<Rightarrow> int option" where
  "holder_num fs k = (case jget fs k of Some (JNum n) \<Rightarrow> Some n | _ \<Rightarrow> None)"

definition lock_holder :: "content option \<Rightarrow> int option \<times> int" where
  "lock_holder c =
     (case c of
        Some (Doc (JObj fs)) \<Rightarrow> (holder_num fs ''pid'', case holder_num fs ''ts'' of Some t \<Rightarrow> t | None \<Rightarrow> 0)
      | Some (Doc (JArr js)) \<Rightarrow> (None, 0)
      | _ \<Rightarrow> (None, MAX_SAFE_INTEGER))"

definition readLockHolder :: "henv \<Rightarrow> string \<Rightarrow> ('x, int option \<times> int) heff" where
  "readLockHolder e f =
     catch (ebind (readFile e f) (\<lambda>c. ret (lock_holder c))) (\<lambda>er. ret (None, MAX_SAFE_INTEGER))"

datatype lock_result = Locked content | Refused "int option" int

text \<open>While this process sleeps the others act.\<close>

definition sleep :: "henv \<Rightarrow> ('x, unit) heff" where
  "sleep e w =
     (let n = hw_tick w in (Inr (), w\<lparr>hw_tick := Suc n, hw_files := he_others e n (hw_files w)\<rparr>))"

definition stale_holder :: "henv \<Rightarrow> int option \<times> int \<Rightarrow> ('x, bool) heff" where
  "stale_holder e h = ebind (ask (he_now e)) (\<lambda>t.
    (case fst h of
        None \<Rightarrow> ret False
      | Some p \<Rightarrow> if LOCK_STALE_MS < t - snd h then ask (\<lambda>n. \<not> he_alive e n p) else ret False))"

fun lock_attempts :: "henv \<Rightarrow> string \<Rightarrow> nat \<Rightarrow> ('x, lock_result) heff" where
  "lock_attempts e f left = ebind (ask (he_now e)) (\<lambda>t.
    (let token = lock_token (he_pid e) t in
    ebind (tryCreate e f token) (\<lambda>got.
    if got then ret (Locked token)
     else ebind (readLockHolder e f) (\<lambda>h.
       (case left of
          0 \<Rightarrow> ebind (ask (he_now e)) (\<lambda>t'.
            ret (Refused (fst h) (t' - snd h)))
        | Suc k \<Rightarrow> ebind (stale_holder e h) (\<lambda>stale.
          if stale then ebind (rm_force e f) (\<lambda>_.
              lock_attempts e f k)
            else ebind (sleep e) (\<lambda>_.
              lock_attempts e f k)))))))"

declare lock_attempts.simps [simp del]

definition acquireFileLock :: "henv \<Rightarrow> string \<Rightarrow> ('x, lock_result) heff" where
  "acquireFileLock e f = ebind (io e (\<lambda>n fs. (Inr (), fs))) (\<lambda>_.
    lock_attempts e f LOCK_RETRIES)"

text \<open>The lock is released when it still holds the token; the call never throws.\<close>

definition release :: "henv \<Rightarrow> string \<Rightarrow> content \<Rightarrow> ('x, bool) heff" where
  "release e f token =
     catch (ebind (readFile e f) (\<lambda>c.
       if c \<noteq> Some token then ret False else ebind (rm_force e f) (\<lambda>_.
                ret True)))
           (\<lambda>er. ret False)"

definition ID_ALPHABET :: string where
  "ID_ALPHABET = ''0123456789abcdefghjkmnpqrstvwxyz''"

definition randomLeaseId :: "bytes \<Rightarrow> string" where
  "randomLeaseId bs = map (\<lambda>b. ID_ALPHABET ! (unat b mod length ID_ALPHABET)) bs"

end
