(* ===== verification/HomeProps.thy ===== *)
theory HomeProps
  imports HomeFiles
begin

text \<open>
  Reasoning about the state directory: triples over what the files hold and what was sent.  A triple
  speaks of every way a call can end, a kill included, so its second invariant is what a crash can leave
  behind.
\<close>

type_synonym home_pred = "(string \<Rightarrow> hnode option) \<Rightarrow> hreq list \<Rightarrow> bool"

definition trip :: "home_pred \<Rightarrow> home_pred \<Rightarrow> ('x, 'a) heff \<Rightarrow> ('a \<Rightarrow> home_pred) \<Rightarrow> bool" where
  "trip I P m Q \<longleftrightarrow>
     (\<forall>w. P (map_of (hw_files w)) (hw_sent w) \<longrightarrow>
        (case m w of
           (Inr a, w') \<Rightarrow> Q a (map_of (hw_files w')) (hw_sent w')
         | (Inl er, w') \<Rightarrow> I (map_of (hw_files w')) (hw_sent w')))"

text \<open>A predicate that does not look at a file.\<close>

definition blind :: "string \<Rightarrow> home_pred \<Rightarrow> bool" where
  "blind f P \<longleftrightarrow> (\<forall>m v s. P m s \<longrightarrow> P (m(f := v)) s)"

text \<open>What other processes do while this one sleeps does not disturb a predicate.\<close>

definition unmoved :: "henv \<Rightarrow> home_pred \<Rightarrow> bool" where
  "unmoved e P \<longleftrightarrow> (\<forall>n fs s. P (map_of fs) s \<longrightarrow> P (map_of (he_others e n fs)) s)"

text \<open>One predicate implies another.\<close>

definition entails :: "home_pred \<Rightarrow> home_pred \<Rightarrow> bool" where
  "entails P I \<longleftrightarrow> (\<forall>m s. P m s \<longrightarrow> I m s)"

lemma entailsD: "entails P I \<Longrightarrow> P m s \<Longrightarrow> I m s"
  by (simp add: entails_def)

lemma entails_refl [simp]: "entails P P"
  by (simp add: entails_def)

lemma tripD:
  "trip I P m Q \<Longrightarrow> P (map_of (hw_files w)) (hw_sent w) \<Longrightarrow> m w = (r, w') \<Longrightarrow>
     (case r of Inr a \<Rightarrow> Q a (map_of (hw_files w')) (hw_sent w') | Inl er \<Rightarrow> I (map_of (hw_files w')) (hw_sent w'))"
  unfolding trip_def entails_def by (cases r) (metis (no_types, lifting) case_prod_conv old.sum.simps(5,6))+

lemma tripI:
  "(\<And>w r w'. P (map_of (hw_files w)) (hw_sent w) \<Longrightarrow> m w = (r, w') \<Longrightarrow>
     (case r of Inr a \<Rightarrow> Q a (map_of (hw_files w')) (hw_sent w') | Inl er \<Rightarrow> I (map_of (hw_files w')) (hw_sent w'))) \<Longrightarrow>
   trip I P m Q"
  unfolding trip_def by (auto split: prod.split)

lemma trip_post: "trip I P m R \<Longrightarrow> (\<And>a m s. R a m s \<Longrightarrow> Q a m s) \<Longrightarrow> trip I P m Q"
  by (rule tripI, drule (2) tripD) (simp split: sum.splits)

lemma trip_pre: "trip I R m Q \<Longrightarrow> (\<And>m s. P m s \<Longrightarrow> R m s) \<Longrightarrow> trip I P m Q"
  unfolding trip_def by simp

lemma trip_crash: "trip J P m Q \<Longrightarrow> entails J I \<Longrightarrow> trip I P m Q"
  by (rule tripI, drule (2) tripD) (auto dest: entailsD split: sum.splits)

lemma trip_fact: "(A \<Longrightarrow> trip I P m Q) \<Longrightarrow> trip I (\<lambda>m s. P m s \<and> A) m Q"
  by (cases A) (simp_all add: trip_def)

lemma trip_bind: "trip I P m R \<Longrightarrow> (\<And>a. trip I (R a) (f a) Q) \<Longrightarrow> trip I P (ebind m f) Q"
proof (rule tripI)
  fix w r w'
  assume t: "trip I P m R" "\<And>a. trip I (R a) (f a) Q" and p: "P (map_of (hw_files w)) (hw_sent w)"
    and e: "ebind m f w = (r, w')"
  obtain q w1 where m: "m w = (q, w1)" by fastforce
  note mid = tripD [OF t(1) p m]
  show "case r of Inr a \<Rightarrow> Q a (map_of (hw_files w')) (hw_sent w') | Inl er \<Rightarrow> I (map_of (hw_files w')) (hw_sent w')"
  proof (cases q)
    case (Inl er)
    with mid m e show ?thesis by (auto simp: ebind_def)
  next
    case (Inr a)
    with m e have "f a w1 = (r, w')" by (simp add: ebind_def)
    with tripD [OF t(2)] mid Inr show ?thesis by simp
  qed
qed

lemma trip_ret: "(\<And>m s. P m s \<Longrightarrow> Q a m s) \<Longrightarrow> trip I P (ret a) Q"
  unfolding trip_def entails_def by simp

lemma trip_throw: "entails P I \<Longrightarrow> trip I P (throw er) Q"
  unfolding trip_def entails_def by simp

lemma trip_lift:
  "(\<And>a m s. r = Inr a \<Longrightarrow> P m s \<Longrightarrow> Q a m s) \<Longrightarrow> (\<And>er m s. r = Inl er \<Longrightarrow> P m s \<Longrightarrow> I m s) \<Longrightarrow> trip I P (lift r) Q"
  unfolding trip_def entails_def by (cases r) simp_all

lemma trip_ask: "(\<And>n m s. P m s \<Longrightarrow> Q (f n) m s) \<Longrightarrow> trip I P (ask f) Q"
  unfolding trip_def ask_def by simp

lemma trip_say: "(\<And>m s. P m s \<Longrightarrow> Q () m s) \<Longrightarrow> trip I P (say x) Q"
  unfolding trip_def say_def by simp

lemma trip_io:
  "entails P I \<Longrightarrow>
   (\<And>n fs s a fs'. P (map_of fs) s \<Longrightarrow> f n fs = (Inr a, fs') \<Longrightarrow> Q a (map_of fs') s) \<Longrightarrow>
   (\<And>n fs s er fs'. P (map_of fs) s \<Longrightarrow> f n fs = (Inl er, fs') \<Longrightarrow> I (map_of fs') s) \<Longrightarrow> trip I P (io e f) Q"
  unfolding trip_def entails_def io_def by (auto simp: Let_def split: prod.splits sum.splits)

lemma trip_fetch:
  "entails P I \<Longrightarrow> (\<And>n m s. P m s \<Longrightarrow> Q (he_fetch e n q) m (s @ [q])) \<Longrightarrow> trip I P (fetch e q) Q"
  unfolding trip_def entails_def fetch_def by (simp add: Let_def)

lemma trip_sleep: "unmoved e P \<Longrightarrow> trip I P (sleep e) (\<lambda>_. P)"
  unfolding trip_def sleep_def unmoved_def by (simp add: Let_def)

lemma trip_catch:
  "trip J P m Q \<Longrightarrow> entails J I \<Longrightarrow> (\<And>er. trip I J (h er) Q) \<Longrightarrow> trip I P (catch m h) Q"
proof (rule tripI)
  fix w r w'
  assume t: "trip J P m Q" "entails J I" "\<And>er. trip I J (h er) Q" and p: "P (map_of (hw_files w)) (hw_sent w)"
    and e: "catch m h w = (r, w')"
  obtain q w1 where m: "m w = (q, w1)" by fastforce
  note mid = tripD [OF t(1) p m]
  show "case r of Inr a \<Rightarrow> Q a (map_of (hw_files w')) (hw_sent w') | Inl er \<Rightarrow> I (map_of (hw_files w')) (hw_sent w')"
  proof (cases q)
    case (Inr a)
    with mid m e show ?thesis by (auto simp: catch_def)
  next
    case (Inl er)
    with mid have J: "J (map_of (hw_files w1)) (hw_sent w1)" by simp
    show ?thesis
    proof (cases "er = Killed")
      case True
      with Inl m e entailsD [OF t(2) J] show ?thesis by (auto simp: catch_def)
    next
      case False
      with Inl m e have "h er w1 = (r, w')" by (cases er) (simp_all add: catch_def)
      from tripD [OF t(3) J this] show ?thesis .
    qed
  qed
qed

lemma trip_finally:
  assumes "trip J P m R" and "entails J I"
    and "trip I J f (\<lambda>_. I)" and "\<And>a. trip I (R a) f (\<lambda>_. Q a)"
  shows "trip I P (finally_do m f) Q"
  unfolding trip_def
proof (intro allI impI)
  fix w :: hworld
  assume p: "P (map_of (hw_files w)) (hw_sent w)"
  obtain r w1 where m: "m w = (r, w1)" by fastforce
  obtain q w2 where f: "f w1 = (q, w2)" by fastforce
  note mid = tripD [OF assms(1) p m]
  show "case finally_do m f w of
      (Inr a, w') \<Rightarrow> Q a (map_of (hw_files w')) (hw_sent w') | (Inl er, w') \<Rightarrow> I (map_of (hw_files w')) (hw_sent w')"
  proof (cases r)
    case (Inl er)
    with mid have J: "J (map_of (hw_files w1)) (hw_sent w1)" by simp
    from tripD [OF assms(3) J f] assms(2) [unfolded entails_def] J Inl m f show ?thesis
      by (cases er; cases q) (simp_all add: finally_do_def)
  next
    case (Inr a)
    with mid have R: "R a (map_of (hw_files w1)) (hw_sent w1)" by simp
    from tripD [OF assms(4) R f] Inr m f show ?thesis by (cases q) (simp_all add: finally_do_def)
  qed
qed

lemma trip_if: "(b \<Longrightarrow> trip I P m Q) \<Longrightarrow> (\<not> b \<Longrightarrow> trip I P n Q) \<Longrightarrow> trip I P (if b then m else n) Q"
  by simp

subsection \<open>Files\<close>

definition content_of :: "hnode option \<Rightarrow> content option" where
  "content_of nd = (case nd of Some (HFile c) \<Rightarrow> Some c | Some (HLink t) \<Rightarrow> t | _ \<Rightarrow> None)"

lemma content_of_simps [simp]:
  "content_of None = None" "content_of (Some (HFile c)) = Some c" "content_of (Some HDir) = None" "content_of (Some (HLink t)) = t"
  by (simp_all add: content_of_def)

lemma trip_readFile:
  "entails P I \<Longrightarrow> trip I P (readFile e f) (\<lambda>c m s. P m s \<and> c = content_of (m f))"
  unfolding readFile_def by (rule trip_io) (auto dest: entailsD split: option.splits hnode.splits)

lemma trip_rm:
  "entails P I \<Longrightarrow> (\<And>m s. P m s \<Longrightarrow> Q () (m(f := None)) s) \<Longrightarrow> trip I P (rm_force e f) Q"
  unfolding rm_force_def by (rule trip_io) (auto dest: entailsD split: if_splits)

lemma trip_nop: "entails P I \<Longrightarrow> trip I P (io e (\<lambda>n fs. (Inr (), fs))) (\<lambda>_. P)"
  by (rule trip_io) auto

lemma trip_is_link: "entails P I \<Longrightarrow> trip I P (is_link e f) (\<lambda>_. P)"
  unfolding is_link_def
  by (rule trip_catch [where J = P], rule trip_io) (auto intro: trip_ret)

lemma trip_open:
  "entails P I \<Longrightarrow>
   trip I P (open_excl e f) (\<lambda>new m s. if new then \<exists>m0. P m0 s \<and> m0 f = None \<and> m = m0(f \<mapsto> HFile (Raw [])) else P m s)"
  unfolding open_excl_def by (rule trip_io) (auto dest: entailsD split: if_splits)

lemma trip_write_open:
  "entails P I \<Longrightarrow> (\<And>m s. P m s \<Longrightarrow> Q () (m(f \<mapsto> HFile c)) s) \<Longrightarrow> trip I P (write_open e f c) Q"
  unfolding write_open_def by (rule trip_io) auto

lemma trip_rename:
  "entails P I \<Longrightarrow> (\<And>m s nd. P m s \<Longrightarrow> m p = Some nd \<Longrightarrow> Q () (m(p := None, q \<mapsto> nd)) s) \<Longrightarrow>
   trip I P (rename_over e p q) Q"
  unfolding rename_over_def by (rule trip_io) (auto dest: entailsD split: option.splits if_splits)

text \<open>
  The replacement of a file is seen as a whole: whenever it ends, the file is as it was or holds the new
  content, and nobody who looks at other files sees a difference.
\<close>

lemma trip_write0600:
  assumes temp: "\<And>t. blind (temp_name e f t) P" and crash: "entails P I"
    and post: "\<And>m s. P m s \<Longrightarrow> Q () (m(f \<mapsto> HFile c)) s"
  shows "trip I P (write0600 e f c) Q"
proof -
  have inner: "trip P P
      (ebind (open_excl e tmp) (\<lambda>new. if \<not> new then throw IoError
         else ebind (write_open e tmp c) (\<lambda>_. rename_over e tmp f))) Q"
    if b: "blind tmp P" for tmp
  proof (rule trip_bind [OF trip_open])
    fix new :: bool
    let ?R = "\<lambda>m s. if new then \<exists>m0. P m0 s \<and> m0 tmp = None \<and> m = m0(tmp \<mapsto> HFile (Raw [])) else P m s"
    show "trip P ?R (if \<not> new then throw IoError else ebind (write_open e tmp c) (\<lambda>_. rename_over e tmp f)) Q"
    proof (cases new)
      case False
      then show ?thesis by (auto intro: trip_throw)
    next
      case True
      have "trip P ?R (write_open e tmp c) (\<lambda>_ m s. P m s \<and> m tmp = Some (HFile c))"
        using True b by (intro trip_write_open) (auto simp: blind_def entails_def)
      moreover have "trip P (\<lambda>m s. P m s \<and> m tmp = Some (HFile c)) (rename_over e tmp f) Q"
        using b post by (intro trip_rename) (auto simp: blind_def entails_def)
      ultimately show ?thesis using True by (auto intro: trip_bind)
    qed
  qed auto
  have handler: "trip I P (ebind (rm_force e tmp) (\<lambda>_. throw (CannotWrite f))) Q" if "blind tmp P" for tmp
    by (rule trip_bind [where R = "\<lambda>_. P"]) (use that crash in \<open>auto simp: blind_def entails_def intro!: trip_rm trip_throw\<close>)
  show ?thesis unfolding write0600_def Let_def
  proof (rule trip_bind [OF trip_nop [OF crash]], rule trip_bind [OF trip_is_link [OF crash]], rule trip_if)
    show "trip I P (throw (Fail ''refusing to write through a symbolic link'')) Q" by (rule trip_throw) (use crash in \<open>simp add: entails_def\<close>)
    show "trip I P (ebind (ask (he_now e)) (\<lambda>t. catch
        (ebind (open_excl e (temp_name e f t)) (\<lambda>new. if \<not> new then throw IoError
           else ebind (write_open e (temp_name e f t) c) (\<lambda>_. rename_over e (temp_name e f t) f)))
        (\<lambda>er. ebind (rm_force e (temp_name e f t)) (\<lambda>_. throw (CannotWrite f))))) Q"
      by (rule trip_bind [where R = "\<lambda>_. P"], rule trip_ask, assumption)
        (rule trip_catch [OF inner [OF temp] crash handler [OF temp]])
  qed
qed

lemma temp_dot: "temp_name e f t = CHR ''.'' # drop 1 (temp_name e f t)"
  by (simp add: temp_name_def)

lemma temp_neq [simp]: "hd p \<noteq> CHR ''.'' \<Longrightarrow> temp_name e f t \<noteq> p" "hd p \<noteq> CHR ''.'' \<Longrightarrow> p \<noteq> temp_name e f t"
  by (auto simp: temp_name_def)

subsection \<open>Locks\<close>

lemma trip_holder: "entails P I \<Longrightarrow> trip I P (readLockHolder e f) (\<lambda>_. P)"
  unfolding readLockHolder_def
  by (rule trip_catch [where J = P], rule trip_bind [OF trip_readFile]) (auto intro: trip_ret)

lemma trip_stale: "trip I P (stale_holder e h) (\<lambda>_. P)"
  unfolding stale_holder_def
  by (rule trip_bind [where R = "\<lambda>_. P"]) (auto intro: trip_ask trip_ret split: option.splits)

lemma trip_tryCreate:
  assumes "blind f P" and crash: "entails P I"
  shows "trip I P (tryCreate e f token) (\<lambda>got m s. P m s \<and> (got \<longrightarrow> m f = Some (HFile token)))"
  unfolding tryCreate_def
proof (rule trip_bind [OF trip_open [OF crash]], rule trip_if)
  fix new :: bool
  let ?R = "\<lambda>m s. if new then \<exists>m0. P m0 s \<and> m0 f = None \<and> m = m0(f \<mapsto> HFile (Raw [])) else P m s"
  show "trip I ?R (ebind (write_open e f token) (\<lambda>_. ret True)) (\<lambda>got m s. P m s \<and> (got \<longrightarrow> m f = Some (HFile token)))" if new
    by (rule trip_bind [where R = "\<lambda>_ m s. P m s \<and> m f = Some (HFile token)"])
      (use that assms in \<open>auto simp: blind_def entails_def intro!: trip_write_open trip_ret\<close>)
  show "trip I ?R (ret False) (\<lambda>got m s. P m s \<and> (got \<longrightarrow> m f = Some (HFile token)))" if "\<not> new"
    using that by (auto intro: trip_ret)
qed

definition lock_post :: "string \<Rightarrow> home_pred \<Rightarrow> lock_result \<Rightarrow> home_pred" where
  "lock_post f P r m s \<longleftrightarrow> P m s \<and> (case r of Locked token \<Rightarrow> m f = Some (HFile token) | Refused h a \<Rightarrow> True)"

lemma trip_attempts:
  assumes "blind f P" and crash: "entails P I" and "unmoved e P"
  shows "trip I P (lock_attempts e f left :: ('x, lock_result) heff) (lock_post f P)"
proof (induction left)
  case (0)
  show ?case
    by (subst lock_attempts.simps, unfold Let_def,
        rule trip_bind [where R = "\<lambda>_. P"], rule trip_ask, assumption,
        rule trip_bind [OF trip_tryCreate [OF assms(1) crash]], rule trip_if)
      (auto simp: lock_post_def intro!: trip_ret trip_bind [where R = "\<lambda>_. P"] trip_ask trip_pre [OF trip_holder [OF crash]])
next
  case (Suc k)
  have rm: "trip I P (ebind (rm_force e f) (\<lambda>_. lock_attempts e f k) :: ('x, lock_result) heff) (lock_post f P)"
    by (rule trip_bind [where R = "\<lambda>_. P"], rule trip_rm, rule assms(2)) (use assms(1) Suc in \<open>auto simp: blind_def\<close>)
  have sl: "trip I P (ebind (sleep e) (\<lambda>_. lock_attempts e f k) :: ('x, lock_result) heff) (lock_post f P)"
    by (rule trip_bind [OF trip_sleep [OF assms(3)] Suc])
  have again: "trip I P (ebind (stale_holder e h) (\<lambda>stale. if stale then ebind (rm_force e f) (\<lambda>_. lock_attempts e f k)
      else ebind (sleep e) (\<lambda>_. lock_attempts e f k)) :: ('x, lock_result) heff) (lock_post f P)" for h
    by (rule trip_bind [OF trip_stale], rule trip_if, rule rm, rule sl)
  show ?case
    by (subst lock_attempts.simps, unfold Let_def,
        rule trip_bind [where R = "\<lambda>_. P"], rule trip_ask, assumption,
        rule trip_bind [OF trip_tryCreate [OF assms(1) crash]], rule trip_if)
      (auto simp: lock_post_def intro!: trip_ret again trip_bind [where R = "\<lambda>_. P"] trip_pre [OF trip_holder [OF crash]])
qed

lemma trip_acquire:
  assumes "blind f P" and "entails P I" and "unmoved e P"
  shows "trip I P (acquireFileLock e f) (lock_post f P)"
  unfolding acquireFileLock_def
  by (rule trip_bind [OF trip_nop [OF assms(2)] trip_attempts [OF assms]])

lemma trip_release:
  assumes "blind f P" and "entails P I"
  shows "trip I P (release e f token) (\<lambda>_. P)"
  unfolding release_def
proof (rule trip_catch [where J = P])
  show "trip P P (ebind (readFile e f) (\<lambda>c. if c \<noteq> Some token then ret False else ebind (rm_force e f) (\<lambda>_. ret True))) (\<lambda>_. P)"
  proof (rule trip_bind [OF trip_readFile [OF entails_refl]], rule trip_if)
    fix c
    show "trip P (\<lambda>m s. P m s \<and> c = content_of (m f)) (ret False) (\<lambda>_. P)" by (rule trip_ret) simp
    show "trip P (\<lambda>m s. P m s \<and> c = content_of (m f)) (ebind (rm_force e f) (\<lambda>_. ret True)) (\<lambda>_. P)"
      by (rule trip_bind [where R = "\<lambda>_. P"], rule trip_rm) (use assms(1) in \<open>auto simp: blind_def entails_def intro: trip_ret\<close>)
  qed
qed (use assms(2) in \<open>auto simp: entails_def intro: trip_ret\<close>)

end
