(* ===== verification/Leases.thy ===== *)
theory Leases
  imports HomeFiles
begin

text \<open>
  The lease ledger, the visit book and the admission journal of the command line tool (opendweb,
  leases.mjs): their readers and writers, the migration of the former registration file, the probe of a
  server, and what a machine already knows about its fabric.

  Entries of the two ledgers are kept as the JSON values they were read as, because the code does not
  check them.
\<close>

definition LEASES_FILE :: string where "LEASES_FILE = ''leases.json''"
definition VISITS_FILE :: string where "VISITS_FILE = ''visits.json''"
definition FABRIC_LOCK_FILE :: string where "FABRIC_LOCK_FILE = ''fabric.lock''"
definition ADMISSION_JOURNAL_FILE :: string where "ADMISSION_JOURNAL_FILE = ''fabric-admission.json''"
definition LEGACY_REGISTRATION_FILE :: string where "LEGACY_REGISTRATION_FILE = ''registration.json''"
definition ROSTER_FILE :: string where "ROSTER_FILE = ''roster.facts''"
definition LEASES_LOCK :: string where "LEASES_LOCK = ''leases.lock''"
definition VISITS_LOCK :: string where "VISITS_LOCK = ''visits.lock''"
definition ROSTER_MAGIC :: "nat list" where "ROSTER_MAGIC = [68, 87, 69, 66, 82, 83, 84, 49]"

subsection \<open>The ledger\<close>

text \<open>What a template literal makes of a value; \<^const>\<open>None\<close> is \<^verbatim>\<open>undefined\<close>.\<close>

fun js_str :: "json \<Rightarrow> string" where
  "js_str JNull = ''null''"
| "js_str (JBool b) = (if b then ''true'' else ''false'')"
| "js_str (JNum n) = num_str n"
| "js_str (JStr s) = s"
| "js_str (JArr js) = join_with CHR '','' (map (\<lambda>j. if j = JNull then [] else js_str j) js)"
| "js_str (JObj fs) = ''[object Object]''"

definition shown :: "json option \<Rightarrow> string" where
  "shown v = (case v of None \<Rightarrow> ''undefined'' | Some j \<Rightarrow> js_str j)"

text \<open>Reading a property throws on null only.\<close>

definition prop_of :: "json \<Rightarrow> string \<Rightarrow> ('x herr + json option)" where
  "prop_of j k = (case j of JNull \<Rightarrow> Inl TypeErr | JObj fs \<Rightarrow> Inr (jget fs k) | _ \<Rightarrow> Inr None)"

definition opt_str :: "string option \<Rightarrow> json" where
  "opt_str v = (case v of None \<Rightarrow> JNull | Some s \<Rightarrow> JStr s)"

definition key_text :: "string \<Rightarrow> string \<Rightarrow> string \<Rightarrow> string" where
  "key_text server fabric root = server @ [CHR 0x0A] @ fabric @ [CHR 0x0A] @ root"

definition leaseKey :: "json \<Rightarrow> 'x herr + string" where
  "leaseKey j =
     rbind (prop_of j ''server'') (\<lambda>s. rbind (prop_of j ''fabric_id'') (\<lambda>f. rbind (prop_of j ''root'') (\<lambda>r.
       Inr (key_text (shown s) (shown f) (shown r)))))"

text \<open>A ledger document must be an object with an array of entries.\<close>

definition ledger_entries :: "string \<Rightarrow> string \<Rightarrow> content \<Rightarrow> 'x herr + json list" where
  "ledger_entries file k c =
     (case c of
        Doc (JObj fs) \<Rightarrow> (case jget fs k of Some (JArr js) \<Rightarrow> Inr js | _ \<Rightarrow> Inl (BadFile file))
      | _ \<Rightarrow> Inl (BadFile file))"

definition loadLeases :: "henv \<Rightarrow> ('x, json list) heff" where
  "loadLeases e = ebind (readFile e LEASES_FILE) (\<lambda>c.
    (case c of None \<Rightarrow> ret [] | Some d \<Rightarrow> lift (ledger_entries LEASES_FILE ''leases'' d)))"

definition ledger_doc :: "string \<Rightarrow> json list \<Rightarrow> content" where
  "ledger_doc k js = Doc (JObj [(''version'', JNum 1), (k, JArr js)])"

definition saveLeases :: "henv \<Rightarrow> json list \<Rightarrow> ('x, unit) heff" where
  "saveLeases e js = write0600 e LEASES_FILE (ledger_doc ''leases'' js)"

record receipt_fields =
  re_ts :: int
  re_generation :: int
  re_code_hash :: string
  re_sig :: string

definition receipt_json :: "receipt_fields \<Rightarrow> json" where
  "receipt_json r = JObj [(''ts'', JNum (re_ts r)), (''generation'', JNum (re_generation r)),
     (''code_hash'', JStr (re_code_hash r)), (''receipt_sig'', JStr (re_sig r))]"

record lease_input =
  li_server :: string
  li_relayUrl :: string
  li_serverId :: "string option"
  li_fabricId :: string
  li_root :: string
  li_alias :: "string option"
  li_expiresAt :: int
  li_receipt :: receipt_fields

text \<open>\<^verbatim>\<open>find\<close> reads the key of every entry up to the first that matches.\<close>

fun find_index :: "('a \<Rightarrow> 'e + bool) \<Rightarrow> 'a list \<Rightarrow> 'e + nat option" where
  "find_index p [] = Inr None"
| "find_index p (x # xs) = rbind (p x) (\<lambda>b. if b then Inr (Some 0) else rbind (find_index p xs) (\<lambda>r. Inr (map_option Suc r)))"

definition new_entry :: "string \<Rightarrow> int \<Rightarrow> lease_input \<Rightarrow> json" where
  "new_entry i t inp =
     JObj [(''id'', JStr i), (''server'', JStr (li_server inp)), (''relay_url'', JStr (li_relayUrl inp)),
       (''server_id'', opt_str (li_serverId inp)), (''fabric_id'', JStr (li_fabricId inp)), (''root'', JStr (li_root inp)),
       (''alias'', opt_str (li_alias inp)), (''label'', JNull), (''registered_at'', JNum t),
       (''expires_at'', JNum (li_expiresAt inp)), (''receipt'', receipt_json (li_receipt inp))]"

text \<open>
  Assigning to the properties of an entry: those of an array are not written out, a primitive value refuses.
\<close>

definition set_props :: "(string \<times> json) list \<Rightarrow> json \<Rightarrow> 'x herr + json" where
  "set_props upd j =
     (case j of
        JObj fs \<Rightarrow> Inr (JObj (foldl (\<lambda>fs (k, v). aput k v fs) fs upd))
      | JArr js \<Rightarrow> Inr (JArr js)
      | _ \<Rightarrow> Inl TypeErr)"

definition renewal :: "lease_input \<Rightarrow> (string \<times> json) list" where
  "renewal inp =
     [(''relay_url'', JStr (li_relayUrl inp)), (''server_id'', opt_str (li_serverId inp)), (''alias'', opt_str (li_alias inp)),
      (''expires_at'', JNum (li_expiresAt inp)), (''receipt'', receipt_json (li_receipt inp))]"

record merged_lease =
  ml_entry :: json
  ml_created :: bool
  ml_total :: nat
  ml_lockReleased :: bool

text \<open>The ledger with the lease merged in: the entries, the entry and whether it is new.\<close>

definition merge_lease :: "henv \<Rightarrow> lease_input \<Rightarrow> json list \<Rightarrow> ('x, json list \<times> json \<times> bool) heff" where
  "merge_lease e inp js = ebind (lift (find_index (\<lambda>j. rbind (leaseKey j) (\<lambda>k. Inr (k = key_text (li_server inp) (li_fabricId inp) (li_root inp)))) js)) (\<lambda>at.
    (case at of
        None \<Rightarrow> ebind (random_bytes e 10) (\<lambda>rnd.
          ebind (ask (he_now e)) (\<lambda>t.
          (let entry = new_entry (randomLeaseId rnd) t inp in
          ret (js @ [entry], entry, True))))
      | Some i \<Rightarrow> ebind (lift (set_props (renewal inp) (js ! i))) (\<lambda>entry.
        ret (js[i := entry], entry, False))))"

definition upsertLease :: "henv \<Rightarrow> lease_input \<Rightarrow> ('x, merged_lease) heff" where
  "upsertLease e inp = ebind (acquireFileLock e LEASES_LOCK) (\<lambda>lock.
    (case lock of
        Refused h age \<Rightarrow> throw (LockHeld LEASES_LOCK h)
      | Locked token \<Rightarrow> ebind (loadLeases e) (\<lambda>js.
        ebind (merge_lease e inp js) (\<lambda>m.
        ebind (saveLeases e (fst m)) (\<lambda>_.
        ebind (release e LEASES_LOCK token) (\<lambda>rel.
        ret \<lparr>ml_entry = fst (snd m), ml_created = snd (snd m), ml_total = length (fst m), ml_lockReleased = rel\<rparr>))))))"

subsection \<open>The former registration\<close>

datatype legacy = LegacyNone | LegacyCorrupt | LegacyState "(string \<times> json) list"

definition readLegacyRegistration :: "henv \<Rightarrow> ('x, legacy) heff" where
  "readLegacyRegistration e = ebind (readFile e LEGACY_REGISTRATION_FILE) (\<lambda>c.
    ret (case c of None \<Rightarrow> LegacyNone | Some (Doc (JObj fs)) \<Rightarrow> LegacyState fs | Some _ \<Rightarrow> LegacyCorrupt))"

text \<open>Whatever can be read counts; every error counts as missing.\<close>

definition leasesFileExists :: "henv \<Rightarrow> ('x, bool) heff" where
  "leasesFileExists e = catch (ebind (readFile e LEASES_FILE) (\<lambda>c.
    ret (c \<noteq> None))) (\<lambda>er. ret False)"

definition is_num :: "json option \<Rightarrow> bool" where
  "is_num v \<longleftrightarrow> (case v of Some (JNum n) \<Rightarrow> True | _ \<Rightarrow> False)"

definition isReceipt :: "json option \<Rightarrow> bool" where
  "isReceipt v \<longleftrightarrow>
     (case v of
        Some (JObj fs) \<Rightarrow> is_num (jget fs ''ts'') \<and> is_num (jget fs ''generation'') \<and>
          as_string (jget fs ''code_hash'') \<noteq> None \<and> as_string (jget fs ''receipt_sig'') \<noteq> None
      | _ \<Rightarrow> False)"

definition hex_field :: "(string \<times> json) list \<Rightarrow> string \<Rightarrow> string option" where
  "hex_field fs k = (case as_string (jget fs k) of Some s \<Rightarrow> if hex64 s then Some s else None | None \<Rightarrow> None)"

definition legacy_root :: "(string \<times> json) list \<Rightarrow> string option \<Rightarrow> string option" where
  "legacy_root st fallback =
     (case hex_field st ''root'' of
        Some r \<Rightarrow> Some r
      | None \<Rightarrow> (case fallback of Some r \<Rightarrow> if hex64 r then Some r else None | None \<Rightarrow> None))"

definition buildLegacyLeaseEntry ::
  "henv \<Rightarrow> (string \<times> json) list \<Rightarrow> string option \<Rightarrow> string option \<Rightarrow> string \<Rightarrow> ('x, json option) heff" where
  "buildLegacyLeaseEntry e st rootFallback serverId relayUrl =
     (case (as_string (jget st ''server''), hex_field st ''fabric_id'', legacy_root st rootFallback) of
        (Some server, Some fabric, Some root) \<Rightarrow>
          (if server = [] then ret None
           else ebind (random_bytes e 10) (\<lambda>rnd.
             ebind (case jget st ''registered_at'' of Some (JNum t) \<Rightarrow> ret t | _ \<Rightarrow> ask (he_now e)) (\<lambda>at.
             ret (Some (JObj
               [(''id'', JStr (randomLeaseId rnd)), (''server'', JStr server), (''relay_url'', JStr relayUrl),
                (''server_id'', case hex_field st ''server_id'' of Some s \<Rightarrow> JStr s | None \<Rightarrow> opt_str serverId),
                (''fabric_id'', JStr fabric), (''root'', JStr root), (''alias'', JNull),
                (''label'', opt_str (as_string (jget st ''label''))), (''registered_at'', JNum at),
                (''expires_at'', JNum (case jget st ''expires_at'' of Some (JNum t) \<Rightarrow> t | _ \<Rightarrow> 0)),
                (''receipt'', if isReceipt (jget st ''receipt'') then the (jget st ''receipt'') else JNull)])))))
      | _ \<Rightarrow> ret None)"

subsection \<open>Servers\<close>

record probe_outcome =
  po_reachable :: bool
  po_detail :: "string option"
  po_at :: int
  po_serverId :: "string option"
  po_manifest :: json

definition unreachable :: "int \<Rightarrow> string \<Rightarrow> probe_outcome" where
  "unreachable t d = \<lparr>po_reachable = False, po_detail = Some d, po_at = t, po_serverId = None, po_manifest = JNull\<rparr>"

definition services_request :: "string \<Rightarrow> hreq" where
  "services_request origin = \<lparr>hq_method = ''GET'', hq_url = origin @ ''/services.json'', hq_body = None\<rparr>"

definition fail_detail :: "string \<Rightarrow> string \<Rightarrow> string" where
  "fail_detail name code =
     (if name = ''AbortError'' then ''timeout''
      else if code = ''ENOTFOUND'' \<or> code = ''EAI_AGAIN'' then ''dns''
      else if code = ''ETIMEDOUT'' then ''timeout''
      else ''conn-refused'')"

definition probed :: "int \<Rightarrow> fetch_result \<Rightarrow> probe_outcome" where
  "probed t r =
     (case r of
        FetchFails name code \<Rightarrow> unreachable t (fail_detail name code)
      | Fetched status b \<Rightarrow>
          if \<not> (200 \<le> status \<and> status \<le> 299) then unreachable t (''http-status:'' @ decimal status)
          else (case b of
                  None \<Rightarrow> unreachable t ''conn-refused''
                | Some Malformed \<Rightarrow> unreachable t ''bad-body''
                | Some (Parses doc) \<Rightarrow>
                    \<lparr>po_reachable = True, po_detail = None, po_at = t,
                     po_serverId = (case doc of JObj fs \<Rightarrow> hex_field fs ''server_id'' | _ \<Rightarrow> None), po_manifest = doc\<rparr>))"

definition probeServer :: "henv \<Rightarrow> string \<Rightarrow> ('x, probe_outcome) heff" where
  "probeServer e origin = ebind (ask (he_now e)) (\<lambda>t.
    ebind (fetch e (services_request origin)) (\<lambda>r.
    ret (probed t r)))"

definition RELAY_URL_MAX :: nat where "RELAY_URL_MAX = 2048"

definition strip_brackets :: "string \<Rightarrow> string" where
  "strip_brackets h =
     (let h1 = (if h \<noteq> [] \<and> hd h = CHR ''['' then tl h else h)
      in if h1 \<noteq> [] \<and> last h1 = CHR '']'' then butlast h1 else h1)"

text \<open>An address that names no host is refused; whether other texts are addresses does not matter.\<close>

definition isLegalHttpUrl :: "henv \<Rightarrow> string \<Rightarrow> bool" where
  "isLegalHttpUrl e raw \<longleftrightarrow>
     length raw \<le> RELAY_URL_MAX \<and> CHR 0x5C \<notin> set raw \<and>
     (case he_url e raw of
        None \<Rightarrow> False
      | Some u \<Rightarrow> (ur_protocol u = ''http:'' \<or> ur_protocol u = ''https:'') \<and>
          (let host = strip_brackets (ur_hostname u) in host \<noteq> [] \<and> host \<noteq> ''0.0.0.0'' \<and> host \<noteq> ''::''))"

datatype relay_choice = Relay string | NoRelay | BadManifest

definition relay_url_of :: "henv \<Rightarrow> json \<Rightarrow> string option" where
  "relay_url_of e item =
     (case item of
        JObj fs \<Rightarrow>
          if jget fs ''name'' \<noteq> Some (JStr ''relay'') \<or> jget fs ''enabled'' \<noteq> Some (JBool True) then None
          else (case jget fs ''url'' of
                  Some (JStr u) \<Rightarrow> if u = [] \<or> \<not> isLegalHttpUrl e u then None else Some u
                | _ \<Rightarrow> None)
      | _ \<Rightarrow> None)"

fun first_relay :: "henv \<Rightarrow> json list \<Rightarrow> relay_choice" where
  "first_relay e [] = NoRelay"
| "first_relay e (i # is) = (case relay_url_of e i of Some u \<Rightarrow> Relay u | None \<Rightarrow> first_relay e is)"

definition selectRelayFromManifest :: "henv \<Rightarrow> json \<Rightarrow> relay_choice" where
  "selectRelayFromManifest e m =
     (case m of
        JObj fs \<Rightarrow> (case jget fs ''services'' of Some (JArr is) \<Rightarrow> first_relay e is | _ \<Rightarrow> BadManifest)
      | _ \<Rightarrow> BadManifest)"

subsection \<open>Migration\<close>

datatype migration = NotMigrated | Kept notice | Migrated json

definition commit_migration :: "henv \<Rightarrow> json \<Rightarrow> ('x, migration) heff" where
  "commit_migration e entry = ebind (acquireFileLock e LEASES_LOCK) (\<lambda>lock.
    (case lock of
        Refused h age \<Rightarrow> throw (LockHeld LEASES_LOCK h)
      | Locked token \<Rightarrow>
          finally_do
            (ebind (leasesFileExists e) (\<lambda>again.
              if again then ret NotMigrated
               else ebind (saveLeases e [entry]) (\<lambda>_.
                 ebind (rename_over e LEGACY_REGISTRATION_FILE (LEGACY_REGISTRATION_FILE @ ''.migrated'')) (\<lambda>_.
                 ret (Migrated entry)))))
            (release e LEASES_LOCK token)))"

text \<open>The relay and the id of the server are asked for; without an answer they stay open.\<close>

definition legacy_server :: "henv \<Rightarrow> (string \<times> json) list \<Rightarrow> ('x, string \<times> string option) heff" where
  "legacy_server e st =
     (case as_string (jget st ''server'') of
        Some s \<Rightarrow>
          if s = [] then ret ([], None)
          else ebind (probeServer e s) (\<lambda>p.
            (case po_serverId p of
               Some sid \<Rightarrow>
                 if po_reachable p
                 then ret ((case selectRelayFromManifest e (po_manifest p) of Relay u \<Rightarrow> u | _ \<Rightarrow> []), Some sid)
                 else ret ([], None)
             | None \<Rightarrow> ret ([], None)))
      | None \<Rightarrow> ret ([], None))"

definition migrateLegacyRegistration :: "henv \<Rightarrow> string option \<Rightarrow> ('x, migration) heff" where
  "migrateLegacyRegistration e rootFallback = ebind (leasesFileExists e) (\<lambda>ex.
    ebind (readLegacyRegistration e) (\<lambda>leg.
    (case leg of
        LegacyNone \<Rightarrow> ret NotMigrated
      | LegacyCorrupt \<Rightarrow>
          if ex then ret NotMigrated
          else ebind (say LegacyDamaged) (\<lambda>_.
            ret (Kept LegacyDamaged))
      | LegacyState st \<Rightarrow>
          if ex then ret NotMigrated
          else ebind (legacy_server e st) (\<lambda>sv.
            ebind (buildLegacyLeaseEntry e st rootFallback (snd sv) (fst sv)) (\<lambda>built.
            (case built of
               None \<Rightarrow> ebind (say LegacyIncomplete) (\<lambda>_.
                 ret (Kept LegacyIncomplete))
             | Some entry \<Rightarrow> commit_migration e entry))))))"

subsection \<open>The fabric of this machine\<close>

definition readRosterFabricId :: "henv \<Rightarrow> ('x, string option) heff" where
  "readRosterFabricId e = ebind (readFile e ROSTER_FILE) (\<lambda>c.
    ret (case c of
            Some (Raw bs) \<Rightarrow>
              if length bs < length ROSTER_MAGIC + 32 then None
              else if map unat (take (length ROSTER_MAGIC) bs) \<noteq> ROSTER_MAGIC then None
              else (let hex = concat (map (\<lambda>b. [hex_char (unat b div 16), hex_char (unat b mod 16)])
                                (take 32 (drop (length ROSTER_MAGIC) bs)))
                    in if hex64 hex then Some hex else None)
          | _ \<Rightarrow> None))"

definition lease_fabric :: "json list \<Rightarrow> 'x herr + string option" where
  "lease_fabric js =
     (case js of
        [] \<Rightarrow> Inr None
      | j # _ \<Rightarrow> rbind (prop_of j ''fabric_id'') (\<lambda>v. Inr (case as_string v of Some s \<Rightarrow> if hex64 s then Some s else None | None \<Rightarrow> None)))"

datatype fabric_view = Agreed "string option" | Disagree "string list"

definition opt_list :: "'a option \<Rightarrow> 'a list" where
  "opt_list v = (case v of None \<Rightarrow> [] | Some a \<Rightarrow> [a])"

definition resolveExistingFabricId ::
  "json list \<Rightarrow> (string \<times> json) list option \<Rightarrow> string option \<Rightarrow> 'x herr + fabric_view" where
  "resolveExistingFabricId leases leg roster =
     rbind (lease_fabric leases) (\<lambda>fromLeases.
       let found = opt_list fromLeases @
             (case leg of None \<Rightarrow> [] | Some st \<Rightarrow> opt_list (hex_field st ''fabric_id'')) @ opt_list roster;
           distinct = uniq found
       in if 1 < length distinct then Inr (Disagree distinct)
          else Inr (Agreed (if distinct = [] then None else Some (hd distinct))))"

subsection \<open>Visits\<close>

definition loadVisits :: "henv \<Rightarrow> ('x, json list) heff" where
  "loadVisits e = ebind (readFile e VISITS_FILE) (\<lambda>c.
    (case c of None \<Rightarrow> ret [] | Some d \<Rightarrow> lift (ledger_entries VISITS_FILE ''visits'' d)))"

definition probe_json :: "probe_outcome \<Rightarrow> json" where
  "probe_json p =
     JObj ([(''result'', JStr (if po_reachable p then ''reachable'' else ''unreachable''))] @
           (case po_detail p of Some d \<Rightarrow> [(''detail'', JStr d)] | None \<Rightarrow> []) @ [(''at'', JNum (po_at p))])"

definition merge_visit :: "henv \<Rightarrow> string \<Rightarrow> string option \<Rightarrow> probe_outcome \<Rightarrow> json list \<Rightarrow> ('x, json list \<times> json \<times> bool) heff" where
  "merge_visit e server serverId p vs = ebind (lift (find_index (\<lambda>v. rbind (prop_of v ''server'') (\<lambda>s. Inr (s = Some (JStr server)))) vs)) (\<lambda>at.
    (let sid = (case serverId of Some s \<Rightarrow> Some s | None \<Rightarrow> po_serverId p) in
    (case at of
        None \<Rightarrow> ebind (ask (he_now e)) (\<lambda>t.
          (let entry = JObj [(''server'', JStr server), (''server_id'', opt_str sid), (''first_visit_at'', JNum t),
            (''last_visit_at'', if po_reachable p then JNum (po_at p) else JNull), (''last_probe'', probe_json p), (''note'', JNull)] in
          ret (vs @ [entry], entry, True)))
      | Some i \<Rightarrow> ebind (lift (set_props
            ((case sid of Some s \<Rightarrow> [(''server_id'', JStr s)] | None \<Rightarrow> []) @
             (if po_reachable p then [(''last_visit_at'', JNum (po_at p))] else []) @ [(''last_probe'', probe_json p)]) (vs ! i))) (\<lambda>entry.
        ret (vs[i := entry], entry, False)))))"

definition recordVisit :: "henv \<Rightarrow> string \<Rightarrow> string option \<Rightarrow> probe_outcome \<Rightarrow> ('x, json \<times> bool \<times> bool) heff" where
  "recordVisit e server serverId p = ebind (acquireFileLock e VISITS_LOCK) (\<lambda>lock.
    (case lock of
        Refused h age \<Rightarrow> throw (LockHeld VISITS_LOCK h)
      | Locked token \<Rightarrow> ebind (loadVisits e) (\<lambda>vs.
        ebind (merge_visit e server serverId p vs) (\<lambda>m.
        ebind (write0600 e VISITS_FILE (ledger_doc ''visits'' (fst m))) (\<lambda>_.
        ebind (release e VISITS_LOCK token) (\<lambda>rel.
        ret (fst (snd m), snd (snd m), rel)))))))"

subsection \<open>The admission journal\<close>

record journal =
  jo_server :: string
  jo_code_hash :: string
  jo_fabric_id :: string
  jo_root :: string
  jo_attempt :: int
  jo_last_error :: "string option"
  jo_ts :: int

definition journal_json :: "journal \<Rightarrow> json" where
  "journal_json j =
     JObj [(''server'', JStr (jo_server j)), (''code_hash'', JStr (jo_code_hash j)), (''fabric_id'', JStr (jo_fabric_id j)),
       (''root'', JStr (jo_root j)), (''attempt'', JNum (jo_attempt j)), (''last_error'', opt_str (jo_last_error j)), (''ts'', JNum (jo_ts j))]"

datatype journal_load = JournalNone | JournalCorrupt | Journal journal

definition num_or :: "int \<Rightarrow> json option \<Rightarrow> int" where
  "num_or d v = (case v of Some (JNum n) \<Rightarrow> n | _ \<Rightarrow> d)"

definition parse_journal :: "content option \<Rightarrow> journal_load" where
  "parse_journal c =
     (case c of
        None \<Rightarrow> JournalNone
      | Some (Doc (JObj fs)) \<Rightarrow>
          (case (as_string (jget fs ''server''), hex_field fs ''code_hash'', hex_field fs ''fabric_id'', hex_field fs ''root'') of
             (Some s, Some c, Some f, Some r) \<Rightarrow>
               Journal \<lparr>jo_server = s, jo_code_hash = c, jo_fabric_id = f, jo_root = r, jo_attempt = num_or 1 (jget fs ''attempt''),
                 jo_last_error = as_string (jget fs ''last_error''), jo_ts = num_or 0 (jget fs ''ts'')\<rparr>
           | _ \<Rightarrow> JournalCorrupt)
      | Some _ \<Rightarrow> JournalCorrupt)"

definition loadAdmissionJournal :: "henv \<Rightarrow> ('x, journal_load) heff" where
  "loadAdmissionJournal e = ebind (readFile e ADMISSION_JOURNAL_FILE) (\<lambda>c.
    ret (parse_journal c))"

definition saveAdmissionJournal :: "henv \<Rightarrow> journal \<Rightarrow> ('x, unit) heff" where
  "saveAdmissionJournal e j = write0600 e ADMISSION_JOURNAL_FILE (Doc (journal_json j))"

definition clearAdmissionJournal :: "henv \<Rightarrow> ('x, unit) heff" where
  "clearAdmissionJournal e = rm_force e ADMISSION_JOURNAL_FILE"

end
