(* ===== verification/LeaseProps.thy ===== *)
theory LeaseProps
  imports HomeProps Leases
begin

text \<open>
  What the operations on the lease ledger, the former registration and the admission journal promise,
  stated as triples, and the properties of the ledger.
\<close>

subsection \<open>Predicates that look at few files\<close>

definition depends :: "string set \<Rightarrow> home_pred \<Rightarrow> bool" where
  "depends S P \<longleftrightarrow> (\<forall>m m' s. (\<forall>f \<in> S. m f = m' f) \<longrightarrow> P m s \<longrightarrow> P m' s)"

definition quiet :: "henv \<Rightarrow> string set \<Rightarrow> bool" where
  "quiet e S \<longleftrightarrow> (\<forall>n fs. \<forall>f \<in> S. map_of (he_others e n fs) f = map_of fs f)"

lemma depends_blind: "depends S P \<Longrightarrow> f \<notin> S \<Longrightarrow> blind f P"
  unfolding depends_def blind_def by (metis fun_upd_other)

lemma depends_unmoved: "depends S P \<Longrightarrow> quiet e S \<Longrightarrow> unmoved e P"
  unfolding depends_def quiet_def unmoved_def by metis

lemmas file_names = LEASES_FILE_def VISITS_FILE_def FABRIC_LOCK_FILE_def ADMISSION_JOURNAL_FILE_def
  LEGACY_REGISTRATION_FILE_def ROSTER_FILE_def LEASES_LOCK_def VISITS_LOCK_def

abbreviation tracked :: "string set" where
  "tracked \<equiv> {LEASES_FILE, ADMISSION_JOURNAL_FILE}"

lemma not_tracked [simp]:
  "LEASES_LOCK \<noteq> LEASES_FILE" "LEASES_LOCK \<noteq> ADMISSION_JOURNAL_FILE"
  "FABRIC_LOCK_FILE \<noteq> LEASES_FILE" "FABRIC_LOCK_FILE \<noteq> ADMISSION_JOURNAL_FILE"
  "LEGACY_REGISTRATION_FILE \<noteq> LEASES_FILE" "LEGACY_REGISTRATION_FILE \<noteq> ADMISSION_JOURNAL_FILE"
  "LEGACY_REGISTRATION_FILE @ ''.migrated'' \<noteq> LEASES_FILE" "LEGACY_REGISTRATION_FILE @ ''.migrated'' \<noteq> ADMISSION_JOURNAL_FILE"
  "LEASES_FILE \<noteq> ADMISSION_JOURNAL_FILE" "ADMISSION_JOURNAL_FILE \<noteq> LEASES_FILE"
  "temp_name e f t \<noteq> LEASES_FILE" "temp_name e f t \<noteq> ADMISSION_JOURNAL_FILE"
  by (simp_all add: file_names)

subsection \<open>Leases\<close>

definition str_field :: "(string \<times> json) list \<Rightarrow> string \<Rightarrow> bool" where
  "str_field fs k \<longleftrightarrow> (\<exists>s. jget fs k = Some (JStr s))"

definition num_field :: "(string \<times> json) list \<Rightarrow> string \<Rightarrow> bool" where
  "num_field fs k \<longleftrightarrow> (\<exists>n. jget fs k = Some (JNum n))"

text \<open>A well-typed lease of a fabric, and the lease of a server, a fabric and a root.\<close>

definition lease_ok :: "string \<Rightarrow> json \<Rightarrow> bool" where
  "lease_ok f j \<longleftrightarrow>
     (\<exists>fs. j = JObj fs \<and> jget fs ''fabric_id'' = Some (JStr f) \<and> (\<exists>r. jget fs ''root'' = Some (JStr r) \<and> hex64 r) \<and>
        str_field fs ''server'' \<and> str_field fs ''id'' \<and> str_field fs ''relay_url'' \<and>
        num_field fs ''registered_at'' \<and> num_field fs ''expires_at'')"

definition lease_for :: "string \<Rightarrow> string \<Rightarrow> string \<Rightarrow> json \<Rightarrow> bool" where
  "lease_for server f r j \<longleftrightarrow>
     (\<exists>fs. j = JObj fs \<and> jget fs ''server'' = Some (JStr server) \<and> jget fs ''fabric_id'' = Some (JStr f) \<and>
        jget fs ''root'' = Some (JStr r))"

definition same_field :: "string \<Rightarrow> json \<Rightarrow> json \<Rightarrow> bool" where
  "same_field k j j' \<longleftrightarrow> (\<exists>fs fs'. j = JObj fs \<and> j' = JObj fs' \<and> jget fs k = jget fs' k)"

definition has_field :: "string \<Rightarrow> json \<Rightarrow> json \<Rightarrow> bool" where
  "has_field k v j \<longleftrightarrow> (\<exists>fs. j = JObj fs \<and> jget fs k = Some v)"

lemma key_text_eq:
  "length r = length r' \<Longrightarrow> length f = length f' \<Longrightarrow> key_text s f r = key_text s' f' r' \<longleftrightarrow> s = s' \<and> f = f' \<and> r = r'"
  by (auto simp: key_text_def)

lemma leaseKey_ok:
  assumes "lease_ok f j"
  shows "\<exists>s r. leaseKey j = Inr (key_text s f r) \<and> hex64 r \<and> lease_for s f r j"
  using assms unfolding lease_ok_def lease_for_def str_field_def
  by (auto simp: leaseKey_def prop_of_def shown_def)

lemma lease_for_unique: "lease_for s f r j \<Longrightarrow> lease_for s' f' r' j \<Longrightarrow> s = s' \<and> f = f' \<and> r = r'"
  by (auto simp: lease_for_def)

lemma find_index_some:
  "find_index p js = Inr (Some i) \<Longrightarrow> i < length js \<and> p (js ! i) = Inr True \<and> (\<forall>k < i. p (js ! k) = Inr False)"
proof (induction js arbitrary: i)
  case (Cons j js)
  show ?case
  proof (cases "p j = Inr True")
    case True
    with Cons.prems show ?thesis by simp
  next
    case False
    with Cons.prems obtain k where k: "p j = Inr False" "find_index p js = Inr (Some k)" "i = Suc k"
      by (auto simp: rbind_eq_Inr split: if_splits)
    with Cons.IH [OF k(2)] show ?thesis by (auto simp: nth_Cons split: nat.splits)
  qed
qed simp

lemma find_index_none: "find_index p js = Inr None \<Longrightarrow> \<forall>j \<in> set js. p j = Inr False"
  by (induction js) (auto simp: rbind_eq_Inr split: if_splits)

text \<open>What merging a lease into a well-typed ledger gives.\<close>

definition merged_ok :: "lease_input \<Rightarrow> json list \<Rightarrow> json list \<times> json \<times> bool \<Rightarrow> bool" where
  "merged_ok inp js x \<longleftrightarrow>
     (case x of (js', entry, created) \<Rightarrow>
        lease_for (li_server inp) (li_fabricId inp) (li_root inp) entry \<and> lease_ok (li_fabricId inp) entry \<and>
        has_field ''relay_url'' (JStr (li_relayUrl inp)) entry \<and> has_field ''server_id'' (opt_str (li_serverId inp)) entry \<and> has_field ''expires_at'' (JNum (li_expiresAt inp)) entry \<and>
        has_field ''receipt'' (receipt_json (li_receipt inp)) entry \<and>
        (if created
         then js' = js @ [entry] \<and> (\<forall>j \<in> set js. \<not> lease_for (li_server inp) (li_fabricId inp) (li_root inp) j)
         else \<exists>i < length js. js' = js[i := entry] \<and> lease_for (li_server inp) (li_fabricId inp) (li_root inp) (js ! i) \<and>
           same_field ''id'' (js ! i) entry \<and> same_field ''label'' (js ! i) entry \<and> same_field ''registered_at'' (js ! i) entry))"

lemma renewed:
  assumes ok: "lease_ok (li_fabricId inp) j" and k: "lease_for (li_server inp) (li_fabricId inp) (li_root inp) j"
  shows "\<exists>entry. (set_props (renewal inp) j :: 'x herr + json) = Inr entry \<and>
    lease_for (li_server inp) (li_fabricId inp) (li_root inp) entry \<and> lease_ok (li_fabricId inp) entry \<and>
    has_field ''relay_url'' (JStr (li_relayUrl inp)) entry \<and> has_field ''server_id'' (opt_str (li_serverId inp)) entry \<and> has_field ''expires_at'' (JNum (li_expiresAt inp)) entry \<and>
    has_field ''receipt'' (receipt_json (li_receipt inp)) entry \<and>
    same_field ''id'' j entry \<and> same_field ''label'' j entry \<and> same_field ''registered_at'' j entry"
proof -
  from ok obtain fs where j: "j = JObj fs" by (auto simp: lease_ok_def)
  show ?thesis using ok k unfolding j
    by (auto simp: set_props_def renewal_def lease_ok_def lease_for_def has_field_def same_field_def str_field_def
        num_field_def jget_def)
qed

lemma created:
  assumes "hex64 (li_root inp)"
  shows "lease_for (li_server inp) (li_fabricId inp) (li_root inp) (new_entry i t inp) \<and>
    lease_ok (li_fabricId inp) (new_entry i t inp) \<and>
    has_field ''relay_url'' (JStr (li_relayUrl inp)) (new_entry i t inp) \<and> has_field ''server_id'' (opt_str (li_serverId inp)) (new_entry i t inp) \<and>
    has_field ''expires_at'' (JNum (li_expiresAt inp)) (new_entry i t inp) \<and>
    has_field ''receipt'' (receipt_json (li_receipt inp)) (new_entry i t inp)"
  using assms by (simp add: new_entry_def lease_for_def lease_ok_def has_field_def str_field_def num_field_def jget_def)

lemma trip_merge:
  assumes ok: "list_all (lease_ok (li_fabricId inp)) js" and root: "hex64 (li_root inp)"
  shows "trip I P (merge_lease e inp js :: ('x, json list \<times> json \<times> bool) heff) (\<lambda>x m s. P m s \<and> merged_ok inp js x)"
proof -
  let ?key = "key_text (li_server inp) (li_fabricId inp) (li_root inp)"
  let ?p = "\<lambda>j. rbind (leaseKey j :: 'x herr + string) (\<lambda>k. Inr (k = ?key))"
  have p: "?p j = Inr (lease_for (li_server inp) (li_fabricId inp) (li_root inp) j)" if "j \<in> set js" for j
  proof -
    from ok that have "lease_ok (li_fabricId inp) j" by (simp add: list_all_iff)
    from leaseKey_ok [OF this] obtain s r where "(leaseKey j :: 'x herr + string) = Inr (key_text s (li_fabricId inp) r)"
      "hex64 r" "lease_for s (li_fabricId inp) r j"
      unfolding leaseKey_def prop_of_def by (auto split: json.splits)
    with root key_text_eq [of r "li_root inp" "li_fabricId inp" "li_fabricId inp" s "li_server inp"] lease_for_unique show ?thesis
      by (auto simp: hex_between_def)
  qed
  obtain r where r: "find_index ?p js = Inr r"
  proof -
    have "\<exists>r. find_index ?p xs = Inr r" if "set xs \<subseteq> set js" for xs
      using that by (induction xs) (auto simp: p)
    then show thesis using that by blast
  qed
  show ?thesis
  proof (cases r)
    case None
    from find_index_none [OF r [unfolded None]] p have none: "\<forall>j \<in> set js. \<not> lease_for (li_server inp) (li_fabricId inp) (li_root inp) j"
      by auto
    show ?thesis unfolding merge_lease_def r None
      by (rule trip_bind [where R = "\<lambda>at m s. P m s \<and> at = None"], rule trip_lift)
        (auto simp: Let_def merged_ok_def none created [OF root] random_bytes_def
          intro!: trip_fact trip_bind [where R = "\<lambda>_. P"] trip_ask trip_ret)
  next
    case (Some i)
    from find_index_some [OF r [unfolded Some]] p have i: "i < length js" "lease_for (li_server inp) (li_fabricId inp) (li_root inp) (js ! i)"
      by auto
    from ok i have "lease_ok (li_fabricId inp) (js ! i)" by (simp add: list_all_length)
    from renewed [OF this i(2), where 'x = 'x] obtain entry where en: "(set_props (renewal inp) (js ! i) :: 'x herr + json) = Inr entry"
      "merged_ok inp js (js[i := entry], entry, False)" using i by (auto simp: merged_ok_def)
    show ?thesis unfolding merge_lease_def r Some
      by (rule trip_bind [where R = "\<lambda>at m s. P m s \<and> at = Some i"], rule trip_lift)
        (auto simp: en intro!: trip_fact trip_bind [where R = "\<lambda>x m s. P m s \<and> x = entry"] trip_lift trip_ret)
  qed
qed

subsection \<open>The ledger file\<close>

definition ledger_js :: "string \<Rightarrow> content \<Rightarrow> json list option" where
  "ledger_js k c = (case c of Doc (JObj fs) \<Rightarrow> (case jget fs k of Some (JArr js) \<Rightarrow> Some js | _ \<Rightarrow> None) | _ \<Rightarrow> None)"

definition leases_at :: "hnode option \<Rightarrow> json list option" where
  "leases_at nd = (case content_of nd of None \<Rightarrow> Some [] | Some c \<Rightarrow> ledger_js ''leases'' c)"

definition leases_in :: "string \<Rightarrow> hnode option \<Rightarrow> bool" where
  "leases_in f nd \<longleftrightarrow> (\<forall>js. leases_at nd = Some js \<longrightarrow> list_all (lease_ok f) js)"

lemma ledger_entries_js: "ledger_entries file k c = (case ledger_js k c of Some js \<Rightarrow> Inr js | None \<Rightarrow> Inl (BadFile file))"
  by (simp add: ledger_entries_def ledger_js_def split: content.splits json.splits option.splits)

lemma leases_at_doc [simp]: "leases_at (Some (HFile (ledger_doc ''leases'' js))) = Some js"
  by (simp add: leases_at_def ledger_js_def ledger_doc_def jget_def)

lemma trip_loadLeases:
  "entails P I \<Longrightarrow> trip I P (loadLeases e) (\<lambda>js m s. P m s \<and> leases_at (m LEASES_FILE) = Some js)"
  unfolding loadLeases_def
  by (rule trip_bind [OF trip_readFile])
    (auto simp: leases_at_def ledger_entries_js dest: entailsD split: option.splits intro!: trip_ret trip_lift)

lemma trip_exists: "entails P I \<Longrightarrow> trip I P (leasesFileExists e) (\<lambda>_. P)"
  unfolding leasesFileExists_def
  by (rule trip_catch [where J = P], rule trip_bind [OF trip_readFile]) (auto intro: trip_ret)

lemma trip_saveLeases:
  assumes "depends S P" and "\<And>t. temp_name e LEASES_FILE t \<notin> S" and "entails P I"
    and "\<And>m s. P m s \<Longrightarrow> Q () (m(LEASES_FILE \<mapsto> HFile (ledger_doc ''leases'' js))) s"
  shows "trip I P (saveLeases e js) Q"
  unfolding saveLeases_def using assms by (intro trip_write0600 depends_blind) auto

text \<open>The whole of \<^verbatim>\<open>upsertLease\<close>, under a predicate that sees the tracked files only.\<close>

lemma trip_upsert:
  assumes P: "depends tracked P" "quiet e tracked" "entails P I"
    and ok: "\<And>m s. P m s \<Longrightarrow> leases_in (li_fabricId inp) (m LEASES_FILE)" and root: "hex64 (li_root inp)"
    and Q: "\<And>x. depends tracked (Q x)" "\<And>x. entails (Q x) I"
    and new: "\<And>m s js x. P m s \<Longrightarrow> leases_at (m LEASES_FILE) = Some js \<Longrightarrow> merged_ok inp js x \<Longrightarrow>
      Q x (m(LEASES_FILE \<mapsto> HFile (ledger_doc ''leases'' (fst x)))) s"
  shows "trip I P (upsertLease e inp :: ('x, merged_lease) heff)
    (\<lambda>r m s. \<exists>x. Q x m s \<and> ml_entry r = fst (snd x) \<and> ml_created r = snd (snd x) \<and> ml_total r = length (fst x))"
proof -
  have lock: "LEASES_LOCK \<notin> tracked" by simp
  have body: "trip I P (ebind (loadLeases e) (\<lambda>js. ebind (merge_lease e inp js) (\<lambda>m. ebind (saveLeases e (fst m)) (\<lambda>_.
      ebind (release e LEASES_LOCK token) (\<lambda>rel.
        ret \<lparr>ml_entry = fst (snd m), ml_created = snd (snd m), ml_total = length (fst m), ml_lockReleased = rel\<rparr>)))) :: ('x, merged_lease) heff)
      (\<lambda>r m s. \<exists>x. Q x m s \<and> ml_entry r = fst (snd x) \<and> ml_created r = snd (snd x) \<and> ml_total r = length (fst x))" for token
  proof (rule trip_bind [OF trip_loadLeases [OF P(3)]])
    fix js
    let ?R = "\<lambda>m s. P m s \<and> leases_at (m LEASES_FILE) = Some js"
    have dR: "depends tracked ?R" using P(1) unfolding depends_def by (metis insertCI)
    have bR: "entails ?R I" using P(3) by (auto simp: entails_def)
    show "trip I ?R (ebind (merge_lease e inp js) (\<lambda>m. ebind (saveLeases e (fst m)) (\<lambda>_.
        ebind (release e LEASES_LOCK token) (\<lambda>rel.
        ret \<lparr>ml_entry = fst (snd m), ml_created = snd (snd m), ml_total = length (fst m), ml_lockReleased = rel\<rparr>))) :: ('x, merged_lease) heff)
        (\<lambda>r m s. \<exists>x. Q x m s \<and> ml_entry r = fst (snd x) \<and> ml_created r = snd (snd x) \<and> ml_total r = length (fst x))"
    proof (cases "list_all (lease_ok (li_fabricId inp)) js")
      case False
      then have "\<not> ?R m s" for m s using ok unfolding leases_in_def by blast
      then show ?thesis by (auto simp: trip_def)
    next
      case True
      show ?thesis
      proof (rule trip_bind [OF trip_merge [OF True root]])
        fix x
        have save: "trip I (\<lambda>m s. ?R m s \<and> merged_ok inp js x) (saveLeases e (fst x) :: ('x, unit) heff) (\<lambda>_. Q x)"
        proof (rule trip_fact, rule trip_saveLeases [OF dR _ bR])
          show "temp_name e LEASES_FILE t \<notin> tracked" for t by simp
        qed (use new in auto)
        have rel: "trip I (Q x) (release e LEASES_LOCK token :: ('x, bool) heff) (\<lambda>_. Q x)"
          by (rule trip_release [OF depends_blind [OF Q(1) lock] Q(2)])
        show "trip I (\<lambda>m s. ?R m s \<and> merged_ok inp js x) (ebind (saveLeases e (fst x)) (\<lambda>_.
            ebind (release e LEASES_LOCK token) (\<lambda>rel.
            ret \<lparr>ml_entry = fst (snd x), ml_created = snd (snd x), ml_total = length (fst x), ml_lockReleased = rel\<rparr>)) :: ('x, merged_lease) heff)
            (\<lambda>r m s. \<exists>x. Q x m s \<and> ml_entry r = fst (snd x) \<and> ml_created r = snd (snd x) \<and> ml_total r = length (fst x))"
          by (rule trip_bind [OF save], rule trip_bind [OF rel], rule trip_ret, rule exI [of _ x]) simp
      qed
    qed
  qed
  show ?thesis unfolding upsertLease_def
  proof (rule trip_bind [OF trip_acquire [OF depends_blind [OF P(1) lock] P(3) depends_unmoved [OF P(1,2)]]])
    fix r
    show "trip I (lock_post LEASES_LOCK P r) ((case r of Refused h age \<Rightarrow> throw (LockHeld LEASES_LOCK h)
      | Locked token \<Rightarrow> ebind (loadLeases e) (\<lambda>js. ebind (merge_lease e inp js) (\<lambda>m. ebind (saveLeases e (fst m)) (\<lambda>_.
          ebind (release e LEASES_LOCK token) (\<lambda>rel.
          ret \<lparr>ml_entry = fst (snd m), ml_created = snd (snd m), ml_total = length (fst m), ml_lockReleased = rel\<rparr>))))) :: ('x, merged_lease) heff)
      (\<lambda>r m s. \<exists>x. Q x m s \<and> ml_entry r = fst (snd x) \<and> ml_created r = snd (snd x) \<and> ml_total r = length (fst x))"
    proof (cases r)
      case (Locked token)
      show ?thesis unfolding Locked lock_result.case
        by (rule trip_pre [OF body]) (simp add: lock_post_def)
    next
      case (Refused h age)
      show ?thesis unfolding Refused lock_result.case
        by (rule trip_throw) (use P(3) in \<open>simp add: lock_post_def entails_def\<close>)
    qed
  qed
qed

subsection \<open>The journal\<close>

definition journal_ok :: "journal \<Rightarrow> bool" where
  "journal_ok j \<longleftrightarrow> hex64 (jo_code_hash j) \<and> hex64 (jo_fabric_id j) \<and> hex64 (jo_root j)"

definition journal_at :: "hnode option \<Rightarrow> journal_load" where
  "journal_at nd = parse_journal (content_of nd)"

lemma hex_field_str: "jget fs k = Some (JStr s) \<Longrightarrow> hex64 s \<Longrightarrow> hex_field fs k = Some s"
  by (simp add: hex_field_def)

lemma journal_round: "journal_ok j \<Longrightarrow> parse_journal (Some (Doc (journal_json j))) = Journal j"
  by (cases "jo_last_error j")
    (simp_all add: parse_journal_def journal_json_def hex_field_def journal_ok_def jget_def num_or_def opt_str_def)

lemma journal_at_doc: "journal_ok j \<Longrightarrow> journal_at (Some (HFile (Doc (journal_json j)))) = Journal j"
  by (simp add: journal_at_def journal_round)

lemma hex_fieldD: "hex_field fs k = Some s \<Longrightarrow> hex64 s \<and> jget fs k = Some (JStr s)"
  by (auto simp: hex_field_def as_string_Some split: option.splits if_splits)

lemma journal_at_ok: "journal_at nd = Journal j \<Longrightarrow> journal_ok j"
  by (auto simp: journal_at_def parse_journal_def journal_ok_def split: option.splits content.splits json.splits
      dest!: hex_fieldD)

lemma trip_loadJournal:
  "entails P I \<Longrightarrow> trip I P (loadAdmissionJournal e) (\<lambda>l m s. P m s \<and> journal_at (m ADMISSION_JOURNAL_FILE) = l)"
  unfolding loadAdmissionJournal_def
  by (rule trip_bind [OF trip_readFile]) (auto simp: journal_at_def intro: trip_ret)

lemma trip_saveJournal:
  assumes "depends tracked P" and "entails P I"
    and "\<And>m s. P m s \<Longrightarrow> Q () (m(ADMISSION_JOURNAL_FILE \<mapsto> HFile (Doc (journal_json j)))) s"
  shows "trip I P (saveAdmissionJournal e j) Q"
  unfolding saveAdmissionJournal_def using assms by (intro trip_write0600 depends_blind) auto

subsection \<open>Migration\<close>

lemma legacy_entry_ok:
  "trip I P (buildLegacyLeaseEntry e st rootFallback sid relay :: ('x, json option) heff)
    (\<lambda>r m s. P m s \<and> (case r of None \<Rightarrow> True | Some j \<Rightarrow> \<exists>f. hex64 f \<and> lease_ok f j))"
proof (cases "\<exists>server f root. as_string (jget st ''server'') = Some server \<and> hex_field st ''fabric_id'' = Some f \<and>
    legacy_root st rootFallback = Some root \<and> server \<noteq> []")
  case False
  then have "buildLegacyLeaseEntry e st rootFallback sid relay = (ret None :: ('x, json option) heff)"
    by (auto simp: buildLegacyLeaseEntry_def split: option.splits)
  then show ?thesis by (auto intro: trip_ret)
next
  case True
  then obtain server f root where st: "as_string (jget st ''server'') = Some server" "hex_field st ''fabric_id'' = Some f"
    "legacy_root st rootFallback = Some root" "server \<noteq> []" by blast
  have hex: "hex64 f" "hex64 root"
    using st(2,3) hex_fieldD by (auto simp: legacy_root_def split: option.splits if_splits dest: hex_fieldD)
  have at: "trip I P ((case jget st ''registered_at'' of Some (JNum t) \<Rightarrow> ret t | _ \<Rightarrow> ask (he_now e)) :: ('x, int) heff) (\<lambda>_. P)"
    by (auto split: option.splits json.splits intro: trip_ret trip_ask)
  show ?thesis unfolding buildLegacyLeaseEntry_def st(1,2,3) option.case prod.case
    by (simp only: st(4) if_False random_bytes_def)
      (rule trip_bind [where R = "\<lambda>_. P"], rule trip_ask, assumption, rule trip_bind [OF at], rule trip_ret,
       use hex in \<open>auto simp: lease_ok_def jget_def str_field_def num_field_def\<close>)
qed

text \<open>A predicate that holds after any well-typed ledger of one fabric is written survives the migration.\<close>

lemma trip_migrate:
  assumes P: "depends tracked P" "quiet e tracked" "entails P I"
    and new: "\<And>m s f j. P m s \<Longrightarrow> hex64 f \<Longrightarrow> lease_ok f j \<Longrightarrow> P (m(LEASES_FILE \<mapsto> HFile (ledger_doc ''leases'' [j]))) s"
    and sent: "\<And>m s q. P m s \<Longrightarrow> hq_method q = ''GET'' \<Longrightarrow> P m (s @ [q])"
  shows "trip I P (migrateLegacyRegistration e rootFallback :: ('x, migration) heff) (\<lambda>_. P)"
proof -
  have lock: "LEASES_LOCK \<notin> tracked" by simp
  have commit: "trip I P (commit_migration e j :: ('x, migration) heff) (\<lambda>_. P)" if j: "hex64 f" "lease_ok f j" for f j
  proof -
    have move: "trip P P (rename_over e LEGACY_REGISTRATION_FILE (LEGACY_REGISTRATION_FILE @ ''.migrated'') :: ('x, unit) heff) (\<lambda>_. P)"
    proof (rule trip_rename)
      fix m s nd assume "P m s"
      moreover have "\<forall>f \<in> tracked. m f = (m(LEGACY_REGISTRATION_FILE := None, LEGACY_REGISTRATION_FILE @ ''.migrated'' \<mapsto> nd)) f"
        by (simp add: file_names)
      ultimately show "P (m(LEGACY_REGISTRATION_FILE := None, LEGACY_REGISTRATION_FILE @ ''.migrated'' \<mapsto> nd)) s"
        using P(1) unfolding depends_def by blast
    qed simp
    have save: "trip P P (saveLeases e [j] :: ('x, unit) heff) (\<lambda>_. P)"
      by (rule trip_saveLeases [OF P(1)]) (use new j in auto)
    have body: "trip P P (ebind (leasesFileExists e) (\<lambda>again. if again then ret NotMigrated
        else ebind (saveLeases e [j]) (\<lambda>_. ebind (rename_over e LEGACY_REGISTRATION_FILE (LEGACY_REGISTRATION_FILE @ ''.migrated''))
          (\<lambda>_. ret (Migrated j)))) :: ('x, migration) heff) (\<lambda>_. P)"
      by (rule trip_bind [OF trip_exists [OF entails_refl]], rule trip_if, rule trip_ret, assumption,
          rule trip_bind [OF save], rule trip_bind [OF move], rule trip_ret)
    have rel: "trip I P (release e LEASES_LOCK token :: ('x, bool) heff) (\<lambda>_. P)" for token
      by (rule trip_release [OF depends_blind [OF P(1) lock] P(3)])
    show ?thesis unfolding commit_migration_def
    proof (rule trip_bind [OF trip_acquire [OF depends_blind [OF P(1) lock] P(3) depends_unmoved [OF P(1,2)]]])
      fix r
      show "trip I (lock_post LEASES_LOCK P r) ((case r of Refused h age \<Rightarrow> throw (LockHeld LEASES_LOCK h)
        | Locked token \<Rightarrow> finally_do (ebind (leasesFileExists e) (\<lambda>again. if again then ret NotMigrated
            else ebind (saveLeases e [j]) (\<lambda>_. ebind (rename_over e LEGACY_REGISTRATION_FILE (LEGACY_REGISTRATION_FILE @ ''.migrated''))
              (\<lambda>_. ret (Migrated j))))) (release e LEASES_LOCK token)) :: ('x, migration) heff) (\<lambda>_. P)"
      proof (cases r)
        case (Locked token)
        show ?thesis unfolding Locked lock_result.case
          by (rule trip_pre [OF trip_finally [OF body P(3) trip_crash [OF trip_post [OF rel]] rel]])
            (use P(3) in \<open>auto simp: lock_post_def entails_def\<close>)
      next
        case (Refused h age)
        show ?thesis unfolding Refused lock_result.case
          by (rule trip_throw) (use P(3) in \<open>simp add: lock_post_def entails_def\<close>)
      qed
    qed
  qed
  have ask_server: "trip I P (legacy_server e st :: ('x, string \<times> string option) heff) (\<lambda>_. P)" for st
    unfolding legacy_server_def probeServer_def
    by (auto split: option.splits intro!: trip_ret trip_bind [where R = "\<lambda>_. P"] trip_ask trip_fetch P(3) sent
        simp: services_request_def)
  have legacy: "trip I P (readLegacyRegistration e :: ('x, legacy) heff) (\<lambda>_. P)"
    unfolding readLegacyRegistration_def by (rule trip_bind [OF trip_readFile [OF P(3)]]) (auto intro: trip_ret)
  show ?thesis unfolding migrateLegacyRegistration_def
  proof (rule trip_bind [OF trip_exists [OF P(3)]], rule trip_bind [OF legacy])
    fix ex leg
    show "trip I P ((case leg of LegacyNone \<Rightarrow> ret NotMigrated
      | LegacyCorrupt \<Rightarrow> if ex then ret NotMigrated else ebind (say LegacyDamaged) (\<lambda>_. ret (Kept LegacyDamaged))
      | LegacyState st \<Rightarrow> if ex then ret NotMigrated
          else ebind (legacy_server e st) (\<lambda>sv. ebind (buildLegacyLeaseEntry e st rootFallback (snd sv) (fst sv)) (\<lambda>built.
            case built of None \<Rightarrow> ebind (say LegacyIncomplete) (\<lambda>_. ret (Kept LegacyIncomplete)) | Some j \<Rightarrow> commit_migration e j))) ::
        ('x, migration) heff) (\<lambda>_. P)"
    proof (cases leg)
      case (LegacyState st)
      have "trip I P (ebind (legacy_server e st) (\<lambda>sv. ebind (buildLegacyLeaseEntry e st rootFallback (snd sv) (fst sv)) (\<lambda>built.
          case built of None \<Rightarrow> ebind (say LegacyIncomplete) (\<lambda>_. ret (Kept LegacyIncomplete)) | Some j \<Rightarrow> commit_migration e j)) ::
          ('x, migration) heff) (\<lambda>_. P)"
      proof (rule trip_bind [OF ask_server], rule trip_bind [OF legacy_entry_ok])
        fix built
        show "trip I (\<lambda>m s. P m s \<and> (case built of None \<Rightarrow> True | Some j \<Rightarrow> \<exists>f. hex64 f \<and> lease_ok f j))
          ((case built of None \<Rightarrow> ebind (say LegacyIncomplete) (\<lambda>_. ret (Kept LegacyIncomplete)) | Some j \<Rightarrow> commit_migration e j) ::
            ('x, migration) heff) (\<lambda>_. P)"
          by (rule trip_fact, cases built)
            (auto intro: commit intro!: trip_bind [where R = "\<lambda>_. P"] trip_say trip_ret)
      qed
      then show ?thesis by (auto simp: LegacyState intro: trip_ret)
    qed (auto intro!: trip_ret trip_bind [where R = "\<lambda>_. P"] trip_say)
  qed
qed

end
