(* ===== verification/Register.thy ===== *)
theory Register
  imports Leases Blake3
begin

text \<open>
  The protocol of \<^verbatim>\<open>POST /register\<close> (opendweb, register.mjs and ed25519.mjs): the signed texts, the
  strict base64url decoder, the reader of the answer, the check of the receipt, and invite codes.

  The signature scheme is a parameter.  The accumulator of the decoder is a 32-bit word, because
  \<^verbatim>\<open><<\<close> and \<^verbatim>\<open>|\<close> work on 32 bits.  Texts are ASCII.
\<close>

unbundle bit_operations_syntax

record crypto_lib =
  cr_public :: "bytes \<Rightarrow> bytes"
  cr_sign :: "bytes \<Rightarrow> bytes \<Rightarrow> bytes"
  cr_verify :: "bytes \<Rightarrow> bytes \<Rightarrow> bytes \<Rightarrow> bool"

definition ascii_bytes :: "string \<Rightarrow> bytes" where
  "ascii_bytes s = map (\<lambda>c. word_of_nat (of_char c)) s"

definition bytes_hex :: "bytes \<Rightarrow> string" where
  "bytes_hex bs = concat (map byte_hex bs)"

definition REGISTER_DOMAIN :: bytes where
  "REGISTER_DOMAIN = ascii_bytes ''dweb/register/v1'' @ [0]"

definition RECEIPT_DOMAIN :: bytes where
  "RECEIPT_DOMAIN = ascii_bytes ''dweb/register-receipt/v1'' @ [0]"

subsection \<open>Fields\<close>

text \<open>\<^verbatim>\<open>/^[0-9a-fA-F]{64}$/\<close>\<close>

definition any_hex64 :: "string \<Rightarrow> bool" where
  "any_hex64 s \<longleftrightarrow> length s = 64 \<and> list_all (\<lambda>c. is_hex (ascii_lower c)) s"

definition requireHex64 :: "json option \<Rightarrow> 'x herr + string" where
  "requireHex64 v =
     (case v of Some (JStr s) \<Rightarrow> if any_hex64 s then Inr (to_lower s) else Inl TypeErr | _ \<Rightarrow> Inl TypeErr)"

definition be_bytes :: "nat \<Rightarrow> nat \<Rightarrow> bytes" where
  "be_bytes k n = map (\<lambda>i. word_of_nat (n div 256 ^ (k - 1 - i) mod 256)) [0..<k]"

definition u64BE :: "int \<Rightarrow> 'x herr + bytes" where
  "u64BE v = (if v < 0 \<or> MAX_SAFE_INTEGER < v then Inl TypeErr else Inr (be_bytes 8 (nat v)))"

fun hex_pairs :: "string \<Rightarrow> bytes" where
  "hex_pairs (a # b # s) = word_of_nat (parse_hex [a, b]) # hex_pairs s"
| "hex_pairs _ = []"

definition hexToBytes32 :: "string \<Rightarrow> 'x herr + bytes" where
  "hexToBytes32 s = rbind (requireHex64 (Some (JStr s))) (\<lambda>h. Inr (hex_pairs h))"

subsection \<open>Signed texts\<close>

definition buildRegisterCanonical :: "string \<Rightarrow> string \<Rightarrow> string \<Rightarrow> int \<Rightarrow> 'x herr + bytes" where
  "buildRegisterCanonical code fabric root ts =
     (if code = [] then Inl TypeErr
      else rbind (requireHex64 (Some (JStr fabric))) (\<lambda>f. rbind (requireHex64 (Some (JStr root))) (\<lambda>r. rbind (u64BE ts) (\<lambda>t.
        Inr (REGISTER_DOMAIN @ ascii_bytes code @ ascii_bytes f @ ascii_bytes r @ t)))))"

definition buildRegisterReceiptCanonical :: "string \<Rightarrow> string \<Rightarrow> string \<Rightarrow> int \<Rightarrow> int \<Rightarrow> 'x herr + bytes" where
  "buildRegisterReceiptCanonical codeHash fabric root ts generation =
     rbind (hexToBytes32 codeHash) (\<lambda>c. rbind (hexToBytes32 fabric) (\<lambda>f. rbind (hexToBytes32 root) (\<lambda>r.
     rbind (u64BE ts) (\<lambda>t. rbind (u64BE generation) (\<lambda>g. Inr (RECEIPT_DOMAIN @ c @ f @ r @ t @ g))))))"

subsection \<open>Base64url\<close>

definition B64U_ALPHABET :: string where
  "B64U_ALPHABET = ''ABCDEFGHIJKLMNOPQRSTUVWXYZabcdefghijklmnopqrstuvwxyz0123456789-_''"

definition b64u_value :: "char \<Rightarrow> nat option" where
  "b64u_value c = map_of (zip B64U_ALPHABET [0..<64]) c"

text \<open>The loop over the characters: the bytes, the accumulator and the number of bits left in it.\<close>

fun b64u_loop :: "string \<Rightarrow> 32 word \<Rightarrow> nat \<Rightarrow> 'x herr + bytes \<times> 32 word \<times> nat" where
  "b64u_loop [] acc bits = Inr ([], acc, bits)"
| "b64u_loop (c # cs) acc bits =
     (case b64u_value c of
        None \<Rightarrow> Inl TypeErr
      | Some v \<Rightarrow>
          (let acc = push_bit 6 acc OR word_of_nat v; bits = bits + 6
           in if 8 \<le> bits
              then rbind (b64u_loop cs acc (bits - 8)) (\<lambda>(out, st). Inr (ucast (drop_bit (bits - 8) acc AND 0xff) # out, st))
              else b64u_loop cs acc bits))"

definition fromBase64UrlNoPad :: "string \<Rightarrow> 'x herr + bytes" where
  "fromBase64UrlNoPad s =
     (if s = [] then Inl TypeErr
      else rbind (b64u_loop s 0 0) (\<lambda>(out, acc, bits).
        if 0 < bits \<and> acc AND (push_bit bits 1 - 1) \<noteq> 0 then Inl TypeErr else Inr out))"

definition toBase64UrlNoPad :: "bytes \<Rightarrow> string" where
  "toBase64UrlNoPad bs = map (nth B64U_ALPHABET) (digits_of 6 bs)"

subsection \<open>Keys\<close>

definition endpointIdHexFromSeed :: "crypto_lib \<Rightarrow> bytes \<Rightarrow> 'x herr + string" where
  "endpointIdHexFromSeed cr seed = (if length seed \<noteq> 32 then Inl TypeErr else Inr (bytes_hex (cr_public cr seed)))"

definition signDetached :: "crypto_lib \<Rightarrow> bytes \<Rightarrow> bytes \<Rightarrow> 'x herr + bytes" where
  "signDetached cr seed msg = (if length seed \<noteq> 32 then Inl TypeErr else Inr (cr_sign cr seed msg))"

definition verifyDetached :: "crypto_lib \<Rightarrow> string \<Rightarrow> bytes \<Rightarrow> bytes \<Rightarrow> 'x herr + bool" where
  "verifyDetached cr key msg sig =
     (if \<not> any_hex64 key then Inl TypeErr
      else if length sig \<noteq> 64 then Inl TypeErr
      else Inr (cr_verify cr (hex_pairs (to_lower key)) msg sig))"

text \<open>A document that is a text is parsed once more.\<close>

definition serverPublicKeyFromServices :: "henv \<Rightarrow> json \<Rightarrow> 'x herr + string" where
  "serverPublicKeyFromServices e doc =
     (case (case doc of JStr s \<Rightarrow> he_json e s | _ \<Rightarrow> Parses doc) of
        Parses (JObj fs) \<Rightarrow> requireHex64 (jget fs ''server_id'')
      | _ \<Rightarrow> Inl TypeErr)"

subsection \<open>The answer\<close>

record register_answer =
  ra_ts :: int
  ra_generation :: int
  ra_fabricId :: string
  ra_root :: string
  ra_codeHash :: string
  ra_expiresAt :: int
  ra_receiptSig :: string

definition nonneg :: "json option \<Rightarrow> 'x herr + int" where
  "nonneg v = (case v of Some (JNum n) \<Rightarrow> if 0 \<le> n then Inr n else Inl TypeErr | _ \<Rightarrow> Inl TypeErr)"

definition parseRegisterResponse :: "json \<Rightarrow> 'x herr + register_answer" where
  "parseRegisterResponse doc =
     (case doc of
        JObj fs \<Rightarrow>
          if jget fs ''op'' \<noteq> None \<and> jget fs ''op'' \<noteq> Some (JStr ''register'') then Inl TypeErr
          else rbind (nonneg (jget fs ''ts'')) (\<lambda>ts. rbind (nonneg (jget fs ''generation'')) (\<lambda>gen.
               rbind (nonneg (jget fs ''expires_at'')) (\<lambda>ex.
               case jget fs ''receipt_sig'' of
                 Some (JStr sig) \<Rightarrow>
                   if sig = [] then Inl TypeErr
                   else rbind (requireHex64 (jget fs ''fabric_id'')) (\<lambda>f. rbind (requireHex64 (jget fs ''root'')) (\<lambda>r.
                        rbind (requireHex64 (jget fs ''code_hash'')) (\<lambda>c.
                        Inr \<lparr>ra_ts = ts, ra_generation = gen, ra_fabricId = f, ra_root = r, ra_codeHash = c,
                          ra_expiresAt = ex, ra_receiptSig = sig\<rparr>)))
               | _ \<Rightarrow> Inl TypeErr)))
      | _ \<Rightarrow> Inl TypeErr)"

definition verifyRegisterReceipt :: "crypto_lib \<Rightarrow> register_answer \<Rightarrow> string \<Rightarrow> 'x herr + bool" where
  "verifyRegisterReceipt cr a key =
     rbind (fromBase64UrlNoPad (ra_receiptSig a)) (\<lambda>sig.
       if length sig \<noteq> 64 then Inl TypeErr
       else rbind (buildRegisterReceiptCanonical (ra_codeHash a) (ra_fabricId a) (ra_root a) (ra_ts a) (ra_generation a)) (\<lambda>msg.
            verifyDetached cr key msg sig))"

subsection \<open>Invite codes\<close>

definition INVITE_CODE_PREFIX :: string where "INVITE_CODE_PREFIX = ''dwebc1.''"
definition INVITE_CODE_BODY_LEN :: nat where "INVITE_CODE_BODY_LEN = 16"

definition is_blank :: "char \<Rightarrow> bool" where
  "is_blank c \<longleftrightarrow> of_char c \<in> set [9, 10, 11, 12, 13, 32, 160 :: nat]"

definition trim :: "string \<Rightarrow> string" where
  "trim s = rev (dropWhile is_blank (rev (dropWhile is_blank s)))"

definition normalizeInviteCode :: "string \<Rightarrow> string option" where
  "normalizeInviteCode raw =
     (let s = trim raw;
          b = (if to_lower (take (length INVITE_CODE_PREFIX) s) = INVITE_CODE_PREFIX then drop (length INVITE_CODE_PREFIX) s else s);
          normalized = map ascii_lower (filter (\<lambda>c. c \<noteq> CHR ''-'') b)
      in if length normalized \<noteq> INVITE_CODE_BODY_LEN then None
         else if list_all (\<lambda>c. c \<in> set CROCKFORD_ALPHABET) normalized then Some normalized else None)"

definition inviteCodeHashHex :: "string \<Rightarrow> string option" where
  "inviteCodeHashHex raw =
     (case normalizeInviteCode raw of None \<Rightarrow> None | Some n \<Rightarrow> blake3Hex (ascii_bytes n))"

end
