(* ===== verification/DeviceKey.thy ===== *)
theory DeviceKey
  imports Leases
begin

text \<open>
  The default key of a device (opendweb, device-key.mjs): 32 bytes in one file, created by linking a
  temporary file to its name, so that of several processes exactly one wins.
\<close>

definition KEY_FILE_NAME :: string where "KEY_FILE_NAME = ''identity.key''"
definition SEED_LEN :: nat where "SEED_LEN = 32"

definition loadDeviceSeed :: "henv \<Rightarrow> ('x, bytes option) heff" where
  "loadDeviceSeed e = ebind (catch (readFile e KEY_FILE_NAME) (\<lambda>er. throw (Fail ''failed to read device key''))) (\<lambda>c.
    (case c of
        None \<Rightarrow> ret None
      | Some (Raw bs) \<Rightarrow> if length bs \<noteq> SEED_LEN then throw (BadFile KEY_FILE_NAME) else ret (Some bs)
      | Some (Doc d) \<Rightarrow> throw (BadFile KEY_FILE_NAME)))"

definition next_temp :: "('x, nat) heff" where
  "next_temp w = (Inr (Suc (hw_temps w)), w\<lparr>hw_temps := Suc (hw_temps w)\<rparr>)"

text \<open>\<^verbatim>\<open>link(tmp, key)\<close> tells whether the name was free.\<close>

definition link_new :: "henv \<Rightarrow> string \<Rightarrow> string \<Rightarrow> ('x, bool) heff" where
  "link_new e p q =
     io e (\<lambda>n fs. case map_of fs p of
                    None \<Rightarrow> (Inl IoError, fs)
                  | Some nd \<Rightarrow> if map_of fs q = None then (Inr True, aput q nd fs) else (Inr False, fs))"

definition seed_temp :: "henv \<Rightarrow> nat \<Rightarrow> string" where
  "seed_temp e k = KEY_FILE_NAME @ ''.'' @ num_str (he_pid e) @ ''.'' @ decimal k @ ''.tmp''"

text \<open>The result tells whether the name was free; any other failure is thrown.\<close>

definition createSeedFile :: "henv \<Rightarrow> bytes \<Rightarrow> ('x, bool) heff" where
  "createSeedFile e seed = ebind (io e (\<lambda>n fs. (Inr (), fs))) (\<lambda>_.
    ebind next_temp (\<lambda>k.
    (let tmp = seed_temp e k in
    ebind (open_excl e tmp) (\<lambda>new.
    if \<not> new then ret False
     else ebind (write_open e tmp (Raw seed)) (\<lambda>_.
       ebind (catch (link_new e tmp KEY_FILE_NAME) (\<lambda>er. ebind (rm_force e tmp) (\<lambda>_.
         throw er))) (\<lambda>ok.
       ebind (rm_force e tmp) (\<lambda>_.
       ret ok)))))))"

definition ensureDeviceSeed :: "henv \<Rightarrow> ('x, bytes \<times> bool) heff" where
  "ensureDeviceSeed e = ebind (loadDeviceSeed e) (\<lambda>old.
    (case old of
        Some seed \<Rightarrow> ret (seed, False)
      | None \<Rightarrow> ebind (random_bytes e SEED_LEN) (\<lambda>seed.
        ebind (catch (createSeedFile e seed) (\<lambda>er. throw (Fail ''failed to write device key''))) (\<lambda>ok.
        if ok then ret (seed, True)
          else ebind (loadDeviceSeed e) (\<lambda>winner.
            (case winner of Some s \<Rightarrow> ret (s, False) | None \<Rightarrow> throw (Fail ''failed to write device key'')))))))"

end
