(* ===== verification/Join.thy ===== *)
theory Join
  imports Register DeviceKey
begin

text \<open>
  The commands \<^verbatim>\<open>opendweb join\<close> and \<^verbatim>\<open>opendweb id\<close> (opendweb, join.mjs and identity.mjs): the guard of the
  server URL, the choice of the fabric, the admission under its lock with the journal that is written before
  the request leaves, the replay of a pending admission, and what is printed.
\<close>

datatype exit_why =
    UnknownOption string
  | MissingValue string
  | TakesNoValue
  | EmptyValue string
  | Usage
  | BadServer string
  | BadShortCode short_error
  | BadInviteCode
  | BadFabric
  | AdmissionBusy "int option"
  | JournalDamaged
  | Inconsistent "string list"
  | OtherFabric string string
  | NoRelayEnabled
  | PreflightFailed
  | PendingFabric
  | PendingServer
  | PendingCode
  | KeyMismatch
  | ReplayPreflight
  | RegisterUnreachable
  | RegisterRefused string nat
  | RegisterMalformed
  | ReceiptMalformed
  | ReceiptUnverified
  | ReceiptMismatch
  | ReceiptCode
  | RecheckFailed
  | NoDeviceKey
  | DeviceKeyError

type_synonym 'a jeff = "(exit_why, 'a) heff"

subsection \<open>Arguments\<close>

record join_args =
  ja_server :: "string option"
  ja_code :: "string option"
  ja_fabric :: "string option"
  ja_alias :: "string option"
  ja_insecure :: bool

definition no_args :: join_args where
  "no_args = \<lparr>ja_server = None, ja_code = None, ja_fabric = None, ja_alias = None, ja_insecure = False\<rparr>"

definition option_name :: "string \<Rightarrow> string" where
  "option_name t = takeWhile (\<lambda>c. c \<noteq> CHR ''='') t"

definition option_value :: "string \<Rightarrow> string option" where
  "option_value t = (if CHR ''='' \<in> set t then Some (tl (dropWhile (\<lambda>c. c \<noteq> CHR ''='') t)) else None)"

definition set_option :: "string \<Rightarrow> string \<Rightarrow> join_args \<Rightarrow> join_args" where
  "set_option name v a =
     (if name = ''--server'' then a\<lparr>ja_server := Some v\<rparr>
      else if name = ''--code'' then a\<lparr>ja_code := Some v\<rparr>
      else if name = ''--alias'' then a\<lparr>ja_alias := Some v\<rparr>
      else a\<lparr>ja_fabric := Some v\<rparr>)"

fun parse_options :: "string list \<Rightarrow> join_args \<Rightarrow> exit_why herr + join_args" where
  "parse_options [] a = Inr a"
| "parse_options (t # ts) a =
     (let name = option_name t
      in if name = ''--allow-insecure'' then
           if option_value t \<noteq> None then Inl (CliExit TakesNoValue 2) else parse_options ts (a\<lparr>ja_insecure := True\<rparr>)
         else if name \<notin> set [''--server'', ''--code'', ''--fabric'', ''--alias''] then Inl (CliExit (UnknownOption name) 2)
         else (case option_value t of
                 Some v \<Rightarrow> if v = [] then Inl (CliExit (EmptyValue name) 2) else parse_options ts (set_option name v a)
               | None \<Rightarrow>
                   (case ts of
                      [] \<Rightarrow> Inl (CliExit (MissingValue name) 2)
                    | v # ts' \<Rightarrow> if v = [] then Inl (CliExit (EmptyValue name) 2) else parse_options ts' (set_option name v a))))"

definition parseJoinArgs :: "string list \<Rightarrow> exit_why herr + join_args" where
  "parseJoinArgs argv =
     rbind (parse_options argv no_args) (\<lambda>a. if ja_server a = None \<or> ja_code a = None then Inl (CliExit Usage 2) else Inr a)"

definition ALIAS_MAX_BYTES :: nat where "ALIAS_MAX_BYTES = 32"

definition resolveSelfAlias :: "string option \<Rightarrow> string \<Rightarrow> string option \<times> bool" where
  "resolveSelfAlias al hostname =
     (let raw = (case al of Some a \<Rightarrow> a | None \<Rightarrow> machineName hostname)
      in if raw = [] then (None, False)
         else (let (v, cut) = truncateUtf8Bytes (map of_char raw) ALIAS_MAX_BYTES in (Some (map char_of v), cut)))"

subsection \<open>The server URL\<close>

text \<open>\<^verbatim>\<open>s.includes(p)\<close>\<close>

fun has_part :: "string \<Rightarrow> string \<Rightarrow> bool" where
  "has_part p [] \<longleftrightarrow> p = []"
| "has_part p (c # cs) \<longleftrightarrow> startsWith (c # cs) p \<or> has_part p cs"

definition checkRawTail :: "string \<Rightarrow> string option" where
  "checkRawTail tail =
     (let low = to_lower tail;
          rawPath = takeWhile (\<lambda>c. c \<noteq> CHR ''?'' \<and> c \<noteq> CHR ''#'') (dropWhile (\<lambda>c. c \<notin> set ''/?#'') tail);
          segs = split_on CHR ''/'' (tl rawPath)
      in if CHR 0x5C \<in> set tail then Some ''backslash''
         else if has_part ''%2f'' low \<or> has_part ''%5c'' low then Some ''encoded separator''
         else if has_part ''%2e'' low then Some ''encoded dot''
         else if rawPath = [] \<or> rawPath = ''/'' then None
         else if ''.'' \<in> set segs \<or> ''..'' \<in> set segs then Some ''dot segment''
         else if [] \<in> set segs then Some ''empty segment''
         else None)"

text \<open>\<^verbatim>\<open>net.isIPv6\<close>: the groups, and a zone after a percent sign.\<close>

definition net_isIPv6 :: "string \<Rightarrow> bool" where
  "net_isIPv6 s \<longleftrightarrow>
     (let addr = takeWhile (\<lambda>c. c \<noteq> CHR ''%'') s; zone = dropWhile (\<lambda>c. c \<noteq> CHR ''%'') s
      in parseIpv6Groups addr \<noteq> None \<and> zone \<noteq> ''%'')"

definition mapped_v4 :: "string \<Rightarrow> bool" where
  "mapped_v4 h \<longleftrightarrow>
     startsWith h ''::ffff:'' \<and>
     (let ps = split_on CHR ''.'' (drop 7 h)
      in length ps = 4 \<and> list_all (\<lambda>p. p \<noteq> [] \<and> list_all is_digit p) ps \<and> parse_dec (hd ps) = 127)"

definition mapped_hex :: "string \<Rightarrow> string \<Rightarrow> bool" where
  "mapped_hex pre h \<longleftrightarrow>
     startsWith h pre \<and>
     (let ps = split_on CHR '':'' (drop (length pre) h)
      in length ps = 2 \<and> list_all (\<lambda>p. parseIpv6Group p \<noteq> None) ps \<and> parse_hex (hd ps) div 256 = 127)"

definition isLoopbackIp :: "string \<Rightarrow> bool" where
  "isLoopbackIp ip \<longleftrightarrow>
     (if isIPv4 ip then parse_dec (hd (split_on CHR ''.'' ip)) = 127
      else net_isIPv6 ip \<and>
        (let h = to_lower ip
         in h = ''::1'' \<or> h = ''0:0:0:0:0:0:0:1'' \<or> mapped_v4 h \<or> mapped_hex ''::ffff:'' h \<or> mapped_hex ''0:0:0:0:0:ffff:'' h))"

definition DEFAULT_PORTS :: "string \<Rightarrow> nat" where
  "DEFAULT_PORTS scheme = (if scheme = ''http'' then 80 else 443)"

definition bad_server :: "string \<Rightarrow> exit_why herr" where
  "bad_server m = CliExit (BadServer m) 2"

definition host_of :: "url_parts \<Rightarrow> string" where
  "host_of u =
     (let h = to_lower (ur_hostname u)
      in if h \<noteq> [] \<and> hd h = CHR ''['' \<and> last h = CHR '']'' then butlast (tl h) else h)"

definition drop_dot :: "string \<Rightarrow> string" where
  "drop_dot h = (if h \<noteq> [] \<and> last h = CHR ''.'' then butlast h else h)"

text \<open>What follows the first \<^verbatim>\<open>://\<close>, or the whole text.\<close>

fun after_scheme :: "string \<Rightarrow> string option" where
  "after_scheme [] = None"
| "after_scheme (c # cs) = (if startsWith (c # cs) ''://'' then Some (drop 3 (c # cs)) else after_scheme cs)"

definition raw_tail :: "string \<Rightarrow> string" where
  "raw_tail raw = (case after_scheme raw of Some t \<Rightarrow> t | None \<Rightarrow> raw)"

text \<open>The part of the guard that asks nobody: the scheme, the host and the port.\<close>

definition check_server :: "string \<Rightarrow> url_parts option \<Rightarrow> exit_why herr + string \<times> string \<times> nat" where
  "check_server raw pu =
     (if raw = [] then Inl (bad_server ''URL is required'')
      else (case pu of
              None \<Rightarrow> Inl (bad_server ''must be an absolute http(s) URL'')
            | Some u \<Rightarrow>
                let scheme = butlast (ur_protocol u);
                    port = (if ur_port u = [] then DEFAULT_PORTS scheme else parse_dec (ur_port u))
                in if ur_protocol u \<noteq> ''http:'' \<and> ur_protocol u \<noteq> ''https:'' then Inl (bad_server ''scheme must be http or https'')
                   else if ur_username u \<noteq> [] \<or> ur_password u \<noteq> [] then Inl (bad_server ''must not embed credentials (userinfo)'')
                   else if ur_search u \<noteq> [] \<or> ur_hash u \<noteq> [] then Inl (bad_server ''must not carry a query or fragment'')
                   else (case checkRawTail (raw_tail raw) of
                           Some m \<Rightarrow> Inl (bad_server m)
                         | None \<Rightarrow>
                             if ur_pathname u \<noteq> ''/'' then Inl (bad_server ''must not carry a path'')
                             else if CHR ''%'' \<in> set (host_of u) then Inl (bad_server ''must not use an IPv6 zone-id address'')
                             else if drop_dot (host_of u) = [] then Inl (bad_server ''has no host'')
                             else Inr (scheme, drop_dot (host_of u), port))))"

definition make_origin :: "string \<Rightarrow> string \<Rightarrow> nat \<Rightarrow> string" where
  "make_origin scheme hostname port =
     (let host = (if CHR '':'' \<in> set hostname then ''['' @ hostname @ '']'' else hostname)
      in if port = DEFAULT_PORTS scheme then scheme @ ''://'' @ host else scheme @ ''://'' @ host @ '':'' @ decimal port)"

text \<open>Names are resolved for plain http only, and every address must be a loopback address.\<close>

definition is_loopback :: "henv \<Rightarrow> string \<Rightarrow> string \<Rightarrow> bool jeff" where
  "is_loopback e scheme hostname =
     (if isIPv4 hostname \<or> net_isIPv6 hostname then ret (isLoopbackIp hostname)
      else if scheme = ''http'' then ebind (ask (\<lambda>n. he_dns e n hostname)) (\<lambda>rs.
        (case rs of
           None \<Rightarrow> throw (bad_server ''cannot resolve server hostname'')
         | Some as \<Rightarrow> if as = [] then throw (bad_server ''server hostname resolves to no addresses'') else ret (list_all isLoopbackIp as)))
      else ret False)"

definition validateServerUrl :: "henv \<Rightarrow> string \<Rightarrow> bool \<Rightarrow> string jeff" where
  "validateServerUrl e raw allowInsecure = ebind (lift (check_server raw (he_url e raw))) (\<lambda>p.
    (case p of (scheme, hostname, port) \<Rightarrow> ebind (is_loopback e scheme hostname) (\<lambda>loopback.
       if scheme = ''http'' \<and> \<not> loopback \<and> \<not> allowInsecure
        then throw (bad_server ''uses plaintext http to a non-loopback host'')
        else ret (make_origin scheme hostname port))))"

subsection \<open>The fabric\<close>

datatype fabric_origin = FromFlag | Reused | FreshFabric

definition selectFabricId :: "henv \<Rightarrow> string option \<Rightarrow> string option \<Rightarrow> (string \<times> fabric_origin) jeff" where
  "selectFabricId e fabric existing =
     (let flag = (case fabric of Some f \<Rightarrow> if any_hex64 f then Some (to_lower f) else None | None \<Rightarrow> None)
      in if fabric \<noteq> None \<and> flag = None then throw (CliExit BadFabric 2)
         else (case existing of
                 Some ex \<Rightarrow>
                   (case flag of
                      Some f \<Rightarrow> if f \<noteq> ex then throw (CliExit (OtherFabric ex f) 1) else ret (ex, FromFlag)
                    | None \<Rightarrow> ret (ex, Reused))
               | None \<Rightarrow>
                   (case flag of
                      Some f \<Rightarrow> ret (f, FromFlag)
                    | None \<Rightarrow> ebind (random_bytes e 32) (\<lambda>bs. ret (bytes_hex bs, FreshFabric)))))"

subsection \<open>Requests\<close>

datatype preflight = Preflight string string | RelayDisabled | PreflightError

definition services_of :: "henv \<Rightarrow> fetch_result \<Rightarrow> preflight" where
  "services_of e r =
     (case r of
        Fetched status (Some (Parses doc)) \<Rightarrow>
          if \<not> (200 \<le> status \<and> status \<le> 299) then PreflightError
          else (case serverPublicKeyFromServices e doc :: unit herr + string of
                  Inl er \<Rightarrow> PreflightError
                | Inr sid \<Rightarrow> (case selectRelayFromManifest e doc of Relay u \<Rightarrow> Preflight sid u | _ \<Rightarrow> RelayDisabled))
      | _ \<Rightarrow> PreflightError)"

definition servicesPreflight :: "henv \<Rightarrow> string \<Rightarrow> preflight jeff" where
  "servicesPreflight e origin = ebind (fetch e (services_request origin)) (\<lambda>r.
    ret (services_of e r))"

datatype outcome = Registered register_answer | NetworkDown | HttpError string nat | MalformedAnswer

text \<open>The code of an error envelope, empty when there is none.\<close>

definition error_code_of :: "jfile option \<Rightarrow> string" where
  "error_code_of b =
     (case b of
        Some (Parses (JObj fs)) \<Rightarrow>
          (case jget fs ''error'' of
             Some (JObj es) \<Rightarrow> (case as_string (jget es ''code'') of Some c \<Rightarrow> c | None \<Rightarrow> [])
           | _ \<Rightarrow> [])
      | _ \<Rightarrow> [])"

definition register_outcome :: "fetch_result \<Rightarrow> outcome" where
  "register_outcome r =
     (case r of
        FetchFails n c \<Rightarrow> NetworkDown
      | Fetched status b \<Rightarrow>
          if \<not> (200 \<le> status \<and> status \<le> 299) then HttpError (error_code_of b) status
          else (case b of
                  Some (Parses doc) \<Rightarrow>
                    (case parseRegisterResponse doc :: unit herr + register_answer of
                       Inr a \<Rightarrow> Registered a | Inl er \<Rightarrow> MalformedAnswer)
                | _ \<Rightarrow> MalformedAnswer))"

definition register_request :: "string \<Rightarrow> string \<Rightarrow> string option \<Rightarrow> string \<Rightarrow> string \<Rightarrow> int \<Rightarrow> string \<Rightarrow> hreq" where
  "register_request origin code al fabric root ts sig =
     \<lparr>hq_method = ''POST'', hq_url = origin @ ''/register'',
      hq_body = Some (JObj ([(''code'', JStr code)] @ (case al of Some a \<Rightarrow> [(''alias'', JStr a)] | None \<Rightarrow> []) @
        [(''fabric_id'', JStr fabric), (''root'', JStr root), (''ts'', JNum ts), (''sig'', JStr sig)]))\<rparr>"

definition performRegister ::
  "henv \<Rightarrow> crypto_lib \<Rightarrow> string \<Rightarrow> string \<Rightarrow> string \<Rightarrow> string \<Rightarrow> bytes \<Rightarrow> string option \<Rightarrow> outcome jeff" where
  "performRegister e cr origin code fabric root seed al = ebind (ask (he_now e)) (\<lambda>ts.
    ebind (lift (buildRegisterCanonical code fabric root ts)) (\<lambda>canonical.
    ebind (lift (signDetached cr seed canonical)) (\<lambda>sig.
    ebind (fetch e (register_request origin code al fabric root ts (toBase64UrlNoPad sig))) (\<lambda>r.
    ret (register_outcome r)))))"

subsection \<open>Settling\<close>

definition failKeepJournal :: "henv \<Rightarrow> journal \<Rightarrow> string \<Rightarrow> unit jeff" where
  "failKeepJournal e j why = ebind (ask (he_now e)) (\<lambda>t.
    saveAdmissionJournal e (j\<lparr>jo_last_error := Some why, jo_ts := t\<rparr>))"

definition give_up :: "henv \<Rightarrow> journal \<Rightarrow> string \<Rightarrow> exit_why \<Rightarrow> 'a jeff" where
  "give_up e j why reason = ebind (failKeepJournal e j why) (\<lambda>_.
    throw (CliExit reason 1))"

text \<open>What is printed after a join.\<close>

record join_report =
  jr_origin :: string
  jr_recovered :: "int option"
  jr_root :: string
  jr_alias :: "string option"
  jr_fabric :: string
  jr_fabric_text :: string
  jr_relay :: string
  jr_generation :: int
  jr_lease :: merged_lease
  jr_alias_cut :: bool
  jr_new_key :: bool

record labels =
  lb_fabricOrigin :: string
  lb_aliasTruncated :: bool
  lb_seedCreated :: bool
  lb_recovered :: "int option"

definition fabric_text :: "string \<Rightarrow> string" where
  "fabric_text o1 = (if o1 = ''new'' then ''newly generated'' else if o1 = ''reused'' then ''reused local fabric'' else ''from --fabric'')"

definition origin_text :: "fabric_origin \<Rightarrow> string" where
  "origin_text f = (case f of FromFlag \<Rightarrow> ''flag'' | Reused \<Rightarrow> ''reused'' | FreshFabric \<Rightarrow> ''new'')"

definition MAX_DATE_MS :: int where "MAX_DATE_MS = 8640000000000000"

definition lease_of :: "journal \<Rightarrow> string \<Rightarrow> string \<Rightarrow> string \<Rightarrow> string option \<Rightarrow> register_answer \<Rightarrow> lease_input" where
  "lease_of j origin relay sid al a =
     \<lparr>li_server = origin, li_relayUrl = relay, li_serverId = Some sid, li_fabricId = jo_fabric_id j, li_root = jo_root j,
      li_alias = al, li_expiresAt = ra_expiresAt a,
      li_receipt = \<lparr>re_ts = ra_ts a, re_generation = ra_generation a, re_code_hash = ra_codeHash a, re_sig = ra_receiptSig a\<rparr>\<rparr>"

text \<open>The lease is recorded, the journal removed, and only then is the date of expiry turned into text.\<close>

definition record_lease ::
  "henv \<Rightarrow> journal \<Rightarrow> string \<Rightarrow> string \<Rightarrow> string \<Rightarrow> string option \<Rightarrow> register_answer \<Rightarrow> labels \<Rightarrow> join_report jeff" where
  "record_lease e j origin sid relay al a lb = ebind (upsertLease e (lease_of j origin relay sid al a)) (\<lambda>merged.
    ebind (clearAdmissionJournal e) (\<lambda>_.
    if MAX_DATE_MS < ra_expiresAt a then throw (Fail ''Invalid time value'')
     else ret \<lparr>jr_origin = origin, jr_recovered = lb_recovered lb, jr_root = jo_root j, jr_alias = al, jr_fabric = jo_fabric_id j,
            jr_fabric_text = fabric_text (lb_fabricOrigin lb), jr_relay = relay, jr_generation = ra_generation a, jr_lease = merged,
            jr_alias_cut = lb_aliasTruncated lb, jr_new_key = lb_seedCreated lb\<rparr>))"

definition settle_answer ::
  "henv \<Rightarrow> crypto_lib \<Rightarrow> register_answer \<Rightarrow> journal \<Rightarrow> string \<Rightarrow> string \<Rightarrow> string \<Rightarrow> string \<Rightarrow> string option \<Rightarrow> labels \<Rightarrow> join_report jeff" where
  "settle_answer e cr a j origin codeHash sid relay al lb =
     (case verifyRegisterReceipt cr a sid :: unit herr + bool of
        Inl er \<Rightarrow> give_up e j ''malformed receipt'' ReceiptMalformed
      | Inr False \<Rightarrow> give_up e j ''receipt did not verify against preflight server_id'' ReceiptUnverified
      | Inr True \<Rightarrow>
          if ra_fabricId a \<noteq> jo_fabric_id j \<or> ra_root a \<noteq> jo_root j
          then give_up e j ''receipt tuple does not match this admission'' ReceiptMismatch
          else if ra_codeHash a \<noteq> codeHash
          then give_up e j ''receipt code_hash does not match the normalized invite code'' ReceiptCode
          else ebind (servicesPreflight e origin) (\<lambda>recheck.
            if recheck \<noteq> Preflight sid relay then give_up e j ''services re-check'' RecheckFailed
            else record_lease e j origin sid relay al a lb))"

definition settleRegister ::
  "henv \<Rightarrow> crypto_lib \<Rightarrow> outcome \<Rightarrow> journal \<Rightarrow> string \<Rightarrow> string \<Rightarrow> string \<Rightarrow> string \<Rightarrow> string option \<Rightarrow> labels \<Rightarrow> join_report jeff" where
  "settleRegister e cr outc j origin codeHash sid relay al lb =
     (case outc of
        NetworkDown \<Rightarrow> give_up e j ''register network error'' RegisterUnreachable
      | HttpError code status \<Rightarrow> give_up e j (''register rejected: '' @ (if code = [] then ''http '' @ decimal status else code)) (RegisterRefused code status)
      | MalformedAnswer \<Rightarrow> give_up e j ''malformed success response'' RegisterMalformed
      | Registered a \<Rightarrow> settle_answer e cr a j origin codeHash sid relay al lb)"

subsection \<open>Admission\<close>

text \<open>
  The local state is looked at first, with the entry the migration would make; then the migration is
  committed and the state is looked at again.
\<close>

definition preview :: "henv \<Rightarrow> legacy \<Rightarrow> json list \<Rightarrow> (json list \<times> (string \<times> json) list option) jeff" where
  "preview e leg js =
     (case leg of
        LegacyState st \<Rightarrow> ebind (leasesFileExists e) (\<lambda>ex.
          if ex then ret (js, Some st)
          else ebind (buildLegacyLeaseEntry e st None None []) (\<lambda>built.
            ret (case built of Some entry \<Rightarrow> ([entry], None) | None \<Rightarrow> (js, Some st))))
      | _ \<Rightarrow> ret (js, None))"

definition agreed :: "fabric_view \<Rightarrow> string option jeff" where
  "agreed v = (case v of Agreed f \<Rightarrow> ret f | Disagree fs \<Rightarrow> throw (CliExit (Inconsistent fs) 1))"

definition existing_fabric :: "henv \<Rightarrow> string option jeff" where
  "existing_fabric e = ebind (loadLeases e) (\<lambda>js.
    ebind (readLegacyRegistration e) (\<lambda>leg.
    ebind (readRosterFabricId e) (\<lambda>roster.
    ebind (preview e leg js) (\<lambda>seen.
    ebind (lift (resolveExistingFabricId (fst seen) (snd seen) roster)) (\<lambda>v.
    ebind (agreed v) (\<lambda>_.
    ebind (migrateLegacyRegistration e None) (\<lambda>mig.
    ebind (loadLeases e) (\<lambda>js2.
    ebind (case mig of
                Migrated j \<Rightarrow> ret None
              | _ \<Rightarrow> ebind (readLegacyRegistration e) (\<lambda>l. ret (case l of LegacyState st \<Rightarrow> Some st | _ \<Rightarrow> None))) (\<lambda>leg2.
    ebind (readRosterFabricId e) (\<lambda>roster2.
    ebind (lift (resolveExistingFabricId js2 leg2 roster2)) (\<lambda>v2.
    agreed v2)))))))))))"

definition freshAdmission :: "henv \<Rightarrow> crypto_lib \<Rightarrow> join_args \<Rightarrow> string \<Rightarrow> string \<Rightarrow> string \<Rightarrow> join_report jeff" where
  "freshAdmission e cr a origin codeHash hostname = ebind (ensureDeviceSeed e) (\<lambda>key.
    ebind (lift (endpointIdHexFromSeed cr (fst key))) (\<lambda>root.
    ebind (existing_fabric e) (\<lambda>ex.
    ebind (selectFabricId e (ja_fabric a) ex) (\<lambda>fab.
    (let al = resolveSelfAlias (ja_alias a) hostname in
    ebind (servicesPreflight e origin) (\<lambda>pre.
    (case pre of
        RelayDisabled \<Rightarrow> throw (CliExit NoRelayEnabled 1)
      | PreflightError \<Rightarrow> throw (CliExit PreflightFailed 1)
      | Preflight sid relay \<Rightarrow> ebind (ask (he_now e)) (\<lambda>t.
        ebind (saveAdmissionJournal e \<lparr>jo_server = origin, jo_code_hash = codeHash, jo_fabric_id = fst fab, jo_root = root,
            jo_attempt = 1, jo_last_error = None, jo_ts = t\<rparr>) (\<lambda>_.
        ebind (ask (he_now e)) (\<lambda>t2.
        ebind (performRegister e cr origin (the (ja_code a)) (fst fab) root (fst key) (fst al)) (\<lambda>outc.
        settleRegister e cr outc
            \<lparr>jo_server = origin, jo_code_hash = codeHash, jo_fabric_id = fst fab, jo_root = root,
             jo_attempt = 1, jo_last_error = None, jo_ts = t2\<rparr>
            origin codeHash sid relay (fst al)
            \<lparr>lb_fabricOrigin = origin_text (snd fab), lb_aliasTruncated = snd al, lb_seedCreated = snd key, lb_recovered = None\<rparr>)))))))))))"

definition recoverPendingAdmission ::
  "henv \<Rightarrow> crypto_lib \<Rightarrow> join_args \<Rightarrow> string \<Rightarrow> string \<Rightarrow> journal \<Rightarrow> string \<Rightarrow> join_report jeff" where
  "recoverPendingAdmission e cr a origin codeHash j hostname =
     (if (case ja_fabric a of Some f \<Rightarrow> to_lower f \<noteq> jo_fabric_id j | None \<Rightarrow> False) then throw (CliExit PendingFabric 1)
      else if origin \<noteq> jo_server j then throw (CliExit PendingServer 1)
      else if codeHash \<noteq> jo_code_hash j then throw (CliExit PendingCode 1)
      else ebind (loadDeviceSeed e) (\<lambda>key.
        (case key of
           None \<Rightarrow> throw (CliExit KeyMismatch 1)
         | Some seed \<Rightarrow> ebind (lift (endpointIdHexFromSeed cr seed)) (\<lambda>root.
           if root \<noteq> jo_root j then throw (CliExit KeyMismatch 1)
             else ebind (servicesPreflight e (jo_server j)) (\<lambda>pre.
               (case pre of
                  Preflight sid relay \<Rightarrow> (let al = resolveSelfAlias (ja_alias a) hostname in
                    ebind (ask (he_now e)) (\<lambda>t.
                    (let replay = j\<lparr>jo_attempt := jo_attempt j + 1, jo_last_error := None, jo_ts := t\<rparr> in
                    ebind (saveAdmissionJournal e replay) (\<lambda>_.
                    ebind (performRegister e cr (jo_server j) (the (ja_code a)) (jo_fabric_id j) (jo_root j) seed (fst al)) (\<lambda>outc.
                    settleRegister e cr outc replay (jo_server j) codeHash sid relay (fst al)
                      \<lparr>lb_fabricOrigin = ''reused local fabric'', lb_aliasTruncated = snd al, lb_seedCreated = False,
                       lb_recovered = Some (jo_attempt replay)\<rparr>)))))
                | _ \<Rightarrow> give_up e j ''services preflight failed'' ReplayPreflight))))))"

definition admit :: "henv \<Rightarrow> crypto_lib \<Rightarrow> join_args \<Rightarrow> string \<Rightarrow> string \<Rightarrow> string \<Rightarrow> join_report jeff" where
  "admit e cr a origin codeHash hostname = ebind (loadAdmissionJournal e) (\<lambda>l.
    (case l of
        JournalCorrupt \<Rightarrow> throw (CliExit JournalDamaged 1)
      | Journal j \<Rightarrow> recoverPendingAdmission e cr a origin codeHash j hostname
      | JournalNone \<Rightarrow> freshAdmission e cr a origin codeHash hostname))"

definition server_arg :: "string \<Rightarrow> exit_why herr + string" where
  "server_arg raw = (case resolveServerArg raw of Inl er \<Rightarrow> Inl (CliExit (BadShortCode er) 2) | Inr u \<Rightarrow> Inr u)"

definition runJoin :: "henv \<Rightarrow> crypto_lib \<Rightarrow> string list \<Rightarrow> string \<Rightarrow> join_report jeff" where
  "runJoin e cr argv hostname = ebind (lift (parseJoinArgs argv)) (\<lambda>a.
    ebind (lift (server_arg (the (ja_server a)))) (\<lambda>url.
    ebind (validateServerUrl e url (ja_insecure a)) (\<lambda>origin.
    (case inviteCodeHashHex (the (ja_code a)) of
        None \<Rightarrow> throw (CliExit BadInviteCode 2)
      | Some codeHash \<Rightarrow> ebind (acquireFileLock e FABRIC_LOCK_FILE) (\<lambda>lock.
        (case lock of
             Refused h age \<Rightarrow> throw (CliExit (AdmissionBusy h) 1)
           | Locked token \<Rightarrow>
               finally_do (admit e cr a origin codeHash hostname) (release e FABRIC_LOCK_FILE token)))))))"

subsection \<open>The identity\<close>

definition abbreviateHex :: "string \<Rightarrow> 'x herr + string" where
  "abbreviateHex h = (if length h < 6 then Inl TypeErr else Inr (take 3 h @ ''***'' @ drop (length h - 3) h))"

record id_report =
  ir_endpoint :: string
  ir_short :: string
  ir_hostname :: string
  ir_leases :: "nat option"

definition runId :: "henv \<Rightarrow> crypto_lib \<Rightarrow> string \<Rightarrow> id_report jeff" where
  "runId e cr hostname = ebind (catch (loadDeviceSeed e) (\<lambda>er. throw (CliExit DeviceKeyError 1))) (\<lambda>key.
    (case key of
        None \<Rightarrow> throw (CliExit NoDeviceKey 1)
      | Some seed \<Rightarrow> ebind (lift (endpointIdHexFromSeed cr seed)) (\<lambda>ep.
        ebind (catch (ebind (loadLeases e) (\<lambda>js.
            ret (Some (length js)))) (\<lambda>er. ret None)) (\<lambda>n.
        ebind (lift (abbreviateHex ep)) (\<lambda>short.
        ret \<lparr>ir_endpoint = ep, ir_short = short, ir_hostname = machineName hostname, ir_leases = n\<rparr>)))))"

end
