(* ===== verification/JoinProps.thy ===== *)
theory JoinProps
  imports LeaseProps Join BlakeProps
begin

text \<open>
  The admission protocol: whatever happens to a join, a kill at any point included, this machine stays in
  one fabric, and no request for admission is ever forgotten.
\<close>

subsection \<open>States of an admission\<close>

definition posted :: "journal \<Rightarrow> hreq \<Rightarrow> bool" where
  "posted j q \<longleftrightarrow> hq_url q = jo_server j @ ''/register'' \<and>
     (\<exists>fs. hq_body q = Some (JObj fs) \<and> jget fs ''fabric_id'' = Some (JStr (jo_fabric_id j)) \<and>
        jget fs ''root'' = Some (JStr (jo_root j)))"

definition same_admission :: "journal \<Rightarrow> journal \<Rightarrow> bool" where
  "same_admission j j' \<longleftrightarrow> jo_server j' = jo_server j \<and> jo_code_hash j' = jo_code_hash j \<and>
     jo_fabric_id j' = jo_fabric_id j \<and> jo_root j' = jo_root j"

definition journal_here :: "journal \<Rightarrow> hnode option \<Rightarrow> bool" where
  "journal_here j nd \<longleftrightarrow> (\<exists>j'. journal_at nd = Journal j' \<and> same_admission j j')"

definition lease_here :: "journal \<Rightarrow> hnode option \<Rightarrow> bool" where
  "lease_here j nd \<longleftrightarrow>
     (\<exists>js. leases_at nd = Some js \<and> (\<exists>x \<in> set js. lease_for (jo_server j) (jo_fabric_id j) (jo_root j) x))"

text \<open>The admission that was asked for is in the journal or in the ledger.\<close>

definition accounted :: "(string \<Rightarrow> hnode option) \<Rightarrow> hreq \<Rightarrow> bool" where
  "accounted m q \<longleftrightarrow> (\<exists>j. posted j q \<and> (journal_here j (m ADMISSION_JOURNAL_FILE) \<or> lease_here j (m LEASES_FILE)))"

definition posts :: "hreq list \<Rightarrow> hreq list \<Rightarrow> (hreq \<Rightarrow> bool) \<Rightarrow> bool" where
  "posts s0 s A \<longleftrightarrow> (\<exists>ps. s = s0 @ ps \<and> (\<forall>q \<in> set ps. hq_method q = ''POST'' \<longrightarrow> A q))"

text \<open>All leases and the pending admission belong to one fabric, and the leases are well typed.\<close>

definition one_fabric :: "(string \<Rightarrow> hnode option) \<Rightarrow> bool" where
  "one_fabric m \<longleftrightarrow>
     (\<exists>f. hex64 f \<and> leases_in f (m LEASES_FILE) \<and> (\<forall>j. journal_at (m ADMISSION_JOURNAL_FILE) = Journal j \<longrightarrow> jo_fabric_id j = f))"

definition Inv :: "hreq list \<Rightarrow> home_pred" where
  "Inv s0 m s \<longleftrightarrow> one_fabric m \<and> posts s0 s (accounted m)"

definition Pending :: "hreq list \<Rightarrow> journal \<Rightarrow> home_pred" where
  "Pending s0 j m s \<longleftrightarrow> journal_ok j \<and> leases_in (jo_fabric_id j) (m LEASES_FILE) \<and>
     journal_here j (m ADMISSION_JOURNAL_FILE) \<and> posts s0 s (posted j)"

definition Idle :: "hreq list \<Rightarrow> string \<Rightarrow> home_pred" where
  "Idle s0 f m s \<longleftrightarrow> leases_in f (m LEASES_FILE) \<and> journal_at (m ADMISSION_JOURNAL_FILE) = JournalNone \<and> posts s0 s (\<lambda>q. False)"

definition Ready :: "hreq list \<Rightarrow> home_pred" where
  "Ready s0 m s \<longleftrightarrow> (\<exists>f. hex64 f \<and> Idle s0 f m s)"

definition Start :: "hreq list \<Rightarrow> home_pred" where
  "Start s0 m s \<longleftrightarrow> one_fabric m \<and> posts s0 s (\<lambda>q. False)"

definition Recorded :: "hreq list \<Rightarrow> journal \<Rightarrow> lease_input \<Rightarrow> json list \<times> json \<times> bool \<Rightarrow> home_pred" where
  "Recorded s0 j inp x m s \<longleftrightarrow> Pending s0 j m s \<and> leases_at (m LEASES_FILE) = Some (fst x) \<and> fst (snd x) \<in> set (fst x) \<and>
     lease_for (jo_server j) (jo_fabric_id j) (jo_root j) (fst (snd x)) \<and>
     has_field ''expires_at'' (JNum (li_expiresAt inp)) (fst (snd x)) \<and>
     has_field ''relay_url'' (JStr (li_relayUrl inp)) (fst (snd x)) \<and>
     has_field ''server_id'' (opt_str (li_serverId inp)) (fst (snd x)) \<and>
     has_field ''receipt'' (receipt_json (li_receipt inp)) (fst (snd x))"

text \<open>What a successful join leaves: a verified answer, its lease in the ledger, no journal.\<close>

definition joined :: "crypto_lib \<Rightarrow> string \<Rightarrow> join_report \<Rightarrow> (string \<Rightarrow> hnode option) \<Rightarrow> bool" where
  "joined cr codeHash rep m \<longleftrightarrow>
     (\<exists>a sid js. (verifyRegisterReceipt cr a sid :: unit herr + bool) = Inr True \<and>
        ra_codeHash a = codeHash \<and> ra_fabricId a = jr_fabric rep \<and> ra_root a = jr_root rep \<and>
        content_of (m ADMISSION_JOURNAL_FILE) = None \<and> leases_at (m LEASES_FILE) = Some js \<and> ml_entry (jr_lease rep) \<in> set js \<and>
        lease_for (jr_origin rep) (jr_fabric rep) (jr_root rep) (ml_entry (jr_lease rep)) \<and>
        has_field ''expires_at'' (JNum (ra_expiresAt a)) (ml_entry (jr_lease rep)) \<and>
        has_field ''relay_url'' (JStr (jr_relay rep)) (ml_entry (jr_lease rep)) \<and> has_field ''server_id'' (JStr sid) (ml_entry (jr_lease rep)) \<and>
        has_field ''receipt'' (receipt_json \<lparr>re_ts = ra_ts a, re_generation = ra_generation a, re_code_hash = codeHash,
          re_sig = ra_receiptSig a\<rparr>) (ml_entry (jr_lease rep)))"

definition Done :: "hreq list \<Rightarrow> crypto_lib \<Rightarrow> string \<Rightarrow> join_report \<Rightarrow> home_pred" where
  "Done s0 cr codeHash rep m s \<longleftrightarrow> Inv s0 m s \<and> joined cr codeHash rep m"

lemmas state_defs = Inv_def Pending_def Idle_def Ready_def Start_def Done_def one_fabric_def journal_here_def lease_here_def accounted_def
  joined_def Recorded_def

lemma dependsI: "(\<And>m m' s. m LEASES_FILE = m' LEASES_FILE \<Longrightarrow> m ADMISSION_JOURNAL_FILE = m' ADMISSION_JOURNAL_FILE \<Longrightarrow>
    P m s \<Longrightarrow> P m' s) \<Longrightarrow> depends tracked P"
  by (auto simp: depends_def)

lemma accounted_cong:
  "m LEASES_FILE = m' LEASES_FILE \<Longrightarrow> m ADMISSION_JOURNAL_FILE = m' ADMISSION_JOURNAL_FILE \<Longrightarrow> accounted m = accounted m'"
  by (rule ext) (simp add: accounted_def)

lemma states_depend [simp]:
  "depends tracked (Inv s0)" "depends tracked (Pending s0 j)" "depends tracked (Idle s0 f)" "depends tracked (Ready s0)"
  "depends tracked (Start s0)" "depends tracked (Done s0 cr h rep)" "depends tracked (Recorded s0 j inp x)"
  by (rule dependsI, frule (1) accounted_cong, simp add: state_defs)+

lemma posts_mono: "posts s0 s A \<Longrightarrow> (\<And>q. A q \<Longrightarrow> B q) \<Longrightarrow> posts s0 s B"
  by (auto simp: posts_def)

lemma posts_get: "posts s0 s A \<Longrightarrow> hq_method q \<noteq> ''POST'' \<or> A q \<Longrightarrow> posts s0 (s @ [q]) A"
  by (auto simp: posts_def)

lemma pending_inv: "Pending s0 j m s \<Longrightarrow> Inv s0 m s"
  unfolding Inv_def Pending_def one_fabric_def
  by (auto simp: journal_ok_def accounted_def journal_here_def same_admission_def intro!: exI [of _ "jo_fabric_id j"] elim!: posts_mono)

lemma idle_inv: "Idle s0 f m s \<Longrightarrow> hex64 f \<Longrightarrow> Inv s0 m s"
  unfolding Inv_def Idle_def one_fabric_def by (auto elim: posts_mono)

lemma states_entails [simp]:
  "entails (Pending s0 j) (Inv s0)" "entails (Ready s0) (Inv s0)" "entails (Start s0) (Inv s0)" "entails (Done s0 cr h rep) (Inv s0)"
  "entails (Recorded s0 j inp x) (Inv s0)"
  by (auto simp: entails_def pending_inv Ready_def idle_inv Done_def Recorded_def Start_def) (auto simp: Inv_def elim: posts_mono)

subsection \<open>Requests\<close>

lemma trip_preflight:
  assumes "entails P I" and "\<And>m s q. P m s \<Longrightarrow> hq_method q = ''GET'' \<Longrightarrow> P m (s @ [q])"
  shows "trip I P (servicesPreflight e origin) (\<lambda>_. P)"
  unfolding servicesPreflight_def
  by (rule trip_bind [where R = "\<lambda>_. P"], rule trip_fetch [OF assms(1)]) (auto simp: services_request_def intro: assms(2) trip_ret)

lemma get_steps:
  "Pending s0 j m s \<Longrightarrow> hq_method q = ''GET'' \<Longrightarrow> Pending s0 j m (s @ [q])"
  "Idle s0 f m s \<Longrightarrow> hq_method q = ''GET'' \<Longrightarrow> Idle s0 f m (s @ [q])"
  "Ready s0 m s \<Longrightarrow> hq_method q = ''GET'' \<Longrightarrow> Ready s0 m (s @ [q])"
  by (auto simp: Pending_def Idle_def Ready_def intro!: posts_get)

lemma trip_perform:
  "trip (Inv s0) (Pending s0 j) (performRegister e cr (jo_server j) code (jo_fabric_id j) (jo_root j) seed al) (\<lambda>_. Pending s0 j)"
proof -
  have post: "posted j (register_request (jo_server j) code al (jo_fabric_id j) (jo_root j) ts sig)" for ts sig
    by (cases al) (simp_all add: posted_def register_request_def jget_def)
  have send: "trip (Inv s0) (Pending s0 j) (fetch e (register_request (jo_server j) code al (jo_fabric_id j) (jo_root j) ts sig)) (\<lambda>_. Pending s0 j)"
    for ts sig
    by (rule trip_fetch) (use post in \<open>auto simp: Pending_def intro: posts_get\<close>)
  show ?thesis unfolding performRegister_def
    by (rule trip_bind [where R = "\<lambda>_. Pending s0 j"], rule trip_ask, assumption,
        rule trip_bind [where R = "\<lambda>_. Pending s0 j"], rule trip_lift, assumption, erule pending_inv,
        rule trip_bind [where R = "\<lambda>_. Pending s0 j"], rule trip_lift, assumption, erule pending_inv,
        rule trip_bind [OF send], rule trip_ret)
qed

subsection \<open>Settling\<close>

lemma journal_touched:
  "Pending s0 j m s \<Longrightarrow> same_admission j j' \<Longrightarrow> Pending s0 j (m(ADMISSION_JOURNAL_FILE \<mapsto> HFile (Doc (journal_json j')))) s"
  by (auto simp: Pending_def journal_here_def same_admission_def journal_ok_def journal_at_doc intro!: exI [of _ j'])

lemma trip_give_up: "trip (Inv s0) (Pending s0 j) (give_up e j why reason) Q"
proof -
  have save: "trip (Inv s0) (Pending s0 j) (saveAdmissionJournal e (j\<lparr>jo_last_error := Some why, jo_ts := t\<rparr>)) (\<lambda>_. Pending s0 j)" for t
    by (rule trip_saveJournal) (auto simp: same_admission_def intro: journal_touched)
  have "trip (Inv s0) (Pending s0 j) (failKeepJournal e j why) (\<lambda>_. Pending s0 j)"
    unfolding failKeepJournal_def
    by (rule trip_bind [where R = "\<lambda>_. Pending s0 j"], rule trip_ask, assumption, rule save)
  then show ?thesis unfolding give_up_def
    by (rule trip_bind) (rule trip_throw, simp)
qed

lemma merged_all:
  "merged_ok inp js x \<Longrightarrow> list_all (lease_ok (li_fabricId inp)) js \<Longrightarrow>
     list_all (lease_ok (li_fabricId inp)) (fst x) \<and> fst (snd x) \<in> set (fst x)"
  by (cases x) (auto simp: merged_ok_def list_all_iff in_set_conv_nth set_update_memI dest!: set_update_subset_insert [THEN subsetD]
      split: if_splits)

lemma trip_record:
  assumes quiet: "quiet e tracked" and origin: "jo_server j = origin"
    and ver: "(verifyRegisterReceipt cr a sid :: unit herr + bool) = Inr True"
    and same: "ra_codeHash a = codeHash" "ra_fabricId a = jo_fabric_id j" "ra_root a = jo_root j"
  shows "trip (Inv s0) (Pending s0 j) (record_lease e j origin sid relay al a lb) (Done s0 cr codeHash)"
proof -
  let ?inp = "lease_of j origin relay sid al a"
  have inp: "li_fabricId ?inp = jo_fabric_id j" "li_root ?inp = jo_root j" "li_server ?inp = jo_server j"
    "li_expiresAt ?inp = ra_expiresAt a" "li_relayUrl ?inp = relay" "opt_str (li_serverId ?inp) = JStr sid"
    by (simp_all add: lease_of_def origin opt_str_def)
  show ?thesis
  proof (cases "journal_ok j")
    case False
    then show ?thesis by (simp add: trip_def Pending_def)
  next
    case True
    then have root: "hex64 (li_root ?inp)" by (simp add: inp journal_ok_def)
    have up: "trip (Inv s0) (Pending s0 j) (upsertLease e ?inp :: merged_lease jeff) (\<lambda>r m s. \<exists>x. Recorded s0 j ?inp x m s \<and>
        ml_entry r = fst (snd x) \<and> ml_created r = snd (snd x) \<and> ml_total r = length (fst x))"
    proof (rule trip_upsert [OF _ quiet _ _ root])
      fix m s js x
      assume p: "Pending s0 j m s" and js: "leases_at (m LEASES_FILE) = Some js" and x: "merged_ok ?inp js x"
      from p js have "list_all (lease_ok (li_fabricId ?inp)) js" by (simp add: Pending_def leases_in_def inp)
      from merged_all [OF x this] x p
      show "Recorded s0 j ?inp x (m(LEASES_FILE \<mapsto> HFile (ledger_doc ''leases'' (fst x)))) s"
        by (cases x) (auto simp: Recorded_def Pending_def leases_in_def inp merged_ok_def)
    next
      fix m s assume "Pending s0 j m s" then show "leases_in (li_fabricId ?inp) (m LEASES_FILE)" by (simp add: Pending_def inp)
    qed simp_all
    show ?thesis unfolding record_lease_def
    proof (rule trip_bind [OF up])
      fix r :: merged_lease
      let ?D = "\<lambda>m s. Inv s0 m s \<and> (\<exists>js. leases_at (m LEASES_FILE) = Some js \<and> ml_entry r \<in> set js) \<and> m ADMISSION_JOURNAL_FILE = None \<and>
        lease_for (jo_server j) (jo_fabric_id j) (jo_root j) (ml_entry r) \<and>
        has_field ''expires_at'' (JNum (ra_expiresAt a)) (ml_entry r) \<and> has_field ''relay_url'' (JStr relay) (ml_entry r) \<and>
        has_field ''server_id'' (JStr sid) (ml_entry r) \<and>
        has_field ''receipt'' (receipt_json (li_receipt ?inp)) (ml_entry r)"
      have clear: "trip (Inv s0) (\<lambda>m s. \<exists>x. Recorded s0 j ?inp x m s \<and> ml_entry r = fst (snd x) \<and> ml_created r = snd (snd x) \<and>
          ml_total r = length (fst x)) (clearAdmissionJournal e :: unit jeff) (\<lambda>_. ?D)"
        unfolding clearAdmissionJournal_def
      proof (rule trip_rm)
        fix m s
        assume "\<exists>x. Recorded s0 j ?inp x m s \<and> ml_entry r = fst (snd x) \<and> ml_created r = snd (snd x) \<and> ml_total r = length (fst x)"
        then obtain x where x: "Recorded s0 j ?inp x m s" "ml_entry r = fst (snd x)" by blast
        let ?m = "m(ADMISSION_JOURNAL_FILE := None)"
        have "accounted ?m q" if "posted j q" for q
          using that x unfolding accounted_def lease_here_def Recorded_def by (auto intro!: exI [of _ j])
        then have "posts s0 s (accounted ?m)" using x by (auto simp: Recorded_def Pending_def elim: posts_mono)
        moreover have "one_fabric ?m"
          using x True by (auto simp: Recorded_def Pending_def one_fabric_def journal_ok_def journal_at_def parse_journal_def)
        ultimately show "?D ?m s" using x by (auto simp: Inv_def Recorded_def inp)
      qed (auto simp: entails_def Recorded_def pending_inv)
      show "trip (Inv s0) (\<lambda>m s. \<exists>x. Recorded s0 j ?inp x m s \<and> ml_entry r = fst (snd x) \<and> ml_created r = snd (snd x) \<and>
          ml_total r = length (fst x))
        (ebind (clearAdmissionJournal e) (\<lambda>_. if MAX_DATE_MS < ra_expiresAt a then throw (Fail ''Invalid time value'')
           else ret \<lparr>jr_origin = origin, jr_recovered = lb_recovered lb, jr_root = jo_root j, jr_alias = al, jr_fabric = jo_fabric_id j,
            jr_fabric_text = fabric_text (lb_fabricOrigin lb), jr_relay = relay, jr_generation = ra_generation a, jr_lease = r,
            jr_alias_cut = lb_aliasTruncated lb, jr_new_key = lb_seedCreated lb\<rparr>) :: join_report jeff) (Done s0 cr codeHash)"
        by (rule trip_bind [where R = "\<lambda>_. ?D"], rule clear, rule trip_if, rule trip_throw, simp add: entails_def,
            rule trip_ret, unfold Done_def joined_def, rule conjI, simp, rule exI [of _ a], rule exI [of _ sid])
          (use ver same origin in \<open>auto simp: lease_of_def\<close>)
    qed
  qed
qed

lemma trip_settle_answer:
  assumes quiet: "quiet e tracked" and origin: "jo_server j = origin"
  shows "trip (Inv s0) (Pending s0 j) (settle_answer e cr a j origin codeHash sid relay al lb) (Done s0 cr codeHash)"
proof (cases "verifyRegisterReceipt cr a sid :: unit herr + bool")
  case (Inl er)
  then show ?thesis by (simp add: settle_answer_def trip_give_up)
next
  case (Inr ok)
  have go: "trip (Inv s0) (Pending s0 j) (ebind (servicesPreflight e origin) (\<lambda>recheck.
      if recheck \<noteq> Preflight sid relay then give_up e j ''services re-check'' RecheckFailed
      else record_lease e j origin sid relay al a lb)) (Done s0 cr codeHash)"
    if "ok" "\<not> (ra_fabricId a \<noteq> jo_fabric_id j \<or> ra_root a \<noteq> jo_root j)" "\<not> ra_codeHash a \<noteq> codeHash"
    by (rule trip_bind [OF trip_preflight], simp, erule get_steps(1), assumption, rule trip_if, rule trip_give_up,
        rule trip_record [OF quiet origin]) (use Inr that in simp_all)
  show ?thesis
  proof (cases ok)
    case True
    have "settle_answer e cr a j origin codeHash sid relay al lb =
        (if ra_fabricId a \<noteq> jo_fabric_id j \<or> ra_root a \<noteq> jo_root j
         then give_up e j ''receipt tuple does not match this admission'' ReceiptMismatch
         else if ra_codeHash a \<noteq> codeHash
         then give_up e j ''receipt code_hash does not match the normalized invite code'' ReceiptCode
         else ebind (servicesPreflight e origin) (\<lambda>recheck.
           if recheck \<noteq> Preflight sid relay then give_up e j ''services re-check'' RecheckFailed
           else record_lease e j origin sid relay al a lb))"
      by (simp only: settle_answer_def Inr sum.case True if_True bool.case)
    then show ?thesis
      by (rule ssubst) (rule trip_if, rule trip_give_up, rule trip_if, rule trip_give_up, rule go [OF True])
  next
    case False
    then show ?thesis unfolding settle_answer_def Inr by (simp add: trip_give_up)
  qed
qed

lemma trip_settle:
  assumes "quiet e tracked" and "jo_server j = origin"
  shows "trip (Inv s0) (Pending s0 j) (settleRegister e cr outc j origin codeHash sid relay al lb) (Done s0 cr codeHash)"
  using trip_settle_answer [OF assms] by (cases outc) (simp_all add: settleRegister_def trip_give_up)

subsection \<open>The fabric of this machine\<close>

lemma resolve_agreed:
  assumes r: "resolveExistingFabricId js leg roster = (Inr (Agreed ex) :: 'x herr + fabric_view)"
    and js: "list_all (lease_ok f) js" and f: "hex64 f" and roster: "\<forall>x. roster = Some x \<longrightarrow> hex64 x"
  shows "case ex of Some x \<Rightarrow> hex64 x \<and> (js \<noteq> [] \<longrightarrow> x = f) | None \<Rightarrow> js = []"
proof -
  let ?rest = "(case leg of None \<Rightarrow> [] | Some st \<Rightarrow> opt_list (hex_field st ''fabric_id'')) @ opt_list roster"
  have rest: "\<forall>x \<in> set ?rest. hex64 x"
    using roster by (auto simp: opt_list_def dest: hex_fieldD hex_fieldD [OF sym] split: option.splits)
  show ?thesis
  proof (cases js)
    case Nil
    have u: "ex = (if uniq ?rest = [] then None else Some (hd (uniq ?rest)))"
      using r by (auto simp: resolveExistingFabricId_def lease_fabric_def Nil opt_list_def [of None] Let_def split: if_splits)
    have "hex64 (hd (uniq ?rest))" if "uniq ?rest \<noteq> []"
      using rest hd_in_set [OF that] by simp
    with u Nil show ?thesis by auto
  next
    case (Cons j js')
    with js obtain fs where j: "j = JObj fs" "jget fs ''fabric_id'' = Some (JStr f)" by (auto simp: lease_ok_def)
    have u: "ex = Some (hd (uniq (f # ?rest)))" "length (uniq (f # ?rest)) \<le> 1"
      using r f by (auto simp: resolveExistingFabricId_def lease_fabric_def Cons j prop_of_def opt_list_def [of "Some f"] Let_def split: if_splits)
        (metis empty_iff list.set(1) list.set_intros(1) uniq_simps(1))
    have "f \<in> set (uniq (f # ?rest))" by simp
    with u(2) have "hd (uniq (f # ?rest)) = f"
      by (cases "uniq (f # ?rest)") (auto simp: length_Suc_conv)
    with u(1) f show ?thesis by simp
  qed
qed

lemma trip_roster:
  "entails P I \<Longrightarrow> trip I P (readRosterFabricId e :: string option jeff) (\<lambda>r m s. P m s \<and> (\<forall>x. r = Some x \<longrightarrow> hex64 x))"
  unfolding readRosterFabricId_def
  by (rule trip_bind [OF trip_readFile], assumption, rule trip_ret)
    (auto simp: Let_def split: option.splits content.splits if_splits)

lemma trip_legacy: "entails P I \<Longrightarrow> trip I P (readLegacyRegistration e :: legacy jeff) (\<lambda>_. P)"
  unfolding readLegacyRegistration_def by (rule trip_bind [OF trip_readFile]) (auto intro: trip_ret)

lemma trip_preview: "entails P I \<Longrightarrow> trip I P (preview e leg js) (\<lambda>_. P)"
proof -
  assume b: "entails P I"
  have "trip I P (ebind (leasesFileExists e) (\<lambda>ex. if ex then ret (js, Some st)
      else ebind (buildLegacyLeaseEntry e st None None []) (\<lambda>built.
        ret (case built of Some entry \<Rightarrow> ([entry], None) | None \<Rightarrow> (js, Some st)))) :: (json list \<times> (string \<times> json) list option) jeff) (\<lambda>_. P)"
    for st
    by (rule trip_bind [OF trip_exists [OF b]], rule trip_if, rule trip_ret, assumption,
        rule trip_bind [OF legacy_entry_ok], rule trip_ret) simp
  then show ?thesis by (cases leg) (auto simp: preview_def intro: trip_ret)
qed

lemma trip_agreed: "entails P I \<Longrightarrow> trip I P (agreed v) (\<lambda>r m s. P m s \<and> v = Agreed r)"
  by (cases v) (auto simp: agreed_def intro: trip_ret trip_throw)

text \<open>What the look at the local state finds out.\<close>

definition Known :: "hreq list \<Rightarrow> string option \<Rightarrow> home_pred" where
  "Known s0 ex m s \<longleftrightarrow> (case ex of Some f \<Rightarrow> hex64 f \<and> Idle s0 f m s | None \<Rightarrow> \<forall>f. Idle s0 f m s)"

lemma ready_migrates:
  "Ready s0 m s \<Longrightarrow> hex64 f \<Longrightarrow> lease_ok f j \<Longrightarrow> Ready s0 (m(LEASES_FILE \<mapsto> HFile (ledger_doc ''leases'' [j]))) s"
  by (auto simp: Ready_def Idle_def leases_in_def)

lemma known_fabric:
  assumes "Ready s0 m s" and "leases_at (m LEASES_FILE) = Some js" and "resolveExistingFabricId js leg roster = (Inr (Agreed ex) :: 'x herr + fabric_view)"
    and "\<forall>x. roster = Some x \<longrightarrow> hex64 x"
  shows "Known s0 ex m s"
proof -
  from assms(1) obtain f where f: "hex64 f" "leases_in f (m LEASES_FILE)" "Idle s0 f m s" by (auto simp: Ready_def Idle_def)
  then have ok: "list_all (lease_ok f) js" using assms(2) by (simp add: leases_in_def)
  note r = resolve_agreed [OF assms(3) ok f(1) assms(4)]
  show ?thesis
  proof (cases "js = []")
    case True
    then have "leases_in x (m LEASES_FILE)" for x using assms(2) by (simp add: leases_in_def)
    with f(3) have "Idle s0 x m s" for x by (simp add: Idle_def)
    with r show ?thesis by (auto simp: Known_def split: option.splits)
  next
    case False
    with r f show ?thesis by (auto simp: Known_def split: option.splits)
  qed
qed

lemma known_ready: "Known s0 ex m s \<Longrightarrow> Ready s0 m s"
proof -
  assume k: "Known s0 ex m s"
  have "hex64 (replicate 64 CHR ''0'')" by (simp add: hex_between_def is_hex_def is_digit_def list_all_iff)
  with k show ?thesis by (cases ex) (auto simp: Known_def Ready_def)
qed

lemma trip_existing:
  assumes quiet: "quiet e tracked"
  shows "trip (Inv s0) (Ready s0) (existing_fabric e) (Known s0)"
proof -
  let ?I = "Inv s0" and ?P = "Ready s0"
  note entails = states_entails(2) [of s0]
  have mig: "trip ?I ?P (migrateLegacyRegistration e None :: migration jeff) (\<lambda>_. ?P)"
    by (rule trip_migrate [OF _ quiet entails]) (auto intro: ready_migrates get_steps)
  have again: "trip ?I (\<lambda>m s. ?P m s \<and> A m) ((case mg of Migrated j \<Rightarrow> ret None
      | _ \<Rightarrow> ebind (readLegacyRegistration e) (\<lambda>l. ret (case l of LegacyState st \<Rightarrow> Some st | _ \<Rightarrow> None))) :: (string \<times> json) list option jeff)
      (\<lambda>_ m s. ?P m s \<and> A m)" for mg A
  proof -
    have b: "entails (\<lambda>m s. ?P m s \<and> A m) ?I" using entails by (simp add: entails_def)
    show ?thesis by (cases mg) (auto intro!: trip_ret trip_bind [OF trip_legacy [OF b]])
  qed
  have second: "trip ?I ?P (ebind (loadLeases e) (\<lambda>js2. ebind (case mg of Migrated j \<Rightarrow> ret None
      | _ \<Rightarrow> ebind (readLegacyRegistration e) (\<lambda>l. ret (case l of LegacyState st \<Rightarrow> Some st | _ \<Rightarrow> None))) (\<lambda>leg2.
      ebind (readRosterFabricId e) (\<lambda>roster2. ebind (lift (resolveExistingFabricId js2 leg2 roster2)) agreed))) :: string option jeff) (Known s0)" for mg
  proof (rule trip_bind [OF trip_loadLeases [OF entails]], rule trip_bind [OF again])
    fix js2 :: "json list" and leg2 :: "(string \<times> json) list option"
    let ?R = "\<lambda>m s. ?P m s \<and> leases_at (m LEASES_FILE) = Some js2"
    have b: "entails ?R ?I" using entails by (simp add: entails_def)
    show "trip ?I ?R (ebind (readRosterFabricId e) (\<lambda>roster2. ebind (lift (resolveExistingFabricId js2 leg2 roster2)) agreed) :: string option jeff) (Known s0)"
    proof (rule trip_bind [OF trip_roster [OF b]])
      fix roster2
      let ?S = "\<lambda>v m s. (?R m s \<and> (\<forall>x. roster2 = Some x \<longrightarrow> hex64 x)) \<and> (resolveExistingFabricId js2 leg2 roster2 :: exit_why herr + fabric_view) = Inr v"
      have ag: "trip ?I (?S v) (agreed v) (Known s0)" for v
      proof (rule trip_post [OF trip_agreed])
        show "entails (?S v) ?I" using entails by (simp add: entails_def)
      qed (auto intro: known_fabric)
      show "trip ?I (\<lambda>m s. ?R m s \<and> (\<forall>x. roster2 = Some x \<longrightarrow> hex64 x))
          (ebind (lift (resolveExistingFabricId js2 leg2 roster2)) agreed :: string option jeff) (Known s0)"
        by (rule trip_bind [where R = ?S], rule trip_lift) (use entailsD [OF entails] ag in auto)
    qed
  qed
  show ?thesis unfolding existing_fabric_def
  proof (rule trip_bind [OF trip_post [OF trip_loadLeases [OF entails], where Q = "\<lambda>_. ?P"]], simp,
      rule trip_bind [OF trip_legacy [OF entails]], rule trip_bind [OF trip_post [OF trip_roster [OF entails], where Q = "\<lambda>_. ?P"]], simp,
      rule trip_bind [OF trip_preview [OF entails]], rule trip_bind [where R = "\<lambda>_. ?P"])
    fix js leg roster seen
    show "trip ?I ?P (lift (resolveExistingFabricId (fst seen) (snd seen) roster) :: fabric_view jeff) (\<lambda>_. ?P)"
      by (rule trip_lift) (use entailsD [OF entails] in auto)
    fix v
    have ag: "trip ?I ?P (agreed v) (\<lambda>_. ?P)" by (rule trip_post [OF trip_agreed [OF entails]]) simp
    show "trip ?I ?P (ebind (agreed v) (\<lambda>_. ebind (migrateLegacyRegistration e None) (\<lambda>mig. ebind (loadLeases e) (\<lambda>js2.
        ebind (case mig of Migrated j \<Rightarrow> ret None
          | _ \<Rightarrow> ebind (readLegacyRegistration e) (\<lambda>l. ret (case l of LegacyState st \<Rightarrow> Some st | _ \<Rightarrow> None))) (\<lambda>leg2.
        ebind (readRosterFabricId e) (\<lambda>roster2. ebind (lift (resolveExistingFabricId js2 leg2 roster2)) agreed))))) :: string option jeff) (Known s0)"
      by (rule trip_bind [OF ag], rule trip_bind [OF mig], rule second)
  qed
qed

subsection \<open>Admission\<close>

lemma lower_hex64: "any_hex64 s \<Longrightarrow> hex64 (to_lower s)"
  by (simp add: any_hex64_def hex_between_def to_lower_def list_all_iff)

lemma bytes_hex64: "length bs = 32 \<Longrightarrow> hex64 (bytes_hex bs)"
proof -
  have two: "length (byte_hex b) = 2 \<and> list_all is_hex (byte_hex b)" for b
    using unat_byte [of b] by (simp add: byte_hex_def hex_char_hex div_less_iff_less_mult)
  have "length (bytes_hex bs) = 2 * length bs \<and> list_all is_hex (bytes_hex bs)"
    by (induction bs) (simp_all add: bytes_hex_def two)
  then show "length bs = 32 \<Longrightarrow> hex64 (bytes_hex bs)" by (simp add: hex_between_def)
qed

lemma trip_select:
  assumes "\<And>x. ex = Some x \<Longrightarrow> hex64 x" and "entails P I"
  shows "trip I P (selectFabricId e flag ex) (\<lambda>r m s. P m s \<and> hex64 (fst r) \<and> (\<forall>x. ex = Some x \<longrightarrow> fst r = x))"
proof -
  have rnd: "trip I P (ebind (random_bytes e 32) (\<lambda>bs. ret (bytes_hex bs, FreshFabric)) :: (string \<times> fabric_origin) jeff)
    (\<lambda>r m s. P m s \<and> hex64 (fst r))"
    unfolding random_bytes_def
    by (rule trip_bind [where R = "\<lambda>bs m s. P m s \<and> length bs = 32"], rule trip_ask, simp, rule trip_ret) (simp add: bytes_hex64)
  show ?thesis
    using assms by (auto simp: selectFabricId_def Let_def lower_hex64 split: option.splits intro!: trip_throw trip_ret rnd)
qed

lemma trip_seed: "entails P I \<Longrightarrow> trip I P (loadDeviceSeed e :: bytes option jeff) (\<lambda>_. P)"
proof -
  assume b: "entails P I"
  have read: "trip I P (catch (readFile e KEY_FILE_NAME) (\<lambda>er. throw (Fail ''failed to read device key'')) :: content option jeff) (\<lambda>_. P)"
    by (rule trip_catch [where J = P], rule trip_post [OF trip_readFile]) (use b in \<open>auto intro: trip_throw\<close>)
  show ?thesis unfolding loadDeviceSeed_def
    by (rule trip_bind [OF read]) (use b in \<open>auto intro!: trip_ret trip_throw split: option.split content.split\<close>)
qed

lemma key_not_tracked [simp]:
  "seed_temp e k \<notin> tracked" "KEY_FILE_NAME \<notin> tracked" "seed_temp e k \<noteq> LEASES_FILE" "seed_temp e k \<noteq> ADMISSION_JOURNAL_FILE"
  "KEY_FILE_NAME \<noteq> LEASES_FILE" "KEY_FILE_NAME \<noteq> ADMISSION_JOURNAL_FILE"
  by (simp_all add: seed_temp_def KEY_FILE_NAME_def file_names)

lemma blind_upd: "blind f P \<Longrightarrow> P m s \<Longrightarrow> P (m(f := v)) s"
  by (simp add: blind_def)

lemma trip_ensure:
  assumes d: "depends tracked P" and b: "entails P I"
  shows "trip I P (ensureDeviceSeed e :: (bytes \<times> bool) jeff) (\<lambda>_. P)"
proof -
  have tmp: "blind (seed_temp e k) P" for k by (rule depends_blind [OF d]) simp
  have key: "blind KEY_FILE_NAME P" by (rule depends_blind [OF d]) simp
  have rm: "trip J P (rm_force e (seed_temp e k) :: unit jeff) (\<lambda>_. P)" if "entails P J" for k J
    by (rule trip_rm [OF that]) (rule blind_upd [OF tmp])
  have link: "trip J P (link_new e (seed_temp e k) KEY_FILE_NAME :: bool jeff) (\<lambda>_. P)" if "entails P J" for k J
    unfolding link_new_def
    by (rule trip_io [OF that]) (use blind_upd [OF key] entailsD [OF that] in \<open>auto split: option.splits if_splits\<close>)
  have open_ex: "trip P P (open_excl e (seed_temp e k) :: bool jeff) (\<lambda>_. P)" for k
    by (rule trip_post [OF trip_open [OF entails_refl]]) (use blind_upd [OF tmp] in \<open>auto split: if_splits\<close>)
  have wrt: "trip P P (write_open e (seed_temp e k) c :: unit jeff) (\<lambda>_. P)" for k c
    by (rule trip_write_open [OF entails_refl]) (rule blind_upd [OF tmp])
  have create: "trip P P (createSeedFile e seed :: bool jeff) (\<lambda>_. P)" for seed
  proof -
    have nt: "trip P P (next_temp :: nat jeff) (\<lambda>_. P)" by (simp add: trip_def next_temp_def)
    have linked: "trip P P (catch (link_new e (seed_temp e k) KEY_FILE_NAME) (\<lambda>er. ebind (rm_force e (seed_temp e k)) (\<lambda>_. throw er)) :: bool jeff)
        (\<lambda>_. P)" for k
      by (rule trip_catch [OF link [OF entails_refl] entails_refl], rule trip_bind [OF rm [OF entails_refl]], rule trip_throw) simp
    show ?thesis unfolding createSeedFile_def Let_def
      by (rule trip_bind [OF trip_nop [OF entails_refl]], rule trip_bind [OF nt], rule trip_bind [OF open_ex], rule trip_if,
          rule trip_ret, assumption, rule trip_bind [OF wrt], rule trip_bind [OF linked], rule trip_bind [OF rm [OF entails_refl]],
          rule trip_ret)
  qed
  have new: "trip I P (catch (createSeedFile e seed) (\<lambda>er. throw (Fail ''failed to write device key'')) :: bool jeff) (\<lambda>_. P)" for seed
    by (rule trip_catch [OF create b], rule trip_throw) (rule b)
  have winner: "trip I P (ebind (loadDeviceSeed e) (\<lambda>w. case w of Some s \<Rightarrow> ret (s, False)
      | None \<Rightarrow> throw (Fail ''failed to write device key'')) :: (bytes \<times> bool) jeff) (\<lambda>_. P)"
    by (rule trip_bind [OF trip_seed [OF b]]) (use b in \<open>auto intro!: trip_ret trip_throw split: option.split\<close>)
  have fresh: "trip I P (ebind (random_bytes e SEED_LEN) (\<lambda>seed.
      ebind (catch (createSeedFile e seed) (\<lambda>er. throw (Fail ''failed to write device key''))) (\<lambda>ok.
      if ok then ret (seed, True) else ebind (loadDeviceSeed e) (\<lambda>w. case w of Some s \<Rightarrow> ret (s, False)
        | None \<Rightarrow> throw (Fail ''failed to write device key'')))) :: (bytes \<times> bool) jeff) (\<lambda>_. P)"
    unfolding random_bytes_def
    by (rule trip_bind [where R = "\<lambda>_. P"], rule trip_ask, assumption, rule trip_bind [OF new], rule trip_if, rule trip_ret, assumption, rule winner)
  show ?thesis unfolding ensureDeviceSeed_def
    by (rule trip_bind [OF trip_seed [OF b]]) (use fresh in \<open>auto intro!: trip_ret split: option.split\<close>)
qed

definition good_keys :: "crypto_lib \<Rightarrow> bool" where
  "good_keys cr \<longleftrightarrow> (\<forall>seed. length (cr_public cr seed) = 32)"

lemma trip_endpoint:
  assumes "good_keys cr" and "entails P I"
  shows "trip I P (lift (endpointIdHexFromSeed cr seed) :: string jeff) (\<lambda>r m s. P m s \<and> hex64 r)"
  using assms by (intro trip_lift) (auto simp: endpointIdHexFromSeed_def good_keys_def bytes_hex64 dest: entailsD split: if_splits)

lemma journal_starts:
  assumes "journal_ok j" and "Idle s0 (jo_fabric_id j) m s"
  shows "Pending s0 j (m(ADMISSION_JOURNAL_FILE \<mapsto> HFile (Doc (journal_json j)))) s"
  using assms by (auto simp: Pending_def Idle_def journal_here_def journal_at_doc same_admission_def elim: posts_mono)

lemma trip_fresh:
  assumes quiet: "quiet e tracked" and keys: "good_keys cr" and h: "hex64 codeHash"
  shows "trip (Inv s0) (Ready s0) (freshAdmission e cr a origin codeHash hostname) (Done s0 cr codeHash)"
proof -
  let ?I = "Inv s0"
  have send: "trip ?I (\<lambda>m s. Idle s0 f m s \<and> hex64 f) (ebind (ask (he_now e)) (\<lambda>t.
      ebind (saveAdmissionJournal e \<lparr>jo_server = origin, jo_code_hash = codeHash, jo_fabric_id = f, jo_root = root,
        jo_attempt = 1, jo_last_error = None, jo_ts = t\<rparr>) (\<lambda>_. ebind (ask (he_now e)) (\<lambda>t2.
      ebind (performRegister e cr origin (the (ja_code a)) f root seed al) (\<lambda>outc.
      settleRegister e cr outc \<lparr>jo_server = origin, jo_code_hash = codeHash, jo_fabric_id = f, jo_root = root,
        jo_attempt = 1, jo_last_error = None, jo_ts = t2\<rparr> origin codeHash sid relay al lb)))) :: join_report jeff) (Done s0 cr codeHash)"
    if root: "hex64 root" for f root seed al sid relay lb
  proof -
    let ?j = "\<lambda>t. \<lparr>jo_server = origin, jo_code_hash = codeHash, jo_fabric_id = f, jo_root = root,
        jo_attempt = 1, jo_last_error = None, jo_ts = t\<rparr>"
    let ?P = "\<lambda>m s. Idle s0 f m s \<and> hex64 f"
    have save: "trip ?I ?P (saveAdmissionJournal e (?j t) :: unit jeff) (\<lambda>_ m s. \<forall>t. Pending s0 (?j t) m s)" for t
    proof (rule trip_saveJournal)
      show "depends tracked ?P" by (rule dependsI) (simp add: Idle_def)
      show "entails ?P ?I" by (auto simp: entails_def idle_inv)
      fix m s assume p: "Idle s0 f m s \<and> hex64 f"
      then have "Pending s0 (?j t) (m(ADMISSION_JOURNAL_FILE \<mapsto> HFile (Doc (journal_json (?j t))))) s"
        using root h by (intro journal_starts) (auto simp: journal_ok_def)
      then show "\<forall>t'. Pending s0 (?j t') (m(ADMISSION_JOURNAL_FILE \<mapsto> HFile (Doc (journal_json (?j t))))) s"
        by (auto simp: Pending_def journal_ok_def journal_here_def same_admission_def posted_def elim: posts_mono)
    qed
    have send: "trip ?I (Pending s0 (?j t)) (performRegister e cr origin (the (ja_code a)) f root seed al :: outcome jeff) (\<lambda>_. Pending s0 (?j t))" for t
      using trip_perform [of s0 "?j t" e cr "the (ja_code a)" seed al] by simp
    show ?thesis
      by (rule trip_bind [where R = "\<lambda>_. ?P"], rule trip_ask, assumption, rule trip_bind [OF save],
          rule trip_bind [where R = "\<lambda>t2. Pending s0 (?j t2)"], rule trip_ask, erule spec, rule trip_bind [OF send],
          rule trip_settle [OF quiet]) simp
  qed
  have known: "trip ?I (Known s0 ex) (ebind (selectFabricId e (ja_fabric a) ex) (\<lambda>fab. ebind (servicesPreflight e origin) (\<lambda>pre.
      case pre of RelayDisabled \<Rightarrow> throw (CliExit NoRelayEnabled 1) | PreflightError \<Rightarrow> throw (CliExit PreflightFailed 1)
      | Preflight sid relay \<Rightarrow> ebind (ask (he_now e)) (\<lambda>t.
          ebind (saveAdmissionJournal e \<lparr>jo_server = origin, jo_code_hash = codeHash, jo_fabric_id = fst fab, jo_root = root,
            jo_attempt = 1, jo_last_error = None, jo_ts = t\<rparr>) (\<lambda>_. ebind (ask (he_now e)) (\<lambda>t2.
          ebind (performRegister e cr origin (the (ja_code a)) (fst fab) root seed al) (\<lambda>outc.
          settleRegister e cr outc \<lparr>jo_server = origin, jo_code_hash = codeHash, jo_fabric_id = fst fab, jo_root = root,
            jo_attempt = 1, jo_last_error = None, jo_ts = t2\<rparr> origin codeHash sid relay al (lb fab))))))) :: join_report jeff)
      (Done s0 cr codeHash)" if root: "hex64 root" for ex root seed al lb
  proof -
    have bk: "entails (Known s0 ex) ?I" using states_entails(2) [of s0] known_ready by (auto simp: entails_def)
    have sel: "trip ?I (Known s0 ex) (selectFabricId e (ja_fabric a) ex) (\<lambda>fab m s. Idle s0 (fst fab) m s \<and> hex64 (fst fab))"
    proof (cases "\<forall>x. ex = Some x \<longrightarrow> hex64 x")
      case True
      show ?thesis
        by (rule trip_post [OF trip_select [OF _ bk]]) (use True in \<open>auto simp: Known_def split: option.splits\<close>)
    next
      case False
      then show ?thesis by (auto simp: trip_def Known_def)
    qed
    have pre: "trip ?I (\<lambda>m s. Idle s0 f m s \<and> hex64 f) (servicesPreflight e origin) (\<lambda>_ m s. Idle s0 f m s \<and> hex64 f)" for f
      by (rule trip_preflight) (auto simp: entails_def idle_inv get_steps)
    show ?thesis
    proof (rule trip_bind [OF sel], rule trip_bind [OF pre])
      fix fab :: "string \<times> fabric_origin" and p :: preflight
      have stop: "trip ?I (\<lambda>m s. Idle s0 (fst fab) m s \<and> hex64 (fst fab)) (throw er :: join_report jeff) (Done s0 cr codeHash)" for er
        by (rule trip_throw) (auto simp: entails_def idle_inv)
      show "trip ?I (\<lambda>m s. Idle s0 (fst fab) m s \<and> hex64 (fst fab)) ((case p of RelayDisabled \<Rightarrow> throw (CliExit NoRelayEnabled 1)
          | PreflightError \<Rightarrow> throw (CliExit PreflightFailed 1)
          | Preflight sid relay \<Rightarrow> ebind (ask (he_now e)) (\<lambda>t.
          ebind (saveAdmissionJournal e \<lparr>jo_server = origin, jo_code_hash = codeHash, jo_fabric_id = fst fab, jo_root = root,
            jo_attempt = 1, jo_last_error = None, jo_ts = t\<rparr>) (\<lambda>_. ebind (ask (he_now e)) (\<lambda>t2.
          ebind (performRegister e cr origin (the (ja_code a)) (fst fab) root seed al) (\<lambda>outc.
          settleRegister e cr outc \<lparr>jo_server = origin, jo_code_hash = codeHash, jo_fabric_id = fst fab, jo_root = root,
            jo_attempt = 1, jo_last_error = None, jo_ts = t2\<rparr> origin codeHash sid relay al (lb fab)))))) :: join_report jeff)
        (Done s0 cr codeHash)"
        by (cases p) (use send [OF root] stop in auto)
    qed
  qed
  show ?thesis unfolding freshAdmission_def Let_def
    by (rule trip_bind [OF trip_ensure], simp, simp, rule trip_bind [OF trip_endpoint [OF keys]], simp,
        rule trip_fact, rule trip_bind [OF trip_existing [OF quiet]], rule known)
qed

lemma trip_recover:
  assumes quiet: "quiet e tracked" and keys: "good_keys cr"
  shows "trip (Inv s0) (Pending s0 j) (recoverPendingAdmission e cr a origin codeHash j hostname) (Done s0 cr codeHash)"
proof -
  let ?I = "Inv s0" and ?P = "Pending s0 j"
  have go: "trip ?I ?P (ebind (servicesPreflight e (jo_server j)) (\<lambda>pre. case pre of
      Preflight sid relay \<Rightarrow> ebind (ask (he_now e)) (\<lambda>t.
          ebind (saveAdmissionJournal e (j\<lparr>jo_attempt := jo_attempt j + 1, jo_last_error := None, jo_ts := t\<rparr>)) (\<lambda>_.
          ebind (performRegister e cr (jo_server j) (the (ja_code a)) (jo_fabric_id j) (jo_root j) seed al) (\<lambda>outc.
          settleRegister e cr outc (j\<lparr>jo_attempt := jo_attempt j + 1, jo_last_error := None, jo_ts := t\<rparr>) (jo_server j) codeHash sid relay al
            (lb t))))
    | _ \<Rightarrow> give_up e j ''services preflight failed'' ReplayPreflight) :: join_report jeff) (Done s0 cr codeHash)" for seed al lb
  proof (rule trip_bind [OF trip_preflight], simp, erule get_steps(1), assumption)
    fix p :: preflight
    have "trip ?I ?P (ebind (ask (he_now e)) (\<lambda>t.
          ebind (saveAdmissionJournal e (j\<lparr>jo_attempt := jo_attempt j + 1, jo_last_error := None, jo_ts := t\<rparr>)) (\<lambda>_.
          ebind (performRegister e cr (jo_server j) (the (ja_code a)) (jo_fabric_id j) (jo_root j) seed al) (\<lambda>outc.
          settleRegister e cr outc (j\<lparr>jo_attempt := jo_attempt j + 1, jo_last_error := None, jo_ts := t\<rparr>) (jo_server j) codeHash sid relay al
            (lb t)))) :: join_report jeff) (Done s0 cr codeHash)" for sid relay
    proof (rule trip_bind [where R = "\<lambda>_. ?P"], rule trip_ask, assumption)
      fix t
      let ?j = "j\<lparr>jo_attempt := jo_attempt j + 1, jo_last_error := None, jo_ts := t\<rparr>"
      have save: "trip ?I ?P (saveAdmissionJournal e ?j :: unit jeff) (\<lambda>_. ?P)"
        by (rule trip_saveJournal) (auto simp: same_admission_def intro: journal_touched)
      have pend: "Pending s0 ?j = ?P"
        by (intro ext) (auto simp: Pending_def journal_ok_def journal_here_def same_admission_def posted_def elim: posts_mono)
      have settle: "trip ?I ?P (settleRegister e cr outc ?j (jo_server j) codeHash sid relay al (lb t)) (Done s0 cr codeHash)" for outc
        using trip_settle [OF quiet, of ?j "jo_server j" s0 cr outc codeHash sid relay al "lb t"] unfolding pend by simp
      show "trip ?I ?P (ebind (saveAdmissionJournal e ?j) (\<lambda>_.
          ebind (performRegister e cr (jo_server j) (the (ja_code a)) (jo_fabric_id j) (jo_root j) seed al) (\<lambda>outc.
          settleRegister e cr outc ?j (jo_server j) codeHash sid relay al (lb t))) :: join_report jeff) (Done s0 cr codeHash)"
        by (rule trip_bind [OF save], rule trip_bind [OF trip_perform], rule settle)
    qed
    then show "trip ?I ?P ((case p of
      Preflight sid relay \<Rightarrow> ebind (ask (he_now e)) (\<lambda>t.
          ebind (saveAdmissionJournal e (j\<lparr>jo_attempt := jo_attempt j + 1, jo_last_error := None, jo_ts := t\<rparr>)) (\<lambda>_.
          ebind (performRegister e cr (jo_server j) (the (ja_code a)) (jo_fabric_id j) (jo_root j) seed al) (\<lambda>outc.
          settleRegister e cr outc (j\<lparr>jo_attempt := jo_attempt j + 1, jo_last_error := None, jo_ts := t\<rparr>) (jo_server j) codeHash sid relay al
            (lb t))))
      | _ \<Rightarrow> give_up e j ''services preflight failed'' ReplayPreflight) :: join_report jeff) (Done s0 cr codeHash)"
      by (cases p) (auto intro: trip_give_up)
  qed
  have stop: "trip ?I ?P (throw er :: join_report jeff) (Done s0 cr codeHash)" for er by (rule trip_throw) simp
  have keyed: "trip ?I ?P ((case key of None \<Rightarrow> throw (CliExit KeyMismatch 1)
     | Some seed \<Rightarrow> ebind (lift (endpointIdHexFromSeed cr seed)) (\<lambda>root. if root \<noteq> jo_root j then throw (CliExit KeyMismatch 1) else G seed))
     :: join_report jeff) (Done s0 cr codeHash)" if "\<And>seed. trip ?I ?P (G seed) (Done s0 cr codeHash)" for key G
    by (cases key) (use that stop in \<open>auto intro!: trip_bind [where R = "\<lambda>_. ?P"] trip_lift dest: entailsD [OF states_entails(1)]\<close>)
  show ?thesis unfolding recoverPendingAdmission_def Let_def
    by (rule trip_if, rule stop, rule trip_if, rule stop, rule trip_if, rule stop, rule trip_bind [OF trip_seed], simp,
        rule keyed, rule go)
qed

lemma trip_admit:
  assumes quiet: "quiet e tracked" and keys: "good_keys cr" and h: "hex64 codeHash"
  shows "trip (Inv s0) (Start s0) (admit e cr a origin codeHash hostname) (Done s0 cr codeHash)"
  unfolding admit_def
proof (rule trip_bind [OF trip_loadJournal], simp)
  fix l
  let ?R = "\<lambda>m s. Start s0 m s \<and> journal_at (m ADMISSION_JOURNAL_FILE) = l"
  show "trip (Inv s0) ?R ((case l of JournalCorrupt \<Rightarrow> throw (CliExit JournalDamaged 1)
    | Journal j \<Rightarrow> recoverPendingAdmission e cr a origin codeHash j hostname
    | JournalNone \<Rightarrow> freshAdmission e cr a origin codeHash hostname) :: join_report jeff) (Done s0 cr codeHash)"
  proof (cases l)
    case JournalNone
    then show ?thesis
      using trip_pre [OF trip_fresh [OF quiet keys h, of s0 a origin hostname], of ?R]
      by (auto simp: Start_def Ready_def Idle_def one_fabric_def)
  next
    case JournalCorrupt
    then show ?thesis by (auto intro!: trip_throw simp: entails_def dest: entailsD [OF states_entails(3)])
  next
    case (Journal j)
    have "Pending s0 j m s" if "?R m s" for m s
      using that Journal journal_at_ok [of "m ADMISSION_JOURNAL_FILE" j]
      by (auto simp: Start_def one_fabric_def Pending_def journal_here_def same_admission_def elim: posts_mono)
    then show ?thesis
      unfolding Journal journal_load.case by (rule trip_pre [OF trip_recover [OF quiet keys]])
  qed
qed

text \<open>Everything around the admission leaves a predicate on the tracked files alone.\<close>

lemma trip_url:
  assumes entails: "entails P I"
  shows "trip I P (validateServerUrl e raw allow) (\<lambda>_. P)"
proof -
  have loop: "trip I P (is_loopback e scheme hostname) (\<lambda>_. P)" for scheme hostname
    by (auto simp: is_loopback_def intro!: trip_ret trip_bind [where R = "\<lambda>_. P"] trip_ask trip_throw entails split: option.split)
  show ?thesis unfolding validateServerUrl_def
    by (rule trip_bind [where R = "\<lambda>_. P"], rule trip_lift, assumption, erule entailsD [OF entails])
      (auto intro!: trip_bind [OF loop] trip_if trip_throw trip_ret entails split: prod.split)
qed

lemma trip_locked:
  assumes quiet: "quiet e tracked" and P: "depends tracked P" "entails P I" and I: "depends tracked I"
    and Q: "\<And>rep. depends tracked (Q rep)" "\<And>rep. entails (Q rep) I"
    and admit: "trip I P m Q"
  shows "trip I P (ebind (acquireFileLock e FABRIC_LOCK_FILE) (\<lambda>lock. case lock of
      Refused h age \<Rightarrow> throw (CliExit (AdmissionBusy h) 1)
    | Locked token \<Rightarrow> finally_do m (release e FABRIC_LOCK_FILE token)) :: join_report jeff) Q"
proof -
  have lock: "FABRIC_LOCK_FILE \<notin> tracked" by simp
  have rel: "trip I R (release e FABRIC_LOCK_FILE token :: bool jeff) (\<lambda>_. R)" if "depends tracked R" "entails R I" for R token
    by (rule trip_release [OF depends_blind [OF that(1) lock] that(2)])
  have fin: "trip I P (finally_do m (release e FABRIC_LOCK_FILE token)) Q" for token
    by (rule trip_finally [OF admit entails_refl rel [OF I entails_refl] rel [OF Q]])
  show ?thesis
  proof (rule trip_bind [OF trip_acquire [OF depends_blind [OF P(1) lock] P(2) depends_unmoved [OF P(1) quiet]]])
    fix r
    show "trip I (lock_post FABRIC_LOCK_FILE P r) ((case r of Refused h age \<Rightarrow> throw (CliExit (AdmissionBusy h) 1)
      | Locked token \<Rightarrow> finally_do m (release e FABRIC_LOCK_FILE token)) :: join_report jeff) Q"
    proof (cases r)
      case (Locked token)
      show ?thesis unfolding Locked lock_result.case by (rule trip_pre [OF fin]) (simp add: lock_post_def)
    next
      case (Refused h age)
      show ?thesis unfolding Refused lock_result.case
        by (rule trip_throw) (auto simp: entails_def lock_post_def dest: entailsD [OF P(2)])
    qed
  qed
qed

lemma trip_runJoin:
  assumes quiet: "quiet e tracked" and P: "depends tracked P" "entails P I" and I: "depends tracked I"
    and Q: "\<And>h rep. depends tracked (Q h rep)" "\<And>h rep. entails (Q h rep) I"
    and admit: "\<And>a origin h. parseJoinArgs argv = Inr a \<Longrightarrow> inviteCodeHashHex (the (ja_code a)) = Some h \<Longrightarrow>
      trip I P (admit e cr a origin h hostname) (Q h)"
  shows "trip I P (runJoin e cr argv hostname)
    (\<lambda>rep m s. \<exists>a h. parseJoinArgs argv = Inr a \<and> inviteCodeHashHex (the (ja_code a)) = Some h \<and> Q h rep m s)"
proof -
  have pure: "trip I P (lift r) (\<lambda>a m s. P m s \<and> r = Inr a)" for r :: "exit_why herr + 'b"
    by (rule trip_lift) (use entailsD [OF P(2)] in auto)
  have coded: "trip I P ((case inviteCodeHashHex (the (ja_code a)) of None \<Rightarrow> throw (CliExit BadInviteCode 2)
     | Some codeHash \<Rightarrow> ebind (acquireFileLock e FABRIC_LOCK_FILE) (\<lambda>lock. case lock of
      Refused h age \<Rightarrow> throw (CliExit (AdmissionBusy h) 1)
    | Locked token \<Rightarrow> finally_do (admit e cr a origin codeHash hostname) (release e FABRIC_LOCK_FILE token))) :: join_report jeff)
    (\<lambda>rep m s. \<exists>h. inviteCodeHashHex (the (ja_code a)) = Some h \<and> Q h rep m s)" if a: "parseJoinArgs argv = Inr a" for a origin
  proof (cases "inviteCodeHashHex (the (ja_code a))")
    case None
    then show ?thesis by (auto intro: trip_throw P(2))
  next
    case (Some h)
    show ?thesis unfolding Some option.case
      by (rule trip_post [OF trip_locked [OF quiet P I Q admit [OF a Some]]]) simp
  qed
  have rest: "trip I P (ebind (lift (server_arg (the (ja_server a)))) (\<lambda>url. ebind (validateServerUrl e url (ja_insecure a)) (\<lambda>origin.
     case inviteCodeHashHex (the (ja_code a)) of None \<Rightarrow> throw (CliExit BadInviteCode 2)
     | Some codeHash \<Rightarrow> ebind (acquireFileLock e FABRIC_LOCK_FILE) (\<lambda>lock. case lock of
      Refused h age \<Rightarrow> throw (CliExit (AdmissionBusy h) 1)
    | Locked token \<Rightarrow> finally_do (admit e cr a origin codeHash hostname) (release e FABRIC_LOCK_FILE token)))) :: join_report jeff)
    (\<lambda>rep m s. \<exists>h. inviteCodeHashHex (the (ja_code a)) = Some h \<and> Q h rep m s)" if "parseJoinArgs argv = Inr a" for a
    by (rule trip_bind [where R = "\<lambda>_. P"], rule trip_post [OF pure], simp, rule trip_bind [OF trip_url [OF P(2)]], rule coded [OF that])
  show ?thesis unfolding runJoin_def
    by (rule trip_bind [OF pure], rule trip_fact, rule trip_post [OF rest]) (assumption, blast)
qed

lemma inviteCodeHash_hex: "inviteCodeHashHex c = Some h \<Longrightarrow> hex64 h"
  by (auto simp: inviteCodeHashHex_def blake3_hex split: option.splits)

lemma trip_join:
  assumes quiet: "quiet e tracked" and keys: "good_keys cr"
  shows "trip (Inv s0) (Start s0) (runJoin e cr argv hostname)
    (\<lambda>rep m s. \<exists>a h. parseJoinArgs argv = Inr a \<and> inviteCodeHashHex (the (ja_code a)) = Some h \<and> Done s0 cr h rep m s)"
  by (rule trip_runJoin [OF quiet]) (auto intro: trip_admit [OF quiet keys] inviteCodeHash_hex)

end
