(* ===== verification/LockProps.thy ===== *)
theory LockProps
  imports LeaseProps
begin

text \<open>
  The lock files: a lock that is held is not broken, one that a dead process left is, and asking for a lock
  takes a bounded number of steps.
\<close>

lemma holder_of_token [simp]: "lock_holder (Some (lock_token p t)) = (Some p, t)"
  by (simp add: lock_holder_def lock_token_def holder_num_def jget_def)

lemma holder_unknown [simp]: "lock_holder None = (None, MAX_SAFE_INTEGER)"
  by (simp add: lock_holder_def)

subsection \<open>An environment\<close>

definition some_env :: henv where
  "some_env = \<lparr>he_pid = 41, he_now = (\<lambda>n. 1700000000000 + int n), he_random = (\<lambda>n. replicate 40 7), he_alive = (\<lambda>n p. p = 41),
     he_denied = (\<lambda>n. False), he_dies = (\<lambda>n. n = 60), he_others = (\<lambda>n fs. fs),
     he_fetch = (\<lambda>n q. FetchFails ''TypeError'' ''ECONNRESET''),
     he_url = (\<lambda>s. Some \<lparr>ur_protocol = ''https:'', ur_username = [], ur_password = [], ur_hostname = ''hub.example'', ur_port = [],
       ur_pathname = ''/'', ur_search = [], ur_hash = []\<rparr>),
     he_dns = (\<lambda>n h. None), he_json = (\<lambda>s. Malformed)\<rparr>"

definition home_with :: "home_files \<Rightarrow> hworld" where
  "home_with fs = \<lparr>hw_files = fs, hw_tick = 0, hw_temps = 0, hw_sent = [], hw_out = []\<rparr>"

lemma some_quiet: "quiet some_env S"
  by (simp add: quiet_def some_env_def)

subsection \<open>Steps\<close>

text \<open>How many steps of the environment an operation takes at most.\<close>

definition steps :: "nat \<Rightarrow> ('x, 'a) heff \<Rightarrow> bool" where
  "steps k m \<longleftrightarrow> (\<forall>w. hw_tick (snd (m w)) \<le> hw_tick w + k)"

lemma stepsD: "steps k m \<Longrightarrow> m w = (r, w') \<Longrightarrow> hw_tick w' \<le> hw_tick w + k"
  by (auto simp: steps_def dest: spec [of _ w])

lemma stepsI: "(\<And>w r w'. m w = (r, w') \<Longrightarrow> hw_tick w' \<le> hw_tick w + k) \<Longrightarrow> steps k m"
  by (metis steps_def prod.collapse)

lemma steps_bind: "steps i m \<Longrightarrow> (\<And>a. steps j (f a)) \<Longrightarrow> i + j \<le> k \<Longrightarrow> steps k (ebind m f)"
proof (rule stepsI)
  fix w r w'
  assume i: "steps i m" and j: "\<And>a. steps j (f a)" and k: "i + j \<le> k" and e: "ebind m f w = (r, w')"
  obtain q w1 where m: "m w = (q, w1)" by fastforce
  from stepsD [OF i m] k e m show "hw_tick w' \<le> hw_tick w + k"
    by (cases q) (auto simp: ebind_def dest: stepsD [OF j])
qed

lemma steps_catch: "steps i m \<Longrightarrow> (\<And>er. steps j (h er)) \<Longrightarrow> i + j \<le> k \<Longrightarrow> steps k (catch m h)"
proof (rule stepsI)
  fix w r w'
  assume i: "steps i m" and j: "\<And>er. steps j (h er)" and k: "i + j \<le> k" and e: "catch m h w = (r, w')"
  obtain q w1 where m: "m w = (q, w1)" by fastforce
  from stepsD [OF i m] k e m show "hw_tick w' \<le> hw_tick w + k"
    by (cases q; cases "projl q") (auto simp: catch_def dest: stepsD [OF j])
qed

lemma steps_base:
  "steps 1 (io e g)" "steps 1 (ask f)" "steps 0 (ret a)" "steps 1 (sleep e)" "steps 0 (throw er)"
  by (auto simp: steps_def io_def ask_def sleep_def Let_def split: prod.split)

lemma steps_mono: "steps i m \<Longrightarrow> i \<le> k \<Longrightarrow> steps k m"
  unfolding steps_def by (meson add_left_mono order_trans)

lemma steps_files:
  "steps 1 (readFile e f)" "steps 1 (rm_force e f)" "steps 1 (open_excl e f)" "steps 1 (write_open e f c)"
  by (simp_all only: readFile_def rm_force_def open_excl_def write_open_def steps_base)

lemma steps_create: "steps 2 (tryCreate e f token)"
  unfolding tryCreate_def
  by (rule steps_bind [OF steps_files(3), where j = 1])
    (auto intro: steps_bind [OF steps_files(4) steps_base(3)] steps_mono [OF steps_base(3)])

lemma steps_holder: "steps 1 (readLockHolder e f)"
  unfolding readLockHolder_def
  by (rule steps_catch [OF steps_bind [OF steps_files(1) steps_base(3) order_refl] steps_base(3)]) simp

lemma steps_stale: "steps 2 (stale_holder e h)"
  unfolding stale_holder_def
  by (rule steps_bind [OF steps_base(2), where j = 1]) (auto simp: steps_def ask_def split: option.split)

lemma steps_attempts: "steps (7 * left + 5) (lock_attempts e f left :: ('x, lock_result) heff)"
proof (induction left)
  case 0
  show ?case
    by (subst lock_attempts.simps, unfold Let_def, rule steps_bind [OF steps_base(2), where j = 4],
        rule steps_bind [OF steps_create, where j = 2])
      (auto intro: steps_mono [OF steps_base(3)] steps_bind [OF steps_holder steps_bind [OF steps_base(2) steps_base(3) order_refl]])
next
  case (Suc k)
  have again: "steps (7 * k + 6) (ebind (rm_force e f) (\<lambda>_. lock_attempts e f k) :: ('x, lock_result) heff)"
    "steps (7 * k + 6) (ebind (sleep e) (\<lambda>_. lock_attempts e f k) :: ('x, lock_result) heff)"
    by - ((rule steps_bind [OF steps_files(2) Suc] steps_bind [OF steps_base(4) Suc], simp)+)
  have wait: "steps (7 * k + 8) (ebind (stale_holder e h) (\<lambda>stale. if stale then ebind (rm_force e f) (\<lambda>_. lock_attempts e f k)
      else ebind (sleep e) (\<lambda>_. lock_attempts e f k)) :: ('x, lock_result) heff)" for h
    by (rule steps_bind [OF steps_stale, where j = "7 * k + 6"]) (use again in auto)
  have turn: "steps (7 * k + 9) (ebind (readLockHolder e f) (\<lambda>h. ebind (stale_holder e h) (\<lambda>stale. if stale then ebind (rm_force e f) (\<lambda>_. lock_attempts e f k)
      else ebind (sleep e) (\<lambda>_. lock_attempts e f k))) :: ('x, lock_result) heff)"
    by (rule steps_bind [OF steps_holder wait]) simp
  show ?case
    by (subst lock_attempts.simps, unfold Let_def nat.case, rule steps_bind [OF steps_base(2), where j = "7 * k + 11"],
        rule steps_bind [OF steps_create, where j = "7 * k + 9"]) (auto intro: steps_mono [OF steps_base(3)] turn)
qed

text \<open>
  C40. Asking for a lock ends: whatever the other processes do with the lock file, the call has returned
  after at most 27 operations of the environment, three pauses among them.
\<close>

theorem acquireFileLock_ends: "hw_tick (snd (acquireFileLock e f w :: ('x herr + lock_result) \<times> hworld)) \<le> hw_tick w + 27"
proof -
  have "steps 27 (acquireFileLock e f :: ('x, lock_result) heff)"
    unfolding acquireFileLock_def LOCK_RETRIES_def
    by (rule steps_bind [OF steps_base(1) steps_attempts]) simp
  then show ?thesis by (simp add: steps_def)
qed

subsection \<open>Held and stale locks\<close>

text \<open>
  A lock that must not be broken: its process lives or it is younger than ten seconds; and one that names no
  process, such as a lock whose creator was killed before it wrote into it.
\<close>

definition unbreakable :: "henv \<Rightarrow> content \<Rightarrow> bool" where
  "unbreakable e c \<longleftrightarrow>
     (case lock_holder (Some c) of
        (None, t) \<Rightarrow> True
      | (Some p, t) \<Rightarrow> (\<forall>n. he_alive e n p) \<or> (\<forall>n. he_now e n - t \<le> LOCK_STALE_MS))"

lemma not_stale: "unbreakable e c \<Longrightarrow> h = lock_holder (Some c) \<or> fst h = None \<Longrightarrow> stale_holder e h w = (Inr b, w') \<Longrightarrow> \<not> b"
  by (cases h) (auto simp: unbreakable_def stale_holder_def ebind_def ask_def split: option.splits if_splits prod.splits
      dest: spec [of _ "hw_tick w"])

lemma stale_same: "stale_holder e h w = (r, w') \<Longrightarrow> hw_files w' = hw_files w \<and> hw_sent w' = hw_sent w \<and> (\<exists>b. r = Inr b)"
  by (auto simp: stale_holder_def ebind_def ask_def split: option.splits if_splits)

abbreviation held :: "string \<Rightarrow> content \<Rightarrow> home_pred" where
  "held f c \<equiv> \<lambda>m s. m f = Some (HFile c)"

lemma trip_not_stale:
  "unbreakable e c \<Longrightarrow> h = lock_holder (Some c) \<or> fst h = None \<Longrightarrow>
   trip I P (stale_holder e h :: ('x, bool) heff) (\<lambda>b m s. P m s \<and> \<not> b)"
proof (rule tripI)
  fix w r w'
  assume a: "unbreakable e c" "h = lock_holder (Some c) \<or> fst h = None" "P (map_of (hw_files w)) (hw_sent w)"
    and s: "(stale_holder e h :: ('x, bool) heff) w = (r, w')"
  from stale_same [OF s] obtain b where b: "r = Inr b" by blast
  from not_stale [OF a(1,2) s [unfolded b]] stale_same [OF s] a(3) b
  show "case r of Inr b \<Rightarrow> P (map_of (hw_files w')) (hw_sent w') \<and> \<not> b | Inl er \<Rightarrow> I (map_of (hw_files w')) (hw_sent w')"
    by simp
qed

lemma trip_held_create: "trip (held f c) (held f c) (tryCreate e f token) (\<lambda>got m s. m f = Some (HFile c) \<and> \<not> got)"
  by (simp add: trip_def tryCreate_def open_excl_def io_def ebind_def Let_def)

lemma trip_held_holder:
  "trip (held f c) (held f c) (readLockHolder e f) (\<lambda>h m s. m f = Some (HFile c) \<and> (h = lock_holder (Some c) \<or> fst h = None))"
  by (simp add: trip_def readLockHolder_def readFile_def catch_def io_def ebind_def Let_def)

lemma trip_held:
  assumes c: "unbreakable e c" and unmoved: "unmoved e (held f c)"
  shows "trip (held f c) (held f c) (lock_attempts e f left :: ('x, lock_result) heff)
    (\<lambda>r m s. m f = Some (HFile c) \<and> (\<exists>h age. r = Refused h age))"
proof (induction left)
  case 0
  have last: "trip (held f c) (held f c) (ebind (readLockHolder e f) (\<lambda>h. ebind (ask (he_now e)) (\<lambda>t'. ret (Refused (fst h) (t' - snd h))))
      :: ('x, lock_result) heff) (\<lambda>r m s. m f = Some (HFile c) \<and> (\<exists>h age. r = Refused h age))"
    by (rule trip_bind [OF trip_held_holder], rule trip_bind [where R = "\<lambda>_. held f c"], rule trip_ask, simp, rule trip_ret, simp)
  show ?case
    by (subst lock_attempts.simps, unfold Let_def, rule trip_bind [where R = "\<lambda>_. held f c"], rule trip_ask, assumption,
        rule trip_bind [OF trip_held_create], rule trip_fact)
      (simp add: last)
next
  case (Suc k)
  have sl: "trip (held f c) (held f c) (ebind (sleep e) (\<lambda>_. lock_attempts e f k) :: ('x, lock_result) heff)
      (\<lambda>r m s. m f = Some (HFile c) \<and> (\<exists>h age. r = Refused h age))"
    by (rule trip_bind [OF trip_sleep [OF unmoved] Suc])
  have wait: "trip (held f c) (\<lambda>m s. m f = Some (HFile c) \<and> (h = lock_holder (Some c) \<or> fst h = None))
      (ebind (stale_holder e h) (\<lambda>stale. if stale then ebind (rm_force e f) (\<lambda>_. lock_attempts e f k)
        else ebind (sleep e) (\<lambda>_. lock_attempts e f k)) :: ('x, lock_result) heff)
      (\<lambda>r m s. m f = Some (HFile c) \<and> (\<exists>h age. r = Refused h age))" for h
  proof (rule trip_fact, rule trip_bind [OF trip_not_stale [OF c]], assumption, rule trip_fact)
    fix b
    assume "\<not> b"
    then show "trip (held f c) (held f c) (if b then ebind (rm_force e f) (\<lambda>_. lock_attempts e f k) else ebind (sleep e) (\<lambda>_. lock_attempts e f k)
      :: ('x, lock_result) heff) (\<lambda>r m s. m f = Some (HFile c) \<and> (\<exists>h age. r = Refused h age))"
      using sl by simp
  qed
  have go: "trip (held f c) (held f c) (ebind (readLockHolder e f) (\<lambda>h. ebind (stale_holder e h) (\<lambda>stale.
        if stale then ebind (rm_force e f) (\<lambda>_. lock_attempts e f k) else ebind (sleep e) (\<lambda>_. lock_attempts e f k))) :: ('x, lock_result) heff)
      (\<lambda>r m s. m f = Some (HFile c) \<and> (\<exists>h age. r = Refused h age))"
    by (rule trip_bind [OF trip_held_holder wait])
  show ?case
    by (subst lock_attempts.simps, unfold Let_def nat.case, rule trip_bind [where R = "\<lambda>_. held f c"], rule trip_ask, assumption,
        rule trip_bind [OF trip_held_create], rule trip_fact) (simp add: go)
qed

text \<open>
  A lock is never taken from a process that lives, nor from one that took it less than ten seconds ago,
  nor when the file names no process: the caller is refused and the lock file still holds what it held.
\<close>

theorem held_lock_is_kept:
  assumes "unbreakable e c" and "quiet e {f}" and "map_of (hw_files w) f = Some (HFile c)"
  shows "case (acquireFileLock e f w :: ('x herr + lock_result) \<times> hworld) of (r, w') \<Rightarrow>
    map_of (hw_files w') f = Some (HFile c) \<and> (\<forall>token. r \<noteq> Inr (Locked token))"
proof -
  have unmoved: "unmoved e (held f c)" using assms(2) by (auto simp: unmoved_def quiet_def)
  obtain r w' where run: "(acquireFileLock e f :: ('x, lock_result) heff) w = (r, w')" by fastforce
  have "trip (held f c) (held f c) (acquireFileLock e f :: ('x, lock_result) heff) (\<lambda>r m s. m f = Some (HFile c) \<and> (\<exists>h age. r = Refused h age))"
    unfolding acquireFileLock_def by (rule trip_bind [OF trip_nop [OF entails_refl] trip_held [OF assms(1) unmoved]])
  from tripD [OF this assms(3) run] run show ?thesis by (auto split: sum.splits)
qed

theorem held_lock_is_kept_witness:
  "case (acquireFileLock some_env ''fabric.lock'' (home_with [(''fabric.lock'', HFile (lock_token 41 5))]) :: (unit herr + lock_result) \<times> hworld) of
     (r, w') \<Rightarrow> map_of (hw_files w') ''fabric.lock'' = Some (HFile (lock_token 41 5)) \<and> (\<forall>token. r \<noteq> Inr (Locked token))"
proof -
  have "unbreakable some_env (lock_token 41 5)" by (simp add: unbreakable_def some_env_def)
  from held_lock_is_kept [OF this some_quiet, of "home_with [(''fabric.lock'', HFile (lock_token 41 5))]" "''fabric.lock''"]
  show ?thesis by (simp add: home_with_def)
qed

text \<open>
  A crash does not wedge the tool: the lock of a process that is gone for more than ten seconds is
  broken, and the caller gets it.
\<close>

theorem dead_lock_is_broken:
  assumes "\<And>n. \<not> he_dies e n" and "\<And>n. \<not> he_denied e n" and "\<And>n. \<not> he_alive e n p" and "\<And>n. LOCK_STALE_MS < he_now e n - t"
    and "map_of (hw_files w) f = Some (HFile (lock_token p t))"
  shows "case (acquireFileLock e f w :: ('x herr + lock_result) \<times> hworld) of (r, w') \<Rightarrow>
    \<exists>t'. r = Inr (Locked (lock_token (he_pid e) t')) \<and> map_of (hw_files w') f = Some (HFile (lock_token (he_pid e) t'))"
  using assms
  by (simp add: acquireFileLock_def lock_attempts.simps LOCK_RETRIES_def ebind_def io_def ask_def tryCreate_def catch_def
      open_excl_def write_open_def readFile_def readLockHolder_def stale_holder_def rm_force_def Let_def) blast

theorem dead_lock_is_broken_witness:
  "case (acquireFileLock (some_env\<lparr>he_dies := \<lambda>n. False\<rparr>) ''fabric.lock''
       (home_with [(''fabric.lock'', HFile (lock_token 7 0))]) :: (unit herr + lock_result) \<times> hworld) of
     (r, w') \<Rightarrow> \<exists>t'. r = Inr (Locked (lock_token 41 t')) \<and> map_of (hw_files w') ''fabric.lock'' = Some (HFile (lock_token 41 t'))"
proof -
  let ?e = "some_env\<lparr>he_dies := \<lambda>n. False\<rparr>" and ?w = "home_with [(''fabric.lock'', HFile (lock_token 7 0))]"
  have "case (acquireFileLock ?e ''fabric.lock'' ?w :: (unit herr + lock_result) \<times> hworld) of
     (r, w') \<Rightarrow> \<exists>t'. r = Inr (Locked (lock_token (he_pid ?e) t')) \<and> map_of (hw_files w') ''fabric.lock'' = Some (HFile (lock_token (he_pid ?e) t'))"
    by (rule dead_lock_is_broken [of ?e 7 0]) (simp_all add: some_env_def home_with_def LOCK_STALE_MS_def)
  then show ?thesis by (simp add: some_env_def)
qed

end
