(* ===== verification/JoinSafe.thy ===== *)
theory JoinSafe
  imports JoinProps LockProps
begin

text \<open>
  The properties of the admission: one fabric for one machine, no forgotten request, what a success means,
  and what a pending admission forbids; the lock of the state directory; and the ledger of leases.
\<close>

subsection \<open>An example\<close>

definition some_crypto :: crypto_lib where
  "some_crypto = \<lparr>cr_public = (\<lambda>s. replicate 32 5), cr_sign = (\<lambda>s m. replicate 64 6), cr_verify = (\<lambda>k m s. s = replicate 64 6)\<rparr>"

definition some_argv :: "string list" where
  "some_argv = [''--server'', ''https://hub.example'', ''--code=0123456789abcdef'', ''--fabric'', replicate 64 CHR ''A'']"

definition some_lease :: json where
  "some_lease = JObj [(''id'', JStr ''0123456789''), (''server'', JStr ''https://hub.example''), (''relay_url'', JStr ''https://relay.example''),
     (''fabric_id'', JStr (replicate 64 CHR ''a'')), (''root'', JStr (replicate 64 CHR ''5'')), (''registered_at'', JNum 1),
     (''expires_at'', JNum 2)]"

definition some_journal :: journal where
  "some_journal = \<lparr>jo_server = ''https://other.example'', jo_code_hash = replicate 64 CHR ''c'', jo_fabric_id = replicate 64 CHR ''b'',
     jo_root = replicate 64 CHR ''5'', jo_attempt = 1, jo_last_error = None, jo_ts = 7\<rparr>"


definition some_home :: hworld where
  "some_home = home_with [(LEASES_FILE, HFile (ledger_doc ''leases'' [some_lease]))]"

lemma hex64_const: "is_hex c \<Longrightarrow> hex64 (replicate 64 c)"
  by (simp add: hex_between_def list_all_iff)

lemma hex_digits: "is_hex CHR ''a''" "is_hex CHR ''b''" "is_hex CHR ''c''" "is_hex CHR ''5''"
  by (simp_all add: is_hex_def is_digit_def)


subsection \<open>Admissions\<close>








definition other_admission :: "join_args \<Rightarrow> journal \<Rightarrow> bool" where
  "other_admission a j \<longleftrightarrow>
     inviteCodeHashHex (the (ja_code a)) \<noteq> Some (jo_code_hash j) \<or> (\<exists>f. ja_fabric a = Some f \<and> to_lower f \<noteq> jo_fabric_id j)"

lemma trip_refuse:
  assumes "other_admission a j" and "inviteCodeHashHex (the (ja_code a)) = Some h" and "entails P I"
  shows "trip I P (recoverPendingAdmission e cr a origin h j hostname) (\<lambda>_ _ _. False)"
proof -
  have "\<exists>er. recoverPendingAdmission e cr a origin h j hostname = throw er"
    using assms(1,2) by (auto simp: recoverPendingAdmission_def other_admission_def)
  then show ?thesis by (auto intro: trip_throw [OF assms(3)])
qed

definition Untouched :: "hreq list \<Rightarrow> hnode option \<Rightarrow> hnode option \<Rightarrow> home_pred" where
  "Untouched s0 l j m s \<longleftrightarrow> s = s0 \<and> m LEASES_FILE = l \<and> m ADMISSION_JOURNAL_FILE = j"

text \<open>
  C38. While an admission is pending, a join with another invite code or another fabric sends no request
  for admission, fails, and changes neither the ledger nor the journal.
\<close>

theorem pending_admission_blocks:
  assumes "quiet e tracked" and "journal_at (map_of (hw_files w) ADMISSION_JOURNAL_FILE) = Journal j"
    and "parseJoinArgs argv = Inr a" and "other_admission a j"
  shows "case runJoin e cr argv hostname w of (r, w') \<Rightarrow>
    isl r \<and> hw_sent w' = hw_sent w \<and> map_of (hw_files w') LEASES_FILE = map_of (hw_files w) LEASES_FILE \<and>
    map_of (hw_files w') ADMISSION_JOURNAL_FILE = map_of (hw_files w) ADMISSION_JOURNAL_FILE"
proof -
  let ?P = "Untouched (hw_sent w) (map_of (hw_files w) LEASES_FILE) (map_of (hw_files w) ADMISSION_JOURNAL_FILE)"
  have dep: "depends tracked ?P" by (rule dependsI) (simp add: Untouched_def)
  have admit: "trip ?P ?P (admit e cr b origin h hostname) (\<lambda>_ _ _. False)"
    if "parseJoinArgs argv = Inr b" "inviteCodeHashHex (the (ja_code b)) = Some h" for b origin h
  proof -
    have "trip ?P (\<lambda>m s. ?P m s \<and> journal_at (m ADMISSION_JOURNAL_FILE) = l) ((case l of JournalCorrupt \<Rightarrow> throw (CliExit JournalDamaged 1)
      | Journal j \<Rightarrow> recoverPendingAdmission e cr b origin h j hostname
      | JournalNone \<Rightarrow> freshAdmission e cr b origin h hostname) :: join_report jeff) (\<lambda>_ _ _. False)" for l
    proof (cases "l = Journal j")
      case True
      with that assms(3,4) show ?thesis by (auto intro!: trip_pre [OF trip_refuse [of b j h ?P]])
    next
      case False
      with assms(2) show ?thesis by (auto simp: trip_def Untouched_def)
    qed
    then show ?thesis unfolding admit_def by (intro trip_bind [OF trip_loadJournal]) simp_all
  qed
  obtain r w' where run: "runJoin e cr argv hostname w = (r, w')" by fastforce
  have "trip ?P ?P (runJoin e cr argv hostname) (\<lambda>_ _ _. False)"
    by (rule trip_post [OF trip_runJoin [OF assms(1) dep entails_refl dep, of "\<lambda>_ _ _ _. False"]])
      (auto simp: depends_def entails_def intro: admit)
  from tripD [OF this _ run] run show ?thesis by (auto simp: Untouched_def split: sum.splits)
qed

lemma pending_admission_blocks_witness:
  "case runJoin some_env some_crypto some_argv ''host'' (home_with [(ADMISSION_JOURNAL_FILE, HFile (Doc (journal_json some_journal)))]) of
     (r, w') \<Rightarrow> isl r \<and> hw_sent w' = [] \<and> map_of (hw_files w') LEASES_FILE = None \<and>
       map_of (hw_files w') ADMISSION_JOURNAL_FILE = Some (HFile (Doc (journal_json some_journal)))"
proof -
  let ?w = "home_with [(ADMISSION_JOURNAL_FILE, HFile (Doc (journal_json some_journal)))]"
  have "journal_ok some_journal" by (simp add: journal_ok_def some_journal_def hex64_const hex_digits)
  then have j: "journal_at (map_of (hw_files ?w) ADMISSION_JOURNAL_FILE) = Journal some_journal"
    by (simp add: home_with_def journal_at_doc)
  let ?a = "\<lparr>ja_server = Some ''https://hub.example'', ja_code = Some ''0123456789abcdef'', ja_fabric = Some (replicate 64 CHR ''A''),
      ja_alias = None, ja_insecure = False\<rparr>"
  have a: "parseJoinArgs some_argv = Inr ?a"
    by (simp add: parseJoinArgs_def some_argv_def no_args_def option_name_def option_value_def set_option_def)
  have "to_lower (replicate 64 CHR ''A'') \<noteq> replicate 64 CHR ''b''" by code_simp
  then have "other_admission ?a some_journal" by (simp add: other_admission_def some_journal_def)
  from pending_admission_blocks [OF some_quiet j a this, of some_crypto "''host''"] show ?thesis
    by (simp add: home_with_def split: prod.splits)
qed

subsection \<open>Leases\<close>

definition ledger_after :: "lease_input \<Rightarrow> json list \<Rightarrow> json list \<Rightarrow> bool" where
  "ledger_after inp js js' \<longleftrightarrow> js' = js \<or> (\<exists>entry created. merged_ok inp js (js', entry, created))"

text \<open>
  C39. A lease is recorded once: after \<^verbatim>\<open>upsertLease\<close> on a well-typed ledger of one fabric the ledger is
  still that; when there was no lease of this server, fabric and root one is added at the end, otherwise
  that lease is updated in place and keeps its id, its label and the time of its registration; nothing else
  changes, and a call that fails leaves the ledger as it was or, when killed after the write, as it
  should become.
\<close>

theorem upsertLease_records_once:
  assumes "quiet e tracked" and "leases_at (map_of (hw_files w) LEASES_FILE) = Some js"
    and "list_all (lease_ok (li_fabricId inp)) js" and "hex64 (li_root inp)" and "upsertLease e inp w = (r, w')"
  shows "\<exists>js'. leases_at (map_of (hw_files w') LEASES_FILE) = Some js' \<and> list_all (lease_ok (li_fabricId inp)) js' \<and>
    (case r of Inr m \<Rightarrow> merged_ok inp js (js', ml_entry m, ml_created m) \<and> ml_total m = length js' | Inl er \<Rightarrow> ledger_after inp js js')"
proof -
  let ?P = "\<lambda>m s. leases_at (m LEASES_FILE) = Some js"
  let ?I = "\<lambda>m s. \<exists>js'. leases_at (m LEASES_FILE) = Some js' \<and> list_all (lease_ok (li_fabricId inp)) js' \<and> ledger_after inp js js'"
  let ?Q = "\<lambda>x m s. leases_at (m LEASES_FILE) = Some (fst x) \<and> merged_ok inp js x"
  have all: "list_all (lease_ok (li_fabricId inp)) (fst x)" if "merged_ok inp js x" for x
    using merged_all [OF that assms(3)] by simp
  have "trip ?I ?P (upsertLease e inp) (\<lambda>r m s. \<exists>x. ?Q x m s \<and> ml_entry r = fst (snd x) \<and> ml_created r = snd (snd x) \<and>
      ml_total r = length (fst x))"
  proof (rule trip_upsert [OF _ assms(1) _ _ assms(4)])
    show "entails (?Q x) ?I" for x
      using all [of x] by (cases x) (auto simp: entails_def ledger_after_def)
  qed (use assms(3) in \<open>auto simp: depends_def entails_def leases_in_def ledger_after_def\<close>)
  from tripD [OF this _ assms(5)] assms(2) all show ?thesis
    by (auto split: sum.splits)
qed

definition some_input :: lease_input where
  "some_input = \<lparr>li_server = ''https://hub.example'', li_relayUrl = ''https://relay2.example'', li_serverId = Some (replicate 64 CHR ''c''),
     li_fabricId = replicate 64 CHR ''a'', li_root = replicate 64 CHR ''5'', li_alias = None, li_expiresAt = 99,
     li_receipt = \<lparr>re_ts = 1, re_generation = 2, re_code_hash = replicate 64 CHR ''c'', re_sig = ''x''\<rparr>\<rparr>"

lemma upsertLease_records_once_witness:
  "\<exists>js'. leases_at (map_of (hw_files (snd (upsertLease some_env some_input some_home :: (unit herr + merged_lease) \<times> hworld))) LEASES_FILE) =
       Some js' \<and> list_all (lease_ok (li_fabricId some_input)) js' \<and>
    (case fst (upsertLease some_env some_input some_home :: (unit herr + merged_lease) \<times> hworld) of
       Inr m \<Rightarrow> merged_ok some_input [some_lease] (js', ml_entry m, ml_created m) \<and> ml_total m = length js'
     | Inl er \<Rightarrow> ledger_after some_input [some_lease] js')"
proof (rule upsertLease_records_once [OF some_quiet])
  show "leases_at (map_of (hw_files some_home) LEASES_FILE) = Some [some_lease]" by (simp add: some_home_def home_with_def)
  show "list_all (lease_ok (li_fabricId some_input)) [some_lease]"
    by (simp add: some_input_def some_lease_def lease_ok_def str_field_def num_field_def jget_def hex64_const hex_digits)
  show "hex64 (li_root some_input)" by (simp add: some_input_def hex64_const hex_digits)
qed simp

text \<open>A damaged ledger leaves the lock of the ledger behind: the release is not in a \<^verbatim>\<open>finally\<close>.\<close>

lemma damaged_ledger_keeps_lock:
  assumes "he_dies e = (\<lambda>n. False)" and "he_denied e = (\<lambda>n. False)"
    and "map_of (hw_files w) LEASES_LOCK = None" and "map_of (hw_files w) LEASES_FILE = Some (HFile (Raw bs))"
  shows "case upsertLease e inp w of (r, w') \<Rightarrow>
    r = Inl (BadFile LEASES_FILE) \<and> map_of (hw_files w') LEASES_LOCK = Some (HFile (lock_token (he_pid e) (he_now e (Suc (hw_tick w)))))"
  using assms
  by (simp add: upsertLease_def acquireFileLock_def lock_attempts.simps LOCK_RETRIES_def ebind_def io_def ask_def tryCreate_def
      open_excl_def write_open_def loadLeases_def readFile_def ledger_entries_def Let_def not_tracked(1) [symmetric])

end
