(* ===== verification/RegisterProps.thy ===== *)
theory RegisterProps
  imports Join ShortRound Z32
begin

text \<open>
  The texts of the admission protocol: the strict base64url decoder with its 32-bit accumulator, and the
  signed texts, from which the signed fields can be read back.
\<close>

subsection \<open>Base64url\<close>

text \<open>One turn of the loop, on numbers.\<close>

lemma accumulator:
  fixes acc :: "32 word"
  assumes "d < 64" and "bits < 8"
  shows "unat (push_bit 6 acc OR word_of_nat d) mod 2 ^ (bits + 6) = unat acc mod 2 ^ bits * 64 + d"
proof -
  have d: "unat (word_of_nat d :: 32 word) = d" "take_bit (bits + 6) d = d"
    using assms(1) proof -
    show "unat (word_of_nat d :: 32 word) = d" using assms(1) by (simp add: unsigned_of_nat take_bit_nat_eq_self)
    have "d < 2 ^ 6 * 2 ^ bits" using assms(1) by (rule less_le_trans) simp
    then show "take_bit (bits + 6) d = d" by (simp add: take_bit_nat_eq_self power_add mult.commute)
  qed
  have "unat (push_bit 6 acc OR word_of_nat d) mod 2 ^ (bits + 6) = take_bit (bits + 6) (take_bit 32 (push_bit 6 (unat acc)) OR d)"
    by (simp add: unsigned_or_eq unsigned_push_bit_eq d(1) take_bit_eq_mod)
  also have "\<dots> = push_bit 6 (take_bit bits (unat acc)) OR d"
    using assms(2) by (simp add: take_bit_or d(2) take_bit_push_bit)
  also have "\<dots> = push_bit 6 (take_bit bits (unat acc)) + d"
  proof (rule disjunctive_add_eq_or [symmetric])
    have "push_bit 6 (take_bit bits (unat acc)) AND take_bit 6 d = 0"
      by (rule bit_eqI) (auto simp: bit_simps)
    then show "push_bit 6 (take_bit bits (unat acc)) AND d = 0"
      using assms(1) by (simp add: take_bit_nat_eq_self)
  qed
  finally show ?thesis by (simp add: push_bit_eq_mult take_bit_eq_mod)
qed

lemma top_byte:
  fixes acc :: "32 word"
  shows "ucast (drop_bit k acc AND 0xff) = (word_of_nat (unat acc mod 2 ^ (k + 8) div 2 ^ k mod 2 ^ 8) :: 8 word)"
proof -
  have "drop_bit k acc AND 0xff = take_bit 8 (drop_bit k acc)" by (simp add: take_bit_eq_mask mask_eq_exp_minus_1)
  then have "ucast (drop_bit k acc AND 0xff) = (ucast (drop_bit k acc) :: 8 word)"
    by (intro bit_word_eqI) (simp add: bit_simps)
  also have "\<dots> = word_of_nat (unat (drop_bit k acc))" by simp
  also have "\<dots> = word_of_nat (take_bit 8 (drop_bit k (unat acc)))"
    by (intro bit_word_eqI) (auto simp: bit_simps unsigned_drop_bit_eq dest: bit_imp_le_length)
  also have "take_bit 8 (drop_bit k (unat acc)) = take_bit 8 (drop_bit k (take_bit (k + 8) (unat acc)))"
    by (intro bit_eqI) (simp add: bit_simps)
  finally show ?thesis by (simp add: take_bit_eq_mod drop_bit_eq_div)
qed

lemma emit_once:
  "bits < 16 \<Longrightarrow> emit 8 acc bits = (if bits < 8 then ([], bits) else ([acc div 2 ^ (bits - 8) mod 2 ^ 8], bits - 8))"
  by (subst emit.simps, subst emit.simps) auto

lemma alphabet64: "length B64U_ALPHABET = 64" "distinct B64U_ALPHABET"
  by (simp_all add: B64U_ALPHABET_def)

lemma b64u_value_nth: "n < 64 \<Longrightarrow> b64u_value (B64U_ALPHABET ! n) = Some n"
  unfolding b64u_value_def
  using map_of_zip_nth [OF _ alphabet64(2), of "[0..<64]" n] alphabet64(1) by simp

lemma b64u_valueD: "b64u_value c = Some n \<Longrightarrow> n < 64 \<and> c = B64U_ALPHABET ! n"
  unfolding b64u_value_def by (drule map_of_SomeD) (auto simp: set_zip alphabet64)

lemma loop_regroup:
  assumes "bits < 8" and "\<forall>d \<in> set ns. d < 64"
  shows "\<exists>acc'. (b64u_loop (map (nth B64U_ALPHABET) ns) acc bits :: 'x herr + bytes \<times> 32 word \<times> nat) =
      Inr (map word_of_nat (fst (regroup 6 8 ns (unat acc mod 2 ^ bits) bits)), acc', snd (snd (regroup 6 8 ns (unat acc mod 2 ^ bits) bits))) \<and>
    unat acc' mod 2 ^ snd (snd (regroup 6 8 ns (unat acc mod 2 ^ bits) bits)) = fst (snd (regroup 6 8 ns (unat acc mod 2 ^ bits) bits)) \<and>
    snd (snd (regroup 6 8 ns (unat acc mod 2 ^ bits) bits)) < 8"
  using assms
proof (induction ns arbitrary: acc bits)
  case (Cons d ns)
  let ?acc = "push_bit 6 acc OR word_of_nat d" and ?n = "unat acc mod 2 ^ bits * 64 + d"
  have n: "unat ?acc mod 2 ^ (bits + 6) = ?n" using accumulator Cons.prems by simp
  show ?case
  proof (cases "bits + 6 < 8")
    case True
    then have em: "emit 8 ?n (bits + 6) = ([], bits + 6)" by (simp add: emit_once)
    have mod: "?n mod 2 ^ (bits + 6) = unat ?acc mod 2 ^ (bits + 6)" using n by (metis mod_mod_trivial)
    from Cons.IH [OF True, of ?acc] Cons.prems(2) True show ?thesis
      by (simp add: b64u_value_nth Let_def em split_def mod del: power_add)
  next
    case False
    let ?b = "bits - 2"
    have b: "bits + 6 - 8 = ?b" "?b < 8" "?b + 8 = bits + 6" using False Cons.prems(1) by auto
    have em: "emit 8 ?n (bits + 6) = ([?n div 2 ^ ?b mod 2 ^ 8], ?b)" using False Cons.prems(1) b(1) by (simp add: emit_once)
    have mod: "?n mod 2 ^ ?b = unat ?acc mod 2 ^ ?b" unfolding n [symmetric] b(3) [symmetric]
      by (simp add: power_add mod_mod_cancel)
    have byte: "ucast (drop_bit ?b ?acc AND 0xff) = (word_of_nat (?n div 2 ^ ?b mod 2 ^ 8) :: 8 word)"
      unfolding top_byte b(3) n ..
    from Cons.IH [OF b(2), of ?acc] Cons.prems(2) False b(1) byte show ?thesis
      by (auto simp: b64u_value_nth Let_def em split_def mod simp del: power_add)
  qed
qed simp

text \<open>What the decoder accepts, on bits: valid characters whose incomplete last group is zero.\<close>

lemma tail_bits:
  fixes acc :: "32 word"
  shows "acc AND (2 ^ bits - 1) = 0 \<longleftrightarrow> unat acc mod 2 ^ bits = 0"
proof -
  have "acc AND (2 ^ bits - 1) = take_bit bits acc" by (simp add: take_bit_eq_mask mask_eq_exp_minus_1)
  moreover have "unat (take_bit bits acc) = unat acc mod 2 ^ bits"
    unfolding unsigned_take_bit_eq by (rule take_bit_eq_mod)
  ultimately show ?thesis by (metis unsigned_0 unsigned_word_eqI)
qed

lemma loop_chars:
  "(b64u_loop s acc bits :: 'x herr + bytes \<times> 32 word \<times> nat) = Inr r \<Longrightarrow> \<exists>ns. s = map (nth B64U_ALPHABET) ns \<and> (\<forall>d \<in> set ns. d < 64)"
proof (induction s arbitrary: acc bits r)
  case (Cons c s)
  then obtain v acc' bits' r' where v: "b64u_value c = Some v" and s: "(b64u_loop s acc' bits' :: 'x herr + bytes \<times> 32 word \<times> nat) = Inr r'"
    by (auto simp: Let_def rbind_eq_Inr split: option.splits if_splits)
  from Cons.IH [OF s] b64u_valueD [OF v] show ?case by (metis list.simps(9) set_ConsD)
qed simp

lemma decoder_bits:
  assumes "\<forall>d \<in> set ns. d < 64" and "ns \<noteq> []"
  shows "(fromBase64UrlNoPad (map (nth B64U_ALPHABET) ns) :: 'x herr + bytes) =
    (case regroup 6 8 ns 0 0 of (out, a, b) \<Rightarrow> if 0 < b \<and> a \<noteq> 0 then Inl TypeErr else Inr (map word_of_nat out))"
proof -
  obtain acc' where l: "(b64u_loop (map (nth B64U_ALPHABET) ns) 0 0 :: 'x herr + bytes \<times> 32 word \<times> nat) =
      Inr (map word_of_nat (fst (regroup 6 8 ns 0 0)), acc', snd (snd (regroup 6 8 ns 0 0)))"
    "unat acc' mod 2 ^ snd (snd (regroup 6 8 ns 0 0)) = fst (snd (regroup 6 8 ns 0 0))"
    using loop_regroup [of 0 ns 0, where 'x = 'x] assms(1) by auto
  show ?thesis using assms(2) l(2) by (simp add: fromBase64UrlNoPad_def l(1) tail_bits split_def)
qed

lemma toBase64Url_pieces: "toBase64UrlNoPad bs = map (nth B64U_ALPHABET) (map of_bits (pieces 6 bs))"
  by (simp add: toBase64UrlNoPad_def regroup_pieces)

lemma pieces_small: "\<forall>d \<in> set (map of_bits (pieces 6 bs)). d < 64"
  using of_bits_all [of "pieces 6 bs" 6] pieces_props [of 6 bs] by auto

lemma sextets:
  fixes a b n y z :: nat
  assumes "6 * a = 8 * n + y" and "6 * b = 8 * n + z" and "z < 6" and "y < 8"
  shows "y \<noteq> 6 \<Longrightarrow> a = b" and "y = 6 \<Longrightarrow> a = Suc b" and "y = 6 \<Longrightarrow> z = 0" and "y = 6 \<Longrightarrow> 3 dvd n"
proof -
  assume "y \<noteq> 6"
  moreover have "y \<noteq> 7" using assms(1) by (metis even_add even_mult_iff even_numeral odd_numeral)
  ultimately have "y < 6" using assms(4) by linarith
  with assms(1-3) show "a = b" by linarith
next
  assume y: "y = 6"
  with assms show a: "a = Suc b" by linarith
  with assms y show "z = 0" by linarith
  from assms(1) y have "4 * n = 3 * (a - 1)" by simp
  then have "3 dvd 4 * n" by simp
  then show "3 dvd n" by presburger
qed

lemma bytes_of_groups:
  assumes "\<forall>g \<in> set gs. length g = 8"
  shows "concat (map (to_bits 8) (map unat (map word_of_nat (map of_bits gs) :: bytes))) = concat gs"
proof -
  have "unat (word_of_nat (of_bits g) :: 8 word) = of_bits g" if "g \<in> set gs" for g
    using of_bits_bound [of g] assms that by (simp add: unsigned_of_nat take_bit_nat_eq_self)
  then have "map unat (map word_of_nat (map of_bits gs) :: bytes) = map of_bits gs" by simp
  then show ?thesis by (simp only: map_to_of_bits [OF assms])
qed

text \<open>
  The decoder of signatures accepts exactly what the encoder writes, except that for byte strings
  whose length is a multiple of three one more \<^verbatim>\<open>A\<close>, six zero bits that belong to no byte, passes the check of
  the trailing bits; the 32-bit accumulator loses nothing that is still needed.
\<close>

theorem base64url_accepts:
  "(fromBase64UrlNoPad s :: 'x herr + bytes) = Inr bs \<longleftrightarrow>
     s \<noteq> [] \<and> (s = toBase64UrlNoPad bs \<or> 3 dvd length bs \<and> s = toBase64UrlNoPad bs @ ''A'')"
proof
  assume a: "(fromBase64UrlNoPad s :: 'x herr + bytes) = Inr bs"
  then have ne: "s \<noteq> []" by (auto simp: fromBase64UrlNoPad_def)
  with a obtain r where "(b64u_loop s 0 0 :: 'x herr + bytes \<times> 32 word \<times> nat) = Inr r"
    by (auto simp: fromBase64UrlNoPad_def rbind_eq_Inr)
  from loop_chars [OF this] obtain ns where s: "s = map (nth B64U_ALPHABET) ns" "\<forall>d \<in> set ns. d < 2 ^ 6" by auto
  let ?D = "concat (map (to_bits 6) ns)"
  let ?g = "groups 8 ?D"
  have r: "regroup 6 8 ns 0 0 = (map of_bits (fst ?g), of_bits (snd ?g), length (snd ?g))"
    using s(2) by (intro regroup_bits) simp_all
  from a ne s have b: "bs = map word_of_nat (map of_bits (fst ?g))" and zero: "snd ?g = [] \<or> of_bits (snd ?g) = 0"
    by (auto simp: decoder_bits r split: if_splits)
  have p: "concat (fst ?g) @ snd ?g = ?D" "\<forall>g \<in> set (fst ?g). length g = 8" "length (snd ?g) < 8"
    using groups_props [of 8 ?D] by simp_all
  have "byte_bits bs = concat (fst ?g)" unfolding b byte_bits_def by (rule bytes_of_groups [OF p(2)])
  moreover have "snd ?g = replicate (length (snd ?g)) False" using zero of_bits_zero by fastforce
  ultimately have D: "concat (map (to_bits 6) ns) = byte_bits bs @ replicate (length (snd ?g)) False"
    using p(1) by simp
  obtain z where z: "concat (pieces 6 bs) = byte_bits bs @ replicate z False" "z < 6" "\<forall>g \<in> set (pieces 6 bs). length g = 6"
    using pieces_props [of 6 bs] by auto
  have len: "6 * length ns = 8 * length bs + length (snd ?g)" "6 * length (pieces 6 bs) = 8 * length bs + z"
    using arg_cong [OF D, of length] arg_cong [OF z(1), of length] length_concat_const [OF z(3)]
      length_concat_const [of "map (to_bits 6) ns" 6] length_concat_const [of "map (to_bits 8) (map unat bs)" 8]
    by (simp_all add: byte_bits_def)
  show "s \<noteq> [] \<and> (s = toBase64UrlNoPad bs \<or> 3 dvd length bs \<and> s = toBase64UrlNoPad bs @ ''A'')"
  proof (cases "length (snd ?g) = 6")
    case False
    with sextets(1) [OF len z(2) p(3)] have "length ns = length (pieces 6 bs)" .
    then have "map (to_bits 6) ns = pieces 6 bs" by (intro pieces_unique [OF _ _ D]) auto
    then have "ns = map of_bits (pieces 6 bs)" using map_of_to_bits [OF s(2)] by metis
    then show ?thesis using ne unfolding s(1) toBase64Url_pieces by simp
  next
    case True
    note l = sextets(2-4) [OF len z(2) p(3) True]
    let ?hs = "pieces 6 bs @ [replicate 6 False]"
    have c: "concat (map (to_bits 6) ns) = concat ?hs" using D z(1) l(2) True by simp
    have "groups 6 (concat ?hs @ []) = (?hs, [])" by (rule groups_unique) (use z(3) in auto)
    moreover have "groups 6 (concat (map (to_bits 6) ns) @ []) = (map (to_bits 6) ns, [])" by (rule groups_unique) auto
    ultimately have "map (to_bits 6) ns = ?hs" unfolding c by (metis prod.inject)
    then have "ns = map of_bits ?hs" using map_of_to_bits [OF s(2)] by metis
    then show ?thesis using ne l(3) unfolding s(1) toBase64Url_pieces by (simp add: B64U_ALPHABET_def)
  qed
next
  obtain z where z: "concat (pieces 6 bs) = byte_bits bs @ replicate z False" "z < 6" "\<forall>g \<in> set (pieces 6 bs). length g = 6"
    using pieces_props [of 6 bs] by auto
  assume a: "s \<noteq> [] \<and> (s = toBase64UrlNoPad bs \<or> 3 dvd length bs \<and> s = toBase64UrlNoPad bs @ ''A'')"
  then consider "s = toBase64UrlNoPad bs" | "3 dvd length bs" "s = toBase64UrlNoPad bs @ ''A''" by blast
  then show "(fromBase64UrlNoPad s :: 'x herr + bytes) = Inr bs"
  proof cases
    case 1
    have "regroup 6 8 (map of_bits (pieces 6 bs)) 0 0 = (map unat bs, 0, z)"
      using z by (intro decode_pieces) auto
    with 1 a pieces_small [of bs] show ?thesis unfolding 1 toBase64Url_pieces
      by (subst decoder_bits) (auto simp: o_def toBase64Url_pieces)
  next
    case 2
    have "z = 0"
      using arg_cong [OF z(1), of length] length_concat_const [OF z(3)] z(2) 2(1)
        length_concat_const [of "map (to_bits 8) (map unat bs)" 8] by (simp add: byte_bits_def) presburger
    let ?hs = "pieces 6 bs @ [replicate 6 False]"
    have r: "regroup 6 8 (map of_bits ?hs) 0 0 = (map unat bs, 0, 6)"
      using z \<open>z = 0\<close> by (intro decode_pieces) auto
    have s: "s = map (nth B64U_ALPHABET) (map of_bits ?hs)"
      unfolding 2(2) toBase64Url_pieces by (simp add: B64U_ALPHABET_def)
    have d: "(fromBase64UrlNoPad (map (nth B64U_ALPHABET) (map of_bits ?hs)) :: 'x herr + bytes) =
        (case regroup 6 8 (map of_bits ?hs) 0 0 of (out, a, b) \<Rightarrow> if 0 < b \<and> a \<noteq> 0 then Inl TypeErr else Inr (map word_of_nat out))"
      by (rule decoder_bits) (use pieces_small [of bs] in auto)
    show ?thesis unfolding s d r by (simp add: o_def)
  qed
qed

text \<open>A signature, 64 bytes, has one spelling.\<close>

lemma signature_spelling:
  "(fromBase64UrlNoPad s :: 'x herr + bytes) = Inr bs \<Longrightarrow> length bs = 64 \<Longrightarrow> s = toBase64UrlNoPad bs"
  using base64url_accepts [of s bs, where 'x = 'x] by auto

subsection \<open>Signed texts\<close>

lemma hex_char_value: "is_hex c \<Longrightarrow> hex_char (hex_value c) = c"
proof -
  assume "is_hex c"
  then consider "is_digit c" | "\<not> is_digit c" "CHR ''a'' \<le> c" "c \<le> CHR ''f''" by (auto simp: is_hex_def)
  then show ?thesis
  proof cases
    case 1
    then have "48 \<le> (of_char c :: nat)" "(of_char c :: nat) \<le> 57" by (simp_all add: is_digit_def less_eq_char_def)
    moreover from this have "(of_char c :: nat) - 48 < 10" by linarith
    ultimately show ?thesis using 1 by (simp add: hex_value_def hex_char_def)
  next
    case 2
    then have "97 \<le> (of_char c :: nat)" "\<not> c \<le> CHR ''Z''" by (simp_all add: less_eq_char_def)
    moreover from this have "\<not> (of_char c :: nat) - 87 < 10" by linarith
    ultimately show ?thesis using 2 by (simp add: hex_value_def hex_char_def ascii_lower_def)
  qed
qed

lemma ascii_lower_hex: "is_hex c \<Longrightarrow> ascii_lower c = c"
  by (auto simp: is_hex_def is_digit_def ascii_lower_def less_eq_char_def)

lemma hex_pair:
  assumes "is_hex a" and "is_hex b"
  shows "byte_hex (word_of_nat (parse_hex [a, b])) = [a, b]"
proof -
  have l: "ascii_lower a = a" "ascii_lower b = b"
    using assms by (simp_all add: ascii_lower_hex)
  with assms have v: "hex_value a < 16" "hex_value b < 16" by (simp_all add: hex_value_bound)
  have u: "unat (word_of_nat n :: 8 word) = n" if "n < 256" for n
    using that by (simp add: unsigned_of_nat take_bit_nat_eq_self)
  have p: "parse_hex [a, b] = 16 * hex_value a + hex_value b" by (simp add: parse_hex_def)
  from v have "16 * hex_value a + hex_value b < 256" by linarith
  from u [OF this] show ?thesis unfolding byte_hex_def p using v assms by (simp only:) (simp add: hex_char_value)
qed

lemma hex_pairs_back: "list_all is_hex s \<Longrightarrow> even (length s) \<Longrightarrow> bytes_hex (hex_pairs s) = s"
  by (induction s rule: hex_pairs.induct) (auto simp: bytes_hex_def hex_pair)

lemma be_bytes_Suc: "be_bytes (Suc k) n = be_bytes k (n div 256) @ [word_of_nat (n mod 256)]"
proof -
  have "n div 256 ^ (k - i) = n div 256 div 256 ^ (k - 1 - i)" if "i < k" for i
    using that by (simp add: div_mult2_eq [symmetric] power_Suc [symmetric] Suc_diff_Suc)
  then show ?thesis by (simp add: be_bytes_def)
qed

lemma be_bytes_inj: "m < 256 ^ k \<Longrightarrow> n < 256 ^ k \<Longrightarrow> be_bytes k m = be_bytes k n \<Longrightarrow> m = n"
proof (induction k arbitrary: m n)
  case (Suc k)
  have "(word_of_nat (m mod 256) :: 8 word) = word_of_nat (n mod 256)" and d: "be_bytes k (m div 256) = be_bytes k (n div 256)"
    using Suc.prems(3) by (simp_all add: be_bytes_Suc)
  then have "unat (word_of_nat (m mod 256) :: 8 word) = unat (word_of_nat (n mod 256) :: 8 word)" by simp
  then have "m mod 256 = n mod 256" by (simp add: unsigned_of_nat take_bit_eq_mod)
  moreover have "m div 256 = n div 256"
    using Suc.prems d by (intro Suc.IH) (auto simp: less_mult_imp_div_less mult.commute)
  ultimately show ?case by (metis div_mod_decomp)
qed simp

lemma u64BE_inj: "(u64BE a :: 'x herr + bytes) = Inr bs \<Longrightarrow> (u64BE b :: 'x herr + bytes) = Inr bs \<Longrightarrow> a = b"
proof -
  assume u: "(u64BE a :: 'x herr + bytes) = Inr bs" "(u64BE b :: 'x herr + bytes) = Inr bs"
  then have r: "0 \<le> a" "a \<le> MAX_SAFE_INTEGER" "0 \<le> b" "b \<le> MAX_SAFE_INTEGER" "be_bytes 8 (nat a) = be_bytes 8 (nat b)"
    by (auto simp: u64BE_def split: if_splits)
  have "nat a < 256 ^ 8" "nat b < 256 ^ 8" using r by (simp_all add: MAX_SAFE_INTEGER_def)
  from be_bytes_inj [OF this r(5)] r show "a = b" by simp
qed

lemma u64BE_length: "(u64BE a :: 'x herr + bytes) = Inr bs \<Longrightarrow> length bs = 8"
  by (auto simp: u64BE_def be_bytes_def split: if_splits)

lemma ascii_bytes_inj: "ascii_bytes s = ascii_bytes s' \<Longrightarrow> s = s'"
proof -
  have "inj (\<lambda>c. word_of_nat (of_char c) :: 8 word)"
  proof (rule injI)
    fix c d :: char
    assume "(word_of_nat (of_char c) :: 8 word) = word_of_nat (of_char d)"
    then have "unat (word_of_nat (of_char c) :: 8 word) = unat (word_of_nat (of_char d) :: 8 word)" by simp
    then have "(of_char c :: nat) mod 256 = of_char d mod 256" by (simp add: unsigned_of_nat take_bit_eq_mod)
    then have "(of_char c :: nat) = of_char d" by simp
    then show "c = d" by (simp only: of_char_eq_iff)
  qed
  then show "ascii_bytes s = ascii_bytes s' \<Longrightarrow> s = s'" by (simp add: ascii_bytes_def inj_map_eq_map)
qed

lemma requireHex64_hex: "(requireHex64 v :: 'x herr + string) = Inr h \<Longrightarrow> length h = 64 \<and> list_all is_hex h"
  by (auto simp: requireHex64_def any_hex64_def to_lower_def list_all_iff split: option.splits json.splits if_splits)

datatype signed_text =
    RegisterText string string string int
  | ReceiptText string string string int int

fun signed_bytes :: "signed_text \<Rightarrow> 'x herr + bytes" where
  "signed_bytes (RegisterText code f r t) = buildRegisterCanonical code f r t"
| "signed_bytes (ReceiptText c f r t g) = buildRegisterReceiptCanonical c f r t g"

text \<open>The fields as they are signed: ids in lower case.\<close>

fun canonical_fields :: "signed_text \<Rightarrow> signed_text" where
  "canonical_fields (RegisterText code f r t) = RegisterText code (to_lower f) (to_lower r) t"
| "canonical_fields (ReceiptText c f r t g) = ReceiptText (to_lower c) (to_lower f) (to_lower r) t g"

lemma requireHex64_lower: "(requireHex64 (Some (JStr s)) :: 'x herr + string) = Inr h \<Longrightarrow> h = to_lower s"
  by (auto simp: requireHex64_def split: if_splits)

lemma hexToBytes32_inj:
  assumes "(hexToBytes32 s :: 'x herr + bytes) = Inr bs"
  shows "length bs = 32 \<and> bytes_hex bs = to_lower s"
proof -
  from assms obtain h where h: "(requireHex64 (Some (JStr s)) :: 'x herr + string) = Inr h" "bs = hex_pairs h"
    by (auto simp: hexToBytes32_def rbind_eq_Inr)
  have len: "length (hex_pairs x) = length x div 2" for x by (induction x rule: hex_pairs.induct) auto
  from requireHex64_hex [OF h(1)] requireHex64_lower [OF h(1)] show ?thesis by (simp add: h(2) len hex_pairs_back)
qed

lemma register_fields:
  assumes "(buildRegisterCanonical c f r t :: 'x herr + bytes) = Inr m"
  shows "\<exists>ts. (u64BE t :: 'x herr + bytes) = Inr ts \<and> length (to_lower f) = 64 \<and> length (to_lower r) = 64 \<and>
    m = REGISTER_DOMAIN @ ascii_bytes c @ ascii_bytes (to_lower f) @ ascii_bytes (to_lower r) @ ts"
  using assms requireHex64_hex requireHex64_lower
  by (fastforce simp: buildRegisterCanonical_def rbind_eq_Inr split: if_splits)

lemma receipt_fields_of:
  assumes "(buildRegisterReceiptCanonical c f r t g :: 'x herr + bytes) = Inr m"
  shows "\<exists>cb fb rb ts gs. (hexToBytes32 c :: 'x herr + bytes) = Inr cb \<and> (hexToBytes32 f :: 'x herr + bytes) = Inr fb \<and>
    (hexToBytes32 r :: 'x herr + bytes) = Inr rb \<and> (u64BE t :: 'x herr + bytes) = Inr ts \<and> (u64BE g :: 'x herr + bytes) = Inr gs \<and>
    m = RECEIPT_DOMAIN @ cb @ fb @ rb @ ts @ gs"
  using assms by (auto simp: buildRegisterReceiptCanonical_def rbind_eq_Inr)

lemma domains_differ: "REGISTER_DOMAIN @ x \<noteq> RECEIPT_DOMAIN @ y"
  by (simp add: REGISTER_DOMAIN_def RECEIPT_DOMAIN_def ascii_bytes_def)

lemma register_inj:
  assumes "(buildRegisterCanonical c f r t :: 'x herr + bytes) = Inr m" and "(buildRegisterCanonical c' f' r' t' :: 'x herr + bytes) = Inr m"
  shows "c = c' \<and> to_lower f = to_lower f' \<and> to_lower r = to_lower r' \<and> t = t'"
proof -
  from register_fields [OF assms(1)] register_fields [OF assms(2)] obtain ts ts' where
    u: "(u64BE t :: 'x herr + bytes) = Inr ts" "(u64BE t' :: 'x herr + bytes) = Inr ts'"
    and len: "length (to_lower f) = length (to_lower f')" "length (to_lower r) = length (to_lower r')"
    and eq: "ascii_bytes c @ ascii_bytes (to_lower f) @ ascii_bytes (to_lower r) @ ts =
      ascii_bytes c' @ ascii_bytes (to_lower f') @ ascii_bytes (to_lower r') @ ts'" by auto
  have lts: "length ts = length ts'" using u by (simp add: u64BE_length)
  have al: "length (ascii_bytes s) = length s" for s by (simp add: ascii_bytes_def)
  from eq lts len have "ascii_bytes c = ascii_bytes c' \<and> ascii_bytes (to_lower f) = ascii_bytes (to_lower f') \<and>
      ascii_bytes (to_lower r) = ascii_bytes (to_lower r') \<and> ts = ts'"
    by (simp add: append_eq_append_conv al flip: append_assoc)
  with u show ?thesis by (auto dest: ascii_bytes_inj intro: u64BE_inj)
qed

lemma receipt_inj:
  assumes "(buildRegisterReceiptCanonical c f r t g :: 'x herr + bytes) = Inr m"
    and "(buildRegisterReceiptCanonical c' f' r' t' g' :: 'x herr + bytes) = Inr m"
  shows "to_lower c = to_lower c' \<and> to_lower f = to_lower f' \<and> to_lower r = to_lower r' \<and> t = t' \<and> g = g'"
proof -
  from receipt_fields_of [OF assms(1)] obtain cb fb rb ts gs where a: "(hexToBytes32 c :: 'x herr + bytes) = Inr cb"
    "(hexToBytes32 f :: 'x herr + bytes) = Inr fb" "(hexToBytes32 r :: 'x herr + bytes) = Inr rb"
    "(u64BE t :: 'x herr + bytes) = Inr ts" "(u64BE g :: 'x herr + bytes) = Inr gs" "m = RECEIPT_DOMAIN @ cb @ fb @ rb @ ts @ gs" by blast
  from receipt_fields_of [OF assms(2)] obtain cb' fb' rb' ts' gs' where b: "(hexToBytes32 c' :: 'x herr + bytes) = Inr cb'"
    "(hexToBytes32 f' :: 'x herr + bytes) = Inr fb'" "(hexToBytes32 r' :: 'x herr + bytes) = Inr rb'"
    "(u64BE t' :: 'x herr + bytes) = Inr ts'" "(u64BE g' :: 'x herr + bytes) = Inr gs'" "m = RECEIPT_DOMAIN @ cb' @ fb' @ rb' @ ts' @ gs'" by blast
  note ha = a(1-3) [THEN hexToBytes32_inj] and hb = b(1-3) [THEN hexToBytes32_inj]
  have "cb = cb' \<and> fb = fb' \<and> rb = rb' \<and> ts = ts' \<and> gs = gs'"
    using a(6) b(6) ha hb u64BE_length [OF a(4)] u64BE_length [OF b(4)] by simp
  with ha hb a(4,5) b(4,5) show ?thesis by (auto intro: u64BE_inj)
qed

text \<open>
  What is signed is unambiguous: two texts that are signed as the same bytes have the same fields, up
  to the case of the ids, and no request can be taken for a receipt.
\<close>

theorem signed_texts_are_unambiguous:
  assumes "(signed_bytes x :: unit herr + bytes) = Inr m" and "(signed_bytes y :: unit herr + bytes) = Inr m"
  shows "canonical_fields x = canonical_fields y"
proof (cases x)
  case (RegisterText c f r t)
  show ?thesis
  proof (cases y)
    case (RegisterText c' f' r' t')
    with assms \<open>x = RegisterText c f r t\<close> register_inj [of c f r t m c' f' r' t', where 'x = unit] show ?thesis by simp
  next
    case (ReceiptText c' f' r' t' g')
    with assms \<open>x = RegisterText c f r t\<close> show ?thesis
      by (auto dest!: register_fields receipt_fields_of simp: domains_differ)
  qed
next
  case (ReceiptText c f r t g)
  show ?thesis
  proof (cases y)
    case (RegisterText c' f' r' t')
    with assms \<open>x = ReceiptText c f r t g\<close> show ?thesis
      by (auto dest!: register_fields receipt_fields_of) (metis domains_differ)
  next
    case (ReceiptText c' f' r' t' g')
    with assms \<open>x = ReceiptText c f r t g\<close> receipt_inj [of c f r t g m c' f' r' t' g', where 'x = unit] show ?thesis by simp
  qed
qed

lemma signed_texts_are_unambiguous_witness:
  "\<exists>x y m. x \<noteq> y \<and> (signed_bytes x :: unit herr + bytes) = Inr m \<and> (signed_bytes y :: unit herr + bytes) = Inr m \<and>
     canonical_fields x = canonical_fields y"
proof -
  let ?x = "RegisterText ''code'' (replicate 64 CHR ''A'') (replicate 64 CHR ''5'') 7"
  let ?y = "RegisterText ''code'' (replicate 64 CHR ''a'') (replicate 64 CHR ''5'') 7"
  have l: "to_lower (replicate 64 CHR ''A'') = replicate 64 CHR ''a''" "to_lower (replicate 64 CHR ''a'') = replicate 64 CHR ''a''"
    "any_hex64 (replicate 64 CHR ''A'')" "any_hex64 (replicate 64 CHR ''a'')" "any_hex64 (replicate 64 CHR ''5'')" by code_simp+
  then obtain m where m: "(signed_bytes ?x :: unit herr + bytes) = Inr m" "(signed_bytes ?y :: unit herr + bytes) = Inr m"
    by (simp add: buildRegisterCanonical_def requireHex64_def u64BE_def MAX_SAFE_INTEGER_def)
  moreover have "?x \<noteq> ?y" by simp
  ultimately show ?thesis using signed_texts_are_unambiguous [OF m] by blast
qed

end
