(* ===== verification/Gf256.thy ===== *)
theory Gf256
  imports Prelude "HOL-Library.Word"
begin

text \<open>
  The field of the Reed-Solomon code of the QR encoder (opendweb, qr.mjs): the tables of powers and
  logarithms, multiplication through them, and the proof that bytes with exclusive or and this
  multiplication are a field.
\<close>

unbundle bit_operations_syntax

subsection \<open>The tables\<close>

text \<open>One turn of the loop that fills the tables; the shift leaves eight bits, the mask cuts them.\<close>

definition gf_step :: "8 word \<Rightarrow> 8 word" where
  "gf_step x = ucast ((push_bit 1 (ucast x :: 32 word) XOR (if x AND 0x80 \<noteq> 0 then 0x11d else 0)) AND 0xff)"

fun gf_fill :: "nat \<Rightarrow> nat \<Rightarrow> 8 word \<Rightarrow> 8 word list \<Rightarrow> nat list \<Rightarrow> 8 word list \<times> nat list" where
  "gf_fill i 0 x es ls = (es, ls)"
| "gf_fill i (Suc n) x es ls = gf_fill (Suc i) n (gf_step x) (es[i := x]) (ls[unat x := i])"

definition gf_tables :: "8 word list \<times> nat list" where
  "gf_tables = gf_fill 0 255 1 (replicate 512 0) (replicate 256 0)"

definition GF_EXP :: "8 word list" where
  "GF_EXP = foldl (\<lambda>es i. es[i := es ! (i - 255)]) (fst gf_tables) [255..<512]"

definition GF_LOG :: "nat list" where
  "GF_LOG = snd gf_tables"

definition gmul :: "8 word \<Rightarrow> 8 word \<Rightarrow> 8 word" where
  "gmul a b = (if a = 0 \<or> b = 0 then 0 else GF_EXP ! (GF_LOG ! unat a + GF_LOG ! unat b))"

subsection \<open>The powers of two\<close>

definition gf_pow :: "nat \<Rightarrow> 8 word" where
  "gf_pow i = (gf_step ^^ i) 1"

lemma gf_pow_0 [simp]: "gf_pow 0 = 1"
  by (simp add: gf_pow_def)

lemma gf_pow_Suc: "gf_pow (Suc i) = gf_step (gf_pow i)"
  by (simp add: gf_pow_def)

lemma gf_pow_add: "gf_pow (i + j) = (gf_step ^^ i) (gf_pow j)"
  by (simp add: gf_pow_def funpow_add)

fun gf_orbit :: "nat \<Rightarrow> 8 word \<Rightarrow> 8 word list" where
  "gf_orbit 0 x = []"
| "gf_orbit (Suc n) x = x # gf_orbit n (gf_step x)"

lemma gf_orbit_nth: "i < n \<Longrightarrow> gf_orbit n x ! i = (gf_step ^^ i) x"
  by (induction n arbitrary: i x) (auto simp: nth_Cons funpow_swap1 split: nat.split)

lemma length_gf_orbit [simp]: "length (gf_orbit n x) = n"
  by (induction n arbitrary: x) auto

text \<open>The order of two is 255.\<close>

lemma gf_order: "list_all (\<lambda>x. x \<noteq> 1) (gf_orbit 254 (gf_step 1))" "gf_orbit 255 (gf_step 1) ! 254 = 1"
  by code_simp+

lemma gf_pow_shift: "(gf_step ^^ i) (gf_step 1) = gf_pow (Suc i)"
  by (simp add: gf_pow_def funpow_swap1)

lemma gf_pow_255 [simp]: "gf_pow 255 = 1"
  using gf_order(2) gf_orbit_nth [of 254 255 "gf_step 1"] gf_pow_shift [of 254] by simp

lemma gf_pow_not_1: "0 < i \<Longrightarrow> i < 255 \<Longrightarrow> gf_pow i \<noteq> 1"
proof -
  assume i: "0 < i" "i < 255"
  then have "gf_orbit 254 (gf_step 1) ! (i - 1) = gf_pow i"
    by (cases i) (simp_all add: gf_orbit_nth gf_pow_def funpow_swap1)
  moreover have "gf_orbit 254 (gf_step 1) ! (i - 1) \<noteq> 1"
    using gf_order(1) i unfolding list_all_length by simp
  ultimately show ?thesis by simp
qed

subsection \<open>Multiplication by two\<close>

lemma gf_step_alt: "gf_step x = push_bit 1 x XOR (if bit x 7 then 0x1d else 0)"
proof -
  have "list_all (\<lambda>n. gf_step (word_of_nat n) = push_bit 1 (word_of_nat n) XOR (if bit (word_of_nat n :: 8 word) 7 then 0x1d else 0)) [0..<256]"
    by code_simp
  moreover have "unat x \<in> set [0..<256]" using unsigned_less [of x] by simp
  ultimately have "gf_step (word_of_nat (unat x)) =
      push_bit 1 (word_of_nat (unat x)) XOR (if bit (word_of_nat (unat x) :: 8 word) 7 then 0x1d else 0)"
    unfolding list_all_iff by blast
  then show ?thesis by simp
qed

lemma gf_step_xor: "gf_step (a XOR b) = gf_step a XOR gf_step b"
  by (auto simp: gf_step_alt push_bit_xor bit_xor_iff ac_simps)

lemma gf_steps_xor: "(gf_step ^^ i) (a XOR b) = (gf_step ^^ i) a XOR (gf_step ^^ i) b"
  by (induction i) (simp_all add: gf_step_xor)

lemma gf_step_0 [simp]: "gf_step 0 = 0" "(gf_step ^^ i) 0 = 0"
proof -
  show z: "gf_step 0 = 0" by (simp add: gf_step_alt)
  show "(gf_step ^^ i) 0 = 0" by (induction i) (simp_all add: z)
qed

subsection \<open>Every byte but zero is a power\<close>

lemma gf_pow_inj: "inj_on gf_pow {..<255}"
proof -
  have no: "gf_pow i \<noteq> gf_pow j" if "i < j" "j < 255" for i j
  proof
    assume eq: "gf_pow i = gf_pow j"
    have s: "255 - j + j = 255" using that by simp
    have "gf_pow (255 - j + i) = gf_pow (255 - j + j)" unfolding gf_pow_add eq ..
    then have "gf_pow (255 - j + i) = 1" unfolding s by (rule trans) (rule gf_pow_255)
    moreover have "0 < 255 - j + i" "255 - j + i < 255" using that by linarith+
    then have "gf_pow (255 - j + i) \<noteq> 1" by (rule gf_pow_not_1)
    ultimately show False by contradiction
  qed
  show ?thesis
  proof (rule inj_onI)
    fix i j assume "i \<in> {..<255}" "j \<in> {..<255}" "gf_pow i = gf_pow j"
    then show "i = j" using no [of i j] no [of j i] by (cases i j rule: linorder_cases) auto
  qed
qed

lemma gf_pow_nonzero: "i < 255 \<Longrightarrow> gf_pow i \<noteq> 0"
proof
  assume "i < 255" and "gf_pow i = 0"
  then have "gf_pow (255 - i + i) = 0" unfolding gf_pow_add by simp
  with \<open>i < 255\<close> show False by simp
qed

lemma gf_pow_onto: "x \<noteq> 0 \<Longrightarrow> \<exists>i < 255. x = gf_pow i"
proof -
  have "card (gf_pow ` {..<255}) = 255" using card_image [OF gf_pow_inj] by simp
  moreover have "gf_pow ` {..<255} \<subseteq> UNIV - {0}" using gf_pow_nonzero by auto
  moreover have "card (UNIV - {0 :: 8 word}) = 255" by (subst card_Diff_subset) (simp_all add: card_word)
  ultimately have "gf_pow ` {..<255} = UNIV - {0}" by (intro card_subset_eq) simp_all
  moreover assume "x \<noteq> 0"
  ultimately have "x \<in> gf_pow ` {..<255}" by blast
  then show "\<exists>i < 255. x = gf_pow i" by auto
qed

lemma gf_pow_add_255: "gf_pow (i + 255) = gf_pow i"
  by (simp only: gf_pow_add gf_pow_255) (simp add: gf_pow_def)

subsection \<open>What the tables hold\<close>

definition gf_filled :: "nat \<Rightarrow> 8 word list \<Rightarrow> nat list \<Rightarrow> bool" where
  "gf_filled i es ls \<longleftrightarrow> length es = 512 \<and> length ls = 256 \<and> (\<forall>k < i. es ! k = gf_pow k \<and> ls ! unat (gf_pow k) = k)"

lemma unat_256 [simp]: "unat (x :: 8 word) < 256"
  using unsigned_less [of x] by simp

lemma gf_fill_filled:
  "gf_filled i es ls \<Longrightarrow> i + n \<le> 255 \<Longrightarrow>
     gf_filled (i + n) (fst (gf_fill i n (gf_pow i) es ls)) (snd (gf_fill i n (gf_pow i) es ls))"
proof (induction n arbitrary: i es ls)
  case (Suc n)
  have "gf_filled (Suc i) (es[i := gf_pow i]) (ls[unat (gf_pow i) := i])"
    unfolding gf_filled_def
  proof (intro conjI allI impI)
    fix k assume k: "k < Suc i"
    have i: "i < 255" using Suc.prems(2) by simp
    show "es[i := gf_pow i] ! k = gf_pow k"
      using k i Suc.prems(1) by (cases "k = i") (auto simp: gf_filled_def)
    show "ls[unat (gf_pow i) := i] ! unat (gf_pow k) = k"
    proof (cases "k = i")
      case True
      then show ?thesis using Suc.prems(1) by (simp add: gf_filled_def)
    next
      case False
      then have "gf_pow k \<noteq> gf_pow i" using k i inj_onD [OF gf_pow_inj, of k i] by auto
      then have "unat (gf_pow k) \<noteq> unat (gf_pow i)" by (metis unsigned_word_eqI)
      then show ?thesis using k False Suc.prems(1) by (simp add: gf_filled_def)
    qed
  qed (use Suc.prems(1) in \<open>simp_all add: gf_filled_def\<close>)
  from Suc.IH [OF this] Suc.prems(2) show ?case by (simp add: gf_pow_Suc [symmetric])
qed simp

lemma gf_tables_filled: "gf_filled 255 (fst gf_tables) (snd gf_tables)"
  using gf_fill_filled [of 0 "replicate 512 0" "replicate 256 0" 255] by (simp add: gf_tables_def gf_filled_def)

lemma GF_EXP_pow: "i < 512 \<Longrightarrow> GF_EXP ! i = gf_pow i"
proof -
  have "length (foldl (\<lambda>es i. es[i := es ! (i - 255)]) (fst gf_tables) [255..<255 + n]) = 512 \<and>
      (\<forall>k < 255 + n. foldl (\<lambda>es i. es[i := es ! (i - 255)]) (fst gf_tables) [255..<255 + n] ! k = gf_pow k)"
    if "255 + n \<le> 512" for n
    using that
  proof (induction n)
    case 0
    then show ?case using gf_tables_filled by (simp add: gf_filled_def)
  next
    case (Suc n)
    have "[255..<255 + Suc n] = [255..<255 + n] @ [255 + n]" using upt_Suc [of 255 "255 + n"] by (simp del: upt_Suc)
    moreover have "gf_pow (255 + n) = gf_pow n" using gf_pow_add_255 [of n] by (simp add: add.commute)
    ultimately show ?case using Suc by (auto simp: nth_list_update less_Suc_eq simp del: upt_Suc)
  qed
  note whole = this
  have n: "255 + 257 = (512 :: nat)" by simp
  show "i < 512 \<Longrightarrow> GF_EXP ! i = gf_pow i"
    using whole [of 257, unfolded n, OF order_refl] unfolding GF_EXP_def by blast
qed

lemma GF_LOG_pow: "i < 255 \<Longrightarrow> GF_LOG ! unat (gf_pow i) = i"
  using gf_tables_filled by (simp add: gf_filled_def GF_LOG_def)

lemma gmul_0 [simp]: "gmul 0 b = 0" "gmul a 0 = 0"
  by (simp_all add: gmul_def)

lemma gmul_pow: "i < 255 \<Longrightarrow> gmul (gf_pow i) b = (gf_step ^^ i) b"
proof (cases "b = 0")
  case False
  assume i: "i < 255"
  from gf_pow_onto [OF False] obtain j where j: "j < 255" "b = gf_pow j" by blast
  with i False gf_pow_nonzero [OF i] show ?thesis
    by (simp add: gmul_def GF_LOG_pow GF_EXP_pow gf_pow_add)
qed simp

lemma gf_steps_255: "(gf_step ^^ 255) x = x"
proof (cases "x = 0")
  case False
  from gf_pow_onto [OF False] obtain j where "x = gf_pow j" by blast
  then show ?thesis using gf_pow_add [of 255 j] gf_pow_add_255 [of j] by (simp add: add.commute)
qed simp

lemma gf_steps_mod: "(gf_step ^^ i) x = (gf_step ^^ (i mod 255)) x"
proof -
  have "(gf_step ^^ (255 * k)) y = y" for k y
    by (induction k) (simp_all add: funpow_add gf_steps_255)
  then have "(gf_step ^^ (i mod 255 + 255 * (i div 255))) x = (gf_step ^^ (i mod 255)) x" by (simp only: funpow_add comp_apply)
  then show ?thesis by simp
qed

lemma gmul_pow_any: "gmul (gf_pow i) b = (gf_step ^^ i) b"
  using gmul_pow [of "i mod 255" b] gf_steps_mod [of i b] gf_steps_mod [of i 1] by (simp add: gf_pow_def)

lemma gmul_pows: "gmul (gf_pow i) (gf_pow j) = gf_pow (i + j)"
  by (simp add: gmul_pow_any gf_pow_add)

text \<open>A byte is zero or a power of two.\<close>

lemma gf_cases:
  obtains "x = 0" | i where "i < 255" and "x = gf_pow i"
  using gf_pow_onto [of x] by blast

lemma gmul_commute: "gmul a b = gmul b a"
  by (cases a rule: gf_cases; cases b rule: gf_cases) (simp_all add: gmul_pows add.commute)

lemma gmul_assoc: "gmul (gmul a b) c = gmul a (gmul b c)"
  by (cases a rule: gf_cases; cases b rule: gf_cases) (simp_all add: gmul_pows, simp add: gmul_pow_any funpow_add)

lemma gmul_xor: "gmul a (b XOR c) = gmul a b XOR gmul a c"
  by (cases a rule: gf_cases) (simp_all add: gmul_pow_any gf_steps_xor)

lemma gmul_1 [simp]: "gmul 1 a = a"
  using gmul_pow_any [of 0 a] by simp

subsection \<open>The field\<close>

datatype gf = Gf (gf_val: "8 word")

lemma gf_eq_iff: "a = b \<longleftrightarrow> gf_val a = gf_val b"
  by (cases a; cases b) simp

instantiation gf :: field
begin

definition zero_gf :: gf where "zero_gf = Gf 0"
definition one_gf :: gf where "one_gf = Gf 1"
definition plus_gf :: "gf \<Rightarrow> gf \<Rightarrow> gf" where "plus_gf a b = Gf (gf_val a XOR gf_val b)"
definition minus_gf :: "gf \<Rightarrow> gf \<Rightarrow> gf" where "minus_gf a b = Gf (gf_val a XOR gf_val b)"
definition uminus_gf :: "gf \<Rightarrow> gf" where "uminus_gf a = a"
definition times_gf :: "gf \<Rightarrow> gf \<Rightarrow> gf" where "times_gf a b = Gf (gmul (gf_val a) (gf_val b))"
definition inverse_gf :: "gf \<Rightarrow> gf" where
  "inverse_gf a = (if gf_val a = 0 then Gf 0 else Gf (GF_EXP ! (255 - GF_LOG ! unat (gf_val a))))"
definition divide_gf :: "gf \<Rightarrow> gf \<Rightarrow> gf" where
  "divide_gf a b = Gf (gmul (gf_val a) (gf_val (inverse b)))"

instance
proof
  fix a b c :: gf
  show "a + b + c = a + (b + c)" by (simp add: plus_gf_def ac_simps)
  show "a + b = b + a" by (simp add: plus_gf_def ac_simps)
  show "0 + a = a" by (simp add: plus_gf_def zero_gf_def)
  show "- a + a = 0" by (simp add: plus_gf_def zero_gf_def uminus_gf_def)
  show "a - b = a + - b" by (simp add: plus_gf_def minus_gf_def uminus_gf_def)
  show "a * b * c = a * (b * c)" by (simp add: times_gf_def gmul_assoc)
  show "a * b = b * a" by (simp add: times_gf_def gmul_commute)
  show "1 * a = a" by (simp add: times_gf_def one_gf_def)
  show "(a + b) * c = a * c + b * c"
    by (simp add: times_gf_def plus_gf_def gmul_commute [of _ "gf_val c"] gmul_xor)
  show "(0 :: gf) \<noteq> 1" by (simp add: zero_gf_def one_gf_def)
  show "inverse (0 :: gf) = 0" by (simp add: inverse_gf_def zero_gf_def)
  show "a div b = a * inverse b" by (simp add: divide_gf_def times_gf_def)
  show "inverse a * a = 1" if nz: "a \<noteq> 0"
  proof -
    obtain i where i: "i < 255" "gf_val a = gf_pow i"
      using nz gf_pow_onto [of "gf_val a"] by (auto simp: zero_gf_def gf_eq_iff)
    then have "inverse a = Gf (gf_pow (255 - i))"
      using gf_pow_nonzero [OF i(1)] by (simp add: inverse_gf_def GF_LOG_pow GF_EXP_pow)
    then show ?thesis using i by (simp add: times_gf_def gmul_pows one_gf_def)
  qed
qed

end

lemma gf_double [simp]: "a + a = (0 :: gf)"
  by (simp add: plus_gf_def zero_gf_def)

lemma gf_two [simp]: "(2 :: gf) = 0"
  by (metis gf_double one_add_one)

lemma gf_minus [simp]: "a - b = a + (b :: gf)" "- a = (a :: gf)"
  by (simp_all add: minus_gf_def plus_gf_def uminus_gf_def)

lemma Gf_simps: "Gf (a XOR b) = Gf a + Gf b" "Gf (gmul a b) = Gf a * Gf b" "Gf 0 = 0" "Gf 1 = 1"
  by (simp_all add: plus_gf_def times_gf_def zero_gf_def one_gf_def)

lemma Gf_pow: "Gf (gf_pow i) = Gf 2 ^ i"
proof (induction i)
  case (Suc i)
  have "gf_pow 1 = 2" unfolding gf_pow_def by code_simp
  then have "gf_pow (Suc i) = gmul 2 (gf_pow i)" using gmul_pows [of 1 i] by simp
  then show ?case by (simp add: Suc Gf_simps)
qed (simp add: Gf_simps)

lemma alpha_inj: "inj_on (\<lambda>i. Gf 2 ^ i) {..<255}"
  using gf_pow_inj by (auto simp: inj_on_def Gf_pow [symmetric])

end
