(* ===== verification/ReedSolomon.thy ===== *)
theory ReedSolomon
  imports Gf256
begin

text \<open>
  The Reed-Solomon code of the QR encoder (opendweb, qr.mjs): the divisor, the remainder that is sent as
  error correction, and what they guarantee: every code word has the first powers of two as roots, and two
  code words differ in more bytes than there are error correction bytes.
\<close>

subsection \<open>The code\<close>

text \<open>The inner loop of \<^verbatim>\<open>rsDivisor\<close> multiplies in place, from the front.\<close>

fun div_step :: "8 word \<Rightarrow> 8 word list \<Rightarrow> 8 word list" where
  "div_step root [] = []"
| "div_step root [a] = [gmul a root]"
| "div_step root (a # b # xs) = (gmul a root XOR b) # div_step root (b # xs)"

fun div_loop :: "nat \<Rightarrow> 8 word \<Rightarrow> 8 word list \<Rightarrow> 8 word list" where
  "div_loop 0 root res = res"
| "div_loop (Suc n) root res = div_loop n (gmul root 2) (div_step root res)"

definition rsDivisor :: "nat \<Rightarrow> 8 word list" where
  "rsDivisor degree = div_loop degree 1 ((replicate degree 0)[degree - 1 := 1])"

definition rem_step :: "8 word list \<Rightarrow> 8 word list \<Rightarrow> 8 word \<Rightarrow> 8 word list" where
  "rem_step divisor res b =
     (let factor = b XOR hd res
      in map2 (\<lambda>r d. r XOR gmul d factor) (tl res @ [0]) divisor)"

definition rsRemainder :: "8 word list \<Rightarrow> 8 word list \<Rightarrow> 8 word list" where
  "rsRemainder data divisor = foldl (rem_step divisor) (replicate (length divisor) 0) data"

subsection \<open>Polynomials\<close>

text \<open>The value of a polynomial whose coefficients are given from the highest power down.\<close>

definition horner :: "8 word list \<Rightarrow> gf \<Rightarrow> gf" where
  "horner bs x = foldl (\<lambda>acc b. acc * x + Gf b) 0 bs"

lemma horner_Nil [simp]: "horner [] x = 0"
  by (simp add: horner_def)

lemma horner_snoc [simp]: "horner (bs @ [b]) x = horner bs x * x + Gf b"
  by (simp add: horner_def)

lemma horner_append: "horner (as @ bs) x = horner as x * x ^ length bs + horner bs x"
proof (induction bs rule: rev_induct)
  case (snoc b bs)
  then show ?case by (simp add: algebra_simps flip: append_assoc)
qed simp

lemma horner_Cons: "horner (b # bs) x = Gf b * x ^ length bs + horner bs x"
  using horner_append [of "[b]" bs x] by (simp add: horner_def)

lemma horner_zeros: "horner (replicate n 0) x = 0"
  by (induction n) (simp_all add: horner_Cons Gf_simps)

lemma horner_scaled:
  "length rs = length ds \<Longrightarrow>
     horner (map2 (\<lambda>r d. r XOR gmul d f) rs ds) x = horner rs x + Gf f * horner ds x"
  by (induction rs ds rule: list_induct2) (simp_all add: horner_Cons Gf_simps algebra_simps)

lemma horner_xor: "length as = length bs \<Longrightarrow> horner (map2 (XOR) as bs) x = horner as x + horner bs x"
  by (induction as bs rule: list_induct2) (simp_all add: horner_Cons Gf_simps algebra_simps)

subsection \<open>The divisor\<close>

lemma length_div_step [simp]: "length (div_step r xs) = length xs"
  by (induction r xs rule: div_step.induct) auto

lemma horner_div_step:
  "xs \<noteq> [] \<Longrightarrow> horner (div_step r xs) x = horner xs x * (x + Gf r) + Gf (hd xs) * x ^ length xs"
proof (induction r xs rule: div_step.induct)
  case (3 root a b xs)
  have "horner (div_step root (a # b # xs)) x =
      Gf (gmul a root XOR b) * x ^ Suc (length xs) + horner (div_step root (b # xs)) x"
    by (simp add: horner_Cons)
  also have "\<dots> = (Gf a * Gf root + Gf b) * x ^ Suc (length xs) + (horner (b # xs) x * (x + Gf root) + Gf b * x ^ Suc (length xs))"
    using 3 by (simp add: Gf_simps)
  also have "\<dots> = Gf a * Gf root * x ^ Suc (length xs) + horner (b # xs) x * (x + Gf root) + (Gf b * x ^ Suc (length xs) + Gf b * x ^ Suc (length xs))"
    by (simp add: algebra_simps)
  also have "\<dots> = (Gf a * x ^ Suc (length xs) + horner (b # xs) x) * (x + Gf root) + Gf a * x ^ Suc (Suc (length xs)) + 0"
  proof -
    have "Gf a * x ^ Suc (length xs) * x + Gf a * x ^ Suc (Suc (length xs)) = 0" by (simp add: ac_simps)
    then show ?thesis unfolding gf_double by (simp add: algebra_simps add_eq_0_iff)
  qed
  finally show ?case by (simp add: horner_Cons)
qed (simp_all add: horner_Cons Gf_simps algebra_simps)

text \<open>The coefficients before the leading one stay zero until the last turn.\<close>

lemma div_step_zeros:
  "xs = replicate (Suc k) 0 @ 1 # ys \<Longrightarrow> \<exists>zs. div_step r xs = replicate k 0 @ 1 # zs"
proof (induction k arbitrary: xs)
  case 0
  then show ?case by (cases ys) auto
next
  case (Suc k)
  then show ?case by simp
qed

text \<open>The product over the powers of the root.\<close>

fun root_product :: "nat \<Rightarrow> gf \<Rightarrow> gf \<Rightarrow> gf" where
  "root_product 0 r x = 1"
| "root_product (Suc n) r x = (x + r) * root_product n (r * Gf 2) x"

lemma horner_div_loop:
  "length res = k + m \<Longrightarrow> res = replicate k 0 @ 1 # ys \<Longrightarrow>
   horner (div_loop (Suc k) r res) x = horner res x * root_product (Suc k) (Gf r) x + x ^ length res"
proof (induction k arbitrary: res r ys m)
  case 0
  then show ?case by (simp add: horner_div_step Gf_simps)
next
  case (Suc k)
  from div_step_zeros [OF Suc.prems(2)] obtain zs where z: "div_step r res = replicate k 0 @ 1 # zs" by blast
  have "hd res = 0" "res \<noteq> []" using Suc.prems(2) by simp_all
  then have "horner (div_step r res) x = horner res x * (x + Gf r)" by (simp add: horner_div_step Gf_simps)
  moreover have "length (div_step r res) = k + length (1 # zs)" using z by simp
  from Suc.IH [OF this z, of "gmul r 2"] have
    "horner (div_loop (Suc k) (gmul r 2) (div_step r res)) x =
       horner (div_step r res) x * root_product (Suc k) (Gf r * Gf 2) x + x ^ length res"
    by (simp add: Gf_simps)
  ultimately show ?case by (simp add: mult.assoc)
qed

lemma length_div_loop [simp]: "length (div_loop n r xs) = length xs"
  by (induction n r xs rule: div_loop.induct) auto

lemma length_rsDivisor [simp]: "length (rsDivisor n) = n"
  by (simp add: rsDivisor_def)

lemma horner_rsDivisor: "0 < n \<Longrightarrow> horner (rsDivisor n) x = root_product n 1 x + x ^ n"
proof -
  assume "0 < n"
  then obtain k where n: "n = Suc k" by (cases n) auto
  have "replicate n (0 :: 8 word) = replicate k 0 @ [0]" by (simp add: n replicate_append_same)
  then have "(replicate n 0)[n - 1 := 1] = replicate k 0 @ [1 :: 8 word]" by (simp add: n list_update_append)
  then show ?thesis
    using horner_div_loop [of "replicate k 0 @ [1]" k 1 "[]" 1 x]
    by (simp add: rsDivisor_def n horner_zeros Gf_simps del: div_loop.simps root_product.simps)
qed

lemma root_product_zero: "i < n \<Longrightarrow> root_product n r (r * Gf 2 ^ i) = 0"
proof (induction n arbitrary: i r)
  case (Suc n)
  then show ?case
  proof (cases i)
    case (Suc j)
    with Suc.prems Suc.IH [of j "r * Gf 2"] show ?thesis by (simp add: mult.assoc)
  qed simp
qed simp

lemma divisor_roots: "i < n \<Longrightarrow> horner (rsDivisor n) (Gf 2 ^ i) = (Gf 2 ^ i) ^ n"
  using horner_rsDivisor [of n] root_product_zero [of i n 1] by simp

subsection \<open>The remainder\<close>

lemma length_rem_step [simp]: "length res = length d \<Longrightarrow> d \<noteq> [] \<Longrightarrow> length (rem_step d res b) = length d"
  by (simp add: rem_step_def Let_def)

lemma length_rsRemainder [simp]: "d \<noteq> [] \<Longrightarrow> length (rsRemainder data d) = length d"
proof -
  assume d: "d \<noteq> []"
  have "length res = length d \<Longrightarrow> length (foldl (rem_step d) res data) = length d" for res
    by (induction data arbitrary: res) (simp_all add: d)
  then show ?thesis by (simp add: rsRemainder_def)
qed

lemma horner_rem_step:
  assumes "length res = length d" and "d \<noteq> []" and root: "horner d x = x ^ length d"
  shows "horner (rem_step d res b) x = horner res x * x + Gf b * x ^ length d"
proof -
  from assms obtain r rs where res: "res = r # rs" by (cases res) auto
  with assms(1) have len: "length d = Suc (length rs)" by simp
  have "horner (rem_step d res b) x = horner (rs @ [0]) x + Gf (b XOR r) * horner d x"
    using assms(1) by (simp add: rem_step_def Let_def res horner_scaled)
  also have "\<dots> = horner rs x * x + (Gf b + Gf r) * x ^ length d" by (simp add: root Gf_simps)
  also have "x ^ length d = x ^ length rs * x" by (simp add: len)
  finally show ?thesis by (simp add: res horner_Cons algebra_simps len)
qed

lemma horner_rsRemainder:
  assumes "d \<noteq> []" and "horner d x = x ^ length d"
  shows "horner (rsRemainder data d) x = horner data x * x ^ length d"
proof -
  have len: "length (foldl (rem_step d) res data) = length d" if "length res = length d" for res data
    using that by (induction data arbitrary: res) (simp_all add: assms(1))
  have "horner (foldl (rem_step d) (replicate (length d) 0) data) x = horner data x * x ^ length d"
  proof (induction data rule: rev_induct)
    case Nil
    then show ?case by (simp add: horner_zeros)
  next
    case (snoc b data)
    then show ?case
      using horner_rem_step [OF len [of "replicate (length d) 0" data] assms] by (simp add: algebra_simps)
  qed
  then show ?thesis by (simp add: rsRemainder_def)
qed

definition codeword :: "nat \<Rightarrow> 8 word list \<Rightarrow> 8 word list" where
  "codeword n data = data @ rsRemainder data (rsDivisor n)"

lemma codeword_roots:
  assumes "i < n"
  shows "horner (codeword n data) (Gf 2 ^ i) = 0"
proof -
  have d: "rsDivisor n \<noteq> []" using assms by (metis length_rsDivisor list.size(3) not_less0)
  show ?thesis
    using horner_rsRemainder [OF d, of "Gf 2 ^ i" data] divisor_roots [OF assms] d
    by (simp add: codeword_def horner_append)
qed

subsection \<open>The distance\<close>

text \<open>A weighted sum of few geometric sequences that starts with zeros has no weights.\<close>

lemma no_weights:
  fixes c :: "nat \<Rightarrow> gf"
  assumes "finite S" and "inj_on X S" and "card S \<le> n" and "\<And>i. i < n \<Longrightarrow> (\<Sum>p \<in> S. c p * X p ^ i) = 0" and "p \<in> S"
  shows "c p = 0"
  using assms
proof (induction S arbitrary: c n p rule: finite_induct)
  case (insert q S)
  then obtain k where n: "n = Suc k" by (cases n) auto
  have "(\<Sum>p \<in> S. (c p * (X p + X q)) * X p ^ i) = 0" if "i < k" for i
  proof -
    have "(\<Sum>p \<in> insert q S. (c p * (X p + X q)) * X p ^ i) =
        (\<Sum>p \<in> insert q S. c p * X p ^ Suc i) + X q * (\<Sum>p \<in> insert q S. c p * X p ^ i)"
      unfolding sum_distrib_left sum.distrib [symmetric] by (rule sum.cong) (simp_all add: algebra_simps)
    also have "\<dots> = 0" using insert.prems(3) [of "Suc i"] insert.prems(3) [of i] that n by simp
    finally show ?thesis using insert.hyps by simp
  qed
  from insert.IH [OF _ _ this] insert.prems(1,2) insert.hyps n
  have "c p * (X p + X q) = 0" if "p \<in> S" for p using that by (auto simp: inj_on_def)
  moreover have "X p + X q \<noteq> 0" if "p \<in> S" for p
  proof
    assume "X p + X q = 0"
    then have "X p = X q" by (metis add.assoc add.right_neutral gf_double add.commute)
    then show False using that insert.prems(1) insert.hyps(2) by (auto simp: inj_on_def)
  qed
  ultimately have zero: "c p = 0" if "p \<in> S" for p using that by simp
  then have "(\<Sum>p \<in> S. c p * X p ^ 0) = 0" by simp
  with insert.prems(3) [of 0] insert.hyps n have "c q = 0" by simp
  with zero insert.prems(4) show ?case by auto
qed simp

lemma horner_sum: "horner bs x = (\<Sum>p < length bs. Gf (bs ! p) * x ^ (length bs - 1 - p))"
proof (induction bs)
  case (Cons b bs)
  have "(\<Sum>p < length (b # bs). Gf ((b # bs) ! p) * x ^ (length (b # bs) - 1 - p)) =
      Gf b * x ^ length bs + (\<Sum>p < length bs. Gf (bs ! p) * x ^ (length bs - 1 - p))"
    by (simp add: sum.lessThan_Suc_shift del: sum.lessThan_Suc)
  then show ?case by (simp add: horner_Cons Cons)
qed simp

definition differences :: "8 word list \<Rightarrow> 8 word list \<Rightarrow> nat set" where
  "differences as bs = {p. p < length as \<and> as ! p \<noteq> bs ! p}"

lemma codeword_distance:
  assumes "length as = length bs" and "length as \<le> 255"
    and roots: "\<And>i. i < n \<Longrightarrow> horner as (Gf 2 ^ i) = 0 \<and> horner bs (Gf 2 ^ i) = 0"
    and few: "card (differences as bs) \<le> n"
  shows "as = bs"
proof (rule nth_equalityI)
  let ?e = "map2 (XOR) as bs" and ?S = "differences as bs"
  let ?X = "\<lambda>p. Gf 2 ^ (length as - 1 - p)"
  have S: "?S \<subseteq> {..<length as}" "finite ?S" by (auto simp: differences_def)
  have inj: "inj_on ?X ?S"
  proof (rule inj_onI)
    fix p q assume "p \<in> ?S" "q \<in> ?S" "?X p = ?X q"
    then have pq: "p < length as" "q < length as" by (auto simp: differences_def)
    then have "length as - 1 - p < 255" "length as - 1 - q < 255" using assms(2) by linarith+
    then have "length as - 1 - p = length as - 1 - q"
      using inj_onD [OF alpha_inj \<open>?X p = ?X q\<close>] by simp
    then show "p = q" using pq by linarith
  qed
  have "(\<Sum>p \<in> ?S. Gf (?e ! p) * ?X p ^ i) = 0" if "i < n" for i
  proof -
    have "(\<Sum>p \<in> ?S. Gf (?e ! p) * ?X p ^ i) = (\<Sum>p < length ?e. Gf (?e ! p) * (Gf 2 ^ i) ^ (length ?e - 1 - p))"
    proof (rule sum.mono_neutral_cong_left)
      show "\<forall>p \<in> {..<length ?e} - ?S. Gf (?e ! p) * (Gf 2 ^ i) ^ (length ?e - 1 - p) = 0"
        using assms(1) by (auto simp: differences_def Gf_simps)
    qed (use S assms(1) in \<open>auto simp: power_mult [symmetric] mult.commute\<close>)
    also have "\<dots> = horner ?e (Gf 2 ^ i)" by (rule horner_sum [symmetric])
    finally show ?thesis using roots [OF that] assms(1) by (simp add: horner_xor)
  qed
  from no_weights [OF S(2) inj few this]
  have z: "Gf (?e ! p) = 0" if "p \<in> ?S" for p using that by blast
  fix p assume p: "p < length as"
  show "as ! p = bs ! p"
  proof (rule ccontr)
    assume "as ! p \<noteq> bs ! p"
    with p have "p \<in> ?S" by (simp add: differences_def)
    from z [OF this] p assms(1) have "as ! p XOR bs ! p = 0" by (simp add: zero_gf_def)
    then have "(as ! p XOR bs ! p) XOR bs ! p = bs ! p" by simp
    then show False using \<open>as ! p \<noteq> bs ! p\<close> by (simp add: xor.assoc)
  qed
qed (use assms in simp_all)

end
