(* ===== verification/Qr.thy ===== *)
theory Qr
  imports ReedSolomon Z32
begin

text \<open>
  The QR encoder (opendweb, qr.mjs): the byte segment, the blocks with their error correction, the drawing of
  the function patterns, the placement of the bits, the choice of the mask, the format information, and the
  picture for the terminal.

  A module is a truth value, dark or light; the texts are UTF-8 bytes.
\<close>

subsection \<open>Versions\<close>

record qr_version =
  qv_version :: nat
  qv_size :: nat
  qv_dataCodewords :: nat
  qv_ecPerBlock :: nat
  qv_blockCount :: nat
  qv_alignCenters :: "nat list"

definition qr_v :: "nat \<Rightarrow> nat \<Rightarrow> nat \<Rightarrow> nat \<Rightarrow> nat \<Rightarrow> nat list \<Rightarrow> qr_version" where
  "qr_v v s d e b cs = \<lparr>qv_version = v, qv_size = s, qv_dataCodewords = d, qv_ecPerBlock = e, qv_blockCount = b, qv_alignCenters = cs\<rparr>"

definition VERSIONS_L :: "qr_version list" where
  "VERSIONS_L =
     [qr_v 1 21 19 7 1 [], qr_v 2 25 34 10 1 [6, 18], qr_v 3 29 55 15 1 [6, 22], qr_v 4 33 80 20 1 [6, 26],
      qr_v 5 37 108 26 1 [6, 30], qr_v 6 41 136 18 2 [6, 34]]"

subsection \<open>The data segment\<close>

definition bb_push :: "nat \<Rightarrow> nat \<Rightarrow> bool list \<Rightarrow> bool list" where
  "bb_push v len bits = bits @ map (\<lambda>i. odd (v div 2 ^ (len - 1 - i))) [0..<len]"

text \<open>Eight bits to a byte; missing ones are zero.\<close>

definition byte_at :: "bool list \<Rightarrow> nat \<Rightarrow> nat" where
  "byte_at bits i = foldl (\<lambda>b j. 2 * b + of_bool (i + j < length bits \<and> bits ! (i + j))) 0 [0..<8]"

definition bb_bytes :: "bool list \<Rightarrow> bytes" where
  "bb_bytes bits = map (\<lambda>k. word_of_nat (byte_at bits (8 * k))) [0..<(length bits + 7) div 8]"

fun terminate :: "nat \<Rightarrow> nat \<Rightarrow> bool list \<Rightarrow> bool list" where
  "terminate 0 cap bits = bits"
| "terminate (Suc n) cap bits = (if length bits < cap then terminate n cap (bb_push 0 1 bits) else bits)"

definition align_byte :: "bool list \<Rightarrow> bool list" where
  "align_byte bits = bits @ replicate ((8 - length bits mod 8) mod 8) False"

definition pad_words :: "nat \<Rightarrow> bytes \<Rightarrow> bytes" where
  "pad_words n out = out @ map (\<lambda>i. if even i then 0xec else 0x11) [0..<n - length out]"

definition qrDataCodewords :: "bytes \<Rightarrow> qr_version \<Rightarrow> bytes" where
  "qrDataCodewords text v =
     (let cap = qv_dataCodewords v * 8;
          bits = foldl (\<lambda>bits b. bb_push (unat b) 8 bits) (bb_push (length text) 8 (bb_push 4 4 [])) text
      in pad_words (qv_dataCodewords v) (bb_bytes (align_byte (terminate 4 cap bits))))"

definition qr_blocks :: "qr_version \<Rightarrow> bytes \<Rightarrow> bytes list" where
  "qr_blocks v data =
     (let perBlock = qv_dataCodewords v div qv_blockCount v
      in map (\<lambda>i. take perBlock (drop (i * perBlock) data)) [0..<qv_blockCount v])"

text \<open>One byte of each block in turn.\<close>

definition interleave :: "nat \<Rightarrow> bytes list \<Rightarrow> bytes" where
  "interleave n blocks = concat (map (\<lambda>i. map (\<lambda>b. b ! i) blocks) [0..<n])"

definition qr_codewords :: "qr_version \<Rightarrow> bytes \<Rightarrow> bytes" where
  "qr_codewords v data =
     (let blocks = qr_blocks v data;
          ecBlocks = map (\<lambda>b. rsRemainder b (rsDivisor (qv_ecPerBlock v))) blocks
      in interleave (qv_dataCodewords v div qv_blockCount v) blocks @ interleave (qv_ecPerBlock v) ecBlocks)"

definition qr_bits :: "bytes \<Rightarrow> bool list" where
  "qr_bits bs = concat (map (\<lambda>b. map (\<lambda>j. odd (unat b div 2 ^ (7 - j))) [0..<8]) bs)"

subsection \<open>The matrix\<close>

type_synonym grid = "bool list list"

definition cell :: "grid \<Rightarrow> nat \<Rightarrow> nat \<Rightarrow> bool" where
  "cell g r c = g ! r ! c"

definition set_cell :: "nat \<Rightarrow> nat \<Rightarrow> bool \<Rightarrow> grid \<Rightarrow> grid" where
  "set_cell r c b g = g[r := (g ! r)[c := b]]"

record qr_grid =
  qg_modules :: grid
  qg_reserved :: grid

definition blankMatrix :: "nat \<Rightarrow> qr_grid" where
  "blankMatrix sz =
     \<lparr>qg_modules = replicate sz (replicate sz False), qg_reserved = replicate sz (replicate sz False)\<rparr>"

definition setFunctionModule :: "qr_grid \<Rightarrow> nat \<times> nat \<times> bool \<Rightarrow> qr_grid" where
  "setFunctionModule m p =
     (case p of (r, c, dark) \<Rightarrow>
        \<lparr>qg_modules = set_cell r c dark (qg_modules m), qg_reserved = set_cell r c True (qg_reserved m)\<rparr>)"

definition finder_dark :: "int \<Rightarrow> int \<Rightarrow> bool" where
  "finder_dark dr dc \<longleftrightarrow>
     0 \<le> dr \<and> dr \<le> 6 \<and> 0 \<le> dc \<and> dc \<le> 6 \<and>
     (dr = 0 \<or> dr = 6 \<or> dc = 0 \<or> dc = 6 \<or> 2 \<le> dr \<and> dr \<le> 4 \<and> 2 \<le> dc \<and> dc \<le> 4)"

definition finder_cells :: "nat \<Rightarrow> nat \<Rightarrow> nat \<Rightarrow> (nat \<times> nat \<times> bool) list" where
  "finder_cells sz r c =
     concat (map (\<lambda>dr. concat (map (\<lambda>dc.
       let rr = int r + dr; cc = int c + dc
       in if rr < 0 \<or> int sz \<le> rr \<or> cc < 0 \<or> int sz \<le> cc then [] else [(nat rr, nat cc, finder_dark dr dc)])
       [-1, 0, 1, 2, 3, 4, 5, 6, 7])) [-1, 0, 1, 2, 3, 4, 5, 6, 7])"

definition drawFinders :: "nat \<Rightarrow> qr_grid \<Rightarrow> qr_grid" where
  "drawFinders sz m =
     foldl setFunctionModule m (finder_cells sz 0 0 @ finder_cells sz 0 (sz - 7) @ finder_cells sz (sz - 7) 0)"

definition timing_cells :: "nat \<Rightarrow> (nat \<times> nat \<times> bool) list" where
  "timing_cells sz = concat (map (\<lambda>i. [(6, i, even i), (i, 6, even i)]) [8..<sz - 8])"

text \<open>A pattern that would overlap a finder is not drawn.\<close>

definition alignment_at :: "nat \<Rightarrow> nat \<Rightarrow> nat \<Rightarrow> (nat \<times> nat \<times> bool) list" where
  "alignment_at sz r c =
     (if r \<le> 8 \<and> c \<le> 8 then []
      else if r \<le> 8 \<and> sz - 9 \<le> c then []
      else if sz - 9 \<le> r \<and> c \<le> 8 then []
      else concat (map (\<lambda>dr. map (\<lambda>dc.
             (nat (int r + dr), nat (int c + dc), max \<bar>dr\<bar> \<bar>dc\<bar> \<noteq> 1)) [-2, -1, 0, 1, 2]) [-2, -1, 0, 1, 2]))"

definition alignment_cells :: "qr_version \<Rightarrow> (nat \<times> nat \<times> bool) list" where
  "alignment_cells v =
     concat (map (\<lambda>r. concat (map (\<lambda>c. alignment_at (qv_size v) r c) (qv_alignCenters v))) (qv_alignCenters v))"

definition drawTimingAndAlignment :: "qr_version \<Rightarrow> qr_grid \<Rightarrow> qr_grid" where
  "drawTimingAndAlignment v m =
     foldl setFunctionModule m (timing_cells (qv_size v) @ alignment_cells v @ [(qv_size v - 8, 8, True)])"

definition format_copy1 :: "(nat \<times> nat) list" where
  "format_copy1 =
     [(8, 0), (8, 1), (8, 2), (8, 3), (8, 4), (8, 5), (8, 7), (8, 8), (7, 8), (5, 8), (4, 8), (3, 8), (2, 8), (1, 8), (0, 8)]"

definition format_copy2 :: "nat \<Rightarrow> (nat \<times> nat) list" where
  "format_copy2 sz = map (\<lambda>i. (sz - 1 - i, 8)) [0..<7] @ map (\<lambda>j. (8, sz - 8 + j)) [0..<8]"

definition reserveFormat :: "nat \<Rightarrow> qr_grid \<Rightarrow> qr_grid" where
  "reserveFormat sz m =
     m\<lparr>qg_reserved := foldl (\<lambda>g (r, c). set_cell r c True g) (qg_reserved m) (format_copy1 @ format_copy2 sz)\<rparr>"

definition function_grid :: "qr_version \<Rightarrow> qr_grid" where
  "function_grid v = reserveFormat (qv_size v) (drawTimingAndAlignment v (drawFinders (qv_size v) (blankMatrix (qv_size v))))"

subsection \<open>Placement\<close>

text \<open>The columns in pairs from the right; the column of the vertical timing pattern is skipped.\<close>

function column_pairs :: "nat \<Rightarrow> nat list" where
  "column_pairs col = (if col = 0 then [] else (let c = (if col = 6 then 5 else col) in c # column_pairs (c - 2)))"
  by auto
termination by (relation "measure id") auto

declare column_pairs.simps [simp del]

definition zigzag :: "nat \<Rightarrow> (nat \<times> nat) list" where
  "zigzag sz =
     concat (map (\<lambda>(k, col). concat (map (\<lambda>i.
       let row = (if even k then sz - 1 - i else i) in [(row, col), (row, col - 1)]) [0..<sz]))
       (zip [0..<length (column_pairs (sz - 1))] (column_pairs (sz - 1))))"

definition place_bit :: "grid \<Rightarrow> bool list \<Rightarrow> grid \<times> nat \<Rightarrow> nat \<times> nat \<Rightarrow> grid \<times> nat" where
  "place_bit reserved bits st p =
     (case (st, p) of ((g, k), (r, c)) \<Rightarrow>
        if cell reserved r c then (g, k) else (set_cell r c (k < length bits \<and> bits ! k) g, Suc k))"

definition place_data :: "nat \<Rightarrow> bool list \<Rightarrow> qr_grid \<Rightarrow> grid" where
  "place_data sz bits m = fst (foldl (place_bit (qg_reserved m) bits) (qg_modules m, 0) (zigzag sz))"

subsection \<open>Masks\<close>

definition MASK_FNS :: "nat \<Rightarrow> nat \<Rightarrow> nat \<Rightarrow> bool" where
  "MASK_FNS mk r c =
     [(r + c) mod 2 = 0, r mod 2 = 0, c mod 3 = 0, (r + c) mod 3 = 0, (r div 2 + c div 3) mod 2 = 0,
      r * c mod 2 + r * c mod 3 = 0, (r * c mod 2 + r * c mod 3) mod 2 = 0, ((r + c) mod 2 + r * c mod 3) mod 2 = 0] ! mk"

definition apply_mask :: "nat \<Rightarrow> nat \<Rightarrow> grid \<Rightarrow> grid \<Rightarrow> grid" where
  "apply_mask sz mk reserved g =
     map (\<lambda>r. map (\<lambda>c. if \<not> cell reserved r c \<and> MASK_FNS mk r c then \<not> cell g r c else cell g r c) [0..<sz]) [0..<sz]"

definition run_penalty :: "nat \<Rightarrow> nat" where
  "run_penalty len = (if 5 \<le> len then 3 + (len - 5) else 0)"

fun run_loop :: "bool \<Rightarrow> nat \<Rightarrow> bool list \<Rightarrow> nat" where
  "run_loop colour len [] = run_penalty len"
| "run_loop colour len (x # xs) = (if x = colour then run_loop colour (Suc len) xs else run_penalty len + run_loop x 1 xs)"

definition lineRuns :: "bool list \<Rightarrow> nat" where
  "lineRuns line = (case line of [] \<Rightarrow> 0 | x # xs \<Rightarrow> run_loop x 1 xs)"

definition finder_like :: "bool list" where
  "finder_like = [False, False, False, False, True, False, True, True, True, False, True]"

definition finderLikeRuns :: "bool list \<Rightarrow> nat" where
  "finderLikeRuns line =
     sum_list (map (\<lambda>i. let seg = take 11 (drop i line) in if seg = finder_like \<or> seg = rev finder_like then 40 else 0)
       [0..<length line - 10])"

definition square_penalty :: "nat \<Rightarrow> grid \<Rightarrow> nat" where
  "square_penalty sz g =
     sum_list (map (\<lambda>r. sum_list (map (\<lambda>c.
       if cell g r c = cell g r (c + 1) \<and> cell g r c = cell g (r + 1) c \<and> cell g r c = cell g (r + 1) (c + 1) then 3 else 0)
       [0..<sz - 1])) [0..<sz - 1])"

text \<open>
  The share of dark modules: the quotients that decide are exact in floating point, so integers give the
  same step.
\<close>

definition balance_penalty :: "nat \<Rightarrow> grid \<Rightarrow> nat" where
  "balance_penalty sz g =
     (let dark = sum_list (map (\<lambda>row. length (filter id row)) g)
      in nat \<bar>int (dark * 100) - int (50 * (sz * sz))\<bar> div (5 * (sz * sz)) * 10)"

definition maskPenalty :: "nat \<Rightarrow> grid \<Rightarrow> nat" where
  "maskPenalty sz g =
     sum_list (map (\<lambda>i. let line = map (\<lambda>j. cell g i j) [0..<sz] in lineRuns line + finderLikeRuns line) [0..<sz]) +
     sum_list (map (\<lambda>i. let line = map (\<lambda>j. cell g j i) [0..<sz] in lineRuns line + finderLikeRuns line) [0..<sz]) +
     square_penalty sz g + balance_penalty sz g"

text \<open>The first mask of least penalty; \<^const>\<open>None\<close> is the infinite penalty of the start.\<close>

fun mask_loop :: "(nat \<Rightarrow> grid) \<Rightarrow> (grid \<Rightarrow> nat) \<Rightarrow> nat list \<Rightarrow> (nat \<times> nat) option \<Rightarrow> (nat \<times> nat) option" where
  "mask_loop masked pen [] best = best"
| "mask_loop masked pen (k # ks) best =
     (let p = pen (masked k)
      in mask_loop masked pen ks (case best of Some (b, q) \<Rightarrow> if p < q then Some (k, p) else best | None \<Rightarrow> Some (k, p)))"

definition best_mask :: "(nat \<Rightarrow> grid) \<Rightarrow> (grid \<Rightarrow> nat) \<Rightarrow> nat" where
  "best_mask masked pen = (case mask_loop masked pen [0..<8] None of Some (b, q) \<Rightarrow> b | None \<Rightarrow> 0)"

subsection \<open>Format information\<close>

definition bch_step :: "nat \<Rightarrow> nat \<Rightarrow> nat" where
  "bch_step r i = (if odd (r div 2 ^ i) then r XOR push_bit (i - 10) 0x537 else r)"

definition bch15 :: "nat \<Rightarrow> nat" where
  "bch15 data = (push_bit 10 data OR (foldl bch_step (push_bit 10 data) [14, 13, 12, 11, 10] AND 0x3ff)) XOR 0x5412"

definition write_format :: "nat \<Rightarrow> nat \<Rightarrow> grid \<Rightarrow> grid" where
  "write_format sz fmt g =
     (let positions = format_copy1 @ format_copy2 sz
      in foldl (\<lambda>g i. case positions ! i of (r, c) \<Rightarrow> set_cell r c (odd (fmt div 2 ^ (14 - i))) g) g [0..<15])"

subsection \<open>The encoder\<close>

record qr_code =
  qc_size :: nat
  qc_modules :: grid
  qc_version :: nat
  qc_mask :: nat

datatype qr_error = PayloadTooLarge nat

definition qr_encode :: "bytes \<Rightarrow> qr_version \<Rightarrow> qr_code" where
  "qr_encode text v =
     (let sz = qv_size v;
          bits = qr_bits (qr_codewords v (qrDataCodewords text v));
          m = function_grid v;
          modules = place_data sz bits m;
          masked = (\<lambda>k. apply_mask sz k (qg_reserved m) modules);
          k = best_mask masked (maskPenalty sz)
      in \<lparr>qc_size = sz, qc_modules = write_format sz (bch15 (8 + k)) (masked k), qc_version = qv_version v, qc_mask = k\<rparr>)"

definition qrMatrix :: "bytes \<Rightarrow> qr_error + qr_code" where
  "qrMatrix text =
     (case find (\<lambda>v. length text + 2 \<le> qv_dataCodewords v) VERSIONS_L of
        None \<Rightarrow> Inl (PayloadTooLarge (length text))
      | Some v \<Rightarrow> Inr (qr_encode text v))"

subsection \<open>The picture\<close>

text \<open>Characters are code points; a dark module is two full blocks.\<close>

definition FULL_BLOCK :: nat where "FULL_BLOCK = 0x2588"

definition trim_end :: "nat list \<Rightarrow> nat list" where
  "trim_end line = rev (dropWhile (\<lambda>c. c = 32) (rev line))"

definition qr_line :: "grid \<Rightarrow> int \<Rightarrow> nat list" where
  "qr_line g r =
     (let n = int (length g)
      in concat (map (\<lambda>c.
           if 0 \<le> r \<and> r < n \<and> 0 \<le> c \<and> c < n \<and> cell g (nat r) (nat c) then [FULL_BLOCK, FULL_BLOCK] else [32, 32])
           [-4..n + 3]))"

fun join_lines :: "nat list list \<Rightarrow> nat list" where
  "join_lines [] = []"
| "join_lines [l] = l"
| "join_lines (l # ls) = l @ 10 # join_lines ls"

definition renderQrAscii :: "grid \<Rightarrow> nat list" where
  "renderQrAscii g = join_lines (map (\<lambda>r. trim_end (qr_line g r)) [-4..int (length g) + 3])"

definition qrAscii :: "bytes \<Rightarrow> qr_error + nat list" where
  "qrAscii text = rbind (qrMatrix text) (\<lambda>q. Inr (renderQrAscii (qc_modules q)))"

end
