(* ===== verification/QrGrid.thy ===== *)
theory QrGrid
  imports Qr
begin

text \<open>
  What the drawing of a QR code does to single modules (opendweb, qr.mjs): the function patterns, the order
  of the placement, which visits every free module once, and the masks.
\<close>

subsection \<open>Squares\<close>

definition square :: "nat \<Rightarrow> grid \<Rightarrow> bool" where
  "square n g \<longleftrightarrow> length g = n \<and> (\<forall>row \<in> set g. length row = n)"

lemma square_set [simp]: "square n g \<Longrightarrow> square n (set_cell r c b g)"
proof (cases "r < length g")
  case True
  then show "square n g \<Longrightarrow> square n (set_cell r c b g)"
    by (auto simp: square_def set_cell_def dest!: subsetD [OF set_update_subset_insert])
next
  case False
  then have "set_cell r c b g = g" by (simp add: set_cell_def not_less list_update_beyond)
  then show "square n g \<Longrightarrow> square n (set_cell r c b g)" by simp
qed

lemma cell_set:
  "square n g \<Longrightarrow> r < n \<Longrightarrow> c < n \<Longrightarrow>
     cell (set_cell r c b g) r' c' = (if r' = r \<and> c' = c then b else cell g r' c')"
  by (auto simp: square_def set_cell_def cell_def nth_list_update)

lemma square_blank [simp]: "square n (replicate n (replicate n b))"
  by (simp add: square_def)

lemma cell_blank [simp]: "r < n \<Longrightarrow> c < n \<Longrightarrow> cell (replicate n (replicate n b)) r c = b"
  by (simp add: cell_def)

lemma square_apply_mask [simp]: "square n (apply_mask n k res g)"
  by (auto simp: square_def apply_mask_def)

lemma cell_apply_mask [simp]:
  "r < n \<Longrightarrow> c < n \<Longrightarrow>
     cell (apply_mask n k res g) r c = (if \<not> cell res r c \<and> MASK_FNS k r c then \<not> cell g r c else cell g r c)"
  by (simp add: cell_def apply_mask_def)

lemma square_eqI:
  "square n g \<Longrightarrow> square n h \<Longrightarrow> (\<And>r c. r < n \<Longrightarrow> c < n \<Longrightarrow> cell g r c = cell h r c) \<Longrightarrow> g = h"
  by (auto simp: square_def cell_def intro!: nth_equalityI)

text \<open>A mask is its own inverse.\<close>

lemma apply_mask_twice: "square n g \<Longrightarrow> apply_mask n k res (apply_mask n k res g) = g"
  by (rule square_eqI [of n]) auto

subsection \<open>Function patterns\<close>

definition inside :: "nat \<Rightarrow> (nat \<times> nat) list \<Rightarrow> bool" where
  "inside n ps \<longleftrightarrow> (\<forall>(r, c) \<in> set ps. r < n \<and> c < n)"

definition place_of :: "nat \<times> nat \<times> bool \<Rightarrow> nat \<times> nat" where
  "place_of w = (case w of (r, c, b) \<Rightarrow> (r, c))"

definition square_pair :: "nat \<Rightarrow> qr_grid \<Rightarrow> bool" where
  "square_pair n m \<longleftrightarrow> square n (qg_modules m) \<and> square n (qg_reserved m)"

lemma draw_all:
  assumes "square_pair n m" and "inside n (map place_of ws)"
  shows "square_pair n (foldl setFunctionModule m ws) \<and>
    (\<forall>r c. cell (qg_reserved (foldl setFunctionModule m ws)) r c =
       ((r, c) \<in> set (map place_of ws) \<or> cell (qg_reserved m) r c)) \<and>
    (\<forall>r c. (r, c) \<notin> set (map place_of ws) \<longrightarrow>
       cell (qg_modules (foldl setFunctionModule m ws)) r c = cell (qg_modules m) r c)"
  using assms
proof (induction ws arbitrary: m)
  case (Cons w ws)
  obtain r c b where w: "w = (r, c, b)" by (cases w)
  with Cons.prems have "r < n" "c < n" by (auto simp: inside_def place_of_def)
  moreover from this w Cons.prems have "square_pair n (setFunctionModule m w)"
    by (simp add: square_pair_def setFunctionModule_def)
  ultimately show ?case
    using Cons.IH [of "setFunctionModule m w"] Cons.prems w
      cell_set [of n "qg_reserved m" r c True] cell_set [of n "qg_modules m" r c b]
    by (auto simp: inside_def place_of_def square_pair_def setFunctionModule_def split: if_splits)
qed simp

lemma reserve_all:
  assumes "square n g" and "inside n ps"
  shows "square n (foldl (\<lambda>g (r, c). set_cell r c True g) g ps) \<and>
    (\<forall>r c. cell (foldl (\<lambda>g (r, c). set_cell r c True g) g ps) r c = ((r, c) \<in> set ps \<or> cell g r c))"
  using assms
proof (induction ps arbitrary: g)
  case (Cons p ps)
  obtain r c where p: "p = (r, c)" by (cases p)
  with Cons.prems have "r < n" "c < n" by (auto simp: inside_def)
  then show ?case
    using Cons.IH [of "set_cell r c True g"] Cons.prems p by (auto simp: inside_def cell_set)
qed simp

text \<open>All modules a version reserves, in the order of the drawing.\<close>

definition function_cells :: "qr_version \<Rightarrow> (nat \<times> nat \<times> bool) list" where
  "function_cells v =
     (let sz = qv_size v
      in (finder_cells sz 0 0 @ finder_cells sz 0 (sz - 7) @ finder_cells sz (sz - 7) 0) @
         (timing_cells sz @ alignment_cells v @ [(sz - 8, 8, True)]))"

definition format_cells :: "qr_version \<Rightarrow> (nat \<times> nat) list" where
  "format_cells v = format_copy1 @ format_copy2 (qv_size v)"

text \<open>The modules of the two format areas, told by their coordinates.\<close>

definition in_format :: "nat \<Rightarrow> nat \<times> nat \<Rightarrow> bool" where
  "in_format sz p =
     (case p of (r, c) \<Rightarrow>
        c = 8 \<and> (r \<le> 5 \<or> r = 7 \<or> r = 8 \<or> sz - 7 \<le> r) \<or> r = 8 \<and> (c \<le> 5 \<or> c = 7 \<or> sz - 8 \<le> c))"

definition layout_ok :: "qr_version \<Rightarrow> bool" where
  "layout_ok v \<longleftrightarrow>
     list_all (\<lambda>(r, c). r < qv_size v \<and> c < qv_size v) (map place_of (function_cells v) @ format_cells v) \<and>
     list_all (\<lambda>p. \<not> in_format (qv_size v) p) (map place_of (function_cells v)) \<and>
     list_all (in_format (qv_size v)) (format_cells v)"

definition reserved_count :: "qr_version \<Rightarrow> nat" where
  "reserved_count v = length (filter (\<lambda>(r, c). c \<noteq> 6) (map place_of (function_cells v) @ format_cells v))"

lemma layouts_ok: "list_all layout_ok VERSIONS_L"
  by code_simp

lemma reserved_counts: "map reserved_count VERSIONS_L = [212, 241, 245, 249, 253, 257]"
  by code_simp

lemma layout:
  assumes "v \<in> set VERSIONS_L"
  shows layout_function: "inside (qv_size v) (map place_of (function_cells v))"
    and layout_format: "inside (qv_size v) (format_cells v)"
    and layout_apart: "p \<in> set (format_cells v) \<Longrightarrow> p \<notin> set (map place_of (function_cells v))"
proof -
  have ok: "layout_ok v" using layouts_ok assms by (auto simp: list_all_iff)
  show "inside (qv_size v) (map place_of (function_cells v))" "inside (qv_size v) (format_cells v)"
    using ok by (auto simp: layout_ok_def inside_def list_all_iff)
  show "p \<in> set (format_cells v) \<Longrightarrow> p \<notin> set (map place_of (function_cells v))"
    using ok unfolding layout_ok_def list_all_iff by blast
qed

lemma function_grid_alt:
  "function_grid v =
     (let m = foldl setFunctionModule (blankMatrix (qv_size v)) (function_cells v)
      in m\<lparr>qg_reserved := foldl (\<lambda>g (r, c). set_cell r c True g) (qg_reserved m) (format_cells v)\<rparr>)"
  by (simp add: function_grid_def reserveFormat_def drawTimingAndAlignment_def drawFinders_def function_cells_def
      format_cells_def Let_def)

lemma function_grid:
  assumes v: "v \<in> set VERSIONS_L"
  shows "square (qv_size v) (qg_modules (function_grid v))" (is ?A)
    and "square (qv_size v) (qg_reserved (function_grid v))" (is ?B)
    and "r < qv_size v \<Longrightarrow> c < qv_size v \<Longrightarrow>
           cell (qg_reserved (function_grid v)) r c \<longleftrightarrow> (r, c) \<in> set (map place_of (function_cells v)) \<union> set (format_cells v)"
    and "r < qv_size v \<Longrightarrow> c < qv_size v \<Longrightarrow> (r, c) \<notin> set (map place_of (function_cells v)) \<Longrightarrow>
           \<not> cell (qg_modules (function_grid v)) r c"
proof -
  let ?m = "foldl setFunctionModule (blankMatrix (qv_size v)) (function_cells v)"
  have b: "square_pair (qv_size v) (blankMatrix (qv_size v))" by (simp add: square_pair_def blankMatrix_def)
  note d = draw_all [OF b layout_function [OF v]]
  have "square (qv_size v) (qg_reserved ?m)" using d by (simp add: square_pair_def)
  note e = reserve_all [OF this layout_format [OF v]]
  show ?A ?B using d e by (simp_all add: function_grid_alt Let_def square_pair_def)
  show "r < qv_size v \<Longrightarrow> c < qv_size v \<Longrightarrow>
           cell (qg_reserved (function_grid v)) r c \<longleftrightarrow> (r, c) \<in> set (map place_of (function_cells v)) \<union> set (format_cells v)"
    using d e by (auto simp: function_grid_alt Let_def blankMatrix_def)
  show "r < qv_size v \<Longrightarrow> c < qv_size v \<Longrightarrow> (r, c) \<notin> set (map place_of (function_cells v)) \<Longrightarrow>
           \<not> cell (qg_modules (function_grid v)) r c"
    using d by (simp add: function_grid_alt Let_def blankMatrix_def)
qed

subsection \<open>The order of the placement\<close>

definition column_block :: "nat \<Rightarrow> bool \<Rightarrow> nat \<Rightarrow> (nat \<times> nat) list" where
  "column_block sz up col = concat (map (\<lambda>i. let row = (if up then sz - 1 - i else i) in [(row, col), (row, col - 1)]) [0..<sz])"

lemma zigzag_blocks:
  "zigzag sz = concat (map (\<lambda>(k, col). column_block sz (even k) col) (zip [0..<length (column_pairs (sz - 1))] (column_pairs (sz - 1))))"
  by (simp add: zigzag_def column_block_def)

lemma set_column_block: "set (column_block sz up col) = {(r, c). r < sz \<and> (c = col \<or> c = col - 1)}"
proof (cases up)
  case True
  have "(\<lambda>i. sz - 1 - i) ` {..<sz} = {..<sz}"
  proof (rule card_subset_eq)
    show "card ((\<lambda>i. sz - 1 - i) ` {..<sz}) = card {..<sz}"
      by (rule card_image) (auto simp: inj_on_def)
  qed auto
  moreover have "set (column_block sz up col) = ((\<lambda>i. sz - 1 - i) ` {..<sz}) \<times> {col, col - 1}"
    using True by (auto simp: column_block_def Let_def)
  ultimately show ?thesis by auto
qed (auto simp: column_block_def Let_def)

lemma length_column_block: "length (column_block sz up col) = 2 * sz"
proof -
  have "length (concat (map f xs)) = 2 * length xs" if "\<And>i. length (f i) = 2" for f :: "nat \<Rightarrow> (nat \<times> nat) list" and xs
    using that by (induction xs) auto
  from this [of "\<lambda>i. let row = (if up then sz - 1 - i else i) in [(row, col), (row, col - 1)]" "[0..<sz]"]
  show ?thesis by (simp add: column_block_def Let_def)
qed

lemma distinct_column_block: "0 < col \<Longrightarrow> distinct (column_block sz up col)"
proof (rule card_distinct)
  assume col: "0 < col"
  have "set (column_block sz up col) = {..<sz} \<times> {col, col - 1}" by (auto simp: set_column_block)
  then show "card (set (column_block sz up col)) = length (column_block sz up col)"
    using col by (simp add: length_column_block card_cartesian_product)
qed

lemma distinct_columns:
  "length ks = length cols \<Longrightarrow> sorted_wrt (\<lambda>a b. b + 2 \<le> a) cols \<Longrightarrow> \<forall>c \<in> set cols. 0 < c \<Longrightarrow>
     distinct (concat (map (\<lambda>(k, col). column_block sz (even k) col) (zip ks cols))) \<and>
     length (concat (map (\<lambda>(k, col). column_block sz (even k) col) (zip ks cols))) = 2 * sz * length cols \<and>
     set (concat (map (\<lambda>(k, col). column_block sz (even k) col) (zip ks cols))) =
       {(r, c). r < sz \<and> (\<exists>col \<in> set cols. c = col \<or> c = col - 1)}"
proof (induction ks cols rule: list_induct2)
  case (Cons k ks col cols)
  then have apart: "\<forall>c' \<in> set cols. c' + 2 \<le> col" by simp
  have "set (column_block sz (even k) col) \<inter>
      {(r, c). r < sz \<and> (\<exists>col \<in> set cols. c = col \<or> c = col - 1)} = {}"
    using apart by (force simp: set_column_block)
  then show ?case
    using Cons by (auto simp: distinct_column_block length_column_block set_column_block)
qed simp

definition columns_ok :: "nat \<Rightarrow> nat list \<Rightarrow> bool" where
  "columns_ok sz cols \<longleftrightarrow> 2 * length cols = sz - 1 \<and> sorted_wrt (\<lambda>a b. b + 2 \<le> a) cols \<and>
     list_all (\<lambda>c. 0 < c \<and> c < sz \<and> c \<noteq> 6 \<and> c \<noteq> 7) cols"

lemma columns: "v \<in> set VERSIONS_L \<Longrightarrow> columns_ok (qv_size v) (column_pairs (qv_size v - 1))"
  by (auto simp: VERSIONS_L_def qr_v_def columns_ok_def column_pairs.simps)

lemma zigzag_once:
  assumes v: "v \<in> set VERSIONS_L"
  shows "distinct (zigzag (qv_size v))" (is ?A) and "length (zigzag (qv_size v)) = qv_size v * (qv_size v - 1)" (is ?B)
    and "set (zigzag (qv_size v)) \<subseteq> {(r, c). r < qv_size v \<and> c < qv_size v \<and> c \<noteq> 6}" (is ?C)
proof -
  note c = columns [OF v, unfolded columns_ok_def list_all_iff]
  note d = distinct_columns [of "[0..<length (column_pairs (qv_size v - 1))]" "column_pairs (qv_size v - 1)" "qv_size v"]
  show ?A using c d by (simp add: zigzag_blocks)
  show ?B using c d by (simp add: zigzag_blocks ac_simps)
  have "c' - 1 \<noteq> 6 \<and> c' - 1 < qv_size v" if "c' \<in> set (column_pairs (qv_size v - 1))" for c'
  proof -
    have "0 < c'" "c' < qv_size v" "c' \<noteq> 7" using c that by blast+
    then show ?thesis by linarith
  qed
  then show ?C using c d by (auto simp: zigzag_blocks)
qed

end
