(* ===== verification/QrProps.thy ===== *)
theory QrProps
  imports QrGrid
begin

text \<open>
  What a reader of the QR codes relies on (opendweb, qr.mjs): the free modules hold the code words, the code
  words hold the text, the blocks can be corrected, and the format information tells the mask.
\<close>

unbundle bit_operations_syntax

declare length_byte_bits [simp]

subsection \<open>Bits and bytes\<close>

lemma bb_push_bits: "bb_push v len bits = bits @ to_bits len v"
proof -
  have "map (\<lambda>i. odd (v div 2 ^ (len - 1 - i))) [0..<len] = to_bits len v"
  proof (induction len arbitrary: v)
    case (Suc len)
    have "map (\<lambda>i. odd (v div 2 ^ (len - i))) [0..<len] = map (\<lambda>i. odd (v div 2 div 2 ^ (len - 1 - i))) [0..<len]"
    proof (rule map_cong [OF refl])
      fix i assume "i \<in> set [0..<len]"
      then have "len - i = Suc (len - 1 - i)" by simp
      then have "v div 2 ^ (len - i) = v div 2 div 2 ^ (len - 1 - i)" by (simp add: div_mult2_eq)
      then show "odd (v div 2 ^ (len - i)) = odd (v div 2 div 2 ^ (len - 1 - i))" by simp
    qed
    also have "\<dots> = to_bits len (v div 2)" by (rule Suc)
    finally show ?case by simp
  qed simp
  then show ?thesis by (simp add: bb_push_def)
qed

lemma qr_bits_bytes: "qr_bits bs = byte_bits bs"
proof -
  have "map (\<lambda>j. odd (n div 2 ^ (7 - j))) [0..<8] = to_bits 8 n" for n :: nat
    using bb_push_bits [of n 8 "[]"] by (simp add: bb_push_def)
  then show ?thesis by (simp add: qr_bits_def byte_bits_def map_map o_def)
qed

lemma bits_of_append [simp]: "byte_bits (a @ b) = byte_bits a @ byte_bits b" "byte_bits [] = []"
  by (simp_all add: byte_bits_def)

lemma byte_bits_Cons: "byte_bits (b # bs) = to_bits 8 (unat b) @ byte_bits bs"
  by (simp add: byte_bits_def)

lemma byte_at_bits: "i + 8 \<le> length bits \<Longrightarrow> byte_at bits i = of_bits (take 8 (drop i bits))"
proof -
  assume i: "i + 8 \<le> length bits"
  have "foldl (\<lambda>b j. 2 * b + of_bool (i + j < length bits \<and> bits ! (i + j))) 0 [0..<n] = of_bits (take n (drop i bits))"
    if "n \<le> 8" for n
    using that
  proof (induction n)
    case (Suc n)
    then have "take (Suc n) (drop i bits) = take n (drop i bits) @ [bits ! (i + n)]"
      using i by (simp add: take_Suc_conv_app_nth)
    then show ?case using Suc i by simp
  qed simp
  then show ?thesis by (simp add: byte_at_def)
qed

text \<open>Whole bytes are kept.\<close>

fun bytes_of :: "bool list \<Rightarrow> bytes" where
  "bytes_of bits = (if bits = [] then [] else word_of_nat (of_bits (take 8 bits)) # bytes_of (drop 8 bits))"

declare bytes_of.simps [simp del]

lemma bytes_of_bits: "bytes_of (byte_bits bs) = bs"
proof (induction bs)
  case (Cons b bs)
  have "to_bits 8 (unat b) @ byte_bits bs \<noteq> []" by (metis append_is_Nil_conv length_to_bits list.size(3) zero_neq_numeral)
  moreover have "unat b mod 2 ^ 8 = unat b" using unat_256 [of b] by simp
  ultimately show ?case using Cons by (simp add: bytes_of.simps [of "to_bits 8 _ @ _"] byte_bits_Cons of_to_bits)
qed (simp add: bytes_of.simps)

lemma byte_bits_of: "8 dvd length bits \<Longrightarrow> byte_bits (bytes_of bits) = bits"
proof (induction bits rule: bytes_of.induct)
  case (1 bits)
  show ?case
  proof (cases "bits = []")
    case False
    with 1 have len: "8 \<le> length bits" by (metis dvd_imp_le length_greater_0_conv)
    with 1 False have "byte_bits (bytes_of (drop 8 bits)) = drop 8 bits" by simp
    moreover have "of_bits (take 8 bits) < 256" using of_bits_bound [of "take 8 bits"] len by simp
    then have "to_bits 8 (unat (word_of_nat (of_bits (take 8 bits)) :: 8 word)) = take 8 bits"
      using to_of_bits [of "take 8 bits"] len by (simp add: unat_of_nat)
    ultimately show ?thesis using False by (simp add: bytes_of.simps [of bits] byte_bits_Cons)
  qed (simp add: bytes_of.simps)
qed

lemma bb_bytes_bits: "8 dvd length bits \<Longrightarrow> byte_bits (bb_bytes bits) = bits"
proof -
  assume d: "8 dvd length bits"
  then obtain n where n: "length bits = 8 * n" by (elim dvdE)
  have "map (\<lambda>k. word_of_nat (byte_at bits (8 * k))) [0..<n] = bytes_of bits" using n
  proof (induction n arbitrary: bits)
    case (Suc n)
    have s: "byte_at bits (8 * Suc k) = byte_at (drop 8 bits) (8 * k)" if "k < n" for k
      using that Suc.prems by (simp add: byte_at_bits add.commute)
    have "map (\<lambda>k. word_of_nat (byte_at bits (8 * k))) [0..<Suc n] =
        word_of_nat (byte_at bits 0) # map (\<lambda>k. word_of_nat (byte_at bits (8 * Suc k)) :: 8 word) [0..<n]"
      unfolding upt_conv_Cons [OF zero_less_Suc] map_Suc_upt [symmetric] by (simp add: o_def del: upt_Suc)
    also have "map (\<lambda>k. word_of_nat (byte_at bits (8 * Suc k)) :: 8 word) [0..<n] =
        map (\<lambda>k. word_of_nat (byte_at (drop 8 bits) (8 * k))) [0..<n]"
      using s by simp
    also have "\<dots> = bytes_of (drop 8 bits)" using Suc by simp
    finally show ?case using Suc.prems by (auto simp: bytes_of.simps [of bits] byte_at_bits)
  qed (simp add: bytes_of.simps)
  then show ?thesis using byte_bits_of [OF d] n by (simp add: bb_bytes_def)
qed

subsection \<open>The data segment\<close>

lemma terminate_bits: "\<exists>t. terminate n cap bits = bits @ t \<and> length t = min n (cap - length bits)"
proof (induction n arbitrary: bits)
  case (Suc n)
  from Suc [of "bits @ [False]"] show ?case by (auto simp: bb_push_bits)
qed simp

lemma pushed_text: "foldl (\<lambda>bits b. bb_push (unat b) 8 bits) bits bs = bits @ byte_bits bs"
  by (induction bs arbitrary: bits) (simp_all add: bb_push_bits byte_bits_Cons)

lemma data_codewords:
  assumes fits: "length bs + 2 \<le> qv_dataCodewords v"
  obtains rest where "byte_bits (qrDataCodewords bs v) = to_bits 4 4 @ to_bits 8 (length bs) @ byte_bits bs @ rest"
    and "length (qrDataCodewords bs v) = qv_dataCodewords v"
proof -
  let ?b = "to_bits 4 4 @ to_bits 8 (length bs) @ byte_bits bs"
  have lb: "length ?b = 12 + 8 * length bs" by simp
  obtain t where t: "terminate 4 (qv_dataCodewords v * 8) ?b = ?b @ t" "length t = 4"
    using terminate_bits [of 4 "qv_dataCodewords v * 8" ?b] fits by auto
  have a: "align_byte (?b @ t) = ?b @ t" using t(2) lb by (simp add: align_byte_def)
  have d: "8 dvd length (?b @ t)" using t(2) lb by simp
  let ?o = "bb_bytes (?b @ t)"
  have o: "byte_bits ?o = ?b @ t" by (rule bb_bytes_bits [OF d])
  have lo: "length ?o = length bs + 2" using t(2) by (simp add: bb_bytes_def)
  have q: "qrDataCodewords bs v = pad_words (qv_dataCodewords v) ?o"
    using t(1) a by (simp add: qrDataCodewords_def pushed_text) (simp add: bb_push_bits)
  show thesis
    by (rule that [of "t @ byte_bits (map (\<lambda>i. if even i then 0xec else 0x11) [0..<qv_dataCodewords v - length ?o])"])
      (use o lo fits in \<open>simp_all add: q pad_words_def\<close>)
qed

subsection \<open>Blocks\<close>

lemma length_interleave: "length (interleave n blocks) = n * length blocks"
  by (simp add: interleave_def length_concat o_def sum_list_triv)

lemma interleave_nth:
  "i < n \<Longrightarrow> j < length blocks \<Longrightarrow> interleave n blocks ! (i * length blocks + j) = blocks ! j ! i"
proof (induction n)
  case (Suc n)
  have s: "interleave (Suc n) blocks = interleave n blocks @ map (\<lambda>b. b ! n) blocks"
    by (simp add: interleave_def)
  show ?case
  proof (cases "i = n")
    case True
    with Suc.prems show ?thesis by (simp add: s nth_append length_interleave)
  next
    case False
    with Suc.prems have "i < n" by simp
    then have "Suc i * length blocks \<le> n * length blocks" by (intro mult_le_mono1) simp
    with Suc.prems have "i * length blocks + j < n * length blocks" by simp
    then show ?thesis using Suc \<open>i < n\<close> by (simp add: s nth_append length_interleave)
  qed
qed simp

text \<open>A reader takes every block's bytes out of the stream.\<close>

definition deinterleave :: "nat \<Rightarrow> nat \<Rightarrow> bytes \<Rightarrow> bytes list" where
  "deinterleave b n ws = map (\<lambda>j. map (\<lambda>i. ws ! (i * b + j)) [0..<n]) [0..<b]"

lemma deinterleave:
  assumes "\<forall>b \<in> set blocks. length b = n"
  shows "deinterleave (length blocks) n (interleave n blocks) = blocks"
proof (rule nth_equalityI)
  fix j assume "j < length (deinterleave (length blocks) n (interleave n blocks))"
  then have j: "j < length blocks" by (simp add: deinterleave_def)
  then have "length (blocks ! j) = n" using assms by simp
  then have "map (\<lambda>i. interleave n blocks ! (i * length blocks + j)) [0..<n] = blocks ! j"
    using j by (intro nth_equalityI) (simp_all add: interleave_nth)
  then show "deinterleave (length blocks) n (interleave n blocks) ! j = blocks ! j"
    using j by (simp add: deinterleave_def)
qed (simp add: deinterleave_def)

lemma versions:
  assumes "v \<in> set VERSIONS_L"
  shows "qv_dataCodewords v div qv_blockCount v * qv_blockCount v = qv_dataCodewords v"
    and "0 < qv_ecPerBlock v" and "0 < qv_blockCount v" and "21 \<le> qv_size v" and "qv_dataCodewords v < 256"
    and "qv_dataCodewords v div qv_blockCount v + qv_ecPerBlock v \<le> 255"
    and "8 * (qv_dataCodewords v + qv_ecPerBlock v * qv_blockCount v) + reserved_count v \<le> qv_size v * (qv_size v - 1)"
proof -
  from assms show "qv_dataCodewords v div qv_blockCount v * qv_blockCount v = qv_dataCodewords v"
    "0 < qv_ecPerBlock v" "0 < qv_blockCount v" "21 \<le> qv_size v" "qv_dataCodewords v < 256"
    "qv_dataCodewords v div qv_blockCount v + qv_ecPerBlock v \<le> 255"
    by (auto simp: VERSIONS_L_def qr_v_def)
  show "8 * (qv_dataCodewords v + qv_ecPerBlock v * qv_blockCount v) + reserved_count v \<le> qv_size v * (qv_size v - 1)"
    using assms reserved_counts by (auto simp: VERSIONS_L_def qr_v_def)
qed

lemma sizes_tell_versions: "v \<in> set VERSIONS_L \<Longrightarrow> find (\<lambda>w. qv_size w = qv_size v) VERSIONS_L = Some v"
  by (auto simp: VERSIONS_L_def qr_v_def)

lemma blocks:
  assumes "v \<in> set VERSIONS_L" and "length data = qv_dataCodewords v"
  shows "length (qr_blocks v data) = qv_blockCount v" and "concat (qr_blocks v data) = data"
    and "\<forall>b \<in> set (qr_blocks v data). length b = qv_dataCodewords v div qv_blockCount v"
proof -
  let ?p = "qv_dataCodewords v div qv_blockCount v"
  note pb = versions(1) [OF assms(1)]
  show "length (qr_blocks v data) = qv_blockCount v" by (simp add: qr_blocks_def Let_def)
  have "concat (map (\<lambda>i. take ?p (drop (i * ?p) data)) [0..<n]) = take (n * ?p) data" for n
    by (induction n) (simp_all add: add.commute flip: take_add)
  then show "concat (qr_blocks v data) = data"
    using pb assms(2) by (simp add: qr_blocks_def Let_def mult.commute)
  have "?p \<le> length data - i * ?p" if "i < qv_blockCount v" for i
  proof -
    have "Suc i * ?p \<le> qv_blockCount v * ?p" using that by (intro mult_le_mono1) simp
    then show ?thesis using pb assms(2) by (simp add: mult.commute)
  qed
  then show "\<forall>b \<in> set (qr_blocks v data). length b = ?p"
    by (auto simp: qr_blocks_def Let_def min_def dest: le_antisym)
qed

lemma length_qr_codewords:
  assumes "v \<in> set VERSIONS_L" and "length data = qv_dataCodewords v"
  shows "length (qr_codewords v data) = qv_dataCodewords v + qv_ecPerBlock v * qv_blockCount v"
  using blocks [OF assms] versions(1) [OF assms(1)] by (simp add: qr_codewords_def Let_def length_interleave)

subsection \<open>Painting\<close>

definition paint :: "((nat \<times> nat) \<times> bool) list \<Rightarrow> grid \<Rightarrow> grid" where
  "paint ws g = foldl (\<lambda>g ((r, c), b). set_cell r c b g) g ws"

lemma paint_cells:
  assumes "square n g" and "inside n (map fst ws)" and "distinct (map fst ws)"
  shows "square n (paint ws g) \<and> (\<forall>((r, c), b) \<in> set ws. cell (paint ws g) r c = b) \<and>
    (\<forall>r c. (r, c) \<notin> fst ` set ws \<longrightarrow> cell (paint ws g) r c = cell g r c)"
  using assms
proof (induction ws arbitrary: g)
  case (Cons w ws)
  obtain r c b where w: "w = ((r, c), b)" by (metis surj_pair)
  have rc: "r < n" "c < n" using Cons.prems w by (auto simp: inside_def)
  have p: "paint (w # ws) g = paint ws (set_cell r c b g)" by (simp add: paint_def w)
  have "square n (set_cell r c b g)" "inside n (map fst ws)" "distinct (map fst ws)"
    using Cons.prems by (simp_all add: inside_def)
  note IH = Cons.IH [OF this]
  have "(r, c) \<notin> fst ` set ws" using Cons.prems w by simp
  then show ?case using IH cell_set [OF Cons.prems(1) rc] unfolding p by (auto simp: w)
qed (simp add: paint_def)

lemma paint_zip:
  assumes "square n g" and "inside n ps" and "distinct ps" and len: "length ps = length bs"
  shows "square n (paint (zip ps bs) g)" and "map (\<lambda>(r, c). cell (paint (zip ps bs) g) r c) ps = bs"
    and "(r, c) \<notin> set ps \<Longrightarrow> cell (paint (zip ps bs) g) r c = cell g r c"
proof -
  have f: "map fst (zip ps bs) = ps" using len by simp
  note c = paint_cells [of n g "zip ps bs", unfolded f, OF assms(1,2,3)]
  show "square n (paint (zip ps bs) g)" using c by blast
  have "fst ` set (zip ps bs) = set ps" using f by (metis set_map)
  then show "(r, c) \<notin> set ps \<Longrightarrow> cell (paint (zip ps bs) g) r c = cell g r c" using c by blast
  show "map (\<lambda>(r, c). cell (paint (zip ps bs) g) r c) ps = bs"
  proof (rule nth_equalityI)
    fix i assume "i < length (map (\<lambda>(r, c). cell (paint (zip ps bs) g) r c) ps)"
    then have i: "i < length ps" by simp
    then have "(ps ! i, bs ! i) \<in> set (zip ps bs)" using len by (auto simp: set_zip)
    with c have "(case ps ! i of (r, c) \<Rightarrow> cell (paint (zip ps bs) g) r c) = bs ! i" by (cases "ps ! i") fastforce
    then show "map (\<lambda>(r, c). cell (paint (zip ps bs) g) r c) ps ! i = bs ! i" using i by simp
  qed (simp add: len)
qed

lemma place_bits_paint:
  "fst (foldl (place_bit res bits) (g, k) ps) =
     paint (zip (filter (\<lambda>(r, c). \<not> cell res r c) ps)
       (map (\<lambda>j. j < length bits \<and> bits ! j) [k..<k + length (filter (\<lambda>(r, c). \<not> cell res r c) ps)])) g"
proof (induction ps arbitrary: g k)
  case (Cons p ps)
  obtain r c where p: "p = (r, c)" by (cases p)
  show ?case
  proof (cases "cell res r c")
    case False
    then show ?thesis using Cons [of "set_cell r c (k < length bits \<and> bits ! k) g" "Suc k"]
      by (simp add: p place_bit_def paint_def upt_conv_Cons del: upt_Suc)
  qed (use Cons p in \<open>simp add: place_bit_def\<close>)
qed (simp add: paint_def)

lemma write_format_paint:
  "write_format sz fmt g = paint (zip format_copy1 (map (\<lambda>i. odd (fmt div 2 ^ (14 - i))) [0..<15])) g"
proof -
  have "foldl (\<lambda>g i. case (format_copy1 @ format_copy2 sz) ! i of (r, c) \<Rightarrow> set_cell r c (B i) g) g [0..<n] =
      paint (zip format_copy1 (map B [0..<n])) g" if "n \<le> 15" for n B
    using that
  proof (induction n)
    case (Suc n)
    have l: "length format_copy1 = 15" by (simp add: format_copy1_def)
    with Suc.prems have "zip format_copy1 (map B [0..<Suc n]) = zip format_copy1 (map B [0..<n]) @ [(format_copy1 ! n, B n)]"
      by (intro nth_equalityI) (auto simp: nth_append less_Suc_eq simp del: upt_Suc)
    then show ?case using Suc l by (simp add: paint_def nth_append split: prod.split)
  qed (simp add: paint_def)
  from this [of 15] show ?thesis by (simp add: write_format_def Let_def)
qed

subsection \<open>The choice of the mask\<close>

lemma mask_loop_best:
  assumes "case best of None \<Rightarrow> True | Some (b, q) \<Rightarrow> q = pen (masked b)"
  obtains b where "mask_loop masked pen (k # ks) best = Some (b, pen (masked b))"
    and "b \<in> set (k # ks) \<or> best = Some (b, pen (masked b))"
    and "\<forall>j \<in> set (k # ks). pen (masked b) \<le> pen (masked j)"
    and "\<forall>b' q. best = Some (b', q) \<longrightarrow> pen (masked b) \<le> q"
  using assms
proof (induction ks arbitrary: k best thesis)
  case Nil
  then show ?case by (cases best) (fastforce simp: Let_def split: if_splits)+
next
  case (Cons k' ks)
  let ?best = "case best of Some (b, q) \<Rightarrow> if pen (masked k) < q then Some (k, pen (masked k)) else best | None \<Rightarrow> Some (k, pen (masked k))"
  have "case ?best of None \<Rightarrow> True | Some (b, q) \<Rightarrow> q = pen (masked b)"
    using Cons.prems(2) by (auto split: option.splits)
  then obtain b where b: "mask_loop masked pen (k' # ks) ?best = Some (b, pen (masked b))"
    "b \<in> set (k' # ks) \<or> ?best = Some (b, pen (masked b))"
    "\<forall>j \<in> set (k' # ks). pen (masked b) \<le> pen (masked j)"
    "\<forall>b' q. ?best = Some (b', q) \<longrightarrow> pen (masked b) \<le> q"
    using Cons.IH [of k' ?best] by blast
  show ?case
  proof (rule Cons.prems(1) [of b])
    show "mask_loop masked pen (k # k' # ks) best = Some (b, pen (masked b))" using b(1) by (simp add: Let_def)
    show "b \<in> set (k # k' # ks) \<or> best = Some (b, pen (masked b))"
      using b(2) by (auto split: option.splits if_splits)
    show "\<forall>j \<in> set (k # k' # ks). pen (masked b) \<le> pen (masked j)"
      using b(3,4) by (fastforce split: option.splits if_splits)
    show "\<forall>b' q. best = Some (b', q) \<longrightarrow> pen (masked b) \<le> q"
      using b(4) by (fastforce split: option.splits if_splits)
  qed
qed

lemma best_mask_least: "best_mask masked pen < 8 \<and> (\<forall>k < 8. pen (masked (best_mask masked pen)) \<le> pen (masked k))"
proof -
  have u: "[0..<8] = 0 # [1..<8]" by (simp add: upt_conv_Cons)
  obtain b where "mask_loop masked pen [0..<8] None = Some (b, pen (masked b))" "b \<in> set [0..<8]"
    "\<forall>j \<in> set [0..<8]. pen (masked b) \<le> pen (masked j)"
    unfolding u using mask_loop_best [where best = None and pen = pen and masked = masked and k = 0 and ks = "[1..<8]"]
    by (metis option.distinct(1) option.simps(4))
  then show ?thesis by (auto simp: best_mask_def)
qed

subsection \<open>The format information\<close>

lemma bch15_words:
  "map bch15 [0..<32] = [21522, 20773, 24188, 23371, 17913, 16590, 20375, 19104, 30660, 29427, 32170, 30877, 26159, 25368, 27713, 26998, 5769, 5054, 7399, 6608, 1890, 597, 3340, 2107, 13663, 12392, 16177, 14854, 9396, 8579, 11994, 11245]"
  by (simp add: bch15_def bch_step_def push_bit_eq_mult upt_rec)

definition format_distance :: "nat \<Rightarrow> nat \<Rightarrow> nat" where
  "format_distance a b = length (filter id (map2 (\<noteq>) (to_bits 15 a) (to_bits 15 b)))"

lemma to_bits_alt: "to_bits n v = map (\<lambda>i. odd (v div 2 ^ (n - 1 - i))) [0..<n]"
  using bb_push_bits [of v n "[]"] by (simp add: bb_push_def)

definition format_words :: "bool list list" where
  "format_words =
    [[True, False, True, False, True, False, False, False, False, False, True, False, False, True, False],
     [True, False, True, False, False, False, True, False, False, True, False, False, True, False, True],
     [True, False, True, True, True, True, False, False, True, True, True, True, True, False, False],
     [True, False, True, True, False, True, True, False, True, False, False, True, False, True, True],
     [True, False, False, False, True, False, True, True, True, True, True, True, False, False, True],
     [True, False, False, False, False, False, False, True, True, False, False, True, True, True, False],
     [True, False, False, True, True, True, True, True, False, False, True, False, True, True, True],
     [True, False, False, True, False, True, False, True, False, True, False, False, False, False, False],
     [True, True, True, False, True, True, True, True, True, False, False, False, True, False, False],
     [True, True, True, False, False, True, False, True, True, True, True, False, False, True, True],
     [True, True, True, True, True, False, True, True, False, True, False, True, False, True, False],
     [True, True, True, True, False, False, False, True, False, False, True, True, True, False, True],
     [True, True, False, False, True, True, False, False, False, True, False, True, True, True, True],
     [True, True, False, False, False, True, True, False, False, False, True, True, False, False, False],
     [True, True, False, True, True, False, False, False, True, False, False, False, False, False, True],
     [True, True, False, True, False, False, True, False, True, True, True, False, True, True, False],
     [False, False, True, False, True, True, False, True, False, False, False, True, False, False, True],
     [False, False, True, False, False, True, True, True, False, True, True, True, True, True, False],
     [False, False, True, True, True, False, False, True, True, True, False, False, True, True, True],
     [False, False, True, True, False, False, True, True, True, False, True, False, False, False, False],
     [False, False, False, False, True, True, True, False, True, True, False, False, False, True, False],
     [False, False, False, False, False, True, False, False, True, False, True, False, True, False, True],
     [False, False, False, True, True, False, True, False, False, False, False, True, True, False, False],
     [False, False, False, True, False, False, False, False, False, True, True, True, False, True, True],
     [False, True, True, False, True, False, True, False, True, False, True, True, True, True, True],
     [False, True, True, False, False, False, False, False, True, True, False, True, False, False, False],
     [False, True, True, True, True, True, True, False, False, True, True, False, False, False, True],
     [False, True, True, True, False, True, False, False, False, False, False, False, True, True, False],
     [False, True, False, False, True, False, False, True, False, True, True, False, True, False, False],
     [False, True, False, False, False, False, True, True, False, False, False, False, False, True, True],
     [False, True, False, True, True, True, False, True, True, False, True, True, False, True, False],
     [False, True, False, True, False, True, True, True, True, True, False, True, True, False, True]]"

lemma format_words: "map (to_bits 15) (map bch15 [0..<32]) = format_words"
  unfolding bch15_words by (simp add: to_bits_alt format_words_def upt_rec)

lemma word_distances:
  "sorted_wrt (\<lambda>a b. 7 \<le> length (filter id (map2 (\<noteq>) a b))) format_words"
  by code_simp

lemma format_distance_commute: "format_distance a b = format_distance b a"
proof -
  have "map2 (\<noteq>) xs ys = map2 (\<noteq>) ys (xs :: bool list)" for xs ys
    by (rule nth_equalityI) auto
  then show ?thesis by (simp add: format_distance_def)
qed

lemma format_distances:
  assumes "a < 32" and "b < 32" and "a \<noteq> b"
  shows "7 \<le> format_distance (bch15 a) (bch15 b)"
proof -
  have len: "length format_words = 32" by (simp flip: format_words)
  have nth: "format_words ! i = to_bits 15 (bch15 i)" if "i < 32" for i
    using that by (simp flip: format_words)
  have "7 \<le> format_distance (bch15 i) (bch15 j)" if "i < j" "j < 32" for i j
  proof -
    have "i < 32" "j < length format_words" using that len by simp_all
    from sorted_wrt_nth_less [OF word_distances that(1) this(2)] show ?thesis
      unfolding nth [OF \<open>i < 32\<close>] nth [OF that(2)] format_distance_def .
  qed
  then show ?thesis using assms format_distance_commute by (metis linorder_neqE_nat)
qed

definition read_mask :: "grid \<Rightarrow> nat" where
  "read_mask g = (of_bits (map (\<lambda>(r, c). cell g r c) format_copy1) XOR 0x5412) div 2 ^ 10 mod 8"

lemma read_masks: "k < 8 \<Longrightarrow> bch15 (8 + k) < 2 ^ 15 \<and> (bch15 (8 + k) XOR 0x5412) div 2 ^ 10 mod 8 = k"
proof -
  assume "k < 8"
  then have "k \<in> {0, 1, 2, 3, 4, 5, 6, 7}" by auto
  then show ?thesis
    by (elim insertE emptyE) (simp_all add: bch15_def bch_step_def push_bit_eq_mult)
qed

subsection \<open>The free modules\<close>

definition free_cells :: "qr_version \<Rightarrow> (nat \<times> nat) list" where
  "free_cells v = filter (\<lambda>(r, c). \<not> cell (qg_reserved (function_grid v)) r c) (zigzag (qv_size v))"

definition total_words :: "qr_version \<Rightarrow> nat" where
  "total_words v = qv_dataCodewords v + qv_ecPerBlock v * qv_blockCount v"

lemma free_cells:
  assumes v: "v \<in> set VERSIONS_L"
  shows "distinct (free_cells v)" (is ?A) and "inside (qv_size v) (free_cells v)" (is ?B)
    and "set (free_cells v) \<inter> set format_copy1 = {}" (is ?C) and "8 * total_words v \<le> length (free_cells v)" (is ?D)
proof -
  let ?R = "\<lambda>(r, c). cell (qg_reserved (function_grid v)) r c"
  note z = zigzag_once [OF v]
  show ?A using z by (simp add: free_cells_def)
  show ?B using z by (auto simp: free_cells_def inside_def)
  have "set format_copy1 \<subseteq> set (format_cells v)" by (simp add: format_cells_def)
  moreover have "\<not> cell (qg_reserved (function_grid v)) r c \<Longrightarrow> (r, c) \<notin> set (format_cells v)" for r c
    using function_grid(3) [OF v, of r c] layout_format [OF v] by (auto simp: inside_def)
  ultimately show ?C by (auto simp: free_cells_def)
  let ?w = "filter (\<lambda>(r, c). c \<noteq> 6) (map place_of (function_cells v) @ format_cells v)"
  have "set (filter ?R (zigzag (qv_size v))) \<subseteq> set ?w"
  proof
    fix p assume p: "p \<in> set (filter ?R (zigzag (qv_size v)))"
    obtain r c where rc: "p = (r, c)" by (cases p)
    with p z(3) have "r < qv_size v" "c < qv_size v" "c \<noteq> 6" by auto
    with p function_grid(3) [OF v, of r c] show "p \<in> set ?w" by (simp add: rc)
  qed
  then have "card (set (filter ?R (zigzag (qv_size v)))) \<le> length ?w"
    using card_mono [OF finite_set] card_length le_trans by blast
  moreover have "card (set (filter ?R (zigzag (qv_size v)))) = length (filter ?R (zigzag (qv_size v)))"
    using z(1) by (intro distinct_card) simp
  moreover have "length (filter ?R (zigzag (qv_size v))) + length (free_cells v) = qv_size v * (qv_size v - 1)"
    using sum_length_filter_compl [of ?R "zigzag (qv_size v)"] z(2)
    by (simp add: free_cells_def split_def)
  ultimately show ?D using versions(7) [OF v] by (simp add: reserved_count_def total_words_def)
qed

definition placed :: "bytes \<Rightarrow> qr_version \<Rightarrow> grid" where
  "placed bs v = place_data (qv_size v) (qr_bits (qr_codewords v (qrDataCodewords bs v))) (function_grid v)"

lemma placed:
  assumes v: "v \<in> set VERSIONS_L" and len: "length bs + 2 \<le> qv_dataCodewords v"
  shows "square (qv_size v) (placed bs v)"
    and "take (8 * total_words v) (map (\<lambda>(r, c). cell (placed bs v) r c) (free_cells v)) =
           byte_bits (qr_codewords v (qrDataCodewords bs v))"
    and "(r, c) \<notin> set (free_cells v) \<Longrightarrow> cell (placed bs v) r c = cell (qg_modules (function_grid v)) r c"
proof -
  let ?cw = "qr_codewords v (qrDataCodewords bs v)" and ?f = "free_cells v"
  let ?b = "\<lambda>j. j < length (byte_bits ?cw) \<and> byte_bits ?cw ! j"
  let ?ws = "zip ?f (map ?b [0..<length ?f])"
  obtain rest where "length (qrDataCodewords bs v) = qv_dataCodewords v" using data_codewords [OF len] by metis
  then have lcw: "length ?cw = total_words v" using length_qr_codewords [OF v] by (simp add: total_words_def)
  have pl: "placed bs v = paint ?ws (qg_modules (function_grid v))"
    by (simp add: placed_def place_data_def place_bits_paint qr_bits_bytes free_cells_def)
  note c = paint_zip [OF function_grid(1) [OF v] free_cells(2,1) [OF v], of "map ?b [0..<length ?f]", folded pl]
  show "square (qv_size v) (placed bs v)" using c(1) by simp
  show "(r, c) \<notin> set ?f \<Longrightarrow> cell (placed bs v) r c = cell (qg_modules (function_grid v)) r c" using c(3) by simp
  have m: "map (\<lambda>(r, c). cell (placed bs v) r c) ?f = map ?b [0..<length ?f]" using c(2) by simp
  show "take (8 * total_words v) (map (\<lambda>(r, c). cell (placed bs v) r c) ?f) = byte_bits ?cw"
    unfolding m using free_cells(4) [OF v] lcw by (intro nth_equalityI) simp_all
qed

subsection \<open>A reader\<close>

text \<open>
  What a scanner without noise does: the size tells the version, the first copy of the format information the
  mask; the free modules in their order are the bits of the code words.
\<close>

definition read_words :: "qr_version \<Rightarrow> grid \<Rightarrow> bytes" where
  "read_words v g =
     (let plain = apply_mask (qv_size v) (read_mask g) (qg_reserved (function_grid v)) g
      in bytes_of (take (8 * total_words v) (map (\<lambda>(r, c). cell plain r c) (free_cells v))))"

definition read_segment :: "bytes \<Rightarrow> bytes option" where
  "read_segment ws =
     (let bits = byte_bits ws; n = of_bits (take 8 (drop 4 bits))
      in if of_bits (take 4 bits) = 4 then Some (bytes_of (take (8 * n) (drop 12 bits))) else None)"

definition read_qr :: "grid \<Rightarrow> bytes option" where
  "read_qr g =
     (case find (\<lambda>w. qv_size w = length g) VERSIONS_L of
        None \<Rightarrow> None
      | Some v \<Rightarrow>
          read_segment (concat (deinterleave (qv_blockCount v) (qv_dataCodewords v div qv_blockCount v) (read_words v g))))"

lemma encoded:
  assumes v: "v \<in> set VERSIONS_L" and len: "length bs + 2 \<le> qv_dataCodewords v"
  defines "q \<equiv> qr_encode bs v"
  shows "square (qv_size v) (qc_modules q)" and "read_mask (qc_modules q) = qc_mask q"
    and "read_words v (qc_modules q) = qr_codewords v (qrDataCodewords bs v)"
    and encoded_format: "map (\<lambda>(r, c). cell (qc_modules q) r c) format_copy1 = to_bits 15 (bch15 (8 + qc_mask q))"
    and "r < qv_size v \<Longrightarrow> c < qv_size v \<Longrightarrow> (r, c) \<notin> set (free_cells v) \<union> set format_copy1 \<Longrightarrow>
           cell (qg_reserved (function_grid v)) r c \<Longrightarrow> cell (qc_modules q) r c = cell (qg_modules (function_grid v)) r c"
proof -
  let ?n = "qv_size v" and ?res = "qg_reserved (function_grid v)" and ?k = "qc_mask q"
  let ?g = "apply_mask ?n ?k ?res (placed bs v)"
  let ?bits = "map (\<lambda>i. odd (bch15 (8 + ?k) div 2 ^ (14 - i))) [0..<15]"
  let ?ws = "zip format_copy1 ?bits"
  have k: "?k < 8" using best_mask_least by (simp add: q_def qr_encode_def Let_def)
  have q: "qc_modules q = paint ?ws ?g"
    by (simp add: q_def qr_encode_def Let_def write_format_paint placed_def)
  have l: "length format_copy1 = 15" "distinct format_copy1" by (simp_all add: format_copy1_def)
  have ins: "inside ?n format_copy1" using layout_format [OF v] by (auto simp: inside_def format_cells_def)
  have lb: "length format_copy1 = length ?bits" by (simp add: l)
  note c = paint_zip [where g = ?g, OF square_apply_mask ins l(2) lb, folded q]
  show "square ?n (qc_modules q)" by (rule c(1))
  note keep = c(3)
  have "map (\<lambda>(r, c). cell (qc_modules q) r c) format_copy1 = ?bits" by (rule c(2))
  also have "?bits = to_bits 15 (bch15 (8 + ?k))" unfolding to_bits_alt by simp
  finally show fb: "map (\<lambda>(r, c). cell (qc_modules q) r c) format_copy1 = to_bits 15 (bch15 (8 + ?k))" .
  then show "read_mask (qc_modules q) = ?k"
    using read_masks [OF k] by (simp add: read_mask_def of_to_bits)
  then have "read_words v (qc_modules q) =
      bytes_of (take (8 * total_words v) (map (\<lambda>(r, c). cell (apply_mask ?n ?k ?res (qc_modules q)) r c) (free_cells v)))"
    by (simp add: read_words_def)
  also have "map (\<lambda>(r, c). cell (apply_mask ?n ?k ?res (qc_modules q)) r c) (free_cells v) =
      map (\<lambda>(r, c). cell (placed bs v) r c) (free_cells v)"
  proof (rule map_cong [OF refl])
    fix p assume p: "p \<in> set (free_cells v)"
    obtain r c where rc: "p = (r, c)" by (cases p)
    with p free_cells(2,3) [OF v] have "r < ?n" "c < ?n" "(r, c) \<notin> set format_copy1" by (auto simp: inside_def)
    then show "(\<lambda>(r, c). cell (apply_mask ?n ?k ?res (qc_modules q)) r c) p = (\<lambda>(r, c). cell (placed bs v) r c) p"
      by (simp add: rc keep)
  qed
  finally show "read_words v (qc_modules q) = qr_codewords v (qrDataCodewords bs v)"
    by (simp add: placed(2) [OF v len] bytes_of_bits)
  show "r < ?n \<Longrightarrow> c < ?n \<Longrightarrow> (r, c) \<notin> set (free_cells v) \<union> set format_copy1 \<Longrightarrow> cell ?res r c \<Longrightarrow>
          cell (qc_modules q) r c = cell (qg_modules (function_grid v)) r c"
    using keep [of r c] placed(3) [OF v len, of r c] by simp
qed

lemma read_segment_bits:
  assumes "byte_bits ws = to_bits 4 4 @ to_bits 8 (length bs) @ byte_bits bs @ rest" and "length bs < 256"
  shows "read_segment ws = Some bs"
  using assms by (simp add: read_segment_def Let_def of_to_bits bytes_of_bits)

lemma deinterleave_take:
  assumes "length blocks = b" and "\<forall>x \<in> set blocks. length x = n" and "ws = interleave n blocks @ rest"
  shows "deinterleave b n ws = blocks"
proof -
  have "i * b + j < n * b" if "i < n" "j < b" for i j
  proof -
    have "Suc i * b \<le> n * b" using that by (intro mult_le_mono1) simp
    then show ?thesis using that by simp
  qed
  then have "deinterleave b n ws = deinterleave b n (interleave n blocks)"
    using assms(1) by (simp add: deinterleave_def assms(3) nth_append length_interleave)
  then show ?thesis using deinterleave [OF assms(2)] assms(1) by simp
qed

lemma matrix_cases:
  assumes "qrMatrix bs = Inr q"
  obtains v where "v \<in> set VERSIONS_L" and "length bs + 2 \<le> qv_dataCodewords v" and "q = qr_encode bs v"
  using assms by (auto simp: qrMatrix_def find_Some_iff split: option.splits dest: nth_mem)

text \<open>
  C33. A QR code can be read: a reader that takes the version from the size and the mask from the first copy
  of the format information gets the text back from the modules, for every text that is accepted.
\<close>
theorem qr_round_trip: "qrMatrix bs = Inr q \<Longrightarrow> read_qr (qc_modules q) = Some bs"
proof -
  assume "qrMatrix bs = Inr q"
  then obtain v where v: "v \<in> set VERSIONS_L" and len: "length bs + 2 \<le> qv_dataCodewords v" and q: "q = qr_encode bs v"
    by (rule matrix_cases)
  note e = encoded [OF v len]
  have "length (qc_modules q) = qv_size v" using e(1) by (simp add: q square_def)
  then have fnd: "find (\<lambda>w. qv_size w = length (qc_modules q)) VERSIONS_L = Some v"
    using sizes_tell_versions [OF v] by simp
  obtain rest where d: "byte_bits (qrDataCodewords bs v) = to_bits 4 4 @ to_bits 8 (length bs) @ byte_bits bs @ rest"
    "length (qrDataCodewords bs v) = qv_dataCodewords v" using data_codewords [OF len] .
  note b = blocks [OF v d(2)]
  have "deinterleave (qv_blockCount v) (qv_dataCodewords v div qv_blockCount v) (read_words v (qc_modules q)) =
      qr_blocks v (qrDataCodewords bs v)"
    unfolding q e(3) by (rule deinterleave_take [OF b(1,3)]) (simp add: qr_codewords_def Let_def)
  then show ?thesis
    using read_segment_bits [OF d(1)] len versions(5) [OF v] fnd b(2) by (simp add: read_qr_def)
qed

lemma fits_smallest: "qrMatrix [] = Inr (qr_encode [] (hd VERSIONS_L))"
  by (simp add: qrMatrix_def VERSIONS_L_def qr_v_def)

theorem qr_round_trip_witness: "read_qr (qc_modules (qr_encode [] (hd VERSIONS_L))) = Some []"
  using qr_round_trip [OF fits_smallest] .

text \<open>The length decides: the largest version takes 134 bytes.\<close>

lemma qr_capacity: "qrMatrix bs = Inl e \<longleftrightarrow> 134 < length bs \<and> e = PayloadTooLarge (length bs)"
  by (auto simp: qrMatrix_def VERSIONS_L_def qr_v_def)

text \<open>The second copy of the format information is reserved, but it stays light.\<close>

lemma second_copy_is_blank:
  assumes "qrMatrix bs = Inr q" and p: "(r, c) \<in> set (format_copy2 (qc_size q)) - {(8, 8)}"
  shows "\<not> cell (qc_modules q) r c"
proof -
  from assms(1) obtain v where v: "v \<in> set VERSIONS_L" and len: "length bs + 2 \<le> qv_dataCodewords v" and q: "q = qr_encode bs v"
    by (rule matrix_cases)
  have sz: "qc_size q = qv_size v" by (simp add: q qr_encode_def Let_def)
  then have f: "(r, c) \<in> set (format_cells v)" using p by (simp add: format_cells_def)
  then have rc: "r < qv_size v" "c < qv_size v" using layout_format [OF v] by (auto simp: inside_def)
  then have res: "cell (qg_reserved (function_grid v)) r c" using function_grid(3) [OF v] f by auto
  then have "(r, c) \<notin> set (free_cells v)" by (simp add: free_cells_def)
  moreover have "(r, c) \<notin> set format_copy1"
    using p versions(4) [OF v] by (auto simp: sz format_copy1_def format_copy2_def)
  ultimately have "cell (qc_modules q) r c = cell (qg_modules (function_grid v)) r c"
    using encoded(5) [OF v len, of r c] rc res by (simp add: q)
  then show ?thesis using function_grid(4) [OF v rc] layout_apart [OF v f] by simp
qed

subsection \<open>Damaged symbols\<close>

text \<open>The blocks of a stream of code words: the data of each with its error correction.\<close>

definition stream_blocks :: "qr_version \<Rightarrow> bytes \<Rightarrow> bytes list" where
  "stream_blocks v ws =
     map2 (@) (deinterleave (qv_blockCount v) (qv_dataCodewords v div qv_blockCount v) ws)
       (deinterleave (qv_blockCount v) (qv_ecPerBlock v) (drop (qv_dataCodewords v) ws))"

lemma stream_blocks:
  assumes v: "v \<in> set VERSIONS_L" and len: "length data = qv_dataCodewords v"
  shows "stream_blocks v (qr_codewords v data) = map (codeword (qv_ecPerBlock v)) (qr_blocks v data)"
proof -
  let ?n = "qv_dataCodewords v div qv_blockCount v" and ?e = "qv_ecPerBlock v" and ?bs = "qr_blocks v data"
  let ?es = "map (\<lambda>b. rsRemainder b (rsDivisor ?e)) ?bs"
  note b = blocks [OF v len]
  have w: "qr_codewords v data = interleave ?n ?bs @ interleave ?e ?es" by (simp add: qr_codewords_def Let_def)
  have "length (interleave ?n ?bs) = qv_dataCodewords v" using b versions(1) [OF v] by (simp add: length_interleave)
  then have d: "drop (qv_dataCodewords v) (qr_codewords v data) = interleave ?e ?es @ []" by (simp add: w)
  have "rsDivisor ?e \<noteq> []" using versions(2) [OF v] by (metis length_rsDivisor list.size(3) less_irrefl)
  then have "\<forall>x \<in> set ?es. length x = ?e" by simp
  from deinterleave_take [OF _ this d, of "qv_blockCount v"] b(1)
  have "deinterleave (qv_blockCount v) ?e (drop (qv_dataCodewords v) (qr_codewords v data)) = ?es" by simp
  moreover have "deinterleave (qv_blockCount v) ?n (qr_codewords v data) = ?bs"
    by (rule deinterleave_take [OF b(1,3) w])
  moreover have "map2 (@) xs (map f xs) = map (\<lambda>x. x @ f x) xs" for f :: "bytes \<Rightarrow> bytes" and xs
    by (induction xs) auto
  ultimately show ?thesis by (simp add: stream_blocks_def codeword_def)
qed

lemma differences_triangle:
  assumes "length a = length w" and "length b = length w"
  shows "card (differences a b) \<le> card (differences w a) + card (differences w b)"
proof -
  have fin: "finite (differences x y)" for x y :: bytes by (simp add: differences_def)
  have "differences a b \<subseteq> differences w a \<union> differences w b" using assms by (auto simp: differences_def)
  then have "card (differences a b) \<le> card (differences w a \<union> differences w b)"
    using fin by (intro card_mono) auto
  then show ?thesis using card_Un_le le_trans by blast
qed

definition damaged :: "qr_version \<Rightarrow> bytes \<Rightarrow> bytes \<Rightarrow> bool" where
  "damaged v sent got \<longleftrightarrow> length got = length sent \<and>
     (\<forall>j < qv_blockCount v. 2 * card (differences (stream_blocks v got ! j) (stream_blocks v sent ! j)) \<le> qv_ecPerBlock v)"

text \<open>
  C34. A damaged symbol is still unambiguous: when at most half as many bytes of each block are wrong as the
  block has error correction bytes, only one text of the version can have been sent.
\<close>
theorem damage_is_correctable:
  assumes v: "v \<in> set VERSIONS_L"
    and len: "length bs + 2 \<le> qv_dataCodewords v" "length bs' + 2 \<le> qv_dataCodewords v"
    and "damaged v (qr_codewords v (qrDataCodewords bs v)) got"
    and "damaged v (qr_codewords v (qrDataCodewords bs' v)) got"
  shows "bs = bs'"
proof -
  let ?e = "qv_ecPerBlock v" and ?n = "qv_dataCodewords v div qv_blockCount v"
  let ?d = "qrDataCodewords bs v" and ?d' = "qrDataCodewords bs' v"
  obtain r r' where d: "byte_bits ?d = to_bits 4 4 @ to_bits 8 (length bs) @ byte_bits bs @ r" "length ?d = qv_dataCodewords v"
    and d': "byte_bits ?d' = to_bits 4 4 @ to_bits 8 (length bs') @ byte_bits bs' @ r'" "length ?d' = qv_dataCodewords v"
    using data_codewords [OF len(1)] data_codewords [OF len(2)] by metis
  note b = blocks [OF v d(2)] and b' = blocks [OF v d'(2)]
  note s = stream_blocks [OF v d(2)] stream_blocks [OF v d'(2)]
  have ne: "rsDivisor ?e \<noteq> []" using versions(2) [OF v] by (metis length_rsDivisor list.size(3) less_irrefl)
  have "qr_blocks v ?d = qr_blocks v ?d'"
  proof (rule nth_equalityI)
    fix j assume "j < length (qr_blocks v ?d)"
    then have j: "j < qv_blockCount v" by (simp add: b)
    then have l: "length (qr_blocks v ?d ! j) = ?n" "length (qr_blocks v ?d' ! j) = ?n" using b b' by simp_all
    let ?c = "codeword ?e (qr_blocks v ?d ! j)" and ?c' = "codeword ?e (qr_blocks v ?d' ! j)" and ?w = "stream_blocks v got ! j"
    have lc: "length ?c = ?n + ?e" "length ?c' = ?n + ?e" using l ne by (simp_all add: codeword_def)
    have lw: "length ?w = ?n + ?e" using j by (simp add: stream_blocks_def deinterleave_def)
    have "2 * card (differences ?w ?c) \<le> ?e" "2 * card (differences ?w ?c') \<le> ?e"
      using assms(4,5) j s b b' by (simp_all add: damaged_def)
    moreover have "card (differences ?c ?c') \<le> card (differences ?w ?c) + card (differences ?w ?c')"
      using lc lw by (intro differences_triangle) simp_all
    ultimately have few: "card (differences ?c ?c') \<le> ?e" by linarith
    have "?c = ?c'"
      using few lc versions(6) [OF v] codeword_roots by (intro codeword_distance [of ?c ?c' ?e]) auto
    then show "qr_blocks v ?d ! j = qr_blocks v ?d' ! j" using l by (simp add: codeword_def)
  qed (simp add: b b')
  then have same: "?d = ?d'" using b(2) b'(2) by metis
  have "read_segment ?d = Some bs" by (rule read_segment_bits [OF d(1)]) (use len versions(5) [OF v] in linarith)
  moreover have "read_segment ?d' = Some bs'" by (rule read_segment_bits [OF d'(1)]) (use len versions(5) [OF v] in linarith)
  ultimately show ?thesis unfolding same by (metis option.inject)
qed

theorem damage_is_correctable_witness:
  "damaged (hd VERSIONS_L) (qr_codewords (hd VERSIONS_L) (qrDataCodewords [7] (hd VERSIONS_L)))
     ((qr_codewords (hd VERSIONS_L) (qrDataCodewords [7] (hd VERSIONS_L)))[1 := 9]) \<and>
   \<not> damaged (hd VERSIONS_L) (qr_codewords (hd VERSIONS_L) (qrDataCodewords [8, 3] (hd VERSIONS_L)))
     ((qr_codewords (hd VERSIONS_L) (qrDataCodewords [7] (hd VERSIONS_L)))[1 := 9])"
proof -
  let ?v = "hd VERSIONS_L"
  let ?s = "qr_codewords ?v (qrDataCodewords [7] ?v)" and ?g = "(qr_codewords ?v (qrDataCodewords [7] ?v))[1 := 9]"
  have v: "?v \<in> set VERSIONS_L" by (simp add: VERSIONS_L_def)
  have q: "qv_blockCount ?v = 1" "qv_dataCodewords ?v = 19" "qv_ecPerBlock ?v = 7"
    by (simp_all add: VERSIONS_L_def qr_v_def)
  have at: "p = 1" if p: "p < 26" "(stream_blocks ?v (xs[1 := 9]) ! 0) ! p \<noteq> (stream_blocks ?v xs ! 0) ! p"
      and len: "length xs = 26" for p and xs :: bytes
    using p len by (auto simp: stream_blocks_def deinterleave_def q nth_append nth_list_update split: if_splits)
  obtain rest where "length (qrDataCodewords [7] ?v) = qv_dataCodewords ?v"
    using data_codewords [of "[7]" ?v] q by auto
  from length_qr_codewords [OF v this] have "length ?s = 26" by (simp add: q)
  from at [OF _ _ this] have "differences (stream_blocks ?v ?g ! 0) (stream_blocks ?v ?s ! 0) \<subseteq> {1}"
    by (auto simp: differences_def stream_blocks_def deinterleave_def q)
  then have "card (differences (stream_blocks ?v ?g ! 0) (stream_blocks ?v ?s ! 0)) \<le> 1"
    using card_mono [of "{1 :: nat}"] by fastforce
  then have dam: "damaged ?v ?s ?g" by (simp add: damaged_def q)
  have "\<not> damaged ?v (qr_codewords ?v (qrDataCodewords [8, 3] ?v)) ?g"
    using damage_is_correctable [OF v _ _ dam, of "[8, 3]"] by (auto simp: q)
  with dam show ?thesis by blast
qed

subsection \<open>Damaged format information\<close>

definition hamming :: "bool list \<Rightarrow> bool list \<Rightarrow> nat" where
  "hamming xs ys = length (filter id (map2 (\<noteq>) xs ys))"

lemma hamming_triangle:
  "length xs = length ys \<Longrightarrow> length ys = length zs \<Longrightarrow> hamming xs ys \<le> hamming zs xs + hamming zs ys"
  by (induction xs ys zs rule: list_induct3) (auto simp: hamming_def)

text \<open>
  The format information survives noise: whatever at most three modules of its first copy are read
  wrong, the code's own five data bits (level L and the chosen mask) are the only ones whose format word is
  that near.
\<close>
theorem format_survives_noise:
  assumes "qrMatrix bs = Inr q" and len: "length got = 15"
    and noise: "hamming got (map (\<lambda>(r, c). cell (qc_modules q) r c) format_copy1) \<le> 3"
  shows "hamming got (to_bits 15 (bch15 (8 + qc_mask q))) \<le> 3 \<and>
    (\<forall>a < 32. hamming got (to_bits 15 (bch15 a)) \<le> 3 \<longrightarrow> a = 8 + qc_mask q)"
proof -
  from assms(1) obtain v where v: "v \<in> set VERSIONS_L" and l: "length bs + 2 \<le> qv_dataCodewords v" and q: "q = qr_encode bs v"
    by (rule matrix_cases)
  have k: "qc_mask q < 8" using best_mask_least by (simp add: q qr_encode_def Let_def)
  have own: "hamming got (to_bits 15 (bch15 (8 + qc_mask q))) \<le> 3"
    using noise encoded_format [OF v l] by (simp add: q)
  moreover have "a = 8 + qc_mask q" if "a < 32" and near: "hamming got (to_bits 15 (bch15 a)) \<le> 3" for a
  proof (rule ccontr)
    assume "a \<noteq> 8 + qc_mask q"
    then have "7 \<le> format_distance (bch15 a) (bch15 (8 + qc_mask q))" using that(1) k by (intro format_distances) simp_all
    then have "7 \<le> hamming (to_bits 15 (bch15 a)) (to_bits 15 (bch15 (8 + qc_mask q)))"
      by (simp only: format_distance_def hamming_def)
    moreover have "hamming (to_bits 15 (bch15 a)) (to_bits 15 (bch15 (8 + qc_mask q))) \<le>
        hamming got (to_bits 15 (bch15 a)) + hamming got (to_bits 15 (bch15 (8 + qc_mask q)))"
      using len by (intro hamming_triangle) simp_all
    ultimately show False using own near by linarith
  qed
  ultimately show ?thesis by blast
qed

theorem format_survives_noise_witness:
  "\<exists>q. qrMatrix [] = Inr q \<and>
     \<not> hamming (map (\<lambda>(r, c). cell (qc_modules q) r c) format_copy1) (to_bits 15 (bch15 3)) \<le> 3"
proof -
  let ?q = "qr_encode [] (hd VERSIONS_L)"
  let ?got = "map (\<lambda>(r, c). cell (qc_modules ?q) r c) format_copy1"
  have zero: "hamming xs xs = 0" for xs by (induction xs) (simp_all add: hamming_def)
  have "length ?got = 15" "hamming ?got ?got \<le> 3" by (simp_all only: zero) (simp add: format_copy1_def)
  from format_survives_noise [OF fits_smallest this]
  have "\<forall>a < 32. hamming ?got (to_bits 15 (bch15 a)) \<le> 3 \<longrightarrow> a = 8 + qc_mask ?q" by (rule conjunct2)
  from this [THEN spec [of _ 3]] have "\<not> hamming ?got (to_bits 15 (bch15 3)) \<le> 3" by linarith
  then show ?thesis using fits_smallest by blast
qed

end
