(* ===== verification/Relay.thy ===== *)
theory Relay
  imports Json Utf8
begin

text \<open>
  The response relay of the AI provider (opendweb-ext-ai, provider/relay.mjs): the state of a response that
  is pulled piece by piece, the summaries that stay after its end, and the calls on them.

  A section under the lock of a response is one step; the calls that have several (a pull, the write of a
  chunk, a cancellation, a drain) are records of the machine, and their sections interleave with everything
  else.  A promise that is waited for has not been resolved while its caller is among the waiters.  The
  abort signal of the upstream is the reason it was aborted for.
\<close>

subsection \<open>Constants\<close>

definition DEFAULT_IDLE_TTL_MS :: nat where "DEFAULT_IDLE_TTL_MS = 120000"
definition DEFAULT_ABSOLUTE_LIFETIME_MS :: nat where "DEFAULT_ABSOLUTE_LIFETIME_MS = 10 * 60000"
definition SUMMARY_LRU_MAX_BYTES :: nat where "SUMMARY_LRU_MAX_BYTES = 4 * 1024 * 1024"
definition PER_REQUEST_BUFFER_BYTES :: nat where "PER_REQUEST_BUFFER_BYTES = 2 * 1024 * 1024"

definition HDR_SEQ :: string where "HDR_SEQ = ''x-odai-seq''"
definition HDR_DONE :: string where "HDR_DONE = ''x-odai-done''"
definition HDR_NEXT_SEQ :: string where "HDR_NEXT_SEQ = ''x-odai-next-seq''"

datatype terminal_kind = KDone | KCancelled | KExpired | KError

definition kind_text :: "terminal_kind \<Rightarrow> string" where
  "kind_text k =
     (case k of KDone \<Rightarrow> ''done'' | KCancelled \<Rightarrow> ''cancelled'' | KExpired \<Rightarrow> ''expired'' | KError \<Rightarrow> ''error'')"

subsection \<open>Answers\<close>

datatype relay_body = NoBody | JsonBody json | BytesBody bytes

record relay_response =
  rr_status :: nat
  rr_headers :: "(string \<times> string) list"
  rr_body :: relay_body

definition jsonResponse :: "nat \<Rightarrow> (string \<times> json) list \<Rightarrow> relay_response" where
  "jsonResponse status kvs =
     \<lparr>rr_status = status, rr_headers = [(''content-type'', ''application/json'')], rr_body = JsonBody (JObj kvs)\<rparr>"

definition problem :: "nat \<Rightarrow> string \<Rightarrow> relay_response" where
  "problem status code = jsonResponse status [(''code'', JStr code)]"

text \<open>The status of an answer for a response that ended with an error.\<close>

definition errorRelayStatus :: "string \<Rightarrow> nat" where
  "errorRelayStatus code =
     (if code = ''auth_revoked'' then 503 else if code = ''aborted'' \<or> code = ''idle_timeout'' then 504 else 502)"

subsection \<open>Responses\<close>

record response_meta =
  rm_status :: nat
  rm_headers :: "(string \<times> string) list"

record relay_entry =
  en_rid :: string
  en_keyId :: string
  en_group :: string
  en_createdAt :: nat
  en_lastActivityAt :: nat
  en_committedSeq :: int
  en_producedSeq :: int
  en_servedSeq :: int
  en_pending :: "(int \<times> bytes) list"
  en_bufferBytes :: nat
  en_eof :: bool
  en_meta :: "response_meta option"
  en_terminal :: "terminal_kind option"
  en_pullInFlight :: bool
  en_pullWaiters :: "nat list"
  en_spaceWaiters :: "nat list"
  en_aborted :: "string option"
  en_metaResult :: "(string + response_meta) option"

text \<open>What stays of a response: the record in the summaries.  A tombstone has no times.\<close>

datatype summary_body =
    SDone nat "(string \<times> string) list" int
  | SError string string
  | SCancelled
  | SExpired

record relay_summary =
  su_body :: summary_body
  su_keyId :: string
  su_times :: "(nat \<times> nat) option"

definition su_kind :: "relay_summary \<Rightarrow> terminal_kind" where
  "su_kind r = (case su_body r of SDone _ _ _ \<Rightarrow> KDone | SError _ _ \<Rightarrow> KError | SCancelled \<Rightarrow> KCancelled | SExpired \<Rightarrow> KExpired)"

definition summary_json :: "relay_summary \<Rightarrow> json" where
  "summary_json r =
     JObj ([(''kind'', JStr (kind_text (su_kind r))), (''keyId'', JStr (su_keyId r))] @
       (case su_body r of
          SDone status headers committed \<Rightarrow>
            [(''status'', JNum (int status)), (''headers'', JObj (map (\<lambda>(k, v). (k, JStr v)) headers)), (''committedSeq'', JNum committed)]
        | SError code message \<Rightarrow> [(''code'', JStr code), (''message'', JStr message)]
        | _ \<Rightarrow> []) @
       (case su_times r of
          Some (t, e) \<Rightarrow> [(''lastActivityAt'', JNum (int t)), (''expiresAt'', JNum (int e))]
        | None \<Rightarrow> []))"

text \<open>\<^verbatim>\<open>Buffer.byteLength\<close>: the length of the UTF-8 encoding.\<close>

definition byteLength :: "string \<Rightarrow> nat" where
  "byteLength s = length (utf8_encode (map of_char s))"

definition summary_size :: "relay_summary \<Rightarrow> nat" where
  "summary_size r = byteLength (stringify (summary_json r))"

text \<open>The calls that take several steps.\<close>

datatype pull_phase =
    PullQueued string int
  | PullHeld string int
  | PullAnswered string "relay_response option"
  | PullReplayed string relay_response
  | PullDone string "relay_response option"

datatype chunk_phase = ChunkTry string bytes | ChunkWait string bytes | ChunkDone

datatype cancel_phase = CancelQueued string | CancelDone relay_response

record drain_call =
  dr_targets :: "string list"
  dr_finishing :: bool
  dr_left :: "string list"
  dr_code :: string
  dr_message :: string
  dr_outcomes :: "terminal_kind list"

record relay =
  rg_epoch :: string
  rg_buffer :: nat
  rg_idle :: nat
  rg_life :: nat
  rg_entries :: "(string \<times> relay_entry) list"
  rg_active :: "string list"
  rg_summaries :: "(string \<times> relay_summary) list"
  rg_sizes :: "(string \<times> nat) list"
  rg_bytes :: int
  rg_timer :: bool
  rg_replaying :: "string list"
  rg_expiring :: "string list"
  rg_released :: "string list"
  rg_pulls :: "(nat \<times> pull_phase) list"
  rg_chunks :: "(nat \<times> chunk_phase) list"
  rg_cancels :: "(nat \<times> cancel_phase) list"
  rg_drains :: "(nat \<times> drain_call) list"

definition createRelayRegistry :: "string \<Rightarrow> nat option \<Rightarrow> nat option \<Rightarrow> nat option \<Rightarrow> relay" where
  "createRelayRegistry epoch buffer idle life =
     \<lparr>rg_epoch = epoch,
      rg_buffer = (case buffer of Some n \<Rightarrow> n | None \<Rightarrow> PER_REQUEST_BUFFER_BYTES),
      rg_idle = (case idle of Some n \<Rightarrow> n | None \<Rightarrow> DEFAULT_IDLE_TTL_MS),
      rg_life = (case life of Some n \<Rightarrow> n | None \<Rightarrow> DEFAULT_ABSOLUTE_LIFETIME_MS),
      rg_entries = [], rg_active = [], rg_summaries = [], rg_sizes = [], rg_bytes = 0, rg_timer = False,
      rg_replaying = [], rg_expiring = [], rg_released = [], rg_pulls = [], rg_chunks = [], rg_cancels = [],
      rg_drains = []\<rparr>"

definition the_entry :: "relay \<Rightarrow> string \<Rightarrow> relay_entry option" where
  "the_entry g rid = map_of (rg_entries g) rid"

definition set_entry :: "relay_entry \<Rightarrow> relay \<Rightarrow> relay" where
  "set_entry e g = g\<lparr>rg_entries := aput (en_rid e) e (rg_entries g)\<rparr>"

definition ended :: "relay_entry \<Rightarrow> bool" where
  "ended e \<longleftrightarrow> en_terminal e \<noteq> None"

subsection \<open>Summaries\<close>

definition size_of :: "string \<Rightarrow> relay \<Rightarrow> nat" where
  "size_of rid g = (case map_of (rg_sizes g) rid of Some n \<Rightarrow> n | None \<Rightarrow> 0)"

definition removeSummary :: "string \<Rightarrow> relay \<Rightarrow> relay" where
  "removeSummary rid g =
     (if map_of (rg_summaries g) rid = None then g
      else g\<lparr>rg_summaries := adel rid (rg_summaries g), rg_bytes := rg_bytes g - int (size_of rid g),
             rg_sizes := adel rid (rg_sizes g)\<rparr>)"

text \<open>The oldest summaries go while there is more than one and they are too large; each turn removes one.\<close>

fun evict_loop :: "nat \<Rightarrow> relay \<Rightarrow> relay" where
  "evict_loop 0 g = g"
| "evict_loop (Suc n) g =
     (if rg_bytes g > int SUMMARY_LRU_MAX_BYTES \<and> 1 < length (rg_summaries g)
      then evict_loop n (removeSummary (fst (hd (rg_summaries g))) g) else g)"

definition evictSummaryOverflow :: "relay \<Rightarrow> relay" where
  "evictSummaryOverflow g = evict_loop (length (rg_summaries g)) g"

definition startSweepIfNeeded :: "relay \<Rightarrow> relay" where
  "startSweepIfNeeded g =
     (if rg_timer g \<or> rg_active g = [] \<and> rg_summaries g = [] then g else g\<lparr>rg_timer := True\<rparr>)"

definition stopSweepIfIdle :: "relay \<Rightarrow> relay" where
  "stopSweepIfIdle g =
     (if rg_timer g \<and> rg_active g = [] \<and> rg_summaries g = [] then g\<lparr>rg_timer := False\<rparr> else g)"

text \<open>A record enters the map at its end, and its bytes are counted.\<close>

definition insert_summary :: "string \<Rightarrow> relay_summary \<Rightarrow> relay \<Rightarrow> relay" where
  "insert_summary rid r g =
     g\<lparr>rg_summaries := aput rid r (rg_summaries g), rg_sizes := aput rid (summary_size r) (rg_sizes g),
       rg_bytes := rg_bytes g + int (summary_size r)\<rparr>"

definition putSummary :: "nat \<Rightarrow> string \<Rightarrow> summary_body \<Rightarrow> string \<Rightarrow> relay \<Rightarrow> relay" where
  "putSummary now rid body key g =
     (let r = \<lparr>su_body = body, su_keyId = key, su_times = Some (now, now + rg_idle g)\<rparr>
      in startSweepIfNeeded (evictSummaryOverflow (insert_summary rid r (removeSummary rid g))))"

definition touchSummary :: "nat \<Rightarrow> string \<Rightarrow> relay \<Rightarrow> relay" where
  "touchSummary now rid g =
     (case map_of (rg_summaries g) rid of
        None \<Rightarrow> g
      | Some r \<Rightarrow>
          (case su_times r of
             None \<Rightarrow> g\<lparr>rg_summaries := aput rid r (adel rid (rg_summaries g))\<rparr>
           | Some _ \<Rightarrow>
               (let r' = r\<lparr>su_times := Some (now, now + rg_idle g)\<rparr>
                in evictSummaryOverflow
                     (g\<lparr>rg_summaries := aput rid r' (adel rid (rg_summaries g)),
                        rg_bytes := rg_bytes g + (int (summary_size r') - int (size_of rid g)),
                        rg_sizes := aput rid (summary_size r') (rg_sizes g)\<rparr>))))"

definition expireSummary :: "nat \<Rightarrow> string \<Rightarrow> relay \<Rightarrow> bool \<times> relay" where
  "expireSummary now rid g =
     (case map_of (rg_summaries g) rid of
        None \<Rightarrow> (False, g)
      | Some r \<Rightarrow>
          (case su_times r of
             None \<Rightarrow> (False, g)
           | Some (t, e) \<Rightarrow>
               if now < e then (False, g)
               else (True, evictSummaryOverflow
                      (insert_summary rid \<lparr>su_body = SExpired, su_keyId = su_keyId r, su_times = None\<rparr> (removeSummary rid g)))))"

subsection \<open>The end of a response\<close>

datatype ending = EndDone | EndCancelled | EndExpired | EndError string string

definition ending_kind :: "ending \<Rightarrow> terminal_kind" where
  "ending_kind x = (case x of EndDone \<Rightarrow> KDone | EndCancelled \<Rightarrow> KCancelled | EndExpired \<Rightarrow> KExpired | EndError _ _ \<Rightarrow> KError)"

definition ending_reason :: "ending \<Rightarrow> string" where
  "ending_reason x = (case x of EndError code message \<Rightarrow> code | _ \<Rightarrow> kind_text (ending_kind x))"

definition ending_summary :: "ending \<Rightarrow> relay_entry \<Rightarrow> summary_body" where
  "ending_summary x e =
     (case x of
        EndDone \<Rightarrow>
          (case en_meta e of
             Some m \<Rightarrow> SDone (rm_status m) (rm_headers m) (en_producedSeq e)
           | None \<Rightarrow> SDone 0 [] (en_producedSeq e))
      | EndError code message \<Rightarrow> SError code message
      | EndCancelled \<Rightarrow> SCancelled
      | EndExpired \<Rightarrow> SExpired)"

definition abort_upstream :: "string \<Rightarrow> relay_entry \<Rightarrow> relay_entry" where
  "abort_upstream reason e = (if en_aborted e = None then e\<lparr>en_aborted := Some reason\<rparr> else e)"

text \<open>What both ends do to the entry: it is marked, its buffer is given up, and everyone who waits is woken.\<close>

definition close_entry :: "terminal_kind \<Rightarrow> string \<Rightarrow> relay_entry \<Rightarrow> relay_entry" where
  "close_entry k reason e =
     (abort_upstream reason e)\<lparr>en_terminal := Some k, en_pending := [], en_bufferBytes := 0,
       en_pullWaiters := [], en_spaceWaiters := []\<rparr>"

definition leave_active :: "string \<Rightarrow> relay \<Rightarrow> relay" where
  "leave_active rid g =
     stopSweepIfIdle (g\<lparr>rg_active := filter (\<lambda>x. x \<noteq> rid) (rg_active g), rg_released := rg_released g @ [rid]\<rparr>)"

definition applyTerminal :: "nat \<Rightarrow> string \<Rightarrow> ending \<Rightarrow> relay \<Rightarrow> relay" where
  "applyTerminal now rid x g =
     (case the_entry g rid of
        None \<Rightarrow> g
      | Some e \<Rightarrow>
          if ended e then g
          else leave_active rid
                 (putSummary now rid (ending_summary x e) (en_keyId e)
                    (set_entry (close_entry (ending_kind x) (ending_reason x) e) g)))"

definition dropEntry :: "string \<Rightarrow> relay \<Rightarrow> relay" where
  "dropEntry rid g =
     (case the_entry g rid of
        None \<Rightarrow> g
      | Some e \<Rightarrow>
          if ended e then g else leave_active rid (set_entry (close_entry KError ''aborted'' e) g))"

subsection \<open>Creation and production\<close>

definition new_relay_entry :: "nat \<Rightarrow> string \<Rightarrow> string \<Rightarrow> string \<Rightarrow> relay_entry" where
  "new_relay_entry now rid key grp =
     \<lparr>en_rid = rid, en_keyId = key, en_group = grp, en_createdAt = now, en_lastActivityAt = now,
      en_committedSeq = -1, en_producedSeq = -1, en_servedSeq = -1, en_pending = [], en_bufferBytes = 0,
      en_eof = False, en_meta = None, en_terminal = None, en_pullInFlight = False, en_pullWaiters = [],
      en_spaceWaiters = [], en_aborted = None, en_metaResult = None\<rparr>"

definition relay_create :: "nat \<Rightarrow> string \<Rightarrow> string \<Rightarrow> string \<Rightarrow> relay \<Rightarrow> relay" where
  "relay_create now rid key grp g =
     startSweepIfNeeded ((set_entry (new_relay_entry now rid key grp) g)\<lparr>rg_active := rg_active g @ [rid]\<rparr>)"

definition settle_meta :: "string + response_meta \<Rightarrow> relay_entry \<Rightarrow> relay_entry" where
  "settle_meta r e = (if en_metaResult e = None then e\<lparr>en_metaResult := Some r\<rparr> else e)"

definition meta_headers :: "(string \<times> string) list \<Rightarrow> string \<Rightarrow> (string \<times> string) list" where
  "meta_headers headers contentType =
     (if map_of headers ''content-type'' = None \<and> contentType \<noteq> [] then aput ''content-type'' contentType headers else headers)"

definition sink_meta :: "string \<Rightarrow> nat \<Rightarrow> string \<Rightarrow> (string \<times> string) list \<Rightarrow> relay \<Rightarrow> relay" where
  "sink_meta rid status contentType headers g =
     (case the_entry g rid of
        None \<Rightarrow> g
      | Some e \<Rightarrow>
          if ended e then g
          else (let m = \<lparr>rm_status = status, rm_headers = meta_headers headers contentType\<rparr>
                in set_entry (settle_meta (Inr m) (e\<lparr>en_meta := Some m\<rparr>)) g))"

definition append_chunk :: "bytes \<Rightarrow> relay_entry \<Rightarrow> relay_entry" where
  "append_chunk piece e =
     e\<lparr>en_producedSeq := en_producedSeq e + 1, en_pending := en_pending e @ [(en_producedSeq e + 1, piece)],
       en_bufferBytes := en_bufferBytes e + length piece, en_pullWaiters := []\<rparr>"

text \<open>One turn of the loop of \<^verbatim>\<open>chunk\<close>: it is done, or its caller waits for space.\<close>

definition chunk_section :: "nat \<Rightarrow> string \<Rightarrow> bytes \<Rightarrow> relay \<Rightarrow> relay" where
  "chunk_section w rid piece g =
     (case the_entry g rid of
        None \<Rightarrow> g
      | Some e \<Rightarrow>
          if ended e \<or> en_eof e then g\<lparr>rg_chunks := aput w ChunkDone (rg_chunks g)\<rparr>
          else if en_bufferBytes e + length piece \<le> rg_buffer g
          then (set_entry (append_chunk piece e) g)\<lparr>rg_chunks := aput w ChunkDone (rg_chunks g)\<rparr>
          else (set_entry (e\<lparr>en_spaceWaiters := en_spaceWaiters e @ [w]\<rparr>) g)
                 \<lparr>rg_chunks := aput w (ChunkWait rid piece) (rg_chunks g)\<rparr>)"

definition waits_for_space :: "nat \<Rightarrow> string \<Rightarrow> relay \<Rightarrow> bool" where
  "waits_for_space w rid g = (case the_entry g rid of None \<Rightarrow> False | Some e \<Rightarrow> w \<in> set (en_spaceWaiters e))"

definition chunk_turn :: "nat \<Rightarrow> relay \<Rightarrow> relay" where
  "chunk_turn w g =
     (case map_of (rg_chunks g) w of
        Some (ChunkTry rid piece) \<Rightarrow> chunk_section w rid piece g
      | Some (ChunkWait rid piece) \<Rightarrow> if waits_for_space w rid g then g else chunk_section w rid piece g
      | _ \<Rightarrow> g)"

definition sink_end :: "string \<Rightarrow> relay \<Rightarrow> relay" where
  "sink_end rid g =
     (case the_entry g rid of
        None \<Rightarrow> g
      | Some e \<Rightarrow> if ended e then g else set_entry (e\<lparr>en_eof := True, en_pullWaiters := [], en_spaceWaiters := []\<rparr>) g)"

definition sink_error :: "nat \<Rightarrow> string \<Rightarrow> string \<Rightarrow> string \<Rightarrow> relay \<Rightarrow> relay" where
  "sink_error now rid code message g =
     (case the_entry g rid of
        None \<Rightarrow> g
      | Some e \<Rightarrow>
          if ended e then g
          else if en_meta e = None then dropEntry rid (set_entry (settle_meta (Inl code) e) g)
          else applyTerminal now rid (EndError code message) g)"

definition abortLocal :: "string \<Rightarrow> relay \<Rightarrow> relay" where
  "abortLocal rid g =
     (case the_entry g rid of
        None \<Rightarrow> g
      | Some e \<Rightarrow>
          if ended e \<or> en_meta e \<noteq> None then g
          else dropEntry rid (set_entry (settle_meta (Inl ''aborted'') e) g))"

subsection \<open>Pulls\<close>

definition summaryResponse :: "int \<Rightarrow> relay_response" where
  "summaryResponse committed =
     \<lparr>rr_status = 200, rr_headers = [(HDR_DONE, ''1''), (HDR_NEXT_SEQ, num_str (committed + 1))], rr_body = NoBody\<rparr>"

definition chunk_response :: "int \<Rightarrow> bytes \<Rightarrow> bool \<Rightarrow> relay_response" where
  "chunk_response seq piece isLast =
     \<lparr>rr_status = 200,
      rr_headers = [(HDR_SEQ, num_str seq), (HDR_NEXT_SEQ, num_str (seq + 1))] @ (if isLast then [(HDR_DONE, ''1'')] else []),
      rr_body = BytesBody piece\<rparr>"

definition hold_response :: "int \<Rightarrow> relay_response" where
  "hold_response committed = \<lparr>rr_status = 204, rr_headers = [(HDR_NEXT_SEQ, num_str (committed + 1))], rr_body = NoBody\<rparr>"

definition terminalReplay :: "nat \<Rightarrow> string \<Rightarrow> string \<Rightarrow> relay \<Rightarrow> relay_response \<times> relay" where
  "terminalReplay now rid key g =
     (case map_of (rg_summaries g) rid of
        None \<Rightarrow> (problem 404 ''response_not_found'', g)
      | Some r \<Rightarrow>
          if su_keyId r \<noteq> key then (problem 404 ''response_not_found'', g)
          else (case expireSummary now rid g of
                  (True, g') \<Rightarrow> (problem 404 ''response_expired'', g')
                | (False, g') \<Rightarrow>
                    (case su_body r of
                       SExpired \<Rightarrow> problem 404 ''response_expired''
                     | SCancelled \<Rightarrow> problem 404 ''response_not_found''
                     | SError code message \<Rightarrow>
                         jsonResponse (errorRelayStatus code) [(''code'', JStr code), (''message'', JStr message)]
                     | SDone status headers committed \<Rightarrow> summaryResponse committed,
                     touchSummary now rid g')))"

fun drop_confirmed :: "int \<Rightarrow> relay_entry \<Rightarrow> (int \<times> bytes) list \<Rightarrow> relay_entry" where
  "drop_confirmed c e [] = e\<lparr>en_pending := []\<rparr>"
| "drop_confirmed c e ((s, b) # ps) =
     (if s \<le> c then drop_confirmed c (e\<lparr>en_bufferBytes := en_bufferBytes e - length b\<rparr>) ps
      else e\<lparr>en_pending := (s, b) # ps\<rparr>)"

text \<open>A pull for a piece confirms the ones before it, as far as they were sent.\<close>

definition confirm :: "int \<Rightarrow> relay_entry \<Rightarrow> relay_entry" where
  "confirm fromSeq e =
     (let c = min (fromSeq - 1) (en_servedSeq e)
      in if c > en_committedSeq e
         then (drop_confirmed c (e\<lparr>en_committedSeq := c\<rparr>) (en_pending e))\<lparr>en_spaceWaiters := []\<rparr> else e)"

definition decideReady :: "nat \<Rightarrow> string \<Rightarrow> int \<Rightarrow> relay \<Rightarrow> relay_response option \<times> relay" where
  "decideReady now rid fromSeq g =
     (case the_entry g rid of
        None \<Rightarrow> (None, g)
      | Some e0 \<Rightarrow>
          if ended e0 then map_prod Some id (terminalReplay now rid (en_keyId e0) g)
          else
            (let e = confirm fromSeq e0
             in if fromSeq \<noteq> en_committedSeq e + 1 then (Some (problem 409 ''invalid_from_seq''), set_entry e g)
                else (case en_pending e of
                        (s, b) # _ \<Rightarrow>
                          if s = fromSeq
                          then (Some (chunk_response fromSeq b (en_eof e \<and> fromSeq = en_producedSeq e)),
                                set_entry (e\<lparr>en_servedSeq := fromSeq, en_lastActivityAt := now\<rparr>) g)
                          else if en_eof e \<and> en_producedSeq e < fromSeq
                          then (Some (summaryResponse (en_producedSeq e)),
                                applyTerminal now rid EndDone
                                  (set_entry (e\<lparr>en_committedSeq := en_producedSeq e, en_lastActivityAt := now\<rparr>) g))
                          else (None, set_entry e g)
                      | [] \<Rightarrow>
                          if en_eof e \<and> en_producedSeq e < fromSeq
                          then (Some (summaryResponse (en_producedSeq e)),
                                applyTerminal now rid EndDone
                                  (set_entry (e\<lparr>en_committedSeq := en_producedSeq e, en_lastActivityAt := now\<rparr>) g))
                          else (None, set_entry e g))))"

definition set_pull :: "nat \<Rightarrow> pull_phase \<Rightarrow> relay \<Rightarrow> relay" where
  "set_pull p ph g = g\<lparr>rg_pulls := aput p ph (rg_pulls g)\<rparr>"

definition pull_start :: "nat \<Rightarrow> nat \<Rightarrow> string \<Rightarrow> int \<Rightarrow> string \<Rightarrow> bool \<Rightarrow> relay \<Rightarrow> relay" where
  "pull_start now p rid fromSeq key aborted g =
     (if aborted then set_pull p (PullDone rid None) g
      else if rid \<notin> set (rg_active g) then
        (if map_of (rg_summaries g) rid = None then
           (case terminalReplay now rid key g of (r, g') \<Rightarrow> set_pull p (PullDone rid (Some r)) g')
         else if rid \<in> set (rg_replaying g) then set_pull p (PullDone rid (Some (problem 409 ''pull_in_flight''))) g
         else (case terminalReplay now rid key g of
                 (r, g') \<Rightarrow> set_pull p (PullReplayed rid r) (g'\<lparr>rg_replaying := rid # rg_replaying g'\<rparr>)))
      else (case the_entry g rid of
              None \<Rightarrow> g
            | Some e \<Rightarrow>
                if en_keyId e \<noteq> key then set_pull p (PullDone rid (Some (problem 404 ''response_not_found''))) g
                else set_pull p (PullQueued rid fromSeq) g))"

definition pull_first :: "nat \<Rightarrow> nat \<Rightarrow> relay \<Rightarrow> relay" where
  "pull_first now p g =
     (case map_of (rg_pulls g) p of
        Some (PullQueued rid fromSeq) \<Rightarrow>
          (case the_entry g rid of
             None \<Rightarrow> g
           | Some e \<Rightarrow>
               if en_pullInFlight e then set_pull p (PullDone rid (Some (problem 409 ''pull_in_flight''))) g
               else (case decideReady now rid fromSeq (set_entry (e\<lparr>en_pullInFlight := True\<rparr>) g) of
                       (Some r, g') \<Rightarrow> set_pull p (PullAnswered rid (Some r)) g'
                     | (None, g') \<Rightarrow>
                         (case the_entry g' rid of
                            None \<Rightarrow> g'
                          | Some e' \<Rightarrow>
                              set_pull p (PullHeld rid fromSeq)
                                (set_entry (e'\<lparr>en_pullWaiters := en_pullWaiters e' @ [p]\<rparr>) g'))))
      | _ \<Rightarrow> g)"

text \<open>After the hold: it was woken, its time is over, or the consumer is gone.\<close>

definition pull_second :: "nat \<Rightarrow> nat \<Rightarrow> bool \<Rightarrow> relay \<Rightarrow> relay" where
  "pull_second now p aborted g =
     (case map_of (rg_pulls g) p of
        Some (PullHeld rid fromSeq) \<Rightarrow>
          if aborted then set_pull p (PullAnswered rid None) g
          else (case decideReady now rid fromSeq g of
                  (Some r, g') \<Rightarrow> set_pull p (PullAnswered rid (Some r)) g'
                | (None, g') \<Rightarrow>
                    (case the_entry g' rid of
                       None \<Rightarrow> g'
                     | Some e \<Rightarrow> set_pull p (PullAnswered rid (Some (hold_response (en_committedSeq e)))) g'))
      | _ \<Rightarrow> g)"

definition pull_release :: "nat \<Rightarrow> relay \<Rightarrow> relay" where
  "pull_release p g =
     (case map_of (rg_pulls g) p of
        Some (PullAnswered rid r) \<Rightarrow>
          (case the_entry g rid of
             None \<Rightarrow> g
           | Some e \<Rightarrow>
               set_pull p (PullDone rid r)
                 (set_entry (e\<lparr>en_pullInFlight := False, en_pullWaiters := filter (\<lambda>x. x \<noteq> p) (en_pullWaiters e)\<rparr>) g))
      | Some (PullReplayed rid r) \<Rightarrow>
          set_pull p (PullDone rid (Some r)) (g\<lparr>rg_replaying := filter (\<lambda>x. x \<noteq> rid) (rg_replaying g)\<rparr>)
      | _ \<Rightarrow> g)"

subsection \<open>Cancellation, expiry, draining\<close>

definition status_answer :: "terminal_kind \<Rightarrow> relay_response" where
  "status_answer k = jsonResponse 200 [(''status'', JStr (kind_text k))]"

definition set_cancel :: "nat \<Rightarrow> cancel_phase \<Rightarrow> relay \<Rightarrow> relay" where
  "set_cancel p ph g = g\<lparr>rg_cancels := aput p ph (rg_cancels g)\<rparr>"

definition cancel_start :: "nat \<Rightarrow> nat \<Rightarrow> string \<Rightarrow> string \<Rightarrow> string \<Rightarrow> relay \<Rightarrow> relay" where
  "cancel_start now p rid epochClaim key g =
     (let gone = set_cancel p (CancelDone (problem 404 ''response_not_found'')) g
      in if epochClaim \<noteq> rg_epoch g then gone
         else if rid \<notin> set (rg_active g) then
           (case map_of (rg_summaries g) rid of
              None \<Rightarrow> gone
            | Some r \<Rightarrow>
                if su_keyId r \<noteq> key then gone
                else (case expireSummary now rid g of
                        (True, g') \<Rightarrow> set_cancel p (CancelDone (problem 404 ''response_expired'')) g'
                      | (False, g') \<Rightarrow>
                          set_cancel p
                            (CancelDone (if su_kind r = KExpired then problem 404 ''response_expired'' else status_answer (su_kind r)))
                            (touchSummary now rid g')))
         else (case the_entry g rid of
                 None \<Rightarrow> g
               | Some e \<Rightarrow> if en_keyId e \<noteq> key then gone else set_cancel p (CancelQueued rid) g))"

definition cancel_section :: "nat \<Rightarrow> nat \<Rightarrow> relay \<Rightarrow> relay" where
  "cancel_section now p g =
     (case map_of (rg_cancels g) p of
        Some (CancelQueued rid) \<Rightarrow> set_cancel p (CancelDone (status_answer KCancelled)) (applyTerminal now rid EndCancelled g)
      | _ \<Rightarrow> g)"

definition too_old :: "nat \<Rightarrow> relay \<Rightarrow> relay_entry \<Rightarrow> bool" where
  "too_old now g e \<longleftrightarrow> en_createdAt e + rg_life g \<le> now \<or> en_lastActivityAt e + rg_idle g \<le> now"

definition sweep :: "nat \<Rightarrow> relay \<Rightarrow> relay" where
  "sweep now g =
     (if rg_timer g
      then (let old = filter (\<lambda>rid. case the_entry g rid of Some e \<Rightarrow> too_old now g e | None \<Rightarrow> False) (rg_active g);
                g1 = g\<lparr>rg_expiring := rg_expiring g @ old\<rparr>
            in stopSweepIfIdle (foldl (\<lambda>g rid. snd (expireSummary now rid g)) g1 (akeys (rg_summaries g1))))
      else g)"

definition expire_section :: "nat \<Rightarrow> string \<Rightarrow> relay \<Rightarrow> relay" where
  "expire_section now rid g =
     (if rid \<in> set (rg_expiring g)
      then applyTerminal now rid EndExpired (g\<lparr>rg_expiring := remove1 rid (rg_expiring g)\<rparr>) else g)"

definition key_of :: "relay \<Rightarrow> string \<Rightarrow> string option" where
  "key_of g rid = map_option en_keyId (the_entry g rid)"

definition drain_start :: "nat \<Rightarrow> string list \<Rightarrow> relay \<Rightarrow> relay" where
  "drain_start d keys g =
     (let targets = filter (\<lambda>rid. case key_of g rid of Some k \<Rightarrow> k \<in> set keys | None \<Rightarrow> False) (rg_active g)
      in g\<lparr>rg_drains := aput d \<lparr>dr_targets = targets, dr_finishing = False, dr_left = targets,
           dr_code = ''auth_revoked'', dr_message = ''all session keys were revoked'', dr_outcomes = []\<rparr> (rg_drains g)\<rparr>)"

text \<open>The deadline is over, or the last of the targets has ended.\<close>

definition drain_finish :: "nat \<Rightarrow> relay \<Rightarrow> relay" where
  "drain_finish d g =
     (case map_of (rg_drains g) d of
        Some c \<Rightarrow> g\<lparr>rg_drains := aput d (c\<lparr>dr_finishing := True\<rparr>) (rg_drains g)\<rparr>
      | None \<Rightarrow> g)"

definition drain_next :: "nat \<Rightarrow> nat \<Rightarrow> relay \<Rightarrow> relay" where
  "drain_next now d g =
     (case map_of (rg_drains g) d of
        Some c \<Rightarrow>
          (case (dr_finishing c, dr_left c) of
             (True, rid # rids) \<Rightarrow>
               (let g' = applyTerminal now rid (EndError (dr_code c) (dr_message c)) g;
                    kinds = (case the_entry g' rid of Some e \<Rightarrow> (case en_terminal e of Some k \<Rightarrow> [k] | None \<Rightarrow> []) | None \<Rightarrow> [])
                in g'\<lparr>rg_drains := aput d (c\<lparr>dr_left := rids, dr_outcomes := dr_outcomes c @ kinds\<rparr>) (rg_drains g')\<rparr>)
           | _ \<Rightarrow> g)
      | None \<Rightarrow> g)"

definition closeAll :: "nat \<Rightarrow> string option \<Rightarrow> relay \<Rightarrow> relay" where
  "closeAll d code g =
     (let c = (case code of Some c \<Rightarrow> c | None \<Rightarrow> ''aborted'')
      in g\<lparr>rg_drains := aput d \<lparr>dr_targets = rg_active g, dr_finishing = True, dr_left = rg_active g,
           dr_code = c, dr_message = ''relay closed ('' @ c @ '')'', dr_outcomes = []\<rparr> (rg_drains g)\<rparr>)"

definition relay_dispose :: "nat \<Rightarrow> relay \<Rightarrow> relay" where
  "relay_dispose d g =
     g\<lparr>rg_timer := False,
       rg_drains := aput d \<lparr>dr_targets = rg_active g, dr_finishing = True, dr_left = rg_active g,
         dr_code = ''aborted'', dr_message = ''relay closed (dispose)'', dr_outcomes = []\<rparr> (rg_drains g)\<rparr>"

subsection \<open>The machine\<close>

datatype relay_event =
    EvCreate nat string string string
  | EvMeta string nat string "(string \<times> string) list"
  | EvChunk nat string bytes
  | EvChunkTurn nat
  | EvEnd string
  | EvError nat string string string
  | EvAbortLocal string
  | EvPull nat nat string int string bool
  | EvPullFirst nat nat
  | EvPullSecond nat nat bool
  | EvPullRelease nat
  | EvCancel nat nat string string string
  | EvCancelSection nat nat
  | EvSweep nat
  | EvExpire nat string
  | EvDrain nat "string list"
  | EvDrainFinish nat
  | EvDrainNext nat nat
  | EvCloseAll nat "string option"
  | EvDispose nat

fun relay_step :: "relay_event \<Rightarrow> relay \<Rightarrow> relay" where
  "relay_step (EvCreate now rid key grp) g = relay_create now rid key grp g"
| "relay_step (EvMeta rid status contentType headers) g = sink_meta rid status contentType headers g"
| "relay_step (EvChunk w rid piece) g = g\<lparr>rg_chunks := aput w (ChunkTry rid piece) (rg_chunks g)\<rparr>"
| "relay_step (EvChunkTurn w) g = chunk_turn w g"
| "relay_step (EvEnd rid) g = sink_end rid g"
| "relay_step (EvError now rid code message) g = sink_error now rid code message g"
| "relay_step (EvAbortLocal rid) g = abortLocal rid g"
| "relay_step (EvPull now p rid fromSeq key aborted) g = pull_start now p rid fromSeq key aborted g"
| "relay_step (EvPullFirst now p) g = pull_first now p g"
| "relay_step (EvPullSecond now p aborted) g = pull_second now p aborted g"
| "relay_step (EvPullRelease p) g = pull_release p g"
| "relay_step (EvCancel now p rid epochClaim key) g = cancel_start now p rid epochClaim key g"
| "relay_step (EvCancelSection now p) g = cancel_section now p g"
| "relay_step (EvSweep now) g = sweep now g"
| "relay_step (EvExpire now rid) g = expire_section now rid g"
| "relay_step (EvDrain d keys) g = drain_start d keys g"
| "relay_step (EvDrainFinish d) g = drain_finish d g"
| "relay_step (EvDrainNext now d) g = drain_next now d g"
| "relay_step (EvCloseAll d code) g = closeAll d code g"
| "relay_step (EvDispose d) g = relay_dispose d g"

text \<open>
  What the surroundings guarantee: a response id is used once, calls are told apart, and nobody writes to a
  response that was not created.
\<close>

fun relay_possible :: "relay_event \<Rightarrow> relay \<Rightarrow> bool" where
  "relay_possible (EvCreate now rid key grp) g \<longleftrightarrow> the_entry g rid = None"
| "relay_possible (EvChunk w rid piece) g \<longleftrightarrow> map_of (rg_chunks g) w = None \<and> the_entry g rid \<noteq> None"
| "relay_possible (EvPull now p rid fromSeq key aborted) g \<longleftrightarrow> map_of (rg_pulls g) p = None"
| "relay_possible (EvCancel now p rid epochClaim key) g \<longleftrightarrow> map_of (rg_cancels g) p = None"
| "relay_possible (EvDrain d keys) g \<longleftrightarrow> map_of (rg_drains g) d = None"
| "relay_possible (EvCloseAll d code) g \<longleftrightarrow> map_of (rg_drains g) d = None"
| "relay_possible (EvDispose d) g \<longleftrightarrow> map_of (rg_drains g) d = None"
| "relay_possible _ g \<longleftrightarrow> True"

inductive relay_reachable :: "relay \<Rightarrow> bool" where
  relay_init: "relay_reachable (createRelayRegistry epoch buffer idle life)"
| relay_next: "relay_reachable g \<Longrightarrow> relay_possible ev g \<Longrightarrow> relay_reachable (relay_step ev g)"

end
