(* ===== verification/RelayInv.thy ===== *)
theory RelayInv
  imports Relay
begin

text \<open>
  Invariants of the response relay (opendweb-ext-ai, provider/relay.mjs): the summaries and their account,
  the active responses, and what an event may do to a response.
\<close>

subsection \<open>What the summaries leave alone\<close>

text \<open>Everything but the summaries, their account and the timer.\<close>

definition core where
  "core g =
     (rg_epoch g, rg_buffer g, rg_idle g, rg_life g, rg_entries g, rg_active g, rg_replaying g, rg_expiring g, rg_released g,
      rg_pulls g, rg_chunks g, rg_cancels g, rg_drains g)"

lemma core_fields:
  assumes "core g = core g'"
  shows "rg_entries g = rg_entries g'" "rg_active g = rg_active g'" "rg_pulls g = rg_pulls g'" "rg_chunks g = rg_chunks g'"
    "rg_cancels g = rg_cancels g'" "rg_drains g = rg_drains g'" "rg_released g = rg_released g'" "rg_expiring g = rg_expiring g'"
    "rg_buffer g = rg_buffer g'" "rg_idle g = rg_idle g'" "rg_life g = rg_life g'" "rg_epoch g = rg_epoch g'"
    "rg_replaying g = rg_replaying g'"
  using assms by (simp_all add: core_def)

lemma core_removeSummary [simp]: "core (removeSummary rid g) = core g"
  by (simp add: removeSummary_def core_def)

lemma core_evict_loop [simp]: "core (evict_loop n g) = core g"
  by (induction n g rule: evict_loop.induct) simp_all

lemma core_summaries [simp]:
  "core (evictSummaryOverflow g) = core g" "core (startSweepIfNeeded g) = core g" "core (stopSweepIfIdle g) = core g"
  "core (insert_summary rid r g) = core g"
  by (simp_all add: evictSummaryOverflow_def startSweepIfNeeded_def stopSweepIfIdle_def insert_summary_def)
    (simp_all add: core_def)

lemma core_putSummary [simp]: "core (putSummary now rid b k g) = core g"
  by (simp add: putSummary_def Let_def)

lemma core_touchSummary [simp]: "core (touchSummary now rid g) = core g"
  by (simp add: touchSummary_def Let_def split: option.splits) (simp add: core_def)

lemma core_expireSummary [simp]: "core (snd (expireSummary now rid g)) = core g"
  by (simp add: expireSummary_def split: option.splits prod.splits)

lemma core_terminalReplay [simp]: "core (snd (terminalReplay now rid k g)) = core g"
proof -
  have "core (snd (case expireSummary now rid g of (True, g') \<Rightarrow> (a, g') | (False, g') \<Rightarrow> (b, touchSummary now rid g'))) = core g"
    for a b :: relay_response
    using core_expireSummary [of now rid g] by (cases "expireSummary now rid g"; cases "fst (expireSummary now rid g)") auto
  then show ?thesis by (simp add: terminalReplay_def split: option.split)
qed

lemma core_sweep_loop [simp]: "core (foldl (\<lambda>g rid. snd (expireSummary now rid g)) g rids) = core g"
  by (induction rids arbitrary: g) simp_all

lemmas put_fields = core_fields [OF core_putSummary]
lemmas stop_fields = core_fields [OF core_summaries(3)]
lemmas start_fields = core_fields [OF core_summaries(2)]
lemmas replay_fields = core_fields [OF core_terminalReplay]
lemmas touch_fields = core_fields [OF core_touchSummary]
lemmas expire_fields = core_fields [OF core_expireSummary]
lemmas sweep_fields = core_fields [OF core_sweep_loop]

lemmas summary_fields = put_fields stop_fields start_fields replay_fields touch_fields expire_fields sweep_fields

lemma same_entries: "rg_entries g = rg_entries g' \<Longrightarrow> the_entry g rid = the_entry g' rid"
  by (simp add: the_entry_def)

lemma the_entry_set [simp]: "the_entry (set_entry e g) rid = (if rid = en_rid e then Some e else the_entry g rid)"
  by (simp add: the_entry_def set_entry_def)

lemma the_entry_summaries [simp]:
  "the_entry (putSummary now r b k g) rid = the_entry g rid" "the_entry (stopSweepIfIdle g) rid = the_entry g rid"
  "the_entry (startSweepIfNeeded g) rid = the_entry g rid" "the_entry (snd (terminalReplay now r k g)) rid = the_entry g rid"
  "the_entry (touchSummary now r g) rid = the_entry g rid" "the_entry (snd (expireSummary now r g)) rid = the_entry g rid"
  by (rule same_entries; simp add: summary_fields)+

subsection \<open>Ends\<close>

lemma close_entry_fields [simp]:
  "en_rid (close_entry k x e) = en_rid e" "en_keyId (close_entry k x e) = en_keyId e" "en_terminal (close_entry k x e) = Some k"
  "en_pending (close_entry k x e) = []" "en_pullWaiters (close_entry k x e) = []" "en_spaceWaiters (close_entry k x e) = []"
  "en_committedSeq (close_entry k x e) = en_committedSeq e" "en_producedSeq (close_entry k x e) = en_producedSeq e"
  "en_servedSeq (close_entry k x e) = en_servedSeq e" "en_bufferBytes (close_entry k x e) = 0"
  "en_pullInFlight (close_entry k x e) = en_pullInFlight e" "en_eof (close_entry k x e) = en_eof e"
  "en_aborted (close_entry k x e) \<noteq> None"
  by (auto simp: close_entry_def abort_upstream_def)

lemma applyTerminal_entry:
  "the_entry g rid = Some e \<Longrightarrow> en_rid e = rid \<Longrightarrow>
     the_entry (applyTerminal now rid x g) r =
       (if r = rid \<and> \<not> ended e then Some (close_entry (ending_kind x) (ending_reason x) e) else the_entry g r)"
  by (auto simp: applyTerminal_def leave_active_def the_entry_def summary_fields set_entry_def)

lemma dropEntry_entry:
  "the_entry g rid = Some e \<Longrightarrow> en_rid e = rid \<Longrightarrow>
     the_entry (dropEntry rid g) r = (if r = rid \<and> \<not> ended e then Some (close_entry KError ''aborted'' e) else the_entry g r)"
  by (auto simp: dropEntry_def leave_active_def the_entry_def summary_fields set_entry_def)

lemma applyTerminal_none: "the_entry g rid = None \<Longrightarrow> applyTerminal now rid x g = g"
  by (simp add: applyTerminal_def)

lemma applyTerminal_calls [simp]:
  "rg_pulls (applyTerminal now rid x g) = rg_pulls g" "rg_chunks (applyTerminal now rid x g) = rg_chunks g"
  "rg_buffer (applyTerminal now rid x g) = rg_buffer g" "rg_drains (applyTerminal now rid x g) = rg_drains g"
  "rg_cancels (applyTerminal now rid x g) = rg_cancels g" "rg_expiring (applyTerminal now rid x g) = rg_expiring g"
  by (auto simp: applyTerminal_def leave_active_def summary_fields set_entry_def split: option.splits)

lemma dropEntry_calls [simp]:
  "rg_pulls (dropEntry rid g) = rg_pulls g" "rg_chunks (dropEntry rid g) = rg_chunks g" "rg_buffer (dropEntry rid g) = rg_buffer g"
  "rg_drains (dropEntry rid g) = rg_drains g"
  by (auto simp: dropEntry_def leave_active_def summary_fields set_entry_def split: option.splits)

subsection \<open>The account of the summaries\<close>

definition summaries_counted :: "relay \<Rightarrow> bool" where
  "summaries_counted g \<longleftrightarrow>
     distinct (akeys (rg_summaries g)) \<and>
     (\<forall>rid. map_of (rg_sizes g) rid = map_option summary_size (map_of (rg_summaries g) rid)) \<and>
     rg_bytes g = (\<Sum>(rid, r) \<leftarrow> rg_summaries g. int (summary_size r))"

definition bounded :: "relay \<Rightarrow> bool" where
  "bounded g \<longleftrightarrow> rg_bytes g \<le> int SUMMARY_LRU_MAX_BYTES \<or> length (rg_summaries g) \<le> 1"

lemma sum_adel:
  "distinct (akeys xs) \<Longrightarrow>
     (\<Sum>(k, r) \<leftarrow> adel rid xs. f r) = (\<Sum>(k, r) \<leftarrow> xs. f r) - (case map_of xs rid of Some r \<Rightarrow> f r | None \<Rightarrow> (0 :: int))"
proof (induction xs)
  case (Cons x xs)
  obtain k r where x: "x = (k, r)" by (cases x)
  have "rid \<notin> set (akeys xs) \<Longrightarrow> map_of xs rid = None" by (simp add: akeys_def map_of_eq_None_iff)
  then show ?case using Cons by (auto simp: x adel_def akeys_def split: option.splits)
qed (simp add: adel_def)

lemma sum_aput_new:
  "k \<notin> set (akeys xs) \<Longrightarrow> (\<Sum>(k, r) \<leftarrow> aput k v xs. f r) = (\<Sum>(k, r) \<leftarrow> xs. f r) + (f v :: int)"
  by (induction k v xs rule: aput.induct) (auto simp: akeys_def)

lemma counted_core:
  "rg_summaries g = rg_summaries g' \<Longrightarrow> rg_sizes g = rg_sizes g' \<Longrightarrow> rg_bytes g = rg_bytes g' \<Longrightarrow> summaries_counted g = summaries_counted g'"
  "rg_summaries g = rg_summaries g' \<Longrightarrow> rg_bytes g = rg_bytes g' \<Longrightarrow> bounded g = bounded g'"
  by (simp_all add: summaries_counted_def bounded_def)

lemma counted_remove:
  assumes "summaries_counted g"
  shows "summaries_counted (removeSummary rid g)"
proof (cases "map_of (rg_summaries g) rid")
  case (Some r)
  with assms have "size_of rid g = summary_size r" by (simp add: summaries_counted_def size_of_def)
  then show ?thesis
    using assms Some sum_adel [of "rg_summaries g" "\<lambda>r. int (summary_size r)" rid]
    by (auto simp: summaries_counted_def removeSummary_def distinct_adel)
qed (simp add: removeSummary_def assms)

lemma removed_gone [simp]: "map_of (rg_summaries (removeSummary rid g)) rid = None"
  by (simp add: removeSummary_def)

lemma counted_evict: "summaries_counted g \<Longrightarrow> summaries_counted (evict_loop n g)"
  by (induction n g rule: evict_loop.induct) (simp_all add: counted_remove)

lemma removed_shorter:
  assumes "map_of (rg_summaries g) rid \<noteq> None"
  shows "length (rg_summaries (removeSummary rid g)) < length (rg_summaries g)"
proof -
  have "(rid, the (map_of (rg_summaries g) rid)) \<in> set (rg_summaries g)" using assms by (auto dest: map_of_SomeD)
  then have "length (filter (\<lambda>p. fst p \<noteq> rid) (rg_summaries g)) < length (rg_summaries g)"
    by (intro length_filter_less) auto
  then show ?thesis using assms by (simp add: removeSummary_def adel_def)
qed

lemma evict_loop_bounded: "length (rg_summaries g) \<le> n \<Longrightarrow> bounded (evict_loop n g)"
proof (induction n g rule: evict_loop.induct)
  case (2 n g)
  show ?case
  proof (cases "rg_bytes g > int SUMMARY_LRU_MAX_BYTES \<and> 1 < length (rg_summaries g)")
    case True
    then obtain k r xs where "rg_summaries g = (k, r) # xs" by (cases "rg_summaries g") auto
    then have "length (rg_summaries (removeSummary (fst (hd (rg_summaries g))) g)) < length (rg_summaries g)"
      by (intro removed_shorter) simp
    then show ?thesis using 2 True by simp
  next
    case False
    then show ?thesis by (auto simp: bounded_def)
  qed
qed (simp add: bounded_def)

lemma evicted:
  "summaries_counted g \<Longrightarrow> summaries_counted (evictSummaryOverflow g)" "bounded (evictSummaryOverflow g)"
  by (simp_all add: evictSummaryOverflow_def counted_evict evict_loop_bounded)

lemma counted_timer [simp]:
  "summaries_counted (startSweepIfNeeded g) = summaries_counted g" "summaries_counted (stopSweepIfIdle g) = summaries_counted g"
  "bounded (startSweepIfNeeded g) = bounded g" "bounded (stopSweepIfIdle g) = bounded g"
  by (simp_all add: startSweepIfNeeded_def stopSweepIfIdle_def summaries_counted_def bounded_def)

lemma counted_insert:
  assumes "summaries_counted g" and new: "map_of (rg_summaries g) rid = None"
  shows "summaries_counted (insert_summary rid r g)"
proof -
  have "rid \<notin> set (akeys (rg_summaries g))" using new by (simp add: akeys_def map_of_eq_None_iff)
  from sum_aput_new [OF this, of "\<lambda>r. int (summary_size r)" r] show ?thesis
    using assms by (auto simp: summaries_counted_def insert_summary_def distinct_aput)
qed

lemma put_accounted: "summaries_counted g \<Longrightarrow> summaries_counted (putSummary now rid b k g) \<and> bounded (putSummary now rid b k g)"
  by (simp add: putSummary_def Let_def evicted counted_insert counted_remove)

lemma filter_one: "x \<in> set ks \<Longrightarrow> distinct ks \<Longrightarrow> Suc (length (filter (\<lambda>y. y \<noteq> x) ks)) = length ks"
proof (induction ks)
  case (Cons k ks)
  have "x \<notin> set ks \<Longrightarrow> filter (\<lambda>y. y \<noteq> x) ks = ks" by (induction ks) auto
  with Cons show ?case by auto
qed simp

lemma touch_accounted:
  assumes "summaries_counted g" and "bounded g"
  shows "summaries_counted (touchSummary now rid g) \<and> bounded (touchSummary now rid g)"
proof (cases "map_of (rg_summaries g) rid")
  case (Some r)
  have new: "rid \<notin> set (akeys (adel rid (rg_summaries g)))" by (simp add: akeys_adel)
  have size: "size_of rid g = summary_size r" using assms(1) Some by (simp add: summaries_counted_def size_of_def)
  have len: "length (aput rid v (adel rid (rg_summaries g))) = length (rg_summaries g)" for v
  proof -
    have "length xs = length (akeys xs)" for xs :: "(string \<times> relay_summary) list" by (simp add: akeys_def)
    moreover have "akeys (aput rid v (adel rid (rg_summaries g))) = akeys (adel rid (rg_summaries g)) @ [rid]"
      using new by (rule akeys_aput_new)
    moreover have "length (filter (\<lambda>x. x \<noteq> rid) (akeys (rg_summaries g))) + 1 = length (akeys (rg_summaries g))"
    proof -
      have "rid \<in> set (akeys (rg_summaries g))" using Some by (auto simp: akeys_def dest!: map_of_SomeD intro: rev_image_eqI)
      moreover have "distinct (akeys (rg_summaries g))" using assms(1) by (simp add: summaries_counted_def)
      ultimately show ?thesis using filter_one [of rid "akeys (rg_summaries g)"] by simp
    qed
    ultimately show ?thesis by (simp add: akeys_adel)
  qed
  note sums = sum_aput_new [OF new, of "\<lambda>r. int (summary_size r)"]
    sum_adel [of "rg_summaries g" "\<lambda>r. int (summary_size r)" rid]
  show ?thesis
  proof (cases "su_times r")
    case None
    then show ?thesis
      using assms Some size len sums by (auto simp: touchSummary_def summaries_counted_def bounded_def distinct_aput distinct_adel)
  next
    case (Some t)
    let ?r = "r\<lparr>su_times := Some (now, now + rg_idle g)\<rparr>"
    let ?g = "g\<lparr>rg_summaries := aput rid ?r (adel rid (rg_summaries g)),
        rg_bytes := rg_bytes g + (int (summary_size ?r) - int (size_of rid g)), rg_sizes := aput rid (summary_size ?r) (rg_sizes g)\<rparr>"
    have "summaries_counted ?g"
      using assms \<open>map_of (rg_summaries g) rid = Some r\<close> size sums
      by (auto simp: summaries_counted_def distinct_aput distinct_adel)
    then show ?thesis
      using \<open>map_of (rg_summaries g) rid = Some r\<close> Some evicted [of ?g] by (simp add: touchSummary_def Let_def)
  qed
qed (simp add: touchSummary_def assms)

lemma expire_accounted:
  "summaries_counted g \<Longrightarrow> bounded g \<Longrightarrow> summaries_counted (snd (expireSummary now rid g)) \<and> bounded (snd (expireSummary now rid g))"
  by (auto simp: expireSummary_def evicted counted_insert counted_remove split: option.splits prod.splits)

definition sound_account :: "relay \<Rightarrow> bool" where
  "sound_account g \<longleftrightarrow> summaries_counted g \<and> bounded g"

lemma sound_account_timer [simp]:
  "sound_account (startSweepIfNeeded g) = sound_account g" "sound_account (stopSweepIfIdle g) = sound_account g"
  by (simp_all add: sound_account_def)

lemma sound_account_updates [simp]:
  "sound_account (set_entry e g) = sound_account g" "sound_account (set_pull p ph g) = sound_account g"
  "sound_account (set_cancel p x g) = sound_account g" "sound_account (g\<lparr>rg_chunks := cs\<rparr>) = sound_account g"
  "sound_account (g\<lparr>rg_drains := ds\<rparr>) = sound_account g" "sound_account (g\<lparr>rg_expiring := xs\<rparr>) = sound_account g"
  "sound_account (g\<lparr>rg_replaying := xs\<rparr>) = sound_account g" "sound_account (g\<lparr>rg_active := xs\<rparr>) = sound_account g"
  "sound_account (g\<lparr>rg_timer := b\<rparr>) = sound_account g" "sound_account (g\<lparr>rg_timer := b, rg_drains := ds\<rparr>) = sound_account g"
  "sound_account (g\<lparr>rg_active := xs, rg_released := ys\<rparr>) = sound_account g"
  by (simp_all add: sound_account_def summaries_counted_def bounded_def set_entry_def set_pull_def set_cancel_def)

lemma sound_account_leave [simp]: "sound_account (leave_active rid g) = sound_account g"
  by (simp add: leave_active_def)

lemma sound_account_ops [intro]:
  "sound_account g \<Longrightarrow> sound_account (putSummary now rid b k g)"
  "sound_account g \<Longrightarrow> sound_account (touchSummary now rid g)"
  "sound_account g \<Longrightarrow> sound_account (snd (expireSummary now rid g))"
  by (simp_all add: sound_account_def put_accounted touch_accounted expire_accounted)

lemma sound_account_ends [intro]:
  "sound_account g \<Longrightarrow> sound_account (applyTerminal now rid x g)"
  "sound_account g \<Longrightarrow> sound_account (dropEntry rid g)"
  by (auto simp: applyTerminal_def dropEntry_def split: option.split)

lemma sound_account_replay [intro]: "sound_account g \<Longrightarrow> sound_account (snd (terminalReplay now rid k g))"
  using sound_account_ops(3) [of g now rid]
  by (auto simp: terminalReplay_def split: option.split prod.split bool.split)

lemma sound_account_decide [intro]: "sound_account g \<Longrightarrow> sound_account (snd (decideReady now rid s g))"
  by (auto simp: decideReady_def Let_def split: option.split list.split)

lemma sound_account_sweep: "sound_account g \<Longrightarrow> sound_account (foldl (\<lambda>g rid. snd (expireSummary now rid g)) g rids)"
  by (induction rids arbitrary: g) auto

lemma snd_case: "snd (case x of (a, b) \<Rightarrow> f a b) = (case x of (a, b) \<Rightarrow> snd (f a b))"
  by (cases x) simp

lemma sound_account_step: "sound_account g \<Longrightarrow> sound_account (relay_step ev g)"
proof (induction ev g rule: relay_step.induct)
  case (8 now p rid fromSeq key aborted g)
  then show ?case
    using sound_account_replay [OF 8, of now rid key] by (auto simp: pull_start_def split: option.split prod.split)
next
  case (9 now p g)
  show ?case
  proof (cases "\<exists>rid s e. map_of (rg_pulls g) p = Some (PullQueued rid s) \<and> the_entry g rid = Some e")
    case True
    then obtain rid s e where q: "map_of (rg_pulls g) p = Some (PullQueued rid s)" "the_entry g rid = Some e" by blast
    obtain r g' where d: "decideReady now rid s (set_entry (e\<lparr>en_pullInFlight := True\<rparr>) g) = (r, g')" by fastforce
    have "sound_account g'" using sound_account_decide [of "set_entry (e\<lparr>en_pullInFlight := True\<rparr>) g" now rid s] 9 d by simp
    then show ?thesis using q d 9 by (auto simp: pull_first_def split: option.split)
  next
    case False
    then show ?thesis using 9 by (auto simp: pull_first_def split: option.splits pull_phase.splits)
  qed
next
  case (10 now p aborted g)
  show ?case
  proof (cases "\<exists>rid s. map_of (rg_pulls g) p = Some (PullHeld rid s)")
    case True
    then obtain rid s where q: "map_of (rg_pulls g) p = Some (PullHeld rid s)" by blast
    obtain r g' where d: "decideReady now rid s g = (r, g')" by fastforce
    have "sound_account g'" using sound_account_decide [OF 10, of now rid s] d by simp
    then show ?thesis using q d 10 by (auto simp: pull_second_def split: option.split)
  next
    case False
    then show ?thesis using 10 by (auto simp: pull_second_def split: option.splits pull_phase.splits)
  qed
next
  case (12 now p rid epochClaim key g)
  then show ?case
    using sound_account_ops(3) [of g now rid]
    by (auto simp: cancel_start_def Let_def split: option.split prod.split bool.split)
qed (auto simp: relay_create_def sink_meta_def Let_def chunk_turn_def chunk_section_def sink_end_def sink_error_def
    abortLocal_def pull_release_def cancel_section_def sweep_def expire_section_def drain_start_def drain_finish_def
    drain_next_def closeAll_def relay_dispose_def intro!: sound_account_sweep
    split: option.split chunk_phase.split pull_phase.split cancel_phase.split bool.split list.split)

lemma sound_account_reachable: "relay_reachable g \<Longrightarrow> sound_account g"
proof (induction rule: relay_reachable.induct)
  case (relay_init epoch buffer idle life)
  show ?case by (simp add: createRelayRegistry_def sound_account_def summaries_counted_def bounded_def akeys_def)
qed (rule sound_account_step)

subsection \<open>Active responses\<close>

text \<open>
  The entries carry their ids; the active ones are those that have not ended; every end was announced once.
\<close>

definition ids_ok :: "relay \<Rightarrow> bool" where
  "ids_ok g \<longleftrightarrow>
     (\<forall>rid e. the_entry g rid = Some e \<longrightarrow> en_rid e = rid) \<and>
     distinct (rg_active g) \<and> set (rg_active g) = {rid. \<exists>e. the_entry g rid = Some e \<and> \<not> ended e} \<and>
     (\<forall>rid. count_list (rg_released g) rid = (case the_entry g rid of Some e \<Rightarrow> if ended e then 1 else 0 | None \<Rightarrow> 0))"

lemma ids_ok_core:
  "rg_entries g' = rg_entries g \<Longrightarrow> rg_active g' = rg_active g \<Longrightarrow> rg_released g' = rg_released g \<Longrightarrow> ids_ok g' = ids_ok g"
  by (simp add: ids_ok_def the_entry_def)

lemma ids_ok_updates [simp]:
  "ids_ok (set_pull p ph g) = ids_ok g" "ids_ok (set_cancel p x g) = ids_ok g" "ids_ok (g\<lparr>rg_chunks := cs\<rparr>) = ids_ok g"
  "ids_ok (g\<lparr>rg_drains := ds\<rparr>) = ids_ok g" "ids_ok (g\<lparr>rg_expiring := xs\<rparr>) = ids_ok g" "ids_ok (g\<lparr>rg_replaying := xs\<rparr>) = ids_ok g"
  "ids_ok (g\<lparr>rg_timer := b, rg_drains := ds\<rparr>) = ids_ok g" "ids_ok (g\<lparr>rg_timer := b\<rparr>) = ids_ok g" "ids_ok (touchSummary now rid g) = ids_ok g"
  "ids_ok (snd (expireSummary now rid g)) = ids_ok g" "ids_ok (snd (terminalReplay now rid k g)) = ids_ok g"
  "ids_ok (startSweepIfNeeded g) = ids_ok g" "ids_ok (stopSweepIfIdle g) = ids_ok g"
  "ids_ok (foldl (\<lambda>g rid. snd (expireSummary now rid g)) g rids) = ids_ok g"
  by (rule ids_ok_core; simp add: set_pull_def set_cancel_def summary_fields)+

text \<open>An entry may be replaced by one that is as ended as it was.\<close>

lemma ids_ok_set:
  assumes "ids_ok g" and "the_entry g (en_rid e) = Some e0" and "ended e = ended e0"
  shows "ids_ok (set_entry e g)"
proof -
  have "rg_active (set_entry e g) = rg_active g" "rg_released (set_entry e g) = rg_released g" by (simp_all add: set_entry_def)
  then show ?thesis using assms by (auto simp: ids_ok_def)
qed

lemma count_append_one: "count_list (xs @ [x]) y = count_list xs y + (if x = y then 1 else 0)"
  by (induction xs) auto

lemma ids_ok_close:
  assumes ok: "ids_ok g" and e: "the_entry g rid = Some e" "\<not> ended e"
    and g': "rg_entries g' = rg_entries (set_entry (close_entry k x e) g)" "rg_active g' = filter (\<lambda>r. r \<noteq> rid) (rg_active g)"
      "rg_released g' = rg_released g @ [rid]"
  shows "ids_ok g'"
proof -
  have "en_rid e = rid" using ok e by (auto simp: ids_ok_def)
  then have "the_entry g' r = (if r = rid then Some (close_entry k x e) else the_entry g r)" for r
    using same_entries [OF g'(1)] by simp
  then show ?thesis using ok e g'(2,3) by (auto simp: ids_ok_def count_append_one ended_def)
qed

lemma ids_ok_terminal: "ids_ok g \<Longrightarrow> ids_ok (applyTerminal now rid x g)"
proof (cases "\<exists>e. the_entry g rid = Some e \<and> \<not> ended e")
  case True
  assume ok: "ids_ok g"
  from True obtain e where e: "the_entry g rid = Some e" "\<not> ended e" by blast
  show ?thesis
    by (rule ids_ok_close [OF ok e]) (use e in \<open>simp_all add: applyTerminal_def leave_active_def summary_fields set_entry_def\<close>)
qed (auto simp: applyTerminal_def split: option.split)

lemma ids_ok_drop: "ids_ok g \<Longrightarrow> ids_ok (dropEntry rid g)"
proof (cases "\<exists>e. the_entry g rid = Some e \<and> \<not> ended e")
  case True
  assume ok: "ids_ok g"
  from True obtain e where e: "the_entry g rid = Some e" "\<not> ended e" by blast
  show ?thesis
    by (rule ids_ok_close [OF ok e]) (use e in \<open>simp_all add: dropEntry_def leave_active_def summary_fields set_entry_def\<close>)
qed (auto simp: dropEntry_def split: option.split)

lemma ids_ok_create: "ids_ok g \<Longrightarrow> the_entry g rid = None \<Longrightarrow> ids_ok (relay_create now rid key grp g)"
proof -
  assume ok: "ids_ok g" and new: "the_entry g rid = None"
  let ?g = "relay_create now rid key grp g"
  have "the_entry ?g r = (if r = rid then Some (new_relay_entry now rid key grp) else the_entry g r)" for r
    by (simp add: relay_create_def the_entry_def summary_fields set_entry_def new_relay_entry_def)
  moreover have "rg_active ?g = rg_active g @ [rid]" "rg_released ?g = rg_released g"
    by (simp_all add: relay_create_def summary_fields set_entry_def)
  ultimately show ?thesis using ok new by (auto simp: ids_ok_def new_relay_entry_def ended_def)
qed

lemma drop_confirmed_fields [simp]:
  "en_rid (drop_confirmed c e ps) = en_rid e" "en_keyId (drop_confirmed c e ps) = en_keyId e"
  "en_terminal (drop_confirmed c e ps) = en_terminal e" "en_committedSeq (drop_confirmed c e ps) = en_committedSeq e"
  "en_producedSeq (drop_confirmed c e ps) = en_producedSeq e" "en_servedSeq (drop_confirmed c e ps) = en_servedSeq e"
  "en_eof (drop_confirmed c e ps) = en_eof e" "en_pullInFlight (drop_confirmed c e ps) = en_pullInFlight e"
  "en_pullWaiters (drop_confirmed c e ps) = en_pullWaiters e" "en_meta (drop_confirmed c e ps) = en_meta e"
  by (induction c e ps rule: drop_confirmed.induct) simp_all

lemma confirm_fields [simp]:
  "en_rid (confirm s e) = en_rid e" "en_keyId (confirm s e) = en_keyId e" "en_terminal (confirm s e) = en_terminal e"
  "en_producedSeq (confirm s e) = en_producedSeq e" "en_servedSeq (confirm s e) = en_servedSeq e" "en_eof (confirm s e) = en_eof e"
  "en_pullInFlight (confirm s e) = en_pullInFlight e" "en_pullWaiters (confirm s e) = en_pullWaiters e"
  by (auto simp: confirm_def Let_def)

lemma ids_ok_decide: "ids_ok g \<Longrightarrow> ids_ok (snd (decideReady now rid s g))"
proof (cases "the_entry g rid")
  case (Some e)
  assume ok: "ids_ok g"
  have rid: "en_rid e = rid" using ok Some by (auto simp: ids_ok_def)
  have "ids_ok (set_entry e' g)" if "en_rid e' = rid" "ended e' = ended e" for e'
    using ids_ok_set [OF ok] that Some by auto
  then show ?thesis
    using Some ok rid by (auto simp: decideReady_def Let_def ended_def intro!: ids_ok_terminal split: list.split)
qed (simp add: decideReady_def)

lemma ids_ok_step:
  assumes ok: "ids_ok g" and "relay_possible ev g"
  shows "ids_ok (relay_step ev g)"
proof -
  have set: "ids_ok (set_entry e' g)" if "the_entry g rid = Some e" "en_rid e' = rid" "ended e' = ended e" for rid e e'
    using ids_ok_set [OF ok] that by auto
  have rid: "en_rid e = rid" if "the_entry g rid = Some e" for rid e using ok that by (auto simp: ids_ok_def)
  show ?thesis
  proof (cases ev)
    case (EvCreate now r key grp)
    then show ?thesis using assms by (simp add: ids_ok_create)
  next
    case (EvMeta r st ct hs)
    then show ?thesis using ok rid by (auto simp: sink_meta_def Let_def settle_meta_def ended_def intro!: set split: option.split)
  next
    case (EvChunkTurn w)
    then show ?thesis
      using ok rid
      by (auto simp: chunk_turn_def chunk_section_def append_chunk_def ended_def intro!: set split: option.split chunk_phase.split)
  next
    case (EvEnd r)
    then show ?thesis using ok rid by (auto simp: sink_end_def ended_def intro!: set split: option.split)
  next
    case (EvError now r code m)
    then show ?thesis
      using ok rid by (auto simp: sink_error_def settle_meta_def ended_def intro!: set ids_ok_terminal ids_ok_drop split: option.split)
  next
    case (EvAbortLocal r)
    then show ?thesis
      using ok rid by (auto simp: abortLocal_def settle_meta_def ended_def intro!: set ids_ok_drop split: option.split)
  next
    case (EvPull now p r s key ab)
    obtain a g' where t: "terminalReplay now r key g = (a, g')" by fastforce
    then have "ids_ok g'" using ok ids_ok_updates(11) [of now r key g] by simp
    then show ?thesis using EvPull t ok by (auto simp: pull_start_def split: option.split)
  next
    case (EvPullFirst now p)
    show ?thesis
    proof (cases "\<exists>r s e. map_of (rg_pulls g) p = Some (PullQueued r s) \<and> the_entry g r = Some e")
      case True
      then obtain r s e where q: "map_of (rg_pulls g) p = Some (PullQueued r s)" "the_entry g r = Some e" by blast
      obtain a g' where d: "decideReady now r s (set_entry (e\<lparr>en_pullInFlight := True\<rparr>) g) = (a, g')" by fastforce
      have "ids_ok (set_entry (e\<lparr>en_pullInFlight := True\<rparr>) g)" using set [OF q(2)] rid q by (simp add: ended_def)
      from ids_ok_decide [OF this, of now r s] d have g': "ids_ok g'" by simp
      then have "ids_ok (set_entry (e'\<lparr>en_pullWaiters := xs\<rparr>) g')" if "the_entry g' r = Some e'" for e' xs
        using that by (intro ids_ok_set [OF g', of _ e']) (auto simp: ids_ok_def ended_def)
      then show ?thesis using q d g' ok EvPullFirst by (auto simp: pull_first_def split: option.split)
    qed (use EvPullFirst ok in \<open>auto simp: pull_first_def split: option.splits pull_phase.splits\<close>)
  next
    case (EvPullSecond now p ab)
    show ?thesis
    proof (cases "\<exists>r s. map_of (rg_pulls g) p = Some (PullHeld r s)")
      case True
      then obtain r s where q: "map_of (rg_pulls g) p = Some (PullHeld r s)" by blast
      obtain a g' where d: "decideReady now r s g = (a, g')" by fastforce
      have "ids_ok g'" using ids_ok_decide [OF ok, of now r s] d by simp
      then show ?thesis using q d ok EvPullSecond by (auto simp: pull_second_def split: option.split)
    qed (use EvPullSecond ok in \<open>auto simp: pull_second_def split: option.splits pull_phase.splits\<close>)
  next
    case (EvPullRelease p)
    then show ?thesis
      using ok rid by (auto simp: pull_release_def ended_def intro!: set split: option.split pull_phase.split)
  next
    case (EvCancel now p r ep key)
    obtain a g' where t: "expireSummary now r g = (a, g')" by fastforce
    then have "ids_ok g'" using ok ids_ok_updates(10) [of now r g] by simp
    then show ?thesis using EvCancel t ok by (auto simp: cancel_start_def Let_def split: option.split bool.split)
  qed (use ok in \<open>auto simp: cancel_section_def sweep_def Let_def expire_section_def drain_start_def drain_finish_def drain_next_def
      closeAll_def relay_dispose_def intro!: ids_ok_terminal split: option.split cancel_phase.split bool.split list.split\<close>)
qed

lemma ids_ok_reachable: "relay_reachable g \<Longrightarrow> ids_ok g"
proof (induction rule: relay_reachable.induct)
  case (relay_init epoch buffer idle life)
  show ?case by (simp add: createRelayRegistry_def ids_ok_def the_entry_def)
qed (rule ids_ok_step)

subsection \<open>What the summaries say\<close>

text \<open>A summary is of a response that has ended; one of a completed response names its last piece.\<close>

definition tells :: "relay_entry option \<Rightarrow> relay_summary \<Rightarrow> bool" where
  "tells en r \<longleftrightarrow>
     (case en of
        None \<Rightarrow> False
      | Some e \<Rightarrow>
          ended e \<and> su_keyId r = en_keyId e \<and>
          (case su_body r of
             SDone st hs c \<Rightarrow> en_terminal e = Some KDone \<and> c = en_producedSeq e
           | _ \<Rightarrow> True))"

definition summaries_ok :: "relay \<Rightarrow> bool" where
  "summaries_ok g \<longleftrightarrow> (\<forall>rid r. map_of (rg_summaries g) rid = Some r \<longrightarrow> tells (the_entry g rid) r)"

lemma summaries_ok_removed:
  assumes "summaries_ok g" and "rg_entries g' = rg_entries g"
    and "\<And>rid r. map_of (rg_summaries g') rid = Some r \<Longrightarrow> map_of (rg_summaries g) rid = Some r"
  shows "summaries_ok g'"
  using assms same_entries [OF assms(2)] by (auto simp: summaries_ok_def)

lemma remove_map: "map_of (rg_summaries (removeSummary rid g)) r = (if r = rid then None else map_of (rg_summaries g) r)"
  by (simp add: removeSummary_def)

lemma evict_map: "map_of (rg_summaries (evict_loop n g)) rid = Some r \<Longrightarrow> map_of (rg_summaries g) rid = Some r"
  by (induction n g rule: evict_loop.induct) (auto simp: remove_map split: if_splits)

lemma timer_summaries [simp]:
  "rg_summaries (startSweepIfNeeded g) = rg_summaries g" "rg_summaries (stopSweepIfIdle g) = rg_summaries g"
  by (simp_all add: startSweepIfNeeded_def stopSweepIfIdle_def)

lemma put_map:
  "map_of (rg_summaries (putSummary now rid b k g)) x = Some r \<Longrightarrow>
     x = rid \<and> r = \<lparr>su_body = b, su_keyId = k, su_times = Some (now, now + rg_idle g)\<rparr> \<or> map_of (rg_summaries g) x = Some r"
  by (auto simp: putSummary_def Let_def evictSummaryOverflow_def insert_summary_def remove_map dest!: evict_map split: if_splits)

lemma touch_map:
  assumes "map_of (rg_summaries (touchSummary now rid g)) x = Some r"
  obtains r0 where "map_of (rg_summaries g) x = Some r0" and "su_body r = su_body r0" and "su_keyId r = su_keyId r0"
proof (cases "map_of (rg_summaries g) rid")
  case (Some r1)
  then show ?thesis
    using that assms
    by (cases "su_times r1") (auto simp: touchSummary_def Let_def evictSummaryOverflow_def dest!: evict_map split: if_splits)
qed (use that assms in \<open>auto simp: touchSummary_def\<close>)

lemma expire_map:
  "map_of (rg_summaries (snd (expireSummary now rid g))) x = Some r \<Longrightarrow>
     map_of (rg_summaries g) x = Some r \<or> (\<exists>r0. map_of (rg_summaries g) x = Some r0 \<and> su_body r = SExpired \<and> su_keyId r = su_keyId r0)"
  by (auto simp: expireSummary_def evictSummaryOverflow_def insert_summary_def remove_map dest!: evict_map
      split: option.splits prod.splits if_splits)

lemma tells_same: "tells en r0 \<Longrightarrow> su_body r = su_body r0 \<Longrightarrow> su_keyId r = su_keyId r0 \<Longrightarrow> tells en r"
  by (simp add: tells_def split: option.splits)

lemma tells_expired: "tells en r0 \<Longrightarrow> su_body r = SExpired \<Longrightarrow> su_keyId r = su_keyId r0 \<Longrightarrow> tells en r"
  by (simp add: tells_def split: option.splits)

lemma summaries_ok_touch [intro]:
  assumes "summaries_ok g"
  shows "summaries_ok (touchSummary now rid g)"
  unfolding summaries_ok_def
proof (intro allI impI)
  fix x r assume "map_of (rg_summaries (touchSummary now rid g)) x = Some r"
  then obtain r0 where "map_of (rg_summaries g) x = Some r0" "su_body r = su_body r0" "su_keyId r = su_keyId r0" by (rule touch_map)
  then show "tells (the_entry (touchSummary now rid g) x) r"
    using assms tells_same [of "the_entry g x" r0 r] by (simp add: summaries_ok_def)
qed

lemma summaries_ok_expire [intro]: "summaries_ok g \<Longrightarrow> summaries_ok (snd (expireSummary now rid g))"
  unfolding summaries_ok_def using tells_expired by (fastforce dest!: expire_map)

lemma summaries_ok_replay [intro]: "summaries_ok g \<Longrightarrow> summaries_ok (snd (terminalReplay now rid k g))"
  using summaries_ok_expire [of g now rid]
  by (auto simp: terminalReplay_def split: option.split prod.split bool.split)

lemma summaries_ok_sweep: "summaries_ok g \<Longrightarrow> summaries_ok (foldl (\<lambda>g rid. snd (expireSummary now rid g)) g rids)"
  by (induction rids arbitrary: g) auto

lemma summaries_ok_same:
  "rg_entries g' = rg_entries g \<Longrightarrow> rg_summaries g' = rg_summaries g \<Longrightarrow> summaries_ok g' = summaries_ok g"
  by (simp add: summaries_ok_def the_entry_def)

lemma summaries_ok_updates [simp]:
  "summaries_ok (set_pull p ph g) = summaries_ok g" "summaries_ok (set_cancel p x g) = summaries_ok g"
  "summaries_ok (g\<lparr>rg_chunks := cs\<rparr>) = summaries_ok g" "summaries_ok (g\<lparr>rg_drains := ds\<rparr>) = summaries_ok g"
  "summaries_ok (g\<lparr>rg_expiring := xs\<rparr>) = summaries_ok g" "summaries_ok (g\<lparr>rg_replaying := xs\<rparr>) = summaries_ok g"
  "summaries_ok (g\<lparr>rg_timer := b\<rparr>) = summaries_ok g" "summaries_ok (leave_active rid g) = summaries_ok g"
  "summaries_ok (startSweepIfNeeded g) = summaries_ok g" "summaries_ok (stopSweepIfIdle g) = summaries_ok g"
  "summaries_ok (g\<lparr>rg_active := xs\<rparr>) = summaries_ok g"
  by (rule summaries_ok_same; simp add: set_pull_def set_cancel_def leave_active_def summary_fields)+

lemma tells_updated:
  "tells (Some e0) r \<Longrightarrow> en_keyId e = en_keyId e0 \<Longrightarrow> en_terminal e = en_terminal e0 \<Longrightarrow> en_producedSeq e = en_producedSeq e0 \<Longrightarrow>
     tells (Some e) r"
  by (cases "su_body r") (simp_all add: tells_def ended_def)

text \<open>Only the end of a response and the production of a piece matter to its summary.\<close>

lemma summaries_ok_set:
  assumes "summaries_ok g" and "the_entry g (en_rid e) = Some e0" and "en_keyId e = en_keyId e0" and "en_terminal e = en_terminal e0"
    and "en_producedSeq e = en_producedSeq e0 \<or> \<not> ended e0"
  shows "summaries_ok (set_entry e g)"
proof -
  have "rg_summaries (set_entry e g) = rg_summaries g" by (simp add: set_entry_def)
  moreover have "tells (Some e) r" if "map_of (rg_summaries g) (en_rid e) = Some r" for r
  proof -
    have "tells (Some e0) r" using assms that unfolding summaries_ok_def by metis
    then show ?thesis using assms(3-5) tells_updated [of e0 r e] by (auto simp: tells_def)
  qed
  ultimately show ?thesis using assms(1) by (auto simp: summaries_ok_def)
qed

lemma summaries_ok_terminal:
  assumes ok: "summaries_ok g" "ids_ok g"
  shows "summaries_ok (applyTerminal now rid x g)"
proof (cases "\<exists>e. the_entry g rid = Some e \<and> \<not> ended e")
  case True
  then obtain e where e: "the_entry g rid = Some e" "\<not> ended e" by blast
  have id: "en_rid e = rid" using ok e by (auto simp: ids_ok_def)
  have no: "map_of (rg_summaries g) rid = None"
  proof (cases "map_of (rg_summaries g) rid")
    case (Some r)
    then have "tells (the_entry g rid) r" using ok by (simp add: summaries_ok_def)
    then show ?thesis using e by (simp add: tells_def)
  qed
  let ?e = "close_entry (ending_kind x) (ending_reason x) e"
  have "tells (Some ?e) \<lparr>su_body = ending_summary x e, su_keyId = en_keyId e, su_times = t\<rparr>" for t
    by (cases x) (auto simp: tells_def ended_def ending_summary_def ending_kind_def split: option.splits)
  moreover have "rg_summaries (set_entry ?e g) = rg_summaries g" by (simp add: set_entry_def)
  ultimately have "summaries_ok (putSummary now rid (ending_summary x e) (en_keyId e) (set_entry ?e g))"
    using ok(1) id no by (auto simp: summaries_ok_def dest!: put_map)
  then show ?thesis using e by (simp add: applyTerminal_def)
qed (use ok in \<open>auto simp: applyTerminal_def split: option.split\<close>)

lemma summaries_ok_drop:
  assumes ok: "summaries_ok g" "ids_ok g"
  shows "summaries_ok (dropEntry rid g)"
proof (cases "\<exists>e. the_entry g rid = Some e \<and> \<not> ended e")
  case True
  then obtain e where e: "the_entry g rid = Some e" "\<not> ended e" by blast
  have id: "en_rid e = rid" using ok e by (auto simp: ids_ok_def)
  have "map_of (rg_summaries g) rid \<noteq> Some r" for r
    using ok e by (fastforce simp: summaries_ok_def tells_def)
  moreover have "rg_summaries (set_entry (close_entry KError ''aborted'' e) g) = rg_summaries g" by (simp add: set_entry_def)
  ultimately have "summaries_ok (set_entry (close_entry KError ''aborted'' e) g)"
    using ok(1) id by (auto simp: summaries_ok_def)
  then show ?thesis using e by (simp add: dropEntry_def)
qed (use ok in \<open>auto simp: dropEntry_def split: option.split\<close>)

end
