(* ===== verification/RelayLocal.thy ===== *)
theory RelayLocal
  imports RelayInv
begin

text \<open>
  What holds of one response of the relay at any time (opendweb-ext-ai, provider/relay.mjs): its buffer is
  the unconfirmed end of what was produced, one pull at a time is decided, nobody sleeps without a reason,
  and the answers that were given are pieces of what was produced.
\<close>

subsection \<open>The parts\<close>

type_synonym pulls = "nat \<Rightarrow> pull_phase option"
type_synonym chunks = "nat \<Rightarrow> chunk_phase option"

definition buffered :: "bytes list \<Rightarrow> int \<Rightarrow> (int \<times> bytes) list" where
  "buffered hs c = map (\<lambda>i. (int i, hs ! i)) [nat (c + 1)..<length hs]"

definition buffer_size :: "(int \<times> bytes) list \<Rightarrow> nat" where
  "buffer_size ps = sum_list (map (\<lambda>(s, b). length b) ps)"

definition stream_ok :: "nat \<Rightarrow> bytes list \<Rightarrow> relay_entry \<Rightarrow> bool" where
  "stream_ok cap hs e \<longleftrightarrow>
     int (length hs) = en_producedSeq e + 1 \<and>
     -1 \<le> en_committedSeq e \<and> en_committedSeq e \<le> en_servedSeq e \<and> en_servedSeq e \<le> en_producedSeq e \<and>
     en_servedSeq e \<le> en_committedSeq e + 1 \<and>
     (ended e \<longrightarrow> en_pending e = [] \<and> en_pullWaiters e = [] \<and> en_spaceWaiters e = []) \<and>
     (\<not> ended e \<longrightarrow> en_pending e = buffered hs (en_committedSeq e)) \<and>
     en_bufferBytes e = buffer_size (en_pending e) \<and> buffer_size (en_pending e) \<le> cap \<and>
     (en_terminal e = Some KDone \<longrightarrow> en_committedSeq e = en_producedSeq e \<and> en_eof e)"

definition space_ok :: "nat \<Rightarrow> chunks \<Rightarrow> string \<Rightarrow> relay_entry \<Rightarrow> bool" where
  "space_ok cap ch rid e \<longleftrightarrow>
     (\<forall>w \<in> set (en_spaceWaiters e).
        \<exists>piece. ch w = Some (ChunkWait rid piece) \<and> cap < en_bufferBytes e + length piece \<and> \<not> en_eof e)"

definition answer_of :: "pull_phase \<Rightarrow> (string \<times> relay_response) option" where
  "answer_of ph =
     (case ph of
        PullAnswered rid (Some r) \<Rightarrow> Some (rid, r)
      | PullReplayed rid r \<Rightarrow> Some (rid, r)
      | PullDone rid (Some r) \<Rightarrow> Some (rid, r)
      | _ \<Rightarrow> None)"

text \<open>The answers with status 200: a piece that was sent, or the summary of a completed response.\<close>

definition answer_ok :: "bytes list \<Rightarrow> relay_entry \<Rightarrow> relay_response \<Rightarrow> bool" where
  "answer_ok hs e r \<longleftrightarrow>
     (rr_status r = 200 \<longrightarrow>
        (\<exists>s l. 0 \<le> s \<and> s \<le> en_servedSeq e \<and> r = chunk_response s (hs ! nat s) l \<and> (l \<longrightarrow> en_eof e \<and> s = en_producedSeq e)) \<or>
        en_terminal e = Some KDone \<and> r = summaryResponse (en_producedSeq e))"

definition reply :: "pulls \<Rightarrow> nat \<Rightarrow> (string \<times> relay_response) option" where
  "reply pl p = (case pl p of Some ph \<Rightarrow> answer_of ph | None \<Rightarrow> None)"

definition given :: "pulls \<Rightarrow> string \<Rightarrow> relay_response \<Rightarrow> bool" where
  "given pl rid r \<longleftrightarrow> (\<exists>p. reply pl p = Some (rid, r))"

definition answers_ok :: "pulls \<Rightarrow> bytes list \<Rightarrow> string \<Rightarrow> relay_entry \<Rightarrow> bool" where
  "answers_ok pl hs rid e \<longleftrightarrow>
     (\<forall>r. given pl rid r \<longrightarrow> answer_ok hs e r) \<and>
     (\<forall>s. 0 \<le> s \<and> s \<le> en_servedSeq e \<longrightarrow> (\<exists>l. given pl rid (chunk_response s (hs ! nat s) l)))"

definition busy :: "pulls \<Rightarrow> string \<Rightarrow> nat \<Rightarrow> bool" where
  "busy pl rid p \<longleftrightarrow> (case pl p of Some (PullHeld r s) \<Rightarrow> r = rid | Some (PullAnswered r a) \<Rightarrow> r = rid | _ \<Rightarrow> False)"

definition flight_ok :: "pulls \<Rightarrow> string \<Rightarrow> relay_entry \<Rightarrow> bool" where
  "flight_ok pl rid e \<longleftrightarrow>
     (\<forall>p q. busy pl rid p \<longrightarrow> busy pl rid q \<longrightarrow> p = q) \<and> (en_pullInFlight e \<longleftrightarrow> (\<exists>p. busy pl rid p)) \<and>
     (\<forall>p \<in> set (en_pullWaiters e). busy pl rid p)"

definition asleep_ok :: "pulls \<Rightarrow> string \<Rightarrow> relay_entry \<Rightarrow> bool" where
  "asleep_ok pl rid e \<longleftrightarrow>
     (\<forall>p \<in> set (en_pullWaiters e). \<forall>s. pl p = Some (PullHeld rid s) \<longrightarrow>
        s = en_committedSeq e + 1 \<and> en_pending e = [] \<and> \<not> en_eof e)"

definition local_ok :: "nat \<Rightarrow> pulls \<Rightarrow> chunks \<Rightarrow> bytes list \<Rightarrow> string \<Rightarrow> relay_entry \<Rightarrow> bool" where
  "local_ok cap pl ch hs rid e \<longleftrightarrow>
     stream_ok cap hs e \<and> space_ok cap ch rid e \<and> answers_ok pl hs rid e \<and> flight_ok pl rid e \<and> asleep_ok pl rid e"

subsection \<open>Other calls do not matter\<close>

definition phase_rid :: "pull_phase \<Rightarrow> string" where
  "phase_rid ph =
     (case ph of PullQueued r s \<Rightarrow> r | PullHeld r s \<Rightarrow> r | PullAnswered r a \<Rightarrow> r | PullReplayed r a \<Rightarrow> r | PullDone r a \<Rightarrow> r)"

lemma answer_phase_rid: "answer_of ph = Some (rid, r) \<Longrightarrow> phase_rid ph = rid"
  by (auto simp: answer_of_def phase_rid_def split: pull_phase.splits option.splits)

lemma reply_upd [simp]: "reply (pl(p \<mapsto> ph)) = (reply pl)(p := answer_of ph)"
  by (rule ext) (simp add: reply_def)

lemma given_same: "answer_of ph = reply pl p \<Longrightarrow> given (pl(p \<mapsto> ph)) rid r \<longleftrightarrow> given pl rid r"
  by (simp add: given_def fun_upd_idem)

lemma given_more: "reply pl p = None \<Longrightarrow> given (pl(p \<mapsto> ph)) rid r \<longleftrightarrow> given pl rid r \<or> answer_of ph = Some (rid, r)"
proof -
  assume none: "reply pl p = None"
  have "(\<exists>q. ((reply pl)(p := answer_of ph)) q = Some (rid, r)) \<longleftrightarrow> (\<exists>q. q \<noteq> p \<and> reply pl q = Some (rid, r)) \<or> answer_of ph = Some (rid, r)"
    by (auto simp: fun_upd_def split: if_splits)
  moreover have "(\<exists>q. q \<noteq> p \<and> reply pl q = Some (rid, r)) \<longleftrightarrow> (\<exists>q. reply pl q = Some (rid, r))" using none by force
  ultimately show ?thesis by (simp only: given_def reply_upd)
qed

lemma local_okI:
  "stream_ok cap hs e \<Longrightarrow> space_ok cap ch rid e \<Longrightarrow> answers_ok pl hs rid e \<Longrightarrow> flight_ok pl rid e \<Longrightarrow> asleep_ok pl rid e \<Longrightarrow>
     local_ok cap pl ch hs rid e"
  by (simp add: local_ok_def)

lemma local_okD:
  assumes "local_ok cap pl ch hs rid e"
  shows "stream_ok cap hs e" "space_ok cap ch rid e" "answers_ok pl hs rid e" "flight_ok pl rid e" "asleep_ok pl rid e"
  using assms by (simp_all add: local_ok_def)

lemma local_ok_other_pull:
  assumes "local_ok cap pl ch hs rid e" and "phase_rid ph \<noteq> rid" and "\<And>ph0. pl p = Some ph0 \<Longrightarrow> phase_rid ph0 \<noteq> rid"
  shows "local_ok cap (pl(p \<mapsto> ph)) ch hs rid e"
proof -
  have g: "given (pl(p \<mapsto> ph)) rid r = given pl rid r" for r
  proof -
    have "answer_of ph \<noteq> Some (rid, r)" "reply pl p \<noteq> Some (rid, r)"
      using assms(2,3) by (auto simp: reply_def dest: answer_phase_rid split: option.splits)
    then show ?thesis by (auto simp: given_def)
  qed
  have b: "busy (pl(p \<mapsto> ph)) rid q = busy pl rid q" for q
    using assms(2,3) by (auto simp: busy_def phase_rid_def split: option.splits pull_phase.splits)
  have h: "(pl(p \<mapsto> ph)) q = Some (PullHeld rid s) \<longleftrightarrow> pl q = Some (PullHeld rid s)" for q s
    using assms(2,3) by (auto simp: phase_rid_def)
  have "answers_ok (pl(p \<mapsto> ph)) hs rid e = answers_ok pl hs rid e" by (simp only: answers_ok_def g)
  moreover have "flight_ok (pl(p \<mapsto> ph)) rid e = flight_ok pl rid e" by (simp only: flight_ok_def b)
  moreover have "asleep_ok (pl(p \<mapsto> ph)) rid e = asleep_ok pl rid e" by (simp only: asleep_ok_def h)
  ultimately show ?thesis using assms(1) by (simp only: local_ok_def)
qed

lemma local_ok_other_chunk:
  assumes "local_ok cap pl ch hs rid e" and "w \<notin> set (en_spaceWaiters e)"
  shows "local_ok cap pl (ch(w := x)) hs rid e"
proof -
  have "space_ok cap (ch(w := x)) rid e" using assms by (auto simp: local_ok_def space_ok_def)
  then show ?thesis using assms(1) by (simp add: local_ok_def)
qed

lemma waits_here: "local_ok cap pl ch hs rid e \<Longrightarrow> w \<in> set (en_spaceWaiters e) \<Longrightarrow> \<exists>piece. ch w = Some (ChunkWait rid piece)"
  by (auto simp: local_ok_def space_ok_def)

text \<open>A call that is new, or that goes on without being busy or answered.\<close>

lemma local_ok_idle_pull:
  assumes ok: "local_ok cap pl ch hs rid e"
    and old: "reply pl p = None" "\<not> busy pl rid p"
    and new: "\<And>r. answer_of ph = Some (rid, r) \<Longrightarrow> answer_ok hs e r" "\<not> busy (pl(p \<mapsto> ph)) rid p"
  shows "local_ok cap (pl(p \<mapsto> ph)) ch hs rid e"
proof -
  have g: "given (pl(p \<mapsto> ph)) rid r \<longleftrightarrow> given pl rid r \<or> answer_of ph = Some (rid, r)" for r
    using old(1) by (rule given_more)
  note nb = old(2)
  have b: "busy (pl(p \<mapsto> ph)) rid q = busy pl rid q" for q
    using nb new(2) by (cases "q = p") (auto simp: busy_def)
  have a: "answers_ok (pl(p \<mapsto> ph)) hs rid e"
    using ok new(1) unfolding answers_ok_def g local_ok_def by blast
  have f: "flight_ok (pl(p \<mapsto> ph)) rid e" using ok unfolding local_ok_def flight_ok_def b by blast
  have "p \<notin> set (en_pullWaiters e)" using ok nb by (auto simp: local_ok_def flight_ok_def)
  then have "asleep_ok (pl(p \<mapsto> ph)) rid e" using ok by (auto simp: local_ok_def asleep_ok_def)
  then show ?thesis using ok a f by (simp add: local_ok_def)
qed

subsection \<open>Steps of one response\<close>

lemma answer_ok_mono:
  "answer_ok hs e r \<Longrightarrow> en_servedSeq e \<le> en_servedSeq e' \<Longrightarrow> en_producedSeq e' = en_producedSeq e \<Longrightarrow> (en_eof e \<longrightarrow> en_eof e') \<Longrightarrow>
     (en_terminal e = Some KDone \<longrightarrow> en_terminal e' = Some KDone) \<Longrightarrow> answer_ok hs e' r"
  by (fastforce simp: answer_ok_def)

lemma answers_ok_mono:
  assumes "answers_ok pl hs rid e" and "en_servedSeq e' = en_servedSeq e" and "en_producedSeq e' = en_producedSeq e"
    and "en_eof e \<longrightarrow> en_eof e'" and "en_terminal e = Some KDone \<longrightarrow> en_terminal e' = Some KDone"
  shows "answers_ok pl hs rid e'"
  using assms answer_ok_mono [of hs e _ e'] by (auto simp: answers_ok_def)

lemma local_ok_close:
  assumes ok: "local_ok cap pl ch hs rid e" and live: "\<not> ended e"
    and kd: "k = KDone \<Longrightarrow> en_committedSeq e = en_producedSeq e \<and> en_eof e"
  shows "local_ok cap pl ch hs rid (close_entry k x e)"
proof (rule local_okI)
  show "stream_ok cap hs (close_entry k x e)"
    using local_okD(1) [OF ok] kd by (auto simp: stream_ok_def ended_def buffer_size_def)
  show "answers_ok pl hs rid (close_entry k x e)"
    using local_okD(3) [OF ok] by (rule answers_ok_mono) (use live in \<open>auto simp: ended_def\<close>)
  show "flight_ok pl rid (close_entry k x e)" using local_okD(4) [OF ok] by (simp add: flight_ok_def)
qed (simp_all add: space_ok_def asleep_ok_def)

lemma local_ok_eof:
  assumes ok: "local_ok cap pl ch hs rid e" and live: "\<not> ended e"
  shows "local_ok cap pl ch hs rid (e\<lparr>en_eof := True, en_pullWaiters := [], en_spaceWaiters := []\<rparr>)" (is "local_ok _ _ _ _ _ ?e")
proof (rule local_okI)
  show "stream_ok cap hs ?e" using local_okD(1) [OF ok] live by (auto simp: stream_ok_def ended_def)
  show "answers_ok pl hs rid ?e" using local_okD(3) [OF ok] by (rule answers_ok_mono) simp_all
  show "flight_ok pl rid ?e" using local_okD(4) [OF ok] by (simp add: flight_ok_def)
qed (simp_all add: space_ok_def asleep_ok_def)

text \<open>Fields that do not matter here.\<close>

definition alike :: "relay_entry \<Rightarrow> relay_entry \<Rightarrow> bool" where
  "alike e e' \<longleftrightarrow>
     en_committedSeq e' = en_committedSeq e \<and> en_producedSeq e' = en_producedSeq e \<and> en_servedSeq e' = en_servedSeq e \<and>
     en_pending e' = en_pending e \<and> en_bufferBytes e' = en_bufferBytes e \<and> en_eof e' = en_eof e \<and>
     en_terminal e' = en_terminal e \<and> en_pullInFlight e' = en_pullInFlight e \<and> en_pullWaiters e' = en_pullWaiters e \<and>
     en_spaceWaiters e' = en_spaceWaiters e"

lemma local_ok_alike:
  assumes ok: "local_ok cap pl ch hs rid e" and same: "alike e e'"
  shows "local_ok cap pl ch hs rid e'"
proof (rule local_okI)
  show "stream_ok cap hs e'" using local_okD(1) [OF ok] same unfolding stream_ok_def alike_def ended_def by metis
  show "space_ok cap ch rid e'" using local_okD(2) [OF ok] same unfolding space_ok_def alike_def by metis
  show "answers_ok pl hs rid e'" using local_okD(3) [OF ok] by (rule answers_ok_mono) (use same in \<open>simp_all add: alike_def\<close>)
  show "flight_ok pl rid e'" using local_okD(4) [OF ok] same unfolding flight_ok_def alike_def by metis
  show "asleep_ok pl rid e'" using local_okD(5) [OF ok] same unfolding asleep_ok_def alike_def by metis
qed

lemma buffered_snoc: "-1 \<le> c \<Longrightarrow> c < int (length hs) \<Longrightarrow> buffered (hs @ [b]) c = buffered hs c @ [(int (length hs), b)]"
  by (auto simp: buffered_def nth_append)

lemma stream_ok_append:
  assumes s: "stream_ok cap hs e" and "\<not> ended e" and fits: "en_bufferBytes e + length b \<le> cap"
  shows "stream_ok cap (hs @ [b]) (append_chunk b e)"
proof -
  have len: "int (length hs) = en_producedSeq e + 1" using s by (simp add: stream_ok_def)
  have pend: "en_pending (append_chunk b e) = buffered (hs @ [b]) (en_committedSeq e)"
    using s assms(2) len by (simp add: stream_ok_def append_chunk_def buffered_snoc)
  have "en_bufferBytes (append_chunk b e) = buffer_size (en_pending (append_chunk b e))"
    using s by (simp add: stream_ok_def append_chunk_def buffer_size_def)
  moreover have "en_terminal e = None" using assms(2) by (simp add: ended_def)
  ultimately show ?thesis using s fits len pend by (simp add: stream_ok_def) (simp add: append_chunk_def ended_def)
qed

lemma local_ok_append:
  assumes ok: "local_ok cap pl ch hs rid e" and live: "\<not> ended e" "\<not> en_eof e" and fits: "en_bufferBytes e + length b \<le> cap"
  shows "local_ok cap pl ch (hs @ [b]) rid (append_chunk b e)"
proof (rule local_okI)
  note s = local_okD(1) [OF ok]
  show "stream_ok cap (hs @ [b]) (append_chunk b e)" using s live(1) fits by (rule stream_ok_append)
  have same: "(hs @ [b]) ! nat i = hs ! nat i" if "0 \<le> i" "i \<le> en_servedSeq e" for i
  proof -
    have "nat i < length hs" using that s by (auto simp: stream_ok_def)
    then show ?thesis by (simp add: nth_append)
  qed
  have "answer_ok (hs @ [b]) (append_chunk b e) r" if "answer_ok hs e r" for r
    using that same live by (fastforce simp: answer_ok_def append_chunk_def ended_def)
  then show "answers_ok pl (hs @ [b]) rid (append_chunk b e)"
    using local_okD(3) [OF ok] same by (auto simp: answers_ok_def append_chunk_def)
  show "space_ok cap ch rid (append_chunk b e)"
    using local_okD(2) [OF ok] by (fastforce simp: space_ok_def append_chunk_def)
  show "flight_ok pl rid (append_chunk b e)" using local_okD(4) [OF ok] by (simp add: flight_ok_def append_chunk_def)
qed (simp add: asleep_ok_def append_chunk_def)

lemma local_ok_wait:
  assumes ok: "local_ok cap pl ch hs rid e" and live: "\<not> ended e" "\<not> en_eof e" and full: "\<not> en_bufferBytes e + length b \<le> cap"
  shows "local_ok cap pl (ch(w \<mapsto> ChunkWait rid b)) hs rid (e\<lparr>en_spaceWaiters := en_spaceWaiters e @ [w]\<rparr>)"
    (is "local_ok _ _ _ _ _ ?e")
proof (rule local_okI)
  show "stream_ok cap hs ?e" using local_okD(1) [OF ok] live by (auto simp: stream_ok_def ended_def)
  show "space_ok cap (ch(w \<mapsto> ChunkWait rid b)) rid ?e" using local_okD(2) [OF ok] live full by (auto simp: space_ok_def)
  show "answers_ok pl hs rid ?e" using local_okD(3) [OF ok] by (rule answers_ok_mono) simp_all
  show "flight_ok pl rid ?e" using local_okD(4) [OF ok] by (simp add: flight_ok_def)
  show "asleep_ok pl rid ?e" using local_okD(5) [OF ok] by (simp add: asleep_ok_def)
qed

subsection \<open>Deciding a pull\<close>

lemma drop_confirmed_pending: "en_pending (drop_confirmed c e ps) = dropWhile (\<lambda>(s, b). s \<le> c) ps"
  by (induction c e ps rule: drop_confirmed.induct) simp_all

lemma drop_confirmed_size:
  "en_bufferBytes e = buffer_size ps \<Longrightarrow> en_bufferBytes (drop_confirmed c e ps) = buffer_size (dropWhile (\<lambda>(s, b). s \<le> c) ps)"
  by (induction c e ps rule: drop_confirmed.induct) (simp_all add: buffer_size_def)

lemma buffer_size_drop: "buffer_size (dropWhile P ps) \<le> buffer_size ps"
  by (induction ps) (auto simp: buffer_size_def)

lemma dropWhile_buffered:
  assumes "c0 \<le> c" and "-1 \<le> c0"
  shows "dropWhile (\<lambda>(s, b). s \<le> c) (buffered hs c0) = buffered hs c"
proof -
  have "dropWhile (\<lambda>(s, b). s \<le> c) (map (\<lambda>i. (int i, hs ! i)) [k..<n]) = map (\<lambda>i. (int i, hs ! i)) [nat (c + 1)..<n]"
    if "k \<le> nat (c + 1)" for k n
    using that
  proof (induction "nat (c + 1) - k" arbitrary: k)
    case 0
    then have k: "k = nat (c + 1)" by simp
    show ?case
    proof (cases "k < n")
      case True
      then show ?thesis using k by (simp add: upt_conv_Cons)
    qed (simp add: k)
  next
    case (Suc d)
    show ?case
    proof (cases "k < n")
      case True
      then show ?thesis using Suc by (simp add: upt_conv_Cons)
    next
      case False
      then show ?thesis using Suc.prems by simp
    qed
  qed
  from this [of "nat (c0 + 1)" "length hs"] assms show ?thesis by (simp add: buffered_def)
qed

definition base_ok :: "nat \<Rightarrow> pulls \<Rightarrow> chunks \<Rightarrow> bytes list \<Rightarrow> string \<Rightarrow> relay_entry \<Rightarrow> bool" where
  "base_ok cap pl ch hs rid e \<longleftrightarrow> stream_ok cap hs e \<and> space_ok cap ch rid e \<and> answers_ok pl hs rid e"

lemma local_ok_base: "local_ok cap pl ch hs rid e \<longleftrightarrow> base_ok cap pl ch hs rid e \<and> flight_ok pl rid e \<and> asleep_ok pl rid e"
  by (simp add: local_ok_def base_ok_def)

lemma confirm_cases:
  obtains (same) "confirm n e = e" "min (n - 1) (en_servedSeq e) \<le> en_committedSeq e"
  | (more) c where "c = min (n - 1) (en_servedSeq e)" "en_committedSeq e < c"
      "confirm n e = (drop_confirmed c (e\<lparr>en_committedSeq := c\<rparr>) (en_pending e))\<lparr>en_spaceWaiters := []\<rparr>"
proof (cases "min (n - 1) (en_servedSeq e) > en_committedSeq e")
  case True
  then show ?thesis using more [of "min (n - 1) (en_servedSeq e)"] by (simp only: confirm_def Let_def if_True)
next
  case False
  then show ?thesis using same by (simp only: confirm_def Let_def if_False)
qed

lemma confirm_stream:
  assumes s: "stream_ok cap hs e" and live: "\<not> ended e"
  shows "stream_ok cap hs (confirm n e)"
proof (cases rule: confirm_cases [of n e])
  case (more c)
  let ?e = "confirm n e"
  have p: "en_pending e = buffered hs (en_committedSeq e)" and sz: "en_bufferBytes e = buffer_size (en_pending e)"
    and le: "-1 \<le> en_committedSeq e" "buffer_size (en_pending e) \<le> cap" "int (length hs) = en_producedSeq e + 1"
      "en_servedSeq e \<le> en_producedSeq e" "en_servedSeq e \<le> en_committedSeq e + 1"
    using s live by (auto simp: stream_ok_def)
  have c: "c = en_servedSeq e" using more(1,2) le(5) by linarith
  have d: "dropWhile (\<lambda>(s, b). s \<le> c) (buffered hs (en_committedSeq e)) = buffered hs c"
    using more(2) le by (intro dropWhile_buffered) simp_all
  have pend: "en_pending ?e = buffered hs c" by (simp add: more(3) drop_confirmed_pending p d)
  have "en_bufferBytes ?e = buffer_size (dropWhile (\<lambda>(s, b). s \<le> c) (en_pending e))"
    using drop_confirmed_size [of "e\<lparr>en_committedSeq := c\<rparr>" "en_pending e" c] sz unfolding more(3) by simp
  then have "en_bufferBytes ?e = buffer_size (en_pending ?e)" unfolding pend p d .
  moreover have "buffer_size (en_pending ?e) \<le> cap"
    using buffer_size_drop [of "\<lambda>(s, b). s \<le> c" "en_pending e"] le(2) d pend p by simp
  moreover have "en_committedSeq ?e = c" by (simp add: more(3))
  moreover have "\<not> ended ?e" "en_terminal ?e = None" using live by (simp_all add: ended_def)
  ultimately show ?thesis using pend le more(2) c by (simp add: stream_ok_def)
qed (simp add: s)

lemma confirm_base:
  assumes ok: "base_ok cap pl ch hs rid e" and live: "\<not> ended e"
  shows "base_ok cap pl ch hs rid (confirm n e)"
proof -
  have "space_ok cap ch rid (confirm n e)"
  proof (cases rule: confirm_cases [of n e])
    case same
    then show ?thesis using ok by (simp only: base_ok_def)
  next
    case (more c)
    then have "en_spaceWaiters (confirm n e) = []" by simp
    then show ?thesis by (simp add: space_ok_def)
  qed
  moreover have "answers_ok pl hs rid (confirm n e)"
    by (rule answers_ok_mono [of pl hs rid e]) (use ok in \<open>simp_all add: base_ok_def\<close>)
  moreover have "stream_ok cap hs (confirm n e)" using ok by (intro confirm_stream live) (simp add: base_ok_def)
  ultimately show ?thesis by (simp add: base_ok_def)
qed

lemma buffered_cases:
  assumes "-1 \<le> c" and "c < int (length hs)"
  shows "buffered hs c = [] \<longleftrightarrow> int (length hs) = c + 1"
    and "buffered hs c = (s, b) # ps \<Longrightarrow> s = c + 1 \<and> b = hs ! nat s \<and> s < int (length hs)"
proof -
  show "buffered hs c = [] \<longleftrightarrow> int (length hs) = c + 1" using assms by (auto simp: buffered_def)
  assume "buffered hs c = (s, b) # ps"
  then have "buffered hs c \<noteq> []" and h: "hd (buffered hs c) = (s, b)" by simp_all
  then have ne: "nat (c + 1) < length hs" by (simp add: buffered_def)
  from ne have "hd (buffered hs c) = (int (nat (c + 1)), hs ! nat (c + 1))" unfolding buffered_def upt_conv_Cons [OF ne] by simp
  with h ne assms show "s = c + 1 \<and> b = hs ! nat s \<and> s < int (length hs)" by auto
qed

text \<open>What a decision makes of a response that has not ended, and the answer it gives.\<close>

definition decided :: "nat \<Rightarrow> int \<Rightarrow> relay_entry \<Rightarrow> relay_response option \<times> relay_entry \<times> bool" where
  "decided now n e0 =
     (let e = confirm n e0
      in if n \<noteq> en_committedSeq e + 1 then (Some (problem 409 ''invalid_from_seq''), e, False)
         else (case en_pending e of
                 (s, b) # _ \<Rightarrow>
                   (Some (chunk_response n b (en_eof e \<and> n = en_producedSeq e)), e\<lparr>en_servedSeq := n, en_lastActivityAt := now\<rparr>, False)
               | [] \<Rightarrow>
                   if en_eof e
                   then (Some (summaryResponse (en_producedSeq e)), e\<lparr>en_committedSeq := en_producedSeq e, en_lastActivityAt := now\<rparr>, True)
                   else (None, e, False)))"

lemma decideReady_decided:
  assumes ok: "stream_ok cap hs e" and e: "the_entry g rid = Some e" and live: "\<not> ended e"
    and d: "decided now n e = (r, e', fin)"
  shows "decideReady now rid n g = (r, (if fin then applyTerminal now rid EndDone (set_entry e' g) else set_entry e' g))"
proof -
  let ?e = "confirm n e"
  have s: "stream_ok cap hs ?e" using ok live by (rule confirm_stream)
  have l: "\<not> ended ?e" using live by (simp add: ended_def)
  have c: "-1 \<le> en_committedSeq ?e" "en_committedSeq ?e < int (length hs)" and len: "int (length hs) = en_producedSeq ?e + 1"
    and p: "en_pending ?e = buffered hs (en_committedSeq ?e)"
    using s l by (auto simp: stream_ok_def)
  show ?thesis
  proof (cases "n = en_committedSeq ?e + 1")
    case False
    then have "decided now n e = (Some (problem 409 ''invalid_from_seq''), ?e, False)" by (simp add: decided_def Let_def)
    then show ?thesis using d e live False by (simp add: decideReady_def Let_def)
  next
    case n: True
    show ?thesis
    proof (cases "en_pending ?e")
      case Nil
      then have "en_producedSeq ?e < n" using p buffered_cases(1) [OF c] len n by simp
      moreover have "decided now n e =
          (if en_eof ?e
           then (Some (summaryResponse (en_producedSeq ?e)), ?e\<lparr>en_committedSeq := en_producedSeq ?e, en_lastActivityAt := now\<rparr>, True)
           else (None, ?e, False))" using n Nil by (simp add: decided_def Let_def)
      ultimately show ?thesis using d e live n Nil by (cases "en_eof ?e") (auto simp: decideReady_def Let_def)
    next
      case (Cons x ps)
      obtain t b where x: "x = (t, b)" by (cases x)
      with Cons p buffered_cases(2) [OF c, of t b ps] n have t: "t = n" by simp
      have "decided now n e =
          (Some (chunk_response n b (en_eof ?e \<and> n = en_producedSeq ?e)), ?e\<lparr>en_servedSeq := n, en_lastActivityAt := now\<rparr>, False)"
        using n Cons x by (simp add: decided_def Let_def)
      then show ?thesis using d e live n Cons x t by (auto simp: decideReady_def Let_def)
    qed
  qed
qed

lemma decided_fields:
  "decided now n e = (r, e', fin) \<Longrightarrow>
     en_rid e' = en_rid e \<and> en_keyId e' = en_keyId e \<and> en_terminal e' = en_terminal e \<and> en_producedSeq e' = en_producedSeq e \<and>
     en_pullInFlight e' = en_pullInFlight e \<and> en_pullWaiters e' = en_pullWaiters e \<and> en_eof e' = en_eof e"
  using confirm_fields [of n e] by (auto simp: decided_def Let_def simp del: confirm_fields split: if_splits list.splits)

lemma decided_base:
  assumes ok: "base_ok cap pl ch hs rid e" and live: "\<not> ended e" and d: "decided now n e = (r, e', fin)"
    and pl': "\<And>x. given pl' rid x \<longleftrightarrow> given pl rid x \<or> r = Some x"
  shows "base_ok cap pl' ch hs rid (if fin then close_entry KDone y e' else e')"
    and "r = None \<Longrightarrow> n = en_committedSeq e' + 1 \<and> en_pending e' = [] \<and> \<not> en_eof e'"
proof -
  let ?e = "confirm n e"
  have b: "base_ok cap pl ch hs rid ?e" using ok live by (rule confirm_base)
  have l: "\<not> ended ?e" using live by (simp add: ended_def)
  have s: "stream_ok cap hs ?e" using b by (simp add: base_ok_def)
  have c: "-1 \<le> en_committedSeq ?e" "en_committedSeq ?e < int (length hs)" and len: "int (length hs) = en_producedSeq ?e + 1"
    and p: "en_pending ?e = buffered hs (en_committedSeq ?e)" and cs: "en_committedSeq ?e \<le> en_servedSeq ?e"
    using s l by (auto simp: stream_ok_def)
  show "r = None \<Longrightarrow> n = en_committedSeq e' + 1 \<and> en_pending e' = [] \<and> \<not> en_eof e'"
    using d by (auto simp: decided_def Let_def simp del: confirm_fields split: if_splits list.splits)
  show "base_ok cap pl' ch hs rid (if fin then close_entry KDone y e' else e')"
  proof (cases "n = en_committedSeq ?e + 1")
    case False
    then have r: "r = Some (problem 409 ''invalid_from_seq'')" "e' = ?e" "\<not> fin" using d by (simp_all add: decided_def Let_def)
    have "answers_ok pl' hs rid ?e"
      using b by (auto simp: base_ok_def answers_ok_def pl' r answer_ok_def problem_def jsonResponse_def)
    then show ?thesis using b r by (simp add: base_ok_def)
  next
    case n: True
    show ?thesis
    proof (cases "en_pending ?e")
      case (Cons x ps)
      obtain t b' where x: "x = (t, b')" by (cases x)
      with Cons p buffered_cases(2) [OF c, of t b' ps] n have t: "b' = hs ! nat n" "n < int (length hs)" by simp_all
      let ?l = "en_eof ?e \<and> n = en_producedSeq ?e"
      have r: "r = Some (chunk_response n (hs ! nat n) ?l)" "e' = ?e\<lparr>en_servedSeq := n, en_lastActivityAt := now\<rparr>" "\<not> fin"
        using d n Cons x t by (simp_all add: decided_def Let_def)
      have st: "stream_ok cap hs e'" using s t n len l by (auto simp: stream_ok_def r ended_def)
      have sp: "space_ok cap ch rid e'" using b by (simp add: base_ok_def space_ok_def r)
      have old: "answer_ok hs ?e x \<Longrightarrow> answer_ok hs e' x" for x
        by (erule answer_ok_mono) (use r cs n s in \<open>simp_all add: stream_ok_def\<close>)
      have new: "answer_ok hs e' (chunk_response n (hs ! nat n) ?l)"
        unfolding answer_ok_def using r c n by (intro impI disjI1 exI [of _ n] exI [of _ ?l]) auto
      have an: "answers_ok pl' hs rid e'"
        unfolding answers_ok_def
      proof (intro conjI allI impI)
        fix x assume "given pl' rid x"
        then show "answer_ok hs e' x" using b old new by (auto simp: pl' r(1) base_ok_def answers_ok_def)
      next
        fix i assume i: "0 \<le> i \<and> i \<le> en_servedSeq e'"
        show "\<exists>l. given pl' rid (chunk_response i (hs ! nat i) l)"
        proof (cases "i \<le> en_servedSeq ?e")
          case True
          then show ?thesis using b i unfolding base_ok_def answers_ok_def pl' by blast
        next
          case False
          then have "i = n" using i r(2) n cs by simp
          then show ?thesis unfolding pl' r(1) by blast
        qed
      qed
      show ?thesis using st sp an r(3) by (simp add: base_ok_def)
    next
      case Nil
      then have full: "en_committedSeq ?e = en_producedSeq ?e" using p buffered_cases(1) [OF c] len by simp
      show ?thesis
      proof (cases "en_eof ?e")
        case True
        let ?e2 = "?e\<lparr>en_committedSeq := en_producedSeq ?e, en_lastActivityAt := now\<rparr>"
        have r: "r = Some (summaryResponse (en_producedSeq ?e))" "e' = ?e2" fin
          using d n Nil True by (simp_all add: decided_def Let_def)
        let ?e3 = "close_entry KDone y ?e2"
        have "stream_ok cap hs ?e3" using s full True l by (auto simp: stream_ok_def ended_def buffer_size_def)
        moreover have "space_ok cap ch rid ?e3" by (simp add: space_ok_def)
        moreover have "answers_ok pl hs rid ?e3"
          by (rule answers_ok_mono [of pl hs rid ?e]) (use b l in \<open>auto simp: base_ok_def ended_def\<close>)
        then have "answers_ok pl' hs rid ?e3"
          by (auto simp: answers_ok_def pl' r(1)) (simp add: answer_ok_def)
        ultimately show ?thesis using r by (simp add: base_ok_def)
      next
        case False
        then have r: "r = None" "e' = ?e" "\<not> fin" using d n Nil by (simp_all add: decided_def Let_def)
        have "answers_ok pl' hs rid ?e" using b by (simp add: base_ok_def answers_ok_def pl' r)
        then show ?thesis using b r by (simp add: base_ok_def)
      qed
    qed
  qed
qed

end
