(* ===== verification/RelayCalls.thy ===== *)
theory RelayCalls
  imports RelayLocal
begin

text \<open>
  The steps of the response relay (opendweb-ext-ai, provider/relay.mjs) keep what holds of each response: the
  pulls, with the stream that was produced so far as a history.
\<close>

subsection \<open>Traces\<close>

text \<open>
  What the upstream did, recorded from its own calls and not from the state of the relay: the writes it
  asked for, the responses it ended, and the stream of each response, which are the pieces whose write
  completed while the response was open, each piece as the write was given it.
\<close>

record upstream =
  up_writes :: "nat \<Rightarrow> (string \<times> bytes) option"
  up_ended :: "string set"
  up_stream :: "string \<Rightarrow> bytes list"

definition no_upstream :: upstream where
  "no_upstream = \<lparr>up_writes = Map.empty, up_ended = {}, up_stream = (\<lambda>_. [])\<rparr>"

definition completes :: "nat \<Rightarrow> relay \<Rightarrow> bool" where
  "completes w g \<longleftrightarrow>
     map_of (rg_chunks g) w \<noteq> Some ChunkDone \<and> map_of (rg_chunks (relay_step (EvChunkTurn w) g)) w = Some ChunkDone"

definition open_response :: "upstream \<Rightarrow> relay \<Rightarrow> string \<Rightarrow> bool" where
  "open_response u g rid \<longleftrightarrow>
     rid \<notin> up_ended u \<and> (case the_entry g rid of Some e \<Rightarrow> \<not> ended e | None \<Rightarrow> False)"

definition up_next :: "relay_event \<Rightarrow> relay \<Rightarrow> upstream \<Rightarrow> upstream" where
  "up_next ev g u =
     (case ev of
        EvChunk w rid piece \<Rightarrow> u\<lparr>up_writes := (up_writes u)(w \<mapsto> (rid, piece))\<rparr>
      | EvEnd rid \<Rightarrow> if the_entry g rid = None then u else u\<lparr>up_ended := insert rid (up_ended u)\<rparr>
      | EvChunkTurn w \<Rightarrow>
          (case up_writes u w of
             Some (rid, piece) \<Rightarrow>
               if completes w g \<and> open_response u g rid
               then u\<lparr>up_stream := (up_stream u)(rid := up_stream u rid @ [piece])\<rparr> else u
           | None \<Rightarrow> u)
      | _ \<Rightarrow> u)"

inductive relay_trace :: "upstream \<Rightarrow> relay \<Rightarrow> bool" where
  trace_init: "relay_trace no_upstream (createRelayRegistry epoch buffer idle life)"
| trace_next: "relay_trace u g \<Longrightarrow> relay_possible ev g \<Longrightarrow> relay_trace (up_next ev g u) (relay_step ev g)"

definition pulls_of :: "relay \<Rightarrow> pulls" where "pulls_of g = map_of (rg_pulls g)"
definition chunks_of :: "relay \<Rightarrow> chunks" where "chunks_of g = map_of (rg_chunks g)"

definition fresh_ok :: "pulls \<Rightarrow> bytes list \<Rightarrow> string \<Rightarrow> bool" where
  "fresh_ok pl hs rid \<longleftrightarrow>
     hs = [] \<and> (\<forall>p. \<not> busy pl rid p) \<and> (\<forall>r. given pl rid r \<longrightarrow> rr_status r \<noteq> 200) \<and> (\<forall>p s. pl p \<noteq> Some (PullQueued rid s))"

definition here_ok :: "nat \<Rightarrow> pulls \<Rightarrow> chunks \<Rightarrow> bytes list \<Rightarrow> string \<Rightarrow> relay_entry option \<Rightarrow> bool" where
  "here_ok cap pl ch hs rid eo \<longleftrightarrow> (case eo of Some e \<Rightarrow> local_ok cap pl ch hs rid e | None \<Rightarrow> fresh_ok pl hs rid)"

lemma here_ok_simps [simp]:
  "here_ok cap pl ch hs rid (Some e) = local_ok cap pl ch hs rid e" "here_ok cap pl ch hs rid None = fresh_ok pl hs rid"
  by (simp_all add: here_ok_def)

definition entries_ok :: "(string \<Rightarrow> bytes list) \<Rightarrow> relay \<Rightarrow> bool" where
  "entries_ok h g \<longleftrightarrow> (\<forall>rid. here_ok (rg_buffer g) (pulls_of g) (chunks_of g) (h rid) rid (the_entry g rid))"

definition relay_inv :: "(string \<Rightarrow> bytes list) \<Rightarrow> relay \<Rightarrow> bool" where
  "relay_inv h g \<longleftrightarrow> ids_ok g \<and> summaries_ok g \<and> entries_ok h g"

lemma entries_okD: "entries_ok h g \<Longrightarrow> the_entry g rid = Some e \<Longrightarrow> local_ok (rg_buffer g) (pulls_of g) (chunks_of g) (h rid) rid e"
  by (metis entries_ok_def here_ok_simps(1))

text \<open>An event that touches one entry only, and no call.\<close>

lemma entries_ok_one:
  assumes ok: "entries_ok h g"
    and g': "\<And>r. the_entry g' r = (if r = rid then Some e' else the_entry g r)" "rg_pulls g' = rg_pulls g" "rg_chunks g' = rg_chunks g"
      "rg_buffer g' = rg_buffer g"
    and h': "\<And>r. r \<noteq> rid \<Longrightarrow> h' r = h r"
    and new: "local_ok (rg_buffer g) (pulls_of g) (chunks_of g) (h' rid) rid e'"
  shows "entries_ok h' g'"
proof -
  have v: "pulls_of g' = pulls_of g" "chunks_of g' = chunks_of g" using g'(2,3) by (simp_all add: pulls_of_def chunks_of_def)
  have "here_ok (rg_buffer g) (pulls_of g) (chunks_of g) (h' r) r (the_entry g' r)" for r
    using ok new h' by (cases "r = rid") (simp_all add: g'(1) entries_ok_def)
  then show ?thesis by (simp only: entries_ok_def v g'(4)) simp
qed

lemma entries_ok_same:
  assumes "entries_ok h g" and "rg_entries g' = rg_entries g" and "rg_pulls g' = rg_pulls g" and "rg_chunks g' = rg_chunks g"
    and "rg_buffer g' = rg_buffer g"
  shows "entries_ok h g'"
  using assms unfolding entries_ok_def pulls_of_def chunks_of_def the_entry_def by simp

lemma entries_ok_terminal:
  assumes ok: "entries_ok h g" "ids_ok g" and "x \<noteq> EndDone"
  shows "entries_ok h (applyTerminal now rid x g)"
proof (cases "\<exists>e. the_entry g rid = Some e \<and> \<not> ended e")
  case True
  then obtain e where e: "the_entry g rid = Some e" "\<not> ended e" by blast
  have id: "en_rid e = rid" using ok(2) e by (auto simp: ids_ok_def)
  have k: "ending_kind x \<noteq> KDone" using assms(3) by (cases x) (simp_all add: ending_kind_def)
  show ?thesis
    by (rule entries_ok_one [OF ok(1), of _ rid "close_entry (ending_kind x) (ending_reason x) e"])
      (use applyTerminal_entry [OF e(1) id, of now x] e(2) k local_ok_close [OF entries_okD [OF ok(1) e(1)] e(2)] in auto)
qed (use ok in \<open>auto simp: applyTerminal_def split: option.split\<close>)

lemma entries_ok_drop:
  assumes ok: "entries_ok h g" "ids_ok g"
  shows "entries_ok h (dropEntry rid g)"
proof (cases "\<exists>e. the_entry g rid = Some e \<and> \<not> ended e")
  case True
  then obtain e where e: "the_entry g rid = Some e" "\<not> ended e" by blast
  have id: "en_rid e = rid" using ok(2) e by (auto simp: ids_ok_def)
  show ?thesis
    by (rule entries_ok_one [OF ok(1), of _ rid "close_entry KError ''aborted'' e"])
      (use dropEntry_entry [OF e(1) id] e(2) local_ok_close [OF entries_okD [OF ok(1) e(1)] e(2)] in auto)
qed (use ok in \<open>auto simp: dropEntry_def split: option.split\<close>)

lemma set_entry_frame [simp]:
  "rg_pulls (set_entry e g) = rg_pulls g" "rg_chunks (set_entry e g) = rg_chunks g" "rg_buffer (set_entry e g) = rg_buffer g"
  "rg_summaries (set_entry e g) = rg_summaries g"
  by (simp_all add: set_entry_def)

lemma entries_ok_set:
  assumes "entries_ok h g" and "local_ok (rg_buffer g) (pulls_of g) (chunks_of g) (h (en_rid e')) (en_rid e') e'"
  shows "entries_ok h (set_entry e' g)"
  by (rule entries_ok_one [OF assms(1), of _ "en_rid e'" e']) (use assms(2) in auto)

subsection \<open>Pulls\<close>

text \<open>A call that does not become busy.\<close>

lemma entries_ok_pull:
  assumes ok: "entries_ok h g" and rep: "reply (pulls_of g) p = None" and nb: "\<And>r. \<not> busy (pulls_of g) r p"
    and ph: "phase_rid ph = rid" "\<not> busy ((pulls_of g)(p \<mapsto> ph)) rid p"
    and old: "\<And>ph0. pulls_of g p = Some ph0 \<Longrightarrow> phase_rid ph0 = rid"
    and new: "\<And>r. answer_of ph = Some (rid, r) \<Longrightarrow> (case the_entry g rid of Some e \<Rightarrow> answer_ok (h rid) e r | None \<Rightarrow> rr_status r \<noteq> 200)"
    and queue: "\<And>s. ph = PullQueued rid s \<Longrightarrow> the_entry g rid \<noteq> None"
  shows "entries_ok h (set_pull p ph g)"
proof -
  have v: "pulls_of (set_pull p ph g) = (pulls_of g)(p \<mapsto> ph)" "chunks_of (set_pull p ph g) = chunks_of g"
    "rg_buffer (set_pull p ph g) = rg_buffer g"
    by (simp_all add: pulls_of_def chunks_of_def set_pull_def)
  have en: "the_entry (set_pull p ph g) r = the_entry g r" for r by (simp add: the_entry_def set_pull_def)
  have gv: "given ((pulls_of g)(p \<mapsto> ph)) r x \<longleftrightarrow> given (pulls_of g) r x \<or> answer_of ph = Some (r, x)" for r x
    by (rule given_more [OF rep])
  have oth: "r = rid" if "answer_of ph = Some (r, x)" for r x using answer_phase_rid [OF that] ph(1) by simp
  have bs: "busy ((pulls_of g)(p \<mapsto> ph)) r q \<longleftrightarrow> busy (pulls_of g) r q" for r q
  proof (cases "q = p")
    case True
    have "\<not> busy ((pulls_of g)(p \<mapsto> ph)) r p"
      using ph by (cases "r = rid") (auto simp: busy_def phase_rid_def split: pull_phase.splits)
    then show ?thesis using True nb by simp
  qed (simp add: busy_def)
  show ?thesis
    unfolding entries_ok_def v en
  proof
    fix r
    note l = ok [unfolded entries_ok_def, THEN spec [of _ r]]
    show "here_ok (rg_buffer g) ((pulls_of g)(p \<mapsto> ph)) (chunks_of g) (h r) r (the_entry g r)"
    proof (cases "the_entry g r")
      case None
      have f: "fresh_ok (pulls_of g) (h r) r" using l None by simp
      have "((pulls_of g)(p \<mapsto> ph)) q \<noteq> Some (PullQueued r s)" for q s
        using f None queue ph(1) by (auto simp: fresh_ok_def phase_rid_def)
      moreover have "rr_status x \<noteq> 200" if "answer_of ph = Some (r, x)" for x
        using oth [OF that] new [of x] that None by simp
      ultimately show ?thesis using f unfolding None here_ok_simps fresh_ok_def gv bs by blast
    next
      case (Some e)
      have l: "local_ok (rg_buffer g) (pulls_of g) (chunks_of g) (h r) r e" using l Some by simp
      show ?thesis
      proof (cases "r = rid")
        case True
        have "local_ok (rg_buffer g) ((pulls_of g)(p \<mapsto> ph)) (chunks_of g) (h r) r e"
          by (rule local_ok_idle_pull [OF l rep nb]) (use new Some True ph in auto)
        then show ?thesis by (simp only: Some here_ok_simps)
      next
        case False
        have "local_ok (rg_buffer g) ((pulls_of g)(p \<mapsto> ph)) (chunks_of g) (h r) r e"
          by (rule local_ok_other_pull [OF l]) (use False ph old in auto)
        then show ?thesis by (simp only: Some here_ok_simps)
      qed
    qed
  qed
qed

lemma busy_upd: "busy (pl(p \<mapsto> ph)) rid q \<longleftrightarrow> (if q = p then busy (\<lambda>_. Some ph) rid p else busy pl rid q)"
  by (simp add: busy_def)

lemma fresh_ok_other:
  assumes f: "fresh_ok pl hs r" and "phase_rid ph \<noteq> r"
  shows "fresh_ok (pl(p \<mapsto> ph)) hs r"
proof -
  have "\<not> busy (\<lambda>_. Some ph) r p" "\<And>s. ph \<noteq> PullQueued r s"
    using assms(2) by (auto simp: busy_def phase_rid_def split: pull_phase.splits)
  then have b: "\<not> busy (pl(p \<mapsto> ph)) r q" "(pl(p \<mapsto> ph)) q \<noteq> Some (PullQueued r s)" for q s
    using f by (auto simp: fresh_ok_def busy_upd)
  have "rr_status x \<noteq> 200" if "given (pl(p \<mapsto> ph)) r x" for x
  proof -
    have "answer_of ph \<noteq> Some (r, x)" using assms(2) answer_phase_rid by auto
    then have "given pl r x" using that by (auto simp: given_def split: if_splits)
    then show ?thesis using f by (simp add: fresh_ok_def)
  qed
  then show ?thesis using f b by (simp add: fresh_ok_def)
qed

text \<open>A call moves on and its entry changes.\<close>

lemma entries_ok_call:
  assumes ok: "entries_ok h g" and ph: "phase_rid ph = rid" and old: "pulls_of g p = Some ph0" "phase_rid ph0 = rid"
    and g': "\<And>r. the_entry g' r = (if r = rid then Some e' else the_entry g r)" "pulls_of g' = (pulls_of g)(p \<mapsto> ph)"
      "rg_chunks g' = rg_chunks g" "rg_buffer g' = rg_buffer g"
    and new: "local_ok (rg_buffer g) ((pulls_of g)(p \<mapsto> ph)) (chunks_of g) (h rid) rid e'"
  shows "entries_ok h g'"
proof -
  have v: "chunks_of g' = chunks_of g" using g'(3) by (simp add: chunks_of_def)
  have "here_ok (rg_buffer g) ((pulls_of g)(p \<mapsto> ph)) (chunks_of g) (h r) r (the_entry g' r)" for r
  proof (cases "r = rid")
    case True
    then show ?thesis using new by (simp add: g'(1))
  next
    case False
    have "here_ok (rg_buffer g) (pulls_of g) (chunks_of g) (h r) r (the_entry g r)" using ok by (simp add: entries_ok_def)
    then show ?thesis
      using False ph old local_ok_other_pull [of "rg_buffer g" "pulls_of g" "chunks_of g" "h r" r _ ph p] fresh_ok_other [of "pulls_of g" "h r" r ph p]
      by (cases "the_entry g r") (auto simp: g'(1))
  qed
  then show ?thesis by (simp only: entries_ok_def v g'(2,4)) simp
qed

lemma local_ok_decided:
  assumes base: "base_ok cap (pl(p \<mapsto> ph)) ch hs rid e" and only: "\<And>q. busy pl rid q \<Longrightarrow> q = p"
    and ph: "busy (\<lambda>_. Some ph) rid p" and flag: "en_pullInFlight e" and w: "set (en_pullWaiters e) \<subseteq> {p}"
    and sleep: "\<And>s. ph = PullHeld rid s \<Longrightarrow> p \<in> set (en_pullWaiters e) \<Longrightarrow>
      s = en_committedSeq e + 1 \<and> en_pending e = [] \<and> \<not> en_eof e"
  shows "local_ok cap (pl(p \<mapsto> ph)) ch hs rid e"
proof -
  have b: "busy (pl(p \<mapsto> ph)) rid q \<longleftrightarrow> q = p" for q using only ph by (auto simp: busy_upd)
  have "flight_ok (pl(p \<mapsto> ph)) rid e" using flag w by (auto simp: flight_ok_def b)
  moreover have "asleep_ok (pl(p \<mapsto> ph)) rid e" using w sleep by (auto simp: asleep_ok_def)
  ultimately show ?thesis using base by (simp add: local_ok_base)
qed

lemma base_ok_flag [simp]: "base_ok cap pl ch hs rid (e\<lparr>en_pullInFlight := b\<rparr>) = base_ok cap pl ch hs rid e"
  by (simp add: base_ok_def stream_ok_def space_ok_def answers_ok_def answer_ok_def ended_def)

lemma base_ok_waiters: "xs = [] \<or> \<not> ended e \<Longrightarrow> base_ok cap pl ch hs rid e \<Longrightarrow> base_ok cap pl ch hs rid (e\<lparr>en_pullWaiters := xs\<rparr>)"
  by (auto simp: base_ok_def stream_ok_def space_ok_def answers_ok_def answer_ok_def ended_def)

lemma base_ok_given:
  assumes "base_ok cap pl ch hs rid e" and "\<And>x. given pl' rid x \<longleftrightarrow> given pl rid x \<or> (\<exists>r. a = Some r \<and> x = r)"
    and "\<And>r. a = Some r \<Longrightarrow> answer_ok hs e r"
  shows "base_ok cap pl' ch hs rid e"
  using assms by (auto simp: base_ok_def answers_ok_def)

text \<open>A replay tells of a completed response, or it is no success.\<close>

lemma replay_answer:
  assumes "summaries_ok g" and "terminalReplay now rid key g = (r, g')" and "rr_status r = 200"
  obtains e where "the_entry g rid = Some e" and "en_terminal e = Some KDone" and "r = summaryResponse (en_producedSeq e)"
proof -
  obtain s where s: "map_of (rg_summaries g) rid = Some s" "su_keyId s = key"
    using assms(2,3) by (auto simp: terminalReplay_def problem_def jsonResponse_def split: option.splits if_splits)
  obtain x g1 where x: "expireSummary now rid g = (x, g1)" by fastforce
  have "\<exists>st hs c. su_body s = SDone st hs c \<and> r = summaryResponse c"
    using assms(2,3) s x
    by (auto simp: terminalReplay_def problem_def jsonResponse_def errorRelayStatus_def split: bool.splits summary_body.splits if_splits)
  then obtain st hs c where b: "su_body s = SDone st hs c" "r = summaryResponse c" by blast
  have "tells (the_entry g rid) s" using assms(1) s by (simp add: summaries_ok_def)
  then show thesis using that b by (auto simp: tells_def split: option.splits)
qed

lemma problem_status [simp]: "rr_status (problem k code) = k"
  by (simp add: problem_def jsonResponse_def)

lemma set_pull_frame:
  "the_entry (set_pull p ph g) r = the_entry g r" "pulls_of (set_pull p ph g) = (pulls_of g)(p \<mapsto> ph)"
  "rg_chunks (set_pull p ph g) = rg_chunks g" "rg_buffer (set_pull p ph g) = rg_buffer g" "chunks_of (set_pull p ph g) = chunks_of g"
  "rg_summaries (set_pull p ph g) = rg_summaries g"
  by (simp_all add: set_pull_def the_entry_def pulls_of_def chunks_of_def)

lemma busy_phase: "busy pl rid p \<Longrightarrow> pl p = Some ph \<Longrightarrow> phase_rid ph = rid"
  by (auto simp: busy_def phase_rid_def split: pull_phase.splits)

lemma entries_ok_pull_start:
  assumes inv: "relay_inv h g" and new: "map_of (rg_pulls g) p = None"
  shows "entries_ok h (pull_start now p rid n key aborted g)"
proof -
  have ok: "entries_ok h g" and sums: "summaries_ok g" and ids: "ids_ok g" using inv by (simp_all add: relay_inv_def)
  have none: "pulls_of g p = None" using new by (simp add: pulls_of_def)
  have idle: "entries_ok h (set_pull p ph g')"
    if g': "rg_entries g' = rg_entries g" "rg_pulls g' = rg_pulls g" "rg_chunks g' = rg_chunks g" "rg_buffer g' = rg_buffer g"
      and ph: "phase_rid ph = rid" "\<not> busy (\<lambda>_. Some ph) rid p"
      and a: "\<And>r. answer_of ph = Some (rid, r) \<Longrightarrow> (case the_entry g rid of Some e \<Rightarrow> answer_ok (h rid) e r | None \<Rightarrow> rr_status r \<noteq> 200)"
      and q: "\<And>s. ph = PullQueued rid s \<Longrightarrow> the_entry g rid \<noteq> None" for ph g'
  proof -
    have ok': "entries_ok h g'" by (rule entries_ok_same [OF ok g'])
    have pl: "pulls_of g' = pulls_of g" and en: "the_entry g' rid = the_entry g rid"
      using g' by (simp_all add: pulls_of_def the_entry_def)
    show ?thesis
      by (rule entries_ok_pull [OF ok', of _ _ rid]) (use none ph a q in \<open>auto simp: pl en reply_def busy_def\<close>)
  qed
  have bad: "case the_entry g rid of Some e \<Rightarrow> answer_ok (h rid) e r | None \<Rightarrow> rr_status r \<noteq> 200" if "rr_status r \<noteq> 200" for r
    using that by (simp add: answer_ok_def split: option.split)
  have rep: "case the_entry g rid of Some e \<Rightarrow> answer_ok (h rid) e r | None \<Rightarrow> rr_status r \<noteq> 200"
    if t: "terminalReplay now rid key g = (r, g')" for r g'
  proof (cases "rr_status r = 200")
    case True
    from replay_answer [OF sums t True] obtain e where
      "the_entry g rid = Some e" "en_terminal e = Some KDone" "r = summaryResponse (en_producedSeq e)" .
    then show ?thesis by (simp add: answer_ok_def)
  qed (rule bad)
  have prob: "entries_ok h (set_pull p (PullDone rid (Some (problem k code))) g)" if "k \<noteq> 200" for k code
    by (rule idle) (use bad [of "problem k code"] that in \<open>simp_all add: phase_rid_def busy_def answer_of_def\<close>)
  obtain r g' where t: "terminalReplay now rid key g = (r, g')" by fastforce
  have f: "rg_entries g' = rg_entries g" "rg_pulls g' = rg_pulls g" "rg_chunks g' = rg_chunks g" "rg_buffer g' = rg_buffer g"
    using replay_fields [of now rid key g] t by simp_all
  consider (a) aborted | (b) "\<not> aborted" "rid \<notin> set (rg_active g)" "map_of (rg_summaries g) rid = None"
    | (c) "\<not> aborted" "rid \<notin> set (rg_active g)" "map_of (rg_summaries g) rid \<noteq> None" "rid \<in> set (rg_replaying g)"
    | (d) "\<not> aborted" "rid \<notin> set (rg_active g)" "map_of (rg_summaries g) rid \<noteq> None" "rid \<notin> set (rg_replaying g)"
    | (e) "\<not> aborted" "rid \<in> set (rg_active g)" by blast
  then show ?thesis
  proof cases
    case a
    then show ?thesis using idle [of g "PullDone rid None"] by (simp add: pull_start_def phase_rid_def busy_def answer_of_def)
  next
    case b
    then show ?thesis using idle [OF f, of "PullDone rid (Some r)"] rep [OF t] t
      by (simp add: pull_start_def phase_rid_def busy_def answer_of_def)
  next
    case c
    then obtain x where "map_of (rg_summaries g) rid = Some x" by blast
    then show ?thesis using c prob [of 409 "''pull_in_flight''"] by (simp add: pull_start_def)
  next
    case d
    have "entries_ok h (set_pull p (PullReplayed rid r) (g'\<lparr>rg_replaying := rid # rg_replaying g'\<rparr>))"
      by (rule idle) (use f rep [OF t] in \<open>simp_all add: phase_rid_def busy_def answer_of_def\<close>)
    then show ?thesis using d t by (auto simp: pull_start_def)
  next
    case e
    then obtain en where en: "the_entry g rid = Some en" using ids by (auto simp: ids_ok_def)
    have "entries_ok h (set_pull p (PullDone rid (Some (problem 404 ''response_not_found''))) g)" by (rule prob) simp
    moreover have "entries_ok h (set_pull p (PullQueued rid n) g)"
      by (rule idle) (use en in \<open>simp_all add: phase_rid_def busy_def answer_of_def\<close>)
    ultimately show ?thesis using e en by (simp add: pull_start_def)
  qed
qed

text \<open>The decision of a call, and its entry before and after.\<close>

definition decided_to where
  "decided_to g g' rid n e pl ch hs r e' \<longleftrightarrow>
     (\<forall>x. the_entry g' x = (if x = rid then Some e' else the_entry g x)) \<and> rg_pulls g' = rg_pulls g \<and>
     rg_chunks g' = rg_chunks g \<and> rg_buffer g' = rg_buffer g \<and>
     (\<forall>pl'. (\<forall>x. given pl' rid x \<longleftrightarrow> given pl rid x \<or> r = Some x) \<longrightarrow> base_ok (rg_buffer g) pl' ch hs rid e') \<and>
     en_pullInFlight e' = en_pullInFlight e \<and> (en_pullWaiters e' = en_pullWaiters e \<or> en_pullWaiters e' = []) \<and>
     (r = None \<longrightarrow> \<not> ended e' \<and> n = en_committedSeq e' + 1 \<and> en_pending e' = [] \<and> \<not> en_eof e') \<and>
     en_rid e' = rid \<and> en_producedSeq e' = en_producedSeq e \<and> (ended e \<longrightarrow> e' = e)"

lemma decision:
  assumes sums: "summaries_ok g" and ids: "ids_ok g" and e: "the_entry g rid = Some e"
    and base: "base_ok (rg_buffer g) pl ch hs rid e" and d: "decideReady now rid n g = (r, g')"
  shows "\<exists>e'. decided_to g g' rid n e pl ch hs r e'"
proof (cases "ended e")
  case True
  have id: "en_rid e = rid" using ids e by (auto simp: ids_ok_def)
  obtain a g1 where t: "terminalReplay now rid (en_keyId e) g = (a, g1)" by fastforce
  then have r: "r = Some a" "g' = g1" using d e True by (auto simp: decideReady_def)
  have fr: "rg_entries g1 = rg_entries g" "rg_pulls g1 = rg_pulls g" "rg_chunks g1 = rg_chunks g" "rg_buffer g1 = rg_buffer g"
    using replay_fields [of now rid "en_keyId e" g] t by simp_all
  have an: "answer_ok hs e a"
  proof (cases "rr_status a = 200")
    case True
    from replay_answer [OF sums t True] obtain e2 where
      "the_entry g rid = Some e2" "en_terminal e2 = Some KDone" "a = summaryResponse (en_producedSeq e2)" .
    then show ?thesis using e by (simp add: answer_ok_def)
  qed (simp add: answer_ok_def)
  have en: "the_entry g' x = (if x = rid then Some e else the_entry g x)" for x
    using e same_entries [OF fr(1), of x] r by simp
  have "base_ok (rg_buffer g) pl' ch hs rid e" if "\<forall>x. given pl' rid x \<longleftrightarrow> given pl rid x \<or> r = Some x" for pl'
    by (rule base_ok_given [OF base, of _ "Some a"]) (use that an r in auto)
  then have "decided_to g g' rid n e pl ch hs r e" unfolding decided_to_def using en fr r id by auto
  then show ?thesis by blast
next
  case False
  have id: "en_rid e = rid" using ids e by (auto simp: ids_ok_def)
  obtain r1 e1 fin where dd: "decided now n e = (r1, e1, fin)" by (metis prod_cases3)
  have st: "stream_ok (rg_buffer g) hs e" using base by (simp add: base_ok_def)
  have r: "r = r1" "g' = (if fin then applyTerminal now rid EndDone (set_entry e1 g) else set_entry e1 g)"
    using decideReady_decided [OF st e False dd] d by simp_all
  note fl = decided_fields [OF dd]
  have id1: "en_rid e1 = rid" and live1: "\<not> ended e1" using fl id False by (simp_all add: ended_def)
  let ?e' = "if fin then close_entry KDone ''done'' e1 else e1"
  have e1: "the_entry (set_entry e1 g) rid = Some e1" using id1 by simp
  have en: "the_entry g' x = (if x = rid then Some ?e' else the_entry g x)" for x
    using applyTerminal_entry [OF e1 id1, of now EndDone x] live1 id1 r(2)
    by (cases fin) (simp_all add: ending_kind_def ending_reason_def kind_text_def)
  have nofin: "\<not> fin" if "r = None"
    using dd r(1) that by (auto simp: decided_def Let_def simp del: confirm_fields split: if_splits list.splits)
  have b1: "base_ok (rg_buffer g) pl' ch hs rid ?e'" if "\<forall>x. given pl' rid x \<longleftrightarrow> given pl rid x \<or> r = Some x" for pl'
    by (rule decided_base(1) [OF base False dd]) (use that r in simp)
  have b2: "\<not> ended ?e' \<and> n = en_committedSeq ?e' + 1 \<and> en_pending ?e' = [] \<and> \<not> en_eof ?e'" if "r = None"
    using decided_base(2) [OF base False dd, of pl] nofin [OF that] live1 r that by auto
  have b3: "en_pullInFlight ?e' = en_pullInFlight e" "en_pullWaiters ?e' = en_pullWaiters e \<or> en_pullWaiters ?e' = []"
    "en_rid ?e' = rid" "en_producedSeq ?e' = en_producedSeq e"
    using fl id1 by auto
  have b4: "rg_pulls g' = rg_pulls g" "rg_chunks g' = rg_chunks g" "rg_buffer g' = rg_buffer g" using r by simp_all
  have "decided_to g g' rid n e pl ch hs r ?e'" unfolding decided_to_def using en b1 b2 b3 b4 False by blast
  then show ?thesis by blast
qed

lemma busy_queued: "pl p = Some (PullQueued rid n) \<Longrightarrow> \<not> busy pl r p"
  by (simp add: busy_def)

lemma reply_upd_given:
  assumes "reply pl p = None"
  shows "given (pl(p \<mapsto> ph)) rid x \<longleftrightarrow> given pl rid x \<or> answer_of ph = Some (rid, x)"
  by (rule given_more [OF assms])

lemma entries_ok_pull_first:
  assumes inv: "relay_inv h g"
  shows "entries_ok h (pull_first now p g)"
proof (cases "\<exists>rid n. map_of (rg_pulls g) p = Some (PullQueued rid n)")
  case True
  then obtain rid n where q: "map_of (rg_pulls g) p = Some (PullQueued rid n)" by blast
  have ok: "entries_ok h g" and sums: "summaries_ok g" and ids: "ids_ok g" using inv by (simp_all add: relay_inv_def)
  have pq: "pulls_of g p = Some (PullQueued rid n)" using q by (simp add: pulls_of_def)
  obtain e where e: "the_entry g rid = Some e"
  proof (cases "the_entry g rid")
    case None
    then have "fresh_ok (pulls_of g) (h rid) rid" using ok by (metis entries_ok_def here_ok_simps(2))
    then show ?thesis using pq by (simp add: fresh_ok_def)
  qed
  note l = entries_okD [OF ok e]
  have id: "en_rid e = rid" using ids e by (auto simp: ids_ok_def)
  have rep: "reply (pulls_of g) p = None" using pq by (simp add: reply_def answer_of_def)
  show ?thesis
  proof (cases "en_pullInFlight e")
    case True
    have "entries_ok h (set_pull p (PullDone rid (Some (problem 409 ''pull_in_flight''))) g)"
      by (rule entries_ok_pull [OF ok rep, of _ rid])
        (use pq e in \<open>auto simp: phase_rid_def busy_def answer_of_def answer_ok_def\<close>)
    then show ?thesis using q e True by (simp add: pull_first_def)
  next
    case False
    let ?e = "e\<lparr>en_pullInFlight := True\<rparr>" and ?g = "set_entry (e\<lparr>en_pullInFlight := True\<rparr>) g"
    obtain r g' where d: "decideReady now rid n ?g = (r, g')" by fastforce
    have sums': "summaries_ok ?g" by (rule summaries_ok_set [OF sums, of _ e]) (use e id in simp_all)
    have ids': "ids_ok ?g" by (rule ids_ok_set [OF ids, of _ e]) (use e id in \<open>simp_all add: ended_def\<close>)
    have base: "base_ok (rg_buffer ?g) (pulls_of g) (chunks_of g) (h rid) rid ?e" using l by (simp add: local_ok_base)
    have e': "the_entry ?g rid = Some ?e" using id by simp
    have nobusy: "\<not> busy (pulls_of g) rid x" for x using l False by (simp add: local_ok_def flight_ok_def)
    then have nw: "en_pullWaiters e = []" using l by (auto simp: local_ok_def flight_ok_def)
    from decision [OF sums' ids' e' base d] obtain f where
      dt: "decided_to ?g g' rid n ?e (pulls_of g) (chunks_of g) (h rid) r f" by blast
    note f = dt [unfolded decided_to_def, THEN conjunct1, THEN spec] dt [unfolded decided_to_def, THEN conjunct2]
    have fb: "base_ok (rg_buffer g) pl' (chunks_of g) (h rid) rid f"
      if "\<And>x. given pl' rid x \<longleftrightarrow> given (pulls_of g) rid x \<or> r = Some x" for pl'
      using f(2) that by simp
    have fn: "\<not> ended f \<and> n = en_committedSeq f + 1 \<and> en_pending f = [] \<and> \<not> en_eof f" if "r = None"
      using f(2) that by simp
    have fi: "en_pullInFlight f" "en_rid f = rid" "rg_pulls g' = rg_pulls g" "rg_chunks g' = rg_chunks g" "rg_buffer g' = rg_buffer g"
      using f(2) by simp_all
    have fe: "the_entry g' x = (if x = rid then Some f else the_entry g x)" for x using f(1) [of x] id by simp
    have fw: "en_pullWaiters f = []" using f(2) nw by auto
    have pg': "pulls_of g' = pulls_of g" using fi(3) by (simp add: pulls_of_def)
    show ?thesis
    proof (cases r)
      case (Some a)
      let ?ph = "PullAnswered rid (Some a)"
      have "local_ok (rg_buffer g) ((pulls_of g)(p \<mapsto> ?ph)) (chunks_of g) (h rid) rid f"
      proof (rule local_ok_decided)
        show "base_ok (rg_buffer g) ((pulls_of g)(p \<mapsto> ?ph)) (chunks_of g) (h rid) rid f"
          using fb [of "(pulls_of g)(p \<mapsto> ?ph)"] reply_upd_given [OF rep, of ?ph rid] Some
          by (simp add: answer_of_def eq_commute)
      qed (use nobusy fi fw in \<open>auto simp: busy_def\<close>)
      then have "entries_ok h (set_pull p ?ph g')"
        by (intro entries_ok_call [OF ok _ pq, of ?ph rid _ f]) (use fe fi pg' in \<open>auto simp: phase_rid_def set_pull_frame\<close>)
      then show ?thesis using q e False d Some by (simp add: pull_first_def)
    next
      case None
      let ?ph = "PullHeld rid n" and ?f = "f\<lparr>en_pullWaiters := en_pullWaiters f @ [p]\<rparr>"
      have "local_ok (rg_buffer g) ((pulls_of g)(p \<mapsto> ?ph)) (chunks_of g) (h rid) rid ?f"
      proof (rule local_ok_decided)
        have "base_ok (rg_buffer g) ((pulls_of g)(p \<mapsto> ?ph)) (chunks_of g) (h rid) rid f"
          using fb [of "(pulls_of g)(p \<mapsto> ?ph)"] reply_upd_given [OF rep, of ?ph rid] None
          by (simp add: answer_of_def)
        then show "base_ok (rg_buffer g) ((pulls_of g)(p \<mapsto> ?ph)) (chunks_of g) (h rid) rid ?f"
          using fn [OF None] by (intro base_ok_waiters) simp_all
      qed (use nobusy fi fn [OF None] fw in \<open>auto simp: busy_def\<close>)
      moreover have "pulls_of (set_entry ?f g') = pulls_of g" using fi(3) by (simp add: pulls_of_def)
      ultimately have "entries_ok h (set_pull p ?ph (set_entry ?f g'))"
        by (intro entries_ok_call [OF ok _ pq, of ?ph rid _ ?f])
          (use fe fi in \<open>auto simp: phase_rid_def set_pull_frame\<close>)
      then show ?thesis using q e False d None fe [of rid] by (simp add: pull_first_def)
    qed
  qed
next
  case False
  then have "pull_first now p g = g" by (auto simp: pull_first_def split: option.splits pull_phase.splits)
  then show ?thesis using inv by (simp add: relay_inv_def)
qed

lemma entries_ok_pull_second:
  assumes inv: "relay_inv h g"
  shows "entries_ok h (pull_second now p aborted g)"
proof (cases "\<exists>rid n. map_of (rg_pulls g) p = Some (PullHeld rid n)")
  case True
  then obtain rid n where q: "map_of (rg_pulls g) p = Some (PullHeld rid n)" by blast
  have ok: "entries_ok h g" and sums: "summaries_ok g" and ids: "ids_ok g" using inv by (simp_all add: relay_inv_def)
  have pq: "pulls_of g p = Some (PullHeld rid n)" using q by (simp add: pulls_of_def)
  have bp: "busy (pulls_of g) rid p" using pq by (simp add: busy_def)
  obtain e where e: "the_entry g rid = Some e"
  proof (cases "the_entry g rid")
    case None
    then have "fresh_ok (pulls_of g) (h rid) rid" using ok by (metis entries_ok_def here_ok_simps(2))
    then show ?thesis using bp by (simp add: fresh_ok_def)
  qed
  note l = entries_okD [OF ok e]
  have base: "base_ok (rg_buffer g) (pulls_of g) (chunks_of g) (h rid) rid e" using l by (simp add: local_ok_base)
  have only: "x = p" if "busy (pulls_of g) rid x" for x using l bp that unfolding local_ok_def flight_ok_def by blast
  have flag: "en_pullInFlight e" "set (en_pullWaiters e) \<subseteq> {p}"
    using l bp only by (auto simp: local_ok_def flight_ok_def)
  have rep: "reply (pulls_of g) p = None" using pq by (simp add: reply_def answer_of_def)
  have step: "entries_ok h (set_pull p (PullAnswered rid a) g')"
    if g': "\<And>x. the_entry g' x = (if x = rid then Some f else the_entry g x)" "pulls_of g' = pulls_of g" "rg_chunks g' = rg_chunks g"
        "rg_buffer g' = rg_buffer g"
      and f: "en_pullInFlight f" "set (en_pullWaiters f) \<subseteq> {p}"
      and b: "\<And>pl'. (\<And>x. given pl' rid x \<longleftrightarrow> given (pulls_of g) rid x \<or> a = Some x) \<Longrightarrow> base_ok (rg_buffer g) pl' (chunks_of g) (h rid) rid f"
    for a f g'
  proof (rule entries_ok_call [OF ok _ pq])
    let ?ph = "PullAnswered rid a"
    have "base_ok (rg_buffer g) ((pulls_of g)(p \<mapsto> ?ph)) (chunks_of g) (h rid) rid f"
      by (rule b) (use reply_upd_given [OF rep, of ?ph rid] in \<open>auto simp: answer_of_def split: option.split\<close>)
    then show "local_ok (rg_buffer g) ((pulls_of g)(p \<mapsto> ?ph)) (chunks_of g) (h rid) rid f"
      by (rule local_ok_decided) (use only f in \<open>auto simp: busy_def\<close>)
  qed (use g' in \<open>auto simp: phase_rid_def set_pull_frame\<close>)
  show ?thesis
  proof (cases aborted)
    case True
    have "entries_ok h (set_pull p (PullAnswered rid None) g)"
      by (rule step [of g e None]) (use e flag base_ok_given [OF base, of _ None] in auto)
    then show ?thesis using q True by (simp add: pull_second_def)
  next
    case False
    obtain r g' where d: "decideReady now rid n g = (r, g')" by fastforce
    from decision [OF sums ids e base d] obtain f where
      dt: "decided_to g g' rid n e (pulls_of g) (chunks_of g) (h rid) r f" by blast
    note f = dt [unfolded decided_to_def, THEN conjunct1, THEN spec] dt [unfolded decided_to_def, THEN conjunct2]
    have fw: "set (en_pullWaiters f) \<subseteq> {p}" "en_pullInFlight f" using f(2) flag by auto
    have pg: "pulls_of g' = pulls_of g" using f(2) by (simp add: pulls_of_def)
    let ?a = "case r of Some a \<Rightarrow> Some a | None \<Rightarrow> Some (hold_response (en_committedSeq f))"
    have "entries_ok h (set_pull p (PullAnswered rid ?a) g')"
    proof (rule step [of g' f ?a])
      fix pl' assume gv: "\<And>x. given pl' rid x \<longleftrightarrow> given (pulls_of g) rid x \<or> ?a = Some x"
      show "base_ok (rg_buffer g) pl' (chunks_of g) (h rid) rid f"
      proof (cases r)
        case (Some a)
        then show ?thesis using f(2) gv by simp
      next
        case None
        then have "base_ok (rg_buffer g) (pulls_of g) (chunks_of g) (h rid) rid f" using f(2) by simp
        then show ?thesis
          by (rule base_ok_given [of _ _ _ _ _ _ _ "Some (hold_response (en_committedSeq f))"])
            (use gv None in \<open>auto simp: answer_ok_def hold_response_def\<close>)
      qed
    qed (use f fw pg in auto)
    then show ?thesis using q False d f(1) [of rid] by (auto simp: pull_second_def split: option.split)
  qed
next
  case False
  then have "pull_second now p aborted g = g" by (auto simp: pull_second_def split: option.splits pull_phase.splits)
  then show ?thesis using inv by (simp add: relay_inv_def)
qed

end
