(* ===== verification/RelayTrace.thy ===== *)
theory RelayTrace
  imports RelayCalls
begin

text \<open>
  The invariant of the response relay (opendweb-ext-ai, provider/relay.mjs) and its proof for every event.
\<close>

subsection \<open>The end of a pull\<close>

lemma calls_set_entry [simp]: "pulls_of (set_entry e g) = pulls_of g" "chunks_of (set_entry e g) = chunks_of g"
  by (simp_all add: pulls_of_def chunks_of_def)

lemma entries_ok_pull_release:
  assumes inv: "relay_inv h g"
  shows "entries_ok h (pull_release p g)"
proof -
  have ok: "entries_ok h g" and ids: "ids_ok g" using inv by (simp_all add: relay_inv_def)
  consider (a) rid r where "map_of (rg_pulls g) p = Some (PullAnswered rid r)"
    | (b) rid r where "map_of (rg_pulls g) p = Some (PullReplayed rid r)"
    | (c) "\<nexists>rid r. map_of (rg_pulls g) p = Some (PullAnswered rid r)" "\<nexists>rid r. map_of (rg_pulls g) p = Some (PullReplayed rid r)"
    by blast
  then show ?thesis
  proof cases
    case (a rid r)
    have pq: "pulls_of g p = Some (PullAnswered rid r)" using a by (simp add: pulls_of_def)
    have bp: "busy (pulls_of g) rid p" using pq by (simp add: busy_def)
    obtain e where e: "the_entry g rid = Some e"
    proof (cases "the_entry g rid")
      case None
      then have "fresh_ok (pulls_of g) (h rid) rid" using ok by (metis entries_ok_def here_ok_simps(2))
      then show ?thesis using bp by (simp add: fresh_ok_def)
    qed
    note l = entries_okD [OF ok e]
    have only: "x = p" if "busy (pulls_of g) rid x" for x using l bp that unfolding local_ok_def flight_ok_def by blast
    have id: "en_rid e = rid" using ids e by (auto simp: ids_ok_def)
    let ?ph = "PullDone rid r"
    let ?f = "e\<lparr>en_pullInFlight := False, en_pullWaiters := filter (\<lambda>x. x \<noteq> p) (en_pullWaiters e)\<rparr>"
    have w: "filter (\<lambda>x. x \<noteq> p) (en_pullWaiters e) = []"
      using l only by (auto simp: local_ok_def flight_ok_def filter_empty_conv)
    have gv: "given ((pulls_of g)(p \<mapsto> ?ph)) rid x = given (pulls_of g) rid x" for x
      by (rule given_same) (simp add: pq reply_def answer_of_def)
    have "base_ok (rg_buffer g) (pulls_of g) (chunks_of g) (h rid) rid e" using l by (simp add: local_ok_base)
    then have "base_ok (rg_buffer g) ((pulls_of g)(p \<mapsto> ?ph)) (chunks_of g) (h rid) rid e"
      by (rule base_ok_given [of _ _ _ _ _ _ _ None]) (simp_all add: gv)
    then have "base_ok (rg_buffer g) ((pulls_of g)(p \<mapsto> ?ph)) (chunks_of g) (h rid) rid (e\<lparr>en_pullInFlight := False\<rparr>)"
      by simp
    then have b: "base_ok (rg_buffer g) ((pulls_of g)(p \<mapsto> ?ph)) (chunks_of g) (h rid) rid ?f"
      unfolding w by (intro base_ok_waiters) simp_all
    have nb: "\<not> busy ((pulls_of g)(p \<mapsto> ?ph)) rid x" for x using only by (auto simp: busy_upd) (simp add: busy_def)
    have "local_ok (rg_buffer g) ((pulls_of g)(p \<mapsto> ?ph)) (chunks_of g) (h rid) rid ?f"
      using b nb by (simp add: local_ok_base flight_ok_def asleep_ok_def w)
    then have "entries_ok h (set_pull p ?ph (set_entry ?f g))"
      by (intro entries_ok_call [OF ok _ pq, of ?ph rid _ ?f])
        (use id in \<open>auto simp: phase_rid_def set_pull_frame\<close>)
    then show ?thesis using a e by (simp add: pull_release_def)
  next
    case (b rid r)
    have pq: "pulls_of g p = Some (PullReplayed rid r)" using b by (simp add: pulls_of_def)
    let ?g = "g\<lparr>rg_replaying := filter (\<lambda>x. x \<noteq> rid) (rg_replaying g)\<rparr>" and ?ph = "PullDone rid (Some r)"
    have ok': "entries_ok h ?g" by (rule entries_ok_same [OF ok]) simp_all
    have pl: "pulls_of ?g = pulls_of g" by (simp add: pulls_of_def)
    have gv: "given ((pulls_of g)(p \<mapsto> ?ph)) x y = given (pulls_of g) x y" for x y
      by (rule given_same) (simp add: pq reply_def answer_of_def)
    have bs: "busy ((pulls_of g)(p \<mapsto> ?ph)) x y = busy (pulls_of g) x y" for x y
      using pq by (auto simp: busy_def)
    have hd: "((pulls_of g)(p \<mapsto> ?ph)) x = Some (PullHeld y z) \<longleftrightarrow> pulls_of g x = Some (PullHeld y z)"
      and qu: "((pulls_of g)(p \<mapsto> ?ph)) x = Some (PullQueued y z) \<longleftrightarrow> pulls_of g x = Some (PullQueued y z)" for x y z
      using pq by auto
    have "here_ok (rg_buffer g) ((pulls_of g)(p \<mapsto> ?ph)) (chunks_of g) (h x) x en =
        here_ok (rg_buffer g) (pulls_of g) (chunks_of g) (h x) x en" for x en
      unfolding here_ok_def fresh_ok_def local_ok_def answers_ok_def flight_ok_def asleep_ok_def gv bs hd qu ..
    then have "entries_ok h (set_pull p ?ph g)" using ok by (simp add: entries_ok_def set_pull_frame)
    then have "entries_ok h (set_pull p ?ph ?g)" by (rule entries_ok_same) (simp_all add: set_pull_def)
    then show ?thesis using b by (simp add: pull_release_def)
  next
    case c
    then have "pull_release p g = g" by (auto simp: pull_release_def split: option.splits pull_phase.splits)
    then show ?thesis using ok by simp
  qed
qed

subsection \<open>Production\<close>

lemma sleeper:
  "entries_ok h g \<Longrightarrow> the_entry g rid = Some e \<Longrightarrow> w \<in> set (en_spaceWaiters e) \<Longrightarrow>
     \<exists>piece. map_of (rg_chunks g) w = Some (ChunkWait rid piece)"
  using waits_here [OF entries_okD] by (simp add: chunks_of_def)

lemma entries_ok_chunks:
  assumes ok: "entries_ok h g" and w: "\<And>rid e. the_entry g rid = Some e \<Longrightarrow> w \<notin> set (en_spaceWaiters e)"
  shows "entries_ok h (g\<lparr>rg_chunks := aput w x (rg_chunks g)\<rparr>)"
proof -
  let ?g = "g\<lparr>rg_chunks := aput w x (rg_chunks g)\<rparr>"
  have "here_ok (rg_buffer g) (pulls_of g) ((chunks_of g)(w \<mapsto> x)) (h r) r (the_entry g r)" for r
  proof (cases "the_entry g r")
    case None
    then show ?thesis using ok by (metis entries_ok_def here_ok_simps(2))
  next
    case (Some e)
    then show ?thesis using local_ok_other_chunk [OF entries_okD [OF ok Some] w [OF Some]] by simp
  qed
  moreover have "the_entry ?g r = the_entry g r" "pulls_of ?g = pulls_of g" "chunks_of ?g = (chunks_of g)(w \<mapsto> x)" "rg_buffer ?g = rg_buffer g"
    for r by (simp_all add: the_entry_def pulls_of_def chunks_of_def)
  ultimately show ?thesis by (simp add: entries_ok_def)
qed

lemma entries_ok_new_chunk: "entries_ok h g \<Longrightarrow> map_of (rg_chunks g) w = None \<Longrightarrow> entries_ok h (g\<lparr>rg_chunks := aput w x (rg_chunks g)\<rparr>)"
  by (rule entries_ok_chunks) (auto dest: sleeper)

definition appends :: "relay_event \<Rightarrow> relay \<Rightarrow> (string \<times> bytes) option" where
  "appends ev g =
     (case ev of
        EvChunkTurn w \<Rightarrow>
          (case map_of (rg_chunks g) w of
             Some (ChunkTry rid piece) \<Rightarrow>
               (case the_entry g rid of
                  Some e \<Rightarrow> if \<not> ended e \<and> \<not> en_eof e \<and> en_bufferBytes e + length piece \<le> rg_buffer g then Some (rid, piece) else None
                | None \<Rightarrow> None)
           | Some (ChunkWait rid piece) \<Rightarrow>
               (case the_entry g rid of
                  Some e \<Rightarrow>
                    if \<not> waits_for_space w rid g \<and> \<not> ended e \<and> \<not> en_eof e \<and> en_bufferBytes e + length piece \<le> rg_buffer g
                    then Some (rid, piece) else None
                | None \<Rightarrow> None)
           | _ \<Rightarrow> None)
      | _ \<Rightarrow> None)"

definition longer :: "(string \<Rightarrow> bytes list) \<Rightarrow> (string \<times> bytes) option \<Rightarrow> string \<Rightarrow> bytes list" where
  "longer h a r = h r @ (case a of Some (rid, piece) \<Rightarrow> if r = rid then [piece] else [] | None \<Rightarrow> [])"

lemma longer_none [simp]: "longer h None = h"
  by (rule ext) (simp add: longer_def)

lemma entries_ok_section:
  assumes inv: "relay_inv h g" and ch: "chunks_of g w = Some ph" "ph = ChunkTry rid piece \<or> ph = ChunkWait rid piece"
    and nw: "\<not> waits_for_space w rid g" and e: "the_entry g rid = Some e"
  shows "entries_ok (longer h (if \<not> ended e \<and> \<not> en_eof e \<and> en_bufferBytes e + length piece \<le> rg_buffer g then Some (rid, piece) else None))
           (chunk_section w rid piece g)"
proof -
  have ok: "entries_ok h g" and ids: "ids_ok g" using inv by (simp_all add: relay_inv_def)
  have id: "en_rid e = rid" using ids e by (auto simp: ids_ok_def)
  note l = entries_okD [OF ok e]
  have free: "w \<notin> set (en_spaceWaiters x)" if "the_entry g r = Some x" for r x
    using sleeper [OF ok that, of w] ch nw that by (cases "r = rid") (auto simp: waits_for_space_def chunks_of_def)
  consider (a) "ended e \<or> en_eof e" | (b) "\<not> ended e" "\<not> en_eof e" "en_bufferBytes e + length piece \<le> rg_buffer g"
    | (c) "\<not> ended e" "\<not> en_eof e" "\<not> en_bufferBytes e + length piece \<le> rg_buffer g" by blast
  then show ?thesis
  proof cases
    case a
    then show ?thesis using e entries_ok_chunks [OF ok free] by (auto simp: chunk_section_def)
  next
    case b
    have "local_ok (rg_buffer g) (pulls_of g) (chunks_of g) (h rid @ [piece]) rid (append_chunk piece e)"
      using l b by (rule local_ok_append)
    then have "entries_ok (longer h (Some (rid, piece))) (set_entry (append_chunk piece e) g)"
      by (intro entries_ok_one [OF ok, of _ rid "append_chunk piece e"]) (use id in \<open>auto simp: longer_def append_chunk_def\<close>)
    moreover have "w \<notin> set (en_spaceWaiters x)" if "the_entry (set_entry (append_chunk piece e) g) r = Some x" for r x
      using that free [of r] free [OF e] by (auto simp: append_chunk_def split: if_splits)
    ultimately have "entries_ok (longer h (Some (rid, piece)))
        ((set_entry (append_chunk piece e) g)\<lparr>rg_chunks := aput w ChunkDone (rg_chunks (set_entry (append_chunk piece e) g))\<rparr>)"
      by (rule entries_ok_chunks)
    then show ?thesis using e b by (simp add: chunk_section_def)
  next
    case c
    let ?e = "e\<lparr>en_spaceWaiters := en_spaceWaiters e @ [w]\<rparr>" and ?ch = "(chunks_of g)(w \<mapsto> ChunkWait rid piece)"
    let ?g = "(set_entry ?e g)\<lparr>rg_chunks := aput w (ChunkWait rid piece) (rg_chunks g)\<rparr>"
    have "local_ok (rg_buffer g) (pulls_of g) ?ch (h rid) rid ?e" using l c by (rule local_ok_wait)
    moreover have "here_ok (rg_buffer g) (pulls_of g) ?ch (h r) r (the_entry g r)" for r
    proof -
      have "entries_ok h (g\<lparr>rg_chunks := aput w (ChunkWait rid piece) (rg_chunks g)\<rparr>)"
        by (rule entries_ok_chunks [OF ok free])
      then show ?thesis by (simp add: entries_ok_def the_entry_def pulls_of_def chunks_of_def)
    qed
    moreover have "the_entry ?g r = (if r = rid then Some ?e else the_entry g r)" for r
      using id by (simp add: the_entry_def set_entry_def)
    moreover have "pulls_of ?g = pulls_of g" "chunks_of ?g = ?ch" by (simp_all add: pulls_of_def chunks_of_def)
    ultimately have "entries_ok h ?g" by (simp add: entries_ok_def)
    then show ?thesis using e c by (simp add: chunk_section_def)
  qed
qed

lemma entries_ok_chunk_turn:
  assumes inv: "relay_inv h g"
  shows "entries_ok (longer h (appends (EvChunkTurn w) g)) (chunk_turn w g)"
proof -
  have ok: "entries_ok h g" using inv by (simp add: relay_inv_def)
  have new: "\<not> waits_for_space w rid g" if "chunks_of g w = Some (ChunkTry rid piece)" for rid piece
    using that sleeper [OF ok, of rid _ w] by (auto simp: waits_for_space_def chunks_of_def split: option.split)
  show ?thesis
  proof (cases "map_of (rg_chunks g) w")
    case (Some ph)
    then have ch: "chunks_of g w = Some ph" by (simp add: chunks_of_def)
    show ?thesis
    proof (cases ph)
      case (ChunkTry rid piece)
      show ?thesis
        using ChunkTry Some ok new ch entries_ok_section [OF inv ch, of rid piece]
        by (cases "the_entry g rid") (simp_all add: chunk_turn_def appends_def, simp add: chunk_section_def)
    next
      case (ChunkWait rid piece)
      show ?thesis
        using ChunkWait Some ok ch entries_ok_section [OF inv ch, of rid piece]
        by (cases "the_entry g rid") (simp_all add: chunk_turn_def appends_def, simp_all add: chunk_section_def)
    qed (use Some ok in \<open>simp add: chunk_turn_def appends_def\<close>)
  qed (use ok in \<open>simp add: chunk_turn_def appends_def\<close>)
qed

subsection \<open>Every event\<close>

lemma entries_ok_create:
  assumes inv: "relay_inv h g" and new: "the_entry g rid = None"
  shows "entries_ok h (relay_create now rid key grp g)"
proof -
  let ?e = "new_relay_entry now rid key grp"
  have ok: "entries_ok h g" using inv by (simp add: relay_inv_def)
  have f: "fresh_ok (pulls_of g) (h rid) rid" using ok new by (metis entries_ok_def here_ok_simps(2))
  have "local_ok (rg_buffer g) (pulls_of g) (chunks_of g) (h rid) rid ?e"
    using f by (auto simp: new_relay_entry_def local_ok_def stream_ok_def space_ok_def answers_ok_def answer_ok_def flight_ok_def
        asleep_ok_def fresh_ok_def ended_def buffered_def buffer_size_def)
  moreover have "en_rid ?e = rid" by (simp add: new_relay_entry_def)
  ultimately show ?thesis
    by (intro entries_ok_one [OF ok, of _ rid ?e])
      (use same_entries [of "relay_create now rid key grp g" "set_entry ?e g"] in \<open>auto simp: relay_create_def summary_fields\<close>)
qed

lemma entries_ok_live:
  assumes inv: "relay_inv h g" and e: "the_entry g rid = Some e" and f: "en_rid f = en_rid e"
    and l: "local_ok (rg_buffer g) (pulls_of g) (chunks_of g) (h rid) rid e \<Longrightarrow>
      local_ok (rg_buffer g) (pulls_of g) (chunks_of g) (h rid) rid f"
  shows "entries_ok h (set_entry f g)"
proof -
  have ok: "entries_ok h g" and id: "en_rid e = rid" using inv e by (auto simp: relay_inv_def ids_ok_def)
  show ?thesis by (rule entries_ok_set [OF ok]) (use l [OF entries_okD [OF ok e]] f id in simp)
qed

lemma alike_meta: "alike e (settle_meta r (e\<lparr>en_meta := m\<rparr>))" "alike e (settle_meta r e)"
  by (simp_all add: alike_def settle_meta_def)

lemma settle_meta_fields [simp]:
  "en_rid (settle_meta r e) = en_rid e" "en_keyId (settle_meta r e) = en_keyId e" "en_terminal (settle_meta r e) = en_terminal e"
  "en_producedSeq (settle_meta r e) = en_producedSeq e"
  by (simp_all add: settle_meta_def)

lemma entries_ok_alike:
  assumes "relay_inv h g" and "the_entry g rid = Some e" and "alike e f" and "en_rid f = en_rid e"
  shows "entries_ok h (set_entry f g)"
  by (rule entries_ok_live [OF assms(1,2,4)]) (rule local_ok_alike [OF _ assms(3)])

lemma entries_ok_calls:
  "entries_ok h (g\<lparr>rg_drains := ds\<rparr>) = entries_ok h g" "entries_ok h (g\<lparr>rg_expiring := xs\<rparr>) = entries_ok h g"
  "entries_ok h (set_cancel p x g) = entries_ok h g" "entries_ok h (g\<lparr>rg_timer := b\<rparr>) = entries_ok h g"
  by (simp_all add: entries_ok_def the_entry_def pulls_of_def chunks_of_def set_cancel_def)

lemma entries_ok_quiet:
  assumes "entries_ok h g"
  shows "entries_ok h (touchSummary now rid g)" "entries_ok h (snd (expireSummary now rid g))" "entries_ok h (stopSweepIfIdle g)"
    "entries_ok h (foldl (\<lambda>g rid. snd (expireSummary now rid g)) g rids)"
  by (rule entries_ok_same [OF assms]; simp add: summary_fields)+

lemma entries_ok_settled:
  assumes inv: "relay_inv h g" and e: "the_entry g rid = Some e"
  shows "entries_ok h (dropEntry rid (set_entry (settle_meta r e) g))"
proof (rule entries_ok_drop)
  show "entries_ok h (set_entry (settle_meta r e) g)"
    by (rule entries_ok_alike [OF inv e alike_meta(2)]) simp
  have "ids_ok g" using inv by (simp add: relay_inv_def)
  then show "ids_ok (set_entry (settle_meta r e) g)"
    by (rule ids_ok_set [of _ _ e]) (use inv e in \<open>auto simp: relay_inv_def ids_ok_def ended_def\<close>)
qed

lemma entries_ok_step:
  assumes inv: "relay_inv h g" and poss: "relay_possible ev g"
  shows "entries_ok (longer h (appends ev g)) (relay_step ev g)"
proof (cases "\<exists>w. ev = EvChunkTurn w")
  case True
  then show ?thesis using entries_ok_chunk_turn [OF inv] by auto
next
  case False
  have ok: "entries_ok h g" and ids: "ids_ok g" using inv by (simp_all add: relay_inv_def)
  have "appends ev g = None" using False by (simp add: appends_def split: relay_event.split)
  moreover have "entries_ok h (relay_step ev g)"
  proof (cases ev)
    case (EvCreate now r key grp)
    then show ?thesis using poss by (simp add: entries_ok_create [OF inv])
  next
    case (EvMeta r st ct hs)
    then show ?thesis
      using ok by (auto simp: sink_meta_def Let_def intro!: entries_ok_alike [OF inv _ alike_meta(1)] split: option.split)
  next
    case (EvChunk w r piece)
    then show ?thesis using poss entries_ok_new_chunk [OF ok] by simp
  next
    case (EvChunkTurn w)
    then show ?thesis using False by blast
  next
    case (EvEnd r)
    then show ?thesis using ok by (auto simp: sink_end_def intro!: entries_ok_live [OF inv] local_ok_eof split: option.split)
  next
    case (EvError now r code m)
    then show ?thesis
      using ok by (auto simp: sink_error_def intro!: entries_ok_settled [OF inv] entries_ok_terminal ids split: option.split)
  next
    case (EvAbortLocal r)
    then show ?thesis using ok by (auto simp: abortLocal_def intro!: entries_ok_settled [OF inv] split: option.split)
  next
    case (EvPull now p r s key ab)
    then show ?thesis using poss entries_ok_pull_start [OF inv] by simp
  next
    case (EvPullFirst now p)
    then show ?thesis using entries_ok_pull_first [OF inv] by simp
  next
    case (EvPullSecond now p ab)
    then show ?thesis using entries_ok_pull_second [OF inv] by simp
  next
    case (EvPullRelease p)
    then show ?thesis using entries_ok_pull_release [OF inv] by simp
  next
    case (EvCancel now p r ep key)
    obtain a g' where t: "expireSummary now r g = (a, g')" by fastforce
    then have "entries_ok h g'" using entries_ok_quiet(2) [OF ok, of now r] by simp
    then show ?thesis
      using EvCancel t ok by (auto simp: cancel_start_def Let_def entries_ok_calls intro: entries_ok_quiet split: option.split bool.split)
  next
    case (EvSweep now)
    then show ?thesis using ok by (auto simp: sweep_def Let_def entries_ok_calls intro!: entries_ok_quiet)
  qed (use ok ids in \<open>auto simp: cancel_section_def expire_section_def drain_start_def drain_finish_def drain_next_def Let_def
      closeAll_def relay_dispose_def entries_ok_calls intro!: entries_ok_terminal split: option.split cancel_phase.split bool.split list.split\<close>)
  ultimately show ?thesis by simp
qed

subsection \<open>Summaries\<close>

lemma summaries_ok_decide:
  assumes ok: "summaries_ok g" "ids_ok g"
  shows "summaries_ok (snd (decideReady now rid n g))"
proof (cases "\<exists>e. the_entry g rid = Some e \<and> \<not> ended e")
  case True
  then obtain e where e: "the_entry g rid = Some e" "\<not> ended e" by blast
  have id: "en_rid e = rid" using ok(2) e by (auto simp: ids_ok_def)
  have set: "summaries_ok (set_entry f g)" "ids_ok (set_entry f g)"
    if "en_rid f = rid" "en_keyId f = en_keyId e" "en_terminal f = en_terminal e" "en_producedSeq f = en_producedSeq e" for f
    using summaries_ok_set [OF ok(1), of f e] ids_ok_set [OF ok(2), of f e] that e by (simp_all add: ended_def)
  show ?thesis
    using e id by (auto simp: decideReady_def Let_def intro!: set summaries_ok_terminal split: list.split)
next
  case False
  show ?thesis
  proof (cases "the_entry g rid")
    case (Some e)
    then have "ended e" using False by blast
    then show ?thesis using ok Some by (auto simp: decideReady_def snd_map_prod)
  qed (use ok in \<open>simp add: decideReady_def\<close>)
qed

lemma summaries_ok_changed:
  assumes inv: "summaries_ok g" "ids_ok g" and e: "the_entry g rid = Some e" and f: "en_rid f = en_rid e" "en_keyId f = en_keyId e"
    "en_terminal f = en_terminal e" "en_producedSeq f = en_producedSeq e \<or> \<not> ended e"
  shows "summaries_ok (set_entry f g)"
proof -
  have "en_rid e = rid" using inv e by (auto simp: ids_ok_def)
  then show ?thesis using summaries_ok_set [OF inv(1), of f e] e f by simp
qed

lemma ids_ok_changed:
  assumes "ids_ok g" and e: "the_entry g rid = Some e" and f: "en_rid f = en_rid e" "en_terminal f = en_terminal e"
  shows "ids_ok (set_entry f g)"
proof -
  have "en_rid e = rid" using assms by (auto simp: ids_ok_def)
  then show ?thesis using ids_ok_set [OF assms(1), of f e] e f by (simp add: ended_def)
qed

lemma summaries_ok_step:
  assumes ok: "summaries_ok g" "ids_ok g" and poss: "relay_possible ev g"
  shows "summaries_ok (relay_step ev g)"
proof -
  note changed = summaries_ok_changed [OF ok] ids_ok_changed [OF ok(2)]
  show ?thesis
  proof (cases ev)
    case (EvCreate now r key grp)
    let ?e = "new_relay_entry now r key grp"
    have "the_entry g r = None" using poss EvCreate by simp
    then have "map_of (rg_summaries g) r \<noteq> Some x" for x using ok(1) by (auto simp: summaries_ok_def tells_def dest!: spec [of _ r])
    then have "map_of (rg_summaries g) r = None" by (cases "map_of (rg_summaries g) r") auto
    moreover have "en_rid ?e = r" by (simp add: new_relay_entry_def)
    ultimately have "summaries_ok (set_entry ?e g)" using ok(1) by (auto simp: summaries_ok_def)
    then show ?thesis using EvCreate by (simp add: relay_create_def)
  next
    case (EvMeta r st ct hs)
    then show ?thesis using ok by (auto simp: sink_meta_def Let_def intro!: changed split: option.split)
  next
    case (EvChunkTurn w)
    then show ?thesis
      using ok by (auto simp: chunk_turn_def chunk_section_def append_chunk_def intro!: changed split: option.split chunk_phase.split)
  next
    case (EvEnd r)
    then show ?thesis using ok by (auto simp: sink_end_def intro!: changed split: option.split)
  next
    case (EvError now r code m)
    then show ?thesis
      using ok by (auto simp: sink_error_def intro!: changed summaries_ok_terminal summaries_ok_drop split: option.split)
  next
    case (EvAbortLocal r)
    then show ?thesis using ok by (auto simp: abortLocal_def intro!: changed summaries_ok_drop split: option.split)
  next
    case (EvPull now p r s key ab)
    obtain a g' where t: "terminalReplay now r key g = (a, g')" by fastforce
    then have "summaries_ok g'" using summaries_ok_replay [OF ok(1), of now r key] by simp
    then show ?thesis using EvPull t ok by (auto simp: pull_start_def split: option.split)
  next
    case (EvPullFirst now p)
    show ?thesis
    proof (cases "\<exists>r s e. map_of (rg_pulls g) p = Some (PullQueued r s) \<and> the_entry g r = Some e")
      case True
      then obtain r s e where q: "map_of (rg_pulls g) p = Some (PullQueued r s)" "the_entry g r = Some e" by blast
      let ?g = "set_entry (e\<lparr>en_pullInFlight := True\<rparr>) g"
      obtain a g' where d: "decideReady now r s ?g = (a, g')" by fastforce
      have s: "summaries_ok ?g" "ids_ok ?g" by (auto intro!: changed q)
      have g': "summaries_ok g'" "ids_ok g'" using summaries_ok_decide [OF s, of now r s] ids_ok_decide [OF s(2), of now r s] d by simp_all
      have "summaries_ok (set_entry (e'\<lparr>en_pullWaiters := xs\<rparr>) g')" if "the_entry g' r = Some e'" for e' xs
        by (rule summaries_ok_changed [OF g' that]) simp_all
      then show ?thesis using q d g' ok EvPullFirst by (auto simp: pull_first_def split: option.split)
    qed (use EvPullFirst ok in \<open>auto simp: pull_first_def split: option.splits pull_phase.splits\<close>)
  next
    case (EvPullSecond now p ab)
    show ?thesis
    proof (cases "\<exists>r s. map_of (rg_pulls g) p = Some (PullHeld r s)")
      case True
      then obtain r s where q: "map_of (rg_pulls g) p = Some (PullHeld r s)" by blast
      obtain a g' where d: "decideReady now r s g = (a, g')" by fastforce
      have "summaries_ok g'" using summaries_ok_decide [OF ok, of now r s] d by simp
      then show ?thesis using q d ok EvPullSecond by (auto simp: pull_second_def split: option.split)
    qed (use EvPullSecond ok in \<open>auto simp: pull_second_def split: option.splits pull_phase.splits\<close>)
  next
    case (EvPullRelease p)
    then show ?thesis using ok by (auto simp: pull_release_def intro!: changed split: option.split pull_phase.split)
  next
    case (EvCancel now p r ep key)
    obtain a g' where t: "expireSummary now r g = (a, g')" by fastforce
    then have "summaries_ok g'" using summaries_ok_expire [OF ok(1), of now r] by simp
    then show ?thesis using EvCancel t ok by (auto simp: cancel_start_def Let_def split: option.split bool.split)
  next
    case (EvSweep now)
    then show ?thesis using ok by (auto simp: sweep_def Let_def intro!: summaries_ok_sweep)
  qed (use ok in \<open>auto simp: cancel_section_def expire_section_def drain_start_def drain_finish_def drain_next_def Let_def
      closeAll_def relay_dispose_def intro!: summaries_ok_terminal split: option.split cancel_phase.split bool.split list.split\<close>)
qed

subsection \<open>The record of the upstream\<close>

definition up_ok :: "upstream \<Rightarrow> relay \<Rightarrow> bool" where
  "up_ok u g \<longleftrightarrow>
     (\<forall>w rid piece. map_of (rg_chunks g) w = Some (ChunkTry rid piece) \<or> map_of (rg_chunks g) w = Some (ChunkWait rid piece) \<longrightarrow>
        up_writes u w = Some (rid, piece)) \<and>
     (\<forall>rid \<in> up_ended u. the_entry g rid \<noteq> None) \<and>
     (\<forall>rid e. the_entry g rid = Some e \<longrightarrow> (en_eof e \<longrightarrow> rid \<in> up_ended u) \<and> (rid \<in> up_ended u \<and> \<not> ended e \<longrightarrow> en_eof e))"

text \<open>A step that ends no stream and begins no response and no write.\<close>

definition calm :: "relay \<Rightarrow> relay \<Rightarrow> bool" where
  "calm g g' \<longleftrightarrow> rg_chunks g' = rg_chunks g \<and>
     (\<forall>rid. case the_entry g rid of
        None \<Rightarrow> the_entry g' rid = None
      | Some e \<Rightarrow> \<exists>e'. the_entry g' rid = Some e' \<and> en_eof e' = en_eof e \<and> (ended e \<longrightarrow> ended e'))"

lemma calmD:
  assumes "calm g g'"
  shows "rg_chunks g' = rg_chunks g" "the_entry g rid = None \<Longrightarrow> the_entry g' rid = None"
    "the_entry g rid = Some e \<Longrightarrow> \<exists>e'. the_entry g' rid = Some e' \<and> en_eof e' = en_eof e \<and> (ended e \<longrightarrow> ended e')"
  using assms by (auto simp: calm_def dest: spec [of _ rid])

lemma calm_core: "rg_chunks g' = rg_chunks g \<Longrightarrow> rg_entries g' = rg_entries g \<Longrightarrow> calm g g'"
  by (simp add: calm_def the_entry_def split: option.split)

lemma calm_refl [intro, simp]: "calm g g"
  by (rule calm_core) simp_all

lemma calm_trans [trans]:
  assumes "calm g g'" and "calm g' g''"
  shows "calm g g''"
  unfolding calm_def
proof (intro conjI allI)
  show "rg_chunks g'' = rg_chunks g" using assms calmD(1) by metis
  fix rid
  show "case the_entry g rid of None \<Rightarrow> the_entry g'' rid = None
    | Some e \<Rightarrow> \<exists>e'. the_entry g'' rid = Some e' \<and> en_eof e' = en_eof e \<and> (ended e \<longrightarrow> ended e')"
    using calmD(2,3) [OF assms(1), of rid] calmD(2,3) [OF assms(2), of rid] by (fastforce split: option.split)
qed

lemma calm_set:
  "the_entry g (en_rid f) = Some e \<Longrightarrow> en_eof f = en_eof e \<Longrightarrow> (ended e \<longrightarrow> ended f) \<Longrightarrow> calm g (set_entry f g)"
  by (auto simp: calm_def split: option.split)

lemma calm_leave: "calm g (leave_active rid g)"
  by (rule calm_core) (simp_all add: leave_active_def summary_fields)

lemma calm_ends:
  assumes "ids_ok g"
  shows "calm g (applyTerminal now rid x g)" "calm g (dropEntry rid g)"
proof -
  have set: "calm g (set_entry (close_entry k r e) g)" if "the_entry g rid = Some e" for k r e
  proof (rule calm_set)
    show "the_entry g (en_rid (close_entry k r e)) = Some e" using assms that by (simp add: ids_ok_def)
  qed (simp_all add: ended_def)
  have put: "calm h (putSummary now rid b k h)" for b k h by (rule calm_core) (simp_all add: summary_fields)
  show "calm g (applyTerminal now rid x g)"
    using set calm_trans [OF _ calm_trans [OF put calm_leave]] by (simp add: applyTerminal_def split: option.split)
  show "calm g (dropEntry rid g)"
    using set calm_trans [OF _ calm_leave] by (simp add: dropEntry_def split: option.split)
qed

lemma calm_set_here:
  assumes "ids_ok g" and "the_entry g rid = Some e" and "en_rid f = en_rid e" and "en_eof f = en_eof e" and "en_terminal f = en_terminal e"
  shows "calm g (set_entry f g)"
  using assms by (intro calm_set [of _ _ e]) (auto simp: ids_ok_def ended_def)

lemma calm_end_here:
  assumes ok: "ids_ok g" and e: "the_entry g rid = Some e" and f: "en_rid f = en_rid e" "en_eof f = en_eof e" "en_terminal f = en_terminal e"
  shows "calm g (applyTerminal now r x (set_entry f g))" "calm g (dropEntry r (set_entry f g))"
  using calm_trans [OF calm_set_here [OF ok e f] calm_ends(1)] calm_trans [OF calm_set_here [OF ok e f] calm_ends(2)]
    ids_ok_changed [OF ok e f(1,3)] by blast+

lemma calm_decide:
  assumes "ids_ok g"
  shows "calm g (snd (decideReady now rid n g))"
proof (cases "the_entry g rid")
  case (Some e)
  have "calm g (snd (terminalReplay now rid k g))" for k by (rule calm_core) (simp_all add: replay_fields)
  then show ?thesis
    using Some by (auto simp: decideReady_def Let_def snd_map_prod intro!: calm_end_here [OF assms Some] calm_set_here [OF assms Some] split: list.split)
qed (simp add: decideReady_def)

lemma calm_pull: "calm g g' \<Longrightarrow> calm g (set_pull p ph g')"
  using calm_trans [OF _ calm_core [of "set_pull p ph g'" g']] by (simp add: set_pull_def)

lemma calm_cancel: "calm g g' \<Longrightarrow> calm g (set_cancel p ph g')"
  using calm_trans [OF _ calm_core [of "set_cancel p ph g'" g']] by (simp add: set_cancel_def)

lemma calm_step:
  assumes ok: "ids_ok g"
    and "\<And>now rid key grp. ev \<noteq> EvCreate now rid key grp" "\<And>w rid piece. ev \<noteq> EvChunk w rid piece" "\<And>w. ev \<noteq> EvChunkTurn w" "\<And>rid. ev \<noteq> EvEnd rid"
  shows "calm g (relay_step ev g)"
proof (cases ev)
  case (EvMeta r st ct hs)
  then show ?thesis by (auto simp: sink_meta_def Let_def settle_meta_def intro!: calm_set_here [OF ok] split: option.split)
next
  case (EvError now r code m)
  then show ?thesis by (auto simp: sink_error_def settle_meta_def intro!: calm_ends [OF ok] calm_end_here [OF ok] split: option.split)
next
  case (EvAbortLocal r)
  then show ?thesis by (auto simp: abortLocal_def settle_meta_def intro!: calm_end_here [OF ok] split: option.split)
next
  case (EvPull now p r s key ab)
  obtain a g' where t: "terminalReplay now r key g = (a, g')" by fastforce
  then have "rg_entries g' = rg_entries g" "rg_chunks g' = rg_chunks g" using replay_fields [of now r key g] by simp_all
  then have "calm g g'" "calm g (g'\<lparr>rg_replaying := xs\<rparr>)" for xs by (simp_all add: calm_core)
  then show ?thesis using EvPull t by (simp add: pull_start_def calm_pull split: option.split)
next
  case (EvPullFirst now p)
  show ?thesis
  proof (cases "\<exists>r s e. map_of (rg_pulls g) p = Some (PullQueued r s) \<and> the_entry g r = Some e")
    case True
    then obtain r s e where q: "map_of (rg_pulls g) p = Some (PullQueued r s)" "the_entry g r = Some e" by blast
    let ?g = "set_entry (e\<lparr>en_pullInFlight := True\<rparr>) g"
    obtain a g' where d: "decideReady now r s ?g = (a, g')" by fastforce
    have s: "ids_ok ?g" by (rule ids_ok_changed [OF ok q(2)]) simp_all
    have c: "calm g ?g" by (rule calm_set_here [OF ok q(2)]) simp_all
    then have g': "calm g g'" "ids_ok g'"
      using calm_trans [OF c calm_decide [OF s, of now r s]] ids_ok_decide [OF s, of now r s] d by simp_all
    have "calm g (set_entry (e'\<lparr>en_pullWaiters := xs\<rparr>) g')" if "the_entry g' r = Some e'" for e' xs
      by (rule calm_trans [OF g'(1)]) (rule calm_set_here [OF g'(2) that]; simp)
    then show ?thesis using q d g' EvPullFirst by (auto simp: pull_first_def intro!: calm_pull split: option.split)
  qed (use EvPullFirst in \<open>auto simp: pull_first_def split: option.splits pull_phase.splits\<close>)
next
  case (EvPullSecond now p ab)
  have "calm g g'" if "decideReady now r s g = (a, g')" for r s a g' using calm_decide [OF ok, of now r s] that by simp
  then show ?thesis
    using EvPullSecond by (auto simp: pull_second_def intro!: calm_pull split: option.split pull_phase.split prod.split)
next
  case (EvPullRelease p)
  have "calm g (g\<lparr>rg_replaying := xs\<rparr>)" for xs by (rule calm_core) simp_all
  then show ?thesis
    using EvPullRelease by (auto simp: pull_release_def intro!: calm_pull calm_set_here [OF ok] split: option.split pull_phase.split)
next
  case (EvCancel now p r ep key)
  obtain a g' where t: "expireSummary now r g = (a, g')" by fastforce
  then have f: "rg_entries g' = rg_entries g" "rg_chunks g' = rg_chunks g" using expire_fields [of now r g] by simp_all
  then have "calm g g'" "calm g (touchSummary now r g')" by (simp_all add: calm_core touch_fields)
  then show ?thesis using EvCancel t by (simp add: cancel_start_def Let_def calm_cancel split: option.split bool.split)
next
  case (EvCancelSection now p)
  then show ?thesis by (auto simp: cancel_section_def intro!: calm_cancel calm_ends [OF ok] split: option.split cancel_phase.split)
next
  case (EvSweep now)
  then show ?thesis by (auto simp: sweep_def Let_def summary_fields intro!: calm_core)
next
  case (EvExpire now r)
  have "calm g (g\<lparr>rg_expiring := xs\<rparr>)" for xs by (rule calm_core) simp_all
  then have "calm g (applyTerminal now r y (g\<lparr>rg_expiring := xs\<rparr>))" for y xs
    by (rule calm_trans) (rule calm_ends, simp add: ok)
  then show ?thesis using EvExpire by (simp add: expire_section_def)
next
  case (EvDrainNext now d)
  have "calm g ((applyTerminal now r x g)\<lparr>rg_drains := ds\<rparr>)" for r x ds
    by (rule calm_trans [OF calm_ends(1) [OF ok]]) (rule calm_core; simp)
  then show ?thesis using EvDrainNext by (auto simp: drain_next_def Let_def split: option.split bool.split list.split)
qed (use assms(2-) in \<open>auto simp: drain_start_def drain_finish_def closeAll_def relay_dispose_def Let_def intro!: calm_core split: option.split\<close>)

lemma up_okD:
  assumes "up_ok u g"
  shows "map_of (rg_chunks g) w = Some (ChunkTry rid piece) \<Longrightarrow> up_writes u w = Some (rid, piece)"
    "map_of (rg_chunks g) w = Some (ChunkWait rid piece) \<Longrightarrow> up_writes u w = Some (rid, piece)"
    "the_entry g rid = None \<Longrightarrow> rid \<notin> up_ended u"
    "the_entry g rid = Some e \<Longrightarrow> en_eof e \<Longrightarrow> rid \<in> up_ended u"
    "the_entry g rid = Some e \<Longrightarrow> rid \<in> up_ended u \<Longrightarrow> \<not> ended e \<Longrightarrow> en_eof e"
proof -
  note a = assms [unfolded up_ok_def]
  show "map_of (rg_chunks g) w = Some (ChunkTry rid piece) \<Longrightarrow> up_writes u w = Some (rid, piece)"
    "map_of (rg_chunks g) w = Some (ChunkWait rid piece) \<Longrightarrow> up_writes u w = Some (rid, piece)"
    using a [THEN conjunct1, THEN spec [of _ w], THEN spec [of _ rid], THEN spec [of _ piece]] by simp_all
  show "the_entry g rid = None \<Longrightarrow> rid \<notin> up_ended u" using a [THEN conjunct2, THEN conjunct1] by metis
  show "the_entry g rid = Some e \<Longrightarrow> en_eof e \<Longrightarrow> rid \<in> up_ended u"
    "the_entry g rid = Some e \<Longrightarrow> rid \<in> up_ended u \<Longrightarrow> \<not> ended e \<Longrightarrow> en_eof e"
    using a [THEN conjunct2, THEN conjunct2, THEN spec [of _ rid], THEN spec [of _ e]] by simp_all
qed

lemma up_okI:
  assumes "\<And>w rid piece. map_of (rg_chunks g) w = Some (ChunkTry rid piece) \<Longrightarrow> up_writes u w = Some (rid, piece)"
    and "\<And>w rid piece. map_of (rg_chunks g) w = Some (ChunkWait rid piece) \<Longrightarrow> up_writes u w = Some (rid, piece)"
    and "\<And>rid. the_entry g rid = None \<Longrightarrow> rid \<notin> up_ended u"
    and "\<And>rid e. the_entry g rid = Some e \<Longrightarrow> en_eof e \<Longrightarrow> rid \<in> up_ended u"
    and "\<And>rid e. the_entry g rid = Some e \<Longrightarrow> rid \<in> up_ended u \<Longrightarrow> \<not> ended e \<Longrightarrow> en_eof e"
  shows "up_ok u g"
proof -
  have "\<forall>w rid piece. map_of (rg_chunks g) w = Some (ChunkTry rid piece) \<or> map_of (rg_chunks g) w = Some (ChunkWait rid piece) \<longrightarrow>
        up_writes u w = Some (rid, piece)" using assms(1,2) by blast
  moreover have "\<forall>rid \<in> up_ended u. the_entry g rid \<noteq> None" using assms(3) by blast
  moreover have "\<forall>rid e. the_entry g rid = Some e \<longrightarrow> (en_eof e \<longrightarrow> rid \<in> up_ended u) \<and> (rid \<in> up_ended u \<and> \<not> ended e \<longrightarrow> en_eof e)"
    using assms(4,5) by blast
  ultimately show ?thesis unfolding up_ok_def by (intro conjI)
qed

lemma up_ok_calm:
  assumes up: "up_ok u g" and c: "calm g g'"
  shows "up_ok u g'"
proof (rule up_okI)
  have old: "\<exists>e. the_entry g rid = Some e \<and> en_eof e' = en_eof e \<and> (ended e \<longrightarrow> ended e')" if "the_entry g' rid = Some e'" for rid e'
    using calmD(2,3) [OF c, of rid] that by (cases "the_entry g rid") fastforce+
  show "up_writes u w = Some (rid, piece)" if "map_of (rg_chunks g') w = Some (ChunkTry rid piece)" for w rid piece
    using up_okD(1) [OF up] calmD(1) [OF c] that by simp
  show "up_writes u w = Some (rid, piece)" if "map_of (rg_chunks g') w = Some (ChunkWait rid piece)" for w rid piece
    using up_okD(2) [OF up] calmD(1) [OF c] that by simp
  show "rid \<notin> up_ended u" if "the_entry g' rid = None" for rid
    using up_okD(3) [OF up, of rid] calmD(3) [OF c, of rid] that by (cases "the_entry g rid") fastforce+
  show "rid \<in> up_ended u" if "the_entry g' rid = Some e'" "en_eof e'" for rid e'
    using old [OF that(1)] up_okD(4) [OF up, of rid] that(2) by blast
  show "en_eof e'" if "the_entry g' rid = Some e'" "rid \<in> up_ended u" "\<not> ended e'" for rid e'
    using old [OF that(1)] up_okD(5) [OF up, of rid] that(2,3) by blast
qed

lemma up_ok_one:
  assumes up: "up_ok u g" and c: "rg_chunks g' = rg_chunks g" and en: "\<And>x. the_entry g' x = (if x = r then Some e else the_entry g x)"
    and e: "en_eof e \<longleftrightarrow> r \<in> up_ended u"
  shows "up_ok u g'"
proof (rule up_okI)
  show "up_writes u w = Some (rid, piece)" if "map_of (rg_chunks g') w = Some (ChunkTry rid piece)" for w rid piece
    using up_okD(1) [OF up] c that by simp
  show "up_writes u w = Some (rid, piece)" if "map_of (rg_chunks g') w = Some (ChunkWait rid piece)" for w rid piece
    using up_okD(2) [OF up] c that by simp
  show "rid \<notin> up_ended u" if "the_entry g' rid = None" for rid
    using up_okD(3) [OF up, of rid] en [of rid] that by (simp split: if_splits)
  show "rid \<in> up_ended u" if "the_entry g' rid = Some f" "en_eof f" for rid f
    using up_okD(4) [OF up, of rid f] en [of rid] e that by (cases "rid = r") simp_all
  show "en_eof f" if "the_entry g' rid = Some f" "rid \<in> up_ended u" "\<not> ended f" for rid f
    using up_okD(5) [OF up, of rid f] en [of rid] e that by (cases "rid = r") simp_all
qed

text \<open>The calls and the ended streams of the record, changed along with the relay.\<close>

lemma up_ok_chunks:
  assumes up: "up_ok u g" and "\<And>rid piece. x = ChunkTry rid piece \<or> x = ChunkWait rid piece \<Longrightarrow> v w = Some (rid, piece)"
    and "\<And>w'. w' \<noteq> w \<Longrightarrow> v w' = up_writes u w'"
  shows "up_ok (u\<lparr>up_writes := v\<rparr>) (g\<lparr>rg_chunks := aput w x (rg_chunks g)\<rparr>)"
proof (rule up_okI)
  have en: "the_entry (g\<lparr>rg_chunks := cs\<rparr>) rid = the_entry g rid" for cs rid by (simp add: the_entry_def)
  let ?g = "g\<lparr>rg_chunks := aput w x (rg_chunks g)\<rparr>"
  show "up_writes (u\<lparr>up_writes := v\<rparr>) y = Some (rid, piece)" if "map_of (rg_chunks ?g) y = Some (ChunkTry rid piece)" for y rid piece
    using that assms(2,3) up_okD(1) [OF up, of y] by (cases "y = w") auto
  show "up_writes (u\<lparr>up_writes := v\<rparr>) y = Some (rid, piece)" if "map_of (rg_chunks ?g) y = Some (ChunkWait rid piece)" for y rid piece
    using that assms(2,3) up_okD(2) [OF up, of y] by (cases "y = w") auto
  show "rid \<notin> up_ended (u\<lparr>up_writes := v\<rparr>)" if "the_entry ?g rid = None" for rid
    using that up_okD(3) [OF up, of rid] by (simp add: en)
  show "rid \<in> up_ended (u\<lparr>up_writes := v\<rparr>)" if "the_entry ?g rid = Some f" "en_eof f" for rid f
    using that up_okD(4) [OF up, of rid f] by (simp add: en)
  show "en_eof f" if "the_entry ?g rid = Some f" "rid \<in> up_ended (u\<lparr>up_writes := v\<rparr>)" "\<not> ended f" for rid f
    using that up_okD(5) [OF up, of rid f] by (simp add: en)
qed

lemma up_ok_ended:
  assumes up: "up_ok u g" and c: "rg_chunks g' = rg_chunks g" and en: "\<And>x. the_entry g' x = (if x = r then Some f else the_entry g x)"
    and f: "\<not> ended f \<longrightarrow> en_eof f"
  shows "up_ok (u\<lparr>up_ended := insert r (up_ended u)\<rparr>) g'"
proof (rule up_okI)
  let ?u = "u\<lparr>up_ended := insert r (up_ended u)\<rparr>"
  show "rid \<notin> up_ended ?u" if "the_entry g' rid = None" for rid
    using that en [of rid] up_okD(3) [OF up, of rid] by (cases "rid = r") simp_all
  show "rid \<in> up_ended ?u" if "the_entry g' rid = Some x" "en_eof x" for rid x
    using that en [of rid] up_okD(4) [OF up, of rid x] by (cases "rid = r") simp_all
  show "en_eof x" if "the_entry g' rid = Some x" "rid \<in> up_ended ?u" "\<not> ended x" for rid x
    using that en [of rid] f up_okD(5) [OF up, of rid x] by (cases "rid = r") simp_all
qed (use up_okD(1,2) [OF up] c in simp_all)

lemma up_ok_step:
  assumes up: "up_ok u g" and ids: "ids_ok g" and poss: "relay_possible ev g"
  shows "up_ok (up_next ev g u) (relay_step ev g)"
proof (cases ev)
  case (EvCreate now r key grp)
  let ?g = "set_entry (new_relay_entry now r key grp) g"
  have "r \<notin> up_ended u" using poss EvCreate up_okD(3) [OF up] by simp
  then have "up_ok u ?g" using up_ok_one [OF up, of ?g r "new_relay_entry now r key grp"] by (simp add: new_relay_entry_def)
  moreover have "calm ?g (relay_step ev g)" unfolding EvCreate
    by (rule calm_core) (simp_all add: relay_create_def summary_fields set_entry_def)
  ultimately have "up_ok u (relay_step ev g)" by (rule up_ok_calm)
  then show ?thesis using EvCreate by (simp add: up_next_def)
next
  case (EvChunk w r piece)
  then show ?thesis using up_ok_chunks [OF up, of "ChunkTry r piece" "(up_writes u)(w \<mapsto> (r, piece))" w] by (simp add: up_next_def)
next
  case (EvEnd r)
  show ?thesis
  proof (cases "the_entry g r")
    case (Some e)
    have id: "en_rid e = r" using ids Some by (auto simp: ids_ok_def)
    have "up_ok (u\<lparr>up_ended := insert r (up_ended u)\<rparr>) g" if "ended e"
      by (rule up_ok_ended [OF up, of g r e]) (use Some id that in auto)
    moreover have "up_ok (u\<lparr>up_ended := insert r (up_ended u)\<rparr>) (set_entry (e\<lparr>en_eof := True, en_pullWaiters := [], en_spaceWaiters := []\<rparr>) g)"
      by (rule up_ok_ended [OF up]) (use Some id in auto)
    ultimately show ?thesis using EvEnd Some by (simp add: up_next_def sink_end_def)
  qed (use EvEnd up in \<open>simp add: up_next_def sink_end_def\<close>)
next
  case (EvChunkTurn w)
  have "up_ok u (chunk_section w rid piece g)" if w: "up_writes u w = Some (rid, piece)" for rid piece
  proof (cases "the_entry g rid")
    case (Some e)
    have put: "up_ok u (h\<lparr>rg_chunks := aput w x (rg_chunks h)\<rparr>)" if "up_ok u h" "x = ChunkDone \<or> x = ChunkWait rid piece" for h x
      using up_ok_chunks [OF that(1), of x "up_writes u" w] that(2) w by auto
    have "up_ok u (set_entry (append_chunk piece e) g)" "up_ok u (set_entry (e\<lparr>en_spaceWaiters := xs\<rparr>) g)" for xs
      by (rule up_ok_calm [OF up calm_set_here [OF ids Some]]; simp add: append_chunk_def)+
    then show ?thesis using Some put [OF up, of ChunkDone] put [of "set_entry (append_chunk piece e) g" ChunkDone]
      put [of "set_entry (e\<lparr>en_spaceWaiters := en_spaceWaiters e @ [w]\<rparr>) g" "ChunkWait rid piece"] by (simp add: chunk_section_def)
  qed (use up in \<open>simp add: chunk_section_def\<close>)
  then have "up_ok u (chunk_turn w g)" using up up_okD(1,2) [OF up, of w] by (auto simp: chunk_turn_def split: option.split chunk_phase.split)
  moreover have "up_ok (u\<lparr>up_stream := h\<rparr>) g' = up_ok u g'" for h g' by (simp add: up_ok_def)
  ultimately show ?thesis using EvChunkTurn by (simp add: up_next_def split: option.split)
qed (simp add: up_next_def, rule up_ok_calm [OF up], use calm_step [OF ids, of ev] in simp)+

text \<open>What the state of the relay counts as appended is what the upstream's own calls say.\<close>

lemma up_stream_next:
  assumes up: "up_ok u g"
  shows "up_stream (up_next ev g u) = longer (up_stream u) (appends ev g)"
proof (cases ev)
  case (EvChunkTurn w)
  show ?thesis
  proof (cases "map_of (rg_chunks g) w")
    case None
    then show ?thesis using EvChunkTurn by (simp add: up_next_def appends_def completes_def chunk_turn_def split: option.split)
  next
    case (Some ph)
    have op: "open_response u g rid \<longleftrightarrow> (case the_entry g rid of Some e \<Rightarrow> \<not> ended e \<and> \<not> en_eof e | None \<Rightarrow> False)" for rid
    proof (cases "the_entry g rid")
      case (Some e)
      have "rid \<in> up_ended u \<longleftrightarrow> en_eof e" if "\<not> ended e" using up_okD(4,5) [OF up Some] that by blast
      then show ?thesis using Some by (auto simp: open_response_def)
    qed (simp add: open_response_def)
    have l: "longer h (Some (rid, piece)) = h(rid := h rid @ [piece])" for h :: "string \<Rightarrow> bytes list" and rid piece
      by (rule ext) (simp add: longer_def)
    show ?thesis
    proof (cases ph)
      case (ChunkTry rid piece)
      then have "up_writes u w = Some (rid, piece)" using up_okD(1) [OF up] Some by simp
      then show ?thesis using EvChunkTurn Some ChunkTry
        by (cases "the_entry g rid") (auto simp: up_next_def appends_def completes_def chunk_turn_def chunk_section_def op l)
    next
      case (ChunkWait rid piece)
      then have "up_writes u w = Some (rid, piece)" using up_okD(2) [OF up] Some by simp
      then show ?thesis using EvChunkTurn Some ChunkWait
        by (cases "the_entry g rid") (auto simp: up_next_def appends_def completes_def chunk_turn_def chunk_section_def op l)
    qed (use EvChunkTurn Some in \<open>simp add: up_next_def appends_def completes_def split: option.split\<close>)
  qed
qed (simp_all add: up_next_def appends_def)

subsection \<open>The invariant\<close>

lemma relay_trace_inv: "relay_trace u g \<Longrightarrow> relay_inv (up_stream u) g \<and> up_ok u g"
proof (induction rule: relay_trace.induct)
  case (trace_init epoch buffer idle life)
  show ?case
    by (simp add: createRelayRegistry_def relay_inv_def ids_ok_def summaries_ok_def entries_ok_def the_entry_def fresh_ok_def pulls_of_def
        busy_def given_def reply_def no_upstream_def up_ok_def)
next
  case (trace_next u g ev)
  then have inv: "relay_inv (up_stream u) g" "up_ok u g" by simp_all
  then have "ids_ok g" "summaries_ok g" by (simp_all add: relay_inv_def)
  then show ?case
    using trace_next.hyps(2) entries_ok_step [OF inv(1) trace_next.hyps(2)] ids_ok_step summaries_ok_step up_ok_step [OF inv(2)]
    by (simp add: relay_inv_def up_stream_next [OF inv(2)])
qed

lemma trace_reachable: "relay_trace u g \<Longrightarrow> relay_reachable g"
  by (induction rule: relay_trace.induct) (auto intro: relay_reachable.intros)

lemma reachable_trace: "relay_reachable g \<Longrightarrow> \<exists>u. relay_trace u g"
  by (induction rule: relay_reachable.induct) (auto intro: relay_trace.intros)

end
