(* ===== verification/RelayDrain.thy ===== *)
theory RelayDrain
  imports RelayTrace
begin

text \<open>
  Draining the response relay (opendweb-ext-ai, provider/relay.mjs): what a drain, a close and a disposal have
  done to their targets.
\<close>

text \<open>Every target of a drain that is not left to do has given back its slot.\<close>

definition drains_ok :: "relay \<Rightarrow> bool" where
  "drains_ok g \<longleftrightarrow>
     (\<forall>d c. map_of (rg_drains g) d = Some c \<longrightarrow>
        set (dr_left c) \<subseteq> set (dr_targets c) \<and> (\<forall>rid \<in> set (dr_targets c). the_entry g rid \<noteq> None) \<and>
        (\<forall>rid \<in> set (dr_targets c). rid \<in> set (dr_left c) \<or> rid \<in> set (rg_released g)))"

definition carries :: "relay \<Rightarrow> relay \<Rightarrow> bool" where
  "carries g g' \<longleftrightarrow> rg_drains g' = rg_drains g \<and> set (rg_released g) \<subseteq> set (rg_released g') \<and> (\<forall>rid. the_entry g rid \<noteq> None \<longrightarrow> the_entry g' rid \<noteq> None)"

lemma carries_refl [intro, simp]: "carries g g"
  by (simp add: carries_def)

lemma carries_trans [trans]: "carries g g' \<Longrightarrow> carries g' g'' \<Longrightarrow> carries g g''"
  by (auto simp: carries_def)

lemma carries_core: "rg_released g' = rg_released g \<Longrightarrow> rg_entries g' = rg_entries g \<Longrightarrow> rg_drains g' = rg_drains g \<Longrightarrow> carries g g'"
  by (simp add: carries_def the_entry_def)

lemma carries_set: "carries g (set_entry e g)"
  by (simp add: carries_def set_entry_def the_entry_def)

lemma carries_leave: "carries g (leave_active rid g)"
  by (auto simp: carries_def leave_active_def summary_fields the_entry_def)

lemma carries_ends: "carries g (applyTerminal now rid x g)" "carries g (dropEntry rid g)"
proof -
  have "carries g (leave_active rid (putSummary now rid b k (set_entry e g)))" for b k e
    using carries_set carries_core [of "putSummary now rid b k (set_entry e g)" "set_entry e g"] carries_leave
    by (metis carries_trans put_fields(1,6,7))
  then show "carries g (applyTerminal now rid x g)" by (simp add: applyTerminal_def split: option.split)
  have "carries g (leave_active rid (set_entry e g))" for e using carries_set carries_leave by (rule carries_trans)
  then show "carries g (dropEntry rid g)" by (simp add: dropEntry_def split: option.split)
qed

lemma carries_decide: "carries g (snd (decideReady now rid n g))"
proof (cases "the_entry g rid")
  case (Some e)
  have "carries g (snd (terminalReplay now rid k g))" for k by (rule carries_core) (simp_all add: replay_fields)
  moreover have "carries g (applyTerminal now rid x (set_entry f g))" for x f using carries_set carries_ends(1) by (rule carries_trans)
  ultimately show ?thesis
    using Some carries_set by (auto simp: decideReady_def Let_def snd_map_prod split: list.split)
qed (simp add: decideReady_def)


lemma carries_pull: "carries g g' \<Longrightarrow> carries g (set_pull p ph g')"
  by (simp add: carries_def set_pull_def the_entry_def)

lemma carries_step:
  assumes "\<And>d keys. ev \<noteq> EvDrain d keys" "\<And>d. ev \<noteq> EvDrainFinish d" "\<And>now d. ev \<noteq> EvDrainNext now d"
    "\<And>d code. ev \<noteq> EvCloseAll d code" "\<And>d. ev \<noteq> EvDispose d"
  shows "carries g (relay_step ev g)"
proof (cases ev)
  case (EvCreate now r key grp)
  let ?g = "(set_entry (new_relay_entry now r key grp) g)\<lparr>rg_active := rg_active g @ [r]\<rparr>"
  have "carries g ?g" by (simp add: carries_def set_entry_def the_entry_def)
  moreover have "carries ?g (startSweepIfNeeded ?g)" by (rule carries_core) (simp_all add: summary_fields)
  ultimately show ?thesis unfolding EvCreate relay_step.simps relay_create_def by (rule carries_trans)
next
  case (EvMeta r st ct hs)
  then show ?thesis by (simp add: sink_meta_def Let_def carries_set split: option.split)
next
  case (EvChunkTurn w)
  have "carries g ((set_entry e g)\<lparr>rg_chunks := cs\<rparr>)" "carries g (g\<lparr>rg_chunks := cs\<rparr>)" for e cs
    by (simp_all add: carries_def set_entry_def the_entry_def)
  then show ?thesis using EvChunkTurn by (simp add: chunk_turn_def chunk_section_def split: option.split chunk_phase.split)
next
  case (EvEnd r)
  then show ?thesis by (simp add: sink_end_def carries_set split: option.split)
next
  case (EvError now r code m)
  then show ?thesis by (simp add: sink_error_def carries_ends carries_trans [OF carries_set carries_ends(2)] split: option.split)
next
  case (EvAbortLocal r)
  then show ?thesis by (simp add: abortLocal_def carries_trans [OF carries_set carries_ends(2)] split: option.split)
next
  case (EvPull now p r s key ab)
  obtain a g' where t: "terminalReplay now r key g = (a, g')" by fastforce
  then have "rg_entries g' = rg_entries g" "rg_released g' = rg_released g" "rg_drains g' = rg_drains g"
    using replay_fields [of now r key g] by simp_all
  then have "carries g g'" "carries g (g'\<lparr>rg_replaying := xs\<rparr>)" for xs by (simp_all add: carries_def the_entry_def)
  then show ?thesis using EvPull t by (simp add: pull_start_def carries_pull split: option.split)
next
  case (EvPullFirst now p)
  have "carries g g'" if "decideReady now r s (set_entry e g) = (a, g')" for r s e a g'
    using carries_trans [OF carries_set carries_decide [of "set_entry e g" now r s]] that by simp
  then show ?thesis
    using EvPullFirst by (auto simp: pull_first_def intro!: carries_pull intro: carries_trans [OF _ carries_set] split: option.split pull_phase.split prod.split)
next
  case (EvPullSecond now p ab)
  have "carries g g'" if "decideReady now r s g = (a, g')" for r s a g' using carries_decide [of g now r s] that by simp
  then show ?thesis
    using EvPullSecond by (auto simp: pull_second_def intro!: carries_pull split: option.split pull_phase.split prod.split)
next
  case (EvPullRelease p)
  have "carries g (g\<lparr>rg_replaying := xs\<rparr>)" for xs by (rule carries_core) simp_all
  then show ?thesis using EvPullRelease by (simp add: pull_release_def carries_pull carries_set split: option.split pull_phase.split)
next
  case (EvCancel now p r ep key)
  obtain a g' where t: "expireSummary now r g = (a, g')" by fastforce
  then have f: "rg_entries g' = rg_entries g" "rg_released g' = rg_released g" "rg_drains g' = rg_drains g"
    using expire_fields [of now r g] by simp_all
  have "carries g (set_cancel p x g)" "carries g (set_cancel p x g')" "carries g (set_cancel p x (touchSummary now r g'))" for x
    using f by (simp_all add: carries_def set_cancel_def the_entry_def touch_fields)
  then show ?thesis using EvCancel t by (simp add: cancel_start_def Let_def split: option.split bool.split)
next
  case (EvCancelSection now p)
  have "carries g' (set_cancel p x g')" for x g' by (rule carries_core) (simp_all add: set_cancel_def)
  then have "carries g (set_cancel p x (applyTerminal now r y g))" for x r y by (rule carries_trans [OF carries_ends(1)])
  then show ?thesis using EvCancelSection by (simp add: cancel_section_def split: option.split cancel_phase.split)
next
  case (EvSweep now)
  then show ?thesis by (auto simp: sweep_def Let_def summary_fields intro!: carries_core)
next
  case (EvExpire now r)
  have "carries g (g\<lparr>rg_expiring := xs\<rparr>)" for xs by (rule carries_core) simp_all
  then have "carries g (applyTerminal now r y (g\<lparr>rg_expiring := xs\<rparr>))" for y xs by (rule carries_trans [OF _ carries_ends(1)])
  then show ?thesis using EvExpire by (simp add: expire_section_def)
qed (use assms in \<open>auto intro: carries_core\<close>)

lemma drains_ok_keeps: "drains_ok g \<Longrightarrow> carries g g' \<Longrightarrow> drains_ok g'"
  by (fastforce simp: drains_ok_def carries_def)

lemma drains_okD:
  assumes "drains_ok g" and "map_of (rg_drains g) d = Some c"
  shows "set (dr_left c) \<subseteq> set (dr_targets c)" "rid \<in> set (dr_targets c) \<Longrightarrow> the_entry g rid \<noteq> None"
    "rid \<in> set (dr_targets c) \<Longrightarrow> rid \<in> set (dr_left c) \<or> rid \<in> set (rg_released g)"
  using assms unfolding drains_ok_def by blast+

lemma drains_ok_put:
  assumes "drains_ok g" and "rg_entries g' = rg_entries g" "rg_released g' = rg_released g" "rg_drains g' = aput d c (rg_drains g)"
    and "set (dr_left c) \<subseteq> set (dr_targets c)" "\<And>rid. rid \<in> set (dr_targets c) \<Longrightarrow> the_entry g rid \<noteq> None"
    and "\<And>rid. rid \<in> set (dr_targets c) \<Longrightarrow> rid \<in> set (dr_left c) \<or> rid \<in> set (rg_released g)"
  shows "drains_ok g'"
  using assms unfolding drains_ok_def the_entry_def by auto

lemma drains_ok_open:
  assumes "drains_ok g" "ids_ok g" and "set xs \<subseteq> set (rg_active g)" and "rg_entries g' = rg_entries g" "rg_released g' = rg_released g"
    "rg_drains g' = aput d \<lparr>dr_targets = xs, dr_finishing = b, dr_left = xs, dr_code = code, dr_message = m, dr_outcomes = []\<rparr> (rg_drains g)"
  shows "drains_ok g'"
  by (rule drains_ok_put [OF assms(1,4-6)]) (use assms(2,3) in \<open>auto simp: ids_ok_def\<close>)

lemma released_ended: "ids_ok g \<Longrightarrow> the_entry g rid = Some e \<Longrightarrow> rid \<in> set (rg_released g) \<longleftrightarrow> ended e"
proof -
  assume "ids_ok g" and "the_entry g rid = Some e"
  then have "count_list (rg_released g) rid = (if ended e then 1 else 0)" by (simp add: ids_ok_def)
  then show ?thesis using count_list_0_iff [of "rg_released g" rid] by (simp split: if_splits)
qed

lemma drains_ok_next:
  assumes ok: "drains_ok g" "ids_ok g" and c: "map_of (rg_drains g) d = Some c" "dr_left c = rid # rids"
    and g': "g' = applyTerminal now rid x g" and c': "dr_targets c' = dr_targets c" "dr_left c' = rids"
  shows "drains_ok (g'\<lparr>rg_drains := aput d c' (rg_drains g)\<rparr>)"
proof -
  have k: "carries g g'" by (simp add: g' carries_ends)
  have ok': "drains_ok g'" using ok(1) k by (rule drains_ok_keeps)
  have ids: "ids_ok g'" using ids_ok_terminal [OF ok(2)] by (simp add: g')
  have cd: "map_of (rg_drains g') d = Some c" using c(1) k by (simp add: carries_def)
  have "the_entry g rid \<noteq> None" using ok(1) c drains_okD [OF ok(1) c(1)] by (metis list.set_intros(1) subsetD)
  then obtain e where e: "the_entry g rid = Some e" by blast
  have "en_rid e = rid" using ok(2) e by (auto simp: ids_ok_def)
  then obtain e' where "the_entry g' rid = Some e'" "ended e'"
    using applyTerminal_entry [OF e] e by (cases "ended e") (auto simp: g' ended_def)
  then have r: "rid \<in> set (rg_released g')" using released_ended [OF ids] by blast
  note p = drains_okD [OF ok' cd]
  show ?thesis
  proof (rule drains_ok_put [OF ok', of _ d c'])
    show "rg_drains (g'\<lparr>rg_drains := aput d c' (rg_drains g)\<rparr>) = aput d c' (rg_drains g')" using k by (simp add: carries_def)
    show "set (dr_left c') \<subseteq> set (dr_targets c')" using p(1) c c' by auto
    show "the_entry g' x \<noteq> None" if "x \<in> set (dr_targets c')" for x using p(2) [of x] that c' by simp
    show "x \<in> set (dr_left c') \<or> x \<in> set (rg_released g')" if "x \<in> set (dr_targets c')" for x
      using p(3) [of x] that c c' r by auto
  qed simp_all
qed

lemma drains_ok_step:
  assumes ok: "drains_ok g" "ids_ok g" and poss: "relay_possible ev g"
  shows "drains_ok (relay_step ev g)"
proof (cases ev)
  case (EvDrain d keys)
  then show ?thesis by (auto simp: drain_start_def Let_def
        intro!: drains_ok_open [OF ok, where xs = "filter (\<lambda>rid. case key_of g rid of Some k \<Rightarrow> k \<in> set keys | None \<Rightarrow> False) (rg_active g)"])
next
  case (EvDrainFinish d)
  have "drains_ok (g\<lparr>rg_drains := aput d (c\<lparr>dr_finishing := True\<rparr>) (rg_drains g)\<rparr>)" if "map_of (rg_drains g) d = Some c" for c
    by (rule drains_ok_put [OF ok(1), of _ d "c\<lparr>dr_finishing := True\<rparr>"]) (use drains_okD [OF ok(1) that] in simp_all)
  then show ?thesis using EvDrainFinish ok by (simp add: drain_finish_def split: option.split)
next
  case (EvDrainNext now d)
  have "drains_ok ((applyTerminal now rid x g)\<lparr>rg_drains := aput d c' (rg_drains g)\<rparr>)"
    if "map_of (rg_drains g) d = Some c" "dr_left c = rid # rids" "dr_targets c' = dr_targets c" "dr_left c' = rids" for c c' rid rids x
    by (rule drains_ok_next [OF ok that(1,2) refl that(3,4)])
  then show ?thesis
    using ok EvDrainNext by (auto simp: drain_next_def Let_def split: option.split bool.split list.split)
next
  case (EvCloseAll d code)
  then show ?thesis by (auto simp: closeAll_def Let_def intro!: drains_ok_open [OF ok, where xs = "rg_active g"])
next
  case (EvDispose d)
  then show ?thesis by (auto simp: relay_dispose_def intro!: drains_ok_open [OF ok, where xs = "rg_active g"])
qed (rule drains_ok_keeps [OF ok(1) carries_step]; simp)+

lemma drains_ok_reachable: "relay_reachable g \<Longrightarrow> drains_ok g"
proof (induction rule: relay_reachable.induct)
  case (relay_init epoch buffer idle life)
  show ?case by (simp add: createRelayRegistry_def drains_ok_def)
next
  case (relay_next g ev)
  then show ?case using drains_ok_step ids_ok_reachable by blast
qed

end
