(* ===== verification/RelayProps.thy ===== *)
theory RelayProps
  imports RelayDrain
begin

text \<open>
  Properties of the response relay (opendweb-ext-ai, provider/relay.mjs): what a consumer gets is what the
  upstream produced, piece by piece; one pull is decided at a time; no one sleeps over work; slots, buffers
  and summaries are summaries_counted for; a drain leaves nothing open.
\<close>

subsection \<open>Runs\<close>

fun relay_run :: "relay_event list \<Rightarrow> upstream \<Rightarrow> relay \<Rightarrow> (upstream \<times> relay) option" where
  "relay_run [] u g = Some (u, g)"
| "relay_run (ev # evs) u g = (if relay_possible ev g then relay_run evs (up_next ev g u) (relay_step ev g) else None)"

lemma run_trace: "relay_run evs u g = Some (v, g') \<Longrightarrow> relay_trace u g \<Longrightarrow> relay_trace v g'"
  by (induction evs arbitrary: u g) (auto intro: trace_next split: if_splits)

definition relay_start :: relay where
  "relay_start = createRelayRegistry ''epoch'' (Some 4) (Some 60) (Some 90)"

lemma relay_start_run: "relay_run evs no_upstream relay_start = Some (u, g) \<Longrightarrow> relay_trace u g"
  by (erule run_trace) (simp add: relay_start_def trace_init)

text \<open>Runs with a response: a pull that waits, with a writer that waits; and a response that is read to its end.\<close>

definition waiting_run :: "relay_event list" where
  "waiting_run =
     [EvCreate 0 ''r'' ''k'' ''g'', EvMeta ''r'' 200 ''t'' [], EvPull 1 0 ''r'' 0 ''k'' False, EvPullFirst 1 0,
      EvChunk 0 ''r'' [1, 2, 3], EvChunkTurn 0, EvChunk 1 ''r'' [4, 5], EvChunkTurn 1, EvPullSecond 2 0 False, EvPullRelease 0,
      EvPull 3 1 ''r'' 1 ''k'' False, EvPullFirst 3 1]"

definition complete_run :: "relay_event list" where
  "complete_run =
     [EvCreate 0 ''r'' ''k'' ''g'', EvMeta ''r'' 200 ''t'' [], EvChunk 0 ''r'' [1, 2, 3], EvChunkTurn 0, EvEnd ''r'',
      EvPull 1 0 ''r'' 0 ''k'' False, EvPullFirst 2 0, EvPullRelease 0, EvPull 3 1 ''r'' 1 ''k'' False, EvPullFirst 4 1, EvPullRelease 1]"

lemma lru_limit [code_unfold]: "int SUMMARY_LRU_MAX_BYTES = 4194304"
  by (simp add: SUMMARY_LRU_MAX_BYTES_def)

definition read_one :: "relay_response option" where "read_one = Some (chunk_response 0 [1, 2, 3] False)"

lemma waiting_example:
  obtains u g e where "relay_trace u g" and "the_entry g ''r'' = Some e" and "en_pullWaiters e = [1]" and "en_spaceWaiters e = []"
    and "map_of (rg_pulls g) 0 = Some (PullDone ''r'' read_one)" and "map_of (rg_pulls g) 1 = Some (PullHeld ''r'' 1)"
    and "map_of (rg_chunks g) 1 = Some (ChunkWait ''r'' [4, 5])" and "en_bufferBytes e = 0" and "rg_buffer g = 4"
    and "en_keyId e = ''k''" and "up_stream u ''r'' = [[1, 2, 3]]"
proof -
  have "case relay_run waiting_run no_upstream relay_start of
      Some (u, g) \<Rightarrow>
        (case the_entry g ''r'' of
           Some e \<Rightarrow>
             en_pullWaiters e = [1] \<and> en_spaceWaiters e = [] \<and> map_of (rg_pulls g) 0 = Some (PullDone ''r'' read_one) \<and>
             map_of (rg_pulls g) 1 = Some (PullHeld ''r'' 1) \<and> map_of (rg_chunks g) 1 = Some (ChunkWait ''r'' [4, 5]) \<and>
             en_bufferBytes e = 0 \<and> rg_buffer g = 4 \<and> en_keyId e = ''k'' \<and> up_stream u ''r'' = [[1, 2, 3]]
         | None \<Rightarrow> False)
    | None \<Rightarrow> False" by code_simp
  then show thesis using that relay_start_run [of waiting_run] by (auto split: option.splits)
qed

lemma complete_example:
  obtains u g e where "relay_trace u g" and "the_entry g ''r'' = Some e" and "en_terminal e = Some KDone" and "en_keyId e = ''k''"
    and "map_of (rg_pulls g) 0 = Some (PullDone ''r'' (Some (chunk_response 0 [1, 2, 3] True)))"
    and "map_of (rg_pulls g) 1 = Some (PullDone ''r'' (Some (summaryResponse 0)))" and "up_stream u ''r'' = [[1, 2, 3]]"
    and "length (rg_summaries g) = 1"
proof -
  have "case relay_run complete_run no_upstream relay_start of
      Some (u, g) \<Rightarrow>
        (case the_entry g ''r'' of
           Some e \<Rightarrow>
             en_terminal e = Some KDone \<and> en_keyId e = ''k'' \<and>
             map_of (rg_pulls g) 0 = Some (PullDone ''r'' (Some (chunk_response 0 [1, 2, 3] True))) \<and>
             map_of (rg_pulls g) 1 = Some (PullDone ''r'' (Some (summaryResponse 0))) \<and> up_stream u ''r'' = [[1, 2, 3]] \<and>
             length (rg_summaries g) = 1
         | None \<Rightarrow> False)
    | None \<Rightarrow> False" by code_simp
  then show thesis using that relay_start_run [of complete_run] by (auto split: option.splits)
qed

subsection \<open>What a consumer gets\<close>

lemma trace_local:
  assumes "relay_trace u g" and "the_entry g rid = Some e"
  shows "local_ok (rg_buffer g) (pulls_of g) (chunks_of g) (up_stream u rid) rid e"
  using relay_trace_inv [OF assms(1)] entries_okD [OF _ assms(2)] by (simp add: relay_inv_def)

lemma given_pull: "map_of (rg_pulls g) p = Some (PullDone rid (Some r)) \<Longrightarrow> given (pulls_of g) rid r"
  by (auto simp: given_def reply_def pulls_of_def answer_of_def intro!: exI [of _ p])

lemma trace_answer:
  assumes t: "relay_trace u g" and p: "map_of (rg_pulls g) p = Some (PullDone rid (Some r))" and "rr_status r = 200"
  obtains e where "the_entry g rid = Some e" and "answer_ok (up_stream u rid) e r"
proof (cases "the_entry g rid")
  case None
  have "entries_ok (up_stream u) g" using relay_trace_inv [OF t] by (simp add: relay_inv_def)
  then have "fresh_ok (pulls_of g) (up_stream u rid) rid" using None by (metis entries_ok_def here_ok_simps(2))
  then show thesis using given_pull [OF p] assms(3) by (simp add: fresh_ok_def)
next
  case (Some e)
  then show thesis using that trace_local [OF t Some] given_pull [OF p] by (auto simp: local_ok_def answers_ok_def)
qed

text \<open>
  C18. A consumer gets the stream that the upstream produced, whatever other calls, retries and ends of the
  response interleave.  The stream is recorded from the upstream's calls: the pieces given to the writes
  that completed while the response was open, in that order.  An answer 200 that carries bytes carries
  exactly the piece whose number it names.
\<close>

theorem pulls_deliver_the_stream:
  assumes "relay_trace u g" and "map_of (rg_pulls g) p = Some (PullDone rid (Some r))" and "rr_status r = 200" and "rr_body r \<noteq> NoBody"
  shows "\<exists>s l. s < length (up_stream u rid) \<and> r = chunk_response (int s) (up_stream u rid ! s) l"
proof -
  obtain e where e: "the_entry g rid = Some e" "answer_ok (up_stream u rid) e r" using trace_answer assms(1-3) .
  have st: "stream_ok (rg_buffer g) (up_stream u rid) e" using trace_local [OF assms(1) e(1)] by (rule local_okD)
  have "rr_body (summaryResponse c) = NoBody" for c by (simp add: summaryResponse_def)
  then obtain s l where "0 \<le> s" "s \<le> en_servedSeq e" "r = chunk_response s (up_stream u rid ! nat s) l"
    using e(2) assms(3,4) by (auto simp: answer_ok_def)
  then have "nat s < length (up_stream u rid)" "r = chunk_response (int (nat s)) (up_stream u rid ! nat s) l" using st by (auto simp: stream_ok_def)
  then show ?thesis by blast
qed

theorem pulls_deliver_the_stream_witness:
  "\<exists>u g s l. relay_trace u g \<and> map_of (rg_pulls g) 0 = Some (PullDone ''r'' read_one) \<and> s < length (up_stream u ''r'') \<and>
     read_one = Some (chunk_response (int s) (up_stream u ''r'' ! s) l)"
proof -
  obtain u g e where w: "relay_trace u g" "map_of (rg_pulls g) 0 = Some (PullDone ''r'' read_one)" by (rule waiting_example)
  have "rr_status (chunk_response 0 [1, 2, 3] False) = 200" "rr_body (chunk_response 0 [1, 2, 3] False) \<noteq> NoBody"
    by (simp_all add: chunk_response_def)
  from pulls_deliver_the_stream [OF w(1) _ this, of 0 "''r''"] w show ?thesis unfolding read_one_def by blast
qed

lemma done_header:
  "map_of (rr_headers (chunk_response s b l)) HDR_DONE \<noteq> None \<longleftrightarrow> l" "map_of (rr_headers (summaryResponse c)) HDR_DONE \<noteq> None"
  by (simp_all add: chunk_response_def summaryResponse_def HDR_SEQ_def HDR_NEXT_SEQ_def HDR_DONE_def)

text \<open>
  C19. A response is complete only when all of it was read: when a pull was answered 200 with the done header,
  the upstream had called for the end, every piece of the stream was sent to a pull, and the answer is the
  last piece of the stream or the summary, whose next number is the length of the stream.
\<close>

theorem done_means_everything_was_sent:
  assumes "relay_trace u g" and "map_of (rg_pulls g) p = Some (PullDone rid (Some r))" and "rr_status r = 200"
    and "map_of (rr_headers r) HDR_DONE \<noteq> None"
  shows "rid \<in> up_ended u \<and>
    (r = summaryResponse (int (length (up_stream u rid)) - 1) \<or>
     up_stream u rid \<noteq> [] \<and> r = chunk_response (int (length (up_stream u rid)) - 1) (last (up_stream u rid)) True) \<and>
    (\<forall>s. s \<ge> length (up_stream u rid) \<or> (\<exists>l. given (pulls_of g) rid (chunk_response (int s) (up_stream u rid ! s) l)))"
proof -
  let ?h = "up_stream u rid"
  obtain e where e: "the_entry g rid = Some e" "answer_ok ?h e r" using trace_answer assms(1-3) .
  have l: "stream_ok (rg_buffer g) ?h e" "answers_ok (pulls_of g) ?h rid e"
    using trace_local [OF assms(1) e(1)] by (simp_all add: local_ok_def)
  have len: "int (length ?h) = en_producedSeq e + 1" "en_servedSeq e \<le> en_producedSeq e" using l(1) by (simp_all add: stream_ok_def)
  have r: "en_eof e \<and> en_servedSeq e = en_producedSeq e \<and>
      (r = summaryResponse (int (length ?h) - 1) \<or> ?h \<noteq> [] \<and> r = chunk_response (int (length ?h) - 1) (last ?h) True)"
  proof -
    consider (piece) s x where "0 \<le> s" "s \<le> en_servedSeq e" "r = chunk_response s (?h ! nat s) x" "x \<longrightarrow> en_eof e \<and> s = en_producedSeq e"
      | (summary) "en_terminal e = Some KDone" "r = summaryResponse (en_producedSeq e)"
      using e(2) assms(3) by (auto simp: answer_ok_def)
    then show ?thesis
    proof cases
      case piece
      then have x: "x" "en_eof e" "s = en_producedSeq e" using assms(4) done_header(1) [of s "?h ! nat s" x] by auto
      then have "nat s = length ?h - 1" "?h \<noteq> []" using len(1) piece(1) by auto
      then show ?thesis using x piece len by (simp add: last_conv_nth)
    qed (use l(1) len in \<open>auto simp: stream_ok_def\<close>)
  qed
  have "\<exists>l. given (pulls_of g) rid (chunk_response (int i) (?h ! i) l)" if "i < length ?h" for i
    using l(2) r len that unfolding answers_ok_def
    by (metis int_one_le_iff_zero_less add_diff_cancel nat_int of_nat_0_le_iff of_nat_less_iff zle_diff1_eq)
  moreover have "rid \<in> up_ended u" using r relay_trace_inv [OF assms(1)] up_okD(4) [of u g rid e] e(1) by simp
  ultimately show ?thesis using r by (metis not_less)
qed

theorem done_means_everything_was_sent_witness:
  "\<exists>u g. relay_trace u g \<and> map_of (rg_pulls g) 1 = Some (PullDone ''r'' (Some (summaryResponse 0))) \<and>
     ''r'' \<in> up_ended u \<and> length (up_stream u ''r'') = 1 \<and>
     (\<exists>l. given (pulls_of g) ''r'' (chunk_response (int 0) (up_stream u ''r'' ! 0) l))"
proof -
  obtain u g e where w: "relay_trace u g" "map_of (rg_pulls g) 1 = Some (PullDone ''r'' (Some (summaryResponse 0)))"
    "up_stream u ''r'' = [[1, 2, 3]]" by (rule complete_example)
  have "rr_status (summaryResponse 0) = 200" by (simp add: summaryResponse_def)
  note t = done_means_everything_was_sent [OF w(1,2) this done_header(2)]
  have "length (up_stream u ''r'') = 1" using w(3) by simp
  then show ?thesis using w(1,2) t [THEN conjunct1] t [THEN conjunct2, THEN conjunct2, THEN spec [of _ 0]] by auto
qed

text \<open>
  Only one pull of a response is served at a time: of two pulls between their decision and their
  release, which includes the time a pull is held, both are the same, and the flag of the response is set
  exactly while there is one.
\<close>

theorem one_pull_at_a_time:
  assumes "relay_reachable g" and "the_entry g rid = Some e" and "busy (pulls_of g) rid p"
  shows "en_pullInFlight e \<and> (\<forall>q. busy (pulls_of g) rid q = (q = p))"
proof -
  obtain u where "relay_trace u g" using reachable_trace [OF assms(1)] by blast
  then have "flight_ok (pulls_of g) rid e" using trace_local assms(2) by (blast intro: local_okD)
  then show ?thesis using assms(3) by (auto simp: flight_ok_def)
qed

theorem one_pull_at_a_time_witness:
  "\<exists>g e. relay_reachable g \<and> the_entry g ''r'' = Some e \<and> busy (pulls_of g) ''r'' 1 \<and> en_pullInFlight e \<and>
     (\<forall>q. busy (pulls_of g) ''r'' q = (q = 1))"
proof -
  obtain u g e where w: "relay_trace u g" "the_entry g ''r'' = Some e" "map_of (rg_pulls g) 1 = Some (PullHeld ''r'' 1)"
    by (rule waiting_example)
  have "busy (pulls_of g) ''r'' 1" using w(3) by (simp add: busy_def pulls_of_def)
  with one_pull_at_a_time [OF trace_reachable [OF w(1)] w(2) this] w trace_reachable [OF w(1)] show ?thesis by blast
qed

subsection \<open>Nobody sleeps over work\<close>

lemma nothing_to_decide:
  assumes "the_entry g rid = Some e" and "\<not> ended e" and "stream_ok cap hs e" and "n = en_committedSeq e + 1" "en_pending e = []" "\<not> en_eof e"
  shows "fst (decideReady now rid n g) = None"
proof -
  have "confirm n e = e" using assms(3,4) by (auto simp: confirm_def stream_ok_def Let_def)
  then show ?thesis using assms by (simp add: decideReady_def Let_def)
qed

text \<open>
  C20. No wake-up is lost.  A held pull that is still among the sleepers has nothing to say: deciding it again
  at any time gives no answer, so whoever produces a piece, ends the stream or ends the response has woken
  it.  And a writer whose piece would fit, or whose response is over, is not among the sleepers: its next
  turn completes the write.
\<close>

theorem nobody_oversleeps:
  assumes "relay_reachable g" and "the_entry g rid = Some e"
  shows "(\<forall>p n. p \<in> set (en_pullWaiters e) \<and> map_of (rg_pulls g) p = Some (PullHeld rid n) \<longrightarrow> fst (decideReady now rid n g) = None) \<and>
    (\<forall>w piece. map_of (rg_chunks g) w = Some (ChunkWait rid piece) \<and> (ended e \<or> en_eof e \<or> en_bufferBytes e + length piece \<le> rg_buffer g) \<longrightarrow>
       map_of (rg_chunks (chunk_turn w g)) w = Some ChunkDone)"
proof -
  obtain u where "relay_trace u g" using reachable_trace [OF assms(1)] by blast
  note l = trace_local [OF this assms(2)]
  have st: "stream_ok (rg_buffer g) (up_stream u rid) e" using l by (rule local_okD)
  have "fst (decideReady now rid n g) = None"
    if p: "p \<in> set (en_pullWaiters e)" "map_of (rg_pulls g) p = Some (PullHeld rid n)" for p n
  proof (rule nothing_to_decide [OF assms(2) _ st])
    show "\<not> ended e" using st p by (auto simp: stream_ok_def)
    have "pulls_of g p = Some (PullHeld rid n)" using p by (simp add: pulls_of_def)
    then show "n = en_committedSeq e + 1" "en_pending e = []" "\<not> en_eof e"
      using l p by (auto simp: local_ok_def asleep_ok_def)
  qed
  moreover have "map_of (rg_chunks (chunk_turn w g)) w = Some ChunkDone"
    if w: "map_of (rg_chunks g) w = Some (ChunkWait rid piece)" "ended e \<or> en_eof e \<or> en_bufferBytes e + length piece \<le> rg_buffer g"
    for w piece
  proof -
    have "\<not> waits_for_space w rid g"
      using l st w assms(2) by (auto simp: waits_for_space_def local_ok_def space_ok_def chunks_of_def stream_ok_def)
    then show ?thesis using w assms(2) by (auto simp: chunk_turn_def chunk_section_def)
  qed
  ultimately show ?thesis by blast
qed

theorem nobody_oversleeps_witness:
  "\<exists>g e. relay_reachable g \<and> the_entry g ''r'' = Some e \<and> 1 \<in> set (en_pullWaiters e) \<and> map_of (rg_pulls g) 1 = Some (PullHeld ''r'' 1) \<and>
     fst (decideReady 9 ''r'' 1 g) = None \<and> map_of (rg_chunks g) 1 = Some (ChunkWait ''r'' [4, 5]) \<and>
     map_of (rg_chunks (chunk_turn 1 g)) 1 = Some ChunkDone"
proof -
  obtain u g e where w: "relay_trace u g" "the_entry g ''r'' = Some e" "en_pullWaiters e = [1]"
    "map_of (rg_pulls g) 1 = Some (PullHeld ''r'' 1)" "map_of (rg_chunks g) 1 = Some (ChunkWait ''r'' [4, 5])"
    "en_bufferBytes e = 0" "rg_buffer g = 4" by (rule waiting_example)
  note t = nobody_oversleeps [OF trace_reachable [OF w(1)] w(2), of 9]
  have "1 \<in> set (en_pullWaiters e)" "en_bufferBytes e + length [4 :: 8 word, 5] \<le> rg_buffer g" using w by simp_all
  with t w trace_reachable [OF w(1)] show ?thesis by blast
qed

subsection \<open>Accounts\<close>

text \<open>
  C21. The memory of the relay is bounded and its books are exact: the bytes counted for the summaries are the
  sum of their sizes, they stay within 4 MiB unless there is only one summary, and the buffer of every
  response counts its pieces and stays within the size the relay was created with.
\<close>

theorem memory_is_bounded:
  assumes "relay_reachable g"
  shows "rg_bytes g = (\<Sum>(rid, r) \<leftarrow> rg_summaries g. int (summary_size r)) \<and>
    (rg_bytes g \<le> int SUMMARY_LRU_MAX_BYTES \<or> length (rg_summaries g) \<le> 1) \<and>
    (\<forall>rid e. the_entry g rid = Some e \<longrightarrow> en_bufferBytes e = sum_list (map (length \<circ> snd) (en_pending e)) \<and> en_bufferBytes e \<le> rg_buffer g)"
proof -
  obtain u where t: "relay_trace u g" using reachable_trace [OF assms] by blast
  have "en_bufferBytes e = sum_list (map (length \<circ> snd) (en_pending e)) \<and> en_bufferBytes e \<le> rg_buffer g" if "the_entry g rid = Some e" for rid e
  proof -
    have "stream_ok (rg_buffer g) (up_stream u rid) e" using trace_local [OF t that] by (rule local_okD)
    moreover have "buffer_size ps = sum_list (map (length \<circ> snd) ps)" for ps by (simp add: buffer_size_def case_prod_unfold comp_def)
    ultimately show ?thesis by (simp add: stream_ok_def)
  qed
  then show ?thesis using sound_account_reachable [OF assms] unfolding sound_account_def summaries_counted_def bounded_def by blast
qed

theorem memory_is_bounded_witness:
  "\<exists>g e. relay_reachable g \<and> the_entry g ''r'' = Some e \<and> length (rg_summaries g) = 1 \<and>
     rg_bytes g = (\<Sum>(rid, r) \<leftarrow> rg_summaries g. int (summary_size r)) \<and> en_bufferBytes e \<le> rg_buffer g"
proof -
  obtain u g e where w: "relay_trace u g" "the_entry g ''r'' = Some e" "length (rg_summaries g) = 1" by (rule complete_example)
  with memory_is_bounded [OF trace_reachable [OF w(1)]] trace_reachable [OF w(1)] show ?thesis by blast
qed

text \<open>
  C22. A slot of the provider is given back once for each response and exactly when the response ends: the
  active responses are those that have not ended, and the list of releases holds every other response one
  time.  A response that has ended holds no buffer and keeps nobody waiting.
\<close>

theorem slots_are_released_once:
  assumes "relay_reachable g" and "the_entry g rid = Some e"
  shows "(rid \<in> set (rg_active g)) = (\<not> ended e) \<and> count_list (rg_released g) rid = (if ended e then 1 else 0) \<and>
    (\<not> ended e \<or> en_pending e = [] \<and> en_bufferBytes e = 0 \<and> en_pullWaiters e = [] \<and> en_spaceWaiters e = [])"
proof -
  obtain u where t: "relay_trace u g" using reachable_trace [OF assms(1)] by blast
  have "stream_ok (rg_buffer g) (up_stream u rid) e" using trace_local [OF t assms(2)] by (rule local_okD)
  then have "\<not> ended e \<or> en_pending e = [] \<and> en_bufferBytes e = 0 \<and> en_pullWaiters e = [] \<and> en_spaceWaiters e = []"
    by (auto simp: stream_ok_def buffer_size_def)
  then show ?thesis using ids_ok_reachable [OF assms(1)] assms(2) by (simp add: ids_ok_def)
qed

theorem slots_are_released_once_witness:
  "\<exists>g e. relay_reachable g \<and> the_entry g ''r'' = Some e \<and> ended e \<and> \<not> ''r'' \<in> set (rg_active g) \<and> count_list (rg_released g) ''r'' = 1"
proof -
  obtain u g e where w: "relay_trace u g" "the_entry g ''r'' = Some e" "en_terminal e = Some KDone" by (rule complete_example)
  have "ended e" using w(3) by (simp add: ended_def)
  with slots_are_released_once [OF trace_reachable [OF w(1)] w(2)] trace_reachable [OF w(1)] w(2) show ?thesis by auto
qed

text \<open>
  C23. A drain that has gone through its targets leaves none of them open: every response it was to settle,
  which are the responses of the revoked keys, or all active ones when the relay closes, has ended and
  given back its slot.
\<close>

theorem drain_ends_its_targets:
  assumes "relay_reachable g" and "map_of (rg_drains g) d = Some c" and "dr_left c = []" and "rid \<in> set (dr_targets c)"
  shows "\<exists>e. the_entry g rid = Some e \<and> ended e \<and> rid \<notin> set (rg_active g) \<and> count_list (rg_released g) rid = 1"
proof -
  have ids: "ids_ok g" using assms(1) by (rule ids_ok_reachable)
  note p = drains_okD [OF drains_ok_reachable [OF assms(1)] assms(2)]
  obtain e where e: "the_entry g rid = Some e" using p(2) [OF assms(4)] by blast
  have "rid \<in> set (rg_released g)" using p(3) [OF assms(4)] assms(3) by simp
  then have "ended e" using released_ended [OF ids e] by simp
  then show ?thesis using ids e by (simp add: ids_ok_def)
qed

definition drain_run :: "relay_event list" where
  "drain_run = [EvCreate 0 ''r'' ''k'' ''g'', EvMeta ''r'' 200 ''t'' [], EvDrain 0 [''k''], EvDrainFinish 0, EvDrainNext 1 0]"

theorem drain_ends_its_targets_witness:
  "\<exists>g c e. relay_reachable g \<and> map_of (rg_drains g) 0 = Some c \<and> dr_left c = [] \<and> ''r'' \<in> set (dr_targets c) \<and>
     the_entry g ''r'' = Some e \<and> ended e \<and> count_list (rg_released g) ''r'' = 1"
proof -
  have "case relay_run drain_run no_upstream relay_start of
      Some (u, g) \<Rightarrow>
        (case map_of (rg_drains g) 0 of Some c \<Rightarrow> dr_left c = [] \<and> ''r'' \<in> set (dr_targets c) | None \<Rightarrow> False)
    | None \<Rightarrow> False" by code_simp
  then obtain u g c where w: "relay_run drain_run no_upstream relay_start = Some (u, g)" "map_of (rg_drains g) 0 = Some c" "dr_left c = []"
    "''r'' \<in> set (dr_targets c)" by (auto split: option.splits)
  have r: "relay_reachable g" using relay_start_run [OF w(1)] by (rule trace_reachable)
  from drain_ends_its_targets [OF r w(2-4)] r w show ?thesis by blast
qed

subsection \<open>Keys\<close>

text \<open>
  A response belongs to the key it was created for: a pull with another key, whether the response is
  active or has ended, changes no response, is over at once, and its answer carries neither bytes nor the
  end of the stream.
\<close>

theorem other_keys_get_nothing:
  assumes "relay_reachable g" and "the_entry g rid = Some e" and "key \<noteq> en_keyId e"
  shows "\<exists>r. map_of (rg_pulls (pull_release p (pull_start now p rid n key False g))) p = Some (PullDone rid (Some r)) \<and>
    (r = problem 404 ''response_not_found'' \<or> r = problem 409 ''pull_in_flight'') \<and>
    rg_entries (pull_release p (pull_start now p rid n key False g)) = rg_entries g"
proof -
  obtain u where "relay_trace u g" using reachable_trace [OF assms(1)] by blast
  then have inv: "summaries_ok g" using relay_trace_inv by (simp add: relay_inv_def)
  have t: "terminalReplay now rid key g = (problem 404 ''response_not_found'', g)"
  proof (cases "map_of (rg_summaries g) rid")
    case (Some s)
    then have "tells (the_entry g rid) s" using inv by (simp add: summaries_ok_def)
    then have "su_keyId s \<noteq> key" using assms(2,3) by (simp add: tells_def)
    then show ?thesis using Some by (simp add: terminalReplay_def)
  qed (simp add: terminalReplay_def)
  show ?thesis
    using t assms(2,3) by (auto simp: pull_start_def pull_release_def set_pull_def split: option.split)
qed

theorem other_keys_get_nothing_witness:
  "\<exists>g r. relay_reachable g \<and> map_of (rg_pulls (pull_release 9 (pull_start 5 9 ''r'' 0 ''other'' False g))) 9 = Some (PullDone ''r'' (Some r)) \<and>
     (r = problem 404 ''response_not_found'' \<or> r = problem 409 ''pull_in_flight'')"
proof -
  obtain u g e where w: "relay_trace u g" "the_entry g ''r'' = Some e" "en_keyId e = ''k''" by (rule complete_example)
  have "''other'' \<noteq> en_keyId e" using w(3) by simp
  from other_keys_get_nothing [OF trace_reachable [OF w(1)] w(2) this, of 9 5 0] trace_reachable [OF w(1)] show ?thesis by blast
qed

subsection \<open>A late cancellation\<close>

text \<open>
  A cancellation that waits for the lock while a pull completes the response answers that the response was
  cancelled, although it ended as done and its summary says so.
\<close>

definition late_cancel :: "relay_event list" where
  "late_cancel =
     [EvCreate 0 ''r'' ''k'' ''g'', EvMeta ''r'' 200 ''t'' [], EvEnd ''r'', EvPull 1 0 ''r'' 0 ''k'' False,
      EvCancel 2 0 ''r'' ''epoch'' ''k'', EvPullFirst 3 0, EvCancelSection 4 0]"

lemma cancel_answers_cancelled_when_done:
  "case relay_run late_cancel no_upstream relay_start of
     Some (u, g) \<Rightarrow>
       map_of (rg_cancels g) 0 = Some (CancelDone (status_answer KCancelled)) \<and>
       map_option en_terminal (the_entry g ''r'') = Some (Some KDone) \<and>
       map_option su_kind (map_of (rg_summaries g) ''r'') = Some KDone
   | None \<Rightarrow> False"
  by code_simp

end
