(* ===== verification/Spec2Isabelle.thy ===== *)
theory Spec2Isabelle
  imports Prelude Utf8 Store Objects Merge Worktree Intent Closure Trees Scheduler Util FileLock Keyed Ledger Ignore Scan Z32 Endpoint Json Session Engine Publish Capture Rounds RoundProps ShortCode ShortProps ShortRound ShortCanon Blake3 BlakeProps HomeFiles HomeProps Leases LeaseProps Register DeviceKey Join JoinProps JoinSafe LockProps RegisterProps Gf256 ReedSolomon Qr QrGrid QrProps Relay RelayInv RelayLocal RelayCalls RelayTrace RelayDrain RelayProps
begin

text \<open>
  A verification development for opendweb.

  opendweb connects the devices of a person to a private network (a fabric).  The repository is a set of
  packages under \<^verbatim>\<open>src/packages\<close>, mostly JavaScript, over a network layer and a server in Rust
  (\<^verbatim>\<open>src/crates\<close>).  The development models the parts of the JavaScript packages that carry state, protocols
  and codecs of their own, in four groups.

  \<^bold>\<open>Synchronisation\<close> (\<^verbatim>\<open>opendweb-ext-sync/src\<close>).  Devices of a group keep a directory the same.  Each root has a
  repository of git objects; a round commits the tree, fetches from the peer, merges, and materialises the
  result through a transaction.
  \<^item> \<open>Objects\<close>, \<open>Trees\<close>, \<open>Closure\<close>: \<^verbatim>\<open>objects.mjs\<close>.  A repository (\<open>gitdir\<close>) is a table of loose objects and a table of
    references; \<open>readObject\<close>, \<open>writeBlob\<close>, \<open>writeRef\<close>, \<open>writeTreeFromFlat\<close>, \<open>readTreeFlat\<close>, \<open>walkClosure\<close> and \<open>mergeBase\<close>
    have the names of the code.  Shown: trees read back as they were written, the walks end and are exact.
  \<^item> \<open>Merge\<close>, \<open>Session\<close>: \<^verbatim>\<open>merge.mjs\<close>, the three-way merge of flat trees and texts, and the name of a conflict.
    Shown: every path gets the treatment the rules prescribe, decisions for all hunks give a text, merged
    entries never hold a file below a file.
  \<^item> \<open>Worktree\<close>, \<open>Scan\<close>, \<open>Ignore\<close>: \<^verbatim>\<open>worktree.mjs\<close> and \<^verbatim>\<open>ignore.mjs\<close>, materialising and judging one path, the anchored
    scan against a file system that others change, the ignore rules.
  \<^item> \<open>Intent\<close>: \<^verbatim>\<open>intent.mjs\<close>, the transaction log; a crash is an exception at one of the stages the code names.
    Shown: an uninterrupted transaction commits, a crash at any stage is recovered, edits are not overwritten.
  \<^item> \<open>Util\<close>, \<open>FileLock\<close>: \<^verbatim>\<open>util.mjs\<close>; the lock is also run as an interleaving of processes, in which it excludes.
  \<^item> \<open>Ledger\<close>, \<open>Scheduler\<close>: \<^verbatim>\<open>ledger.mjs\<close> and \<^verbatim>\<open>scheduler.mjs\<close>; what a ledger of records under keys promises is the
    locale \<open>keyed_ledger\<close> of \<open>Keyed\<close>, interpreted on the groups.
  \<^item> \<open>Z32\<close>, \<open>Endpoint\<close>: the codec of peer ids (\<^verbatim>\<open>provider/z32.mjs\<close> of the AI package, which the endpoint inlines)
    and \<^verbatim>\<open>endpoint.mjs\<close>.  A push is run in the phases between which the code awaits, and overlapping pushes are a
    step relation.  Shown: a push does all or nothing, overlapping pushes refine compare-and-swap registers.
  \<^item> \<open>Engine\<close>, \<open>Publish\<close>, \<open>Capture\<close>, \<open>Rounds\<close>, \<open>RoundProps\<close>: \<^verbatim>\<open>engine.mjs\<close>.  Shown: a commit captures the tree, a fetch is
    safe against any peer, the operations make the tree the merged one, a round reports how it ended and a
    conflict leaves the tree alone.

  \<^bold>\<open>The command line tool\<close> (\<^verbatim>\<open>opendweb/src\<close>).  It admits a machine to a fabric with a short code.
  \<^item> \<open>ShortCode\<close>, \<open>ShortProps\<close>, \<open>ShortRound\<close>, \<open>ShortCanon\<close>: \<^verbatim>\<open>util.mjs\<close>, access short codes and addresses.  Shown: codes decode
    to what they were made for, accepted codes are canonical, typos within three neighbours are refused.
  \<^item> \<open>Gf256\<close>, \<open>ReedSolomon\<close>, \<open>Qr\<close>, \<open>QrGrid\<close>, \<open>QrProps\<close>: \<^verbatim>\<open>qr.mjs\<close>.  The field is an instance of the type class of fields,
    the divisor and the remainder are polynomials over it.  Shown: the text can be read back from the
    modules, and damage below half the error correction bytes of a block leaves one text.
  \<^item> \<open>Blake3\<close>, \<open>BlakeProps\<close>: \<^verbatim>\<open>blake3.mjs\<close> on 32-bit words.  Shown: the incremental hasher is the tree hash.
  \<^item> \<open>Register\<close>, \<open>RegisterProps\<close>, \<open>DeviceKey\<close>: \<^verbatim>\<open>register.mjs\<close>, \<^verbatim>\<open>ed25519.mjs\<close>, \<^verbatim>\<open>device-key.mjs\<close>, the signed texts and the
    key file.
  \<^item> \<open>HomeFiles\<close>, \<open>HomeProps\<close>, \<open>Leases\<close>, \<open>LeaseProps\<close>, \<open>LockProps\<close>, \<open>Join\<close>, \<open>JoinProps\<close>, \<open>JoinSafe\<close>: \<^verbatim>\<open>leases.mjs\<close>, \<^verbatim>\<open>join.mjs\<close> and
    \<^verbatim>\<open>identity.mjs\<close>.  Every file operation, request and reading of the clock is one tick of an environment that
    may kill the process before it; triples (\<open>HomeProps\<close>) speak of every way a call can end.  Shown: one fabric
    for one machine, no admission request is forgotten, what a success means, asking for a lock ends.

  \<^bold>\<open>The AI provider\<close> (\<^verbatim>\<open>opendweb-ext-ai/src/provider\<close>).  It forwards requests of consumers to a model service.
  \<^item> \<open>Relay\<close>, \<open>RelayInv\<close>, \<open>RelayLocal\<close>, \<open>RelayCalls\<close>, \<open>RelayTrace\<close>, \<open>RelayDrain\<close>, \<open>RelayProps\<close>: \<^verbatim>\<open>relay.mjs\<close>, the response relay.
    A section under the lock of a response is a step, and calls with several sections (a pull, a write that
    waits for space, a cancellation, a drain) are part of the state, so every interleaving of sections is a
    trace.  Shown: pulls deliver the stream, done means that everything was sent, no wake-up is lost, memory
    is bounded and accounted for, slots are given back once, a drain leaves nothing open.

  \<^bold>\<open>Shared vocabulary\<close>.  \<open>Prelude\<close> (results of code that may throw, strings, JSON), \<open>Utf8\<close>, \<open>Json\<close>, and \<open>Store\<close>,
  whose locale \<open>kv_store\<close> states what a table keeps and is interpreted on the association lists all
  components use.  Two more locales carry proofs: \<open>redo_log\<close>, what makes a log that is run again after a crash
  safe, is interpreted on the transactions, and \<open>effect_frame\<close>, what a relation between worlds needs to hold
  over sequences of effects, on four relations of the engine and its rounds.

  \<^bold>\<open>Conventions\<close>.  A JavaScript object is a record, a tagged union a datatype, a \<^verbatim>\<open>Map\<close> an association list in
  insertion order, a number a \<open>nat\<close> or \<open>int\<close>, except where the code computes on 32 bits, which are words.  Code
  that may throw returns a sum; code that acts on a world is a function from the world to a result and a
  world.  What the sources take from elsewhere is a parameter with its documented behaviour as a named
  hypothesis: SHA-1 and the git encodings (\<open>git_lib\<close>), Ed25519, the clock, random bytes, the peer, the server,
  the file system between two looks at it.

  \<^bold>\<open>Fuel and termination\<close>.  Loops that may not end are \<open>partial_function\<close>s into options (the walks over objects,
  the reading of a tree, the scan), and that they end is proved, on stores and trees that do not change.
  Loops with a bound in the code have it in the model: a lock is tried as often as its list of pauses or
  \<open>LOCK_RETRIES\<close> says, and the removal of old summaries in the relay has one turn for each summary, which is
  enough because each turn removes one.

  \<^bold>\<open>Not modelled\<close>.  The process supervision, the plugin host and the argument tables of the hub; the storage,
  the hooks, the request forwarding and the consumer side of the AI package; the extensions for files, ports
  and Cloudflare; the console with its user interface; the tray, the website, the client SDK and the example.
  These are I/O, user interface, wrappers of third-party services, or were not reached; the manifest of the
  components gives the reason for each.  Of the modelled files, what is left out is the wiring to timers,
  sockets and file watching, log output, and functions that only read for display.  The two download workers
  of a fetch run as one, and disk failures are modelled only where the code handles them.  The Rust crates
  are outside; they enter as the peer and as the server.
\<close>

end
